(* ===== verification/Prelude.thy ===== *)
theory Prelude
  imports Main "HOL-Library.Monad_Syntax"
begin

text \<open>
  What the components share: the reading of Rust's panics, orderings and fixed capacity
  vectors, the dictionaries that stand for the traits of the \<open>sum_tree\<close> crate, and the
  generic facts about lists and options the component proofs use.

  A Rust function that can panic (\<open>unwrap\<close> on \<open>None\<close>, an index out of range, a full
  \<open>ArrayVec\<close>, \<open>unreachable!\<close>, \<open>assert!\<close>, an unsigned subtraction below zero) is a HOL
  function into \<open>'a option\<close>, and \<open>None\<close> is the panic. A Rust function that returns an
  \<open>Option<T>\<close> of its own and can panic is therefore a function into \<open>'a option option\<close>.
\<close>

named_theorems panic_free \<open>facts that discharge one panic of the code\<close>

type_synonym 'a rust = "'a option"

abbreviation panic :: "'a rust" where
  "panic \<equiv> None"

abbreviation ret :: "'a \<Rightarrow> 'a rust" where
  "ret \<equiv> Some"

declare Let_def [simp]

section \<open>Orderings\<close>

text \<open>\<open>std::cmp::Ordering\<close> and the total order of \<open>Ord\<close>.\<close>

datatype ordering = Less | Equal | Greater

definition ord_cmp :: "'a::linorder \<Rightarrow> 'a \<Rightarrow> ordering" where
  "ord_cmp a b = (if a < b then Less else if a = b then Equal else Greater)"

text \<open>\<open>Ordering::then\<close>.\<close>

definition ord_then :: "ordering \<Rightarrow> ordering \<Rightarrow> ordering" where
  "ord_then a b = (if a = Equal then b else a)"

text \<open>\<open>Ordering::is_ge\<close>.\<close>

definition ord_is_ge :: "ordering \<Rightarrow> bool" where
  "ord_is_ge a \<longleftrightarrow> a \<noteq> Less"

lemma ord_cmp_simps [simp]:
  "ord_cmp a b = Less \<longleftrightarrow> a < b"
  "ord_cmp a b = Equal \<longleftrightarrow> a = b"
  "ord_cmp a b = Greater \<longleftrightarrow> b < a"
  by (auto simp: ord_cmp_def)

lemma ord_is_ge_cmp [simp]: "ord_is_ge (ord_cmp a b) \<longleftrightarrow> b \<le> a"
  by (auto simp: ord_is_ge_def not_less)

section \<open>Panicking primitives\<close>

text \<open>Unsigned subtraction: below zero it panics (with overflow checks on).\<close>

definition checked_minus :: "nat \<Rightarrow> nat \<Rightarrow> nat rust" where
  "checked_minus a b = (if b \<le> a then ret (a - b) else panic)"

text \<open>A fixed capacity vector is the list of its elements; what goes past the capacity panics.\<close>

definition fits :: "nat \<Rightarrow> 'a list \<Rightarrow> 'a list rust" where
  "fits cap xs = (if length xs \<le> cap then ret xs else panic)"

text \<open>Indexing, and \<open>first\<close>/\<open>last\<close> followed by \<open>unwrap\<close>.\<close>

definition index_or_panic :: "'a list \<Rightarrow> nat \<Rightarrow> 'a rust" where
  "index_or_panic xs i = (if i < length xs then ret (xs ! i) else panic)"

text \<open>The slice \<open>xs[i..]\<close>, which panics when \<open>i\<close> is past the length.\<close>

definition slice_from :: "'a list \<Rightarrow> nat \<Rightarrow> 'a list rust" where
  "slice_from xs i = (if i \<le> length xs then ret (drop i xs) else panic)"

text \<open>The slice \<open>xs[..i]\<close>.\<close>

definition slice_to :: "'a list \<Rightarrow> nat \<Rightarrow> 'a list rust" where
  "slice_to xs i = (if i \<le> length xs then ret (take i xs) else panic)"

text \<open>\<open>first()\<close> and \<open>last()\<close> of a slice.\<close>

definition list_first :: "'a list \<Rightarrow> 'a option" where
  "list_first xs = (case xs of [] \<Rightarrow> None | x # _ \<Rightarrow> Some x)"

definition list_last :: "'a list \<Rightarrow> 'a option" where
  "list_last xs = (if xs = [] then None else Some (last xs))"

text \<open>\<open>slice.get(i)\<close>.\<close>

definition list_get :: "'a list \<Rightarrow> nat \<Rightarrow> 'a option" where
  "list_get xs i = (if i < length xs then Some (xs ! i) else None)"

lemma checked_minus_ok [panic_free]: "b \<le> a \<Longrightarrow> checked_minus a b = ret (a - b)"
  by (simp add: checked_minus_def)

lemma fits_ok [panic_free]: "length xs \<le> cap \<Longrightarrow> fits cap xs = ret xs"
  by (simp add: fits_def)

lemma index_or_panic_ok [panic_free]: "i < length xs \<Longrightarrow> index_or_panic xs i = ret (xs ! i)"
  by (simp add: index_or_panic_def)

lemma slice_from_ok [panic_free]: "i \<le> length xs \<Longrightarrow> slice_from xs i = ret (drop i xs)"
  by (simp add: slice_from_def)

lemma slice_to_ok [panic_free]: "i \<le> length xs \<Longrightarrow> slice_to xs i = ret (take i xs)"
  by (simp add: slice_to_def)

lemma list_first_simps [simp]: "list_first [] = None" "list_first (x # xs) = Some x"
  by (simp_all add: list_first_def)

lemma list_first_hd: "xs \<noteq> [] \<Longrightarrow> list_first xs = Some (hd xs)"
  by (cases xs) simp_all

lemma list_last_simps [simp]: "list_last [] = None" "list_last (xs @ [x]) = Some x"
  by (simp_all add: list_last_def)

lemma list_last_last: "xs \<noteq> [] \<Longrightarrow> list_last xs = Some (last xs)"
  by (simp add: list_last_def)

lemma list_ends_map:
  "list_first (map f xs) = map_option f (list_first xs)" "list_last (map f xs) = map_option f (list_last xs)"
  by (cases xs) (simp_all add: list_last_def last_map)

text \<open>Assignments through \<open>first_mut().unwrap()\<close> and \<open>last_mut().unwrap()\<close>.\<close>

definition set_first :: "'a list \<Rightarrow> 'a \<Rightarrow> 'a list rust" where
  "set_first xs y = (if xs = [] then panic else ret (y # tl xs))"

definition set_last :: "'a list \<Rightarrow> 'a \<Rightarrow> 'a list rust" where
  "set_last xs y = (if xs = [] then panic else ret (butlast xs @ [y]))"

lemma set_first_ok [panic_free]: "xs \<noteq> [] \<Longrightarrow> set_first xs y = ret (y # tl xs)"
  by (simp add: set_first_def)

lemma set_last_ok [panic_free]: "xs \<noteq> [] \<Longrightarrow> set_last xs y = ret (butlast xs @ [y])"
  by (simp add: set_last_def)

text \<open>A \<open>debug_assert!\<close> (the model is of a build with debug assertions and overflow checks).\<close>

definition assert_or_panic :: "bool \<Rightarrow> unit rust" where
  "assert_or_panic b = (if b then ret () else panic)"

lemma assert_or_panic_ok [panic_free]: "b \<Longrightarrow> assert_or_panic b = ret ()"
  by (simp add: assert_or_panic_def)

text \<open>A loop over a slice whose body can panic.\<close>

primrec fold_rust :: "('b \<Rightarrow> 'a \<Rightarrow> 'b rust) \<Rightarrow> 'b \<Rightarrow> 'a list \<Rightarrow> 'b rust" where
  "fold_rust f st [] = ret st"
| "fold_rust f st (x # xs) = do { st' \<leftarrow> f st x; fold_rust f st' xs }"

primrec map_rust :: "('a \<Rightarrow> 'b rust) \<Rightarrow> 'a list \<Rightarrow> 'b list rust" where
  "map_rust f [] = ret []"
| "map_rust f (x # xs) = do { y \<leftarrow> f x; ys \<leftarrow> map_rust f xs; ret (y # ys) }"

lemma map_rust_ok [panic_free]: "(\<forall>x \<in> set xs. f x = ret (g x)) \<Longrightarrow> map_rust f xs = ret (map g xs)"
  by (induction xs) simp_all

lemma fold_rust_append:
  "fold_rust f st (xs @ ys) = do { st' \<leftarrow> fold_rust f st xs; fold_rust f st' ys }"
  by (induction xs arbitrary: st) (simp_all add: Option.bind_assoc)

text \<open>Chunks of at most \<open>n\<close> elements, as \<open>take(n)\<close> in a loop and \<open>chunks(n)\<close> give them.\<close>

function chunks :: "nat \<Rightarrow> 'a list \<Rightarrow> 'a list list" where
  "chunks n xs = (if n = 0 \<or> xs = [] then [] else take n xs # chunks n (drop n xs))"
  by pat_completeness auto
termination
  by (relation "measure (\<lambda>(n, xs). length xs)") auto

declare chunks.simps [simp del]

section \<open>Generic list facts\<close>

lemma chunks_Nil [simp]: "chunks n [] = []"
  by (simp add: chunks.simps)

lemma chunks_step: "n \<noteq> 0 \<Longrightarrow> xs \<noteq> [] \<Longrightarrow> chunks n xs = take n xs # chunks n (drop n xs)"
  by (subst chunks.simps) simp

lemma concat_chunks: "n \<noteq> 0 \<Longrightarrow> concat (chunks n xs) = xs"
proof (induction n xs rule: chunks.induct)
  case (1 n xs)
  then show ?case by (cases "xs = []") (simp_all add: chunks_step)
qed

lemma chunks_length: "ys \<in> set (chunks n xs) \<Longrightarrow> ys \<noteq> [] \<and> length ys \<le> n"
proof (induction n xs rule: chunks.induct)
  case (1 n xs)
  then show ?case
    by (cases "n = 0 \<or> xs = []") (auto simp: chunks.simps [of n xs] split: if_splits)
qed

lemma chunks_elem: "ys \<in> set (chunks n xs) \<Longrightarrow> set ys \<subseteq> set xs"
proof (induction n xs rule: chunks.induct)
  case (1 n xs)
  then show ?case
    by (cases "n = 0 \<or> xs = []")
      (auto simp: chunks.simps [of n xs] dest: in_set_takeD in_set_dropD split: if_splits)
qed

lemma length_chunks_le: "n \<noteq> 0 \<Longrightarrow> length (chunks n xs) \<le> length xs"
proof (induction n xs rule: chunks.induct)
  case (1 n xs)
  then show ?case by (cases "xs = []") (auto simp: chunks_step Suc_le_eq intro: le_less_trans)
qed

lemma length_chunks_less:
  assumes "1 < n" and "1 < length xs"
  shows "length (chunks n xs) < length xs"
proof -
  from assms have "chunks n xs = take n xs # chunks n (drop n xs)"
    by (intro chunks_step) auto
  moreover have "length (chunks n (drop n xs)) \<le> length (drop n xs)"
    using assms by (intro length_chunks_le) simp
  ultimately show ?thesis using assms by simp
qed

lemma chunks_eq_Nil: "n \<noteq> 0 \<Longrightarrow> chunks n xs = [] \<longleftrightarrow> xs = []"
  by (cases "xs = []") (simp_all add: chunks_step)

lemma concat_map_nonempty:
  "xs \<noteq> [] \<Longrightarrow> (\<forall>x \<in> set xs. f x \<noteq> []) \<Longrightarrow> concat (map f xs) \<noteq> []"
  by (cases xs) auto

lemma concat_map_concat: "concat (map (\<lambda>xs. concat (map f xs)) xss) = concat (map f (concat xss))"
  by (induction xss) simp_all

lemma map_butlast_last: "xs \<noteq> [] \<Longrightarrow> map f (butlast xs) @ [f (last xs)] = map f xs"
  by (cases xs rule: rev_cases) simp_all

lemma drop_take_nth: "i < length xs \<Longrightarrow> xs = take i xs @ xs ! i # drop (Suc i) xs"
  by (rule id_take_nth_drop)

lemma concat_take_drop: "concat (map f (take n xs)) @ concat (map f (drop n xs)) = concat (map f xs)"
  by (metis append_take_drop_id concat_append map_append)

lemma append_take_drop_assoc [simp]: "take i xs @ drop i xs @ ys = xs @ ys"
  by (simp flip: append_assoc)

lemma last_take_Suc: "i < length xs \<Longrightarrow> last (take (Suc i) xs) = xs ! i"
  by (simp add: take_Suc_conv_app_nth)

lemma find_append: "find P (xs @ ys) = (case find P xs of Some x \<Rightarrow> Some x | None \<Rightarrow> find P ys)"
  by (induction xs) auto

end
