(* ===== verification/SumTree.thy ===== *)
theory SumTree
  imports Prelude
begin

text \<open>
  The data model of \<open>crates/sum_tree/src/sum_tree.rs\<close>: nodes, their accessors, and the
  well-formedness invariant every operation keeps. \<open>SumTree<T>\<close> is \<open>Arc<Node<T>>\<close> with copy on
  write, so a tree is the value of its node. The traits are dictionaries: \<open>item_ops\<close> holds
  \<open>Item::summary\<close> and the two operations of \<open>Summary\<close>, with the context \<open>cx\<close> (an immutable
  \<open>Copy\<close> value threaded through every call) already applied; \<open>dim_ops\<close> holds those of
  \<open>Dimension\<close>; a \<open>SeekTarget\<close> is its comparison \<open>'d \<Rightarrow> ordering\<close>. The \<open>height: u8\<close> of a node is a
  natural number: it grows by one only when a full root is split.
\<close>

named_theorems node_simps \<open>accessors of nodes on the constructors\<close>

section \<open>Traits\<close>

record ('t, 's) item_ops =
  it_summary :: "'t \<Rightarrow> 's"
  s_zero :: 's
  s_add :: "'s \<Rightarrow> 's \<Rightarrow> 's"

record ('s, 'd) dim_ops =
  d_zero :: 'd
  d_add :: "'d \<Rightarrow> 's \<Rightarrow> 'd"

definition with_added_summary :: "('s, 'd) dim_ops \<Rightarrow> 'd \<Rightarrow> 's \<Rightarrow> 'd" where
  "with_added_summary dim d s = d_add dim d s"

definition from_summary_dim :: "('s, 'd) dim_ops \<Rightarrow> 's \<Rightarrow> 'd" where
  "from_summary_dim dim s = d_add dim (d_zero dim) s"

text \<open>A summary is a dimension of itself; \<open>()\<close> is a dimension of every summary.\<close>

definition summary_dim :: "('t, 's) item_ops \<Rightarrow> ('s, 's) dim_ops" where
  "summary_dim ops = \<lparr>d_zero = s_zero ops, d_add = s_add ops\<rparr>"

definition unit_dim :: "('s, unit) dim_ops" where
  "unit_dim = \<lparr>d_zero = (), d_add = (\<lambda>_ _. ())\<rparr>"

text \<open>\<open>Dimensions(D1, D2, D3)\<close> accumulates its three components side by side; a target for
  \<open>D1\<close> seeks in it by the first component.\<close>

definition dimensions ::
  "('s, 'd1) dim_ops \<Rightarrow> ('s, 'd2) dim_ops \<Rightarrow> ('s, 'd3) dim_ops \<Rightarrow> ('s, 'd1 \<times> 'd2 \<times> 'd3) dim_ops" where
  "dimensions a b c =
     \<lparr>d_zero = (d_zero a, d_zero b, d_zero c),
      d_add = (\<lambda>(x, y, z) s. (d_add a x s, d_add b y s, d_add c z s))\<rparr>"

definition dimensions_target :: "('d1 \<Rightarrow> ordering) \<Rightarrow> 'd1 \<times> 'd2 \<times> 'd3 \<Rightarrow> ordering" where
  "dimensions_target cmp loc = cmp (fst loc)"

text \<open>A dimension that is ordered is a target for itself.\<close>

definition ord_target :: "'d::linorder \<Rightarrow> 'd \<Rightarrow> ordering" where
  "ord_target self cursor_location = ord_cmp self cursor_location"

datatype bias = Left | Right

definition bias_invert :: "bias \<Rightarrow> bias" where
  "bias_invert b = (case b of Left \<Rightarrow> Right | Right \<Rightarrow> Left)"

text \<open>The two tests every descent makes on \<open>target.cmp(&child_end)\<close>.\<close>

definition in_child :: "bias \<Rightarrow> ordering \<Rightarrow> bool" where
  "in_child b c \<longleftrightarrow> c = Less \<or> (c = Equal \<and> b = Left)"

definition past_end :: "bias \<Rightarrow> ordering \<Rightarrow> bool" where
  "past_end b c \<longleftrightarrow> c = Greater \<or> (c = Equal \<and> b = Right)"

lemma in_child_past_end: "in_child b c \<longleftrightarrow> \<not> past_end b c"
  by (cases b; cases c) (simp_all add: in_child_def past_end_def)

section \<open>Nodes\<close>

definition TREE_BASE :: nat where
  "TREE_BASE = 6"

abbreviation CAP :: nat where
  "CAP \<equiv> 2 * TREE_BASE"

datatype ('t, 's) sum_tree =
    Internal nat 's "'s list" "('t, 's) sum_tree list"
  | Leaf 's "'t list" "'s list"

fun is_leaf :: "('t, 's) sum_tree \<Rightarrow> bool" where
  "is_leaf (Leaf s its iss) = True"
| "is_leaf (Internal h s css cts) = False"

fun node_height :: "('t, 's) sum_tree \<Rightarrow> nat" where
  "node_height (Internal h s css cts) = h"
| "node_height (Leaf s its iss) = 0"

fun node_summary :: "('t, 's) sum_tree \<Rightarrow> 's" where
  "node_summary (Internal h s css cts) = s"
| "node_summary (Leaf s its iss) = s"

fun child_summaries :: "('t, 's) sum_tree \<Rightarrow> 's list" where
  "child_summaries (Internal h s css cts) = css"
| "child_summaries (Leaf s its iss) = iss"

fun child_trees :: "('t, 's) sum_tree \<Rightarrow> ('t, 's) sum_tree list rust" where
  "child_trees (Internal h s css cts) = ret cts"
| "child_trees (Leaf s its iss) = panic"

fun node_items :: "('t, 's) sum_tree \<Rightarrow> 't list rust" where
  "node_items (Leaf s its iss) = ret its"
| "node_items (Internal h s css cts) = panic"

fun is_underflowing :: "('t, 's) sum_tree \<Rightarrow> bool" where
  "is_underflowing (Internal h s css cts) = (length cts < TREE_BASE)"
| "is_underflowing (Leaf s its iss) = (length its < TREE_BASE)"

fun is_empty :: "('t, 's) sum_tree \<Rightarrow> bool" where
  "is_empty (Internal h s css cts) = False"
| "is_empty (Leaf s its iss) = (its = [])"

text \<open>The free function \<open>sum\<close>.\<close>

definition sum_s :: "('t, 's) item_ops \<Rightarrow> 's list \<Rightarrow> 's" where
  "sum_s ops xs = foldl (s_add ops) (s_zero ops) xs"

section \<open>Construction, extent, ends\<close>

definition new_tree :: "('t, 's) item_ops \<Rightarrow> ('t, 's) sum_tree" where
  "new_tree ops = Leaf (s_zero ops) [] []"

definition tree_from_summary :: "'s \<Rightarrow> ('t, 's) sum_tree" where
  "tree_from_summary s = Leaf s [] []"

definition extent :: "('s, 'd) dim_ops \<Rightarrow> ('t, 's) sum_tree \<Rightarrow> 'd" where
  "extent dim t = d_add dim (d_zero dim) (node_summary t)"

lemma size_child [termination_simp]: "c \<in> set cts \<Longrightarrow> size c < Suc (n + size_list size cts)"
proof -
  assume "c \<in> set cts"
  then have "size c \<le> size_list size cts" by (simp add: size_list_estimation')
  then show ?thesis by simp
qed

lemma list_first_in_set: "list_first xs = Some x \<Longrightarrow> x \<in> set xs"
  by (cases xs) simp_all

lemma list_last_in_set: "list_last xs = Some x \<Longrightarrow> x \<in> set xs"
  by (auto simp: list_last_def split: if_splits)

lemma size_end_child [termination_simp]:
  "list_first cts = Some c \<Longrightarrow> size c < Suc (n + size_list size cts)"
  "list_last cts = Some c \<Longrightarrow> size c < Suc (n + size_list size cts)"
  by (auto intro: size_child list_first_in_set list_last_in_set)

fun leftmost_leaf :: "('t, 's) sum_tree \<Rightarrow> ('t, 's) sum_tree rust" where
  "leftmost_leaf (Leaf s its iss) = ret (Leaf s its iss)"
| "leftmost_leaf (Internal h s css cts) = do { c \<leftarrow> list_first cts; leftmost_leaf c }"

fun rightmost_leaf :: "('t, 's) sum_tree \<Rightarrow> ('t, 's) sum_tree rust" where
  "rightmost_leaf (Leaf s its iss) = ret (Leaf s its iss)"
| "rightmost_leaf (Internal h s css cts) = do { c \<leftarrow> list_last cts; rightmost_leaf c }"

definition tree_first :: "('t, 's) sum_tree \<Rightarrow> 't option rust" where
  "tree_first t = do { l \<leftarrow> leftmost_leaf t; its \<leftarrow> node_items l; ret (list_first its) }"

definition tree_last :: "('t, 's) sum_tree \<Rightarrow> 't option rust" where
  "tree_last t = do { l \<leftarrow> rightmost_leaf t; its \<leftarrow> node_items l; ret (list_last its) }"

definition last_summary :: "('t, 's) sum_tree \<Rightarrow> 's option rust" where
  "last_summary t = do { l \<leftarrow> rightmost_leaf t; ret (list_last (child_summaries l)) }"

section \<open>The sequence a tree stands for, and the invariant\<close>

fun tree_items :: "('t, 's) sum_tree \<Rightarrow> 't list" where
  "tree_items (Leaf s its iss) = its"
| "tree_items (Internal h s css cts) = concat (map tree_items cts)"

text \<open>
  The invariant: a node holds at most \<open>2 * TREE_BASE\<close> entries, an internal node at least one
  child, every child is non-empty and one level lower, and the cached summaries are the sums of
  what is below them.
\<close>

fun wf_tree :: "('t, 's) item_ops \<Rightarrow> ('t, 's) sum_tree \<Rightarrow> bool" where
  "wf_tree ops (Leaf s its iss) \<longleftrightarrow>
     length its \<le> CAP \<and> iss = map (it_summary ops) its \<and> s = sum_s ops iss"
| "wf_tree ops (Internal h s css cts) \<longleftrightarrow>
     cts \<noteq> [] \<and> length cts \<le> CAP \<and> css = map node_summary cts \<and> s = sum_s ops css \<and>
     (\<forall>c \<in> set cts. wf_tree ops c \<and> \<not> is_empty c \<and> Suc (node_height c) = h)"

text \<open>A well-formed tree that is not empty: what may stand below an internal node.\<close>

abbreviation wf_node :: "('t, 's) item_ops \<Rightarrow> nat \<Rightarrow> ('t, 's) sum_tree \<Rightarrow> bool" where
  "wf_node ops h t \<equiv> wf_tree ops t \<and> \<not> is_empty t \<and> node_height t = h"

text \<open>The summary of a sequence of items, and the position after it in a dimension.\<close>

definition items_summary :: "('t, 's) item_ops \<Rightarrow> 't list \<Rightarrow> 's" where
  "items_summary ops xs = sum_s ops (map (it_summary ops) xs)"

definition dim_after :: "('t, 's) item_ops \<Rightarrow> ('s, 'd) dim_ops \<Rightarrow> 'd \<Rightarrow> 't list \<Rightarrow> 'd" where
  "dim_after ops dim d xs = foldl (d_add dim) d (map (it_summary ops) xs)"

definition dim_of :: "('t, 's) item_ops \<Rightarrow> ('s, 'd) dim_ops \<Rightarrow> 't list \<Rightarrow> 'd" where
  "dim_of ops dim xs = dim_after ops dim (d_zero dim) xs"

lemmas [node_simps] = node_height.simps node_summary.simps child_summaries.simps
  child_trees.simps node_items.simps is_leaf.simps is_empty.simps is_underflowing.simps

lemma TREE_BASE_gt_1 [simp]: "1 < TREE_BASE" "0 < TREE_BASE" "Suc 0 \<le> TREE_BASE" "TREE_BASE \<noteq> 0"
  by (simp_all add: TREE_BASE_def)

lemma wf_new_tree [simp]: "wf_tree ops (new_tree ops)"
  by (simp add: new_tree_def sum_s_def)

lemma tree_items_new_tree [simp]: "tree_items (new_tree ops) = []"
  by (simp add: new_tree_def)

lemma is_empty_new_tree [simp]: "is_empty (new_tree ops)"
  by (simp add: new_tree_def)

lemma is_empty_items: "wf_tree ops t \<Longrightarrow> is_empty t \<longleftrightarrow> tree_items t = []"
proof (induction t)
  case (Internal h s css cts)
  then have "concat (map tree_items cts) \<noteq> []"
    by (intro concat_map_nonempty) auto
  then show ?case by auto
qed simp

lemma wf_nonempty_items: "wf_tree ops t \<Longrightarrow> \<not> is_empty t \<Longrightarrow> tree_items t \<noteq> []"
  by (simp add: is_empty_items)

lemma height_zero_leaf: "wf_tree ops t \<Longrightarrow> node_height t = 0 \<longleftrightarrow> is_leaf t"
  by (cases t) (auto simp: neq_Nil_conv)

lemma wf_leaf_cases:
  assumes "wf_tree ops t" and "node_height t = 0"
  obtains s its iss where "t = Leaf s its iss"
  using assms height_zero_leaf [of ops t] by (cases t) auto

lemma wf_internal_cases:
  assumes "wf_tree ops t" and "0 < node_height t"
  obtains s css cts where "t = Internal (node_height t) s css cts"
  using assms by (cases t) auto

lemma wf_length_summaries: "wf_tree ops (Internal h s css cts) \<Longrightarrow> length css = length cts"
  by simp

lemma sum_s_Nil [simp]: "sum_s ops [] = s_zero ops"
  by (simp add: sum_s_def)

lemma dim_after_Nil [simp]: "dim_after ops dim d [] = d"
  by (simp add: dim_after_def)

lemma dim_after_Cons [simp]:
  "dim_after ops dim d (x # xs) = dim_after ops dim (d_add dim d (it_summary ops x)) xs"
  by (simp add: dim_after_def)

lemma dim_after_append [simp]:
  "dim_after ops dim d (xs @ ys) = dim_after ops dim (dim_after ops dim d xs) ys"
  by (simp add: dim_after_def)

lemma dim_of_Nil [simp]: "dim_of ops dim [] = d_zero dim"
  by (simp add: dim_of_def)

lemma dim_of_append: "dim_of ops dim (xs @ ys) = dim_after ops dim (dim_of ops dim xs) ys"
  by (simp add: dim_of_def)

section \<open>Contracts of the traits\<close>

text \<open>
  What the tree relies on of a \<open>Summary\<close>: adding is associative and \<open>zero\<close> is a left identity.
  It is not a right identity in general: \<open>MapKey\<close> overwrites on \<open>add_summary\<close>.
\<close>

locale summary_laws =
  fixes ops :: "('t, 's) item_ops"
  assumes zero_add: "s_add ops (s_zero ops) s = s"
    and add_assoc: "s_add ops (s_add ops a b) c = s_add ops a (s_add ops b c)"
begin

lemma foldl_add_assoc: "s_add ops a (foldl (s_add ops) b xs) = foldl (s_add ops) (s_add ops a b) xs"
  by (induction xs arbitrary: b) (simp_all add: add_assoc)

lemma sum_s_Cons: "sum_s ops (x # xs) = foldl (s_add ops) x xs"
  by (simp add: sum_s_def zero_add)

lemma sum_s_single [simp]: "sum_s ops [x] = x"
  by (simp add: sum_s_Cons)

lemma add_sum_s: "xs \<noteq> [] \<Longrightarrow> s_add ops a (sum_s ops xs) = foldl (s_add ops) a xs"
  by (cases xs) (simp_all add: sum_s_Cons foldl_add_assoc)

lemma sum_s_append: "ys \<noteq> [] \<Longrightarrow> sum_s ops (xs @ ys) = s_add ops (sum_s ops xs) (sum_s ops ys)"
  by (simp add: add_sum_s) (simp add: sum_s_def)

lemma sum_s_snoc: "sum_s ops (xs @ [x]) = s_add ops (sum_s ops xs) x"
  by (simp add: sum_s_append)

lemma sum_s_concat:
  "(\<forall>xs \<in> set xss. xs \<noteq> []) \<Longrightarrow> sum_s ops (map (sum_s ops) xss) = sum_s ops (concat xss)"
proof (induction xss rule: rev_induct)
  case (snoc xs xss)
  then show ?case by (simp add: sum_s_append)
qed simp

lemma items_summary_append:
  "ys \<noteq> [] \<Longrightarrow> items_summary ops (xs @ ys) = s_add ops (items_summary ops xs) (items_summary ops ys)"
  by (simp add: items_summary_def sum_s_append)

lemma sum_s_map_items:
  assumes "\<forall>c \<in> set cts. node_summary c = items_summary ops (tree_items c) \<and> tree_items c \<noteq> []"
  shows "sum_s ops (map node_summary cts) = items_summary ops (concat (map tree_items cts))"
proof -
  let ?f = "\<lambda>c. map (it_summary ops) (tree_items c)"
  have "map node_summary cts = map (sum_s ops) (map ?f cts)"
    using assms by (simp add: items_summary_def)
  moreover have "\<forall>xs \<in> set (map ?f cts). xs \<noteq> []"
    using assms by auto
  ultimately have "sum_s ops (map node_summary cts) = sum_s ops (concat (map ?f cts))"
    by (simp only: sum_s_concat)
  then show ?thesis by (simp add: items_summary_def map_concat comp_def)
qed

lemma node_summary_items: "wf_tree ops t \<Longrightarrow> node_summary t = items_summary ops (tree_items t)"
proof (induction t)
  case (Internal h s css cts)
  then have "\<forall>c \<in> set cts. node_summary c = items_summary ops (tree_items c) \<and> tree_items c \<noteq> []"
    by (auto dest: wf_nonempty_items)
  then show ?case using Internal.prems by (simp add: sum_s_map_items)
qed (simp add: items_summary_def)

lemma sum_s_children:
  "(\<forall>c \<in> set cts. wf_node ops h c) \<Longrightarrow>
   sum_s ops (map node_summary cts) = items_summary ops (concat (map tree_items cts))"
  by (intro sum_s_map_items) (auto intro: node_summary_items dest: wf_nonempty_items)

end

text \<open>A dimension adds a summed summary as it adds its parts one after the other.\<close>

locale dimension_laws = summary_laws ops
  for ops :: "('t, 's) item_ops" +
  fixes dim :: "('s, 'd) dim_ops"
  assumes d_add_assoc: "d_add dim (d_add dim d a) b = d_add dim d (s_add ops a b)"
begin

lemma d_add_sum_s: "xs \<noteq> [] \<Longrightarrow> d_add dim d (sum_s ops xs) = foldl (d_add dim) d xs"
proof (induction xs arbitrary: d rule: rev_induct)
  case (snoc x xs)
  then show ?case
    by (cases "xs = []") (simp_all add: sum_s_append d_add_assoc [symmetric])
qed simp

lemma d_add_node:
  assumes "wf_tree ops t" and "\<not> is_empty t"
  shows "d_add dim d (node_summary t) = dim_after ops dim d (tree_items t)"
proof -
  have "map (it_summary ops) (tree_items t) \<noteq> []"
    using assms is_empty_items by auto
  then show ?thesis
    using assms by (simp add: node_summary_items items_summary_def d_add_sum_s dim_after_def)
qed

end

text \<open>The dimensions that come with the crate satisfy the contract whenever the summary does.\<close>

sublocale summary_laws \<subseteq> own: dimension_laws ops "summary_dim ops"
  by unfold_locales (simp add: summary_dim_def add_assoc)

sublocale summary_laws \<subseteq> unit: dimension_laws ops unit_dim
  by unfold_locales (simp add: unit_dim_def)

end
