(* ===== verification/SumTree_Append.thy ===== *)
theory SumTree_Append
  imports SumTree
begin

text \<open>
  \<open>SumTree::append\<close> and what it is made of: \<open>push_tree_recursive\<close>, \<open>append_large\<close>,
  \<open>merge_into_right\<close>, \<open>from_child_trees\<close>, and \<open>push\<close> on top. Operations on \<open>&mut self\<close> return the new
  value of \<open>self\<close> beside their result. The lemmas show that on well-formed trees nothing panics,
  the invariant is kept and the items are concatenated.
\<close>

section \<open>Operations\<close>

definition from_child_trees ::
  "('t, 's) item_ops \<Rightarrow> ('t, 's) sum_tree \<Rightarrow> ('t, 's) sum_tree \<Rightarrow> ('t, 's) sum_tree rust" where
  "from_child_trees ops left right = do {
     let height = node_height left + 1;
     child_summaries \<leftarrow> fits CAP [node_summary left, node_summary right];
     child_trees \<leftarrow> fits CAP [left, right];
     ret (Internal height (sum_s ops child_summaries) child_summaries child_trees) }"

text \<open>The end of the internal case of \<open>push_tree_recursive\<close>: add the trees, or split the node.\<close>

definition push_internal_children ::
  "('t, 's) item_ops \<Rightarrow> nat \<Rightarrow> 's \<Rightarrow> 's list \<Rightarrow> ('t, 's) sum_tree list \<Rightarrow> 's list \<Rightarrow>
   ('t, 's) sum_tree list \<Rightarrow> (('t, 's) sum_tree \<times> ('t, 's) sum_tree option) rust" where
  "push_internal_children ops height summary css cts summaries_to_append trees_to_append = (
     let child_count = length cts + length trees_to_append in
     if child_count > CAP then do {
       let midpoint = (child_count + child_count mod 2) div 2;
       let all_summaries = css @ summaries_to_append;
       left_summaries \<leftarrow> fits CAP (take midpoint all_summaries);
       right_summaries \<leftarrow> fits CAP (drop midpoint all_summaries);
       let all_trees = cts @ trees_to_append;
       left_trees \<leftarrow> fits CAP (take midpoint all_trees);
       right_trees \<leftarrow> fits CAP (drop midpoint all_trees);
       ret (Internal height (sum_s ops left_summaries) left_summaries left_trees,
            Some (Internal height (sum_s ops right_summaries) right_summaries right_trees)) }
     else do {
       css' \<leftarrow> fits CAP (css @ summaries_to_append);
       cts' \<leftarrow> fits CAP (cts @ trees_to_append);
       ret (Internal height summary css' cts', None) })"

text \<open>The leaf case of \<open>push_tree_recursive\<close>.\<close>

definition push_leaf ::
  "('t, 's) item_ops \<Rightarrow> 's \<Rightarrow> 't list \<Rightarrow> 's list \<Rightarrow> ('t, 's) sum_tree \<Rightarrow>
   (('t, 's) sum_tree \<times> ('t, 's) sum_tree option) rust" where
  "push_leaf ops summary items item_summaries other = do {
     other_items \<leftarrow> node_items other;
     let child_count = length items + length other_items;
     if child_count > CAP then do {
       let midpoint = (child_count + child_count mod 2) div 2;
       let all_items = items @ other_items;
       left_items \<leftarrow> fits CAP (take midpoint all_items);
       right_items \<leftarrow> fits CAP (drop midpoint all_items);
       let all_summaries = item_summaries @ child_summaries other;
       left_summaries \<leftarrow> fits CAP (take midpoint all_summaries);
       right_summaries \<leftarrow> fits CAP (drop midpoint all_summaries);
       ret (Leaf (sum_s ops left_summaries) left_items left_summaries,
            Some (Leaf (sum_s ops right_summaries) right_items right_summaries)) }
     else do {
       items' \<leftarrow> fits CAP (items @ other_items);
       item_summaries' \<leftarrow> fits CAP (item_summaries @ child_summaries other);
       ret (Leaf (s_add ops summary (node_summary other)) items' item_summaries', None) } }"

fun push_tree_recursive ::
  "('t, 's) item_ops \<Rightarrow> ('t, 's) sum_tree \<Rightarrow> ('t, 's) sum_tree \<Rightarrow>
   (('t, 's) sum_tree \<times> ('t, 's) sum_tree option) rust" where
  "push_tree_recursive ops (Internal height summary css cts) other = do {
     let summary' = s_add ops summary (node_summary other);
     height_delta \<leftarrow> checked_minus height (node_height other);
     if height_delta = 0 then do {
       summaries_to_append \<leftarrow> fits CAP (child_summaries other);
       other_trees \<leftarrow> child_trees other;
       trees_to_append \<leftarrow> fits CAP other_trees;
       push_internal_children ops height summary' css cts summaries_to_append trees_to_append }
     else if height_delta = 1 \<and> \<not> is_underflowing other then do {
       summaries_to_append \<leftarrow> fits CAP [node_summary other];
       trees_to_append \<leftarrow> fits CAP [other];
       push_internal_children ops height summary' css cts summaries_to_append trees_to_append }
     else do {
       last_tree \<leftarrow> list_last cts;
       (last_tree', tree_to_append) \<leftarrow> push_tree_recursive ops last_tree other;
       cts' \<leftarrow> set_last cts last_tree';
       css' \<leftarrow> set_last css (node_summary last_tree');
       (case tree_to_append of
          Some split_tree \<Rightarrow> do {
            summaries_to_append \<leftarrow> fits CAP [node_summary split_tree];
            trees_to_append \<leftarrow> fits CAP [split_tree];
            push_internal_children ops height summary' css' cts' summaries_to_append trees_to_append }
        | None \<Rightarrow> push_internal_children ops height summary' css' cts' [] []) } }"
| "push_tree_recursive ops (Leaf summary items item_summaries) other =
     push_leaf ops summary items item_summaries other"

definition merge_into_right ::
  "('t, 's) item_ops \<Rightarrow> ('t, 's) sum_tree \<Rightarrow> ('t, 's) sum_tree \<Rightarrow>
   (('t, 's) sum_tree \<times> ('t, 's) sum_tree option) rust" where
  "merge_into_right ops small large = do {
     assert_or_panic (node_height small = node_height large);
     (case (small, large) of
        (Internal _ small_summary small_css small_cts, Internal height summary css cts) \<Rightarrow> (
          let total_child_count = length cts + length small_cts in
          if total_child_count \<le> CAP then do {
            all_trees \<leftarrow> fits CAP (small_cts @ cts);
            all_summaries \<leftarrow> fits CAP (small_css @ css);
            ret (Internal height (s_add ops small_summary summary) all_summaries all_trees, None) }
          else do {
            let midpoint = (total_child_count + 1) div 2;
            let all_trees = small_cts @ cts;
            left_trees \<leftarrow> fits CAP (take midpoint all_trees);
            cts' \<leftarrow> fits CAP (drop midpoint all_trees);
            let all_summaries = small_css @ css;
            left_summaries \<leftarrow> fits CAP (take midpoint all_summaries);
            css' \<leftarrow> fits CAP (drop midpoint all_summaries);
            ret (Internal height (sum_s ops css') css' cts',
                 Some (Internal height (sum_s ops left_summaries) left_summaries left_trees)) })
      | (Leaf small_summary small_items small_item_summaries, Leaf summary items item_summaries) \<Rightarrow> (
          let total_child_count = length small_items + length items in
          if total_child_count \<le> CAP then do {
            all_items \<leftarrow> fits CAP (small_items @ items);
            all_summaries \<leftarrow> fits CAP (small_item_summaries @ item_summaries);
            ret (Leaf (s_add ops small_summary summary) all_items all_summaries, None) }
          else do {
            let midpoint = (total_child_count + 1) div 2;
            let all_items = small_items @ items;
            left_items \<leftarrow> fits CAP (take midpoint all_items);
            items' \<leftarrow> fits CAP (drop midpoint all_items);
            let all_summaries = small_item_summaries @ item_summaries;
            left_summaries \<leftarrow> fits CAP (take midpoint all_summaries);
            item_summaries' \<leftarrow> fits CAP (drop midpoint all_summaries);
            ret (Leaf (sum_s ops item_summaries') items' item_summaries',
                 Some (Leaf (sum_s ops left_summaries) left_items left_summaries)) })
      | _ \<Rightarrow> panic) }"

text \<open>The end of \<open>append_large\<close>: put the tree the first child gave up in front, or split.\<close>

definition push_front_tree ::
  "('t, 's) item_ops \<Rightarrow> nat \<Rightarrow> 's \<Rightarrow> 's list \<Rightarrow> ('t, 's) sum_tree list \<Rightarrow> ('t, 's) sum_tree \<Rightarrow>
   (('t, 's) sum_tree \<times> ('t, 's) sum_tree option) rust" where
  "push_front_tree ops height summary css cts tree =
     (if length cts < CAP then do {
        css' \<leftarrow> fits CAP (node_summary tree # css);
        cts' \<leftarrow> fits CAP (tree # cts);
        ret (Internal height summary css' cts', None) }
      else do {
        drained_summaries \<leftarrow> slice_to css TREE_BASE;
        new_child_summaries \<leftarrow> fits CAP (node_summary tree # drained_summaries);
        drained_trees \<leftarrow> slice_to cts TREE_BASE;
        new_child_trees \<leftarrow> fits CAP (tree # drained_trees);
        let css' = drop TREE_BASE css;
        let cts' = drop TREE_BASE cts;
        ret (Internal height (sum_s ops css') css' cts',
             Some (Internal height (sum_s ops new_child_summaries) new_child_summaries new_child_trees)) })"

function append_large ::
  "('t, 's) item_ops \<Rightarrow> ('t, 's) sum_tree \<Rightarrow> ('t, 's) sum_tree \<Rightarrow>
   (('t, 's) sum_tree \<times> ('t, 's) sum_tree option) rust" where
  "append_large ops small large =
     (if node_height small = node_height large then
        (if \<not> is_underflowing small then ret (large, Some small)
         else merge_into_right ops small large)
      else do {
        assert_or_panic (node_height small < node_height large);
        (case large of
           Leaf _ _ _ \<Rightarrow> panic
         | Internal height summary css cts \<Rightarrow> do {
             let full_summary = s_add ops (node_summary small) summary;
             first_tree \<leftarrow> list_first cts;
             (first_tree', res) \<leftarrow> append_large ops small first_tree;
             cts' \<leftarrow> set_first cts first_tree';
             css' \<leftarrow> set_first css (node_summary first_tree');
             (case res of
                Some tree \<Rightarrow> push_front_tree ops height full_summary css' cts' tree
              | None \<Rightarrow> ret (Internal height full_summary css' cts', None)) }) })"
  by pat_completeness auto
termination
  by (relation "measure (\<lambda>(ops, small, large). size large)") (auto simp: size_end_child)

declare append_large.simps [simp del]

definition append_tree ::
  "('t, 's) item_ops \<Rightarrow> ('t, 's) sum_tree \<Rightarrow> ('t, 's) sum_tree \<Rightarrow> ('t, 's) sum_tree rust" where
  "append_tree ops self other =
     (if is_empty self then ret other
      else do {
        other_has_items \<leftarrow> (if \<not> is_leaf other then ret True
                            else do { its \<leftarrow> node_items other; ret (its \<noteq> []) });
        if other_has_items then
          (if node_height self < node_height other then do {
             (other', t) \<leftarrow> append_large ops self other;
             (case t of Some tree \<Rightarrow> from_child_trees ops tree other' | None \<Rightarrow> ret other') }
           else do {
             (self', split) \<leftarrow> push_tree_recursive ops self other;
             (case split of Some split_tree \<Rightarrow> from_child_trees ops self' split_tree | None \<Rightarrow> ret self') })
        else ret self })"

definition push_item :: "('t, 's) item_ops \<Rightarrow> ('t, 's) sum_tree \<Rightarrow> 't \<Rightarrow> ('t, 's) sum_tree rust" where
  "push_item ops self item = (
     let summary = it_summary ops item in append_tree ops self (Leaf summary [item] [summary]))"

definition from_item :: "('t, 's) item_ops \<Rightarrow> 't \<Rightarrow> ('t, 's) sum_tree rust" where
  "from_item ops item = push_item ops (new_tree ops) item"

section \<open>Correctness\<close>

text \<open>
  The node of level \<open>h\<close> a call leaves behind, and the one it may split off to its right or to
  its left, together hold the items \<open>xs\<close>.
\<close>

definition split_right ::
  "('t, 's) item_ops \<Rightarrow> nat \<Rightarrow> 't list \<Rightarrow> ('t, 's) sum_tree \<times> ('t, 's) sum_tree option \<Rightarrow> bool" where
  "split_right ops h xs r \<longleftrightarrow> (case r of
     (self, None) \<Rightarrow> wf_node ops h self \<and> tree_items self = xs
   | (self, Some t) \<Rightarrow> wf_node ops h self \<and> wf_node ops h t \<and> tree_items self @ tree_items t = xs)"

definition split_left ::
  "('t, 's) item_ops \<Rightarrow> nat \<Rightarrow> 't list \<Rightarrow> ('t, 's) sum_tree \<times> ('t, 's) sum_tree option \<Rightarrow> bool" where
  "split_left ops h xs r \<longleftrightarrow> (case r of
     (large, None) \<Rightarrow> wf_node ops h large \<and> tree_items large = xs
   | (large, Some t) \<Rightarrow> wf_node ops h large \<and> wf_node ops h t \<and> tree_items t @ tree_items large = xs)"

lemma wf_internal_node:
  assumes "cts \<noteq> []" "length cts \<le> CAP" "\<forall>c \<in> set cts. wf_node ops h c"
  shows "wf_node ops (Suc h) (Internal (Suc h) (sum_s ops (map node_summary cts)) (map node_summary cts) cts)"
  using assms by simp

lemma wf_leaf_node:
  assumes "its \<noteq> []" "length its \<le> CAP"
  shows "wf_node ops 0 (Leaf (sum_s ops (map (it_summary ops) its)) its (map (it_summary ops) its))"
  using assms by simp

lemma split_internal_halves:
  assumes "\<forall>c \<in> set cts. wf_node ops h c" "0 < m" "m < length cts" "m \<le> CAP" "length cts - m \<le> CAP"
  shows "wf_node ops (Suc h) (Internal (Suc h) (sum_s ops (take m (map node_summary cts))) (take m (map node_summary cts)) (take m cts))"
    and "wf_node ops (Suc h) (Internal (Suc h) (sum_s ops (drop m (map node_summary cts))) (drop m (map node_summary cts)) (drop m cts))"
  using assms wf_internal_node [of "take m cts" ops h] wf_internal_node [of "drop m cts" ops h]
  by (auto simp: take_map drop_map dest: in_set_takeD in_set_dropD)

lemma split_leaf_halves:
  assumes "0 < m" "m < length its" "m \<le> CAP" "length its - m \<le> CAP"
  shows "wf_node ops 0 (Leaf (sum_s ops (take m (map (it_summary ops) its))) (take m its) (take m (map (it_summary ops) its)))"
    and "wf_node ops 0 (Leaf (sum_s ops (drop m (map (it_summary ops) its))) (drop m its) (drop m (map (it_summary ops) its)))"
  using assms wf_leaf_node [of "take m its" ops] wf_leaf_node [of "drop m its" ops]
  by (auto simp: take_map drop_map)

lemma midpoint_bounds:
  assumes "CAP < n" "n \<le> 2 * CAP"
  shows "0 < (n + n mod 2) div 2" "(n + n mod 2) div 2 < n" "(n + n mod 2) div 2 \<le> CAP"
    "n - (n + n mod 2) div 2 \<le> CAP" "0 < (n + 1) div 2" "(n + 1) div 2 < n" "(n + 1) div 2 \<le> CAP"
    "n - (n + 1) div 2 \<le> CAP"
  using assms by (auto simp: TREE_BASE_def)

lemma push_internal_children_ok:
  assumes cts: "cts \<noteq> []" "length cts \<le> CAP" "\<forall>c \<in> set cts. wf_node ops h c"
    and new: "length new \<le> CAP" "\<forall>c \<in> set new. wf_node ops h c"
    and s: "s = sum_s ops (map node_summary cts @ map node_summary new)"
  shows "\<exists>r. push_internal_children ops (Suc h) s (map node_summary cts) cts (map node_summary new) new = ret r \<and>
             split_right ops (Suc h) (concat (map tree_items (cts @ new))) r"
proof (cases "length cts + length new > CAP")
  case False
  then show ?thesis
    using assms by (auto simp: push_internal_children_def split_right_def panic_free)
next
  case True
  define all where "all = cts @ new"
  define m where "m = (length all + length all mod 2) div 2"
  have n: "length cts + length new = length all"
    and sums: "map node_summary cts @ map node_summary new = map node_summary all"
    by (simp_all add: all_def)
  have "CAP < length all" "length all \<le> 2 * CAP"
    using True cts new by (simp_all add: all_def)
  note b = midpoint_bounds(1-4) [OF this, folded m_def]
  have wf: "\<forall>c \<in> set all. wf_node ops h c" using cts new by (auto simp: all_def)
  note halves = split_internal_halves [OF wf b]
  have items: "concat (map tree_items (take m all)) @ concat (map tree_items (drop m all))
      = concat (map tree_items all)"
    by (rule concat_take_drop)
  have "push_internal_children ops (Suc h) s (map node_summary cts) cts (map node_summary new) new =
      ret (Internal (Suc h) (sum_s ops (take m (map node_summary all))) (take m (map node_summary all)) (take m all),
        Some (Internal (Suc h) (sum_s ops (drop m (map node_summary all))) (drop m (map node_summary all)) (drop m all)))"
    using b \<open>CAP < length all\<close>
    by (simp add: push_internal_children_def Let_def n sums panic_free flip: m_def all_def)
  then show ?thesis
    using halves items unfolding all_def [symmetric] split_right_def by (simp del: wf_tree.simps)
qed

lemma push_leaf_ok:
  assumes self: "wf_node ops 0 (Leaf s its iss)" and other: "wf_node ops 0 other"
    and s: "s_add ops s (node_summary other) = sum_s ops (iss @ child_summaries other)"
  shows "\<exists>r. push_leaf ops s its iss other = ret r \<and> split_right ops 0 (its @ tree_items other) r"
proof -
  from other obtain os oits oiss where o: "other = Leaf os oits oiss" by (auto elim: wf_leaf_cases)
  show ?thesis
  proof (cases "length its + length oits > CAP")
    case False
    then show ?thesis
      using self other s o by (auto simp: push_leaf_def split_right_def panic_free)
  next
    case True
    define all where "all = its @ oits"
    define m where "m = (length all + length all mod 2) div 2"
    have n: "length its + length oits = length all"
      and sums: "iss @ oiss = map (it_summary ops) all"
      using self other o by (simp_all add: all_def)
    have "CAP < length all" "length all \<le> 2 * CAP"
      using True self other o by (simp_all add: all_def)
    note b = midpoint_bounds(1-4) [OF this, folded m_def]
    have "push_leaf ops s its iss other =
      ret (Leaf (sum_s ops (take m (map (it_summary ops) all))) (take m all) (take m (map (it_summary ops) all)),
        Some (Leaf (sum_s ops (drop m (map (it_summary ops) all))) (drop m all) (drop m (map (it_summary ops) all))))"
      using b \<open>CAP < length all\<close>
      by (simp add: push_leaf_def Let_def o n sums panic_free flip: m_def all_def)
    then show ?thesis
      using split_leaf_halves [OF b, of ops] o
      unfolding split_right_def by (simp del: wf_tree.simps flip: all_def)
  qed
qed

lemma merge_internal_split:
  assumes n: "length (scts @ cts) > CAP" "length scts \<le> CAP" "length cts \<le> CAP"
    and wf: "\<forall>c \<in> set (scts @ cts). wf_node ops h c"
  shows "\<exists>r. merge_into_right ops (Internal (Suc h) ss (map node_summary scts) scts)
               (Internal (Suc h) s (map node_summary cts) cts) = ret r \<and>
             split_left ops (Suc h) (concat (map tree_items (scts @ cts))) r"
proof -
  define all where "all = scts @ cts"
  define m where "m = (length all + 1) div 2"
  have len: "length cts + length scts = length all"
    and sums: "map node_summary scts @ map node_summary cts = map node_summary all"
    by (simp_all add: all_def)
  have "CAP < length all" "length all \<le> 2 * CAP" using n by (simp_all add: all_def)
  note b = midpoint_bounds(5-8) [OF this, folded m_def]
  have m': "Suc (length all) div 2 = m" by (simp add: m_def)
  note halves = split_internal_halves [OF wf [folded all_def] b]
  have items: "concat (map tree_items (take m all)) @ concat (map tree_items (drop m all))
      = concat (map tree_items all)"
    by (rule concat_take_drop)
  have "merge_into_right ops (Internal (Suc h) ss (map node_summary scts) scts)
               (Internal (Suc h) s (map node_summary cts) cts) =
      ret (Internal (Suc h) (sum_s ops (drop m (map node_summary all))) (drop m (map node_summary all)) (drop m all),
        Some (Internal (Suc h) (sum_s ops (take m (map node_summary all))) (take m (map node_summary all)) (take m all)))"
    using b \<open>CAP < length all\<close> m'
    by (simp add: merge_into_right_def Let_def len sums panic_free del: take_append drop_append
        flip: all_def)
  then show ?thesis
    using halves items unfolding all_def [symmetric] split_left_def by (simp del: wf_tree.simps)
qed

lemma merge_leaf_split:
  assumes n: "length (sits @ its) > CAP" "length sits \<le> CAP" "length its \<le> CAP"
  shows "\<exists>r. merge_into_right ops (Leaf ss sits (map (it_summary ops) sits))
               (Leaf s its (map (it_summary ops) its)) = ret r \<and>
             split_left ops 0 (sits @ its) r"
proof -
  define all where "all = sits @ its"
  define m where "m = (length all + 1) div 2"
  have len: "length sits + length its = length all"
    and sums: "map (it_summary ops) sits @ map (it_summary ops) its = map (it_summary ops) all"
    by (simp_all add: all_def)
  have "CAP < length all" "length all \<le> 2 * CAP" using n by (simp_all add: all_def)
  note b = midpoint_bounds(5-8) [OF this, folded m_def]
  have m': "Suc (length all) div 2 = m" by (simp add: m_def)
  have "merge_into_right ops (Leaf ss sits (map (it_summary ops) sits))
               (Leaf s its (map (it_summary ops) its)) =
      ret (Leaf (sum_s ops (drop m (map (it_summary ops) all))) (drop m all) (drop m (map (it_summary ops) all)),
        Some (Leaf (sum_s ops (take m (map (it_summary ops) all))) (take m all) (take m (map (it_summary ops) all))))"
    using b \<open>CAP < length all\<close> m'
    by (simp add: merge_into_right_def Let_def len sums panic_free del: take_append drop_append
        flip: all_def)
  then show ?thesis
    using split_leaf_halves [OF b, of ops] unfolding all_def [symmetric] split_left_def
    by (simp del: wf_tree.simps)
qed

lemma push_front_tree_ok:
  assumes cts: "cts \<noteq> []" "length cts \<le> CAP" "\<forall>c \<in> set cts. wf_node ops h c"
    and tree: "wf_node ops h tree"
    and s: "s = sum_s ops (map node_summary (tree # cts))"
  shows "\<exists>r. push_front_tree ops (Suc h) s (map node_summary cts) cts tree = ret r \<and>
             split_left ops (Suc h) (tree_items tree @ concat (map tree_items cts)) r"
proof (cases "length cts < CAP")
  case True
  then show ?thesis
    using assms by (auto simp: push_front_tree_def split_left_def panic_free)
next
  case False
  let ?l = "tree # take TREE_BASE cts" and ?r = "drop TREE_BASE cts"
  have b: "length cts = CAP" using False cts by simp
  have "wf_node ops (Suc h) (Internal (Suc h) (sum_s ops (map node_summary ?l)) (map node_summary ?l) ?l)"
    using b cts tree by (intro wf_internal_node) (auto dest: in_set_takeD simp: TREE_BASE_def)
  moreover have "wf_node ops (Suc h) (Internal (Suc h) (sum_s ops (map node_summary ?r)) (map node_summary ?r) ?r)"
    using b cts tree by (intro wf_internal_node) (auto dest: in_set_dropD simp: TREE_BASE_def)
  moreover have "push_front_tree ops (Suc h) s (map node_summary cts) cts tree =
      ret (Internal (Suc h) (sum_s ops (map node_summary ?r)) (map node_summary ?r) ?r,
        Some (Internal (Suc h) (sum_s ops (map node_summary ?l)) (map node_summary ?l) ?l))"
    using b by (simp add: push_front_tree_def Let_def panic_free take_map drop_map TREE_BASE_def)
  ultimately show ?thesis
    using concat_take_drop [of tree_items TREE_BASE cts]
    unfolding split_left_def by (simp del: wf_tree.simps)
qed

context summary_laws begin

lemma push_tree_recursive_ok:
  assumes "wf_node ops h self" "wf_node ops h' other" "h' \<le> h"
  shows "\<exists>r. push_tree_recursive ops self other = ret r \<and>
             split_right ops h (tree_items self @ tree_items other) r"
  using assms
proof (induction self arbitrary: h)
  case (Leaf s its iss)
  have "s_add ops s (node_summary other) = sum_s ops (iss @ child_summaries other)"
    using Leaf.prems by (cases other) (auto simp: sum_s_append)
  with Leaf.prems push_leaf_ok [of ops s its iss other] show ?case
    by (simp del: wf_tree.simps split_paired_Ex)
next
  case (Internal hh s css cts)
  then obtain k where k: "h = Suc k" "hh = Suc k" by (cases cts) auto
  have cts: "cts \<noteq> []" "length cts \<le> CAP" "\<forall>c \<in> set cts. wf_node ops k c"
    and css: "css = map node_summary cts" and s: "s = sum_s ops css"
    using Internal.prems k by auto
  have oi: "tree_items other \<noteq> []" using Internal.prems by (auto simp: is_empty_items)
  let ?all = "concat (map tree_items cts) @ tree_items other"
  have total: "s_add ops s (node_summary other) = items_summary ops ?all"
    using Internal.prems oi sum_s_children [OF cts(3)]
    by (simp add: s css node_summary_items items_summary_append)
  have finish: "\<exists>r. push_internal_children ops (Suc k) (s_add ops s (node_summary other))
        (map node_summary cts') cts' (map node_summary new) new = ret r \<and> split_right ops h ?all r"
    if "cts' \<noteq> []" "length cts' \<le> CAP" "\<forall>c \<in> set cts'. wf_node ops k c"
      "length new \<le> CAP" "\<forall>c \<in> set new. wf_node ops k c"
      "concat (map tree_items (cts' @ new)) = ?all" for cts' new
  proof -
    have "sum_s ops (map node_summary (cts' @ new)) = items_summary ops (concat (map tree_items (cts' @ new)))"
      using that by (intro sum_s_children) auto
    with that total show ?thesis
      using push_internal_children_ok [of cts' ops k new] by (simp add: k)
  qed
  consider "h' = Suc k" | "h' = k" "\<not> is_underflowing other"
    | "h' \<le> k" "h' = k \<longrightarrow> is_underflowing other"
    using Internal.prems k by fastforce
  then show ?case
  proof cases
    case 1
    then obtain os ocss octs where o: "other = Internal (Suc k) os ocss octs"
      using Internal.prems by (cases other) auto
    have "\<forall>c \<in> set octs. wf_node ops k c" "length octs \<le> CAP" "ocss = map node_summary octs"
      using Internal.prems o by auto
    with finish [of cts octs] cts show ?thesis
      using 1 by (simp add: k o css panic_free)
  next
    case 2
    with finish [of cts "[other]"] cts Internal.prems show ?thesis
      by (simp add: k css panic_free)
  next
    case 3
    let ?c = "last cts"
    have c: "?c \<in> set cts" "cts = butlast cts @ [?c]" using cts by simp_all
    from Internal.IH [OF c(1), of k] c cts(3) Internal.prems 3 obtain c' sp where
      rec: "push_tree_recursive ops ?c other = ret (c', sp)"
      and res: "split_right ops k (tree_items ?c @ tree_items other) (c', sp)" by auto
    let ?new = "case sp of None \<Rightarrow> [] | Some t \<Rightarrow> [t]"
    have all: "concat (map tree_items ((butlast cts @ [c']) @ ?new)) = ?all"
      using res arg_cong [OF c(2), of "\<lambda>xs. concat (map tree_items xs)"]
      by (auto simp: split_right_def split: option.splits)
    have "length (butlast cts @ [c']) \<le> CAP" using cts(1,2) by (cases cts rule: rev_cases) auto
    moreover have "\<forall>x \<in> set (butlast cts @ [c']). wf_node ops k x"
      using res cts(3) by (auto simp: split_right_def dest: in_set_butlastD split: option.splits)
    moreover have "length ?new \<le> CAP" "\<forall>x \<in> set ?new. wf_node ops k x"
      using res by (auto simp: split_right_def split: option.splits)
    ultimately have fin: "\<exists>r. push_internal_children ops (Suc k) (s_add ops s (node_summary other))
        (map node_summary (butlast cts @ [c'])) (butlast cts @ [c']) (map node_summary ?new) ?new = ret r
        \<and> split_right ops h ?all r"
      using all by (intro finish) auto
    have delta: "Suc k - h' \<noteq> 0" "\<not> (Suc k - h' = 1 \<and> \<not> is_underflowing other)" "h' \<le> Suc k"
      using 3 by auto
    show ?thesis
      using fin rec delta cts(1) Internal.prems
      by (cases sp) (auto simp: Let_def k css panic_free list_last_last map_butlast)
  qed
qed


lemma merge_into_right_ok:
  assumes "wf_node ops h small" "wf_node ops h large"
  shows "\<exists>r. merge_into_right ops small large = ret r \<and>
             split_left ops h (tree_items small @ tree_items large) r"
proof (cases "\<exists>k. h = Suc k")
  case True
  then obtain k ss scts s cts where h: "h = Suc k"
    and small: "small = Internal (Suc k) ss (map node_summary scts) scts" "ss = sum_s ops (map node_summary scts)"
    and large: "large = Internal (Suc k) s (map node_summary cts) cts" "s = sum_s ops (map node_summary cts)"
    using assms by (cases small; cases large) auto
  show ?thesis
  proof (cases "length (scts @ cts) > CAP")
    case True
    then show ?thesis
      using merge_internal_split [OF True, of ops k ss s] assms h small large by (simp add: ball_Un)
  next
    case False
    then show ?thesis
      using assms h small large
      by (auto simp: merge_into_right_def Let_def panic_free split_left_def sum_s_append)
  qed
next
  case False
  then obtain ss sits s its where h: "h = 0"
    and small: "small = Leaf ss sits (map (it_summary ops) sits)" "ss = sum_s ops (map (it_summary ops) sits)"
    and large: "large = Leaf s its (map (it_summary ops) its)" "s = sum_s ops (map (it_summary ops) its)"
    using assms by (cases h; cases small; cases large) (auto simp: neq_Nil_conv)
  show ?thesis
  proof (cases "length (sits @ its) > CAP")
    case True
    then show ?thesis
      using merge_leaf_split [OF True, of ops ss s] assms h small large by simp
  next
    case False
    then show ?thesis
      using assms h small large
      by (auto simp: merge_into_right_def Let_def panic_free split_left_def sum_s_append)
  qed
qed

lemma append_large_below:
  "node_height small < height \<Longrightarrow> append_large ops small (Internal height summary css cts) = do {
     first_tree \<leftarrow> list_first cts;
     (first_tree', res) \<leftarrow> append_large ops small first_tree;
     cts' \<leftarrow> set_first cts first_tree';
     css' \<leftarrow> set_first css (node_summary first_tree');
     (case res of
        Some tree \<Rightarrow> push_front_tree ops height (s_add ops (node_summary small) summary) css' cts' tree
      | None \<Rightarrow> ret (Internal height (s_add ops (node_summary small) summary) css' cts', None)) }"
  by (subst append_large.simps) (simp add: Let_def panic_free)

lemma append_large_same_ok:
  assumes "wf_node ops h small" "wf_node ops h large"
  shows "\<exists>r. append_large ops small large = ret r \<and>
             split_left ops h (tree_items small @ tree_items large) r"
proof -
  have "append_large ops small large =
      (if is_underflowing small then merge_into_right ops small large else ret (large, Some small))"
    using assms by (subst append_large.simps) simp
  then show ?thesis
    using assms merge_into_right_ok [OF assms] by (auto simp: split_left_def)
qed

lemma append_large_ok:
  assumes "wf_node ops h' small" "wf_node ops h large" "h' \<le> h"
  shows "\<exists>r. append_large ops small large = ret r \<and>
             split_left ops h (tree_items small @ tree_items large) r"
  using assms
proof (induction large arbitrary: h)
  case (Leaf s its iss)
  then show ?case using append_large_same_ok [of small 0 "Leaf s its iss"] by simp
next
  case (Internal hh s css cts)
  then obtain k where k: "h = Suc k" "hh = Suc k" by (cases cts) auto
  have cts: "cts \<noteq> []" "length cts \<le> CAP" "\<forall>c \<in> set cts. wf_node ops k c"
    and css: "css = map node_summary cts" and s: "s = sum_s ops css"
    using Internal.prems k by auto
  show ?case
  proof (cases "h' = Suc k")
    case True
    then show ?thesis
      using Internal.prems k append_large_same_ok [of small h "Internal hh s css cts"] by simp
  next
    case False
    from cts(1) obtain c rest where c: "cts = c # rest" by (cases cts) auto
    from Internal.IH [of c k] c cts(3) Internal.prems False k obtain c' sp where
      rec: "append_large ops small c = ret (c', sp)"
      and res: "split_left ops k (tree_items small @ tree_items c) (c', sp)" by auto
    have "concat (map tree_items cts) \<noteq> []"
      using cts by (intro concat_map_nonempty) (auto dest: wf_nonempty_items)
    then have total: "s_add ops (node_summary small) s
        = items_summary ops (tree_items small @ concat (map tree_items cts))"
      using Internal.prems sum_s_children [OF cts(3)]
      by (simp add: s css node_summary_items items_summary_append del: wf_tree.simps concat_eq_Nil_conv)
    have wf': "\<forall>x \<in> set (c' # rest). wf_node ops k x"
      using res cts(3) c by (auto simp: split_left_def split: option.splits)
    show ?thesis
    proof (cases sp)
      case None
      then have items: "concat (map tree_items (c' # rest)) = tree_items small @ concat (map tree_items cts)"
        using res c by (simp add: split_left_def)
      have "s_add ops (node_summary small) s = sum_s ops (map node_summary (c' # rest))"
        using sum_s_children [OF wf'] total items by simp
      then have "wf_node ops (Suc k) (Internal (Suc k) (s_add ops (node_summary small) s)
          (map node_summary (c' # rest)) (c' # rest))"
        using wf' cts(2) c wf_internal_node [of "c' # rest" ops k] by simp
      then show ?thesis
        using None rec False Internal.prems k items css c
        by (simp add: append_large_below panic_free split_left_def del: wf_tree.simps)
    next
      case (Some t)
      then have items: "tree_items t @ concat (map tree_items (c' # rest))
          = tree_items small @ concat (map tree_items cts)" and t: "wf_node ops k t"
        using res c by (simp_all add: split_left_def)
      have "s_add ops (node_summary small) s = sum_s ops (map node_summary (t # c' # rest))"
        using sum_s_children [of "t # c' # rest" k] wf' t total items by simp
      then have "\<exists>r. push_front_tree ops (Suc k) (s_add ops (node_summary small) s)
          (map node_summary (c' # rest)) (c' # rest) t = ret r \<and>
          split_left ops (Suc k) (tree_items small @ concat (map tree_items cts)) r"
        using wf' t cts(2) c unfolding items [symmetric] by (intro push_front_tree_ok) auto
      then show ?thesis
        using Some rec False Internal.prems k css c
        by (simp add: append_large_below panic_free del: wf_tree.simps)
    qed
  qed
qed

lemma from_child_trees_ok:
  assumes "wf_node ops h l" "wf_node ops h r"
  shows "\<exists>t. from_child_trees ops l r = ret t \<and> wf_node ops (Suc h) t \<and>
             tree_items t = tree_items l @ tree_items r"
  using assms wf_internal_node [of "[l, r]" ops h]
  by (auto simp: from_child_trees_def panic_free TREE_BASE_def)

lemma append_tree_ok:
  assumes "wf_tree ops self" "wf_tree ops other"
  shows "\<exists>t. append_tree ops self other = ret t \<and> wf_tree ops t \<and>
             tree_items t = tree_items self @ tree_items other"
proof (cases "is_empty self \<or> is_empty other")
  case True
  then show ?thesis
    using assms is_empty_items [OF assms(1)] is_empty_items [OF assms(2)]
    by (cases self; cases other) (auto simp: append_tree_def)
next
  case False
  then have ne: "(if \<not> is_leaf other then ret True
      else do { its \<leftarrow> node_items other; ret (its \<noteq> []) }) = ret True"
    by (cases other) auto
  show ?thesis
  proof (cases "node_height self < node_height other")
    case True
    then obtain l t where al: "append_large ops self other = ret (l, t)"
      and res: "split_left ops (node_height other) (tree_items self @ tree_items other) (l, t)"
      using append_large_ok [OF _ _ less_imp_le [OF True], of self other] assms False by auto
    have eq: "append_tree ops self other =
        (case t of Some tree \<Rightarrow> from_child_trees ops tree l | None \<Rightarrow> ret l)"
      using True False ne al by (simp add: append_tree_def)
    show ?thesis
    proof (cases t)
      case None
      with eq res show ?thesis by (simp add: split_left_def)
    next
      case (Some a)
      with eq res from_child_trees_ok [where l = a and r = l and h = "node_height other"]
      show ?thesis by (auto simp: split_left_def)
    qed
  next
    case l: False
    then obtain r t where pt: "push_tree_recursive ops self other = ret (r, t)"
      and res: "split_right ops (node_height self) (tree_items self @ tree_items other) (r, t)"
      using push_tree_recursive_ok [OF _ _ leI [OF l], of self other] assms False by auto
    have eq: "append_tree ops self other =
        (case t of Some tree \<Rightarrow> from_child_trees ops r tree | None \<Rightarrow> ret r)"
      using l False ne pt by (simp add: append_tree_def)
    show ?thesis
    proof (cases t)
      case None
      with eq res show ?thesis by (simp add: split_right_def)
    next
      case (Some a)
      with eq res from_child_trees_ok [where l = r and r = a and h = "node_height self"]
      show ?thesis by (auto simp: split_right_def)
    qed
  qed
qed

lemma push_item_ok:
  assumes "wf_tree ops self"
  shows "\<exists>t. push_item ops self x = ret t \<and> wf_tree ops t \<and> tree_items t = tree_items self @ [x]"
  using append_tree_ok [OF assms, of "Leaf (it_summary ops x) [x] [it_summary ops x]"]
  by (simp add: push_item_def Let_def TREE_BASE_def)

end

end
