(* ===== verification/SumTree_Build.thy ===== *)
theory SumTree_Build
  imports SumTree_Append
begin

text \<open>
  Building trees in bulk: \<open>from_iter\<close>, \<open>from_par_iter\<close>, \<open>extend\<close>, \<open>par_extend\<close>. The iterators are the
  lists of their items; \<open>rayon\<close>'s indexed iterators keep the order of the items, so its \<open>chunks\<close>,
  \<open>map\<close> and \<open>collect\<close> are those of lists. Both builders give the same tree, and it is well formed.
\<close>

section \<open>Operations\<close>

text \<open>One pass of the first loop of \<open>from_iter\<close>: a leaf for the next \<open>2 * TREE_BASE\<close> items.\<close>

definition leaf_of_items :: "('t, 's) item_ops \<Rightarrow> 't list \<Rightarrow> ('t, 's) sum_tree rust" where
  "leaf_of_items ops items = do {
     items' \<leftarrow> fits CAP items;
     let item_summaries = map (it_summary ops) items';
     (case item_summaries of
        [] \<Rightarrow> panic
      | s # rest \<Rightarrow> ret (Leaf (foldl (s_add ops) s rest) items' item_summaries)) }"

function build_leaves :: "('t, 's) item_ops \<Rightarrow> 't list \<Rightarrow> ('t, 's) sum_tree list rust" where
  "build_leaves ops items =
     (if items = [] then ret []
      else do {
        leaf \<leftarrow> leaf_of_items ops (take CAP items);
        leaves \<leftarrow> build_leaves ops (drop CAP items);
        ret (leaf # leaves) })"
  by pat_completeness auto
termination
  by (relation "measure (\<lambda>(ops, items). length items)") auto

declare build_leaves.simps [simp del]

text \<open>The body of the inner loop: add a child to the current parent, and put the parent away once it is full.\<close>

definition push_child ::
  "('t, 's) item_ops \<Rightarrow> nat \<Rightarrow> ('t, 's) sum_tree option \<times> ('t, 's) sum_tree list \<Rightarrow> ('t, 's) sum_tree \<Rightarrow>
   (('t, 's) sum_tree option \<times> ('t, 's) sum_tree list) rust" where
  "push_child ops height st child_node = (case st of (current_parent_node, parent_nodes) \<Rightarrow>
     (case (case current_parent_node of
              None \<Rightarrow> Internal height (s_zero ops) [] []
            | Some p \<Rightarrow> p) of
        Leaf _ _ _ \<Rightarrow> panic
      | Internal h summary css cts \<Rightarrow> do {
          let child_summary = node_summary child_node;
          css' \<leftarrow> fits CAP (css @ [child_summary]);
          cts' \<leftarrow> fits CAP (cts @ [child_node]);
          let parent_node = Internal h (s_add ops summary child_summary) css' cts';
          ret (if length cts' = CAP then (None, parent_nodes @ [parent_node])
               else (Some parent_node, parent_nodes)) }))"

definition parent_level ::
  "('t, 's) item_ops \<Rightarrow> nat \<Rightarrow> ('t, 's) sum_tree list \<Rightarrow> ('t, 's) sum_tree list rust" where
  "parent_level ops height nodes = do {
     (current_parent_node, parent_nodes) \<leftarrow> fold_rust (push_child ops height) (None, []) nodes;
     ret (parent_nodes @ (case current_parent_node of None \<Rightarrow> [] | Some p \<Rightarrow> [p])) }"

text \<open>What a full pass of the inner loop builds out of each group of children.\<close>

definition parent_of :: "('t, 's) item_ops \<Rightarrow> nat \<Rightarrow> ('t, 's) sum_tree list \<Rightarrow> ('t, 's) sum_tree" where
  "parent_of ops height cs = Internal height (sum_s ops (map node_summary cs)) (map node_summary cs) cs"

lemma push_child_fold:
  assumes "length (done @ nodes) \<le> CAP" "length done < CAP"
  shows "fold_rust (push_child ops height)
      (if done = [] then None else Some (parent_of ops height done), ps) nodes =
    ret (if length (done @ nodes) = CAP then (None, ps @ [parent_of ops height (done @ nodes)])
         else (if done @ nodes = [] then None else Some (parent_of ops height (done @ nodes)), ps))"
  using assms
proof (induction nodes arbitrary: "done")
  case Nil
  then show ?case by simp
next
  case (Cons c nodes)
  have step: "push_child ops height (if done = [] then None else Some (parent_of ops height done), ps) c =
      ret (if length (done @ [c]) = CAP then (None, ps @ [parent_of ops height (done @ [c])])
           else (Some (parent_of ops height (done @ [c])), ps))"
    using Cons.prems by (simp add: push_child_def parent_of_def Let_def panic_free sum_s_def)
  show ?case
  proof (cases "length (done @ [c]) = CAP")
    case True
    with Cons.prems have "nodes = []" by (cases nodes) auto
    with True step show ?thesis by simp
  next
    case False
    then show ?thesis using step Cons.prems Cons.IH [of "done @ [c]"] by simp
  qed
qed

lemma parent_level_chunks_from:
  "fold_rust (push_child ops height) (None, ps) nodes =
     ret (let gs = chunks CAP nodes in
        if gs \<noteq> [] \<and> length (last gs) < CAP
        then (Some (parent_of ops height (last gs)), ps @ map (parent_of ops height) (butlast gs))
        else (None, ps @ map (parent_of ops height) gs))"
proof (induction CAP nodes arbitrary: ps rule: chunks.induct)
  case (1 nodes)
  show ?case
  proof (cases "nodes = []")
    case True
    then show ?thesis by simp
  next
    case ne: False
    have step: "chunks CAP nodes = take CAP nodes # chunks CAP (drop CAP nodes)"
      using ne by (intro chunks_step) auto
    have first: "fold_rust (push_child ops height) (None, ps) (take CAP nodes) =
        ret (if CAP \<le> length nodes then (None, ps @ [parent_of ops height (take CAP nodes)])
             else (Some (parent_of ops height (take CAP nodes)), ps))"
      using push_child_fold [of "[]" "take CAP nodes" ops height ps] ne by auto
    have split: "fold_rust (push_child ops height) (None, ps) nodes = do {
        st \<leftarrow> fold_rust (push_child ops height) (None, ps) (take CAP nodes);
        fold_rust (push_child ops height) st (drop CAP nodes) }"
      by (metis append_take_drop_id fold_rust_append)
    show ?thesis
    proof (cases "CAP \<le> length nodes")
      case True
      then show ?thesis
        using split first step ne "1.hyps" [of "ps @ [parent_of ops height (take CAP nodes)]"]
        by (auto simp: Let_def chunks_eq_Nil)
    next
      case False
      then show ?thesis using split first step by (simp add: Let_def)
    qed
  qed
qed

lemma parent_level_chunks:
  "parent_level ops height nodes = ret (map (parent_of ops height) (chunks CAP nodes))"
  by (simp add: parent_level_def parent_level_chunks_from Let_def map_butlast_last)

lemma parent_level_shorter:
  "parent_level ops height nodes = ret nodes' \<Longrightarrow> 1 < length nodes \<Longrightarrow> length nodes' < length nodes"
  using length_chunks_less [of CAP nodes] by (auto simp: parent_level_chunks TREE_BASE_def)

text \<open>The second loop of \<open>from_iter\<close>: levels of parents until one node is left.\<close>

function build_levels ::
  "('t, 's) item_ops \<Rightarrow> nat \<Rightarrow> ('t, 's) sum_tree list \<Rightarrow> ('t, 's) sum_tree list rust" where
  "build_levels ops height nodes =
     (if 1 < length nodes then do {
        nodes' \<leftarrow> parent_level ops (height + 1) nodes;
        build_levels ops (height + 1) nodes' }
      else ret nodes)"
  by pat_completeness auto
termination
  by (relation "measure (\<lambda>(ops, height, nodes). length nodes)") (auto dest: parent_level_shorter)

declare build_levels.simps [simp del]

definition from_iter :: "('t, 's) item_ops \<Rightarrow> 't list \<Rightarrow> ('t, 's) sum_tree rust" where
  "from_iter ops items = do {
     leaves \<leftarrow> build_leaves ops items;
     nodes \<leftarrow> build_levels ops 0 leaves;
     if nodes = [] then ret (new_tree ops)
     else do {
       assert_or_panic (length nodes = 1);
       list_last nodes } }"

text \<open>\<open>from_par_iter\<close>: chunks of leaves, then chunks of parents.\<close>

definition par_parent_of ::
  "('t, 's) item_ops \<Rightarrow> nat \<Rightarrow> ('t, 's) sum_tree list \<Rightarrow> ('t, 's) sum_tree rust" where
  "par_parent_of ops height child_nodes = do {
     cts \<leftarrow> fits CAP child_nodes;
     let css = map node_summary cts;
     (case css of
        [] \<Rightarrow> panic
      | s # rest \<Rightarrow> ret (Internal height (foldl (s_add ops) s rest) css cts)) }"

lemma map_rust_length: "map_rust f xs = ret ys \<Longrightarrow> length ys = length xs"
  by (induction xs arbitrary: ys) (auto split: bind_splits)

function par_build_levels ::
  "('t, 's) item_ops \<Rightarrow> nat \<Rightarrow> ('t, 's) sum_tree list \<Rightarrow> ('t, 's) sum_tree list rust" where
  "par_build_levels ops height nodes =
     (if 1 < length nodes then do {
        nodes' \<leftarrow> map_rust (par_parent_of ops (height + 1)) (chunks CAP nodes);
        par_build_levels ops (height + 1) nodes' }
      else ret nodes)"
  by pat_completeness auto
termination
proof (relation "measure (\<lambda>(ops, height, nodes). length nodes)", goal_cases)
  case (2 ops height nodes nodes')
  then show ?case using length_chunks_less [of CAP nodes] by (auto dest!: map_rust_length simp: TREE_BASE_def)
qed simp

declare par_build_levels.simps [simp del]

definition from_par_iter :: "('t, 's) item_ops \<Rightarrow> 't list \<Rightarrow> ('t, 's) sum_tree rust" where
  "from_par_iter ops items = do {
     leaves \<leftarrow> map_rust (leaf_of_items ops) (chunks CAP items);
     nodes \<leftarrow> par_build_levels ops 0 leaves;
     if nodes = [] then ret (new_tree ops)
     else do {
       assert_or_panic (length nodes = 1);
       list_last nodes } }"

definition tree_extend :: "('t, 's) item_ops \<Rightarrow> ('t, 's) sum_tree \<Rightarrow> 't list \<Rightarrow> ('t, 's) sum_tree rust" where
  "tree_extend ops self items = do { other \<leftarrow> from_iter ops items; append_tree ops self other }"

definition par_extend :: "('t, 's) item_ops \<Rightarrow> ('t, 's) sum_tree \<Rightarrow> 't list \<Rightarrow> ('t, 's) sum_tree rust" where
  "par_extend ops self items = do { other \<leftarrow> from_par_iter ops items; append_tree ops self other }"

section \<open>Correctness\<close>

definition leaf_of :: "('t, 's) item_ops \<Rightarrow> 't list \<Rightarrow> ('t, 's) sum_tree" where
  "leaf_of ops its = Leaf (sum_s ops (map (it_summary ops) its)) its (map (it_summary ops) its)"

lemma build_leaves_chunks: "build_leaves ops items = map_rust (leaf_of_items ops) (chunks CAP items)"
proof (induction ops items rule: build_leaves.induct)
  case (1 ops items)
  show ?case
  proof (cases "items = []")
    case True
    then show ?thesis by (simp add: build_leaves.simps)
  next
    case False
    with "1.IH" show ?thesis
      by (cases "leaf_of_items ops (take CAP items)")
        (simp_all add: build_leaves.simps [of ops items] chunks_step)
  qed
qed

context summary_laws begin

lemma leaf_of_items_ok: "its \<noteq> [] \<Longrightarrow> length its \<le> CAP \<Longrightarrow> leaf_of_items ops its = ret (leaf_of ops its)"
  by (cases its) (simp_all add: leaf_of_items_def leaf_of_def panic_free sum_s_Cons)

lemma par_parent_of_ok:
  "cs \<noteq> [] \<Longrightarrow> length cs \<le> CAP \<Longrightarrow> par_parent_of ops height cs = ret (parent_of ops height cs)"
  by (cases cs) (simp_all add: par_parent_of_def parent_of_def panic_free sum_s_Cons)

lemma leaves_ok:
  "map_rust (leaf_of_items ops) (chunks CAP items) = ret (map (leaf_of ops) (chunks CAP items))"
  by (rule map_rust_ok) (auto dest: chunks_length intro: leaf_of_items_ok)

lemma par_level_ok:
  "map_rust (par_parent_of ops height) (chunks CAP nodes) = ret (map (parent_of ops height) (chunks CAP nodes))"
  by (rule map_rust_ok) (auto dest: chunks_length intro: par_parent_of_ok)

lemma par_build_levels_eq: "par_build_levels ops height nodes = build_levels ops height nodes"
proof (induction "length nodes" arbitrary: height nodes rule: less_induct)
  case less
  then have "1 < length nodes \<Longrightarrow> par_build_levels ops (height + 1) ns = build_levels ops (height + 1) ns"
    if "ns = map (parent_of ops (height + 1)) (chunks CAP nodes)" for ns
    using that length_chunks_less [of CAP nodes] by (simp add: TREE_BASE_def)
  then show ?case
    by (simp add: build_levels.simps [of ops height nodes] par_build_levels.simps [of ops height nodes]
        parent_level_chunks par_level_ok)
qed

lemma from_par_iter_eq: "from_par_iter ops items = from_iter ops items"
  by (simp add: from_par_iter_def from_iter_def build_leaves_chunks par_build_levels_eq)

lemma build_levels_ok:
  assumes "\<forall>c \<in> set nodes. wf_node ops height c"
  shows "\<exists>nodes'. build_levels ops height nodes = ret nodes' \<and> length nodes' \<le> 1 \<and>
           (nodes' = [] \<longleftrightarrow> nodes = []) \<and> (\<forall>c \<in> set nodes'. wf_tree ops c) \<and>
           concat (map tree_items nodes') = concat (map tree_items nodes)"
  using assms
proof (induction "length nodes" arbitrary: nodes height rule: less_induct)
  case less
  show ?case
  proof (cases "1 < length nodes")
    case False
    then show ?thesis using less.prems by (auto simp: build_levels.simps [of ops height nodes])
  next
    case True
    let ?ps = "map (parent_of ops (height + 1)) (chunks CAP nodes)"
    have "length ?ps < length nodes"
      using length_chunks_less [of CAP nodes] True by (simp add: TREE_BASE_def)
    moreover have "wf_node ops (height + 1) (parent_of ops (height + 1) cs)" if "cs \<in> set (chunks CAP nodes)" for cs
      using chunks_length [OF that] chunks_elem [OF that] less.prems wf_internal_node [of cs ops height]
      by (auto simp: parent_of_def)
    ultimately obtain nodes' where "build_levels ops (height + 1) ?ps = ret nodes'" "length nodes' \<le> 1"
      "nodes' = [] \<longleftrightarrow> ?ps = []" "\<forall>c \<in> set nodes'. wf_tree ops c"
      "concat (map tree_items nodes') = concat (map tree_items ?ps)"
      using less.hyps [of ?ps "height + 1"] by auto
    moreover have "concat (map tree_items ?ps) = concat (map tree_items nodes)"
    proof -
      have "concat (map tree_items ?ps) = concat (map (\<lambda>cs. concat (map tree_items cs)) (chunks CAP nodes))"
        by (simp add: parent_of_def comp_def)
      then show ?thesis by (simp add: concat_map_concat concat_chunks)
    qed
    ultimately show ?thesis
      using True by (auto simp: build_levels.simps [of ops height nodes] parent_level_chunks chunks_eq_Nil)
  qed
qed

lemma from_iter_ok:
  "\<exists>t. from_iter ops items = ret t \<and> wf_tree ops t \<and> tree_items t = items"
proof -
  let ?ls = "map (leaf_of ops) (chunks CAP items)"
  have "\<forall>c \<in> set ?ls. wf_node ops 0 c"
    using wf_leaf_node [of _ ops] by (auto simp: leaf_of_def dest: chunks_length)
  then obtain nodes where n: "build_levels ops 0 ?ls = ret nodes" "length nodes \<le> 1"
    "nodes = [] \<longleftrightarrow> ?ls = []" "\<forall>c \<in> set nodes. wf_tree ops c"
    "concat (map tree_items nodes) = concat (map tree_items ?ls)"
    using build_levels_ok [of ?ls 0] by blast
  have items: "concat (map tree_items ?ls) = items"
    by (simp add: leaf_of_def comp_def concat_chunks)
  show ?thesis
  proof (cases nodes)
    case Nil
    then show ?thesis
      using n items by (simp add: from_iter_def build_leaves_chunks leaves_ok)
  next
    case (Cons t ts)
    then show ?thesis
      using n items
      by (auto simp: from_iter_def build_leaves_chunks leaves_ok panic_free list_last_def)
  qed
qed

lemma extend_ok:
  assumes "wf_tree ops self"
  shows "\<exists>t. tree_extend ops self items = ret t \<and> wf_tree ops t \<and> tree_items t = tree_items self @ items"
proof -
  obtain other where "from_iter ops items = ret other" "wf_tree ops other" "tree_items other = items"
    using from_iter_ok by blast
  then show ?thesis using append_tree_ok [OF assms, of other] by (simp add: tree_extend_def)
qed

end

end
