(* ===== verification/SumTree_Find.thy ===== *)
theory SumTree_Find
  imports SumTree_Append
begin

text \<open>
  Lookup without a cursor (\<open>find\<close>, \<open>find_exact\<close>, \<open>find_with_prev\<close>), the ends of a tree and
  \<open>update_first\<close>/\<open>update_last\<close>. A descent is compared with a scan of the flat item sequence: on a
  well-formed tree, and for a target whose comparison is monotone along the tree, both give the
  same item and the same start and end positions.
\<close>

section \<open>Operations\<close>

text \<open>The leaf loop of \<open>find_iterate\<close>; the position is returned because the loop advances it in place.\<close>

fun find_items ::
  "('s, 'd) dim_ops \<Rightarrow> ('d \<Rightarrow> ordering) \<Rightarrow> bias \<Rightarrow> bool \<Rightarrow> 'd \<Rightarrow> 't list \<Rightarrow> 's list \<Rightarrow> 'd \<times> ('t \<times> 'd) option" where
  "find_items dim target bias exact position (item # items) (item_summary # item_summaries) = (
     let child_end = d_add dim position item_summary;
         comparison = target child_end;
         entry_found = (if exact then comparison = Equal else in_child bias comparison)
     in if entry_found then (position, Some (item, child_end))
        else find_items dim target bias exact child_end items item_summaries)"
| "find_items dim target bias exact position _ _ = (position, None)"

fun find_iterate ::
    "('s, 'd) dim_ops \<Rightarrow> ('d \<Rightarrow> ordering) \<Rightarrow> bias \<Rightarrow> bool \<Rightarrow> 'd \<Rightarrow> ('t, 's) sum_tree \<Rightarrow> 'd \<times> ('t \<times> 'd) option"
  and find_children ::
    "('s, 'd) dim_ops \<Rightarrow> ('d \<Rightarrow> ordering) \<Rightarrow> bias \<Rightarrow> bool \<Rightarrow> 'd \<Rightarrow> ('t, 's) sum_tree list \<Rightarrow> 's list \<Rightarrow>
     'd \<times> ('t \<times> 'd) option" where
  "find_iterate dim target bias exact position (Internal h s css cts) =
     find_children dim target bias exact position cts css"
| "find_iterate dim target bias exact position (Leaf s its iss) =
     find_items dim target bias exact position its iss"
| "find_children dim target bias exact position (child_tree # cts) (child_summary # css) = (
     let child_end = with_added_summary dim position child_summary in
     if in_child bias (target child_end) then find_iterate dim target bias exact position child_tree
     else find_children dim target bias exact child_end cts css)"
| "find_children dim target bias exact position _ _ = (position, None)"

definition find_general ::
  "('s, 'd) dim_ops \<Rightarrow> ('d \<Rightarrow> ordering) \<Rightarrow> bias \<Rightarrow> bool \<Rightarrow> ('t, 's) sum_tree \<Rightarrow> 'd \<times> 'd \<times> 't option" where
  "find_general dim target bias exact self = (
     let tree_end = with_added_summary dim (d_zero dim) (node_summary self) in
     if past_end bias (target tree_end) then (tree_end, tree_end, None)
     else (case find_iterate dim target bias exact (d_zero dim) self of
             (pos, Some (item, end_pos)) \<Rightarrow> (pos, end_pos, Some item)
           | (pos, None) \<Rightarrow> (pos, pos, None)))"

definition find_exact ::
  "('s, 'd) dim_ops \<Rightarrow> ('d \<Rightarrow> ordering) \<Rightarrow> bias \<Rightarrow> ('t, 's) sum_tree \<Rightarrow> 'd \<times> 'd \<times> 't option" where
  "find_exact dim target bias self = find_general dim target bias True self"

definition tree_find ::
  "('s, 'd) dim_ops \<Rightarrow> ('d \<Rightarrow> ordering) \<Rightarrow> bias \<Rightarrow> ('t, 's) sum_tree \<Rightarrow> 'd \<times> 'd \<times> 't option" where
  "tree_find dim target bias self = find_general dim target bias False self"

text \<open>\<open>find_with_prev\<close> also keeps the item before the current position.\<close>

fun find_prev_items ::
  "('s, 'd) dim_ops \<Rightarrow> ('d \<Rightarrow> ordering) \<Rightarrow> bias \<Rightarrow> bool \<Rightarrow> 't option \<Rightarrow> 'd \<Rightarrow> 't list \<Rightarrow> 's list \<Rightarrow>
   'd \<times> ('t option \<times> 't \<times> 'd) option" where
  "find_prev_items dim target bias exact prev position (item # items) (item_summary # item_summaries) = (
     let child_end = d_add dim position item_summary;
         comparison = target child_end;
         entry_found = (if exact then comparison = Equal else in_child bias comparison)
     in if entry_found then (position, Some (prev, item, child_end))
        else find_prev_items dim target bias exact (Some item) child_end items item_summaries)"
| "find_prev_items dim target bias exact prev position _ _ = (position, None)"

fun find_with_prev_iterate ::
    "('s, 'd) dim_ops \<Rightarrow> ('d \<Rightarrow> ordering) \<Rightarrow> bias \<Rightarrow> bool \<Rightarrow> 't option \<Rightarrow> 'd \<Rightarrow> ('t, 's) sum_tree \<Rightarrow>
     ('d \<times> ('t option \<times> 't \<times> 'd) option) rust"
  and find_prev_children ::
    "('s, 'd) dim_ops \<Rightarrow> ('d \<Rightarrow> ordering) \<Rightarrow> bias \<Rightarrow> bool \<Rightarrow> 't option \<Rightarrow> 'd \<Rightarrow> ('t, 's) sum_tree list \<Rightarrow> 's list \<Rightarrow>
     ('d \<times> ('t option \<times> 't \<times> 'd) option) rust" where
  "find_with_prev_iterate dim target bias exact prev position (Internal h s css cts) =
     find_prev_children dim target bias exact prev position cts css"
| "find_with_prev_iterate dim target bias exact prev position (Leaf s its iss) =
     ret (find_prev_items dim target bias exact prev position its iss)"
| "find_prev_children dim target bias exact prev position (child_tree # cts) (child_summary # css) = (
     let child_end = with_added_summary dim position child_summary in
     if in_child bias (target child_end) then
       find_with_prev_iterate dim target bias exact prev position child_tree
     else do {
       prev' \<leftarrow> tree_last child_tree;
       find_prev_children dim target bias exact prev' child_end cts css })"
| "find_prev_children dim target bias exact prev position _ _ = ret (position, None)"

definition find_with_prev ::
  "('s, 'd) dim_ops \<Rightarrow> ('d \<Rightarrow> ordering) \<Rightarrow> bias \<Rightarrow> ('t, 's) sum_tree \<Rightarrow>
   ('d \<times> 'd \<times> ('t option \<times> 't) option) rust" where
  "find_with_prev dim target bias self = (
     let tree_end = with_added_summary dim (d_zero dim) (node_summary self) in
     if past_end bias (target tree_end) then ret (tree_end, tree_end, None)
     else do {
       (pos, found) \<leftarrow> find_with_prev_iterate dim target bias False None (d_zero dim) self;
       ret (case found of
              Some (prev, item, end_pos) \<Rightarrow> (pos, end_pos, Some (prev, item))
            | None \<Rightarrow> (pos, pos, None)) })"

text \<open>\<open>update_last\<close> and \<open>update_first\<close>: the closure is the function it computes on the item.\<close>

fun update_last_recursive ::
  "('t, 's) item_ops \<Rightarrow> ('t \<Rightarrow> 't) \<Rightarrow> ('t, 's) sum_tree \<Rightarrow> (('t, 's) sum_tree \<times> 's option) rust" where
  "update_last_recursive ops f (Internal h s css cts) = do {
     list_last css;
     last_child \<leftarrow> list_last cts;
     (last_child', r) \<leftarrow> update_last_recursive ops f last_child;
     last_summary \<leftarrow> r;
     css' \<leftarrow> set_last css last_summary;
     cts' \<leftarrow> set_last cts last_child';
     let s' = sum_s ops css';
     ret (Internal h s' css' cts', Some s') }"
| "update_last_recursive ops f (Leaf s its iss) =
     (case (list_last its, list_last iss) of
        (Some item, Some _) \<Rightarrow> (
          let item' = f item;
              its' = butlast its @ [item'];
              iss' = butlast iss @ [it_summary ops item'];
              s' = sum_s ops iss'
          in ret (Leaf s' its' iss', Some s'))
      | _ \<Rightarrow> ret (Leaf s its iss, None))"

definition update_last :: "('t, 's) item_ops \<Rightarrow> ('t \<Rightarrow> 't) \<Rightarrow> ('t, 's) sum_tree \<Rightarrow> ('t, 's) sum_tree rust" where
  "update_last ops f self = do { (self', _) \<leftarrow> update_last_recursive ops f self; ret self' }"

fun update_first_recursive ::
  "('t, 's) item_ops \<Rightarrow> ('t \<Rightarrow> 't) \<Rightarrow> ('t, 's) sum_tree \<Rightarrow> (('t, 's) sum_tree \<times> 's option) rust" where
  "update_first_recursive ops f (Internal h s css cts) = do {
     list_first css;
     first_child \<leftarrow> list_first cts;
     (first_child', r) \<leftarrow> update_first_recursive ops f first_child;
     first_summary \<leftarrow> r;
     css' \<leftarrow> set_first css first_summary;
     cts' \<leftarrow> set_first cts first_child';
     let s' = sum_s ops css';
     ret (Internal h s' css' cts', Some s') }"
| "update_first_recursive ops f (Leaf s its iss) =
     (case (list_first its, list_first iss) of
        (Some item, Some _) \<Rightarrow> (
          let item' = f item;
              its' = item' # tl its;
              iss' = it_summary ops item' # tl iss;
              s' = sum_s ops iss'
          in ret (Leaf s' its' iss', Some s'))
      | _ \<Rightarrow> ret (Leaf s its iss, None))"

definition update_first :: "('t, 's) item_ops \<Rightarrow> ('t \<Rightarrow> 't) \<Rightarrow> ('t, 's) sum_tree \<Rightarrow> ('t, 's) sum_tree rust" where
  "update_first ops f self = do { (self', _) \<leftarrow> update_first_recursive ops f self; ret self' }"

section \<open>Monotone targets\<close>

text \<open>
  The positions after each item of \<open>xs\<close>, starting at \<open>d\<close>, and what it means that a test, once it
  holds at one of them, holds at all later ones. A target is monotone along a sequence when its
  answers never go back up from \<open>Less\<close> to \<open>Equal\<close> or from \<open>Equal\<close> to \<open>Greater\<close>.
\<close>

fun positions :: "('t, 's) item_ops \<Rightarrow> ('s, 'd) dim_ops \<Rightarrow> 'd \<Rightarrow> 't list \<Rightarrow> 'd list" where
  "positions ops dim d [] = []"
| "positions ops dim d (x # xs) = (let e = d_add dim d (it_summary ops x) in e # positions ops dim e xs)"

fun stays :: "('d \<Rightarrow> bool) \<Rightarrow> 'd list \<Rightarrow> bool" where
  "stays stop [] = True"
| "stays stop (d # ds) = ((stop d \<longrightarrow> list_all stop ds) \<and> stays stop ds)"

definition monotone_from ::
  "('t, 's) item_ops \<Rightarrow> ('s, 'd) dim_ops \<Rightarrow> ('d \<Rightarrow> ordering) \<Rightarrow> 'd \<Rightarrow> 't list \<Rightarrow> bool" where
  "monotone_from ops dim target d xs \<longleftrightarrow>
     stays (\<lambda>e. in_child Left (target e)) (positions ops dim d xs) \<and>
     stays (\<lambda>e. in_child Right (target e)) (positions ops dim d xs)"

definition monotone_target ::
  "('t, 's) item_ops \<Rightarrow> ('s, 'd) dim_ops \<Rightarrow> ('d \<Rightarrow> ordering) \<Rightarrow> 't list \<Rightarrow> bool" where
  "monotone_target ops dim target xs \<longleftrightarrow> monotone_from ops dim target (d_zero dim) xs"

lemma stays_append:
  "stays stop (xs @ ys) \<longleftrightarrow> stays stop xs \<and> stays stop ys \<and> ((\<exists>x \<in> set xs. stop x) \<longrightarrow> list_all stop ys)"
  by (induction xs) auto

lemma positions_append:
  "positions ops dim d (xs @ ys) = positions ops dim d xs @ positions ops dim (dim_after ops dim d xs) ys"
  by (induction xs arbitrary: d) (simp_all add: Let_def)

lemma positions_last:
  "xs \<noteq> [] \<Longrightarrow> positions ops dim d xs \<noteq> [] \<and> last (positions ops dim d xs) = dim_after ops dim d xs"
  by (cases xs rule: rev_cases) (simp_all add: positions_append Let_def)

lemma length_positions [simp]: "length (positions ops dim d xs) = length xs"
  by (induction xs arbitrary: d) (simp_all add: Let_def)

text \<open>Where the last position does not stop the search, no position does.\<close>

lemma stays_last: "stays stop ds \<Longrightarrow> ds \<noteq> [] \<Longrightarrow> \<not> stop (last ds) \<Longrightarrow> d \<in> set ds \<Longrightarrow> \<not> stop d"
  by (induction ds) (auto simp: list_all_iff split: if_splits)

lemma monotone_from_stays:
  "monotone_from ops dim target d xs \<Longrightarrow> stays (\<lambda>e. in_child b (target e)) (positions ops dim d xs)"
  by (cases b) (simp_all add: monotone_from_def)

lemma monotone_from_append:
  "monotone_from ops dim target d (xs @ ys) \<Longrightarrow>
   monotone_from ops dim target d xs \<and> monotone_from ops dim target (dim_after ops dim d xs) ys"
  by (simp add: monotone_from_def positions_append stays_append)

lemma monotone_from_skip:
  assumes "monotone_from ops dim target d xs" "xs \<noteq> []" "\<not> in_child b (target (dim_after ops dim d xs))"
  shows "\<forall>e \<in> set (positions ops dim d xs). \<not> in_child b (target e)"
  using stays_last [OF monotone_from_stays [OF assms(1), of b]] positions_last [OF assms(2), of ops dim d]
    assms(3) by auto

section \<open>The flat scan\<close>

text \<open>The search a descent stands for: the first item whose end position stops the search.\<close>

definition scan ::
  "('t, 's) item_ops \<Rightarrow> ('s, 'd) dim_ops \<Rightarrow> ('d \<Rightarrow> ordering) \<Rightarrow> bias \<Rightarrow> 'd \<Rightarrow> 't list \<Rightarrow> 'd \<times> ('t \<times> 'd) option" where
  "scan ops dim target bias d xs = find_items dim target bias False d xs (map (it_summary ops) xs)"

lemma scan_skip:
  "(\<forall>e \<in> set (positions ops dim d xs). \<not> in_child b (target e)) \<Longrightarrow>
   scan ops dim target b d (xs @ ys) = scan ops dim target b (dim_after ops dim d xs) ys"
  by (induction xs arbitrary: d) (simp_all add: scan_def Let_def)

lemma scan_stop:
  "(\<exists>e \<in> set (positions ops dim d xs). in_child b (target e)) \<Longrightarrow>
   scan ops dim target b d (xs @ ys) = scan ops dim target b d xs"
  by (induction xs arbitrary: d) (auto simp: scan_def Let_def)

lemma scan_past:
  "(\<forall>e \<in> set (positions ops dim d xs). \<not> in_child b (target e)) \<Longrightarrow>
   scan ops dim target b d xs = (dim_after ops dim d xs, None)"
  using scan_skip [of ops dim d xs b target "[]"] by (simp add: scan_def)

text \<open>What a scan finds: the item at the split, with its start and end positions.\<close>

lemma scan_Some:
  "scan ops dim target b d xs = (p, Some (x, e)) \<Longrightarrow>
   \<exists>ys zs. xs = ys @ x # zs \<and> p = dim_after ops dim d ys \<and> e = d_add dim p (it_summary ops x) \<and>
           in_child b (target e) \<and> (\<forall>q \<in> set (positions ops dim d ys). \<not> in_child b (target q))"
proof (induction xs arbitrary: d)
  case (Cons a xs)
  show ?case
  proof (cases "in_child b (target (d_add dim d (it_summary ops a)))")
    case True
    with Cons.prems show ?thesis
      by (intro exI [of _ "[]"] exI [of _ xs]) (auto simp: scan_def Let_def)
  next
    case False
    with Cons.prems have "scan ops dim target b (d_add dim d (it_summary ops a)) xs = (p, Some (x, e))"
      by (simp add: scan_def Let_def)
    from Cons.IH [OF this] obtain ys zs where "xs = ys @ x # zs"
      "p = dim_after ops dim (d_add dim d (it_summary ops a)) ys" "e = d_add dim p (it_summary ops x)"
      "in_child b (target e)"
      "\<forall>q \<in> set (positions ops dim (d_add dim d (it_summary ops a)) ys). \<not> in_child b (target q)" by blast
    with False show ?thesis
      by (intro exI [of _ "a # ys"] exI [of _ zs]) (auto simp: Let_def)
  qed
qed (simp add: scan_def)

lemma scan_None:
  "scan ops dim target b d xs = (p, None) \<Longrightarrow>
   p = dim_after ops dim d xs \<and> (\<forall>q \<in> set (positions ops dim d xs). \<not> in_child b (target q))"
  by (induction xs arbitrary: d) (auto simp: scan_def Let_def split: if_splits)

text \<open>The item an exact lookup keeps of a scan.\<close>

definition exact_of :: "('d \<Rightarrow> ordering) \<Rightarrow> 'd \<times> ('t \<times> 'd) option \<Rightarrow> ('t \<times> 'd) option" where
  "exact_of target r = (case snd r of
     Some (x, e) \<Rightarrow> if target e = Equal then Some (x, e) else None
   | None \<Rightarrow> None)"

lemma find_items_exact_None:
  "\<forall>q \<in> set (positions ops dim d xs). target q \<noteq> Equal \<Longrightarrow>
   snd (find_items dim target b True d xs (map (it_summary ops) xs)) = None"
  by (induction xs arbitrary: d) simp_all

text \<open>The scan that also keeps the previous item.\<close>

definition scan_prev ::
  "('t, 's) item_ops \<Rightarrow> ('s, 'd) dim_ops \<Rightarrow> ('d \<Rightarrow> ordering) \<Rightarrow> bias \<Rightarrow> 't option \<Rightarrow> 'd \<Rightarrow> 't list \<Rightarrow>
   'd \<times> ('t option \<times> 't \<times> 'd) option" where
  "scan_prev ops dim target bias prev d xs =
     find_prev_items dim target bias False prev d xs (map (it_summary ops) xs)"

lemma scan_prev_skip:
  "(\<forall>e \<in> set (positions ops dim d xs). \<not> in_child b (target e)) \<Longrightarrow> xs \<noteq> [] \<Longrightarrow>
   scan_prev ops dim target b prev d (xs @ ys) =
     scan_prev ops dim target b (list_last xs) (dim_after ops dim d xs) ys"
proof (induction xs arbitrary: d prev)
  case (Cons x xs)
  then show ?case
    by (cases "xs = []") (simp_all add: scan_prev_def list_last_def)
qed simp

lemma scan_prev_stop:
  "(\<exists>e \<in> set (positions ops dim d xs). in_child b (target e)) \<Longrightarrow>
   scan_prev ops dim target b prev d (xs @ ys) = scan_prev ops dim target b prev d xs"
  by (induction xs arbitrary: d prev) (auto simp: scan_prev_def)

lemma scan_prev_past:
  "(\<forall>e \<in> set (positions ops dim d xs). \<not> in_child b (target e)) \<Longrightarrow>
   scan_prev ops dim target b prev d xs = (dim_after ops dim d xs, None)"
  by (induction xs arbitrary: d prev) (simp_all add: scan_prev_def)

lemma scan_prev_split:
  assumes "\<forall>q \<in> set (positions ops dim d ys). \<not> in_child b (target q)"
    and "in_child b (target (d_add dim (dim_after ops dim d ys) (it_summary ops x)))"
  shows "scan_prev ops dim target b None d (ys @ x # zs) =
     (dim_after ops dim d ys, Some (list_last ys, x, d_add dim (dim_after ops dim d ys) (it_summary ops x)))"
proof (cases "ys = []")
  case True
  then show ?thesis using assms(2) by (simp add: scan_prev_def)
next
  case False
  then show ?thesis using assms by (simp add: scan_prev_skip) (simp add: scan_prev_def)
qed

section \<open>Ends of a tree\<close>

lemma tree_last_ok: "wf_tree ops t \<Longrightarrow> tree_last t = ret (list_last (tree_items t))"
proof (induction t)
  case (Internal h s css cts)
  then have c: "last cts \<in> set cts" "cts = butlast cts @ [last cts]" by auto
  with Internal have "tree_last (last cts) = ret (list_last (tree_items (last cts)))"
    "tree_items (last cts) \<noteq> []" by (auto dest: wf_nonempty_items)
  moreover have "last (concat (map tree_items cts)) = last (tree_items (last cts))"
    using calculation(2) by (subst c(2)) simp
  moreover have "tree_last (Internal h s css cts) = tree_last (last cts)"
    using Internal.prems by (simp add: tree_last_def list_last_last)
  ultimately show ?case using c(1) by (auto simp: list_last_def)
qed (simp add: tree_last_def)

lemma tree_first_ok: "wf_tree ops t \<Longrightarrow> tree_first t = ret (list_first (tree_items t))"
proof (induction t)
  case (Internal h s css cts)
  then obtain c rest where c: "cts = c # rest" by (cases cts) auto
  with Internal have "tree_first c = ret (list_first (tree_items c))" "tree_items c \<noteq> []"
    by (auto dest: wf_nonempty_items)
  moreover have "tree_first (Internal h s css cts) = tree_first c"
    using c by (simp add: tree_first_def)
  ultimately show ?case using c by (simp add: list_first_hd)
qed (simp add: tree_first_def)

lemma list_last_append: "list_last (xs @ ys) = (if ys = [] then list_last xs else list_last ys)"
  by (simp add: list_last_def)

section \<open>A descent is a scan\<close>

context dimension_laws begin

text \<open>One pass of the loop over the children: the target is in this child, or the child is passed.\<close>

lemma child_pass:
  assumes wf: "wf_node ops h c" and mono: "monotone_from ops dim target pos (tree_items c @ rest)"
  obtains
    (stop) "in_child b (target (with_added_summary dim pos (node_summary c)))"
      "\<exists>e \<in> set (positions ops dim pos (tree_items c)). in_child b (target e)"
      "monotone_from ops dim target pos (tree_items c)"
  | (skip) "\<not> in_child b (target (with_added_summary dim pos (node_summary c)))"
      "with_added_summary dim pos (node_summary c) = dim_after ops dim pos (tree_items c)"
      "\<forall>e \<in> set (positions ops dim pos (tree_items c)). \<not> in_child b (target e)"
      "monotone_from ops dim target (dim_after ops dim pos (tree_items c)) rest"
      "tree_items c \<noteq> []"
proof (cases "in_child b (target (dim_after ops dim pos (tree_items c)))")
  have ne: "tree_items c \<noteq> []" using wf by (auto dest: wf_nonempty_items)
  have e: "with_added_summary dim pos (node_summary c) = dim_after ops dim pos (tree_items c)"
    using wf by (simp add: with_added_summary_def d_add_node)
  have mono': "monotone_from ops dim target pos (tree_items c)"
    "monotone_from ops dim target (dim_after ops dim pos (tree_items c)) rest"
    using monotone_from_append [OF mono] by simp_all
  case True
  have "dim_after ops dim pos (tree_items c) \<in> set (positions ops dim pos (tree_items c))"
    using positions_last [OF ne] by (metis last_in_set)
  with True mono' e show ?thesis by (intro stop) auto
next
  have ne: "tree_items c \<noteq> []" using wf by (auto dest: wf_nonempty_items)
  have e: "with_added_summary dim pos (node_summary c) = dim_after ops dim pos (tree_items c)"
    using wf by (simp add: with_added_summary_def d_add_node)
  case False
  with monotone_from_append [OF mono] ne e show ?thesis
    by (intro skip monotone_from_skip) auto
qed

lemma find_children_scan:
  assumes "\<forall>c \<in> set cts. wf_node ops h c"
    and "\<forall>c \<in> set cts. \<forall>pos. monotone_from ops dim target pos (tree_items c) \<longrightarrow>
      find_iterate dim target b False pos c = scan ops dim target b pos (tree_items c)"
    and "monotone_from ops dim target pos (concat (map tree_items cts))"
  shows "find_children dim target b False pos cts (map node_summary cts) =
     scan ops dim target b pos (concat (map tree_items cts))"
  using assms
proof (induction cts arbitrary: pos)
  case Nil
  then show ?case by (simp add: scan_def)
next
  case (Cons c cts)
  have "wf_node ops h c" "monotone_from ops dim target pos (tree_items c @ concat (map tree_items cts))"
    using Cons.prems by simp_all
  then show ?case
  proof (cases rule: child_pass [where b = b])
    case stop
    then show ?thesis using Cons.prems(2) by (simp add: scan_stop)
  next
    case skip
    then show ?thesis using Cons.prems Cons.IH by (simp add: scan_skip)
  qed
qed

lemma find_iterate_scan:
  "wf_tree ops t \<Longrightarrow> monotone_from ops dim target pos (tree_items t) \<Longrightarrow>
   find_iterate dim target b False pos t = scan ops dim target b pos (tree_items t)"
proof (induction t arbitrary: pos)
  case (Internal h s css cts)
  obtain k where "\<forall>c \<in> set cts. wf_node ops k c"
    using Internal.prems by (cases h) auto
  then show ?case
    using Internal by (auto intro!: find_children_scan)
qed (simp add: scan_def)

text \<open>The early return of \<open>find\<close> gives what the scan would give at the end.\<close>

lemma find_scan:
  assumes wf: "wf_tree ops t" and mono: "monotone_target ops dim target (tree_items t)"
    and ne: "\<not> is_empty t"
  shows "tree_find dim target b t = (case scan ops dim target b (d_zero dim) (tree_items t) of
     (pos, Some (item, e)) \<Rightarrow> (pos, e, Some item) | (pos, None) \<Rightarrow> (pos, pos, None))"
proof -
  let ?e = "dim_after ops dim (d_zero dim) (tree_items t)"
  have e: "with_added_summary dim (d_zero dim) (node_summary t) = ?e"
    using wf ne by (simp add: with_added_summary_def d_add_node)
  have it: "find_iterate dim target b False (d_zero dim) t = scan ops dim target b (d_zero dim) (tree_items t)"
    using wf mono by (simp add: find_iterate_scan monotone_target_def)
  show ?thesis
  proof (cases "past_end b (target ?e)")
    case True
    then have "\<not> in_child b (target ?e)" by (simp add: in_child_past_end)
    with wf ne mono have "scan ops dim target b (d_zero dim) (tree_items t) = (?e, None)"
      by (intro scan_past monotone_from_skip) (auto simp: monotone_target_def dest: wf_nonempty_items)
    with True show ?thesis by (simp add: tree_find_def find_general_def e)
  next
    case False
    then show ?thesis by (simp add: tree_find_def find_general_def e it)
  qed
qed

subsection \<open>Exact lookup\<close>

lemma find_items_exact:
  assumes "monotone_from ops dim target pos xs"
  shows "snd (find_items dim target Left True pos xs (map (it_summary ops) xs)) =
    exact_of target (scan ops dim target Left pos xs)"
  using assms
proof (induction xs arbitrary: pos)
  case (Cons x xs)
  let ?e = "d_add dim pos (it_summary ops x)"
  have mono: "monotone_from ops dim target ?e xs"
    using Cons.prems by (simp add: monotone_from_def)
  show ?case
  proof (cases "target ?e")
    case Less
    then have "\<forall>q \<in> set (positions ops dim ?e xs). target q \<noteq> Equal"
      using Cons.prems by (auto simp: monotone_from_def in_child_def list_all_iff)
    then have "snd (find_items dim target Left True ?e xs (map (it_summary ops) xs)) = None"
      by (rule find_items_exact_None)
    with Less show ?thesis by (simp add: scan_def in_child_def exact_of_def)
  next
    case Equal
    then show ?thesis by (simp add: scan_def in_child_def exact_of_def)
  next
    case Greater
    then show ?thesis using Cons.IH [OF mono] by (simp add: scan_def in_child_def)
  qed
qed (simp add: scan_def exact_of_def)

lemma find_children_exact:
  assumes "\<forall>c \<in> set cts. wf_node ops h c"
    and "\<forall>c \<in> set cts. \<forall>pos. monotone_from ops dim target pos (tree_items c) \<longrightarrow>
      snd (find_iterate dim target Left True pos c) = exact_of target (scan ops dim target Left pos (tree_items c))"
    and "monotone_from ops dim target pos (concat (map tree_items cts))"
  shows "snd (find_children dim target Left True pos cts (map node_summary cts)) =
     exact_of target (scan ops dim target Left pos (concat (map tree_items cts)))"
  using assms
proof (induction cts arbitrary: pos)
  case Nil
  then show ?case by (simp add: scan_def exact_of_def)
next
  case (Cons c cts)
  have "wf_node ops h c" "monotone_from ops dim target pos (tree_items c @ concat (map tree_items cts))"
    using Cons.prems by simp_all
  then show ?case
  proof (cases rule: child_pass [where b = Left])
    case stop
    then show ?thesis using Cons.prems(2) by (simp add: scan_stop)
  next
    case skip
    then show ?thesis using Cons.prems Cons.IH by (simp add: scan_skip)
  qed
qed

lemma find_iterate_exact:
  "wf_tree ops t \<Longrightarrow> monotone_from ops dim target pos (tree_items t) \<Longrightarrow>
   snd (find_iterate dim target Left True pos t) = exact_of target (scan ops dim target Left pos (tree_items t))"
proof (induction t arbitrary: pos)
  case (Internal h s css cts)
  obtain k where "\<forall>c \<in> set cts. wf_node ops k c"
    using Internal.prems by (cases h) auto
  then show ?case
    using Internal by (auto intro!: find_children_exact)
qed (simp add: find_items_exact)

lemma find_exact_scan:
  assumes wf: "wf_tree ops t" and mono: "monotone_target ops dim target (tree_items t)"
    and ne: "\<not> is_empty t"
  shows "snd (snd (find_exact dim target Left t)) =
     map_option fst (exact_of target (scan ops dim target Left (d_zero dim) (tree_items t)))"
proof -
  let ?e = "dim_after ops dim (d_zero dim) (tree_items t)"
  have e: "with_added_summary dim (d_zero dim) (node_summary t) = ?e"
    using wf ne by (simp add: with_added_summary_def d_add_node)
  have it: "snd (find_iterate dim target Left True (d_zero dim) t) =
      exact_of target (scan ops dim target Left (d_zero dim) (tree_items t))"
    using wf mono by (simp add: find_iterate_exact monotone_target_def)
  show ?thesis
  proof (cases "past_end Left (target ?e)")
    case True
    then have "\<not> in_child Left (target ?e)" by (simp add: in_child_past_end)
    with wf ne mono have "scan ops dim target Left (d_zero dim) (tree_items t) = (?e, None)"
      by (intro scan_past monotone_from_skip) (auto simp: monotone_target_def dest: wf_nonempty_items)
    with True show ?thesis by (simp add: find_exact_def find_general_def e exact_of_def)
  next
    case False
    then show ?thesis
      by (simp add: find_exact_def find_general_def e it [symmetric] split: prod.split option.split)
  qed
qed

subsection \<open>Lookup with the previous item\<close>

lemma find_prev_children_scan:
  assumes "\<forall>c \<in> set cts. wf_node ops h c"
    and "\<forall>c \<in> set cts. \<forall>prev pos. monotone_from ops dim target pos (tree_items c) \<longrightarrow>
      find_with_prev_iterate dim target b False prev pos c = ret (scan_prev ops dim target b prev pos (tree_items c))"
    and "monotone_from ops dim target pos (concat (map tree_items cts))"
  shows "find_prev_children dim target b False prev pos cts (map node_summary cts) =
     ret (scan_prev ops dim target b prev pos (concat (map tree_items cts)))"
  using assms
proof (induction cts arbitrary: prev pos)
  case Nil
  then show ?case by (simp add: scan_prev_def)
next
  case (Cons c cts)
  have "wf_node ops h c" "monotone_from ops dim target pos (tree_items c @ concat (map tree_items cts))"
    using Cons.prems by simp_all
  then show ?case
  proof (cases rule: child_pass [where b = b])
    case stop
    then show ?thesis using Cons.prems(2) by (simp add: scan_prev_stop)
  next
    case skip
    have "tree_last c = ret (list_last (tree_items c))"
      using Cons.prems(1) by (intro tree_last_ok) auto
    with skip show ?thesis using Cons.prems Cons.IH by (simp add: scan_prev_skip)
  qed
qed

lemma find_with_prev_iterate_scan:
  "wf_tree ops t \<Longrightarrow> monotone_from ops dim target pos (tree_items t) \<Longrightarrow>
   find_with_prev_iterate dim target b False prev pos t = ret (scan_prev ops dim target b prev pos (tree_items t))"
proof (induction t arbitrary: prev pos)
  case (Internal h s css cts)
  obtain k where "\<forall>c \<in> set cts. wf_node ops k c"
    using Internal.prems by (cases h) auto
  then show ?case
    using Internal by (auto intro!: find_prev_children_scan)
qed (simp add: scan_prev_def)

lemma find_with_prev_scan:
  assumes wf: "wf_tree ops t" and mono: "monotone_target ops dim target (tree_items t)"
    and ne: "\<not> is_empty t"
  shows "find_with_prev dim target b t = ret (case scan_prev ops dim target b None (d_zero dim) (tree_items t) of
     (pos, Some (prev, item, e)) \<Rightarrow> (pos, e, Some (prev, item)) | (pos, None) \<Rightarrow> (pos, pos, None))"
proof -
  let ?e = "dim_after ops dim (d_zero dim) (tree_items t)"
  have e: "with_added_summary dim (d_zero dim) (node_summary t) = ?e"
    using wf ne by (simp add: with_added_summary_def d_add_node)
  have it: "find_with_prev_iterate dim target b False None (d_zero dim) t =
      ret (scan_prev ops dim target b None (d_zero dim) (tree_items t))"
    using wf mono by (simp add: find_with_prev_iterate_scan monotone_target_def)
  show ?thesis
  proof (cases "past_end b (target ?e)")
    case True
    then have "\<not> in_child b (target ?e)" by (simp add: in_child_past_end)
    with wf ne mono have "scan_prev ops dim target b None (d_zero dim) (tree_items t) = (?e, None)"
      by (intro scan_prev_past monotone_from_skip) (auto simp: monotone_target_def dest: wf_nonempty_items)
    with True show ?thesis by (simp add: find_with_prev_def e)
  next
    case False
    then show ?thesis by (simp add: find_with_prev_def e it split: prod.split option.split)
  qed
qed

end

section \<open>Updating the ends\<close>

definition map_last :: "('a \<Rightarrow> 'a) \<Rightarrow> 'a list \<Rightarrow> 'a list" where
  "map_last f xs = (if xs = [] then [] else butlast xs @ [f (last xs)])"

definition map_first :: "('a \<Rightarrow> 'a) \<Rightarrow> 'a list \<Rightarrow> 'a list" where
  "map_first f xs = (case xs of [] \<Rightarrow> [] | x # rest \<Rightarrow> f x # rest)"

lemma map_last_append: "ys \<noteq> [] \<Longrightarrow> map_last f (xs @ ys) = xs @ map_last f ys"
  by (simp add: map_last_def butlast_append)

lemma map_first_append: "xs \<noteq> [] \<Longrightarrow> map_first f (xs @ ys) = map_first f xs @ ys"
  by (cases xs) (simp_all add: map_first_def)

lemma update_last_recursive_ok:
  "wf_tree ops t \<Longrightarrow>
   \<exists>t'. update_last_recursive ops f t = ret (t', if is_empty t then None else Some (node_summary t')) \<and>
        wf_tree ops t' \<and> is_empty t' = is_empty t \<and> node_height t' = node_height t \<and>
        tree_items t' = map_last f (tree_items t)"
proof (induction t)
  case (Leaf s its iss)
  show ?case
  proof (cases "its = []")
    case True
    with Leaf show ?thesis by (auto simp: map_last_def)
  next
    case False
    then obtain ys y where "its = ys @ [y]" by (cases its rule: rev_cases) auto
    with Leaf show ?thesis by (simp add: map_last_def)
  qed
next
  case (Internal h s css cts)
  then obtain pre c where c: "cts = pre @ [c]" by (cases cts rule: rev_cases) auto
  then have wf: "wf_tree ops c" "\<not> is_empty c" using Internal.prems by auto
  with Internal.IH [of c] c obtain c' where rec: "update_last_recursive ops f c = ret (c', Some (node_summary c'))"
    and c': "wf_tree ops c'" "\<not> is_empty c'" "node_height c' = node_height c"
      "tree_items c' = map_last f (tree_items c)" by auto
  have css: "css = map node_summary pre @ [node_summary c]" using Internal.prems c by simp
  let ?t = "Internal h (sum_s ops (map node_summary (pre @ [c']))) (map node_summary (pre @ [c'])) (pre @ [c'])"
  have "update_last_recursive ops f (Internal h s css cts) = ret (?t, Some (node_summary ?t))"
    using rec by (simp add: c css panic_free)
  moreover have "wf_tree ops ?t" using Internal.prems c c' by auto
  moreover have "tree_items ?t = map_last f (tree_items (Internal h s css cts))"
    using c c' wf by (simp add: map_last_append wf_nonempty_items)
  ultimately show ?case by simp
qed

lemma update_first_recursive_ok:
  "wf_tree ops t \<Longrightarrow>
   \<exists>t'. update_first_recursive ops f t = ret (t', if is_empty t then None else Some (node_summary t')) \<and>
        wf_tree ops t' \<and> is_empty t' = is_empty t \<and> node_height t' = node_height t \<and>
        tree_items t' = map_first f (tree_items t)"
proof (induction t)
  case (Leaf s its iss)
  then show ?case by (cases its) (auto simp: map_first_def)
next
  case (Internal h s css cts)
  then obtain c rest where c: "cts = c # rest" by (cases cts) auto
  then have wf: "wf_tree ops c" "\<not> is_empty c" using Internal.prems by auto
  with Internal.IH [of c] c obtain c' where rec: "update_first_recursive ops f c = ret (c', Some (node_summary c'))"
    and c': "wf_tree ops c'" "\<not> is_empty c'" "node_height c' = node_height c"
      "tree_items c' = map_first f (tree_items c)" by auto
  have css: "css = node_summary c # map node_summary rest" using Internal.prems c by simp
  let ?t = "Internal h (sum_s ops (map node_summary (c' # rest))) (map node_summary (c' # rest)) (c' # rest)"
  have "update_first_recursive ops f (Internal h s css cts) = ret (?t, Some (node_summary ?t))"
    using rec by (simp add: c css panic_free)
  moreover have "wf_tree ops ?t" using Internal.prems c c' by auto
  moreover have "tree_items ?t = map_first f (tree_items (Internal h s css cts))"
    using c c' wf by (simp add: map_first_append wf_nonempty_items)
  ultimately show ?case by simp
qed

lemma update_last_ok:
  assumes "wf_tree ops t"
  shows "\<exists>t'. update_last ops f t = ret t' \<and> wf_tree ops t' \<and> tree_items t' = map_last f (tree_items t)"
  using update_last_recursive_ok [OF assms, of f] by (auto simp: update_last_def)

lemma update_first_ok:
  assumes "wf_tree ops t"
  shows "\<exists>t'. update_first ops f t = ret t' \<and> wf_tree ops t' \<and> tree_items t' = map_first f (tree_items t)"
  using update_first_recursive_ok [OF assms, of f] by (auto simp: update_first_def)

end
