(* ===== verification/Cursor.thy ===== *)
theory Cursor
  imports SumTree_Build SumTree_Find
begin

text \<open>
  The model of \<open>crates/sum_tree/src/cursor.rs\<close>: \<open>Cursor\<close>, \<open>Iter\<close>, \<open>FilterCursor\<close> and the seek
  aggregates. A cursor is a stack of (node, index) pairs; the model keeps it as a list whose head
  is the top (\<open>self.stack.last()\<close>). The stack is an \<open>ArrayVec\<close> of 16 entries: a push beyond that
  panics. The loops are recursive functions on the stack; each has a termination proof, so the
  loops of the code end on every state, well formed or not. A \<open>filter_node\<close> closure is the predicate
  it computes.
\<close>

section \<open>State\<close>

record ('t, 's, 'd) stack_entry =
  se_tree :: "('t, 's) sum_tree"
  se_index :: nat
  se_position :: 'd

record ('t, 's, 'd) cursor =
  c_tree :: "('t, 's) sum_tree"
  c_stack :: "('t, 's, 'd) stack_entry list"
  c_position :: 'd
  c_did_seek :: bool
  c_at_end :: bool

definition STACK_CAP :: nat where
  "STACK_CAP = 16"

definition stack_push :: "'e \<Rightarrow> 'e list \<Rightarrow> 'e list rust" where
  "stack_push e st = (if length st < STACK_CAP then ret (e # st) else panic)"

definition cursor_new :: "('s, 'd) dim_ops \<Rightarrow> ('t, 's) sum_tree \<Rightarrow> ('t, 's, 'd) cursor" where
  "cursor_new dim tree =
     \<lparr>c_tree = tree, c_stack = [], c_position = d_zero dim, c_did_seek = False, c_at_end = is_empty tree\<rparr>"

definition reset :: "('s, 'd) dim_ops \<Rightarrow> ('t, 's, 'd) cursor \<Rightarrow> ('t, 's, 'd) cursor" where
  "reset dim c =
     c\<lparr>c_did_seek := False, c_at_end := is_empty (c_tree c), c_stack := [], c_position := d_zero dim\<rparr>"

definition cursor_start :: "('t, 's, 'd) cursor \<Rightarrow> 'd" where
  "cursor_start c = c_position c"

definition assert_did_seek :: "('t, 's, 'd) cursor \<Rightarrow> unit rust" where
  "assert_did_seek c = assert_or_panic (c_did_seek c)"

section \<open>Reading the current item\<close>

definition cursor_item :: "('t, 's, 'd) cursor \<Rightarrow> 't option rust" where
  "cursor_item c = do {
     assert_did_seek c;
     (case c_stack c of
        [] \<Rightarrow> ret None
      | entry # _ \<Rightarrow>
          (case se_tree entry of
             Leaf _ items _ \<Rightarrow>
               if se_index entry = length items then ret None
               else do { x \<leftarrow> index_or_panic items (se_index entry); ret (Some x) }
           | Internal _ _ _ _ \<Rightarrow> panic)) }"

definition cursor_item_summary :: "('t, 's, 'd) cursor \<Rightarrow> 's option rust" where
  "cursor_item_summary c = do {
     assert_did_seek c;
     (case c_stack c of
        [] \<Rightarrow> ret None
      | entry # _ \<Rightarrow>
          (case se_tree entry of
             Leaf _ _ item_summaries \<Rightarrow>
               if se_index entry = length item_summaries then ret None
               else do { x \<leftarrow> index_or_panic item_summaries (se_index entry); ret (Some x) }
           | Internal _ _ _ _ \<Rightarrow> panic)) }"

definition cursor_end :: "('s, 'd) dim_ops \<Rightarrow> ('t, 's, 'd) cursor \<Rightarrow> 'd rust" where
  "cursor_end dim c = do {
     s \<leftarrow> cursor_item_summary c;
     ret (case s of Some item_summary \<Rightarrow> d_add dim (cursor_start c) item_summary
                  | None \<Rightarrow> cursor_start c) }"

text \<open>\<open>next_leaf\<close> and \<open>prev_leaf\<close> walk up the stack below the top.\<close>

fun next_leaf_loop :: "('t, 's, 'd) stack_entry list \<Rightarrow> ('t, 's) sum_tree option rust" where
  "next_leaf_loop [] = ret None"
| "next_leaf_loop (entry # st) = do {
     cts \<leftarrow> child_trees (se_tree entry);
     n \<leftarrow> checked_minus (length cts) 1;
     if se_index entry < n then do {
       c \<leftarrow> index_or_panic cts (se_index entry + 1);
       l \<leftarrow> leftmost_leaf c;
       ret (Some l) }
     else next_leaf_loop st }"

definition next_leaf :: "('t, 's, 'd) cursor \<Rightarrow> ('t, 's) sum_tree option rust" where
  "next_leaf c = next_leaf_loop (drop 1 (c_stack c))"

definition next_item :: "('t, 's, 'd) cursor \<Rightarrow> 't option rust" where
  "next_item c = do {
     assert_did_seek c;
     (case c_stack c of
        entry # _ \<Rightarrow> do {
          items \<leftarrow> node_items (se_tree entry);
          n \<leftarrow> checked_minus (length items) 1;
          if se_index entry = n then do {
            next \<leftarrow> next_leaf c;
            (case next of
               Some leaf \<Rightarrow> do { its \<leftarrow> node_items leaf; x \<leftarrow> list_first its; ret (Some x) }
             | None \<Rightarrow> ret None) }
          else do { x \<leftarrow> index_or_panic items (se_index entry + 1); ret (Some x) } }
      | [] \<Rightarrow> if c_at_end c then ret None else tree_first (c_tree c)) }"

fun prev_leaf_loop :: "('t, 's, 'd) stack_entry list \<Rightarrow> ('t, 's) sum_tree option rust" where
  "prev_leaf_loop [] = ret None"
| "prev_leaf_loop (entry # st) =
     (if se_index entry \<noteq> 0 then
        (case se_tree entry of
           Internal _ _ _ cts \<Rightarrow> do {
             c \<leftarrow> index_or_panic cts (se_index entry - 1);
             l \<leftarrow> rightmost_leaf c;
             ret (Some l) }
         | Leaf _ _ _ \<Rightarrow> panic)
      else prev_leaf_loop st)"

definition prev_leaf :: "('t, 's, 'd) cursor \<Rightarrow> ('t, 's) sum_tree option rust" where
  "prev_leaf c = prev_leaf_loop (drop 1 (c_stack c))"

definition prev_item :: "('t, 's, 'd) cursor \<Rightarrow> 't option rust" where
  "prev_item c = do {
     assert_did_seek c;
     (case c_stack c of
        entry # _ \<Rightarrow>
          if se_index entry = 0 then do {
            prev \<leftarrow> prev_leaf c;
            (case prev of
               Some leaf \<Rightarrow> do { its \<leftarrow> node_items leaf; x \<leftarrow> list_last its; ret (Some x) }
             | None \<Rightarrow> ret None) }
          else
            (case se_tree entry of
               Leaf _ items _ \<Rightarrow> do { x \<leftarrow> index_or_panic items (se_index entry - 1); ret (Some x) }
             | Internal _ _ _ _ \<Rightarrow> panic)
      | [] \<Rightarrow> if c_at_end c then tree_last (c_tree c) else ret None) }"

section \<open>A measure on stacks\<close>

text \<open>The work left below a node, and on a stack whose entries have work from (or up to) an index.\<close>

fun weight :: "('t, 's) sum_tree \<Rightarrow> nat" where
  "weight (Leaf s its iss) = 2 + length iss"
| "weight (Internal h s css cts) = 2 + length css + sum_list (map weight cts)"

fun kids :: "('t, 's) sum_tree \<Rightarrow> ('t, 's) sum_tree list" where
  "kids (Internal h s css cts) = cts"
| "kids (Leaf s its iss) = []"

definition right_work :: "('t, 's) sum_tree \<Rightarrow> nat \<Rightarrow> nat" where
  "right_work t k = sum_list (map weight (drop k (kids t)))"

definition left_work :: "('t, 's) sum_tree \<Rightarrow> nat \<Rightarrow> nat" where
  "left_work t k = k + sum_list (map weight (take k (kids t)))"

fun forward_work :: "('t, 's, 'd) stack_entry list \<Rightarrow> bool \<Rightarrow> nat" where
  "forward_work [] descend = 0"
| "forward_work (e # st) descend =
     right_work (se_tree e) (if descend then se_index e else Suc (se_index e)) + Suc (forward_work st False)"

fun backward_work :: "('t, 's, 'd) stack_entry list \<Rightarrow> bool \<Rightarrow> nat" where
  "backward_work [] descending = 0"
| "backward_work (e # st) descending =
     left_work (se_tree e) (if descending then Suc (se_index e) else se_index e) + Suc (backward_work st False)"

lemma right_work_child: "i < length (kids t) \<Longrightarrow> right_work t i = weight (kids t ! i) + right_work t (Suc i)"
  by (simp add: right_work_def Cons_nth_drop_Suc [symmetric])

lemma right_work_mono: "i \<le> j \<Longrightarrow> right_work t j \<le> right_work t i"
proof (induction "j - i" arbitrary: i)
  case (Suc n)
  then have "right_work t j \<le> right_work t (Suc i)" by (metis Suc_diff_Suc Suc_leI diff_Suc_1 zero_less_Suc zero_less_diff)
  moreover have "right_work t (Suc i) \<le> right_work t i"
  proof (cases "i < length (kids t)")
    case False
    then show ?thesis by (simp add: right_work_def)
  qed (simp add: right_work_child)
  ultimately show ?case by simp
qed simp

lemma right_work_start: "right_work t 0 + 2 \<le> weight t"
  by (cases t) (simp_all add: right_work_def)

lemma left_work_child: "i < length (kids t) \<Longrightarrow> left_work t (Suc i) = left_work t i + weight (kids t ! i) + 1"
  by (simp add: left_work_def take_Suc_conv_app_nth)

lemma left_work_Suc: "left_work t i < left_work t (Suc i)"
proof (cases "i < length (kids t)")
  case False
  then show ?thesis by (simp add: left_work_def)
qed (simp add: left_work_child)

lemma left_work_pred: "0 < i \<Longrightarrow> left_work t (i - Suc 0) < left_work t i"
  using left_work_Suc [of t "i - Suc 0"] by simp

lemma left_work_end: "left_work t (length (child_summaries t)) + 2 \<le> weight t"
proof (cases t)
  case (Internal h s css cts)
  have "sum_list (map weight (take n cts)) \<le> sum_list (map weight cts)" for n
    by (metis append_take_drop_id le_add1 map_append sum_list_append)
  with Internal show ?thesis by (simp add: left_work_def)
qed (simp add: left_work_def)

text \<open>Pushing the child at the index costs less than having it to the right, or to the left.\<close>

lemma forward_push_work:
  assumes "i \<le> i'" "i' < length (kids (se_tree e))" "se_tree e' = se_tree e" "se_index e' = i'"
  shows "forward_work (\<lparr>se_tree = kids (se_tree e) ! i', se_index = 0, se_position = p\<rparr> # e' # st) True
    < right_work (se_tree e) i + Suc (forward_work st False)"
proof -
  have "right_work (kids (se_tree e) ! i') 0 + 2 + right_work (se_tree e) (Suc i') \<le> right_work (se_tree e) i'"
    using assms right_work_start [of "kids (se_tree e) ! i'"] by (simp add: right_work_child)
  with right_work_mono [OF assms(1), of "se_tree e"] assms show ?thesis by simp
qed

section \<open>Searching forward\<close>

text \<open>
  The inner loops of \<open>search_forward\<close>: pass the summaries the filter rejects, advancing the index,
  the position of the entry and that of the cursor.
\<close>

fun skip_forward ::
  "('s, 'd) dim_ops \<Rightarrow> ('s \<Rightarrow> bool) \<Rightarrow> nat \<Rightarrow> 'd \<Rightarrow> 'd \<Rightarrow> 's list \<Rightarrow> nat \<times> 'd \<times> 'd \<times> bool" where
  "skip_forward dim filter_node i epos pos [] = (i, epos, pos, False)"
| "skip_forward dim filter_node i epos pos (s # ss) =
     (if filter_node s then (i, epos, pos, True)
      else skip_forward dim filter_node (i + 1) (d_add dim epos s) (d_add dim pos s) ss)"

lemma skip_forward_le: "skip_forward dim f i ep p ss = (i', ep', p', b) \<Longrightarrow> i \<le> i'"
  by (induction ss arbitrary: i ep p) (auto split: if_splits dest: Suc_leD)

lemma search_forward_decreases:
  assumes "(i', ep', pos', b) = skip_forward dim f i ep pos ss" "list_get cts i' = ret sub"
    and "stack_push \<lparr>se_tree = sub, se_index = 0, se_position = pos'\<rparr>
           (entry\<lparr>se_index := i', se_position := ep'\<rparr> # st) = ret st'"
    and "se_tree entry = Internal h s css cts"
  shows "forward_work st' True < Suc (right_work (Internal h s css cts) i + forward_work st False)"
proof -
  have "i \<le> i'" using assms(1) skip_forward_le by metis
  then show ?thesis
    using assms(2-4) forward_push_work [of i i' entry "entry\<lparr>se_index := i', se_position := ep'\<rparr>" pos' st]
    by (auto simp: stack_push_def list_get_def split: if_splits)
qed

function search_forward_loop ::
  "('s, 'd) dim_ops \<Rightarrow> ('s \<Rightarrow> bool) \<Rightarrow> ('t, 's, 'd) stack_entry list \<Rightarrow> 'd \<Rightarrow> bool \<Rightarrow>
   (('t, 's, 'd) stack_entry list \<times> 'd) rust" where
  "search_forward_loop dim filter_node [] position descend = ret ([], position)"
| "search_forward_loop dim filter_node (entry # st) position descend =
     (case se_tree entry of
        Internal _ _ css cts \<Rightarrow> (
          let i = (if descend then se_index entry else se_index entry + 1);
              ep = (if descend then se_position entry else position)
          in case skip_forward dim filter_node i ep position (drop i css) of
            (i', ep', position', _) \<Rightarrow>
              (case list_get cts i' of
                 Some subtree \<Rightarrow> do {
                   st' \<leftarrow> stack_push \<lparr>se_tree = subtree, se_index = 0, se_position = position'\<rparr>
                           (entry\<lparr>se_index := i', se_position := ep'\<rparr> # st);
                   search_forward_loop dim filter_node st' position' True }
               | None \<Rightarrow> search_forward_loop dim filter_node st position' False))
      | Leaf _ _ item_summaries \<Rightarrow> do {
          (i, ep, p) \<leftarrow>
            (if descend then ret (se_index entry, se_position entry, position)
             else do {
               s \<leftarrow> index_or_panic item_summaries (se_index entry);
               ret (se_index entry + 1, d_add dim (se_position entry) s, d_add dim position s) });
          (case skip_forward dim filter_node i ep p (drop i item_summaries) of
             (i', ep', position', found) \<Rightarrow>
               if found then ret (entry\<lparr>se_index := i', se_position := ep'\<rparr> # st, position')
               else search_forward_loop dim filter_node st position' False) })"
  by pat_completeness auto
termination
  by (relation "measure (\<lambda>(dim, f, st, position, descend). forward_work st descend)")
    (auto dest: search_forward_decreases split: if_splits)

definition search_forward ::
  "('s, 'd) dim_ops \<Rightarrow> ('s \<Rightarrow> bool) \<Rightarrow> ('t, 's, 'd) cursor \<Rightarrow> ('t, 's, 'd) cursor rust" where
  "search_forward dim filter_node c = do {
     (st, descend) \<leftarrow>
       (if c_stack c = [] \<and> \<not> c_at_end c then do {
          st \<leftarrow> stack_push \<lparr>se_tree = c_tree c, se_index = 0, se_position = d_zero dim\<rparr> (c_stack c);
          ret (st, True) }
        else ret (c_stack c, False));
     let did_seek = (if c_stack c = [] then True else c_did_seek c);
     (st', position) \<leftarrow> search_forward_loop dim filter_node st (c_position c) descend;
     ret (c\<lparr>c_stack := st', c_position := position, c_did_seek := did_seek,
            c_at_end := (if st' = [] then True else c_at_end c)\<rparr>) }"

definition cursor_next :: "('s, 'd) dim_ops \<Rightarrow> ('t, 's, 'd) cursor \<Rightarrow> ('t, 's, 'd) cursor rust" where
  "cursor_next dim c = search_forward dim (\<lambda>_. True) c"

section \<open>Searching backward\<close>

function search_backward_loop ::
  "('s, 'd) dim_ops \<Rightarrow> ('s \<Rightarrow> bool) \<Rightarrow> ('t, 's, 'd) stack_entry list \<Rightarrow> 'd \<Rightarrow> bool \<Rightarrow>
   (('t, 's, 'd) stack_entry list \<times> 'd) rust" where
  "search_backward_loop dim filter_node [] position descending = ret ([], position)"
| "search_backward_loop dim filter_node (entry # st) position descending = (
     let position0 = (case st of [] \<Rightarrow> d_zero dim | parent # _ \<Rightarrow> se_position parent) in
     if \<not> descending \<and> se_index entry = 0 then search_backward_loop dim filter_node st position0 False
     else do {
       let i = (if descending then se_index entry else se_index entry - 1);
       before \<leftarrow> slice_to (child_summaries (se_tree entry)) i;
       let position1 = foldl (d_add dim) position0 before;
       let entry' = entry\<lparr>se_index := i, se_position := position1\<rparr>;
       s \<leftarrow> index_or_panic (child_summaries (se_tree entry)) i;
       let descending' = filter_node s;
       (case se_tree entry of
          Internal _ _ _ cts \<Rightarrow>
            if descending' then do {
              tree \<leftarrow> index_or_panic cts i;
              last_index \<leftarrow> checked_minus (length (child_summaries tree)) 1;
              st' \<leftarrow> stack_push \<lparr>se_tree = tree, se_index = last_index, se_position = d_zero dim\<rparr> (entry' # st);
              search_backward_loop dim filter_node st' position1 True }
            else search_backward_loop dim filter_node (entry' # st) position1 False
        | Leaf _ _ _ \<Rightarrow>
            if descending' then ret (entry' # st, position1)
            else search_backward_loop dim filter_node (entry' # st) position1 False) })"
  by pat_completeness auto
termination
proof (relation "measure (\<lambda>(dim, f, st, position, descending). backward_work st descending)", goal_cases)
  case (3 dim f entry st position descending position0 i before position1 entry' s descending' h s' css cts
      tree last_index st')
  have i: "i < length cts" "tree = cts ! i" "kids (se_tree entry) = cts"
    using 3 by (auto simp: index_or_panic_def split: if_splits)
  have n: "length (child_summaries tree) = Suc last_index"
    using 3 by (auto simp: checked_minus_def split: if_splits)
  have st': "st' = \<lparr>se_tree = tree, se_index = last_index, se_position = d_zero dim\<rparr> # entry' # st"
    using 3 by (auto simp: stack_push_def split: if_splits)
  have "left_work tree (Suc last_index) + 2 \<le> weight tree"
    using left_work_end [of tree] n by simp
  moreover have "left_work (se_tree entry) (Suc i) = left_work (se_tree entry) i + weight tree + 1"
    using i by (simp add: left_work_child)
  moreover have "(if descending then Suc (se_index entry) else se_index entry) = Suc i" using 3 by auto
  ultimately show ?case using st' 3 by (simp split: if_splits)
qed (use left_work_Suc left_work_pred in \<open>auto split: if_splits\<close>)

definition search_backward ::
  "('s, 'd) dim_ops \<Rightarrow> ('s \<Rightarrow> bool) \<Rightarrow> ('t, 's, 'd) cursor \<Rightarrow> ('t, 's, 'd) cursor rust" where
  "search_backward dim filter_node c = do {
     let at_end = (if c_did_seek c then c_at_end c else True);
     (st, position, at_end') \<leftarrow>
       (if at_end then do {
          st \<leftarrow> (if is_empty (c_tree c) then ret (c_stack c)
                 else stack_push \<lparr>se_tree = c_tree c, se_index = length (child_summaries (c_tree c)),
                                  se_position = from_summary_dim dim (node_summary (c_tree c))\<rparr> (c_stack c));
          ret (st, d_zero dim, is_empty (c_tree c)) }
        else ret (c_stack c, c_position c, at_end));
     (st', position') \<leftarrow> search_backward_loop dim filter_node st position False;
     ret (c\<lparr>c_stack := st', c_position := position', c_did_seek := True, c_at_end := at_end'\<rparr>) }"

definition cursor_prev :: "('s, 'd) dim_ops \<Rightarrow> ('t, 's, 'd) cursor \<Rightarrow> ('t, 's, 'd) cursor rust" where
  "cursor_prev dim c = search_backward dim (\<lambda>_. True) c"

section \<open>Seeking\<close>

text \<open>The trait \<open>SeekAggregate\<close> as a dictionary, and its three implementations.\<close>

record ('a, 't, 's) agg_ops =
  ag_begin_leaf :: "'a \<Rightarrow> 'a rust"
  ag_end_leaf :: "'a \<Rightarrow> 'a rust"
  ag_push_item :: "'a \<Rightarrow> 't \<Rightarrow> 's \<Rightarrow> 'a rust"
  ag_push_tree :: "'a \<Rightarrow> ('t, 's) sum_tree \<Rightarrow> 's \<Rightarrow> 'a rust"

definition unit_agg :: "(unit, 't, 's) agg_ops" where
  "unit_agg = \<lparr>ag_begin_leaf = (\<lambda>a. ret a), ag_end_leaf = (\<lambda>a. ret a),
     ag_push_item = (\<lambda>a _ _. ret a), ag_push_tree = (\<lambda>a _ _. ret a)\<rparr>"

record ('t, 's) slice_seek_aggregate =
  sa_tree :: "('t, 's) sum_tree"
  sa_leaf_items :: "'t list"
  sa_leaf_item_summaries :: "'s list"
  sa_leaf_summary :: 's

definition slice_end_leaf ::
  "('t, 's) item_ops \<Rightarrow> ('t, 's) slice_seek_aggregate \<Rightarrow> ('t, 's) slice_seek_aggregate rust" where
  "slice_end_leaf ops a = do {
     tree \<leftarrow> append_tree ops (sa_tree a) (Leaf (sa_leaf_summary a) (sa_leaf_items a) (sa_leaf_item_summaries a));
     ret (a\<lparr>sa_tree := tree, sa_leaf_summary := s_zero ops, sa_leaf_items := [], sa_leaf_item_summaries := []\<rparr>) }"

definition slice_push_item ::
  "('t, 's) item_ops \<Rightarrow> ('t, 's) slice_seek_aggregate \<Rightarrow> 't \<Rightarrow> 's \<Rightarrow> ('t, 's) slice_seek_aggregate rust" where
  "slice_push_item ops a item summary = do {
     items \<leftarrow> fits CAP (sa_leaf_items a @ [item]);
     summaries \<leftarrow> fits CAP (sa_leaf_item_summaries a @ [summary]);
     ret (a\<lparr>sa_leaf_items := items, sa_leaf_item_summaries := summaries,
            sa_leaf_summary := s_add ops (sa_leaf_summary a) summary\<rparr>) }"

definition slice_push_tree ::
  "('t, 's) item_ops \<Rightarrow> ('t, 's) slice_seek_aggregate \<Rightarrow> ('t, 's) sum_tree \<Rightarrow> 's \<Rightarrow>
   ('t, 's) slice_seek_aggregate rust" where
  "slice_push_tree ops a tree _ = do { t \<leftarrow> append_tree ops (sa_tree a) tree; ret (a\<lparr>sa_tree := t\<rparr>) }"

definition slice_agg :: "('t, 's) item_ops \<Rightarrow> (('t, 's) slice_seek_aggregate, 't, 's) agg_ops" where
  "slice_agg ops = \<lparr>ag_begin_leaf = (\<lambda>a. ret a), ag_end_leaf = slice_end_leaf ops,
     ag_push_item = slice_push_item ops, ag_push_tree = slice_push_tree ops\<rparr>"

definition summary_agg :: "('s, 'o) dim_ops \<Rightarrow> ('o, 't, 's) agg_ops" where
  "summary_agg out = \<lparr>ag_begin_leaf = (\<lambda>a. ret a), ag_end_leaf = (\<lambda>a. ret a),
     ag_push_item = (\<lambda>a _ summary. ret (d_add out a summary)),
     ag_push_tree = (\<lambda>a _ summary. ret (d_add out a summary))\<rparr>"

text \<open>
  The \<open>for\<close> loop over the children from the index of the entry on: children that end before the
  target are handed to the aggregate; the first other one is where the seek descends.
\<close>

fun seek_children ::
  "('a, 't, 's) agg_ops \<Rightarrow> ('s, 'd) dim_ops \<Rightarrow> ('d \<Rightarrow> ordering) \<Rightarrow> bias \<Rightarrow> nat \<Rightarrow> 'd \<Rightarrow> 'd \<Rightarrow> 'a \<Rightarrow>
   ('t, 's) sum_tree list \<Rightarrow> 's list \<Rightarrow> (nat \<times> 'd \<times> 'd \<times> 'a \<times> ('t, 's) sum_tree option) rust" where
  "seek_children agg dim target bias i epos position a (child_tree # cts) (child_summary # css) = (
     let child_end = d_add dim position child_summary in
     if past_end bias (target child_end) then do {
       a' \<leftarrow> ag_push_tree agg a child_tree child_summary;
       seek_children agg dim target bias (i + 1) child_end child_end a' cts css }
     else ret (i, epos, position, a, Some child_tree))"
| "seek_children agg dim target bias i epos position a _ _ = ret (i, epos, position, a, None)"

text \<open>The \<open>for\<close> loop over the items of a leaf; the flag says whether it was left by \<open>break 'outer\<close>.\<close>

fun seek_items ::
  "('a, 't, 's) agg_ops \<Rightarrow> ('s, 'd) dim_ops \<Rightarrow> ('d \<Rightarrow> ordering) \<Rightarrow> bias \<Rightarrow> nat \<Rightarrow> 'd \<Rightarrow> 'a \<Rightarrow>
   't list \<Rightarrow> 's list \<Rightarrow> (nat \<times> 'd \<times> 'a \<times> bool) rust" where
  "seek_items agg dim target bias i position a (item # its) (item_summary # iss) = (
     let child_end = d_add dim position item_summary in
     if past_end bias (target child_end) then do {
       a' \<leftarrow> ag_push_item agg a item item_summary;
       seek_items agg dim target bias (i + 1) child_end a' its iss }
     else ret (i, position, a, True))"
| "seek_items agg dim target bias i position a _ _ = ret (i, position, a, False)"

lemma seek_children_index:
  "seek_children agg dim target bias i ep pos a cts css = ret (i', ep', pos', a', Some c) \<Longrightarrow>
   \<exists>j < length cts. i' = i + j \<and> c = cts ! j"
proof (induction cts arbitrary: i ep pos a css)
  case (Cons d cts)
  show ?case
  proof (cases css)
    case Nil
    with Cons.prems show ?thesis by simp
  next
    case (Cons s css')
    with Cons.prems Cons.IH [of "i + 1" _ _ _ css'] show ?thesis
      by (fastforce split: if_splits bind_splits)
  qed
qed simp

lemma seek_decreases:
  assumes "slice_from cts i = ret rest"
    and "seek_children agg dim target bias i ep pos a rest css = ret (i', ep', pos', a', Some c)"
    and "stack_push \<lparr>se_tree = c, se_index = 0, se_position = pos'\<rparr>
           (entry\<lparr>se_index := i', se_position := ep'\<rparr> # st) = ret st'"
    and "se_tree entry = Internal h s css' cts"
  shows "forward_work st' True < Suc (right_work (Internal h s css' cts) i + forward_work st False)"
proof -
  have rest: "rest = drop i cts" using assms(1) by (auto simp: slice_from_def split: if_splits)
  obtain j where j: "j < length rest" "i' = i + j" "c = rest ! j" using seek_children_index [OF assms(2)] by auto
  then have "i' < length cts" "c = cts ! i'" using rest by auto
  with j show ?thesis
    using assms(3,4) forward_push_work [of i i' entry "entry\<lparr>se_index := i', se_position := ep'\<rparr>" pos' st]
    by (auto simp: stack_push_def split: if_splits)
qed

function seek_loop ::
  "('a, 't, 's) agg_ops \<Rightarrow> ('s, 'd) dim_ops \<Rightarrow> ('d \<Rightarrow> ordering) \<Rightarrow> bias \<Rightarrow>
   ('t, 's, 'd) stack_entry list \<Rightarrow> 'd \<Rightarrow> 'a \<Rightarrow> bool \<Rightarrow> (('t, 's, 'd) stack_entry list \<times> 'd \<times> 'a) rust" where
  "seek_loop agg dim target bias [] position a ascending = ret ([], position, a)"
| "seek_loop agg dim target bias (entry # st) position a ascending =
     (case se_tree entry of
        Internal _ _ css cts \<Rightarrow> do {
          let i = (if ascending then se_index entry + 1 else se_index entry);
          let ep = (if ascending then position else se_position entry);
          trees \<leftarrow> slice_from cts i;
          summaries \<leftarrow> slice_from css i;
          (i', ep', position', a', child) \<leftarrow> seek_children agg dim target bias i ep position a trees summaries;
          (case child of
             Some child_tree \<Rightarrow> do {
               st' \<leftarrow> stack_push \<lparr>se_tree = child_tree, se_index = 0, se_position = position'\<rparr>
                       (entry\<lparr>se_index := i', se_position := ep'\<rparr> # st);
               seek_loop agg dim target bias st' position' a' False }
           | None \<Rightarrow> seek_loop agg dim target bias st position' a' True) }
      | Leaf _ items item_summaries \<Rightarrow> do {
          a1 \<leftarrow> ag_begin_leaf agg a;
          its \<leftarrow> slice_from items (se_index entry);
          iss \<leftarrow> slice_from item_summaries (se_index entry);
          (i', position', a2, stopped) \<leftarrow> seek_items agg dim target bias (se_index entry) position a1 its iss;
          a3 \<leftarrow> ag_end_leaf agg a2;
          if stopped then ret (entry\<lparr>se_index := i'\<rparr> # st, position', a3)
          else seek_loop agg dim target bias st position' a3 True })"
  by pat_completeness auto
termination
  by (relation "measure (\<lambda>(agg, dim, target, bias, st, position, a, ascending). forward_work st (\<not> ascending))")
    (auto dest: seek_decreases split: if_splits)

definition seek_internal ::
  "('a, 't, 's) agg_ops \<Rightarrow> ('s, 'd) dim_ops \<Rightarrow> ('d \<Rightarrow> ordering) \<Rightarrow> bias \<Rightarrow> 'a \<Rightarrow> ('t, 's, 'd) cursor \<Rightarrow>
   (bool \<times> ('t, 's, 'd) cursor \<times> 'a) rust" where
  "seek_internal agg dim target bias a c = do {
     assert_or_panic (ord_is_ge (target (c_position c)));
     st \<leftarrow> (if c_did_seek c then ret (c_stack c)
            else stack_push \<lparr>se_tree = c_tree c, se_index = 0, se_position = d_zero dim\<rparr> (c_stack c));
     (st', position, a') \<leftarrow> seek_loop agg dim target bias st (c_position c) a False;
     let c' = c\<lparr>c_did_seek := True, c_stack := st', c_position := position, c_at_end := (st' = [])\<rparr>;
     assert_or_panic (case st' of [] \<Rightarrow> True | e # _ \<Rightarrow> is_leaf (se_tree e));
     end_pos \<leftarrow> (if bias = Left then do {
                   s \<leftarrow> cursor_item_summary c';
                   ret (case s of Some summary \<Rightarrow> d_add dim position summary | None \<Rightarrow> position) }
                 else ret position);
     ret (target end_pos = Equal, c', a') }"

definition seek ::
  "('s, 'd) dim_ops \<Rightarrow> ('d \<Rightarrow> ordering) \<Rightarrow> bias \<Rightarrow> ('t, 's, 'd) cursor \<Rightarrow> (bool \<times> ('t, 's, 'd) cursor) rust" where
  "seek dim target bias c = do {
     (found, c', _) \<leftarrow> seek_internal unit_agg dim target bias () (reset dim c);
     ret (found, c') }"

definition seek_forward ::
  "('s, 'd) dim_ops \<Rightarrow> ('d \<Rightarrow> ordering) \<Rightarrow> bias \<Rightarrow> ('t, 's, 'd) cursor \<Rightarrow> (bool \<times> ('t, 's, 'd) cursor) rust" where
  "seek_forward dim target bias c = do {
     (found, c', _) \<leftarrow> seek_internal unit_agg dim target bias () c;
     ret (found, c') }"

definition slice ::
  "('t, 's) item_ops \<Rightarrow> ('s, 'd) dim_ops \<Rightarrow> ('d \<Rightarrow> ordering) \<Rightarrow> bias \<Rightarrow> ('t, 's, 'd) cursor \<Rightarrow>
   (('t, 's) sum_tree \<times> ('t, 's, 'd) cursor) rust" where
  "slice ops dim target bias c = do {
     let a = \<lparr>sa_tree = new_tree ops, sa_leaf_items = [], sa_leaf_item_summaries = [],
              sa_leaf_summary = s_zero ops\<rparr>;
     (_, c', a') \<leftarrow> seek_internal (slice_agg ops) dim target bias a c;
     ret (sa_tree a', c') }"

text \<open>The target \<open>End\<close> is beyond every position.\<close>

definition end_target :: "'d \<Rightarrow> ordering" where
  "end_target _ = Greater"

definition suffix ::
  "('t, 's) item_ops \<Rightarrow> ('s, 'd) dim_ops \<Rightarrow> ('t, 's, 'd) cursor \<Rightarrow> (('t, 's) sum_tree \<times> ('t, 's, 'd) cursor) rust" where
  "suffix ops dim c = slice ops dim end_target Right c"

definition cursor_summary ::
  "('s, 'o) dim_ops \<Rightarrow> ('s, 'd) dim_ops \<Rightarrow> ('d \<Rightarrow> ordering) \<Rightarrow> bias \<Rightarrow> ('t, 's, 'd) cursor \<Rightarrow>
   ('o \<times> ('t, 's, 'd) cursor) rust" where
  "cursor_summary out dim target bias c = do {
     (_, c', o') \<leftarrow> seek_internal (summary_agg out) dim target bias (d_zero out) c;
     ret (o', c') }"

section \<open>Iteration\<close>

text \<open>\<open>Iterator for Cursor\<close>: the item the cursor is at, then one step on.\<close>

definition cursor_iter_next ::
  "('s, 'd) dim_ops \<Rightarrow> ('t, 's, 'd) cursor \<Rightarrow> ('t option \<times> ('t, 's, 'd) cursor) rust" where
  "cursor_iter_next dim c = do {
     c1 \<leftarrow> (if c_did_seek c then ret c else cursor_next dim c);
     x \<leftarrow> cursor_item c1;
     (case x of
        Some item \<Rightarrow> do { c2 \<leftarrow> cursor_next dim c1; ret (Some item, c2) }
      | None \<Rightarrow> ret (None, c1)) }"

text \<open>\<open>FilterCursor\<close>: a cursor whose steps search with a filter.\<close>

definition filter_cursor_next ::
  "('s, 'd) dim_ops \<Rightarrow> ('s \<Rightarrow> bool) \<Rightarrow> ('t, 's, 'd) cursor \<Rightarrow> ('t, 's, 'd) cursor rust" where
  "filter_cursor_next dim filter_node c = search_forward dim filter_node c"

definition filter_cursor_prev ::
  "('s, 'd) dim_ops \<Rightarrow> ('s \<Rightarrow> bool) \<Rightarrow> ('t, 's, 'd) cursor \<Rightarrow> ('t, 's, 'd) cursor rust" where
  "filter_cursor_prev dim filter_node c = search_backward dim filter_node c"

definition filter_iter_next ::
  "('s, 'd) dim_ops \<Rightarrow> ('s \<Rightarrow> bool) \<Rightarrow> ('t, 's, 'd) cursor \<Rightarrow> ('t option \<times> ('t, 's, 'd) cursor) rust" where
  "filter_iter_next dim filter_node c = do {
     c1 \<leftarrow> (if c_did_seek c then ret c else filter_cursor_next dim filter_node c);
     x \<leftarrow> cursor_item c1;
     (case x of
        Some item \<Rightarrow> do { c2 \<leftarrow> search_forward dim filter_node c1; ret (Some item, c2) }
      | None \<Rightarrow> ret (None, c1)) }"

text \<open>\<open>Iter\<close>: a stack of its own, without positions.\<close>

record ('t, 's) tree_iter =
  ti_tree :: "('t, 's) sum_tree"
  ti_stack :: "('t, 's, unit) stack_entry list"

definition iter_new :: "('t, 's) sum_tree \<Rightarrow> ('t, 's) tree_iter" where
  "iter_new tree = \<lparr>ti_tree = tree, ti_stack = []\<rparr>"

lemma iter_decreases:
  assumes "list_get cts i = ret sub"
    and "stack_push \<lparr>se_tree = sub, se_index = 0, se_position = ()\<rparr> (entry\<lparr>se_index := i\<rparr> # st) = ret st'"
    and "se_tree entry = Internal h s css cts"
  shows "forward_work st' True < Suc (right_work (Internal h s css cts) i + forward_work st False)"
  using assms forward_push_work [of i i entry "entry\<lparr>se_index := i\<rparr>" "()" st]
  by (auto simp: stack_push_def list_get_def split: if_splits)

lemma iter_decreases_same:
  assumes "list_get cts (se_index entry) = ret sub"
    and "stack_push \<lparr>se_tree = sub, se_index = 0, se_position = ()\<rparr> (entry # st) = ret st'"
    and "se_tree entry = Internal h s css cts"
  shows "forward_work st' True < Suc (right_work (Internal h s css cts) (se_index entry) + forward_work st False)"
  using assms iter_decreases [of cts "se_index entry" sub entry st st'] by simp

function iter_loop ::
  "('t, 's, unit) stack_entry list \<Rightarrow> bool \<Rightarrow> ('t option \<times> ('t, 's, unit) stack_entry list) rust" where
  "iter_loop [] descend = ret (None, [])"
| "iter_loop (entry # st) descend = (
     let i = (if descend then se_index entry else se_index entry + 1) in
     (case se_tree entry of
        Internal _ _ _ cts \<Rightarrow>
          (case list_get cts i of
             Some subtree \<Rightarrow> do {
               st' \<leftarrow> stack_push \<lparr>se_tree = subtree, se_index = 0, se_position = ()\<rparr> (entry\<lparr>se_index := i\<rparr> # st);
               iter_loop st' True }
           | None \<Rightarrow> iter_loop st False)
      | Leaf _ items _ \<Rightarrow>
          (case list_get items i of
             Some item \<Rightarrow> ret (Some item, entry\<lparr>se_index := i\<rparr> # st)
           | None \<Rightarrow> iter_loop st False)))"
  by pat_completeness auto
termination
  by (relation "measure (\<lambda>(st, descend). forward_work st descend)")
    (auto dest: iter_decreases iter_decreases_same split: if_splits)

definition iter_next :: "('t, 's) tree_iter \<Rightarrow> ('t option \<times> ('t, 's) tree_iter) rust" where
  "iter_next it = do {
     (st, descend) \<leftarrow>
       (if ti_stack it = [] then do {
          st \<leftarrow> stack_push \<lparr>se_tree = ti_tree it, se_index = 0, se_position = ()\<rparr> [];
          ret (st, True) }
        else ret (ti_stack it, False));
     (x, st') \<leftarrow> iter_loop st descend;
     ret (x, it\<lparr>ti_stack := st'\<rparr>) }"

definition iter_last :: "('t, 's) tree_iter \<Rightarrow> 't option rust" where
  "iter_last it = do { l \<leftarrow> rightmost_leaf (ti_tree it); tree_last l }"

text \<open>The lower bound of \<open>Iter::size_hint\<close>.\<close>

definition iter_size_hint :: "('t, 's) tree_iter \<Rightarrow> nat rust" where
  "iter_size_hint it =
     (case ti_stack it of
        entry # _ \<Rightarrow> checked_minus (length (child_summaries (se_tree entry))) (se_index entry)
      | [] \<Rightarrow> ret (length (child_summaries (ti_tree it))))"

text \<open>The loops are unfolded on demand only.\<close>

lemmas loop_steps = search_forward_loop.simps(2) search_backward_loop.simps(2) seek_loop.simps(2) iter_loop.simps(2)

declare loop_steps [simp del]

end
