(* ===== verification/Cursor_Path.thy ===== *)
theory Cursor_Path
  imports Cursor
begin

text \<open>
  What the stack of a cursor stands for. The entries below the top are the ancestors of the node
  the cursor is in: \<open>focus\<close> is that node, \<open>before\<close> and \<open>after\<close> the items to the left and to the
  right of it. \<open>cursor_at\<close> relates a stack and a position to a split of the item sequence of the
  tree: the items before the cursor and the items from the current one on.
\<close>

section \<open>Paths\<close>

fun focus :: "('t, 's) sum_tree \<Rightarrow> ('t, 's, 'd) stack_entry list \<Rightarrow> ('t, 's) sum_tree" where
  "focus t [] = t"
| "focus t (p # ps) = kids (se_tree p) ! se_index p"

fun before :: "('t, 's, 'd) stack_entry list \<Rightarrow> 't list" where
  "before [] = []"
| "before (p # ps) = before ps @ concat (map tree_items (take (se_index p) (kids (se_tree p))))"

fun after :: "('t, 's, 'd) stack_entry list \<Rightarrow> 't list" where
  "after [] = []"
| "after (p # ps) = concat (map tree_items (drop (Suc (se_index p)) (kids (se_tree p)))) @ after ps"

fun parents_ok ::
  "('t, 's) item_ops \<Rightarrow> ('s, 'd) dim_ops \<Rightarrow> ('t, 's) sum_tree \<Rightarrow> ('t, 's, 'd) stack_entry list \<Rightarrow> bool" where
  "parents_ok ops dim t [] = True"
| "parents_ok ops dim t (p # ps) \<longleftrightarrow>
     se_tree p = focus t ps \<and> se_index p < length (kids (se_tree p)) \<and> parents_ok ops dim t ps \<and>
     se_position p = dim_of ops dim (before (p # ps))"

fun leaf_items :: "('t, 's) sum_tree \<Rightarrow> 't list" where
  "leaf_items (Leaf s its iss) = its"
| "leaf_items (Internal h s css cts) = []"

text \<open>The cursor is in front of the first item of \<open>post\<close>, or has left the tree when there is none.\<close>

fun cursor_at ::
  "('t, 's) item_ops \<Rightarrow> ('s, 'd) dim_ops \<Rightarrow> ('t, 's) sum_tree \<Rightarrow> ('t, 's, 'd) stack_entry list \<Rightarrow> 'd \<Rightarrow>
   't list \<Rightarrow> 't list \<Rightarrow> bool" where
  "cursor_at ops dim t [] pos pre post \<longleftrightarrow> pre = tree_items t \<and> post = [] \<and> pos = dim_of ops dim pre"
| "cursor_at ops dim t (e # ps) pos pre post \<longleftrightarrow>
     parents_ok ops dim t ps \<and> se_tree e = focus t ps \<and> is_leaf (se_tree e) \<and>
     se_index e < length (leaf_items (se_tree e)) \<and>
     pre = before ps @ take (se_index e) (leaf_items (se_tree e)) \<and>
     post = drop (se_index e) (leaf_items (se_tree e)) @ after ps \<and> pos = dim_of ops dim pre"

lemma wf_focus:
  "wf_tree ops t \<Longrightarrow> parents_ok ops dim t ps \<Longrightarrow>
   wf_tree ops (focus t ps) \<and> (ps \<noteq> [] \<longrightarrow> \<not> is_empty (focus t ps)) \<and>
   node_height (focus t ps) + length ps = node_height t"
proof (induction ps)
  case (Cons p ps)
  then have IH: "wf_tree ops (focus t ps)" "node_height (focus t ps) + length ps = node_height t"
    and p: "se_tree p = focus t ps" "se_index p < length (kids (se_tree p))" by auto
  then obtain h s css cts where n: "focus t ps = Internal h s css cts"
    by (cases "focus t ps") simp_all
  have "cts ! se_index p \<in> set cts" using p n by simp
  then show ?case using IH p n by auto
qed simp

lemma path_items:
  "parents_ok ops dim t ps \<Longrightarrow> tree_items t = before ps @ tree_items (focus t ps) @ after ps"
proof (induction ps)
  case (Cons p ps)
  then have IH: "tree_items t = before ps @ tree_items (focus t ps) @ after ps"
    and p: "se_tree p = focus t ps" "se_index p < length (kids (se_tree p))" by auto
  then obtain h s css cts where n: "focus t ps = Internal h s css cts"
    by (cases "focus t ps") simp_all
  have "cts = take (se_index p) cts @ cts ! se_index p # drop (Suc (se_index p)) cts"
    using p n by (simp add: drop_take_nth)
  then have "tree_items (focus t ps) = concat (map tree_items (take (se_index p) cts)) @
      tree_items (cts ! se_index p) @ concat (map tree_items (drop (Suc (se_index p)) cts))"
    unfolding n by (metis concat.simps(2) concat_append list.map(2) map_append tree_items.simps(2))
  then show ?case using IH p n by simp
qed simp

lemma cursor_at_items: "cursor_at ops dim t st pos pre post \<Longrightarrow> pre @ post = tree_items t"
proof (cases st)
  case (Cons e ps)
  assume at: "cursor_at ops dim t st pos pre post"
  with Cons obtain s its iss where "focus t ps = Leaf s its iss" by (cases "focus t ps") auto
  with at Cons show ?thesis by (simp add: path_items [of ops dim t ps])
qed simp

lemma cursor_at_pos: "cursor_at ops dim t st pos pre post \<Longrightarrow> pos = dim_of ops dim pre"
  by (cases st) simp_all

lemma cursor_at_Nil_iff: "cursor_at ops dim t st pos pre post \<Longrightarrow> st = [] \<longleftrightarrow> post = []"
  by (cases st) auto

text \<open>A stack never outgrows its capacity in a tree of height below 16.\<close>

lemma path_length:
  "wf_tree ops t \<Longrightarrow> parents_ok ops dim t ps \<Longrightarrow> node_height t < STACK_CAP \<Longrightarrow> length ps < STACK_CAP"
  using wf_focus [of ops t dim ps] by simp

lemma push_path_ok:
  "wf_tree ops t \<Longrightarrow> parents_ok ops dim t ps \<Longrightarrow> node_height t < STACK_CAP \<Longrightarrow>
   stack_push e ps = ret (e # ps)"
  by (simp add: stack_push_def path_length)

lemma wf_kids_wf: "wf_tree ops (Internal h s css cts) \<Longrightarrow> c \<in> set cts \<Longrightarrow> wf_tree ops c \<and> \<not> is_empty c"
  by simp

text \<open>The position in front of a child, after passing some of its left siblings.\<close>

definition kid_items :: "('t, 's) sum_tree list \<Rightarrow> 't list" where
  "kid_items cts = concat (map tree_items cts)"

lemma kid_items_simps [simp]:
  "kid_items [] = []" "kid_items (c # cts) = tree_items c @ kid_items cts"
  "kid_items (xs @ ys) = kid_items xs @ kid_items ys"
  by (simp_all add: kid_items_def)

lemma tree_items_kids: "tree_items (Internal h s css cts) = kid_items cts"
  by (simp add: kid_items_def)

lemma take_drop_kids:
  "i \<le> j \<Longrightarrow> kid_items (take j cts) = kid_items (take i cts) @ kid_items (take (j - i) (drop i cts))"
  by (metis kid_items_simps(3) le_add_diff_inverse take_add)

lemma split_kids:
  "i \<le> j \<Longrightarrow> kid_items (drop i cts) = kid_items (take (j - i) (drop i cts)) @ kid_items (drop j cts)"
  by (metis append_take_drop_id drop_drop kid_items_simps(3) le_add_diff_inverse2)

section \<open>Reading the item at the cursor\<close>

lemma cursor_item_at:
  assumes "cursor_at ops dim (c_tree c) (c_stack c) (c_position c) pre post" and "c_did_seek c"
  shows "cursor_item c = ret (list_first post)"
proof (cases "c_stack c")
  case (Cons e ps)
  with assms obtain s its iss where n: "focus (c_tree c) ps = Leaf s its iss"
    by (cases "focus (c_tree c) ps") auto
  with assms Cons have i: "se_index e < length its" by auto
  then have "drop (se_index e) its = its ! se_index e # drop (Suc (se_index e)) its"
    by (simp add: Cons_nth_drop_Suc)
  with assms Cons n i show ?thesis
    by (auto simp: cursor_item_def assert_did_seek_def panic_free)
qed (use assms in \<open>simp add: cursor_item_def assert_did_seek_def panic_free\<close>)

lemma cursor_item_summary_at:
  assumes "cursor_at ops dim (c_tree c) (c_stack c) (c_position c) pre post" and "c_did_seek c"
    and "wf_tree ops (c_tree c)"
  shows "cursor_item_summary c = ret (map_option (it_summary ops) (list_first post))"
proof (cases "c_stack c")
  case (Cons e ps)
  with assms obtain s its iss where n: "focus (c_tree c) ps = Leaf s its iss"
    by (cases "focus (c_tree c) ps") auto
  have wf: "wf_tree ops (focus (c_tree c) ps)"
    using assms Cons wf_focus [of ops "c_tree c" dim ps] by simp
  from assms Cons n have i: "se_index e < length its" by auto
  then have "drop (se_index e) its = its ! se_index e # drop (Suc (se_index e)) its"
    by (simp add: Cons_nth_drop_Suc)
  with assms Cons n wf i show ?thesis
    by (auto simp: cursor_item_summary_def assert_did_seek_def panic_free)
qed (use assms in \<open>simp add: cursor_item_summary_def assert_did_seek_def panic_free\<close>)

lemma cursor_end_at:
  assumes "cursor_at ops dim (c_tree c) (c_stack c) (c_position c) pre post" and "c_did_seek c"
    and "wf_tree ops (c_tree c)"
  shows "cursor_end dim c = ret (dim_of ops dim (pre @ take 1 post))"
proof -
  have "c_position c = dim_of ops dim pre" using cursor_at_pos [OF assms(1)] .
  then show ?thesis
    using cursor_item_summary_at [OF assms]
    by (cases post) (simp_all add: cursor_end_def cursor_start_def dim_of_append)
qed

end
