(* ===== verification/Cursor_Forward.thy ===== *)
theory Cursor_Forward
  imports Cursor_Path
begin

text \<open>
  Moving forward: \<open>search_forward\<close> with a filter that is sound (a summary it rejects covers no item
  it accepts) brings the cursor in front of the next item whose summary passes the filter, or to
  the end; \<open>next\<close> moves by one item. No step panics in a tree of height below 16.
\<close>

abbreviation rejects :: "('t, 's) item_ops \<Rightarrow> ('s \<Rightarrow> bool) \<Rightarrow> 't \<Rightarrow> bool" where
  "rejects ops f x \<equiv> \<not> f (it_summary ops x)"

text \<open>
  A filter is sound on a sequence when a stretch of it whose summary the filter rejects holds no item
  it accepts; on a tree, when this is so of the nodes below the root.
\<close>

definition sound_filter :: "('t, 's) item_ops \<Rightarrow> ('s \<Rightarrow> bool) \<Rightarrow> 't list \<Rightarrow> bool" where
  "sound_filter ops f items \<longleftrightarrow>
     (\<forall>us xs vs. items = us @ xs @ vs \<longrightarrow> xs \<noteq> [] \<longrightarrow> \<not> f (items_summary ops xs) \<longrightarrow> (\<forall>x \<in> set xs. rejects ops f x))"

fun sound_tree :: "('t, 's) item_ops \<Rightarrow> ('s \<Rightarrow> bool) \<Rightarrow> ('t, 's) sum_tree \<Rightarrow> bool" where
  "sound_tree ops f (Leaf s its iss) = True"
| "sound_tree ops f (Internal h s css cts) \<longleftrightarrow>
     (\<forall>c \<in> set cts. sound_tree ops f c \<and> (f (node_summary c) \<or> (\<forall>x \<in> set (tree_items c). rejects ops f x)))"

lemma sound_tree_all: "sound_tree ops (\<lambda>_. True) t"
  by (induction t) simp_all

lemma sound_filterD:
  "sound_filter ops f (us @ xs @ vs) \<Longrightarrow> xs \<noteq> [] \<Longrightarrow> \<not> f (items_summary ops xs) \<Longrightarrow> \<forall>x \<in> set xs. rejects ops f x"
  unfolding sound_filter_def by blast

lemma sound_filter_part:
  assumes "sound_filter ops f (us @ xs @ vs)"
  shows "sound_filter ops f xs"
  unfolding sound_filter_def
proof (intro allI impI)
  fix us' ys vs'
  assume xs: "xs = us' @ ys @ vs'" and y: "ys \<noteq> []" "\<not> f (items_summary ops ys)"
  have "sound_filter ops f ((us @ us') @ ys @ (vs' @ vs))" using assms xs by simp
  then show "\<forall>x \<in> set ys. rejects ops f x" using y by (rule sound_filterD)
qed

lemma sound_focus: "sound_tree ops f t \<Longrightarrow> parents_ok ops dim t ps \<Longrightarrow> sound_tree ops f (focus t ps)"
proof (induction ps)
  case (Cons p ps)
  then have IH: "sound_tree ops f (focus t ps)" and p: "se_tree p = focus t ps" "se_index p < length (kids (se_tree p))" by auto
  then show ?case by (cases "focus t ps") simp_all
qed simp


lemma skip_forward_eq:
  "skip_forward dim f i ep p ss =
     (i + length (takeWhile (\<lambda>s. \<not> f s) ss), foldl (d_add dim) ep (takeWhile (\<lambda>s. \<not> f s) ss),
      foldl (d_add dim) p (takeWhile (\<lambda>s. \<not> f s) ss), dropWhile (\<lambda>s. \<not> f s) ss \<noteq> [])"
  by (induction ss arbitrary: i ep p) simp_all

text \<open>
  The states of a cursor between operations: fresh (not positioned, or moved back over the start),
  and in front of the items \<open>post\<close>, having left \<open>pre\<close> behind.
\<close>

definition cursor_fresh :: "('s, 'd) dim_ops \<Rightarrow> ('t, 's, 'd) cursor \<Rightarrow> bool" where
  "cursor_fresh dim c \<longleftrightarrow>
     c_stack c = [] \<and> c_position c = d_zero dim \<and> c_at_end c = is_empty (c_tree c)"

definition cursor_ok ::
  "('t, 's) item_ops \<Rightarrow> ('s, 'd) dim_ops \<Rightarrow> ('t, 's, 'd) cursor \<Rightarrow> 't list \<Rightarrow> 't list \<Rightarrow> bool" where
  "cursor_ok ops dim c pre post \<longleftrightarrow>
     c_did_seek c \<and> c_at_end c = (c_stack c = []) \<and>
     cursor_at ops dim (c_tree c) (c_stack c) (c_position c) pre post"

lemma cursor_ok_item: "cursor_ok ops dim c pre post \<Longrightarrow> cursor_item c = ret (list_first post)"
  using cursor_item_at [of ops dim c pre post] by (simp add: cursor_ok_def)

lemma cursor_ok_end:
  "cursor_ok ops dim c pre post \<Longrightarrow> wf_tree ops (c_tree c) \<Longrightarrow> cursor_end dim c = ret (dim_of ops dim (pre @ take 1 post))"
  using cursor_end_at [of ops dim c pre post] by (simp add: cursor_ok_def)

lemma cursor_ok_items: "cursor_ok ops dim c pre post \<Longrightarrow> pre @ post = tree_items (c_tree c)"
  using cursor_at_items [of ops dim "c_tree c" "c_stack c" "c_position c" pre post] by (simp add: cursor_ok_def)

lemma fresh_new [simp]: "cursor_fresh dim (cursor_new dim t)" "c_tree (cursor_new dim t) = t"
  by (simp_all add: cursor_fresh_def cursor_new_def)

lemma fresh_reset [simp]: "cursor_fresh dim (reset dim c)" "c_tree (reset dim c) = c_tree c"
  by (simp_all add: cursor_fresh_def reset_def)

text \<open>
  Where \<open>search_forward_loop\<close> is: \<open>pre\<close> has been passed, \<open>rest\<close> is still to be searched.
\<close>

fun search_state ::
  "('t, 's) item_ops \<Rightarrow> ('s, 'd) dim_ops \<Rightarrow> ('t, 's) sum_tree \<Rightarrow> ('t, 's, 'd) stack_entry list \<Rightarrow> 'd \<Rightarrow> bool \<Rightarrow>
   't list \<Rightarrow> 't list \<Rightarrow> bool" where
  "search_state ops dim t [] pos descend pre rest \<longleftrightarrow>
     pre = tree_items t \<and> rest = [] \<and> pos = dim_of ops dim pre"
| "search_state ops dim t (e # ps) pos True pre rest \<longleftrightarrow>
     parents_ok ops dim t ps \<and> se_tree e = focus t ps \<and> se_index e = 0 \<and> se_position e = pos \<and>
     pos = dim_of ops dim pre \<and> pre = before ps \<and> rest = tree_items (se_tree e) @ after ps"
| "search_state ops dim t (e # ps) pos False pre rest \<longleftrightarrow>
     (if is_leaf (se_tree e)
      then parents_ok ops dim t ps \<and> se_tree e = focus t ps \<and>
        se_index e < length (leaf_items (se_tree e)) \<and>
        pos = dim_of ops dim (before ps @ take (se_index e) (leaf_items (se_tree e))) \<and>
        pre = before ps @ take (Suc (se_index e)) (leaf_items (se_tree e)) \<and>
        rest = drop (Suc (se_index e)) (leaf_items (se_tree e)) @ after ps
      else parents_ok ops dim t (e # ps) \<and> pos = dim_of ops dim pre \<and>
        pre = before (e # ps) @ tree_items (focus t (e # ps)) \<and> rest = after (e # ps))"

lemma takeWhile_all_append:
  "(\<forall>x \<in> set xs. P x) \<Longrightarrow> takeWhile P (xs @ ys) = xs @ takeWhile P ys \<and> dropWhile P (xs @ ys) = dropWhile P ys"
  by simp

text \<open>Leaving a node to the right: the parent takes over.\<close>

lemma parent_state:
  assumes "wf_tree ops t" "parents_ok ops dim t ps"
  shows "search_state ops dim t ps (dim_of ops dim (before ps @ tree_items (focus t ps))) False
    (before ps @ tree_items (focus t ps)) (after ps)"
proof (cases ps)
  case (Cons p ps')
  with assms have "se_index p < length (kids (se_tree p))" by auto
  then have "\<not> is_leaf (se_tree p)" by (cases "se_tree p") auto
  with Cons assms show ?thesis by auto
qed simp

lemma leaf_next_state:
  assumes "cursor_at ops dim t (e # ps) pos pre (x # post)"
  shows "search_state ops dim t (e # ps) pos False (pre @ [x]) post"
proof -
  let ?its = "leaf_items (se_tree e)"
  have i: "se_index e < length ?its" and post: "x # post = drop (se_index e) ?its @ after ps" using assms by auto
  then have "x = ?its ! se_index e" "post = drop (Suc (se_index e)) ?its @ after ps"
    by (simp_all flip: Cons_nth_drop_Suc)
  with assms i show ?thesis by (auto simp: take_Suc_conv_app_nth)
qed

lemma dropWhile_more: "dropWhile P xs \<noteq> [] \<longleftrightarrow> length (takeWhile P xs) < length xs"
  by (induction xs) auto

context dimension_laws
begin

lemma foldl_kids:
  "(\<forall>c \<in> set cs. wf_tree ops c \<and> \<not> is_empty c) \<Longrightarrow>
   foldl (d_add dim) d (map node_summary cs) = dim_after ops dim d (kid_items cs)"
  by (induction cs arbitrary: d) (simp_all add: d_add_node)

lemma sound_filter_tree: "wf_tree ops t \<Longrightarrow> sound_filter ops f (tree_items t) \<Longrightarrow> sound_tree ops f t"
proof (induction t)
  case (Internal h s css cts)
  have "sound_tree ops f c \<and> (f (node_summary c) \<or> (\<forall>x \<in> set (tree_items c). rejects ops f x))" if "c \<in> set cts" for c
  proof -
    have c: "wf_tree ops c" "\<not> is_empty c" "c \<in> set cts" using that Internal.prems(1) by simp_all
    obtain as bs where "cts = as @ c # bs" using split_list [OF c(3)] by blast
    then have "tree_items (Internal h s css cts) = kid_items as @ tree_items c @ kid_items bs"
      unfolding tree_items_kids by simp
    then have snd: "sound_filter ops f (tree_items c)" using Internal.prems(2) sound_filter_part [of ops f "kid_items as"] by simp
    then have "f (node_summary c) \<or> (\<forall>x \<in> set (tree_items c). rejects ops f x)"
      using sound_filterD [of ops f "[]" "tree_items c" "[]"] wf_nonempty_items [OF c(1,2)] node_summary_items [OF c(1)] by auto
    then show ?thesis using Internal.IH [OF that c(1) snd] by simp
  qed
  then show ?case by simp
qed simp

lemma rejected_kids:
  assumes "sound_tree ops f (Internal h s css cts)" "set cs \<subseteq> set cts" "\<forall>c \<in> set cs. \<not> f (node_summary c)"
  shows "\<forall>x \<in> set (kid_items cs). rejects ops f x"
  using assms by (auto simp: kid_items_def)

text \<open>The loop over the children of a node, from the child at \<open>i\<close> on.\<close>

lemma skip_kids:
  assumes "sound_tree ops f (Internal h s css cts)" "wf_tree ops (Internal h s css cts)" "i \<le> length cts"
  obtains j where "i \<le> j" "j \<le> length cts"
    "\<And>d. skip_forward dim f i d d (drop i css) =
      (j, dim_after ops dim d (kid_items (take (j - i) (drop i cts))),
       dim_after ops dim d (kid_items (take (j - i) (drop i cts))), j < length cts)"
    "\<forall>x \<in> set (kid_items (take (j - i) (drop i cts))). rejects ops f x"
proof -
  let ?cs = "takeWhile (\<lambda>c. \<not> f (node_summary c)) (drop i cts)"
  let ?j = "i + length ?cs"
  have cs: "?cs = take (?j - i) (drop i cts)" by (metis add_diff_cancel_left' takeWhile_eq_take)
  have tw: "takeWhile (\<lambda>s. \<not> f s) (drop i css) = map node_summary ?cs"
    using assms(2) by (simp add: takeWhile_map drop_map comp_def)
  have dw: "dropWhile (\<lambda>s. \<not> f s) (drop i css) = map node_summary (dropWhile (\<lambda>c. \<not> f (node_summary c)) (drop i cts))"
    using assms(2) by (simp add: dropWhile_map drop_map comp_def)
  have len: "length ?cs \<le> length cts - i" using length_takeWhile_le [of _ "drop i cts"] by simp
  have dwl: "dropWhile (\<lambda>c. \<not> f (node_summary c)) (drop i cts) \<noteq> [] \<longleftrightarrow> ?j < length cts"
    unfolding dropWhile_more using assms(3) by auto
  have ok: "\<forall>c \<in> set ?cs. wf_tree ops c \<and> \<not> is_empty c \<and> \<not> f (node_summary c)"
    using assms(2) by (auto dest: set_takeWhileD in_set_dropD)
  show ?thesis
  proof (rule that [of ?j])
    show "skip_forward dim f i d d (drop i css) =
      (?j, dim_after ops dim d (kid_items (take (?j - i) (drop i cts))),
       dim_after ops dim d (kid_items (take (?j - i) (drop i cts))), ?j < length cts)" for d
      unfolding skip_forward_eq tw dw using ok dwl cs by (simp add: foldl_kids)
    show "\<forall>x \<in> set (kid_items (take (?j - i) (drop i cts))). rejects ops f x"
      unfolding cs [symmetric] by (rule rejected_kids [OF assms(1)]) (auto dest: set_takeWhileD in_set_dropD)
  qed (use len assms(3) in simp_all)
qed

text \<open>A node that is entered, or whose last visited child is done: its children from \<open>i\<close> on.\<close>

lemma kids_state:
  assumes "wf_tree ops t" "parents_ok ops dim t ps" "focus t ps = Internal h s css cts" "i \<le> j" "j < length cts"
    and "se_tree e = focus t ps" "d = dim_of ops dim (before ps @ kid_items (take j cts))"
  shows "parents_ok ops dim t (e\<lparr>se_index := j, se_position := d\<rparr> # ps) \<and>
    search_state ops dim t (\<lparr>se_tree = cts ! j, se_index = 0, se_position = d\<rparr> #
      e\<lparr>se_index := j, se_position := d\<rparr> # ps) d True
      (before ps @ kid_items (take j cts)) (kid_items (drop j cts) @ after ps)"
  using assms by (simp add: kid_items_def flip: Cons_nth_drop_Suc)

lemma skip_items:
  "skip_forward dim f i ep d (map (it_summary ops) xs) =
     (i + length (takeWhile (rejects ops f) xs),
      dim_after ops dim ep (takeWhile (rejects ops f) xs), dim_after ops dim d (takeWhile (rejects ops f) xs),
      dropWhile (rejects ops f) xs \<noteq> [])"
  by (simp add: skip_forward_eq takeWhile_map dropWhile_map comp_def dim_after_def)

text \<open>The search inside a leaf, from the item at \<open>i\<close> on, when it finds one.\<close>

lemma leaf_found:
  assumes "parents_ok ops dim t ps" "focus t ps = Leaf s its iss" "se_tree e = focus t ps" "i \<le> length its"
    and "dropWhile P (drop i its) \<noteq> []" "d = dim_of ops dim (before ps @ take i its)"
  shows "cursor_at ops dim t (e\<lparr>se_index := i + length (takeWhile P (drop i its)), se_position := ep\<rparr> # ps)
    (dim_after ops dim d (takeWhile P (drop i its)))
    ((before ps @ take i its) @ takeWhile P (drop i its @ after ps)) (dropWhile P (drop i its @ after ps))"
proof -
  let ?n = "length (takeWhile P (drop i its))"
  have n: "i + ?n < length its" using assms(4,5) unfolding dropWhile_more by simp
  have tw: "takeWhile P (drop i its @ after ps) = take ?n (drop i its)"
    using assms(5) by (metis dropWhile_eq_Nil_conv takeWhile_append1 takeWhile_eq_take)
  have dw: "dropWhile P (drop i its @ after ps) = drop (i + ?n) its @ after ps"
    using assms(5) by (metis add.commute drop_drop dropWhile_append1 dropWhile_eq_Nil_conv dropWhile_eq_drop)
  have "take (i + ?n) its = take i its @ takeWhile P (drop i its)"
    by (metis take_add takeWhile_eq_take)
  then show ?thesis using assms n tw dw
    by (simp add: dim_of_append flip: takeWhile_eq_take)
qed

text \<open>
  One round of the loop: it either stops in front of an accepted item, or goes on in a smaller
  state with the same items ahead.
\<close>

definition forward_progress ::
  "('s \<Rightarrow> bool) \<Rightarrow> ('t, 's) sum_tree \<Rightarrow> ('t, 's, 'd) stack_entry list \<Rightarrow> 'd \<Rightarrow> bool \<Rightarrow> 't list \<Rightarrow> 't list \<Rightarrow> bool" where
  "forward_progress f t st pos descend pre rest \<longleftrightarrow>
     (\<exists>st' pos'. search_forward_loop dim f st pos descend = ret (st', pos') \<and>
        cursor_at ops dim t st' pos' (pre @ takeWhile (rejects ops f) rest) (dropWhile (rejects ops f) rest)) \<or>
     (\<exists>st' pos' descend' pre' rest'.
        search_forward_loop dim f st pos descend = search_forward_loop dim f st' pos' descend' \<and>
        search_state ops dim t st' pos' descend' pre' rest' \<and>
        forward_work st' descend' < forward_work st descend \<and>
        pre @ takeWhile (rejects ops f) rest = pre' @ takeWhile (rejects ops f) rest' \<and>
        dropWhile (rejects ops f) rest = dropWhile (rejects ops f) rest')"

lemma forward_goes_on:
  assumes "search_forward_loop dim f st pos descend = search_forward_loop dim f st' pos' descend'"
    and "search_state ops dim t st' pos' descend' pre' rest'" "forward_work st' descend' < forward_work st descend"
    and "pre @ takeWhile (rejects ops f) rest = pre' @ takeWhile (rejects ops f) rest'"
    and "dropWhile (rejects ops f) rest = dropWhile (rejects ops f) rest'"
  shows "forward_progress f t st pos descend pre rest"
  unfolding forward_progress_def using assms by blast

lemma forward_up:
  assumes "wf_tree ops t" "parents_ok ops dim t ps"
    and "search_forward_loop dim f (e # ps) pos descend =
      search_forward_loop dim f ps (dim_of ops dim (before ps @ tree_items (focus t ps))) False"
    and "pre @ takeWhile (rejects ops f) rest = (before ps @ tree_items (focus t ps)) @ takeWhile (rejects ops f) (after ps)"
    and "dropWhile (rejects ops f) rest = dropWhile (rejects ops f) (after ps)"
  shows "forward_progress f t (e # ps) pos descend pre rest"
  by (rule forward_goes_on [OF assms(3) parent_state [OF assms(1,2)] _ assms(4,5)]) (simp add: less_Suc_eq_le)

lemma forward_leaf:
  assumes "wf_tree ops t" "search_state ops dim t (e # ps) pos descend pre rest" "se_tree e = Leaf s its iss"
  shows "forward_progress f t (e # ps) pos descend pre rest"
proof -
  define i where "i = (if descend then se_index e else Suc (se_index e))"
  have ps: "parents_ok ops dim t ps" and foc: "focus t ps = Leaf s its iss" "se_tree e = focus t ps"
    using assms by (cases descend; auto)+
  have wf: "iss = map (it_summary ops) its" using wf_focus [OF assms(1) ps] foc by simp
  have i: "i \<le> length its" "pre = before ps @ take i its" "rest = drop i its @ after ps"
    using assms foc by (cases descend; auto simp: i_def)+
  define d where "d = dim_of ops dim (before ps @ take i its)"
  obtain ep where start: "(if descend then ret (se_index e, se_position e, pos)
      else do { s \<leftarrow> index_or_panic iss (se_index e);
                ret (se_index e + 1, d_add dim (se_position e) s, d_add dim pos s) }) = ret (i, ep, d)"
    using assms foc wf
    by (cases descend) (auto simp: d_def i_def panic_free take_Suc_conv_app_nth dim_of_append)
  have step: "search_forward_loop dim f (e # ps) pos descend =
      (if dropWhile (rejects ops f) (drop i its) \<noteq> []
       then ret (e\<lparr>se_index := i + length (takeWhile (rejects ops f) (drop i its)),
                   se_position := dim_after ops dim ep (takeWhile (rejects ops f) (drop i its))\<rparr> # ps,
                 dim_after ops dim d (takeWhile (rejects ops f) (drop i its)))
       else search_forward_loop dim f ps (dim_after ops dim d (takeWhile (rejects ops f) (drop i its))) False)"
    unfolding search_forward_loop.simps(2) assms(3) sum_tree.case start by (simp add: wf drop_map skip_items)
  show ?thesis
  proof (cases "dropWhile (rejects ops f) (drop i its) = []")
    case True
    then have all: "\<forall>x \<in> set (drop i its). rejects ops f x" by simp
    then have tw: "takeWhile (rejects ops f) (drop i its) = drop i its" by simp
    have "dim_after ops dim d (drop i its) = dim_of ops dim (before ps @ tree_items (focus t ps))"
      unfolding d_def foc by (simp flip: dim_of_append)
    with True step tw i foc all show ?thesis by (intro forward_up [OF assms(1) ps]) simp_all
  next
    case False
    show ?thesis unfolding forward_progress_def step i(2,3) if_P [OF False]
      using leaf_found [OF ps foc i(1) False d_def] by blast
  qed
qed

lemma forward_internal:
  assumes "sound_tree ops f t" "wf_tree ops t" "node_height t < STACK_CAP"
    and "search_state ops dim t (e # ps) pos descend pre rest" "se_tree e = Internal h s css cts"
  shows "forward_progress f t (e # ps) pos descend pre rest"
proof -
  define i where "i = (if descend then se_index e else Suc (se_index e))"
  have ps: "parents_ok ops dim t ps" and foc: "focus t ps = Internal h s css cts" "se_tree e = focus t ps"
    using assms by (cases descend; auto)+
  have wf: "wf_tree ops (Internal h s css cts)" using wf_focus [OF assms(2) ps] foc by simp
  have sound: "sound_tree ops f (Internal h s css cts)" using sound_focus [OF assms(1) ps] foc by simp
  have i: "i \<le> length cts" "pre = before ps @ kid_items (take i cts)" "rest = kid_items (drop i cts) @ after ps"
    and pos: "pos = dim_of ops dim pre" "(if descend then se_position e else pos) = pos"
    using assms(4,5) foc by (cases descend; auto simp: i_def kid_items_def take_Suc_conv_app_nth)+
  obtain j where j: "i \<le> j" "j \<le> length cts"
    and skip: "\<And>d. skip_forward dim f i d d (drop i css) =
      (j, dim_after ops dim d (kid_items (take (j - i) (drop i cts))),
       dim_after ops dim d (kid_items (take (j - i) (drop i cts))), j < length cts)"
    and rej: "\<forall>x \<in> set (kid_items (take (j - i) (drop i cts))). rejects ops f x"
    using skip_kids [OF sound wf i(1)] by metis
  define d where "d = dim_after ops dim pos (kid_items (take (j - i) (drop i cts)))"
  have d: "d = dim_of ops dim (before ps @ kid_items (take j cts))"
    using j pos i by (simp add: d_def take_drop_kids [of i j] flip: dim_of_append)
  have goal: "pre @ takeWhile (rejects ops f) rest =
        (before ps @ kid_items (take j cts)) @ takeWhile (rejects ops f) (kid_items (drop j cts) @ after ps)"
      "dropWhile (rejects ops f) rest = dropWhile (rejects ops f) (kid_items (drop j cts) @ after ps)"
    using rej j by (simp_all add: i split_kids [of i j] take_drop_kids [of i j])
  let ?e = "e\<lparr>se_index := j, se_position := d\<rparr>"
  have i': "(if descend then se_index e else se_index e + 1) = i" by (simp add: i_def)
  have step: "search_forward_loop dim f (e # ps) pos descend =
      (case list_get cts j of
         Some subtree \<Rightarrow> do {
           st' \<leftarrow> stack_push \<lparr>se_tree = subtree, se_index = 0, se_position = d\<rparr> (?e # ps);
           search_forward_loop dim f st' d True }
       | None \<Rightarrow> search_forward_loop dim f ps d False)"
    unfolding search_forward_loop.simps(2) assms(5) sum_tree.case Let_def pos(2) i'
    by (simp add: skip flip: d_def)
  show ?thesis
  proof (cases "j < length cts")
    case True
    note k = kids_state [OF assms(2) ps foc(1) j(1) True foc(2) d]
    have work: "forward_work (\<lparr>se_tree = cts ! j, se_index = 0, se_position = d\<rparr> # ?e # ps) True < forward_work (e # ps) descend"
      using forward_push_work [of i j e ?e d ps] True j assms(5) by (simp add: i_def split: if_splits)
    show ?thesis
      by (rule forward_goes_on [OF _ k [THEN conjunct2] work goal])
        (simp add: step True list_get_def push_path_ok [OF assms(2) k [THEN conjunct1] assms(3)])
  next
    case False
    with j d foc step goal show ?thesis
      by (intro forward_up [OF assms(2) ps]) (simp_all add: list_get_def kid_items_def)
  qed
qed

lemma search_forward_loop_ok:
  assumes "sound_tree ops f t" "wf_tree ops t" "node_height t < STACK_CAP"
  shows "search_state ops dim t st pos descend pre rest \<Longrightarrow>
    \<exists>st' pos'. search_forward_loop dim f st pos descend = ret (st', pos') \<and>
      cursor_at ops dim t st' pos' (pre @ takeWhile (rejects ops f) rest) (dropWhile (rejects ops f) rest)"
proof (induction "forward_work st descend" arbitrary: st pos descend pre rest rule: less_induct)
  case less
  show ?case
  proof (cases st)
    case st: (Cons e ps)
    have "forward_progress f t st pos descend pre rest"
      using forward_leaf [OF assms(2)] forward_internal [OF assms] less.prems unfolding st by (cases "se_tree e") auto
    then show ?thesis unfolding forward_progress_def using less.hyps by metis
  qed (use less.prems in simp)
qed

section \<open>The operations\<close>

lemma search_forward_fresh:
  assumes "sound_tree ops f (c_tree c)" "wf_tree ops (c_tree c)" "node_height (c_tree c) < STACK_CAP"
    and "cursor_fresh dim c"
  shows "\<exists>c'. search_forward dim f c = ret c' \<and> c_tree c' = c_tree c \<and>
    cursor_ok ops dim c' (takeWhile (rejects ops f) (tree_items (c_tree c)))
      (dropWhile (rejects ops f) (tree_items (c_tree c)))"
proof (cases "is_empty (c_tree c)")
  case True
  then have "tree_items (c_tree c) = []" using assms(2) by (simp add: is_empty_items)
  with True assms(4) show ?thesis by (simp add: search_forward_def cursor_fresh_def cursor_ok_def)
next
  case False
  let ?e = "\<lparr>se_tree = c_tree c, se_index = 0, se_position = d_zero dim\<rparr>"
  have push: "stack_push ?e [] = ret [?e]" by (simp add: stack_push_def STACK_CAP_def)
  have "search_state ops dim (c_tree c) [?e] (d_zero dim) True [] (tree_items (c_tree c))" by simp
  from search_forward_loop_ok [OF assms(1-3) this] False push assms(4) show ?thesis
    by (auto simp: search_forward_def cursor_fresh_def cursor_ok_def)
qed

lemma search_forward_at:
  assumes "sound_tree ops f (c_tree c)" "wf_tree ops (c_tree c)" "node_height (c_tree c) < STACK_CAP"
    and "cursor_ok ops dim c pre (x # post)"
  shows "\<exists>c'. search_forward dim f c = ret c' \<and> c_tree c' = c_tree c \<and>
    cursor_ok ops dim c' (pre @ [x] @ takeWhile (rejects ops f) post) (dropWhile (rejects ops f) post)"
proof -
  have at: "cursor_at ops dim (c_tree c) (c_stack c) (c_position c) pre (x # post)"
    and c: "c_did_seek c" "c_at_end c = (c_stack c = [])" using assms(4) by (auto simp: cursor_ok_def)
  then obtain e ps where st: "c_stack c = e # ps" by (cases "c_stack c") auto
  have "search_state ops dim (c_tree c) (c_stack c) (c_position c) False (pre @ [x]) post"
    using at unfolding st by (rule leaf_next_state)
  from search_forward_loop_ok [OF assms(1-3) this] st c show ?thesis
    by (auto simp: search_forward_def cursor_ok_def)
qed

lemma search_forward_end:
  assumes "cursor_ok ops dim c pre []"
  shows "search_forward dim f c = ret c"
proof -
  have "c_stack c = []" "c_at_end c" "c_did_seek c"
    using assms cursor_at_Nil_iff [of ops dim "c_tree c" "c_stack c" "c_position c" pre "[]"]
    by (auto simp: cursor_ok_def)
  then show ?thesis by (simp add: search_forward_def)
qed

lemma cursor_next_fresh:
  assumes "wf_tree ops (c_tree c)" "node_height (c_tree c) < STACK_CAP" "cursor_fresh dim c"
  shows "\<exists>c'. cursor_next dim c = ret c' \<and> c_tree c' = c_tree c \<and> cursor_ok ops dim c' [] (tree_items (c_tree c))"
  using search_forward_fresh [of "\<lambda>_. True" c] assms by (cases "tree_items (c_tree c)") (auto simp: cursor_next_def sound_tree_all)

lemma cursor_next_at:
  assumes "wf_tree ops (c_tree c)" "node_height (c_tree c) < STACK_CAP" "cursor_ok ops dim c pre (x # post)"
  shows "\<exists>c'. cursor_next dim c = ret c' \<and> c_tree c' = c_tree c \<and> cursor_ok ops dim c' (pre @ [x]) post"
  using search_forward_at [of "\<lambda>_. True" c pre x post] assms by (cases post) (auto simp: cursor_next_def sound_tree_all)

lemma cursor_iter_next_at:
  assumes "wf_tree ops (c_tree c)" "node_height (c_tree c) < STACK_CAP" "cursor_ok ops dim c pre post"
  shows "\<exists>c'. cursor_iter_next dim c = ret (list_first post, c') \<and> c_tree c' = c_tree c \<and>
    cursor_ok ops dim c' (pre @ take 1 post) (drop 1 post)"
proof -
  have item: "cursor_item c = ret (list_first post)"
    using assms(3) by (rule cursor_ok_item)
  have seek: "c_did_seek c" using assms(3) by (simp add: cursor_ok_def)
  show ?thesis
  proof (cases post)
    case (Cons x post')
    with cursor_next_at [OF assms(1,2)] assms(3) item seek show ?thesis
      by (force simp: cursor_iter_next_def)
  qed (use item assms seek in \<open>simp add: cursor_iter_next_def\<close>)
qed

end

end
