(* ===== verification/Cursor_Seek.thy ===== *)
theory Cursor_Seek
  imports Cursor_Forward
begin

text \<open>
  Seeking: \<open>seek_internal\<close> passes the items whose end positions the target is beyond, whole
  subtrees at a time, and hands what it passes to an aggregate. The laws of an aggregate are the
  locale \<open>seek_aggregate\<close>; the three aggregates of the code (\<open>()\<close>, \<open>SliceSeekAggregate\<close> and
  \<open>SummarySeekAggregate\<close>) satisfy it, which gives \<open>seek\<close>, \<open>seek_forward\<close>, \<open>slice\<close>, \<open>suffix\<close> and
  \<open>summary\<close>.
\<close>

section \<open>The items a seek passes\<close>

fun seek_passed ::
  "('t, 's) item_ops \<Rightarrow> ('s, 'd) dim_ops \<Rightarrow> ('d \<Rightarrow> ordering) \<Rightarrow> bias \<Rightarrow> 'd \<Rightarrow> 't list \<Rightarrow> 't list" where
  "seek_passed ops dim target bias d [] = []"
| "seek_passed ops dim target bias d (x # xs) = (
     let e = d_add dim d (it_summary ops x) in
     if past_end bias (target e) then x # seek_passed ops dim target bias e xs else [])"

definition seek_rest ::
  "('t, 's) item_ops \<Rightarrow> ('s, 'd) dim_ops \<Rightarrow> ('d \<Rightarrow> ordering) \<Rightarrow> bias \<Rightarrow> 'd \<Rightarrow> 't list \<Rightarrow> 't list" where
  "seek_rest ops dim target bias d xs = drop (length (seek_passed ops dim target bias d xs)) xs"

lemma seek_passed_rest: "seek_passed ops dim target b d xs @ seek_rest ops dim target b d xs = xs"
  unfolding seek_rest_def by (induction xs arbitrary: d) simp_all

lemma seek_passed_take:
  "seek_passed ops dim target b d xs = take (length (seek_passed ops dim target b d xs)) xs"
  by (metis append_eq_conv_conj seek_passed_rest)

lemma length_seek_passed: "length (seek_passed ops dim target b d xs) \<le> length xs"
  by (metis seek_passed_rest le_add1 length_append)

lemma seek_passed_all:
  "(\<forall>e \<in> set (positions ops dim d xs). past_end b (target e)) \<Longrightarrow>
   seek_passed ops dim target b d (xs @ ys) = xs @ seek_passed ops dim target b (dim_after ops dim d xs) ys"
  by (induction xs arbitrary: d) simp_all

lemma seek_passed_stop:
  "length (seek_passed ops dim target b d xs) < length xs \<Longrightarrow>
   seek_passed ops dim target b d (xs @ ys) = seek_passed ops dim target b d xs"
  by (induction xs arbitrary: d) (auto split: if_splits)

lemma seek_passed_full:
  "seek_passed ops dim target b d xs = xs \<Longrightarrow>
   seek_passed ops dim target b d (xs @ ys) = xs @ seek_passed ops dim target b (dim_after ops dim d xs) ys"
  by (induction xs arbitrary: d) (auto split: if_splits)

lemma seek_passed_spec:
  "(\<forall>e \<in> set (positions ops dim d (seek_passed ops dim target b d xs)). past_end b (target e)) \<and>
   (seek_rest ops dim target b d xs = [] \<or>
    \<not> past_end b (target (dim_after ops dim d (seek_passed ops dim target b d xs @ [hd (seek_rest ops dim target b d xs)]))))"
  unfolding seek_rest_def by (induction xs arbitrary: d) (auto simp: Let_def)

text \<open>A search without a cursor stops at the same item.\<close>

lemma scan_passed: "scan ops dim target b d xs =
    (let pre = seek_passed ops dim target b d xs; p = dim_after ops dim d pre in
      (p, case list_first (seek_rest ops dim target b d xs) of None \<Rightarrow> None | Some x \<Rightarrow> Some (x, d_add dim p (it_summary ops x))))"
proof (induction xs arbitrary: d)
  case (Cons x xs)
  have "in_child b cmp \<longleftrightarrow> \<not> past_end b cmp" for cmp
    by (cases b; cases cmp) (simp_all add: in_child_def past_end_def)
  then show ?case using Cons.IH [of "d_add dim d (it_summary ops x)"]
    by (simp add: scan_def seek_rest_def Let_def list_first_def split: list.splits)
qed (simp add: scan_def seek_rest_def list_first_def)

text \<open>Where the seek loop is: \<open>pre\<close> has been passed, \<open>rest\<close> lies ahead.\<close>

fun seek_state ::
  "('t, 's) item_ops \<Rightarrow> ('s, 'd) dim_ops \<Rightarrow> ('t, 's) sum_tree \<Rightarrow> ('t, 's, 'd) stack_entry list \<Rightarrow> 'd \<Rightarrow> bool \<Rightarrow>
   't list \<Rightarrow> 't list \<Rightarrow> bool" where
  "seek_state ops dim t [] pos ascending pre rest \<longleftrightarrow>
     pre = tree_items t \<and> rest = [] \<and> pos = dim_of ops dim pre"
| "seek_state ops dim t (e # ps) pos True pre rest \<longleftrightarrow>
     parents_ok ops dim t (e # ps) \<and> pos = dim_of ops dim pre \<and>
     pre = before (e # ps) @ tree_items (focus t (e # ps)) \<and> rest = after (e # ps)"
| "seek_state ops dim t (e # ps) pos False pre rest \<longleftrightarrow>
     parents_ok ops dim t ps \<and> se_tree e = focus t ps \<and> pos = dim_of ops dim pre \<and>
     (if is_leaf (se_tree e)
      then se_index e \<le> length (leaf_items (se_tree e)) \<and>
        pre = before ps @ take (se_index e) (leaf_items (se_tree e)) \<and>
        rest = drop (se_index e) (leaf_items (se_tree e)) @ after ps
      else se_index e = 0 \<and> se_position e = pos \<and> pre = before ps \<and> rest = tree_items (se_tree e) @ after ps)"

lemma seek_parent_state:
  assumes "wf_tree ops t" "parents_ok ops dim t ps"
  shows "seek_state ops dim t ps (dim_of ops dim (before ps @ tree_items (focus t ps))) True
    (before ps @ tree_items (focus t ps)) (after ps)"
  using assms by (cases ps) auto

lemma seek_kids_state:
  assumes "wf_tree ops t" "parents_ok ops dim t ps" "focus t ps = Internal h s css cts" "j < length cts"
    and "se_tree e = focus t ps" "d = dim_of ops dim (before ps @ kid_items (take j cts))"
  shows "parents_ok ops dim t (e\<lparr>se_index := j, se_position := d\<rparr> # ps) \<and>
    seek_state ops dim t (\<lparr>se_tree = cts ! j, se_index = 0, se_position = d\<rparr> #
      e\<lparr>se_index := j, se_position := d\<rparr> # ps) d False
      (before ps @ kid_items (take j cts)) (kid_items (drop j cts) @ after ps)"
proof -
  have "tree_items (cts ! j) = leaf_items (cts ! j)" if "is_leaf (cts ! j)"
    using that by (cases "cts ! j") simp_all
  then show ?thesis using assms by (simp add: kid_items_def flip: Cons_nth_drop_Suc)
qed

text \<open>A cursor \<open>seek_internal\<close> may start from, and what it reports at the end.\<close>

definition cursor_ready ::
  "('t, 's) item_ops \<Rightarrow> ('s, 'd) dim_ops \<Rightarrow> ('t, 's, 'd) cursor \<Rightarrow> 't list \<Rightarrow> 't list \<Rightarrow> bool" where
  "cursor_ready ops dim c pre rest \<longleftrightarrow>
     (\<not> c_did_seek c \<and> cursor_fresh dim c \<and> pre = [] \<and> rest = tree_items (c_tree c)) \<or> cursor_ok ops dim c pre rest"

definition seek_found ::
  "('t, 's) item_ops \<Rightarrow> ('s, 'd) dim_ops \<Rightarrow> ('d \<Rightarrow> ordering) \<Rightarrow> bias \<Rightarrow> 't list \<Rightarrow> 't list \<Rightarrow> bool" where
  "seek_found ops dim target b pre post \<longleftrightarrow>
     target (dim_of ops dim (if b = Left then pre @ take 1 post else pre)) = Equal"

lemma seek_found_eq:
  "seek_found ops dim target b pre post \<longleftrightarrow>
     target (if b = Left then (case map_option (it_summary ops) (list_first post) of
         Some s \<Rightarrow> d_add dim (dim_of ops dim pre) s | None \<Rightarrow> dim_of ops dim pre) else dim_of ops dim pre) = Equal"
  by (cases post) (simp_all add: seek_found_def dim_of_append)

lemma ready_new [simp]: "cursor_ready ops dim (cursor_new dim t) [] (tree_items t)"
  by (simp add: cursor_ready_def) (simp add: cursor_new_def)

lemma ready_reset [simp]: "cursor_ready ops dim (reset dim c) [] (tree_items (c_tree c))"
  by (simp add: cursor_ready_def) (simp add: reset_def)

lemma ready_pos: "cursor_ready ops dim c pre rest \<Longrightarrow> c_position c = dim_of ops dim pre"
  by (auto simp: cursor_ready_def cursor_ok_def cursor_fresh_def dest: cursor_at_pos)

lemma ok_start: "cursor_ok ops dim c pre post \<Longrightarrow> cursor_start c = dim_of ops dim pre"
  using ready_pos [of ops dim c pre post] by (simp add: cursor_ready_def cursor_start_def)

lemma ready_items: "cursor_ready ops dim c pre rest \<Longrightarrow> pre @ rest = tree_items (c_tree c)"
  by (auto simp: cursor_ready_def cursor_ok_def dest: cursor_at_items)

lemma ready_seek_state:
  assumes "wf_tree ops (c_tree c)" "cursor_ready ops dim c pre rest"
  shows "\<exists>st. (if c_did_seek c then ret (c_stack c)
      else stack_push \<lparr>se_tree = c_tree c, se_index = 0, se_position = d_zero dim\<rparr> (c_stack c)) = ret st \<and>
    seek_state ops dim (c_tree c) st (c_position c) False pre rest"
proof (cases "c_did_seek c")
  case True
  with assms have "cursor_at ops dim (c_tree c) (c_stack c) (c_position c) pre rest"
    by (simp add: cursor_ready_def cursor_ok_def)
  with True show ?thesis by (cases "c_stack c") auto
next
  case False
  with assms have c: "cursor_fresh dim c" "pre = []" "rest = tree_items (c_tree c)"
    by (auto simp: cursor_ready_def cursor_ok_def)
  have "tree_items (c_tree c) = leaf_items (c_tree c)" if "is_leaf (c_tree c)"
    using that by (cases "c_tree c") simp_all
  with c False show ?thesis by (simp add: cursor_fresh_def stack_push_def STACK_CAP_def)
qed

section \<open>Aggregates\<close>

text \<open>
  What \<open>seek_internal\<close> expects of an aggregate: between leaves it stands for the items collected so
  far (\<open>collected a xs\<close>), inside a leaf also for the items of that leaf (\<open>in_leaf a xs ys\<close>).
\<close>

locale seek_aggregate = dimension_laws ops dim
  for ops :: "('t, 's) item_ops" and dim :: "('s, 'd) dim_ops" +
  fixes agg :: "('a, 't, 's) agg_ops"
    and collected :: "'a \<Rightarrow> 't list \<Rightarrow> bool"
    and in_leaf :: "'a \<Rightarrow> 't list \<Rightarrow> 't list \<Rightarrow> bool"
  assumes begin_leaf: "collected a xs \<Longrightarrow> \<exists>a'. ag_begin_leaf agg a = ret a' \<and> in_leaf a' xs []"
    and push_item: "in_leaf a xs ys \<Longrightarrow> length ys < CAP \<Longrightarrow>
      \<exists>a'. ag_push_item agg a x (it_summary ops x) = ret a' \<and> in_leaf a' xs (ys @ [x])"
    and end_leaf: "in_leaf a xs ys \<Longrightarrow> \<exists>a'. ag_end_leaf agg a = ret a' \<and> collected a' (xs @ ys)"
    and push_tree: "collected a xs \<Longrightarrow> wf_tree ops c \<Longrightarrow> \<not> is_empty c \<Longrightarrow>
      \<exists>a'. ag_push_tree agg a c (node_summary c) = ret a' \<and> collected a' (xs @ tree_items c)"
begin

lemma seek_items_ok:
  "in_leaf a xs ys \<Longrightarrow> length ys + length its \<le> CAP \<Longrightarrow>
   \<exists>a'. seek_items agg dim target b i d a its (map (it_summary ops) its) =
     ret (i + length (seek_passed ops dim target b d its), dim_after ops dim d (seek_passed ops dim target b d its),
          a', length (seek_passed ops dim target b d its) < length its) \<and>
     in_leaf a' xs (ys @ seek_passed ops dim target b d its)"
proof (induction its arbitrary: i d a ys)
  case (Cons x its)
  obtain a1 where a1: "ag_push_item agg a x (it_summary ops x) = ret a1" "in_leaf a1 xs (ys @ [x])"
    using push_item [OF Cons.prems(1)] Cons.prems(2) by fastforce
  show ?case
    using Cons.IH [OF a1(2), of "i + 1" "d_add dim d (it_summary ops x)"] Cons.prems a1 by auto
qed simp

lemma seek_children_ok:
  assumes "\<forall>c \<in> set cts. wf_tree ops c \<and> \<not> is_empty c" "collected a xs"
    and "monotone_from ops dim target d (kid_items cts @ zs)"
  shows "\<exists>a' n. n \<le> length cts \<and>
    seek_children agg dim target b i d d a cts (map node_summary cts) =
      ret (i + n, dim_after ops dim d (kid_items (take n cts)), dim_after ops dim d (kid_items (take n cts)), a',
           list_get cts n) \<and>
    collected a' (xs @ kid_items (take n cts)) \<and>
    (\<forall>e \<in> set (positions ops dim d (kid_items (take n cts))). past_end b (target e))"
  using assms
proof (induction cts arbitrary: i d a xs)
  case Nil
  then show ?case by (auto simp: list_get_def)
next
  case (Cons c cts)
  have c: "wf_tree ops c" "\<not> is_empty c" using Cons.prems by auto
  have d: "d_add dim d (node_summary c) = dim_after ops dim d (tree_items c)" using c by (rule d_add_node)
  show ?case
  proof (cases "past_end b (target (dim_after ops dim d (tree_items c)))")
    case False
    then have "seek_children agg dim target b i d d a (c # cts) (map node_summary (c # cts)) = ret (i, d, d, a, Some c)"
      using d by simp
    then show ?thesis using Cons.prems by (intro exI [of _ a] exI [of _ 0]) (simp add: list_get_def)
  next
    case True
    obtain a1 where a1: "ag_push_tree agg a c (node_summary c) = ret a1" "collected a1 (xs @ tree_items c)"
      using push_tree [OF Cons.prems(2) c] by auto
    have m: "monotone_from ops dim target d (tree_items c)"
        "monotone_from ops dim target (dim_after ops dim d (tree_items c)) (kid_items cts @ zs)"
      using Cons.prems(3) by (auto dest: monotone_from_append)
    have all: "\<forall>e \<in> set (positions ops dim d (tree_items c)). past_end b (target e)"
      using monotone_from_skip [OF m(1) wf_nonempty_items [OF c], of b] True by (simp add: in_child_past_end)
    obtain a' n where "n \<le> length cts"
      and "seek_children agg dim target b (i + 1) (dim_after ops dim d (tree_items c))
          (dim_after ops dim d (tree_items c)) a1 cts (map node_summary cts) =
        ret (i + 1 + n, dim_after ops dim (dim_after ops dim d (tree_items c)) (kid_items (take n cts)),
          dim_after ops dim (dim_after ops dim d (tree_items c)) (kid_items (take n cts)), a', list_get cts n)"
      and "collected a' ((xs @ tree_items c) @ kid_items (take n cts))"
      and "\<forall>e \<in> set (positions ops dim (dim_after ops dim d (tree_items c)) (kid_items (take n cts))). past_end b (target e)"
      using Cons.IH [OF _ a1(2) m(2), of "i + 1"] Cons.prems(1) by auto
    then show ?thesis using True d a1 all
      by (intro exI [of _ a'] exI [of _ "Suc n"]) (auto simp: list_get_def positions_append)
  qed
qed

text \<open>One round of the seek loop passes \<open>ys\<close> and stops there, or goes on in a smaller state.\<close>

definition seek_progress ::
  "('d \<Rightarrow> ordering) \<Rightarrow> bias \<Rightarrow> ('t, 's) sum_tree \<Rightarrow> ('t, 's, 'd) stack_entry list \<Rightarrow> 'd \<Rightarrow> 'a \<Rightarrow> bool \<Rightarrow>
   't list \<Rightarrow> 't list \<Rightarrow> 't list \<Rightarrow> bool" where
  "seek_progress target b t st pos a ascending pre rest xs \<longleftrightarrow>
     (\<exists>st' pos' a'. seek_loop agg dim target b st pos a ascending = ret (st', pos', a') \<and>
        cursor_at ops dim t st' pos' (pre @ seek_passed ops dim target b pos rest) (seek_rest ops dim target b pos rest) \<and>
        collected a' (xs @ seek_passed ops dim target b pos rest)) \<or>
     (\<exists>st' pos' a' ascending' ys rest'.
        seek_loop agg dim target b st pos a ascending = seek_loop agg dim target b st' pos' a' ascending' \<and>
        seek_state ops dim t st' pos' ascending' (pre @ ys) rest' \<and> collected a' (xs @ ys) \<and>
        forward_work st' (\<not> ascending') < forward_work st (\<not> ascending) \<and> rest = ys @ rest' \<and>
        pos' = dim_after ops dim pos ys \<and>
        seek_passed ops dim target b pos rest = ys @ seek_passed ops dim target b pos' rest')"

lemma seek_goes_on:
  assumes "seek_loop agg dim target b st pos a ascending = seek_loop agg dim target b st' pos' a' ascending'"
    and "seek_state ops dim t st' pos' ascending' (pre @ ys) rest'" "collected a' (xs @ ys)"
    and "forward_work st' (\<not> ascending') < forward_work st (\<not> ascending)" "rest = ys @ rest'"
    and "pos' = dim_after ops dim pos ys"
    and "seek_passed ops dim target b pos rest = ys @ seek_passed ops dim target b pos' rest'"
  shows "seek_progress target b t st pos a ascending pre rest xs"
  unfolding seek_progress_def using assms by blast

lemma seek_leaf:
  assumes "wf_tree ops t" "seek_state ops dim t (e # ps) pos ascending pre rest" "se_tree e = Leaf s its iss"
    and "collected a xs"
  shows "seek_progress target b t (e # ps) pos a ascending pre rest xs"
proof -
  have asc: "\<not> ascending" using assms by (cases ascending) auto
  have ps: "parents_ok ops dim t ps" and foc: "focus t ps = Leaf s its iss" "se_tree e = focus t ps"
    using assms asc by auto
  have wf: "iss = map (it_summary ops) its" "length its \<le> CAP" using wf_focus [OF assms(1) ps] foc by simp_all
  let ?i = "se_index e"
  have i: "?i \<le> length its" "pre = before ps @ take ?i its" "rest = drop ?i its @ after ps" "pos = dim_of ops dim pre"
    using assms asc by auto
  let ?ys = "seek_passed ops dim target b pos (drop ?i its)"
  obtain a1 where a1: "ag_begin_leaf agg a = ret a1" "in_leaf a1 xs []" using begin_leaf [OF assms(4)] by auto
  obtain a2 where a2: "seek_items agg dim target b ?i pos a1 (drop ?i its) (map (it_summary ops) (drop ?i its)) =
      ret (?i + length ?ys, dim_after ops dim pos ?ys, a2, length ?ys < length (drop ?i its))" "in_leaf a2 xs ?ys"
    using seek_items_ok [OF a1(2), of "drop ?i its" target b ?i pos] wf(2) by fastforce
  obtain a3 where a3: "ag_end_leaf agg a2 = ret a3" "collected a3 (xs @ ?ys)" using end_leaf [OF a2(2)] by auto
  have step: "seek_loop agg dim target b (e # ps) pos a ascending =
      (if length ?ys < length (drop ?i its)
       then ret (e\<lparr>se_index := ?i + length ?ys\<rparr> # ps, dim_after ops dim pos ?ys, a3)
       else seek_loop agg dim target b ps (dim_after ops dim pos ?ys) a3 True)"
    unfolding seek_loop.simps(2) assms(3) sum_tree.case using i(1) a1(1) a2(1) a3(1)
    by (simp add: wf panic_free drop_map)
  show ?thesis
  proof (cases "length ?ys < length (drop ?i its)")
    case True
    have tk: "take (?i + length ?ys) its = take ?i its @ ?ys" by (metis take_add seek_passed_take)
    have sr: "seek_rest ops dim target b pos rest = drop (?i + length ?ys) its @ after ps"
      using True by (simp add: seek_rest_def i seek_passed_stop add.commute)
    have "cursor_at ops dim t (e\<lparr>se_index := ?i + length ?ys\<rparr> # ps) (dim_after ops dim pos ?ys)
        (pre @ ?ys) (drop (?i + length ?ys) its @ after ps)"
      using True ps foc i tk by (simp add: dim_of_append)
    then show ?thesis unfolding seek_progress_def step if_P [OF True] sr
      using a3(2) i(3) seek_passed_stop [OF True] by auto
  next
    case False
    then have ys: "?ys = drop ?i its"
      using seek_passed_take [of ops dim target b pos "drop ?i its"] length_seek_passed [of ops dim target b pos "drop ?i its"]
      by simp
    have p: "dim_after ops dim pos (drop ?i its) = dim_of ops dim (before ps @ tree_items (focus t ps))"
      using i foc by (simp flip: dim_of_append)
    show ?thesis
    proof (rule seek_goes_on)
      show "seek_loop agg dim target b (e # ps) pos a ascending =
          seek_loop agg dim target b ps (dim_after ops dim pos (drop ?i its)) a3 True"
        unfolding step ys by simp
      show "seek_state ops dim t ps (dim_after ops dim pos (drop ?i its)) True (pre @ drop ?i its) (after ps)"
        using seek_parent_state [OF assms(1) ps] p foc i by simp
      show "seek_passed ops dim target b pos rest = drop ?i its @ seek_passed ops dim target b (dim_after ops dim pos (drop ?i its)) (after ps)"
        unfolding i(3) using ys by (rule seek_passed_full)
    qed (use a3 ys i(3) asc in \<open>simp_all add: less_Suc_eq_le\<close>)
  qed
qed

lemma seek_internal_node:
  assumes "wf_tree ops t" "node_height t < STACK_CAP" "seek_state ops dim t (e # ps) pos ascending pre rest"
    and "se_tree e = Internal h s css cts" "collected a xs" "monotone_from ops dim target pos rest"
  shows "seek_progress target b t (e # ps) pos a ascending pre rest xs"
proof -
  define i where "i = (if ascending then se_index e + 1 else se_index e)"
  have ps: "parents_ok ops dim t ps" and foc: "focus t ps = Internal h s css cts" "se_tree e = focus t ps"
    using assms by (cases ascending; auto)+
  have wf: "wf_tree ops (Internal h s css cts)" using wf_focus [OF assms(1) ps] foc by simp
  then have css: "css = map node_summary cts" by simp
  have i: "i \<le> length cts" "pre = before ps @ kid_items (take i cts)" "rest = kid_items (drop i cts) @ after ps"
    and pos: "pos = dim_of ops dim pre" "(if ascending then pos else se_position e) = pos"
    using assms(3,4) foc by (cases ascending; auto simp: i_def kid_items_def take_Suc_conv_app_nth)+
  have kids: "\<forall>c \<in> set (drop i cts). wf_tree ops c \<and> \<not> is_empty c" using wf by (auto dest: in_set_dropD)
  obtain a' n where n: "n \<le> length (drop i cts)"
    and sc: "seek_children agg dim target b i pos pos a (drop i cts) (map node_summary (drop i cts)) =
      ret (i + n, dim_after ops dim pos (kid_items (take n (drop i cts))),
        dim_after ops dim pos (kid_items (take n (drop i cts))), a', list_get (drop i cts) n)"
    and coll: "collected a' (xs @ kid_items (take n (drop i cts)))"
    and all: "\<forall>e \<in> set (positions ops dim pos (kid_items (take n (drop i cts)))). past_end b (target e)"
    using seek_children_ok [OF kids assms(5) assms(6) [unfolded i(3)]] by blast
  let ?ys = "kid_items (take n (drop i cts))"
  define d where "d = dim_after ops dim pos ?ys"
  have pre': "pre @ ?ys = before ps @ kid_items (take (i + n) cts)" by (simp add: i(2) take_add)
  have d: "d = dim_of ops dim (before ps @ kid_items (take (i + n) cts))"
    unfolding d_def pos(1) using pre' by (simp flip: dim_of_append)
  have rest: "rest = ?ys @ kid_items (drop (i + n) cts) @ after ps"
    using split_kids [of i "i + n" cts] by (simp add: i(3))
  have passed: "seek_passed ops dim target b pos rest =
      ?ys @ seek_passed ops dim target b d (kid_items (drop (i + n) cts) @ after ps)"
    unfolding rest d_def by (rule seek_passed_all [OF all])
  let ?e = "e\<lparr>se_index := i + n, se_position := d\<rparr>"
  have step: "seek_loop agg dim target b (e # ps) pos a ascending =
      (case list_get (drop i cts) n of
         Some child_tree \<Rightarrow> do {
           st' \<leftarrow> stack_push \<lparr>se_tree = child_tree, se_index = 0, se_position = d\<rparr> (?e # ps);
           seek_loop agg dim target b st' d a' False }
       | None \<Rightarrow> seek_loop agg dim target b ps d a' True)"
    unfolding seek_loop.simps(2) assms(4) sum_tree.case Let_def pos(2) i_def [symmetric]
    using i(1) sc by (simp add: css panic_free drop_map flip: d_def)
  show ?thesis
  proof (cases "i + n < length cts")
    case True
    note k = seek_kids_state [OF assms(1) ps foc(1) True foc(2) d]
    have work: "forward_work (\<lparr>se_tree = cts ! (i + n), se_index = 0, se_position = d\<rparr> # ?e # ps) True <
        forward_work (e # ps) (\<not> ascending)"
      using forward_push_work [of i "i + n" e ?e d ps] True assms(4) by (simp add: i_def split: if_splits)
    have go: "seek_loop agg dim target b (e # ps) pos a ascending =
        seek_loop agg dim target b (\<lparr>se_tree = cts ! (i + n), se_index = 0, se_position = d\<rparr> # ?e # ps) d a' False"
      unfolding step using True push_path_ok [OF assms(1) k [THEN conjunct1] assms(2)]
      by (simp add: list_get_def less_diff_conv add.commute)
    show ?thesis
      by (rule seek_goes_on [OF go _ coll _ rest d_def passed])
        (use k [THEN conjunct2] work in \<open>simp_all only: pre' not_False_eq_True\<close>)
  next
    case False
    then have tk: "before ps @ kid_items (take (i + n) cts) = before ps @ tree_items (focus t ps)" "drop (i + n) cts = []"
      using foc by (simp_all add: kid_items_def)
    have go: "seek_loop agg dim target b (e # ps) pos a ascending = seek_loop agg dim target b ps d a' True"
      unfolding step using False by (simp add: list_get_def less_diff_conv add.commute)
    have "seek_state ops dim t ps d True (pre @ ?ys) (kid_items (drop (i + n) cts) @ after ps)"
      unfolding pre' d tk using seek_parent_state [OF assms(1) ps] by simp
    then show ?thesis by (rule seek_goes_on [OF go _ coll _ rest d_def passed]) (simp add: less_Suc_eq_le)
  qed
qed

lemma seek_loop_ok:
  assumes "wf_tree ops t" "node_height t < STACK_CAP"
  shows "seek_state ops dim t st pos ascending pre rest \<Longrightarrow> collected a xs \<Longrightarrow> monotone_from ops dim target pos rest \<Longrightarrow>
    \<exists>st' pos' a'. seek_loop agg dim target b st pos a ascending = ret (st', pos', a') \<and>
      cursor_at ops dim t st' pos' (pre @ seek_passed ops dim target b pos rest) (seek_rest ops dim target b pos rest) \<and>
      collected a' (xs @ seek_passed ops dim target b pos rest)"
proof (induction "forward_work st (\<not> ascending)" arbitrary: st pos ascending pre rest a xs rule: less_induct)
  case less
  show ?case
  proof (cases st)
    case st: (Cons e ps)
    have "seek_progress target b t st pos a ascending pre rest xs"
      using seek_leaf [OF assms(1)] seek_internal_node [OF assms] less.prems unfolding st by (cases "se_tree e") auto
    then consider (stop) ?thesis
      | (on) st' pos' a' ascending' ys rest' where
        "seek_loop agg dim target b st pos a ascending = seek_loop agg dim target b st' pos' a' ascending'"
        "seek_state ops dim t st' pos' ascending' (pre @ ys) rest'" "collected a' (xs @ ys)"
        "forward_work st' (\<not> ascending') < forward_work st (\<not> ascending)" "rest = ys @ rest'"
        "pos' = dim_after ops dim pos ys"
        "seek_passed ops dim target b pos rest = ys @ seek_passed ops dim target b pos' rest'"
      unfolding seek_progress_def by blast
    then show ?thesis
    proof cases
      case on
      have m: "monotone_from ops dim target pos' rest'" using less.prems(3) on(5,6) by (auto dest: monotone_from_append)
      have "seek_rest ops dim target b pos rest = seek_rest ops dim target b pos' rest'"
        unfolding seek_rest_def using on(5,7) by simp
      then show ?thesis using less.hyps [OF on(4,2,3) m] on(1,7) by simp
    qed
  qed (use less.prems in \<open>simp add: seek_rest_def\<close>)
qed

text \<open>
  The whole of \<open>seek_internal\<close>, from a cursor that is not positioned or in front of \<open>rest\<close>. It
  reports whether the target equals the position reached (for \<open>Bias::Left\<close>: the end of the item).
\<close>

lemma seek_internal_ok:
  assumes "wf_tree ops (c_tree c)" "node_height (c_tree c) < STACK_CAP" "cursor_ready ops dim c pre rest"
    and "monotone_from ops dim target (c_position c) rest" "target (c_position c) \<noteq> Less" "collected a xs"
  shows "\<exists>c' a'. seek_internal agg dim target b a c =
      ret (seek_found ops dim target b (pre @ seek_passed ops dim target b (c_position c) rest)
             (seek_rest ops dim target b (c_position c) rest), c', a') \<and>
    c_tree c' = c_tree c \<and>
    cursor_ok ops dim c' (pre @ seek_passed ops dim target b (c_position c) rest)
      (seek_rest ops dim target b (c_position c) rest) \<and>
    collected a' (xs @ seek_passed ops dim target b (c_position c) rest)"
proof -
  obtain st where st: "(if c_did_seek c then ret (c_stack c)
        else stack_push \<lparr>se_tree = c_tree c, se_index = 0, se_position = d_zero dim\<rparr> (c_stack c)) = ret st"
      "seek_state ops dim (c_tree c) st (c_position c) False pre rest"
    using ready_seek_state [OF assms(1,3)] by blast
  obtain st' pos' a' where loop: "seek_loop agg dim target b st (c_position c) a False = ret (st', pos', a')"
      and at: "cursor_at ops dim (c_tree c) st' pos' (pre @ seek_passed ops dim target b (c_position c) rest)
        (seek_rest ops dim target b (c_position c) rest)"
      and coll: "collected a' (xs @ seek_passed ops dim target b (c_position c) rest)"
    using seek_loop_ok [OF assms(1,2) st(2) assms(6,4)] by blast
  define c' where "c' = c\<lparr>c_did_seek := True, c_stack := st', c_position := pos', c_at_end := (st' = [])\<rparr>"
  have ok: "cursor_ok ops dim c' (pre @ seek_passed ops dim target b (c_position c) rest)
      (seek_rest ops dim target b (c_position c) rest)" using at by (simp add: cursor_ok_def c'_def)
  have leaf: "case st' of [] \<Rightarrow> True | e # _ \<Rightarrow> is_leaf (se_tree e)" using at by (cases st') auto
  have item: "cursor_item_summary c' =
      ret (map_option (it_summary ops) (list_first (seek_rest ops dim target b (c_position c) rest)))"
    using ok assms(1) cursor_item_summary_at [of ops dim c'] by (simp add: cursor_ok_def c'_def)
  have pos': "pos' = dim_of ops dim (pre @ seek_passed ops dim target b (c_position c) rest)"
    using cursor_at_pos [OF at] .
  have "seek_internal agg dim target b a c = ret (seek_found ops dim target b
      (pre @ seek_passed ops dim target b (c_position c) rest) (seek_rest ops dim target b (c_position c) rest), c', a')"
    unfolding seek_internal_def st(1) seek_found_eq pos' [symmetric] using assms(5) leaf item
    by (cases "list_first (seek_rest ops dim target b (c_position c) rest)")
      (auto simp: loop ord_is_ge_def panic_free simp flip: c'_def)
  then show ?thesis using ok coll by (auto simp: c'_def)
qed

end

section \<open>The three aggregates\<close>

definition slice_holds :: "('t, 's) item_ops \<Rightarrow> ('t, 's) slice_seek_aggregate \<Rightarrow> 't list \<Rightarrow> bool" where
  "slice_holds ops a xs \<longleftrightarrow> wf_tree ops (sa_tree a) \<and> tree_items (sa_tree a) = xs \<and>
     sa_leaf_items a = [] \<and> sa_leaf_item_summaries a = [] \<and> sa_leaf_summary a = s_zero ops"

definition slice_in_leaf :: "('t, 's) item_ops \<Rightarrow> ('t, 's) slice_seek_aggregate \<Rightarrow> 't list \<Rightarrow> 't list \<Rightarrow> bool" where
  "slice_in_leaf ops a xs ys \<longleftrightarrow> wf_tree ops (sa_tree a) \<and> tree_items (sa_tree a) = xs \<and> length ys \<le> CAP \<and>
     sa_leaf_items a = ys \<and> sa_leaf_item_summaries a = map (it_summary ops) ys \<and>
     sa_leaf_summary a = items_summary ops ys"

sublocale dimension_laws \<subseteq> visit: seek_aggregate ops dim unit_agg "\<lambda>_ _. True" "\<lambda>_ _ _. True"
  by unfold_locales (simp_all add: unit_agg_def)

sublocale dimension_laws \<subseteq> slicing: seek_aggregate ops dim "slice_agg ops" "slice_holds ops" "slice_in_leaf ops"
proof unfold_locales
  fix a :: "('t, 's) slice_seek_aggregate" and xs ys x c
  show "slice_holds ops a xs \<Longrightarrow> \<exists>a'. ag_begin_leaf (slice_agg ops) a = ret a' \<and> slice_in_leaf ops a' xs []"
    by (simp add: slice_agg_def slice_holds_def slice_in_leaf_def items_summary_def)
  show "slice_in_leaf ops a xs ys \<Longrightarrow> length ys < CAP \<Longrightarrow>
      \<exists>a'. ag_push_item (slice_agg ops) a x (it_summary ops x) = ret a' \<and> slice_in_leaf ops a' xs (ys @ [x])"
    by (simp add: slice_agg_def slice_in_leaf_def slice_push_item_def panic_free items_summary_def sum_s_snoc)
  show "\<exists>a'. ag_end_leaf (slice_agg ops) a = ret a' \<and> slice_holds ops a' (xs @ ys)" if "slice_in_leaf ops a xs ys"
  proof -
    have "wf_tree ops (Leaf (sa_leaf_summary a) (sa_leaf_items a) (sa_leaf_item_summaries a))"
      using that by (simp add: slice_in_leaf_def items_summary_def)
    with append_tree_ok [of "sa_tree a"] that show ?thesis
      by (fastforce simp: slice_agg_def slice_holds_def slice_in_leaf_def slice_end_leaf_def)
  qed
  show "slice_holds ops a xs \<Longrightarrow> wf_tree ops c \<Longrightarrow> \<not> is_empty c \<Longrightarrow>
      \<exists>a'. ag_push_tree (slice_agg ops) a c (node_summary c) = ret a' \<and> slice_holds ops a' (xs @ tree_items c)"
    using append_tree_ok [of "sa_tree a" c] by (fastforce simp: slice_agg_def slice_holds_def slice_push_tree_def)
qed

text \<open>\<open>SummarySeekAggregate\<close> adds up another dimension.\<close>

locale two_dimensions = dimension_laws ops dim + out: dimension_laws ops out
  for ops :: "('t, 's) item_ops" and dim :: "('s, 'd) dim_ops" and out :: "('s, 'o) dim_ops"

sublocale two_dimensions \<subseteq> summing: seek_aggregate ops dim "summary_agg out"
  "\<lambda>a xs. a = dim_of ops out xs" "\<lambda>a xs ys. a = dim_of ops out (xs @ ys)"
  by unfold_locales (simp_all add: summary_agg_def dim_of_append out.d_add_node)

section \<open>The operations\<close>

lemma end_target_all: "seek_passed ops dim end_target b d xs = xs"
  by (induction xs arbitrary: d) (simp_all add: end_target_def past_end_def)

lemma end_target_stays: "stays (\<lambda>e. in_child b (end_target e)) ds"
  by (induction ds) (simp_all add: end_target_def in_child_def)

lemma end_target_monotone: "monotone_from ops dim end_target d xs"
  by (simp add: monotone_from_def end_target_stays)

context dimension_laws
begin

lemma seek_forward_ok:
  assumes "wf_tree ops (c_tree c)" "node_height (c_tree c) < STACK_CAP" "cursor_ready ops dim c pre rest"
    and "monotone_from ops dim target (dim_of ops dim pre) rest" "target (dim_of ops dim pre) \<noteq> Less"
  shows "\<exists>c'. seek_forward dim target b c =
      ret (seek_found ops dim target b (pre @ seek_passed ops dim target b (dim_of ops dim pre) rest)
             (seek_rest ops dim target b (dim_of ops dim pre) rest), c') \<and> c_tree c' = c_tree c \<and>
    cursor_ok ops dim c' (pre @ seek_passed ops dim target b (dim_of ops dim pre) rest)
      (seek_rest ops dim target b (dim_of ops dim pre) rest)"
  using visit.seek_internal_ok [OF assms(1-3), where target = target and b = b] assms(4,5)
  by (fastforce simp: seek_forward_def ready_pos [OF assms(3)])

lemma seek_ok:
  assumes "wf_tree ops (c_tree c)" "node_height (c_tree c) < STACK_CAP"
    and "monotone_target ops dim target (tree_items (c_tree c))" "target (d_zero dim) \<noteq> Less"
  shows "\<exists>c'. seek dim target b c =
      ret (seek_found ops dim target b (seek_passed ops dim target b (d_zero dim) (tree_items (c_tree c)))
             (seek_rest ops dim target b (d_zero dim) (tree_items (c_tree c))), c') \<and> c_tree c' = c_tree c \<and>
    cursor_ok ops dim c' (seek_passed ops dim target b (d_zero dim) (tree_items (c_tree c)))
      (seek_rest ops dim target b (d_zero dim) (tree_items (c_tree c)))"
  using seek_forward_ok [of "reset dim c" "[]" "tree_items (c_tree c)" target b] assms
  by (simp add: seek_def seek_forward_def monotone_target_def)

lemma slice_ok:
  assumes "wf_tree ops (c_tree c)" "node_height (c_tree c) < STACK_CAP" "cursor_ready ops dim c pre rest"
    and "monotone_from ops dim target (dim_of ops dim pre) rest" "target (dim_of ops dim pre) \<noteq> Less"
  shows "\<exists>t' c'. slice ops dim target b c = ret (t', c') \<and> wf_tree ops t' \<and>
    tree_items t' = seek_passed ops dim target b (dim_of ops dim pre) rest \<and> c_tree c' = c_tree c \<and>
    cursor_ok ops dim c' (pre @ tree_items t') (seek_rest ops dim target b (dim_of ops dim pre) rest)"
proof -
  let ?a = "\<lparr>sa_tree = new_tree ops, sa_leaf_items = [], sa_leaf_item_summaries = [], sa_leaf_summary = s_zero ops\<rparr>"
  have "slice_holds ops ?a []" by (simp add: slice_holds_def)
  from slicing.seek_internal_ok [OF assms(1-3) _ _ this, of target b] assms(4,5) show ?thesis
    by (fastforce simp: slice_def slice_holds_def ready_pos [OF assms(3)])
qed

lemma suffix_ok:
  assumes "wf_tree ops (c_tree c)" "node_height (c_tree c) < STACK_CAP" "cursor_ready ops dim c pre rest"
  shows "\<exists>t' c'. suffix ops dim c = ret (t', c') \<and> wf_tree ops t' \<and> tree_items t' = rest \<and>
    c_tree c' = c_tree c \<and> cursor_ok ops dim c' (tree_items (c_tree c)) []"
proof -
  have "end_target (dim_of ops dim pre) \<noteq> Less" by (simp add: end_target_def)
  from slice_ok [OF assms end_target_monotone this, of Right] show ?thesis
    by (simp add: suffix_def end_target_all seek_rest_def ready_items [OF assms(3)]) (metis ready_items [OF assms(3)])
qed

end

context two_dimensions
begin

lemma cursor_summary_ok:
  assumes "wf_tree ops (c_tree c)" "node_height (c_tree c) < STACK_CAP" "cursor_ready ops dim c pre rest"
    and "monotone_from ops dim target (dim_of ops dim pre) rest" "target (dim_of ops dim pre) \<noteq> Less"
  shows "\<exists>c'. cursor_summary out dim target b c =
      ret (dim_of ops out (seek_passed ops dim target b (dim_of ops dim pre) rest), c') \<and> c_tree c' = c_tree c \<and>
    cursor_ok ops dim c' (pre @ seek_passed ops dim target b (dim_of ops dim pre) rest)
      (seek_rest ops dim target b (dim_of ops dim pre) rest)"
  using summing.seek_internal_ok [OF assms(1-3), where target = target and b = b and xs = "[]"] assms(4,5)
  by (fastforce simp: cursor_summary_def ready_pos [OF assms(3)])

end

end
