(* ===== verification/Cursor_Backward.thy ===== *)
theory Cursor_Backward
  imports Cursor_Forward
begin

text \<open>
  Moving backward: \<open>search_backward\<close> with a sound filter brings the cursor in front of the last item
  before it that passes the filter, or out of the tree in front of the first item; \<open>prev\<close> moves by
  one item. \<open>next_item\<close> and \<open>prev_item\<close> look at the neighbours without moving.
\<close>

section \<open>The search\<close>

fun node_take :: "nat \<Rightarrow> ('t, 's) sum_tree \<Rightarrow> 't list" where
  "node_take j (Leaf s its iss) = take j its"
| "node_take j (Internal h s css cts) = kid_items (take j cts)"

fun node_drop :: "nat \<Rightarrow> ('t, 's) sum_tree \<Rightarrow> 't list" where
  "node_drop j (Leaf s its iss) = drop j its"
| "node_drop j (Internal h s css cts) = kid_items (drop j cts)"

lemma node_take_drop: "node_take j t @ node_drop j t = tree_items t"
  by (cases t) (simp_all add: kid_items_def concat_take_drop)

lemma node_take_0 [simp]: "node_take 0 t = []" "node_drop 0 t = tree_items t"
  by (cases t; simp add: kid_items_def)+

lemma node_take_all: "wf_tree ops t \<Longrightarrow> node_take (length (child_summaries t)) t = tree_items t"
  by (cases t) (simp_all add: kid_items_def)

text \<open>Where the loop is: \<open>pre\<close> is still to be searched from its end, \<open>post\<close> lies behind the cursor.\<close>

fun back_state ::
  "('t, 's) item_ops \<Rightarrow> ('s, 'd) dim_ops \<Rightarrow> ('t, 's) sum_tree \<Rightarrow> ('t, 's, 'd) stack_entry list \<Rightarrow> 'd \<Rightarrow> bool \<Rightarrow>
   't list \<Rightarrow> 't list \<Rightarrow> bool" where
  "back_state ops dim t [] pos descending pre post \<longleftrightarrow> pre = [] \<and> post = tree_items t \<and> pos = d_zero dim"
| "back_state ops dim t (e # ps) pos descending pre post \<longleftrightarrow> (
     let j = (if descending then Suc (se_index e) else se_index e) in
     parents_ok ops dim t ps \<and> se_tree e = focus t ps \<and> j \<le> length (child_summaries (se_tree e)) \<and>
     pre = before ps @ node_take j (se_tree e) \<and> post = node_drop j (se_tree e) @ after ps)"

definition back_result ::
  "('t, 's) item_ops \<Rightarrow> ('s, 'd) dim_ops \<Rightarrow> ('s \<Rightarrow> bool) \<Rightarrow> ('t, 's) sum_tree \<Rightarrow>
   ('t, 's, 'd) stack_entry list \<Rightarrow> 'd \<Rightarrow> 't list \<Rightarrow> 't list \<Rightarrow> bool" where
  "back_result ops dim f t st pos pre post \<longleftrightarrow>
     (\<exists>xs x ys. pre = xs @ x # ys \<and> f (it_summary ops x) \<and> (\<forall>y \<in> set ys. rejects ops f y) \<and>
        cursor_at ops dim t st pos xs (x # ys @ post)) \<or>
     ((\<forall>x \<in> set pre. rejects ops f x) \<and> st = [] \<and> pos = d_zero dim)"

lemma back_resultI:
  "cursor_at ops dim t st pos xs (x # ys @ post) \<Longrightarrow> f (it_summary ops x) \<Longrightarrow> \<forall>y \<in> set ys. rejects ops f y \<Longrightarrow>
   back_result ops dim f t st pos (xs @ x # ys) post"
  unfolding back_result_def by blast

lemma back_result_extend:
  "back_result ops dim f t st pos pre (ys @ post) \<Longrightarrow> \<forall>y \<in> set ys. rejects ops f y \<Longrightarrow>
   back_result ops dim f t st pos (pre @ ys) post"
  unfolding back_result_def by (elim disjE exE conjE) (fastforce, auto)

text \<open>The entry below the top gives the position at which the node starts.\<close>

lemma parent_position:
  "parents_ok ops dim t ps \<Longrightarrow> (case ps of [] \<Rightarrow> d_zero dim | parent # _ \<Rightarrow> se_position parent) = dim_of ops dim (before ps)"
  by (cases ps) simp_all

lemma back_parent_state:
  assumes "wf_tree ops t" "parents_ok ops dim t ps"
  shows "back_state ops dim t ps (dim_of ops dim (before ps)) False (before ps) (tree_items (focus t ps) @ after ps)"
proof (cases ps)
  case (Cons p ps')
  with assms obtain p': "se_tree p = focus t ps'" "parents_ok ops dim t ps'" "se_index p < length (kids (se_tree p))" by auto
  then obtain h s css cts where n: "focus t ps' = Internal h s css cts" by (cases "focus t ps'") auto
  have "length css = length cts" using wf_focus [OF assms(1) p'(2)] n by simp
  then show ?thesis using Cons p' n
    by (simp add: kid_items_def) (simp flip: Cons_nth_drop_Suc)
qed simp

text \<open>What a round does at the child \<open>se_index e\<close>, once the entry is updated.\<close>

definition back_step ::
  "('s, 'd) dim_ops \<Rightarrow> ('s \<Rightarrow> bool) \<Rightarrow> ('t, 's, 'd) stack_entry \<Rightarrow> ('t, 's, 'd) stack_entry list \<Rightarrow>
   (('t, 's, 'd) stack_entry list \<times> 'd) rust" where
  "back_step dim f e ps =
     (case se_tree e of
        Internal _ _ css cts \<Rightarrow>
          if f (css ! se_index e) then do {
            tree \<leftarrow> index_or_panic cts (se_index e);
            last_index \<leftarrow> checked_minus (length (child_summaries tree)) 1;
            st' \<leftarrow> stack_push \<lparr>se_tree = tree, se_index = last_index, se_position = d_zero dim\<rparr> (e # ps);
            search_backward_loop dim f st' (se_position e) True }
          else search_backward_loop dim f (e # ps) (se_position e) False
      | Leaf _ _ iss \<Rightarrow>
          if f (iss ! se_index e) then ret (e # ps, se_position e)
          else search_backward_loop dim f (e # ps) (se_position e) False)"

lemma back_start:
  assumes "wf_tree ops (c_tree c)"
    and "cursor_ok ops dim c pre post \<or>
      \<not> c_did_seek c \<and> cursor_fresh dim c \<and> pre = tree_items (c_tree c) \<and> post = []"
  shows "\<exists>st pos. (let at_end = (if c_did_seek c then c_at_end c else True) in
       if at_end then do {
          st \<leftarrow> (if is_empty (c_tree c) then ret (c_stack c)
                 else stack_push \<lparr>se_tree = c_tree c, se_index = length (child_summaries (c_tree c)),
                                  se_position = from_summary_dim dim (node_summary (c_tree c))\<rparr> (c_stack c));
          ret (st, d_zero dim, is_empty (c_tree c)) }
        else ret (c_stack c, c_position c, at_end)) = ret (st, pos, is_empty (c_tree c)) \<and>
    back_state ops dim (c_tree c) st pos False pre post"
proof (cases "c_stack c")
  case Nil
  then have c: "pre = tree_items (c_tree c)" "post = []" "(if c_did_seek c then c_at_end c else True) = True"
    using assms(2) by (auto simp: cursor_ok_def)
  have all: "node_take (length (child_summaries (c_tree c))) (c_tree c) = tree_items (c_tree c)"
    using assms(1) by (rule node_take_all)
  then have "node_drop (length (child_summaries (c_tree c))) (c_tree c) = []"
    using node_take_drop [of "length (child_summaries (c_tree c))" "c_tree c"] by simp
  with all c Nil show ?thesis
    using is_empty_items [OF assms(1)] by (auto simp: stack_push_def STACK_CAP_def)
next
  case (Cons e ps)
  then have ok: "cursor_ok ops dim c pre post" using assms(2) by (auto simp: cursor_fresh_def)
  then have at: "cursor_at ops dim (c_tree c) (e # ps) (c_position c) pre post" "c_did_seek c" "\<not> c_at_end c"
    using Cons by (auto simp: cursor_ok_def)
  then obtain s its iss where foc: "focus (c_tree c) ps = Leaf s its iss" "se_tree e = Leaf s its iss"
    by (cases "focus (c_tree c) ps") auto
  have wf: "iss = map (it_summary ops) its" using wf_focus [OF assms(1), of dim ps] at foc by simp
  have "tree_items (c_tree c) \<noteq> []" using cursor_at_items [OF at(1)] at(1) foc by (auto simp: drop_eq_Nil)
  then show ?thesis using at foc wf Cons is_empty_items [OF assms(1)] by simp
qed

context dimension_laws
begin

lemma foldl_node_take:
  assumes "wf_tree ops t" "i \<le> length (child_summaries t)"
  shows "foldl (d_add dim) d (take i (child_summaries t)) = dim_after ops dim d (node_take i t)"
proof (cases t)
  case (Internal h s css cts)
  with assms have "\<forall>c \<in> set (take i cts). wf_tree ops c \<and> \<not> is_empty c" by (auto dest: in_set_takeD)
  from foldl_kids [OF this] Internal assms show ?thesis by (simp add: take_map)
qed (use assms in \<open>simp add: dim_after_def take_map\<close>)

text \<open>The items below the child (or the item) at \<open>i\<close>, all rejected when its summary is.\<close>

lemma node_take_Suc:
  assumes "wf_tree ops t" "i < length (child_summaries t)"
  obtains ys where "node_take (Suc i) t = node_take i t @ ys" "node_drop i t = ys @ node_drop (Suc i) t"
    "\<And>f. sound_tree ops f t \<Longrightarrow> \<not> f (child_summaries t ! i) \<Longrightarrow> \<forall>y \<in> set ys. rejects ops f y"
proof (cases t)
  case (Internal h s css cts)
  with assms have i: "i < length cts" "css ! i = node_summary (cts ! i)" "wf_tree ops (cts ! i)" "\<not> is_empty (cts ! i)"
    by (auto dest: nth_mem)
  show ?thesis
  proof (rule that [of "tree_items (cts ! i)"])
    show "node_take (Suc i) t = node_take i t @ tree_items (cts ! i)"
        "node_drop i t = tree_items (cts ! i) @ node_drop (Suc i) t"
      using i Internal by (simp_all add: take_Suc_conv_app_nth flip: Cons_nth_drop_Suc)
    show "\<forall>y \<in> set (tree_items (cts ! i)). rejects ops f y" if "sound_tree ops f t" "\<not> f (child_summaries t ! i)" for f
      using that i Internal by (auto dest: nth_mem)
  qed
next
  case (Leaf s its iss)
  with assms have i: "i < length its" "iss ! i = it_summary ops (its ! i)" by auto
  then show ?thesis using Leaf
    by (intro that [of "[its ! i]"]) (simp_all add: take_Suc_conv_app_nth Cons_nth_drop_Suc)
qed

text \<open>One round of the loop.\<close>

definition back_progress ::
  "('s \<Rightarrow> bool) \<Rightarrow> ('t, 's) sum_tree \<Rightarrow> ('t, 's, 'd) stack_entry list \<Rightarrow> 'd \<Rightarrow> bool \<Rightarrow> 't list \<Rightarrow> 't list \<Rightarrow> bool" where
  "back_progress f t st pos descending pre post \<longleftrightarrow>
     (\<exists>st' pos'. search_backward_loop dim f st pos descending = ret (st', pos') \<and>
        back_result ops dim f t st' pos' pre post) \<or>
     (\<exists>st' pos' descending' pre' ys.
        search_backward_loop dim f st pos descending = search_backward_loop dim f st' pos' descending' \<and>
        back_state ops dim t st' pos' descending' pre' (ys @ post) \<and>
        backward_work st' descending' < backward_work st descending \<and>
        pre = pre' @ ys \<and> (\<forall>y \<in> set ys. rejects ops f y))"

lemma back_goes_on:
  assumes "search_backward_loop dim f st pos descending = search_backward_loop dim f st' pos' descending'"
    and "back_state ops dim t st' pos' descending' pre' (ys @ post)"
    and "backward_work st' descending' < backward_work st descending" "pre = pre' @ ys" "\<forall>y \<in> set ys. rejects ops f y"
  shows "back_progress f t st pos descending pre post"
  unfolding back_progress_def using assms by blast

lemma back_accept:
  assumes "wf_tree ops t" "node_height t < STACK_CAP" "parents_ok ops dim t ps" "se_tree e = focus t ps"
    and "(if descending then Suc (se_index e) else se_index e) = Suc i" "i < length (child_summaries (se_tree e))"
    and "f (child_summaries (se_tree e) ! i)" "d = dim_of ops dim (before ps @ node_take i (se_tree e))"
    and "search_backward_loop dim f (e # ps) pos descending = back_step dim f (e\<lparr>se_index := i, se_position := d\<rparr>) ps"
  shows "back_progress f t (e # ps) pos descending
    (before ps @ node_take (Suc i) (se_tree e)) (node_drop (Suc i) (se_tree e) @ after ps)"
proof (cases "se_tree e")
  case (Leaf s its iss)
  have foc: "focus t ps = Leaf s its iss" using assms(4) Leaf by simp
  have wf: "iss = map (it_summary ops) its" using wf_focus [OF assms(1,3)] foc by simp
  have i: "i < length its" and fi: "f (it_summary ops (its ! i))" using assms(6,7) Leaf wf by simp_all
  have "cursor_at ops dim t (e\<lparr>se_index := i, se_position := d\<rparr> # ps) d (before ps @ take i its)
      (its ! i # [] @ drop (Suc i) its @ after ps)"
    using assms(3,6,8) Leaf wf foc by (simp add: Cons_nth_drop_Suc)
  from back_resultI [where f = f, OF this fi] have "back_result ops dim f t (e\<lparr>se_index := i, se_position := d\<rparr> # ps) d
      (before ps @ take (Suc i) its) (drop (Suc i) its @ after ps)"
    using i by (simp add: take_Suc_conv_app_nth)
  then show ?thesis unfolding back_progress_def assms(9) using Leaf assms(6,7) wf by (simp add: back_step_def)
next
  case (Internal h s css cts)
  let ?e = "e\<lparr>se_index := i, se_position := d\<rparr>"
  have foc: "focus t ps = Internal h s css cts" using assms(4) Internal by simp
  have css: "css = map node_summary cts" using wf_focus [OF assms(1,3)] foc by simp
  then have i: "i < length cts" using assms(6) Internal by simp
  have par: "parents_ok ops dim t (?e # ps)" using assms(3,8) foc i Internal by (simp add: kid_items_def)
  have child: "wf_tree ops (cts ! i)" "\<not> is_empty (cts ! i)" using wf_focus [OF assms(1) par] Internal by simp_all
  then have n: "0 < length (child_summaries (cts ! i))" by (cases "cts ! i") auto
  let ?c = "\<lparr>se_tree = cts ! i, se_index = length (child_summaries (cts ! i)) - 1, se_position = d_zero dim\<rparr>"
  have go: "search_backward_loop dim f (e # ps) pos descending = search_backward_loop dim f (?c # ?e # ps) d True"
    unfolding assms(9) back_step_def using Internal assms(7) i n push_path_ok [OF assms(1) par assms(2)]
    by (simp add: panic_free Suc_le_eq)
  have "left_work (cts ! i) (length (child_summaries (cts ! i))) + 2 \<le> weight (cts ! i)" by (rule left_work_end)
  then have work: "backward_work (?c # ?e # ps) True < backward_work (e # ps) descending"
    using n assms(5) i Internal left_work_child [of i "se_tree e"] by simp
  have st: "back_state ops dim t (?c # ?e # ps) d True (before ps @ node_take (Suc i) (se_tree e))
      ([] @ node_drop (Suc i) (se_tree e) @ after ps)"
    using assms(3,8) foc n i Internal child node_take_drop [of "length (child_summaries (cts ! i))" "cts ! i"] node_take_all [of ops "cts ! i"]
    by (simp add: take_Suc_conv_app_nth kid_items_def)
  show ?thesis by (rule back_goes_on [OF go st work]) simp_all
qed

lemma back_round:
  assumes "sound_tree ops f t" "wf_tree ops t" "node_height t < STACK_CAP"
    and "back_state ops dim t (e # ps) pos descending pre post"
  shows "back_progress f t (e # ps) pos descending pre post"
proof -
  define j where "j = (if descending then Suc (se_index e) else se_index e)"
  have ps: "parents_ok ops dim t ps" and foc: "se_tree e = focus t ps" and jl: "j \<le> length (child_summaries (se_tree e))"
    and pre: "pre = before ps @ node_take j (se_tree e)" and post: "post = node_drop j (se_tree e) @ after ps"
    using assms(4) unfolding back_state.simps Let_def j_def [symmetric] by blast+
  have wf: "wf_tree ops (se_tree e)" using wf_focus [OF assms(2) ps] foc by simp
  have sound: "sound_tree ops f (se_tree e)" using sound_focus [OF assms(1) ps] foc by simp
  note pos0 = parent_position [OF ps]
  show ?thesis
  proof (cases j)
    case 0
    then have "\<not> descending" "se_index e = 0" by (simp_all add: j_def split: if_splits)
    then have go: "search_backward_loop dim f (e # ps) pos descending =
        search_backward_loop dim f ps (dim_of ops dim (before ps)) False"
      by (subst search_backward_loop.simps(2)) (simp add: pos0)
    show ?thesis
      by (rule back_goes_on [OF go, of t "before ps" "[]"])
        (use back_parent_state [OF assms(2) ps] pre post 0 foc in \<open>simp_all add: less_Suc_eq_le\<close>)
  next
    case (Suc i)
    then have i: "\<not> (\<not> descending \<and> se_index e = 0)" "(if descending then se_index e else se_index e - 1) = i"
      by (auto simp: j_def split: if_splits)
    have il: "i < length (child_summaries (se_tree e))" using jl Suc by simp
    define d where "d = dim_of ops dim (before ps @ node_take i (se_tree e))"
    let ?e = "e\<lparr>se_index := i, se_position := d\<rparr>"
    have fold: "foldl (d_add dim) (dim_of ops dim (before ps)) (take i (child_summaries (se_tree e))) = d"
      using foldl_node_take [OF wf] il by (simp add: d_def dim_of_append)
    have step: "search_backward_loop dim f (e # ps) pos descending = back_step dim f ?e ps"
      by (subst search_backward_loop.simps(2), unfold Let_def pos0 i(2) if_not_P [OF i(1)] back_step_def)
        (use il fold in \<open>cases "se_tree e"; simp add: panic_free\<close>)
    obtain ys where ys: "node_take (Suc i) (se_tree e) = node_take i (se_tree e) @ ys"
        "node_drop i (se_tree e) = ys @ node_drop (Suc i) (se_tree e)"
      and rej: "\<not> f (child_summaries (se_tree e) ! i) \<Longrightarrow> \<forall>y \<in> set ys. rejects ops f y"
      using node_take_Suc [OF wf il] sound by metis
    show ?thesis
    proof (cases "f (child_summaries (se_tree e) ! i)")
      case False
      have go: "search_backward_loop dim f (e # ps) pos descending = search_backward_loop dim f (?e # ps) d False"
        unfolding step using False by (cases "se_tree e") (simp_all add: back_step_def)
      have "left_work (se_tree e) i < left_work (se_tree e) (Suc i)" by (rule left_work_Suc)
      then have work: "backward_work (?e # ps) False < backward_work (e # ps) descending"
        using Suc by (simp add: j_def split: if_splits)
      show ?thesis
        by (rule back_goes_on [OF go _ work _ rej [OF False]])
          (use ps foc il ys pre post Suc in simp_all)
    next
      case True
      show ?thesis
        unfolding pre post Suc
        by (rule back_accept [OF assms(2,3) ps foc _ il True d_def step]) (use Suc in \<open>simp add: j_def\<close>)
    qed
  qed
qed

lemma search_backward_loop_ok:
  assumes "sound_tree ops f t" "wf_tree ops t" "node_height t < STACK_CAP"
  shows "back_state ops dim t st pos descending pre post \<Longrightarrow>
    \<exists>st' pos'. search_backward_loop dim f st pos descending = ret (st', pos') \<and> back_result ops dim f t st' pos' pre post"
proof (induction "backward_work st descending" arbitrary: st pos descending pre post rule: less_induct)
  case less
  show ?case
  proof (cases st)
    case (Cons e ps)
    have "back_progress f t st pos descending pre post"
      using less.prems unfolding Cons by (rule back_round [OF assms])
    then show ?thesis unfolding back_progress_def using less.hyps by (metis back_result_extend)
  qed (use less.prems in \<open>simp add: back_result_def\<close>)
qed

section \<open>The operations\<close>

lemma search_backward_ok:
  assumes "sound_tree ops f (c_tree c)" "wf_tree ops (c_tree c)" "node_height (c_tree c) < STACK_CAP"
    and "cursor_ok ops dim c pre post \<or>
      \<not> c_did_seek c \<and> cursor_fresh dim c \<and> pre = tree_items (c_tree c) \<and> post = []"
  shows "\<exists>c'. search_backward dim f c = ret c' \<and> c_tree c' = c_tree c \<and> c_did_seek c' \<and>
    ((\<exists>xs x ys. pre = xs @ x # ys \<and> f (it_summary ops x) \<and> (\<forall>y \<in> set ys. rejects ops f y) \<and>
        cursor_ok ops dim c' xs (x # ys @ post)) \<or>
     ((\<forall>x \<in> set pre. rejects ops f x) \<and> cursor_fresh dim c'))"
proof -
  obtain st pos where start: "(let at_end = (if c_did_seek c then c_at_end c else True) in
       if at_end then do {
          st \<leftarrow> (if is_empty (c_tree c) then ret (c_stack c)
                 else stack_push \<lparr>se_tree = c_tree c, se_index = length (child_summaries (c_tree c)),
                                  se_position = from_summary_dim dim (node_summary (c_tree c))\<rparr> (c_stack c));
          ret (st, d_zero dim, is_empty (c_tree c)) }
        else ret (c_stack c, c_position c, at_end)) = ret (st, pos, is_empty (c_tree c))"
      and st: "back_state ops dim (c_tree c) st pos False pre post"
    using back_start [OF assms(2,4)] by blast
  obtain st' pos' where loop: "search_backward_loop dim f st pos False = ret (st', pos')"
      and res: "back_result ops dim f (c_tree c) st' pos' pre post"
    using search_backward_loop_ok [OF assms(1-3) st] by blast
  have "search_backward dim f c = ret (c\<lparr>c_stack := st', c_position := pos', c_did_seek := True, c_at_end := is_empty (c_tree c)\<rparr>)"
    using start loop by (auto simp: search_backward_def Let_def split: if_splits)
  moreover have "\<not> is_empty (c_tree c)" if "pre \<noteq> []"
  proof -
    have "pre @ post = tree_items (c_tree c)" using assms(4) by (auto simp: cursor_ok_def dest: cursor_at_items)
    then show ?thesis using that is_empty_items [OF assms(2)] by auto
  qed
  ultimately show ?thesis
    using res cursor_at_Nil_iff unfolding back_result_def cursor_ok_def cursor_fresh_def by fastforce
qed

lemma cursor_prev_at:
  assumes "wf_tree ops (c_tree c)" "node_height (c_tree c) < STACK_CAP" "cursor_ok ops dim c (pre @ [x]) post"
  shows "\<exists>c'. cursor_prev dim c = ret c' \<and> c_tree c' = c_tree c \<and> cursor_ok ops dim c' pre (x # post)"
proof -
  have "sound_tree ops (\<lambda>_. True) (c_tree c)" by (rule sound_tree_all)
  from search_backward_ok [OF this assms(1,2) disjI1, OF assms(3)] show ?thesis
    by (fastforce simp: cursor_prev_def)
qed

lemma cursor_prev_start:
  assumes "wf_tree ops (c_tree c)" "node_height (c_tree c) < STACK_CAP" "cursor_ok ops dim c [] post"
  shows "\<exists>c'. cursor_prev dim c = ret c' \<and> c_tree c' = c_tree c \<and> c_did_seek c' \<and> cursor_fresh dim c'"
proof -
  have "sound_tree ops (\<lambda>_. True) (c_tree c)" by (rule sound_tree_all)
  from search_backward_ok [OF this assms(1,2) disjI1, OF assms(3)] show ?thesis
    by (fastforce simp: cursor_prev_def)
qed

end

section \<open>Neighbours\<close>

lemma leftmost_leaf_ok:
  assumes "wf_tree ops t" "\<not> is_empty t"
  obtains l its where "leftmost_leaf t = ret l" "node_items l = ret its" "list_first its = ret (hd (tree_items t))"
  using tree_first_ok [OF assms(1)] wf_nonempty_items [OF assms]
  by (auto simp: tree_first_def list_first_hd split: bind_splits)

lemma rightmost_leaf_ok:
  assumes "wf_tree ops t" "\<not> is_empty t"
  obtains l its where "rightmost_leaf t = ret l" "node_items l = ret its" "list_last its = ret (last (tree_items t))"
  using tree_last_ok [OF assms(1)] wf_nonempty_items [OF assms]
  by (auto simp: tree_last_def list_last_last split: bind_splits)

lemma next_leaf_loop_ok:
  assumes "wf_tree ops t"
  shows "parents_ok ops dim t ps \<Longrightarrow>
    (after ps = [] \<and> next_leaf_loop ps = ret None) \<or>
    (\<exists>l its. next_leaf_loop ps = ret (Some l) \<and> node_items l = ret its \<and> list_first its = list_first (after ps) \<and> after ps \<noteq> [])"
proof (induction ps)
  case (Cons p ps)
  then obtain p: "parents_ok ops dim t ps" "se_tree p = focus t ps" "se_index p < length (kids (se_tree p))" by auto
  from p(3) obtain h s css cts where n: "se_tree p = Internal h s css cts" by (cases "se_tree p") simp_all
  have wf: "wf_tree ops (Internal h s css cts)" using wf_focus [OF assms p(1)] p(2) n by simp
  show ?case
  proof (cases "Suc (se_index p) < length cts")
    case True
    then have c: "wf_tree ops (cts ! Suc (se_index p))" "\<not> is_empty (cts ! Suc (se_index p))"
      using wf by (auto dest: nth_mem)
    obtain l its where l: "leftmost_leaf (cts ! Suc (se_index p)) = ret l" "node_items l = ret its"
        "list_first its = ret (hd (tree_items (cts ! Suc (se_index p))))" by (rule leftmost_leaf_ok [OF c])
    have "after (p # ps) = tree_items (cts ! Suc (se_index p)) @ concat (map tree_items (drop (Suc (Suc (se_index p))) cts)) @ after ps"
      using True n by (simp flip: Cons_nth_drop_Suc)
    with l True n wf_nonempty_items [OF c] show ?thesis by (auto simp: panic_free list_first_hd)
  next
    case False
    then have "\<not> se_index p < length cts - Suc 0" "after (p # ps) = after ps" using n by auto
    then show ?thesis using Cons.IH [OF p(1)] n p(3) by (auto simp: panic_free)
  qed
qed simp

lemma prev_leaf_loop_ok:
  assumes "wf_tree ops t"
  shows "parents_ok ops dim t ps \<Longrightarrow>
    (before ps = [] \<and> prev_leaf_loop ps = ret None) \<or>
    (\<exists>l its. prev_leaf_loop ps = ret (Some l) \<and> node_items l = ret its \<and> list_last its = list_last (before ps) \<and> before ps \<noteq> [])"
proof (induction ps)
  case (Cons p ps)
  then obtain p: "parents_ok ops dim t ps" "se_tree p = focus t ps" "se_index p < length (kids (se_tree p))" by auto
  from p(3) obtain h s css cts where n: "se_tree p = Internal h s css cts" by (cases "se_tree p") simp_all
  have wf: "wf_tree ops (Internal h s css cts)" using wf_focus [OF assms p(1)] p(2) n by simp
  show ?case
  proof (cases "se_index p")
    case 0
    then show ?thesis using Cons.IH [OF p(1)] by auto
  next
    case (Suc i)
    then have i: "i < length cts" using p(3) n by simp
    then have c: "wf_tree ops (cts ! i)" "\<not> is_empty (cts ! i)" using wf by (auto dest: nth_mem)
    obtain l its where l: "rightmost_leaf (cts ! i) = ret l" "node_items l = ret its"
        "list_last its = ret (last (tree_items (cts ! i)))" by (rule rightmost_leaf_ok [OF c])
    have "before (p # ps) = (before ps @ concat (map tree_items (take i cts))) @ tree_items (cts ! i)"
      using Suc i n by (simp add: take_Suc_conv_app_nth)
    with l i n Suc wf_nonempty_items [OF c] show ?thesis by (simp add: panic_free list_last_last)
  qed
qed simp

lemma next_item_at:
  assumes "wf_tree ops (c_tree c)" "cursor_ok ops dim c pre post"
  shows "next_item c = ret (list_first (drop 1 post))"
proof (cases "c_stack c")
  case Nil
  then show ?thesis using assms by (auto simp: next_item_def cursor_ok_def assert_did_seek_def panic_free)
next
  case (Cons e ps)
  with assms have at: "cursor_at ops dim (c_tree c) (e # ps) (c_position c) pre post" "c_did_seek c"
    by (simp_all add: cursor_ok_def del: cursor_at.simps)
  then obtain s its iss where foc: "se_tree e = Leaf s its iss" by (cases "se_tree e") auto
  from at have ps: "parents_ok ops dim (c_tree c) ps" by simp
  from at foc have i: "se_index e < length its" "post = drop (se_index e) its @ after ps" by simp_all
  then have post: "drop 1 post = drop (Suc (se_index e)) its @ after ps" by (simp flip: Cons_nth_drop_Suc)
  show ?thesis
  proof (cases "Suc (se_index e) < length its")
    case True
    then have "se_index e \<noteq> length its - Suc 0" by simp
    with True post at(2) Cons foc i show ?thesis
      by (simp add: next_item_def assert_did_seek_def panic_free list_first_hd hd_drop_conv_nth)
  next
    case False
    then have "se_index e = length its - Suc 0" "drop 1 post = after ps" using i post by simp_all
    with next_leaf_loop_ok [OF assms(1) ps] at(2) Cons foc i show ?thesis
      by (auto simp: next_item_def next_leaf_def assert_did_seek_def panic_free list_first_hd)
  qed
qed

lemma prev_item_at:
  assumes "wf_tree ops (c_tree c)" "cursor_ok ops dim c pre post"
  shows "prev_item c = ret (list_last pre)"
proof (cases "c_stack c")
  case Nil
  then show ?thesis using assms tree_last_ok [OF assms(1)]
    by (auto simp: prev_item_def cursor_ok_def assert_did_seek_def panic_free)
next
  case (Cons e ps)
  with assms have at: "cursor_at ops dim (c_tree c) (e # ps) (c_position c) pre post" "c_did_seek c"
    by (simp_all add: cursor_ok_def del: cursor_at.simps)
  then obtain s its iss where foc: "se_tree e = Leaf s its iss" by (cases "se_tree e") auto
  from at have ps: "parents_ok ops dim (c_tree c) ps" by simp
  from at foc have i: "se_index e < length its" "pre = before ps @ take (se_index e) its" by simp_all
  show ?thesis
  proof (cases "se_index e")
    case 0
    with prev_leaf_loop_ok [OF assms(1) ps] at(2) Cons foc i show ?thesis
      by (auto simp: prev_item_def prev_leaf_def assert_did_seek_def panic_free list_last_last)
  next
    case (Suc k)
    then have "list_last pre = ret (its ! k)" using i by (simp add: take_Suc_conv_app_nth list_last_def)
    with Suc at(2) Cons foc i show ?thesis by (simp add: prev_item_def assert_did_seek_def panic_free)
  qed
qed

end
