(* ===== verification/Cursor_Iter.thy ===== *)
theory Cursor_Iter
  imports Cursor_Forward
begin

text \<open>
  Iteration over a tree: \<open>SumTree::iter\<close> (\<open>Iter\<close>), \<open>SumTree::items\<close> (a cursor that is moved to the
  end) and \<open>PartialEq\<close>. All of them see the items in order, without a panic.
\<close>

section \<open>Iter\<close>

text \<open>
  Running an iterator to its end: \<open>collect\<close>, and \<open>Iterator::eq\<close> on two iterators. The fuel is the number
  of rounds; running out of it is reported as a panic, so the theorems say that it does not happen.
\<close>

fun iter_collect :: "nat \<Rightarrow> ('t, 's) tree_iter \<Rightarrow> 't list rust" where
  "iter_collect 0 it = panic"
| "iter_collect (Suc n) it = do {
     (x, it') \<leftarrow> iter_next it;
     (case x of None \<Rightarrow> ret [] | Some item \<Rightarrow> do { rest \<leftarrow> iter_collect n it'; ret (item # rest) }) }"

fun iter_eq :: "nat \<Rightarrow> ('t, 's) tree_iter \<Rightarrow> ('t, 's) tree_iter \<Rightarrow> bool rust" where
  "iter_eq 0 it1 it2 = panic"
| "iter_eq (Suc n) it1 it2 = do {
     (x, it1') \<leftarrow> iter_next it1;
     (y, it2') \<leftarrow> iter_next it2;
     (case (x, y) of
        (None, _) \<Rightarrow> ret (y = None)
      | (Some a, None) \<Rightarrow> ret False
      | (Some a, Some b) \<Rightarrow> if a = b then iter_eq n it1' it2' else ret False) }"

definition tree_eq :: "('t, 's) sum_tree \<Rightarrow> ('t, 's) sum_tree \<Rightarrow> bool rust" where
  "tree_eq self other = iter_eq (weight self) (iter_new self) (iter_new other)"

text \<open>\<open>SumTree::items\<close>.\<close>

fun items_loop :: "nat \<Rightarrow> ('t, 's, unit) cursor \<Rightarrow> 't list rust" where
  "items_loop 0 cursor = panic"
| "items_loop (Suc n) cursor = do {
     x \<leftarrow> cursor_item cursor;
     (case x of
        None \<Rightarrow> ret []
      | Some item \<Rightarrow> do {
          cursor' \<leftarrow> cursor_next unit_dim cursor;
          rest \<leftarrow> items_loop n cursor';
          ret (item # rest) }) }"

definition sum_tree_items :: "('t, 's) sum_tree \<Rightarrow> 't list rust" where
  "sum_tree_items self = do {
     cursor \<leftarrow> cursor_next unit_dim (cursor_new unit_dim self);
     items_loop (weight self) cursor }"

lemma weight_items: "wf_tree ops t \<Longrightarrow> length (tree_items t) < weight t"
proof (induction t)
  case (Internal h s css cts)
  then have "\<forall>c \<in> set cts. length (tree_items c) \<le> weight c" by (auto intro: less_imp_le)
  then have "length (concat (map tree_items cts)) \<le> sum_list (map weight cts)"
    by (induction cts) (auto intro: add_mono)
  then show ?case by simp
qed simp

context summary_laws
begin

lemma iter_leaf:
  assumes "wf_tree ops t" "search_state ops unit_dim t (e # ps) () descend pre rest" "se_tree e = Leaf s its iss"
  shows "(\<exists>e'. iter_loop (e # ps) descend = ret (list_first rest, e' # ps) \<and> rest \<noteq> [] \<and>
      cursor_at ops unit_dim t (e' # ps) () pre rest) \<or>
    (iter_loop (e # ps) descend = iter_loop ps False \<and> search_state ops unit_dim t ps () False pre rest)"
proof -
  define i where "i = (if descend then se_index e else Suc (se_index e))"
  have ps: "parents_ok ops unit_dim t ps" and foc: "focus t ps = Leaf s its iss" "se_tree e = focus t ps"
    and i: "i \<le> length its" "pre = before ps @ take i its" "rest = drop i its @ after ps"
    using assms by (cases descend; auto simp: i_def)+
  have i': "(if descend then se_index e else se_index e + 1) = i" by (simp add: i_def)
  show ?thesis
  proof (cases "i < length its")
    case True
    then have "drop i its = its ! i # drop (Suc i) its" by (simp add: Cons_nth_drop_Suc)
    with True ps foc i assms(3) show ?thesis
      by (intro disjI1 exI [of _ "e\<lparr>se_index := i\<rparr>"]) (simp add: iter_loop.simps(2) Let_def i' list_get_def)
  next
    case False
    then show ?thesis using parent_state [OF assms(1) ps] foc i assms(3)
      by (intro disjI2) (simp add: iter_loop.simps(2) Let_def i' list_get_def)
  qed
qed

lemma iter_internal:
  assumes "wf_tree ops t" "node_height t < STACK_CAP" "search_state ops unit_dim t (e # ps) () descend pre rest"
    and "se_tree e = Internal h s css cts"
  shows "\<exists>st' descend'. iter_loop (e # ps) descend = iter_loop st' descend' \<and>
    search_state ops unit_dim t st' () descend' pre rest \<and> forward_work st' descend' < forward_work (e # ps) descend"
proof -
  define i where "i = (if descend then se_index e else Suc (se_index e))"
  have ps: "parents_ok ops unit_dim t ps" and foc: "focus t ps = Internal h s css cts" "se_tree e = focus t ps"
    using assms by (cases descend; auto)+
  have i: "i \<le> length cts" "pre = before ps @ kid_items (take i cts)" "rest = kid_items (drop i cts) @ after ps"
    using assms(3,4) foc by (cases descend; auto simp: i_def kid_items_def take_Suc_conv_app_nth)+
  have i': "(if descend then se_index e else se_index e + 1) = i" by (simp add: i_def)
  show ?thesis
  proof (cases "i < length cts")
    case True
    let ?st = "\<lparr>se_tree = cts ! i, se_index = 0, se_position = ()\<rparr> # e\<lparr>se_index := i\<rparr> # ps"
    have "dim_of ops unit_dim (before ps @ kid_items (take i cts)) = ()" by simp
    note k = unit.kids_state [OF assms(1) ps foc(1) order_refl True foc(2) this [symmetric]]
    have par: "parents_ok ops unit_dim t (e\<lparr>se_index := i\<rparr> # ps)" using ps foc True by simp
    have "iter_loop (e # ps) descend = iter_loop ?st True"
      by (subst iter_loop.simps(2))
        (simp add: assms(4) True i' list_get_def push_path_ok [OF assms(1) par assms(2)])
    moreover have "forward_work ?st True < forward_work (e # ps) descend"
      using forward_push_work [of i i e "e\<lparr>se_index := i\<rparr>" "()" ps] True assms(4) by (simp add: i_def split: if_splits)
    moreover have "search_state ops unit_dim t ?st () True pre rest" unfolding i using k [THEN conjunct2] by auto
    ultimately show ?thesis by blast
  next
    case False
    then have "iter_loop (e # ps) descend = iter_loop ps False"
      using assms(4) by (simp add: iter_loop.simps(2) Let_def i' list_get_def)
    then show ?thesis using False parent_state [OF assms(1) ps] foc i
      by (intro exI [of _ ps] exI [of _ False]) (simp add: kid_items_def less_Suc_eq_le)
  qed
qed

lemma iter_loop_ok:
  assumes "wf_tree ops t" "node_height t < STACK_CAP"
  shows "search_state ops unit_dim t st () descend pre rest \<Longrightarrow>
    \<exists>st'. iter_loop st descend = ret (list_first rest, st') \<and> cursor_at ops unit_dim t st' () pre rest"
proof (induction "forward_work st descend" arbitrary: st descend pre rest rule: less_induct)
  case less
  show ?case
  proof (cases st)
    case (Cons e ps)
    show ?thesis
    proof (cases "se_tree e")
      case (Leaf s its iss)
      with iter_leaf [OF assms(1) less.prems [unfolded Cons]] less.hyps [of ps False] Cons show ?thesis
        by (auto simp: less_Suc_eq_le)
    next
      case (Internal h s css cts)
      with iter_internal [OF assms less.prems [unfolded Cons]] less.hyps Cons show ?thesis by metis
    qed
  qed (use less.prems in simp)
qed

text \<open>The state of an iterator that has yielded \<open>pre\<close> and has \<open>post\<close> ahead.\<close>

definition iter_at :: "('t, 's) tree_iter \<Rightarrow> 't list \<Rightarrow> 't list \<Rightarrow> bool" where
  "iter_at it pre post \<longleftrightarrow> (
     let t = ti_tree it in wf_tree ops t \<and> node_height t < STACK_CAP \<and> pre @ post = tree_items t \<and>
     (if pre = [] then ti_stack it = []
      else cursor_at ops unit_dim t (ti_stack it) () (butlast pre) (last pre # post)))"

lemma iter_next_ok:
  assumes "iter_at it pre post"
  shows "\<exists>it'. iter_next it = ret (list_first post, it') \<and> (post \<noteq> [] \<longrightarrow> iter_at it' (pre @ [hd post]) (tl post))"
proof -
  have t: "wf_tree ops (ti_tree it)" "node_height (ti_tree it) < STACK_CAP" "pre @ post = tree_items (ti_tree it)"
    using assms by (auto simp: iter_at_def)
  obtain st descend where st: "(if ti_stack it = [] then do {
          st \<leftarrow> stack_push \<lparr>se_tree = ti_tree it, se_index = 0, se_position = ()\<rparr> [];
          ret (st, True) }
        else ret (ti_stack it, False)) = ret (st, descend)"
      "search_state ops unit_dim (ti_tree it) st () descend pre post"
  proof (cases "pre = []")
    case True
    then show ?thesis using assms that [of "[\<lparr>se_tree = ti_tree it, se_index = 0, se_position = ()\<rparr>]" True]
      by (simp add: iter_at_def stack_push_def STACK_CAP_def)
  next
    case False
    then obtain e ps where "ti_stack it = e # ps" using assms by (cases "ti_stack it") (auto simp: iter_at_def)
    moreover from this have "search_state ops unit_dim (ti_tree it) (e # ps) () False (butlast pre @ [last pre]) post"
      using assms False by (intro leaf_next_state) (simp add: iter_at_def del: cursor_at.simps)
    ultimately show ?thesis using that [of "ti_stack it" False] False by simp
  qed
  obtain st' where st': "iter_loop st descend = ret (list_first post, st')"
      "cursor_at ops unit_dim (ti_tree it) st' () pre post"
    using iter_loop_ok [OF t(1,2) st(2)] by blast
  have "iter_next it = ret (list_first post, it\<lparr>ti_stack := st'\<rparr>)"
    unfolding iter_next_def st(1) by (simp add: st'(1))
  then show ?thesis using st'(2) t by (auto simp: iter_at_def)
qed

lemma iter_new_at: "wf_tree ops t \<Longrightarrow> node_height t < STACK_CAP \<Longrightarrow> iter_at (iter_new t) [] (tree_items t)"
  by (simp add: iter_at_def iter_new_def)

lemma iter_collect_ok: "iter_at it pre post \<Longrightarrow> length post < n \<Longrightarrow> iter_collect n it = ret post"
proof (induction n arbitrary: it pre post)
  case (Suc n)
  obtain it' where it': "iter_next it = ret (list_first post, it')" "post \<noteq> [] \<longrightarrow> iter_at it' (pre @ [hd post]) (tl post)"
    using iter_next_ok [OF Suc.prems(1)] by blast
  then show ?case using Suc.IH [of it' "pre @ [hd post]" "tl post"] Suc.prems(2) by (cases post) simp_all
qed simp

lemma iter_eq_ok:
  "iter_at it1 pre1 post1 \<Longrightarrow> iter_at it2 pre2 post2 \<Longrightarrow> length post1 < n \<Longrightarrow> iter_eq n it1 it2 = ret (post1 = post2)"
proof (induction n arbitrary: it1 pre1 post1 it2 pre2 post2)
  case (Suc n)
  obtain it1' where it1: "iter_next it1 = ret (list_first post1, it1')"
      "post1 \<noteq> [] \<longrightarrow> iter_at it1' (pre1 @ [hd post1]) (tl post1)"
    using iter_next_ok [OF Suc.prems(1)] by blast
  obtain it2' where it2: "iter_next it2 = ret (list_first post2, it2')"
      "post2 \<noteq> [] \<longrightarrow> iter_at it2' (pre2 @ [hd post2]) (tl post2)"
    using iter_next_ok [OF Suc.prems(2)] by blast
  show ?case
    using it1 it2 Suc.IH [of it1' "pre1 @ [hd post1]" "tl post1" it2' "pre2 @ [hd post2]" "tl post2"] Suc.prems(3)
    by (cases post1; cases post2) auto
qed simp

lemma tree_eq_ok:
  assumes "wf_tree ops t" "node_height t < STACK_CAP" "wf_tree ops u" "node_height u < STACK_CAP"
  shows "tree_eq t u = ret (tree_items t = tree_items u)"
  unfolding tree_eq_def
  by (rule iter_eq_ok [OF iter_new_at [OF assms(1,2)] iter_new_at [OF assms(3,4)] weight_items [OF assms(1)]])

lemma items_loop_ok:
  "wf_tree ops (c_tree c) \<Longrightarrow> node_height (c_tree c) < STACK_CAP \<Longrightarrow> cursor_ok ops unit_dim c pre post \<Longrightarrow>
   length post < n \<Longrightarrow> items_loop n c = ret post"
proof (induction n arbitrary: c pre post)
  case (Suc n)
  have "cursor_item c = ret (list_first post)"
    using Suc.prems(3) by (rule cursor_ok_item)
  moreover obtain c' where "post \<noteq> [] \<longrightarrow> cursor_next unit_dim c = ret c' \<and> c_tree c' = c_tree c \<and>
      cursor_ok ops unit_dim c' (pre @ [hd post]) (tl post)"
    using unit.cursor_next_at [OF Suc.prems(1,2), of pre "hd post" "tl post"] Suc.prems(3) by (cases post) auto
  ultimately show ?case using Suc.prems Suc.IH [of c' "pre @ [hd post]" "tl post"] by (cases post) simp_all
qed simp

lemma sum_tree_items_ok:
  assumes "wf_tree ops t" "node_height t < STACK_CAP"
  shows "sum_tree_items t = ret (tree_items t)"
proof -
  obtain c where "cursor_next unit_dim (cursor_new unit_dim t) = ret c" "c_tree c = t" "cursor_ok ops unit_dim c [] (tree_items t)"
    using unit.cursor_next_fresh [of "cursor_new unit_dim t"] assms by auto
  with items_loop_ok [of c "[]" "tree_items t" "weight t"] assms weight_items [OF assms(1)] show ?thesis
    by (simp add: sum_tree_items_def)
qed

end

end
