(* ===== verification/SumTree_Keyed.thy ===== *)
theory SumTree_Keyed
  imports Cursor_Seek Cursor_Backward Cursor_Iter "HOL-Library.Multiset"
begin

text \<open>
  The operations of \<open>SumTree\<close> on items with keys: \<open>insert_or_replace\<close>, \<open>remove\<close>, \<open>edit\<close> and \<open>get\<close>.
  \<open>KeyedItem\<close> is a dictionary: the key as a dimension and as a function of the item. On a tree with
  strictly increasing keys the operations are those of a sorted list.
\<close>

record ('t, 's, 'k) keyed_ops =
  k_dim :: "('s, 'k) dim_ops"
  k_key :: "'t \<Rightarrow> 'k"

section \<open>Operations\<close>

text \<open>\<open>if let Some(item) = cursor.item() && item.key() == key\<close>, then the item is taken and the cursor moved on.\<close>

definition take_keyed ::
  "('t, 's, 'k) keyed_ops \<Rightarrow> 'k \<Rightarrow> ('t, 's, 'k) cursor \<Rightarrow> ('t option \<times> ('t, 's, 'k) cursor) rust" where
  "take_keyed kops key cursor = do {
     x \<leftarrow> cursor_item cursor;
     (case x of
        Some item \<Rightarrow>
          if k_key kops item = key then do {
            cursor' \<leftarrow> cursor_next (k_dim kops) cursor;
            ret (Some item, cursor') }
          else ret (None, cursor)
      | None \<Rightarrow> ret (None, cursor)) }"

definition insert_or_replace ::
  "('t, 's) item_ops \<Rightarrow> ('t, 's, 'k::linorder) keyed_ops \<Rightarrow> ('t, 's) sum_tree \<Rightarrow> 't \<Rightarrow>
   ('t option \<times> ('t, 's) sum_tree) rust" where
  "insert_or_replace ops kops self item = do {
     (tree, cursor) \<leftarrow>
       slice ops (k_dim kops) (ord_target (k_key kops item)) Left (cursor_new (k_dim kops) self);
     (replaced, cursor) \<leftarrow> take_keyed kops (k_key kops item) cursor;
     tree \<leftarrow> push_item ops tree item;
     (rest, _) \<leftarrow> suffix ops (k_dim kops) cursor;
     tree \<leftarrow> append_tree ops tree rest;
     ret (replaced, tree) }"

definition remove_key ::
  "('t, 's) item_ops \<Rightarrow> ('t, 's, 'k::linorder) keyed_ops \<Rightarrow> ('t, 's) sum_tree \<Rightarrow> 'k \<Rightarrow>
   ('t option \<times> ('t, 's) sum_tree) rust" where
  "remove_key ops kops self key = do {
     (tree, cursor) \<leftarrow> slice ops (k_dim kops) (ord_target key) Left (cursor_new (k_dim kops) self);
     (removed, cursor) \<leftarrow> take_keyed kops key cursor;
     (rest, _) \<leftarrow> suffix ops (k_dim kops) cursor;
     tree \<leftarrow> append_tree ops tree rest;
     ret (removed, tree) }"

datatype ('t, 'k) edit = Insert 't | Remove 'k

definition edit_key :: "('t, 's, 'k) keyed_ops \<Rightarrow> ('t, 'k) edit \<Rightarrow> 'k" where
  "edit_key kops e = (case e of Insert item \<Rightarrow> k_key kops item | Remove key \<Rightarrow> key)"

text \<open>One round of the loop of \<open>edit\<close>; the state is the cursor, the new tree, the buffer and what was removed.\<close>

definition edit_step ::
  "('t, 's) item_ops \<Rightarrow> ('t, 's, 'k::linorder) keyed_ops \<Rightarrow>
   ('t, 's, 'k) cursor \<times> ('t, 's) sum_tree \<times> 't list \<times> 't list \<Rightarrow> ('t, 'k) edit \<Rightarrow>
   (('t, 's, 'k) cursor \<times> ('t, 's) sum_tree \<times> 't list \<times> 't list) rust" where
  "edit_step ops kops st edit = (case st of (cursor, tree, buffered_items, removed) \<Rightarrow> do {
     let new_key = edit_key kops edit;
     old_item \<leftarrow> cursor_item cursor;
     (cursor, tree, buffered_items) \<leftarrow>
       (case old_item of
          Some old \<Rightarrow>
            if k_key kops old < new_key then do {
              tree \<leftarrow> tree_extend ops tree buffered_items;
              (sl, cursor) \<leftarrow> slice ops (k_dim kops) (ord_target new_key) Left cursor;
              tree \<leftarrow> append_tree ops tree sl;
              ret (cursor, tree, []) }
            else ret (cursor, tree, buffered_items)
        | None \<Rightarrow> ret (cursor, tree, buffered_items));
     (taken, cursor) \<leftarrow> take_keyed kops new_key cursor;
     ret (cursor, tree,
          (case edit of Insert item \<Rightarrow> buffered_items @ [item] | Remove _ \<Rightarrow> buffered_items),
          (case taken of Some old \<Rightarrow> removed @ [old] | None \<Rightarrow> removed)) })"

text \<open>
  \<open>sort_unstable_by_key\<close> is modelled by the stable sort: the two agree when the keys of the edits
  are distinct, and for equal keys the standard library leaves the order open.
\<close>

definition tree_edit ::
  "('t, 's) item_ops \<Rightarrow> ('t, 's, 'k::linorder) keyed_ops \<Rightarrow> ('t, 's) sum_tree \<Rightarrow> ('t, 'k) edit list \<Rightarrow>
   ('t list \<times> ('t, 's) sum_tree) rust" where
  "tree_edit ops kops self edits =
     (if edits = [] then ret ([], self)
      else do {
        let edits = sort_key (edit_key kops) edits;
        (_, cursor) \<leftarrow>
          seek (k_dim kops) (ord_target (d_zero (k_dim kops))) Left (cursor_new (k_dim kops) self);
        (cursor, tree, buffered_items, removed) \<leftarrow>
          fold_rust (edit_step ops kops) (cursor, new_tree ops, [], []) edits;
        tree \<leftarrow> tree_extend ops tree buffered_items;
        (rest, _) \<leftarrow> suffix ops (k_dim kops) cursor;
        tree \<leftarrow> append_tree ops tree rest;
        ret (removed, tree) })"

definition tree_get ::
  "('t, 's, 'k::linorder) keyed_ops \<Rightarrow> ('t, 's) sum_tree \<Rightarrow> 'k \<Rightarrow> 't option" where
  "tree_get kops self key = snd (snd (find_exact (k_dim kops) (ord_target key) Left self))"

section \<open>Sorted lists\<close>

definition sorted_keys :: "('t, 's, 'k::linorder) keyed_ops \<Rightarrow> 't list \<Rightarrow> bool" where
  "sorted_keys kops xs \<longleftrightarrow> sorted_wrt (\<lambda>a b. k_key kops a < k_key kops b) xs"

definition keys_below :: "('t, 's, 'k::linorder) keyed_ops \<Rightarrow> 'k \<Rightarrow> 't list \<Rightarrow> 't list" where
  "keys_below kops k xs = takeWhile (\<lambda>x. k_key kops x < k) xs"

definition keys_above :: "('t, 's, 'k::linorder) keyed_ops \<Rightarrow> 'k \<Rightarrow> 't list \<Rightarrow> 't list" where
  "keys_above kops k xs = dropWhile (\<lambda>x. k_key kops x \<le> k) xs"

definition keyed_find :: "('t, 's, 'k) keyed_ops \<Rightarrow> 'k \<Rightarrow> 't list \<Rightarrow> 't option" where
  "keyed_find kops k xs = find (\<lambda>x. k_key kops x = k) xs"

definition some_list :: "'a option \<Rightarrow> 'a list" where
  "some_list x = (case x of None \<Rightarrow> [] | Some a \<Rightarrow> [a])"

lemma sorted_keys_simps [simp]:
  "sorted_keys kops []"
  "sorted_keys kops (x # xs) \<longleftrightarrow> (\<forall>y \<in> set xs. k_key kops x < k_key kops y) \<and> sorted_keys kops xs"
  "sorted_keys kops (xs @ ys) \<longleftrightarrow>
     sorted_keys kops xs \<and> sorted_keys kops ys \<and> (\<forall>x \<in> set xs. \<forall>y \<in> set ys. k_key kops x < k_key kops y)"
  by (auto simp: sorted_keys_def sorted_wrt_append)

lemma keyed_find_None: "keyed_find kops k xs = None \<longleftrightarrow> (\<forall>x \<in> set xs. k_key kops x \<noteq> k)"
  unfolding keyed_find_def by (induction xs) auto

lemma find_Some_in: "find P xs = Some x \<Longrightarrow> x \<in> set xs \<and> P x"
  by (induction xs) (auto split: if_splits)

lemma keyed_find_Some: "keyed_find kops k xs = Some x \<Longrightarrow> x \<in> set xs \<and> k_key kops x = k"
  unfolding keyed_find_def by (induction xs) (auto split: if_splits)

text \<open>A sorted list splits at a key: what is below it, the item with the key if there is one, what is above.\<close>

lemma sorted_split:
  "sorted_keys kops xs \<Longrightarrow>
   dropWhile (\<lambda>x. k_key kops x < k) xs = some_list (keyed_find kops k xs) @ keys_above kops k xs"
proof (induction xs)
  case (Cons x xs)
  consider "k_key kops x < k" | "k_key kops x = k" | "k < k_key kops x" by fastforce
  then show ?case
  proof cases
    case 3
    then have "\<forall>y \<in> set (x # xs). k < k_key kops y" using Cons.prems by auto
    then have "keyed_find kops k (x # xs) = None" unfolding keyed_find_None by auto
    then show ?thesis using 3 by (auto simp: keys_above_def some_list_def)
  next
    case 2
    have "dropWhile (\<lambda>y. k_key kops y \<le> k) xs = xs" using Cons.prems 2 by (cases xs) auto
    then show ?thesis using 2 by (simp add: keyed_find_def keys_above_def some_list_def)
  qed (use Cons in \<open>auto simp: keyed_find_def keys_above_def\<close>)
qed (simp add: keyed_find_def keys_above_def some_list_def)

lemma sorted_parts:
  "sorted_keys kops xs \<Longrightarrow> xs = keys_below kops k xs @ some_list (keyed_find kops k xs) @ keys_above kops k xs"
  unfolding keys_below_def using sorted_split [of kops xs k] by (metis takeWhile_dropWhile_id)

lemma keys_below_less: "x \<in> set (keys_below kops k xs) \<Longrightarrow> k_key kops x < k"
  unfolding keys_below_def by (rule set_takeWhileD [THEN conjunct2])

lemma keys_above_greater: "sorted_keys kops xs \<Longrightarrow> x \<in> set (keys_above kops k xs) \<Longrightarrow> k < k_key kops x"
  unfolding keys_above_def by (induction xs) (auto simp: not_le split: if_splits)

text \<open>What the operations do to the sequence of items.\<close>

definition insert_spec :: "('t, 's, 'k::linorder) keyed_ops \<Rightarrow> 't \<Rightarrow> 't list \<Rightarrow> 't list" where
  "insert_spec kops item xs =
     keys_below kops (k_key kops item) xs @ item # keys_above kops (k_key kops item) xs"

definition remove_spec :: "('t, 's, 'k::linorder) keyed_ops \<Rightarrow> 'k \<Rightarrow> 't list \<Rightarrow> 't list" where
  "remove_spec kops k xs = keys_below kops k xs @ keys_above kops k xs"

lemma below_above_sorted:
  assumes "sorted_keys kops xs"
  shows "sorted_keys kops (keys_below kops k xs @ keys_above kops k xs)"
proof -
  have "sorted_keys kops (keys_below kops k xs @ some_list (keyed_find kops k xs) @ keys_above kops k xs)"
    using assms sorted_parts [OF assms, of k] by metis
  then show ?thesis by auto
qed

lemma insert_spec_sorted: "sorted_keys kops xs \<Longrightarrow> sorted_keys kops (insert_spec kops x xs)"
  using below_above_sorted [of kops xs "k_key kops x"]
  by (auto simp: insert_spec_def dest: keys_below_less keys_above_greater)

lemma remove_spec_sorted: "sorted_keys kops xs \<Longrightarrow> sorted_keys kops (remove_spec kops k xs)"
  unfolding remove_spec_def by (rule below_above_sorted)

text \<open>Seen as a map from keys to items: an insertion is a map update, a removal a restriction.\<close>

lemma keyed_find_append: "keyed_find kops k (xs @ ys) = (case keyed_find kops k xs of None \<Rightarrow> keyed_find kops k ys | r \<Rightarrow> r)"
  unfolding keyed_find_def by (induction xs) auto

lemma keyed_find_some_list: "keyed_find kops k' (some_list (keyed_find kops k xs)) = (if k' = k then keyed_find kops k xs else None)"
  by (cases "keyed_find kops k xs") (auto simp: some_list_def keyed_find_def dest: keyed_find_Some [unfolded keyed_find_def])

lemma keyed_find_Nil [simp]: "keyed_find kops k [] = None"
  by (simp add: keyed_find_def)

lemma keyed_find_Cons [simp]:
  "keyed_find kops k (x # ys) = (if k_key kops x = k then Some x else keyed_find kops k ys)"
  by (simp add: keyed_find_def)

lemma keyed_find_below:
  assumes "k' \<noteq> k" "sorted_keys kops xs"
  shows "keyed_find kops k' (keys_below kops k xs @ keys_above kops k xs) = keyed_find kops k' xs"
proof -
  have "keyed_find kops k' xs =
      keyed_find kops k' (keys_below kops k xs @ some_list (keyed_find kops k xs) @ keys_above kops k xs)"
    using sorted_parts [OF assms(2), of k] by simp
  then show ?thesis using assms(1) by (simp add: keyed_find_append keyed_find_some_list split: option.split)
qed

lemma keyed_find_gone:
  assumes "sorted_keys kops xs"
  shows "keyed_find kops k (keys_below kops k xs @ keys_above kops k xs) = None"
  using keys_below_less keys_above_greater [OF assms] by (fastforce simp: keyed_find_None)

lemma keyed_find_insert:
  assumes "sorted_keys kops xs"
  shows "keyed_find kops k (insert_spec kops x xs) = (if k = k_key kops x then Some x else keyed_find kops k xs)"
proof (cases "k = k_key kops x")
  case True
  have "keyed_find kops (k_key kops x) (keys_below kops (k_key kops x) xs) = None"
    using keys_below_less by (fastforce simp: keyed_find_None)
  with True show ?thesis by (simp add: insert_spec_def keyed_find_append)
next
  case False
  from keyed_find_below [OF False assms] False show ?thesis
    by (auto simp: insert_spec_def keyed_find_append split: option.splits)
qed

lemma keyed_find_remove:
  "sorted_keys kops xs \<Longrightarrow> keyed_find kops k' (remove_spec kops k xs) = (if k' = k then None else keyed_find kops k' xs)"
  by (simp add: remove_spec_def keyed_find_below keyed_find_gone)

text \<open>The two tests of a seek for a key.\<close>

lemma past_end_cmp:
  "past_end Left (ord_cmp a b) \<longleftrightarrow> b < a" "past_end Right (ord_cmp a b) \<longleftrightarrow> b \<le> a"
  by (auto simp: past_end_def)

section \<open>Correctness\<close>

text \<open>
  What the operations rely on of a \<open>KeyedItem\<close>: after an item the key dimension is the key of that
  item, and \<open>Key::zero\<close> is the least key.
\<close>

locale keyed_items = dimension_laws ops "k_dim kops"
  for ops :: "('t, 's) item_ops" and kops :: "('t, 's, 'k::linorder) keyed_ops" +
  assumes key_after: "d_add (k_dim kops) d (it_summary ops x) = k_key kops x"
    and zero_least: "d_zero (k_dim kops) \<le> k"
begin

lemma positions_keys: "positions ops (k_dim kops) d xs = map (k_key kops) xs"
  by (induction xs arbitrary: d) (simp_all add: key_after)

lemma passed_keys: "seek_passed ops (k_dim kops) t b d xs = takeWhile (\<lambda>x. past_end b (t (k_key kops x))) xs"
  by (induction xs arbitrary: d) (simp_all add: key_after)

lemma rest_keys: "seek_rest ops (k_dim kops) t b d xs = dropWhile (\<lambda>x. past_end b (t (k_key kops x))) xs"
  by (simp add: seek_rest_def passed_keys flip: dropWhile_eq_drop)

text \<open>A target is monotone along increasing keys when going up never leads from a hit to a miss.\<close>

definition monotone_keys :: "('k \<Rightarrow> ordering) \<Rightarrow> bool" where
  "monotone_keys t \<longleftrightarrow> (\<forall>b k k'. k < k' \<longrightarrow> in_child b (t k) \<longrightarrow> in_child b (t k'))"

lemma monotone_keys_from: "sorted_keys kops xs \<Longrightarrow> monotone_keys t \<Longrightarrow> monotone_from ops (k_dim kops) t d xs"
proof -
  assume m: "monotone_keys t"
  have "sorted_keys kops xs \<Longrightarrow> stays (\<lambda>e. in_child b (t e)) (map (k_key kops) xs)" for b
    using m by (induction xs) (auto simp: list_all_iff monotone_keys_def)
  then show "sorted_keys kops xs \<Longrightarrow> monotone_from ops (k_dim kops) t d xs"
    by (simp add: monotone_from_def positions_keys)
qed

lemma ord_target_monotone: "monotone_keys (ord_target k)"
  by (auto simp: monotone_keys_def in_child_def ord_target_def)

lemma ord_target_passed:
  "seek_passed ops (k_dim kops) (ord_target k) Left d xs = keys_below kops k xs"
  "seek_passed ops (k_dim kops) (ord_target k) Right d xs = takeWhile (\<lambda>x. k_key kops x \<le> k) xs"
  "seek_rest ops (k_dim kops) (ord_target k) Left d xs = dropWhile (\<lambda>x. k_key kops x < k) xs"
  "seek_rest ops (k_dim kops) (ord_target k) Right d xs = keys_above kops k xs"
  by (simp_all add: passed_keys rest_keys keys_below_def keys_above_def past_end_cmp ord_target_def)

lemma ord_target_zero: "ord_target k (d_zero (k_dim kops)) \<noteq> Less"
  using zero_least [of k] by (simp add: ord_target_def not_less)

text \<open>The key position of a cursor that has passed \<open>pre\<close>.\<close>

lemma dim_of_keys: "dim_of ops (k_dim kops) xs = (if xs = [] then d_zero (k_dim kops) else k_key kops (last xs))"
  by (cases xs rule: rev_cases) (simp_all add: dim_of_append key_after)

lemma take_keyed_ok:
  assumes "wf_tree ops (c_tree c)" "node_height (c_tree c) < STACK_CAP" "sorted_keys kops xs"
    and "cursor_ok ops (k_dim kops) c pre (dropWhile (\<lambda>x. k_key kops x < k) xs)"
  shows "\<exists>c'. take_keyed kops k c = ret (keyed_find kops k xs, c') \<and> c_tree c' = c_tree c \<and>
    cursor_ok ops (k_dim kops) c' (pre @ some_list (keyed_find kops k xs)) (keys_above kops k xs)"
proof -
  note ok = assms(4) [unfolded sorted_split [OF assms(3)]]
  show ?thesis
  proof (cases "keyed_find kops k xs")
    case None
    have "k_key kops x \<noteq> k" if "list_first (keys_above kops k xs) = Some x" for x
      using keys_above_greater [OF assms(3)] list_first_in_set [OF that] by fastforce
    then show ?thesis using None ok cursor_ok_item [OF ok]
      by (auto simp: take_keyed_def some_list_def split: option.split)
  next
    case (Some x)
    then have "k_key kops x = k" by (rule keyed_find_Some [THEN conjunct2])
    moreover have "cursor_ok ops (k_dim kops) c pre (x # keys_above kops k xs)" using ok Some by (simp add: some_list_def)
    ultimately show ?thesis using Some cursor_next_at [OF assms(1,2)] cursor_ok_item
      by (fastforce simp: take_keyed_def some_list_def)
  qed
qed

text \<open>The beginning \<open>insert_or_replace\<close> and \<open>remove\<close> share.\<close>

lemma slice_to_key:
  assumes "wf_tree ops self" "node_height self < STACK_CAP" "sorted_keys kops (tree_items self)"
  obtains t c c' where
    "slice ops (k_dim kops) (ord_target k) Left (cursor_new (k_dim kops) self) = ret (t, c)"
    "wf_tree ops t" "tree_items t = keys_below kops k (tree_items self)"
    "take_keyed kops k c = ret (keyed_find kops k (tree_items self), c')" "c_tree c' = self"
    "cursor_ready ops (k_dim kops) c'
       (tree_items t @ some_list (keyed_find kops k (tree_items self))) (keys_above kops k (tree_items self))"
proof -
  let ?c = "cursor_new (k_dim kops) self" and ?xs = "tree_items self"
  obtain t c where t: "slice ops (k_dim kops) (ord_target k) Left ?c = ret (t, c)" "wf_tree ops t"
      "tree_items t = keys_below kops k ?xs" "c_tree c = self"
      "cursor_ok ops (k_dim kops) c (tree_items t) (dropWhile (\<lambda>x. k_key kops x < k) ?xs)"
    using slice_ok [of ?c "[]" ?xs, OF _ _ ready_new monotone_keys_from [OF assms(3) ord_target_monotone], of k Left]
      assms ord_target_zero [of k] by (simp add: ord_target_passed) metis
  obtain c' where "take_keyed kops k c = ret (keyed_find kops k ?xs, c')" "c_tree c' = self"
      "cursor_ok ops (k_dim kops) c' (tree_items t @ some_list (keyed_find kops k ?xs)) (keys_above kops k ?xs)"
    using take_keyed_ok [of c ?xs "tree_items t" k] assms t by auto
  then show thesis using that [OF t(1-3)] by (simp add: cursor_ready_def)
qed

lemma insert_or_replace_ok:
  assumes "wf_tree ops self" "node_height self < STACK_CAP" "sorted_keys kops (tree_items self)"
  shows "\<exists>t. insert_or_replace ops kops self item = ret (keyed_find kops (k_key kops item) (tree_items self), t) \<and>
    wf_tree ops t \<and> tree_items t = insert_spec kops item (tree_items self)"
proof -
  let ?k = "k_key kops item" and ?xs = "tree_items self"
  obtain t c c' where s: "slice ops (k_dim kops) (ord_target ?k) Left (cursor_new (k_dim kops) self) = ret (t, c)"
      "wf_tree ops t" "tree_items t = keys_below kops ?k ?xs"
      "take_keyed kops ?k c = ret (keyed_find kops ?k ?xs, c')" "c_tree c' = self"
      "cursor_ready ops (k_dim kops) c' (tree_items t @ some_list (keyed_find kops ?k ?xs)) (keys_above kops ?k ?xs)"
    by (rule slice_to_key [OF assms])
  obtain t1 where t1: "push_item ops t item = ret t1" "wf_tree ops t1" "tree_items t1 = tree_items t @ [item]"
    using push_item_ok [OF s(2)] by blast
  obtain r c2 where r: "suffix ops (k_dim kops) c' = ret (r, c2)" "wf_tree ops r" "tree_items r = keys_above kops ?k ?xs"
    using suffix_ok [OF _ _ s(6)] s(5) assms by auto
  obtain t2 where "append_tree ops t1 r = ret t2" "wf_tree ops t2" "tree_items t2 = tree_items t1 @ tree_items r"
    using append_tree_ok [OF t1(2) r(2)] by blast
  then show ?thesis using s t1 r by (simp add: insert_or_replace_def insert_spec_def)
qed

lemma remove_key_ok:
  assumes "wf_tree ops self" "node_height self < STACK_CAP" "sorted_keys kops (tree_items self)"
  shows "\<exists>t. remove_key ops kops self k = ret (keyed_find kops k (tree_items self), t) \<and>
    wf_tree ops t \<and> tree_items t = remove_spec kops k (tree_items self)"
proof -
  let ?xs = "tree_items self"
  obtain t c c' where s: "slice ops (k_dim kops) (ord_target k) Left (cursor_new (k_dim kops) self) = ret (t, c)"
      "wf_tree ops t" "tree_items t = keys_below kops k ?xs"
      "take_keyed kops k c = ret (keyed_find kops k ?xs, c')" "c_tree c' = self"
      "cursor_ready ops (k_dim kops) c' (tree_items t @ some_list (keyed_find kops k ?xs)) (keys_above kops k ?xs)"
    by (rule slice_to_key [OF assms])
  obtain r c2 where r: "suffix ops (k_dim kops) c' = ret (r, c2)" "wf_tree ops r" "tree_items r = keys_above kops k ?xs"
    using suffix_ok [OF _ _ s(6)] s(5) assms by auto
  obtain t2 where "append_tree ops t r = ret t2" "wf_tree ops t2" "tree_items t2 = tree_items t @ tree_items r"
    using append_tree_ok [OF s(2) r(2)] by blast
  then show ?thesis using s r by (simp add: remove_key_def remove_spec_def)
qed

text \<open>\<open>get\<close> is an exact lookup.\<close>

lemma scan_keys:
  "snd (scan ops (k_dim kops) t b d xs) =
     map_option (\<lambda>x. (x, k_key kops x)) (list_first (dropWhile (\<lambda>x. past_end b (t (k_key kops x))) xs))"
  by (induction xs arbitrary: d) (simp_all add: scan_def key_after in_child_past_end)

lemma first_not_below:
  "sorted_keys kops xs \<Longrightarrow>
   (case list_first (dropWhile (\<lambda>x. k_key kops x < k) xs) of Some x \<Rightarrow> if k_key kops x = k then Some x else None | None \<Rightarrow> None)
     = keyed_find kops k xs"
proof (cases "keyed_find kops k xs")
  case None
  assume s: "sorted_keys kops xs"
  have "k_key kops x \<noteq> k" if "list_first (dropWhile (\<lambda>x. k_key kops x < k) xs) = Some x" for x
    using None list_first_in_set [OF that] by (auto simp: keyed_find_None dest: set_dropWhileD)
  then show ?thesis using None by (simp split: option.split)
next
  case (Some x)
  assume s: "sorted_keys kops xs"
  then show ?thesis using Some keyed_find_Some [OF Some] sorted_split [OF s, of k] by (simp add: some_list_def)
qed

lemma tree_get_ok:
  assumes "wf_tree ops self" "sorted_keys kops (tree_items self)"
  shows "tree_get kops self k = keyed_find kops k (tree_items self)"
proof (cases "is_empty self")
  case True
  then obtain s iss where "self = Leaf s [] iss" by (cases self) auto
  then show ?thesis
    by (auto simp: tree_get_def find_exact_def find_general_def keyed_find_def split: prod.split option.split)
next
  case False
  have m: "monotone_target ops (k_dim kops) (ord_target k) (tree_items self)"
    unfolding monotone_target_def by (rule monotone_keys_from [OF assms(2) ord_target_monotone])
  show ?thesis
    unfolding tree_get_def find_exact_scan [OF assms(1) m False] first_not_below [OF assms(2), of k, symmetric]
    by (simp add: exact_of_def scan_keys ord_target_def past_end_cmp eq_commute [of k] split: option.split)
qed

end

section \<open>Edits\<close>

definition edit_insertion :: "('t, 'k) edit \<Rightarrow> 't list" where
  "edit_insertion e = (case e of Insert item \<Rightarrow> [item] | Remove _ \<Rightarrow> [])"

text \<open>A merge of the sorted edits with the sorted items, and the items the edits replace or remove.\<close>

fun edit_spec :: "('t, 's, 'k::linorder) keyed_ops \<Rightarrow> ('t, 'k) edit list \<Rightarrow> 't list \<Rightarrow> 't list" where
  "edit_spec kops [] xs = xs"
| "edit_spec kops (e # es) xs = (let k = edit_key kops e in
     keys_below kops k xs @ edit_insertion e @ edit_spec kops es (keys_above kops k xs))"

fun edit_removed :: "('t, 's, 'k::linorder) keyed_ops \<Rightarrow> ('t, 'k) edit list \<Rightarrow> 't list \<Rightarrow> 't list" where
  "edit_removed kops [] xs = []"
| "edit_removed kops (e # es) xs = (let k = edit_key kops e in
     some_list (keyed_find kops k xs) @ edit_removed kops es (keys_above kops k xs))"

lemma keys_above_sorted: "sorted_keys kops xs \<Longrightarrow> sorted_keys kops (keys_above kops k xs)"
  using below_above_sorted [of kops xs k] by auto

text \<open>What sorted edits take out: the items whose keys they name, in the order of the tree.\<close>

lemma edit_removed_eq:
  "sorted_keys kops xs \<Longrightarrow> sorted_wrt (\<lambda>a b. edit_key kops a < edit_key kops b) es \<Longrightarrow>
   edit_removed kops es xs = [x\<leftarrow>xs. k_key kops x \<in> edit_key kops ` set es]"
proof (induction es arbitrary: xs)
  case (Cons e es)
  let ?k = "edit_key kops e" and ?named = "\<lambda>x. k_key kops x \<in> edit_key kops ` set (e # es)"
  have below: "[x\<leftarrow>keys_below kops ?k xs. ?named x] = []"
    using keys_below_less [of _ kops ?k xs] Cons.prems(2) by (fastforce simp: filter_empty_conv)
  have at: "[x\<leftarrow>some_list (keyed_find kops ?k xs). ?named x] = some_list (keyed_find kops ?k xs)"
    by (cases "keyed_find kops ?k xs") (simp_all add: some_list_def keyed_find_Some [THEN conjunct2])
  have above: "[x\<leftarrow>keys_above kops ?k xs. ?named x] = [x\<leftarrow>keys_above kops ?k xs. k_key kops x \<in> edit_key kops ` set es]"
    using keys_above_greater [OF Cons.prems(1), of _ ?k] by (fastforce intro: filter_cong)
  have "[x\<leftarrow>xs. ?named x] = some_list (keyed_find kops ?k xs) @ [x\<leftarrow>keys_above kops ?k xs. k_key kops x \<in> edit_key kops ` set es]"
    by (subst sorted_parts [OF Cons.prems(1), of ?k]) (simp only: filter_append below at above append_Nil)
  with Cons.IH [OF keys_above_sorted [OF Cons.prems(1)], of ?k] Cons.prems(2) show ?case by (simp add: Let_def)
qed simp

lemma edit_spec_elem: "x \<in> set (edit_spec kops es xs) \<Longrightarrow> x \<in> set xs \<or> Insert x \<in> set es"
proof (induction es arbitrary: xs)
  case (Cons e es)
  then show ?case
    by (auto simp: keys_below_def keys_above_def edit_insertion_def split: edit.splits dest: set_takeWhileD set_dropWhileD)
qed simp

text \<open>The edits seen as a map update: for edits with distinct keys the last word on a key is its edit.\<close>

definition edit_result :: "('t, 's, 'k) keyed_ops \<Rightarrow> ('t, 'k) edit list \<Rightarrow> 'k \<Rightarrow> 't option \<Rightarrow> 't option" where
  "edit_result kops es k old =
     (case find (\<lambda>e. edit_key kops e = k) es of
        Some (Insert item) \<Rightarrow> Some item | Some (Remove _) \<Rightarrow> None | None \<Rightarrow> old)"

lemma edit_spec_above:
  assumes "sorted_keys kops xs" "\<forall>e' \<in> set es. edit_key kops e < edit_key kops e'"
    and "x \<in> set (edit_spec kops es (keys_above kops (edit_key kops e) xs))"
  shows "edit_key kops e < k_key kops x"
  using edit_spec_elem [OF assms(3)]
proof
  assume "Insert x \<in> set es"
  then show ?thesis using assms(2) by (auto simp: edit_key_def)
qed (rule keys_above_greater [OF assms(1)])

lemma edit_insertion_key: "x \<in> set (edit_insertion e) \<Longrightarrow> k_key kops x = edit_key kops e"
  by (cases e) (simp_all add: edit_insertion_def edit_key_def)

lemma edit_spec_sorted:
  "sorted_keys kops xs \<Longrightarrow> sorted_wrt (\<lambda>a b. edit_key kops a < edit_key kops b) es \<Longrightarrow> sorted_keys kops (edit_spec kops es xs)"
proof (induction es arbitrary: xs)
  case (Cons e es)
  let ?k = "edit_key kops e"
  have rest: "sorted_keys kops (edit_spec kops es (keys_above kops ?k xs))"
    using Cons.IH keys_above_sorted [OF Cons.prems(1)] Cons.prems(2) by simp
  have above: "?k < k_key kops x" if "x \<in> set (edit_spec kops es (keys_above kops ?k xs))" for x
    using edit_spec_above [OF Cons.prems(1) _ that] Cons.prems(2) by simp
  have below: "sorted_keys kops (keys_below kops ?k xs)" using below_above_sorted [OF Cons.prems(1), of ?k] by simp
  have "sorted_keys kops (edit_insertion e)" by (cases e) (simp_all add: edit_insertion_def)
  moreover have "k_key kops x < k_key kops y" if "x \<in> set (keys_below kops ?k xs)"
      "y \<in> set (edit_insertion e) \<union> set (edit_spec kops es (keys_above kops ?k xs))" for x y
    using keys_below_less [OF that(1)] that(2) above edit_insertion_key [of y e kops] by (auto intro: less_trans)
  ultimately show ?case using rest above below edit_insertion_key [of _ e kops] by auto
qed simp

lemma edit_spec_find:
  "sorted_keys kops xs \<Longrightarrow> sorted_wrt (\<lambda>a b. edit_key kops a < edit_key kops b) es \<Longrightarrow>
   keyed_find kops k (edit_spec kops es xs) = edit_result kops es k (keyed_find kops k xs)"
proof (induction es arbitrary: xs)
  case (Cons e es)
  let ?k = "edit_key kops e" and ?rest = "edit_spec kops es (keys_above kops (edit_key kops e) xs)"
  have IH: "keyed_find kops k ?rest = edit_result kops es k (keyed_find kops k (keys_above kops ?k xs))"
    using Cons.IH keys_above_sorted [OF Cons.prems(1)] Cons.prems(2) by simp
  have split: "keyed_find kops k (edit_spec kops (e # es) xs) =
      (case keyed_find kops k (keys_below kops ?k xs) of Some x \<Rightarrow> Some x
       | None \<Rightarrow> (case keyed_find kops k (edit_insertion e) of Some x \<Rightarrow> Some x | None \<Rightarrow> keyed_find kops k ?rest))"
    by (simp add: keyed_find_append split: option.split)
  show ?case
  proof (cases "k = ?k")
    case True
    have "keyed_find kops k (keys_below kops ?k xs) = None" "keyed_find kops k ?rest = None"
      using keys_below_less [of _ kops ?k xs] edit_spec_above [OF Cons.prems(1)] Cons.prems(2) True
      by (fastforce simp: keyed_find_None)+
    then show ?thesis unfolding split using True
      by (cases e) (simp_all add: edit_insertion_def edit_result_def edit_key_def)
  next
    case False
    have "keyed_find kops k (edit_insertion e) = None"
      using False edit_insertion_key [of _ e kops] by (auto simp: keyed_find_None)
    moreover have "edit_result kops (e # es) k old = edit_result kops es k old" for old
      using False by (simp add: edit_result_def)
    moreover have "keyed_find kops k (keys_below kops ?k xs @ keys_above kops ?k xs) = keyed_find kops k xs"
      using False Cons.prems(1) by (intro keyed_find_below)
    moreover have "find (\<lambda>e'. edit_key kops e' = k) es = None" if "k < ?k"
      using that Cons.prems(2) by (fastforce simp: find_None_iff)
    moreover have "keyed_find kops k (keys_below kops ?k xs) = None" if "\<not> k < ?k"
      using that keys_below_less [of _ kops ?k xs] by (fastforce simp: keyed_find_None)
    moreover have "keyed_find kops k (keys_above kops ?k xs) = None" if "k < ?k"
      using that keys_above_greater [OF Cons.prems(1)] by (fastforce simp: keyed_find_None)
    ultimately show ?thesis unfolding split IH
      by (cases "k < ?k") (auto simp: keyed_find_append edit_result_def split: option.splits)
  qed
qed (simp add: edit_result_def)

lemma distinct_sorted_edits:
  "distinct (map (edit_key kops) es) \<Longrightarrow>
   sorted_wrt (\<lambda>a b. edit_key kops a < edit_key kops b) (sort_key (edit_key kops) es)"
proof -
  assume d: "distinct (map (edit_key kops) es)"
  have "mset (map (edit_key kops) (sort_key (edit_key kops) es)) = mset (map (edit_key kops) es)" by simp
  then have "distinct (map (edit_key kops) (sort_key (edit_key kops) es))"
    using d mset_eq_imp_distinct_iff by blast
  then have "sorted_wrt (<) (map (edit_key kops) (sort_key (edit_key kops) es))"
    using strict_sorted_iff sorted_sort_key by blast
  then show ?thesis by (simp add: sorted_wrt_map)
qed

lemma find_sorted_edits:
  assumes "distinct (map (edit_key kops) es)"
  shows "edit_result kops (sort_key (edit_key kops) es) k old = edit_result kops es k old"
proof -
  have same: "a = b" if "a \<in> set es" "b \<in> set es" "edit_key kops a = edit_key kops b" for a b
    using assms that by (simp add: distinct_map inj_on_def)
  have "find (\<lambda>e. edit_key kops e = k) (sort_key (edit_key kops) es) = find (\<lambda>e. edit_key kops e = k) es"
  proof (cases "find (\<lambda>e. edit_key kops e = k) es")
    case None
    then have "find (\<lambda>e. edit_key kops e = k) (sort_key (edit_key kops) es) = None" by (simp add: find_None_iff)
    with None show ?thesis by simp
  next
    case (Some e)
    then have e: "e \<in> set es" "edit_key kops e = k" by (auto dest: find_Some_in)
    then have "find (\<lambda>e. edit_key kops e = k) (sort_key (edit_key kops) es) \<noteq> None" by (auto simp: find_None_iff)
    then obtain e' where e': "find (\<lambda>e. edit_key kops e = k) (sort_key (edit_key kops) es) = Some e'" by auto
    then have "e' \<in> set (sort_key (edit_key kops) es)" "edit_key kops e' = k"
      by (auto dest: find_Some_in)
    with same e have "e' = e" by simp
    with e' Some show ?thesis by simp
  qed
  then show ?thesis by (simp add: edit_result_def)
qed

context keyed_items
begin

lemma edit_advance:
  assumes "wf_tree ops (c_tree c)" "node_height (c_tree c) < STACK_CAP" "wf_tree ops tree"
    and "cursor_ok ops (k_dim kops) c pre post" "sorted_keys kops post" "\<forall>x \<in> set pre. k_key kops x \<le> k"
  shows "\<exists>c' tree' buf'.
    (case list_first post of
          Some old \<Rightarrow>
            if k_key kops old < k then do {
              tree \<leftarrow> tree_extend ops tree buf;
              (sl, cursor) \<leftarrow> slice ops (k_dim kops) (ord_target k) Left c;
              tree \<leftarrow> append_tree ops tree sl;
              ret (cursor, tree, []) }
            else ret (c, tree, buf)
        | None \<Rightarrow> ret (c, tree, buf)) = ret (c', tree', buf') \<and>
    c_tree c' = c_tree c \<and> wf_tree ops tree' \<and>
    tree_items tree' @ buf' = tree_items tree @ buf @ keys_below kops k post \<and>
    cursor_ok ops (k_dim kops) c' (pre @ keys_below kops k post) (dropWhile (\<lambda>x. k_key kops x < k) post)"
proof (cases "\<exists>x. list_first post = Some x \<and> k_key kops x < k")
  case True
  then obtain x where x: "list_first post = Some x" "k_key kops x < k" by auto
  obtain t1 where t1: "tree_extend ops tree buf = ret t1" "wf_tree ops t1" "tree_items t1 = tree_items tree @ buf"
    using extend_ok [OF assms(3)] by blast
  have pos: "ord_target k (dim_of ops (k_dim kops) pre) \<noteq> Less"
    using zero_least [of k] assms(6) by (auto simp: ord_target_def dim_of_keys not_less)
  have r: "cursor_ready ops (k_dim kops) c pre post" using assms(4) by (simp add: cursor_ready_def)
  obtain sl c' where sl: "slice ops (k_dim kops) (ord_target k) Left c = ret (sl, c')" "wf_tree ops sl"
      "tree_items sl = keys_below kops k post" "c_tree c' = c_tree c"
      "cursor_ok ops (k_dim kops) c' (pre @ keys_below kops k post) (dropWhile (\<lambda>x. k_key kops x < k) post)"
    using slice_ok [OF assms(1,2) r monotone_keys_from [OF assms(5) ord_target_monotone] pos, of Left]
    by (auto simp: ord_target_passed)
  obtain t2 where "append_tree ops t1 sl = ret t2" "wf_tree ops t2" "tree_items t2 = tree_items t1 @ tree_items sl"
    using append_tree_ok [OF t1(2) sl(2)] by blast
  then show ?thesis using x t1 sl by simp
next
  case False
  then have "keys_below kops k post = []" "dropWhile (\<lambda>x. k_key kops x < k) post = post"
    by (cases post; simp add: keys_below_def)+
  moreover have "(case list_first post of Some old \<Rightarrow> if k_key kops old < k then A else B | None \<Rightarrow> B) = B"
    for A B :: "(('t, 's, 'k) cursor \<times> ('t, 's) sum_tree \<times> 't list) rust"
    using False by (auto split: option.split)
  ultimately show ?thesis using assms(3,4) by simp
qed

lemma edit_step_ok:
  assumes "wf_tree ops (c_tree c)" "node_height (c_tree c) < STACK_CAP" "wf_tree ops tree"
    and "cursor_ok ops (k_dim kops) c pre post" "sorted_keys kops post" "\<forall>x \<in> set pre. k_key kops x \<le> edit_key kops e"
  shows "\<exists>c' tree' buf'. edit_step ops kops (c, tree, buf, rem) e =
      ret (c', tree', buf', rem @ some_list (keyed_find kops (edit_key kops e) post)) \<and>
    c_tree c' = c_tree c \<and> wf_tree ops tree' \<and>
    tree_items tree' @ buf' = tree_items tree @ buf @ keys_below kops (edit_key kops e) post @ edit_insertion e \<and>
    cursor_ok ops (k_dim kops) c' (pre @ keys_below kops (edit_key kops e) post @
      some_list (keyed_find kops (edit_key kops e) post)) (keys_above kops (edit_key kops e) post)"
proof -
  let ?k = "edit_key kops e"
  obtain c1 tree1 buf1 where adv: "(case list_first post of
          Some old \<Rightarrow>
            if k_key kops old < ?k then do {
              tree \<leftarrow> tree_extend ops tree buf;
              (sl, cursor) \<leftarrow> slice ops (k_dim kops) (ord_target ?k) Left c;
              tree \<leftarrow> append_tree ops tree sl;
              ret (cursor, tree, []) }
            else ret (c, tree, buf)
        | None \<Rightarrow> ret (c, tree, buf)) = ret (c1, tree1, buf1)"
      and c1: "c_tree c1 = c_tree c" "wf_tree ops tree1"
        "tree_items tree1 @ buf1 = tree_items tree @ buf @ keys_below kops ?k post"
        "cursor_ok ops (k_dim kops) c1 (pre @ keys_below kops ?k post) (dropWhile (\<lambda>x. k_key kops x < ?k) post)"
    using edit_advance [OF assms, of buf] by blast
  obtain c2 where c2: "take_keyed kops ?k c1 = ret (keyed_find kops ?k post, c2)" "c_tree c2 = c_tree c1"
      "cursor_ok ops (k_dim kops) c2 ((pre @ keys_below kops ?k post) @ some_list (keyed_find kops ?k post))
         (keys_above kops ?k post)"
    using take_keyed_ok [OF _ _ assms(5) c1(4)] c1(1) assms(1,2) by auto
  have "edit_step ops kops (c, tree, buf, rem) e =
      ret (c2, tree1, buf1 @ edit_insertion e, rem @ some_list (keyed_find kops ?k post))"
    unfolding edit_step_def prod.case Let_def cursor_ok_item [OF assms(4)] bind.bind_lunit adv using c2(1)
    by (simp add: some_list_def edit_insertion_def split: option.split edit.split)
  then show ?thesis using c1 c2 by (auto simp flip: append_assoc)
qed

lemma edit_fold_ok:
  "wf_tree ops (c_tree c) \<Longrightarrow> node_height (c_tree c) < STACK_CAP \<Longrightarrow> wf_tree ops tree \<Longrightarrow>
   cursor_ok ops (k_dim kops) c pre post \<Longrightarrow> sorted_keys kops post \<Longrightarrow>
   sorted_wrt (\<lambda>a b. edit_key kops a \<le> edit_key kops b) es \<Longrightarrow>
   (\<forall>x \<in> set pre. \<forall>e \<in> set es. k_key kops x \<le> edit_key kops e) \<Longrightarrow>
   \<exists>c' tree' buf' pre' post'. fold_rust (edit_step ops kops) (c, tree, buf, rem) es =
      ret (c', tree', buf', rem @ edit_removed kops es post) \<and> c_tree c' = c_tree c \<and> wf_tree ops tree' \<and>
    cursor_ok ops (k_dim kops) c' pre' post' \<and>
    tree_items tree' @ buf' @ post' = tree_items tree @ buf @ edit_spec kops es post"
proof (induction es arbitrary: c tree buf rem pre post)
  case (Cons e es)
  let ?k = "edit_key kops e"
  obtain c1 tree1 buf1 where step: "edit_step ops kops (c, tree, buf, rem) e =
        ret (c1, tree1, buf1, rem @ some_list (keyed_find kops ?k post))"
      and c1: "c_tree c1 = c_tree c" "wf_tree ops tree1"
        "tree_items tree1 @ buf1 = tree_items tree @ buf @ keys_below kops ?k post @ edit_insertion e"
        "cursor_ok ops (k_dim kops) c1 (pre @ keys_below kops ?k post @ some_list (keyed_find kops ?k post))
           (keys_above kops ?k post)"
    using edit_step_ok [OF Cons.prems(1-5), of e buf rem] Cons.prems(7) by auto
  have "\<forall>x \<in> set (pre @ keys_below kops ?k post @ some_list (keyed_find kops ?k post)). \<forall>e' \<in> set es. k_key kops x \<le> edit_key kops e'"
  proof (intro ballI)
    fix x e' assume x: "x \<in> set (pre @ keys_below kops ?k post @ some_list (keyed_find kops ?k post))" and e': "e' \<in> set es"
    have "k_key kops y = ?k" if "y \<in> set (some_list (keyed_find kops ?k post))" for y
      using that keyed_find_Some [of kops ?k post y] by (cases "keyed_find kops ?k post") (simp_all add: some_list_def)
    with x have "k_key kops x \<le> ?k" using Cons.prems(7) keys_below_less [of x kops ?k post] by (auto intro: less_imp_le)
    also have "?k \<le> edit_key kops e'" using Cons.prems(6) e' by simp
    finally show "k_key kops x \<le> edit_key kops e'" .
  qed
  moreover have "wf_tree ops (c_tree c1)" "node_height (c_tree c1) < STACK_CAP"
      "sorted_wrt (\<lambda>a b. edit_key kops a \<le> edit_key kops b) es" using Cons.prems(1,2,6) c1(1) by simp_all
  ultimately obtain c' tree' buf' pre' post' where
      "fold_rust (edit_step ops kops) (c1, tree1, buf1, rem @ some_list (keyed_find kops ?k post)) es =
        ret (c', tree', buf', (rem @ some_list (keyed_find kops ?k post)) @ edit_removed kops es (keys_above kops ?k post))"
      "c_tree c' = c_tree c1" "wf_tree ops tree'" "cursor_ok ops (k_dim kops) c' pre' post'"
      "tree_items tree' @ buf' @ post' = tree_items tree1 @ buf1 @ edit_spec kops es (keys_above kops ?k post)"
    using Cons.IH [OF _ _ c1(2,4) keys_above_sorted [OF Cons.prems(5)]] by metis
  moreover have "tree_items tree1 @ buf1 @ ys = tree_items tree @ buf @ keys_below kops ?k post @ edit_insertion e @ ys" for ys
    using c1(3) by (metis append_assoc)
  ultimately show ?case using step c1(1)
    by (intro exI [of _ c'] exI [of _ tree'] exI [of _ buf'] exI [of _ pre'] exI [of _ post']) simp
qed auto

lemma tree_edit_ok:
  assumes "wf_tree ops self" "node_height self < STACK_CAP" "sorted_keys kops (tree_items self)"
  shows "\<exists>t. tree_edit ops kops self edits =
      ret (edit_removed kops (sort_key (edit_key kops) edits) (tree_items self), t) \<and>
    wf_tree ops t \<and> tree_items t = edit_spec kops (sort_key (edit_key kops) edits) (tree_items self)"
proof (cases "edits = []")
  case False
  let ?es = "sort_key (edit_key kops) edits" and ?c = "cursor_new (k_dim kops) self" and ?xs = "tree_items self"
  have es: "sorted_wrt (\<lambda>a b. edit_key kops a \<le> edit_key kops b) ?es"
    using sorted_sort_key [of "edit_key kops" edits] by (simp add: sorted_wrt_map)
  have "keys_below kops (d_zero (k_dim kops)) ?xs = []"
    using zero_least by (cases ?xs) (simp_all add: keys_below_def not_less)
  moreover from this have "dropWhile (\<lambda>x. k_key kops x < d_zero (k_dim kops)) ?xs = ?xs"
    unfolding keys_below_def by (metis append_Nil takeWhile_dropWhile_id)
  moreover have "monotone_target ops (k_dim kops) (ord_target (d_zero (k_dim kops))) ?xs"
    unfolding monotone_target_def by (rule monotone_keys_from [OF assms(3) ord_target_monotone])
  ultimately obtain b c where c: "seek (k_dim kops) (ord_target (d_zero (k_dim kops))) Left ?c = ret (b, c)"
      "c_tree c = self" "cursor_ok ops (k_dim kops) c [] ?xs"
    using seek_ok [of ?c "ord_target (d_zero (k_dim kops))" Left] assms(1,2) ord_target_zero by (auto simp: ord_target_passed)
  obtain c' t buf pre post where f: "fold_rust (edit_step ops kops) (c, new_tree ops, [], []) ?es =
        ret (c', t, buf, edit_removed kops ?es ?xs)" "c_tree c' = self" "wf_tree ops t"
      "cursor_ok ops (k_dim kops) c' pre post" "tree_items t @ buf @ post = edit_spec kops ?es ?xs"
    using edit_fold_ok [of c "new_tree ops" "[]" ?xs ?es "[]" "[]"] c assms es by auto
  obtain t1 where t1: "tree_extend ops t buf = ret t1" "wf_tree ops t1" "tree_items t1 = tree_items t @ buf"
    using extend_ok [OF f(3)] by blast
  have "cursor_ready ops (k_dim kops) c' pre post" using f(4) by (simp add: cursor_ready_def)
  then obtain r c2 where r: "suffix ops (k_dim kops) c' = ret (r, c2)" "wf_tree ops r" "tree_items r = post"
    using suffix_ok f(2) assms(1,2) by blast
  obtain t2 where "append_tree ops t1 r = ret t2" "wf_tree ops t2" "tree_items t2 = tree_items t1 @ tree_items r"
    using append_tree_ok [OF t1(2) r(2)] by blast
  then show ?thesis using False c(1) f(1,5) t1 r by (simp add: tree_edit_def)
qed (use assms in \<open>simp add: tree_edit_def\<close>)

end

end
