(* ===== verification/TreeMap.thy ===== *)
theory TreeMap
  imports SumTree_Keyed "HOL-Library.Option_ord"
begin

text \<open>
  The ordered map of \<open>crates/sum_tree/src/tree_map.rs\<close>: a \<open>SumTree\<close> of entries whose summary is the
  last key (\<open>MapKey\<close>, an option that is \<open>None\<close> on the empty sequence). The contract of keyed items is
  interpreted on the entries, so the operations refine those of a finite map (\<open>map_view\<close>).
\<close>

section \<open>Entries and keys\<close>

record ('k, 'v) map_entry =
  me_key :: 'k
  me_value :: 'v

text \<open>\<open>MapKey<K>(Option<K>)\<close> and \<open>MapKeyRef(Option<&K>)\<close>, with the derived order: \<open>None\<close> is least.\<close>

type_synonym 'k map_key = "'k option"

type_synonym ('k, 'v) tree_map = "(('k, 'v) map_entry, 'k map_key) sum_tree"

definition map_ops :: "(('k, 'v) map_entry, 'k map_key) item_ops" where
  "map_ops = \<lparr>it_summary = (\<lambda>e. Some (me_key e)), s_zero = None, s_add = (\<lambda>_ summary. summary)\<rparr>"

definition map_keyed :: "(('k, 'v) map_entry, 'k map_key, 'k map_key) keyed_ops" where
  "map_keyed = \<lparr>k_dim = summary_dim (map_ops :: (('k, 'v) map_entry, 'k map_key) item_ops),
     k_key = (\<lambda>e. Some (me_key e))\<rparr>"

definition map_key_ref_dim :: "('k map_key, 'k map_key) dim_ops" where
  "map_key_ref_dim = \<lparr>d_zero = None, d_add = (\<lambda>_ summary. summary)\<rparr>"

text \<open>\<open>SeekTarget for MapKeyRef\<close>, and the adaptor of a \<open>MapSeekTarget\<close> (a comparison with keys).\<close>

definition map_key_ref_target :: "'k::linorder map_key \<Rightarrow> 'k map_key \<Rightarrow> ordering" where
  "map_key_ref_target self cursor_location = ord_cmp self cursor_location"

definition map_seek_target :: "('k \<Rightarrow> ordering) \<Rightarrow> 'k map_key \<Rightarrow> ordering" where
  "map_seek_target cmp_cursor cursor_location =
     (case cursor_location of Some key \<Rightarrow> cmp_cursor key | None \<Rightarrow> Greater)"

section \<open>Operations\<close>

definition tm_new :: "('k, 'v) tree_map" where
  "tm_new = new_tree map_ops"

definition tm_from_ordered_entries :: "('k \<times> 'v) list \<Rightarrow> ('k, 'v) tree_map rust" where
  "tm_from_ordered_entries entries =
     from_iter map_ops (map (\<lambda>(key, v). \<lparr>me_key = key, me_value = v\<rparr>) entries)"

definition tm_is_empty :: "('k, 'v) tree_map \<Rightarrow> bool" where
  "tm_is_empty self = is_empty self"

definition tm_get :: "('k::linorder, 'v) tree_map \<Rightarrow> 'k \<Rightarrow> 'v option" where
  "tm_get self key =
     (case snd (snd (tree_find map_key_ref_dim (map_key_ref_target (Some key)) Left self)) of
        Some item \<Rightarrow> if Some key = k_key map_keyed item then Some (me_value item) else None
      | None \<Rightarrow> None)"

definition tm_contains_key :: "('k::linorder, 'v) tree_map \<Rightarrow> 'k \<Rightarrow> bool" where
  "tm_contains_key self key = (tm_get self key \<noteq> None)"

definition tm_insert :: "('k::linorder, 'v) tree_map \<Rightarrow> 'k \<Rightarrow> 'v \<Rightarrow> ('k, 'v) tree_map rust" where
  "tm_insert self key v = do {
     (_, tree) \<leftarrow> insert_or_replace map_ops map_keyed self \<lparr>me_key = key, me_value = v\<rparr>;
     ret tree }"

definition tm_insert_or_replace ::
  "('k::linorder, 'v) tree_map \<Rightarrow> 'k \<Rightarrow> 'v \<Rightarrow> ('v option \<times> ('k, 'v) tree_map) rust" where
  "tm_insert_or_replace self key v = do {
     (replaced, tree) \<leftarrow> insert_or_replace map_ops map_keyed self \<lparr>me_key = key, me_value = v\<rparr>;
     ret (map_option me_value replaced, tree) }"

definition tm_extend :: "('k::linorder, 'v) tree_map \<Rightarrow> ('k \<times> 'v) list \<Rightarrow> ('k, 'v) tree_map rust" where
  "tm_extend self entries = do {
     (_, tree) \<leftarrow> tree_edit map_ops map_keyed self
       (map (\<lambda>(key, v). Insert \<lparr>me_key = key, me_value = v\<rparr>) entries);
     ret tree }"

definition tm_clear :: "('k, 'v) tree_map \<Rightarrow> ('k, 'v) tree_map" where
  "tm_clear self = new_tree map_ops"

text \<open>\<open>remove\<close> compares the key with the end of the cursor, then unwraps the item.\<close>

definition tm_remove :: "('k::linorder, 'v) tree_map \<Rightarrow> 'k \<Rightarrow> ('v option \<times> ('k, 'v) tree_map) rust" where
  "tm_remove self key = do {
     (tree, cursor) \<leftarrow>
       slice map_ops map_key_ref_dim (map_key_ref_target (Some key)) Left (cursor_new map_key_ref_dim self);
     end_pos \<leftarrow> cursor_end map_key_ref_dim cursor;
     (removed, cursor) \<leftarrow>
       (if map_key_ref_target (Some key) end_pos = Equal then do {
          found \<leftarrow> cursor_item cursor;
          item \<leftarrow> found;
          cursor' \<leftarrow> cursor_next map_key_ref_dim cursor;
          ret (Some (me_value item), cursor') }
        else ret (None, cursor));
     (rest, _) \<leftarrow> suffix map_ops map_key_ref_dim cursor;
     tree \<leftarrow> append_tree map_ops tree rest;
     ret (removed, tree) }"

definition tm_remove_range ::
  "('k::linorder, 'v) tree_map \<Rightarrow> ('k \<Rightarrow> ordering) \<Rightarrow> ('k \<Rightarrow> ordering) \<Rightarrow> ('k, 'v) tree_map rust" where
  "tm_remove_range self start stop = do {
     (tree, cursor) \<leftarrow> slice map_ops map_key_ref_dim (map_seek_target start) Left (cursor_new map_key_ref_dim self);
     (_, cursor) \<leftarrow> seek map_key_ref_dim (map_seek_target stop) Left cursor;
     (rest, _) \<leftarrow> suffix map_ops map_key_ref_dim cursor;
     append_tree map_ops tree rest }"

definition tm_closest :: "('k::linorder, 'v) tree_map \<Rightarrow> 'k \<Rightarrow> ('k \<times> 'v) option rust" where
  "tm_closest self key = do {
     (_, cursor) \<leftarrow> seek map_key_ref_dim (map_key_ref_target (Some key)) Right (cursor_new map_key_ref_dim self);
     cursor \<leftarrow> cursor_prev map_key_ref_dim cursor;
     found \<leftarrow> cursor_item cursor;
     ret (map_option (\<lambda>item. (me_key item, me_value item)) found) }"

text \<open>Running \<open>Iterator for Cursor\<close> to its end; out of fuel is a panic.\<close>

fun cursor_collect :: "('s, 'd) dim_ops \<Rightarrow> nat \<Rightarrow> ('t, 's, 'd) cursor \<Rightarrow> 't list rust" where
  "cursor_collect dim 0 cursor = panic"
| "cursor_collect dim (Suc n) cursor = do {
     (x, cursor') \<leftarrow> cursor_iter_next dim cursor;
     (case x of None \<Rightarrow> ret [] | Some item \<Rightarrow> do { rest \<leftarrow> cursor_collect dim n cursor'; ret (item # rest) }) }"

definition tm_iter_from :: "('k::linorder, 'v) tree_map \<Rightarrow> 'k \<Rightarrow> ('k \<times> 'v) list rust" where
  "tm_iter_from self from_key = do {
     (_, cursor) \<leftarrow> seek map_key_ref_dim (map_key_ref_target (Some from_key)) Left (cursor_new map_key_ref_dim self);
     items \<leftarrow> cursor_collect map_key_ref_dim (weight self) cursor;
     ret (map (\<lambda>item. (me_key item, me_value item)) items) }"

definition tm_update ::
  "('k::linorder, 'v) tree_map \<Rightarrow> 'k \<Rightarrow> ('v \<Rightarrow> 'v \<times> 'r) \<Rightarrow> ('r option \<times> ('k, 'v) tree_map) rust" where
  "tm_update self key f = do {
     (tree, cursor) \<leftarrow>
       slice map_ops map_key_ref_dim (map_key_ref_target (Some key)) Left (cursor_new map_key_ref_dim self);
     end_pos \<leftarrow> cursor_end map_key_ref_dim cursor;
     (result, tree, cursor) \<leftarrow>
       (if map_key_ref_target (Some key) end_pos = Equal then do {
          found \<leftarrow> cursor_item cursor;
          item \<leftarrow> found;
          let (v, r) = f (me_value item);
          tree' \<leftarrow> push_item map_ops tree (item\<lparr>me_value := v\<rparr>);
          cursor' \<leftarrow> cursor_next map_key_ref_dim cursor;
          ret (Some r, tree', cursor') }
        else ret (None, tree, cursor));
     (rest, _) \<leftarrow> suffix map_ops map_key_ref_dim cursor;
     tree \<leftarrow> append_tree map_ops tree rest;
     ret (result, tree) }"

fun retain_loop ::
  "('k \<Rightarrow> 'v \<Rightarrow> bool) \<Rightarrow> nat \<Rightarrow> (('k, 'v) map_entry, 'k map_key, 'k map_key) cursor \<Rightarrow> ('k, 'v) tree_map \<Rightarrow>
   ('k, 'v) tree_map rust" where
  "retain_loop predicate 0 cursor new_map = panic"
| "retain_loop predicate (Suc n) cursor new_map = do {
     found \<leftarrow> cursor_item cursor;
     (case found of
        None \<Rightarrow> ret new_map
      | Some item \<Rightarrow> do {
          new_map' \<leftarrow> (if predicate (me_key item) (me_value item) then push_item map_ops new_map item else ret new_map);
          cursor' \<leftarrow> cursor_next map_key_ref_dim cursor;
          retain_loop predicate n cursor' new_map' }) }"

definition tm_retain :: "('k, 'v) tree_map \<Rightarrow> ('k \<Rightarrow> 'v \<Rightarrow> bool) \<Rightarrow> ('k, 'v) tree_map rust" where
  "tm_retain self predicate = do {
     cursor \<leftarrow> cursor_next map_key_ref_dim (cursor_new map_key_ref_dim self);
     retain_loop predicate (weight self) cursor (new_tree map_ops) }"

definition tm_iter :: "('k, 'v) tree_map \<Rightarrow> ('k \<times> 'v) list rust" where
  "tm_iter self = do {
     entries \<leftarrow> iter_collect (weight self) (iter_new self);
     ret (map (\<lambda>entry. (me_key entry, me_value entry)) entries) }"

definition tm_values :: "('k, 'v) tree_map \<Rightarrow> 'v list rust" where
  "tm_values self = do {
     entries \<leftarrow> iter_collect (weight self) (iter_new self);
     ret (map me_value entries) }"

definition tm_first :: "('k, 'v) tree_map \<Rightarrow> ('k \<times> 'v) option rust" where
  "tm_first self = do { x \<leftarrow> tree_first self; ret (map_option (\<lambda>entry. (me_key entry, me_value entry)) x) }"

definition tm_last :: "('k, 'v) tree_map \<Rightarrow> ('k \<times> 'v) option rust" where
  "tm_last self = do { x \<leftarrow> tree_last self; ret (map_option (\<lambda>entry. (me_key entry, me_value entry)) x) }"

definition tm_insert_tree ::
  "('k::linorder, 'v) tree_map \<Rightarrow> ('k, 'v) tree_map \<Rightarrow> ('k, 'v) tree_map rust" where
  "tm_insert_tree self other = do {
     entries \<leftarrow> tm_iter other;
     (_, tree) \<leftarrow> tree_edit map_ops map_keyed self
       (map (\<lambda>(key, v). Insert \<lparr>me_key = key, me_value = v\<rparr>) entries);
     ret tree }"

section \<open>TreeSet\<close>

type_synonym 'k tree_set = "('k, unit) tree_map"

definition ts_from_ordered_entries :: "'k list \<Rightarrow> 'k tree_set rust" where
  "ts_from_ordered_entries entries = tm_from_ordered_entries (map (\<lambda>key. (key, ())) entries)"

definition ts_is_empty :: "'k tree_set \<Rightarrow> bool" where
  "ts_is_empty self = tm_is_empty self"

definition ts_insert :: "'k::linorder tree_set \<Rightarrow> 'k \<Rightarrow> 'k tree_set rust" where
  "ts_insert self key = tm_insert self key ()"

definition ts_remove :: "'k::linorder tree_set \<Rightarrow> 'k \<Rightarrow> (bool \<times> 'k tree_set) rust" where
  "ts_remove self key = do { (removed, tree) \<leftarrow> tm_remove self key; ret (removed \<noteq> None, tree) }"

definition ts_extend :: "'k::linorder tree_set \<Rightarrow> 'k list \<Rightarrow> 'k tree_set rust" where
  "ts_extend self entries = tm_extend self (map (\<lambda>key. (key, ())) entries)"

definition ts_contains :: "'k::linorder tree_set \<Rightarrow> 'k \<Rightarrow> bool" where
  "ts_contains self key = (tm_get self key \<noteq> None)"

definition ts_iter :: "'k tree_set \<Rightarrow> 'k list rust" where
  "ts_iter self = do { entries \<leftarrow> tm_iter self; ret (map fst entries) }"

definition ts_iter_from :: "'k::linorder tree_set \<Rightarrow> 'k \<Rightarrow> 'k list rust" where
  "ts_iter_from self key = do { entries \<leftarrow> tm_iter_from self key; ret (map fst entries) }"

context dimension_laws
begin

lemma cursor_collect_ok:
  "wf_tree ops (c_tree c) \<Longrightarrow> node_height (c_tree c) < STACK_CAP \<Longrightarrow> cursor_ok ops dim c pre post \<Longrightarrow>
   length post < n \<Longrightarrow> cursor_collect dim n c = ret post"
proof (induction n arbitrary: c pre post)
  case (Suc n)
  obtain c' where c': "cursor_iter_next dim c = ret (list_first post, c')" "c_tree c' = c_tree c"
      "cursor_ok ops dim c' (pre @ take 1 post) (drop 1 post)"
    using cursor_iter_next_at [OF Suc.prems(1-3)] by blast
  then show ?case using Suc.IH [of c' "pre @ take 1 post" "drop 1 post"] Suc.prems by (cases post) simp_all
qed simp

end

section \<open>The contracts hold of the entries\<close>

lemma map_key_dim: "k_dim map_keyed = map_key_ref_dim" "map_key_ref_target = ord_target"
  by (simp_all add: map_key_ref_dim_def map_keyed_def summary_dim_def map_ops_def
      map_key_ref_target_def ord_target_def fun_eq_iff)

interpretation tm: keyed_items map_ops map_keyed
  rewrites "k_dim map_keyed = map_key_ref_dim"
  by (unfold_locales, simp_all only: map_key_dim)
    (simp_all add: map_ops_def map_keyed_def map_key_ref_dim_def)

lemma map_key_simps [simp]: "k_key map_keyed e = Some (me_key e)"
  by (simp add: map_keyed_def)

section \<open>The map a tree stands for\<close>

definition tm_inv :: "('k::linorder, 'v) tree_map \<Rightarrow> bool" where
  "tm_inv m \<longleftrightarrow> wf_tree map_ops m \<and> sorted_keys map_keyed (tree_items m)"

definition entry_pair :: "('k, 'v) map_entry \<Rightarrow> 'k \<times> 'v" where
  "entry_pair e = (me_key e, me_value e)"

definition tm_entries :: "('k, 'v) tree_map \<Rightarrow> ('k \<times> 'v) list" where
  "tm_entries m = map entry_pair (tree_items m)"

definition map_view :: "('k, 'v) tree_map \<Rightarrow> 'k \<rightharpoonup> 'v" where
  "map_view m = map_of (tm_entries m)"

lemma map_of_find: "map_of (map entry_pair xs) k = map_option me_value (keyed_find map_keyed (Some k) xs)"
  by (induction xs) (auto simp: entry_pair_def)

lemma view_find: "map_view m k = map_option me_value (keyed_find map_keyed (Some k) (tree_items m))"
  by (simp add: map_view_def tm_entries_def map_of_find)

lemma tm_new_inv [simp]: "tm_inv tm_new" "map_view tm_new = Map.empty"
  by (simp_all add: tm_inv_def tm_new_def map_view_def tm_entries_def)

lemma below_plain: "keys_below map_keyed (Some k) xs = takeWhile (\<lambda>e. me_key e < k) xs"
  and above_plain: "keys_above map_keyed (Some k) xs = dropWhile (\<lambda>e. me_key e \<le> k) xs"
  by (simp_all add: keys_below_def keys_above_def)

lemma sorted_plain: "sorted_keys map_keyed xs \<longleftrightarrow> sorted_wrt (\<lambda>a b. me_key a < me_key b) xs"
  by (simp add: sorted_keys_def)

text \<open>The end of the cursor after a slice up to a key is that key exactly when the key is present.\<close>

lemma end_is_key:
  assumes "sorted_keys map_keyed xs"
  shows "dim_of map_ops (map_key_ref_dim) (keys_below map_keyed (Some k) xs @
      take 1 (dropWhile (\<lambda>x. k_key map_keyed x < Some k) xs)) = Some k \<longleftrightarrow> keyed_find map_keyed (Some k) xs \<noteq> None"
proof (cases "keyed_find map_keyed (Some k) xs")
  case (Some x)
  then show ?thesis using sorted_split [OF assms, of "Some k"] keyed_find_Some [OF Some]
    by (auto simp: some_list_def tm.dim_of_keys)
next
  case None
  let ?post = "dropWhile (\<lambda>x. k_key map_keyed x < Some k) xs"
  have post: "?post = keys_above map_keyed (Some k) xs" using sorted_split [OF assms, of "Some k"] None by (simp add: some_list_def)
  show ?thesis
  proof (cases ?post)
    case Nil
    have "me_key (last (keys_below map_keyed (Some k) xs)) < k" if "keys_below map_keyed (Some k) xs \<noteq> []"
      using keys_below_less [OF last_in_set [OF that]] by simp
    then show ?thesis using Nil None by (auto simp: tm.dim_of_keys) (simp add: map_key_ref_dim_def)
  next
    case (Cons y ys)
    then have "y \<in> set (keys_above map_keyed (Some k) xs)" using post by (metis list.set_intros(1))
    then have "k < me_key y" using keys_above_greater [OF assms, of y "Some k"] by simp
    then show ?thesis using Cons None by (simp add: tm.dim_of_keys)
  qed
qed

text \<open>The item step of \<open>remove\<close> and \<open>update\<close>: found exactly when \<open>take_keyed\<close> takes it.\<close>

lemma take_keyed_item:
  assumes "take_keyed map_keyed k c = ret (Some x, c')"
  shows "cursor_item c = ret (Some x) \<and> cursor_next (map_key_ref_dim) c = ret c'"
  using assms by (auto simp: take_keyed_def map_key_dim split: bind_splits option.splits if_splits)

lemma take_keyed_none: "take_keyed map_keyed k c = ret (None, c') \<Longrightarrow> c' = c"
  by (auto simp: take_keyed_def split: bind_splits option.splits if_splits)

lemma slice_at_key:
  assumes "tm_inv m" "node_height m < STACK_CAP"
  obtains t c p c' where
    "slice map_ops map_key_ref_dim (map_key_ref_target (Some k)) Left (cursor_new map_key_ref_dim m) = ret (t, c)"
    "wf_tree map_ops t" "tree_items t = keys_below map_keyed (Some k) (tree_items m)"
    "cursor_end map_key_ref_dim c = ret p"
    "map_key_ref_target (Some k) p = Equal \<longleftrightarrow> keyed_find map_keyed (Some k) (tree_items m) \<noteq> None"
    "take_keyed map_keyed (Some k) c = ret (keyed_find map_keyed (Some k) (tree_items m), c')" "c_tree c' = m"
    "cursor_ready map_ops (map_key_ref_dim) c' (tree_items t @ some_list (keyed_find map_keyed (Some k) (tree_items m)))
       (keys_above map_keyed (Some k) (tree_items m))"
proof -
  let ?xs = "tree_items m" 
  have inv: "wf_tree map_ops m" "sorted_keys map_keyed ?xs" using assms(1) by (simp_all add: tm_inv_def)
  obtain t c where t: "slice map_ops map_key_ref_dim (ord_target (Some k)) Left (cursor_new map_key_ref_dim m) = ret (t, c)" "wf_tree map_ops t"
      "tree_items t = keys_below map_keyed (Some k) ?xs" "c_tree c = m"
      "cursor_ok map_ops map_key_ref_dim c (tree_items t) (dropWhile (\<lambda>x. k_key map_keyed x < Some k) ?xs)"
    using tm.slice_ok [of "cursor_new map_key_ref_dim m" "[]" ?xs, OF _ _ ready_new tm.monotone_keys_from [OF inv(2) tm.ord_target_monotone],
        of "Some k" Left] inv(1) assms(2) tm.ord_target_zero [of "Some k"]
    unfolding tm.ord_target_passed by simp metis
  obtain c' where c': "take_keyed map_keyed (Some k) c = ret (keyed_find map_keyed (Some k) ?xs, c')" "c_tree c' = m"
      "cursor_ok map_ops map_key_ref_dim c' (tree_items t @ some_list (keyed_find map_keyed (Some k) ?xs)) (keys_above map_keyed (Some k) ?xs)"
    using tm.take_keyed_ok [of c ?xs "tree_items t" "Some k"] inv assms(2) t by auto
  have "cursor_end map_key_ref_dim c = ret (dim_of map_ops map_key_ref_dim (keys_below map_keyed (Some k) ?xs @
      take 1 (dropWhile (\<lambda>x. k_key map_keyed x < Some k) ?xs)))"
    using cursor_ok_end [OF t(5)] t(3,4) inv(1) by simp
  then show thesis
    using that [of t c _ c'] t(1-3) c' end_is_key [OF inv(2), of k]
    by (simp add: map_key_dim ord_target_def cursor_ready_def eq_commute [of "Some k"])
qed

section \<open>Refinement\<close>

lemma tm_get_ok:
  assumes "tm_inv m"
  shows "tm_get m k = map_view m k"
proof (cases "is_empty m")
  case True
  then obtain s iss where "m = Leaf s [] iss" by (cases m) auto
  then show ?thesis
    by (auto simp: tm_get_def tree_find_def find_general_def view_find split: prod.split option.split)
next
  case False
  have inv: "wf_tree map_ops m" "sorted_keys map_keyed (tree_items m)" using assms by (simp_all add: tm_inv_def)
  have mono: "monotone_target map_ops (map_key_ref_dim) (ord_target (Some k)) (tree_items m)"
    unfolding monotone_target_def by (rule tm.monotone_keys_from [OF inv(2) tm.ord_target_monotone])
  have "snd (snd (tree_find (map_key_ref_dim) (ord_target (Some k)) Left m)) =
      list_first (dropWhile (\<lambda>x. k_key map_keyed x < Some k) (tree_items m))"
    unfolding tm.find_scan [OF inv(1) mono False]
    using tm.scan_keys [of "ord_target (Some k)" Left "d_zero (map_key_ref_dim)" "tree_items m"]
    by (cases "list_first (dropWhile (\<lambda>x. me_key x < k) (tree_items m))")
      (auto simp: ord_target_def past_end_cmp split: prod.split option.split)
  then show ?thesis
    unfolding tm_get_def map_key_dim view_find tm.first_not_below [OF inv(2), symmetric]
    by (auto split: option.split)
qed

lemma tm_insert_or_replace_ok:
  assumes "tm_inv m" "node_height m < STACK_CAP"
  shows "\<exists>m'. tm_insert_or_replace m k v = ret (map_view m k, m') \<and> tm_inv m' \<and> map_view m' = (map_view m)(k \<mapsto> v)"
proof -
  let ?e = "\<lparr>me_key = k, me_value = v\<rparr>"
  have inv: "wf_tree map_ops m" "sorted_keys map_keyed (tree_items m)" using assms(1) by (simp_all add: tm_inv_def)
  obtain m' where m': "insert_or_replace map_ops map_keyed m ?e =
        ret (keyed_find map_keyed (k_key map_keyed ?e) (tree_items m), m')"
      "wf_tree map_ops m'" "tree_items m' = insert_spec map_keyed ?e (tree_items m)"
    using tm.insert_or_replace_ok [OF inv(1) assms(2) inv(2)] by blast
  have "map_view m' = (map_view m)(k \<mapsto> v)"
    by (rule ext) (simp add: view_find m'(3) keyed_find_insert [OF inv(2)])
  then show ?thesis using m' insert_spec_sorted [OF inv(2)]
    by (simp add: tm_insert_or_replace_def tm_inv_def view_find)
qed

lemma tm_remove_ok:
  assumes "tm_inv m" "node_height m < STACK_CAP"
  shows "\<exists>m'. tm_remove m k = ret (map_view m k, m') \<and> tm_inv m' \<and> map_view m' = (map_view m)(k := None)"
proof -
  have inv: "sorted_keys map_keyed (tree_items m)" using assms(1) by (simp add: tm_inv_def)
  obtain t c p c' where s:
    "slice map_ops map_key_ref_dim (map_key_ref_target (Some k)) Left (cursor_new map_key_ref_dim m) = ret (t, c)"
    "wf_tree map_ops t" "tree_items t = keys_below map_keyed (Some k) (tree_items m)"
    "cursor_end map_key_ref_dim c = ret p"
    "map_key_ref_target (Some k) p = Equal \<longleftrightarrow> keyed_find map_keyed (Some k) (tree_items m) \<noteq> None"
    "take_keyed map_keyed (Some k) c = ret (keyed_find map_keyed (Some k) (tree_items m), c')" "c_tree c' = m"
    "cursor_ready map_ops (map_key_ref_dim) c' (tree_items t @ some_list (keyed_find map_keyed (Some k) (tree_items m)))
       (keys_above map_keyed (Some k) (tree_items m))"
    by (rule slice_at_key [OF assms])
  obtain r c2 where r: "suffix map_ops map_key_ref_dim c' = ret (r, c2)" "wf_tree map_ops r"
      "tree_items r = keys_above map_keyed (Some k) (tree_items m)"
    using tm.suffix_ok [OF _ _ s(8)] s(7) assms by (auto simp: map_key_dim tm_inv_def)
  obtain m' where m': "append_tree map_ops t r = ret m'" "wf_tree map_ops m'"
      "tree_items m' = remove_spec map_keyed (Some k) (tree_items m)"
    using tm.append_tree_ok [OF s(2) r(2)] s(3) r(3) by (auto simp: remove_spec_def)
  have "tm_remove m k = ret (map_view m k, m')"
  proof (cases "keyed_find map_keyed (Some k) (tree_items m)")
    case None
    with s r m' take_keyed_none [OF s(6) [unfolded None]] show ?thesis by (simp add: tm_remove_def view_find)
  next
    case (Some x)
    with s r m' take_keyed_item [OF s(6) [unfolded Some]] show ?thesis by (simp add: tm_remove_def view_find map_key_dim)
  qed
  moreover have "map_view m' = (map_view m)(k := None)"
    by (rule ext) (simp add: view_find m'(3) keyed_find_remove [OF inv])
  ultimately show ?thesis using m' remove_spec_sorted [OF inv] by (simp add: tm_inv_def)
qed

lemma tm_update_ok:
  assumes "tm_inv m" "node_height m < STACK_CAP"
  shows "\<exists>m'. tm_update m k f = ret (map_option (snd \<circ> f) (map_view m k), m') \<and> tm_inv m' \<and>
    map_view m' = (map_view m)(k := map_option (fst \<circ> f) (map_view m k))"
proof -
  have inv: "sorted_keys map_keyed (tree_items m)" using assms(1) by (simp add: tm_inv_def)
  obtain t c p c' where s:
    "slice map_ops map_key_ref_dim (map_key_ref_target (Some k)) Left (cursor_new map_key_ref_dim m) = ret (t, c)"
    "wf_tree map_ops t" "tree_items t = keys_below map_keyed (Some k) (tree_items m)"
    "cursor_end map_key_ref_dim c = ret p"
    "map_key_ref_target (Some k) p = Equal \<longleftrightarrow> keyed_find map_keyed (Some k) (tree_items m) \<noteq> None"
    "take_keyed map_keyed (Some k) c = ret (keyed_find map_keyed (Some k) (tree_items m), c')" "c_tree c' = m"
    "cursor_ready map_ops map_key_ref_dim c' (tree_items t @ some_list (keyed_find map_keyed (Some k) (tree_items m)))
       (keys_above map_keyed (Some k) (tree_items m))"
    by (rule slice_at_key [OF assms])
  obtain r c2 where r: "suffix map_ops map_key_ref_dim c' = ret (r, c2)" "wf_tree map_ops r"
      "tree_items r = keys_above map_keyed (Some k) (tree_items m)"
    using tm.suffix_ok [OF _ _ s(8)] s(7) assms by (auto simp: tm_inv_def)
  show ?thesis
  proof (cases "keyed_find map_keyed (Some k) (tree_items m)")
    case None
    obtain m' where m': "append_tree map_ops t r = ret m'" "wf_tree map_ops m'"
        "tree_items m' = remove_spec map_keyed (Some k) (tree_items m)"
      using tm.append_tree_ok [OF s(2) r(2)] s(3) r(3) by (auto simp: remove_spec_def)
    have "map_view m' = map_view m"
      using None by (intro ext) (simp add: view_find m'(3) keyed_find_remove [OF inv])
    with None s r m' take_keyed_none [OF s(6) [unfolded None]] remove_spec_sorted [OF inv]
    show ?thesis by (simp add: tm_update_def view_find tm_inv_def fun_upd_idem)
  next
    case (Some x)
    obtain v ret_val where f: "f (me_value x) = (v, ret_val)" by (cases "f (me_value x)")
    let ?x = "x\<lparr>me_value := v\<rparr>"
    have k: "me_key x = k" using keyed_find_Some [OF Some] by simp
    obtain t1 where t1: "push_item map_ops t ?x = ret t1" "wf_tree map_ops t1" "tree_items t1 = tree_items t @ [?x]"
      using tm.push_item_ok [OF s(2)] by blast
    obtain m' where m': "append_tree map_ops t1 r = ret m'" "wf_tree map_ops m'"
        "tree_items m' = insert_spec map_keyed ?x (tree_items m)"
      using tm.append_tree_ok [OF t1(2) r(2)] s(3) t1(3) r(3) k by (auto simp: insert_spec_def)
    have "map_view m' = (map_view m)(k \<mapsto> v)"
      using k by (intro ext) (simp add: view_find m'(3) keyed_find_insert [OF inv])
    with Some s r t1 m' f take_keyed_item [OF s(6) [unfolded Some]] insert_spec_sorted [OF inv]
    show ?thesis by (simp add: tm_update_def view_find tm_inv_def)
  qed
qed

text \<open>A seek for a key splits the entries at it.\<close>

lemma tm_seek:
  assumes "tm_inv m" "node_height m < STACK_CAP"
  obtains b c where "seek map_key_ref_dim (map_key_ref_target (Some k)) bias (cursor_new map_key_ref_dim m) = ret (b, c)"
    "c_tree c = m" "cursor_ok map_ops map_key_ref_dim c
      (seek_passed map_ops map_key_ref_dim (ord_target (Some k)) bias (d_zero map_key_ref_dim) (tree_items m))
      (seek_rest map_ops map_key_ref_dim (ord_target (Some k)) bias (d_zero map_key_ref_dim) (tree_items m))"
proof -
  have inv: "wf_tree map_ops m" "sorted_keys map_keyed (tree_items m)" using assms(1) by (simp_all add: tm_inv_def)
  have "monotone_target map_ops map_key_ref_dim (ord_target (Some k)) (tree_items m)"
    unfolding monotone_target_def by (rule tm.monotone_keys_from [OF inv(2) tm.ord_target_monotone])
  then show thesis
    using that tm.seek_ok [of "cursor_new map_key_ref_dim m" "ord_target (Some k)" bias] inv(1) assms(2)
      tm.ord_target_zero [of "Some k"] by (auto simp: map_key_dim)
qed

lemma tm_closest_ok:
  assumes "tm_inv m" "node_height m < STACK_CAP"
  shows "tm_closest m k = ret (list_last (takeWhile (\<lambda>e. fst e \<le> k) (tm_entries m)))"
proof -
  let ?pre = "takeWhile (\<lambda>e. me_key e \<le> k) (tree_items m)"
  obtain b c where c: "seek map_key_ref_dim (map_key_ref_target (Some k)) Right (cursor_new map_key_ref_dim m) = ret (b, c)"
      "c_tree c = m" "cursor_ok map_ops map_key_ref_dim c ?pre (dropWhile (\<lambda>e. me_key e \<le> k) (tree_items m))"
    by (rule tm_seek [OF assms, of k Right]) (simp add: tm.ord_target_passed above_plain)
  have wf: "wf_tree map_ops (c_tree c)" "node_height (c_tree c) < STACK_CAP" using assms c(2) by (simp_all add: tm_inv_def)
  have entries: "takeWhile (\<lambda>e. fst e \<le> k) (tm_entries m) = map entry_pair ?pre"
    by (simp add: tm_entries_def takeWhile_map comp_def entry_pair_def)
  show ?thesis
  proof (cases ?pre rule: rev_cases)
    case Nil
    obtain c' where "cursor_prev map_key_ref_dim c = ret c'" "c_did_seek c'" "cursor_fresh map_key_ref_dim c'"
      using tm.cursor_prev_start [OF wf] c(3) Nil by auto
    then show ?thesis unfolding entries using c(1) Nil
      by (simp add: tm_closest_def cursor_item_def cursor_fresh_def assert_did_seek_def panic_free)
  next
    case (snoc ys x)
    obtain c' where "cursor_prev map_key_ref_dim c = ret c'"
        "cursor_ok map_ops map_key_ref_dim c' ys (x # dropWhile (\<lambda>e. me_key e \<le> k) (tree_items m))"
      using tm.cursor_prev_at [OF wf, of ys x] c(3) snoc by auto
    then show ?thesis unfolding entries using c(1) snoc
      by (simp add: tm_closest_def cursor_ok_item entry_pair_def)
  qed
qed

lemma tm_iter_from_ok:
  assumes "tm_inv m" "node_height m < STACK_CAP"
  shows "tm_iter_from m k = ret (dropWhile (\<lambda>e. fst e < k) (tm_entries m))"
proof -
  let ?post = "dropWhile (\<lambda>e. me_key e < k) (tree_items m)"
  obtain b c where c: "seek map_key_ref_dim (map_key_ref_target (Some k)) Left (cursor_new map_key_ref_dim m) = ret (b, c)"
      "c_tree c = m" "cursor_ok map_ops map_key_ref_dim c (keys_below map_keyed (Some k) (tree_items m)) ?post"
    by (rule tm_seek [OF assms, of k Left]) (simp add: tm.ord_target_passed)
  have wf: "wf_tree map_ops (c_tree c)" "node_height (c_tree c) < STACK_CAP" using assms c(2) by (simp_all add: tm_inv_def)
  have "length ?post \<le> length (tree_items m)" by (rule length_dropWhile_le)
  also have "\<dots> < weight m" using weight_items [of map_ops m] assms by (simp add: tm_inv_def)
  finally have "cursor_collect map_key_ref_dim (weight m) c = ret ?post" by (rule tm.cursor_collect_ok [OF wf c(3)])
  then show ?thesis using c(1)
    by (simp add: tm_iter_from_def tm_entries_def dropWhile_map comp_def entry_pair_def)
qed

lemma retain_loop_ok:
  fixes P :: "'k::linorder \<Rightarrow> 'v \<Rightarrow> bool"
  shows "wf_tree map_ops (c_tree c) \<Longrightarrow> node_height (c_tree c) < STACK_CAP \<Longrightarrow> cursor_ok map_ops map_key_ref_dim c pre post \<Longrightarrow>
   length post < n \<Longrightarrow> wf_tree map_ops t \<Longrightarrow>
   \<exists>t'. retain_loop P n c t = ret t' \<and> wf_tree map_ops t' \<and>
     tree_items t' = tree_items t @ filter (\<lambda>e. P (me_key e) (me_value e)) post"
proof (induction n arbitrary: c pre post t)
  case (Suc n)
  show ?case
  proof (cases post)
    case Nil
    then show ?thesis using cursor_ok_item [OF Suc.prems(3)] Suc.prems(5) by simp
  next
    case (Cons x post')
    obtain c' where c': "cursor_next map_key_ref_dim c = ret c'" "c_tree c' = c_tree c"
        "cursor_ok map_ops map_key_ref_dim c' (pre @ [x]) post'"
      using tm.cursor_next_at [OF Suc.prems(1,2), of pre x post'] Suc.prems(3) Cons by auto
    obtain t1 where t1: "(if P (me_key x) (me_value x) then push_item map_ops t x else ret t) = ret t1" "wf_tree map_ops t1"
        "tree_items t1 = tree_items t @ filter (\<lambda>e. P (me_key e) (me_value e)) [x]"
      using tm.push_item_ok [OF Suc.prems(5), of x] Suc.prems(5) by (cases "P (me_key x) (me_value x)") auto
    have "retain_loop P (Suc n) c t = retain_loop P n c' t1"
      using cursor_ok_item [OF Suc.prems(3)] Cons c'(1) t1(1) by simp
    moreover have "filter (\<lambda>e. P (me_key e) (me_value e)) post =
        filter (\<lambda>e. P (me_key e) (me_value e)) [x] @ filter (\<lambda>e. P (me_key e) (me_value e)) post'" using Cons by simp
    ultimately show ?thesis using Suc.IH [OF _ _ c'(3) _ t1(2)] Suc.prems(1,2,4) c'(2) Cons t1(3)
      by (simp only:) (auto simp del: retain_loop.simps)
  qed
qed simp

lemma filter_sorted_keys: "sorted_keys kops xs \<Longrightarrow> sorted_keys kops (filter P xs)"
  unfolding sorted_keys_def by (rule sorted_wrt_filter)

lemma tm_retain_ok:
  assumes "tm_inv m" "node_height m < STACK_CAP"
  shows "\<exists>m'. tm_retain m P = ret m' \<and> tm_inv m' \<and> tm_entries m' = filter (\<lambda>(k, v). P k v) (tm_entries m)"
proof -
  have inv: "wf_tree map_ops m" "sorted_keys map_keyed (tree_items m)" using assms(1) by (simp_all add: tm_inv_def)
  obtain c where c: "cursor_next map_key_ref_dim (cursor_new map_key_ref_dim m) = ret c" "c_tree c = m"
      "cursor_ok map_ops map_key_ref_dim c [] (tree_items m)"
    using tm.cursor_next_fresh [of "cursor_new map_key_ref_dim m"] inv(1) assms(2) by auto
  obtain m' where m': "retain_loop P (weight m) c (new_tree map_ops) = ret m'" "wf_tree map_ops m'"
      "tree_items m' = filter (\<lambda>e. P (me_key e) (me_value e)) (tree_items m)"
    using retain_loop_ok [OF _ _ c(3) weight_items [OF inv(1)], of "new_tree map_ops" P] c(2) inv(1) assms(2) by auto
  then show ?thesis using c(1) filter_sorted_keys [OF inv(2)]
    by (simp add: tm_retain_def tm_inv_def tm_entries_def filter_map comp_def entry_pair_def)
qed

lemma tm_iter_ok:
  assumes "tm_inv m" "node_height m < STACK_CAP"
  shows "tm_iter m = ret (tm_entries m)" "tm_values m = ret (map snd (tm_entries m))"
proof -
  have wf: "wf_tree map_ops m" using assms(1) by (simp add: tm_inv_def)
  have "iter_collect (weight m) (iter_new m) = ret (tree_items m)"
    by (rule tm.iter_collect_ok [OF tm.iter_new_at [OF wf assms(2)] weight_items [OF wf]])
  then show "tm_iter m = ret (tm_entries m)" "tm_values m = ret (map snd (tm_entries m))"
    by (simp_all add: tm_iter_def tm_values_def tm_entries_def entry_pair_def)
qed

lemma tm_ends_ok:
  assumes "tm_inv m"
  shows "tm_first m = ret (list_first (tm_entries m))" "tm_last m = ret (list_last (tm_entries m))"
  using assms tree_first_ok [of map_ops m] tree_last_ok [of map_ops m]
  by (simp_all add: tm_inv_def tm_first_def tm_last_def tm_entries_def list_ends_map entry_pair_def [abs_def])

text \<open>Bulk insertion, for entries with distinct keys.\<close>

abbreviation insertions :: "('k \<times> 'v) list \<Rightarrow> (('k, 'v) map_entry, 'k map_key) edit list" where
  "insertions entries \<equiv> map (\<lambda>(key, v). Insert \<lparr>me_key = key, me_value = v\<rparr>) entries"

lemma insertions_keys: "map (edit_key map_keyed) (insertions entries) = map Some (map fst entries)"
  by (induction entries) (auto simp: edit_key_def)

lemma insertions_result:
  "map_option me_value (edit_result map_keyed (insertions entries) (Some k) old) =
     (case map_of entries k of Some v \<Rightarrow> Some v | None \<Rightarrow> map_option me_value old)"
  by (induction entries) (auto simp: edit_result_def edit_key_def)

lemma tm_edit_insertions:
  assumes "tm_inv m" "node_height m < STACK_CAP" "distinct (map fst entries)"
  shows "\<exists>removed m'. tree_edit map_ops map_keyed m (insertions entries) = ret (removed, m') \<and> tm_inv m' \<and>
    map_view m' = map_view m ++ map_of entries"
proof -
  let ?es = "insertions entries"
  have inv: "wf_tree map_ops m" "sorted_keys map_keyed (tree_items m)" using assms(1) by (simp_all add: tm_inv_def)
  have d: "distinct (map (edit_key map_keyed) ?es)"
    unfolding insertions_keys using assms(3) by (simp only: distinct_map [of Some]) simp
  obtain m' where m': "tree_edit map_ops map_keyed m ?es =
        ret (edit_removed map_keyed (sort_key (edit_key map_keyed) ?es) (tree_items m), m')" "wf_tree map_ops m'"
      "tree_items m' = edit_spec map_keyed (sort_key (edit_key map_keyed) ?es) (tree_items m)"
    using tm.tree_edit_ok [OF inv(1) assms(2) inv(2)] by blast
  have "map_view m' = map_view m ++ map_of entries"
  proof
    fix k
    show "map_view m' k = (map_view m ++ map_of entries) k"
      unfolding view_find m'(3) edit_spec_find [OF inv(2) distinct_sorted_edits [OF d]] find_sorted_edits [OF d]
        insertions_result by (simp add: map_add_def view_find)
  qed
  then show ?thesis using m' edit_spec_sorted [OF inv(2) distinct_sorted_edits [OF d]] by (auto simp: tm_inv_def)
qed

lemma tm_extend_ok:
  assumes "tm_inv m" "node_height m < STACK_CAP" "distinct (map fst entries)"
  shows "\<exists>m'. tm_extend m entries = ret m' \<and> tm_inv m' \<and> map_view m' = map_view m ++ map_of entries"
  using tm_edit_insertions [OF assms] by (auto simp: tm_extend_def)

lemma tm_entries_distinct: "tm_inv m \<Longrightarrow> distinct (map fst (tm_entries m))"
proof -
  assume "tm_inv m"
  then have "sorted_wrt (<) (map fst (tm_entries m))"
    by (simp add: tm_inv_def sorted_plain tm_entries_def entry_pair_def sorted_wrt_map comp_def)
  then show ?thesis using strict_sorted_iff by blast
qed

lemma tm_insert_tree_ok:
  assumes "tm_inv m" "node_height m < STACK_CAP" "tm_inv other" "node_height other < STACK_CAP"
  shows "\<exists>m'. tm_insert_tree m other = ret m' \<and> tm_inv m' \<and> map_view m' = map_view m ++ map_view other"
  using tm_edit_insertions [OF assms(1,2) tm_entries_distinct [OF assms(3)]] tm_iter_ok(1) [OF assms(3,4)]
  by (auto simp: tm_insert_tree_def map_view_def)

lemma tm_from_ordered_entries_ok:
  assumes "sorted_wrt (<) (map fst entries)"
  shows "\<exists>m. tm_from_ordered_entries entries = ret m \<and> tm_inv m \<and> tm_entries m = entries"
proof -
  let ?es = "map (\<lambda>(key, v). \<lparr>me_key = key, me_value = v\<rparr>) entries"
  have "map me_key ?es = map fst entries" "map entry_pair ?es = entries"
    by (induction entries) (auto simp: entry_pair_def)
  moreover from this assms have "sorted_keys map_keyed ?es" by (metis sorted_plain sorted_wrt_map)
  ultimately show ?thesis using tm.from_iter_ok [of ?es]
    by (auto simp: tm_from_ordered_entries_def tm_inv_def tm_entries_def)
qed

text \<open>
  \<open>remove_range\<close> keeps what lies before the start target and what does not lie before the end
  target; the targets are comparisons that, along the keys, go from \<open>Greater\<close> to the rest.
\<close>

definition range_target :: "('k::linorder \<Rightarrow> ordering) \<Rightarrow> bool" where
  "range_target cmp \<longleftrightarrow> (\<forall>b k k'. k < k' \<longrightarrow> in_child b (cmp k) \<longrightarrow> in_child b (cmp k'))"

lemma map_seek_target_monotone: "range_target cmp \<Longrightarrow> tm.monotone_keys (map_seek_target cmp)"
  unfolding tm.monotone_keys_def range_target_def map_seek_target_def
  by (auto simp: in_child_def less_option_def split: option.splits)

lemma map_seek_target_zero: "map_seek_target cmp (d_zero map_key_ref_dim) \<noteq> Less"
  by (simp add: map_key_ref_dim_def map_seek_target_def)

lemma tm_remove_range_ok:
  assumes "tm_inv m" "node_height m < STACK_CAP" "range_target start" "range_target stop"
  shows "\<exists>m'. tm_remove_range m start stop = ret m' \<and> wf_tree map_ops m' \<and>
    tm_entries m' = takeWhile (\<lambda>e. start (fst e) = Greater) (tm_entries m) @
      dropWhile (\<lambda>e. stop (fst e) = Greater) (tm_entries m)"
proof -
  let ?xs = "tree_items m"
  have inv: "wf_tree map_ops m" "sorted_keys map_keyed ?xs" using assms(1) by (simp_all add: tm_inv_def)
  note mono = tm.monotone_keys_from [OF inv(2) map_seek_target_monotone]
  have left: "past_end Left (map_seek_target cmp (k_key map_keyed x)) \<longleftrightarrow> cmp (me_key x) = Greater" for cmp x
    by (simp add: past_end_def map_seek_target_def)
  obtain t c where t: "slice map_ops map_key_ref_dim (map_seek_target start) Left (cursor_new map_key_ref_dim m) = ret (t, c)"
      "wf_tree map_ops t" "tree_items t = takeWhile (\<lambda>x. start (me_key x) = Greater) ?xs" "c_tree c = m"
    using tm.slice_ok [of "cursor_new map_key_ref_dim m" "[]" ?xs, OF _ _ ready_new mono [OF assms(3)], of Left]
      inv(1) assms(2) map_seek_target_zero [of start] unfolding tm.passed_keys left by simp metis
  have "monotone_target map_ops map_key_ref_dim (map_seek_target stop) (tree_items (c_tree c))"
    unfolding t(4) monotone_target_def by (rule mono [OF assms(4)])
  then obtain b c1 where c1: "seek map_key_ref_dim (map_seek_target stop) Left c = ret (b, c1)" "c_tree c1 = m"
      "cursor_ok map_ops map_key_ref_dim c1 (takeWhile (\<lambda>x. stop (me_key x) = Greater) ?xs)
        (dropWhile (\<lambda>x. stop (me_key x) = Greater) ?xs)"
    using tm.seek_ok [of c "map_seek_target stop" Left] inv(1) assms(2) t(4) map_seek_target_zero [of stop]
    unfolding tm.passed_keys tm.rest_keys left by auto
  then obtain r c2 where r: "suffix map_ops map_key_ref_dim c1 = ret (r, c2)" "wf_tree map_ops r"
      "tree_items r = dropWhile (\<lambda>x. stop (me_key x) = Greater) ?xs"
    using tm.suffix_ok [of c1] inv(1) assms(2) unfolding cursor_ready_def by metis
  obtain m' where "append_tree map_ops t r = ret m'" "wf_tree map_ops m'" "tree_items m' = tree_items t @ tree_items r"
    using tm.append_tree_ok [OF t(2) r(2)] by blast
  then show ?thesis using t c1 r
    by (simp add: tm_remove_range_def tm_entries_def takeWhile_map dropWhile_map comp_def entry_pair_def)
qed

text \<open>The set operations, on the set of keys.\<close>

definition set_view :: "'k tree_set \<Rightarrow> 'k set" where
  "set_view s = dom (map_view s)"

lemma ts_contains_ok: "tm_inv s \<Longrightarrow> ts_contains s k \<longleftrightarrow> k \<in> set_view s"
  by (auto simp: ts_contains_def tm_get_ok set_view_def)

lemma ts_insert_ok:
  assumes "tm_inv s" "node_height s < STACK_CAP"
  shows "\<exists>s'. ts_insert s k = ret s' \<and> tm_inv s' \<and> set_view s' = insert k (set_view s)"
  using tm_insert_or_replace_ok [OF assms, of k "()"]
  by (auto simp: ts_insert_def tm_insert_def tm_insert_or_replace_def set_view_def split: bind_splits)

lemma ts_remove_ok:
  assumes "tm_inv s" "node_height s < STACK_CAP"
  shows "\<exists>s'. ts_remove s k = ret (k \<in> set_view s, s') \<and> tm_inv s' \<and> set_view s' = set_view s - {k}"
  using tm_remove_ok [OF assms, of k] by (auto simp: ts_remove_def set_view_def)

end
