(* ===== verification/SumTree_Properties.thy ===== *)
theory SumTree_Properties
  imports TreeMap
begin

text \<open>
  What the \<open>sum_tree\<close> crate promises, stated over the definitions of the other theories with the
  contracts of the traits written out (\<open>summary_laws\<close>, \<open>dimension_laws\<close>). The witnesses use
  \<open>TreeMap\<close>'s entries, for which the contracts hold, and the two trees below.
\<close>

section \<open>Sample trees\<close>

definition ent :: "nat \<Rightarrow> (nat, nat) map_entry" where
  "ent k = \<lparr>me_key = k, me_value = 10 * k\<rparr>"

definition leaf3 :: "(nat, nat) tree_map" where
  "leaf3 = Leaf (Some 5) [ent 1, ent 3, ent 5] [Some 1, Some 3, Some 5]"

definition sample :: "(nat, nat) tree_map" where
  "sample = Internal 1 (Some 9) [Some 5, Some 9] [leaf3, Leaf (Some 9) [ent 7, ent 9] [Some 7, Some 9]]"

lemma sample_wf [simp]: "wf_tree map_ops leaf3" "wf_tree map_ops sample" "\<not> is_empty sample" "\<not> is_empty leaf3"
    "node_height leaf3 < STACK_CAP" "node_height sample < STACK_CAP"
  by (simp_all add: leaf3_def sample_def ent_def map_ops_def sum_s_def TREE_BASE_def STACK_CAP_def)

lemma sample_items [simp]: "tree_items leaf3 = [ent 1, ent 3, ent 5]"
    "tree_items sample = [ent 1, ent 3, ent 5, ent 7, ent 9]"
  by (simp_all add: leaf3_def sample_def)

lemma sample_sorted [simp]: "sorted_keys map_keyed (tree_items sample)" "tm_inv sample" "tm_inv leaf3"
  by (simp_all add: ent_def tm_inv_def del: sample_items(1)) (simp add: ent_def)

lemma map_laws [simp]: "summary_laws (map_ops :: (('k::linorder, 'v) map_entry, 'k option) item_ops)"
  by (rule tm.summary_laws_axioms)

lemma map_dim_laws [simp]:
  "dimension_laws (map_ops :: (('k::linorder, 'v) map_entry, 'k option) item_ops) map_key_ref_dim"
  by (rule tm.dimension_laws_axioms)

lemma sample_zero [simp]: "ord_target (Some k) (d_zero map_key_ref_dim) \<noteq> Less"
  by (rule tm.ord_target_zero)

lemma sample_monotone [simp]: "monotone_target map_ops map_key_ref_dim (ord_target (Some k)) (tree_items sample)"
  unfolding monotone_target_def by (rule tm.monotone_keys_from [OF sample_sorted(1) tm.ord_target_monotone])

section \<open>Building\<close>

text \<open>C1: appending two well-formed trees never panics; the result is well formed (balanced,
  within capacity, with the right summaries) and holds the items of the first, then of the second.\<close>

theorem append_correct:
  assumes "summary_laws ops" "wf_tree ops self" "wf_tree ops other"
  shows "\<exists>t. append_tree ops self other = ret t \<and> wf_tree ops t \<and> tree_items t = tree_items self @ tree_items other \<and>
    (tree_items t \<noteq> [] \<longrightarrow> node_summary t = foldl (s_add ops) (s_zero ops) (map (it_summary ops) (tree_items t)))"
  using summary_laws.append_tree_ok [OF assms] summary_laws.node_summary_items [OF assms(1)]
  by (fastforce simp: items_summary_def sum_s_def)

theorem append_correct_witness: "\<exists>t. append_tree map_ops sample leaf3 = ret t \<and>
    tree_items t = [ent 1, ent 3, ent 5, ent 7, ent 9, ent 1, ent 3, ent 5]"
  using append_correct [of map_ops sample leaf3] by auto

text \<open>C2: building a tree from a sequence, one item at a time or in parallel chunks, gives the same
  well-formed tree, which holds the sequence.\<close>

theorem from_iter_correct:
  assumes "summary_laws ops"
  shows "\<exists>t. from_iter ops xs = ret t \<and> from_par_iter ops xs = ret t \<and> wf_tree ops t \<and> tree_items t = xs"
  using summary_laws.from_iter_ok [OF assms, of xs] summary_laws.from_par_iter_eq [OF assms, of xs] by auto

theorem from_iter_correct_witness: "\<exists>t. from_iter map_ops [ent 1, ent 2] = ret t \<and> tree_items t = [ent 1, ent 2]"
  using from_iter_correct [of map_ops "[ent 1, ent 2]"] by auto

section \<open>Cursors\<close>

text \<open>C3: a slice followed by the suffix splits a tree at a monotone target: both parts are well-formed
  trees, together they are the items of the tree, the target is beyond every position of the
  slice and not beyond the first one of the suffix.\<close>

theorem slice_suffix_split:
  assumes "dimension_laws ops dim" "wf_tree ops t" "node_height t < STACK_CAP"
    and "monotone_target ops dim target (tree_items t)" "target (d_zero dim) \<noteq> Less"
  shows "\<exists>left c right c'. slice ops dim target b (cursor_new dim t) = ret (left, c) \<and>
    suffix ops dim c = ret (right, c') \<and> wf_tree ops left \<and> wf_tree ops right \<and>
    tree_items left @ tree_items right = tree_items t \<and>
    (\<forall>e \<in> set (positions ops dim (d_zero dim) (tree_items left)). past_end b (target e)) \<and>
    (tree_items right = [] \<or> \<not> past_end b (target (dim_of ops dim (tree_items left @ [hd (tree_items right)]))))"
proof -
  let ?c = "cursor_new dim t" and ?pre = "seek_passed ops dim target b (d_zero dim) (tree_items t)"
    and ?post = "seek_rest ops dim target b (d_zero dim) (tree_items t)"
  obtain left c where l: "slice ops dim target b ?c = ret (left, c)" "wf_tree ops left" "tree_items left = ?pre"
      "c_tree c = t" "cursor_ok ops dim c ?pre ?post"
    using dimension_laws.slice_ok [OF assms(1), of ?c "[]" "tree_items t", OF _ _ ready_new, of target b] assms(2-5)
    by (simp add: monotone_target_def) metis
  have "cursor_ready ops dim c ?pre ?post" using l(5) by (simp add: cursor_ready_def)
  then obtain right c' where r: "suffix ops dim c = ret (right, c')" "wf_tree ops right" "tree_items right = ?post"
    using dimension_laws.suffix_ok [OF assms(1)] l(4) assms(2,3) by blast
  show ?thesis
    using l(1-3) r seek_passed_rest [of ops dim target b "d_zero dim" "tree_items t"]
      seek_passed_spec [of ops dim "d_zero dim" target b "tree_items t"] by (simp add: dim_of_def)
qed

theorem slice_suffix_split_witness: "\<exists>left c right c'.
    slice map_ops map_key_ref_dim (ord_target (Some 4)) Left (cursor_new map_key_ref_dim sample) = ret (left, c) \<and>
    suffix map_ops map_key_ref_dim c = ret (right, c') \<and> tree_items left @ tree_items right = tree_items sample"
  using slice_suffix_split [OF map_dim_laws sample_wf(2,6) sample_monotone sample_zero, of 4 Left] by blast

text \<open>C4: \<open>seek\<close> stops in front of the first item whose end the target is not beyond. There the start
  and the end of the cursor are the positions around that item, \<open>item\<close>, \<open>next_item\<close> and
  \<open>prev_item\<close> are the items around it, and with \<open>Bias::Left\<close> the answer is whether the item ends
  at the target.\<close>

theorem seek_reads:
  assumes "dimension_laws ops dim" "wf_tree ops t" "node_height t < STACK_CAP"
    and "monotone_target ops dim target (tree_items t)" "target (d_zero dim) \<noteq> Less"
  shows "\<exists>found c pre post. seek dim target Left (cursor_new dim t) = ret (found, c) \<and> pre @ post = tree_items t \<and>
    (\<forall>e \<in> set (positions ops dim (d_zero dim) pre). target e = Greater) \<and>
    (post = [] \<or> target (dim_of ops dim (pre @ [hd post])) \<noteq> Greater) \<and>
    (found \<longleftrightarrow> target (dim_of ops dim (pre @ take 1 post)) = Equal) \<and>
    cursor_start c = dim_of ops dim pre \<and> cursor_end dim c = ret (dim_of ops dim (pre @ take 1 post)) \<and>
    cursor_item c = ret (list_first post) \<and> next_item c = ret (list_first (drop 1 post)) \<and>
    prev_item c = ret (list_last pre)"
proof -
  let ?pre = "seek_passed ops dim target Left (d_zero dim) (tree_items t)"
    and ?post = "seek_rest ops dim target Left (d_zero dim) (tree_items t)"
  obtain c where c: "seek dim target Left (cursor_new dim t) = ret (seek_found ops dim target Left ?pre ?post, c)"
      "c_tree c = t" "cursor_ok ops dim c ?pre ?post"
    using dimension_laws.seek_ok [OF assms(1), of "cursor_new dim t" target Left] assms(2-5) by auto
  let ?found = "seek_found ops dim target Left ?pre ?post"
  have start: "cursor_start c = dim_of ops dim ?pre"
    by (rule ok_start [OF c(3)])
  have stop: "?post = [] \<or> target (dim_of ops dim (?pre @ [hd ?post])) \<noteq> Greater"
      "\<forall>e \<in> set (positions ops dim (d_zero dim) ?pre). target e = Greater"
    using seek_passed_spec [of ops dim "d_zero dim" target Left "tree_items t"] by (auto simp: past_end_def dim_of_def)
  have found: "?found \<longleftrightarrow> target (dim_of ops dim (?pre @ take 1 ?post)) = Equal" by (simp add: seek_found_def)
  show ?thesis
    by (rule exI [of _ ?found], rule exI [of _ c], rule exI [of _ ?pre], rule exI [of _ ?post], intro conjI)
      (use c(1) start stop found cursor_ok_item [OF c(3)] cursor_ok_end [OF c(3)] next_item_at [OF _ c(3)]
        prev_item_at [OF _ c(3)] seek_passed_rest [of ops dim target Left "d_zero dim" "tree_items t"] c(2) assms(2)
        in \<open>simp_all only: simp_thms\<close>)
qed

theorem seek_reads_witness: "\<exists>found c pre post.
    seek map_key_ref_dim (ord_target (Some 4)) Left (cursor_new map_key_ref_dim sample) = ret (found, c) \<and>
    pre @ post = tree_items sample \<and> cursor_item c = ret (list_first post)"
  using seek_reads [OF map_dim_laws sample_wf(2,6) sample_monotone sample_zero, of 4] by blast

text \<open>\<open>search_forward\<close> from a positioned cursor stops at the next item whose summary the filter
  accepts, or at the end, for every filter that accepts a stretch of the items when it accepts one of them.\<close>

lemma search_forward_next:
  assumes "dimension_laws ops dim" "sound_filter ops f (tree_items (c_tree c))"
    and "wf_tree ops (c_tree c)" "node_height (c_tree c) < STACK_CAP" "cursor_ok ops dim c pre (x # post)"
  shows "\<exists>c'. search_forward dim f c = ret c' \<and>
    cursor_item c' = ret (find (\<lambda>y. f (it_summary ops y)) post) \<and>
    cursor_start c' = dim_of ops dim (pre @ x # takeWhile (\<lambda>y. \<not> f (it_summary ops y)) post)"
proof -
  have "sound_tree ops f (c_tree c)" 
    by (rule dimension_laws.sound_filter_tree [OF assms(1,3,2)])
  then obtain c' where c': "search_forward dim f c = ret c'"
      "cursor_ok ops dim c' (pre @ [x] @ takeWhile (rejects ops f) post) (dropWhile (rejects ops f) post)"
    using dimension_laws.search_forward_at [OF assms(1) _ assms(3-5)] by blast
  have "list_first (dropWhile (rejects ops f) post) = find (\<lambda>y. f (it_summary ops y)) post"
    by (induction post) simp_all
  then show ?thesis
    using c' cursor_ok_item [OF c'(2)] ready_pos [of ops dim c' _ "dropWhile (rejects ops f) post"]
    by (auto simp: cursor_ready_def cursor_start_def)
qed

text \<open>A cursor in front of the second item of the sample, and the filter for keys from \<open>k\<close> on.\<close>

definition sample_cursor :: "((nat, nat) map_entry, nat option, nat option) cursor" where
  "sample_cursor = \<lparr>c_tree = sample,
     c_stack = [\<lparr>se_tree = leaf3, se_index = 1, se_position = Some 1\<rparr>,
                \<lparr>se_tree = sample, se_index = 0, se_position = None\<rparr>],
     c_position = Some 1, c_did_seek = True, c_at_end = False\<rparr>"

lemma sample_cursor_tree [simp]: "c_tree sample_cursor = sample"
  by (simp add: sample_cursor_def)

lemma sample_cursor_ok: "cursor_ok map_ops map_key_ref_dim sample_cursor [ent 1] [ent 3, ent 5, ent 7, ent 9]"
  by (simp add: sample_cursor_def cursor_ok_def sample_def leaf3_def map_key_ref_dim_def dim_of_def map_ops_def ent_def)

lemma from_key_sound:
  fixes k :: "'k::linorder" and xs :: "('k, 'v) map_entry list"
  assumes "sorted_keys map_keyed xs"
  shows "sound_filter map_ops (\<lambda>s. Some k \<le> s) xs"
  unfolding sound_filter_def
proof (intro allI impI)
  fix us ys vs assume xs: "xs = us @ ys @ vs" and ys: "ys \<noteq> []" "\<not> Some k \<le> items_summary map_ops ys"
  from ys(1) obtain zs z where z: "ys = zs @ [z]" by (cases ys rule: rev_cases) auto
  have "items_summary map_ops ys = Some (me_key z)" unfolding z by (simp add: items_summary_def sum_s_def map_ops_def)
  moreover have "me_key y \<le> me_key z" if "y \<in> set ys" for y using assms that unfolding xs z by auto
  ultimately show "\<forall>y \<in> set ys. rejects map_ops (\<lambda>s. Some k \<le> s) y" using ys(2) by (fastforce simp: map_ops_def)
qed

text \<open>\<open>search_backward\<close> from a positioned cursor stops at the nearest earlier item whose summary the filter
  accepts; when there is none the cursor is back at the start of the tree.\<close>

lemma search_backward_previous:
  assumes "dimension_laws ops dim" "sound_filter ops f (tree_items (c_tree c))"
    and "wf_tree ops (c_tree c)" "node_height (c_tree c) < STACK_CAP" "cursor_ok ops dim c pre post"
  shows "\<exists>c'. search_backward dim f c = ret c' \<and>
    ((\<exists>xs x ys. pre = xs @ x # ys \<and> f (it_summary ops x) \<and> (\<forall>y \<in> set ys. \<not> f (it_summary ops y)) \<and>
        cursor_item c' = ret (Some x) \<and> cursor_start c' = dim_of ops dim xs) \<or>
     ((\<forall>x \<in> set pre. \<not> f (it_summary ops x)) \<and> cursor_start c' = d_zero dim))"
proof -
  have "sound_tree ops f (c_tree c)"
    by (rule dimension_laws.sound_filter_tree [OF assms(1,3,2)])
  then obtain c' where c': "search_backward dim f c = ret c'"
      "(\<exists>xs x ys. pre = xs @ x # ys \<and> f (it_summary ops x) \<and> (\<forall>y \<in> set ys. rejects ops f y) \<and>
          cursor_ok ops dim c' xs (x # ys @ post)) \<or>
       ((\<forall>x \<in> set pre. rejects ops f x) \<and> cursor_fresh dim c')"
    using dimension_laws.search_backward_ok [OF assms(1) _ assms(3,4)] assms(5) by blast
  from c'(2) show ?thesis
  proof
    assume "\<exists>xs x ys. pre = xs @ x # ys \<and> f (it_summary ops x) \<and> (\<forall>y \<in> set ys. rejects ops f y) \<and>
      cursor_ok ops dim c' xs (x # ys @ post)"
    then obtain xs x ys where x: "pre = xs @ x # ys" "f (it_summary ops x)" "\<forall>y \<in> set ys. rejects ops f y"
        "cursor_ok ops dim c' xs (x # ys @ post)" by blast
    have "cursor_start c' = dim_of ops dim xs" by (rule ok_start [OF x(4)])
    then show ?thesis using x c'(1) cursor_ok_item [OF x(4)] by (auto simp: list_first_def)
  qed (use c'(1) in \<open>auto simp: cursor_fresh_def cursor_start_def\<close>)
qed

text \<open>\<open>prev\<close> undoes \<open>next\<close>: after both, the cursor shows the item it started at, with the same
  start, end and neighbours.\<close>

lemma prev_undoes_next:
  assumes "dimension_laws ops dim" "wf_tree ops (c_tree c)" "node_height (c_tree c) < STACK_CAP"
    and "cursor_ok ops dim c pre (x # post)"
  shows "\<exists>c1 c2. cursor_next dim c = ret c1 \<and> cursor_prev dim c1 = ret c2 \<and>
    cursor_item c1 = ret (list_first post) \<and> cursor_start c1 = dim_of ops dim (pre @ [x]) \<and>
    cursor_item c2 = cursor_item c \<and> cursor_start c2 = cursor_start c \<and> cursor_end dim c2 = cursor_end dim c \<and>
    next_item c2 = next_item c \<and> prev_item c2 = prev_item c"
proof -
  obtain c1 where c1: "cursor_next dim c = ret c1" "c_tree c1 = c_tree c" "cursor_ok ops dim c1 (pre @ [x]) post"
    using dimension_laws.cursor_next_at [OF assms] by blast
  obtain c2 where c2: "cursor_prev dim c1 = ret c2" "c_tree c2 = c_tree c" "cursor_ok ops dim c2 pre (x # post)"
    using dimension_laws.cursor_prev_at [OF assms(1) _ _ c1(3)] assms(2,3) c1(2) by auto
  have starts: "cursor_start c = dim_of ops dim pre" "cursor_start c1 = dim_of ops dim (pre @ [x])"
      "cursor_start c2 = dim_of ops dim pre"
    using ok_start [OF assms(4)] ok_start [OF c1(3)] ok_start [OF c2(3)] by simp_all
  show ?thesis
    by (rule exI [of _ c1], rule exI [of _ c2], intro conjI)
      (use c1 c2 starts assms(2,4) cursor_ok_item [OF assms(4)] cursor_ok_item [OF c2(3)] cursor_ok_item [OF c1(3)]
        cursor_ok_end [OF assms(4)] cursor_ok_end [OF c2(3)] next_item_at [OF _ assms(4)] next_item_at [OF _ c2(3)]
        prev_item_at [OF _ assms(4)] prev_item_at [OF _ c2(3)] in \<open>simp_all only: simp_thms\<close>)
qed

text \<open>\<open>summary\<close> from a new cursor is the sum, in the other dimension, of the items a seek to the same
  target passes.\<close>

lemma cursor_summary_correct:
  assumes "dimension_laws ops dim" "dimension_laws ops out" "wf_tree ops t" "node_height t < STACK_CAP"
    and "monotone_target ops dim target (tree_items t)" "target (d_zero dim) \<noteq> Less"
  shows "\<exists>pre post c. cursor_summary out dim target b (cursor_new dim t) = ret (dim_of ops out pre, c) \<and>
    pre @ post = tree_items t \<and> cursor_start c = dim_of ops dim pre \<and>
    (\<forall>e \<in> set (positions ops dim (d_zero dim) pre). past_end b (target e)) \<and>
    (post = [] \<or> \<not> past_end b (target (dim_of ops dim (pre @ [hd post]))))"
proof -
  let ?pre = "seek_passed ops dim target b (d_zero dim) (tree_items t)"
    and ?post = "seek_rest ops dim target b (d_zero dim) (tree_items t)"
  have two: "two_dimensions ops dim out" by (rule two_dimensions.intro [OF assms(1,2)])
  obtain c where c: "cursor_summary out dim target b (cursor_new dim t) = ret (dim_of ops out ?pre, c)"
      "cursor_ok ops dim c ?pre ?post"
    using two_dimensions.cursor_summary_ok [OF two, of "cursor_new dim t" "[]" "tree_items t", OF _ _ ready_new]
      assms(3-6) by (simp add: monotone_target_def) metis
  have "cursor_start c = dim_of ops dim ?pre"
    by (rule ok_start [OF c(2)])
  then show ?thesis
    using c(1) seek_passed_rest [of ops dim target b "d_zero dim" "tree_items t"]
      seek_passed_spec [of ops dim "d_zero dim" target b "tree_items t"] by (auto simp: dim_of_def)
qed

section \<open>Searches without a cursor\<close>

text \<open>\<open>find\<close> gives what the cursor it replaces gives: the start, the end and the item a new cursor
  has after seeking the target.\<close>

lemma find_as_cursor:
  assumes "dimension_laws ops dim" "wf_tree ops t" "node_height t < STACK_CAP" "\<not> is_empty t"
    and "monotone_target ops dim target (tree_items t)" "target (d_zero dim) \<noteq> Less"
  shows "\<exists>found c e item. seek dim target b (cursor_new dim t) = ret (found, c) \<and>
    cursor_end dim c = ret e \<and> cursor_item c = ret item \<and> tree_find dim target b t = (cursor_start c, e, item)"
proof -
  let ?pre = "seek_passed ops dim target b (d_zero dim) (tree_items t)"
    and ?post = "seek_rest ops dim target b (d_zero dim) (tree_items t)"
  obtain c where c: "seek dim target b (cursor_new dim t) = ret (seek_found ops dim target b ?pre ?post, c)"
      "c_tree c = t" "cursor_ok ops dim c ?pre ?post"
    using dimension_laws.seek_ok [OF assms(1), of "cursor_new dim t" target b] assms(2,3,5,6) by auto
  have start: "cursor_start c = dim_of ops dim ?pre"
    by (rule ok_start [OF c(3)])
  have "tree_find dim target b t =
      (dim_of ops dim ?pre, dim_of ops dim (?pre @ take 1 ?post), list_first ?post)"
    using dimension_laws.find_scan [OF assms(1,2,5,4), of b]
    by (cases ?post) (simp_all add: scan_passed Let_def list_first_def dim_of_def)
  then show ?thesis
    using c start cursor_ok_item [OF c(3)] cursor_ok_end [OF c(3)] assms(2) by auto
qed

text \<open>Iteration: an iterator yields the items in order and then ends, \<open>items\<close> collects them, and
  two trees are equal exactly when their items are.\<close>

lemma iteration_correct:
  assumes "summary_laws ops" "wf_tree ops t" "node_height t < STACK_CAP" "wf_tree ops u" "node_height u < STACK_CAP"
  shows "(length (tree_items t) < n \<longrightarrow> iter_collect n (iter_new t) = ret (tree_items t)) \<and>
    sum_tree_items t = ret (tree_items t) \<and> tree_eq t u = ret (tree_items t = tree_items u)"
  using summary_laws.iter_collect_ok [OF assms(1) summary_laws.iter_new_at [OF assms(1-3)], of n]
    summary_laws.sum_tree_items_ok [OF assms(1-3)] summary_laws.tree_eq_ok [OF assms] by simp

text \<open>Updating the last or the first item changes that item alone and keeps the tree well formed,
  with its summaries brought up to date.\<close>

lemma update_ends_correct:
  assumes "wf_tree ops t"
  shows "\<exists>l r. update_last ops f t = ret l \<and> wf_tree ops l \<and> update_first ops f t = ret r \<and> wf_tree ops r \<and>
    (tree_items t \<noteq> [] \<longrightarrow> tree_items l = butlast (tree_items t) @ [f (last (tree_items t))] \<and>
       tree_items r = f (hd (tree_items t)) # tl (tree_items t)) \<and>
    (tree_items t = [] \<longrightarrow> tree_items l = [] \<and> tree_items r = [])"
  using update_last_ok [OF assms, of f] update_first_ok [OF assms, of f]
  by (fastforce simp: map_last_def map_first_def split: list.splits)

end
