(* ===== verification/TreeMap_Properties.thy ===== *)
theory TreeMap_Properties
  imports SumTree_Properties
begin

text \<open>
  What keyed trees, \<open>TreeMap\<close> and \<open>TreeSet\<close> promise: each operation refines the one on the
  mathematical map (\<open>map_view\<close>), ordered sequence (\<open>tm_entries\<close>) or set (\<open>set_view\<close>) the tree stands for.
\<close>

section \<open>Keyed trees\<close>

text \<open>C12: a batch of edits with distinct keys is applied as a whole: the result is a well-formed tree
  sorted by key where every key an edit names holds what that edit says and every other key what it held,
  and what is returned are the old items of the keys that edits name, all of them, in the order of the tree.\<close>

theorem edit_applies:
  assumes "keyed_items ops kops" "wf_tree ops self" "node_height self < STACK_CAP"
    and "sorted_keys kops (tree_items self)" "distinct (map (edit_key kops) edits)"
  shows "\<exists>removed t. tree_edit ops kops self edits = ret (removed, t) \<and> wf_tree ops t \<and>
    sorted_keys kops (tree_items t) \<and> removed = [x\<leftarrow>tree_items self. k_key kops x \<in> edit_key kops ` set edits] \<and>
    (\<forall>k. tree_get kops t k = (case find (\<lambda>e. edit_key kops e = k) edits of
        Some (Insert item) \<Rightarrow> Some item | Some (Remove _) \<Rightarrow> None | None \<Rightarrow> tree_get kops self k))"
proof -
  let ?es = "sort_key (edit_key kops) edits" and ?xs = "tree_items self"
  obtain t where t: "tree_edit ops kops self edits = ret (edit_removed kops ?es ?xs, t)" "wf_tree ops t"
      "tree_items t = edit_spec kops ?es ?xs"
    using keyed_items.tree_edit_ok [OF assms(1-4)] by blast
  have sorted: "sorted_keys kops (tree_items t)"
    unfolding t(3) by (rule edit_spec_sorted [OF assms(4) distinct_sorted_edits [OF assms(5)]])
  have "tree_get kops t k = edit_result kops edits k (tree_get kops self k)" for k
    unfolding keyed_items.tree_get_ok [OF assms(1) t(2) sorted] keyed_items.tree_get_ok [OF assms(1,2,4)] t(3)
      edit_spec_find [OF assms(4) distinct_sorted_edits [OF assms(5)]] by (rule find_sorted_edits [OF assms(5)])
  then show ?thesis using t(1,2) sorted edit_removed_eq [OF assms(4) distinct_sorted_edits [OF assms(5)]]
    by (auto simp: edit_result_def)
qed

lemma map_keyed_laws [simp]:
  "keyed_items (map_ops :: (('k::linorder, 'v) map_entry, 'k option) item_ops) map_keyed"
  by (unfold_locales, simp_all only: map_key_dim) (simp_all add: map_ops_def map_keyed_def map_key_ref_dim_def)

theorem edit_applies_witness: "\<exists>removed t. tree_edit map_ops map_keyed sample [Remove (Some 3), Insert (ent 4)] = ret (removed, t) \<and>
    tree_get map_keyed t (Some 4) = Some (ent 4) \<and> tree_get map_keyed t (Some 3) = None"
proof -
  have "distinct (map (edit_key map_keyed) [Remove (Some 3), Insert (ent 4)])"
    by (simp add: edit_key_def) (simp add: ent_def)
  from edit_applies [OF map_keyed_laws sample_wf(2,6) sample_sorted(1) this] show ?thesis
    by (auto simp: edit_key_def ent_def)
qed

section \<open>Maps\<close>

text \<open>C13: \<open>get\<close>, \<open>contains_key\<close>, \<open>insert_or_replace\<close>, \<open>insert\<close> and \<open>remove\<close> refine lookup, update and deletion of
  the map the tree stands for, return the old value, and keep the invariant.\<close>

theorem map_operations_refine:
  assumes "tm_inv m" "node_height m < STACK_CAP"
  shows "tm_get m k = map_view m k \<and> tm_contains_key m k = (k \<in> dom (map_view m)) \<and>
    (\<exists>m'. tm_insert_or_replace m k v = ret (map_view m k, m') \<and> tm_insert m k v = ret m' \<and>
       tm_inv m' \<and> map_view m' = (map_view m)(k \<mapsto> v)) \<and>
    (\<exists>m'. tm_remove m k = ret (map_view m k, m') \<and> tm_inv m' \<and> map_view m' = (map_view m)(k := None))"
  using tm_insert_or_replace_ok [OF assms, of k v] tm_remove_ok [OF assms, of k] tm_get_ok [OF assms(1), of k]
  by (auto simp: tm_insert_def tm_insert_or_replace_def tm_contains_key_def split: bind_splits)

theorem map_operations_refine_witness: "\<exists>m'. tm_insert sample 4 40 = ret m' \<and> map_view m' = (map_view sample)(4 \<mapsto> 40)"
  using map_operations_refine [OF sample_sorted(2) sample_wf(6), of 4 40] by auto

text \<open>\<open>update\<close> runs the function on the value of the key alone, returns its result, and does nothing
  when the key is absent.\<close>

lemma map_update_refines:
  assumes "tm_inv m" "node_height m < STACK_CAP"
  shows "\<exists>m'. tm_update m k f = ret (map_option (snd \<circ> f) (map_view m k), m') \<and> tm_inv m' \<and>
    map_view m' = (map_view m)(k := map_option (fst \<circ> f) (map_view m k))"
  by (rule tm_update_ok [OF assms])

text \<open>The ordered queries: \<open>iter\<close> gives the entries by ascending key, \<open>first\<close> and \<open>last\<close> its ends,
  \<open>iter_from\<close> its part from the key on, \<open>closest\<close> the entry with the greatest key not above the given one.\<close>

lemma map_ordered_queries:
  assumes "tm_inv m" "node_height m < STACK_CAP"
  shows "sorted_wrt (<) (map fst (tm_entries m)) \<and> tm_iter m = ret (tm_entries m) \<and>
    tm_first m = ret (list_first (tm_entries m)) \<and> tm_last m = ret (list_last (tm_entries m)) \<and>
    tm_iter_from m k = ret (filter (\<lambda>e. k \<le> fst e) (tm_entries m)) \<and>
    tm_closest m k = ret (list_last (filter (\<lambda>e. fst e \<le> k) (tm_entries m)))"
proof -
  have sorted: "sorted_wrt (<) (map fst (tm_entries m))"
    using assms(1) by (simp add: tm_inv_def sorted_plain tm_entries_def entry_pair_def sorted_wrt_map comp_def)
  have "dropWhile (\<lambda>e. fst e < k) es = filter (\<lambda>e. k \<le> fst e) es \<and>
      takeWhile (\<lambda>e. fst e \<le> k) es = filter (\<lambda>e. fst e \<le> k) es"
    if "sorted_wrt (<) (map fst es)" for es :: "('a \<times> 'b) list"
    using that
  proof (induction es)
    case (Cons e es)
    have "filter (\<lambda>e. fst e \<le> k) es = []" if "\<not> fst e \<le> k"
      using Cons.prems that by (fastforce simp: filter_empty_conv)
    moreover have "filter (\<lambda>e. k \<le> fst e) es = es" if "k \<le> fst e"
      using Cons.prems that by (fastforce simp: filter_id_conv)
    ultimately show ?case using Cons by auto
  qed simp
  from this [OF sorted] show ?thesis
    using sorted tm_iter_ok(1) [OF assms] tm_ends_ok [OF assms(1)] tm_iter_from_ok [OF assms, of k] tm_closest_ok [OF assms, of k]
    by simp
qed

text \<open>\<open>remove_range\<close> with keys in order removes exactly the keys from the start (included) to the end (excluded).\<close>

lemma map_remove_range:
  fixes m :: "('k::linorder, 'v) tree_map"
  assumes "tm_inv m" "node_height m < STACK_CAP" "start \<le> stop"
  shows "\<exists>m'. tm_remove_range m (ord_cmp start) (ord_cmp stop) = ret m' \<and> tm_inv m' \<and>
    tm_entries m' = filter (\<lambda>e. fst e < start \<or> stop \<le> fst e) (tm_entries m)"
proof -
  have cmp: "range_target (ord_cmp k)" for k :: 'k
    by (auto simp: range_target_def in_child_def ord_cmp_def split: bias.splits)
  have greater: "ord_cmp k x = Greater \<longleftrightarrow> x < k" for k x :: 'k by (auto simp: ord_cmp_def)
  have sorted: "sorted_wrt (<) (map fst (tm_entries m))"
    using assms(1) by (simp add: tm_inv_def sorted_plain tm_entries_def entry_pair_def sorted_wrt_map comp_def)
  have split: "takeWhile (\<lambda>e. fst e < start) es @ dropWhile (\<lambda>e. fst e < stop) es =
      filter (\<lambda>e. fst e < start \<or> stop \<le> fst e) es"
    if "sorted_wrt (<) (map fst es)" for es :: "('k \<times> 'v) list"
    using that
  proof (induction es)
    case (Cons e es)
    have "filter (\<lambda>e. fst e < start \<or> stop \<le> fst e) es = es" if "stop \<le> fst e"
      using Cons.prems that by (fastforce simp: filter_id_conv)
    moreover have "takeWhile (\<lambda>e. fst e < start) es = []" if "start \<le> fst e"
      using Cons.prems that by (cases es) auto
    ultimately show ?case using Cons assms(3) by auto
  qed simp
  obtain m' where m': "tm_remove_range m (ord_cmp start) (ord_cmp stop) = ret m'" "wf_tree map_ops m'"
      "tm_entries m' = filter (\<lambda>e. fst e < start \<or> stop \<le> fst e) (tm_entries m)"
    using tm_remove_range_ok [OF assms(1,2) cmp cmp, of start stop] unfolding greater split [OF sorted] by blast
  have "sorted_wrt (<) (map fst (tm_entries m'))"
    unfolding m'(3) using sorted by (simp add: sorted_wrt_map sorted_wrt_filter)
  then have "tm_inv m'"
    using m'(2) by (simp add: tm_inv_def sorted_plain tm_entries_def entry_pair_def sorted_wrt_map comp_def)
  with m' show ?thesis by blast
qed

text \<open>Bulk operations: \<open>retain\<close> keeps exactly the accepted entries, \<open>insert_tree\<close> and, for distinct keys,
  \<open>extend\<close> override the map with the other one, \<open>from_ordered_entries\<close> holds ascending entries as given.\<close>

lemma map_bulk_operations:
  assumes "tm_inv m" "node_height m < STACK_CAP" "tm_inv other" "node_height other < STACK_CAP"
  shows "(\<exists>m'. tm_retain m P = ret m' \<and> tm_inv m' \<and> tm_entries m' = filter (\<lambda>(k, v). P k v) (tm_entries m)) \<and>
    (\<exists>m'. tm_insert_tree m other = ret m' \<and> tm_inv m' \<and> map_view m' = map_view m ++ map_view other) \<and>
    (distinct (map fst entries) \<longrightarrow>
       (\<exists>m'. tm_extend m entries = ret m' \<and> tm_inv m' \<and> map_view m' = map_view m ++ map_of entries)) \<and>
    (sorted_wrt (<) (map fst entries) \<longrightarrow>
       (\<exists>m'. tm_from_ordered_entries entries = ret m' \<and> tm_inv m' \<and> tm_entries m' = entries))"
  using tm_retain_ok [OF assms(1,2)] tm_insert_tree_ok [OF assms] tm_extend_ok [OF assms(1,2)]
    tm_from_ordered_entries_ok by blast

section \<open>Sets\<close>

text \<open>The operations of \<open>TreeSet\<close> refine membership, insertion and deletion of the set of its keys.\<close>

lemma set_operations_refine:
  assumes "tm_inv s" "node_height s < STACK_CAP"
  shows "ts_contains s k = (k \<in> set_view s) \<and>
    (\<exists>s'. ts_insert s k = ret s' \<and> tm_inv s' \<and> set_view s' = insert k (set_view s)) \<and>
    (\<exists>s'. ts_remove s k = ret (k \<in> set_view s, s') \<and> tm_inv s' \<and> set_view s' = set_view s - {k})"
  using ts_contains_ok [OF assms(1)] ts_insert_ok [OF assms] ts_remove_ok [OF assms] by blast

section \<open>Where the operations fall short\<close>

text \<open>\<open>extend\<close> with two entries for one key leaves both in the tree, which is then no longer sorted
  without duplicates.\<close>

lemma extend_keeps_duplicates:
  assumes "tm_inv m" "node_height m < STACK_CAP"
  shows "\<exists>m'. tm_extend m [(k, v1), (k, v2)] = ret m' \<and>
    tm_entries m' = filter (\<lambda>e. fst e < k) (tm_entries m) @ [(k, v1), (k, v2)] @ filter (\<lambda>e. k < fst e) (tm_entries m) \<and>
    \<not> tm_inv m'"
proof -
  define es :: "(('a, 'b) map_entry, 'a map_key) edit list" where "es = insertions [(k, v1), (k, v2)]"
  have inv: "wf_tree map_ops m" "sorted_keys map_keyed (tree_items m)" using assms(1) by (simp_all add: tm_inv_def)
  have "sort_key (edit_key map_keyed) es = es" by (simp add: es_def edit_key_def)
  with tm.tree_edit_ok [OF inv(1) assms(2) inv(2), of es] obtain t r where t:
      "tree_edit map_ops map_keyed m es = ret (r, t)" "tree_items t = edit_spec map_keyed es (tree_items m)"
    by metis
  let ?above = "dropWhile (\<lambda>e. me_key e \<le> k) (tree_items m)"
  have above: "\<forall>e \<in> set ?above. k < me_key e"
    using keys_above_greater [OF inv(2), of _ "Some k"] by (auto simp: above_plain)
  have "takeWhile (\<lambda>e. me_key e < k) xs = []" "dropWhile (\<lambda>e. me_key e \<le> k) xs = xs"
    if "\<forall>e \<in> set xs. k < me_key e" for xs :: "('a, 'b) map_entry list"
    using that by (cases xs; fastforce)+
  note nothing = this [OF above]
  then have items: "tree_items t = takeWhile (\<lambda>e. me_key e < k) (tree_items m) @
      [\<lparr>me_key = k, me_value = v1\<rparr>, \<lparr>me_key = k, me_value = v2\<rparr>] @ ?above"
    unfolding t(2) es_def by (simp add: edit_key_def edit_insertion_def below_plain above_plain nothing)
  have filters: "takeWhile (\<lambda>e. me_key e < k) xs = filter (\<lambda>e. me_key e < k) xs \<and>
      dropWhile (\<lambda>e. me_key e \<le> k) xs = filter (\<lambda>e. k < me_key e) xs"
    if "sorted_keys map_keyed xs" for xs :: "('a, 'b) map_entry list"
    using that
  proof (induction xs)
    case (Cons x xs)
    have "filter (\<lambda>e. me_key e < k) xs = []" if "\<not> me_key x < k"
      using Cons.prems that by (fastforce simp: filter_empty_conv)
    moreover have "filter (\<lambda>e. k < me_key e) xs = xs" if "k < me_key x"
      using Cons.prems that by (fastforce simp: filter_id_conv)
    ultimately show ?case using Cons by auto
  qed simp
  have "\<not> tm_inv t" by (simp add: tm_inv_def items)
  moreover have "tm_entries t = filter (\<lambda>e. fst e < k) (tm_entries m) @ [(k, v1), (k, v2)] @ filter (\<lambda>e. k < fst e) (tm_entries m)"
    using filters [OF inv(2)] by (simp add: tm_entries_def items entry_pair_def filter_map comp_def)
  ultimately show ?thesis using t(1) unfolding es_def by (simp add: tm_extend_def)
qed

text \<open>The lower bound of \<open>size_hint\<close> is exact for a new iterator over one leaf, but one too high after
  \<open>next\<close> has returned the first item.\<close>

lemma size_hint_overstates:
  assumes "summary_laws ops" "wf_tree ops (Leaf s (x # xs) iss)"
  shows "iter_size_hint (iter_new (Leaf s (x # xs) iss)) = ret (length (x # xs)) \<and>
    (\<exists>it. iter_next (iter_new (Leaf s (x # xs) iss)) = ret (Some x, it) \<and>
       iter_size_hint it = ret (Suc (length xs)) \<and> iter_collect (Suc (length xs)) it = ret xs)"
proof -
  have iss: "length iss = Suc (length xs)" using assms(2) by simp
  let ?t = "Leaf s (x # xs) iss"
  let ?it = "\<lambda>n. \<lparr>ti_tree = ?t, ti_stack = [\<lparr>se_tree = ?t, se_index = n, se_position = ()\<rparr>]\<rparr>"
  have first: "iter_next (iter_new ?t) = ret (Some x, ?it 0)"
    by (simp add: iter_next_def iter_new_def stack_push_def STACK_CAP_def iter_loop.simps(2) list_get_def)
  have "node_height ?t < STACK_CAP" by (simp add: STACK_CAP_def)
  from summary_laws.iter_next_ok [OF assms(1) summary_laws.iter_new_at [OF assms(1,2) this]] first
  have "summary_laws.iter_at ops (?it 0) [x] xs" by auto
  from summary_laws.iter_collect_ok [OF assms(1) this, of "Suc (length xs)"] show ?thesis
    using first iss by (simp add: iter_size_hint_def checked_minus_def iter_new_def)
qed

end
