(* ===== verification/Rust_Text.thy ===== *)
theory Rust_Text
  imports Prelude
begin

text \<open>
  The parts of Rust's \<open>char\<close>, \<open>str\<close> and \<open>Result\<close> the keymap code uses. A character of the model
  is a code point below 256 (\<open>char\<close>), a \<open>str\<close> is the list of its characters; on these code points the
  predicates are those of the Unicode tables. Byte offsets into a \<open>str\<close> only occur as the lengths
  of prefixes, so cutting at an offset is cutting off that prefix.
\<close>

section \<open>Characters\<close>

definition code_point :: "char \<Rightarrow> nat" where
  "code_point c = of_char c"

definition is_alphabetic :: "char \<Rightarrow> bool" where
  "is_alphabetic c = (let n = code_point c in
     65 \<le> n \<and> n \<le> 90 \<or> 97 \<le> n \<and> n \<le> 122 \<or> n = 170 \<or> n = 181 \<or> n = 186 \<or>
     192 \<le> n \<and> n \<noteq> 215 \<and> n \<noteq> 247)"

definition is_numeric :: "char \<Rightarrow> bool" where
  "is_numeric c = (let n = code_point c in
     48 \<le> n \<and> n \<le> 57 \<or> n = 178 \<or> n = 179 \<or> n = 185 \<or> 188 \<le> n \<and> n \<le> 190)"

definition is_alphanumeric :: "char \<Rightarrow> bool" where
  "is_alphanumeric c = (is_alphabetic c \<or> is_numeric c)"

definition is_whitespace :: "char \<Rightarrow> bool" where
  "is_whitespace c = (let n = code_point c in 9 \<le> n \<and> n \<le> 13 \<or> n = 32 \<or> n = 133 \<or> n = 160)"

definition is_ascii_uppercase :: "char \<Rightarrow> bool" where
  "is_ascii_uppercase c = (let n = code_point c in 65 \<le> n \<and> n \<le> 90)"

definition is_ascii_lowercase :: "char \<Rightarrow> bool" where
  "is_ascii_lowercase c = (let n = code_point c in 97 \<le> n \<and> n \<le> 122)"

definition to_ascii_lowercase :: "char \<Rightarrow> char" where
  "to_ascii_lowercase c = (if is_ascii_uppercase c then char_of (code_point c + 32) else c)"

definition to_ascii_uppercase :: "char \<Rightarrow> char" where
  "to_ascii_uppercase c = (if is_ascii_lowercase c then char_of (code_point c - 32) else c)"

lemmas char_defs = code_point_def is_alphabetic_def is_numeric_def is_alphanumeric_def is_whitespace_def
  is_ascii_uppercase_def is_ascii_lowercase_def to_ascii_lowercase_def to_ascii_uppercase_def Let_def

lemma code_point_bound: "code_point c < 256"
  by (simp add: code_point_def)

lemma alphanumeric_no_whitespace: "is_alphanumeric c \<Longrightarrow> \<not> is_whitespace c"
  unfolding is_alphanumeric_def is_alphabetic_def is_numeric_def is_whitespace_def Let_def by linarith

lemma lowercase_code: "code_point (to_ascii_lowercase c) = (if is_ascii_uppercase c then code_point c + 32 else code_point c)"
  by (auto simp: to_ascii_lowercase_def is_ascii_uppercase_def code_point_def of_char_of)

lemma lowercase_not_upper [simp]: "\<not> is_ascii_uppercase (to_ascii_lowercase c)"
  using lowercase_code [of c] by (auto simp: is_ascii_uppercase_def Let_def split: if_splits)

lemma lowercase_id [simp]: "\<not> is_ascii_uppercase c \<Longrightarrow> to_ascii_lowercase c = c"
  by (simp add: to_ascii_lowercase_def)

section \<open>Strings\<close>

definition eq_ignore_ascii_case :: "string \<Rightarrow> string \<Rightarrow> bool" where
  "eq_ignore_ascii_case a b = (map to_ascii_lowercase a = map to_ascii_lowercase b)"

fun strip_prefix :: "string \<Rightarrow> string \<Rightarrow> string option" where
  "strip_prefix [] s = Some s"
| "strip_prefix (p # ps) (c # s) = (if p = c then strip_prefix ps s else None)"
| "strip_prefix (p # ps) [] = None"

definition starts_with :: "string \<Rightarrow> string \<Rightarrow> bool" where
  "starts_with s p = (strip_prefix p s \<noteq> None)"

definition ends_with :: "string \<Rightarrow> char \<Rightarrow> bool" where
  "ends_with s c = (s \<noteq> [] \<and> last s = c)"

text \<open>\<open>split(c)\<close>: the pieces between the occurrences of \<open>c\<close>, always at least one.\<close>

fun split_char :: "char \<Rightarrow> string \<Rightarrow> string list" where
  "split_char c [] = [[]]"
| "split_char c (x # xs) =
     (if x = c then [] # split_char c xs
      else (case split_char c xs of [] \<Rightarrow> [[x]] | w # ws \<Rightarrow> (x # w) # ws))"

text \<open>\<open>split_whitespace\<close>: the maximal pieces without whitespace.\<close>

function split_whitespace :: "string \<Rightarrow> string list" where
  "split_whitespace s = (
     let s' = dropWhile is_whitespace s in
     if s' = [] then []
     else takeWhile (\<lambda>c. \<not> is_whitespace c) s' # split_whitespace (dropWhile (\<lambda>c. \<not> is_whitespace c) s'))"
  by pat_completeness auto
termination
proof (relation "measure length")
  fix s s' assume s': "s' = dropWhile is_whitespace s" "s' \<noteq> []"
  then have "\<not> is_whitespace (hd s')" using hd_dropWhile [of is_whitespace s] by simp
  with s'(2) obtain c cs where c: "s' = c # cs" "\<not> is_whitespace c" by (cases s') auto
  have "length (dropWhile (\<lambda>c. \<not> is_whitespace c) s') \<le> length cs" using c by (simp add: length_dropWhile_le)
  also have "length cs < length s'" by (simp add: c)
  also have "length s' \<le> length s" by (simp add: s'(1) length_dropWhile_le)
  finally show "(dropWhile (\<lambda>c. \<not> is_whitespace c) s', s) \<in> measure length" by simp
qed simp

declare split_whitespace.simps [simp del]

lemma strip_prefix_append [simp]: "strip_prefix p (p @ s) = Some s"
  by (induction p) simp_all

lemma strip_prefix_Some: "strip_prefix p s = Some r \<longleftrightarrow> s = p @ r"
  by (induction p s rule: strip_prefix.induct) auto

lemma starts_with_append: "starts_with s p \<longleftrightarrow> (\<exists>r. s = p @ r)"
  by (auto simp: starts_with_def strip_prefix_Some)

lemma split_char_not_Nil [simp]: "split_char c s \<noteq> []"
  by (induction s) (auto split: list.splits)

lemma split_char_none: "c \<notin> set s \<Longrightarrow> split_char c s = [s]"
  by (induction s) auto

lemma split_char_append: "c \<notin> set s \<Longrightarrow> split_char c (s @ c # t) = s # split_char c t"
  by (induction s) (auto split: list.splits)

section \<open>Results\<close>

text \<open>
  The \<open>?\<close> operator on a \<open>Result\<close> (\<open>Inl\<close> the error) inside a computation that may panic or, where it
  is cut off by fuel, not return.
\<close>

definition try_then :: "('e + 'a) rust \<Rightarrow> ('a \<Rightarrow> ('e + 'b) rust) \<Rightarrow> ('e + 'b) rust" where
  "try_then x k = do { r \<leftarrow> x; case r of Inl e \<Rightarrow> ret (Inl e) | Inr v \<Rightarrow> k v }"

lemma try_then_simps [simp]:
  "try_then panic k = panic"
  "try_then (ret (Inl e)) k = ret (Inl e)"
  "try_then (ret (Inr v)) k = k v"
  by (simp_all add: try_then_def)

lemma try_then_ret:
  "try_then x k = ret r \<longleftrightarrow> (\<exists>e. x = ret (Inl e) \<and> r = Inl e) \<or> (\<exists>v. x = ret (Inr v) \<and> k v = ret r)"
  by (cases x; auto simp: try_then_def split: sum.splits)

end
