(* ===== verification/Key_Context.thy ===== *)
theory Key_Context
  imports Rust_Text
begin

text \<open>
  \<open>gpui/src/keymap/context.rs\<close>, first half: the entries a \<open>KeyContext\<close> holds, its parser, and the
  evaluation of \<open>KeyBindingContextPredicate\<close> against a stack of contexts.
\<close>

section \<open>Contexts\<close>

record context_entry =
  ce_key :: string
  ce_value :: "string option"

type_synonym key_context = "context_entry list"

text \<open>\<open>skip_whitespace\<close> and the two classes of characters.\<close>

definition skip_whitespace :: "string \<Rightarrow> string" where
  "skip_whitespace source = dropWhile is_whitespace source"

definition is_identifier_char :: "char \<Rightarrow> bool" where
  "is_identifier_char c = (is_alphanumeric c \<or> c = CHR ''_'' \<or> c = CHR ''-'')"

definition is_vim_operator_char :: "char \<Rightarrow> bool" where
  "is_vim_operator_char c =
     (c = CHR ''>'' \<or> c = CHR ''<'' \<or> c = CHR ''~'' \<or> c = CHR 0x22 \<or> c = CHR ''?'')"

definition kc_contains :: "key_context \<Rightarrow> string \<Rightarrow> bool" where
  "kc_contains self key = list_ex (\<lambda>entry. ce_key entry = key) self"

definition kc_get :: "key_context \<Rightarrow> string \<Rightarrow> string option" where
  "kc_get self key = do { entry \<leftarrow> find (\<lambda>entry. ce_key entry = key) self; ce_value entry }"

definition kc_add :: "key_context \<Rightarrow> string \<Rightarrow> key_context" where
  "kc_add self key = (if \<not> kc_contains self key then self @ [\<lparr>ce_key = key, ce_value = None\<rparr>] else self)"

definition kc_set :: "key_context \<Rightarrow> string \<Rightarrow> string \<Rightarrow> key_context" where
  "kc_set self key v =
     (if \<not> kc_contains self key then self @ [\<lparr>ce_key = key, ce_value = Some v\<rparr>] else self)"

definition kc_extend :: "key_context \<Rightarrow> key_context \<Rightarrow> key_context" where
  "kc_extend self other =
     foldl (\<lambda>self entry. if \<not> kc_contains self (ce_key entry) then self @ [entry] else self) self other"

definition kc_is_empty :: "key_context \<Rightarrow> bool" where
  "kc_is_empty self = (self = [])"

definition kc_clear :: "key_context \<Rightarrow> key_context" where
  "kc_clear self = []"

definition kc_primary :: "key_context \<Rightarrow> context_entry option" where
  "kc_primary self = find (\<lambda>p. ce_value p = None) self"

definition kc_secondary :: "key_context \<Rightarrow> key_context" where
  "kc_secondary self = filter (\<lambda>p. Some p \<noteq> kc_primary self) self"

text \<open>The \<open>cfg\<close> of the target is an argument.\<close>

datatype target_os = Macos | Linux | Freebsd | Windows | Other_Os

definition kc_new_with_defaults :: "target_os \<Rightarrow> key_context" where
  "kc_new_with_defaults os = kc_set [] ''os''
     (case os of Macos \<Rightarrow> ''macos'' | Linux \<Rightarrow> ''linux'' | Freebsd \<Rightarrow> ''linux'' | Windows \<Rightarrow> ''windows''
      | Other_Os \<Rightarrow> ''unknown'')"

text \<open>
  \<open>parse_expr\<close> calls itself on what is left; \<open>None\<close> is a recursion that does not end. It never
  returns an error.
\<close>

partial_function (option) kc_parse_expr :: "string \<Rightarrow> key_context \<Rightarrow> key_context option" where
  "kc_parse_expr source context =
     (if source = [] then Some context
      else let key = takeWhile is_identifier_char source;
               source1 = skip_whitespace (drop (length key) source)
           in case strip_prefix ''='' source1 of
                Some suffix \<Rightarrow>
                  (let source2 = skip_whitespace suffix;
                       v = takeWhile is_identifier_char source2;
                       source3 = skip_whitespace (drop (length v) source2)
                   in kc_parse_expr source3 (kc_set context key v))
              | None \<Rightarrow> kc_parse_expr source1 (kc_add context key))"

definition kc_parse :: "string \<Rightarrow> key_context option" where
  "kc_parse source = kc_parse_expr (skip_whitespace source) []"

text \<open>The \<open>Debug\<close> format.\<close>

definition entry_debug :: "context_entry \<Rightarrow> string" where
  "entry_debug entry = (case ce_value entry of Some v \<Rightarrow> ce_key entry @ ''='' @ v | None \<Rightarrow> ce_key entry)"

fun kc_debug :: "key_context \<Rightarrow> string" where
  "kc_debug [] = []"
| "kc_debug (entry # entries) = entry_debug entry @ (if entries \<noteq> [] then '' '' else []) @ kc_debug entries"

section \<open>Predicates\<close>

datatype predicate =
    Identifier string
  | Equals string string
  | NotEquals string string
  | Descendant predicate predicate
  | Not predicate
  | And predicate predicate
  | Or predicate predicate

text \<open>
  \<open>eval_inner\<close>: the loop of \<open>Not\<close> looks at every prefix of all contexts, the one of \<open>Descendant\<close> for
  the first prefix the parent matches.
\<close>

primrec eval_inner :: "predicate \<Rightarrow> key_context list \<Rightarrow> key_context list \<Rightarrow> bool" where
  "eval_inner (Identifier name) contexts all_contexts =
     (case list_last contexts of None \<Rightarrow> False | Some ctx \<Rightarrow> kc_contains ctx name)"
| "eval_inner (Equals left right) contexts all_contexts =
     (case list_last contexts of None \<Rightarrow> False | Some ctx \<Rightarrow>
        (case kc_get ctx left of Some v \<Rightarrow> v = right | None \<Rightarrow> False))"
| "eval_inner (NotEquals left right) contexts all_contexts =
     (case list_last contexts of None \<Rightarrow> False | Some ctx \<Rightarrow>
        (case kc_get ctx left of Some v \<Rightarrow> v \<noteq> right | None \<Rightarrow> True))"
| "eval_inner (Not pred) contexts all_contexts =
     (case list_last contexts of None \<Rightarrow> False | Some _ \<Rightarrow>
        \<not> list_ex (\<lambda>i. eval_inner pred (take (Suc i) all_contexts) all_contexts) [0..<length all_contexts])"
| "eval_inner (Descendant parent child) contexts all_contexts =
     (case list_last contexts of None \<Rightarrow> False | Some _ \<Rightarrow>
        (case find (\<lambda>i. eval_inner parent (take (Suc i) contexts) all_contexts) [0..<length contexts - 1] of
           Some i \<Rightarrow> eval_inner child (drop (Suc i) contexts) (drop (Suc i) contexts)
         | None \<Rightarrow> False))"
| "eval_inner (And left right) contexts all_contexts =
     (case list_last contexts of None \<Rightarrow> False | Some _ \<Rightarrow>
        eval_inner left contexts all_contexts \<and> eval_inner right contexts all_contexts)"
| "eval_inner (Or left right) contexts all_contexts =
     (case list_last contexts of None \<Rightarrow> False | Some _ \<Rightarrow>
        eval_inner left contexts all_contexts \<or> eval_inner right contexts all_contexts)"

definition pred_eval :: "predicate \<Rightarrow> key_context list \<Rightarrow> bool" where
  "pred_eval self contexts = eval_inner self contexts contexts"

definition depth_of :: "predicate \<Rightarrow> key_context list \<Rightarrow> nat option" where
  "depth_of self contexts =
     find (\<lambda>depth. eval_inner self (take depth contexts) contexts) (rev [0..<Suc (length contexts)])"

fun is_superset :: "predicate \<Rightarrow> predicate \<Rightarrow> bool" where
  "is_superset self other =
     (if self = other then True
      else case self of
        Or left right \<Rightarrow> is_superset left other \<or> is_superset right other
      | _ \<Rightarrow>
         (case other of
            Descendant _ child \<Rightarrow> is_superset self child
          | And left right \<Rightarrow> is_superset self left \<or> is_superset self right
          | _ \<Rightarrow> False))"

declare is_superset.simps [simp del]

section \<open>The entries of a context\<close>

text \<open>The invariant: no key occurs twice. Every operation keeps it.\<close>

definition kc_inv :: "key_context \<Rightarrow> bool" where
  "kc_inv self = distinct (map ce_key self)"

lemma contains_keys: "kc_contains self key \<longleftrightarrow> key \<in> set (map ce_key self)"
  by (auto simp: kc_contains_def list_ex_iff)

lemma kc_inv_Nil [simp]: "kc_inv []"
  by (simp add: kc_inv_def)

lemma kc_inv_add [simp]: "kc_inv self \<Longrightarrow> kc_inv (kc_add self key)"
  by (auto simp: kc_inv_def kc_add_def contains_keys)

lemma kc_inv_set [simp]: "kc_inv self \<Longrightarrow> kc_inv (kc_set self key v)"
  by (auto simp: kc_inv_def kc_set_def contains_keys)

lemma kc_inv_extend [simp]: "kc_inv self \<Longrightarrow> kc_inv (kc_extend self other)"
  unfolding kc_extend_def
  by (induction other arbitrary: self) (auto simp: kc_inv_def contains_keys)

lemma extend_step: "kc_extend self (entry # other) =
    kc_extend (if \<not> kc_contains self (ce_key entry) then self @ [entry] else self) other"
  by (simp add: kc_extend_def)

lemma contains_find: "kc_contains self key \<longleftrightarrow> find (\<lambda>entry. ce_key entry = key) self \<noteq> None"
  by (auto simp: kc_contains_def list_ex_iff find_None_iff)

lemma extend_find:
  "find (\<lambda>entry. ce_key entry = key) (kc_extend self other) =
     (case find (\<lambda>entry. ce_key entry = key) self of
        Some entry \<Rightarrow> Some entry | None \<Rightarrow> find (\<lambda>entry. ce_key entry = key) other)"
proof (induction other arbitrary: self)
  case (Cons entry other)
  then show ?case
    by (auto simp: extend_step find_append contains_find split: option.splits)
qed (simp add: kc_extend_def split: option.split)

section \<open>Parsing a context\<close>

definition context_char :: "char \<Rightarrow> bool" where
  "context_char c = (is_identifier_char c \<or> is_whitespace c \<or> c = CHR ''='')"

lemma eq_not_identifier [simp]: "\<not> is_identifier_char (CHR ''='')" "\<not> is_whitespace (CHR ''='')"
  by (simp_all add: is_identifier_char_def char_defs)

lemma identifier_not_whitespace: "is_identifier_char c \<Longrightarrow> \<not> is_whitespace c"
  using alphanumeric_no_whitespace [of c] by (auto simp: is_identifier_char_def) (simp_all add: is_whitespace_def code_point_def)

lemma skip_set: "c \<in> set (skip_whitespace s) \<Longrightarrow> c \<in> set s"
  unfolding skip_whitespace_def by (rule set_dropWhileD)

lemma skip_length: "length (skip_whitespace s) \<le> length s"
  by (simp add: skip_whitespace_def length_dropWhile_le)

lemma skip_simps [simp]:
  "skip_whitespace [] = []"
  "skip_whitespace (c # s) = (if is_whitespace c then skip_whitespace s else c # s)"
  by (simp_all add: skip_whitespace_def)

lemma strip_eq: "strip_prefix ''='' s = (case s of c # s' \<Rightarrow> if c = CHR ''='' then Some s' else None | [] \<Rightarrow> None)"
  by (cases s) auto

text \<open>The word a source starts with, and what follows it after whitespace.\<close>

abbreviation word :: "string \<Rightarrow> string" where
  "word s \<equiv> takeWhile is_identifier_char s"

definition after_word :: "string \<Rightarrow> string" where
  "after_word s = skip_whitespace (drop (length (word s)) s)"

lemma kc_parse_expr_Nil [simp]: "kc_parse_expr [] ctx = Some ctx"
  by (simp add: kc_parse_expr.simps)

lemma kc_parse_expr_add:
  "s \<noteq> [] \<Longrightarrow> strip_prefix ''='' (after_word s) = None \<Longrightarrow>
   kc_parse_expr s ctx = kc_parse_expr (after_word s) (kc_add ctx (word s))"
  by (subst kc_parse_expr.simps) (simp add: after_word_def)

lemma kc_parse_expr_set:
  "s \<noteq> [] \<Longrightarrow> strip_prefix ''='' (after_word s) = Some suffix \<Longrightarrow>
   kc_parse_expr s ctx =
     kc_parse_expr (after_word (skip_whitespace suffix)) (kc_set ctx (word s) (word (skip_whitespace suffix)))"
  by (subst kc_parse_expr.simps) (simp add: after_word_def)

lemma after_word_length: "length (after_word s) \<le> length s - length (word s)"
  using skip_length [of "drop (length (word s)) s"] by (simp add: after_word_def)

lemma after_word_set: "c \<in> set (after_word s) \<Longrightarrow> c \<in> set s"
  by (auto simp: after_word_def dest!: skip_set in_set_dropD)

lemma kc_parse_expr_returns:
  "\<forall>c \<in> set source. context_char c \<Longrightarrow> \<exists>r. kc_parse_expr source ctx = Some r"
proof (induction "length source" arbitrary: source ctx rule: less_induct)
  case less
  show ?case
  proof (cases source)
    case (Cons c s)
    show ?thesis
    proof (cases "strip_prefix ''='' (after_word source)")
      case None
      have "length (after_word source) < length source"
      proof (cases "is_identifier_char c")
        case True
        then show ?thesis using after_word_length [of source] by (simp add: Cons)
      next
        case False
        then have "after_word source = skip_whitespace (c # s)" by (simp add: after_word_def Cons)
        moreover have "is_whitespace c" using False less.prems None Cons calculation
          by (auto simp: context_char_def strip_eq split: if_splits)
        ultimately show ?thesis using skip_length [of s] by (simp add: Cons)
      qed
      moreover have "\<forall>c \<in> set (after_word source). context_char c"
        using less.prems after_word_set [of _ source] by blast
      moreover have "kc_parse_expr source ctx = kc_parse_expr (after_word source) (kc_add ctx (word source))"
        using Cons None by (intro kc_parse_expr_add) auto
      ultimately show ?thesis using less.hyps by simp
    next
      case (Some suffix)
      have suffix: "after_word source = CHR ''='' # suffix" using Some by (simp add: strip_prefix_Some)
      have "length (after_word (skip_whitespace suffix)) < length source"
        using after_word_length [of "skip_whitespace suffix"] skip_length [of suffix] after_word_length [of source] suffix
        by simp
      moreover have "\<forall>c \<in> set (after_word (skip_whitespace suffix)). context_char c"
        using less.prems after_word_set [of _ source] after_word_set [of _ "skip_whitespace suffix"] skip_set [of _ suffix]
        unfolding suffix by (meson list.set_intros(2))
      moreover have "kc_parse_expr source ctx = kc_parse_expr (after_word (skip_whitespace suffix))
          (kc_set ctx (word source) (word (skip_whitespace suffix)))"
        using Cons Some by (intro kc_parse_expr_set) auto
      ultimately show ?thesis using less.hyps by simp
    qed
  qed simp
qed

lemma take_drop_chars:
  "c \<in> set s \<Longrightarrow> c \<in> set (takeWhile P s) \<or> c \<in> set (drop (length (takeWhile P s)) s)"
  "c \<in> set s \<Longrightarrow> is_whitespace c \<or> c \<in> set (skip_whitespace s)"
proof -
  assume "c \<in> set s"
  then have "c \<in> set (takeWhile Q s) \<or> c \<in> set (dropWhile Q s)" for Q
    using takeWhile_dropWhile_id [of Q s] by (metis Un_iff set_append)
  then show "c \<in> set (takeWhile P s) \<or> c \<in> set (drop (length (takeWhile P s)) s)"
      "is_whitespace c \<or> c \<in> set (skip_whitespace s)"
    by (auto simp: dropWhile_eq_drop [symmetric] skip_whitespace_def dest: set_takeWhileD)
qed

lemma kc_parse_expr_chars:
  assumes "kc_parse_expr source ctx = Some r"
  shows "\<forall>c \<in> set source. context_char c"
proof (rule kc_parse_expr.raw_induct [of "\<lambda>source _ _. \<forall>c \<in> set source. context_char c", OF _ assms])
  fix f :: "string \<Rightarrow> key_context \<Rightarrow> key_context option" and source ctx r
  assume IH: "\<And>source ctx r. f source ctx = Some r \<Longrightarrow> \<forall>c \<in> set source. context_char c"
    and body: "(if source = [] then Some ctx
      else let key = takeWhile is_identifier_char source;
               source1 = skip_whitespace (drop (length key) source)
           in case strip_prefix ''='' source1 of
                Some suffix \<Rightarrow>
                  (let source2 = skip_whitespace suffix;
                       v = takeWhile is_identifier_char source2;
                       source3 = skip_whitespace (drop (length v) source2)
                   in f source3 (kc_set ctx key v))
              | None \<Rightarrow> f source1 (kc_add ctx key)) = Some r"
  have word: "\<forall>c \<in> set s. context_char c" if "\<forall>c \<in> set (after_word s). context_char c" for s
    using that take_drop_chars(1) [of _ s is_identifier_char] take_drop_chars(2) [of _ "drop (length (word s)) s"]
    unfolding after_word_def context_char_def by (metis set_takeWhileD)
  show "\<forall>c \<in> set source. context_char c"
  proof (cases "source = []")
    case False
    then have body': "(case strip_prefix ''='' (after_word source) of
        Some suffix \<Rightarrow> f (after_word (skip_whitespace suffix)) (kc_set ctx (word source) (word (skip_whitespace suffix)))
      | None \<Rightarrow> f (after_word source) (kc_add ctx (word source))) = Some r"
      using body unfolding after_word_def Let_def by simp
    have "\<forall>c \<in> set (after_word source). context_char c"
    proof (cases "strip_prefix ''='' (after_word source)")
      case None
      then show ?thesis using body' IH by simp
    next
      case (Some suffix)
      with body' IH have "\<forall>c \<in> set (after_word (skip_whitespace suffix)). context_char c" by simp
      then have "\<forall>c \<in> set (skip_whitespace suffix). context_char c" by (rule word)
      moreover have "after_word source = CHR ''='' # suffix" using Some by (simp add: strip_prefix_Some)
      ultimately show ?thesis using take_drop_chars(2) [of _ suffix] by (auto simp: context_char_def)
    qed
    then show ?thesis by (rule word)
  qed simp
qed

lemma kc_parse_returns: "kc_parse source \<noteq> None \<longleftrightarrow> (\<forall>c \<in> set source. context_char c)"
  unfolding kc_parse_def
  using kc_parse_expr_returns [of "skip_whitespace source" "[]"] kc_parse_expr_chars [of "skip_whitespace source" "[]"]
    take_drop_chars(2) [of _ source] skip_set [of _ source] by (auto simp: context_char_def)

section \<open>Printing a context and parsing it again\<close>

definition identifier_word :: "string \<Rightarrow> bool" where
  "identifier_word w = (w \<noteq> [] \<and> list_all is_identifier_char w)"

definition entry_printable :: "context_entry \<Rightarrow> bool" where
  "entry_printable entry =
     (identifier_word (ce_key entry) \<and> (case ce_value entry of None \<Rightarrow> True | Some v \<Rightarrow> identifier_word v))"

lemma word_append:
  assumes "list_all is_identifier_char w" "rest = [] \<or> \<not> is_identifier_char (hd rest)"
  shows "word (w @ rest) = w" "after_word (w @ rest) = skip_whitespace rest"
proof -
  show "word (w @ rest) = w" using assms by (cases rest) (auto simp: takeWhile_append list_all_iff)
  then show "after_word (w @ rest) = skip_whitespace rest" by (simp add: after_word_def)
qed

lemma space_char [simp]: "is_whitespace (CHR '' '')" "\<not> is_identifier_char (CHR '' '')"
  by (simp_all add: is_identifier_char_def char_defs)

lemma debug_starts:
  "list_all entry_printable es \<Longrightarrow> es \<noteq> [] \<Longrightarrow> \<exists>c s. kc_debug es = c # s \<and> is_identifier_char c"
  by (cases es; cases "ce_key (hd es)")
    (auto simp: entry_debug_def entry_printable_def identifier_word_def split: option.split)

lemma skip_debug: "list_all entry_printable es \<Longrightarrow> skip_whitespace (kc_debug es) = kc_debug es"
  using debug_starts [of es] identifier_not_whitespace by (cases "es = []") auto

lemma debug_separated:
  assumes "list_all entry_printable es"
  defines "tail \<equiv> (if es \<noteq> [] then '' '' else []) @ kc_debug es"
  shows "tail = [] \<or> \<not> is_identifier_char (hd tail)" "skip_whitespace tail = kc_debug es"
    "strip_prefix ''='' (kc_debug es) = None"
proof -
  show "tail = [] \<or> \<not> is_identifier_char (hd tail)" "skip_whitespace tail = kc_debug es"
    using skip_debug [OF assms(1)] by (auto simp: tail_def)
  show "strip_prefix ''='' (kc_debug es) = None"
    using debug_starts [OF assms(1)] by (cases "es = []") (auto simp: strip_eq)
qed

lemma parse_debug_expr: "list_all entry_printable es \<Longrightarrow> kc_parse_expr (kc_debug es) ctx = Some (kc_extend ctx es)"
proof (induction es arbitrary: ctx)
  case Nil
  then show ?case by (simp add: kc_extend_def)
next
  case (Cons e es)
  define tail where "tail = (if es \<noteq> [] then '' '' else []) @ kc_debug es"
  from Cons.prems have es: "list_all entry_printable es" and e: "entry_printable e" by simp_all
  from e have key: "list_all is_identifier_char (ce_key e)" "ce_key e \<noteq> []"
    by (simp_all add: entry_printable_def identifier_word_def)
  note tail = debug_separated [OF es, folded tail_def]
  show ?case
  proof (cases "ce_value e")
    case None
    then have s: "kc_debug (e # es) = ce_key e @ tail" by (simp add: entry_debug_def tail_def)
    have "kc_parse_expr (ce_key e @ tail) ctx = kc_parse_expr (kc_debug es) (kc_add ctx (ce_key e))"
      using key word_append [OF key(1) tail(1)] tail(2,3) by (subst kc_parse_expr_add) simp_all
    moreover have "kc_add ctx (ce_key e) = (if \<not> kc_contains ctx (ce_key e) then ctx @ [e] else ctx)"
      using None by (cases e) (simp add: kc_add_def)
    ultimately show ?thesis unfolding s extend_step using Cons.IH [OF es] by simp
  next
    case (Some v)
    then have v: "list_all is_identifier_char v" "v \<noteq> []"
      using e by (simp_all add: entry_printable_def identifier_word_def)
    from v have skip: "skip_whitespace (v @ tail) = v @ tail"
      using identifier_not_whitespace by (cases v) auto
    have s: "kc_debug (e # es) = ce_key e @ CHR ''='' # v @ tail" using Some by (simp add: entry_debug_def tail_def)
    have "word (ce_key e @ CHR ''='' # v @ tail) = ce_key e"
        "after_word (ce_key e @ CHR ''='' # v @ tail) = CHR ''='' # v @ tail"
      using word_append [OF key(1), of "CHR ''='' # v @ tail"] by simp_all
    then have "kc_parse_expr (ce_key e @ CHR ''='' # v @ tail) ctx = kc_parse_expr (kc_debug es) (kc_set ctx (ce_key e) v)"
      using key word_append [OF v(1) tail(1)] tail(2) skip by (subst kc_parse_expr_set [of _ "v @ tail"]) simp_all
    moreover have "kc_set ctx (ce_key e) v = (if \<not> kc_contains ctx (ce_key e) then ctx @ [e] else ctx)"
      using Some by (cases e) (simp add: kc_set_def)
    ultimately show ?thesis unfolding s extend_step using Cons.IH [OF es] by simp
  qed
qed

lemma extend_distinct:
  "distinct (map ce_key (self @ other)) \<Longrightarrow> kc_extend self other = self @ other"
proof (induction other arbitrary: self)
  case (Cons e other)
  then show ?case using Cons.IH [of "self @ [e]"] by (simp add: extend_step contains_keys)
qed (simp add: kc_extend_def)

lemma parse_debug: "list_all entry_printable es \<Longrightarrow> kc_parse (kc_debug es) = Some (kc_extend [] es)"
  by (simp add: kc_parse_def skip_debug parse_debug_expr)

section \<open>Depth and generality\<close>

lemma find_rev_upt:
  "find P (rev [0..<n]) = Some d \<longleftrightarrow> d < n \<and> P d \<and> (\<forall>e. d < e \<longrightarrow> e < n \<longrightarrow> \<not> P e)"
  by (induction n) (auto simp: less_Suc_eq)

lemma depth_of_spec:
  "depth_of p contexts = Some d \<longleftrightarrow> d \<le> length contexts \<and> eval_inner p (take d contexts) contexts \<and>
     (\<forall>e. d < e \<longrightarrow> e \<le> length contexts \<longrightarrow> \<not> eval_inner p (take e contexts) contexts)"
  unfolding depth_of_def find_rev_upt less_Suc_eq_le ..

lemma depth_of_None: "depth_of p contexts = None \<longleftrightarrow> (\<forall>d \<le> length contexts. \<not> eval_inner p (take d contexts) contexts)"
  unfolding depth_of_def find_None_iff by (simp add: less_Suc_eq_le del: upt_Suc)

lemma eval_inner_Nil [simp]: "\<not> eval_inner p [] all_contexts"
  by (cases p) (simp_all add: list_last_def)

lemma eval_inner_last: "eval_inner p cs a \<Longrightarrow> \<exists>ctx. list_last cs = Some ctx"
  by (cases "cs = []") (simp_all add: list_last_def)

text \<open>Predicates that only look at the innermost context.\<close>

primrec local_pred :: "predicate \<Rightarrow> bool" where
  "local_pred (Identifier _) = True"
| "local_pred (Equals _ _) = True"
| "local_pred (NotEquals _ _) = True"
| "local_pred (Descendant _ _) = False"
| "local_pred (Not _) = False"
| "local_pred (And left right) = (local_pred left \<and> local_pred right)"
| "local_pred (Or left right) = (local_pred left \<and> local_pred right)"

lemma local_eval:
  "local_pred p \<Longrightarrow> list_last cs = list_last cs' \<Longrightarrow> eval_inner p cs a = eval_inner p cs' a'"
  by (induction p) (simp_all cong: option.case_cong)

lemma superset_sound:
  "is_superset p q \<Longrightarrow> local_pred p \<Longrightarrow> eval_inner q cs a \<Longrightarrow> eval_inner p cs a"
proof (induction p q arbitrary: cs a rule: is_superset.induct)
  case (1 p q)
  show ?case
  proof (cases "p = q")
    case False
    show ?thesis
    proof (cases "\<exists>l r. p = Or l r")
      case True
      moreover obtain ctx where "list_last cs = Some ctx" using eval_inner_last [OF "1.prems"(3)] by blast
      ultimately show ?thesis using 1 False by (auto simp: is_superset.simps [of p q])
    next
      case not_or: False
      then have sup: "case q of Descendant _ child \<Rightarrow> is_superset p child
          | And left right \<Rightarrow> is_superset p left \<or> is_superset p right | _ \<Rightarrow> False"
        using "1.prems"(1) False by (subst (asm) is_superset.simps) (simp split: predicate.splits)
      show ?thesis
      proof (cases q)
        case (Descendant parent child)
        then obtain i where i: "i < length cs - 1" "eval_inner child (drop (Suc i) cs) (drop (Suc i) cs)"
          using "1.prems"(3) by (auto simp: find_Some_iff split: option.splits)
        have "eval_inner p (drop (Suc i) cs) (drop (Suc i) cs)"
          using 1 False not_or sup Descendant i(2) by (cases p) auto
        moreover have "list_last (drop (Suc i) cs) = list_last cs" using i(1) by (auto simp: list_last_def)
        ultimately show ?thesis using local_eval [OF "1.prems"(2)] by blast
      next
        case (And left right)
        then have "eval_inner left cs a" "eval_inner right cs a" using "1.prems"(3) by (auto split: option.splits)
        then show ?thesis using 1 False not_or sup And by (cases p) auto
      qed (use sup in auto)
    qed
  qed (use 1 in simp)
qed

end
