(* ===== verification/Predicate_Parser.thy ===== *)
theory Predicate_Parser
  imports Key_Context
begin

text \<open>
  \<open>gpui/src/keymap/context.rs\<close>, second half: the precedence parser of \<open>KeyBindingContextPredicate\<close> and
  its \<open>Display\<close>. The three functions of the parser call each other on shorter and shorter sources;
  the model counts the depth of these calls with fuel, and \<open>parse_returns\<close> shows that twice the
  length of the source is enough.
\<close>

section \<open>Parsing\<close>

datatype parse_error =
    Unexpected_End
  | Expected_Paren
  | Unexpected_Char char
  | Operands_Of_Eq
  | Operands_Of_Neq

type_synonym op = "predicate \<Rightarrow> predicate \<Rightarrow> parse_error + predicate"

definition PRECEDENCE_CHILD :: nat where
  "PRECEDENCE_CHILD = 1"

definition PRECEDENCE_OR :: nat where
  "PRECEDENCE_OR = 2"

definition PRECEDENCE_AND :: nat where
  "PRECEDENCE_AND = 3"

definition PRECEDENCE_EQ :: nat where
  "PRECEDENCE_EQ = 4"

definition PRECEDENCE_NOT :: nat where
  "PRECEDENCE_NOT = 5"

lemmas precedence_defs = PRECEDENCE_CHILD_def PRECEDENCE_OR_def PRECEDENCE_AND_def PRECEDENCE_EQ_def PRECEDENCE_NOT_def

definition new_or :: op where "new_or self other = Inr (Or self other)"

definition new_and :: op where "new_and self other = Inr (And self other)"

definition new_child :: op where "new_child self other = Inr (Descendant self other)"

definition new_eq :: op where
  "new_eq self other = (case (self, other) of
     (Identifier left, Identifier right) \<Rightarrow> Inr (Equals left right) | _ \<Rightarrow> Inl Operands_Of_Eq)"

definition new_neq :: op where
  "new_neq self other = (case (self, other) of
     (Identifier left, Identifier right) \<Rightarrow> Inr (NotEquals left right) | _ \<Rightarrow> Inl Operands_Of_Neq)"

definition operators :: "(string \<times> nat \<times> op) list" where
  "operators =
    [(''>'', PRECEDENCE_CHILD, new_child),
     (''&&'', PRECEDENCE_AND, new_and),
     (''||'', PRECEDENCE_OR, new_or),
     (''=='', PRECEDENCE_EQ, new_eq),
     (''!='', PRECEDENCE_EQ, new_neq)]"

definition find_operator :: "string \<Rightarrow> nat \<Rightarrow> (string \<times> nat \<times> op) option" where
  "find_operator source min_precedence =
     find (\<lambda>(operator, precedence, _). starts_with source operator \<and> min_precedence \<le> precedence) operators"

text \<open>The characters a name goes on with.\<close>

definition is_name_char :: "char \<Rightarrow> bool" where
  "is_name_char c = (is_identifier_char c \<or> is_vim_operator_char c)"

fun parse_expr :: "nat \<Rightarrow> string \<Rightarrow> nat \<Rightarrow> (parse_error + predicate \<times> string) rust"
  and parse_loop :: "nat \<Rightarrow> predicate \<Rightarrow> string \<Rightarrow> nat \<Rightarrow> (parse_error + predicate \<times> string) rust"
  and parse_primary :: "nat \<Rightarrow> string \<Rightarrow> (parse_error + predicate \<times> string) rust"
where
  "parse_expr 0 source min_precedence = None"
| "parse_expr (Suc n) source min_precedence =
     try_then (parse_primary n source) (\<lambda>(predicate, rest). parse_loop n predicate rest min_precedence)"
| "parse_loop 0 predicate source min_precedence = None"
| "parse_loop (Suc n) predicate source min_precedence =
     (case find_operator source min_precedence of
        Some (operator, precedence, constructor) \<Rightarrow>
          try_then (parse_expr n (skip_whitespace (drop (length operator) source)) (precedence + 1))
            (\<lambda>(right, rest). try_then (ret (constructor predicate right))
               (\<lambda>predicate. parse_loop n predicate rest min_precedence))
      | None \<Rightarrow> ret (Inr (predicate, source)))"
| "parse_primary 0 source = None"
| "parse_primary (Suc n) source =
     (case source of
        [] \<Rightarrow> ret (Inl Unexpected_End)
      | next # rest \<Rightarrow>
          if next = CHR ''('' then
            try_then (parse_expr n (skip_whitespace rest) 0)
              (\<lambda>(predicate, rest).
                 case strip_prefix '')'' rest of
                   None \<Rightarrow> ret (Inl Expected_Paren)
                 | Some stripped \<Rightarrow> ret (Inr (predicate, skip_whitespace stripped)))
          else if next = CHR ''!'' then
            try_then (parse_expr n (skip_whitespace rest) PRECEDENCE_NOT)
              (\<lambda>(predicate, source). ret (Inr (Not predicate, source)))
          else if is_identifier_char next then
            ret (Inr (Identifier (takeWhile is_name_char source), skip_whitespace (dropWhile is_name_char source)))
          else if is_vim_operator_char next then
            ret (Inr (Identifier [next], skip_whitespace rest))
          else ret (Inl (Unexpected_Char next)))"

definition pred_parse :: "string \<Rightarrow> (parse_error + predicate) rust" where
  "pred_parse source = (
     let source = skip_whitespace source in
     try_then (parse_expr (2 * length source + 2) source 0) (\<lambda>(predicate, rest).
       case rest of next # _ \<Rightarrow> ret (Inl (Unexpected_Char next)) | [] \<Rightarrow> ret (Inr predicate)))"

section \<open>Printing\<close>

datatype logical_operator = And_Op | Or_Op

definition is_or :: "predicate \<Rightarrow> bool" where
  "is_or node = (case node of Or _ _ \<Rightarrow> True | _ \<Rightarrow> False)"

definition is_and :: "predicate \<Rightarrow> bool" where
  "is_and node = (case node of And _ _ \<Rightarrow> True | _ \<Rightarrow> False)"

text \<open>
  \<open>fmt\<close> and \<open>fmt_joined_inner\<close>, with what has been written as the result; \<open>first\<close> is passed on.
\<close>

function pred_display :: "predicate \<Rightarrow> string"
  and fmt_joined_inner :: "predicate \<Rightarrow> string \<Rightarrow> logical_operator \<Rightarrow> bool \<Rightarrow> string \<times> bool"
where
  "pred_display (Identifier name) = name"
| "pred_display (Equals left right) = left @ '' == '' @ right"
| "pred_display (NotEquals left right) = left @ '' != '' @ right"
| "pred_display (Descendant parent child) = pred_display parent @ '' > '' @ pred_display child"
| "pred_display (Not pred) =
     (case pred of Identifier name \<Rightarrow> ''!'' @ name | _ \<Rightarrow> ''!('' @ pred_display pred @ '')'')"
| "pred_display (And l r) = fst (fmt_joined_inner (And l r) '' && '' And_Op True)"
| "pred_display (Or l r) = fst (fmt_joined_inner (Or l r) '' || '' Or_Op True)"
| "fmt_joined_inner node separator operator first =
     (case (operator, node) of
        (And_Op, And left right) \<Rightarrow>
          (let (a, first) = fmt_joined_inner left separator operator first;
               (b, first) = fmt_joined_inner right separator operator first
           in (a @ b, first))
      | (Or_Op, Or left right) \<Rightarrow>
          (let (a, first) = fmt_joined_inner left separator operator first;
               (b, first) = fmt_joined_inner right separator operator first
           in (a @ b, first))
      | _ \<Rightarrow>
          ((if first then [] else separator) @
           (if (case operator of And_Op \<Rightarrow> is_or node | Or_Op \<Rightarrow> is_and node) then ''('' @ pred_display node @ '')''
            else pred_display node), False))"
  by pat_completeness auto
termination
  by (relation "measure (\<lambda>x. case x of Inl p \<Rightarrow> 4 * size p + 2
      | Inr (p, _, operator, _) \<Rightarrow> (case (operator, p) of (And_Op, And _ _) \<Rightarrow> 4 * size p + 1
          | (Or_Op, Or _ _) \<Rightarrow> 4 * size p + 1 | _ \<Rightarrow> 4 * size p + 3))")
    (auto split: logical_operator.splits predicate.splits)

section \<open>The parser always returns\<close>

lemma find_operator_shorter:
  "find_operator s m = Some (operator, precedence, c) \<Longrightarrow> length (skip_whitespace (drop (length operator) s)) < length s"
  using skip_length [of "drop (length operator) s"]
  by (auto simp: find_operator_def operators_def starts_with_append split: if_splits)

text \<open>What is left of a source is shorter than the source.\<close>

lemma parse_shorter:
  "(parse_expr n s m = ret (Inr (p, rest)) \<longrightarrow> length rest < length s) \<and>
   (parse_loop n q s m = ret (Inr (p, rest)) \<longrightarrow> length rest \<le> length s) \<and>
   (parse_primary n s = ret (Inr (p, rest)) \<longrightarrow> length rest < length s)"
proof (induction n arbitrary: s m p q rest)
  case (Suc n)
  have "length rest < length s" if "parse_expr (Suc n) s m = ret (Inr (p, rest))"
    using that Suc.IH by (auto simp: try_then_ret split: prod.splits) (meson le_less_trans)
  moreover have "length rest \<le> length s" if loop: "parse_loop (Suc n) q s m = ret (Inr (p, rest))"
  proof (cases "find_operator s m")
    case (Some o1)
    obtain operator precedence c where o1: "o1 = (operator, precedence, c)" by (cases o1)
    from loop Some o1 obtain q' rest' where "parse_expr n (skip_whitespace (drop (length operator) s)) (precedence + 1) = ret (Inr (q', rest'))"
        "\<exists>q. parse_loop n q rest' m = ret (Inr (p, rest))"
      by (auto simp: try_then_ret)
    then show ?thesis using Suc.IH find_operator_shorter [of s m] Some o1 by (meson le_trans less_imp_le)
  qed (use loop in simp)
  moreover have "length rest < length s" if primary: "parse_primary (Suc n) s = ret (Inr (p, rest))"
  proof (cases s)
    case (Cons ch more)
    note skips = skip_length [of more] skip_length [of "dropWhile is_name_char more"] length_dropWhile_le [of is_name_char more]
    consider (paren) "ch = CHR ''(''" | (bang) "ch = CHR ''!''" | (other) "ch \<noteq> CHR ''(''" "ch \<noteq> CHR ''!''" by blast
    then show ?thesis
    proof cases
      case paren
      then obtain q rest' where q: "parse_expr n (skip_whitespace more) 0 = ret (Inr (q, rest'))"
          "\<exists>s. rest' = CHR '')'' # s \<and> rest = skip_whitespace s"
        using primary Cons by (auto simp: try_then_ret strip_prefix_Some split: option.splits)
      then have "length rest' < length (skip_whitespace more)" using Suc.IH by blast
      then show ?thesis using q(2) Cons skips(1) skip_length [of "tl rest'"] by auto
    next
      case bang
      then have "\<exists>q. parse_expr n (skip_whitespace more) PRECEDENCE_NOT = ret (Inr (q, rest))"
        using primary Cons by (auto simp: try_then_ret split: prod.splits)
      then have "length rest < length (skip_whitespace more)" using Suc.IH by blast
      then show ?thesis using Cons skips(1) by simp
    next
      case other
      then show ?thesis using primary Cons skips
        by (auto simp: is_name_char_def split: if_splits)
    qed
  qed (use primary in simp)
  ultimately show ?case by blast
qed simp

lemma parse_enough:
  "(2 * length s + 2 \<le> n \<longrightarrow> parse_expr n s m \<noteq> None) \<and>
   (2 * length s + 1 \<le> n \<longrightarrow> parse_loop n q s m \<noteq> None) \<and>
   (2 * length s + 1 \<le> n \<longrightarrow> parse_primary n s \<noteq> None)"
proof (induction n arbitrary: s m q)
  case (Suc n)
  have "parse_expr (Suc n) s m \<noteq> None" if n: "2 * length s + 2 \<le> Suc n"
  proof -
    obtain r where r: "parse_primary n s = ret r" using Suc.IH [of s] n by auto
    then show ?thesis
    proof (cases r)
      case (Inr b)
      obtain p rest where b: "b = (p, rest)" by (cases b)
      then have "length rest < length s" using parse_shorter r Inr by blast
      then have "parse_loop n p rest m \<noteq> None" using Suc.IH [of rest m p] n by simp
      then show ?thesis using r Inr b by simp
    qed simp
  qed
  moreover have "parse_loop (Suc n) q s m \<noteq> None" if n: "2 * length s + 1 \<le> Suc n"
  proof (cases "find_operator s m")
    case (Some o1)
    obtain operator precedence c where o1: "o1 = (operator, precedence, c)" by (cases o1)
    let ?s = "skip_whitespace (drop (length operator) s)"
    have shorter: "length ?s < length s" using find_operator_shorter [of s m] Some o1 by blast
    then obtain r where r: "parse_expr n ?s (precedence + 1) = ret r"
      using Suc.IH [of ?s "precedence + 1"] n by auto
    show ?thesis
    proof (cases r)
      case (Inr b)
      obtain right rest where b: "b = (right, rest)" by (cases b)
      have "length rest < length ?s" using parse_shorter r Inr b by blast
      then have "parse_loop n p rest m \<noteq> None" for p using Suc.IH [of rest m p] shorter n by simp
      then show ?thesis using Some o1 r Inr b by (cases "c q right") simp_all
    qed (use Some o1 r in simp)
  qed simp
  moreover have "parse_primary (Suc n) s \<noteq> None" if n: "2 * length s + 1 \<le> Suc n"
  proof (cases s)
    case (Cons ch more)
    have "parse_expr n (skip_whitespace more) k \<noteq> None" for k
      using Suc.IH [of "skip_whitespace more" k] skip_length [of more] n Cons by simp
    then obtain r1 r2 where "parse_expr n (skip_whitespace more) 0 = ret r1"
        "parse_expr n (skip_whitespace more) PRECEDENCE_NOT = ret r2" by blast
    then show ?thesis using Cons by (cases r1; cases r2) (auto split: option.splits)
  qed simp
  ultimately show ?case by blast
qed simp

lemma parse_returns: "\<exists>r. pred_parse s = ret r"
proof -
  let ?s = "skip_whitespace s"
  obtain r where "parse_expr (2 * length ?s + 2) ?s 0 = ret r" using parse_enough [of ?s "2 * length ?s + 2" 0] by blast
  then show ?thesis by (cases r) (auto simp: pred_parse_def split: list.split)
qed

text \<open>More fuel does not change an answer.\<close>

lemma parse_more:
  "(parse_expr n s m = ret r \<longrightarrow> parse_expr (n + k) s m = ret r) \<and>
   (parse_loop n q s m = ret r \<longrightarrow> parse_loop (n + k) q s m = ret r) \<and>
   (parse_primary n s = ret r \<longrightarrow> parse_primary (n + k) s = ret r)"
proof (induction n arbitrary: s m q r)
  case (Suc n)
  have try_more: "try_then x f = ret r \<Longrightarrow> (\<And>v. x = ret v \<Longrightarrow> y = ret v) \<Longrightarrow> (\<And>v. f v = ret r \<Longrightarrow> g v = ret r) \<Longrightarrow> try_then y g = ret r"
    for x y :: "(parse_error + predicate \<times> string) rust" and f g and r :: "parse_error + predicate \<times> string"
    by (auto simp: try_then_ret)
  have "parse_expr (Suc n + k) s m = ret r" if "parse_expr (Suc n) s m = ret r"
    unfolding add_Suc parse_expr.simps
    by (rule try_more [OF that [unfolded parse_expr.simps]]) (use Suc.IH in \<open>auto split: prod.splits\<close>)
  moreover have "parse_loop (Suc n + k) q s m = ret r" if loop: "parse_loop (Suc n) q s m = ret r"
  proof (cases "find_operator s m")
    case (Some o1)
    obtain operator precedence c where o1: "o1 = (operator, precedence, c)" by (cases o1)
    show ?thesis
      unfolding add_Suc parse_loop.simps Some o1 option.case prod.case
      by (rule try_more [OF loop [unfolded parse_loop.simps Some o1 option.case prod.case]])
        (use Suc.IH in \<open>auto simp: try_then_ret split: prod.splits\<close>)
  qed (use loop in simp)
  moreover have "parse_primary (Suc n + k) s = ret r" if primary: "parse_primary (Suc n) s = ret r"
  proof (cases s)
    case (Cons ch more)
    then show ?thesis using primary Suc.IH [of "skip_whitespace more"]
      by (fastforce simp: try_then_ret split: if_splits)
  qed (use primary in simp)
  ultimately show ?case by blast
qed simp

section \<open>The parser as a relation\<close>

definition parses :: "string \<Rightarrow> nat \<Rightarrow> predicate \<times> string \<Rightarrow> bool" where
  "parses s m r = (\<exists>n. parse_expr n s m = ret (Inr r))"

definition loops :: "predicate \<Rightarrow> string \<Rightarrow> nat \<Rightarrow> predicate \<times> string \<Rightarrow> bool" where
  "loops p s m r = (\<exists>n. parse_loop n p s m = ret (Inr r))"

definition primary :: "string \<Rightarrow> predicate \<times> string \<Rightarrow> bool" where
  "primary s r = (\<exists>n. parse_primary n s = ret (Inr r))"

lemma parse_at_least:
  "parse_expr n s m = ret r \<Longrightarrow> n \<le> k \<Longrightarrow> parse_expr k s m = ret r"
  "parse_loop n p s m = ret r \<Longrightarrow> n \<le> k \<Longrightarrow> parse_loop k p s m = ret r"
  "parse_primary n s = ret r \<Longrightarrow> n \<le> k \<Longrightarrow> parse_primary k s = ret r"
  using parse_more [of n s m r "k - n"] parse_more [of n s m r "k - n" p] by simp_all

lemma loops_stop: "find_operator s m = None \<Longrightarrow> loops p s m (p, s)"
  unfolding loops_def by (rule exI [of _ 1]) simp

lemma loops_step:
  assumes "find_operator s m = Some (operator, precedence, c)"
    and "parses (skip_whitespace (drop (length operator) s)) (precedence + 1) (right, rest)"
    and "c p right = Inr p'" "loops p' rest m r"
  shows "loops p s m r"
proof -
  obtain n1 n2 where "parse_expr n1 (skip_whitespace (drop (length operator) s)) (precedence + 1) = ret (Inr (right, rest))"
      "parse_loop n2 p' rest m = ret (Inr r)"
    using assms(2,4) by (auto simp: parses_def loops_def)
  then have "parse_loop (Suc (max n1 n2)) p s m = ret (Inr r)"
    using assms(1,3) parse_at_least(1) [of n1 _ _ _ "max n1 n2"] parse_at_least(2) [of n2 _ _ _ _ "max n1 n2"] by simp
  then show ?thesis unfolding loops_def by blast
qed

lemma parses_step: "primary s (p, rest) \<Longrightarrow> loops p rest m r \<Longrightarrow> parses s m r"
proof -
  assume "primary s (p, rest)" "loops p rest m r"
  then obtain n1 n2 where "parse_primary n1 s = ret (Inr (p, rest))" "parse_loop n2 p rest m = ret (Inr r)"
    by (auto simp: primary_def loops_def)
  then have "parse_expr (Suc (max n1 n2)) s m = ret (Inr r)"
    using parse_at_least(3) [of n1 _ _ "max n1 n2"] parse_at_least(2) [of n2 _ _ _ _ "max n1 n2"] by simp
  then show ?thesis unfolding parses_def by blast
qed

lemma primary_paren:
  assumes "parses (skip_whitespace s) 0 (p, CHR '')'' # rest)"
  shows "primary (CHR ''('' # s) (p, skip_whitespace rest)"
proof -
  obtain n where "parse_expr n (skip_whitespace s) 0 = ret (Inr (p, CHR '')'' # rest))" using assms by (auto simp: parses_def)
  then have "parse_primary (Suc n) (CHR ''('' # s) = ret (Inr (p, skip_whitespace rest))" by simp
  then show ?thesis unfolding primary_def by blast
qed

lemma primary_bang:
  assumes "parses (skip_whitespace s) PRECEDENCE_NOT (p, rest)"
  shows "primary (CHR ''!'' # s) (Not p, rest)"
proof -
  obtain n where "parse_expr n (skip_whitespace s) PRECEDENCE_NOT = ret (Inr (p, rest))" using assms by (auto simp: parses_def)
  then have "parse_primary (Suc n) (CHR ''!'' # s) = ret (Inr (Not p, rest))" by simp
  then show ?thesis unfolding primary_def by blast
qed

lemma parses_pred:
  assumes "parses (skip_whitespace s) 0 (p, [])"
  shows "pred_parse s = ret (Inr p)"
proof -
  let ?s = "skip_whitespace s" and ?n = "2 * length (skip_whitespace s) + 2"
  obtain r where r: "parse_expr ?n ?s 0 = ret r" using parse_enough [of ?s ?n 0] by blast
  obtain k where "parse_expr k ?s 0 = ret (Inr (p, []))" using assms by (auto simp: parses_def)
  then have "r = Inr (p, [])"
    using parse_at_least(1) [OF r, of "?n + k"] parse_at_least(1) [of k ?s 0 _ "?n + k"] by simp
  then show ?thesis using r by (simp add: pred_parse_def)
qed

section \<open>Printing and parsing again\<close>

text \<open>
  The names the parser accepts, how tightly a predicate binds, and the predicates \<open>Display\<close> writes so
  that the parser reads them back: operators nest to the left, and no \<open>>\<close> stands below another
  operator without the parentheses of \<open>!\<close> (\<open>Display\<close> writes none for it).
\<close>

definition name_ok :: "string \<Rightarrow> bool" where
  "name_ok w = (case w of [] \<Rightarrow> False
     | c # cs \<Rightarrow> if is_identifier_char c then list_all is_name_char cs else is_vim_operator_char c \<and> cs = [])"

fun level :: "predicate \<Rightarrow> nat" where
  "level (Descendant _ _) = PRECEDENCE_CHILD"
| "level (Or _ _) = PRECEDENCE_OR"
| "level (And _ _) = PRECEDENCE_AND"
| "level (Equals _ _) = PRECEDENCE_EQ"
| "level (NotEquals _ _) = PRECEDENCE_EQ"
| "level _ = PRECEDENCE_NOT"

primrec printable :: "predicate \<Rightarrow> bool" where
  "printable (Identifier name) = name_ok name"
| "printable (Equals left right) = (name_ok left \<and> name_ok right)"
| "printable (NotEquals left right) = (name_ok left \<and> name_ok right)"
| "printable (Descendant parent child) = (printable parent \<and> printable child \<and> PRECEDENCE_CHILD < level child)"
| "printable (Not p) = printable p"
| "printable (And left right) = (printable left \<and> printable right \<and> \<not> is_and right \<and>
     PRECEDENCE_CHILD < level left \<and> PRECEDENCE_CHILD < level right)"
| "printable (Or left right) = (printable left \<and> printable right \<and> \<not> is_or right \<and>
     PRECEDENCE_CHILD < level left \<and> PRECEDENCE_CHILD < level right)"

text \<open>An operand of \<open>&&\<close> or \<open>||\<close>, as it is written.\<close>

definition operand :: "(predicate \<Rightarrow> bool) \<Rightarrow> predicate \<Rightarrow> string" where
  "operand needs_parens p = (if needs_parens p then ''('' @ pred_display p @ '')'' else pred_display p)"

declare fmt_joined_inner.simps [simp del]

lemma fmt_nested:
  "fmt_joined_inner (And l r) separator And_Op first =
     (let (a, first) = fmt_joined_inner l separator And_Op first; (b, first) = fmt_joined_inner r separator And_Op first
      in (a @ b, first))"
  "fmt_joined_inner (Or l r) separator Or_Op first =
     (let (a, first) = fmt_joined_inner l separator Or_Op first; (b, first) = fmt_joined_inner r separator Or_Op first
      in (a @ b, first))"
  by (subst fmt_joined_inner.simps, simp)+

lemma fmt_plain:
  "\<not> is_and p \<Longrightarrow> fmt_joined_inner p separator And_Op first = ((if first then [] else separator) @ operand is_or p, False)"
  "\<not> is_or p \<Longrightarrow> fmt_joined_inner p separator Or_Op first = ((if first then [] else separator) @ operand is_and p, False)"
  by (subst fmt_joined_inner.simps; cases p; simp add: operand_def is_and_def is_or_def)+

lemma fmt_first:
  "snd (fmt_joined_inner p separator And_Op first) = False" "snd (fmt_joined_inner p separator Or_Op first) = False"
  by (induction p arbitrary: first)
    (simp_all add: fmt_nested fmt_plain is_and_def is_or_def split: prod.split, (metis snd_conv)+)

lemma fmt_top:
  "fst (fmt_joined_inner p '' && '' And_Op True) = operand is_or p"
  "fst (fmt_joined_inner p '' || '' Or_Op True) = operand is_and p"
proof -
  show "fst (fmt_joined_inner p '' && '' And_Op True) = operand is_or p"
  proof (cases "is_and p")
    case True
    then show ?thesis by (cases p) (simp_all add: operand_def is_and_def is_or_def)
  qed (simp add: fmt_plain)
  show "fst (fmt_joined_inner p '' || '' Or_Op True) = operand is_and p"
  proof (cases "is_or p")
    case True
    then show ?thesis by (cases p) (simp_all add: operand_def is_and_def is_or_def)
  qed (simp add: fmt_plain)
qed

lemma display_and: "\<not> is_and r \<Longrightarrow> pred_display (And l r) = operand is_or l @ '' && '' @ operand is_or r"
  using fmt_top(1) [of l] fmt_first(1) [of l "'' && ''" True]
  by (cases "fmt_joined_inner l '' && '' And_Op True") (simp add: fmt_nested fmt_plain)

lemma display_or: "\<not> is_or r \<Longrightarrow> pred_display (Or l r) = operand is_and l @ '' || '' @ operand is_and r"
  using fmt_top(2) [of l] fmt_first(2) [of l "'' || ''" True]
  by (cases "fmt_joined_inner l '' || '' Or_Op True") (simp add: fmt_nested fmt_plain)

declare pred_display.simps(6,7) [simp del]

text \<open>Reading a name.\<close>

lemma punctuation [simp]:
  "\<not> is_name_char (CHR '' '')" "\<not> is_name_char (CHR '')'')" "\<not> is_name_char (CHR ''('')" "\<not> is_name_char (CHR ''!'')"
  "\<not> is_name_char (CHR ''='')" "\<not> is_name_char (CHR ''&'')" "\<not> is_name_char (CHR ''|'')"
  "\<not> is_whitespace (CHR ''!'')" "\<not> is_whitespace (CHR ''('')" "\<not> is_whitespace (CHR '')'')"
  "\<not> is_whitespace (CHR ''>'')" "\<not> is_whitespace (CHR ''&'')" "\<not> is_whitespace (CHR ''|'')"
  by (simp_all add: is_name_char_def is_identifier_char_def is_vim_operator_char_def char_defs)

lemma name_char_no_whitespace: "is_name_char c \<Longrightarrow> \<not> is_whitespace c"
  by (auto simp: is_name_char_def is_vim_operator_char_def identifier_not_whitespace)
    (simp_all add: is_whitespace_def code_point_def)

text \<open>What may follow a printed predicate: nothing, a blank or a closing parenthesis.\<close>

definition separated :: "string \<Rightarrow> bool" where
  "separated rest = (rest = [] \<or> hd rest = CHR '' '' \<or> hd rest = CHR '')'')"

lemma name_starts: "name_ok w \<Longrightarrow> \<exists>c cs. w = c # cs \<and> is_name_char c"
  by (auto simp: name_ok_def is_name_char_def split: list.splits if_splits)

lemma primary_name:
  assumes "name_ok w" "separated rest"
  shows "primary (w @ rest) (Identifier w, skip_whitespace rest)"
proof -
  obtain c cs where w: "w = c # cs" "is_name_char c" using name_starts [OF assms(1)] by blast
  then have c: "c \<noteq> CHR ''(''" "c \<noteq> CHR ''!''" by auto
  have "parse_primary (Suc 0) (w @ rest) = ret (Inr (Identifier w, skip_whitespace rest))"
  proof (cases "is_identifier_char c")
    case True
    have "takeWhile is_name_char (w @ rest) = w" "dropWhile is_name_char (w @ rest) = rest"
      using assms w True by (auto simp: name_ok_def separated_def takeWhile_append dropWhile_append list_all_iff
          takeWhile_eq_Nil_iff hd_Cons_tl dropWhile_eq_self_iff)
    then show ?thesis using w c True by simp
  next
    case False
    then show ?thesis using w c assms(1) by (simp add: name_ok_def)
  qed
  then show ?thesis unfolding primary_def by blast
qed

text \<open>Looking for an operator.\<close>

lemma find_operator_none:
  "find_operator [] m = None" "find_operator (CHR '')'' # s) m = None" "PRECEDENCE_NOT \<le> m \<Longrightarrow> find_operator s m = None"
  by (auto simp: find_operator_def operators_def starts_with_def precedence_defs)

lemma find_operator_mono: "find_operator s k = None \<Longrightarrow> k \<le> m \<Longrightarrow> find_operator s m = None"
  unfolding find_operator_def find_None_iff by (auto dest: le_trans)

lemma find_operator_at:
  "find_operator (CHR ''>'' # s) m = (if m \<le> PRECEDENCE_CHILD then Some (''>'', PRECEDENCE_CHILD, new_child) else None)"
  "find_operator (CHR ''&'' # CHR ''&'' # s) m = (if m \<le> PRECEDENCE_AND then Some (''&&'', PRECEDENCE_AND, new_and) else None)"
  "find_operator (CHR ''|'' # CHR ''|'' # s) m = (if m \<le> PRECEDENCE_OR then Some (''||'', PRECEDENCE_OR, new_or) else None)"
  "find_operator (CHR ''='' # CHR ''='' # s) m = (if m \<le> PRECEDENCE_EQ then Some (''=='', PRECEDENCE_EQ, new_eq) else None)"
  "find_operator (CHR ''!'' # CHR ''='' # s) m = (if m \<le> PRECEDENCE_EQ then Some (''!='', PRECEDENCE_EQ, new_neq) else None)"
  by (simp_all add: find_operator_def operators_def starts_with_def)

lemma parses_name:
  assumes "name_ok w" "separated rest" "loops (Identifier w) (skip_whitespace rest) m r"
  shows "parses (w @ rest) m r"
  using parses_step [OF primary_name [OF assms(1,2)] assms(3)] .

lemma name_skip: "name_ok w \<Longrightarrow> skip_whitespace (w @ rest) = w @ rest"
  using name_starts [of w] name_char_no_whitespace by auto

lemma parses_eq:
  assumes "name_ok a" "name_ok b" "separated rest" "m \<le> PRECEDENCE_EQ"
  shows "loops (Equals a b) (skip_whitespace rest) m r \<Longrightarrow> parses (a @ '' == '' @ b @ rest) m r"
    and "loops (NotEquals a b) (skip_whitespace rest) m r \<Longrightarrow> parses (a @ '' != '' @ b @ rest) m r"
proof -
  have b: "parses (b @ rest) (PRECEDENCE_EQ + 1) (Identifier b, skip_whitespace rest)"
    by (rule parses_name [OF assms(2,3) loops_stop]) (simp add: find_operator_none precedence_defs)
  show "parses (a @ '' == '' @ b @ rest) m r" if "loops (Equals a b) (skip_whitespace rest) m r"
    by (rule parses_name [OF assms(1)], simp add: separated_def)
      (rule loops_step [OF _ _ _ that, of _ "''==''" PRECEDENCE_EQ new_eq "Identifier b"],
        use assms(4) b name_skip [OF assms(2)] in \<open>simp_all add: find_operator_at new_eq_def\<close>)
  show "parses (a @ '' != '' @ b @ rest) m r" if "loops (NotEquals a b) (skip_whitespace rest) m r"
    by (rule parses_name [OF assms(1)], simp add: separated_def)
      (rule loops_step [OF _ _ _ that, of _ "''!=''" PRECEDENCE_EQ new_neq "Identifier b"],
        use assms(4) b name_skip [OF assms(2)] in \<open>simp_all add: find_operator_at new_neq_def\<close>)
qed

text \<open>A printed predicate starts with no whitespace.\<close>

lemma display_skip: "printable p \<Longrightarrow> skip_whitespace (pred_display p @ rest) = pred_display p @ rest"
proof (induction p arbitrary: rest)
  case (Not p)
  then show ?case by (cases p) simp_all
next
  case (And l r)
  then show ?case by (simp add: display_and operand_def)
next
  case (Or l r)
  then show ?case by (simp add: display_or operand_def)
qed (simp_all add: name_skip)

lemma operand_skip: "printable p \<Longrightarrow> skip_whitespace (operand needs_parens p @ rest) = operand needs_parens p @ rest"
  by (simp add: operand_def display_skip)

text \<open>
  Reading a printed predicate at precedence \<open>m\<close> leaves the loop with that predicate and what follows,
  provided no operator follows that binds tighter than the predicate.
\<close>

definition reads :: "predicate \<Rightarrow> string \<Rightarrow> nat \<Rightarrow> bool" where
  "reads p text low = (\<forall>rest m r. m \<le> low \<longrightarrow> separated rest \<longrightarrow> find_operator (skip_whitespace rest) (low + 1) = None \<longrightarrow>
     loops p (skip_whitespace rest) m r \<longrightarrow> parses (text @ rest) m r)"

lemma readsD:
  "reads p text low \<Longrightarrow> m \<le> low \<Longrightarrow> separated rest \<Longrightarrow> find_operator (skip_whitespace rest) (low + 1) = None \<Longrightarrow>
   loops p (skip_whitespace rest) m r \<Longrightarrow> parses (text @ rest) m r"
  unfolding reads_def by blast

lemma reads_paren:
  assumes "reads p text (level p)" "\<And>rest. skip_whitespace (text @ rest) = text @ rest"
  shows "reads p (''('' @ text @ '')'') low"
  unfolding reads_def
proof (intro allI impI)
  fix rest m r assume "loops p (skip_whitespace rest) m r"
  moreover have "parses (text @ CHR '')'' # rest) 0 (p, CHR '')'' # rest)"
    by (rule readsD [OF assms(1)]) (simp_all add: separated_def find_operator_none loops_stop)
  ultimately show "parses ((''('' @ text @ '')'') @ rest) m r"
    using parses_step [OF primary_paren [of "text @ CHR '')'' # rest" p rest]] assms(2) by simp
qed

lemma reads_operand:
  assumes "reads p (pred_display p) (level p)" "printable p" "\<not> needs_parens p \<Longrightarrow> low \<le> level p"
  shows "reads p (operand needs_parens p) low"
proof (cases "needs_parens p")
  case True
  then show ?thesis using reads_paren [OF assms(1)] display_skip [OF assms(2)] by (simp add: operand_def)
next
  case False
  have "reads p (pred_display p) low"
    unfolding reads_def using readsD [OF assms(1)] assms(3) [OF False]
    by (meson find_operator_mono add_le_cancel_right le_trans)
  then show ?thesis using False by (simp add: operand_def)
qed

text \<open>An infix operator: the left operand, the operator between blanks, the right operand one level tighter.\<close>

lemma reads_infix:
  assumes left: "reads p l k" and right: "reads q s (k + 1)" and skip: "\<And>rest. skip_whitespace (s @ rest) = s @ rest"
    and at: "\<And>rest m. find_operator (operator @ rest) m = (if m \<le> k then Some (operator, k, c) else None)"
    and c: "c p q = Inr pq" and op: "\<not> is_whitespace (hd operator)" "operator \<noteq> []"
  shows "reads pq (l @ '' '' @ operator @ '' '' @ s) k"
  unfolding reads_def
proof (intro allI impI)
  fix rest m r
  assume m: "m \<le> k" and sep: "separated rest" and stop: "find_operator (skip_whitespace rest) (k + 1) = None"
    and go: "loops pq (skip_whitespace rest) m r"
  let ?more = "'' '' @ operator @ '' '' @ s @ rest"
  have blank: "skip_whitespace ?more = operator @ '' '' @ s @ rest" using op by (cases operator) simp_all
  have q: "parses (s @ rest) (k + 1) (q, skip_whitespace rest)"
    by (rule readsD [OF right _ sep find_operator_mono [OF stop] loops_stop [OF stop]]) simp_all
  have "loops p (operator @ '' '' @ s @ rest) m r"
    by (rule loops_step [where operator = operator and precedence = k and c = c and p' = pq and right = q
        and rest = "skip_whitespace rest"]) (use at m q skip c go in simp_all)
  with m show "parses ((l @ '' '' @ operator @ '' '' @ s) @ rest) m r"
    using readsD [OF left, of m ?more r] at blank by (simp add: separated_def)
qed

lemma operand_levels:
  assumes "PRECEDENCE_CHILD < level p"
  shows "\<not> is_or p \<Longrightarrow> PRECEDENCE_AND \<le> level p" "\<not> is_or p \<Longrightarrow> \<not> is_and p \<Longrightarrow> PRECEDENCE_AND + 1 \<le> level p"
    "PRECEDENCE_OR \<le> level p" "\<not> is_or p \<Longrightarrow> PRECEDENCE_OR + 1 \<le> level p"
  using assms by (cases p; simp add: is_or_def is_and_def precedence_defs)+

lemma display_reads: "printable p \<Longrightarrow> reads p (pred_display p) (level p)"
proof (induction p)
  case (Identifier name)
  then show ?case by (simp add: reads_def parses_name)
next
  case (Equals left right)
  then show ?case by (auto simp: reads_def intro: parses_eq(1) [simplified])
next
  case (NotEquals left right)
  then show ?case by (auto simp: reads_def intro: parses_eq(2) [simplified])
next
  case (Descendant parent child)
  then have "reads parent (pred_display parent) PRECEDENCE_CHILD" "reads child (pred_display child) (PRECEDENCE_CHILD + 1)"
    using reads_operand [of parent "\<lambda>_. False" PRECEDENCE_CHILD] reads_operand [of child "\<lambda>_. False" "PRECEDENCE_CHILD + 1"]
    by (cases parent; simp add: operand_def precedence_defs)+
  from reads_infix [OF this, of "''>''" new_child] Descendant.prems show ?case
    by (simp add: display_skip find_operator_at new_child_def)
next
  case (Not p)
  have reads: "reads p shown low \<Longrightarrow> (\<And>rest. skip_whitespace (shown @ rest) = shown @ rest) \<Longrightarrow>
      PRECEDENCE_NOT \<le> low \<Longrightarrow> reads (Not p) (''!'' @ shown) PRECEDENCE_NOT" for shown low
    unfolding reads_def [of "Not p"]
  proof (intro allI impI)
    fix rest m r
    assume p: "reads p shown low" "\<And>rest. skip_whitespace (shown @ rest) = shown @ rest" "PRECEDENCE_NOT \<le> low" "separated rest"
      and go: "loops (Not p) (skip_whitespace rest) m r"
    have "parses (shown @ rest) PRECEDENCE_NOT (p, skip_whitespace rest)"
      by (rule readsD [OF p(1,3,4) _ loops_stop]) (use p(3) in \<open>simp_all add: find_operator_none\<close>)
    then show "parses ((''!'' @ shown) @ rest) m r"
      using parses_step [OF primary_bang [of "shown @ rest" p] go] p(2) by simp
  qed
  have "reads p (operand (\<lambda>p. \<not> (\<exists>name. p = Identifier name)) p) PRECEDENCE_NOT"
    using Not by (intro reads_operand) auto
  from reads [OF this operand_skip] Not.prems show ?case
    by (cases p) (simp_all add: operand_def)
next
  case (And l r)
  then have "reads l (operand is_or l) PRECEDENCE_AND" "reads r (operand is_or r) (PRECEDENCE_AND + 1)"
    using And.IH And.prems operand_levels [of l] operand_levels [of r] by (auto intro: reads_operand)
  from reads_infix [OF this, of "''&&''" new_and] And.prems show ?case
    by (simp add: operand_skip find_operator_at new_and_def display_and)
next
  case (Or l r)
  then have "reads l (operand is_and l) PRECEDENCE_OR" "reads r (operand is_and r) (PRECEDENCE_OR + 1)"
    using Or.IH Or.prems operand_levels [of l] operand_levels [of r] by (auto intro: reads_operand)
  from reads_infix [OF this, of "''||''" new_or] Or.prems show ?case
    by (simp add: operand_skip find_operator_at new_or_def display_or)
qed

lemma parse_display: "printable p \<Longrightarrow> pred_parse (pred_display p) = ret (Inr p)"
  using readsD [OF display_reads, of p 0 "[]" "(p, [])"] display_skip [of p "[]"]
  by (intro parses_pred) (simp add: separated_def find_operator_none loops_stop)

end
