(* ===== verification/Keystroke.thy ===== *)
theory Keystroke
  imports Key_Context
begin

text \<open>
  \<open>gpui/src/platform/keystroke.rs\<close>: modifiers, keystrokes, their parser and printer, and the test
  whether a typed keystroke matches the one of a binding. What the source decides by
  \<open>cfg(target_os)\<close> takes the target as an argument; the two fields of \<open>KeybindingKeystroke\<close> that only
  exist on Windows are an optional pair.
\<close>

section \<open>Modifiers\<close>

record modifiers =
  m_control :: bool
  m_alt :: bool
  m_shift :: bool
  m_platform :: bool
  m_function :: bool

definition modifiers_none :: modifiers where
  "modifiers_none = \<lparr>m_control = False, m_alt = False, m_shift = False, m_platform = False, m_function = False\<rparr>"

definition modified :: "modifiers \<Rightarrow> bool" where
  "modified m = (m_control m \<or> m_alt m \<or> m_shift m \<or> m_platform m \<or> m_function m)"

definition secondary :: "target_os \<Rightarrow> modifiers \<Rightarrow> bool" where
  "secondary os m = (if os = Macos then m_platform m else m_control m)"

definition number_of_modifiers :: "modifiers \<Rightarrow> nat" where
  "number_of_modifiers m =
     of_bool (m_control m) + of_bool (m_alt m) + of_bool (m_shift m) + of_bool (m_platform m) + of_bool (m_function m)"

definition modifiers_command :: modifiers where
  "modifiers_command = modifiers_none\<lparr>m_platform := True\<rparr>"

definition modifiers_secondary_key :: "target_os \<Rightarrow> modifiers" where
  "modifiers_secondary_key os =
     (if os = Macos then modifiers_none\<lparr>m_platform := True\<rparr> else modifiers_none\<lparr>m_control := True\<rparr>)"

definition modifiers_windows :: modifiers where
  "modifiers_windows = modifiers_none\<lparr>m_platform := True\<rparr>"

definition modifiers_super_key :: modifiers where
  "modifiers_super_key = modifiers_none\<lparr>m_platform := True\<rparr>"

definition modifiers_control :: modifiers where
  "modifiers_control = modifiers_none\<lparr>m_control := True\<rparr>"

definition modifiers_alt :: modifiers where
  "modifiers_alt = modifiers_none\<lparr>m_alt := True\<rparr>"

definition modifiers_shift :: modifiers where
  "modifiers_shift = modifiers_none\<lparr>m_shift := True\<rparr>"

definition modifiers_function :: modifiers where
  "modifiers_function = modifiers_none\<lparr>m_function := True\<rparr>"

definition modifiers_command_shift :: modifiers where
  "modifiers_command_shift = modifiers_none\<lparr>m_shift := True, m_platform := True\<rparr>"

definition modifiers_control_shift :: modifiers where
  "modifiers_control_shift = modifiers_none\<lparr>m_shift := True, m_control := True\<rparr>"

definition mod_or :: "modifiers \<Rightarrow> modifiers \<Rightarrow> modifiers" where
  "mod_or a b = a\<lparr>m_control := m_control a \<or> m_control b, m_alt := m_alt a \<or> m_alt b, m_shift := m_shift a \<or> m_shift b,
     m_platform := m_platform a \<or> m_platform b, m_function := m_function a \<or> m_function b\<rparr>"

definition mod_xor :: "modifiers \<Rightarrow> modifiers \<Rightarrow> modifiers" where
  "mod_xor a b = a\<lparr>m_control := (m_control a \<noteq> m_control b), m_alt := (m_alt a \<noteq> m_alt b),
     m_shift := (m_shift a \<noteq> m_shift b), m_platform := (m_platform a \<noteq> m_platform b),
     m_function := (m_function a \<noteq> m_function b)\<rparr>"

definition mod_and :: "modifiers \<Rightarrow> modifiers \<Rightarrow> modifiers" where
  "mod_and a b = a\<lparr>m_control := m_control a \<and> m_control b, m_alt := m_alt a \<and> m_alt b, m_shift := m_shift a \<and> m_shift b,
     m_platform := m_platform a \<and> m_platform b, m_function := m_function a \<and> m_function b\<rparr>"

definition is_subset_of :: "modifiers \<Rightarrow> modifiers \<Rightarrow> bool" where
  "is_subset_of self other = (mod_and other self = self)"

lemmas modifier_defs = modifiers_none_def modifiers_command_def modifiers_secondary_key_def modifiers_windows_def
  modifiers_super_key_def modifiers_control_def modifiers_alt_def modifiers_shift_def modifiers_function_def
  modifiers_command_shift_def modifiers_control_shift_def

section \<open>Keystrokes\<close>

record keystroke =
  ks_modifiers :: modifiers
  ks_key :: string
  ks_key_char :: "string option"

record keybinding_keystroke =
  kk_inner :: keystroke
  kk_display :: "(modifiers \<times> string) option"

datatype invalid_keystroke_error = Invalid_Keystroke string

definition should_match :: "target_os \<Rightarrow> keystroke \<Rightarrow> keybinding_keystroke \<Rightarrow> bool" where
  "should_match os self target =
     (let ime_modifiers = (if os = Windows then modifiers_none
            else modifiers_none\<lparr>m_control := m_control (ks_modifiers self), m_platform := m_platform (ks_modifiers self)\<rparr>);
          inner = kk_inner target
      in if (case ks_key_char self of
               Some key_char \<Rightarrow> key_char \<noteq> ks_key self \<and> ks_key inner = key_char \<and> ks_modifiers inner = ime_modifiers
             | None \<Rightarrow> False)
         then True
         else ks_modifiers inner = ks_modifiers self \<and> ks_key inner = ks_key self)"

text \<open>The loop over the components: the modifiers, the key and the typed character found so far.\<close>

fun parse_components ::
  "target_os \<Rightarrow> string \<Rightarrow> string list \<Rightarrow> modifiers \<Rightarrow> string option \<Rightarrow> string option \<Rightarrow>
   invalid_keystroke_error + modifiers \<times> string option \<times> string option" where
  "parse_components os source [] m key key_char = Inr (m, key, key_char)"
| "parse_components os source (component # components) m key key_char =
     (if eq_ignore_ascii_case component ''ctrl'' then parse_components os source components (m\<lparr>m_control := True\<rparr>) key key_char
      else if eq_ignore_ascii_case component ''alt'' then parse_components os source components (m\<lparr>m_alt := True\<rparr>) key key_char
      else if eq_ignore_ascii_case component ''shift'' then parse_components os source components (m\<lparr>m_shift := True\<rparr>) key key_char
      else if eq_ignore_ascii_case component ''fn'' then parse_components os source components (m\<lparr>m_function := True\<rparr>) key key_char
      else if eq_ignore_ascii_case component ''secondary'' then
        parse_components os source components
          (if os = Macos then m\<lparr>m_platform := True\<rparr> else m\<lparr>m_control := True\<rparr>) key key_char
      else if eq_ignore_ascii_case component ''cmd'' \<or> eq_ignore_ascii_case component ''super'' \<or>
              eq_ignore_ascii_case component ''win'' then
        parse_components os source components (m\<lparr>m_platform := True\<rparr>) key key_char
      else
        (case components of
           next # rest \<Rightarrow>
             if next = [] \<and> ends_with source (CHR ''-'') then Inr (m, Some ''-'', key_char)
             else if 1 < length next \<and> starts_with next ''>'' then
               parse_components os source rest m (Some component) (Some (drop 1 next))
             else Inl (Invalid_Keystroke source)
         | [] \<Rightarrow>
             parse_components os source []
               (if length component = 1 \<and> is_ascii_uppercase (hd component) then m\<lparr>m_shift := True\<rparr> else m)
               (Some (map to_ascii_lowercase component)) key_char))"

text \<open>A modifier without a key is the key.\<close>

definition modifier_as_key :: "modifiers \<Rightarrow> modifiers \<times> string option" where
  "modifier_as_key m =
     (if m_shift m then (m\<lparr>m_shift := False\<rparr>, Some ''shift'')
      else if m_control m then (m\<lparr>m_control := False\<rparr>, Some ''control'')
      else if m_alt m then (m\<lparr>m_alt := False\<rparr>, Some ''alt'')
      else if m_platform m then (m\<lparr>m_platform := False\<rparr>, Some ''platform'')
      else if m_function m then (m\<lparr>m_function := False\<rparr>, Some ''function'')
      else (m, None))"

definition keystroke_parse :: "target_os \<Rightarrow> string \<Rightarrow> invalid_keystroke_error + keystroke" where
  "keystroke_parse os source =
     (case parse_components os source (split_char (CHR ''-'') source) modifiers_none None None of
        Inl e \<Rightarrow> Inl e
      | Inr (m, key, key_char) \<Rightarrow>
          (let (m, key) = (case key of Some k \<Rightarrow> (m, Some k) | None \<Rightarrow> modifier_as_key m) in
           case key of
             None \<Rightarrow> Inl (Invalid_Keystroke source)
           | Some k \<Rightarrow> Inr \<lparr>ks_modifiers = m, ks_key = k, ks_key_char = key_char\<rparr>))"

definition unparse :: "target_os \<Rightarrow> modifiers \<Rightarrow> string \<Rightarrow> string" where
  "unparse os m key =
     (if m_function m then ''fn-'' else []) @
     (if m_control m then ''ctrl-'' else []) @
     (if m_alt m then ''alt-'' else []) @
     (if m_platform m then
        (case os of Macos \<Rightarrow> ''cmd-'' | Linux \<Rightarrow> ''super-'' | Freebsd \<Rightarrow> ''super-'' | Windows \<Rightarrow> ''win-'' | Other_Os \<Rightarrow> [])
      else []) @
     (if m_shift m then ''shift-'' else []) @ key"

definition keystroke_unparse :: "target_os \<Rightarrow> keystroke \<Rightarrow> string" where
  "keystroke_unparse os self = unparse os (ks_modifiers self) (ks_key self)"

definition is_printable_key :: "string \<Rightarrow> bool" where
  "is_printable_key key = (key \<notin> set
     [''f1'', ''f2'', ''f3'', ''f4'', ''f5'', ''f6'', ''f7'', ''f8'', ''f9'', ''f10'', ''f11'', ''f12'', ''f13'', ''f14'',
      ''f15'', ''f16'', ''f17'', ''f18'', ''f19'', ''f20'', ''f21'', ''f22'', ''f23'', ''f24'', ''f25'', ''f26'', ''f27'',
      ''f28'', ''f29'', ''f30'', ''f31'', ''f32'', ''f33'', ''f34'', ''f35'', ''backspace'', ''delete'', ''left'', ''right'',
      ''up'', ''down'', ''pageup'', ''pagedown'', ''insert'', ''home'', ''end'', ''back'', ''forward'', ''escape''])"

definition is_ime_in_progress :: "keystroke \<Rightarrow> bool" where
  "is_ime_in_progress self =
     (ks_key_char self = None \<and> (is_printable_key (ks_key self) \<or> ks_key self = []) \<and>
      \<not> (m_platform (ks_modifiers self) \<or> m_control (ks_modifiers self) \<or> m_function (ks_modifiers self) \<or>
         m_alt (ks_modifiers self)))"

section \<open>Keystrokes of bindings\<close>

definition from_keystroke :: "target_os \<Rightarrow> keystroke \<Rightarrow> keybinding_keystroke" where
  "from_keystroke os keystroke =
     \<lparr>kk_inner = keystroke,
      kk_display = (if os = Windows then Some (ks_modifiers keystroke, ks_key keystroke) else None)\<rparr>"

definition kk_modifiers :: "keybinding_keystroke \<Rightarrow> modifiers" where
  "kk_modifiers self = (case kk_display self of Some (m, _) \<Rightarrow> m | None \<Rightarrow> ks_modifiers (kk_inner self))"

definition kk_key :: "keybinding_keystroke \<Rightarrow> string" where
  "kk_key self = (case kk_display self of Some (_, key) \<Rightarrow> key | None \<Rightarrow> ks_key (kk_inner self))"

definition kk_set_modifiers :: "keybinding_keystroke \<Rightarrow> modifiers \<Rightarrow> keybinding_keystroke" where
  "kk_set_modifiers self m =
     self\<lparr>kk_inner := (kk_inner self)\<lparr>ks_modifiers := m\<rparr>, kk_display := map_option (\<lambda>(_, key). (m, key)) (kk_display self)\<rparr>"

definition kk_set_key :: "keybinding_keystroke \<Rightarrow> string \<Rightarrow> keybinding_keystroke" where
  "kk_set_key self key =
     self\<lparr>kk_display := map_option (\<lambda>(m, _). (m, key)) (kk_display self), kk_inner := (kk_inner self)\<lparr>ks_key := key\<rparr>\<rparr>"

definition kk_unparse :: "target_os \<Rightarrow> keybinding_keystroke \<Rightarrow> string" where
  "kk_unparse os self =
     (case kk_display self of
        Some (m, key) \<Rightarrow> unparse os m key
      | None \<Rightarrow> unparse os (ks_modifiers (kk_inner self)) (ks_key (kk_inner self)))"

definition kk_remove_key_char :: "keybinding_keystroke \<Rightarrow> keybinding_keystroke" where
  "kk_remove_key_char self = self\<lparr>kk_inner := (kk_inner self)\<lparr>ks_key_char := None\<rparr>\<rparr>"

section \<open>The order of modifiers\<close>

lemma mod_and_simps [simp]:
  "m_control (mod_and a b) = (m_control a \<and> m_control b)" "m_alt (mod_and a b) = (m_alt a \<and> m_alt b)"
  "m_shift (mod_and a b) = (m_shift a \<and> m_shift b)" "m_platform (mod_and a b) = (m_platform a \<and> m_platform b)"
  "m_function (mod_and a b) = (m_function a \<and> m_function b)"
  by (simp_all add: mod_and_def)

lemma modifiers_eq: "a = (b :: modifiers) \<longleftrightarrow> m_control a = m_control b \<and> m_alt a = m_alt b \<and> m_shift a = m_shift b \<and>
    m_platform a = m_platform b \<and> m_function a = m_function b"
  by (cases a; cases b) simp

lemma subset_fields: "is_subset_of a b \<longleftrightarrow> (m_control a \<longrightarrow> m_control b) \<and> (m_alt a \<longrightarrow> m_alt b) \<and>
    (m_shift a \<longrightarrow> m_shift b) \<and> (m_platform a \<longrightarrow> m_platform b) \<and> (m_function a \<longrightarrow> m_function b)"
  by (auto simp: is_subset_of_def modifiers_eq)

lemma mod_or_simps [simp]:
  "m_control (mod_or a b) = (m_control a \<or> m_control b)" "m_alt (mod_or a b) = (m_alt a \<or> m_alt b)"
  "m_shift (mod_or a b) = (m_shift a \<or> m_shift b)" "m_platform (mod_or a b) = (m_platform a \<or> m_platform b)"
  "m_function (mod_or a b) = (m_function a \<or> m_function b)"
  by (simp_all add: mod_or_def)

lemma mod_xor_simps [simp]:
  "m_control (mod_xor a b) = (m_control a \<noteq> m_control b)" "m_alt (mod_xor a b) = (m_alt a \<noteq> m_alt b)"
  "m_shift (mod_xor a b) = (m_shift a \<noteq> m_shift b)" "m_platform (mod_xor a b) = (m_platform a \<noteq> m_platform b)"
  "m_function (mod_xor a b) = (m_function a \<noteq> m_function b)"
  by (simp_all add: mod_xor_def)

lemma count_or_and: "number_of_modifiers (mod_or a b) + number_of_modifiers (mod_and a b) =
    number_of_modifiers a + number_of_modifiers b"
  by (simp add: number_of_modifiers_def of_bool_def)

lemma count_bounds: "number_of_modifiers m \<le> 5" "modified m \<longleftrightarrow> 0 < number_of_modifiers m"
  by (auto simp: number_of_modifiers_def modified_def of_bool_def)

section \<open>Printing a keystroke and parsing it again\<close>

definition modifier_words :: "string list" where
  "modifier_words = [''ctrl'', ''alt'', ''shift'', ''fn'', ''secondary'', ''cmd'', ''super'', ''win'']"

definition plain_component :: "string \<Rightarrow> bool" where
  "plain_component c = (CHR ''-'' \<notin> set c \<and> (\<forall>w \<in> set modifier_words. \<not> eq_ignore_ascii_case c w))"

definition plain_key :: "string \<Rightarrow> bool" where
  "plain_key key = (plain_component key \<and> (\<forall>c \<in> set key. \<not> is_ascii_uppercase c))"

text \<open>A component that is a modifier.\<close>

lemma component_words:
  "parse_components os source (''ctrl'' # cs) m key key_char = parse_components os source cs (m\<lparr>m_control := True\<rparr>) key key_char"
  "parse_components os source (''alt'' # cs) m key key_char = parse_components os source cs (m\<lparr>m_alt := True\<rparr>) key key_char"
  "parse_components os source (''shift'' # cs) m key key_char = parse_components os source cs (m\<lparr>m_shift := True\<rparr>) key key_char"
  "parse_components os source (''fn'' # cs) m key key_char = parse_components os source cs (m\<lparr>m_function := True\<rparr>) key key_char"
  "parse_components os source (''cmd'' # cs) m key key_char = parse_components os source cs (m\<lparr>m_platform := True\<rparr>) key key_char"
  "parse_components os source (''super'' # cs) m key key_char = parse_components os source cs (m\<lparr>m_platform := True\<rparr>) key key_char"
  "parse_components os source (''win'' # cs) m key key_char = parse_components os source cs (m\<lparr>m_platform := True\<rparr>) key key_char"
  by (simp_all add: eq_ignore_ascii_case_def char_defs)

lemma component_plain:
  "plain_component c \<Longrightarrow> parse_components os source (c # cs) m key key_char =
     (case cs of
        next # rest \<Rightarrow>
          if next = [] \<and> ends_with source (CHR ''-'') then Inr (m, Some ''-'', key_char)
          else if 1 < length next \<and> starts_with next ''>'' then
            parse_components os source rest m (Some c) (Some (drop 1 next))
          else Inl (Invalid_Keystroke source)
      | [] \<Rightarrow>
          Inr (if length c = 1 \<and> is_ascii_uppercase (hd c) then m\<lparr>m_shift := True\<rparr> else m,
               Some (map to_ascii_lowercase c), key_char))"
  by (simp add: plain_component_def modifier_words_def split: list.split)

text \<open>The prefixes \<open>unparse\<close> writes.\<close>

lemma split_prefix:
  "split_char (CHR ''-'') (CHR ''f'' # CHR ''n'' # CHR ''-'' # s) = ''fn'' # split_char (CHR ''-'') s"
  "split_char (CHR ''-'') (CHR ''c'' # CHR ''t'' # CHR ''r'' # CHR ''l'' # CHR ''-'' # s) = ''ctrl'' # split_char (CHR ''-'') s"
  "split_char (CHR ''-'') (CHR ''a'' # CHR ''l'' # CHR ''t'' # CHR ''-'' # s) = ''alt'' # split_char (CHR ''-'') s"
  "split_char (CHR ''-'') (CHR ''c'' # CHR ''m'' # CHR ''d'' # CHR ''-'' # s) = ''cmd'' # split_char (CHR ''-'') s"
  "split_char (CHR ''-'') (CHR ''s'' # CHR ''u'' # CHR ''p'' # CHR ''e'' # CHR ''r'' # CHR ''-'' # s) = ''super'' # split_char (CHR ''-'') s"
  "split_char (CHR ''-'') (CHR ''w'' # CHR ''i'' # CHR ''n'' # CHR ''-'' # s) = ''win'' # split_char (CHR ''-'') s"
  "split_char (CHR ''-'') (CHR ''s'' # CHR ''h'' # CHR ''i'' # CHR ''f'' # CHR ''t'' # CHR ''-'' # s) = ''shift'' # split_char (CHR ''-'') s"
  by simp_all

lemma parse_unparse_components:
  assumes "os \<noteq> Other_Os"
  shows "parse_components os source (split_char (CHR ''-'') (unparse os m key)) modifiers_none None None =
    parse_components os source (split_char (CHR ''-'') key) m None None"
  using assms
  by (cases m; cases os; simp add: unparse_def split_prefix component_words modifiers_none_def
      del: parse_components.simps(2) split_char.simps)

lemma parse_components_key:
  "plain_key key \<Longrightarrow> parse_components os source (split_char (CHR ''-'') key) m None None = Inr (m, Some key, None)"
  using component_plain [of key os source "[]" m None None]
  by (cases key) (auto simp: plain_key_def plain_component_def split_char_none map_idI simp del: parse_components.simps(2))

lemma parse_components_dash:
  "ends_with source (CHR ''-'') \<Longrightarrow> plain_component c \<Longrightarrow>
   parse_components os source (split_char (CHR ''-'') (c @ ''-'')) m None None = Inr (m, Some ''-'', None)"
  using component_plain [of c os source "[[]]" m None None] split_char_append [of "CHR ''-''" c "[]"]
  by (simp add: plain_component_def del: parse_components.simps(2))

lemma plain_empty [simp]: "plain_component []"
  by (simp add: plain_component_def modifier_words_def eq_ignore_ascii_case_def)

lemma parse_unparse:
  assumes "os \<noteq> Other_Os" "plain_key key \<or> key = ''-''"
  shows "keystroke_parse os (unparse os m key) = Inr \<lparr>ks_modifiers = m, ks_key = key, ks_key_char = None\<rparr>"
proof -
  have "parse_components os (unparse os m key) (split_char (CHR ''-'') key) m None None = Inr (m, Some key, None)"
    using assms(2)
  proof
    assume "key = ''-''"
    then show ?thesis using parse_components_dash [of "unparse os m key" "[]"] by (simp add: ends_with_def unparse_def)
  qed (rule parse_components_key)
  then show ?thesis unfolding keystroke_parse_def parse_unparse_components [OF assms(1)] by simp
qed

end
