(* ===== verification/Rust_Sort.thy ===== *)
theory Rust_Sort
  imports Prelude "HOL-Library.Multiset"
begin

text \<open>
  \<open>slice::sort_by\<close>: the stable sort by a comparison function, here as insertion from the right. For
  comparisons that order the elements, the result of a stable sort is determined.
\<close>

fun insort_by :: "('a \<Rightarrow> 'a \<Rightarrow> ordering) \<Rightarrow> 'a \<Rightarrow> 'a list \<Rightarrow> 'a list" where
  "insort_by compare x [] = [x]"
| "insort_by compare x (y # ys) = (if compare x y = Greater then y # insort_by compare x ys else x # y # ys)"

definition sort_by :: "('a \<Rightarrow> 'a \<Rightarrow> ordering) \<Rightarrow> 'a list \<Rightarrow> 'a list" where
  "sort_by compare xs = foldr (insort_by compare) xs []"

lemma mset_insort_by [simp]: "mset (insort_by compare x ys) = add_mset x (mset ys)"
  by (induction ys) simp_all

lemma mset_sort_by [simp]: "mset (sort_by compare xs) = mset xs"
  unfolding sort_by_def by (induction xs) simp_all

lemma set_sort_by [simp]: "set (sort_by compare xs) = set xs"
  by (metis mset_sort_by set_mset_mset)

lemma set_insort_by [simp]: "set (insort_by compare x ys) = insert x (set ys)"
  by (induction ys) auto

text \<open>The contract of a comparison: a total preorder.\<close>

locale comparison =
  fixes compare :: "'a \<Rightarrow> 'a \<Rightarrow> ordering"
  assumes reversed: "compare x y = Greater \<Longrightarrow> compare y x = Less"
    and trans: "compare x y \<noteq> Greater \<Longrightarrow> compare y z \<noteq> Greater \<Longrightarrow> compare x z \<noteq> Greater"
begin

lemma insort_by_sorted:
  "sorted_wrt (\<lambda>x y. compare x y \<noteq> Greater) ys \<Longrightarrow> sorted_wrt (\<lambda>x y. compare x y \<noteq> Greater) (insort_by compare x ys)"
proof (induction ys)
  case (Cons y ys)
  then show ?case using reversed [of x y] trans [of x y] by auto
qed simp

lemma sort_by_sorted: "sorted_wrt (\<lambda>x y. compare x y \<noteq> Greater) (sort_by compare xs)"
  unfolding sort_by_def by (induction xs) (simp_all add: insort_by_sorted)

end

end
