(* ===== verification/Keymap.thy ===== *)
theory Keymap
  imports Keystroke Rust_Sort
begin

text \<open>
  \<open>gpui/src/keymap/binding.rs\<close> and \<open>gpui/src/keymap.rs\<close>: bindings and the keymap that resolves input
  to them. The actions of an application are trait objects: what the keymap asks of them (their type,
  name and equality) is the dictionary \<open>action_ops\<close>; \<open>NoAction\<close> and \<open>Unbind\<close> are the two actions
  the crate defines itself.
\<close>

section \<open>Actions and bindings\<close>

record 'a action_ops =
  op_type_id :: "'a \<Rightarrow> nat"
  op_name :: "'a \<Rightarrow> string"
  op_partial_eq :: "'a \<Rightarrow> 'a \<Rightarrow> bool"

datatype 'a action = No_Action | Unbind string | User 'a

datatype type_id = Type_No_Action | Type_Unbind | Type_User nat

fun action_type_id :: "'a action_ops \<Rightarrow> 'a action \<Rightarrow> type_id" where
  "action_type_id ops No_Action = Type_No_Action"
| "action_type_id ops (Unbind _) = Type_Unbind"
| "action_type_id ops (User a) = Type_User (op_type_id ops a)"

fun action_name :: "'a action_ops \<Rightarrow> 'a action \<Rightarrow> string" where
  "action_name ops No_Action = ''zed::NoAction''"
| "action_name ops (Unbind _) = ''zed::Unbind''"
| "action_name ops (User a) = op_name ops a"

fun action_partial_eq :: "'a action_ops \<Rightarrow> 'a action \<Rightarrow> 'a action \<Rightarrow> bool" where
  "action_partial_eq ops No_Action No_Action = True"
| "action_partial_eq ops (Unbind a) (Unbind b) = (a = b)"
| "action_partial_eq ops (User a) (User b) = op_partial_eq ops a b"
| "action_partial_eq ops _ _ = False"

definition is_no_action :: "'a action \<Rightarrow> bool" where
  "is_no_action action = (case action of No_Action \<Rightarrow> True | _ \<Rightarrow> False)"

definition is_unbind :: "'a action \<Rightarrow> bool" where
  "is_unbind action = (case action of Unbind _ \<Rightarrow> True | _ \<Rightarrow> False)"

record 'a key_binding =
  kb_action :: "'a action"
  kb_keystrokes :: "keybinding_keystroke list"
  kb_context_predicate :: "predicate option"
  kb_meta :: "nat option"
  kb_action_input :: "string option"

text \<open>\<open>KeyBinding::load\<close>: the first word that does not parse is the error.\<close>

fun load_keystrokes ::
  "target_os \<Rightarrow> (keystroke \<Rightarrow> bool \<Rightarrow> keybinding_keystroke) \<Rightarrow> bool \<Rightarrow> string list \<Rightarrow>
   invalid_keystroke_error + keybinding_keystroke list" where
  "load_keystrokes os mapper use_key_equivalents [] = Inr []"
| "load_keystrokes os mapper use_key_equivalents (source # sources) =
     (case keystroke_parse os source of
        Inl e \<Rightarrow> Inl e
      | Inr keystroke \<Rightarrow>
          (case load_keystrokes os mapper use_key_equivalents sources of
             Inl e \<Rightarrow> Inl e
           | Inr keystrokes \<Rightarrow> Inr (mapper keystroke use_key_equivalents # keystrokes)))"

definition kb_load ::
  "target_os \<Rightarrow> string \<Rightarrow> 'a action \<Rightarrow> predicate option \<Rightarrow> bool \<Rightarrow> string option \<Rightarrow>
   (keystroke \<Rightarrow> bool \<Rightarrow> keybinding_keystroke) \<Rightarrow> invalid_keystroke_error + 'a key_binding" where
  "kb_load os keystrokes action context_predicate use_key_equivalents action_input mapper =
     (case load_keystrokes os mapper use_key_equivalents (split_whitespace keystrokes) of
        Inl e \<Rightarrow> Inl e
      | Inr keystrokes \<Rightarrow> Inr \<lparr>kb_action = action, kb_keystrokes = keystrokes,
          kb_context_predicate = context_predicate, kb_meta = None, kb_action_input = action_input\<rparr>)"

definition kb_with_meta :: "'a key_binding \<Rightarrow> nat \<Rightarrow> 'a key_binding" where
  "kb_with_meta self meta = self\<lparr>kb_meta := Some meta\<rparr>"

fun match_loop :: "target_os \<Rightarrow> (keybinding_keystroke \<times> keystroke) list \<Rightarrow> bool" where
  "match_loop os [] = True"
| "match_loop os ((target, typed) # rest) = (if \<not> should_match os typed target then False else match_loop os rest)"

definition match_keystrokes :: "target_os \<Rightarrow> 'a key_binding \<Rightarrow> keystroke list \<Rightarrow> bool option" where
  "match_keystrokes os self typed =
     (if length (kb_keystrokes self) < length typed then None
      else if \<not> match_loop os (zip (kb_keystrokes self) typed) then None
      else Some (length typed < length (kb_keystrokes self)))"

section \<open>The keymap\<close>

record 'a keymap =
  km_bindings :: "'a key_binding list"
  km_indices :: "type_id \<rightharpoonup> nat list"
  km_disabled :: "nat list"
  km_version :: nat

definition keymap_default :: "'a keymap" where
  "keymap_default = \<lparr>km_bindings = [], km_indices = Map.empty, km_disabled = [], km_version = 0\<rparr>"

definition disabled_binding_matches_context :: "'a key_binding \<Rightarrow> 'a key_binding \<Rightarrow> bool" where
  "disabled_binding_matches_context disabled binding =
     (case (kb_context_predicate disabled, kb_context_predicate binding) of
        (None, _) \<Rightarrow> True
      | (Some _, None) \<Rightarrow> False
      | (Some disabled_predicate, Some predicate) \<Rightarrow> is_superset disabled_predicate predicate)"

definition binding_is_unbound :: "'a action_ops \<Rightarrow> 'a key_binding \<Rightarrow> 'a key_binding \<Rightarrow> bool" where
  "binding_is_unbound ops disabled binding =
     (kb_keystrokes disabled = kb_keystrokes binding \<and>
      (case kb_action disabled of Unbind name \<Rightarrow> name = action_name ops (kb_action binding) | _ \<Rightarrow> False))"

definition add_binding :: "'a action_ops \<Rightarrow> 'a keymap \<Rightarrow> 'a key_binding \<Rightarrow> 'a keymap" where
  "add_binding ops self binding = (
     let action_id = action_type_id ops (kb_action binding);
         self =
           (if is_no_action (kb_action binding) \<or> is_unbind (kb_action binding) then
              self\<lparr>km_disabled := km_disabled self @ [length (km_bindings self)]\<rparr>
            else
              self\<lparr>km_indices := (km_indices self)(action_id \<mapsto>
                (case km_indices self action_id of Some ixs \<Rightarrow> ixs | None \<Rightarrow> []) @ [length (km_bindings self)])\<rparr>)
     in self\<lparr>km_bindings := km_bindings self @ [binding]\<rparr>)"

definition add_bindings :: "'a action_ops \<Rightarrow> 'a keymap \<Rightarrow> 'a key_binding list \<Rightarrow> 'a keymap" where
  "add_bindings ops self bindings = (
     let self = foldl (add_binding ops) self bindings in self\<lparr>km_version := km_version self + 1\<rparr>)"

definition keymap_new :: "'a action_ops \<Rightarrow> 'a key_binding list \<Rightarrow> 'a keymap" where
  "keymap_new ops bindings = add_bindings ops keymap_default bindings"

definition keymap_clear :: "'a keymap \<Rightarrow> 'a keymap" where
  "keymap_clear self = self\<lparr>km_bindings := [], km_indices := Map.empty, km_disabled := [], km_version := km_version self + 1\<rparr>"

text \<open>The loop over the disabled bindings: does one of them hide the binding at \<open>ix\<close>?\<close>

fun disabled_loop :: "'a action_ops \<Rightarrow> 'a keymap \<Rightarrow> nat \<Rightarrow> 'a key_binding \<Rightarrow> nat list \<Rightarrow> bool rust" where
  "disabled_loop ops self ix binding [] = ret False"
| "disabled_loop ops self ix binding (disabled_ix # rest) =
     (if ix < disabled_ix then do {
        disabled \<leftarrow> index_or_panic (km_bindings self) disabled_ix;
        if kb_keystrokes disabled \<noteq> kb_keystrokes binding then disabled_loop ops self ix binding rest
        else if is_no_action (kb_action disabled) then
          (if disabled_binding_matches_context disabled binding then ret True
           else disabled_loop ops self ix binding rest)
        else if is_unbind (kb_action disabled) \<and> disabled_binding_matches_context disabled binding \<and>
                binding_is_unbound ops disabled binding then ret True
        else disabled_loop ops self ix binding rest }
      else disabled_loop ops self ix binding rest)"

fun action_loop :: "'a action_ops \<Rightarrow> 'a keymap \<Rightarrow> 'a action \<Rightarrow> nat list \<Rightarrow> 'a key_binding list rust" where
  "action_loop ops self action [] = ret []"
| "action_loop ops self action (ix # ixs) = do {
     binding \<leftarrow> index_or_panic (km_bindings self) ix;
     hidden \<leftarrow> (if \<not> action_partial_eq ops (kb_action binding) action then ret True
                else disabled_loop ops self ix binding (km_disabled self));
     rest \<leftarrow> action_loop ops self action ixs;
     ret (if hidden then rest else binding # rest) }"

definition bindings_for_action :: "'a action_ops \<Rightarrow> 'a keymap \<Rightarrow> 'a action \<Rightarrow> 'a key_binding list rust" where
  "bindings_for_action ops self action =
     action_loop ops self action
       (case km_indices self (action_type_id ops action) of Some ixs \<Rightarrow> ixs | None \<Rightarrow> [])"

definition all_bindings_for_input :: "target_os \<Rightarrow> 'a keymap \<Rightarrow> keystroke list \<Rightarrow> 'a key_binding list" where
  "all_bindings_for_input os self input =
     filter (\<lambda>binding. match_keystrokes os binding input = Some False) (rev (km_bindings self))"

definition binding_enabled :: "'a key_binding \<Rightarrow> key_context list \<Rightarrow> nat option" where
  "binding_enabled binding contexts =
     (case kb_context_predicate binding of Some predicate \<Rightarrow> depth_of predicate contexts | None \<Rightarrow> Some (length contexts))"

section \<open>Resolving input\<close>

type_synonym 'a ranked = "nat \<times> nat \<times> 'a key_binding"

text \<open>The first loop of \<open>resolve_bindings_for_input\<close>: what matches fully, and what may match with more input.\<close>

fun matching_loop ::
  "target_os \<Rightarrow> keystroke list \<Rightarrow> key_context list \<Rightarrow> (nat \<times> 'a key_binding) list \<Rightarrow>
   'a ranked list \<times> (nat \<times> 'a key_binding) list \<Rightarrow> 'a ranked list \<times> (nat \<times> 'a key_binding) list" where
  "matching_loop os input context_stack [] acc = acc"
| "matching_loop os input context_stack ((ix, binding) # rest) (matched, pending) =
     (case binding_enabled binding context_stack of
        None \<Rightarrow> matching_loop os input context_stack rest (matched, pending)
      | Some depth \<Rightarrow>
          (case match_keystrokes os binding input of
             None \<Rightarrow> matching_loop os input context_stack rest (matched, pending)
           | Some longer \<Rightarrow>
               matching_loop os input context_stack rest
                 (if \<not> longer then (matched @ [(depth, ix, binding)], pending)
                  else (matched, pending @ [(ix, binding)]))))"

text \<open>Deeper matches first, and at one depth the later binding first.\<close>

definition rank_compare :: "'a ranked \<Rightarrow> 'a ranked \<Rightarrow> ordering" where
  "rank_compare a b = (case (a, b) of ((depth_a, ix_a, _), (depth_b, ix_b, _)) \<Rightarrow>
     ord_then (ord_cmp depth_b depth_a) (ord_cmp ix_b ix_a))"

record 'a resolution =
  rs_bindings :: "(nat \<times> 'a key_binding) list"
  rs_first :: "nat option"
  rs_unbound :: "'a key_binding list"
  rs_no_action_meta :: "nat option"

definition binding_meta :: "'a key_binding \<Rightarrow> nat" where
  "binding_meta binding = (case kb_meta binding of Some meta \<Rightarrow> meta | None \<Rightarrow> 0)"

definition resolve_step :: "'a action_ops \<Rightarrow> 'a resolution \<Rightarrow> 'a ranked \<Rightarrow> 'a resolution" where
  "resolve_step ops st entry = (case entry of (_, ix, binding) \<Rightarrow> (
     let meta = binding_meta binding in
     if is_no_action (kb_action binding) then
       st\<lparr>rs_no_action_meta := Some (case rs_no_action_meta st of Some existing \<Rightarrow> min existing meta | None \<Rightarrow> meta)\<rparr>
     else if (case rs_no_action_meta st of Some no_action_meta \<Rightarrow> no_action_meta \<le> meta | None \<Rightarrow> False) then st
     else if is_unbind (kb_action binding) then st\<lparr>rs_unbound := rs_unbound st @ [binding]\<rparr>
     else if list_ex (\<lambda>disabled. binding_is_unbound ops disabled binding) (rs_unbound st) then st
     else st\<lparr>rs_bindings := rs_bindings st @ [(ix, binding)],
             rs_first := (case rs_first st of Some i \<Rightarrow> Some i | None \<Rightarrow> Some ix)\<rparr>))"

definition resolution_start :: "'a resolution" where
  "resolution_start = \<lparr>rs_bindings = [], rs_first = None, rs_unbound = [], rs_no_action_meta = None\<rparr>"

fun pending_loop ::
  "nat option \<Rightarrow> (nat \<times> 'a key_binding) list \<Rightarrow> keybinding_keystroke list set \<Rightarrow> keybinding_keystroke list set" where
  "pending_loop first [] pending = pending"
| "pending_loop first ((ix, binding) # rest) pending =
     (if (case first of Some binding_ix \<Rightarrow> ix < binding_ix | None \<Rightarrow> False) then pending_loop first rest pending
      else if is_no_action (kb_action binding) \<or> is_unbind (kb_action binding) then
        pending_loop first rest (pending - {kb_keystrokes binding})
      else pending_loop first rest (insert (kb_keystrokes binding) pending))"

definition resolve_bindings_for_input ::
  "target_os \<Rightarrow> 'a action_ops \<Rightarrow> keystroke list \<Rightarrow> key_context list \<Rightarrow> (nat \<times> 'a key_binding) list \<Rightarrow>
   (nat \<times> 'a key_binding) list \<times> bool" where
  "resolve_bindings_for_input os ops input context_stack keymap_bindings = (
     let (matched, pending_bindings) = matching_loop os input context_stack keymap_bindings ([], []);
         st = foldl (resolve_step ops) resolution_start (sort_by rank_compare matched);
         pending = pending_loop (rs_first st) (rev pending_bindings) {}
     in (rs_bindings st, pending \<noteq> {}))"

definition bindings_for_input ::
  "target_os \<Rightarrow> 'a action_ops \<Rightarrow> 'a keymap \<Rightarrow> keystroke list \<Rightarrow> key_context list \<Rightarrow> 'a key_binding list \<times> bool" where
  "bindings_for_input os ops self input context_stack = (
     let (bindings, pending) =
           resolve_bindings_for_input os ops input context_stack (rev (enumerate 0 (km_bindings self)))
     in (map snd bindings, pending))"

text \<open>
  \<open>possible_next_bindings_for_input\<close>; a binding that extends the input has more keystrokes than the
  input, so the slice after them is in range.
\<close>

definition next_candidate ::
  "target_os \<Rightarrow> 'a action_ops \<Rightarrow> keystroke list \<Rightarrow> key_context list \<Rightarrow> (nat \<times> 'a key_binding) list \<Rightarrow>
   nat \<times> 'a key_binding \<Rightarrow> 'a ranked option" where
  "next_candidate os ops input context_stack extending entry = (case entry of (ix, binding) \<Rightarrow>
     (case binding_enabled binding context_stack of
        None \<Rightarrow> None
      | Some depth \<Rightarrow>
          (let full_input = input @ map kk_inner (drop (length input) (kb_keystrokes binding));
               (dispatched, _) = resolve_bindings_for_input os ops full_input context_stack extending
           in if list_ex (\<lambda>(dispatched_ix, _). dispatched_ix = ix) dispatched then Some (depth, ix, binding) else None)))"

definition possible_next_bindings_for_input ::
  "target_os \<Rightarrow> 'a action_ops \<Rightarrow> 'a keymap \<Rightarrow> keystroke list \<Rightarrow> key_context list \<Rightarrow> 'a key_binding list" where
  "possible_next_bindings_for_input os ops self input context_stack = (
     let extending = filter (\<lambda>(_, binding). match_keystrokes os binding input = Some True)
           (rev (enumerate 0 (km_bindings self)));
         candidates = List.map_filter (next_candidate os ops input context_stack extending)
           (filter (\<lambda>(_, binding). \<not> is_no_action (kb_action binding) \<and> \<not> is_unbind (kb_action binding)) extending)
     in map (\<lambda>(_, _, binding). binding) (sort_by rank_compare candidates))"

section \<open>Matching keystrokes\<close>

lemma match_loop_spec: "match_loop os pairs \<longleftrightarrow> list_all (\<lambda>(target, typed). should_match os typed target) pairs"
  by (induction os pairs rule: match_loop.induct) auto

lemma match_keystrokes_spec:
  "match_keystrokes os binding typed = Some longer \<longleftrightarrow>
     length typed \<le> length (kb_keystrokes binding) \<and> (longer \<longleftrightarrow> length typed < length (kb_keystrokes binding)) \<and>
     (\<forall>i < length typed. should_match os (typed ! i) (kb_keystrokes binding ! i))"
  by (auto simp: match_keystrokes_def match_loop_spec list_all_length)

section \<open>The tables of a keymap\<close>

definition hides :: "'a key_binding \<Rightarrow> bool" where
  "hides binding = (is_no_action (kb_action binding) \<or> is_unbind (kb_action binding))"

definition km_entry :: "'a keymap \<Rightarrow> type_id \<Rightarrow> nat list" where
  "km_entry self t = (case km_indices self t of Some ixs \<Rightarrow> ixs | None \<Rightarrow> [])"

text \<open>The invariant: the two tables list exactly the positions of the bindings they are for, in order.\<close>

definition km_inv :: "'a action_ops \<Rightarrow> 'a keymap \<Rightarrow> bool" where
  "km_inv ops self \<longleftrightarrow>
     (\<forall>t. km_entry self t = filter (\<lambda>i. action_type_id ops (kb_action (km_bindings self ! i)) = t \<and> \<not> hides (km_bindings self ! i))
        [0..<length (km_bindings self)]) \<and>
     km_disabled self = filter (\<lambda>i. hides (km_bindings self ! i)) [0..<length (km_bindings self)]"

lemma filter_nth_append:
  "filter (\<lambda>i. P ((xs @ [x]) ! i)) [0..<Suc (length xs)] = filter (\<lambda>i. P (xs ! i)) [0..<length xs] @ (if P x then [length xs] else [])"
proof -
  have "filter (\<lambda>i. P ((xs @ [x]) ! i)) [0..<length xs] = filter (\<lambda>i. P (xs ! i)) [0..<length xs]"
    by (rule filter_cong) (simp_all add: nth_append)
  then show ?thesis by simp
qed

lemma km_inv_default: "km_inv ops keymap_default"
  by (simp add: km_inv_def keymap_default_def km_entry_def)

lemma km_inv_clear: "km_inv ops (keymap_clear self)"
  by (simp add: km_inv_def keymap_clear_def km_entry_def)

lemma add_binding_bindings [simp]: "km_bindings (add_binding ops self binding) = km_bindings self @ [binding]"
  by (simp add: add_binding_def)

lemma km_inv_add_binding:
  assumes "km_inv ops self"
  shows "km_inv ops (add_binding ops self binding)"
proof -
  note tables = assms [unfolded km_inv_def]
  have "km_entry (add_binding ops self binding) t = km_entry self t @
      (if action_type_id ops (kb_action binding) = t \<and> \<not> hides binding then [length (km_bindings self)] else [])" for t
    by (simp add: add_binding_def km_entry_def hides_def)
  moreover have "km_disabled (add_binding ops self binding) = km_disabled self @ (if hides binding then [length (km_bindings self)] else [])"
    by (simp add: add_binding_def hides_def)
  ultimately show ?thesis
    using tables filter_nth_append [of "\<lambda>b. action_type_id ops (kb_action b) = t \<and> \<not> hides b" "km_bindings self" binding for t]
      filter_nth_append [of hides "km_bindings self" binding]
    unfolding km_inv_def add_binding_bindings length_append list.size add_0_left Suc_eq_plus1 [symmetric]
    by simp
qed

lemma fold_add_binding:
  "km_inv ops self \<Longrightarrow> km_inv ops (foldl (add_binding ops) self bindings) \<and>
   km_bindings (foldl (add_binding ops) self bindings) = km_bindings self @ bindings \<and>
   km_version (foldl (add_binding ops) self bindings) = km_version self"
proof (induction bindings arbitrary: self)
  case (Cons b bs)
  have "km_version (add_binding ops self b) = km_version self" by (simp add: add_binding_def)
  then show ?case using Cons.IH [OF km_inv_add_binding [OF Cons.prems, of b]] by simp
qed simp

lemma add_bindings_ok:
  assumes "km_inv ops self"
  shows "km_inv ops (add_bindings ops self bindings)" "km_bindings (add_bindings ops self bindings) = km_bindings self @ bindings"
    "km_version (add_bindings ops self bindings) = km_version self + 1"
  using fold_add_binding [OF assms, of bindings] by (simp_all add: add_bindings_def km_inv_def km_entry_def)

section \<open>The bindings of an action\<close>

definition hidden_by :: "'a action_ops \<Rightarrow> 'a key_binding \<Rightarrow> 'a key_binding \<Rightarrow> bool" where
  "hidden_by ops disabled binding \<longleftrightarrow>
     kb_keystrokes disabled = kb_keystrokes binding \<and> disabled_binding_matches_context disabled binding \<and>
     (is_no_action (kb_action disabled) \<or> is_unbind (kb_action disabled) \<and> binding_is_unbound ops disabled binding)"

lemma disabled_loop_ok:
  "\<forall>j \<in> set ds. j < length (km_bindings self) \<Longrightarrow>
   disabled_loop ops self ix binding ds = ret (\<exists>j \<in> set ds. ix < j \<and> hidden_by ops (km_bindings self ! j) binding)"
  by (induction ds) (auto simp: index_or_panic_def hidden_by_def)

lemma action_loop_ok:
  assumes "\<forall>j \<in> set (km_disabled self). j < length (km_bindings self)"
  shows "\<forall>i \<in> set ixs. i < length (km_bindings self) \<Longrightarrow> action_loop ops self action ixs =
    ret (map ((!) (km_bindings self)) (filter (\<lambda>i. action_partial_eq ops (kb_action (km_bindings self ! i)) action \<and>
      \<not> (\<exists>j \<in> set (km_disabled self). i < j \<and> hidden_by ops (km_bindings self ! j) (km_bindings self ! i))) ixs))"
  by (induction ixs) (auto simp: index_or_panic_def disabled_loop_ok [OF assms])

lemma bindings_for_action_ok:
  assumes "km_inv ops self"
  shows "bindings_for_action ops self action = ret (map ((!) (km_bindings self)) (filter (\<lambda>i.
      action_type_id ops (kb_action (km_bindings self ! i)) = action_type_id ops action \<and> \<not> hides (km_bindings self ! i) \<and>
      action_partial_eq ops (kb_action (km_bindings self ! i)) action \<and>
      (\<forall>j < length (km_bindings self). i < j \<longrightarrow> \<not> hidden_by ops (km_bindings self ! j) (km_bindings self ! i)))
    [0..<length (km_bindings self)]))"
proof -
  have disabled: "j \<in> set (km_disabled self) \<longleftrightarrow> j < length (km_bindings self) \<and> hides (km_bindings self ! j)" for j
    using assms by (auto simp: km_inv_def)
  have entry: "(case km_indices self t of Some ixs \<Rightarrow> ixs | None \<Rightarrow> []) =
      filter (\<lambda>i. action_type_id ops (kb_action (km_bindings self ! i)) = t \<and> \<not> hides (km_bindings self ! i))
        [0..<length (km_bindings self)]" for t
    using assms by (simp add: km_inv_def km_entry_def)
  have "hidden_by ops d b \<Longrightarrow> hides d" for d b :: "'a key_binding" by (auto simp: hidden_by_def hides_def)
  then show ?thesis
    unfolding bindings_for_action_def entry
    by (subst action_loop_ok) (auto simp: disabled intro!: arg_cong [where f = "map _"] filter_cong)
qed

section \<open>The order of matches\<close>

interpretation rank: comparison "rank_compare :: 'a ranked \<Rightarrow> 'a ranked \<Rightarrow> ordering"
  by unfold_locales (auto simp: rank_compare_def ord_then_def ord_cmp_def split: if_splits prod.splits)

text \<open>What is matched, in the order of the keymap.\<close>

definition ranked_match ::
  "target_os \<Rightarrow> keystroke list \<Rightarrow> key_context list \<Rightarrow> bool \<Rightarrow> nat \<times> 'a key_binding \<Rightarrow> 'a ranked option" where
  "ranked_match os input context_stack longer entry = (case binding_enabled (snd entry) context_stack of
     Some depth \<Rightarrow> if match_keystrokes os (snd entry) input = Some longer then Some (depth, fst entry, snd entry) else None
   | None \<Rightarrow> None)"

lemma map_filter_Cons: "List.map_filter f (x # xs) = (case f x of Some y \<Rightarrow> y # List.map_filter f xs | None \<Rightarrow> List.map_filter f xs)"
  by (simp add: List.map_filter_def split: option.split)

lemma matching_loop_ok:
  "matching_loop os input context_stack entries acc =
     (fst acc @ List.map_filter (ranked_match os input context_stack False) entries,
      snd acc @ map snd (List.map_filter (ranked_match os input context_stack True) entries))"
proof (induction entries arbitrary: acc)
  case (Cons entry entries)
  obtain ix binding where e: "entry = (ix, binding)" by (cases entry)
  obtain matched pending where acc: "acc = (matched, pending)" by (cases acc)
  show ?case
    unfolding e acc
    by (cases "binding_enabled binding context_stack"; cases "match_keystrokes os binding input")
      (auto simp: Cons.IH map_filter_Cons ranked_match_def)
qed (simp add: List.map_filter_def)

section \<open>Which matches are dispatched\<close>

text \<open>
  The rules, over the matches in order of precedence: a match is covered when an earlier \<open>NoAction\<close>
  comes from a source that is as strong or stronger; it wins when it is an action, is not covered, and
  no earlier \<open>Unbind\<close> that is not covered itself unbinds it.
\<close>

definition match_at :: "'a ranked list \<Rightarrow> nat \<Rightarrow> 'a key_binding" where
  "match_at matches i = snd (snd (matches ! i))"

definition covered :: "'a ranked list \<Rightarrow> nat \<Rightarrow> bool" where
  "covered matches i \<longleftrightarrow> (\<exists>j < i. is_no_action (kb_action (match_at matches j)) \<and>
     binding_meta (match_at matches j) \<le> binding_meta (match_at matches i))"

definition unbinds :: "'a ranked list \<Rightarrow> nat \<Rightarrow> bool" where
  "unbinds matches j \<longleftrightarrow> is_unbind (kb_action (match_at matches j)) \<and> \<not> covered matches j"

definition wins :: "'a action_ops \<Rightarrow> 'a ranked list \<Rightarrow> nat \<Rightarrow> bool" where
  "wins ops matches i \<longleftrightarrow> \<not> hides (match_at matches i) \<and> \<not> covered matches i \<and>
     \<not> (\<exists>j < i. unbinds matches j \<and> binding_is_unbound ops (match_at matches j) (match_at matches i))"

lemma match_at_append: "i < length matches \<Longrightarrow> match_at (matches @ [x]) i = match_at matches i"
  by (simp add: match_at_def nth_append)

lemma match_at_last: "match_at (matches @ [x]) (length matches) = snd (snd x)"
  by (simp add: match_at_def)

lemma covered_append: "i < length matches \<Longrightarrow> covered (matches @ [x]) i = covered matches i"
  by (auto simp: covered_def match_at_append)

lemma unbinds_append: "i < length matches \<Longrightarrow> unbinds (matches @ [x]) i = unbinds matches i"
  by (simp add: unbinds_def match_at_append covered_append)

lemma wins_append: "i < length matches \<Longrightarrow> wins ops (matches @ [x]) i = wins ops matches i"
  unfolding wins_def
  by (intro conj_cong arg_cong [where f = HOL.Not] ex_cong1) (simp_all add: match_at_append covered_append unbinds_append)

lemma unbind_not_no_action [simp]: "is_unbind action \<Longrightarrow> \<not> is_no_action action"
  by (cases action) (simp_all add: is_unbind_def is_no_action_def)

definition blocked :: "'a resolution \<Rightarrow> 'a key_binding \<Rightarrow> bool" where
  "blocked st binding \<longleftrightarrow> (case rs_no_action_meta st of Some n \<Rightarrow> n \<le> binding_meta binding | None \<Rightarrow> False)"

definition accepted :: "'a action_ops \<Rightarrow> 'a resolution \<Rightarrow> 'a key_binding \<Rightarrow> bool" where
  "accepted ops st binding \<longleftrightarrow> \<not> hides binding \<and> \<not> blocked st binding \<and>
     \<not> list_ex (\<lambda>disabled. binding_is_unbound ops disabled binding) (rs_unbound st)"

lemma resolve_step_fields:
  "blocked (resolve_step ops st (depth, ix, binding)) b \<longleftrightarrow>
      blocked st b \<or> is_no_action (kb_action binding) \<and> binding_meta binding \<le> binding_meta b"
    "rs_unbound (resolve_step ops st (depth, ix, binding)) =
       rs_unbound st @ (if is_unbind (kb_action binding) \<and> \<not> blocked st binding then [binding] else [])"
    "rs_bindings (resolve_step ops st (depth, ix, binding)) =
       rs_bindings st @ (if accepted ops st binding then [(ix, binding)] else [])"
    "rs_first (resolve_step ops st (depth, ix, binding)) =
       (case rs_first st of Some i \<Rightarrow> Some i | None \<Rightarrow> if accepted ops st binding then Some ix else None)"
  by (cases "rs_no_action_meta st"; auto simp: resolve_step_def blocked_def accepted_def hides_def split: option.split)+

abbreviation resolved :: "'a action_ops \<Rightarrow> 'a ranked list \<Rightarrow> 'a resolution" where
  "resolved ops matches \<equiv> foldl (resolve_step ops) resolution_start matches"

lemma resolve_fold:
  "(\<forall>b. blocked (resolved ops matches) b \<longleftrightarrow>
       (\<exists>j < length matches. is_no_action (kb_action (match_at matches j)) \<and> binding_meta (match_at matches j) \<le> binding_meta b)) \<and>
     rs_unbound (resolved ops matches) = map (match_at matches) (filter (unbinds matches) [0..<length matches]) \<and>
     rs_bindings (resolved ops matches) = map (\<lambda>i. snd (matches ! i)) (filter (wins ops matches) [0..<length matches]) \<and>
     rs_first (resolved ops matches) = map_option fst (list_first (rs_bindings (resolved ops matches)))"
proof (induction matches rule: rev_induct)
  case Nil
  then show ?case by (simp add: resolution_start_def list_first_def blocked_def)
next
  case (snoc x matches)
  obtain depth ix binding where x: "x = (depth, ix, binding)" by (cases x)
  let ?st = "resolved ops matches" and ?st' = "resolved ops (matches @ [x])"
  have st': "?st' = resolve_step ops ?st x" by simp
  have metas: "(\<exists>j < length (matches @ [x]). is_no_action (kb_action (match_at (matches @ [x]) j)) \<and>
        binding_meta (match_at (matches @ [x]) j) \<le> m) \<longleftrightarrow>
      (\<exists>j < length matches. is_no_action (kb_action (match_at matches j)) \<and> binding_meta (match_at matches j) \<le> m) \<or>
      is_no_action (kb_action binding) \<and> binding_meta binding \<le> m" for m
    by (auto simp: less_Suc_eq match_at_append match_at_last x)
  have covered: "covered (matches @ [x]) (length matches) \<longleftrightarrow> blocked ?st binding"
    using snoc.IH by (auto simp: covered_def match_at_append match_at_last x)
  have "filter (unbinds (matches @ [x])) [0..<length matches] = filter (unbinds matches) [0..<length matches]"
    by (rule filter_cong) (simp_all add: unbinds_append)
  moreover have "map (match_at (matches @ [x])) (filter (unbinds matches) [0..<length matches]) =
      map (match_at matches) (filter (unbinds matches) [0..<length matches])"
    by (rule map_cong) (simp_all add: match_at_append)
  ultimately have unbound: "map (match_at (matches @ [x])) (filter (unbinds (matches @ [x])) [0..<length (matches @ [x])]) =
      rs_unbound ?st @ (if is_unbind (kb_action binding) \<and> \<not> blocked ?st binding then [binding] else [])"
    using snoc.IH covered by (simp add: x unbinds_def [of _ "length matches"] match_at_last)
  have new: "wins ops (matches @ [x]) (length matches) \<longleftrightarrow> accepted ops ?st binding"
    using snoc.IH covered by (auto simp: accepted_def wins_def match_at_append match_at_last unbinds_append x list_ex_iff)
  have "filter (wins ops (matches @ [x])) [0..<length matches] = filter (wins ops matches) [0..<length matches]"
    by (rule filter_cong) (simp_all add: wins_append)
  moreover have "map (\<lambda>i. snd ((matches @ [x]) ! i)) (filter (wins ops matches) [0..<length matches]) =
      map (\<lambda>i. snd (matches ! i)) (filter (wins ops matches) [0..<length matches])"
    by (rule map_cong) (simp_all add: nth_append)
  ultimately have bindings: "map (\<lambda>i. snd ((matches @ [x]) ! i)) (filter (wins ops (matches @ [x])) [0..<length (matches @ [x])]) =
      rs_bindings ?st @ (if wins ops (matches @ [x]) (length matches) then [(ix, binding)] else [])"
    using snoc.IH by (simp add: x)
  note step = resolve_step_fields [of ops ?st depth ix binding, folded x, folded st']
  from snoc.IH have "rs_first ?st = map_option fst (list_first (rs_bindings ?st))" by blast
  then have "rs_first ?st' = map_option fst (list_first (rs_bindings ?st'))"
    unfolding step(3,4) by (cases "rs_bindings ?st") (simp_all add: list_first_def)
  moreover have "blocked ?st' b \<longleftrightarrow> (\<exists>j < length (matches @ [x]). is_no_action (kb_action (match_at (matches @ [x]) j)) \<and>
      binding_meta (match_at (matches @ [x]) j) \<le> binding_meta b)" for b
    unfolding step(1) metas using snoc.IH by blast
  ultimately show ?case unfolding unbound bindings new step(2,3) by blast
qed

text \<open>All the bindings of a keymap that match the input fully, in order of precedence.\<close>

definition keymap_matches ::
  "target_os \<Rightarrow> 'a keymap \<Rightarrow> keystroke list \<Rightarrow> key_context list \<Rightarrow> 'a ranked list" where
  "keymap_matches os self input context_stack = sort_by rank_compare
     (List.map_filter (ranked_match os input context_stack False) (rev (enumerate 0 (km_bindings self))))"

lemma bindings_for_input_ok:
  "fst (bindings_for_input os ops self input context_stack) =
     map (match_at (keymap_matches os self input context_stack))
       (filter (wins ops (keymap_matches os self input context_stack)) [0..<length (keymap_matches os self input context_stack)])"
  using resolve_fold [of ops "keymap_matches os self input context_stack"]
  by (simp add: bindings_for_input_def resolve_bindings_for_input_def matching_loop_ok keymap_matches_def match_at_def comp_def)

lemma set_map_filter: "set (List.map_filter f xs) = {y. \<exists>x \<in> set xs. f x = Some y}"
  by (force simp: List.map_filter_def)

lemma set_enumerated: "set (rev (enumerate 0 xs)) = {(i, xs ! i) | i. i < length xs}"
  unfolding set_rev enumerate_eq_zip set_zip by force

lemma keymap_matches_set:
  "(depth, ix, binding) \<in> set (keymap_matches os self input context_stack) \<longleftrightarrow>
     ix < length (km_bindings self) \<and> binding = km_bindings self ! ix \<and>
     binding_enabled binding context_stack = Some depth \<and> match_keystrokes os binding input = Some False"
  unfolding keymap_matches_def set_sort_by set_map_filter set_enumerated
  by (auto simp: ranked_match_def split: option.splits)

lemma keymap_matches_sorted:
  "sorted_wrt (\<lambda>(d, i, _) (d', i', _). d' < d \<or> d' = d \<and> i' \<le> i) (keymap_matches os self input context_stack)"
  using rank.sort_by_sorted [of "List.map_filter (ranked_match os input context_stack False) (rev (enumerate 0 (km_bindings self)))"]
  unfolding keymap_matches_def
  by (rule sorted_wrt_mono_rel [rotated]) (auto simp: rank_compare_def ord_then_def ord_cmp_def split: if_splits)

end
