(* ===== verification/Keymap_Properties.thy ===== *)
theory Keymap_Properties
  imports Predicate_Parser Keymap
begin

text \<open>
  What the keymap promises: contexts and predicates are parsed and printed consistently, predicates
  are compared and evaluated as documented (and where they are not), keystrokes round trip, and the
  bindings for an input are the ones the rules of precedence give.
\<close>

section \<open>Contexts\<close>

text \<open>C21: \<open>KeyContext::parse\<close> returns exactly on the sources made of identifier characters, whitespace and
  equals signs; on every other source its recursion does not end.\<close>

theorem context_parse_returns:
  "kc_parse source \<noteq> None \<longleftrightarrow>
     (\<forall>c \<in> set source. is_identifier_char c \<or> is_whitespace c \<or> c = CHR ''='')"
  using kc_parse_returns [of source] by (simp add: context_char_def)

theorem context_parse_returns_witness: "kc_parse ''a = b'' \<noteq> None \<and> kc_parse ''a(b'' = None"
  using context_parse_returns [of "''a = b''"] context_parse_returns [of "''a(b''"]
  by (simp add: is_identifier_char_def char_defs)

text \<open>A context with distinct keys, printed by its \<open>Debug\<close> format, is parsed back to itself.\<close>

lemma context_round_trip:
  assumes "kc_inv es" "\<forall>e \<in> set es. identifier_word (ce_key e) \<and> (\<forall>v. ce_value e = Some v \<longrightarrow> identifier_word v)"
  shows "kc_parse (kc_debug es) = Some es"
proof -
  have "list_all entry_printable es" using assms(2) by (auto simp: list_all_iff entry_printable_def split: option.split)
  then show ?thesis using assms(1) parse_debug [of es] extend_distinct [of "[]" es] by (simp add: kc_inv_def)
qed

text \<open>No operation makes a key occur twice; the first entry for a key stays, whether \<open>add\<close>, \<open>set\<close> or \<open>extend\<close>
  come with another one.\<close>

lemma context_entries:
  assumes "kc_inv self"
  shows "kc_inv (kc_add self key) \<and> kc_inv (kc_set self key v) \<and> kc_inv (kc_extend self other) \<and>
    (kc_contains self key \<longrightarrow> kc_add self key = self \<and> kc_set self key v = self) \<and>
    (\<not> kc_contains self key \<longrightarrow> kc_get (kc_set self key v) key = Some v) \<and>
    (kc_contains (kc_extend self other) key = (kc_contains self key \<or> kc_contains other key)) \<and>
    kc_get (kc_extend self other) key = (if kc_contains self key then kc_get self key else kc_get other key)"
proof -
  have "kc_inv (kc_add self key) \<and> kc_inv (kc_set self key v) \<and> kc_inv (kc_extend self other)" using assms by simp
  moreover have "kc_contains self key \<longrightarrow> kc_add self key = self \<and> kc_set self key v = self"
    by (simp add: kc_add_def kc_set_def)
  moreover have "\<not> kc_contains self key \<longrightarrow> kc_get (kc_set self key v) key = Some v"
    by (auto simp: kc_set_def kc_get_def find_append contains_find)
  ultimately show ?thesis
    by (auto simp: kc_get_def extend_find contains_find split: option.splits)
qed

section \<open>Predicates\<close>

text \<open>The parser of predicates returns on every source, with a predicate or an error: the fuel the model
  gives it is always enough.\<close>

lemma predicate_parse_total: "\<exists>r. pred_parse source = ret (r :: parse_error + predicate)"
  by (rule parse_returns)

text \<open>C25: A predicate printed by its \<open>Display\<close> is parsed back to itself if every name in it is one that the parser reads as a name
  (an identifier character followed by identifier or vim operator characters, or a single vim operator character), if chains of one
  operator nest to the left (the right operand of an \<open>&&\<close>, an \<open>||\<close> or a \<open>>\<close> is not the same operator again), and if no operand of
  \<open>&&\<close> or \<open>||\<close> is a descendant operator (below \<open>!\<close> it may be one).\<close>

theorem predicate_round_trip:
  assumes "printable p"
  shows "pred_parse (pred_display p) = ret (Inr p)"
  using assms by (rule parse_display)

theorem predicate_round_trip_witness:
  "pred_parse ''a && b == c && !(d > e) && (f || g)'' =
     ret (Inr (And (And (And (Identifier ''a'') (Equals ''b'' ''c'')) (Not (Descendant (Identifier ''d'') (Identifier ''e''))))
       (Or (Identifier ''f'') (Identifier ''g''))))"
proof -
  let ?p = "And (And (And (Identifier ''a'') (Equals ''b'' ''c'')) (Not (Descendant (Identifier ''d'') (Identifier ''e''))))
    (Or (Identifier ''f'') (Identifier ''g''))"
  have "printable ?p" by (simp add: name_ok_def is_name_char_def is_identifier_char_def char_defs precedence_defs is_and_def is_or_def)
  moreover have "pred_display ?p = ''a && b == c && !(d > e) && (f || g)''"
    by (simp add: display_and display_or operand_def is_or_def is_and_def)
  ultimately show ?thesis using predicate_round_trip [of ?p] by simp
qed

text \<open>\<open>Display\<close> writes a descendant operator below an \<open>or\<close> without parentheses, so that parsing
  reads it at the other place: the two predicates tell contexts apart.\<close>

lemma display_loses_grouping:
  assumes "name_ok a" "name_ok b" "name_ok c"
  shows "pred_parse (pred_display (Or (Descendant (Identifier a) (Identifier b)) (Identifier c))) =
      ret (Inr (Descendant (Identifier a) (Or (Identifier b) (Identifier c)))) \<and>
    pred_eval (Or (Descendant (Identifier a) (Identifier b)) (Identifier c)) [kc_add [] c] \<and>
    \<not> pred_eval (Descendant (Identifier a) (Or (Identifier b) (Identifier c))) [kc_add [] c]"
proof -
  have "pred_display (Or (Descendant (Identifier a) (Identifier b)) (Identifier c)) =
      pred_display (Descendant (Identifier a) (Or (Identifier b) (Identifier c)))"
    by (simp add: display_or operand_def is_and_def is_or_def)
  moreover have "printable (Descendant (Identifier a) (Or (Identifier b) (Identifier c)))"
    using assms by (simp add: is_or_def precedence_defs)
  ultimately have "pred_parse (pred_display (Or (Descendant (Identifier a) (Identifier b)) (Identifier c))) =
      ret (Inr (Descendant (Identifier a) (Or (Identifier b) (Identifier c))))"
    using parse_display by metis
  then show ?thesis by (simp add: pred_eval_def list_last_def kc_add_def kc_contains_def)
qed

text \<open>\<open>depth_of\<close> is the deepest prefix of the context stack the predicate matches, and \<open>None\<close> exactly when
  it matches none; an empty stack is matched by nothing.\<close>

lemma depth_of_deepest:
  "(depth_of p contexts = Some d \<longleftrightarrow> d \<le> length contexts \<and> eval_inner p (take d contexts) contexts \<and>
      \<not> (\<exists>e. d < e \<and> e \<le> length contexts \<and> eval_inner p (take e contexts) contexts)) \<and>
   (depth_of p contexts = None \<longleftrightarrow> \<not> (\<exists>e. e \<le> length contexts \<and> eval_inner p (take e contexts) contexts)) \<and>
   \<not> pred_eval p [] \<and> depth_of p contexts \<noteq> Some 0"
  using depth_of_spec [of p contexts d] depth_of_None [of p contexts] depth_of_spec [of p contexts 0] by (auto simp: pred_eval_def)

text \<open>When a predicate without \<open>!\<close> and \<open>>\<close> is a superset of another one, it matches wherever the other one
  does, at least as deep.\<close>

lemma is_superset_sound:
  assumes "is_superset p q" "local_pred p"
  shows "(pred_eval q contexts \<longrightarrow> pred_eval p contexts) \<and>
    (depth_of q contexts = Some d \<longrightarrow> (\<exists>e. d \<le> e \<and> depth_of p contexts = Some e))"
proof -
  have sound: "eval_inner q cs a \<Longrightarrow> eval_inner p cs a" for cs a by (rule superset_sound [OF assms])
  have "\<exists>e. d \<le> e \<and> depth_of p contexts = Some e" if q: "depth_of q contexts = Some d"
  proof -
    have d: "d \<le> length contexts" "eval_inner p (take d contexts) contexts"
      using q sound depth_of_spec [of q contexts d] by blast+
    then obtain e where e: "depth_of p contexts = Some e" using depth_of_None [of p contexts] by blast
    then show ?thesis using d depth_of_spec [of p contexts e] by (auto simp: not_less [symmetric])
  qed
  then show ?thesis using sound by (auto simp: pred_eval_def)
qed

text \<open>With \<open>!\<close> the answer of \<open>is_superset\<close> is not a comparison of what the predicates match: the one
  it calls a superset does not match a stack the other one matches.\<close>

lemma is_superset_unsound:
  assumes "x \<noteq> a"
  shows "is_superset (Not (Identifier x)) (Descendant (Identifier a) (Not (Identifier x))) \<and>
    pred_eval (Descendant (Identifier a) (Not (Identifier x))) [kc_add [] x, kc_add [] a, []] \<and>
    \<not> pred_eval (Not (Identifier x)) [kc_add [] x, kc_add [] a, []]"
proof -
  have "[0..<2] = [0, Suc 0]" by (simp add: upt_rec)
  then show ?thesis using assms
    by (simp add: is_superset.simps pred_eval_def list_last_def kc_add_def kc_contains_def)
qed

section \<open>Keystrokes\<close>

text \<open>C30: On every target with a name for the platform key, a keystroke with any modifiers is printed by \<open>unparse\<close> so that it is
  parsed back, without its typed character, and then matches the original, if its key is \<open>-\<close> or else has no \<open>-\<close> in it, no ASCII
  upper case letter, and is not a word for a modifier (\<open>ctrl\<close>, \<open>alt\<close>, \<open>shift\<close>, \<open>fn\<close>, \<open>secondary\<close>, \<open>cmd\<close>, \<open>super\<close>,
  \<open>win\<close>).\<close>

theorem keystroke_round_trip:
  assumes "os \<noteq> Other_Os" "plain_key (ks_key ks) \<or> ks_key ks = ''-''"
  shows "keystroke_parse os (keystroke_unparse os ks) = Inr (ks\<lparr>ks_key_char := None\<rparr>) \<and>
    should_match os ks (from_keystroke os (ks\<lparr>ks_key_char := None\<rparr>))"
  using parse_unparse [OF assms, of "ks_modifiers ks"]
  by (cases ks) (simp add: keystroke_unparse_def should_match_def from_keystroke_def)

theorem keystroke_round_trip_witness:
  "keystroke_parse Linux ''ctrl-super-a'' =
     Inr \<lparr>ks_modifiers = modifiers_none\<lparr>m_control := True, m_platform := True\<rparr>, ks_key = ''a'', ks_key_char = None\<rparr>"
  using keystroke_round_trip [of Linux "\<lparr>ks_modifiers = modifiers_none\<lparr>m_control := True, m_platform := True\<rparr>,
      ks_key = ''a'', ks_key_char = None\<rparr>"]
  by (simp add: plain_key_def plain_component_def modifier_words_def eq_ignore_ascii_case_def char_defs
      keystroke_unparse_def unparse_def modifiers_none_def)

text \<open>A component in front of a final \<open>-\<close> is dropped: \<open>a-\<close> parses as the key \<open>-\<close> alone, whatever the
  component is.\<close>

lemma parse_drops_component:
  assumes "plain_component c"
  shows "keystroke_parse os (c @ ''-'') = Inr \<lparr>ks_modifiers = modifiers_none, ks_key = ''-'', ks_key_char = None\<rparr>"
  using parse_components_dash [OF _ assms, of "c @ ''-''" os modifiers_none] by (simp add: keystroke_parse_def ends_with_def)

section \<open>Keymaps\<close>

text \<open>C32: adding bindings and clearing keep the tables of a keymap in step with its bindings; then
  \<open>bindings_for_action\<close> never panics and lists, in the order they were added, the bindings of the action
  that no later \<open>NoAction\<close> or \<open>Unbind\<close> hides.\<close>

theorem bindings_for_action_correct:
  assumes "km_inv ops self"
  shows "km_inv ops (add_bindings ops self bindings) \<and> km_inv ops (keymap_clear self) \<and>
    km_bindings (add_bindings ops self bindings) = km_bindings self @ bindings \<and>
    bindings_for_action ops self action = ret (map ((!) (km_bindings self)) (filter (\<lambda>i.
        action_type_id ops (kb_action (km_bindings self ! i)) = action_type_id ops action \<and>
        \<not> hides (km_bindings self ! i) \<and> action_partial_eq ops (kb_action (km_bindings self ! i)) action \<and>
        (\<forall>j < length (km_bindings self). i < j \<longrightarrow> \<not> hidden_by ops (km_bindings self ! j) (km_bindings self ! i)))
      [0..<length (km_bindings self)]))"
  using add_bindings_ok [OF assms] km_inv_clear bindings_for_action_ok [OF assms] by blast

definition sample_ops :: "string action_ops" where
  "sample_ops = \<lparr>op_type_id = length, op_name = id, op_partial_eq = (=)\<rparr>"

definition sample_key :: keybinding_keystroke where
  "sample_key = from_keystroke Linux \<lparr>ks_modifiers = modifiers_none, ks_key = ''a'', ks_key_char = None\<rparr>"

definition plain_binding :: "keybinding_keystroke \<Rightarrow> 'a action \<Rightarrow> nat \<Rightarrow> 'a key_binding" where
  "plain_binding k action meta = \<lparr>kb_action = action, kb_keystrokes = [k], kb_context_predicate = None,
     kb_meta = Some meta, kb_action_input = None\<rparr>"

lemma plain_binding_simps [simp]:
  "kb_action (plain_binding k action m) = action" "kb_keystrokes (plain_binding k action m) = [k]"
  "kb_context_predicate (plain_binding k action m) = None" "kb_meta (plain_binding k action m) = Some m"
  by (simp_all add: plain_binding_def)

theorem bindings_for_action_correct_witness:
  "bindings_for_action sample_ops (keymap_new sample_ops [plain_binding sample_key (User ''save'') 0, plain_binding sample_key (Unbind ''copy'') 0])
     (User ''save'') = ret [plain_binding sample_key (User ''save'') 0]"
proof -
  let ?bs = "[plain_binding sample_key (User ''save'') 0, plain_binding sample_key (Unbind ''copy'') 0]"
  let ?km = "keymap_new sample_ops ?bs"
  have km: "km_inv sample_ops ?km" "km_bindings ?km = ?bs"
    using add_bindings_ok [OF km_inv_default, of sample_ops ?bs] by (simp_all add: keymap_new_def keymap_default_def)
  have range: "[0..<length ?bs] = [0, 1]" by (simp add: upt_rec)
  have "hides (?bs ! 1)" "\<not> hides (?bs ! 0)" "\<not> hidden_by sample_ops (?bs ! 1) (?bs ! 0)"
    by (simp_all add: hides_def is_no_action_def is_unbind_def hidden_by_def binding_is_unbound_def sample_ops_def)
  then have "\<forall>j < length ?bs. 0 < j \<longrightarrow> \<not> hidden_by sample_ops (?bs ! j) (?bs ! 0)"
    by (simp add: less_Suc_eq)
  then show ?thesis
    using bindings_for_action_correct [OF km(1), of "[]" "User ''save''"] \<open>hides (?bs ! 1)\<close> \<open>\<not> hides (?bs ! 0)\<close>
    unfolding km(2) range by (simp add: sample_ops_def)
qed

text \<open>C33: the bindings for an input are found by the rules of precedence: all bindings that match it
  fully in the given contexts, deepest context first and then latest first, of which those remain that
  no earlier \<open>NoAction\<close> from a source as strong covers and no earlier, itself uncovered, \<open>Unbind\<close> unbinds.\<close>

theorem dispatch_by_precedence:
  "((depth, ix, binding) \<in> set (keymap_matches os self input contexts) \<longleftrightarrow>
      ix < length (km_bindings self) \<and> binding = km_bindings self ! ix \<and>
      binding_enabled binding contexts = Some depth \<and> match_keystrokes os binding input = Some False) \<and>
   sorted_wrt (\<lambda>(d, i, _) (d', i', _). d' < d \<or> d' = d \<and> i' \<le> i) (keymap_matches os self input contexts) \<and>
   fst (bindings_for_input os ops self input contexts) =
     map (match_at (keymap_matches os self input contexts))
       (filter (wins ops (keymap_matches os self input contexts)) [0..<length (keymap_matches os self input contexts)])"
  by (intro conjI keymap_matches_set keymap_matches_sorted bindings_for_input_ok)

text \<open>\<open>bindings_for_action\<close> does not know of the sources: a later \<open>NoAction\<close> of a weaker source
  hides a binding from it that \<open>bindings_for_input\<close> still dispatches.\<close>

lemma null_hides_dispatched_binding:
  assumes "op_partial_eq ops a a" "m < n"
  shows "bindings_for_action ops (keymap_new ops [plain_binding k (User a) m, plain_binding k No_Action n]) (User a) = ret [] \<and>
    fst (bindings_for_input os ops (keymap_new ops [plain_binding k (User a) m, plain_binding k No_Action n]) [kk_inner k] contexts) =
      [plain_binding k (User a) m]"
proof -
  let ?b = "plain_binding k (User a) m" and ?n = "plain_binding k No_Action n"
  have km: "km_bindings (keymap_new ops [?b, ?n]) = [?b, ?n]" "km_indices (keymap_new ops [?b, ?n]) = [Type_User (op_type_id ops a) \<mapsto> [0]]"
      "km_disabled (keymap_new ops [?b, ?n]) = [1]"
    by (simp_all add: keymap_new_def add_bindings_def add_binding_def keymap_default_def is_no_action_def is_unbind_def)
  have "bindings_for_action ops (keymap_new ops [?b, ?n]) (User a) = ret []"
    by (simp add: bindings_for_action_def km index_or_panic_def assms(1) is_no_action_def disabled_binding_matches_context_def)
  moreover have "match_keystrokes os (plain_binding k action x) [kk_inner k] = Some False" for action :: "'a action" and x
    by (simp add: match_keystrokes_def should_match_def)
  then have "fst (bindings_for_input os ops (keymap_new ops [?b, ?n]) [kk_inner k] contexts) = [?b]"
    using assms(2) by (simp add: bindings_for_input_def resolve_bindings_for_input_def km enumerate_eq_zip upt_rec
        binding_enabled_def sort_by_def rank_compare_def ord_then_def ord_cmp_def resolve_step_def resolution_start_def
        binding_meta_def is_no_action_def is_unbind_def)
  ultimately show ?thesis by blast
qed

end
