(* ===== verification/Geometry.thy ===== *)
theory Geometry
  imports Prelude
begin

text \<open>
  \<open>gpui/src/geometry.rs\<close>: points, sizes, bounds, edges and anchors over a coordinate type. The code is
  generic in the coordinate and asks for the traits \<open>Add\<close>, \<open>Sub\<close>, \<open>Neg\<close>, \<open>PartialOrd\<close> and \<open>Default\<close>; here
  the coordinates are an ordered abelian group, which is exact arithmetic (the integer units as long as
  they do not overflow; the rounding of \<open>f32\<close> is not modelled). \<open>Half\<close>, which truncates on the integer
  units, is an argument.
\<close>

section \<open>Types\<close>

datatype axis = Vertical | Horizontal

definition axis_invert :: "axis \<Rightarrow> axis" where
  "axis_invert axis = (case axis of Vertical \<Rightarrow> Horizontal | Horizontal \<Rightarrow> Vertical)"

record 'u point =
  pt_x :: 'u
  pt_y :: 'u

record 'u bsize =
  sz_width :: 'u
  sz_height :: 'u

record 'u bounds =
  bn_origin :: "'u point"
  bn_size :: "'u bsize"

record 'u edges =
  ed_top :: 'u
  ed_right :: 'u
  ed_bottom :: 'u
  ed_left :: 'u

datatype anchor =
    Top_Left | Top_Right | Bottom_Left | Bottom_Right | Top_Center | Bottom_Center | Left_Center | Right_Center

section \<open>Points and sizes\<close>

definition mk_point :: "'u \<Rightarrow> 'u \<Rightarrow> 'u point" where
  "mk_point x y = \<lparr>pt_x = x, pt_y = y\<rparr>"

definition mk_size :: "'u \<Rightarrow> 'u \<Rightarrow> 'u bsize" where
  "mk_size width height = \<lparr>sz_width = width, sz_height = height\<rparr>"

definition point_add :: "'u::ab_group_add point \<Rightarrow> 'u point \<Rightarrow> 'u point" where
  "point_add a b = mk_point (pt_x a + pt_x b) (pt_y a + pt_y b)"

definition point_sub :: "'u::ab_group_add point \<Rightarrow> 'u point \<Rightarrow> 'u point" where
  "point_sub a b = mk_point (pt_x a - pt_x b) (pt_y a - pt_y b)"

definition point_map :: "('u \<Rightarrow> 'v) \<Rightarrow> 'u point \<Rightarrow> 'v point" where
  "point_map f self = mk_point (f (pt_x self)) (f (pt_y self))"

definition point_along :: "'u point \<Rightarrow> axis \<Rightarrow> 'u" where
  "point_along self axis = (case axis of Horizontal \<Rightarrow> pt_x self | Vertical \<Rightarrow> pt_y self)"

definition point_apply_along :: "'u point \<Rightarrow> axis \<Rightarrow> ('u \<Rightarrow> 'u) \<Rightarrow> 'u point" where
  "point_apply_along self axis f =
     (case axis of Horizontal \<Rightarrow> mk_point (f (pt_x self)) (pt_y self) | Vertical \<Rightarrow> mk_point (pt_x self) (f (pt_y self)))"

definition point_relative_to :: "'u::ab_group_add point \<Rightarrow> 'u point \<Rightarrow> 'u point" where
  "point_relative_to self origin = mk_point (pt_x self - pt_x origin) (pt_y self - pt_y origin)"

definition point_max :: "'u::linorder point \<Rightarrow> 'u point \<Rightarrow> 'u point" where
  "point_max self other =
     mk_point (if pt_x self > pt_x other then pt_x self else pt_x other) (if pt_y self > pt_y other then pt_y self else pt_y other)"

definition point_min :: "'u::linorder point \<Rightarrow> 'u point \<Rightarrow> 'u point" where
  "point_min self other =
     mk_point (if pt_x self \<le> pt_x other then pt_x self else pt_x other) (if pt_y self \<le> pt_y other then pt_y self else pt_y other)"

definition point_clamp :: "'u::linorder point \<Rightarrow> 'u point \<Rightarrow> 'u point \<Rightarrow> 'u point" where
  "point_clamp self lo hi = point_min (point_max self lo) hi"

definition size_add :: "'u::ab_group_add bsize \<Rightarrow> 'u bsize \<Rightarrow> 'u bsize" where
  "size_add a b = mk_size (sz_width a + sz_width b) (sz_height a + sz_height b)"

definition size_map :: "('u \<Rightarrow> 'v) \<Rightarrow> 'u bsize \<Rightarrow> 'v bsize" where
  "size_map f self = mk_size (f (sz_width self)) (f (sz_height self))"

definition size_center :: "('u \<Rightarrow> 'u) \<Rightarrow> 'u bsize \<Rightarrow> 'u point" where
  "size_center half self = mk_point (half (sz_width self)) (half (sz_height self))"

definition size_along :: "'u bsize \<Rightarrow> axis \<Rightarrow> 'u" where
  "size_along self axis = (case axis of Horizontal \<Rightarrow> sz_width self | Vertical \<Rightarrow> sz_height self)"

definition size_apply_along :: "'u bsize \<Rightarrow> axis \<Rightarrow> ('u \<Rightarrow> 'u) \<Rightarrow> 'u bsize" where
  "size_apply_along self axis f =
     (case axis of Horizontal \<Rightarrow> mk_size (f (sz_width self)) (sz_height self) | Vertical \<Rightarrow> mk_size (sz_width self) (f (sz_height self)))"

definition size_max :: "'u::linorder bsize \<Rightarrow> 'u bsize \<Rightarrow> 'u bsize" where
  "size_max self other =
     mk_size (if sz_width self \<ge> sz_width other then sz_width self else sz_width other)
       (if sz_height self \<ge> sz_height other then sz_height self else sz_height other)"

definition size_min :: "'u::linorder bsize \<Rightarrow> 'u bsize \<Rightarrow> 'u bsize" where
  "size_min self other =
     mk_size (if sz_width self \<ge> sz_width other then sz_width other else sz_width self)
       (if sz_height self \<ge> sz_height other then sz_height other else sz_height self)"

section \<open>Bounds\<close>

definition bounds_new :: "'u point \<Rightarrow> 'u bsize \<Rightarrow> 'u bounds" where
  "bounds_new origin sz = \<lparr>bn_origin = origin, bn_size = sz\<rparr>"

definition bounds_top :: "'u::ab_group_add bounds \<Rightarrow> 'u" where
  "bounds_top self = pt_y (bn_origin self)"

definition bounds_bottom :: "'u::ab_group_add bounds \<Rightarrow> 'u" where
  "bounds_bottom self = pt_y (bn_origin self) + sz_height (bn_size self)"

definition bounds_left :: "'u::ab_group_add bounds \<Rightarrow> 'u" where
  "bounds_left self = pt_x (bn_origin self)"

definition bounds_right :: "'u::ab_group_add bounds \<Rightarrow> 'u" where
  "bounds_right self = pt_x (bn_origin self) + sz_width (bn_size self)"

definition top_right :: "'u::ab_group_add bounds \<Rightarrow> 'u point" where
  "top_right self = mk_point (pt_x (bn_origin self) + sz_width (bn_size self)) (pt_y (bn_origin self))"

definition bottom_right :: "'u::ab_group_add bounds \<Rightarrow> 'u point" where
  "bottom_right self =
     mk_point (pt_x (bn_origin self) + sz_width (bn_size self)) (pt_y (bn_origin self) + sz_height (bn_size self))"

definition bottom_left :: "'u::ab_group_add bounds \<Rightarrow> 'u point" where
  "bottom_left self = mk_point (pt_x (bn_origin self)) (pt_y (bn_origin self) + sz_height (bn_size self))"

definition top_center :: "('u \<Rightarrow> 'u) \<Rightarrow> 'u::ab_group_add bounds \<Rightarrow> 'u point" where
  "top_center half self = mk_point (pt_x (bn_origin self) + half (sz_width (bn_size self))) (pt_y (bn_origin self))"

definition bottom_center :: "('u \<Rightarrow> 'u) \<Rightarrow> 'u::ab_group_add bounds \<Rightarrow> 'u point" where
  "bottom_center half self =
     mk_point (pt_x (bn_origin self) + half (sz_width (bn_size self))) (pt_y (bn_origin self) + sz_height (bn_size self))"

definition left_center :: "('u \<Rightarrow> 'u) \<Rightarrow> 'u::ab_group_add bounds \<Rightarrow> 'u point" where
  "left_center half self = mk_point (pt_x (bn_origin self)) (pt_y (bn_origin self) + half (sz_height (bn_size self)))"

definition right_center :: "('u \<Rightarrow> 'u) \<Rightarrow> 'u::ab_group_add bounds \<Rightarrow> 'u point" where
  "right_center half self =
     mk_point (pt_x (bn_origin self) + sz_width (bn_size self)) (pt_y (bn_origin self) + half (sz_height (bn_size self)))"

definition bounds_center :: "('u \<Rightarrow> 'u) \<Rightarrow> 'u::ab_group_add bounds \<Rightarrow> 'u point" where
  "bounds_center half self =
     mk_point (pt_x (bn_origin self) + half (sz_width (bn_size self))) (pt_y (bn_origin self) + half (sz_height (bn_size self)))"

definition corner :: "('u \<Rightarrow> 'u) \<Rightarrow> 'u::ab_group_add bounds \<Rightarrow> anchor \<Rightarrow> 'u point" where
  "corner half self anchor =
     (case anchor of
        Top_Left \<Rightarrow> bn_origin self
      | Top_Right \<Rightarrow> top_right self
      | Bottom_Left \<Rightarrow> bottom_left self
      | Bottom_Right \<Rightarrow> bottom_right self
      | Top_Center \<Rightarrow> top_center half self
      | Bottom_Center \<Rightarrow> bottom_center half self
      | Left_Center \<Rightarrow> left_center half self
      | Right_Center \<Rightarrow> right_center half self)"

definition from_corners :: "'u::ab_group_add point \<Rightarrow> 'u point \<Rightarrow> 'u bounds" where
  "from_corners upper_left lower_right =
     \<lparr>bn_origin = mk_point (pt_x upper_left) (pt_y upper_left),
      bn_size = mk_size (pt_x lower_right - pt_x upper_left) (pt_y lower_right - pt_y upper_left)\<rparr>"

definition from_anchor_and_size :: "('u \<Rightarrow> 'u) \<Rightarrow> anchor \<Rightarrow> 'u::ab_group_add point \<Rightarrow> 'u bsize \<Rightarrow> 'u bounds" where
  "from_anchor_and_size half anchor origin sz =
     (let x = pt_x origin; y = pt_y origin; w = sz_width sz; h = sz_height sz;
          origin = (case anchor of
              Top_Left \<Rightarrow> origin
            | Top_Right \<Rightarrow> mk_point (x - w) y
            | Bottom_Left \<Rightarrow> mk_point x (y - h)
            | Bottom_Right \<Rightarrow> mk_point (x - w) (y - h)
            | Top_Center \<Rightarrow> mk_point (x - half w) y
            | Bottom_Center \<Rightarrow> mk_point (x - half w) (y - h)
            | Left_Center \<Rightarrow> mk_point x (y - half h)
            | Right_Center \<Rightarrow> mk_point (x - w) (y - half h))
      in \<lparr>bn_origin = origin, bn_size = sz\<rparr>)"

definition centered_at :: "('u \<Rightarrow> 'u) \<Rightarrow> 'u::ab_group_add point \<Rightarrow> 'u bsize \<Rightarrow> 'u bounds" where
  "centered_at half center sz =
     bounds_new (mk_point (pt_x center - half (sz_width sz)) (pt_y center - half (sz_height sz))) sz"

definition intersects :: "'u::linordered_ab_group_add bounds \<Rightarrow> 'u bounds \<Rightarrow> bool" where
  "intersects self other =
     (pt_x (bn_origin self) < pt_x (bottom_right other) \<and> pt_x (bottom_right self) > pt_x (bn_origin other) \<and>
      pt_y (bn_origin self) < pt_y (bottom_right other) \<and> pt_y (bottom_right self) > pt_y (bn_origin other))"

definition half_perimeter :: "'u::ab_group_add bounds \<Rightarrow> 'u" where
  "half_perimeter self = sz_width (bn_size self) + sz_height (bn_size self)"

definition dilate :: "'u::ab_group_add bounds \<Rightarrow> 'u \<Rightarrow> 'u bounds" where
  "dilate self amount =
     (let double_amount = amount + amount in
      \<lparr>bn_origin = point_sub (bn_origin self) (mk_point amount amount),
       bn_size = size_add (bn_size self) (mk_size double_amount double_amount)\<rparr>)"

definition bounds_extend :: "'u::ab_group_add bounds \<Rightarrow> 'u edges \<Rightarrow> 'u bounds" where
  "bounds_extend self amount =
     \<lparr>bn_origin = point_sub (bn_origin self) (mk_point (ed_left amount) (ed_top amount)),
      bn_size = size_add (bn_size self) (mk_size (ed_left amount + ed_right amount) (ed_top amount + ed_bottom amount))\<rparr>"

definition inset :: "'u::ab_group_add bounds \<Rightarrow> 'u \<Rightarrow> 'u bounds" where
  "inset self amount = dilate self (- amount)"

definition bounds_intersect :: "'u::linordered_ab_group_add bounds \<Rightarrow> 'u bounds \<Rightarrow> 'u bounds" where
  "bounds_intersect self other =
     (let upper_left = point_max (bn_origin self) (bn_origin other);
          lower_right = point_max (point_min (bottom_right self) (bottom_right other)) upper_left
      in from_corners upper_left lower_right)"

definition bounds_union :: "'u::linordered_ab_group_add bounds \<Rightarrow> 'u bounds \<Rightarrow> 'u bounds" where
  "bounds_union self other =
     (let upper_left = point_min (bn_origin self) (bn_origin other);
          lower_right = point_max (bottom_right self) (bottom_right other)
      in from_corners upper_left lower_right)"

definition space_within :: "'u::ab_group_add bounds \<Rightarrow> 'u bounds \<Rightarrow> 'u edges" where
  "space_within self outer =
     \<lparr>ed_top = bounds_top self - bounds_top outer, ed_right = bounds_right outer - bounds_right self,
      ed_bottom = bounds_bottom outer - bounds_bottom self, ed_left = bounds_left self - bounds_left outer\<rparr>"

definition bounds_add_point :: "'u::ab_group_add bounds \<Rightarrow> 'u point \<Rightarrow> 'u bounds" where
  "bounds_add_point self rhs = \<lparr>bn_origin = point_add (bn_origin self) rhs, bn_size = bn_size self\<rparr>"

definition bounds_sub_point :: "'u::ab_group_add bounds \<Rightarrow> 'u point \<Rightarrow> 'u bounds" where
  "bounds_sub_point self rhs = \<lparr>bn_origin = point_sub (bn_origin self) rhs, bn_size = bn_size self\<rparr>"

definition bounds_contains :: "'u::linordered_ab_group_add bounds \<Rightarrow> 'u point \<Rightarrow> bool" where
  "bounds_contains self point =
     (pt_x point \<ge> pt_x (bn_origin self) \<and> pt_x point < pt_x (bn_origin self) + sz_width (bn_size self) \<and>
      pt_y point \<ge> pt_y (bn_origin self) \<and> pt_y point < pt_y (bn_origin self) + sz_height (bn_size self))"

definition is_contained_within :: "'u::linordered_ab_group_add bounds \<Rightarrow> 'u bounds \<Rightarrow> bool" where
  "is_contained_within self other = (bounds_contains other (bn_origin self) \<and> bounds_contains other (bottom_right self))"

definition bounds_map :: "('u \<Rightarrow> 'v) \<Rightarrow> 'u bounds \<Rightarrow> 'v bounds" where
  "bounds_map f self = \<lparr>bn_origin = point_map f (bn_origin self), bn_size = size_map f (bn_size self)\<rparr>"

definition bounds_map_origin :: "('u \<Rightarrow> 'u) \<Rightarrow> 'u bounds \<Rightarrow> 'u bounds" where
  "bounds_map_origin f self = \<lparr>bn_origin = point_map f (bn_origin self), bn_size = bn_size self\<rparr>"

definition bounds_map_size :: "('u \<Rightarrow> 'u) \<Rightarrow> 'u bounds \<Rightarrow> 'u bounds" where
  "bounds_map_size f self = \<lparr>bn_origin = bn_origin self, bn_size = size_map f (bn_size self)\<rparr>"

definition localize :: "'u::linordered_ab_group_add bounds \<Rightarrow> 'u point \<Rightarrow> 'u point option" where
  "localize self point = (if bounds_contains self point then Some (point_relative_to point (bn_origin self)) else None)"

definition bounds_is_empty :: "'u::linordered_ab_group_add bounds \<Rightarrow> bool" where
  "bounds_is_empty self = (sz_width (bn_size self) \<le> 0 \<or> sz_height (bn_size self) \<le> 0)"

section \<open>Anchors\<close>

definition opposite :: "anchor \<Rightarrow> anchor" where
  "opposite self =
     (case self of
        Top_Left \<Rightarrow> Bottom_Right | Top_Right \<Rightarrow> Bottom_Left | Bottom_Left \<Rightarrow> Top_Right | Bottom_Right \<Rightarrow> Top_Left
      | Top_Center \<Rightarrow> Bottom_Center | Bottom_Center \<Rightarrow> Top_Center | Left_Center \<Rightarrow> Right_Center | Right_Center \<Rightarrow> Left_Center)"

definition other_side_along :: "anchor \<Rightarrow> axis \<Rightarrow> anchor" where
  "other_side_along self axis =
     (case axis of
        Vertical \<Rightarrow> (case self of
            Top_Left \<Rightarrow> Bottom_Left | Top_Right \<Rightarrow> Bottom_Right | Bottom_Left \<Rightarrow> Top_Left | Bottom_Right \<Rightarrow> Top_Right
          | Top_Center \<Rightarrow> Bottom_Center | Bottom_Center \<Rightarrow> Top_Center | Left_Center \<Rightarrow> Left_Center | Right_Center \<Rightarrow> Right_Center)
      | Horizontal \<Rightarrow> (case self of
            Top_Left \<Rightarrow> Top_Right | Top_Right \<Rightarrow> Top_Left | Bottom_Left \<Rightarrow> Bottom_Right | Bottom_Right \<Rightarrow> Bottom_Left
          | Top_Center \<Rightarrow> Top_Center | Bottom_Center \<Rightarrow> Bottom_Center | Left_Center \<Rightarrow> Right_Center | Right_Center \<Rightarrow> Left_Center))"

definition is_center :: "anchor \<Rightarrow> bool" where
  "is_center self = (case self of
     Top_Center \<Rightarrow> True | Bottom_Center \<Rightarrow> True | Left_Center \<Rightarrow> True | Right_Center \<Rightarrow> True | _ \<Rightarrow> False)"

lemmas geometry_defs = mk_point_def mk_size_def point_add_def point_sub_def point_map_def point_relative_to_def point_max_def
  point_min_def size_add_def size_map_def bounds_new_def bounds_top_def bounds_bottom_def bounds_left_def bounds_right_def
  top_right_def bottom_right_def bottom_left_def top_center_def bottom_center_def left_center_def right_center_def
  bounds_center_def from_corners_def half_perimeter_def

section \<open>The region of some bounds\<close>

text \<open>
  Bounds cover others when every edge is at least as far out. This is the containment the spatial tree
  relies on; it is reflexive, unlike \<open>is_contained_within\<close>.
\<close>

definition covers :: "'u::linordered_ab_group_add bounds \<Rightarrow> 'u bounds \<Rightarrow> bool" where
  "covers a b \<longleftrightarrow> bounds_left a \<le> bounds_left b \<and> bounds_right b \<le> bounds_right a \<and>
     bounds_top a \<le> bounds_top b \<and> bounds_bottom b \<le> bounds_bottom a"

lemma covers_refl [simp]: "covers a a"
  by (simp add: covers_def)

lemma covers_trans [trans]: "covers a b \<Longrightarrow> covers b c \<Longrightarrow> covers a c"
  by (auto simp: covers_def)

lemma union_edges:
  "bounds_left (bounds_union a b) = min (bounds_left a) (bounds_left b)"
  "bounds_right (bounds_union a b) = max (bounds_right a) (bounds_right b)"
  "bounds_top (bounds_union a b) = min (bounds_top a) (bounds_top b)"
  "bounds_bottom (bounds_union a b) = max (bounds_bottom a) (bounds_bottom b)"
  by (auto simp: bounds_union_def geometry_defs min_def max_def)

lemma intersect_edges:
  "bounds_left (bounds_intersect a b) = max (bounds_left a) (bounds_left b)"
  "bounds_right (bounds_intersect a b) = max (min (bounds_right a) (bounds_right b)) (max (bounds_left a) (bounds_left b))"
  "bounds_top (bounds_intersect a b) = max (bounds_top a) (bounds_top b)"
  "bounds_bottom (bounds_intersect a b) = max (min (bounds_bottom a) (bounds_bottom b)) (max (bounds_top a) (bounds_top b))"
  by (auto simp: bounds_intersect_def geometry_defs min_def max_def)

lemma contains_edges:
  "bounds_contains a p \<longleftrightarrow> bounds_left a \<le> pt_x p \<and> pt_x p < bounds_right a \<and> bounds_top a \<le> pt_y p \<and> pt_y p < bounds_bottom a"
  by (simp add: bounds_contains_def geometry_defs)

lemma intersects_edges:
  "intersects a b \<longleftrightarrow> bounds_left a < bounds_right b \<and> bounds_left b < bounds_right a \<and>
     bounds_top a < bounds_bottom b \<and> bounds_top b < bounds_bottom a"
  by (auto simp: intersects_def geometry_defs)

lemma is_empty_edges: "bounds_is_empty a \<longleftrightarrow> bounds_right a \<le> bounds_left a \<or> bounds_bottom a \<le> bounds_top a"
  by (simp add: bounds_is_empty_def geometry_defs)

lemma bounds_eq_edges:
  "(a :: 'u::linordered_ab_group_add bounds) = b \<longleftrightarrow> bounds_left a = bounds_left b \<and> bounds_right a = bounds_right b \<and>
     bounds_top a = bounds_top b \<and> bounds_bottom a = bounds_bottom b"
  by (cases a; cases b; cases "bn_origin a"; cases "bn_origin b"; cases "bn_size a"; cases "bn_size b") (auto simp: geometry_defs)

lemma intersects_sym: "intersects a b = intersects b a"
  by (auto simp: intersects_edges)

lemma intersects_covers: "intersects q b \<Longrightarrow> covers a b \<Longrightarrow> intersects q a"
  by (auto simp: intersects_edges covers_def)

lemma covers_union: "covers a (bounds_union b c) \<longleftrightarrow> covers a b \<and> covers a c"
  by (auto simp: covers_def union_edges)

lemma union_covers [simp, intro]: "covers (bounds_union a b) a" "covers (bounds_union a b) b"
  by (auto simp: covers_def union_edges)

lemma union_mono: "covers a b \<Longrightarrow> covers (bounds_union a c) (bounds_union b c)"
  by (auto simp: covers_def union_edges intro: min.coboundedI1 max.coboundedI1)

lemma union_absorb: "covers a b \<Longrightarrow> bounds_union a b = a"
  by (auto simp: covers_def bounds_eq_edges union_edges)

section \<open>What the operations promise\<close>

text \<open>
  The operations on bounds read as operations on the sets of points they contain.
\<close>

lemma contains_covers: "bounds_contains b p \<Longrightarrow> covers a b \<Longrightarrow> bounds_contains a p"
  by (auto simp: contains_edges covers_def)

lemma contains_intersect: "bounds_contains (bounds_intersect a b) p \<longleftrightarrow> bounds_contains a p \<and> bounds_contains b p"
  by (auto simp: contains_edges intersect_edges less_max_iff_disj)

lemma intersects_nonempty:
  "intersects a b \<and> \<not> bounds_is_empty a \<and> \<not> bounds_is_empty b \<longleftrightarrow> \<not> bounds_is_empty (bounds_intersect a b)"
  by (auto simp: intersects_edges is_empty_edges intersect_edges not_le)

lemma empty_contains: "bounds_is_empty a \<longleftrightarrow> (\<nexists>p. bounds_contains a p)"
proof -
  have "bounds_contains a (bn_origin a)" if "\<not> bounds_is_empty a"
    using that by (simp add: contains_edges is_empty_edges) (simp add: geometry_defs not_le)
  then show ?thesis by (auto simp: contains_edges is_empty_edges)
qed

end
