(* ===== verification/Geometry_Properties.thy ===== *)
theory Geometry_Properties
  imports Geometry
begin

text \<open>
  What the operations on bounds promise: they are set operations on the points they contain, and placing
  bounds by an anchor is the inverse of reading the anchor.
\<close>

text \<open>C35: intersection and union of bounds are those of the sets of points: the intersection contains what both
  contain, the union covers both and is covered by whatever covers both, and two bounds that are not
  empty intersect exactly when they have a point in common.\<close>

theorem bounds_set_operations:
  assumes "\<not> bounds_is_empty a" "\<not> bounds_is_empty b"
  shows "(bounds_contains (bounds_intersect a b) p = (bounds_contains a p \<and> bounds_contains b p)) \<and>
    (covers c (bounds_union a b) = (covers c a \<and> covers c b)) \<and>
    (bounds_contains a p \<or> bounds_contains b p \<longrightarrow> bounds_contains (bounds_union a b) p) \<and>
    (intersects a b = (\<exists>q. bounds_contains a q \<and> bounds_contains b q)) \<and>
    (intersects a b = (\<not> bounds_is_empty (bounds_intersect a b)))"
proof -
  have "intersects a b = (\<not> bounds_is_empty (bounds_intersect a b))" using intersects_nonempty [of a b] assms by simp
  moreover have "\<dots> = (\<exists>q. bounds_contains a q \<and> bounds_contains b q)" by (simp add: empty_contains contains_intersect)
  ultimately show ?thesis using contains_covers by (auto simp: contains_intersect covers_union)
qed

theorem bounds_set_operations_witness:
  "bounds_contains (bounds_union (bounds_new (mk_point 0 0) (mk_size 5 5)) (bounds_new (mk_point 8 0) (mk_size (2::int) 2))) (mk_point 9 1)"
  using bounds_set_operations [of "bounds_new (mk_point 0 0) (mk_size 5 5)" "bounds_new (mk_point 8 0) (mk_size (2::int) 2)" "mk_point 9 1"]
  by (simp add: bounds_is_empty_def bounds_contains_def bounds_new_def mk_point_def mk_size_def)

text \<open>Bounds placed at a point by an anchor have that point as the corner of the anchor, and bounds are
  those placed by any of their own corners; this holds however a length is halved. The opposite of an
  anchor is its other side along both axes.\<close>

lemma anchor_round_trip:
  "corner half (from_anchor_and_size half a p sz) a = p \<and>
   from_anchor_and_size half a (corner half b a) (bn_size b) = (b :: 'u::ab_group_add bounds) \<and>
   bounds_center half (centered_at half p sz) = p \<and>
   opposite (opposite a) = a \<and> other_side_along (other_side_along a axis) axis = a \<and>
   opposite a = other_side_along (other_side_along a axis) (axis_invert axis)"
proof (intro conjI)
  show "corner half (from_anchor_and_size half a p sz) a = p"
    by (cases a; cases p) (simp_all add: corner_def from_anchor_and_size_def geometry_defs)
  show "from_anchor_and_size half a (corner half b a) (bn_size b) = b"
    by (cases a; cases b; cases "bn_origin b") (simp_all add: corner_def from_anchor_and_size_def geometry_defs)
  show "bounds_center half (centered_at half p sz) = p"
    by (cases p) (simp add: centered_at_def geometry_defs)
qed (cases a; cases axis; simp add: opposite_def other_side_along_def axis_invert_def)+

end
