(* ===== verification/Bounds_Tree.thy ===== *)
theory Bounds_Tree
  imports Geometry
begin

text \<open>
  \<open>gpui/src/bounds_tree.rs\<close>: the R-tree that gives overlapping bounds their paint order. Nodes live in
  one vector and refer to each other by index, as in the code; the pointers of the search stack are
  indices too. An index out of range, a full child array, an unsigned underflow, \<open>unreachable!\<close> and an
  order past \<open>u32::MAX\<close> are panics, and a search or a descent that does not end has no value.
\<close>

section \<open>Nodes\<close>

definition MAX_CHILDREN :: nat where
  "MAX_CHILDREN = 12"

datatype node_kind = Bt_Leaf nat | Bt_Internal "nat list"

record 'u bt_node =
  nd_bounds :: "'u bounds"
  nd_max_order :: nat
  nd_kind :: node_kind

record 'u bounds_tree =
  bt_nodes :: "'u bt_node list"
  bt_root :: "nat option"
  bt_max_leaf :: "nat option"
  bt_insert_path :: "nat list"
  bt_search_stack :: "nat list"

definition bt_default :: "'u bounds_tree" where
  "bt_default = \<lparr>bt_nodes = [], bt_root = None, bt_max_leaf = None, bt_insert_path = [], bt_search_stack = []\<rparr>"

definition bt_clear :: "'u bounds_tree \<Rightarrow> 'u bounds_tree" where
  "bt_clear self = self\<lparr>bt_nodes := [], bt_root := None, bt_max_leaf := None, bt_insert_path := [], bt_search_stack := []\<rparr>"

definition is_bt_leaf :: "'u bt_node \<Rightarrow> bool" where
  "is_bt_leaf node = (case nd_kind node of Bt_Leaf _ \<Rightarrow> True | Bt_Internal _ \<Rightarrow> False)"

text \<open>\<open>NodeChildren\<close> is the list of its first \<open>len\<close> entries.\<close>

definition children_push :: "nat list \<Rightarrow> nat \<Rightarrow> nat list rust" where
  "children_push children index = fits MAX_CHILDREN (children @ [index])"

definition swap_at :: "'a list \<Rightarrow> nat \<Rightarrow> nat \<Rightarrow> 'a list" where
  "swap_at xs i j = xs[i := xs ! j, j := xs ! i]"

text \<open>Two children, the one with the higher order at the end.\<close>

definition pair_children :: "nat \<Rightarrow> nat \<Rightarrow> nat \<Rightarrow> nat \<Rightarrow> nat list" where
  "pair_children old old_order new_leaf order = (if order > old_order then [old, new_leaf] else [new_leaf, old])"

section \<open>Searching\<close>

text \<open>The children of an inner node that are pushed: the ones that can still improve the result.\<close>

fun improving_children :: "'u bt_node list \<Rightarrow> nat \<Rightarrow> nat list \<Rightarrow> nat list rust" where
  "improving_children nodes max_found [] = ret []"
| "improving_children nodes max_found (child # children) = do {
     node \<leftarrow> index_or_panic nodes child;
     rest \<leftarrow> improving_children nodes max_found children;
     ret (if nd_max_order node > max_found then child # rest else rest) }"

partial_function (option) search_loop ::
  "'u::linordered_ab_group_add bt_node list \<Rightarrow> 'u bounds \<Rightarrow> nat list \<Rightarrow> nat \<Rightarrow> nat rust" where
  "search_loop nodes query stack max_found =
     (if stack = [] then ret max_found
      else do {
        node \<leftarrow> index_or_panic nodes (last stack);
        if nd_max_order node \<le> max_found then search_loop nodes query (butlast stack) max_found
        else if \<not> intersects query (nd_bounds node) then search_loop nodes query (butlast stack) max_found
        else (case nd_kind node of
                Bt_Leaf order \<Rightarrow> search_loop nodes query (butlast stack) (max max_found order)
              | Bt_Internal children \<Rightarrow> do {
                  pushed \<leftarrow> improving_children nodes max_found children;
                  search_loop nodes query (butlast stack @ pushed) max_found }) })"

declare search_loop.simps [code]

definition search_tree :: "'u::linordered_ab_group_add bounds_tree \<Rightarrow> 'u bounds \<Rightarrow> nat \<Rightarrow> ('u bounds_tree \<times> nat) rust" where
  "search_tree self query root = do {
     _ \<leftarrow> index_or_panic (bt_nodes self) root;
     max_found \<leftarrow> search_loop (bt_nodes self) query [root] 0;
     ret (self\<lparr>bt_search_stack := []\<rparr>, max_found) }"

definition find_max_ordering :: "'u::linordered_ab_group_add bounds_tree \<Rightarrow> 'u bounds \<Rightarrow> ('u bounds_tree \<times> nat) rust" where
  "find_max_ordering self query =
     (case bt_root self of
        None \<Rightarrow> ret (self, 0)
      | Some root \<Rightarrow>
          (case bt_max_leaf self of
             Some max_idx \<Rightarrow> do {
               max_node \<leftarrow> index_or_panic (bt_nodes self) max_idx;
               if intersects query (nd_bounds max_node) then ret (self, nd_max_order max_node) else search_tree self query root }
           | None \<Rightarrow> search_tree self query root))"

section \<open>Inserting a leaf\<close>

text \<open>The loop that picks the child whose bounds grow to the smallest half perimeter.\<close>

fun best_child ::
  "'u::linordered_ab_group_add bt_node list \<Rightarrow> 'u bounds \<Rightarrow> nat \<Rightarrow> nat list \<Rightarrow> nat \<Rightarrow> nat \<Rightarrow> 'u \<Rightarrow> (nat \<times> nat) rust" where
  "best_child nodes b pos [] best_idx best_pos best_cost = ret (best_idx, best_pos)"
| "best_child nodes b pos (child # children) best_idx best_pos best_cost = do {
     node \<leftarrow> index_or_panic nodes child;
     let cost = half_perimeter (bounds_union b (nd_bounds node));
     if cost < best_cost then best_child nodes b (pos + 1) children child pos cost
     else best_child nodes b (pos + 1) children best_idx best_pos best_cost }"

text \<open>The node has room: the leaf goes last, or before the last child when that has a higher order.\<close>

definition add_leaf_to_node ::
  "'u::linordered_ab_group_add bt_node list \<Rightarrow> 'u bounds \<Rightarrow> nat \<Rightarrow> nat \<Rightarrow> nat \<Rightarrow> nat list \<Rightarrow> 'u bt_node list rust" where
  "add_leaf_to_node nodes b order new_leaf current children = do {
     node \<leftarrow> index_or_panic nodes current;
     pushed \<leftarrow> children_push children new_leaf;
     last_ix \<leftarrow> checked_minus (length pushed) 1;
     placed \<leftarrow> (if order \<le> nd_max_order node then do {
                  before \<leftarrow> checked_minus last_ix 1;
                  ret (swap_at pushed before last_ix) } else ret pushed);
     ret (nodes[current := node\<lparr>nd_bounds := bounds_union (nd_bounds node) b,
                                nd_max_order := max (nd_max_order node) order, nd_kind := Bt_Internal placed\<rparr>]) }"

text \<open>The node is full: its best child and the new leaf become the children of a new inner node.\<close>

definition split_child ::
  "'u::linordered_ab_group_add bt_node list \<Rightarrow> 'u bounds \<Rightarrow> nat \<Rightarrow> nat \<Rightarrow> nat \<Rightarrow> nat list \<Rightarrow> nat \<Rightarrow> nat \<Rightarrow> 'u bt_node list rust" where
  "split_child nodes b order new_leaf current children best_idx best_pos = do {
     sibling \<leftarrow> index_or_panic nodes best_idx;
     let sibling_order = nd_max_order sibling;
     let new_internal = length nodes;
     let new_internal_max = max sibling_order order;
     let nodes = nodes @ [\<lparr>nd_bounds = bounds_union (nd_bounds sibling) b, nd_max_order = new_internal_max,
                           nd_kind = Bt_Internal (pair_children best_idx sibling_order new_leaf order)\<rparr>];
     parent \<leftarrow> index_or_panic nodes current;
     let replaced = children[best_pos := new_internal];
     last_ix \<leftarrow> checked_minus (length children) 1;
     let placed = (if new_internal_max > nd_max_order parent then swap_at replaced best_pos last_ix else replaced);
     ret (nodes[current := parent\<lparr>nd_kind := Bt_Internal placed\<rparr>]) }"

partial_function (option) descend ::
  "'u::linordered_ab_group_add bt_node list \<Rightarrow> 'u bounds \<Rightarrow> nat \<Rightarrow> nat \<Rightarrow> nat list \<Rightarrow> nat \<Rightarrow> ('u bt_node list \<times> nat list) rust" where
  "descend nodes b order new_leaf path current = do {
     node \<leftarrow> index_or_panic nodes current;
     case nd_kind node of
       Bt_Leaf _ \<Rightarrow> panic
     | Bt_Internal children \<Rightarrow> do {
         first \<leftarrow> index_or_panic children 0;
         first_node \<leftarrow> index_or_panic nodes first;
         best \<leftarrow> best_child nodes b 1 (drop 1 children) first 0 (half_perimeter (bounds_union b (nd_bounds first_node)));
         best_node \<leftarrow> index_or_panic nodes (fst best);
         if is_bt_leaf best_node then
           (if length children < MAX_CHILDREN then do {
              nodes \<leftarrow> add_leaf_to_node nodes b order new_leaf current children;
              ret (nodes, path @ [current]) }
            else do {
              nodes \<leftarrow> split_child nodes b order new_leaf current children (fst best) (snd best);
              ret (nodes, path @ [current]) })
         else descend nodes b order new_leaf (path @ [current]) (fst best) } }"

declare descend.simps [code]

text \<open>The updated child of a node goes to the end.\<close>

fun position :: "'a \<Rightarrow> 'a list \<Rightarrow> nat option" where
  "position x [] = None"
| "position x (y # ys) = (if y = x then Some 0 else map_option Suc (position x ys))"

definition move_to_end :: "nat list \<Rightarrow> nat \<Rightarrow> nat list" where
  "move_to_end children child =
     (case position child children of
        None \<Rightarrow> children
      | Some pos \<Rightarrow> (let last_ix = length children - 1 in if pos \<noteq> last_ix then swap_at children pos last_ix else children))"

text \<open>The way back along the path, from the deepest node to the root.\<close>

fun propagate ::
  "'u::linordered_ab_group_add bounds \<Rightarrow> nat \<Rightarrow> nat list \<Rightarrow> nat option \<Rightarrow> 'u bt_node list \<Rightarrow> 'u bt_node list rust" where
  "propagate b order [] updated_child nodes = ret nodes"
| "propagate b order (node_idx # rest) updated_child nodes = do {
     node \<leftarrow> index_or_panic nodes node_idx;
     let grown = node\<lparr>nd_bounds := bounds_union (nd_bounds node) b\<rparr>;
     let raised =
       (if nd_max_order grown < order then
          grown\<lparr>nd_max_order := order,
                nd_kind := (case (updated_child, nd_kind grown) of
                    (Some child, Bt_Internal children) \<Rightarrow> Bt_Internal (move_to_end children child)
                  | (_, kind) \<Rightarrow> kind)\<rparr>
        else grown);
     propagate b order rest (Some node_idx) (nodes[node_idx := raised]) }"

definition insert_leaf :: "'u::linordered_ab_group_add bounds_tree \<Rightarrow> 'u bounds \<Rightarrow> nat \<Rightarrow> ('u bounds_tree \<times> nat) rust" where
  "insert_leaf self b order = (
     let new_leaf = length (bt_nodes self);
         nodes = bt_nodes self @ [\<lparr>nd_bounds = b, nd_max_order = order, nd_kind = Bt_Leaf order\<rparr>]
     in case bt_root self of
          None \<Rightarrow> ret (self\<lparr>bt_nodes := nodes, bt_root := Some new_leaf\<rparr>, new_leaf)
        | Some root \<Rightarrow> do {
            root_node \<leftarrow> index_or_panic nodes root;
            if is_bt_leaf root_node then
              (let children = pair_children root (nd_max_order root_node) new_leaf order;
                   new_root = length nodes
               in ret (self\<lparr>bt_nodes := nodes @ [\<lparr>nd_bounds = bounds_union (nd_bounds root_node) b,
                                nd_max_order = max (nd_max_order root_node) order, nd_kind = Bt_Internal children\<rparr>],
                            bt_root := Some new_root\<rparr>, new_leaf))
            else do {
              descended \<leftarrow> descend nodes b order new_leaf [] root;
              nodes \<leftarrow> propagate b order (rev (snd descended)) None (fst descended);
              ret (self\<lparr>bt_nodes := nodes, bt_insert_path := snd descended\<rparr>, new_leaf) } })"

definition U32_MAX :: nat where
  "U32_MAX = 2 ^ 32 - 1"

definition bt_insert :: "'u::linordered_ab_group_add bounds_tree \<Rightarrow> 'u bounds \<Rightarrow> ('u bounds_tree \<times> nat) rust" where
  "bt_insert self new_bounds = do {
     found \<leftarrow> find_max_ordering self new_bounds;
     ordering \<leftarrow> (if snd found < U32_MAX then ret (snd found + 1) else panic);
     inserted \<leftarrow> insert_leaf (fst found) new_bounds ordering;
     let self = fst inserted;
     max_leaf \<leftarrow> (case bt_max_leaf self of
         None \<Rightarrow> ret (Some (snd inserted))
       | Some old \<Rightarrow> do {
           old_node \<leftarrow> index_or_panic (bt_nodes self) old;
           ret (if nd_max_order old_node < ordering then Some (snd inserted) else Some old) });
     ret (self\<lparr>bt_max_leaf := max_leaf\<rparr>, ordering) }"

end
