(* ===== verification/Bounds_Tree_Search.thy ===== *)
theory Bounds_Tree_Search
  imports Bounds_Tree
begin

text \<open>
  The invariant of the spatial tree, and the search: over a tree that meets it, \<open>find_max_ordering\<close>
  returns, and what it returns is the highest order among the leaves the query intersects.
\<close>

section \<open>The invariant\<close>

definition node_kids :: "'u bt_node \<Rightarrow> nat list" where
  "node_kids node = (case nd_kind node of Bt_Leaf _ \<Rightarrow> [] | Bt_Internal children \<Rightarrow> children)"

definition bt_kids :: "'u bt_node list \<Rightarrow> nat \<Rightarrow> nat list" where
  "bt_kids ns i = node_kids (ns ! i)"

definition inner :: "'u bt_node list \<Rightarrow> nat \<Rightarrow> bool" where
  "inner ns i \<longleftrightarrow> \<not> is_bt_leaf (ns ! i)"

text \<open>
  A node: a leaf carries its order; an inner node has two to \<open>MAX_CHILDREN\<close> children, covers their bounds,
  has the highest of their orders, and the last child has that order too.
\<close>

definition node_ok :: "'u::linordered_ab_group_add bt_node list \<Rightarrow> nat \<Rightarrow> bool" where
  "node_ok ns i \<longleftrightarrow>
     (case nd_kind (ns ! i) of
        Bt_Leaf order \<Rightarrow> nd_max_order (ns ! i) = order
      | Bt_Internal children \<Rightarrow> 2 \<le> length children \<and> length children \<le> MAX_CHILDREN \<and>
          (\<forall>k \<in> set children. covers (nd_bounds (ns ! i)) (nd_bounds (ns ! k)) \<and> nd_max_order (ns ! k) \<le> nd_max_order (ns ! i)) \<and>
          nd_max_order (ns ! last children) = nd_max_order (ns ! i))"

text \<open>
  The indices form a tree: every node but the root is a child of exactly one node, and an inner node
  comes after its parent in the vector, so that there are no cycles.
\<close>

definition tree_shape :: "'u bt_node list \<Rightarrow> nat \<Rightarrow> bool" where
  "tree_shape ns root \<longleftrightarrow> root < length ns \<and>
     (\<forall>i < length ns. distinct (bt_kids ns i) \<and> (\<forall>k \<in> set (bt_kids ns i). k < length ns \<and> k \<noteq> root \<and> (inner ns k \<longrightarrow> i < k))) \<and>
     (\<forall>i < length ns. \<forall>j < length ns. \<forall>k. k \<in> set (bt_kids ns i) \<longrightarrow> k \<in> set (bt_kids ns j) \<longrightarrow> i = j) \<and>
     (\<forall>k < length ns. k = root \<or> (\<exists>i < length ns. k \<in> set (bt_kids ns i)))"

definition bt_inv :: "'u::linordered_ab_group_add bounds_tree \<Rightarrow> bool" where
  "bt_inv self \<longleftrightarrow>
     (case (bt_root self, bt_max_leaf self) of
        (None, None) \<Rightarrow> bt_nodes self = []
      | (Some root, Some highest) \<Rightarrow>
          tree_shape (bt_nodes self) root \<and> (\<forall>i < length (bt_nodes self). node_ok (bt_nodes self) i) \<and>
          highest < length (bt_nodes self) \<and> is_bt_leaf (bt_nodes self ! highest) \<and>
          (\<forall>l < length (bt_nodes self). is_bt_leaf (bt_nodes self ! l) \<longrightarrow> nd_max_order (bt_nodes self ! l) \<le> nd_max_order (bt_nodes self ! highest))
      | _ \<Rightarrow> False)"

lemma kids_leaf [simp]: "is_bt_leaf (ns ! i) \<Longrightarrow> bt_kids ns i = []"
  by (auto simp: bt_kids_def node_kids_def is_bt_leaf_def split: node_kind.splits)

lemma node_ok_inner:
  "node_ok ns i \<Longrightarrow> inner ns i \<Longrightarrow> nd_kind (ns ! i) = Bt_Internal (bt_kids ns i) \<and> 2 \<le> length (bt_kids ns i) \<and> length (bt_kids ns i) \<le> MAX_CHILDREN \<and>
     (\<forall>k \<in> set (bt_kids ns i). covers (nd_bounds (ns ! i)) (nd_bounds (ns ! k)) \<and> nd_max_order (ns ! k) \<le> nd_max_order (ns ! i)) \<and>
     nd_max_order (ns ! last (bt_kids ns i)) = nd_max_order (ns ! i)"
  by (auto simp: node_ok_def inner_def bt_kids_def node_kids_def is_bt_leaf_def split: node_kind.splits)

lemma node_ok_leaf: "node_ok ns i \<Longrightarrow> is_bt_leaf (ns ! i) \<Longrightarrow> nd_kind (ns ! i) = Bt_Leaf (nd_max_order (ns ! i))"
  by (auto simp: node_ok_def is_bt_leaf_def split: node_kind.splits)

lemma inner_kids: "k \<in> set (bt_kids ns i) \<Longrightarrow> inner ns i"
  by (auto simp: inner_def)

lemma node_ok_kid:
  "node_ok ns i \<Longrightarrow> k \<in> set (bt_kids ns i) \<Longrightarrow>
     covers (nd_bounds (ns ! i)) (nd_bounds (ns ! k)) \<and> nd_max_order (ns ! k) \<le> nd_max_order (ns ! i)"
  using node_ok_inner inner_kids by blast

lemma shape_kid: "tree_shape ns root \<Longrightarrow> i < length ns \<Longrightarrow> k \<in> set (bt_kids ns i) \<Longrightarrow> k < length ns \<and> k \<noteq> root \<and> (inner ns k \<longrightarrow> i < k)"
  unfolding tree_shape_def by blast

lemma shape_parent:
  "tree_shape ns root \<Longrightarrow> i < length ns \<Longrightarrow> j < length ns \<Longrightarrow> k \<in> set (bt_kids ns i) \<Longrightarrow> k \<in> set (bt_kids ns j) \<Longrightarrow> i = j"
  unfolding tree_shape_def by blast

lemma shape_root: "tree_shape ns root \<Longrightarrow> root < length ns"
  unfolding tree_shape_def by blast

lemma shape_has_parent: "tree_shape ns root \<Longrightarrow> k < length ns \<Longrightarrow> k \<noteq> root \<Longrightarrow> \<exists>i < length ns. k \<in> set (bt_kids ns i)"
  unfolding tree_shape_def by blast

section \<open>Descendants\<close>

definition below :: "'u bt_node list \<Rightarrow> (nat \<times> nat) set" where
  "below ns = {(k, i). i < length ns \<and> k \<in> set (bt_kids ns i)}"

definition rank :: "'u bt_node list \<Rightarrow> nat \<Rightarrow> nat" where
  "rank ns i = (if inner ns i then length ns - i else 0)"

lemma rank_kid: "tree_shape ns root \<Longrightarrow> i < length ns \<Longrightarrow> k \<in> set (bt_kids ns i) \<Longrightarrow> rank ns k < rank ns i"
  using shape_kid [of ns root i k] inner_kids [of k ns i] by (auto simp: rank_def)

lemma below_cases: "(l, i) \<in> (below ns)\<^sup>* \<Longrightarrow> l = i \<or> i < length ns \<and> (\<exists>k \<in> set (bt_kids ns i). (l, k) \<in> (below ns)\<^sup>*)"
  by (erule rtranclE) (auto simp: below_def)

lemma below_ok:
  assumes "tree_shape ns root" "\<forall>i < length ns. node_ok ns i" "i < length ns"
  shows "(l, i) \<in> (below ns)\<^sup>* \<Longrightarrow> l < length ns \<and> covers (nd_bounds (ns ! i)) (nd_bounds (ns ! l)) \<and> nd_max_order (ns ! l) \<le> nd_max_order (ns ! i)"
proof (induction rule: converse_rtrancl_induct)
  case base show ?case using assms by simp
next
  case (step l j)
  then have "j < length ns" "l \<in> set (bt_kids ns j)" by (auto simp: below_def)
  then show ?case using step shape_kid [OF assms(1)] node_ok_kid [of ns j l] assms(2) covers_trans order_trans by blast
qed

lemma below_root:
  assumes shape: "tree_shape ns root"
  shows "k < length ns \<Longrightarrow> (k, root) \<in> (below ns)\<^sup>*"
proof (induction "if inner ns k then k else length ns" arbitrary: k rule: less_induct)
  case less
  show ?case
  proof (cases "k = root")
    case False
    then obtain i where i: "i < length ns" "k \<in> set (bt_kids ns i)" using shape_has_parent [OF shape less.prems] by blast
    then have "(if inner ns i then i else length ns) < (if inner ns k then k else length ns)"
      using shape_kid [OF shape i] inner_kids [OF i(2)] by simp
    then have "(i, root) \<in> (below ns)\<^sup>*" using less.hyps i(1) by blast
    then show ?thesis using i by (auto simp: below_def intro: converse_rtrancl_into_rtrancl)
  qed simp
qed

section \<open>The search\<close>

lemma improving_children_ok:
  "\<forall>k \<in> set children. k < length ns \<Longrightarrow>
     improving_children ns max_found children = ret (filter (\<lambda>k. max_found < nd_max_order (ns ! k)) children)"
  by (induction children) (auto simp: panic_free)

definition stack_weight :: "'u bt_node list \<Rightarrow> nat list \<Rightarrow> nat" where
  "stack_weight ns stack = (\<Sum>i\<leftarrow>stack. 13 ^ rank ns i)"

lemma weight_pop: "stack \<noteq> [] \<Longrightarrow> stack_weight ns (butlast stack) < stack_weight ns stack"
  by (induction stack rule: rev_induct) (simp_all add: stack_weight_def)

lemma weight_expand:
  assumes "stack \<noteq> []" "length ks \<le> 12" "\<forall>k \<in> set ks. rank ns k < rank ns (last stack)"
  shows "stack_weight ns (butlast stack @ ks) < stack_weight ns stack"
proof -
  let ?r = "rank ns (last stack)"
  have "stack_weight ns ks \<le> length ks * 13 ^ (?r - 1)" using assms(3)
    by (induction ks) (auto simp: stack_weight_def intro!: add_mono power_increasing)
  also have "\<dots> \<le> 12 * 13 ^ (?r - 1)" using assms(2) by simp
  also have "\<dots> < 13 ^ ?r" if "ks \<noteq> []"
  proof -
    have "0 < ?r" using assms(3) that by (cases ks) auto
    then show ?thesis by (cases ?r) simp_all
  qed
  finally have "stack_weight ns ks < 13 ^ ?r \<or> ks = []" by blast
  moreover have "stack_weight ns stack = stack_weight ns (butlast stack) + 13 ^ ?r"
    by (subst append_butlast_last_id [OF assms(1), symmetric]) (simp add: stack_weight_def del: append_butlast_last_id)
  moreover have "stack_weight ns (butlast stack @ ks) = stack_weight ns (butlast stack) + stack_weight ns ks" by (simp add: stack_weight_def)
  ultimately show ?thesis by (auto simp: stack_weight_def)
qed

text \<open>The leaves a search can find below the nodes of a stack, and what the search makes of them.\<close>

definition hit :: "'u::linordered_ab_group_add bt_node list \<Rightarrow> 'u bounds \<Rightarrow> nat \<Rightarrow> bool" where
  "hit ns query l \<longleftrightarrow> l < length ns \<and> is_bt_leaf (ns ! l) \<and> intersects query (nd_bounds (ns ! l))"

definition search_result :: "'u::linordered_ab_group_add bt_node list \<Rightarrow> 'u bounds \<Rightarrow> nat list \<Rightarrow> nat \<Rightarrow> nat \<Rightarrow> bool" where
  "search_result ns query stack max_found r \<longleftrightarrow> max_found \<le> r \<and>
     (\<forall>i \<in> set stack. \<forall>l. (l, i) \<in> (below ns)\<^sup>* \<longrightarrow> hit ns query l \<longrightarrow> nd_max_order (ns ! l) \<le> r) \<and>
     (r = max_found \<or> (\<exists>l. hit ns query l \<and> nd_max_order (ns ! l) = r))"

lemma search_result_step:
  assumes "search_result ns query rest found r" "max_found \<le> found"
    "found = max_found \<or> (\<exists>l. hit ns query l \<and> nd_max_order (ns ! l) = found)"
    "\<And>i l. i \<in> set stack \<Longrightarrow> (l, i) \<in> (below ns)\<^sup>* \<Longrightarrow> hit ns query l \<Longrightarrow>
       nd_max_order (ns ! l) \<le> found \<or> (\<exists>k \<in> set rest. (l, k) \<in> (below ns)\<^sup>*)"
  shows "search_result ns query stack max_found r"
  unfolding search_result_def
proof (intro conjI ballI allI impI)
  have found: "found \<le> r" using assms(1) by (simp add: search_result_def)
  then show "max_found \<le> r" using assms(2) by simp
  show "r = max_found \<or> (\<exists>l. hit ns query l \<and> nd_max_order (ns ! l) = r)"
    using assms(1,3) by (auto simp: search_result_def)
  fix i l assume "i \<in> set stack" "(l, i) \<in> (below ns)\<^sup>*" "hit ns query l"
  then show "nd_max_order (ns ! l) \<le> r" using assms(1) assms(4) [of i l] found unfolding search_result_def by fastforce
qed

lemma search_ok:
  assumes shape: "tree_shape ns root" and ok: "\<forall>i < length ns. node_ok ns i"
  shows "set stack \<subseteq> {..<length ns} \<Longrightarrow>
    \<exists>r. search_loop ns query stack max_found = ret r \<and> search_result ns query stack max_found r"
proof (induction "stack_weight ns stack" arbitrary: stack max_found rule: less_induct)
  case less
  show ?case
  proof (cases "stack = []")
    case True
    then show ?thesis by (simp add: search_loop.simps search_result_def)
  next
    case False
    let ?i = "last stack" and ?rest = "butlast stack"
    have i: "?i < length ns" using less.prems last_in_set [OF False] by blast
    have stack: "set stack = insert ?i (set ?rest)"
      by (subst append_butlast_last_id [OF False, symmetric]) (simp del: append_butlast_last_id)
    have rest: "set ?rest \<subseteq> {..<length ns}" using less.prems stack by auto
    note pop = less.hyps [OF weight_pop [OF False] rest]
    note under = below_ok [OF shape ok i]
    note loop = search_loop.simps [of ns query stack max_found]
    show ?thesis
    proof (cases "nd_max_order (ns ! ?i) \<le> max_found \<or> \<not> intersects query (nd_bounds (ns ! ?i))")
      case True
      obtain r where r: "search_loop ns query ?rest max_found = ret r" "search_result ns query ?rest max_found r"
        using pop by blast
      have "search_loop ns query stack max_found = ret r" using loop True False i r(1) by (auto simp: panic_free)
      moreover have "search_result ns query stack max_found r"
        using r(2)
      proof (rule search_result_step)
        fix j l assume "j \<in> set stack" "(l, j) \<in> (below ns)\<^sup>*" "hit ns query l"
        moreover from this have "j = ?i \<Longrightarrow> nd_max_order (ns ! l) \<le> max_found"
          using under [of l] True intersects_covers by (fastforce simp: hit_def)
        ultimately show "nd_max_order (ns ! l) \<le> max_found \<or> (\<exists>k \<in> set ?rest. (l, k) \<in> (below ns)\<^sup>*)"
          using stack by blast
      qed simp_all
      ultimately show ?thesis by blast
    next
      case visit: False
      show ?thesis
      proof (cases "nd_kind (ns ! ?i)")
        case (Bt_Leaf order)
        have order: "nd_max_order (ns ! ?i) = order" and leaf: "is_bt_leaf (ns ! ?i)"
          using ok i Bt_Leaf by (auto simp: node_ok_def is_bt_leaf_def)
        obtain r where r: "search_loop ns query ?rest (max max_found order) = ret r" "search_result ns query ?rest (max max_found order) r"
          using pop by blast
        have "search_loop ns query stack max_found = ret r" using loop visit False i r(1) Bt_Leaf by (simp add: panic_free)
        moreover have "search_result ns query stack max_found r"
          using r(2)
        proof (rule search_result_step)
          show "max max_found order = max_found \<or> (\<exists>l. hit ns query l \<and> nd_max_order (ns ! l) = max max_found order)"
            using visit order leaf i by (auto simp: hit_def max_def intro!: exI [of _ ?i])
          fix j l assume "j \<in> set stack" "(l, j) \<in> (below ns)\<^sup>*"
          moreover from this have "j = ?i \<Longrightarrow> l = ?i" using below_cases [of l ?i ns] leaf by auto
          ultimately show "nd_max_order (ns ! l) \<le> max max_found order \<or> (\<exists>k \<in> set ?rest. (l, k) \<in> (below ns)\<^sup>*)"
            using stack order by auto
        qed simp
        ultimately show ?thesis by blast
      next
        case (Bt_Internal children)
        then have children: "bt_kids ns ?i = children" and inner: "inner ns ?i"
          by (simp_all add: bt_kids_def node_kids_def inner_def is_bt_leaf_def)
        let ?pushed = "filter (\<lambda>k. max_found < nd_max_order (ns ! k)) children"
        have kid: "k < length ns \<and> rank ns k < rank ns ?i" if "k \<in> set children" for k
          using shape_kid [OF shape i] rank_kid [OF shape i] that children by blast
        have few: "length ?pushed \<le> 12"
          using node_ok_inner [OF _ inner] ok i children
          by (intro order_trans [OF length_filter_le]) (simp add: MAX_CHILDREN_def)
        have lighter: "stack_weight ns (?rest @ ?pushed) < stack_weight ns stack" by (rule weight_expand [OF False few]) (use kid in simp)
        have "set (?rest @ ?pushed) \<subseteq> {..<length ns}" using rest kid by auto
        from less.hyps [OF lighter this] obtain r where r: "search_loop ns query (?rest @ ?pushed) max_found = ret r"
            "search_result ns query (?rest @ ?pushed) max_found r"
          by blast
        have "search_loop ns query stack max_found = ret r"
          using loop visit False i r(1) Bt_Internal improving_children_ok [of children ns max_found] kid by (simp add: panic_free)
        moreover have "search_result ns query stack max_found r"
          using r(2)
        proof (rule search_result_step)
          fix j l assume l: "j \<in> set stack" "(l, j) \<in> (below ns)\<^sup>*" "hit ns query l"
          have "nd_max_order (ns ! l) \<le> max_found \<or> (\<exists>k \<in> set ?pushed. (l, k) \<in> (below ns)\<^sup>*)" if j: "j = ?i"
          proof -
            have "l \<noteq> ?i" using l(3) inner by (auto simp: hit_def inner_def)
            then obtain k where k: "k \<in> set children" "(l, k) \<in> (below ns)\<^sup>*"
              using below_cases [of l ?i ns] l(2) children unfolding j by auto
            moreover have "nd_max_order (ns ! l) \<le> nd_max_order (ns ! k)" using below_ok [OF shape ok _ k(2)] kid [OF k(1)] by blast
            ultimately show ?thesis by (cases "max_found < nd_max_order (ns ! k)") auto
          qed
          then show "nd_max_order (ns ! l) \<le> max_found \<or> (\<exists>k \<in> set (?rest @ ?pushed). (l, k) \<in> (below ns)\<^sup>*)"
            using l stack by auto
        qed simp_all
        ultimately show ?thesis by blast
      qed
    qed
  qed
qed

section \<open>The highest order the query meets\<close>

definition bt_leaves :: "'u::linordered_ab_group_add bounds_tree \<Rightarrow> ('u bounds \<times> nat) list" where
  "bt_leaves self = map (\<lambda>node. (nd_bounds node, nd_max_order node)) (filter is_bt_leaf (bt_nodes self))"

definition highest_order :: "('u::linordered_ab_group_add bounds \<times> nat) list \<Rightarrow> 'u bounds \<Rightarrow> nat" where
  "highest_order leaves query = Max (insert 0 (snd ` set (filter (\<lambda>(b, _). intersects query b) leaves)))"

lemma highest_orderI:
  assumes "\<And>b o'. (b, o') \<in> set leaves \<Longrightarrow> intersects query b \<Longrightarrow> o' \<le> r"
    "r = 0 \<or> (\<exists>b. (b, r) \<in> set leaves \<and> intersects query b)"
  shows "highest_order leaves query = r"
  unfolding highest_order_def by (rule Max_eqI) (use assms in force)+

lemma bt_leaves_iff: "(b, o') \<in> set (bt_leaves self) \<longleftrightarrow>
    (\<exists>l < length (bt_nodes self). is_bt_leaf (bt_nodes self ! l) \<and> b = nd_bounds (bt_nodes self ! l) \<and> o' = nd_max_order (bt_nodes self ! l))"
  by (force simp: bt_leaves_def in_set_conv_nth)

theorem find_max_ordering_ok:
  assumes "bt_inv self"
  shows "\<exists>stack. find_max_ordering self query = ret (self\<lparr>bt_search_stack := stack\<rparr>, highest_order (bt_leaves self) query)"
proof (cases "bt_root self")
  case None
  then have "bt_nodes self = []" using assms by (auto simp: bt_inv_def split: option.splits)
  then have "highest_order (bt_leaves self) query = 0" by (simp add: bt_leaves_def highest_order_def)
  then show ?thesis using None by (auto simp: find_max_ordering_def intro: exI [of _ "bt_search_stack self"])
next
  case (Some root)
  then obtain m where m: "bt_max_leaf self = Some m" using assms by (auto simp: bt_inv_def split: option.splits)
  let ?ns = "bt_nodes self"
  have shape: "tree_shape ?ns root" and ok: "\<forall>i < length ?ns. node_ok ?ns i" and max: "m < length ?ns" "is_bt_leaf (?ns ! m)"
    and most: "\<And>l. l < length ?ns \<Longrightarrow> is_bt_leaf (?ns ! l) \<Longrightarrow> nd_max_order (?ns ! l) \<le> nd_max_order (?ns ! m)"
    using assms Some m by (auto simp: bt_inv_def)
  show ?thesis
  proof (cases "intersects query (nd_bounds (?ns ! m))")
    case True
    then have "highest_order (bt_leaves self) query = nd_max_order (?ns ! m)"
      by (intro highest_orderI) (auto simp: bt_leaves_iff max intro: most max)
    then show ?thesis using Some m max True
      by (auto simp: find_max_ordering_def panic_free intro: exI [of _ "bt_search_stack self"])
  next
    case False
    obtain r where r: "search_loop ?ns query [root] 0 = ret r" "search_result ?ns query [root] 0 r"
      using search_ok [OF shape ok, of "[root]" query 0] shape_root [OF shape] by auto
    have "highest_order (bt_leaves self) query = r"
      using r(2) below_root [OF shape] by (intro highest_orderI) (auto simp: bt_leaves_iff search_result_def hit_def)
    then show ?thesis using Some m max False r(1) shape_root [OF shape]
      by (auto simp: find_max_ordering_def search_tree_def panic_free)
  qed
qed

end
