(* ===== verification/Bounds_Tree_Insert.thy ===== *)
theory Bounds_Tree_Insert
  imports Bounds_Tree_Search "HOL-Library.Multiset"
begin

text \<open>
  Insertion into the spatial tree keeps its invariant: the descent ends at an inner node, the leaf is
  placed there, and the way back restores the bounds and orders of the path.
\<close>

section \<open>Child lists\<close>

lemma length_swap_at [simp]: "length (swap_at xs i j) = length xs"
  by (simp add: swap_at_def)

lemma mset_swap_at: "i < length xs \<Longrightarrow> j < length xs \<Longrightarrow> mset (swap_at xs i j) = mset xs"
  using mset_swap [of j xs i] by (simp add: swap_at_def)

lemma last_swap_at: "i < length xs \<Longrightarrow> last (swap_at xs i (length xs - 1)) = xs ! i"
  by (cases "xs = []") (auto simp: swap_at_def last_conv_nth nth_list_update)

lemma position_Some: "position x xs = Some p \<Longrightarrow> p < length xs \<and> xs ! p = x"
  by (induction xs arbitrary: p) (auto split: if_splits)

lemma position_ex: "x \<in> set xs \<Longrightarrow> \<exists>p. position x xs = Some p"
  by (induction xs) auto

lemma mset_move_to_end: "mset (move_to_end xs x) = mset xs"
  by (cases "position x xs") (auto simp: move_to_end_def mset_swap_at dest!: position_Some)

lemma last_move_to_end:
  assumes "x \<in> set xs"
  shows "last (move_to_end xs x) = x"
proof -
  obtain p where p: "position x xs = Some p" using position_ex [OF assms] by blast
  then have "xs \<noteq> []" using position_Some [OF p] by auto
  then show ?thesis using position_Some [OF p] last_swap_at [of p xs]
    by (cases "p = length xs - 1") (auto simp: move_to_end_def p last_conv_nth)
qed

lemma best_child_ok:
  "\<forall>k \<in> set children. k < length nodes \<Longrightarrow> bp < length children \<Longrightarrow> children ! bp = bi \<Longrightarrow>
     \<exists>i p. best_child nodes b pos (drop pos children) bi bp cost = ret (i, p) \<and> p < length children \<and> children ! p = i"
proof (induction "length children - pos" arbitrary: pos bi bp cost)
  case 0
  then show ?case by simp
next
  case (Suc n)
  then have pos: "pos < length children" by simp
  have n: "n = length children - (pos + 1)" using Suc.hyps(2) by simp
  have "children ! pos < length nodes" using Suc.prems(1) pos by (metis nth_mem)
  moreover have "drop pos children = children ! pos # drop (pos + 1) children" using pos by (simp add: Cons_nth_drop_Suc)
  ultimately show ?case
    using Suc.hyps(1) [OF n Suc.prems(1) pos refl] Suc.hyps(1) [OF n Suc.prems(1,2,3)] by (simp add: panic_free)
qed

section \<open>Frames\<close>

text \<open>What changes between two states of the node vector: inner nodes only, and only inner nodes are new.\<close>

definition frame :: "'u bt_node list \<Rightarrow> 'u bt_node list \<Rightarrow> bool" where
  "frame ns ns' \<longleftrightarrow> length ns \<le> length ns' \<and>
     (\<forall>i < length ns. (is_bt_leaf (ns ! i) \<longrightarrow> ns' ! i = ns ! i) \<and> (inner ns i \<longrightarrow> inner ns' i)) \<and>
     (\<forall>i. length ns \<le> i \<longrightarrow> i < length ns' \<longrightarrow> inner ns' i)"

lemma frame_refl [simp]: "frame ns ns"
  by (simp add: frame_def)

lemma frame_trans [trans]: "frame a b \<Longrightarrow> frame b c \<Longrightarrow> frame a c"
  by (auto simp: frame_def inner_def) (metis linorder_not_le)

lemma frame_update: "inner ns i \<Longrightarrow> \<not> is_bt_leaf node \<Longrightarrow> i < length ns \<Longrightarrow> frame ns (ns[i := node])"
  by (auto simp: frame_def inner_def nth_list_update)

lemma frame_append: "\<not> is_bt_leaf node \<Longrightarrow> frame ns (ns @ [node])"
  by (auto simp: frame_def inner_def nth_append)

lemma filter_by_index: "filter P xs = map ((!) xs) (filter (\<lambda>i. P (xs ! i)) [0..<length xs])"
  by (subst map_nth [symmetric], subst filter_map) (simp add: comp_def)

lemma frame_leaves:
  assumes "frame ns ns'"
  shows "filter is_bt_leaf ns' = filter is_bt_leaf ns"
proof -
  have "[0..<length ns'] = [0..<length ns] @ [length ns..<length ns']"
    using assms by (metis frame_def le_add_diff_inverse upt_add_eq_append zero_le)
  moreover have "filter (\<lambda>i. is_bt_leaf (ns' ! i)) [0..<length ns] = filter (\<lambda>i. is_bt_leaf (ns ! i)) [0..<length ns]"
    using assms by (intro filter_cong) (auto simp: frame_def inner_def)
  moreover have "filter (\<lambda>i. is_bt_leaf (ns' ! i)) [length ns..<length ns'] = []"
    using assms by (auto simp: frame_def inner_def filter_empty_conv)
  ultimately show ?thesis
    using assms by (subst (1 2) filter_by_index) (auto simp: frame_def)
qed

section \<open>Nodes whose subtree has grown\<close>

text \<open>
  While the bounds \<open>b\<close> of the new leaf have not been propagated past a node, its children may stick out
  by \<open>b\<close> and have the new order.
\<close>

definition grown :: "'u::linordered_ab_group_add bt_node list \<Rightarrow> 'u bounds \<Rightarrow> nat \<Rightarrow> nat \<Rightarrow> bool" where
  "grown ns b order i \<longleftrightarrow> inner ns i \<and> 2 \<le> length (bt_kids ns i) \<and> length (bt_kids ns i) \<le> MAX_CHILDREN \<and>
     (\<forall>k \<in> set (bt_kids ns i). covers (bounds_union (nd_bounds (ns ! i)) b) (nd_bounds (ns ! k)) \<and>
        nd_max_order (ns ! k) \<le> max (nd_max_order (ns ! i)) order) \<and>
     (order \<le> nd_max_order (ns ! i) \<longrightarrow> nd_max_order (ns ! last (bt_kids ns i)) = nd_max_order (ns ! i))"

definition raisable :: "'u bt_node list \<Rightarrow> nat \<Rightarrow> nat option \<Rightarrow> nat \<Rightarrow> bool" where
  "raisable ns order updated i \<longleftrightarrow> (nd_max_order (ns ! i) < order \<longrightarrow>
     (case updated of
        None \<Rightarrow> nd_max_order (ns ! last (bt_kids ns i)) = order
      | Some c \<Rightarrow> c \<in> set (bt_kids ns i) \<and> nd_max_order (ns ! c) = order))"

fun climbs :: "'u bt_node list \<Rightarrow> nat \<Rightarrow> nat list \<Rightarrow> bool" where
  "climbs ns root [] = True"
| "climbs ns root [i] = (i = root)"
| "climbs ns root (i # j # path) = (i \<in> set (bt_kids ns j) \<and> climbs ns root (j # path))"

lemma kids_nonempty_last: "2 \<le> length xs \<Longrightarrow> last xs \<in> set xs"
  by (cases xs) auto

lemma node_ok_grown: "node_ok ns i \<Longrightarrow> inner ns i \<Longrightarrow> grown ns b order i"
  using node_ok_inner [of ns i] covers_trans union_covers(1) unfolding grown_def by (metis max.coboundedI1)

lemma node_ok_inner_iff:
  "inner ns i \<Longrightarrow> node_ok ns i \<longleftrightarrow> 2 \<le> length (bt_kids ns i) \<and> length (bt_kids ns i) \<le> MAX_CHILDREN \<and>
     (\<forall>k \<in> set (bt_kids ns i). covers (nd_bounds (ns ! i)) (nd_bounds (ns ! k)) \<and> nd_max_order (ns ! k) \<le> nd_max_order (ns ! i)) \<and>
     nd_max_order (ns ! last (bt_kids ns i)) = nd_max_order (ns ! i)"
  by (auto simp: node_ok_def inner_def bt_kids_def node_kids_def is_bt_leaf_def split: node_kind.splits)

text \<open>Two vectors that agree on the old indices, but for one node \<open>c\<close>.\<close>

definition agree_but :: "nat \<Rightarrow> 'u bt_node list \<Rightarrow> 'u bt_node list \<Rightarrow> bool" where
  "agree_but c ns ns' \<longleftrightarrow> length ns \<le> length ns' \<and> (\<forall>i < length ns. i \<noteq> c \<longrightarrow> ns' ! i = ns ! i)"

lemma agree_kids: "agree_but c ns ns' \<Longrightarrow> i < length ns \<Longrightarrow> i \<noteq> c \<Longrightarrow> bt_kids ns' i = bt_kids ns i \<and> inner ns' i = inner ns i"
  by (simp add: agree_but_def bt_kids_def inner_def)

lemma agree_node_ok:
  assumes "agree_but c ns ns'" "node_ok ns j" "j < length ns" "j \<noteq> c" "\<forall>k \<in> set (bt_kids ns j). k < length ns \<and> k \<noteq> c"
  shows "node_ok ns' j"
proof (cases "inner ns j")
  case True
  then have "last (bt_kids ns j) \<in> set (bt_kids ns j)" using assms(2) kids_nonempty_last node_ok_inner_iff by blast
  then show ?thesis
    using assms True node_ok_inner_iff [of ns j] node_ok_inner_iff [of ns' j] agree_kids [OF assms(1,3,4)]
    by (auto simp: agree_but_def)
next
  case False
  then show ?thesis using assms by (simp add: node_ok_def agree_but_def inner_def is_bt_leaf_def split: node_kind.splits)
qed

lemma agree_grown:
  assumes agree: "agree_but c ns ns'" and grown: "grown ns b order j" and j: "j < length ns" "j \<noteq> c"
    and bt_kids: "\<forall>k \<in> set (bt_kids ns j). k < length ns"
    and c: "covers (bounds_union (nd_bounds (ns ! c)) b) (nd_bounds (ns' ! c))"
      "nd_max_order (ns ! c) \<le> nd_max_order (ns' ! c)" "nd_max_order (ns' ! c) \<le> max (nd_max_order (ns ! c)) order"
  shows "grown ns' b order j"
proof -
  have node: "ns' ! j = ns ! j" "bt_kids ns' j = bt_kids ns j" "inner ns' j = inner ns j"
    using agree j by (auto simp: agree_but_def bt_kids_def inner_def)
  have last: "last (bt_kids ns j) \<in> set (bt_kids ns j)" using grown kids_nonempty_last by (auto simp: grown_def)
  have kid: "covers (bounds_union (nd_bounds (ns ! j)) b) (nd_bounds (ns' ! k)) \<and>
      nd_max_order (ns' ! k) \<le> max (nd_max_order (ns ! j)) order" if k: "k \<in> set (bt_kids ns j)" for k
  proof (cases "k = c")
    case True
    have "covers (bounds_union (nd_bounds (ns ! j)) b) (bounds_union (nd_bounds (ns ! c)) b)"
      using grown k True by (simp add: grown_def covers_union)
    moreover have "nd_max_order (ns ! c) \<le> max (nd_max_order (ns ! j)) order" using grown k True by (auto simp: grown_def)
    ultimately show ?thesis using c True covers_trans by (simp add: max_def split: if_splits) blast+
  next
    case False
    then have "ns' ! k = ns ! k" using agree bt_kids k by (auto simp: agree_but_def)
    then show ?thesis using grown k by (auto simp: grown_def)
  qed
  have "nd_max_order (ns' ! last (bt_kids ns j)) = nd_max_order (ns ! j)" if "order \<le> nd_max_order (ns ! j)"
    using agree grown that c last bt_kids by (cases "last (bt_kids ns j) = c") (auto simp: grown_def agree_but_def)
  then show ?thesis using grown kid node by (auto simp: grown_def)
qed

section \<open>The way back\<close>

lemma tree_shapeI:
  assumes "root < length ns" "\<And>i. i < length ns \<Longrightarrow> distinct (bt_kids ns i)"
    "\<And>i k. i < length ns \<Longrightarrow> k \<in> set (bt_kids ns i) \<Longrightarrow> k < length ns \<and> k \<noteq> root \<and> (inner ns k \<longrightarrow> i < k)"
    "\<And>i j k. i < length ns \<Longrightarrow> j < length ns \<Longrightarrow> k \<in> set (bt_kids ns i) \<Longrightarrow> k \<in> set (bt_kids ns j) \<Longrightarrow> i = j"
    "\<And>k. k < length ns \<Longrightarrow> k \<noteq> root \<Longrightarrow> \<exists>i < length ns. k \<in> set (bt_kids ns i)"
  shows "tree_shape ns root"
  unfolding tree_shape_def using assms by blast

lemma shape_distinct: "tree_shape ns root \<Longrightarrow> i < length ns \<Longrightarrow> distinct (bt_kids ns i)"
  unfolding tree_shape_def by blast

lemma shape_cong:
  assumes "tree_shape ns root" "length ns' = length ns"
    "\<And>i. i < length ns \<Longrightarrow> mset (bt_kids ns' i) = mset (bt_kids ns i) \<and> inner ns' i = inner ns i"
  shows "tree_shape ns' root"
proof -
  have same: "set (bt_kids ns' i) = set (bt_kids ns i)" "distinct (bt_kids ns' i) = distinct (bt_kids ns i)" "inner ns' i = inner ns i"
    if "i < length ns" for i
    using assms(3) [OF that] mset_eq_setD mset_eq_imp_distinct_iff by blast+
  show ?thesis
  proof (rule tree_shapeI)
    show "root < length ns'" using shape_root [OF assms(1)] assms(2) by simp
    show "distinct (bt_kids ns' i)" if "i < length ns'" for i using that same assms(1,2) by (simp add: shape_distinct)
    show "k < length ns' \<and> k \<noteq> root \<and> (inner ns' k \<longrightarrow> i < k)" if "i < length ns'" "k \<in> set (bt_kids ns' i)" for i k
      using that same assms(2) shape_kid [OF assms(1), of i k] by simp
    show "i = j" if "i < length ns'" "j < length ns'" "k \<in> set (bt_kids ns' i)" "k \<in> set (bt_kids ns' j)" for i j k
      using that same assms(2) shape_parent [OF assms(1), of i j k] by simp
    show "\<exists>i < length ns'. k \<in> set (bt_kids ns' i)" if "k < length ns'" "k \<noteq> root" for k
      using that same assms(2) shape_has_parent [OF assms(1), of k] by auto
  qed
qed

lemma climbs_cong: "\<forall>j \<in> set (tl path). set (bt_kids ns' j) = set (bt_kids ns j) \<Longrightarrow> climbs ns' root path = climbs ns root path"
  by (induction ns root path rule: climbs.induct) auto

text \<open>No node outside the path has a child on it.\<close>

lemma climbs_parent:
  assumes "tree_shape ns root" "climbs ns root (i # path)" "set (i # path) \<subseteq> {..<length ns}" "j < length ns" "i \<in> set (bt_kids ns j)"
  shows "\<exists>rest. path = j # rest"
proof (cases path)
  case Nil
  then have "i = root" using assms(2) by simp
  then show ?thesis using shape_kid [OF assms(1,4,5)] by blast
next
  case (Cons k rest)
  then have "k < length ns" "i \<in> set (bt_kids ns k)" using assms(2,3) by auto
  then have "k = j" using shape_parent [OF assms(1) _ assms(4) _ assms(5)] by blast
  then show ?thesis using Cons by blast
qed

lemma shape_not_own_kid: "tree_shape ns root \<Longrightarrow> i < length ns \<Longrightarrow> i \<notin> set (bt_kids ns i)"
  using shape_kid inner_kids by blast

lemma propagate_ok:
  "tree_shape ns root \<Longrightarrow> set path \<subseteq> {..<length ns} \<Longrightarrow> distinct path \<Longrightarrow> climbs ns root path \<Longrightarrow>
   (\<forall>j < length ns. j \<notin> set path \<longrightarrow> node_ok ns j) \<Longrightarrow> (\<forall>j \<in> set path. grown ns b order j) \<Longrightarrow>
   (\<forall>i rest. path = i # rest \<longrightarrow> raisable ns order updated i) \<Longrightarrow>
   \<exists>ns'. propagate b order path updated ns = ret ns' \<and> tree_shape ns' root \<and> (\<forall>j < length ns'. node_ok ns' j) \<and> frame ns ns'"
proof (induction path arbitrary: ns updated)
  case (Cons i path)
  note shape = Cons.prems(1)
  have i: "i < length ns" "i \<notin> set path" using Cons.prems(2,3) by auto
  have grown: "grown ns b order i" and raisable: "raisable ns order updated i" using Cons.prems(6,7) by auto
  then have inner: "inner ns i" and kind: "nd_kind (ns ! i) = Bt_Internal (bt_kids ns i)"
    by (auto simp: grown_def inner_def bt_kids_def node_kids_def is_bt_leaf_def split: node_kind.splits)
  define children where "children =
    (if nd_max_order (ns ! i) < order then (case updated of None \<Rightarrow> bt_kids ns i | Some c \<Rightarrow> move_to_end (bt_kids ns i) c) else bt_kids ns i)"
  define node where "node = (ns ! i)\<lparr>nd_bounds := bounds_union (nd_bounds (ns ! i)) b,
    nd_max_order := max (nd_max_order (ns ! i)) order, nd_kind := Bt_Internal children\<rparr>"
  let ?ns = "ns[i := node]"
  have step: "propagate b order (i # path) updated ns = propagate b order path (Some i) ?ns"
    using i kind by (cases "ns ! i"; cases updated) (auto simp: panic_free node_def children_def max_def not_less)
  have node_i: "?ns ! i = node" using i by simp
  have children: "mset children = mset (bt_kids ns i)" by (simp add: children_def mset_move_to_end split: option.split)
  have kids_i: "bt_kids ?ns i = children" "inner ?ns i" using i by (simp_all add: bt_kids_def node_kids_def node_def inner_def is_bt_leaf_def)
  have agree: "agree_but i ns ?ns" by (simp add: agree_but_def)
  have bt_kids: "mset (bt_kids ?ns j) = mset (bt_kids ns j) \<and> inner ?ns j = inner ns j" if "j < length ns" for j
    using agree_kids [OF agree that] kids_i children inner by (cases "j = i") auto
  have sets: "set (bt_kids ?ns j) = set (bt_kids ns j)" if "j < length ns" for j using bt_kids [OF that] mset_eq_setD by blast
  have shape': "tree_shape ?ns root" by (rule shape_cong [OF shape]) (use bt_kids in simp_all)
  have own: "i \<notin> set (bt_kids ns i)" using shape_not_own_kid [OF shape i(1)] .
  have others: "?ns ! k = ns ! k" if "k \<in> set (bt_kids ns i)" for k
    using own that by (metis nth_list_update_neq)
  have data: "nd_bounds node = bounds_union (nd_bounds (ns ! i)) b" "nd_max_order node = max (nd_max_order (ns ! i)) order"
    by (simp_all add: node_def)
  have "last children \<in> set (bt_kids ns i) \<and> nd_max_order (ns ! last children) = max (nd_max_order (ns ! i)) order"
    using grown raisable kids_nonempty_last [of "bt_kids ns i"]
    by (auto simp: children_def grown_def raisable_def last_move_to_end max_def not_less split: option.splits)
  then have ok_i: "node_ok ?ns i"
    using grown kids_i children others mset_eq_setD [OF children] mset_eq_length [OF children] node_i data
    by (subst node_ok_inner_iff) (auto simp: grown_def)
  have inner_path: "\<exists>rest. path = j # rest" if "j < length ns" "i \<in> set (bt_kids ns j)" for j
    using climbs_parent [OF shape Cons.prems(4,2) that] .
  have "node_ok ?ns j" if j: "j < length ?ns" "j \<notin> set path" for j
  proof (cases "j = i")
    case False
    then have "node_ok ns j" using Cons.prems(5) j by simp
    moreover have "k < length ns \<and> k \<noteq> i" if k: "k \<in> set (bt_kids ns j)" for k
    proof
      show "k < length ns" using shape_kid [OF shape _ k] j by simp
      show "k \<noteq> i" using inner_path [of j] k j by fastforce
    qed
    ultimately show ?thesis using agree_node_ok [OF agree] j False by simp
  qed (use ok_i in simp)
  moreover have "grown ?ns b order j" if "j \<in> set path" for j
  proof -
    have j: "j < length ns" "j \<noteq> i" using that i Cons.prems(2) by auto
    show ?thesis
      by (rule agree_grown [OF agree _ j]) (use Cons.prems(6) that shape_kid [OF shape j(1)] data i in auto)
  qed
  moreover have "raisable ?ns order (Some i) j" if path: "path = j # rest" for j rest
  proof -
    have j: "j < length ns" "j \<noteq> i" "i \<in> set (bt_kids ns j)" using path i Cons.prems(2,4) by auto
    then have "nd_max_order (ns ! i) \<le> max (nd_max_order (ns ! j)) order" using Cons.prems(6) path by (auto simp: grown_def)
    then show ?thesis using j i sets [OF j(1)] data by (auto simp: raisable_def)
  qed
  moreover have "climbs ?ns root path"
  proof -
    have "climbs ns root path" using Cons.prems(4) by (cases path) auto
    moreover have "\<forall>j \<in> set (tl path). set (bt_kids ?ns j) = set (bt_kids ns j)"
      using sets Cons.prems(2) list.set_sel(2) [of path] by (cases path) auto
    ultimately show ?thesis using climbs_cong by blast
  qed
  ultimately obtain ns' where ns': "propagate b order path (Some i) ?ns = ret ns'" "tree_shape ns' root"
      "\<forall>j < length ns'. node_ok ns' j" "frame ?ns ns'"
    using Cons.IH [OF shape', of "Some i"] Cons.prems(2,3) by auto
  moreover have "frame ns ?ns" using frame_update [OF inner _ i(1), of node] by (simp add: node_def is_bt_leaf_def)
  ultimately show ?case using step frame_trans by metis
qed auto

section \<open>Placing the leaf\<close>

text \<open>What the way back starts from.\<close>

definition propagable :: "'u::linordered_ab_group_add bt_node list \<Rightarrow> nat \<Rightarrow> 'u bounds \<Rightarrow> nat \<Rightarrow> nat list \<Rightarrow> bool" where
  "propagable ns root b order path \<longleftrightarrow>
     tree_shape ns root \<and> set path \<subseteq> {..<length ns} \<and> distinct path \<and> climbs ns root path \<and>
     (\<forall>j < length ns. j \<notin> set path \<longrightarrow> node_ok ns j) \<and> (\<forall>j \<in> set path. grown ns b order j) \<and>
     (\<forall>i rest. path = i # rest \<longrightarrow> raisable ns order None i)"

lemma placed_propagable:
  assumes shape: "tree_shape ns root" and ok: "\<forall>j < length ns. node_ok ns j"
    and path: "climbs ns root (cur # rest)" "set (cur # rest) \<subseteq> {..<length ns}" "distinct (cur # rest)" "\<forall>j \<in> set rest. inner ns j"
    and agree: "agree_but cur ns ns'" and shape': "tree_shape ns' root"
    and cur: "covers (bounds_union (nd_bounds (ns ! cur)) b) (nd_bounds (ns' ! cur))"
      "nd_max_order (ns ! cur) \<le> nd_max_order (ns' ! cur)" "nd_max_order (ns' ! cur) \<le> max (nd_max_order (ns ! cur)) order"
      "grown ns' b order cur" "raisable ns' order None cur"
    and new: "\<And>j. length ns \<le> j \<Longrightarrow> j < length ns' \<Longrightarrow> node_ok ns' j"
  shows "propagable ns' root b order (cur # rest)"
proof -
  have old: "k < length ns" if "j < length ns" "k \<in> set (bt_kids ns j)" for j k using shape_kid [OF shape that] by blast
  have "climbs ns' root (cur # rest)"
  proof (subst climbs_cong)
    show "\<forall>j \<in> set (tl (cur # rest)). set (bt_kids ns' j) = set (bt_kids ns j)"
      using agree_kids [OF agree] path(2,3) by (metis distinct.simps(2) insert_subset lessThan_iff list.sel(3) list.simps(15) subsetD)
  qed (rule path(1))
  moreover have "node_ok ns' j" if j: "j < length ns'" "j \<notin> set (cur # rest)" for j
  proof (cases "j < length ns")
    case True
    have "k < length ns \<and> k \<noteq> cur" if k: "k \<in> set (bt_kids ns j)" for k
      using old [OF True k] climbs_parent [OF shape path(1,2) True, of] k j by fastforce
    then show ?thesis using agree_node_ok [OF agree] ok True j by simp
  qed (use new j in simp)
  moreover have "grown ns' b order j" if "j \<in> set rest" for j
  proof -
    have j: "j < length ns" "j \<noteq> cur" using that path(2,3) by auto
    have "grown ns b order j" using node_ok_grown ok j path(4) that by blast
    then show ?thesis by (rule agree_grown [OF agree _ j]) (use cur old [OF j(1)] in auto)
  qed
  ultimately show ?thesis
    using shape' path cur(4,5) agree unfolding propagable_def agree_but_def by auto
qed

lemma add_leaf_ok:
  fixes ns :: "'u::linordered_ab_group_add bt_node list"
  defines "leaf b order \<equiv> \<lparr>nd_bounds = b, nd_max_order = order, nd_kind = Bt_Leaf order\<rparr>"
  assumes shape: "tree_shape ns root" and ok: "\<forall>j < length ns. node_ok ns j"
    and path: "climbs ns root (cur # rest)" "set (cur # rest) \<subseteq> {..<length ns}" "distinct (cur # rest)" "\<forall>j \<in> set (cur # rest). inner ns j"
    and room: "length (bt_kids ns cur) < MAX_CHILDREN"
  shows "\<exists>ns'. add_leaf_to_node (ns @ [leaf b order]) b order (length ns) cur (bt_kids ns cur) = ret ns' \<and>
    propagable ns' root b order (cur # rest) \<and> frame (ns @ [leaf b order]) ns'"
proof -
  let ?new = "length ns" and ?ns = "ns @ [leaf b order]"
  have c: "cur < length ns" "inner ns cur" "node_ok ns cur" using path ok by auto
  note kids_ok = node_ok_inner [OF c(3,2)]
  define pushed where "pushed = bt_kids ns cur @ [?new]"
  define placed where "placed = (if order \<le> nd_max_order (ns ! cur) then swap_at pushed (length pushed - 2) (length pushed - 1) else pushed)"
  define node where "node = (ns ! cur)\<lparr>nd_bounds := bounds_union (nd_bounds (ns ! cur)) b,
    nd_max_order := max (nd_max_order (ns ! cur)) order, nd_kind := Bt_Internal placed\<rparr>"
  let ?ns' = "?ns[cur := node]"
  have nth: "?ns ! cur = ns ! cur" using c by (simp add: nth_append)
  have run: "add_leaf_to_node ?ns b order ?new cur (bt_kids ns cur) = ret ?ns'"
    using c kids_ok room nth
    by (auto simp: add_leaf_to_node_def children_push_def panic_free node_def placed_def pushed_def numeral_2_eq_2)
  have two: "2 \<le> length (bt_kids ns cur)" using kids_ok by blast
  have mset: "mset placed = mset (bt_kids ns cur @ [?new])" using two by (simp add: placed_def mset_swap_at pushed_def)
  then have placed: "set placed = insert ?new (set (bt_kids ns cur))" "length placed = length (bt_kids ns cur) + 1"
    using mset_eq_setD [OF mset] mset_eq_length [OF mset] by simp_all
  have distinct: "distinct placed"
    using mset_eq_imp_distinct_iff [OF mset] shape_distinct [OF shape c(1)] shape_kid [OF shape c(1)] by auto
  have last: "last placed = (if order \<le> nd_max_order (ns ! cur) then last (bt_kids ns cur) else ?new)"
    using two by (cases "bt_kids ns cur" rule: rev_cases) (auto simp: placed_def pushed_def swap_at_def nth_append last_conv_nth nth_list_update)
  have at_cur: "?ns' ! cur = node" "bt_kids ?ns' cur = placed" "inner ?ns' cur"
    using c by (simp_all add: bt_kids_def node_kids_def node_def inner_def is_bt_leaf_def)
  have at_new: "?ns' ! ?new = leaf b order" using c by simp
  have agree: "agree_but cur ns ?ns'" by (simp add: agree_but_def nth_append)
  note old_kids = agree_kids [OF agree]
  have bt_kids: "set (bt_kids ?ns' i) = (if i = cur then insert ?new (set (bt_kids ns cur)) else if i = ?new then {} else set (bt_kids ns i)) \<and>
      distinct (bt_kids ?ns' i) \<and> inner ?ns' i = (if i = ?new then False else inner ns i)" if "i < Suc ?new" for i
  proof -
    have "bt_kids ?ns' ?new = []" "\<not> inner ?ns' ?new" using at_new by (simp_all add: bt_kids_def node_kids_def inner_def is_bt_leaf_def leaf_def)
    moreover have "bt_kids ?ns' i = bt_kids ns i" "inner ?ns' i = inner ns i" "distinct (bt_kids ns i)" if "i < ?new" "i \<noteq> cur"
      using old_kids [OF that] shape_distinct [OF shape that(1)] by blast+
    ultimately show ?thesis using that at_cur(2,3) placed(1) distinct c(1,2) by (cases "i = cur"; cases "i = ?new") simp_all
  qed
  have kid: "k < ?new \<and> k \<noteq> root \<and> (inner ns k \<longrightarrow> i < k)" if "i < ?new" "k \<in> set (bt_kids ns i)" for i k
    using shape_kid [OF shape that] .
  have shape': "tree_shape ?ns' root"
  proof (rule tree_shapeI)
    show "root < length ?ns'" using shape_root [OF shape] by simp
    show "distinct (bt_kids ?ns' i)" if "i < length ?ns'" for i using bt_kids that by simp
    show "k < length ?ns' \<and> k \<noteq> root \<and> (inner ?ns' k \<longrightarrow> i < k)" if "i < length ?ns'" "k \<in> set (bt_kids ?ns' i)" for i k
      using that bt_kids [of i] bt_kids [of k] kid [of i k] c shape_root [OF shape] by (auto split: if_splits)
    show "i = j" if "i < length ?ns'" "j < length ?ns'" "k \<in> set (bt_kids ?ns' i)" "k \<in> set (bt_kids ?ns' j)" for i j k
      using that bt_kids [of i] bt_kids [of j] kid [of i k] kid [of j k] shape_parent [OF shape, of i j k] c by (auto split: if_splits)
    show "\<exists>i < length ?ns'. k \<in> set (bt_kids ?ns' i)" if k: "k < length ?ns'" "k \<noteq> root" for k
    proof (cases "k = ?new")
      case True
      then show ?thesis using bt_kids [of cur] c by (intro exI [of _ cur]) auto
    next
      case False
      then obtain i where "i < ?new" "k \<in> set (bt_kids ns i)" using shape_has_parent [OF shape, of k] k by auto
      then show ?thesis using bt_kids [of i] by (intro exI [of _ i]) auto
    qed
  qed
  have own: "cur \<notin> set (bt_kids ns cur)" using shape_not_own_kid [OF shape c(1)] .
  have same: "?ns' ! k = ns ! k" if "k \<in> set (bt_kids ns cur)" for k
    using kid [OF c(1) that] own that by (metis nth_append nth_list_update_neq)
  have data: "nd_bounds node = bounds_union (nd_bounds (ns ! cur)) b" "nd_max_order node = max (nd_max_order (ns ! cur)) order"
    by (simp_all add: node_def)
  have widened: "covers (bounds_union (bounds_union (nd_bounds (ns ! cur)) b) b) (nd_bounds (ns ! k))" if "k \<in> set (bt_kids ns cur)" for k
    using kids_ok that covers_trans union_covers(1) by blast
  have last_kid: "last (bt_kids ns cur) \<in> set (bt_kids ns cur)" using two kids_nonempty_last by blast
  have "grown ?ns' b order cur"
    unfolding grown_def at_cur(1,2) data placed
    using at_cur(3) two room kids_ok widened at_new same last last_kid by (auto simp: leaf_def le_max_iff_disj max_def)
  moreover have "raisable ?ns' order None cur" unfolding raisable_def at_cur data by simp
  moreover have "node_ok ?ns' ?new" unfolding node_ok_def at_new by (simp add: leaf_def)
  ultimately have "propagable ?ns' root b order (cur # rest)"
    using placed_propagable [OF shape ok path(1-3) _ agree shape'] path(4) at_cur(1) data by (simp add: less_Suc_eq)
  moreover have "frame ?ns ?ns'"
    using frame_update [of ?ns cur node] c nth by (simp add: inner_def node_def is_bt_leaf_def)
  ultimately show ?thesis using run by blast
qed

lemma set_list_update_distinct: "distinct xs \<Longrightarrow> p < length xs \<Longrightarrow> set (xs[p := y]) = insert y (set xs - {xs ! p})"
  by (auto simp: set_conv_nth nth_list_update nth_eq_iff_index_eq)

lemma split_child_ok:
  fixes ns :: "'u::linordered_ab_group_add bt_node list"
  defines "leaf b order \<equiv> \<lparr>nd_bounds = b, nd_max_order = order, nd_kind = Bt_Leaf order\<rparr>"
  assumes shape: "tree_shape ns root" and ok: "\<forall>j < length ns. node_ok ns j"
    and path: "climbs ns root (cur # rest)" "set (cur # rest) \<subseteq> {..<length ns}" "distinct (cur # rest)" "\<forall>j \<in> set (cur # rest). inner ns j"
    and best: "p < length (bt_kids ns cur)" "bt_kids ns cur ! p = best" "is_bt_leaf (ns ! best)"
  shows "\<exists>ns'. split_child (ns @ [leaf b order]) b order (length ns) cur (bt_kids ns cur) best p = ret ns' \<and>
    propagable ns' root b order (cur # rest) \<and> frame (ns @ [leaf b order]) ns'"
proof -
  let ?new = "length ns" and ?ns = "ns @ [leaf b order]"
  let ?mid = "Suc ?new"
  have c: "cur < length ns" "inner ns cur" "node_ok ns cur" using path ok by auto
  note kids_ok = node_ok_inner [OF c(3,2)]
  have best_kid: "best \<in> set (bt_kids ns cur)" using best(1,2) nth_mem by blast
  have kid: "k < ?new \<and> k \<noteq> root \<and> (inner ns k \<longrightarrow> i < k)" if "i < ?new" "k \<in> set (bt_kids ns i)" for i k
    using shape_kid [OF shape that] .
  note bk = kid [OF c(1) best_kid]
  have own: "cur \<notin> set (bt_kids ns cur)" using shape_not_own_kid [OF shape c(1)] .
  define sibling where "sibling = nd_max_order (ns ! best)"
  have sibling: "sibling \<le> nd_max_order (ns ! cur)" using kids_ok best_kid by (simp add: sibling_def)
  define pair where "pair = pair_children best sibling ?new order"
  define mid where "mid = \<lparr>nd_bounds = bounds_union (nd_bounds (ns ! best)) b, nd_max_order = max sibling order, nd_kind = Bt_Internal pair\<rparr>"
  define replaced where "replaced = (bt_kids ns cur)[p := ?mid]"
  define placed where "placed =
    (if max sibling order > nd_max_order (ns ! cur) then swap_at replaced p (length (bt_kids ns cur) - 1) else replaced)"
  define node where "node = (ns ! cur)\<lparr>nd_kind := Bt_Internal placed\<rparr>"
  let ?ns' = "(?ns @ [mid])[cur := node]"
  have two: "2 \<le> length (bt_kids ns cur)" using kids_ok by blast
  have nth: "?ns ! cur = ns ! cur" "?ns ! best = ns ! best" "(?ns @ [mid]) ! cur = ns ! cur" using c(1) bk by (simp_all add: nth_append)
  have run: "split_child ?ns b order ?new cur (bt_kids ns cur) best p = ret ?ns'"
    using c bk two nth unfolding split_child_def
    by (simp add: panic_free node_def placed_def replaced_def mid_def pair_def sibling_def)
  have mset: "mset placed = mset replaced" using best(1) two by (simp add: placed_def replaced_def mset_swap_at)
  have fresh: "?mid \<notin> set (bt_kids ns cur)" using kid [OF c(1), of ?mid] by auto
  have placed: "set placed = insert ?mid (set (bt_kids ns cur) - {best})" "length placed = length (bt_kids ns cur)"
    using mset_eq_setD [OF mset] mset_eq_length [OF mset] best(1,2) shape_distinct [OF shape c(1)]
    by (simp_all add: replaced_def set_list_update_distinct)
  have distinct: "distinct placed"
    using mset_eq_imp_distinct_iff [OF mset] shape_distinct [OF shape c(1)] fresh by (simp add: replaced_def distinct_list_update)
  have pair: "set pair = {best, ?new}" "distinct pair" "length pair = 2" "last pair = (if order > sibling then ?new else best)"
    using bk by (auto simp: pair_def pair_children_def)
  have at_cur: "?ns' ! cur = node" "bt_kids ?ns' cur = placed" "inner ?ns' cur"
    using c by (simp_all add: bt_kids_def node_kids_def node_def inner_def is_bt_leaf_def)
  have at_new: "?ns' ! ?new = leaf b order" "bt_kids ?ns' ?new = []" "\<not> inner ?ns' ?new"
    using c by (simp_all add: nth_append bt_kids_def node_kids_def inner_def is_bt_leaf_def leaf_def)
  have at_mid: "?ns' ! ?mid = mid" "bt_kids ?ns' ?mid = pair" "inner ?ns' ?mid"
    using c by (simp_all add: nth_append bt_kids_def node_kids_def inner_def is_bt_leaf_def mid_def)
  have agree: "agree_but cur ns ?ns'" by (simp add: agree_but_def nth_append)
  have bt_kids: "set (bt_kids ?ns' i) = (if i = cur then insert ?mid (set (bt_kids ns cur) - {best}) else if i = ?new then {}
        else if i = ?mid then {best, ?new} else set (bt_kids ns i)) \<and>
      distinct (bt_kids ?ns' i) \<and> inner ?ns' i = (if i = ?new then False else if i = ?mid then True else inner ns i)" if "i < Suc ?mid" for i
  proof -
    have "bt_kids ?ns' i = bt_kids ns i" "inner ?ns' i = inner ns i" "distinct (bt_kids ns i)" if "i < ?new" "i \<noteq> cur"
      using agree_kids [OF agree that] shape_distinct [OF shape that(1)] by blast+
    moreover have "i = cur \<or> i = ?new \<or> i = ?mid \<or> i < ?new \<and> i \<noteq> cur" using that by auto
    ultimately show ?thesis using at_cur(2,3) at_new(2,3) at_mid(2,3) placed(1) distinct pair c(1,2) by auto
  qed
  have shape': "tree_shape ?ns' root"
  proof (rule tree_shapeI)
    show "root < length ?ns'" using shape_root [OF shape] by simp
    show "distinct (bt_kids ?ns' i)" if "i < length ?ns'" for i using bt_kids that by simp
    show "k < length ?ns' \<and> k \<noteq> root \<and> (inner ?ns' k \<longrightarrow> i < k)" if "i < length ?ns'" "k \<in> set (bt_kids ?ns' i)" for i k
      using that bt_kids [of i] bt_kids [of k] kid [of i k] c bk best(3) shape_root [OF shape] by (auto simp: inner_def split: if_splits)
    show "i = j" if "i < length ?ns'" "j < length ?ns'" "k \<in> set (bt_kids ?ns' i)" "k \<in> set (bt_kids ?ns' j)" for i j k
    proof -
      have parent: "if k = best \<or> k = ?new then i = ?mid else if k = ?mid then i = cur else i < ?new \<and> k \<in> set (bt_kids ns i)"
        if i: "i < length ?ns'" "k \<in> set (bt_kids ?ns' i)" for i
      proof -
        have "i = cur \<or> i = ?mid \<or> i < ?new \<and> i \<noteq> cur \<and> k \<in> set (bt_kids ns i)"
          using i bt_kids [of i] by (auto split: if_splits)
        then show ?thesis
        proof (elim disjE)
          assume "i = cur"
          then show ?thesis using i bt_kids [of cur] kid [OF c(1), of k] c(1) bk by (auto split: if_splits)
        next
          assume "i = ?mid"
          then show ?thesis using i bt_kids [of ?mid] bk c(1) by (auto split: if_splits)
        next
          assume "i < ?new \<and> i \<noteq> cur \<and> k \<in> set (bt_kids ns i)"
          then show ?thesis using kid [of i k] shape_parent [OF shape _ c(1) _ best_kid, of i] by auto
        qed
      qed
      show ?thesis using parent [OF that(1,3)] parent [OF that(2,4)] shape_parent [OF shape, of i j k] by (auto split: if_splits)
    qed
    show "\<exists>i < length ?ns'. k \<in> set (bt_kids ?ns' i)" if k: "k < length ?ns'" "k \<noteq> root" for k
    proof (cases "k = ?new \<or> k = best \<or> k = ?mid")
      case True
      then show ?thesis using bt_kids [of cur] bt_kids [of ?mid] c bk by (auto intro: exI [of _ cur] exI [of _ ?mid])
    next
      case False
      then obtain i where "i < ?new" "k \<in> set (bt_kids ns i)" using shape_has_parent [OF shape, of k] k by auto
      then show ?thesis using bt_kids [of i] False by (intro exI [of _ i]) auto
    qed
  qed
  have same: "?ns' ! k = ns ! k" if "k \<in> set (bt_kids ns cur)" for k
    using kid [OF c(1) that] own that by (metis nth_append nth_list_update_neq less_SucI length_append_singleton)
  have data: "nd_bounds node = nd_bounds (ns ! cur)" "nd_max_order node = nd_max_order (ns ! cur)" by (simp_all add: node_def)
  have mid: "covers (bounds_union (nd_bounds (ns ! cur)) b) (nd_bounds mid)" "nd_max_order mid = max sibling order"
    using kids_ok best_kid union_mono by (auto simp: mid_def)
  have widened: "covers (bounds_union (nd_bounds (ns ! cur)) b) (nd_bounds (ns ! k))" if "k \<in> set (bt_kids ns cur)" for k
    using kids_ok that covers_trans union_covers(1) by blast
  have low: "nd_max_order (?ns' ! last placed) = nd_max_order (ns ! cur)" if low: "order \<le> nd_max_order (ns ! cur)"
  proof -
    have "\<not> nd_max_order (ns ! cur) < max sibling order" using low sibling by simp
    then have "placed = replaced" by (simp add: placed_def)
    show ?thesis
    proof (cases "p = length (bt_kids ns cur) - 1")
      case True
      have "bt_kids ns cur \<noteq> []" using two by auto
      then have "last placed = ?mid" "best = last (bt_kids ns cur)"
        using True \<open>placed = replaced\<close> best(1,2) by (auto simp: replaced_def last_conv_nth [of "bt_kids ns cur"] last_list_update)
      then show ?thesis using at_mid(1) mid(2) low kids_ok by (simp add: sibling_def max_def)
    next
      case False
      have "bt_kids ns cur \<noteq> []" using two by auto
      then have "last placed = last (bt_kids ns cur)"
        using False \<open>placed = replaced\<close> by (auto simp: replaced_def last_list_update)
      then show ?thesis using same [of "last (bt_kids ns cur)"] kids_nonempty_last [OF two] kids_ok by simp
    qed
  qed
  have high: "last placed = ?mid" if "nd_max_order (ns ! cur) < order"
  proof -
    have "nd_max_order (ns ! cur) < max sibling order" using that by simp
    then show ?thesis using best(1) last_swap_at [of p replaced] by (simp add: placed_def replaced_def)
  qed
  have "grown ?ns' b order cur"
    unfolding grown_def at_cur(1,2) data placed(2)
    using at_cur(3) kids_ok low widened same placed(1) mid at_mid(1) sibling by (auto simp: le_max_iff_disj)
  moreover have "raisable ?ns' order None cur"
    unfolding raisable_def at_cur(1,2) data using high at_mid(1) mid(2) sibling by (auto simp: max_def)
  moreover have "node_ok ?ns' ?new" unfolding node_ok_def at_new by (simp add: leaf_def)
  moreover have "node_ok ?ns' ?mid"
    using at_mid pair at_new(1) same [OF best_kid] by (subst node_ok_inner_iff) (auto simp: MAX_CHILDREN_def leaf_def mid_def sibling_def)
  ultimately have "propagable ?ns' root b order (cur # rest)"
    by (intro placed_propagable [OF shape ok path(1-3) _ agree shape']) (use path(4) at_cur(1) data less_Suc_eq in auto)
  moreover have "frame ?ns ?ns'"
  proof (rule frame_trans)
    show "frame ?ns (?ns @ [mid])" by (rule frame_append) (simp add: mid_def is_bt_leaf_def)
    show "frame (?ns @ [mid]) ?ns'"
      by (rule frame_update) (use c nth in \<open>simp_all add: inner_def node_def is_bt_leaf_def\<close>)
  qed
  ultimately show ?thesis using run by blast
qed

section \<open>The descent\<close>

lemma descend_ok:
  fixes ns :: "'u::linordered_ab_group_add bt_node list"
  defines "leaf b order \<equiv> \<lparr>nd_bounds = b, nd_max_order = order, nd_kind = Bt_Leaf order\<rparr>"
  assumes shape: "tree_shape ns root" and ok: "\<forall>j < length ns. node_ok ns j"
  shows "climbs ns root (cur # rev path) \<Longrightarrow> cur < length ns \<Longrightarrow> inner ns cur \<Longrightarrow> distinct path \<Longrightarrow>
    \<forall>j \<in> set path. j < cur \<and> inner ns j \<Longrightarrow>
    \<exists>ns' path'. descend (ns @ [leaf b order]) b order (length ns) path cur = ret (ns', path') \<and>
      propagable ns' root b order (rev path') \<and> frame (ns @ [leaf b order]) ns'"
proof (induction "length ns - cur" arbitrary: cur path rule: less_induct)
  case less
  let ?ns = "ns @ [leaf b order]" and ?bt_kids = "bt_kids ns cur"
  have c: "node_ok ns cur" using ok less.prems(2) by blast
  note kids_ok = node_ok_inner [OF c less.prems(3)]
  have kid: "k < length ns \<and> k \<noteq> root \<and> (inner ns k \<longrightarrow> cur < k)" if "k \<in> set ?bt_kids" for k
    using shape_kid [OF shape less.prems(2) that] .
  have nth: "?ns ! k = ns ! k" if "k < length ns" for k using that by (simp add: nth_append)
  have first: "0 < length ?bt_kids" using kids_ok by linarith
  then have first_kid: "?bt_kids ! 0 \<in> set ?bt_kids" by (rule nth_mem)
  have first_node: "index_or_panic ?ns (?bt_kids ! 0) = ret (ns ! (?bt_kids ! 0))" using kid [OF first_kid] nth [of "?bt_kids ! 0"] by (auto simp: panic_free)
  obtain best p where best: "best_child ?ns b 1 (drop 1 ?bt_kids) (?bt_kids ! 0) 0
      (half_perimeter (bounds_union b (nd_bounds (ns ! (?bt_kids ! 0))))) = ret (best, p)" "p < length ?bt_kids" "?bt_kids ! p = best"
    using best_child_ok [of ?bt_kids ?ns 0 "?bt_kids ! 0" b 1] first kid by fastforce
  have best_kid: "best \<in> set ?bt_kids" using best(2,3) nth_mem by blast
  note bk = kid [OF best_kid]
  have path: "set (cur # rev path) \<subseteq> {..<length ns}" "distinct (cur # rev path)" "\<forall>j \<in> set (cur # rev path). inner ns j"
    using less.prems by force+
  have step: "descend ?ns b order (length ns) path cur =
      (if is_bt_leaf (ns ! best) then
         (if length ?bt_kids < MAX_CHILDREN then do {
            nodes \<leftarrow> add_leaf_to_node ?ns b order (length ns) cur ?bt_kids; ret (nodes, path @ [cur]) }
          else do {
            nodes \<leftarrow> split_child ?ns b order (length ns) cur ?bt_kids best p; ret (nodes, path @ [cur]) })
       else descend ?ns b order (length ns) (path @ [cur]) best)"
    using less.prems(2) nth kids_ok first first_node best(1) bk
    by (subst descend.simps) (simp add: panic_free)
  show ?case
  proof (cases "is_bt_leaf (ns ! best)")
    case True
    show ?thesis
    proof (cases "length ?bt_kids < MAX_CHILDREN")
      case room: True
      obtain ns' where "add_leaf_to_node ?ns b order (length ns) cur ?bt_kids = ret ns'"
          "propagable ns' root b order (cur # rev path)" "frame ?ns ns'"
        using add_leaf_ok [OF shape ok less.prems(1) path room, of b order, folded leaf_def] by blast
      then show ?thesis using step True room by simp
    next
      case full: False
      obtain ns' where "split_child ?ns b order (length ns) cur ?bt_kids best p = ret ns'"
          "propagable ns' root b order (cur # rev path)" "frame ?ns ns'"
        using split_child_ok [OF shape ok less.prems(1) path best(2,3) True, of b order, folded leaf_def] by blast
      then show ?thesis using step True full by simp
    qed
  next
    case False
    then have inner: "inner ns best" and deeper: "cur < best" using bk by (simp_all add: inner_def)
    have "climbs ns root (best # rev (path @ [cur]))" using less.prems(1) best_kid by simp
    moreover have "distinct (path @ [cur])" using path(2) by auto
    moreover have "\<forall>j \<in> set (path @ [cur]). j < best \<and> inner ns j" using less.prems(3,5) deeper by auto
    moreover have "length ns - best < length ns - cur" using deeper bk by linarith
    ultimately show ?thesis
      using less.hyps [of best "path @ [cur]"] bk inner step False by simp
  qed
qed

section \<open>Insertion\<close>

text \<open>The state after the insertion of one leaf: same leaves, and the new one after them.\<close>

lemma insert_leaf_ok:
  fixes self :: "'u::linordered_ab_group_add bounds_tree"
  assumes "bt_root self = None \<Longrightarrow> bt_nodes self = []"
    "\<And>root. bt_root self = Some root \<Longrightarrow> tree_shape (bt_nodes self) root \<and> (\<forall>j < length (bt_nodes self). node_ok (bt_nodes self) j)"
  shows "\<exists>ns root path. insert_leaf self b order =
      ret (self\<lparr>bt_nodes := ns, bt_root := Some root, bt_insert_path := path\<rparr>, length (bt_nodes self)) \<and>
    tree_shape ns root \<and> (\<forall>j < length ns. node_ok ns j) \<and>
    frame (bt_nodes self @ [\<lparr>nd_bounds = b, nd_max_order = order, nd_kind = Bt_Leaf order\<rparr>]) ns"
proof (cases "bt_root self")
  case None
  let ?ns = "[\<lparr>nd_bounds = b, nd_max_order = order, nd_kind = Bt_Leaf order\<rparr>]"
  have "bt_nodes self = []" using assms(1) None by simp
  moreover have "tree_shape ?ns 0" by (rule tree_shapeI) (simp_all add: bt_kids_def node_kids_def)
  moreover have "node_ok ?ns 0" by (simp add: node_ok_def)
  ultimately show ?thesis using None
    by (intro exI [of _ ?ns] exI [of _ 0] exI [of _ "bt_insert_path self"]) (simp add: insert_leaf_def)
next
  case (Some root)
  let ?ns = "bt_nodes self" and ?leaf = "\<lparr>nd_bounds = b, nd_max_order = order, nd_kind = Bt_Leaf order\<rparr>"
  have shape: "tree_shape ?ns root" and ok: "\<forall>j < length ?ns. node_ok ?ns j" using assms(2) [OF Some] by blast+
  note root = shape_root [OF shape]
  show ?thesis
  proof (cases "is_bt_leaf (?ns ! root)")
    case False
    then obtain ns' path where d: "descend (?ns @ [?leaf]) b order (length ?ns) [] root = ret (ns', path)"
        "propagable ns' root b order (rev path)" "frame (?ns @ [?leaf]) ns'"
      using descend_ok [OF shape ok, of root "[]" b order] root by (auto simp: inner_def)
    obtain ns where "propagate b order (rev path) None ns' = ret ns" "tree_shape ns root" "\<forall>j < length ns. node_ok ns j" "frame ns' ns"
      using d(2) propagate_ok [of ns' root "rev path" b order None] unfolding propagable_def by blast
    then show ?thesis using Some root False d frame_trans [OF d(3)]
      by (auto simp: insert_leaf_def panic_free nth_append intro!: exI [of _ ns] exI [of _ root] exI [of _ path])
  next
    case True
    have only: "i = root" if "i < length ?ns" for i
    proof -
      have "(i, root) \<in> (below ?ns)\<^sup>*" using below_root [OF shape that] .
      then show ?thesis using below_cases [of i root ?ns] True by auto
    qed
    have "0 < length ?ns" using root by linarith
    then have "root = 0" using only by blast
    moreover have "\<not> 1 < length ?ns" using only [of 1] calculation by auto
    ultimately have len: "length ?ns = 1" "root = 0" using root by simp_all
    then obtain old where old: "?ns = [old]" by (metis One_nat_def length_0_conv length_Suc_conv)
    let ?children = "pair_children 0 (nd_max_order old) 1 order"
    let ?root = "\<lparr>nd_bounds = bounds_union (nd_bounds old) b, nd_max_order = max (nd_max_order old) order, nd_kind = Bt_Internal ?children\<rparr>"
    let ?all = "[old, ?leaf, ?root]"
    have leaf: "is_bt_leaf old" "nd_kind old = Bt_Leaf (nd_max_order old)"
      using True old len(2) node_ok_leaf [of ?ns 0] ok by auto
    have bt_kids: "bt_kids ?all 0 = []" "bt_kids ?all 1 = []" "bt_kids ?all 2 = ?children" "\<not> inner ?all 0" "\<not> inner ?all 1" "inner ?all 2"
      using leaf by (simp_all add: bt_kids_def node_kids_def inner_def is_bt_leaf_def)
    have children: "set ?children = {0, 1}" "distinct ?children" "length ?children = 2"
        "last ?children = (if order > nd_max_order old then 1 else 0)" by (auto simp: pair_children_def)
    have cases3: "i = 0 \<or> i = 1 \<or> i = 2" if "i < length ?all" for i using that by auto
    have "tree_shape ?all 2"
    proof (rule tree_shapeI)
      show "distinct (bt_kids ?all i)" if "i < length ?all" for i
        using cases3 [OF that] by (elim disjE) (simp_all only: bt_kids(1-3) children(2) distinct.simps)
      show "k < length ?all \<and> k \<noteq> 2 \<and> (inner ?all k \<longrightarrow> i < k)" if "i < length ?all" "k \<in> set (bt_kids ?all i)" for i k
      proof -
        have i: "i = 2" using cases3 [OF that(1)] that(2) bt_kids(1,2) by (metis empty_iff list.set(1))
        then have "k = 0 \<or> k = 1" using that(2) by (simp only: bt_kids(3) children(1)) blast
        then show ?thesis using bt_kids(4,5) by (elim disjE) simp_all
      qed
      show "i = j" if "i < length ?all" "j < length ?all" "k \<in> set (bt_kids ?all i)" "k \<in> set (bt_kids ?all j)" for i j k
      proof -
        have "i = 2" "j = 2" using cases3 [OF that(1)] cases3 [OF that(2)] that(3,4) bt_kids(1,2) by (metis empty_iff list.set(1))+
        then show ?thesis by simp
      qed
      show "\<exists>i < length ?all. k \<in> set (bt_kids ?all i)" if "k < length ?all" "k \<noteq> 2" for k
        using cases3 [OF that(1)] that(2) bt_kids(3) children(1) by (intro exI [of _ 2]) auto
    qed simp
    moreover have "node_ok ?all j" if "j < length ?all" for j
    proof -
      have "node_ok ?all 0" "node_ok ?all 1" using leaf by (simp_all add: node_ok_def)
      moreover have "node_ok ?all 2"
        using bt_kids children by (subst node_ok_inner_iff) (auto simp: MAX_CHILDREN_def)
      ultimately show ?thesis using cases3 [OF that] by auto
    qed
    moreover have "frame (?ns @ [?leaf]) ?all"
      using frame_append [of ?root "[old, ?leaf]"] old by (simp add: is_bt_leaf_def)
    moreover have "insert_leaf self b order =
        ret (self\<lparr>bt_nodes := ?all, bt_root := Some 2, bt_insert_path := bt_insert_path self\<rparr>, length ?ns)"
      using Some old len(2) leaf by (simp add: insert_leaf_def panic_free numeral_2_eq_2)
    ultimately show ?thesis by blast
  qed
qed

end
