(* ===== verification/Bounds_Tree_Properties.thy ===== *)
theory Bounds_Tree_Properties
  imports Bounds_Tree_Insert
begin

text \<open>
  The spatial tree refines its specification, the list of the bounds inserted so far with their orders:
  an insertion appends the new bounds with an order one above the highest of the bounds they intersect.
\<close>

lemma bt_inv_parts:
  assumes "bt_inv self"
  shows "bt_root self = None \<Longrightarrow> bt_nodes self = []"
    "bt_root self = Some root \<Longrightarrow> tree_shape (bt_nodes self) root \<and> (\<forall>j < length (bt_nodes self). node_ok (bt_nodes self) j)"
  using assms by (auto simp: bt_inv_def split: option.splits)

lemma bt_insert_ok:
  assumes inv: "bt_inv self" and low: "highest_order (bt_leaves self) b < U32_MAX"
  shows "\<exists>self'. bt_insert self b = ret (self', highest_order (bt_leaves self) b + 1) \<and> bt_inv self' \<and>
    bt_leaves self' = bt_leaves self @ [(b, highest_order (bt_leaves self) b + 1)]"
proof -
  let ?order = "highest_order (bt_leaves self) b + 1" and ?ns = "bt_nodes self"
  let ?leaf = "\<lparr>nd_bounds = b, nd_max_order = ?order, nd_kind = Bt_Leaf ?order\<rparr>"
  obtain stack where found: "find_max_ordering self b = ret (self\<lparr>bt_search_stack := stack\<rparr>, highest_order (bt_leaves self) b)"
    using find_max_ordering_ok [OF inv] by blast
  define mid where "mid = self\<lparr>bt_search_stack := stack\<rparr>"
  have mid: "bt_root mid = bt_root self" "bt_nodes mid = ?ns" "bt_max_leaf mid = bt_max_leaf self" by (simp_all add: mid_def)
  obtain ns root path where ins: "insert_leaf mid b ?order =
        ret (mid\<lparr>bt_nodes := ns, bt_root := Some root, bt_insert_path := path\<rparr>, length ?ns)"
      "tree_shape ns root" "\<forall>j < length ns. node_ok ns j" "frame (?ns @ [?leaf]) ns"
    using insert_leaf_ok [of mid b ?order] bt_inv_parts [OF inv] unfolding mid by blast
  define after where "after = mid\<lparr>bt_nodes := ns, bt_root := Some root, bt_insert_path := path\<rparr>"
  have longer: "length ?ns < length ns" using ins(4) by (simp add: frame_def)
  have new: "ns ! length ?ns = ?leaf" using ins(4) by (auto simp: frame_def is_bt_leaf_def dest!: spec [of _ "length ?ns"])
  have old: "ns ! l = ?ns ! l" if "l < length ?ns" "is_bt_leaf (?ns ! l)" for l
    using ins(4) that by (auto simp: frame_def nth_append dest!: spec [of _ l])
  have leaf: "l = length ?ns \<or> l < length ?ns \<and> is_bt_leaf (?ns ! l)" if "l < length ns" "is_bt_leaf (ns ! l)" for l
    using ins(4) that by (cases "l < length ?ns"; cases "l = length ?ns") (auto simp: frame_def inner_def nth_append dest!: spec [of _ l])
  define max_leaf where "max_leaf = (case bt_max_leaf self of None \<Rightarrow> length ?ns
    | Some m \<Rightarrow> if nd_max_order (?ns ! m) < ?order then length ?ns else m)"
  have m: "m < length ?ns \<and> is_bt_leaf (?ns ! m) \<and> (\<forall>l < length ?ns. is_bt_leaf (?ns ! l) \<longrightarrow> nd_max_order (?ns ! l) \<le> nd_max_order (?ns ! m))"
    if "bt_max_leaf self = Some m" for m using inv that by (auto simp: bt_inv_def split: option.splits)
  have none: "?ns = []" if "bt_max_leaf self = None" using inv that by (auto simp: bt_inv_def split: option.splits)
  let ?self = "after\<lparr>bt_max_leaf := Some max_leaf\<rparr>"
  have "bt_insert self b = ret (?self, ?order)"
    using found low ins(1) m longer old
    by (cases "bt_max_leaf self") (auto simp: bt_insert_def mid_def after_def max_leaf_def panic_free)
  moreover have "bt_inv ?self"
  proof -
    have new_leaf: "is_bt_leaf (ns ! length ?ns)" "nd_max_order (ns ! length ?ns) = ?order" by (simp_all add: new is_bt_leaf_def)
    have "max_leaf < length ns \<and> is_bt_leaf (ns ! max_leaf)"
      using longer new_leaf(1) m old by (auto simp: max_leaf_def split: option.splits)
    moreover have "nd_max_order (ns ! l) \<le> nd_max_order (ns ! max_leaf)" if l: "l < length ns" "is_bt_leaf (ns ! l)" for l
    proof (cases "bt_max_leaf self")
      case None
      then show ?thesis using leaf [OF l] none by (auto simp: max_leaf_def)
    next
      case (Some k)
      note k = m [OF Some]
      have "nd_max_order (ns ! max_leaf) = max ?order (nd_max_order (?ns ! k))"
        using Some k old new_leaf(2) by (auto simp: max_leaf_def max_def not_less)
      moreover have "nd_max_order (ns ! l) \<le> max ?order (nd_max_order (?ns ! k))"
        using leaf [OF l] k old new_leaf(2) by (auto simp: le_max_iff_disj)
      ultimately show ?thesis by simp
    qed
    ultimately show ?thesis using ins(2,3) by (simp add: bt_inv_def after_def)
  qed
  moreover have "bt_leaves ?self = bt_leaves self @ [(b, ?order)]"
    using frame_leaves [OF ins(4)] by (simp add: bt_leaves_def after_def is_bt_leaf_def)
  ultimately show ?thesis by blast
qed

section \<open>A paint pass\<close>

text \<open>Bounds inserted one after the other, and the specification of the orders they get.\<close>

fun bt_insert_all :: "'u::linordered_ab_group_add bounds_tree \<Rightarrow> 'u bounds list \<Rightarrow> ('u bounds_tree \<times> nat list) rust" where
  "bt_insert_all self [] = ret (self, [])"
| "bt_insert_all self (b # bs) = do {
     one \<leftarrow> bt_insert self b;
     rest \<leftarrow> bt_insert_all (fst one) bs;
     ret (fst rest, snd one # snd rest) }"

fun orders_after :: "('u::linordered_ab_group_add bounds \<times> nat) list \<Rightarrow> 'u bounds list \<Rightarrow> nat list" where
  "orders_after leaves [] = []"
| "orders_after leaves (b # bs) = (let order = highest_order leaves b + 1 in order # orders_after (leaves @ [(b, order)]) bs)"

lemma highest_order_le: "\<forall>(b, o') \<in> set leaves. o' \<le> n \<Longrightarrow> highest_order leaves query \<le> n"
  unfolding highest_order_def by (subst Max_le_iff) auto

lemma highest_order_ge: "(b, o') \<in> set leaves \<Longrightarrow> intersects query b \<Longrightarrow> o' \<le> highest_order leaves query"
  unfolding highest_order_def by (rule Max_ge) force+

lemma bt_insert_all_ok:
  "bt_inv self \<Longrightarrow> \<forall>(b, o') \<in> set (bt_leaves self). o' \<le> length (bt_leaves self) \<Longrightarrow> length (bt_leaves self) + length bs \<le> U32_MAX \<Longrightarrow>
     \<exists>self'. bt_insert_all self bs = ret (self', orders_after (bt_leaves self) bs) \<and> bt_inv self' \<and>
       bt_leaves self' = bt_leaves self @ zip bs (orders_after (bt_leaves self) bs)"
proof (induction bs arbitrary: self)
  case (Cons b bs)
  let ?order = "highest_order (bt_leaves self) b + 1"
  have le: "highest_order (bt_leaves self) b \<le> length (bt_leaves self)" using highest_order_le [OF Cons.prems(2)] .
  then obtain mid where mid: "bt_insert self b = ret (mid, ?order)" "bt_inv mid" "bt_leaves mid = bt_leaves self @ [(b, ?order)]"
    using bt_insert_ok [OF Cons.prems(1), of b] Cons.prems(3) by auto
  have "\<forall>(b, o') \<in> set (bt_leaves mid). o' \<le> length (bt_leaves mid)" using mid(3) le Cons.prems(2) by fastforce
  then obtain self' where "bt_insert_all mid bs = ret (self', orders_after (bt_leaves mid) bs)" "bt_inv self'"
      "bt_leaves self' = bt_leaves mid @ zip bs (orders_after (bt_leaves mid) bs)"
    using Cons.IH [OF mid(2)] mid(3) Cons.prems(3) by auto
  then show ?case using mid by simp
qed simp

lemma length_orders_after [simp]: "length (orders_after leaves bs) = length bs"
  by (induction bs arbitrary: leaves) simp_all

lemma orders_after_nth:
  "j < length bs \<Longrightarrow> orders_after leaves bs ! j = highest_order (leaves @ take j (zip bs (orders_after leaves bs))) (bs ! j) + 1"
proof (induction bs arbitrary: leaves j)
  case (Cons b bs)
  then show ?case by (cases j) simp_all
qed simp

lemma bt_inv_default: "bt_inv bt_default" "bt_leaves bt_default = []"
  by (simp_all add: bt_inv_def bt_default_def bt_leaves_def)

text \<open>C37: inserting bounds one after the other into an empty tree never panics, up to as many as \<open>u32\<close> has
  orders, and keeps the invariant of the tree; each gets the order one above the highest order of the
  earlier ones it intersects, so of two bounds that intersect the later one is painted on top.\<close>

theorem paint_orders:
  assumes "length bs \<le> U32_MAX"
  shows "\<exists>self orders. bt_insert_all bt_default bs = ret (self, orders) \<and> bt_inv self \<and> bt_leaves self = zip bs orders \<and>
    length orders = length bs \<and>
    (\<forall>j < length bs. orders ! j = highest_order (take j (zip bs orders)) (bs ! j) + 1) \<and>
    (\<forall>i j. i < j \<and> j < length bs \<and> intersects (bs ! j) (bs ! i) \<longrightarrow> orders ! i < orders ! j)"
proof -
  let ?orders = "orders_after [] bs"
  obtain self where self: "bt_insert_all bt_default bs = ret (self, ?orders)" "bt_inv self" "bt_leaves self = zip bs ?orders"
    using bt_insert_all_ok [OF bt_inv_default(1), of bs] assms by (auto simp: bt_inv_default(2))
  have orders: "?orders ! j = highest_order (take j (zip bs ?orders)) (bs ! j) + 1" if "j < length bs" for j
    using orders_after_nth [OF that, of "[]"] by simp
  have "?orders ! i < ?orders ! j" if "i < j" "j < length bs" "intersects (bs ! j) (bs ! i)" for i j
  proof -
    have "(bs ! i, ?orders ! i) \<in> set (take j (zip bs ?orders))"
      using that by (auto simp: in_set_conv_nth intro!: exI [of _ i])
    from highest_order_ge [OF this that(3)] show ?thesis using orders [OF that(2)] by simp
  qed
  then show ?thesis using self orders by (intro exI [of _ self] exI [of _ ?orders]) auto
qed

theorem paint_orders_witness:
  "\<exists>self orders. bt_insert_all bt_default [bounds_new (mk_point 0 0) (mk_size 10 10), bounds_new (mk_point 5 5) (mk_size 10 (10::int))] =
      ret (self, orders) \<and> bt_inv self \<and> orders ! 0 < orders ! 1"
  using paint_orders [of "[bounds_new (mk_point 0 0) (mk_size 10 10), bounds_new (mk_point 5 5) (mk_size 10 (10::int))]"]
  by (fastforce simp: U32_MAX_def bounds_new_def mk_point_def mk_size_def intersects_def bottom_right_def)

end
