(* ===== verification/Subscriptions.thy ===== *)
theory Subscriptions
  imports Prelude
begin

text \<open>
  \<open>gpui/src/subscription.rs\<close>: sets of subscribers, and the handles that cancel them. The state is shared
  (\<open>Rc<RefCell<..>>\<close>), so every operation takes it and returns it. The two cells of a subscriber are named
  by its id, which is never used twice: the state holds the ids whose \<open>active\<close> and \<open>dropped\<close> cell is true.
  A \<open>BTreeMap\<close> is the list of its entries in key order. The callbacks a \<open>retain\<close> runs are an argument that
  may change the state: they can use the same set again.
\<close>

section \<open>Ordered maps\<close>

fun bm_insert :: "'k::linorder \<Rightarrow> 'v \<Rightarrow> ('k \<times> 'v) list \<Rightarrow> ('k \<times> 'v) list" where
  "bm_insert k v [] = [(k, v)]"
| "bm_insert k v ((k', v') # m) =
     (if k < k' then (k, v) # (k', v') # m else if k = k' then (k, v) # m else (k', v') # bm_insert k v m)"

definition bm_remove :: "'k \<Rightarrow> ('k \<times> 'v) list \<Rightarrow> ('k \<times> 'v) list" where
  "bm_remove k m = filter (\<lambda>(k', _). k' \<noteq> k) m"

definition bm_extend :: "('k::linorder \<times> 'v) list \<Rightarrow> ('k \<times> 'v) list \<Rightarrow> ('k \<times> 'v) list" where
  "bm_extend m entries = foldl (\<lambda>m (k, v). bm_insert k v m) m entries"

section \<open>The set\<close>

record ('k, 'c) subscriber_set =
  ss_subscribers :: "'k \<Rightarrow> (nat \<times> 'c) list option option"
  ss_next_id :: nat
  ss_active :: "nat set"
  ss_dropped :: "nat set"

definition subscriber_set_new :: "('k, 'c) subscriber_set" where
  "subscriber_set_new = \<lparr>ss_subscribers = (\<lambda>_. None), ss_next_id = 0, ss_active = {}, ss_dropped = {}\<rparr>"

text \<open>\<open>insert\<close>: the subscriber is inactive until its id is activated.\<close>

definition ss_insert :: "'k \<Rightarrow> 'c \<Rightarrow> ('k, 'c) subscriber_set \<Rightarrow> ('k, 'c) subscriber_set \<times> nat" where
  "ss_insert emitter callback self = (
     let subscriber_id = ss_next_id self;
         entry = (case ss_subscribers self emitter of Some slot \<Rightarrow> slot | None \<Rightarrow> None);
         subscribers = (case entry of Some m \<Rightarrow> m | None \<Rightarrow> [])
     in (self\<lparr>ss_next_id := subscriber_id + 1,
              ss_subscribers := (ss_subscribers self)(emitter := Some (Some (bm_insert subscriber_id callback subscribers)))\<rparr>,
         subscriber_id))"

definition ss_activate :: "nat \<Rightarrow> ('k, 'c) subscriber_set \<Rightarrow> ('k, 'c) subscriber_set" where
  "ss_activate subscriber_id self = self\<lparr>ss_active := insert subscriber_id (ss_active self)\<rparr>"

text \<open>The closure the subscription of an inserted subscriber runs when it is dropped.\<close>

definition ss_unsubscribe :: "'k \<Rightarrow> nat \<Rightarrow> ('k, 'c) subscriber_set \<Rightarrow> ('k, 'c) subscriber_set" where
  "ss_unsubscribe emitter subscriber_id self = (
     let self = self\<lparr>ss_dropped := insert subscriber_id (ss_dropped self)\<rparr> in
     case ss_subscribers self emitter of
       None \<Rightarrow> self
     | Some None \<Rightarrow> self
     | Some (Some subscribers) \<Rightarrow>
         (let subscribers = bm_remove subscriber_id subscribers in
          self\<lparr>ss_subscribers := (ss_subscribers self)(emitter :=
            (if subscribers = [] then None else Some (Some subscribers)))\<rparr>))"

text \<open>\<open>remove\<close> gives an iterator: what is yielded is decided when it is reached.\<close>

definition ss_remove :: "'k \<Rightarrow> ('k, 'c) subscriber_set \<Rightarrow> ('k, 'c) subscriber_set \<times> (nat \<times> 'c) list" where
  "ss_remove emitter self =
     (self\<lparr>ss_subscribers := (ss_subscribers self)(emitter := None)\<rparr>,
      case ss_subscribers self emitter of Some (Some subscribers) \<Rightarrow> subscribers | _ \<Rightarrow> [])"

fun removed_next :: "(nat \<times> 'c) list \<Rightarrow> ('k, 'c) subscriber_set \<Rightarrow> ('c \<times> (nat \<times> 'c) list) option" where
  "removed_next [] self = None"
| "removed_next ((subscriber_id, callback) # rest) self =
     (if subscriber_id \<in> ss_active self then Some (callback, rest) else removed_next rest self)"

text \<open>The loop of \<open>retain\<close> over the subscribers it has taken out.\<close>

fun retain_subscribers ::
  "('c \<Rightarrow> ('k, 'c) subscriber_set \<Rightarrow> ('k, 'c) subscriber_set \<times> 'c \<times> bool) \<Rightarrow> (nat \<times> 'c) list \<Rightarrow> ('k, 'c) subscriber_set \<Rightarrow>
   ('k, 'c) subscriber_set \<times> (nat \<times> 'c) list" where
  "retain_subscribers f [] self = (self, [])"
| "retain_subscribers f ((subscriber_id, callback) # rest) self =
     (if subscriber_id \<notin> ss_active self then
        (let (self, kept) = retain_subscribers f rest self in (self, (subscriber_id, callback) # kept))
      else if subscriber_id \<in> ss_dropped self then retain_subscribers f rest self
      else
        (let (self, callback, keep) = f callback self;
             stays = (keep \<and> subscriber_id \<notin> ss_dropped self);
             (self, kept) = retain_subscribers f rest self
         in (self, if stays then (subscriber_id, callback) # kept else kept)))"

definition ss_retain ::
  "('c \<Rightarrow> ('k, 'c) subscriber_set \<Rightarrow> ('k, 'c) subscriber_set \<times> 'c \<times> bool) \<Rightarrow> 'k \<Rightarrow> ('k, 'c) subscriber_set \<Rightarrow> ('k, 'c) subscriber_set" where
  "ss_retain f emitter self =
     (case ss_subscribers self emitter of
        Some (Some subscribers) \<Rightarrow>
          (let (self, subscribers) =
                 retain_subscribers f subscribers (self\<lparr>ss_subscribers := (ss_subscribers self)(emitter := Some None)\<rparr>);
               subscribers = (case ss_subscribers self emitter of
                   Some (Some new_subscribers) \<Rightarrow> bm_extend subscribers new_subscribers
                 | _ \<Rightarrow> subscribers)
           in self\<lparr>ss_subscribers := (ss_subscribers self)(emitter :=
                (if subscribers = [] then None else Some (Some subscribers)))\<rparr>)
      | _ \<Rightarrow> self)"

section \<open>Handles\<close>

text \<open>A \<open>Subscription\<close> over some state \<open>'w\<close> is what it still has to run when it is dropped.\<close>

type_synonym 'w subscription = "('w \<Rightarrow> 'w) option"

definition subscription_new :: "('w \<Rightarrow> 'w) \<Rightarrow> 'w subscription" where
  "subscription_new unsubscribe = Some unsubscribe"

definition subscription_drop :: "'w subscription \<Rightarrow> 'w \<Rightarrow> 'w" where
  "subscription_drop self w = (case self of Some unsubscribe \<Rightarrow> unsubscribe w | None \<Rightarrow> w)"

definition subscription_detach :: "'w subscription \<Rightarrow> 'w \<Rightarrow> 'w" where
  "subscription_detach self w = (let self = None in subscription_drop self w)"

definition subscription_join :: "'w subscription \<Rightarrow> 'w subscription \<Rightarrow> 'w subscription" where
  "subscription_join a b = Some (\<lambda>w.
     let w = (case a of Some self_unsubscribe \<Rightarrow> self_unsubscribe w | None \<Rightarrow> w)
     in case b of Some other_unsubscribe \<Rightarrow> other_unsubscribe w | None \<Rightarrow> w)"

end
