(* ===== verification/Subscription_Properties.thy ===== *)
theory Subscription_Properties
  imports Subscriptions
begin

text \<open>
  What a subscriber set promises while its callbacks use it themselves: the state stays well formed,
  subscribers added in a \<open>retain\<close> wait for the next one, and the callback of a dropped subscription does
  not run. The last holds for \<open>retain\<close> only, not for the iterator of \<open>remove\<close>.
\<close>

section \<open>Ordered maps\<close>

definition bm_sorted :: "('k::linorder \<times> 'v) list \<Rightarrow> bool" where
  "bm_sorted m \<longleftrightarrow> sorted_wrt (<) (map fst m)"

lemma set_bm_insert: "fst ` set (bm_insert k v m) = insert k (fst ` set m)"
  by (induction k v m rule: bm_insert.induct) (simp_all add: insert_commute)

lemma bm_sorted_insert: "bm_sorted m \<Longrightarrow> bm_sorted (bm_insert k v m)"
proof (induction m)
  case (Cons kv m)
  then show ?case using set_bm_insert [of k v m] by (cases kv) (auto simp: bm_sorted_def)
qed (simp add: bm_sorted_def)

lemma bm_insert_last: "\<forall>k' \<in> fst ` set m. k' < k \<Longrightarrow> bm_insert k v m = m @ [(k, v)]"
  by (induction m) (auto simp: not_less)

lemma bm_sorted_filter: "bm_sorted m \<Longrightarrow> bm_sorted (filter P m)"
  by (induction m) (auto simp: bm_sorted_def)

lemma bm_sorted_remove: "bm_sorted m \<Longrightarrow> bm_sorted (bm_remove k m)"
  unfolding bm_remove_def by (rule bm_sorted_filter)

lemma bm_extend_append:
  assumes "bm_sorted new" "\<forall>k \<in> fst ` set m. \<forall>k' \<in> fst ` set new. k < k'"
  shows "bm_extend m new = m @ new"
  using assms
proof (induction new arbitrary: m)
  case (Cons kv new)
  obtain k v where kv: "kv = (k, v)" by (cases kv)
  have "bm_insert k v m = m @ [(k, v)]" using Cons.prems(2) kv by (intro bm_insert_last) auto
  then have "bm_extend m (kv # new) = bm_extend (m @ [(k, v)]) new" by (simp add: bm_extend_def kv)
  also have "\<dots> = (m @ [(k, v)]) @ new"
    using Cons.prems kv by (intro Cons.IH) (auto simp: bm_sorted_def)
  finally show ?case by (simp add: kv)
qed (simp add: bm_extend_def)

lemma set_bm_extend: "fst ` set (bm_extend m new) = fst ` set m \<union> fst ` set new"
proof (induction new arbitrary: m)
  case (Cons kv new)
  have "bm_extend m (kv # new) = bm_extend (bm_insert (fst kv) (snd kv) m) new" by (simp add: bm_extend_def split_beta)
  then show ?case by (simp add: Cons.IH set_bm_insert)
qed (simp add: bm_extend_def)

section \<open>Well-formed sets\<close>

definition ss_entries :: "('k, 'c) subscriber_set \<Rightarrow> 'k \<Rightarrow> (nat \<times> 'c) list" where
  "ss_entries self emitter = (case ss_subscribers self emitter of Some (Some m) \<Rightarrow> m | _ \<Rightarrow> [])"

definition ss_ids :: "('k, 'c) subscriber_set \<Rightarrow> 'k \<Rightarrow> nat set" where
  "ss_ids self emitter = fst ` set (ss_entries self emitter)"

text \<open>
  Ids are used once, in order, at one emitter; no map is empty, and none is missing except at the
  emitters whose \<open>retain\<close> is running.
\<close>

definition ss_inv :: "'k set \<Rightarrow> ('k, 'c) subscriber_set \<Rightarrow> bool" where
  "ss_inv running self \<longleftrightarrow>
     (\<forall>k. ss_subscribers self k \<noteq> Some (Some []) \<and> (k \<notin> running \<longrightarrow> ss_subscribers self k \<noteq> Some None)) \<and>
     (\<forall>k. bm_sorted (ss_entries self k) \<and> ss_ids self k \<subseteq> {..<ss_next_id self}) \<and>
     (\<forall>k k'. k \<noteq> k' \<longrightarrow> ss_ids self k \<inter> ss_ids self k' = {})"

lemma ss_inv_new: "ss_inv {} subscriber_set_new"
  by (simp add: ss_inv_def subscriber_set_new_def ss_entries_def ss_ids_def bm_sorted_def)

lemma ss_entries_insert:
  "ss_entries (fst (ss_insert e c self)) k = (if k = e then bm_insert (ss_next_id self) c (ss_entries self e) else ss_entries self k)"
  by (auto simp: ss_insert_def ss_entries_def split: option.splits)

lemma bm_insert_not_Nil [simp]: "bm_insert k v m \<noteq> []"
  by (induction k v m rule: bm_insert.induct) simp_all

lemma ss_inv_lt: "ss_inv running self \<Longrightarrow> i \<in> ss_ids self k \<Longrightarrow> i < ss_next_id self"
  unfolding ss_inv_def by blast

lemma ss_inv_emitter: "ss_inv running self \<Longrightarrow> i \<in> ss_ids self k \<Longrightarrow> i \<in> ss_ids self k' \<Longrightarrow> k = k'"
  unfolding ss_inv_def by blast

lemma ss_inv_insert: "ss_inv running self \<Longrightarrow> ss_inv running (fst (ss_insert e c self))"
proof -
  assume inv: "ss_inv running self"
  have ids: "ss_ids (fst (ss_insert e c self)) k = (if k = e then insert (ss_next_id self) (ss_ids self e) else ss_ids self k)" for k
    by (simp add: ss_ids_def ss_entries_insert set_bm_insert)
  have "ss_next_id self \<notin> ss_ids self k" for k using inv by (auto simp: ss_inv_def)
  then have "k \<noteq> k' \<longrightarrow> ss_ids (fst (ss_insert e c self)) k \<inter> ss_ids (fst (ss_insert e c self)) k' = {}" for k k'
    using inv unfolding ids ss_inv_def by (auto split: if_splits)
  moreover have "bm_sorted (ss_entries (fst (ss_insert e c self)) k)" for k
    using inv by (simp add: ss_entries_insert ss_inv_def bm_sorted_insert)
  moreover have "ss_ids (fst (ss_insert e c self)) k \<subseteq> {..<ss_next_id (fst (ss_insert e c self))}" for k
  proof
    fix i assume "i \<in> ss_ids (fst (ss_insert e c self)) k"
    then have "i = ss_next_id self \<or> i < ss_next_id self" using ss_inv_lt [OF inv, of i] unfolding ids by (auto split: if_splits)
    then show "i \<in> {..<ss_next_id (fst (ss_insert e c self))}" by (auto simp: ss_insert_def)
  qed
  moreover have "ss_subscribers (fst (ss_insert e c self)) k \<noteq> Some (Some []) \<and>
      (k \<notin> running \<longrightarrow> ss_subscribers (fst (ss_insert e c self)) k \<noteq> Some None)" for k
    using inv by (auto simp: ss_inv_def ss_insert_def)
  ultimately show ?thesis unfolding ss_inv_def by blast
qed

text \<open>The other operations take entries away.\<close>

lemma ss_inv_shrink:
  assumes "ss_inv running self" "ss_next_id self' = ss_next_id self"
    "\<And>k. ss_subscribers self' k \<noteq> Some (Some []) \<and> (k \<notin> running \<longrightarrow> ss_subscribers self' k \<noteq> Some None)"
    "\<And>k. \<exists>P. ss_entries self' k = filter P (ss_entries self k)"
  shows "ss_inv running self'"
proof -
  have less: "ss_ids self' k \<subseteq> ss_ids self k" for k using assms(4) [of k] by (auto simp: ss_ids_def)
  have sorted: "bm_sorted (ss_entries self' k)" for k
    using assms(4) [of k] bm_sorted_filter assms(1) unfolding ss_inv_def by metis
  show ?thesis
    unfolding ss_inv_def
  proof (intro conjI allI impI)
    show "ss_ids self' k \<subseteq> {..<ss_next_id self'}" for k
      using less [of k] ss_inv_lt [OF assms(1), of _ k] assms(2) by auto
    show "ss_ids self' k \<inter> ss_ids self' k' = {}" if "k \<noteq> k'" for k k'
      using less [of k] less [of k'] ss_inv_emitter [OF assms(1)] that by blast
  qed (use assms(3) sorted in blast)+
qed

lemma ss_inv_activate: "ss_inv running self \<Longrightarrow> ss_inv running (ss_activate i self)"
  by (simp add: ss_inv_def ss_activate_def ss_entries_def ss_ids_def)

lemma ss_entries_unsubscribe:
  "ss_entries (ss_unsubscribe e i self) k = (if k = e then bm_remove i (ss_entries self e) else ss_entries self k)"
  by (auto simp: ss_unsubscribe_def ss_entries_def bm_remove_def split: option.splits)

lemma filter_True_id: "filter (\<lambda>_. True) xs = xs"
  by simp

lemma ss_inv_unsubscribe: "ss_inv running self \<Longrightarrow> ss_inv running (ss_unsubscribe e i self)"
proof (rule ss_inv_shrink)
  assume inv: "ss_inv running self"
  show "ss_subscribers (ss_unsubscribe e i self) k \<noteq> Some (Some []) \<and>
      (k \<notin> running \<longrightarrow> ss_subscribers (ss_unsubscribe e i self) k \<noteq> Some None)" for k
    using inv by (auto simp: ss_inv_def ss_unsubscribe_def split: option.splits)
  show "\<exists>P. ss_entries (ss_unsubscribe e i self) k = filter P (ss_entries self k)" for k
    by (metis (no_types) ss_entries_unsubscribe bm_remove_def filter_True_id)
qed (auto simp: ss_unsubscribe_def split: option.splits)

lemma ss_entries_remove: "ss_entries (fst (ss_remove e self)) k = (if k = e then [] else ss_entries self k)"
  by (simp add: ss_remove_def ss_entries_def)

lemma ss_inv_remove: "ss_inv running self \<Longrightarrow> ss_inv running (fst (ss_remove e self))"
proof (rule ss_inv_shrink)
  show "\<exists>P. ss_entries (fst (ss_remove e self)) k = filter P (ss_entries self k)" for k
    by (metis ss_entries_remove filter_True_id filter_False)
qed (auto simp: ss_remove_def ss_inv_def)

section \<open>What callbacks can do\<close>

text \<open>A callback uses the set through its operations, in any order; this includes another \<open>retain\<close>, of the same or of
  another emitter, with callbacks that do so in turn.\<close>

inductive ss_step :: "('k, 'c) subscriber_set \<Rightarrow> ('k, 'c) subscriber_set \<Rightarrow> bool" where
  insert: "ss_step self (fst (ss_insert e c self))"
| activate: "ss_step self (ss_activate i self)"
| unsubscribe: "ss_step self (ss_unsubscribe e i self)"
| remove: "ss_step self (fst (ss_remove e self))"
| retain: "(\<forall>c st. ss_step\<^sup>*\<^sup>* st (fst (f c st))) \<Longrightarrow> ss_step self (ss_retain f e self)"

definition well_behaved :: "('c \<Rightarrow> ('k, 'c) subscriber_set \<Rightarrow> ('k, 'c) subscriber_set \<times> 'c \<times> bool) \<Rightarrow> bool" where
  "well_behaved f \<longleftrightarrow> (\<forall>c self. ss_step\<^sup>*\<^sup>* self (fst (f c self)))"

text \<open>Along the steps ids grow, cells stay set and only fresh subscribers appear.\<close>

definition ss_grows :: "('k, 'c) subscriber_set \<Rightarrow> ('k, 'c) subscriber_set \<Rightarrow> bool" where
  "ss_grows self self' \<longleftrightarrow> ss_next_id self \<le> ss_next_id self' \<and> ss_active self \<subseteq> ss_active self' \<and> ss_dropped self \<subseteq> ss_dropped self' \<and>
     (\<forall>k i. i \<in> ss_ids self' k \<longrightarrow> i \<in> ss_ids self k \<or> ss_next_id self \<le> i)"

lemma ss_grows_refl [simp]: "ss_grows self self"
  by (simp add: ss_grows_def)

lemma ss_grows_trans: "ss_grows a b \<Longrightarrow> ss_grows b c \<Longrightarrow> ss_grows a c"
  unfolding ss_grows_def by (meson le_trans order_trans)

lemma ss_grows_ids: "ss_grows self self' \<Longrightarrow> i \<in> ss_ids self' k \<Longrightarrow> i \<in> ss_ids self k \<or> ss_next_id self \<le> i"
  unfolding ss_grows_def by blast

lemma insert_grows: "ss_grows self (fst (ss_insert e c self))"
  by (auto simp: ss_grows_def ss_ids_def ss_entries_insert set_bm_insert) (simp_all add: ss_insert_def)

lemma activate_grows: "ss_grows self (ss_activate i self)"
  by (auto simp: ss_grows_def ss_activate_def ss_ids_def ss_entries_def)

lemma unsubscribe_grows: "ss_grows self (ss_unsubscribe e i self)"
proof -
  have "ss_next_id (ss_unsubscribe e i self) = ss_next_id self \<and> ss_active (ss_unsubscribe e i self) = ss_active self \<and>
      ss_dropped (ss_unsubscribe e i self) = insert i (ss_dropped self)"
    by (auto simp: ss_unsubscribe_def split: option.splits)
  then show ?thesis by (auto simp: ss_grows_def ss_ids_def ss_entries_unsubscribe bm_remove_def)
qed

lemma remove_grows: "ss_grows self (fst (ss_remove e self))"
  by (auto simp: ss_grows_def ss_ids_def ss_entries_remove) (simp_all add: ss_remove_def)

text \<open>A step that is fine for the loop of \<open>retain\<close>, whichever emitters are being visited; the operations are, and so is
  \<open>retain\<close> with callbacks that are.\<close>

definition ss_fine :: "('k, 'c) subscriber_set \<Rightarrow> ('k, 'c) subscriber_set \<Rightarrow> bool" where
  "ss_fine self self' \<longleftrightarrow> ss_grows self self' \<and> (\<forall>running. ss_inv running self \<longrightarrow> ss_inv running self')"

lemma ss_fine_refl [simp]: "ss_fine self self"
  by (simp add: ss_fine_def)

lemma ss_fine_trans: "ss_fine a b \<Longrightarrow> ss_fine b c \<Longrightarrow> ss_fine a c"
  unfolding ss_fine_def by (blast intro: ss_grows_trans)

lemma ss_fine_operations:
  "ss_fine self (fst (ss_insert e c self))" "ss_fine self (ss_activate i self)" "ss_fine self (ss_unsubscribe e i self)"
  "ss_fine self (fst (ss_remove e self))"
  unfolding ss_fine_def
  by (simp_all add: insert_grows activate_grows unsubscribe_grows remove_grows ss_inv_insert ss_inv_activate ss_inv_unsubscribe ss_inv_remove)

section \<open>The loop of \<open>retain\<close>\<close>

text \<open>What \<open>retain\<close> is to do with a subscriber whose turn it is: the callback of one that is active and not dropped runs;
  one that is not active stays as it is; one that is active stays if it is not dropped, its callback says so, and
  it has not been dropped meanwhile.\<close>

definition may_run :: "nat \<times> 'c \<Rightarrow> ('k, 'c) subscriber_set \<Rightarrow> bool" where
  "may_run entry st \<longleftrightarrow> fst entry \<in> ss_active st \<and> fst entry \<notin> ss_dropped st"

definition visit ::
  "('c \<Rightarrow> ('k, 'c) subscriber_set \<Rightarrow> ('k, 'c) subscriber_set \<times> 'c \<times> bool) \<Rightarrow> nat \<times> 'c \<Rightarrow> ('k, 'c) subscriber_set \<Rightarrow> ('k, 'c) subscriber_set" where
  "visit f entry st = (if may_run entry st then fst (f (snd entry) st) else st)"

definition callback_after ::
  "('c \<Rightarrow> ('k, 'c) subscriber_set \<Rightarrow> ('k, 'c) subscriber_set \<times> 'c \<times> bool) \<Rightarrow> nat \<times> 'c \<Rightarrow> ('k, 'c) subscriber_set \<Rightarrow> 'c" where
  "callback_after f entry st = (if may_run entry st then fst (snd (f (snd entry) st)) else snd entry)"

definition stays_in ::
  "('c \<Rightarrow> ('k, 'c) subscriber_set \<Rightarrow> ('k, 'c) subscriber_set \<times> 'c \<times> bool) \<Rightarrow> nat \<times> 'c \<Rightarrow> ('k, 'c) subscriber_set \<Rightarrow> bool" where
  "stays_in f entry st \<longleftrightarrow> fst entry \<notin> ss_active st \<or>
     may_run entry st \<and> snd (snd (f (snd entry) st)) \<and> fst entry \<notin> ss_dropped (visit f entry st)"

text \<open>The state when it is the turn of the \<open>n\<close>th, and the subscribers that stay.\<close>

definition turn ::
  "('c \<Rightarrow> ('k, 'c) subscriber_set \<Rightarrow> ('k, 'c) subscriber_set \<times> 'c \<times> bool) \<Rightarrow> (nat \<times> 'c) list \<Rightarrow> ('k, 'c) subscriber_set \<Rightarrow> nat \<Rightarrow>
   ('k, 'c) subscriber_set" where
  "turn f entries start n = fold (visit f) (take n entries) start"

definition staying ::
  "('c \<Rightarrow> ('k, 'c) subscriber_set \<Rightarrow> ('k, 'c) subscriber_set \<times> 'c \<times> bool) \<Rightarrow> (nat \<times> 'c) list \<Rightarrow> ('k, 'c) subscriber_set \<Rightarrow> (nat \<times> 'c) list" where
  "staying f entries start =
     [(fst (entries ! n), callback_after f (entries ! n) (turn f entries start n)).
        n \<leftarrow> [0..<length entries], stays_in f (entries ! n) (turn f entries start n)]"

definition retain_start :: "'k \<Rightarrow> ('k, 'c) subscriber_set \<Rightarrow> ('k, 'c) subscriber_set" where
  "retain_start e self = self\<lparr>ss_subscribers := (ss_subscribers self)(e := map_option (\<lambda>_. None) (ss_subscribers self e))\<rparr>"

lemma staying_Nil [simp]: "staying f [] start = []"
  by (simp add: staying_def)

lemma staying_Cons:
  "staying f (x # xs) start =
     (if stays_in f x start then [(fst x, callback_after f x start)] else []) @ staying f xs (visit f x start)"
proof -
  have "[0..<length (x # xs)] = 0 # map Suc [0..<length xs]" by (simp add: upt_conv_Cons map_Suc_upt del: upt_Suc)
  then show ?thesis unfolding staying_def by (simp add: turn_def comp_def del: upt_Suc cong: if_cong)
qed

lemma retain_loop: "retain_subscribers f items self = (fold (visit f) items self, staying f items self)"
proof (induction items arbitrary: self)
  case (Cons item items)
  obtain i c where item: "item = (i, c)" by (cases item)
  obtain mid c' keep where "f c self = (mid, c', keep)" by (cases "f c self")
  then show ?case using Cons.IH
    by (auto simp: item staying_Cons visit_def may_run_def stays_in_def callback_after_def)
qed simp

lemma staying_ids: "fst ` set (staying f items self) \<subseteq> fst ` set items"
  by (induction items arbitrary: self) (auto simp: staying_Cons split: if_splits)

lemma staying_sorted: "bm_sorted items \<Longrightarrow> bm_sorted (staying f items self)"
proof (induction items arbitrary: self)
  case (Cons item items)
  then have "bm_sorted (staying f items (visit f item self))" "\<forall>i \<in> fst ` set items. fst item < i" by (auto simp: bm_sorted_def)
  moreover from this(2) have "\<forall>i \<in> fst ` set (staying f items (visit f item self)). fst item < i"
    using staying_ids [of f items "visit f item self"] by blast
  ultimately show ?case by (simp add: staying_Cons bm_sorted_def)
qed (simp add: bm_sorted_def)

lemma visits_fine:
  assumes "\<And>c st. ss_fine st (fst (f c st))"
  shows "ss_fine self (fold (visit f) items self)"
proof (induction items arbitrary: self)
  case (Cons item items)
  have "ss_fine self (visit f item self)" using assms by (simp add: visit_def)
  then show ?case using Cons.IH by (auto intro: ss_fine_trans)
qed simp

text \<open>A \<open>retain\<close> from start to end: what is left of the subscribers, and the ones added by the callbacks after them.\<close>

lemma retain_ok:
  fixes self :: "('k, 'c) subscriber_set" and e :: 'k
  assumes f: "\<And>c st. ss_fine st (fst (f c st))" and inv: "ss_inv running self"
  defines "items \<equiv> ss_entries self e"
  defines "over \<equiv> turn f items (retain_start e self) (length items)"
  shows "ss_inv running (ss_retain f e self)"
    "ss_entries (ss_retain f e self) k = (if k = e then staying f items (retain_start e self) @ ss_entries over e else ss_entries over k)"
    "ss_active (ss_retain f e self) = ss_active over" "ss_dropped (ss_retain f e self) = ss_dropped over"
    "ss_next_id (ss_retain f e self) = ss_next_id over" "i \<in> ss_ids over e \<Longrightarrow> ss_next_id self \<le> i" "ss_fine (retain_start e self) over"
proof -
  let ?start = "retain_start e self" and ?kept = "staying f items (retain_start e self)" and ?result = "ss_retain f e self"
  have over: "over = fold (visit f) items ?start" by (simp add: over_def turn_def)
  have fine: "ss_fine ?start over" unfolding over by (rule visits_fine [OF f])
  have "ss_inv running ?result \<and> (\<forall>k. ss_entries ?result k = (if k = e then ?kept @ ss_entries over e else ss_entries over k)) \<and>
    ss_active ?result = ss_active over \<and> ss_dropped ?result = ss_dropped over \<and> ss_next_id ?result = ss_next_id over \<and>
    (\<forall>i \<in> ss_ids over e. ss_next_id self \<le> i)"
  proof (cases "\<exists>m. ss_subscribers self e = Some (Some m)")
    case False
    then have "ss_subscribers self e = None \<or> ss_subscribers self e = Some None" by (cases "ss_subscribers self e") auto
    then have "ss_retain f e self = self" "items = []" "?start = self"
      by (elim disjE; simp add: ss_retain_def items_def ss_entries_def retain_start_def fun_upd_idem)+
    then show ?thesis using inv by (auto simp: over items_def ss_ids_def)
  next
    case True
    then have items: "ss_subscribers self e = Some (Some items)" by (auto simp: items_def ss_entries_def)
    have sorted: "bm_sorted items" using inv unfolding ss_inv_def items_def by blast
    have start: "?start = self\<lparr>ss_subscribers := (ss_subscribers self)(e := Some None)\<rparr>" by (simp add: retain_start_def items)
    have start_entries: "ss_entries ?start k = (if k = e then [] else ss_entries self k)" for k by (simp add: start ss_entries_def)
    have start_ids: "ss_ids ?start k = (if k = e then {} else ss_ids self k)" for k by (simp add: ss_ids_def start_entries)
    have "ss_inv (insert e running) ?start"
      using inv unfolding ss_inv_def start_entries start_ids by (auto simp: start bm_sorted_def)
    then have mid: "ss_inv (insert e running) over" and grows: "ss_grows ?start over" using fine by (auto simp: ss_fine_def)
    let ?new = "ss_entries over e"
    have fresh: "i \<in> ss_ids over k \<Longrightarrow> i \<in> ss_ids self k \<and> k \<noteq> e \<or> ss_next_id self \<le> i" for i k
      using ss_grows_ids [OF grows, of i k] start_ids [of k] by (auto simp: start split: if_splits)
    have kept: "bm_sorted ?kept" "fst ` set ?kept \<subseteq> ss_ids self e"
      using staying_sorted [OF sorted, of f ?start] staying_ids [of f items ?start] by (simp_all add: ss_ids_def items_def)
    have old: "i < ss_next_id self" if "i \<in> fst ` set ?kept" for i using ss_inv_lt [OF inv] kept(2) that by blast
    have new: "ss_next_id self \<le> i" if "i \<in> fst ` set ?new" for i using fresh [of i e] that by (simp add: ss_ids_def)
    have sorted_new: "bm_sorted ?new" using mid unfolding ss_inv_def by blast
    have "bm_extend ?kept ?new = ?kept @ ?new"
      using sorted_new old new by (intro bm_extend_append) (auto intro: less_le_trans)
    then have result: "?result = over\<lparr>ss_subscribers := (ss_subscribers over)(e := (if ?kept @ ?new = [] then None else Some (Some (?kept @ ?new))))\<rparr>"
      using items by (auto simp: ss_retain_def retain_loop over start [symmetric] ss_entries_def bm_extend_def split: option.splits)
    have after: "ss_entries ?result k = (if k = e then ?kept @ ?new else ss_entries over k)" for k unfolding result by (simp add: ss_entries_def)
    have ids: "ss_ids ?result k = (if k = e then fst ` set ?kept \<union> ss_ids over e else ss_ids over k)" for k by (auto simp: ss_ids_def after)
    have next_id: "ss_next_id ?result = ss_next_id over" "ss_next_id self \<le> ss_next_id over"
      using grows by (simp_all add: result ss_grows_def start)
    have "ss_inv running ?result"
      unfolding ss_inv_def
    proof (intro conjI allI impI)
      show "ss_subscribers ?result k \<noteq> Some (Some [])" for k using mid by (auto simp: result ss_inv_def)
      show "ss_subscribers ?result k \<noteq> Some None" if "k \<notin> running" for k using mid that by (auto simp: result ss_inv_def)
      show "bm_sorted (ss_entries ?result k)" for k
        using mid kept(1) old new by (auto simp: after ss_inv_def bm_sorted_def sorted_wrt_append intro: less_le_trans)
      show "ss_ids ?result k \<subseteq> {..<ss_next_id ?result}" for k
        using ss_inv_lt [OF mid, of _ k] old next_id(2) unfolding ids next_id(1) by (auto split: if_splits intro: less_le_trans)
      have apart: "j \<notin> ss_ids over k" if "k \<noteq> e" "j \<in> fst ` set ?kept" for j k
        using fresh [of j k] old [OF that(2)] ss_inv_emitter [OF inv, of j k e] kept(2) that by fastforce
      show "ss_ids ?result k \<inter> ss_ids ?result k' = {}" if "k \<noteq> k'" for k k'
        using apart [of k] apart [of k'] ss_inv_emitter [OF mid, of _ k k'] that unfolding ids by (auto split: if_splits)
    qed
    then show ?thesis using after next_id new by (simp add: result ss_ids_def)
  qed
  then show "ss_inv running ?result" "ss_entries ?result k = (if k = e then ?kept @ ss_entries over e else ss_entries over k)"
    "ss_active ?result = ss_active over" "ss_dropped ?result = ss_dropped over" "ss_next_id ?result = ss_next_id over"
    "i \<in> ss_ids over e \<Longrightarrow> ss_next_id self \<le> i" by blast+
  show "ss_fine ?start over" by (rule fine)
qed

lemma retain_grows:
  assumes "\<And>c st. ss_fine st (fst (f c st))"
  shows "ss_grows self (ss_retain f e self)"
proof (cases "\<exists>m. ss_subscribers self e = Some (Some m)")
  case True
  then obtain items where items: "ss_subscribers self e = Some (Some items)" by blast
  define start where "start = self\<lparr>ss_subscribers := (ss_subscribers self)(e := Some None)\<rparr>"
  define over where "over = fold (visit f) items start"
  define rest where "rest = (case ss_subscribers over e of Some (Some new) \<Rightarrow> bm_extend (staying f items start) new | _ \<Rightarrow> staying f items start)"
  have grows: "ss_grows start over" using visits_fine [OF assms] unfolding over_def by (simp add: ss_fine_def)
  have start: "ss_next_id start = ss_next_id self" "ss_active start = ss_active self" "ss_dropped start = ss_dropped self"
    "\<And>k. ss_ids start k \<subseteq> ss_ids self k" by (simp_all add: start_def ss_ids_def ss_entries_def)
  have result: "ss_retain f e self = over\<lparr>ss_subscribers := (ss_subscribers over)(e := (if rest = [] then None else Some (Some rest)))\<rparr>"
    unfolding rest_def over_def start_def using items by (simp add: ss_retain_def retain_loop Let_def)
  have "fst ` set rest \<subseteq> ss_ids self e \<union> ss_ids over e"
    using staying_ids [of f items start] items by (auto simp: rest_def ss_ids_def ss_entries_def set_bm_extend split: option.splits)
  then have ids: "ss_ids (ss_retain f e self) k \<subseteq> ss_ids self k \<union> ss_ids over k" for k
    unfolding result by (auto simp: ss_ids_def ss_entries_def)
  have "i \<in> ss_ids self k \<or> ss_next_id self \<le> i" if "i \<in> ss_ids (ss_retain f e self) k" for i k
    using that ids [of k] start(1) start(4) [of k] ss_grows_ids [OF grows, of i k] by auto
  then show ?thesis using grows unfolding ss_grows_def start(1-3) by (simp add: result)
qed (auto simp: ss_retain_def split: option.split)

lemma ss_step_fine: "ss_step self self' \<Longrightarrow> ss_fine self self'"
proof (induction rule: ss_step.induct)
  case (retain f self e)
  have "ss_fine st st'" if "(\<lambda>x y. ss_step x y \<and> ss_fine x y)\<^sup>*\<^sup>* st st'" for st st'
    using that by (induction rule: rtranclp_induct) (auto intro: ss_fine_trans)
  then have "ss_fine st (fst (f c st))" for c st using retain by blast
  then show ?case unfolding ss_fine_def using retain_ok(1) [where f = f] retain_grows [of f] by (simp add: ss_fine_def)
qed (rule ss_fine_operations)+

lemma well_behaved_fine: "well_behaved f \<Longrightarrow> ss_fine st (fst (f c st))"
proof -
  have "ss_fine a b" if "ss_step\<^sup>*\<^sup>* a b" for a b :: "('k, 'c) subscriber_set"
    using that by (induction rule: rtranclp_induct) (auto intro: ss_fine_trans ss_step_fine)
  then show "well_behaved f \<Longrightarrow> ss_fine st (fst (f c st))" unfolding well_behaved_def by blast
qed

lemma retain_subscribers_append:
  "retain_subscribers f (items @ items') self =
     (let (self, kept) = retain_subscribers f items self; (self, kept') = retain_subscribers f items' self in (self, kept @ kept'))"
  by (induction f items self rule: retain_subscribers.induct) (auto split: prod.splits)

lemma retain_subscribers_cong:
  "\<forall>(i, c') \<in> set items. c' \<noteq> c \<Longrightarrow> (\<And>c' self. c' \<noteq> c \<Longrightarrow> f c' self = g c' self) \<Longrightarrow>
     retain_subscribers f items self = retain_subscribers g items self"
  by (induction f items self rule: retain_subscribers.induct) (auto split: prod.splits)

lemma retain_subscribers_dropped:
  "well_behaved f \<Longrightarrow> \<forall>(i, c') \<in> set items. c' = c \<longrightarrow> i \<in> ss_dropped self \<Longrightarrow> (\<And>c' self. c' \<noteq> c \<Longrightarrow> f c' self = g c' self) \<Longrightarrow>
     retain_subscribers f items self = retain_subscribers g items self"
proof (induction items arbitrary: self)
  case (Cons item items)
  obtain i c' where item: "item = (i, c')" by (cases item)
  show ?case
  proof (cases "i \<in> ss_active self \<and> i \<notin> ss_dropped self")
    case True
    then have other: "c' \<noteq> c" using Cons.prems(2) item by auto
    obtain mid c2 keep where call: "f c' self = (mid, c2, keep)" by (cases "f c' self")
    have "ss_dropped self \<subseteq> ss_dropped mid" using well_behaved_fine [OF Cons.prems(1), of self c'] call by (simp add: ss_fine_def ss_grows_def)
    then have "retain_subscribers f items mid = retain_subscribers g items mid" using Cons.IH Cons.prems by fastforce
    then show ?thesis using True item call Cons.prems(3) [OF other, of self] by simp
  next
    case False
    have "retain_subscribers f items self = retain_subscribers g items self" using Cons.IH Cons.prems by auto
    then show ?thesis using False item by auto
  qed
qed simp

section \<open>The promises\<close>

text \<open>C38: a \<open>retain\<close> whose callbacks use the set themselves through its operations, \<open>retain\<close> included, leaves it well formed and
  gives each subscriber of the emitter its turn in the order of the ids, on the state the ones before have
  left: the callback runs if the subscriber is active and not dropped by then. A subscriber stays, with its callback as
  it is by then, exactly if it was not active at its turn, or was active and not dropped, its callback returned true and it is
  still not dropped after that; none other stays. The ones that callbacks have added come after them, with new ids; the cells, the ids
  and the other emitters are as the callbacks have left them.\<close>

theorem retain_keeps_order:
  fixes self :: "('k, 'c) subscriber_set" and e :: 'k
  assumes "ss_inv {} self" "well_behaved f"
  defines "entries \<equiv> ss_entries self e" and "result \<equiv> ss_retain f e self"
  defines "over \<equiv> turn f entries (retain_start e self) (length entries)"
  shows "ss_inv {} result \<and> ss_entries result e = staying f entries (retain_start e self) @ ss_entries over e \<and>
    (\<forall>k. k = e \<or> ss_entries result k = ss_entries over k) \<and> ss_active result = ss_active over \<and>
    ss_dropped result = ss_dropped over \<and> ss_next_id result = ss_next_id over \<and>
    sorted_wrt (<) (map fst (ss_entries result e)) \<and> ss_ids over e \<subseteq> {ss_next_id self..}"
proof -
  have "ss_fine st (fst (f c st))" for c st by (rule well_behaved_fine [OF assms(2)])
  note ok = retain_ok [where f = f and e = e, OF this assms(1), folded entries_def, folded over_def result_def]
  have "bm_sorted (ss_entries result e)" using ok(1) unfolding ss_inv_def by blast
  then show ?thesis using ok by (auto simp: bm_sorted_def)
qed

text \<open>A set with one or two subscribers to the emitter \<open>True\<close>, for the examples.\<close>

definition two_subscribers :: "(bool, nat) subscriber_set" where
  "two_subscribers = ss_activate 1 (ss_activate 0 (fst (ss_insert True 8 (fst (ss_insert True 7 subscriber_set_new)))))"

lemma two_subscribers_entries: "ss_entries two_subscribers True = [(0, 7), (1, 8)]" "ss_active two_subscribers = {0, 1}"
  "ss_dropped two_subscribers = {}" "ss_next_id two_subscribers = 2"
  by (auto simp: two_subscribers_def ss_activate_def ss_insert_def subscriber_set_new_def ss_entries_def)

lemma two_subscribers_inv: "ss_inv {} two_subscribers"
  unfolding two_subscribers_def by (intro ss_inv_activate ss_inv_insert ss_inv_new)

text \<open>The callback of the first one drops the subscription of the second one.\<close>

definition drop_second :: "nat \<Rightarrow> (bool, nat) subscriber_set \<Rightarrow> (bool, nat) subscriber_set \<times> nat \<times> bool" where
  "drop_second c self = (if c = 7 then (ss_unsubscribe True 1 self, c, True) else (self, c, True))"

lemma drop_second_well_behaved: "well_behaved drop_second"
  by (auto simp: well_behaved_def drop_second_def intro: ss_step.unsubscribe)

theorem retain_keeps_order_witness:
  "ss_inv {} (ss_retain drop_second True two_subscribers) \<and> ss_entries (ss_retain drop_second True two_subscribers) True = [(0, 7)]"
proof -
  let ?start = "retain_start True two_subscribers"
  have start: "ss_subscribers ?start True = Some None" "ss_active ?start = {0, 1}" "ss_dropped ?start = {}"
    by (auto simp: retain_start_def two_subscribers_def ss_activate_def ss_insert_def subscriber_set_new_def)
  then have "ss_unsubscribe True 1 ?start = ?start\<lparr>ss_dropped := {1}\<rparr>" by (simp add: ss_unsubscribe_def)
  then show ?thesis
    using retain_keeps_order [OF two_subscribers_inv drop_second_well_behaved, of True] start
    by (simp add: two_subscribers_entries staying_Cons turn_def visit_def may_run_def stays_in_def callback_after_def drop_second_def)
      (simp add: ss_entries_def)
qed

text \<open>The callback of a dropped subscription does not run, not even when an earlier callback of the same
  \<open>retain\<close> drops it: if all subscribers with the callback \<open>c\<close> are dropped by the time the loop reaches them,
  the outcome does not depend on what \<open>c\<close> would do.\<close>

lemma dropped_not_called:
  assumes "well_behaved f" "\<And>c' self. c' \<noteq> c \<Longrightarrow> f c' self = g c' self"
    "ss_subscribers self e = Some (Some (before @ rest))" "\<forall>(i, c') \<in> set before. c' \<noteq> c"
    "\<forall>(i, c') \<in> set rest. c' = c \<longrightarrow>
       i \<in> ss_dropped (fst (retain_subscribers f before (self\<lparr>ss_subscribers := (ss_subscribers self)(e := Some None)\<rparr>)))"
  shows "ss_retain f e self = ss_retain g e self"
proof -
  let ?start = "self\<lparr>ss_subscribers := (ss_subscribers self)(e := Some None)\<rparr>"
  obtain mid kept where mid: "retain_subscribers f before ?start = (mid, kept)" by (cases "retain_subscribers f before ?start")
  have "retain_subscribers g before ?start = (mid, kept)" using retain_subscribers_cong [OF assms(4,2)] mid by simp
  moreover have "retain_subscribers f rest mid = retain_subscribers g rest mid"
    using assms(5) mid by (intro retain_subscribers_dropped [OF assms(1) _ assms(2)]) auto
  ultimately have "retain_subscribers f (before @ rest) ?start = retain_subscribers g (before @ rest) ?start"
    using mid by (simp add: retain_subscribers_append)
  then show ?thesis using assms(3) by (simp add: ss_retain_def)
qed

lemma unsubscribe_removed:
  "ss_subscribers self e = None \<Longrightarrow>
   fold (ss_unsubscribe e) ids self = self\<lparr>ss_dropped := set ids \<union> ss_dropped self\<rparr>"
  by (induction ids arbitrary: self) (simp_all add: ss_unsubscribe_def Un_commute insert_commute)

lemma removed_next_active:
  "\<forall>(j, _) \<in> set before. j \<notin> ss_active self \<Longrightarrow> i \<in> ss_active self \<Longrightarrow> removed_next (before @ (i, c) # rest) self = Some (c, rest)"
  by (induction before) auto

text \<open>The iterator of \<open>remove\<close> does not look at the \<open>dropped\<close> cells: it yields the first active callback even
  when that subscription, among any others, has been dropped after the emitter was removed.\<close>

lemma removed_ignores_drop:
  assumes "ss_subscribers self e = Some (Some (before @ (i, c) # rest))"
    "\<forall>(j, _) \<in> set before. j \<notin> ss_active self" "i \<in> ss_active self" "i \<in> set ids"
  shows "i \<in> ss_dropped (fold (ss_unsubscribe e) ids (fst (ss_remove e self))) \<and>
    removed_next (snd (ss_remove e self)) (fold (ss_unsubscribe e) ids (fst (ss_remove e self))) = Some (c, rest)"
  using assms by (simp add: ss_remove_def unsubscribe_removed removed_next_active)

end
