(* ===== verification/Tab_Stops.thy ===== *)
theory Tab_Stops
  imports SumTree_Keyed "HOL-Library.List_Lexorder" "HOL-Library.Product_Lexorder" "HOL-Library.AList"
begin

text \<open>
  \<open>gpui/src/tab_stop.rs\<close>: the order in which the Tab key visits the elements of a frame. The nodes are kept
  in a \<open>SumTree\<close>, so this is a client of the tree: the key of a node is its path (the tab indices of its
  groups and of itself) and then the moment of its insertion, in lexicographic order. The flag of a key is
  left out of it: two nodes never have the same moment of insertion, so it is never compared.
\<close>

section \<open>Nodes and operations\<close>

record 'f focus_handle =
  fh_id :: 'f
  fh_tab_index :: int
  fh_tab_stop :: bool

datatype 'f tab_operation = Op_Insert "'f focus_handle" | Op_Group int | Op_Group_End

definition focus_handle_of :: "'f tab_operation \<Rightarrow> 'f focus_handle option" where
  "focus_handle_of op = (case op of Op_Insert focus_handle \<Rightarrow> Some focus_handle | _ \<Rightarrow> None)"

record tab_node =
  tn_path :: "int list"
  tn_insertion_index :: nat
  tn_tab_stop :: bool

type_synonym tab_key = "int list \<times> nat"

record tab_summary =
  tsm_max_index :: nat
  tsm_max_path :: "int list"
  tsm_tab_stops :: nat

definition tab_ops :: "(tab_node, tab_summary) item_ops" where
  "tab_ops =
     \<lparr>it_summary = (\<lambda>node. \<lparr>tsm_max_index = tn_insertion_index node, tsm_max_path = tn_path node,
                            tsm_tab_stops = (if tn_tab_stop node then 1 else 0)\<rparr>),
      s_zero = \<lparr>tsm_max_index = 0, tsm_max_path = [], tsm_tab_stops = 0\<rparr>,
      s_add = (\<lambda>self summary. self\<lparr>tsm_max_index := tsm_max_index summary, tsm_max_path := tsm_max_path summary,
                                   tsm_tab_stops := tsm_tab_stops self + tsm_tab_stops summary\<rparr>)\<rparr>"

definition tab_node_dim :: "(tab_summary, tab_key) dim_ops" where
  "tab_node_dim = \<lparr>d_zero = ([], 0), d_add = (\<lambda>_ summary. (tsm_max_path summary, tsm_max_index summary))\<rparr>"

definition tab_count_dim :: "(tab_summary, nat) dim_ops" where
  "tab_count_dim = \<lparr>d_zero = 0, d_add = (\<lambda>self summary. self + tsm_tab_stops summary)\<rparr>"

definition tab_keyed :: "(tab_node, tab_summary, tab_key) keyed_ops" where
  "tab_keyed = \<lparr>k_dim = tab_node_dim, k_key = (\<lambda>node. (tn_path node, tn_insertion_index node))\<rparr>"

definition tab_node_target :: "tab_node \<Rightarrow> tab_key \<Rightarrow> ordering" where
  "tab_node_target self cursor_location =
     ord_then (ord_cmp (tn_path self) (fst cursor_location)) (ord_cmp (tn_insertion_index self) (snd cursor_location))"

section \<open>The map\<close>

record 'f tab_stop_map =
  ts_current_path :: "int list"
  ts_history :: "'f tab_operation list"
  ts_by_id :: "('f \<times> tab_node) list"
  ts_order :: "(tab_node, tab_summary) sum_tree"

definition ts_default :: "'f tab_stop_map" where
  "ts_default = \<lparr>ts_current_path = [], ts_history = [], ts_by_id = [], ts_order = new_tree tab_ops\<rparr>"

definition tab_insert :: "'f tab_stop_map \<Rightarrow> 'f focus_handle \<Rightarrow> 'f tab_stop_map rust" where
  "tab_insert self focus_handle = do {
     let history = ts_history self @ [Op_Insert focus_handle];
     let path = ts_current_path self @ [fh_tab_index focus_handle];
     index \<leftarrow> checked_minus (length history) 1;
     let order = \<lparr>tn_path = path, tn_insertion_index = index, tn_tab_stop = fh_tab_stop focus_handle\<rparr>;
     (_, tree) \<leftarrow> insert_or_replace tab_ops tab_keyed (ts_order self) order;
     ret (self\<lparr>ts_history := history, ts_by_id := AList.update (fh_id focus_handle) order (ts_by_id self), ts_order := tree\<rparr>) }"

definition begin_group :: "'f tab_stop_map \<Rightarrow> int \<Rightarrow> 'f tab_stop_map" where
  "begin_group self tab_index =
     self\<lparr>ts_history := ts_history self @ [Op_Group tab_index], ts_current_path := ts_current_path self @ [tab_index]\<rparr>"

definition end_group :: "'f tab_stop_map \<Rightarrow> 'f tab_stop_map" where
  "end_group self = self\<lparr>ts_history := ts_history self @ [Op_Group_End], ts_current_path := butlast (ts_current_path self)\<rparr>"

definition tab_clear :: "'f tab_stop_map \<Rightarrow> 'f tab_stop_map" where
  "tab_clear self = (let self = ts_default in
     self\<lparr>ts_current_path := [], ts_history := [], ts_by_id := [], ts_order := new_tree tab_ops\<rparr>)"

definition focus_handle_for_order :: "'f tab_stop_map \<Rightarrow> tab_node \<Rightarrow> 'f focus_handle option rust" where
  "focus_handle_for_order self order = do {
     op \<leftarrow> index_or_panic (ts_history self) (tn_insertion_index order);
     let handle = focus_handle_of op;
     _ \<leftarrow> assert_or_panic (handle \<noteq> None);
     ret handle }"

text \<open>\<open>Option::and_then\<close> with the lookup of the handle.\<close>

definition handle_of_found :: "'f tab_stop_map \<Rightarrow> tab_node option \<Rightarrow> 'f focus_handle option rust" where
  "handle_of_found self found = (case found of Some order \<Rightarrow> focus_handle_for_order self order | None \<Rightarrow> ret None)"

text \<open>The loops over nodes that are no tab stops; out of fuel is a panic, and the weight of the tree is enough.\<close>

fun skip_next :: "nat \<Rightarrow> (tab_node, tab_summary, tab_key) cursor \<Rightarrow> (tab_node, tab_summary, tab_key) cursor rust" where
  "skip_next 0 cursor = panic"
| "skip_next (Suc n) cursor = do {
     found \<leftarrow> cursor_item cursor;
     (case found of
        Some item \<Rightarrow> if \<not> tn_tab_stop item then do { cursor' \<leftarrow> cursor_next tab_node_dim cursor; skip_next n cursor' } else ret cursor
      | None \<Rightarrow> ret cursor) }"

fun skip_prev :: "nat \<Rightarrow> (tab_node, tab_summary, tab_key) cursor \<Rightarrow> (tab_node, tab_summary, tab_key) cursor rust" where
  "skip_prev 0 cursor = panic"
| "skip_prev (Suc n) cursor = do {
     found \<leftarrow> cursor_item cursor;
     (case found of
        Some item \<Rightarrow> if \<not> tn_tab_stop item then do { cursor' \<leftarrow> cursor_prev tab_node_dim cursor; skip_prev n cursor' } else ret cursor
      | None \<Rightarrow> ret cursor) }"

definition next_inner :: "'f tab_stop_map \<Rightarrow> tab_node \<Rightarrow> tab_node option rust" where
  "next_inner self node = do {
     (_, cursor) \<leftarrow> seek tab_node_dim (tab_node_target node) Left (cursor_new tab_node_dim (ts_order self));
     cursor \<leftarrow> cursor_next tab_node_dim cursor;
     cursor \<leftarrow> skip_next (weight (ts_order self)) cursor;
     cursor_item cursor }"

definition prev_inner :: "'f tab_stop_map \<Rightarrow> tab_node \<Rightarrow> tab_node option rust" where
  "prev_inner self node = do {
     (_, cursor) \<leftarrow> seek tab_node_dim (tab_node_target node) Left (cursor_new tab_node_dim (ts_order self));
     cursor \<leftarrow> cursor_prev tab_node_dim cursor;
     cursor \<leftarrow> skip_prev (weight (ts_order self)) cursor;
     cursor_item cursor }"

text \<open>\<open>next\<close> and \<open>prev\<close> without a focused element, and with one.\<close>

definition tab_first :: "'f tab_stop_map \<Rightarrow> 'f focus_handle option rust" where
  "tab_first self = do {
     found \<leftarrow> tree_first (ts_order self);
     (case found of
        None \<Rightarrow> ret None
      | Some first \<Rightarrow>
          if tn_tab_stop first then focus_handle_for_order self first
          else do { item \<leftarrow> next_inner self first; handle_of_found self item }) }"

definition tab_next :: "'f tab_stop_map \<Rightarrow> 'f option \<Rightarrow> 'f focus_handle option rust" where
  "tab_next self focused =
     (case focused of
        None \<Rightarrow> tab_first self
      | Some focused_id \<Rightarrow>
          (case map_of (ts_by_id self) focused_id of
             None \<Rightarrow> tab_first self
           | Some node \<Rightarrow> do {
               item \<leftarrow> next_inner self node;
               (case item of Some order \<Rightarrow> focus_handle_for_order self order | None \<Rightarrow> tab_first self) }))"

definition tab_last :: "'f tab_stop_map \<Rightarrow> 'f focus_handle option rust" where
  "tab_last self = do {
     found \<leftarrow> tree_last (ts_order self);
     (case found of
        None \<Rightarrow> ret None
      | Some final \<Rightarrow>
          if tn_tab_stop final then focus_handle_for_order self final
          else do { item \<leftarrow> prev_inner self final; handle_of_found self item }) }"

definition tab_prev :: "'f tab_stop_map \<Rightarrow> 'f option \<Rightarrow> 'f focus_handle option rust" where
  "tab_prev self focused =
     (case focused of
        None \<Rightarrow> tab_last self
      | Some focused_id \<Rightarrow>
          (case map_of (ts_by_id self) focused_id of
             None \<Rightarrow> tab_last self
           | Some node \<Rightarrow> do {
               item \<leftarrow> prev_inner self node;
               (case item of Some order \<Rightarrow> focus_handle_for_order self order | None \<Rightarrow> tab_last self) }))"

definition tab_apply :: "'f tab_stop_map \<Rightarrow> 'f tab_operation \<Rightarrow> 'f tab_stop_map rust" where
  "tab_apply self op =
     (case op of
        Op_Insert focus_handle \<Rightarrow> tab_insert self focus_handle
      | Op_Group tab_index \<Rightarrow> ret (begin_group self tab_index)
      | Op_Group_End \<Rightarrow> ret (end_group self))"

definition replay :: "'f tab_stop_map \<Rightarrow> 'f tab_operation list \<Rightarrow> 'f tab_stop_map rust" where
  "replay self nodes = fold_rust tab_apply self nodes"

definition paint_index :: "'f tab_stop_map \<Rightarrow> nat" where
  "paint_index self = length (ts_history self)"

definition tab_stop_count :: "'f tab_stop_map \<Rightarrow> nat" where
  "tab_stop_count self = length (filter (\<lambda>(_, node). tn_tab_stop node) (ts_by_id self))"

end
