(* ===== verification/Tab_Stop_Properties.thy ===== *)
theory Tab_Stop_Properties
  imports Tab_Stops
begin

text \<open>
  Properties of the tab order: the operations keep the invariant of the map, and \<open>next\<close> and \<open>prev\<close> go round
  the nodes in the order of the tree, over the nodes that are no tab stops.
\<close>

section \<open>The contract of the tree holds of the nodes\<close>

lemma tab_dims: "k_dim tab_keyed = tab_node_dim" "tab_node_target node = ord_target (k_key tab_keyed node)"
  by (auto simp: tab_keyed_def tab_node_target_def ord_target_def ord_cmp_def ord_then_def less_prod_def' fun_eq_iff split: prod.splits)

lemma tab_key [simp]: "k_key tab_keyed node = (tn_path node, tn_insertion_index node)"
  by (simp add: tab_keyed_def)

lemma least_tab_key: "([], 0) \<le> (k :: tab_key)"
  by (cases k) (auto simp: less_eq_prod_def)

interpretation tabs: keyed_items tab_ops tab_keyed
  rewrites "k_dim tab_keyed = tab_node_dim"
  by (unfold_locales, simp_all only: tab_dims) (simp_all add: tab_ops_def tab_node_dim_def least_tab_key)

section \<open>Invariant\<close>

definition tab_handle :: "'f tab_stop_map \<Rightarrow> tab_node \<Rightarrow> 'f focus_handle option" where
  "tab_handle m node = (case list_get (ts_history m) (tn_insertion_index node) of Some op \<Rightarrow> focus_handle_of op | None \<Rightarrow> None)"

definition ts_inv :: "'f tab_stop_map \<Rightarrow> bool" where
  "ts_inv m \<longleftrightarrow> wf_tree tab_ops (ts_order m) \<and> sorted_keys tab_keyed (tree_items (ts_order m)) \<and>
     (\<forall>node \<in> set (tree_items (ts_order m)). \<exists>h. tab_handle m node = Some h \<and> fh_tab_stop h = tn_tab_stop node) \<and>
     (\<forall>focused node. map_of (ts_by_id m) focused = Some node \<longrightarrow>
        node \<in> set (tree_items (ts_order m)) \<and> (\<exists>h. tab_handle m node = Some h \<and> fh_id h = focused))"

lemma tab_handle_in_history: "tab_handle m node = Some h \<Longrightarrow> tn_insertion_index node < length (ts_history m)"
  by (cases "tn_insertion_index node < length (ts_history m)") (simp_all add: tab_handle_def list_get_def)

lemma focus_handle_for_order_ok:
  assumes "tab_handle m node = Some h"
  shows "focus_handle_for_order m node = ret (Some h)"
proof -
  have i: "tn_insertion_index node < length (ts_history m)" using assms by (rule tab_handle_in_history)
  with assms have "focus_handle_of (ts_history m ! tn_insertion_index node) = Some h" by (simp add: tab_handle_def list_get_def)
  with i show ?thesis by (simp add: focus_handle_for_order_def index_or_panic_def assert_or_panic_def)
qed

lemma handle_of_found_ok:
  "(\<forall>node. found = Some node \<longrightarrow> (\<exists>h. tab_handle m node = Some h)) \<Longrightarrow>
   handle_of_found m found = ret (Option.bind found (tab_handle m))"
  using focus_handle_for_order_ok by (fastforce simp: handle_of_found_def split: option.split)

section \<open>The two walks\<close>

lemma skip_next_ok:
  "wf_tree tab_ops (c_tree c) \<Longrightarrow> node_height (c_tree c) < STACK_CAP \<Longrightarrow> cursor_ok tab_ops tab_node_dim c pre post \<Longrightarrow>
   length post < n \<Longrightarrow>
   \<exists>c'. skip_next n c = ret c' \<and> cursor_item c' = ret (find tn_tab_stop post)"
proof (induction n arbitrary: c pre post)
  case (Suc n)
  note item = cursor_ok_item [OF Suc.prems(3)]
  show ?case
  proof (cases "\<exists>x xs. post = x # xs \<and> \<not> tn_tab_stop x")
    case True
    then obtain x xs where x: "post = x # xs" "\<not> tn_tab_stop x" by blast
    then obtain c' where c': "cursor_next tab_node_dim c = ret c'" "c_tree c' = c_tree c"
        "cursor_ok tab_ops tab_node_dim c' (pre @ [x]) xs"
      using tabs.cursor_next_at [OF Suc.prems(1,2)] Suc.prems(3) by blast
    then show ?thesis using Suc.IH [of c' "pre @ [x]" xs] Suc.prems x item by simp
  qed (use item in \<open>cases post; auto\<close>)
qed simp

lemma fresh_item: "c_did_seek c \<Longrightarrow> cursor_fresh dim c \<Longrightarrow> cursor_item c = ret None"
  by (simp add: cursor_item_def cursor_fresh_def assert_did_seek_def assert_or_panic_def)

text \<open>One step back, and on over the nodes that are no tab stops.\<close>

lemma skip_prev_ok:
  "wf_tree tab_ops (c_tree c) \<Longrightarrow> node_height (c_tree c) < STACK_CAP \<Longrightarrow>
   cursor_ok tab_ops tab_node_dim c (rev pre) post \<Longrightarrow> length pre < n \<Longrightarrow>
   \<exists>c' c''. cursor_prev tab_node_dim c = ret c' \<and> skip_prev n c' = ret c'' \<and>
     cursor_item c'' = ret (find tn_tab_stop pre)"
proof (induction pre arbitrary: c post n)
  case Nil
  then obtain c' where "cursor_prev tab_node_dim c = ret c'" "c_did_seek c'" "cursor_fresh tab_node_dim c'"
    using tabs.cursor_prev_start [of c] by auto
  with Nil.prems(4) show ?case by (cases n) (auto simp: fresh_item)
next
  case (Cons x pre)
  then obtain c' where c': "cursor_prev tab_node_dim c = ret c'" "c_tree c' = c_tree c"
      "cursor_ok tab_ops tab_node_dim c' (rev pre) (x # post)"
    using tabs.cursor_prev_at [OF Cons.prems(1,2), of "rev pre" x post] Cons.prems(3) by auto
  obtain k where k: "n = Suc k" "length pre < k" using Cons.prems(4) by (cases n) auto
  show ?case
    using Cons.IH [of c' "x # post" k] Cons.prems(1,2) c' k cursor_ok_item [OF c'(3)] by (cases "tn_tab_stop x") auto
qed

lemma seek_to_node:
  assumes inv: "ts_inv m" "node_height (ts_order m) < STACK_CAP" and items: "tree_items (ts_order m) = pre @ node # post"
  obtains b c where "seek tab_node_dim (tab_node_target node) Left (cursor_new tab_node_dim (ts_order m)) = ret (b, c)"
    "c_tree c = ts_order m" "cursor_ok tab_ops tab_node_dim c pre (node # post)"
proof -
  let ?c = "cursor_new tab_node_dim (ts_order m)" and ?k = "k_key tab_keyed node"
  have sorted: "sorted_keys tab_keyed (pre @ node # post)" "wf_tree tab_ops (ts_order m)"
    using inv(1) items by (simp_all add: ts_inv_def)
  have below: "keys_below tab_keyed ?k (pre @ node # post) = pre"
    "dropWhile (\<lambda>x. k_key tab_keyed x < ?k) (pre @ node # post) = node # post"
    unfolding keys_below_def using sorted(1) by (auto simp: sorted_keys_def sorted_wrt_append)
  have "monotone_target tab_ops tab_node_dim (ord_target ?k) (pre @ node # post)"
    unfolding monotone_target_def by (rule tabs.monotone_keys_from [OF sorted(1) tabs.ord_target_monotone])
  then show ?thesis
    using tabs.seek_ok [of ?c "ord_target ?k" Left] sorted(2) inv(2) tabs.ord_target_zero [of ?k] items below that
    by (auto simp: tabs.ord_target_passed tab_dims)
qed

lemma walk_fuel: "ts_inv m \<Longrightarrow> length (tree_items (ts_order m)) < weight (ts_order m)"
  by (rule weight_items [of tab_ops]) (simp add: ts_inv_def)

lemma next_inner_ok:
  assumes "ts_inv m" "node_height (ts_order m) < STACK_CAP" "tree_items (ts_order m) = pre @ node # post"
  shows "next_inner m node = ret (find tn_tab_stop post)"
proof -
  obtain b c where c: "seek tab_node_dim (tab_node_target node) Left (cursor_new tab_node_dim (ts_order m)) = ret (b, c)"
      "c_tree c = ts_order m" "cursor_ok tab_ops tab_node_dim c pre (node # post)"
    by (rule seek_to_node [OF assms])
  have wf: "wf_tree tab_ops (ts_order m)" using assms(1) by (simp add: ts_inv_def)
  obtain c' where c': "cursor_next tab_node_dim c = ret c'" "c_tree c' = c_tree c"
      "cursor_ok tab_ops tab_node_dim c' (pre @ [node]) post"
    using tabs.cursor_next_at c wf assms(2) by metis
  have "length post < weight (ts_order m)" using walk_fuel [OF assms(1)] assms(3) by simp
  then obtain c'' where "skip_next (weight (ts_order m)) c' = ret c''" "cursor_item c'' = ret (find tn_tab_stop post)"
    using skip_next_ok [OF _ _ c'(3)] c(2) c'(2) wf assms(2) by auto
  then show ?thesis using c(1) c'(1) by (simp add: next_inner_def)
qed

lemma prev_inner_ok:
  assumes "ts_inv m" "node_height (ts_order m) < STACK_CAP" "tree_items (ts_order m) = pre @ node # post"
  shows "prev_inner m node = ret (find tn_tab_stop (rev pre))"
proof -
  obtain b c where c: "seek tab_node_dim (tab_node_target node) Left (cursor_new tab_node_dim (ts_order m)) = ret (b, c)"
      "c_tree c = ts_order m" "cursor_ok tab_ops tab_node_dim c pre (node # post)"
    by (rule seek_to_node [OF assms])
  have "wf_tree tab_ops (ts_order m)" using assms(1) by (simp add: ts_inv_def)
  moreover have "length pre < weight (ts_order m)" using walk_fuel [OF assms(1)] assms(3) by simp
  ultimately obtain c' c'' where "cursor_prev tab_node_dim c = ret c'" "skip_prev (weight (ts_order m)) c' = ret c''"
      "cursor_item c'' = ret (find tn_tab_stop (rev pre))"
    using skip_prev_ok [of c "rev pre" "node # post"] c(2,3) assms(2) by (metis rev_rev_ident length_rev)
  then show ?thesis using c(1) by (simp add: prev_inner_def)
qed

lemma tab_handles:
  "ts_inv m \<Longrightarrow> set xs \<subseteq> set (tree_items (ts_order m)) \<Longrightarrow>
   handle_of_found m (find tn_tab_stop xs) = ret (Option.bind (find tn_tab_stop xs) (tab_handle m))"
  by (rule handle_of_found_ok) (fastforce simp: ts_inv_def dest: find_Some_in)

lemma tab_first_ok:
  assumes "ts_inv m" "node_height (ts_order m) < STACK_CAP"
  shows "tab_first m = handle_of_found m (find tn_tab_stop (tree_items (ts_order m)))"
proof -
  have first: "tree_first (ts_order m) = ret (list_first (tree_items (ts_order m)))"
    using assms(1) by (intro tree_first_ok [of tab_ops]) (simp add: ts_inv_def)
  show ?thesis
  proof (cases "tree_items (ts_order m)")
    case (Cons x xs)
    then show ?thesis using first next_inner_ok [OF assms, of "[]" x xs] by (simp add: tab_first_def handle_of_found_def)
  qed (use first in \<open>simp add: tab_first_def handle_of_found_def\<close>)
qed

lemma tab_last_ok:
  assumes "ts_inv m" "node_height (ts_order m) < STACK_CAP"
  shows "tab_last m = handle_of_found m (find tn_tab_stop (rev (tree_items (ts_order m))))"
proof -
  have last: "tree_last (ts_order m) = ret (list_last (tree_items (ts_order m)))"
    using assms(1) by (intro tree_last_ok [of tab_ops]) (simp add: ts_inv_def)
  show ?thesis
  proof (cases "tree_items (ts_order m)" rule: rev_cases)
    case (snoc xs x)
    then show ?thesis using last prev_inner_ok [OF assms, of xs x "[]"]
      by (simp add: tab_last_def handle_of_found_def list_last_append list_last_def)
  qed (use last in \<open>simp add: tab_last_def handle_of_found_def\<close>)
qed

section \<open>The operations keep the invariant\<close>

lemma fresh_key_insert:
  assumes "sorted_keys tab_keyed xs" "\<forall>node \<in> set xs. tn_insertion_index node \<noteq> tn_insertion_index new"
  shows "keys_below tab_keyed (k_key tab_keyed new) xs @ keys_above tab_keyed (k_key tab_keyed new) xs = xs"
proof -
  have "keyed_find tab_keyed (k_key tab_keyed new) xs = None" using assms(2) by (auto simp: keyed_find_None)
  then show ?thesis using sorted_parts [OF assms(1), of "k_key tab_keyed new"] by (simp add: some_list_def)
qed

text \<open>An insertion adds one node, and what the others stand for is unchanged.\<close>

lemma tab_insert_ok:
  assumes inv: "ts_inv m" and height: "node_height (ts_order m) < STACK_CAP"
  shows "\<exists>m' before after. tab_insert m h = ret m' \<and> ts_inv m' \<and> tree_items (ts_order m) = before @ after \<and>
    tree_items (ts_order m') = before @ \<lparr>tn_path = ts_current_path m @ [fh_tab_index h],
      tn_insertion_index = length (ts_history m), tn_tab_stop = fh_tab_stop h\<rparr> # after \<and>
    (\<forall>node \<in> set (tree_items (ts_order m)). tab_handle m' node = tab_handle m node)"
proof -
  let ?new = "\<lparr>tn_path = ts_current_path m @ [fh_tab_index h], tn_insertion_index = length (ts_history m), tn_tab_stop = fh_tab_stop h\<rparr>"
  let ?xs = "tree_items (ts_order m)" and ?k = "k_key tab_keyed ?new"
  have old: "wf_tree tab_ops (ts_order m)" "sorted_keys tab_keyed ?xs" using inv by (simp_all add: ts_inv_def)
  obtain t where t: "insert_or_replace tab_ops tab_keyed (ts_order m) ?new = ret (keyed_find tab_keyed ?k ?xs, t)"
      "wf_tree tab_ops t" "tree_items t = insert_spec tab_keyed ?new ?xs"
    using tabs.insert_or_replace_ok [OF old(1) height old(2), of ?new] by blast
  let ?m = "m\<lparr>ts_history := ts_history m @ [Op_Insert h], ts_by_id := AList.update (fh_id h) ?new (ts_by_id m), ts_order := t\<rparr>"
  have "tn_insertion_index node < length (ts_history m)" if "node \<in> set ?xs" for node
    using inv that tab_handle_in_history [of m node] by (fastforce simp: ts_inv_def)
  note index = this
  have split: "?xs = keys_below tab_keyed ?k ?xs @ keys_above tab_keyed ?k ?xs"
    using fresh_key_insert [OF old(2), of ?new] index by fastforce
  have same: "tab_handle ?m node = tab_handle m node" if "node \<in> set ?xs" for node
    using index [OF that] by (simp add: tab_handle_def list_get_def nth_append)
  have new: "tab_handle ?m ?new = Some h" by (simp add: tab_handle_def list_get_def focus_handle_of_def)
  have members: "set (tree_items t) = insert ?new (set ?xs)"
    using arg_cong [OF split, of set] by (simp add: t(3) insert_spec_def)
  have "\<exists>h. tab_handle ?m node = Some h \<and> fh_tab_stop h = tn_tab_stop node" if "node \<in> set (tree_items t)" for node
    using that inv same new unfolding members ts_inv_def by (metis insertE tab_node.select_convs(3))
  moreover have "node \<in> set (tree_items t) \<and> (\<exists>h. tab_handle ?m node = Some h \<and> fh_id h = focused)"
    if "map_of (ts_by_id ?m) focused = Some node" for focused node
  proof (cases "focused = fh_id h")
    case True
    with that have "node = ?new" by (simp add: update_conv)
    with True new members show ?thesis by simp
  next
    case False
    with that have "map_of (ts_by_id m) focused = Some node" by (simp add: update_conv)
    then have "node \<in> set ?xs" "\<exists>h. tab_handle m node = Some h \<and> fh_id h = focused" using inv by (simp_all add: ts_inv_def)
    with same members show ?thesis by simp
  qed
  ultimately have "ts_inv ?m" using t(2) insert_spec_sorted [OF old(2), of ?new] by (simp add: ts_inv_def flip: t(3))
  moreover have "tab_insert m h = ret ?m" by (simp add: tab_insert_def checked_minus_def t(1))
  ultimately show ?thesis using split t(3) same by (auto simp: insert_spec_def)
qed

lemma tab_handle_extended:
  "tab_handle m node = Some h \<Longrightarrow> ts_history m' = ts_history m @ ops \<Longrightarrow> tab_handle m' node = Some h"
  by (frule tab_handle_in_history) (simp add: tab_handle_def list_get_def nth_append)

lemma ts_inv_extended:
  assumes "ts_inv m" "ts_history m' = ts_history m @ ops" "ts_order m' = ts_order m" "ts_by_id m' = ts_by_id m"
  shows "ts_inv m'"
  unfolding ts_inv_def assms(3,4) using assms(1) tab_handle_extended [OF _ assms(2)] unfolding ts_inv_def by meson

lemma groups_keep: "ts_inv m \<Longrightarrow> ts_inv (begin_group m i)" "ts_inv m \<Longrightarrow> ts_inv (end_group m)"
  by (erule ts_inv_extended; simp add: begin_group_def end_group_def)+

lemma ts_default_inv [simp]: "ts_inv ts_default" "ts_inv (tab_clear m)"
  by (simp_all add: ts_inv_def ts_default_def tab_clear_def)

section \<open>Going round\<close>

text \<open>Three elements, of which the second is no tab stop; the first two were inserted in the other order.\<close>

definition sample_handle :: "nat \<Rightarrow> nat focus_handle" where
  "sample_handle i = \<lparr>fh_id = i, fh_tab_index = int i, fh_tab_stop = (i \<noteq> 2)\<rparr>"

definition sample_node :: "nat \<Rightarrow> nat \<Rightarrow> tab_node" where
  "sample_node i index = \<lparr>tn_path = [int i], tn_insertion_index = index, tn_tab_stop = (i \<noteq> 2)\<rparr>"

definition sample_tabs :: "nat tab_stop_map" where
  "sample_tabs =
     (let nodes = [sample_node 1 1, sample_node 2 0, sample_node 3 2]; sums = map (it_summary tab_ops) nodes in
      \<lparr>ts_current_path = [], ts_history = map (\<lambda>i. Op_Insert (sample_handle i)) [2, 1, 3],
       ts_by_id = [(2, sample_node 2 0), (1, sample_node 1 1), (3, sample_node 3 2)],
       ts_order = Leaf (sum_s tab_ops sums) nodes sums\<rparr>)"

lemma sample_tabs_inv: "ts_inv sample_tabs" "node_height (ts_order sample_tabs) < STACK_CAP"
  by (auto simp: ts_inv_def sample_tabs_def sample_node_def sample_handle_def tab_handle_def list_get_def
      focus_handle_of_def TREE_BASE_def STACK_CAP_def nth_Cons numeral_2_eq_2 Let_def less_prod_def)

text \<open>C23: \<open>next\<close> and \<open>prev\<close> from a focused element give the nearest tab stop after it and before it in the
  order of the tree, going round at the ends, and the element itself when it is the only tab stop.\<close>

theorem tab_order_goes_round:
  assumes "ts_inv m" "node_height (ts_order m) < STACK_CAP" "map_of (ts_by_id m) focused = Some node"
  shows "\<exists>before after. tree_items (ts_order m) = before @ node # after \<and>
    tab_next m (Some focused) = ret (Option.bind (find tn_tab_stop (after @ before @ [node])) (tab_handle m)) \<and>
    tab_prev m (Some focused) = ret (Option.bind (find tn_tab_stop (rev before @ rev after @ [node])) (tab_handle m))"
proof -
  have "node \<in> set (tree_items (ts_order m))" using assms(1,3) by (simp add: ts_inv_def)
  then obtain before after where items: "tree_items (ts_order m) = before @ node # after" by (meson split_list)
  note inner = next_inner_ok [OF assms(1,2) items] prev_inner_ok [OF assms(1,2) items]
  note ends = tab_first_ok [OF assms(1,2)] tab_last_ok [OF assms(1,2)]
  have "tab_next m (Some focused) = handle_of_found m (find tn_tab_stop (after @ before @ [node]))"
    using inner ends assms(3) by (simp add: tab_next_def items find_append handle_of_found_def split: option.split)
  moreover have "tab_prev m (Some focused) = handle_of_found m (find tn_tab_stop (rev before @ rev after @ [node]))"
    using inner ends assms(3) by (simp add: tab_prev_def items find_append handle_of_found_def split: option.split)
  moreover note tab_handles [OF assms(1), of "after @ before @ [node]"] tab_handles [OF assms(1), of "rev before @ rev after @ [node]"]
  ultimately show ?thesis using items by (intro exI [of _ before] exI [of _ after]) auto
qed

theorem tab_order_goes_round_witness:
  "tab_next sample_tabs (Some 1) = ret (Some (sample_handle 3)) \<and> tab_next sample_tabs (Some 3) = ret (Some (sample_handle 1))"
proof -
  have parts: "tree_items (ts_order sample_tabs) = [sample_node 1 1, sample_node 2 0, sample_node 3 2]"
    by (simp add: sample_tabs_def Let_def)
  have distinct: "sample_node 1 i \<noteq> sample_node 2 j" "sample_node 1 i \<noteq> sample_node 3 j" "sample_node 2 i \<noteq> sample_node 3 j" for i j
    by (simp_all add: sample_node_def)
  have handles: "tab_handle sample_tabs (sample_node 1 1) = Some (sample_handle 1)"
    "tab_handle sample_tabs (sample_node 3 2) = Some (sample_handle 3)"
    by (simp_all add: tab_handle_def list_get_def sample_tabs_def sample_node_def sample_handle_def focus_handle_of_def Let_def)
  have stops: "tn_tab_stop (sample_node 1 1)" "\<not> tn_tab_stop (sample_node 2 0)" "tn_tab_stop (sample_node 3 2)"
    by (simp_all add: sample_node_def)
  have ids: "map_of (ts_by_id sample_tabs) 1 = Some (sample_node 1 1)" "map_of (ts_by_id sample_tabs) 3 = Some (sample_node 3 2)"
    by (simp_all add: sample_tabs_def Let_def)
  have "tab_next sample_tabs (Some 1) = ret (Some (sample_handle 3))"
    using tab_order_goes_round [OF sample_tabs_inv ids(1)] distinct handles stops
    by (auto simp: parts Cons_eq_append_conv)
  moreover have "tab_next sample_tabs (Some 3) = ret (Some (sample_handle 1))"
    using tab_order_goes_round [OF sample_tabs_inv ids(2)] distinct handles stops
    by (auto simp: parts Cons_eq_append_conv)
  ultimately show ?thesis ..
qed

end
