(* ===== verification/Entity_Map.thy ===== *)
theory Entity_Map
  imports Prelude
begin

text \<open>
  \<open>gpui/src/app/entity_map.rs\<close>: the store of the entities of an application, with reference counted handles.
  The counts are shared between the map and the handles (\<open>Arc<RwLock<..>>\<close>, \<open>Weak\<close> in a handle), so the operations on
  handles take what the upgrade of that weak reference gives: the counts, or \<open>None\<close> when the map is gone.
  Every access to the counts is one step under the lock or one atomic instruction.

  The counts live in a \<open>SlotMap\<close>, a third-party type that makes up the keys: its keys are the argument \<open>slot_key\<close>, the
  key of its \<open>n\<close>th insertion, and the counts record how many insertions there have been. A boxed entity is its type and its value.
\<close>

section \<open>State\<close>

record 'i ref_counts =
  rc_identity :: nat
  rc_counts :: "'i \<Rightarrow> nat option"
  rc_dropped_entity_ids :: "'i list"
  rc_inserted :: nat

record ('i, 't, 'v) entity_map =
  em_entities :: "'i \<Rightarrow> ('t \<times> 'v) option"
  em_accessed :: "'i set"
  em_ref_counts :: "'i ref_counts"

text \<open>\<open>AnyEntity\<close>; \<open>Entity<T>\<close> and \<open>Slot<T>\<close> are one whose type is \<open>T\<close>.\<close>

record ('i, 't) any_entity =
  ae_entity_id :: 'i
  ae_entity_type :: 't
  ae_entity_map :: nat

record ('i, 't) any_weak_entity =
  aw_entity_id :: 'i
  aw_entity_type :: 't
  aw_ref_counts :: "nat option"

record ('i, 't, 'v) lease =
  ls_entity :: "('t \<times> 'v) option"
  ls_id :: 'i
  ls_type :: 't

definition em_new :: "nat \<Rightarrow> ('i, 't, 'v) entity_map" where
  "em_new identity =
     \<lparr>em_entities = (\<lambda>_. None), em_accessed = {},
      em_ref_counts = \<lparr>rc_identity = identity, rc_counts = (\<lambda>_. None), rc_dropped_entity_ids = [], rc_inserted = 0\<rparr>\<rparr>"

section \<open>The map\<close>

definition em_reserve :: "(nat \<Rightarrow> 'i) \<Rightarrow> 't \<Rightarrow> ('i, 't, 'v) entity_map \<Rightarrow> ('i, 't, 'v) entity_map \<times> ('i, 't) any_entity" where
  "em_reserve slot_key entity_type self = (
     let counts = em_ref_counts self;
         key = slot_key (rc_inserted counts)
     in (self\<lparr>em_ref_counts := counts\<lparr>rc_counts := (rc_counts counts)(key \<mapsto> 1), rc_inserted := rc_inserted counts + 1\<rparr>\<rparr>,
         \<lparr>ae_entity_id = key, ae_entity_type = entity_type, ae_entity_map = rc_identity counts\<rparr>))"

definition em_insert ::
  "('i, 't) any_entity \<Rightarrow> 'v \<Rightarrow> ('i, 't, 'v) entity_map \<Rightarrow> ('i, 't, 'v) entity_map \<times> ('i, 't) any_entity" where
  "em_insert slot entity self =
     (self\<lparr>em_accessed := insert (ae_entity_id slot) (em_accessed self),
           em_entities := (em_entities self)(ae_entity_id slot \<mapsto> (ae_entity_type slot, entity))\<rparr>, slot)"

definition assert_valid_context :: "('i, 't, 'v) entity_map \<Rightarrow> ('i, 't) any_entity \<Rightarrow> unit rust" where
  "assert_valid_context self entity = assert_or_panic (ae_entity_map entity = rc_identity (em_ref_counts self))"

text \<open>An entity that is leased is not in the map, so that a second lease and a read panic.\<close>

definition em_lease ::
  "('i, 't) any_entity \<Rightarrow> ('i, 't, 'v) entity_map \<Rightarrow> (('i, 't, 'v) entity_map \<times> ('i, 't, 'v) lease) rust" where
  "em_lease pointer self = do {
     _ \<leftarrow> assert_valid_context self pointer;
     let self = self\<lparr>em_accessed := insert (ae_entity_id pointer) (em_accessed self)\<rparr>;
     entity \<leftarrow> em_entities self (ae_entity_id pointer);
     ret (self\<lparr>em_entities := (em_entities self)(ae_entity_id pointer := None)\<rparr>,
          \<lparr>ls_entity = Some entity, ls_id = ae_entity_id pointer, ls_type = ae_entity_type pointer\<rparr>) }"

definition lease_drop :: "('i, 't, 'v) lease \<Rightarrow> unit rust" where
  "lease_drop self = assert_or_panic (ls_entity self = None)"

definition em_end_lease :: "('i, 't, 'v) lease \<Rightarrow> ('i, 't, 'v) entity_map \<Rightarrow> ('i, 't, 'v) entity_map rust" where
  "em_end_lease lease self = do {
     entity \<leftarrow> ls_entity lease;
     let self = self\<lparr>em_entities := (em_entities self)(ls_id lease \<mapsto> entity)\<rparr>;
     _ \<leftarrow> lease_drop (lease\<lparr>ls_entity := None\<rparr>);
     ret self }"

text \<open>\<open>Deref\<close> and \<open>DerefMut\<close> of a lease, the latter as the assignment of a new value.\<close>

definition lease_deref :: "('i, 't, 'v) lease \<Rightarrow> 'v rust" where
  "lease_deref self = do { entity \<leftarrow> ls_entity self; if fst entity = ls_type self then ret (snd entity) else panic }"

definition lease_deref_mut :: "'v \<Rightarrow> ('i, 't, 'v) lease \<Rightarrow> ('i, 't, 'v) lease rust" where
  "lease_deref_mut v self = do {
     entity \<leftarrow> ls_entity self;
     if fst entity = ls_type self then ret (self\<lparr>ls_entity := Some (fst entity, v)\<rparr>) else panic }"

definition em_read ::
  "('i, 't) any_entity \<Rightarrow> ('i, 't, 'v) entity_map \<Rightarrow> (('i, 't, 'v) entity_map \<times> 'v) rust" where
  "em_read entity self = do {
     _ \<leftarrow> assert_valid_context self entity;
     let self = self\<lparr>em_accessed := insert (ae_entity_id entity) (em_accessed self)\<rparr>;
     (case em_entities self (ae_entity_id entity) of
        Some (entity_type, value) \<Rightarrow> if entity_type = ae_entity_type entity then ret (self, value) else panic
      | None \<Rightarrow> panic) }"

definition extend_accessed :: "'i set \<Rightarrow> ('i, 't, 'v) entity_map \<Rightarrow> ('i, 't, 'v) entity_map" where
  "extend_accessed entities self = self\<lparr>em_accessed := em_accessed self \<union> entities\<rparr>"

definition clear_accessed :: "('i, 't, 'v) entity_map \<Rightarrow> ('i, 't, 'v) entity_map" where
  "clear_accessed self = self\<lparr>em_accessed := {}\<rparr>"

text \<open>The loop over the drained ids; an id that was reserved only has no entity.\<close>

fun take_dropped_loop :: "'i list \<Rightarrow> ('i, 't, 'v) entity_map \<Rightarrow> (('i, 't, 'v) entity_map \<times> ('i \<times> 't \<times> 'v) list) rust" where
  "take_dropped_loop [] self = ret (self, [])"
| "take_dropped_loop (entity_id # ids) self = do {
     let counts = em_ref_counts self;
     count \<leftarrow> rc_counts counts entity_id;
     _ \<leftarrow> assert_or_panic (count = 0);
     let found = em_entities self entity_id;
     (self, rest) \<leftarrow> take_dropped_loop ids
       (self\<lparr>em_ref_counts := counts\<lparr>rc_counts := (rc_counts counts)(entity_id := None)\<rparr>,
             em_accessed := em_accessed self - {entity_id}, em_entities := (em_entities self)(entity_id := None)\<rparr>);
     ret (self, case found of Some entity \<Rightarrow> (entity_id, entity) # rest | None \<Rightarrow> rest) }"

definition em_take_dropped :: "('i, 't, 'v) entity_map \<Rightarrow> (('i, 't, 'v) entity_map \<times> ('i \<times> 't \<times> 'v) list) rust" where
  "em_take_dropped self =
     take_dropped_loop (rc_dropped_entity_ids (em_ref_counts self))
       (self\<lparr>em_ref_counts := (em_ref_counts self)\<lparr>rc_dropped_entity_ids := []\<rparr>\<rparr>)"

section \<open>Handles\<close>

definition any_entity_clone ::
  "('i, 't) any_entity \<Rightarrow> 'i ref_counts option \<Rightarrow> ('i ref_counts option \<times> ('i, 't) any_entity) rust" where
  "any_entity_clone self entity_map =
     (case entity_map of
        None \<Rightarrow> ret (None, self)
      | Some counts \<Rightarrow> do {
          prev_count \<leftarrow> rc_counts counts (ae_entity_id self);
          _ \<leftarrow> assert_or_panic (prev_count \<noteq> 0);
          ret (Some (counts\<lparr>rc_counts := (rc_counts counts)(ae_entity_id self \<mapsto> prev_count + 1)\<rparr>), self) })"

definition any_entity_drop :: "('i, 't) any_entity \<Rightarrow> 'i ref_counts option \<Rightarrow> 'i ref_counts option rust" where
  "any_entity_drop self entity_map =
     (case entity_map of
        None \<Rightarrow> ret None
      | Some counts \<Rightarrow> do {
          prev_count \<leftarrow> rc_counts counts (ae_entity_id self);
          _ \<leftarrow> assert_or_panic (prev_count \<noteq> 0);
          let counts = counts\<lparr>rc_counts := (rc_counts counts)(ae_entity_id self \<mapsto> prev_count - 1)\<rparr>;
          ret (Some (if prev_count = 1
                     then counts\<lparr>rc_dropped_entity_ids := rc_dropped_entity_ids counts @ [ae_entity_id self]\<rparr>
                     else counts)) })"

definition any_entity_downgrade :: "('i, 't) any_entity \<Rightarrow> ('i, 't) any_weak_entity" where
  "any_entity_downgrade self =
     \<lparr>aw_entity_id = ae_entity_id self, aw_entity_type = ae_entity_type self, aw_ref_counts = Some (ae_entity_map self)\<rparr>"

definition any_entity_downcast :: "'t \<Rightarrow> ('i, 't) any_entity \<Rightarrow> ('i, 't) any_entity + ('i, 't) any_entity" where
  "any_entity_downcast entity_type self = (if entity_type = ae_entity_type self then Inr self else Inl self)"

definition is_upgradable :: "('i, 't) any_weak_entity \<Rightarrow> 'i ref_counts option \<Rightarrow> bool" where
  "is_upgradable self ref_counts =
     (case (ref_counts, aw_ref_counts self) of
        (Some counts, Some _) \<Rightarrow> (case rc_counts counts (aw_entity_id self) of Some ref_count \<Rightarrow> ref_count > 0 | None \<Rightarrow> False)
      | _ \<Rightarrow> False)"

text \<open>
  \<open>atomic_incr_if_not_zero\<close>: the loop of compare-and-exchange ends with the one that succeeds, so as one
  step it is an increment of a counter that is not zero. The result is the new value, and the counter.
\<close>

definition atomic_incr_if_not_zero :: "nat \<Rightarrow> nat \<times> nat" where
  "atomic_incr_if_not_zero counter = (if counter = 0 then (0, counter) else (counter + 1, counter + 1))"

definition any_weak_upgrade ::
  "('i, 't) any_weak_entity \<Rightarrow> 'i ref_counts option \<Rightarrow> 'i ref_counts option \<times> ('i, 't) any_entity option" where
  "any_weak_upgrade self ref_counts =
     (case (ref_counts, aw_ref_counts self) of
        (Some counts, Some identity) \<Rightarrow>
          (case rc_counts counts (aw_entity_id self) of
             None \<Rightarrow> (Some counts, None)
           | Some ref_count \<Rightarrow>
               (let (incremented, ref_count') = atomic_incr_if_not_zero ref_count in
                if incremented = 0 then (Some counts, None)
                else (Some (counts\<lparr>rc_counts := (rc_counts counts)(aw_entity_id self \<mapsto> ref_count')\<rparr>),
                      Some \<lparr>ae_entity_id = aw_entity_id self, ae_entity_type = aw_entity_type self, ae_entity_map = identity\<rparr>)))
      | _ \<Rightarrow> (ref_counts, None))"

text \<open>A weak reference to no map at all; its id comes from a counter of its own and is never looked up.\<close>

definition any_weak_new_invalid :: "'i \<Rightarrow> 't \<Rightarrow> ('i, 't) any_weak_entity" where
  "any_weak_new_invalid entity_id unit_type = \<lparr>aw_entity_id = entity_id, aw_entity_type = unit_type, aw_ref_counts = None\<rparr>"

end
