(* ===== verification/Entity_Map_Machine.thy ===== *)
theory Entity_Map_Machine
  imports Entity_Map "HOL-Library.Multiset"
begin

text \<open>
  What the entity map promises to a program that owns handles: as a machine whose events are the operations,
  over the map and the handles, slots and leases the program has at the moment. A program may do what Rust's
  ownership allows (\<open>em_owned\<close>): a handle is cloned and dropped by who has it, a slot is used once, a lease is
  ended by who has it, or dropped. The machine takes these steps in any order, with one condition: ids are released by
  \<open>take_dropped\<close> when no lease is out, as \<open>App::flush_effects\<close> does at the end of the outermost update.
\<close>

section \<open>The machine\<close>

text \<open>\<open>w_filled\<close> records the ids that an entity was inserted for; no operation reads it.\<close>

record ('i, 't, 'v) em_world =
  w_map :: "('i, 't, 'v) entity_map"
  w_handles :: "('i, 't) any_entity multiset"
  w_slots :: "('i, 't) any_entity multiset"
  w_leases :: "('i, 't, 'v) lease multiset"
  w_weaks :: "('i, 't) any_weak_entity set"
  w_filled :: "'i set"

datatype ('i, 't, 'v) em_event =
    Ev_Reserve 't
  | Ev_Insert "('i, 't) any_entity" 'v
  | Ev_Clone "('i, 't) any_entity"
  | Ev_Drop "('i, 't) any_entity"
  | Ev_Clone_Slot "('i, 't) any_entity"
  | Ev_Drop_Slot "('i, 't) any_entity"
  | Ev_Downgrade "('i, 't) any_entity"
  | Ev_Upgrade "('i, 't) any_weak_entity"
  | Ev_Lease "('i, 't) any_entity"
  | Ev_Write 'v "('i, 't, 'v) lease"
  | Ev_End_Lease "('i, 't, 'v) lease"
  | Ev_Drop_Lease "('i, 't, 'v) lease"
  | Ev_Read "('i, 't) any_entity"
  | Ev_Take_Dropped

fun em_owned :: "('i, 't, 'v) em_event \<Rightarrow> ('i, 't, 'v) em_world \<Rightarrow> bool" where
  "em_owned (Ev_Reserve t) w = True"
| "em_owned (Ev_Insert slot v) w = (slot \<in># w_slots w)"
| "em_owned (Ev_Clone h) w = (h \<in># w_handles w)"
| "em_owned (Ev_Drop h) w = (h \<in># w_handles w)"
| "em_owned (Ev_Clone_Slot slot) w = (slot \<in># w_slots w)"
| "em_owned (Ev_Drop_Slot slot) w = (slot \<in># w_slots w)"
| "em_owned (Ev_Downgrade h) w = (h \<in># w_handles w + w_slots w)"
| "em_owned (Ev_Upgrade weak) w = (weak \<in> w_weaks w)"
| "em_owned (Ev_Lease h) w = (h \<in># w_handles w)"
| "em_owned (Ev_Write v lease) w = (lease \<in># w_leases w)"
| "em_owned (Ev_End_Lease lease) w = (lease \<in># w_leases w)"
| "em_owned (Ev_Drop_Lease lease) w = (lease \<in># w_leases w)"
| "em_owned (Ev_Read h) w = (h \<in># w_handles w)"
| "em_owned Ev_Take_Dropped w = True"

definition em_enabled :: "('i, 't, 'v) em_event \<Rightarrow> ('i, 't, 'v) em_world \<Rightarrow> bool" where
  "em_enabled ev w \<longleftrightarrow> em_owned ev w \<and> (case ev of Ev_Take_Dropped \<Rightarrow> w_leases w = {#} | _ \<Rightarrow> True)"

text \<open>The misuses the code answers with a panic: to lease or read an entity that is not there yet, since only its slot was
  reserved, or is out on a lease, and to drop a lease that was not ended.\<close>

definition em_misuse :: "('i, 't, 'v) em_event \<Rightarrow> ('i, 't, 'v) em_world \<Rightarrow> bool" where
  "em_misuse ev w = (case ev of
       Ev_Lease h \<Rightarrow> ae_entity_id h \<notin> w_filled w \<or> (\<exists>lease \<in># w_leases w. ls_id lease = ae_entity_id h)
     | Ev_Read h \<Rightarrow> ae_entity_id h \<notin> w_filled w \<or> (\<exists>lease \<in># w_leases w. ls_id lease = ae_entity_id h)
     | Ev_Drop_Lease _ \<Rightarrow> True
     | _ \<Rightarrow> False)"

definition with_counts :: "('i, 't, 'v) em_world \<Rightarrow> 'i ref_counts option \<Rightarrow> ('i, 't, 'v) em_world" where
  "with_counts w counts =
     (case counts of Some c \<Rightarrow> w\<lparr>w_map := (w_map w)\<lparr>em_ref_counts := c\<rparr>\<rparr> | None \<Rightarrow> w)"

definition world_counts :: "('i, 't, 'v) em_world \<Rightarrow> 'i ref_counts option" where
  "world_counts w = Some (em_ref_counts (w_map w))"

fun em_exec :: "(nat \<Rightarrow> 'i) \<Rightarrow> ('i, 't, 'v) em_event \<Rightarrow> ('i, 't, 'v) em_world \<Rightarrow> ('i, 't, 'v) em_world rust" where
  "em_exec slot_key (Ev_Reserve t) w =
     (let (m, slot) = em_reserve slot_key t (w_map w) in ret (w\<lparr>w_map := m, w_slots := add_mset slot (w_slots w)\<rparr>))"
| "em_exec slot_key (Ev_Insert slot v) w =
     (let (m, h) = em_insert slot v (w_map w) in
      ret (w\<lparr>w_map := m, w_slots := w_slots w - {#slot#}, w_handles := add_mset h (w_handles w),
        w_filled := insert (ae_entity_id slot) (w_filled w)\<rparr>))"
| "em_exec slot_key (Ev_Clone h) w = do {
     (counts, h') \<leftarrow> any_entity_clone h (world_counts w);
     ret ((with_counts w counts)\<lparr>w_handles := add_mset h' (w_handles w)\<rparr>) }"
| "em_exec slot_key (Ev_Drop h) w = do {
     counts \<leftarrow> any_entity_drop h (world_counts w);
     ret ((with_counts w counts)\<lparr>w_handles := w_handles w - {#h#}\<rparr>) }"
| "em_exec slot_key (Ev_Clone_Slot slot) w = do {
     (counts, h) \<leftarrow> any_entity_clone slot (world_counts w);
     ret ((with_counts w counts)\<lparr>w_handles := add_mset h (w_handles w)\<rparr>) }"
| "em_exec slot_key (Ev_Drop_Slot slot) w = do {
     counts \<leftarrow> any_entity_drop slot (world_counts w);
     ret ((with_counts w counts)\<lparr>w_slots := w_slots w - {#slot#}\<rparr>) }"
| "em_exec slot_key (Ev_Downgrade h) w = ret (w\<lparr>w_weaks := insert (any_entity_downgrade h) (w_weaks w)\<rparr>)"
| "em_exec slot_key (Ev_Upgrade weak) w =
     (let (counts, found) = any_weak_upgrade weak (world_counts w) in
      ret ((with_counts w counts)\<lparr>w_handles := (case found of Some h \<Rightarrow> add_mset h (w_handles w) | None \<Rightarrow> w_handles w)\<rparr>))"
| "em_exec slot_key (Ev_Lease h) w = do {
     (m, lease) \<leftarrow> em_lease h (w_map w);
     ret (w\<lparr>w_map := m, w_leases := add_mset lease (w_leases w)\<rparr>) }"
| "em_exec slot_key (Ev_Write v lease) w = do {
     lease' \<leftarrow> lease_deref_mut v lease;
     ret (w\<lparr>w_leases := add_mset lease' (w_leases w - {#lease#})\<rparr>) }"
| "em_exec slot_key (Ev_End_Lease lease) w = do {
     m \<leftarrow> em_end_lease lease (w_map w);
     ret (w\<lparr>w_map := m, w_leases := w_leases w - {#lease#}\<rparr>) }"
| "em_exec slot_key (Ev_Drop_Lease lease) w = do {
     _ \<leftarrow> lease_drop lease;
     ret (w\<lparr>w_leases := w_leases w - {#lease#}\<rparr>) }"
| "em_exec slot_key (Ev_Read h) w = do { (m, _) \<leftarrow> em_read h (w_map w); ret (w\<lparr>w_map := m\<rparr>) }"
| "em_exec slot_key Ev_Take_Dropped w = do { (m, _) \<leftarrow> em_take_dropped (w_map w); ret (w\<lparr>w_map := m\<rparr>) }"

definition em_start :: "nat \<Rightarrow> ('i, 't, 'v) em_world" where
  "em_start identity = \<lparr>w_map = em_new identity, w_handles = {#}, w_slots = {#}, w_leases = {#}, w_weaks = {}, w_filled = {}\<rparr>"

inductive em_reach :: "(nat \<Rightarrow> 'i) \<Rightarrow> ('i, 't, 'v) em_world \<Rightarrow> bool" for slot_key where
  start: "em_reach slot_key (em_start identity)"
| step: "em_reach slot_key w \<Longrightarrow> em_enabled ev w \<Longrightarrow> em_exec slot_key ev w = ret w' \<Longrightarrow> em_reach slot_key w'"

section \<open>The invariant\<close>

definition handles_of :: "'i \<Rightarrow> ('i, 't) any_entity multiset \<Rightarrow> nat" where
  "handles_of i hs = size {#h \<in># hs. ae_entity_id h = i#}"

text \<open>A count is the number of handles there are, and the ids to be released are the ones whose count is zero.\<close>

definition counts_ok :: "('i \<Rightarrow> nat option) \<Rightarrow> 'i list \<Rightarrow> ('i, 't) any_entity multiset \<Rightarrow> bool" where
  "counts_ok cs dropped owned \<longleftrightarrow>
     (\<forall>i. cs i = Some (handles_of i owned) \<or> cs i = None \<and> handles_of i owned = 0) \<and>
     distinct dropped \<and> set dropped = {i. cs i = Some 0}"

text \<open>An entity is stored or out on one lease, for an id that has a count; the id of a slot has no entity yet.\<close>

definition store_ok ::
  "('i \<Rightarrow> nat option) \<Rightarrow> ('i \<Rightarrow> ('t \<times> 'v) option) \<Rightarrow> ('i, 't, 'v) lease multiset \<Rightarrow> ('i, 't) any_entity multiset \<Rightarrow> bool" where
  "store_ok cs ents leases slots \<longleftrightarrow>
     (\<forall>i. cs i = None \<longrightarrow> ents i = None) \<and>
     (\<forall>l \<in># leases. cs (ls_id l) \<noteq> None \<and> ents (ls_id l) = None) \<and>
     (\<forall>i. size {#l \<in># leases. ls_id l = i#} \<le> 1) \<and>
     (\<forall>s \<in># slots. ents (ae_entity_id s) = None \<and> (\<forall>l \<in># leases. ls_id l \<noteq> ae_entity_id s)) \<and>
     (\<forall>i. handles_of i slots \<le> 1)"

text \<open>Every name of an entity has the type \<open>\<tau>\<close> gives its id, and handles point to this map.\<close>

definition types_ok :: "('i \<Rightarrow> 't) \<Rightarrow> ('i, 't, 'v) em_world \<Rightarrow> bool" where
  "types_ok \<tau> w \<longleftrightarrow>
     (\<forall>h \<in># w_handles w + w_slots w. ae_entity_type h = \<tau> (ae_entity_id h) \<and> ae_entity_map h = rc_identity (em_ref_counts (w_map w))) \<and>
     (\<forall>i t v. em_entities (w_map w) i = Some (t, v) \<longrightarrow> t = \<tau> i) \<and>
     (\<forall>l \<in># w_leases w. ls_type l = \<tau> (ls_id l) \<and> (\<exists>v. ls_entity l = Some (\<tau> (ls_id l), v))) \<and>
     (\<forall>k \<in> w_weaks w. aw_entity_type k = \<tau> (aw_entity_id k) \<and> aw_ref_counts k = Some (rc_identity (em_ref_counts (w_map w))))"

definition issued :: "(nat \<Rightarrow> 'i) \<Rightarrow> ('i, 't, 'v) em_world \<Rightarrow> 'i set" where
  "issued slot_key w = slot_key ` {..<rc_inserted (em_ref_counts (w_map w))}"

definition em_inv :: "(nat \<Rightarrow> 'i) \<Rightarrow> ('i \<Rightarrow> 't) \<Rightarrow> ('i, 't, 'v) em_world \<Rightarrow> bool" where
  "em_inv slot_key \<tau> w \<longleftrightarrow>
     counts_ok (rc_counts (em_ref_counts (w_map w))) (rc_dropped_entity_ids (em_ref_counts (w_map w))) (w_handles w + w_slots w) \<and>
     store_ok (rc_counts (em_ref_counts (w_map w))) (em_entities (w_map w)) (w_leases w) (w_slots w) \<and>
     types_ok \<tau> w \<and> dom (rc_counts (em_ref_counts (w_map w))) \<union> aw_entity_id ` w_weaks w \<subseteq> issued slot_key w"

lemma handles_of_simps [simp]:
  "handles_of i {#} = 0" "handles_of i (add_mset h hs) = (if ae_entity_id h = i then Suc (handles_of i hs) else handles_of i hs)"
  "handles_of i (hs + hs') = handles_of i hs + handles_of i hs'"
  by (simp_all add: handles_of_def)

lemma handles_of_zero: "handles_of i hs = 0 \<longleftrightarrow> (\<forall>h \<in># hs. ae_entity_id h \<noteq> i)"
  by (induction hs) auto

lemma handles_of_remove: "h \<in># hs \<Longrightarrow> handles_of i (hs - {#h#}) = handles_of i hs - (if ae_entity_id h = i then 1 else 0)"
  by (auto simp: handles_of_def size_Diff_singleton)

lemma counted:
  assumes "counts_ok cs dropped owned" "h \<in># owned"
  shows "cs (ae_entity_id h) = Some (handles_of (ae_entity_id h) owned)" "0 < handles_of (ae_entity_id h) owned"
proof -
  show pos: "0 < handles_of (ae_entity_id h) owned" using assms(2) handles_of_zero [of "ae_entity_id h" owned] by blast
  show "cs (ae_entity_id h) = Some (handles_of (ae_entity_id h) owned)" using assms(1) pos unfolding counts_ok_def by (metis less_irrefl)
qed

lemma counts_at:
  "counts_ok cs dropped owned \<Longrightarrow> cs i = Some n \<Longrightarrow> handles_of i owned = n"
  "counts_ok cs dropped owned \<Longrightarrow> cs i = None \<Longrightarrow> handles_of i owned = 0"
  unfolding counts_ok_def by (metis option.inject option.distinct(1))+

lemma counts_raise:
  assumes ok: "counts_ok cs dropped owned" and n: "handles_of (ae_entity_id h) owned = n" "cs (ae_entity_id h) \<noteq> Some 0"
  shows "counts_ok (cs(ae_entity_id h \<mapsto> Suc n)) dropped (add_mset h owned)"
proof -
  have "(cs(ae_entity_id h \<mapsto> Suc n)) j = Some (handles_of j (add_mset h owned)) \<or>
      (cs(ae_entity_id h \<mapsto> Suc n)) j = None \<and> handles_of j (add_mset h owned) = 0" for j
    using ok n unfolding counts_ok_def by (cases "j = ae_entity_id h") auto
  then show ?thesis using ok n unfolding counts_ok_def by auto
qed

lemma counts_drop:
  assumes ok: "counts_ok cs dropped owned" and h: "h \<in># owned" and n: "n = handles_of (ae_entity_id h) owned"
  shows "counts_ok (cs(ae_entity_id h \<mapsto> n - 1)) (if n = 1 then dropped @ [ae_entity_id h] else dropped) (owned - {#h#})"
proof -
  let ?i = "ae_entity_id h"
  have i: "cs ?i = Some n" "0 < n" using counted [OF ok h] n by simp_all
  have "(cs(?i \<mapsto> n - 1)) j = Some (handles_of j (owned - {#h#})) \<or> (cs(?i \<mapsto> n - 1)) j = None \<and> handles_of j (owned - {#h#}) = 0" for j
    using ok unfolding counts_ok_def handles_of_remove [OF h] n by (cases "j = ?i") auto
  moreover have "?i \<notin> set dropped" "set dropped = {j. cs j = Some 0}" "distinct dropped" using ok i unfolding counts_ok_def by auto
  ultimately show ?thesis using i unfolding counts_ok_def by auto
qed

definition clear_ids :: "'i set \<Rightarrow> ('i \<Rightarrow> 'a option) \<Rightarrow> 'i \<Rightarrow> 'a option" where
  "clear_ids I f i = (if i \<in> I then None else f i)"

lemma clear_ids_simps [simp]: "clear_ids {} f = f" "clear_ids I (f(i := None)) = clear_ids (insert i I) f"
  by (auto simp: clear_ids_def)

lemma counts_take:
  assumes ok: "counts_ok cs dropped owned"
  shows "counts_ok (clear_ids (set dropped) cs) [] owned"
proof -
  have "handles_of i owned = 0" if "i \<in> set dropped" for i
    using that counts_at(1) [OF ok] ok unfolding counts_ok_def by blast
  then show ?thesis using ok unfolding counts_ok_def by (auto simp: clear_ids_def)
qed

section \<open>Every event keeps it\<close>

fun found_entities :: "('i \<Rightarrow> 'e option) \<Rightarrow> 'i list \<Rightarrow> ('i \<times> 'e) list" where
  "found_entities ents [] = []"
| "found_entities ents (i # ids) = (case ents i of Some e \<Rightarrow> (i, e) # found_entities ents ids | None \<Rightarrow> found_entities ents ids)"

lemma found_entities_other: "i \<notin> set ids \<Longrightarrow> found_entities (ents(i := e)) ids = found_entities ents ids"
  by (induction ids) (auto split: option.splits)

lemma found_entities_set: "set (found_entities ents ids) = {(i, e). i \<in> set ids \<and> ents i = Some e}"
  by (induction ids) (auto split: option.splits)

lemma take_dropped_loop_ok:
  "distinct ids \<Longrightarrow> \<forall>i \<in> set ids. rc_counts (em_ref_counts self) i = Some 0 \<Longrightarrow>
   take_dropped_loop ids self =
     ret (self\<lparr>em_ref_counts := (em_ref_counts self)\<lparr>rc_counts := clear_ids (set ids) (rc_counts (em_ref_counts self))\<rparr>,
               em_accessed := em_accessed self - set ids, em_entities := clear_ids (set ids) (em_entities self)\<rparr>,
          found_entities (em_entities self) ids)"
proof (induction ids arbitrary: self)
  case (Cons i ids)
  let ?self = "self\<lparr>em_ref_counts := (em_ref_counts self)\<lparr>rc_counts := (rc_counts (em_ref_counts self))(i := None)\<rparr>,
    em_accessed := em_accessed self - {i}, em_entities := (em_entities self)(i := None)\<rparr>"
  have "\<forall>j \<in> set ids. rc_counts (em_ref_counts ?self) j = Some 0" using Cons.prems by auto
  note IH = Cons.IH [OF _ this]
  have count: "rc_counts (em_ref_counts self) i = Some 0" and ids: "i \<notin> set ids" "distinct ids" using Cons.prems by simp_all
  show ?case
    unfolding take_dropped_loop.simps Let_def count bind.bind_lunit assert_or_panic_def simp_thms if_True IH [OF ids(2)] prod.case
    by (simp add: found_entities_other [OF ids(1)] Diff_insert2 [symmetric] del: fun_upd_apply split: option.split)
qed simp

lemmas em_inv_defs = em_inv_def types_ok_def issued_def

lemma em_invD:
  assumes "em_inv slot_key \<tau> w"
  shows "counts_ok (rc_counts (em_ref_counts (w_map w))) (rc_dropped_entity_ids (em_ref_counts (w_map w))) (w_handles w + w_slots w)"
    "store_ok (rc_counts (em_ref_counts (w_map w))) (em_entities (w_map w)) (w_leases w) (w_slots w)" "types_ok \<tau> w"
    "dom (rc_counts (em_ref_counts (w_map w))) \<subseteq> issued slot_key w" "aw_entity_id ` w_weaks w \<subseteq> issued slot_key w"
  using assms unfolding em_inv_def Un_subset_iff by blast+

lemma owned_has_count:
  assumes "em_inv slot_key \<tau> w" "h \<in># w_handles w + w_slots w"
  shows "rc_counts (em_ref_counts (w_map w)) (ae_entity_id h) = Some (handles_of (ae_entity_id h) (w_handles w + w_slots w))"
    "0 < handles_of (ae_entity_id h) (w_handles w + w_slots w)"
  using counted [OF _ assms(2)] assms(1) unfolding em_inv_def by blast+

lemma store_ok_counts: "store_ok cs ents leases slots \<Longrightarrow> dom cs \<subseteq> dom cs' \<Longrightarrow> store_ok cs' ents leases slots"
  unfolding store_ok_def by (smt (verit) domIff subset_iff)

text \<open>A handle more, on an id that has one already.\<close>

lemma raise_keeps:
  assumes inv: "em_inv slot_key \<tau> w" and n: "rc_counts (em_ref_counts (w_map w)) (ae_entity_id h) = Some n" "0 < n"
    and h: "ae_entity_type h = \<tau> (ae_entity_id h)" "ae_entity_map h = rc_identity (em_ref_counts (w_map w))"
  shows "em_inv slot_key \<tau> ((with_counts w (Some ((em_ref_counts (w_map w))\<lparr>rc_counts :=
      (rc_counts (em_ref_counts (w_map w)))(ae_entity_id h \<mapsto> Suc n)\<rparr>)))\<lparr>w_handles := add_mset h (w_handles w)\<rparr>)"
proof -
  let ?cs = "rc_counts (em_ref_counts (w_map w))" and ?owned = "w_handles w + w_slots w"
  have ok: "counts_ok ?cs (rc_dropped_entity_ids (em_ref_counts (w_map w))) ?owned" using inv by (simp add: em_inv_def)
  have "counts_ok (?cs(ae_entity_id h \<mapsto> Suc n)) (rc_dropped_entity_ids (em_ref_counts (w_map w))) (add_mset h ?owned)"
    using counts_raise [OF ok counts_at(1) [OF ok n(1)]] n by simp
  moreover have "store_ok (?cs(ae_entity_id h \<mapsto> Suc n)) (em_entities (w_map w)) (w_leases w) (w_slots w)"
    using inv by (auto simp: em_inv_def intro: store_ok_counts)
  ultimately show ?thesis using inv h n by (auto simp: em_inv_defs with_counts_def)
qed

text \<open>A handle or a slot less.\<close>

lemma drop_ok:
  assumes inv: "em_inv slot_key \<tau> w" and h: "h \<in># w_handles w + w_slots w"
  obtains counts where "any_entity_drop h (world_counts w) = ret (Some counts)"
    "rc_identity counts = rc_identity (em_ref_counts (w_map w))" "rc_inserted counts = rc_inserted (em_ref_counts (w_map w))"
    "dom (rc_counts counts) = dom (rc_counts (em_ref_counts (w_map w)))"
    "counts_ok (rc_counts counts) (rc_dropped_entity_ids counts) (w_handles w + w_slots w - {#h#})"
proof -
  let ?c = "em_ref_counts (w_map w)" and ?n = "handles_of (ae_entity_id h) (w_handles w + w_slots w)"
  note n = owned_has_count [OF assms]
  let ?counts = "if ?n = 1 then ?c\<lparr>rc_counts := (rc_counts ?c)(ae_entity_id h \<mapsto> ?n - 1),
      rc_dropped_entity_ids := rc_dropped_entity_ids ?c @ [ae_entity_id h]\<rparr>
    else ?c\<lparr>rc_counts := (rc_counts ?c)(ae_entity_id h \<mapsto> ?n - 1)\<rparr>"
  have "counts_ok (rc_counts ?c) (rc_dropped_entity_ids ?c) (w_handles w + w_slots w)" using inv by (simp add: em_inv_def)
  note ok = counts_drop [OF this h refl]
  show ?thesis
  proof (rule that [of ?counts])
    show "any_entity_drop h (world_counts w) = ret (Some ?counts)"
      unfolding any_entity_drop_def world_counts_def option.case n(1) using n(2) by (simp add: assert_or_panic_def)
    show "counts_ok (rc_counts ?counts) (rc_dropped_entity_ids ?counts) (w_handles w + w_slots w - {#h#})"
      using ok by (cases "?n = 1") simp_all
  qed (use n in \<open>auto simp: domIff\<close>)
qed

lemma drop_keeps:
  assumes inv: "em_inv slot_key \<tau> w"
    and counts: "rc_identity counts = rc_identity (em_ref_counts (w_map w))" "rc_inserted counts = rc_inserted (em_ref_counts (w_map w))"
      "dom (rc_counts counts) = dom (rc_counts (em_ref_counts (w_map w)))"
      "counts_ok (rc_counts counts) (rc_dropped_entity_ids counts) (handles + slots)"
    and sub: "handles \<subseteq># w_handles w" "slots \<subseteq># w_slots w"
  shows "em_inv slot_key \<tau> ((with_counts w (Some counts))\<lparr>w_handles := handles, w_slots := slots\<rparr>)"
proof -
  have "store_ok (rc_counts counts) (em_entities (w_map w)) (w_leases w) (w_slots w)"
  proof (rule store_ok_counts)
    show "store_ok (rc_counts (em_ref_counts (w_map w))) (em_entities (w_map w)) (w_leases w) (w_slots w)" using inv by (simp add: em_inv_def)
  qed (use counts(3) in blast)
  moreover have "handles_of i slots \<le> handles_of i (w_slots w)" for i
    using sub(2) by (simp add: handles_of_def size_mset_mono multiset_filter_mono)
  ultimately have "store_ok (rc_counts counts) (em_entities (w_map w)) (w_leases w) slots"
    unfolding store_ok_def using mset_subset_eqD [OF sub(2)] by (meson order_trans)
  moreover have "types_ok \<tau> ((with_counts w (Some counts))\<lparr>w_handles := handles, w_slots := slots\<rparr>)"
  proof -
    have "types_ok \<tau> w" using inv by (simp add: em_inv_def)
    moreover have "h \<in># w_handles w + w_slots w" if "h \<in># handles + slots" for h
      using that mset_subset_eqD [OF sub(1)] mset_subset_eqD [OF sub(2)] by auto
    ultimately show ?thesis unfolding types_ok_def by (simp add: with_counts_def counts(1))
  qed
  ultimately show ?thesis using inv counts by (simp add: em_inv_defs with_counts_def)
qed

lemma reserve_keeps:
  assumes inv: "em_inv slot_key \<tau> w" and key: "inj slot_key"
  shows "\<exists>\<tau>' w'. em_exec slot_key (Ev_Reserve t) w = ret w' \<and> em_inv slot_key \<tau>' w'"
proof -
  let ?c = "em_ref_counts (w_map w)"
  let ?i = "slot_key (rc_inserted ?c)"
  let ?h = "\<lparr>ae_entity_id = ?i, ae_entity_type = t, ae_entity_map = rc_identity ?c\<rparr>"
  let ?w = "w\<lparr>w_map := (w_map w)\<lparr>em_ref_counts := ?c\<lparr>rc_counts := (rc_counts ?c)(?i \<mapsto> 1), rc_inserted := rc_inserted ?c + 1\<rparr>\<rparr>,
    w_slots := add_mset ?h (w_slots w)\<rparr>"
  have fresh: "?i \<notin> issued slot_key w" using key by (auto simp: issued_def dest: injD)
  have ok: "counts_ok (rc_counts ?c) (rc_dropped_entity_ids ?c) (w_handles w + w_slots w)"
    and store: "store_ok (rc_counts ?c) (em_entities (w_map w)) (w_leases w) (w_slots w)" and types: "types_ok \<tau> w"
    and names: "dom (rc_counts ?c) \<subseteq> issued slot_key w" "aw_entity_id ` w_weaks w \<subseteq> issued slot_key w"
    by (fact em_invD [OF inv])+
  have none: "rc_counts ?c ?i = None" using names(1) fresh by blast
  then have zero: "handles_of ?i (w_handles w + w_slots w) = 0" by (rule counts_at(2) [OF ok])
  then have owned: "ae_entity_id h \<noteq> ?i" if "h \<in># w_handles w + w_slots w" for h
    using that handles_of_zero [of ?i "w_handles w + w_slots w"] by simp
  have slots: "handles_of ?i (w_slots w) = 0" using zero by simp
  have ent: "em_entities (w_map w) ?i = None" "\<forall>l \<in># w_leases w. ls_id l \<noteq> ?i" using store none unfolding store_ok_def by auto
  have "counts_ok ((rc_counts ?c)(?i \<mapsto> 1)) (rc_dropped_entity_ids ?c) (w_handles w + add_mset ?h (w_slots w))"
    using counts_raise [OF ok, of ?h 0] zero none by simp
  moreover have "store_ok ((rc_counts ?c)(?i \<mapsto> 1)) (em_entities (w_map w)) (w_leases w) (add_mset ?h (w_slots w))"
  proof -
    have "store_ok ((rc_counts ?c)(?i \<mapsto> 1)) (em_entities (w_map w)) (w_leases w) (w_slots w)" by (rule store_ok_counts [OF store]) auto
    then show ?thesis using ent slots unfolding store_ok_def by simp
  qed
  moreover have "types_ok (\<tau>(?i := t)) ?w"
    using types owned ent names(2) fresh unfolding types_ok_def by (fastforce simp del: split_paired_All)
  moreover have "dom ((rc_counts ?c)(?i \<mapsto> 1)) \<union> aw_entity_id ` w_weaks w \<subseteq> issued slot_key ?w"
    using names by (auto simp: issued_def lessThan_Suc)
  ultimately have "em_inv slot_key (\<tau>(?i := t)) ?w" by (simp add: em_inv_def)
  moreover have "em_exec slot_key (Ev_Reserve t) w = ret ?w" by (simp add: em_reserve_def)
  ultimately show ?thesis by blast
qed

lemma insert_keeps:
  assumes inv: "em_inv slot_key \<tau> w" and slot: "slot \<in># w_slots w"
  shows "\<exists>w'. em_exec slot_key (Ev_Insert slot v) w = ret w' \<and> em_inv slot_key \<tau> w'"
proof -
  let ?c = "em_ref_counts (w_map w)" and ?i = "ae_entity_id slot"
  let ?ents = "(em_entities (w_map w))(?i \<mapsto> (ae_entity_type slot, v))"
  let ?w = "w\<lparr>w_map := (w_map w)\<lparr>em_accessed := insert ?i (em_accessed (w_map w)), em_entities := ?ents\<rparr>,
    w_slots := w_slots w - {#slot#}, w_handles := add_mset slot (w_handles w), w_filled := insert ?i (w_filled w)\<rparr>"
  obtain slots where slots: "w_slots w = add_mset slot slots" using slot by (meson multi_member_split)
  have store: "store_ok (rc_counts ?c) (em_entities (w_map w)) (w_leases w) (w_slots w)" and types: "types_ok \<tau> w"
    by (fact em_invD [OF inv])+
  have one: "handles_of ?i slots = 0" using store slots unfolding store_ok_def by (auto dest: spec [of _ ?i])
  have counted: "rc_counts ?c ?i \<noteq> None" using owned_has_count(1) [OF inv, of slot] slot by simp
  have "store_ok (rc_counts ?c) ?ents (w_leases w) slots"
    using store slots one counted handles_of_zero [of ?i slots] unfolding store_ok_def
    by (auto split: if_splits) (metis Suc_leD le0)+
  moreover have "types_ok \<tau> ?w" using types slots unfolding types_ok_def by (auto simp: slots)
  ultimately have "em_inv slot_key \<tau> ?w" using inv slots by (simp add: em_inv_def issued_def)
  then show ?thesis by (simp add: em_insert_def)
qed

lemma clone_keeps:
  assumes inv: "em_inv slot_key \<tau> w" and h: "h \<in># w_handles w + w_slots w"
  shows "\<exists>counts. any_entity_clone h (world_counts w) = ret (Some counts, h) \<and>
    em_inv slot_key \<tau> ((with_counts w (Some counts))\<lparr>w_handles := add_mset h (w_handles w)\<rparr>)"
proof -
  note n = owned_has_count [OF assms]
  have "ae_entity_type h = \<tau> (ae_entity_id h)" "ae_entity_map h = rc_identity (em_ref_counts (w_map w))"
    using em_invD(3) [OF inv] h unfolding types_ok_def by blast+
  from raise_keeps [OF inv n this] show ?thesis
    unfolding any_entity_clone_def world_counts_def option.case n(1) using n(2) by (simp add: assert_or_panic_def)
qed

lemma upgrade_keeps:
  assumes inv: "em_inv slot_key \<tau> w" and weak: "weak \<in> w_weaks w"
  shows "\<exists>w'. em_exec slot_key (Ev_Upgrade weak) w = ret w' \<and> em_inv slot_key \<tau> w'"
proof -
  let ?c = "em_ref_counts (w_map w)" and ?i = "aw_entity_id weak"
  have names: "aw_entity_type weak = \<tau> ?i" "aw_ref_counts weak = Some (rc_identity ?c)"
    using em_invD(3) [OF inv] weak unfolding types_ok_def by blast+
  show ?thesis
  proof (cases "\<exists>n > 0. rc_counts ?c ?i = Some n")
    case True
    then obtain n where n: "rc_counts ?c ?i = Some n" "0 < n" by blast
    let ?h = "\<lparr>ae_entity_id = ?i, ae_entity_type = \<tau> ?i, ae_entity_map = rc_identity ?c\<rparr>"
    have "rc_counts ?c (ae_entity_id ?h) = Some n" using n by simp
    from raise_keeps [OF inv this n(2)] show ?thesis
      using n names by (simp add: any_weak_upgrade_def world_counts_def atomic_incr_if_not_zero_def)
  next
    case False
    then have "any_weak_upgrade weak (world_counts w) = (world_counts w, None)"
      by (cases "rc_counts ?c ?i") (auto simp: any_weak_upgrade_def world_counts_def atomic_incr_if_not_zero_def names)
    then show ?thesis using inv by (simp add: with_counts_def world_counts_def)
  qed
qed

lemma lease_keeps:
  assumes inv: "em_inv slot_key \<tau> w" and h: "h \<in># w_handles w" and ent: "em_entities (w_map w) (ae_entity_id h) = Some (t, v)"
  shows "\<exists>w'. em_exec slot_key (Ev_Lease h) w = ret w' \<and> em_inv slot_key \<tau> w'"
proof -
  let ?c = "em_ref_counts (w_map w)" and ?i = "ae_entity_id h"
  let ?l = "\<lparr>ls_entity = Some (t, v), ls_id = ?i, ls_type = ae_entity_type h\<rparr>"
  let ?ents = "(em_entities (w_map w))(?i := None)"
  let ?w = "w\<lparr>w_map := (w_map w)\<lparr>em_accessed := insert ?i (em_accessed (w_map w)), em_entities := ?ents\<rparr>, w_leases := add_mset ?l (w_leases w)\<rparr>"
  have store: "store_ok (rc_counts ?c) (em_entities (w_map w)) (w_leases w) (w_slots w)" and types: "types_ok \<tau> w"
    by (fact em_invD [OF inv])+
  have ty: "t = \<tau> ?i" "ae_entity_type h = \<tau> ?i" "ae_entity_map h = rc_identity ?c" using types h ent unfolding types_ok_def by auto
  have no: "ls_id l \<noteq> ?i" if "l \<in># w_leases w" for l using store ent that unfolding store_ok_def by auto
  then have zero: "{#l \<in># w_leases w. ls_id l = ?i#} = {#}" by (simp add: filter_mset_eq_conv)
  have counted: "rc_counts ?c ?i \<noteq> None" using owned_has_count(1) [OF inv, of h] h by simp
  have slot: "ae_entity_id x \<noteq> ?i" if "x \<in># w_slots w" for x using store ent that unfolding store_ok_def by auto
  have "size {#l \<in># add_mset ?l (w_leases w). ls_id l = j#} \<le> 1" for j
    using store zero unfolding store_ok_def by (cases "j = ?i") auto
  then have "store_ok (rc_counts ?c) ?ents (add_mset ?l (w_leases w)) (w_slots w)"
    using store counted unfolding store_ok_def by (auto simp: no dest: slot)
  moreover have "types_ok \<tau> ?w" using types ty unfolding types_ok_def by auto
  ultimately have "em_inv slot_key \<tau> ?w" using inv by (simp add: em_inv_def issued_def)
  then show ?thesis using ty ent by (simp add: em_lease_def assert_valid_context_def assert_or_panic_def)
qed

text \<open>A lease is put back as it is or with another value.\<close>

lemma lease_shape:
  assumes "em_inv slot_key \<tau> w" "lease \<in># w_leases w"
  obtains v leases where "lease = \<lparr>ls_entity = Some (\<tau> (ls_id lease), v), ls_id = ls_id lease, ls_type = \<tau> (ls_id lease)\<rparr>"
    "w_leases w = add_mset lease leases" "\<forall>l \<in># leases. ls_id l \<noteq> ls_id lease"
proof -
  obtain leases where leases: "w_leases w = add_mset lease leases" using assms(2) by (meson multi_member_split)
  have "size {#l \<in># add_mset lease leases. ls_id l = ls_id lease#} \<le> 1"
    using em_invD(2) [OF assms(1)] leases unfolding store_ok_def by metis
  then have "{#l \<in># leases. ls_id l = ls_id lease#} = {#}" by simp
  then have others: "\<forall>l \<in># leases. ls_id l \<noteq> ls_id lease" by (metis (mono_tags, lifting) filter_mset_eq_conv not_in_iff count_empty count_filter_mset)
  have "ls_type lease = \<tau> (ls_id lease) \<and> (\<exists>v. ls_entity lease = Some (\<tau> (ls_id lease), v))"
    using em_invD(3) [OF assms(1)] assms(2) unfolding types_ok_def by blast
  then show ?thesis using that leases others by (metis lease.surjective unit.exhaust)
qed

lemma put_lease_keeps:
  assumes inv: "em_inv slot_key \<tau> w" and lease: "lease \<in># w_leases w"
  shows "\<exists>w'. em_exec slot_key (Ev_Write v lease) w = ret w' \<and> em_inv slot_key \<tau> w'"
    "\<exists>w'. em_exec slot_key (Ev_End_Lease lease) w = ret w' \<and> em_inv slot_key \<tau> w'"
proof -
  let ?c = "em_ref_counts (w_map w)" and ?i = "ls_id lease"
  obtain u leases where shape: "lease = \<lparr>ls_entity = Some (\<tau> ?i, u), ls_id = ?i, ls_type = \<tau> ?i\<rparr>"
      and leases: "w_leases w = add_mset lease leases" and others: "\<forall>l \<in># leases. ls_id l \<noteq> ?i"
    by (rule lease_shape [OF assms])
  have parts: "ls_entity lease = Some (\<tau> ?i, u)" "ls_type lease = \<tau> ?i" by (subst shape, simp)+
  have store: "store_ok (rc_counts ?c) (em_entities (w_map w)) (w_leases w) (w_slots w)" and types: "types_ok \<tau> w"
    by (fact em_invD [OF inv])+
  let ?l = "lease\<lparr>ls_entity := Some (\<tau> ?i, v)\<rparr>"
  have "size {#l \<in># add_mset ?l leases. ls_id l = j#} = size {#l \<in># w_leases w. ls_id l = j#}" for j by (simp add: leases)
  then have "store_ok (rc_counts ?c) (em_entities (w_map w)) (add_mset ?l leases) (w_slots w)"
    using store unfolding store_ok_def leases by simp
  moreover have "types_ok \<tau> (w\<lparr>w_leases := add_mset ?l leases\<rparr>)" using types parts unfolding types_ok_def by (simp add: leases)
  ultimately have "em_inv slot_key \<tau> (w\<lparr>w_leases := add_mset ?l leases\<rparr>)" using inv by (simp add: em_inv_def issued_def)
  then show "\<exists>w'. em_exec slot_key (Ev_Write v lease) w = ret w' \<and> em_inv slot_key \<tau> w'"
    using parts by (simp add: lease_deref_mut_def leases)
  let ?ents = "(em_entities (w_map w))(?i \<mapsto> (\<tau> ?i, u))"
  have "size {#l \<in># leases. ls_id l = j#} \<le> 1" for j
  proof -
    have "size {#l \<in># leases. ls_id l = j#} \<le> size {#l \<in># w_leases w. ls_id l = j#}" by (simp add: leases)
    then show ?thesis using store unfolding store_ok_def by (meson order_trans)
  qed
  then have "store_ok (rc_counts ?c) ?ents leases (w_slots w)"
    using store others unfolding store_ok_def leases by auto
  moreover have "types_ok \<tau> (w\<lparr>w_map := (w_map w)\<lparr>em_entities := ?ents\<rparr>, w_leases := leases\<rparr>)"
    using types unfolding types_ok_def by (simp add: leases)
  ultimately have "em_inv slot_key \<tau> (w\<lparr>w_map := (w_map w)\<lparr>em_entities := ?ents\<rparr>, w_leases := leases\<rparr>)"
    using inv by (simp add: em_inv_def issued_def)
  then show "\<exists>w'. em_exec slot_key (Ev_End_Lease lease) w = ret w' \<and> em_inv slot_key \<tau> w'"
    using parts by (simp add: em_end_lease_def lease_drop_def assert_or_panic_def leases)
qed

text \<open>What \<open>take_dropped\<close> gives, and that it leaves nothing to be dropped.\<close>

lemma take_dropped_ok:
  assumes inv: "em_inv slot_key \<tau> w"
  shows "em_take_dropped (w_map w) =
    (let dropped = rc_dropped_entity_ids (em_ref_counts (w_map w)) in
     ret ((w_map w)\<lparr>em_ref_counts := (em_ref_counts (w_map w))\<lparr>rc_dropped_entity_ids := [],
            rc_counts := clear_ids (set dropped) (rc_counts (em_ref_counts (w_map w)))\<rparr>,
          em_accessed := em_accessed (w_map w) - set dropped, em_entities := clear_ids (set dropped) (em_entities (w_map w))\<rparr>,
          found_entities (em_entities (w_map w)) dropped))"
proof -
  have "distinct (rc_dropped_entity_ids (em_ref_counts (w_map w)))"
    "\<forall>i \<in> set (rc_dropped_entity_ids (em_ref_counts (w_map w))). rc_counts (em_ref_counts (w_map w)) i = Some 0"
    using em_invD(1) [OF inv] unfolding counts_ok_def by auto
  then show ?thesis by (simp add: em_take_dropped_def take_dropped_loop_ok)
qed

lemma take_dropped_keeps:
  assumes inv: "em_inv slot_key \<tau> w" and none: "w_leases w = {#}"
  shows "\<exists>w'. em_exec slot_key Ev_Take_Dropped w = ret w' \<and> em_inv slot_key \<tau> w'"
proof -
  let ?c = "em_ref_counts (w_map w)"
  let ?I = "set (rc_dropped_entity_ids ?c)"
  let ?m = "(w_map w)\<lparr>em_ref_counts := ?c\<lparr>rc_dropped_entity_ids := [], rc_counts := clear_ids ?I (rc_counts ?c)\<rparr>,
    em_accessed := em_accessed (w_map w) - ?I, em_entities := clear_ids ?I (em_entities (w_map w))\<rparr>"
  have "counts_ok (clear_ids ?I (rc_counts ?c)) [] (w_handles w + w_slots w)" by (rule counts_take [OF em_invD(1) [OF inv]])
  moreover have "store_ok (clear_ids ?I (rc_counts ?c)) (clear_ids ?I (em_entities (w_map w))) {#} (w_slots w)"
    using em_invD(2) [OF inv] unfolding store_ok_def none clear_ids_def by auto
  moreover have "types_ok \<tau> (w\<lparr>w_map := ?m\<rparr>)" using em_invD(3) [OF inv] unfolding types_ok_def clear_ids_def by simp
  moreover have "dom (clear_ids ?I (rc_counts ?c)) \<union> aw_entity_id ` w_weaks w \<subseteq> issued slot_key (w\<lparr>w_map := ?m\<rparr>)"
    using em_invD(4,5) [OF inv] by (auto simp: issued_def clear_ids_def split: if_splits)
  ultimately have "em_inv slot_key \<tau> (w\<lparr>w_map := ?m\<rparr>)" by (simp add: em_inv_def none)
  then show ?thesis by (simp add: take_dropped_ok [OF inv])
qed

lemma accessed_keeps: "em_inv slot_key \<tau> w \<Longrightarrow> em_inv slot_key \<tau> (w\<lparr>w_map := (w_map w)\<lparr>em_accessed := A\<rparr>\<rparr>)"
  by (simp add: em_inv_defs)

lemma read_keeps:
  assumes inv: "em_inv slot_key \<tau> w" and h: "h \<in># w_handles w" "em_entities (w_map w) (ae_entity_id h) = Some (t, v)"
  shows "\<exists>w'. em_exec slot_key (Ev_Read h) w = ret w' \<and> em_inv slot_key \<tau> w'"
proof -
  have "ae_entity_map h = rc_identity (em_ref_counts (w_map w))" "t = ae_entity_type h"
    using em_invD(3) [OF inv] h unfolding types_ok_def by auto
  then show ?thesis using h(2) accessed_keeps [OF inv] by (simp add: em_read_def assert_valid_context_def assert_or_panic_def)
qed

lemma downgrade_keeps:
  assumes inv: "em_inv slot_key \<tau> w" and h: "h \<in># w_handles w + w_slots w"
  shows "em_inv slot_key \<tau> (w\<lparr>w_weaks := insert (any_entity_downgrade h) (w_weaks w)\<rparr>)"
proof -
  have "ae_entity_id h \<in> issued slot_key w" using owned_has_count(1) [OF assms] em_invD(4) [OF inv] by blast
  moreover have "ae_entity_type h = \<tau> (ae_entity_id h)" "ae_entity_map h = rc_identity (em_ref_counts (w_map w))"
    using em_invD(3) [OF inv] h unfolding types_ok_def by blast+
  ultimately show ?thesis using inv by (simp add: em_inv_defs any_entity_downgrade_def)
qed

lemma drop_handle_keeps:
  assumes inv: "em_inv slot_key \<tau> w" and h: "h \<in># w_handles w"
  shows "\<exists>w'. em_exec slot_key (Ev_Drop h) w = ret w' \<and> em_inv slot_key \<tau> w'"
proof -
  obtain counts where c: "any_entity_drop h (world_counts w) = ret (Some counts)"
    "rc_identity counts = rc_identity (em_ref_counts (w_map w))" "rc_inserted counts = rc_inserted (em_ref_counts (w_map w))"
    "dom (rc_counts counts) = dom (rc_counts (em_ref_counts (w_map w)))"
    "counts_ok (rc_counts counts) (rc_dropped_entity_ids counts) (w_handles w + w_slots w - {#h#})"
    using drop_ok [OF inv, of h] h by auto
  have "w_handles w + w_slots w - {#h#} = (w_handles w - {#h#}) + w_slots w" using h by simp
  then show ?thesis using drop_keeps [OF inv c(2-4), of "w_handles w - {#h#}" "w_slots w"] c(1,5)
    by (simp add: with_counts_def)
qed

lemma drop_slot_keeps:
  assumes inv: "em_inv slot_key \<tau> w" and h: "h \<in># w_slots w"
  shows "\<exists>w'. em_exec slot_key (Ev_Drop_Slot h) w = ret w' \<and> em_inv slot_key \<tau> w'"
proof -
  obtain counts where c: "any_entity_drop h (world_counts w) = ret (Some counts)"
    "rc_identity counts = rc_identity (em_ref_counts (w_map w))" "rc_inserted counts = rc_inserted (em_ref_counts (w_map w))"
    "dom (rc_counts counts) = dom (rc_counts (em_ref_counts (w_map w)))"
    "counts_ok (rc_counts counts) (rc_dropped_entity_ids counts) (w_handles w + w_slots w - {#h#})"
    using drop_ok [OF inv, of h] h by auto
  have "w_handles w + w_slots w - {#h#} = w_handles w + (w_slots w - {#h#})" using h by simp
  then show ?thesis using drop_keeps [OF inv c(2-4), of "w_handles w" "w_slots w - {#h#}"] c(1,5)
    by (simp add: with_counts_def)
qed

lemma no_entity_panics:
  assumes "em_entities (w_map w) (ae_entity_id h) = None"
  shows "em_exec slot_key (Ev_Lease h) w = panic" "em_exec slot_key (Ev_Read h) w = panic"
  using assms by (simp_all add: em_lease_def em_read_def assert_valid_context_def assert_or_panic_def)

lemma drop_lease_panics:
  assumes "em_inv slot_key \<tau> w" "lease \<in># w_leases w"
  shows "em_exec slot_key (Ev_Drop_Lease lease) w = panic"
proof -
  have "ls_entity lease \<noteq> None" using em_invD(3) [OF assms(1)] assms(2) unfolding types_ok_def by fastforce
  then show ?thesis by (simp add: lease_drop_def assert_or_panic_def)
qed

text \<open>An event that does not look up an entity is executed whatever the state is.\<close>

lemma em_exec_total:
  assumes "inj slot_key" "em_inv slot_key \<tau> w" "em_enabled ev w"
    and "case ev of Ev_Lease h \<Rightarrow> em_entities (w_map w) (ae_entity_id h) \<noteq> None
      | Ev_Read h \<Rightarrow> em_entities (w_map w) (ae_entity_id h) \<noteq> None | Ev_Drop_Lease _ \<Rightarrow> False | _ \<Rightarrow> True"
  shows "\<exists>\<tau>' w'. em_exec slot_key ev w = ret w' \<and> em_inv slot_key \<tau>' w'"
proof (cases ev)
  case (Ev_Reserve t)
  then show ?thesis using reserve_keeps [OF assms(2,1)] by simp
next
  case (Ev_Insert slot v)
  then show ?thesis using insert_keeps [OF assms(2), of slot v] assms(3,4) by (fastforce simp: em_enabled_def)
next
  case (Ev_Clone h)
  then show ?thesis using clone_keeps [OF assms(2), of h] assms(3,4) by (fastforce simp: em_enabled_def)
next
  case (Ev_Drop h)
  then show ?thesis using drop_handle_keeps [OF assms(2), of h] assms(3,4) by (fastforce simp: em_enabled_def)
next
  case (Ev_Clone_Slot h)
  then show ?thesis using clone_keeps [OF assms(2), of h] assms(3,4) by (fastforce simp: em_enabled_def)
next
  case (Ev_Drop_Slot h)
  then show ?thesis using drop_slot_keeps [OF assms(2), of h] assms(3,4) by (fastforce simp: em_enabled_def)
next
  case (Ev_Downgrade h)
  then show ?thesis using downgrade_keeps [OF assms(2), of h] assms(3,4) by (fastforce simp: em_enabled_def)
next
  case (Ev_Upgrade weak)
  then show ?thesis using upgrade_keeps [OF assms(2), of weak] assms(3,4) by (fastforce simp: em_enabled_def)
next
  case (Ev_Lease h)
  then show ?thesis using lease_keeps [OF assms(2), of h] assms(3,4) by (fastforce simp: em_enabled_def)
next
  case (Ev_Write v lease)
  then show ?thesis using put_lease_keeps(1) [OF assms(2), of lease v] assms(3,4) by (fastforce simp: em_enabled_def)
next
  case (Ev_End_Lease lease)
  then show ?thesis using put_lease_keeps(2) [OF assms(2), of lease] assms(3,4) by (fastforce simp: em_enabled_def)
next
  case (Ev_Drop_Lease lease)
  then show ?thesis using assms(4) by simp
next
  case (Ev_Read h)
  then show ?thesis using read_keeps [OF assms(2), of h] assms(3,4) by (fastforce simp: em_enabled_def)
next
  case Ev_Take_Dropped
  then show ?thesis using take_dropped_keeps [OF assms(2)] assms(3,4) by (fastforce simp: em_enabled_def)
qed

lemma em_exec_keeps:
  assumes "inj slot_key" "em_inv slot_key \<tau> w" "em_enabled ev w" "em_exec slot_key ev w = ret w'"
  shows "\<exists>\<tau>'. em_inv slot_key \<tau>' w'"
proof -
  have "case ev of Ev_Lease h \<Rightarrow> em_entities (w_map w) (ae_entity_id h) \<noteq> None
      | Ev_Read h \<Rightarrow> em_entities (w_map w) (ae_entity_id h) \<noteq> None | Ev_Drop_Lease _ \<Rightarrow> False | _ \<Rightarrow> True"
  proof (cases ev)
    case (Ev_Lease h)
    then show ?thesis using assms(4) no_entity_panics(1) [of w h slot_key] by (cases "em_entities (w_map w) (ae_entity_id h)") auto
  next
    case (Ev_Drop_Lease lease)
    then show ?thesis using assms(3,4) drop_lease_panics [OF assms(2), of lease] by (simp add: em_enabled_def)
  next
    case (Ev_Read h)
    then show ?thesis using assms(4) no_entity_panics(2) [of w h slot_key] by (cases "em_entities (w_map w) (ae_entity_id h)") auto
  qed simp_all
  from em_exec_total [OF assms(1-3) this] assms(4) show ?thesis by auto
qed

text \<open>An id that has a count and was filled is stored or out on a lease, and only those are.\<close>

definition filled_ok :: "(nat \<Rightarrow> 'i) \<Rightarrow> ('i, 't, 'v) em_world \<Rightarrow> bool" where
  "filled_ok slot_key w \<longleftrightarrow>
     w_filled w \<inter> dom (rc_counts (em_ref_counts (w_map w))) \<subseteq> dom (em_entities (w_map w)) \<union> ls_id ` set_mset (w_leases w) \<and>
     dom (em_entities (w_map w)) \<union> ls_id ` set_mset (w_leases w) \<subseteq> w_filled w \<and> w_filled w \<subseteq> issued slot_key w"

lemma em_start_inv: "em_inv slot_key \<tau> (em_start identity)"
  by (simp add: em_inv_defs em_start_def em_new_def counts_ok_def store_ok_def)

lemma reach_inv: "em_reach slot_key w \<Longrightarrow> inj slot_key \<Longrightarrow> \<exists>\<tau>. em_inv slot_key \<tau> w"
proof (induction rule: em_reach.induct)
  case (step w ev w')
  then obtain \<tau> where "em_inv slot_key \<tau> w" by blast
  from em_exec_keeps [OF step.prems this step.hyps(2,3)] show ?case .
qed (use em_start_inv in blast)

text \<open>One step of the sets: ids may be issued, lose their count, move between the store and the leases, and be filled.\<close>

lemma filled_sets:
  "F \<inter> D \<subseteq> S \<Longrightarrow> S \<subseteq> F \<Longrightarrow> F \<subseteq> J \<Longrightarrow> J \<subseteq> J' \<Longrightarrow> D' \<inter> F \<subseteq> D \<Longrightarrow> S' = S \<union> I \<Longrightarrow> F' = F \<union> I \<Longrightarrow> I \<subseteq> J \<Longrightarrow>
   F' \<inter> D' \<subseteq> S' \<and> S' \<subseteq> F' \<and> F' \<subseteq> J'"
  by blast

lemma filled_step:
  assumes "filled_ok slot_key w" "issued slot_key w \<subseteq> issued slot_key w'"
    and "dom (rc_counts (em_ref_counts (w_map w'))) \<inter> w_filled w \<subseteq> dom (rc_counts (em_ref_counts (w_map w)))"
    and "dom (em_entities (w_map w')) \<union> ls_id ` set_mset (w_leases w') = dom (em_entities (w_map w)) \<union> ls_id ` set_mset (w_leases w) \<union> I"
    and "w_filled w' = w_filled w \<union> I" "I \<subseteq> issued slot_key w"
  shows "filled_ok slot_key w'"
  unfolding filled_ok_def
  by (rule filled_sets [OF _ _ _ assms(2-6)]) (use assms(1) in \<open>simp_all only: filled_ok_def\<close>)

lemma dom_clear_ids [simp]: "dom (clear_ids I f) = dom f - I"
  by (auto simp: clear_ids_def split: if_splits)

lemma filled_keeps:
  assumes "inj slot_key" "em_inv slot_key \<tau> w" "em_enabled ev w" "em_exec slot_key ev w = ret w'" "filled_ok slot_key w"
  shows "filled_ok slot_key w'"
proof -
  note run = assms(4) and F = assms(5) and own = assms(3) [unfolded em_enabled_def]
  let ?c = "em_ref_counts (w_map w)"
  have same: "filled_ok slot_key u" if "w_filled u = w_filled w" "em_entities (w_map u) = em_entities (w_map w)"
      "ls_id ` set_mset (w_leases u) = ls_id ` set_mset (w_leases w)" "rc_inserted (em_ref_counts (w_map u)) = rc_inserted ?c"
      "dom (rc_counts (em_ref_counts (w_map u))) \<subseteq> dom (rc_counts ?c)" for u
    by (rule filled_step [OF F, where I = "{}"]) (use that in \<open>auto simp: issued_def\<close>)
  show ?thesis
  proof (cases ev)
    case (Ev_Reserve t)
    have "slot_key (rc_inserted ?c) \<notin> w_filled w"
      using F assms(1) unfolding filled_ok_def issued_def by (auto dest: injD)
    then show ?thesis using run unfolding Ev_Reserve
      by (intro filled_step [OF F, where I = "{}"]) (auto simp: em_reserve_def Let_def issued_def lessThan_Suc split: if_splits)
  next
    case (Ev_Insert slot v)
    then have "ae_entity_id slot \<in> issued slot_key w"
      using own owned_has_count(1) [OF assms(2), of slot] em_invD(4) [OF assms(2)] by auto
    then show ?thesis using run unfolding Ev_Insert
      by (intro filled_step [OF F, where I = "{ae_entity_id slot}"]) (auto simp: em_insert_def issued_def)
  next
    case (Ev_Clone h)
    then show ?thesis using run
      by (auto simp: any_entity_clone_def world_counts_def with_counts_def assert_or_panic_def bind_eq_Some_conv split: if_splits intro!: same)
  next
    case (Ev_Drop h)
    then show ?thesis using run
      by (auto simp: any_entity_drop_def world_counts_def with_counts_def assert_or_panic_def bind_eq_Some_conv Let_def split: if_splits intro!: same)
  next
    case (Ev_Clone_Slot h)
    then show ?thesis using run
      by (auto simp: any_entity_clone_def world_counts_def with_counts_def assert_or_panic_def bind_eq_Some_conv split: if_splits intro!: same)
  next
    case (Ev_Drop_Slot h)
    then show ?thesis using run
      by (auto simp: any_entity_drop_def world_counts_def with_counts_def assert_or_panic_def bind_eq_Some_conv Let_def split: if_splits intro!: same)
  next
    case (Ev_Downgrade h)
    then show ?thesis using run by (auto intro!: same)
  next
    case (Ev_Upgrade weak)
    then show ?thesis using run
      by (auto simp: any_weak_upgrade_def atomic_incr_if_not_zero_def world_counts_def with_counts_def Let_def split: option.splits if_splits intro!: same)
  next
    case (Ev_Lease h)
    then show ?thesis using run
      by (intro filled_step [OF F, where I = "{}"])
        (auto simp: em_lease_def assert_valid_context_def assert_or_panic_def bind_eq_Some_conv issued_def domI split: if_splits)
  next
    case (Ev_Write v lease)
    then obtain leases where "w_leases w = add_mset lease leases" using own by (auto dest: multi_member_split)
    then show ?thesis using Ev_Write run by (auto simp: lease_deref_mut_def bind_eq_Some_conv split: if_splits intro!: same)
  next
    case (Ev_End_Lease lease)
    then obtain leases where "w_leases w = add_mset lease leases" using own by (auto dest: multi_member_split)
    then show ?thesis using Ev_End_Lease run
      by (intro filled_step [OF F, where I = "{}"])
        (auto simp: em_end_lease_def lease_drop_def assert_or_panic_def bind_eq_Some_conv issued_def split: if_splits)
  next
    case (Ev_Drop_Lease lease)
    then show ?thesis using run drop_lease_panics [OF assms(2), of lease] own by simp
  next
    case (Ev_Read h)
    then show ?thesis using run
      by (auto simp: em_read_def assert_valid_context_def assert_or_panic_def bind_eq_Some_conv split: if_splits option.splits intro!: same)
  next
    case Ev_Take_Dropped
    let ?I = "set (rc_dropped_entity_ids ?c)"
    have "w_filled w' = w_filled w" "em_entities (w_map w') = clear_ids ?I (em_entities (w_map w))" "w_leases w' = w_leases w"
        "rc_counts (em_ref_counts (w_map w')) = clear_ids ?I (rc_counts ?c)" "issued slot_key w' = issued slot_key w"
      using run unfolding Ev_Take_Dropped by (auto simp: take_dropped_ok [OF assms(2)] Let_def issued_def)
    then show ?thesis using F by (auto simp: filled_ok_def)
  qed
qed

lemma reach_filled: "em_reach slot_key w \<Longrightarrow> inj slot_key \<Longrightarrow> filled_ok slot_key w"
proof (induction rule: em_reach.induct)
  case (step w ev w')
  obtain \<tau> where "em_inv slot_key \<tau> w" using reach_inv [OF step.hyps(1) step.prems] by blast
  from filled_keeps [OF step.prems this step.hyps(2,3)] step.IH step.prems show ?case by blast
qed (simp add: filled_ok_def em_start_def em_new_def)


end
