(* ===== verification/Entity_Map_Properties.thy ===== *)
theory Entity_Map_Properties
  imports Entity_Map_Machine
begin

text \<open>
  The promises of the entity map, in every state that a program can reach by its operations.
\<close>

lemma no_handle_no_count:
  assumes "em_inv slot_key \<tau> w"
  shows "handles_of i (w_handles w + w_slots w) = 0 \<longleftrightarrow>
    rc_counts (em_ref_counts (w_map w)) i = None \<or> i \<in> set (rc_dropped_entity_ids (em_ref_counts (w_map w)))"
  using em_invD(1) [OF assms] unfolding counts_ok_def
  by (metis (mono_tags, lifting) mem_Collect_eq option.distinct(1) option.inject)

lemma found_entities_distinct: "distinct ids \<Longrightarrow> distinct (map fst (found_entities ents ids))"
proof (induction ids)
  case (Cons i ids)
  have "i \<notin> fst ` set (found_entities ents ids)" using Cons.prems by (auto simp: found_entities_set)
  then show ?case using Cons by (auto split: option.split)
qed simp

text \<open>A run of enabled events, and the one the examples are about: an entity of type \<open>()\<close> with the value 5, a weak reference to
  it and two handles.\<close>

definition em_run :: "(nat \<Rightarrow> 'i) \<Rightarrow> ('i, 't, 'v) em_event list \<Rightarrow> ('i, 't, 'v) em_world rust" where
  "em_run slot_key = fold_rust (\<lambda>w ev. if em_enabled ev w then em_exec slot_key ev w else panic) (em_start 0)"

lemma em_run_reach: "em_run slot_key evs = ret w \<Longrightarrow> em_reach slot_key w"
proof (induction evs arbitrary: w rule: rev_induct)
  case Nil
  then show ?case by (auto simp: em_run_def intro: em_reach.start)
next
  case (snoc ev evs)
  then show ?case by (auto simp: em_run_def fold_rust_append bind_eq_Some_conv split: if_splits intro: em_reach.step)
qed

definition sample_entity :: "(nat, unit) any_entity" where
  "sample_entity = \<lparr>ae_entity_id = 0, ae_entity_type = (), ae_entity_map = 0\<rparr>"

definition sample_world :: "nat multiset \<Rightarrow> (nat, unit, int) em_world" where
  "sample_world handles =
     \<lparr>w_map = \<lparr>em_entities = [0 \<mapsto> ((), 5)], em_accessed = {0},
        em_ref_counts = \<lparr>rc_identity = 0, rc_counts = [0 \<mapsto> size handles],
          rc_dropped_entity_ids = (if handles = {#} then [0] else []), rc_inserted = 1\<rparr>\<rparr>,
      w_handles = image_mset (\<lambda>_. sample_entity) handles, w_slots = {#}, w_leases = {#},
      w_weaks = {any_entity_downgrade sample_entity}, w_filled = {0}\<rparr>"

abbreviation sample_events :: "(nat, unit, int) em_event list" where
  "sample_events \<equiv> [Ev_Reserve (), Ev_Insert sample_entity 5, Ev_Downgrade sample_entity, Ev_Clone sample_entity]"

lemmas sample_defs = em_run_def em_enabled_def em_start_def em_new_def em_reserve_def em_insert_def any_entity_clone_def any_entity_drop_def
  world_counts_def with_counts_def sample_entity_def assert_or_panic_def sample_world_def

lemma sample_runs:
  "em_run (\<lambda>n. n) sample_events = ret (sample_world {#1, 2#})"
  "em_run (\<lambda>n. n) (sample_events @ [Ev_Drop sample_entity, Ev_Drop sample_entity]) = ret (sample_world {#})"
  by (simp_all add: sample_defs)

lemmas sample_reach = sample_runs [THEN em_run_reach]

lemma sample_keys: "inj (\<lambda>n :: nat. n)"
  by simp

lemma stored_sets: "F \<inter> D \<subseteq> E \<union> L \<Longrightarrow> E \<union> L \<subseteq> F \<Longrightarrow> i \<in> D \<Longrightarrow> (i \<in> L \<Longrightarrow> i \<notin> E) \<Longrightarrow> i \<notin> E \<longleftrightarrow> i \<notin> F \<or> i \<in> L"
  by blast

lemma filled_stored:
  assumes "inj slot_key" "em_reach slot_key w" "h \<in># w_handles w"
  shows "em_entities (w_map w) (ae_entity_id h) = None \<longleftrightarrow>
    ae_entity_id h \<notin> w_filled w \<or> (\<exists>lease \<in># w_leases w. ls_id lease = ae_entity_id h)"
proof -
  let ?i = "ae_entity_id h"
  obtain \<tau> where inv: "em_inv slot_key \<tau> w" using reach_inv [OF assms(2,1)] by blast
  have F: "filled_ok slot_key w" by (rule reach_filled [OF assms(2,1)])
  have counted: "?i \<in> dom (rc_counts (em_ref_counts (w_map w)))" using owned_has_count(1) [OF inv, of h] assms(3) by auto
  let ?out = "ls_id ` set_mset (w_leases w)"
  have out: "?i \<notin> dom (em_entities (w_map w))" if "?i \<in> ?out"
    using em_invD(2) [OF inv] that unfolding store_ok_def by auto
  have "w_filled w \<inter> dom (rc_counts (em_ref_counts (w_map w))) \<subseteq> dom (em_entities (w_map w)) \<union> ?out"
    "dom (em_entities (w_map w)) \<union> ?out \<subseteq> w_filled w" using F unfolding filled_ok_def by simp_all
  from stored_sets [OF this counted out] have "?i \<notin> dom (em_entities (w_map w)) \<longleftrightarrow> ?i \<notin> w_filled w \<or> ?i \<in> ?out" .
  moreover have "?i \<in> ?out \<longleftrightarrow> (\<exists>lease \<in># w_leases w. ls_id lease = ?i)"
    by (auto simp: image_iff eq_commute [of ?i])
  ultimately show ?thesis by (simp only: domIff not_not)
qed

text \<open>C8: in every state that a program can reach which calls \<open>take_dropped\<close> only when no lease is out, as
  \<open>App::flush_effects\<close> does, an operation on what the program owns (a handle, a slot, a lease, a weak reference) panics
  exactly when it leases or reads an entity whose slot was reserved but not filled or that is out on a lease, or
  when it drops a lease that was not ended; every other operation succeeds. The counts are exactly the numbers
  of handles and slots there are, so that a release below zero and a handle without a count do not occur. This relies on keys of
  the slot map that are never given out twice.\<close>

theorem entity_operations_safe:
  assumes "inj slot_key" "em_reach slot_key w" "em_owned ev w"
  shows "(if em_misuse ev w then em_exec slot_key ev w = panic else \<exists>w'. em_exec slot_key ev w = ret w') \<and>
    (\<forall>i. (case rc_counts (em_ref_counts (w_map w)) i of Some n \<Rightarrow> n | None \<Rightarrow> 0) = handles_of i (w_handles w + w_slots w))"
proof -
  obtain \<tau> where inv: "em_inv slot_key \<tau> w" using reach_inv [OF assms(2,1)] by blast
  note stored = filled_stored [OF assms(1,2)]
  have "if em_misuse ev w then em_exec slot_key ev w = panic else \<exists>w'. em_exec slot_key ev w = ret w'"
  proof (cases "em_enabled ev w \<and> \<not> em_misuse ev w")
    case True
    then have "case ev of Ev_Lease h \<Rightarrow> em_entities (w_map w) (ae_entity_id h) \<noteq> None
      | Ev_Read h \<Rightarrow> em_entities (w_map w) (ae_entity_id h) \<noteq> None | Ev_Drop_Lease _ \<Rightarrow> False | _ \<Rightarrow> True"
      using assms(3) stored by (cases ev) (simp_all add: em_misuse_def del: not_None_eq)
    from em_exec_total [OF assms(1) inv _ this] True show ?thesis by auto
  next
    case False
    then show ?thesis using assms(3) stored no_entity_panics [of w _ slot_key] drop_lease_panics [OF inv] take_dropped_ok [OF inv]
      by (cases ev) (auto simp: em_misuse_def em_enabled_def Let_def simp del: em_exec.simps(9,12,13))
  qed
  then show ?thesis using counts_at [OF em_invD(1) [OF inv]] by (auto split: option.split)
qed

theorem entity_operations_safe_witness:
  "(\<exists>w'. em_exec (\<lambda>n. n) (Ev_Lease sample_entity) (sample_world {#1, 2#}) = ret w') \<and>
   handles_of 0 (w_handles (sample_world {#1, 2#})) = 2"
  using entity_operations_safe [OF sample_keys sample_reach(1), of "Ev_Lease sample_entity"]
  by (simp add: sample_world_def em_misuse_def sample_entity_def)

text \<open>C11: \<open>take_dropped\<close> gives each entity to which no handle is left exactly once, with the value it has, and nothing else;
  afterwards these are gone from the map and from the counts, and the others are as they were.\<close>

theorem entities_released_once:
  assumes "inj slot_key" "em_reach slot_key w"
  shows "\<exists>m released. em_take_dropped (w_map w) = ret (m, released) \<and> distinct (map fst released) \<and>
    set released = {(i, e). em_entities (w_map w) i = Some e \<and> handles_of i (w_handles w + w_slots w) = 0} \<and>
    rc_dropped_entity_ids (em_ref_counts m) = [] \<and>
    (\<forall>i. if handles_of i (w_handles w + w_slots w) = 0
         then em_entities m i = None \<and> rc_counts (em_ref_counts m) i = None
         else em_entities m i = em_entities (w_map w) i \<and> rc_counts (em_ref_counts m) i = rc_counts (em_ref_counts (w_map w)) i)"
proof -
  let ?c = "em_ref_counts (w_map w)" and ?owned = "w_handles w + w_slots w"
  let ?ids = "rc_dropped_entity_ids ?c"
  obtain \<tau> where inv: "em_inv slot_key \<tau> w" using reach_inv [OF assms(2,1)] by blast
  note gone = no_handle_no_count [OF inv]
  have stored: "em_entities (w_map w) i = None" if "rc_counts ?c i = None" for i
    using em_invD(2) [OF inv] that unfolding store_ok_def by blast
  have ids: "distinct ?ids" "set ?ids = {i. rc_counts ?c i = Some 0}" using em_invD(1) [OF inv] unfolding counts_ok_def by auto
  have "set (found_entities (em_entities (w_map w)) ?ids) = {(i, e). em_entities (w_map w) i = Some e \<and> handles_of i ?owned = 0}"
    unfolding found_entities_set gone using stored by (auto simp del: handles_of_simps)
  moreover have "if handles_of i ?owned = 0
      then clear_ids (set ?ids) (em_entities (w_map w)) i = None \<and> clear_ids (set ?ids) (rc_counts ?c) i = None
      else clear_ids (set ?ids) (em_entities (w_map w)) i = em_entities (w_map w) i \<and> clear_ids (set ?ids) (rc_counts ?c) i = rc_counts ?c i" for i
    unfolding gone clear_ids_def using stored by auto
  ultimately show ?thesis
    using take_dropped_ok [OF inv] found_entities_distinct [OF ids(1)] by (simp del: handles_of_simps)
qed

theorem entities_released_once_witness:
  "\<exists>m released. em_take_dropped (w_map (sample_world {#})) = ret (m, released) \<and> set released = {(0, (), 5)}"
proof -
  have "{(i, e). em_entities (w_map (sample_world {#})) i = Some e \<and>
      handles_of i (w_handles (sample_world {#}) + w_slots (sample_world {#})) = 0} = {(0, (), 5)}"
    by (auto simp: sample_world_def split: if_splits)
  then show ?thesis using entities_released_once [OF sample_keys sample_reach(2)] by auto
qed

text \<open>C14: a weak reference can be upgraded exactly as long as there is a handle or a slot for its entity, and then gives a handle to
  it; while an entity is out on a lease, reading it and leasing it again through any handle panic.\<close>

theorem weak_and_leased:
  assumes "inj slot_key" "em_reach slot_key w"
  shows "(weak \<in> w_weaks w \<longrightarrow>
      is_upgradable weak (world_counts w) = (0 < handles_of (aw_entity_id weak) (w_handles w + w_slots w)) \<and>
      map_option ae_entity_id (snd (any_weak_upgrade weak (world_counts w))) =
        (if is_upgradable weak (world_counts w) then Some (aw_entity_id weak) else None)) \<and>
    (lease \<in># w_leases w \<and> ae_entity_id h = ls_id lease \<longrightarrow> em_lease h (w_map w) = panic \<and> em_read h (w_map w) = panic)"
proof -
  obtain \<tau> where inv: "em_inv slot_key \<tau> w" using reach_inv [OF assms(2,1)] by blast
  have "is_upgradable weak (world_counts w) = (0 < handles_of (aw_entity_id weak) (w_handles w + w_slots w)) \<and>
      map_option ae_entity_id (snd (any_weak_upgrade weak (world_counts w))) =
        (if is_upgradable weak (world_counts w) then Some (aw_entity_id weak) else None)" if "weak \<in> w_weaks w"
  proof -
    have "aw_ref_counts weak = Some (rc_identity (em_ref_counts (w_map w)))" using em_invD(3) [OF inv] that unfolding types_ok_def by blast
    then show ?thesis using counts_at [OF em_invD(1) [OF inv], of "aw_entity_id weak"]
      by (auto simp: is_upgradable_def any_weak_upgrade_def world_counts_def atomic_incr_if_not_zero_def split: option.split)
  qed
  moreover have "em_lease h (w_map w) = panic \<and> em_read h (w_map w) = panic" if "lease \<in># w_leases w" "ae_entity_id h = ls_id lease"
  proof -
    have "em_entities (w_map w) (ls_id lease) = None" using em_invD(2) [OF inv] that(1) unfolding store_ok_def by blast
    then show ?thesis using that(2) by (simp add: em_lease_def em_read_def assert_valid_context_def assert_or_panic_def)
  qed
  ultimately show ?thesis by blast
qed

theorem weak_and_leased_witness:
  "is_upgradable (any_entity_downgrade sample_entity) (world_counts (sample_world {#1, 2#})) \<and>
   \<not> is_upgradable (any_entity_downgrade sample_entity) (world_counts (sample_world {#}))"
  using weak_and_leased [OF sample_keys sample_reach(1), of "any_entity_downgrade sample_entity"]
    weak_and_leased [OF sample_keys sample_reach(2), of "any_entity_downgrade sample_entity"]
  by (simp add: sample_world_def any_entity_downgrade_def sample_entity_def)

end
