(* ===== verification/Key_Dispatch.thy ===== *)
theory Key_Dispatch
  imports Keymap
begin

text \<open>
  \<open>gpui/src/key_dispatch.rs\<close>: the tree of dispatch nodes of a frame, and the dispatch of keystrokes along a path in it.
  The tree is a client of the keymap. Focus ids, view ids and listeners are type variables; the registry of actions is
  the function that builds the default action of a type. Stacks are vectors: their top is the last entry. A loop up
  the parents is a partial function, since it would not end on a tree with a cycle.
\<close>

section \<open>Type ids\<close>

text \<open>\<open>TypeId\<close> has some order; what is sorted by it is only ever searched.\<close>

fun type_id_rank :: "type_id \<Rightarrow> nat" where
  "type_id_rank Type_No_Action = 0"
| "type_id_rank Type_Unbind = 1"
| "type_id_rank (Type_User n) = n + 2"

lemma type_id_rank_inj: "type_id_rank a = type_id_rank b \<longleftrightarrow> a = b"
  by (cases a; cases b) simp_all

instantiation type_id :: linorder
begin

definition less_eq_type_id :: "type_id \<Rightarrow> type_id \<Rightarrow> bool" where
  "less_eq_type_id a b \<longleftrightarrow> type_id_rank a \<le> type_id_rank b"

definition less_type_id :: "type_id \<Rightarrow> type_id \<Rightarrow> bool" where
  "less_type_id a b \<longleftrightarrow> type_id_rank a < type_id_rank b"

instance
  by standard (auto simp: less_eq_type_id_def less_type_id_def type_id_rank_inj)

end

section \<open>Nodes and the tree\<close>

record ('f, 'v, 'l) dispatch_node =
  dn_key_listeners :: "'l list"
  dn_action_listeners :: "(type_id \<times> 'l) list"
  dn_modifiers_changed_listeners :: "'l list"
  dn_context :: "key_context option"
  dn_focus_id :: "'f option"
  dn_view_id :: "'v option"
  dn_parent :: "nat option"

definition dn_default :: "('f, 'v, 'l) dispatch_node" where
  "dn_default = \<lparr>dn_key_listeners = [], dn_action_listeners = [], dn_modifiers_changed_listeners = [], dn_context = None,
     dn_focus_id = None, dn_view_id = None, dn_parent = None\<rparr>"

record ('a, 'f, 'v, 'l) dispatch_tree =
  dt_node_stack :: "nat list"
  dt_context_stack :: "key_context list"
  dt_view_stack :: "'v list"
  dt_nodes :: "('f, 'v, 'l) dispatch_node list"
  dt_focusable_node_ids :: "'f \<rightharpoonup> nat"
  dt_view_node_ids :: "'v \<rightharpoonup> nat"
  dt_keymap :: "'a keymap"
  dt_action_registry :: "type_id \<Rightarrow> 'a action option"

definition dt_new :: "'a keymap \<Rightarrow> (type_id \<Rightarrow> 'a action option) \<Rightarrow> ('a, 'f, 'v, 'l) dispatch_tree" where
  "dt_new keymap registry =
     \<lparr>dt_node_stack = [], dt_context_stack = [], dt_view_stack = [], dt_nodes = [], dt_focusable_node_ids = Map.empty,
      dt_view_node_ids = Map.empty, dt_keymap = keymap, dt_action_registry = registry\<rparr>"

definition dt_clear :: "('a, 'f, 'v, 'l) dispatch_tree \<Rightarrow> ('a, 'f, 'v, 'l) dispatch_tree" where
  "dt_clear self = self\<lparr>dt_node_stack := [], dt_context_stack := [], dt_view_stack := [], dt_nodes := [],
     dt_focusable_node_ids := Map.empty, dt_view_node_ids := Map.empty\<rparr>"

definition dt_len :: "('a, 'f, 'v, 'l) dispatch_tree \<Rightarrow> nat" where
  "dt_len self = length (dt_nodes self)"

definition active_node_id :: "('a, 'f, 'v, 'l) dispatch_tree \<Rightarrow> nat option" where
  "active_node_id self = list_last (dt_node_stack self)"

definition dt_node :: "('a, 'f, 'v, 'l) dispatch_tree \<Rightarrow> nat \<Rightarrow> ('f, 'v, 'l) dispatch_node rust" where
  "dt_node self node_id = index_or_panic (dt_nodes self) node_id"

definition root_node_id :: "('a, 'f, 'v, 'l) dispatch_tree \<Rightarrow> nat rust" where
  "root_node_id self = do { _ \<leftarrow> assert_or_panic (dt_nodes self \<noteq> []); ret 0 }"

definition focusable_node_id :: "('a, 'f, 'v, 'l) dispatch_tree \<Rightarrow> 'f \<Rightarrow> nat option" where
  "focusable_node_id self target = dt_focusable_node_ids self target"

text \<open>An assignment through \<open>active_node\<close>.\<close>

definition with_active_node ::
  "(('f, 'v, 'l) dispatch_node \<Rightarrow> ('f, 'v, 'l) dispatch_node) \<Rightarrow> ('a, 'f, 'v, 'l) dispatch_tree \<Rightarrow> ('a, 'f, 'v, 'l) dispatch_tree rust" where
  "with_active_node f self = do {
     node_id \<leftarrow> active_node_id self;
     node \<leftarrow> index_or_panic (dt_nodes self) node_id;
     ret (self\<lparr>dt_nodes := (dt_nodes self)[node_id := f node]\<rparr>) }"

definition push_node :: "('a, 'f, 'v, 'l) dispatch_tree \<Rightarrow> ('a, 'f, 'v, 'l) dispatch_tree \<times> nat" where
  "push_node self = (
     let parent = list_last (dt_node_stack self);
         node_id = length (dt_nodes self)
     in (self\<lparr>dt_nodes := dt_nodes self @ [dn_default\<lparr>dn_parent := parent\<rparr>], dt_node_stack := dt_node_stack self @ [node_id]\<rparr>, node_id))"

definition pop_node :: "('a, 'f, 'v, 'l) dispatch_tree \<Rightarrow> ('a, 'f, 'v, 'l) dispatch_tree rust" where
  "pop_node self = do {
     node_id \<leftarrow> active_node_id self;
     node \<leftarrow> index_or_panic (dt_nodes self) node_id;
     ret (self\<lparr>dt_context_stack := (if dn_context node \<noteq> None then butlast (dt_context_stack self) else dt_context_stack self),
               dt_view_stack := (if dn_view_id node \<noteq> None then butlast (dt_view_stack self) else dt_view_stack self),
               dt_node_stack := butlast (dt_node_stack self)\<rparr>) }"

definition set_key_context :: "key_context \<Rightarrow> ('a, 'f, 'v, 'l) dispatch_tree \<Rightarrow> ('a, 'f, 'v, 'l) dispatch_tree rust" where
  "set_key_context context self = do {
     self \<leftarrow> with_active_node (\<lambda>node. node\<lparr>dn_context := Some context\<rparr>) self;
     ret (self\<lparr>dt_context_stack := dt_context_stack self @ [context]\<rparr>) }"

definition set_focus_id :: "'f \<Rightarrow> ('a, 'f, 'v, 'l) dispatch_tree \<Rightarrow> ('a, 'f, 'v, 'l) dispatch_tree rust" where
  "set_focus_id focus_id self = do {
     node_id \<leftarrow> list_last (dt_node_stack self);
     node \<leftarrow> index_or_panic (dt_nodes self) node_id;
     ret (self\<lparr>dt_nodes := (dt_nodes self)[node_id := node\<lparr>dn_focus_id := Some focus_id\<rparr>],
               dt_focusable_node_ids := (dt_focusable_node_ids self)(focus_id \<mapsto> node_id)\<rparr>) }"

definition set_view_id :: "'v \<Rightarrow> ('a, 'f, 'v, 'l) dispatch_tree \<Rightarrow> ('a, 'f, 'v, 'l) dispatch_tree rust" where
  "set_view_id view_id self =
     (if list_last (dt_view_stack self) \<noteq> Some view_id then do {
        node_id \<leftarrow> list_last (dt_node_stack self);
        node \<leftarrow> index_or_panic (dt_nodes self) node_id;
        ret (self\<lparr>dt_nodes := (dt_nodes self)[node_id := node\<lparr>dn_view_id := Some view_id\<rparr>],
                  dt_view_node_ids := (dt_view_node_ids self)(view_id \<mapsto> node_id),
                  dt_view_stack := dt_view_stack self @ [view_id]\<rparr>) }
      else ret self)"

section \<open>Going to another node\<close>

lemma pop_node_shorter: "pop_node self = ret self' \<Longrightarrow> length (dt_node_stack self') < length (dt_node_stack self)"
  by (auto simp: pop_node_def active_node_id_def list_last_def bind_eq_Some_conv split: if_splits)

function pop_until :: "nat option \<Rightarrow> ('a, 'f, 'v, 'l) dispatch_tree \<Rightarrow> ('a, 'f, 'v, 'l) dispatch_tree rust" where
  "pop_until next_node_parent self =
     (if list_last (dt_node_stack self) \<noteq> next_node_parent \<and> dt_node_stack self \<noteq> [] then
        (case pop_node self of None \<Rightarrow> panic | Some self' \<Rightarrow> pop_until next_node_parent self')
      else ret self)"
  by pat_completeness auto
termination
  by (relation "measure (\<lambda>(_, self). length (dt_node_stack self))") (simp_all add: pop_node_shorter)

text \<open>The loop from a node up to the root; the three stacks it fills are reversed at the end.\<close>

partial_function (option) activate_loop ::
  "('f, 'v, 'l) dispatch_node list \<Rightarrow> nat option \<Rightarrow> key_context list \<times> 'v list \<times> nat list \<Rightarrow>
   (key_context list \<times> 'v list \<times> nat list) rust" where
  "activate_loop nodes current acc =
     (case current of
        None \<Rightarrow> ret acc
      | Some node_id \<Rightarrow> do {
          node \<leftarrow> index_or_panic nodes node_id;
          (case acc of (context_stack, view_stack, node_stack) \<Rightarrow>
             activate_loop nodes (dn_parent node)
               (case dn_context node of Some context \<Rightarrow> context_stack @ [context] | None \<Rightarrow> context_stack,
                case dn_view_id node of Some view_id \<Rightarrow> view_stack @ [view_id] | None \<Rightarrow> view_stack,
                node_stack @ [node_id])) })"

declare activate_loop.simps [code]

definition set_active_node :: "nat \<Rightarrow> ('a, 'f, 'v, 'l) dispatch_tree \<Rightarrow> ('a, 'f, 'v, 'l) dispatch_tree rust" where
  "set_active_node node_id self = do {
     node \<leftarrow> index_or_panic (dt_nodes self) node_id;
     let next_node_parent = dn_parent node;
     self \<leftarrow> pop_until next_node_parent self;
     if list_last (dt_node_stack self) = next_node_parent then do {
       active_node \<leftarrow> index_or_panic (dt_nodes self) node_id;
       ret (self\<lparr>dt_node_stack := dt_node_stack self @ [node_id],
                 dt_view_stack := (case dn_view_id active_node of Some view_id \<Rightarrow> dt_view_stack self @ [view_id] | None \<Rightarrow> dt_view_stack self),
                 dt_context_stack := (case dn_context active_node of Some context \<Rightarrow> dt_context_stack self @ [context] | None \<Rightarrow> dt_context_stack self)\<rparr>) }
     else do {
       _ \<leftarrow> assert_or_panic (dt_node_stack self = []);
       (context_stack, view_stack, node_stack) \<leftarrow>
         activate_loop (dt_nodes self) (Some node_id) (dt_context_stack self, dt_view_stack self, dt_node_stack self);
       ret (self\<lparr>dt_context_stack := rev context_stack, dt_view_stack := rev view_stack, dt_node_stack := rev node_stack\<rparr>) } }"

section \<open>Reusing a part of an earlier tree\<close>

record reused_subtree =
  ru_old_range :: "nat \<times> nat"
  ru_new_range :: "nat \<times> nat"
  ru_contains_focus :: bool

definition refresh_node_id :: "reused_subtree \<Rightarrow> nat \<Rightarrow> nat rust" where
  "refresh_node_id self node_id = do {
     _ \<leftarrow> assert_or_panic (fst (ru_old_range self) \<le> node_id \<and> node_id < snd (ru_old_range self));
     offset \<leftarrow> checked_minus node_id (fst (ru_old_range self));
     ret (offset + fst (ru_new_range self)) }"

text \<open>\<open>move_node\<close>; the listeners are taken out of the source.\<close>

definition move_node ::
  "('f, 'v, 'l) dispatch_node \<Rightarrow> ('a, 'f, 'v, 'l) dispatch_tree \<Rightarrow>
   (('a, 'f, 'v, 'l) dispatch_tree \<times> ('f, 'v, 'l) dispatch_node) rust" where
  "move_node source self = do {
     let (self, _) = push_node self;
     self \<leftarrow> (case dn_context source of Some context \<Rightarrow> set_key_context context self | None \<Rightarrow> ret self);
     self \<leftarrow> (case dn_focus_id source of Some focus_id \<Rightarrow> set_focus_id focus_id self | None \<Rightarrow> ret self);
     self \<leftarrow> (case dn_view_id source of Some view_id \<Rightarrow> set_view_id view_id self | None \<Rightarrow> ret self);
     self \<leftarrow> with_active_node (\<lambda>target. target\<lparr>dn_key_listeners := dn_key_listeners source,
       dn_action_listeners := dn_action_listeners source,
       dn_modifiers_changed_listeners := dn_modifiers_changed_listeners source\<rparr>) self;
     ret (self, source\<lparr>dn_key_listeners := [], dn_action_listeners := [], dn_modifiers_changed_listeners := []\<rparr>) }"

text \<open>Leaving the moved nodes that are no ancestors of the next one; the stack of their old ids has its top first.\<close>

fun unwind_sources ::
  "nat option \<Rightarrow> nat list \<Rightarrow> ('a, 'f, 'v, 'l) dispatch_tree \<Rightarrow> (nat list \<times> ('a, 'f, 'v, 'l) dispatch_tree) rust" where
  "unwind_sources parent [] self = ret ([], self)"
| "unwind_sources parent (source_ancestor # source_stack) self =
     (if parent = Some source_ancestor then ret (source_ancestor # source_stack, self)
      else do { self \<leftarrow> pop_node self; unwind_sources parent source_stack self })"

fun pop_all :: "nat list \<Rightarrow> ('a, 'f, 'v, 'l) dispatch_tree \<Rightarrow> ('a, 'f, 'v, 'l) dispatch_tree rust" where
  "pop_all [] self = ret self"
| "pop_all (_ # source_stack) self = do { self \<leftarrow> pop_node self; pop_all source_stack self }"

fun reuse_loop ::
  "'f option \<Rightarrow> nat \<Rightarrow> ('f, 'v, 'l) dispatch_node list \<Rightarrow> nat list \<Rightarrow> bool \<Rightarrow> ('a, 'f, 'v, 'l) dispatch_tree \<Rightarrow>
   (('a, 'f, 'v, 'l) dispatch_tree \<times> ('f, 'v, 'l) dispatch_node list \<times> nat list \<times> bool) rust" where
  "reuse_loop focus source_node_id [] source_stack contains_focus self = ret (self, [], source_stack, contains_focus)"
| "reuse_loop focus source_node_id (source_node # rest) source_stack contains_focus self = do {
     (source_stack, self) \<leftarrow> unwind_sources (dn_parent source_node) source_stack self;
     let contains_focus = (contains_focus \<or> dn_focus_id source_node \<noteq> None \<and> dn_focus_id source_node = focus);
     (self, source_node) \<leftarrow> move_node source_node self;
     (self, moved, source_stack, contains_focus) \<leftarrow>
       reuse_loop focus (source_node_id + 1) rest (source_node_id # source_stack) contains_focus self;
     ret (self, source_node # moved, source_stack, contains_focus) }"

definition reuse_subtree ::
  "nat \<times> nat \<Rightarrow> 'f option \<Rightarrow> ('a, 'f, 'v, 'l) dispatch_tree \<Rightarrow> ('a, 'f, 'v, 'l) dispatch_tree \<Rightarrow>
   (('a, 'f, 'v, 'l) dispatch_tree \<times> ('a, 'f, 'v, 'l) dispatch_tree \<times> reused_subtree) rust" where
  "reuse_subtree old_range focus source self = do {
     let old_len = snd old_range - fst old_range;
     let new_range = (length (dt_nodes self), length (dt_nodes self) + old_len);
     let reused = take old_len (drop (fst old_range) (dt_nodes source));
     (self, moved, source_stack, contains_focus) \<leftarrow> reuse_loop focus (fst old_range) reused [] False self;
     self \<leftarrow> pop_all source_stack self;
     let source = source\<lparr>dt_nodes := take (fst old_range) (dt_nodes source) @ moved @ drop (fst old_range + length moved) (dt_nodes source)\<rparr>;
     ret (self, source, \<lparr>ru_old_range = old_range, ru_new_range = new_range, ru_contains_focus = contains_focus\<rparr>) }"

fun forget_ids ::
  "('f, 'v, 'l) dispatch_node list \<Rightarrow> ('f \<rightharpoonup> nat) \<times> ('v \<rightharpoonup> nat) \<Rightarrow> ('f \<rightharpoonup> nat) \<times> ('v \<rightharpoonup> nat)" where
  "forget_ids [] ids = ids"
| "forget_ids (node # nodes) (focusable, views) =
     forget_ids nodes
       (case dn_focus_id node of Some focus_id \<Rightarrow> focusable(focus_id := None) | None \<Rightarrow> focusable,
        case dn_view_id node of Some view_id \<Rightarrow> views(view_id := None) | None \<Rightarrow> views)"

definition dt_truncate :: "nat \<Rightarrow> ('a, 'f, 'v, 'l) dispatch_tree \<Rightarrow> ('a, 'f, 'v, 'l) dispatch_tree rust" where
  "dt_truncate index self = do {
     removed \<leftarrow> slice_from (dt_nodes self) index;
     let (focusable, views) = forget_ids removed (dt_focusable_node_ids self, dt_view_node_ids self);
     ret (self\<lparr>dt_focusable_node_ids := focusable, dt_view_node_ids := views, dt_nodes := take index (dt_nodes self)\<rparr>) }"

section \<open>Listeners\<close>

definition on_key_event :: "'l \<Rightarrow> ('a, 'f, 'v, 'l) dispatch_tree \<Rightarrow> ('a, 'f, 'v, 'l) dispatch_tree rust" where
  "on_key_event listener = with_active_node (\<lambda>node. node\<lparr>dn_key_listeners := dn_key_listeners node @ [listener]\<rparr>)"

definition on_modifiers_changed :: "'l \<Rightarrow> ('a, 'f, 'v, 'l) dispatch_tree \<Rightarrow> ('a, 'f, 'v, 'l) dispatch_tree rust" where
  "on_modifiers_changed listener =
     with_active_node (\<lambda>node. node\<lparr>dn_modifiers_changed_listeners := dn_modifiers_changed_listeners node @ [listener]\<rparr>)"

definition on_action :: "type_id \<Rightarrow> 'l \<Rightarrow> ('a, 'f, 'v, 'l) dispatch_tree \<Rightarrow> ('a, 'f, 'v, 'l) dispatch_tree rust" where
  "on_action action_type listener =
     with_active_node (\<lambda>node. node\<lparr>dn_action_listeners := dn_action_listeners node @ [(action_type, listener)]\<rparr>)"

section \<open>Paths\<close>

partial_function (option) focus_contains_loop ::
  "('f, 'v, 'l) dispatch_node list \<Rightarrow> nat \<Rightarrow> nat option \<Rightarrow> bool rust" where
  "focus_contains_loop nodes parent_node_id current =
     (case current of
        None \<Rightarrow> ret False
      | Some node_id \<Rightarrow>
          if node_id = parent_node_id then ret True
          else do { node \<leftarrow> index_or_panic nodes node_id; focus_contains_loop nodes parent_node_id (dn_parent node) })"

declare focus_contains_loop.simps [code]

definition focus_contains :: "('a, 'f, 'v, 'l) dispatch_tree \<Rightarrow> 'f \<Rightarrow> 'f \<Rightarrow> bool rust" where
  "focus_contains self parent child =
     (if parent = child then ret True
      else (case dt_focusable_node_ids self parent of
              Some parent_node_id \<Rightarrow> focus_contains_loop (dt_nodes self) parent_node_id (dt_focusable_node_ids self child)
            | None \<Rightarrow> ret False))"

text \<open>\<open>dispatch_path\<close> and \<open>focus_path\<close>, reversed at the end; an unknown target is a path of its own.\<close>

partial_function (option) dispatch_path_loop ::
  "('f, 'v, 'l) dispatch_node list \<Rightarrow> nat option \<Rightarrow> nat list \<Rightarrow> nat list rust" where
  "dispatch_path_loop nodes current path =
     (case current of
        None \<Rightarrow> ret path
      | Some node_id \<Rightarrow>
          dispatch_path_loop nodes (case list_get nodes node_id of Some node \<Rightarrow> dn_parent node | None \<Rightarrow> None) (path @ [node_id]))"

declare dispatch_path_loop.simps [code]

definition dispatch_path :: "('a, 'f, 'v, 'l) dispatch_tree \<Rightarrow> nat \<Rightarrow> nat list rust" where
  "dispatch_path self target = do { path \<leftarrow> dispatch_path_loop (dt_nodes self) (Some target) []; ret (rev path) }"

partial_function (option) focus_path_loop ::
  "('f, 'v, 'l) dispatch_node list \<Rightarrow> nat option \<Rightarrow> 'f list \<Rightarrow> 'f list rust" where
  "focus_path_loop nodes current path =
     (case current of
        None \<Rightarrow> ret path
      | Some node_id \<Rightarrow> do {
          node \<leftarrow> index_or_panic nodes node_id;
          focus_path_loop nodes (dn_parent node) (case dn_focus_id node of Some focus_id \<Rightarrow> path @ [focus_id] | None \<Rightarrow> path) })"

declare focus_path_loop.simps [code]

definition focus_path :: "('a, 'f, 'v, 'l) dispatch_tree \<Rightarrow> 'f \<Rightarrow> 'f list rust" where
  "focus_path self focus_id = do { path \<leftarrow> focus_path_loop (dt_nodes self) (dt_focusable_node_ids self focus_id) []; ret (rev path) }"

partial_function (option) view_path_loop :: "('f, 'v, 'l) dispatch_node list \<Rightarrow> nat option \<Rightarrow> 'v list rust" where
  "view_path_loop nodes current =
     (case current of
        None \<Rightarrow> ret []
      | Some node_id \<Rightarrow> do {
          node \<leftarrow> index_or_panic nodes node_id;
          rest \<leftarrow> view_path_loop nodes (dn_parent node);
          ret (case dn_view_id node of Some view_id \<Rightarrow> view_id # rest | None \<Rightarrow> rest) })"

declare view_path_loop.simps [code]

definition view_path_reversed :: "('a, 'f, 'v, 'l) dispatch_tree \<Rightarrow> 'v \<Rightarrow> 'v list rust" where
  "view_path_reversed self view_id = view_path_loop (dt_nodes self) (dt_view_node_ids self view_id)"

section \<open>Actions\<close>

text \<open>\<open>binary_search_by_key\<close> on a vector that is sorted by the key: the entry with the key, or where it belongs.\<close>

definition binary_search_by_key :: "'k::linorder \<Rightarrow> ('x \<Rightarrow> 'k) \<Rightarrow> 'x list \<Rightarrow> nat + nat" where
  "binary_search_by_key b f xs = (
     let ix = length (takeWhile (\<lambda>x. f x < b) xs) in
     if ix < length xs \<and> f (xs ! ix) = b then Inr ix else Inl ix)"

fun add_available ::
  "'a action_ops \<Rightarrow> (type_id \<Rightarrow> 'a action option) \<Rightarrow> 'a action list \<Rightarrow> (type_id \<times> 'l) list \<Rightarrow> 'a action list" where
  "add_available ops registry actions [] = actions"
| "add_available ops registry actions ((action_type, _) # listeners) =
     add_available ops registry
       (case binary_search_by_key action_type (action_type_id ops) actions of
          Inl ix \<Rightarrow> (case registry action_type of Some action \<Rightarrow> take ix actions @ action # drop ix actions | None \<Rightarrow> actions)
        | Inr _ \<Rightarrow> actions) listeners"

definition available_actions ::
  "'a action_ops \<Rightarrow> ('a, 'f, 'v, 'l) dispatch_tree \<Rightarrow> nat \<Rightarrow> 'a action list rust" where
  "available_actions ops self target = do {
     path \<leftarrow> dispatch_path self target;
     fold_rust (\<lambda>actions node_id. do {
       node \<leftarrow> index_or_panic (dt_nodes self) node_id;
       ret (add_available ops (dt_action_registry self) actions (dn_action_listeners node)) }) [] path }"

fun action_available_loop :: "'a action_ops \<Rightarrow> ('f, 'v, 'l) dispatch_node list \<Rightarrow> 'a action \<Rightarrow> nat list \<Rightarrow> bool rust" where
  "action_available_loop ops nodes action [] = ret False"
| "action_available_loop ops nodes action (node_id # path) = do {
     node \<leftarrow> index_or_panic nodes node_id;
     if list_ex (\<lambda>(action_type, _). action_type = action_type_id ops action) (dn_action_listeners node) then ret True
     else action_available_loop ops nodes action path }"

definition is_action_available :: "'a action_ops \<Rightarrow> ('a, 'f, 'v, 'l) dispatch_tree \<Rightarrow> 'a action \<Rightarrow> nat \<Rightarrow> bool rust" where
  "is_action_available ops self action target = do {
     path \<leftarrow> dispatch_path self target;
     action_available_loop ops (dt_nodes self) action path }"

section \<open>Bindings\<close>

definition matches_and_not_shadowed ::
  "target_os \<Rightarrow> 'a action_ops \<Rightarrow> 'a keymap \<Rightarrow> 'a key_binding \<Rightarrow> key_context list \<Rightarrow> bool" where
  "matches_and_not_shadowed os ops keymap binding context_stack =
     (case fst (bindings_for_input os ops keymap (map kk_inner (kb_keystrokes binding)) context_stack) of
        found # _ \<Rightarrow> action_partial_eq ops (kb_action found) (kb_action binding)
      | [] \<Rightarrow> False)"

definition dt_bindings_for_action ::
  "target_os \<Rightarrow> 'a action_ops \<Rightarrow> ('a, 'f, 'v, 'l) dispatch_tree \<Rightarrow> 'a action \<Rightarrow> key_context list \<Rightarrow> 'a key_binding list rust" where
  "dt_bindings_for_action os ops self action context_stack = do {
     bindings \<leftarrow> bindings_for_action ops (dt_keymap self) action;
     ret (filter (\<lambda>binding. matches_and_not_shadowed os ops (dt_keymap self) binding context_stack) bindings) }"

definition highest_precedence_binding_for_action ::
  "target_os \<Rightarrow> 'a action_ops \<Rightarrow> ('a, 'f, 'v, 'l) dispatch_tree \<Rightarrow> 'a action \<Rightarrow> key_context list \<Rightarrow> 'a key_binding option rust" where
  "highest_precedence_binding_for_action os ops self action context_stack = do {
     bindings \<leftarrow> bindings_for_action ops (dt_keymap self) action;
     ret (find (\<lambda>binding. matches_and_not_shadowed os ops (dt_keymap self) binding context_stack) (rev bindings)) }"

fun path_contexts :: "('f, 'v, 'l) dispatch_node list \<Rightarrow> nat list \<Rightarrow> key_context list rust" where
  "path_contexts nodes [] = ret []"
| "path_contexts nodes (node_id # path) = do {
     node \<leftarrow> index_or_panic nodes node_id;
     rest \<leftarrow> path_contexts nodes path;
     ret (case dn_context node of Some context \<Rightarrow> context # rest | None \<Rightarrow> rest) }"

definition dt_bindings_for_input ::
  "target_os \<Rightarrow> 'a action_ops \<Rightarrow> ('a, 'f, 'v, 'l) dispatch_tree \<Rightarrow> keystroke list \<Rightarrow> nat list \<Rightarrow>
   ('a key_binding list \<times> bool \<times> key_context list) rust" where
  "dt_bindings_for_input os ops self input path = do {
     context_stack \<leftarrow> path_contexts (dt_nodes self) path;
     let (bindings, partial) = bindings_for_input os ops (dt_keymap self) input context_stack;
     ret (bindings, partial, context_stack) }"

definition dt_possible_next_bindings ::
  "target_os \<Rightarrow> 'a action_ops \<Rightarrow> ('a, 'f, 'v, 'l) dispatch_tree \<Rightarrow> keystroke list \<Rightarrow> key_context list \<Rightarrow> 'a key_binding list" where
  "dt_possible_next_bindings os ops self input context_stack = possible_next_bindings_for_input os ops (dt_keymap self) input context_stack"

section \<open>Dispatching keystrokes\<close>

record 'a key_replay =
  rp_keystroke :: keystroke
  rp_bindings :: "'a key_binding list"

record 'a dispatch_result =
  dr_pending :: "keystroke list"
  dr_pending_has_binding :: bool
  dr_bindings :: "'a key_binding list"
  dr_to_replay :: "'a key_replay list"
  dr_context_stack :: "key_context list"

definition dr_default :: "'a dispatch_result" where
  "dr_default = \<lparr>dr_pending = [], dr_pending_has_binding = False, dr_bindings = [], dr_to_replay = [], dr_context_stack = []\<rparr>"

text \<open>The loop of \<open>replay_prefix\<close> over the ends of prefixes, from the longest one down; \<open>n\<close> is one past the next end.\<close>

fun replay_loop ::
  "target_os \<Rightarrow> 'a action_ops \<Rightarrow> ('a, 'f, 'v, 'l) dispatch_tree \<Rightarrow> keystroke list \<Rightarrow> nat list \<Rightarrow> nat \<Rightarrow>
   (keystroke list \<times> 'a key_replay list) rust" where
  "replay_loop os ops self input path 0 = ret (input, [])"
| "replay_loop os ops self input path (Suc last_ix) = do {
     prefix \<leftarrow> slice_to input (last_ix + 1);
     (bindings, _, _) \<leftarrow> dt_bindings_for_input os ops self prefix path;
     if bindings \<noteq> [] then do {
       keystroke \<leftarrow> list_last prefix;
       ret (drop (last_ix + 1) input, [\<lparr>rp_keystroke = keystroke, rp_bindings = bindings\<rparr>]) }
     else replay_loop os ops self input path last_ix }"

definition replay_prefix ::
  "target_os \<Rightarrow> 'a action_ops \<Rightarrow> ('a, 'f, 'v, 'l) dispatch_tree \<Rightarrow> keystroke list \<Rightarrow> nat list \<Rightarrow>
   (keystroke list \<times> 'a key_replay list) rust" where
  "replay_prefix os ops self input path = do {
     (input, to_replay) \<leftarrow> replay_loop os ops self input path (length input);
     if to_replay = [] then
       (case input of [] \<Rightarrow> panic | keystroke # rest \<Rightarrow> ret (rest, [\<lparr>rp_keystroke = keystroke, rp_bindings = []\<rparr>]))
     else ret (input, to_replay) }"

lemma replay_loop_shorter:
  "replay_loop os ops self input path n = ret (rest, replays) \<Longrightarrow>
   (replays = [] \<and> rest = input) \<or> length rest < length input"
proof (induction n)
  case (Suc n)
  then show ?case by (auto simp: bind_eq_Some_conv slice_to_def split: if_splits)
qed simp

lemma replay_prefix_shorter: "replay_prefix os ops self input path = ret (rest, replays) \<Longrightarrow> length rest < length input"
  by (auto simp: replay_prefix_def bind_eq_Some_conv split: if_splits list.splits dest!: replay_loop_shorter)

function dispatch_key ::
  "target_os \<Rightarrow> 'a action_ops \<Rightarrow> ('a, 'f, 'v, 'l) dispatch_tree \<Rightarrow> keystroke list \<Rightarrow> keystroke \<Rightarrow> nat list \<Rightarrow> 'a dispatch_result rust" where
  "dispatch_key os ops self input keystroke path =
     (case dt_bindings_for_input os ops self (input @ [keystroke]) path of
        None \<Rightarrow> panic
      | Some (bindings, pending, context_stack) \<Rightarrow>
          if pending then
            ret (dr_default\<lparr>dr_pending := input @ [keystroke], dr_pending_has_binding := bindings \<noteq> [], dr_context_stack := context_stack\<rparr>)
          else if bindings \<noteq> [] then ret (dr_default\<lparr>dr_bindings := bindings, dr_context_stack := context_stack\<rparr>)
          else if length (input @ [keystroke]) = 1 then ret (dr_default\<lparr>dr_context_stack := context_stack\<rparr>)
          else
            (case replay_prefix os ops self input path of
               None \<Rightarrow> panic
             | Some (suffix, to_replay) \<Rightarrow>
                 (case dispatch_key os ops self suffix keystroke path of
                    None \<Rightarrow> panic
                  | Some result \<Rightarrow> ret (result\<lparr>dr_to_replay := to_replay @ dr_to_replay result\<rparr>))))"
  by pat_completeness auto
termination
  by (relation "measure (\<lambda>(_, _, _, input, _, _). length input)") (auto dest: replay_prefix_shorter)

function flush_dispatch ::
  "target_os \<Rightarrow> 'a action_ops \<Rightarrow> ('a, 'f, 'v, 'l) dispatch_tree \<Rightarrow> keystroke list \<Rightarrow> nat list \<Rightarrow> 'a key_replay list rust" where
  "flush_dispatch os ops self input path =
     (case replay_prefix os ops self input path of
        None \<Rightarrow> panic
      | Some (suffix, to_replay) \<Rightarrow>
          if suffix \<noteq> [] then
            (case flush_dispatch os ops self suffix path of None \<Rightarrow> panic | Some replays \<Rightarrow> ret (to_replay @ replays))
          else ret to_replay)"
  by pat_completeness auto
termination
  by (relation "measure (\<lambda>(_, _, _, input, _). length input)") (auto dest: replay_prefix_shorter)

declare pop_until.simps [simp del] dispatch_key.simps [simp del] flush_dispatch.simps [simp del]

end
