(* ===== verification/Key_Dispatch_Properties.thy ===== *)
theory Key_Dispatch_Properties
  imports Key_Dispatch "HOL-Library.Sublist"
begin

text \<open>
  What key dispatch promises: keystrokes that were held back are replayed completely and in order, and the stacks of a
  dispatch tree are those of the path to its active node.
\<close>

section \<open>Replaying\<close>

text \<open>
  The specification of a replay step: the longest prefix of the input that has bindings is taken, or one
  keystroke when no prefix has any.
\<close>

definition longest_prefix :: "(keystroke list \<Rightarrow> 'b list) \<Rightarrow> keystroke list \<Rightarrow> keystroke list \<Rightarrow> bool" where
  "longest_prefix B xs seg \<longleftrightarrow> seg \<noteq> [] \<and> prefix seg xs \<and>
     (if \<exists>p. p \<noteq> [] \<and> prefix p xs \<and> B p \<noteq> []
      then B seg \<noteq> [] \<and> (\<forall>p. prefix p xs \<and> length seg < length p \<longrightarrow> B p = []) else length seg = 1)"

inductive replays :: "(keystroke list \<Rightarrow> 'b list) \<Rightarrow> keystroke list \<Rightarrow> keystroke list list \<Rightarrow> keystroke list \<Rightarrow> bool" for B where
  stop: "replays B xs [] xs"
| step: "longest_prefix B (seg @ xs) seg \<Longrightarrow> replays B xs segs rest \<Longrightarrow> replays B (seg @ xs) (seg # segs) rest"

lemma longest_prefix_nonempty: "longest_prefix B xs seg \<Longrightarrow> seg \<noteq> []"
  by (simp add: longest_prefix_def)

lemma replays_concat: "replays B xs segs rest \<Longrightarrow> xs = concat segs @ rest"
  by (induction rule: replays.induct) simp_all

definition segment_replay :: "(keystroke list \<Rightarrow> 'a key_binding list) \<Rightarrow> keystroke list \<Rightarrow> 'a key_replay" where
  "segment_replay B seg = \<lparr>rp_keystroke = last seg, rp_bindings = B seg\<rparr>"

text \<open>The bindings of an input in the contexts of a path.\<close>

definition path_bindings ::
  "target_os \<Rightarrow> 'a action_ops \<Rightarrow> ('a, 'f, 'v, 'l) dispatch_tree \<Rightarrow> key_context list \<Rightarrow> keystroke list \<Rightarrow> 'a key_binding list" where
  "path_bindings os ops self contexts input = fst (bindings_for_input os ops (dt_keymap self) input contexts)"

lemma dt_bindings_ok:
  "path_contexts (dt_nodes self) path = ret contexts \<Longrightarrow>
   dt_bindings_for_input os ops self input path =
     ret (path_bindings os ops self contexts input, snd (bindings_for_input os ops (dt_keymap self) input contexts), contexts)"
  by (simp add: dt_bindings_for_input_def path_bindings_def split: prod.split)

lemma replay_loop_ok:
  assumes "path_contexts (dt_nodes self) path = ret contexts"
  shows "n \<le> length input \<Longrightarrow>
    (\<exists>k. 0 < k \<and> k \<le> n \<and> path_bindings os ops self contexts (take k input) \<noteq> [] \<and>
       (\<forall>j. k < j \<and> j \<le> n \<longrightarrow> path_bindings os ops self contexts (take j input) = []) \<and>
       replay_loop os ops self input path n =
         ret (drop k input, [segment_replay (path_bindings os ops self contexts) (take k input)])) \<or>
    (\<forall>k. 0 < k \<and> k \<le> n \<longrightarrow> path_bindings os ops self contexts (take k input) = []) \<and>
      replay_loop os ops self input path n = ret (input, [])"
proof (induction n)
  case (Suc n)
  let ?B = "path_bindings os ops self contexts"
  have prefix: "slice_to input (Suc n) = ret (take (Suc n) input)" "take (Suc n) input \<noteq> []"
    using Suc.prems by (auto simp: slice_to_def)
  show ?case
  proof (cases "?B (take (Suc n) input) = []")
    case True
    then have "replay_loop os ops self input path (Suc n) = replay_loop os ops self input path n"
      by (simp add: prefix dt_bindings_ok [OF assms])
    then show ?thesis using Suc.IH Suc.prems True by (smt (verit) Suc_leD le_SucE le_Suc_eq)
  next
    case False
    then have "replay_loop os ops self input path (Suc n) = ret (drop (Suc n) input, [segment_replay ?B (take (Suc n) input)])"
      using prefix(2) by (simp add: prefix(1) dt_bindings_ok [OF assms] list_last_last segment_replay_def)
    then show ?thesis using False by (intro disjI1 exI [of _ "Suc n"]) auto
  qed
qed simp

lemma prefix_take: "prefix p xs \<longleftrightarrow> (\<exists>k \<le> length xs. p = take k xs)"
  by (metis append_eq_conv_conj length_append le_add1 prefix_def take_is_prefix)

lemma replay_prefix_ok:
  assumes ctx: "path_contexts (dt_nodes self) path = ret contexts" and ne: "input \<noteq> []"
  obtains seg rest where "input = seg @ rest" "longest_prefix (path_bindings os ops self contexts) input seg"
    "replay_prefix os ops self input path = ret (rest, [segment_replay (path_bindings os ops self contexts) seg])"
proof -
  let ?B = "path_bindings os ops self contexts"
  consider k where "0 < k" "k \<le> length input" "?B (take k input) \<noteq> []" "\<forall>j. k < j \<and> j \<le> length input \<longrightarrow> ?B (take j input) = []"
      "replay_loop os ops self input path (length input) = ret (drop k input, [segment_replay ?B (take k input)])"
    | "\<forall>k. 0 < k \<and> k \<le> length input \<longrightarrow> ?B (take k input) = []"
      "replay_loop os ops self input path (length input) = ret (input, [])"
    using replay_loop_ok [OF ctx, of "length input" input os ops] by blast
  then show ?thesis
  proof cases
    case 1
    have some: "\<exists>p. p \<noteq> [] \<and> prefix p input \<and> ?B p \<noteq> []"
      using 1(1-3) ne by (intro exI [of _ "take k input"]) (simp add: take_is_prefix)
    have "?B p = []" if "prefix p input" "length (take k input) < length p" for p
      using that 1(2,4) unfolding prefix_take by auto
    then have "longest_prefix ?B input (take k input)"
      unfolding longest_prefix_def if_P [OF some] using 1(1-3) ne by (simp add: take_is_prefix)
    then show ?thesis using that [of "take k input" "drop k input"] 1(5) by (simp add: replay_prefix_def)
  next
    case 2
    obtain x xs where input: "input = x # xs" using ne by (cases input) auto
    have none: "?B p = []" if "p \<noteq> []" "prefix p input" for p
      using 2(1) that unfolding prefix_take by (metis le0 neq0_conv take_eq_Nil)
    then have "longest_prefix ?B input [x]" unfolding longest_prefix_def using input by auto
    moreover have "replay_prefix os ops self input path = ret (xs, [segment_replay ?B [x]])"
      unfolding replay_prefix_def 2(2) bind.bind_lunit prod.case using none [of "[x]"] by (simp add: segment_replay_def input)
    ultimately show ?thesis using that [of "[x]" xs] input by simp
  qed
qed

text \<open>A tree without nodes, a keystroke, and actions that are strings.\<close>

definition bare_tree :: "(string, nat, nat, nat) dispatch_tree" where
  "bare_tree = dt_new keymap_default Map.empty"

definition bare_key :: "string \<Rightarrow> keystroke" where
  "bare_key key = \<lparr>ks_modifiers = modifiers_none, ks_key = key, ks_key_char = None\<rparr>"

definition string_ops :: "string action_ops" where
  "string_ops = \<lparr>op_type_id = length, op_name = (\<lambda>a. a), op_partial_eq = (=)\<rparr>"

text \<open>C18: keystrokes that were held back are never lost. A flush of pending input replays it completely: segment by
  segment, each the longest prefix of what is left that has bindings, or one keystroke without any.\<close>

theorem flush_replays_all:
  assumes "path_contexts (dt_nodes self) path = ret contexts" "input \<noteq> []"
  shows "\<exists>segs. replays (path_bindings os ops self contexts) input segs [] \<and> concat segs = input \<and>
    flush_dispatch os ops self input path = ret (map (segment_replay (path_bindings os ops self contexts)) segs)"
  using assms(2)
proof (induction "length input" arbitrary: input rule: less_induct)
  case less
  obtain seg rest where r: "input = seg @ rest" "longest_prefix (path_bindings os ops self contexts) input seg"
      "replay_prefix os ops self input path = ret (rest, [segment_replay (path_bindings os ops self contexts) seg])"
    by (rule replay_prefix_ok [OF assms(1) less.prems])
  show ?case
  proof (cases "rest = []")
    case True
    have "replays (path_bindings os ops self contexts) (seg @ []) [seg] []"
      using r True by (intro replays.step replays.stop) simp
    moreover have "flush_dispatch os ops self input path = ret [segment_replay (path_bindings os ops self contexts) seg]"
      by (subst flush_dispatch.simps) (simp add: r(3) True)
    ultimately show ?thesis using r(1) True by (intro exI [of _ "[seg]"]) simp
  next
    case False
    have "length rest < length input" using r(1) longest_prefix_nonempty [OF r(2)] by simp
    from less.hyps [OF this False] obtain segs where segs: "replays (path_bindings os ops self contexts) rest segs []" "concat segs = rest"
        "flush_dispatch os ops self rest path = ret (map (segment_replay (path_bindings os ops self contexts)) segs)" by blast
    have "replays (path_bindings os ops self contexts) input (seg # segs) []"
      unfolding r(1) by (rule replays.step [OF r(2) [unfolded r(1)] segs(1)])
    moreover have "flush_dispatch os ops self input path = ret (map (segment_replay (path_bindings os ops self contexts)) (seg # segs))"
      by (subst flush_dispatch.simps) (simp add: r(3) False segs(3))
    ultimately show ?thesis using segs(2) r(1) by (intro exI [of _ "seg # segs"]) simp
  qed
qed

theorem flush_replays_all_witness:
  "\<exists>segs. replays (path_bindings Linux string_ops bare_tree []) [bare_key ''a'', bare_key ''b''] segs [] \<and>
    concat segs = [bare_key ''a'', bare_key ''b''] \<and>
    flush_dispatch Linux string_ops bare_tree [bare_key ''a'', bare_key ''b''] [] =
      ret (map (segment_replay (path_bindings Linux string_ops bare_tree [])) segs)"
  by (rule flush_replays_all) simp_all

text \<open>C36: dispatching a keystroke after pending input always ends. The input is replayed segment by segment as long as it has
  no bindings together with the new keystroke and cannot get any; then the rest with the keystroke is pending, or it is
  dispatched to its bindings, or only the keystroke is left and has none.\<close>

theorem dispatch_key_complete:
  assumes "path_contexts (dt_nodes self) path = ret contexts"
  shows "\<exists>segs rest r. dispatch_key os ops self input keystroke path = ret r \<and>
    replays (path_bindings os ops self contexts) input segs rest \<and> concat segs @ rest = input \<and>
    dr_to_replay r = map (segment_replay (path_bindings os ops self contexts)) segs \<and> dr_context_stack r = contexts \<and>
    (\<forall>done left. segs = done @ left \<and> left \<noteq> [] \<longrightarrow>
       bindings_for_input os ops (dt_keymap self) (concat left @ rest @ [keystroke]) contexts = ([], False)) \<and>
    (case bindings_for_input os ops (dt_keymap self) (rest @ [keystroke]) contexts of (bindings, pending) \<Rightarrow>
       dr_pending r = (if pending then rest @ [keystroke] else []) \<and> dr_pending_has_binding r = (pending \<and> bindings \<noteq> []) \<and>
       dr_bindings r = (if pending then [] else bindings) \<and> (\<not> pending \<and> bindings = [] \<longrightarrow> rest = []))"
proof (induction "length input" arbitrary: input rule: less_induct)
  case less
  let ?B = "path_bindings os ops self contexts"
  let ?full = "\<lambda>xs. bindings_for_input os ops (dt_keymap self) (xs @ [keystroke]) contexts"
  have found: "dt_bindings_for_input os ops self (input @ [keystroke]) path = ret (fst (?full input), snd (?full input), contexts)"
    by (simp add: dt_bindings_ok [OF assms] path_bindings_def)
  show ?case
  proof (cases "snd (?full input) \<or> fst (?full input) \<noteq> [] \<or> input = []")
    case True
    let ?r = "if snd (?full input) then dr_default\<lparr>dr_pending := input @ [keystroke], dr_pending_has_binding := fst (?full input) \<noteq> [],
        dr_context_stack := contexts\<rparr>
      else dr_default\<lparr>dr_bindings := fst (?full input), dr_context_stack := contexts\<rparr>"
    have "dispatch_key os ops self input keystroke path = ret ?r"
      using True by (subst dispatch_key.simps) (auto simp: found dr_default_def)
    moreover have "replays ?B input [] input" by (rule replays.stop)
    ultimately show ?thesis using True
      by - (rule exI [of _ "[]"], rule exI [of _ input], rule exI [of _ ?r], auto simp: dr_default_def split: prod.split)
  next
    case False
    then have stuck: "?full input = ([], False)" "input \<noteq> []" by (simp_all add: prod_eq_iff)
    obtain seg more where r: "input = seg @ more" "longest_prefix ?B input seg"
        "replay_prefix os ops self input path = ret (more, [segment_replay ?B seg])"
      by (rule replay_prefix_ok [OF assms stuck(2)])
    have "length more < length input" using r(1) longest_prefix_nonempty [OF r(2)] by simp
    note less.hyps [OF this]
    then obtain segs rest r' where IH: "dispatch_key os ops self more keystroke path = ret r'"
        "replays ?B more segs rest" "concat segs @ rest = more" "dr_to_replay r' = map (segment_replay ?B) segs" "dr_context_stack r' = contexts"
        "\<forall>done left. segs = done @ left \<and> left \<noteq> [] \<longrightarrow>
           bindings_for_input os ops (dt_keymap self) (concat left @ rest @ [keystroke]) contexts = ([], False)"
        "case ?full rest of (bindings, pending) \<Rightarrow>
          dr_pending r' = (if pending then rest @ [keystroke] else []) \<and> dr_pending_has_binding r' = (pending \<and> bindings \<noteq> []) \<and>
          dr_bindings r' = (if pending then [] else bindings) \<and> (\<not> pending \<and> bindings = [] \<longrightarrow> rest = [])"
      by - (elim exE conjE, rule that)
    have "dispatch_key os ops self input keystroke path = ret (r'\<lparr>dr_to_replay := segment_replay ?B seg # dr_to_replay r'\<rparr>)"
      by (subst dispatch_key.simps) (simp add: found stuck r(3) IH(1))
    moreover have "replays ?B input (seg # segs) rest" unfolding r(1) by (rule replays.step [OF r(2) [unfolded r(1)] IH(2)])
    moreover have "bindings_for_input os ops (dt_keymap self) (concat left @ rest @ [keystroke]) contexts = ([], False)"
      if "seg # segs = done @ left" "left \<noteq> []" for "done" left
    proof (cases "done")
      case Nil
      then have "concat left @ rest = input" using that IH(3) r(1) by auto
      then show ?thesis using stuck(1) by (metis append_assoc)
    next
      case (Cons d ds)
      then show ?thesis using that IH(6) by simp
    qed
    ultimately show ?thesis using IH(3,4,5,7) r(1)
      by - (rule exI [of _ "seg # segs"], rule exI [of _ rest],
        rule exI [of _ "r'\<lparr>dr_to_replay := segment_replay ?B seg # dr_to_replay r'\<rparr>"], intro conjI allI impI, simp_all)
  qed
qed

theorem dispatch_key_complete_witness:
  "\<exists>segs rest r. dispatch_key Linux string_ops bare_tree [bare_key ''a''] (bare_key ''b'') [] = ret r \<and>
    replays (path_bindings Linux string_ops bare_tree []) [bare_key ''a''] segs rest \<and> concat segs @ rest = [bare_key ''a''] \<and>
    dr_to_replay r = map (segment_replay (path_bindings Linux string_ops bare_tree [])) segs \<and> dr_context_stack r = []"
  using dispatch_key_complete [OF path_contexts.simps(1), of Linux string_ops bare_tree "[bare_key ''a'']" "bare_key ''b''"] by blast

end
