(* ===== verification/Dispatch_Tree.thy ===== *)
theory Dispatch_Tree
  imports Key_Dispatch
begin

text \<open>
  The invariant of a dispatch tree: a parent comes before its children, the stack of nodes is the path from the root
  to the active node, and the other two stacks are the contexts and the views along that path.
\<close>

section \<open>Paths from the root\<close>

definition parents_below :: "('f, 'v, 'l) dispatch_node list \<Rightarrow> bool" where
  "parents_below nodes \<longleftrightarrow> (\<forall>i < length nodes. \<forall>p. dn_parent (nodes ! i) = Some p \<longrightarrow> p < i)"

function root_path :: "('f, 'v, 'l) dispatch_node list \<Rightarrow> nat \<Rightarrow> nat list" where
  "root_path nodes i =
     (if i < length nodes then
        (case dn_parent (nodes ! i) of Some p \<Rightarrow> if p < i then root_path nodes p @ [i] else [i] | None \<Rightarrow> [i])
      else [i])"
  by pat_completeness auto
termination by (relation "measure snd") simp_all

declare root_path.simps [simp del]

lemma root_path_parent:
  assumes "parents_below nodes" "i < length nodes"
  shows "root_path nodes i = (case dn_parent (nodes ! i) of Some p \<Rightarrow> root_path nodes p @ [i] | None \<Rightarrow> [i])"
  using assms by (subst root_path.simps) (auto simp: parents_below_def split: option.split)

lemma root_path_last: "\<exists>xs. root_path nodes i = xs @ [i]"
  by (subst root_path.simps) (simp split: option.split)

lemma root_path_nonempty [simp]: "root_path nodes i \<noteq> []" "last (root_path nodes i) = i"
  using root_path_last [of nodes i] by auto

lemma root_path_bound: "j \<in> set (root_path nodes i) \<Longrightarrow> j \<le> i"
proof (induction nodes i rule: root_path.induct)
  case (1 nodes i)
  then show ?case by (subst (asm) (2) root_path.simps) (force split: if_splits option.splits)
qed

lemma root_path_below: "parents_below nodes \<Longrightarrow> i < length nodes \<Longrightarrow> j \<in> set (butlast (root_path nodes i)) \<Longrightarrow> j < i"
  using root_path_bound [of j nodes] by (auto simp: root_path_parent parents_below_def split: option.splits) (meson le_less_trans)

lemma root_path_same_parents:
  "map dn_parent nodes = map dn_parent nodes' \<Longrightarrow> root_path nodes i = root_path nodes' i"
proof (induction nodes i rule: root_path.induct)
  case (1 nodes i)
  then have len: "length nodes = length nodes'" using map_eq_imp_length_eq by blast
  have "dn_parent (nodes ! i) = dn_parent (nodes' ! i)" if "i < length nodes"
    using 1(2) that len by (metis nth_map)
  then show ?case using 1 len by (subst (1 2) root_path.simps) (auto split: option.split)
qed

lemma root_path_append: "i < length nodes \<Longrightarrow> root_path (nodes @ added) i = root_path nodes i"
proof (induction nodes i rule: root_path.induct)
  case (1 nodes i)
  then show ?case by (subst (1 2) root_path.simps) (auto simp: nth_append split: option.split)
qed

text \<open>What the nodes of a path have in one of their optional fields.\<close>

definition along_path :: "(('f, 'v, 'l) dispatch_node \<Rightarrow> 'x option) \<Rightarrow> ('f, 'v, 'l) dispatch_node list \<Rightarrow> nat list \<Rightarrow> 'x list" where
  "along_path field nodes path = List.map_filter (\<lambda>i. field (nodes ! i)) path"

definition opt_list :: "'x option \<Rightarrow> 'x list" where
  "opt_list x = (case x of Some a \<Rightarrow> [a] | None \<Rightarrow> [])"

lemma opt_list_simps [simp]: "opt_list None = []" "opt_list (Some a) = [a]"
  by (simp_all add: opt_list_def)

lemma along_path_simps [simp]:
  "along_path field nodes [] = []"
  "along_path field nodes (i # path) = opt_list (field (nodes ! i)) @ along_path field nodes path"
  "along_path field nodes (path @ path') = along_path field nodes path @ along_path field nodes path'"
  by (simp_all add: along_path_def map_filter_def opt_list_def split: option.split)

lemma along_path_cong:
  "(\<And>i. i \<in> set path \<Longrightarrow> field (nodes ! i) = field (nodes' ! i)) \<Longrightarrow> along_path field nodes path = along_path field nodes' path"
  by (induction path) simp_all

section \<open>The loops up the parents\<close>

lemma dispatch_path_ok:
  "parents_below (dt_nodes self) \<Longrightarrow> dispatch_path self target = ret (root_path (dt_nodes self) target)"
proof -
  assume below: "parents_below (dt_nodes self)"
  have "dispatch_path_loop (dt_nodes self) (Some i) path = ret (path @ rev (root_path (dt_nodes self) i))" for i path
  proof (induction i arbitrary: path rule: less_induct)
    case (less i)
    show ?case
    proof (cases "i < length (dt_nodes self)")
      case True
      show ?thesis
      proof (cases "dn_parent (dt_nodes self ! i)")
        case None
        then show ?thesis using True below by (subst dispatch_path_loop.simps) (simp add: list_get_def dispatch_path_loop.simps root_path_parent)
      next
        case (Some p)
        then have "p < i" using below True unfolding parents_below_def by blast
        then show ?thesis using less.IH Some True below by (subst dispatch_path_loop.simps) (simp add: list_get_def root_path_parent)
      qed
    next
      case False
      then show ?thesis by (subst dispatch_path_loop.simps, subst root_path.simps) (simp add: list_get_def dispatch_path_loop.simps)
    qed
  qed
  then show ?thesis by (simp add: dispatch_path_def)
qed

lemma parent_induct [consumes 2, case_names root child]:
  assumes "parents_below nodes" "i < length nodes"
    and "\<And>i. i < length nodes \<Longrightarrow> dn_parent (nodes ! i) = None \<Longrightarrow> P i"
    and "\<And>i p. i < length nodes \<Longrightarrow> dn_parent (nodes ! i) = Some p \<Longrightarrow> p < i \<Longrightarrow> p < length nodes \<Longrightarrow> P p \<Longrightarrow> P i"
  shows "P i"
  using assms(2)
proof (induction i rule: less_induct)
  case (less i)
  show ?case
  proof (cases "dn_parent (nodes ! i)")
    case (Some p)
    then have "p < i" using assms(1) less.prems unfolding parents_below_def by blast
    then show ?thesis using assms(4) [OF less.prems Some] less by simp
  qed (use assms(3) less.prems in blast)
qed

lemma activate_loop_ok:
  assumes "parents_below nodes" "i < length nodes"
  shows "activate_loop nodes (Some i) (contexts, views, stack) =
    ret (contexts @ rev (along_path dn_context nodes (root_path nodes i)), views @ rev (along_path dn_view_id nodes (root_path nodes i)),
         stack @ rev (root_path nodes i))"
  using assms
proof (induction i arbitrary: contexts views stack rule: parent_induct)
  case (root i)
  then show ?case using assms(1)
    by (subst activate_loop.simps) (simp add: index_or_panic_def activate_loop.simps root_path_parent split: option.split)
next
  case (child i p)
  then show ?case using assms(1)
    by (subst activate_loop.simps) (simp add: index_or_panic_def root_path_parent [of nodes i] split: option.split)
qed

lemma focus_contains_loop_ok:
  assumes "parents_below nodes" "i < length nodes"
  shows "focus_contains_loop nodes parent (Some i) = ret (parent \<in> set (root_path nodes i))"
  using assms
proof (induction i rule: parent_induct)
  case (root i)
  then show ?case using assms(1)
    by (subst focus_contains_loop.simps) (simp add: index_or_panic_def focus_contains_loop.simps root_path_parent)
next
  case (child i p)
  then show ?case using assms(1)
    by (subst focus_contains_loop.simps) (simp add: index_or_panic_def root_path_parent [of nodes i])
qed

lemma focus_path_loop_ok:
  assumes "parents_below nodes" "i < length nodes"
  shows "focus_path_loop nodes (Some i) path = ret (path @ rev (along_path dn_focus_id nodes (root_path nodes i)))"
  using assms
proof (induction i arbitrary: path rule: parent_induct)
  case (root i)
  then show ?case using assms(1)
    by (subst focus_path_loop.simps) (simp add: index_or_panic_def focus_path_loop.simps root_path_parent split: option.split)
next
  case (child i p)
  then show ?case using assms(1)
    by (subst focus_path_loop.simps) (simp add: index_or_panic_def root_path_parent [of nodes i] split: option.split)
qed

lemma view_path_loop_ok:
  assumes "parents_below nodes" "i < length nodes"
  shows "view_path_loop nodes (Some i) = ret (rev (along_path dn_view_id nodes (root_path nodes i)))"
  using assms
proof (induction i rule: parent_induct)
  case (root i)
  then show ?case using assms(1)
    by (subst view_path_loop.simps) (simp add: index_or_panic_def view_path_loop.simps root_path_parent split: option.split)
next
  case (child i p)
  then show ?case using assms(1)
    by (subst view_path_loop.simps) (simp add: index_or_panic_def root_path_parent [of nodes i] split: option.split)
qed

lemma path_contexts_ok:
  "\<forall>i \<in> set path. i < length nodes \<Longrightarrow> path_contexts nodes path = ret (along_path dn_context nodes path)"
  by (induction path) (auto simp: index_or_panic_def split: option.split)

section \<open>The invariant\<close>

definition stack_ok :: "('f, 'v, 'l) dispatch_node list \<Rightarrow> nat list \<Rightarrow> bool" where
  "stack_ok nodes stack \<longleftrightarrow> stack = [] \<or> (\<exists>i < length nodes. stack = root_path nodes i)"

definition ids_ok :: "(('f, 'v, 'l) dispatch_node \<Rightarrow> 'x option) \<Rightarrow> ('x \<rightharpoonup> nat) \<Rightarrow> ('f, 'v, 'l) dispatch_node list \<Rightarrow> bool" where
  "ids_ok field ids nodes \<longleftrightarrow> (\<forall>x i. ids x = Some i \<longrightarrow> i < length nodes \<and> field (nodes ! i) = Some x)"

definition dt_inv :: "('a, 'f, 'v, 'l) dispatch_tree \<Rightarrow> bool" where
  "dt_inv self \<longleftrightarrow> parents_below (dt_nodes self) \<and> stack_ok (dt_nodes self) (dt_node_stack self) \<and>
     dt_context_stack self = along_path dn_context (dt_nodes self) (dt_node_stack self) \<and>
     dt_view_stack self = along_path dn_view_id (dt_nodes self) (dt_node_stack self) \<and>
     ids_ok dn_focus_id (dt_focusable_node_ids self) (dt_nodes self) \<and> ids_ok dn_view_id (dt_view_node_ids self) (dt_nodes self)"

lemma root_path_range: "parents_below nodes \<Longrightarrow> i < length nodes \<Longrightarrow> j \<in> set (root_path nodes i) \<Longrightarrow> j < length nodes"
  using root_path_bound [of j nodes i] by simp

lemma stack_range: "dt_inv self \<Longrightarrow> i \<in> set (dt_node_stack self) \<Longrightarrow> i < length (dt_nodes self)"
  unfolding dt_inv_def stack_ok_def using root_path_range by fastforce

text \<open>The active node: the stack is the path to it, and it is not among its own ancestors.\<close>

lemma active_node:
  assumes "dt_inv self" "dt_node_stack self \<noteq> []"
  obtains i above where "dt_node_stack self = above @ [i]" "i < length (dt_nodes self)" "root_path (dt_nodes self) i = above @ [i]"
    "list_last (dt_node_stack self) = Some i" "i \<notin> set above" "stack_ok (dt_nodes self) above" "dn_parent (dt_nodes self ! i) = list_last above"
proof -
  obtain i where i: "i < length (dt_nodes self)" "dt_node_stack self = root_path (dt_nodes self) i"
    using assms unfolding dt_inv_def stack_ok_def by blast
  have below: "parents_below (dt_nodes self)" using assms(1) by (simp add: dt_inv_def)
  obtain above where above: "root_path (dt_nodes self) i = above @ [i]" using root_path_last by blast
  have "i \<notin> set above" using root_path_below [OF below i(1), of i] above by auto
  moreover have "stack_ok (dt_nodes self) above \<and> dn_parent (dt_nodes self ! i) = list_last above"
  proof (cases "dn_parent (dt_nodes self ! i)")
    case None
    then have "above = []" using above root_path_parent [OF below i(1)] by simp
    then show ?thesis using None by (simp add: stack_ok_def)
  next
    case (Some p)
    then have "above = root_path (dt_nodes self) p" using above root_path_parent [OF below i(1)] by simp
    moreover have "p < length (dt_nodes self)" using Some below i(1) unfolding parents_below_def by (meson less_trans)
    ultimately show ?thesis using Some by (auto simp: stack_ok_def list_last_def)
  qed
  ultimately show ?thesis using that i above by simp
qed

lemma dt_new_inv: "dt_inv (dt_new keymap registry)" "dt_inv (dt_clear self)"
  by (simp_all add: dt_inv_def dt_new_def dt_clear_def parents_below_def stack_ok_def ids_ok_def)

lemma stack_ok_append: "stack_ok nodes stack \<Longrightarrow> stack_ok (nodes @ added) stack"
  unfolding stack_ok_def using root_path_append by (metis length_append trans_less_add1)

lemma along_path_append:
  "\<forall>i \<in> set path. i < length nodes \<Longrightarrow> along_path field (nodes @ added) path = along_path field nodes path"
  by (rule along_path_cong) (simp add: nth_append)

lemma ids_ok_append: "ids_ok field ids nodes \<Longrightarrow> ids_ok field ids (nodes @ added)"
  unfolding ids_ok_def by (metis length_append nth_append trans_less_add1)

lemma push_node_ok:
  assumes inv: "dt_inv self" and push: "push_node self = (self', i)"
  shows "dt_inv self'" "i = length (dt_nodes self)" "dt_node_stack self' = dt_node_stack self @ [i]"
    "dt_nodes self' = dt_nodes self @ [dn_default\<lparr>dn_parent := list_last (dt_node_stack self)\<rparr>]"
    "dt_context_stack self' = dt_context_stack self" "dt_view_stack self' = dt_view_stack self"
proof -
  let ?new = "dn_default\<lparr>dn_parent := list_last (dt_node_stack self)\<rparr>"
  show fields: "i = length (dt_nodes self)" "dt_node_stack self' = dt_node_stack self @ [i]" "dt_nodes self' = dt_nodes self @ [?new]"
    "dt_context_stack self' = dt_context_stack self" "dt_view_stack self' = dt_view_stack self"
    using push by (auto simp: push_node_def)
  have ids: "dt_focusable_node_ids self' = dt_focusable_node_ids self" "dt_view_node_ids self' = dt_view_node_ids self"
    using push by (auto simp: push_node_def)
  have range: "\<forall>j \<in> set (dt_node_stack self). j < length (dt_nodes self)" using stack_range [OF inv] by blast
  have parent: "list_last (dt_node_stack self) = Some p \<Longrightarrow> p < length (dt_nodes self)" for p
    using range by (auto simp: list_last_def split: if_splits)
  have below: "parents_below (dt_nodes self @ [?new])"
    using inv parent unfolding dt_inv_def parents_below_def by (auto simp: nth_append dn_default_def less_Suc_eq)
  have "stack_ok (dt_nodes self @ [?new]) (dt_node_stack self @ [length (dt_nodes self)])"
  proof -
    have "root_path (dt_nodes self @ [?new]) (length (dt_nodes self)) = dt_node_stack self @ [length (dt_nodes self)]"
    proof (cases "dt_node_stack self = []")
      case False
      then obtain j where j: "list_last (dt_node_stack self) = Some j" "j < length (dt_nodes self)" "dt_node_stack self = root_path (dt_nodes self) j"
        using active_node [OF inv] by metis
      then show ?thesis using root_path_parent [OF below] root_path_append [OF j(2), of "[?new]"] by simp
    qed (use root_path_parent [OF below] in simp)
    then show ?thesis unfolding stack_ok_def by (metis length_append_singleton lessI)
  qed
  then show "dt_inv self'" using inv below range unfolding dt_inv_def fields ids
    by (simp add: along_path_append ids_ok_append dn_default_def)
qed

text \<open>The tree with another node active.\<close>

definition at_stack :: "('a, 'f, 'v, 'l) dispatch_tree \<Rightarrow> nat list \<Rightarrow> ('a, 'f, 'v, 'l) dispatch_tree" where
  "at_stack self stack = self\<lparr>dt_node_stack := stack, dt_context_stack := along_path dn_context (dt_nodes self) stack,
     dt_view_stack := along_path dn_view_id (dt_nodes self) stack\<rparr>"

lemma at_stack_simps [simp]:
  "dt_nodes (at_stack self stack) = dt_nodes self"
  "dt_node_stack (at_stack self stack) = stack"
  "dt_focusable_node_ids (at_stack self stack) = dt_focusable_node_ids self"
  "dt_view_node_ids (at_stack self stack) = dt_view_node_ids self"
  "at_stack (at_stack self stack) stack' = at_stack self stack'"
  by (simp_all add: at_stack_def)

lemma at_stack_same: "dt_inv self \<Longrightarrow> at_stack self (dt_node_stack self) = self"
  by (simp add: dt_inv_def at_stack_def)

lemma at_stack_inv: "dt_inv self \<Longrightarrow> stack_ok (dt_nodes self) stack \<Longrightarrow> dt_inv (at_stack self stack)"
  by (simp add: dt_inv_def at_stack_def)

lemma pop_node_ok:
  assumes inv: "dt_inv self" and ne: "dt_node_stack self \<noteq> []"
  shows "pop_node self = ret (at_stack self (butlast (dt_node_stack self)))" "dt_inv (at_stack self (butlast (dt_node_stack self)))"
proof -
  obtain i above where i: "dt_node_stack self = above @ [i]" "i < length (dt_nodes self)" "list_last (dt_node_stack self) = Some i"
      "stack_ok (dt_nodes self) above"
    by (rule active_node [OF assms])
  show "pop_node self = ret (at_stack self (butlast (dt_node_stack self)))"
    using inv i by (auto simp: pop_node_def active_node_id_def index_or_panic_def dt_inv_def at_stack_def)
  show "dt_inv (at_stack self (butlast (dt_node_stack self)))" using at_stack_inv [OF inv i(4)] i(1) by simp
qed

lemma pop_until_ok:
  assumes "dt_inv self"
  shows "\<exists>stack. pop_until p self = ret (at_stack self stack) \<and> stack_ok (dt_nodes self) stack \<and> (list_last stack = p \<or> stack = [])"
  using assms
proof (induction "length (dt_node_stack self)" arbitrary: self rule: less_induct)
  case less
  show ?case
  proof (cases "list_last (dt_node_stack self) = p \<or> dt_node_stack self = []")
    case True
    then show ?thesis using at_stack_same [OF less.prems] less.prems
      by (intro exI [of _ "dt_node_stack self"]) (auto simp: pop_until.simps dt_inv_def)
  next
    case False
    note pop = pop_node_ok [OF less.prems, OF conjunct2 [OF False [unfolded de_Morgan_disj]]]
    show ?thesis using less.hyps [OF _ pop(2)] False pop(1) by (subst pop_until.simps) simp
  qed
qed

theorem set_active_node_ok:
  assumes inv: "dt_inv self" and n: "n < length (dt_nodes self)"
  shows "set_active_node n self = ret (at_stack self (root_path (dt_nodes self) n))"
    "dt_inv (at_stack self (root_path (dt_nodes self) n))"
proof -
  let ?p = "dn_parent (dt_nodes self ! n)"
  have below: "parents_below (dt_nodes self)" using inv by (simp add: dt_inv_def)
  obtain stack where stack: "pop_until ?p self = ret (at_stack self stack)" "stack_ok (dt_nodes self) stack"
      "list_last stack = ?p \<or> stack = []"
    using pop_until_ok [OF inv] by blast
  show "set_active_node n self = ret (at_stack self (root_path (dt_nodes self) n))"
  proof (cases "list_last stack = ?p")
    case True
    then have "root_path (dt_nodes self) n = stack @ [n]"
      using stack(2) root_path_parent [OF below n] by (auto simp: stack_ok_def list_last_def split: option.split)
    then show ?thesis using stack(1) n True
      by (simp add: set_active_node_def index_or_panic_def at_stack_def split: option.split)
  next
    case False
    then have "stack = []" using stack(3) by simp
    then show ?thesis using False stack(1) n activate_loop_ok [OF below n]
      by (simp add: set_active_node_def index_or_panic_def assert_or_panic_def at_stack_def)
  qed
  show "dt_inv (at_stack self (root_path (dt_nodes self) n))"
    by (rule at_stack_inv [OF inv]) (use n in \<open>auto simp: stack_ok_def\<close>)
qed

section \<open>Setting the fields of the active node\<close>

lemma update_active_ok:
  assumes inv: "dt_inv self" and stack: "dt_node_stack self = upper @ [i]" and parent: "dn_parent node = dn_parent (dt_nodes self ! i)"
    and nodes: "dt_nodes self' = (dt_nodes self)[i := node]" and same: "dt_node_stack self' = upper @ [i]"
    and contexts: "dt_context_stack self' = along_path dn_context (dt_nodes self) upper @ opt_list (dn_context node)"
    and views: "dt_view_stack self' = along_path dn_view_id (dt_nodes self) upper @ opt_list (dn_view_id node)"
    and ids: "ids_ok dn_focus_id (dt_focusable_node_ids self') (dt_nodes self')" "ids_ok dn_view_id (dt_view_node_ids self') (dt_nodes self')"
  shows "dt_inv self'"
proof -
  have i: "i < length (dt_nodes self)" "i \<notin> set upper"
    by (rule active_node [OF inv]; use stack in simp)+
  have parents: "map dn_parent (dt_nodes self) = map dn_parent (dt_nodes self')"
    unfolding nodes using parent i by (metis list_update_same_conv map_update nth_map length_map)
  have len: "length (dt_nodes self') = length (dt_nodes self)" using nodes by simp
  have below: "parents_below (dt_nodes self')"
    using inv len parents unfolding dt_inv_def parents_below_def by (metis nth_map)
  moreover have "stack_ok (dt_nodes self') (dt_node_stack self')"
    using inv len root_path_same_parents [OF parents] stack same unfolding dt_inv_def stack_ok_def by simp
  moreover have contexts': "along_path dn_context (dt_nodes self') upper = along_path dn_context (dt_nodes self) upper"
    unfolding nodes by (rule along_path_cong) (use i(2) in \<open>metis nth_list_update_neq\<close>)
  moreover have views': "along_path dn_view_id (dt_nodes self') upper = along_path dn_view_id (dt_nodes self) upper"
    unfolding nodes by (rule along_path_cong) (use i(2) in \<open>metis nth_list_update_neq\<close>)
  ultimately show ?thesis using ids contexts views nodes i(1) same by (simp add: dt_inv_def)
qed

lemma ids_ok_update:
  assumes "ids_ok field ids nodes" "i < length nodes" "field (nodes ! i) = None \<or> field node = field (nodes ! i)"
  shows "ids_ok field ids (nodes[i := node])"
  using assms unfolding ids_ok_def by (metis length_list_update nth_list_update option.distinct(1))

lemma ids_ok_insert:
  "ids_ok field ids nodes \<Longrightarrow> i < length nodes \<Longrightarrow> field (nodes ! i) = Some x \<Longrightarrow> ids_ok field (ids(x \<mapsto> i)) nodes"
  unfolding ids_ok_def by auto

text \<open>Whether a field of the active node is still to be set.\<close>

definition active_unset :: "(('f, 'v, 'l) dispatch_node \<Rightarrow> 'x option) \<Rightarrow> ('a, 'f, 'v, 'l) dispatch_tree \<Rightarrow> bool" where
  "active_unset field self \<longleftrightarrow> (case list_last (dt_node_stack self) of Some i \<Rightarrow> field (dt_nodes self ! i) = None | None \<Rightarrow> False)"

lemma active_unset_stack: "active_unset field self \<Longrightarrow> dt_node_stack self \<noteq> []"
  by (auto simp: active_unset_def list_last_def)

definition updated_active ::
  "(('f, 'v, 'l) dispatch_node \<Rightarrow> ('f, 'v, 'l) dispatch_node) \<Rightarrow> ('a, 'f, 'v, 'l) dispatch_tree \<Rightarrow> ('f, 'v, 'l) dispatch_node list" where
  "updated_active f self = (let i = last (dt_node_stack self) in (dt_nodes self)[i := f (dt_nodes self ! i)])"

lemma with_active_node_eq:
  assumes "dt_inv self" "dt_node_stack self \<noteq> []"
  shows "with_active_node f self = ret (self\<lparr>dt_nodes := updated_active f self\<rparr>)"
  by (rule active_node [OF assms]) (simp add: with_active_node_def active_node_id_def index_or_panic_def updated_active_def)

lemma with_active_node_ok:
  assumes inv: "dt_inv self" and ne: "dt_node_stack self \<noteq> []"
    and f: "\<And>node. dn_parent (f node) = dn_parent node \<and> dn_context (f node) = dn_context node \<and>
      dn_view_id (f node) = dn_view_id node \<and> dn_focus_id (f node) = dn_focus_id node"
  shows "dt_inv (self\<lparr>dt_nodes := updated_active f self\<rparr>)"
proof -
  obtain i upper where i: "dt_node_stack self = upper @ [i]" "i < length (dt_nodes self)" by (rule active_node [OF inv ne])
  show ?thesis
    by (rule update_active_ok [OF inv i(1), of "f (dt_nodes self ! i)"]) (use inv f i in \<open>simp_all add: updated_active_def dt_inv_def ids_ok_update\<close>)
qed

lemma set_key_context_ok:
  assumes inv: "dt_inv self" and unset: "active_unset dn_context self"
  obtains self' where "set_key_context context self = ret self'" "dt_inv self'" "dt_node_stack self' = dt_node_stack self"
    "dt_nodes self' = updated_active (\<lambda>node. node\<lparr>dn_context := Some context\<rparr>) self"
proof -
  obtain i upper where i: "dt_node_stack self = upper @ [i]" "i < length (dt_nodes self)" by (rule active_node [OF inv active_unset_stack [OF unset]])
  let ?f = "\<lambda>node. node\<lparr>dn_context := Some context\<rparr>"
  let ?self = "self\<lparr>dt_nodes := updated_active ?f self, dt_context_stack := dt_context_stack self @ [context]\<rparr>"
  have "dn_context (dt_nodes self ! i) = None" using unset i(1) by (simp add: active_unset_def)
  then have "dt_inv ?self"
    by (intro update_active_ok [OF inv i(1), of "?f (dt_nodes self ! i)"]) (use inv i in \<open>simp_all add: updated_active_def dt_inv_def ids_ok_update\<close>)
  then show ?thesis using that [of ?self] with_active_node_eq [OF inv active_unset_stack [OF unset]] by (simp add: set_key_context_def)
qed

lemma set_focus_id_ok:
  assumes inv: "dt_inv self" and unset: "active_unset dn_focus_id self"
  obtains self' where "set_focus_id focus_id self = ret self'" "dt_inv self'" "dt_node_stack self' = dt_node_stack self"
    "dt_nodes self' = updated_active (\<lambda>node. node\<lparr>dn_focus_id := Some focus_id\<rparr>) self"
proof -
  obtain i upper where i: "dt_node_stack self = upper @ [i]" "i < length (dt_nodes self)" by (rule active_node [OF inv active_unset_stack [OF unset]])
  let ?f = "\<lambda>node. node\<lparr>dn_focus_id := Some focus_id\<rparr>"
  let ?self = "self\<lparr>dt_nodes := updated_active ?f self, dt_focusable_node_ids := (dt_focusable_node_ids self)(focus_id \<mapsto> i)\<rparr>"
  have "dn_focus_id (dt_nodes self ! i) = None" using unset i(1) by (simp add: active_unset_def)
  then have "dt_inv ?self"
    by (intro update_active_ok [OF inv i(1), of "?f (dt_nodes self ! i)"])
      (use inv i in \<open>simp_all add: updated_active_def dt_inv_def ids_ok_update ids_ok_insert\<close>)
  then show ?thesis using that [of ?self] i by (simp add: set_focus_id_def index_or_panic_def updated_active_def)
qed

text \<open>\<open>set_view_id\<close> leaves a node of the view on top of the stack as it is.\<close>

lemma set_view_id_ok:
  assumes inv: "dt_inv self" and unset: "active_unset dn_view_id self"
  obtains self' where "set_view_id view_id self = ret self'" "dt_inv self'" "dt_node_stack self' = dt_node_stack self"
    "dt_nodes self' = updated_active (\<lambda>node. node\<lparr>dn_view_id := (if list_last (dt_view_stack self) = Some view_id then None else Some view_id)\<rparr>) self"
proof -
  obtain i upper where i: "dt_node_stack self = upper @ [i]" "i < length (dt_nodes self)" by (rule active_node [OF inv active_unset_stack [OF unset]])
  have none: "dn_view_id (dt_nodes self ! i) = None" using unset i(1) by (simp add: active_unset_def)
  show ?thesis
  proof (cases "list_last (dt_view_stack self) = Some view_id")
    case True
    have "(dt_nodes self ! i)\<lparr>dn_view_id := None\<rparr> = dt_nodes self ! i" using none by simp
    then show ?thesis using that [of self] True inv i by (simp add: set_view_id_def updated_active_def)
  next
    case False
    let ?f = "\<lambda>node. node\<lparr>dn_view_id := Some view_id\<rparr>"
    let ?self = "self\<lparr>dt_nodes := updated_active ?f self, dt_view_node_ids := (dt_view_node_ids self)(view_id \<mapsto> i),
      dt_view_stack := dt_view_stack self @ [view_id]\<rparr>"
    have "dt_inv ?self" using none
      by (intro update_active_ok [OF inv i(1), of "?f (dt_nodes self ! i)"])
        (use inv i in \<open>simp_all add: updated_active_def dt_inv_def ids_ok_update ids_ok_insert\<close>)
    then show ?thesis using that [of ?self] False i by (simp add: set_view_id_def index_or_panic_def updated_active_def)
  qed
qed

end
