(* ===== verification/Dispatch_Reuse.thy ===== *)
theory Dispatch_Reuse
  imports Dispatch_Tree
begin

text \<open>
  Moving a part of the dispatch tree of the last frame into the tree of the next one: what is moved keeps its contexts,
  focus ids, listeners and shape, hangs below the active node, and leaves the stacks as they were.
\<close>

section \<open>Moving one node\<close>

lemma updated_active_snoc:
  "dt_nodes self = nodes @ [node] \<Longrightarrow> dt_node_stack self = stack @ [length nodes] \<Longrightarrow> updated_active f self = nodes @ [f node]"
  by (simp add: updated_active_def)

lemma active_unset_snoc:
  "dt_nodes self = nodes @ [node] \<Longrightarrow> dt_node_stack self = stack @ [length nodes] \<Longrightarrow> active_unset field self \<longleftrightarrow> field node = None"
  by (simp add: active_unset_def)

definition without_listeners :: "('f, 'v, 'l) dispatch_node \<Rightarrow> ('f, 'v, 'l) dispatch_node" where
  "without_listeners source = source\<lparr>dn_key_listeners := [], dn_action_listeners := [], dn_modifiers_changed_listeners := []\<rparr>"

text \<open>A node as it arrives below \<open>parent\<close>, when \<open>views\<close> is the stack of views there.\<close>

definition moved_node :: "nat option \<Rightarrow> 'v list \<Rightarrow> ('f, 'v, 'l) dispatch_node \<Rightarrow> ('f, 'v, 'l) dispatch_node" where
  "moved_node parent views source =
     source\<lparr>dn_parent := parent, dn_view_id := (if list_last views = dn_view_id source then None else dn_view_id source)\<rparr>"

lemma move_node_ok:
  assumes inv: "dt_inv self"
  obtains self' where "move_node source self = ret (self', without_listeners source)" "dt_inv self'"
    "dt_nodes self' = dt_nodes self @ [moved_node (list_last (dt_node_stack self)) (dt_view_stack self) source]"
    "dt_node_stack self' = dt_node_stack self @ [length (dt_nodes self)]"
proof -
  let ?parent = "list_last (dt_node_stack self)" and ?n = "length (dt_nodes self)"
  obtain s0 where s0: "push_node self = (s0, ?n)" "dt_inv s0" "dt_nodes s0 = dt_nodes self @ [dn_default\<lparr>dn_parent := ?parent\<rparr>]"
      "dt_node_stack s0 = dt_node_stack self @ [?n]" "dt_view_stack s0 = dt_view_stack self"
    using push_node_ok [OF inv] by (metis surj_pair)
  note snoc = updated_active_snoc active_unset_snoc
  obtain s1 where s1: "(case dn_context source of Some context \<Rightarrow> set_key_context context s0 | None \<Rightarrow> ret s0) = ret s1" "dt_inv s1"
      "dt_nodes s1 = dt_nodes self @ [dn_default\<lparr>dn_parent := ?parent, dn_context := dn_context source\<rparr>]"
      "dt_node_stack s1 = dt_node_stack self @ [?n]"
  proof (cases "dn_context source")
    case None
    then show ?thesis using that [of s0] s0 by (simp add: dn_default_def)
  next
    case (Some c)
    then show ?thesis using set_key_context_ok [OF s0(2), of c] that s0
      by (simp add: snoc [OF s0(3,4)] dn_default_def) metis
  qed
  obtain s2 where s2: "(case dn_focus_id source of Some focus_id \<Rightarrow> set_focus_id focus_id s1 | None \<Rightarrow> ret s1) = ret s2" "dt_inv s2"
      "dt_nodes s2 = dt_nodes self @ [dn_default\<lparr>dn_parent := ?parent, dn_context := dn_context source, dn_focus_id := dn_focus_id source\<rparr>]"
      "dt_node_stack s2 = dt_node_stack self @ [?n]"
  proof (cases "dn_focus_id source")
    case None
    then show ?thesis using that [of s1] s1 by (simp add: dn_default_def)
  next
    case (Some focus_id)
    then show ?thesis using set_focus_id_ok [OF s1(2), of focus_id] that s1
      by (simp add: snoc [OF s1(3,4)] dn_default_def) metis
  qed
  have views: "dt_view_stack s2 = dt_view_stack self"
    using inv s2 stack_range [OF inv] by (simp add: dt_inv_def dn_default_def along_path_append)
  let ?moved = "moved_node ?parent (dt_view_stack self) source"
  obtain s3 where s3: "(case dn_view_id source of Some view_id \<Rightarrow> set_view_id view_id s2 | None \<Rightarrow> ret s2) = ret s3" "dt_inv s3"
      "dt_nodes s3 = dt_nodes self @ [without_listeners ?moved]" "dt_node_stack s3 = dt_node_stack self @ [?n]"
  proof (cases "dn_view_id source")
    case None
    then show ?thesis using that [of s2] s2 by (simp add: dn_default_def without_listeners_def moved_node_def)
  next
    case (Some view_id)
    have unset: "active_unset dn_view_id s2" by (simp add: snoc [OF s2(3,4)] dn_default_def)
    obtain s' where s': "set_view_id view_id s2 = ret s'" "dt_inv s'" "dt_node_stack s' = dt_node_stack s2"
        "dt_nodes s' = updated_active (\<lambda>node. node\<lparr>dn_view_id := (if list_last (dt_view_stack s2) = Some view_id then None else Some view_id)\<rparr>) s2"
      by (rule set_view_id_ok [OF s2(2) unset])
    show ?thesis using that [of s'] s'(1-3) Some s2(4)
      by (simp add: s'(4) snoc [OF s2(3,4)] dn_default_def without_listeners_def moved_node_def views)
  qed
  let ?f = "\<lambda>target. target\<lparr>dn_key_listeners := dn_key_listeners source, dn_action_listeners := dn_action_listeners source,
       dn_modifiers_changed_listeners := dn_modifiers_changed_listeners source\<rparr>"
  have ne: "dt_node_stack s3 \<noteq> []" using s3(4) by simp
  have "move_node source self = ret (s3\<lparr>dt_nodes := updated_active ?f s3\<rparr>, without_listeners source)"
    unfolding move_node_def using s0(1) s1(1) s2(1) s3(1) with_active_node_eq [OF s3(2) ne, of ?f] by (simp add: without_listeners_def)
  moreover have "dt_inv (s3\<lparr>dt_nodes := updated_active ?f s3\<rparr>)" by (rule with_active_node_ok [OF s3(2) ne]) simp
  ultimately show ?thesis using that s3(4)
    by (simp add: updated_active_snoc [OF s3(3,4)] without_listeners_def moved_node_def)
qed

section \<open>Leaving the moved nodes\<close>

lemma unwind_sources_ok:
  assumes "dt_inv self" "dt_node_stack self = stack @ rev (map f source_stack)"
  shows "unwind_sources parent source_stack self = ret (dropWhile (\<lambda>a. parent \<noteq> Some a) source_stack,
      at_stack self (stack @ rev (map f (dropWhile (\<lambda>a. parent \<noteq> Some a) source_stack)))) \<and>
    dt_inv (at_stack self (stack @ rev (map f (dropWhile (\<lambda>a. parent \<noteq> Some a) source_stack))))"
  using assms
proof (induction source_stack arbitrary: self)
  case Nil
  then show ?case using at_stack_same [of self] by simp
next
  case (Cons a source_stack)
  have ne: "dt_node_stack self \<noteq> []" and less: "butlast (dt_node_stack self) = stack @ rev (map f source_stack)"
    using Cons.prems(2) by (simp_all add: butlast_append)
  note pop = pop_node_ok [OF Cons.prems(1) ne, unfolded less]
  show ?case using Cons.IH [OF pop(2)] at_stack_same [OF Cons.prems(1)] Cons.prems pop(1) by simp
qed

lemma pop_all_ok:
  assumes "dt_inv self" "dt_node_stack self = stack @ rev (map f source_stack)"
  shows "pop_all source_stack self = ret (at_stack self stack) \<and> dt_inv (at_stack self stack)"
  using assms
proof (induction source_stack arbitrary: self)
  case Nil
  then show ?case using at_stack_same [of self] by simp
next
  case (Cons a source_stack)
  have ne: "dt_node_stack self \<noteq> []" and less: "butlast (dt_node_stack self) = stack @ rev (map f source_stack)"
    using Cons.prems(2) by (simp_all add: butlast_append)
  note pop = pop_node_ok [OF Cons.prems(1) ne, unfolded less]
  show ?case using Cons.IH [OF pop(2)] pop(1) by simp
qed

section \<open>The ancestors of a node that are moved with it\<close>

lemma root_path_split:
  assumes "parents_below nodes" "i < length nodes" "p \<in> set (root_path nodes i)"
  shows "\<exists>xs. root_path nodes i = root_path nodes p @ xs \<and> (\<forall>x \<in> set xs. p < x)"
  using assms
proof (induction i rule: parent_induct)
  case (root i)
  then have "p = i" using root_path_parent [OF assms(1) root(1)] by simp
  then show ?case by simp
next
  case (child i q)
  have path: "root_path nodes i = root_path nodes q @ [i]" using root_path_parent [OF assms(1) child(1)] child(2) by simp
  show ?case
  proof (cases "p = i")
    case False
    then have p: "p \<in> set (root_path nodes q)" using child.prems path by simp
    then have "p < i" using root_path_bound child.hyps(3) by (meson le_less_trans)
    then show ?thesis using child.IH p path by auto
  qed simp
qed

definition moved_ancestors :: "('f, 'v, 'l) dispatch_node list \<Rightarrow> nat \<Rightarrow> nat \<Rightarrow> nat list" where
  "moved_ancestors nodes first i = takeWhile (\<lambda>j. first \<le> j) (rev (root_path nodes i))"

lemma moved_ancestors_parent:
  assumes "parents_below nodes" "i < length nodes" "first \<le> i"
  shows "moved_ancestors nodes first i =
    i # (case dn_parent (nodes ! i) of Some p \<Rightarrow> if first \<le> p then moved_ancestors nodes first p else [] | None \<Rightarrow> [])"
proof (cases "dn_parent (nodes ! i)")
  case (Some p)
  obtain xs where "root_path nodes p = xs @ [p]" using root_path_last by blast
  then show ?thesis using Some root_path_parent [OF assms(1,2)] assms(3) by (simp add: moved_ancestors_def)
qed (use root_path_parent [OF assms(1,2)] assms(3) in \<open>simp add: moved_ancestors_def\<close>)

lemma moved_ancestors_drop:
  assumes below: "parents_below nodes" and i: "i < length nodes" and p: "p \<in> set (root_path nodes i)" "first \<le> p"
  shows "dropWhile (\<lambda>a. p \<noteq> a) (moved_ancestors nodes first i) = moved_ancestors nodes first p"
proof -
  obtain xs where xs: "root_path nodes i = root_path nodes p @ xs" "\<forall>x \<in> set xs. p < x"
    using root_path_split [OF below i p(1)] by blast
  obtain ys where ys: "root_path nodes p = ys @ [p]" using root_path_last by blast
  have "takeWhile (\<lambda>j. first \<le> j) (rev (root_path nodes i)) = rev xs @ takeWhile (\<lambda>j. first \<le> j) (rev (root_path nodes p))"
    unfolding xs(1) rev_append by (rule takeWhile_append2) (use xs(2) p(2) in force)
  moreover have "dropWhile (\<lambda>a. p \<noteq> a) (rev xs @ zs) = dropWhile (\<lambda>a. p \<noteq> a) zs" for zs
    by (rule dropWhile_append2) (use xs(2) in auto)
  ultimately show ?thesis unfolding moved_ancestors_def ys using p(2) by simp
qed

lemma moved_ancestors_ge: "a \<in> set (moved_ancestors nodes first i) \<Longrightarrow> first \<le> a \<and> a \<le> i"
  unfolding moved_ancestors_def using set_takeWhileD [of a "\<lambda>j. first \<le> j"] root_path_bound by fastforce

text \<open>
  The nodes of a range are listed as they were pushed: a parent within the range is the node before or one of its
  ancestors.
\<close>

definition in_push_order :: "('f, 'v, 'l) dispatch_node list \<Rightarrow> nat \<times> nat \<Rightarrow> bool" where
  "in_push_order nodes old_range \<longleftrightarrow> list_all (\<lambda>i. case dn_parent (nodes ! i) of
     Some p \<Rightarrow> fst old_range \<le> p \<longrightarrow> p \<in> set (root_path nodes (i - 1)) | None \<Rightarrow> True) [Suc (fst old_range)..<snd old_range]"

lemma in_push_order_iff:
  "in_push_order nodes (a, b) \<longleftrightarrow>
     (\<forall>i p. a < i \<and> i < b \<and> dn_parent (nodes ! i) = Some p \<and> a \<le> p \<longrightarrow> p \<in> set (root_path nodes (i - 1)))"
  unfolding in_push_order_def list_all_iff by (force split: option.splits)

definition moved_parent :: "nat \<Rightarrow> nat \<Rightarrow> nat option \<Rightarrow> nat option \<Rightarrow> nat option" where
  "moved_parent first base active parent =
     (case parent of Some p \<Rightarrow> if first \<le> p then Some (base + (p - first)) else active | None \<Rightarrow> active)"

text \<open>The ancestors that stay on the stack of sources when a node comes.\<close>

definition waiting :: "('f, 'v, 'l) dispatch_node list \<Rightarrow> nat \<Rightarrow> nat \<Rightarrow> nat list" where
  "waiting nodes first i = (if i = first then [] else moved_ancestors nodes first (i - 1))"

lemma waiting_unwound:
  assumes below: "parents_below nodes" and order: "in_push_order nodes old_range" and i: "fst old_range \<le> i" "i < snd old_range" "snd old_range \<le> length nodes"
  shows "i # dropWhile (\<lambda>a. dn_parent (nodes ! i) \<noteq> Some a) (waiting nodes (fst old_range) i) = moved_ancestors nodes (fst old_range) i"
proof (cases "\<exists>p. dn_parent (nodes ! i) = Some p \<and> fst old_range \<le> p")
  case True
  then obtain p where p: "dn_parent (nodes ! i) = Some p" "fst old_range \<le> p" by blast
  have "p < i" using below p(1) i unfolding parents_below_def by (meson less_le_trans)
  then have first: "i \<noteq> fst old_range" using p(2) by simp
  have "p \<in> set (root_path nodes (i - 1))" using order p i first unfolding in_push_order_def list_all_iff by (auto dest!: bspec [of _ _ i])
  then have "dropWhile (\<lambda>a. p \<noteq> a) (moved_ancestors nodes (fst old_range) (i - 1)) = moved_ancestors nodes (fst old_range) p"
    using moved_ancestors_drop [OF below _ _ p(2)] i by simp
  then show ?thesis using p first moved_ancestors_parent [OF below _ i(1)] i by (simp add: waiting_def)
next
  case False
  have "dropWhile (\<lambda>a. dn_parent (nodes ! i) \<noteq> Some a) (waiting nodes (fst old_range) i) = []"
    using False moved_ancestors_ge by (fastforce simp: waiting_def dropWhile_eq_Nil_conv)
  then show ?thesis using False moved_ancestors_parent [OF below _ i(1)] i by (auto split: option.split)
qed

lemma waiting_parent:
  assumes below: "parents_below nodes" and order: "in_push_order nodes old_range" and i: "fst old_range \<le> i" "i < snd old_range" "snd old_range \<le> length nodes"
    and rest: "rest = dropWhile (\<lambda>a. dn_parent (nodes ! i) \<noteq> Some a) (waiting nodes (fst old_range) i)"
  shows "list_last (stack @ rev (map (\<lambda>j. base + (j - fst old_range)) rest)) =
    moved_parent (fst old_range) base (list_last stack) (dn_parent (nodes ! i))"
proof -
  have rest: "rest = (case dn_parent (nodes ! i) of Some p \<Rightarrow> if fst old_range \<le> p then moved_ancestors nodes (fst old_range) p else [] | None \<Rightarrow> [])"
    using waiting_unwound [OF assms(1-5)] moved_ancestors_parent [OF below _ i(1)] i rest by simp
  have "moved_ancestors nodes (fst old_range) p \<noteq> [] \<and> hd (moved_ancestors nodes (fst old_range) p) = p"
    if "dn_parent (nodes ! i) = Some p" "fst old_range \<le> p" for p
  proof -
    have "p < length nodes" using below that(1) i unfolding parents_below_def by (meson less_le_trans less_trans)
    then show ?thesis using moved_ancestors_parent [OF below _ that(2)] by simp
  qed
  then show ?thesis unfolding rest by (auto simp: moved_parent_def list_last_def last_rev hd_map split: option.split)
qed

section \<open>Moving a range of nodes\<close>

text \<open>What a range of nodes has become in the tree it was moved to.\<close>

definition moved_range ::
  "('f, 'v, 'l) dispatch_node list \<Rightarrow> nat \<times> nat \<Rightarrow> nat \<Rightarrow> nat option \<Rightarrow> ('f, 'v, 'l) dispatch_node list \<Rightarrow> nat \<Rightarrow> bool" where
  "moved_range nodes old_range base active nodes' i \<longleftrightarrow> (let j = base + (i - fst old_range) in
     nodes' ! j = moved_node (moved_parent (fst old_range) base active (dn_parent (nodes ! i)))
       (along_path dn_view_id nodes' (butlast (root_path nodes' j))) (nodes ! i))"

lemma moved_range_append:
  assumes "parents_below nodes'" "base + (i - fst old_range) < length nodes'" "moved_range nodes old_range base active nodes' i"
  shows "moved_range nodes old_range base active (nodes' @ added) i"
proof -
  have "\<forall>k \<in> set (butlast (root_path nodes' (base + (i - fst old_range)))). k < length nodes'"
    using root_path_below [OF assms(1,2)] assms(2) by (meson less_trans)
  then show ?thesis using assms by (simp add: moved_range_def root_path_append nth_append along_path_append)
qed

lemma moved_range_here:
  assumes inv: "dt_inv self'" and nodes: "dt_nodes self' = dt_nodes (at_stack self stack) @ [moved_node (list_last (dt_node_stack (at_stack self stack))) (dt_view_stack (at_stack self stack)) (nodes ! i)]"
    and stack: "dt_node_stack self' = dt_node_stack (at_stack self stack) @ [length (dt_nodes (at_stack self stack))]"
    and parent: "list_last stack = moved_parent (fst old_range) base active (dn_parent (nodes ! i))"
    and base: "length (dt_nodes self) = base + (i - fst old_range)"
  shows "moved_range nodes old_range base active (dt_nodes self') i"
proof -
  let ?n = "length (dt_nodes self)"
  have path: "root_path (dt_nodes self') ?n = stack @ [?n]"
    by (rule active_node [OF inv]) (use stack in simp_all)
  have "parents_below (dt_nodes self')" using inv by (simp add: dt_inv_def)
  then have "\<forall>j \<in> set stack. j < ?n" using root_path_below [of "dt_nodes self'" ?n] path nodes by simp
  then have "along_path dn_view_id (dt_nodes self') stack = along_path dn_view_id (dt_nodes self) stack"
    unfolding nodes by (simp add: along_path_append)
  moreover have "dt_nodes self' ! ?n = moved_node (list_last stack) (along_path dn_view_id (dt_nodes self) stack) (nodes ! i)"
    unfolding nodes by (simp add: at_stack_def)
  ultimately show ?thesis by (simp add: moved_range_def path parent flip: base)
qed

lemma reuse_loop_ok:
  fixes nodes :: "('f, 'v, 'l) dispatch_node list" and self :: "('a, 'f, 'v, 'l) dispatch_tree"
  assumes below: "parents_below nodes" and order: "in_push_order nodes old_range" and len: "snd old_range \<le> length nodes"
    and inv: "dt_inv self" and i: "fst old_range \<le> i" "i + m = snd old_range"
    and stack: "dt_node_stack self = stack @ rev (map (\<lambda>j. base + (j - fst old_range)) (waiting nodes (fst old_range) i))"
    and base: "length (dt_nodes self) = base + (i - fst old_range)"
  shows "\<exists>self' waiting'. reuse_loop focus i (take m (drop i nodes)) (waiting nodes (fst old_range) i) found self =
      ret (self', map without_listeners (take m (drop i nodes)), waiting',
        found \<or> (\<exists>node \<in> set (take m (drop i nodes)). dn_focus_id node \<noteq> None \<and> dn_focus_id node = focus)) \<and>
    dt_inv self' \<and> dt_node_stack self' = stack @ rev (map (\<lambda>j. base + (j - fst old_range)) waiting') \<and>
    (\<exists>added. dt_nodes self' = dt_nodes self @ added \<and> length added = m) \<and>
    (\<forall>k. i \<le> k \<and> k < snd old_range \<longrightarrow> moved_range nodes old_range base (list_last stack) (dt_nodes self') k)"
  using inv i stack base
proof (induction m arbitrary: i self found)
  case 0
  then show ?case by auto
next
  case (Suc m)
  let ?f = "\<lambda>j. base + (j - fst old_range)" and ?node = "nodes ! i" and ?first = "fst old_range"
  have k: "i < snd old_range" "i < length nodes" using Suc.prems(3) len by simp_all
  have list: "take (Suc m) (drop i nodes) = ?node # take m (drop (Suc i) nodes)"
    using k(2) by (simp add: Cons_nth_drop_Suc [symmetric])
  define rest where "rest = dropWhile (\<lambda>a. dn_parent ?node \<noteq> Some a) (waiting nodes ?first i)"
  let ?self = "at_stack self (stack @ rev (map ?f rest))"
  have unwind: "unwind_sources (dn_parent ?node) (waiting nodes ?first i) self = ret (rest, ?self)" "dt_inv ?self"
    using unwind_sources_ok [OF Suc.prems(1,4)] unfolding rest_def by blast+
  obtain self2 where move: "move_node ?node ?self = ret (self2, without_listeners ?node)" "dt_inv self2"
      "dt_nodes self2 = dt_nodes ?self @ [moved_node (list_last (dt_node_stack ?self)) (dt_view_stack ?self) ?node]"
      "dt_node_stack self2 = dt_node_stack ?self @ [length (dt_nodes ?self)]"
    by (rule move_node_ok [OF unwind(2)])
  have next_waiting: "i # rest = waiting nodes ?first (Suc i)"
    using waiting_unwound [OF below order Suc.prems(2) k(1) len] Suc.prems(2) unfolding rest_def by (simp add: waiting_def)
  have stack2: "dt_node_stack self2 = stack @ rev (map ?f (waiting nodes ?first (Suc i)))"
    using move(4) Suc.prems(5) by (simp add: next_waiting [symmetric])
  obtain self' waiting' added where rest':
      "reuse_loop focus (Suc i) (take m (drop (Suc i) nodes)) (waiting nodes ?first (Suc i))
         (found \<or> dn_focus_id ?node \<noteq> None \<and> dn_focus_id ?node = focus) self2 =
       ret (self', map without_listeners (take m (drop (Suc i) nodes)), waiting', (found \<or> dn_focus_id ?node \<noteq> None \<and> dn_focus_id ?node = focus) \<or>
         (\<exists>node \<in> set (take m (drop (Suc i) nodes)). dn_focus_id node \<noteq> None \<and> dn_focus_id node = focus))"
      "dt_inv self'" "dt_node_stack self' = stack @ rev (map ?f waiting')" "dt_nodes self' = dt_nodes self2 @ added" "length added = m"
      "\<forall>k. Suc i \<le> k \<and> k < snd old_range \<longrightarrow> moved_range nodes old_range base (list_last stack) (dt_nodes self') k"
    using Suc.IH [OF move(2), of "Suc i" "found \<or> dn_focus_id ?node \<noteq> None \<and> dn_focus_id ?node = focus"] Suc.prems(2,3,5) stack2 move(3)
    by (auto simp: Suc_diff_le)
  have "moved_range nodes old_range base (list_last stack) (dt_nodes self2) i"
    by (rule moved_range_here [OF move(2-4)]) (use waiting_parent [OF below order Suc.prems(2) k(1) len rest_def] Suc.prems(5) in simp_all)
  then have "moved_range nodes old_range base (list_last stack) (dt_nodes self') i"
    unfolding rest'(4) using move(2,3) Suc.prems(5) by (intro moved_range_append) (simp_all add: dt_inv_def)
  then have all: "\<forall>k. i \<le> k \<and> k < snd old_range \<longrightarrow> moved_range nodes old_range base (list_last stack) (dt_nodes self') k"
    using rest'(6) by (metis Suc_leI le_neq_implies_less)
  show ?case
    by (rule exI [of _ self'], rule exI [of _ waiting'])
      (use unwind(1) move(1,3) rest' all in \<open>simp add: list next_waiting disj_assoc\<close>)
qed

lemma reuse_subtree_ok:
  fixes source self :: "('a, 'f, 'v, 'l) dispatch_tree" and a b :: nat
  defines "moved \<equiv> take (b - a) (drop a (dt_nodes source))"
  assumes below: "parents_below (dt_nodes source)" and order: "in_push_order (dt_nodes source) (a, b)"
    and len: "a \<le> b" "b \<le> length (dt_nodes source)" and inv: "dt_inv self"
  obtains self' added where
    "reuse_subtree (a, b) focus source self =
       ret (self', source\<lparr>dt_nodes := take a (dt_nodes source) @ map without_listeners moved @ drop b (dt_nodes source)\<rparr>,
         \<lparr>ru_old_range = (a, b), ru_new_range = (length (dt_nodes self), length (dt_nodes self) + (b - a)),
          ru_contains_focus = (\<exists>node \<in> set moved. dn_focus_id node \<noteq> None \<and> dn_focus_id node = focus)\<rparr>)"
    "dt_inv self'" "dt_nodes self' = dt_nodes self @ added" "length added = b - a" "dt_node_stack self' = dt_node_stack self"
    "\<And>i. a \<le> i \<Longrightarrow> i < b \<Longrightarrow>
       moved_range (dt_nodes source) (a, b) (length (dt_nodes self)) (list_last (dt_node_stack self)) (dt_nodes self') i"
proof -
  let ?base = "length (dt_nodes self)"
  have w: "waiting (dt_nodes source) (fst (a, b)) a = []" by (simp add: waiting_def)
  have "\<exists>self' waiting'. reuse_loop focus a moved [] False self =
      ret (self', map without_listeners moved, waiting', False \<or> (\<exists>node \<in> set moved. dn_focus_id node \<noteq> None \<and> dn_focus_id node = focus)) \<and>
    dt_inv self' \<and> dt_node_stack self' = dt_node_stack self @ rev (map (\<lambda>j. ?base + (j - fst (a, b))) waiting') \<and>
    (\<exists>added. dt_nodes self' = dt_nodes self @ added \<and> length added = b - a) \<and>
    (\<forall>k. a \<le> k \<and> k < snd (a, b) \<longrightarrow> moved_range (dt_nodes source) (a, b) ?base (list_last (dt_node_stack self)) (dt_nodes self') k)"
    using reuse_loop_ok [OF below order _ inv, of a "b - a" "dt_node_stack self" ?base focus False] len w unfolding moved_def by simp
  then obtain self2 waiting' added where loop:
      "reuse_loop focus a moved [] False self =
        ret (self2, map without_listeners moved, waiting', \<exists>node \<in> set moved. dn_focus_id node \<noteq> None \<and> dn_focus_id node = focus)"
      "dt_inv self2" "dt_node_stack self2 = dt_node_stack self @ rev (map (\<lambda>j. ?base + (j - a)) waiting')"
      "dt_nodes self2 = dt_nodes self @ added" "length added = b - a"
      "\<forall>k. a \<le> k \<and> k < b \<longrightarrow> moved_range (dt_nodes source) (a, b) ?base (list_last (dt_node_stack self)) (dt_nodes self2) k"
    unfolding fst_conv snd_conv simp_thms(31,32) by (elim exE conjE) (rule that; assumption)
  have pop: "pop_all waiting' self2 = ret (at_stack self2 (dt_node_stack self))" "dt_inv (at_stack self2 (dt_node_stack self))"
    using pop_all_ok [OF loop(2,3)] by blast+
  have n: "a + length (map without_listeners moved) = b" using len by (simp add: moved_def)
  show ?thesis
    by (rule that [of "at_stack self2 (dt_node_stack self)" added])
      (use loop pop n in \<open>simp_all add: reuse_subtree_def moved_def\<close>)
qed

section \<open>Forgetting the last nodes\<close>

lemma forget_ids_gone:
  "fst (forget_ids removed (focusable, views)) x = (if \<exists>node \<in> set removed. dn_focus_id node = Some x then None else focusable x)"
  "snd (forget_ids removed (focusable, views)) y = (if \<exists>node \<in> set removed. dn_view_id node = Some y then None else views y)"
  by (induction removed arbitrary: focusable views) (auto split: option.split)

lemma ids_ok_take:
  assumes ids: "ids_ok field ids nodes"
    and gone: "\<And>x. ids' x = (if \<exists>node \<in> set (drop n nodes). field node = Some x then None else ids x)"
  shows "ids_ok field ids' (take n nodes)"
  unfolding ids_ok_def
proof (intro allI impI)
  fix x i
  assume "ids' x = Some i"
  then have x: "ids x = Some i" "\<not> (\<exists>node \<in> set (drop n nodes). field node = Some x)" using gone by (auto split: if_splits)
  then have i: "i < length nodes" "field (nodes ! i) = Some x" using ids unfolding ids_ok_def by blast+
  moreover have "i < n"
  proof (rule ccontr)
    assume "\<not> i < n"
    then have "nodes ! i \<in> set (drop n nodes)" using i(1) by (auto simp: in_set_conv_nth intro!: exI [of _ "i - n"])
    then show False using x(2) i(2) by blast
  qed
  ultimately show "i < length (take n nodes) \<and> field (take n nodes ! i) = Some x" by simp
qed

lemma dt_truncate_ok:
  assumes inv: "dt_inv self" and n: "n \<le> length (dt_nodes self)" and stack: "\<forall>i \<in> set (dt_node_stack self). i < n"
  obtains self' where "dt_truncate n self = ret self'" "dt_inv self'" "dt_nodes self' = take n (dt_nodes self)"
    "dt_node_stack self' = dt_node_stack self"
proof -
  let ?nodes = "dt_nodes self" and ?ids = "forget_ids (drop n (dt_nodes self)) (dt_focusable_node_ids self, dt_view_node_ids self)"
  let ?self = "self\<lparr>dt_focusable_node_ids := fst ?ids, dt_view_node_ids := snd ?ids, dt_nodes := take n ?nodes\<rparr>"
  have "dt_truncate n self = ret ?self" using n by (simp add: dt_truncate_def slice_from_def split: prod.split)
  moreover have "dt_inv ?self"
  proof -
    have path: "root_path ?nodes i = root_path (take n ?nodes) i" if "i < n" for i
      using root_path_append [of i "take n ?nodes" "drop n ?nodes"] that n by simp
    have "stack_ok (take n ?nodes) (dt_node_stack self)"
    proof (cases "dt_node_stack self = []")
      case False
      then obtain i where i: "dt_node_stack self = root_path ?nodes i" using inv by (auto simp: dt_inv_def stack_ok_def)
      then have "i \<in> set (dt_node_stack self)" by (metis False last_in_set root_path_nonempty(2))
      then have "i < n" using stack by blast
      then show ?thesis unfolding stack_ok_def using i path n by auto
    qed (simp add: stack_ok_def)
    moreover have "along_path dn_context (take n ?nodes) (dt_node_stack self) = along_path dn_context ?nodes (dt_node_stack self)"
      by (rule along_path_cong) (use stack in simp)
    moreover have "along_path dn_view_id (take n ?nodes) (dt_node_stack self) = along_path dn_view_id ?nodes (dt_node_stack self)"
      by (rule along_path_cong) (use stack in simp)
    moreover have "ids_ok dn_focus_id (fst ?ids) (take n ?nodes)"
      by (rule ids_ok_take [OF _ forget_ids_gone(1)]) (use inv in \<open>simp add: dt_inv_def\<close>)
    moreover have "ids_ok dn_view_id (snd ?ids) (take n ?nodes)"
      by (rule ids_ok_take [OF _ forget_ids_gone(2)]) (use inv in \<open>simp add: dt_inv_def\<close>)
    ultimately show ?thesis using inv by (auto simp: dt_inv_def parents_below_def)
  qed
  ultimately show ?thesis using that by simp
qed

end
