(* ===== verification/Dispatch_Machine.thy ===== *)
theory Dispatch_Machine
  imports Dispatch_Reuse
begin

text \<open>
  A dispatch tree as a state machine: the calls an element tree makes on it while a frame is drawn. Every call keeps the
  invariant, and the nodes an element draws are a range that can be reused in the next frame.
\<close>

section \<open>The machine\<close>

datatype ('a, 'f, 'v, 'l) dt_event =
  Ev_Clear
  | Ev_Push_Node
  | Ev_Pop_Node
  | Ev_Set_Key_Context key_context
  | Ev_Set_Focus_Id 'f
  | Ev_Set_View_Id 'v
  | Ev_On_Key_Event 'l
  | Ev_On_Modifiers_Changed 'l
  | Ev_On_Action type_id 'l
  | Ev_Set_Active_Node nat
  | Ev_Truncate nat
  | Ev_Reuse_Subtree "nat \<times> nat" "'f option" "('a, 'f, 'v, 'l) dispatch_tree"

fun dt_exec :: "('a, 'f, 'v, 'l) dt_event \<Rightarrow> ('a, 'f, 'v, 'l) dispatch_tree \<Rightarrow> ('a, 'f, 'v, 'l) dispatch_tree rust" where
  "dt_exec Ev_Clear self = ret (dt_clear self)"
| "dt_exec Ev_Push_Node self = ret (fst (push_node self))"
| "dt_exec Ev_Pop_Node self = pop_node self"
| "dt_exec (Ev_Set_Key_Context c) self = set_key_context c self"
| "dt_exec (Ev_Set_Focus_Id f) self = set_focus_id f self"
| "dt_exec (Ev_Set_View_Id v) self = set_view_id v self"
| "dt_exec (Ev_On_Key_Event l) self = on_key_event l self"
| "dt_exec (Ev_On_Modifiers_Changed l) self = on_modifiers_changed l self"
| "dt_exec (Ev_On_Action t l) self = on_action t l self"
| "dt_exec (Ev_Set_Active_Node n) self = set_active_node n self"
| "dt_exec (Ev_Truncate n) self = dt_truncate n self"
| "dt_exec (Ev_Reuse_Subtree old_range focus source) self = do { (self, _, _) \<leftarrow> reuse_subtree old_range focus source self; ret self }"

text \<open>
  When a call is allowed: a node is active for those that concern it, its context, focus and view are set once, an index
  names a node, no active node is truncated, and what is reused is a range of nodes as they were pushed.
\<close>

fun dt_enabled :: "('a, 'f, 'v, 'l) dt_event \<Rightarrow> ('a, 'f, 'v, 'l) dispatch_tree \<Rightarrow> bool" where
  "dt_enabled Ev_Clear self = True"
| "dt_enabled Ev_Push_Node self = True"
| "dt_enabled Ev_Pop_Node self = (dt_node_stack self \<noteq> [])"
| "dt_enabled (Ev_Set_Key_Context c) self = active_unset dn_context self"
| "dt_enabled (Ev_Set_Focus_Id f) self = active_unset dn_focus_id self"
| "dt_enabled (Ev_Set_View_Id v) self = active_unset dn_view_id self"
| "dt_enabled (Ev_On_Key_Event l) self = (dt_node_stack self \<noteq> [])"
| "dt_enabled (Ev_On_Modifiers_Changed l) self = (dt_node_stack self \<noteq> [])"
| "dt_enabled (Ev_On_Action t l) self = (dt_node_stack self \<noteq> [])"
| "dt_enabled (Ev_Set_Active_Node n) self = (n < dt_len self)"
| "dt_enabled (Ev_Truncate n) self = (n \<le> dt_len self \<and> list_all (\<lambda>i. i < n) (dt_node_stack self))"
| "dt_enabled (Ev_Reuse_Subtree old_range focus source) self =
     (parents_below (dt_nodes source) \<and> in_push_order (dt_nodes source) old_range \<and>
      fst old_range \<le> snd old_range \<and> snd old_range \<le> dt_len source)"

inductive dt_reach :: "('a, 'f, 'v, 'l) dispatch_tree \<Rightarrow> bool" where
  new: "dt_reach (dt_new keymap registry)"
| step: "dt_reach self \<Longrightarrow> dt_enabled e self \<Longrightarrow> dt_exec e self = ret self' \<Longrightarrow> dt_reach self'"

inductive_cases dt_reach_stepE: "dt_reach self"

lemma listener_ok:
  assumes "dt_inv self" "dt_node_stack self \<noteq> []"
  shows "\<exists>self'. on_key_event l self = ret self' \<and> dt_inv self'" "\<exists>self'. on_modifiers_changed l self = ret self' \<and> dt_inv self'"
    "\<exists>self'. on_action t l self = ret self' \<and> dt_inv self'"
  unfolding on_key_event_def on_modifiers_changed_def on_action_def with_active_node_eq [OF assms]
  using with_active_node_ok [OF assms] by simp_all

lemma dt_exec_ok:
  assumes inv: "dt_inv self" and enabled: "dt_enabled e self"
  shows "\<exists>self'. dt_exec e self = ret self' \<and> dt_inv self'"
proof (cases e)
  case Ev_Push_Node
  then show ?thesis using push_node_ok(1) [OF inv] by (cases "push_node self") simp
next
  case (Ev_Set_Key_Context c)
  then have "active_unset dn_context self" using enabled by simp
  then show ?thesis using Ev_Set_Key_Context set_key_context_ok [OF inv] by (metis dt_exec.simps(4))
next
  case (Ev_Set_Focus_Id f)
  then have "active_unset dn_focus_id self" using enabled by simp
  then show ?thesis using Ev_Set_Focus_Id set_focus_id_ok [OF inv] by (metis dt_exec.simps(5))
next
  case (Ev_Set_View_Id v)
  then have "active_unset dn_view_id self" using enabled by simp
  then show ?thesis using Ev_Set_View_Id set_view_id_ok [OF inv] by (metis dt_exec.simps(6))
next
  case (Ev_Truncate n)
  then have "n \<le> length (dt_nodes self)" "\<forall>i \<in> set (dt_node_stack self). i < n" using enabled by (simp_all add: dt_len_def list_all_iff)
  then show ?thesis using Ev_Truncate dt_truncate_ok [OF inv] by (metis dt_exec.simps(11))
next
  case (Ev_Reuse_Subtree old_range focus source)
  obtain a b where range: "old_range = (a, b)" by (cases old_range)
  have src: "parents_below (dt_nodes source)" "in_push_order (dt_nodes source) (a, b)" "a \<le> b" "b \<le> length (dt_nodes source)"
    using enabled Ev_Reuse_Subtree range by (simp_all add: dt_len_def)
  show ?thesis by (rule reuse_subtree_ok [OF src inv, of focus]) (simp add: Ev_Reuse_Subtree range)
qed (use inv enabled pop_node_ok [OF inv] set_active_node_ok [OF inv] listener_ok [OF inv] in \<open>simp_all add: dt_new_inv dt_len_def\<close>)

lemma dt_reach_inv: "dt_reach self \<Longrightarrow> dt_inv self"
proof (induction rule: dt_reach.induct)
  case (step self e self')
  then show ?case using dt_exec_ok [of self e] by auto
qed (rule dt_new_inv)

text \<open>Running a list of calls.\<close>

fun dt_run :: "('a, 'f, 'v, 'l) dt_event list \<Rightarrow> ('a, 'f, 'v, 'l) dispatch_tree \<Rightarrow> ('a, 'f, 'v, 'l) dispatch_tree rust" where
  "dt_run [] self = ret self"
| "dt_run (e # es) self = do { _ \<leftarrow> assert_or_panic (dt_enabled e self); self \<leftarrow> dt_exec e self; dt_run es self }"

lemma dt_run_reach: "dt_run es self = ret self' \<Longrightarrow> dt_reach self \<Longrightarrow> dt_reach self'"
  by (induction es arbitrary: self) (auto simp: bind_eq_Some_conv assert_or_panic_def split: if_splits intro: dt_reach.step)

section \<open>What an element draws\<close>

text \<open>The calls by which an element draws itself and its children, or has them reused.\<close>

fun draw_event :: "('a, 'f, 'v, 'l) dt_event \<Rightarrow> bool" where
  "draw_event Ev_Clear = False"
| "draw_event (Ev_Set_Active_Node n) = False"
| "draw_event (Ev_Truncate n) = False"
| "draw_event e = True"

lemma in_push_order_cong:
  assumes "map dn_parent nodes = map dn_parent nodes'" "b \<le> length nodes"
  shows "in_push_order nodes (a, b) = in_push_order nodes' (a, b)"
proof -
  have "dn_parent (nodes ! i) = dn_parent (nodes' ! i)" if "i < b" for i
    using assms that by (metis less_le_trans nth_map length_map)
  then show ?thesis using root_path_same_parents [OF assms(1)] by (simp add: in_push_order_iff) metis
qed

lemma updated_active_parents:
  assumes "\<And>node. dn_parent (f node) = dn_parent node"
  shows "map dn_parent (updated_active f self) = map dn_parent (dt_nodes self)"
  unfolding updated_active_def Let_def by (rule nth_equalityI) (simp_all, metis assms nth_list_update_eq nth_list_update_neq)

text \<open>A call that only sets something leaves the shape of the tree and the stack of nodes.\<close>

lemma set_event_shape:
  assumes inv: "dt_inv self" and e: "draw_event e" "e \<noteq> Ev_Push_Node" "e \<noteq> Ev_Pop_Node" "\<nexists>old_range focus source. e = Ev_Reuse_Subtree old_range focus source"
      "dt_enabled e self" and exec: "dt_exec e self = ret self'"
  shows "map dn_parent (dt_nodes self') = map dn_parent (dt_nodes self) \<and> dt_node_stack self' = dt_node_stack self"
proof (cases e)
  case (Ev_Set_Key_Context c)
  show ?thesis by (rule set_key_context_ok [OF inv, of c]) (use Ev_Set_Key_Context e exec in \<open>simp_all add: updated_active_parents\<close>)
next
  case (Ev_Set_Focus_Id f)
  show ?thesis by (rule set_focus_id_ok [OF inv, of f]) (use Ev_Set_Focus_Id e exec in \<open>simp_all add: updated_active_parents\<close>)
next
  case (Ev_Set_View_Id v)
  show ?thesis by (rule set_view_id_ok [OF inv, of v]) (use Ev_Set_View_Id e exec in \<open>simp_all add: updated_active_parents\<close>)
qed (use e exec inv in \<open>auto simp: on_key_event_def on_modifiers_changed_def on_action_def with_active_node_eq updated_active_parents\<close>)

definition drawn_from :: "nat \<Rightarrow> ('a, 'f, 'v, 'l) dispatch_tree \<Rightarrow> bool" where
  "drawn_from first self \<longleftrightarrow> first \<le> length (dt_nodes self) \<and> in_push_order (dt_nodes self) (first, length (dt_nodes self)) \<and>
     (\<forall>p \<in> set (dt_node_stack self). p < first \<or> p \<in> set (root_path (dt_nodes self) (length (dt_nodes self) - 1)))"

lemma push_drawn:
  assumes inv: "dt_inv self" and drawn: "drawn_from first self" and push: "push_node self = (self', i)"
  shows "drawn_from first self'"
proof -
  note p = push_node_ok [OF inv push]
  let ?n = "length (dt_nodes self)"
  have path: "root_path (dt_nodes self') ?n = dt_node_stack self'"
    by (rule active_node [OF p(1)]) (use p(2,3) in simp_all)
  have same: "root_path (dt_nodes self') j = root_path (dt_nodes self) j" if "j < ?n" for j
    unfolding p(4) by (rule root_path_append [OF that])
  have "in_push_order (dt_nodes self') (first, ?n)"
    using drawn unfolding drawn_from_def in_push_order_iff p(4) by (simp add: nth_append root_path_append)
  moreover have "q \<in> set (root_path (dt_nodes self') (?n - 1))"
    if "dn_parent (dt_nodes self' ! ?n) = Some q" "first \<le> q" for q
  proof -
    have "q \<in> set (dt_node_stack self)" using that(1) p(4) by (auto simp: list_last_def split: if_splits)
    then have "q \<in> set (root_path (dt_nodes self) (?n - 1))" and "q < ?n" using drawn that(2) stack_range [OF inv] by (auto simp: drawn_from_def)
    then show ?thesis using same [of "?n - 1"] by simp
  qed
  ultimately have "in_push_order (dt_nodes self') (first, Suc ?n)"
    unfolding in_push_order_iff by (metis less_Suc_eq)
  then show ?thesis using drawn path p(2,4) unfolding drawn_from_def by simp
qed

lemma moved_path:
  assumes below: "parents_below nodes" "parents_below nodes'" and moved: "\<And>i. a \<le> i \<Longrightarrow> i < b \<Longrightarrow> moved_range nodes (a, b) base active nodes' i"
    and len: "b \<le> length nodes" "base + (b - a) \<le> length nodes'" and i: "a \<le> i" "i < b"
  shows "root_path nodes' (base + (i - a)) =
    (case active of Some k \<Rightarrow> root_path nodes' k | None \<Rightarrow> []) @ rev (map (\<lambda>j. base + (j - a)) (moved_ancestors nodes a i))"
  using i
proof (induction i rule: less_induct)
  case (less i)
  let ?parent = "dn_parent (nodes ! i)"
  have "dn_parent (nodes' ! (base + (i - a))) = moved_parent a base active ?parent"
    using moved [OF less.prems] by (simp add: moved_range_def moved_node_def)
  then have path: "root_path nodes' (base + (i - a)) =
      (case moved_parent a base active ?parent of Some p \<Rightarrow> root_path nodes' p | None \<Rightarrow> []) @ [base + (i - a)]"
    using root_path_parent [OF below(2)] len less.prems by (simp split: option.split)
  have anc: "moved_ancestors nodes a i = i # (case ?parent of Some p \<Rightarrow> if a \<le> p then moved_ancestors nodes a p else [] | None \<Rightarrow> [])"
    using moved_ancestors_parent [OF below(1)] less.prems len by simp
  show ?case
  proof (cases "\<exists>p. ?parent = Some p \<and> a \<le> p")
    case True
    then obtain p where p: "?parent = Some p" "a \<le> p" by blast
    then have "p < i" using below(1) less.prems len unfolding parents_below_def by (meson less_le_trans)
    then show ?thesis using less.IH [of p] p less.prems path anc by (simp add: moved_parent_def)
  next
    case False
    then show ?thesis using path anc by (auto simp: moved_parent_def split: option.splits)
  qed
qed

lemma moved_ancestors_mem:
  assumes "parents_below nodes" "i < length nodes" "p \<in> set (root_path nodes i)" "a \<le> p"
  shows "p \<in> set (moved_ancestors nodes a i)"
proof -
  have "p \<in> set (moved_ancestors nodes a p)"
    using moved_ancestors_parent [OF assms(1) root_path_range [OF assms(1-3)] assms(4)] by simp
  then show ?thesis using moved_ancestors_drop [OF assms] by (metis set_dropWhileD)
qed

lemma moved_parent_cases:
  assumes "parents_below nodes" "in_push_order nodes (a, b)" "b \<le> length nodes" "a \<le> i" "i < b"
    and parent: "moved_parent a base active (dn_parent (nodes ! i)) = Some q"
  obtains (active) "active = Some q" | (moved) p where "a < i" "q = base + (p - a)" "p \<in> set (moved_ancestors nodes a (i - 1))"
proof (cases "\<exists>p. dn_parent (nodes ! i) = Some p \<and> a \<le> p")
  case True
  then obtain p where p: "dn_parent (nodes ! i) = Some p" "a \<le> p" by blast
  then have less: "p < i" using assms(1,3,5) unfolding parents_below_def by (meson less_le_trans)
  then have "p \<in> set (root_path nodes (i - 1))" using assms(2,5) p unfolding in_push_order_iff by auto
  then have "p \<in> set (moved_ancestors nodes a (i - 1))" using moved_ancestors_mem [OF assms(1) _ _ p(2)] assms(3,5) by simp
  then show ?thesis using moved [of p] parent p less by (simp add: moved_parent_def)
qed (use parent active in \<open>auto simp: moved_parent_def split: option.splits\<close>)

lemma reuse_drawn:
  assumes inv: "dt_inv self" and drawn: "drawn_from first self"
    and src: "parents_below (dt_nodes source)" "in_push_order (dt_nodes source) (a, b)" "a \<le> b" "b \<le> length (dt_nodes source)"
    and reuse: "reuse_subtree (a, b) focus source self = ret (self', source', reused)"
  shows "drawn_from first self'"
proof -
  let ?base = "length (dt_nodes self)" and ?active = "list_last (dt_node_stack self)" and ?src = "dt_nodes source"
  obtain added where self': "dt_inv self'" "dt_nodes self' = dt_nodes self @ added" "length added = b - a" "dt_node_stack self' = dt_node_stack self"
      "\<And>i. a \<le> i \<Longrightarrow> i < b \<Longrightarrow> moved_range ?src (a, b) ?base ?active (dt_nodes self') i"
    by (rule reuse_subtree_ok [OF src inv, of focus]) (use reuse in simp)
  have below: "parents_below (dt_nodes self')" using self'(1) by (simp add: dt_inv_def)
  have stack: "(case ?active of Some k \<Rightarrow> root_path (dt_nodes self') k | None \<Rightarrow> []) = dt_node_stack self"
  proof (cases "dt_node_stack self = []")
    case False
    obtain k upper where "k < ?base" "dt_node_stack self = upper @ [k]" "?active = Some k" "root_path (dt_nodes self) k = upper @ [k]"
      by (rule active_node [OF inv False])
    then show ?thesis unfolding self'(2) by (simp add: root_path_append)
  qed simp
  have path: "root_path (dt_nodes self') (?base + (i - a)) = dt_node_stack self @ rev (map (\<lambda>j. ?base + (j - a)) (moved_ancestors ?src a i))"
    if "a \<le> i" "i < b" for i
    using moved_path [OF src(1) below self'(5) src(4) _ that] self'(2,3) stack by simp
  have order: "q \<in> set (root_path (dt_nodes self') (k - 1))"
    if k: "first < k" "k < length (dt_nodes self')" "dn_parent (dt_nodes self' ! k) = Some q" "first \<le> q" for k q
  proof (cases "k < ?base")
    case True
    then have "q \<in> set (root_path (dt_nodes self) (k - 1))" using drawn k self'(2) by (simp add: drawn_from_def in_push_order_iff nth_append)
    then show ?thesis unfolding self'(2) using True by (simp add: root_path_append)
  next
    case False
    define i where "i = a + (k - ?base)"
    have i: "a \<le> i" "i < b" "k = ?base + (i - a)" using False k(2) self'(2,3) src(3) by (simp_all add: i_def)
    have parent: "moved_parent a ?base ?active (dn_parent (?src ! i)) = Some q"
      using self'(5) [OF i(1,2)] k(3) i(3) by (simp add: moved_range_def moved_node_def)
    have below_base: "q \<in> set (root_path (dt_nodes self') (?base - 1))" if "q \<in> set (dt_node_stack self)"
    proof -
      have "q \<in> set (root_path (dt_nodes self) (?base - 1))" "q < ?base" using drawn k(4) stack_range [OF inv] that by (auto simp: drawn_from_def)
      then show ?thesis unfolding self'(2) by (simp add: root_path_append)
    qed
    show ?thesis
    proof (cases rule: moved_parent_cases [OF src(1,2,4) i(1,2) parent])
      case 1
      then show ?thesis using below_base path [of "i - 1"] i by (cases "i = a") (auto simp: list_last_def split: if_splits)
    next
      case (2 p)
      then show ?thesis using path [of "i - 1"] i by auto
    qed
  qed
  have "p < first \<or> p \<in> set (root_path (dt_nodes self') (length (dt_nodes self') - 1))" if "p \<in> set (dt_node_stack self)" for p
  proof (cases "a < b")
    case True
    then have "length (dt_nodes self') - 1 = ?base + (b - 1 - a)" using self'(2,3) by simp
    then show ?thesis using path [of "b - 1"] True that by simp
  next
    case False
    then show ?thesis using self'(2,3) drawn that by (auto simp: drawn_from_def)
  qed
  then show ?thesis using drawn order self'(2,4) unfolding drawn_from_def in_push_order_iff by auto
qed

lemma draw_event_drawn:
  assumes inv: "dt_inv self" and drawn: "drawn_from first self" and e: "draw_event e" "dt_enabled e self" and exec: "dt_exec e self = ret self'"
  shows "drawn_from first self'"
proof -
  consider "e = Ev_Push_Node" | "e = Ev_Pop_Node"
    | "e \<noteq> Ev_Push_Node" "e \<noteq> Ev_Pop_Node" "\<nexists>old_range focus source. e = Ev_Reuse_Subtree old_range focus source"
    | a b focus source where "e = Ev_Reuse_Subtree (a, b) focus source" by (cases e) auto
  then show ?thesis
  proof cases
    case 1
    then show ?thesis using push_drawn [OF inv drawn] exec by (metis dt_exec.simps(2) option.inject prod.collapse)
  next
    case 2
    then have "self' = at_stack self (butlast (dt_node_stack self))" using pop_node_ok(1) [OF inv] e(2) exec by simp
    then show ?thesis using drawn by (auto simp: drawn_from_def dest: in_set_butlastD)
  next
    case 3
    note shape = set_event_shape [OF inv e(1) 3 e(2) exec]
    then have len: "length (dt_nodes self') = length (dt_nodes self)" by (metis length_map)
    have "root_path (dt_nodes self') i = root_path (dt_nodes self) i" for i using root_path_same_parents shape by blast
    moreover have "in_push_order (dt_nodes self') (first, length (dt_nodes self)) = in_push_order (dt_nodes self) (first, length (dt_nodes self))"
      by (rule in_push_order_cong) (use shape len in simp_all)
    ultimately show ?thesis using drawn shape len by (simp add: drawn_from_def)
  next
    case 4
    then show ?thesis using reuse_drawn [OF inv drawn, of source a b focus] e(2) exec by (auto simp: dt_len_def bind_eq_Some_conv)
  qed
qed

lemma dt_run_drawn:
  "dt_inv self \<Longrightarrow> drawn_from first self \<Longrightarrow> list_all draw_event es \<Longrightarrow> dt_run es self = ret self' \<Longrightarrow> drawn_from first self'"
proof (induction es arbitrary: self)
  case (Cons e es)
  then have e: "dt_enabled e self" by (auto simp: assert_or_panic_def split: if_splits)
  obtain self2 where self2: "dt_exec e self = ret self2" "dt_inv self2" using dt_exec_ok [OF Cons.prems(1) e] by blast
  have "drawn_from first self2" using Cons.prems(3) by (intro draw_event_drawn [OF Cons.prems(1,2) _ e self2(1)]) simp
  then show ?case using Cons.IH [OF self2(2)] Cons.prems(3,4) self2(1) e by (simp add: assert_or_panic_def)
qed simp

text \<open>The range an element has drawn can be reused.\<close>

lemma drawn_in_push_order:
  assumes "dt_reach self" "list_all draw_event es" "dt_run es self = ret self'"
  shows "in_push_order (dt_nodes self') (dt_len self, dt_len self')"
proof -
  have "drawn_from (dt_len self) self" using stack_range [OF dt_reach_inv [OF assms(1)]] by (simp add: drawn_from_def dt_len_def in_push_order_def)
  then show ?thesis using dt_run_drawn [OF dt_reach_inv [OF assms(1)] _ assms(2,3)] by (simp add: drawn_from_def dt_len_def)
qed

end
