(* ===== verification/Dispatch_Tree_Properties.thy ===== *)
theory Dispatch_Tree_Properties
  imports Dispatch_Machine
begin

text \<open>
  What a dispatch tree promises: no call panics, the stacks stand for the path to the active node, focus follows the
  paths, and a part of the last frame's tree is moved to the next one as it was.
\<close>

lemma path_lookups:
  assumes "dt_inv self" "n < length (dt_nodes self)"
  shows "dispatch_path self n = ret (root_path (dt_nodes self) n)"
    "path_contexts (dt_nodes self) (root_path (dt_nodes self) n) = ret (along_path dn_context (dt_nodes self) (root_path (dt_nodes self) n))"
    "view_path_loop (dt_nodes self) (Some n) = ret (rev (along_path dn_view_id (dt_nodes self) (root_path (dt_nodes self) n)))"
proof -
  have below: "parents_below (dt_nodes self)" using assms(1) by (simp add: dt_inv_def)
  show "dispatch_path self n = ret (root_path (dt_nodes self) n)" by (rule dispatch_path_ok [OF below])
  show "path_contexts (dt_nodes self) (root_path (dt_nodes self) n) = ret (along_path dn_context (dt_nodes self) (root_path (dt_nodes self) n))"
    using root_path_range [OF below assms(2)] by (intro path_contexts_ok) blast
  show "view_path_loop (dt_nodes self) (Some n) = ret (rev (along_path dn_view_id (dt_nodes self) (root_path (dt_nodes self) n)))"
    by (rule view_path_loop_ok [OF below assms(2)])
qed

text \<open>A small tree: a node with a context and a focus, and one below it with a focus and a view.\<close>

definition sample_frame_events :: "(nat, nat, nat, nat) dt_event list" where
  "sample_frame_events = [Ev_Push_Node, Ev_Set_Key_Context [], Ev_Set_Focus_Id 1, Ev_Push_Node, Ev_Set_Focus_Id 2, Ev_Set_View_Id 5, Ev_On_Key_Event 9, Ev_Pop_Node]"

definition sample_tree :: "(nat, nat, nat, nat) dispatch_tree" where
  "sample_tree = \<lparr>dt_node_stack = [0], dt_context_stack = [[]], dt_view_stack = [],
     dt_nodes = [dn_default\<lparr>dn_context := Some [], dn_focus_id := Some 1\<rparr>,
       dn_default\<lparr>dn_parent := Some 0, dn_focus_id := Some 2, dn_view_id := Some 5, dn_key_listeners := [9]\<rparr>],
     dt_focusable_node_ids = [1 \<mapsto> 0, 2 \<mapsto> 1], dt_view_node_ids = [5 \<mapsto> 1], dt_keymap = keymap_default, dt_action_registry = Map.empty\<rparr>"

lemma sample_run: "dt_run sample_frame_events (dt_new keymap_default Map.empty) = ret sample_tree"
  by (simp add: sample_frame_events_def sample_tree_def dt_new_def push_node_def pop_node_def set_key_context_def set_focus_id_def set_view_id_def
    on_key_event_def with_active_node_def active_node_id_def active_unset_def index_or_panic_def assert_or_panic_def list_last_def dn_default_def)

lemma sample_reach: "dt_reach (dt_new keymap_default Map.empty :: (nat, nat, nat, nat) dispatch_tree)" "dt_reach sample_tree"
  using dt_run_reach [OF sample_run dt_reach.new] dt_reach.new by blast+

lemma sample_simps:
  "dt_len sample_tree = 2" "dt_node_stack sample_tree = [0]" "focusable_node_id sample_tree 1 = Some 0" "focusable_node_id sample_tree 2 = Some 1"
  by (simp_all add: sample_tree_def dt_len_def focusable_node_id_def)

text \<open>C7: none of the calls that draw a frame panics on the dispatch tree, and after each of them its stacks are what the walks
  up the parents find: the nodes on the dispatch path of the active node, their contexts and their views.\<close>

theorem dispatch_stacks_match:
  assumes "dt_reach self" "dt_enabled e self"
  shows "\<exists>self'. dt_exec e self = ret self' \<and>
    (case active_node_id self' of
       None \<Rightarrow> dt_context_stack self' = [] \<and> dt_view_stack self' = []
     | Some n \<Rightarrow> dispatch_path self' n = ret (dt_node_stack self') \<and>
         path_contexts (dt_nodes self') (dt_node_stack self') = ret (dt_context_stack self') \<and>
         view_path_loop (dt_nodes self') (Some n) = ret (rev (dt_view_stack self')))"
proof -
  obtain self' where self': "dt_exec e self = ret self'" "dt_inv self'" using dt_exec_ok [OF dt_reach_inv [OF assms(1)] assms(2)] by blast
  show ?thesis
  proof (cases "dt_node_stack self' = []")
    case True
    then show ?thesis using self' by (simp add: active_node_id_def dt_inv_def)
  next
    case False
    then obtain n where "n < length (dt_nodes self')" "dt_node_stack self' = root_path (dt_nodes self') n"
      using self'(2) by (auto simp: dt_inv_def stack_ok_def)
    then show ?thesis using self' path_lookups [OF self'(2)] by (simp add: active_node_id_def list_last_def dt_inv_def)
  qed
qed

theorem dispatch_stacks_match_witness:
  "dt_reach sample_tree \<and> dt_enabled Ev_Pop_Node sample_tree \<and> (\<exists>self'. dt_exec Ev_Pop_Node sample_tree = ret self' \<and>
    (case active_node_id self' of
       None \<Rightarrow> dt_context_stack self' = [] \<and> dt_view_stack self' = []
     | Some n \<Rightarrow> dispatch_path self' n = ret (dt_node_stack self') \<and>
         path_contexts (dt_nodes self') (dt_node_stack self') = ret (dt_context_stack self') \<and>
         view_path_loop (dt_nodes self') (Some n) = ret (rev (dt_view_stack self'))))"
  using dispatch_stacks_match [OF sample_reach(2), of Ev_Pop_Node] sample_reach(2) by (simp add: sample_simps)

text \<open>C6: \<open>set_active_node\<close>, which keeps the part of the stacks that can be kept, gives the same stacks as a walk from the node up
  to the root, wherever the tree was before, and changes nothing else.\<close>

theorem set_active_node_as_walk:
  assumes "dt_reach self" "n < dt_len self"
  shows "\<exists>path contexts views. dispatch_path self n = ret path \<and> path_contexts (dt_nodes self) path = ret contexts \<and>
    view_path_loop (dt_nodes self) (Some n) = ret views \<and>
    set_active_node n self = ret (self\<lparr>dt_node_stack := path, dt_context_stack := contexts, dt_view_stack := rev views\<rparr>)"
proof -
  have inv: "dt_inv self" and n: "n < length (dt_nodes self)" using dt_reach_inv assms by (simp_all add: dt_len_def)
  show ?thesis using path_lookups [OF inv n] set_active_node_ok(1) [OF inv n] by (simp add: at_stack_def)
qed

theorem set_active_node_as_walk_witness:
  "\<exists>path contexts views. dispatch_path sample_tree 1 = ret path \<and> path_contexts (dt_nodes sample_tree) path = ret contexts \<and>
    view_path_loop (dt_nodes sample_tree) (Some 1) = ret views \<and>
    set_active_node 1 sample_tree = ret (sample_tree\<lparr>dt_node_stack := path, dt_context_stack := contexts, dt_view_stack := rev views\<rparr>)"
  using set_active_node_as_walk [OF sample_reach(2), of 1] by (simp add: sample_simps)

text \<open>C15: \<open>focus_contains\<close> tells whether the node of the first focus is on the dispatch path of the second one's node, and
  \<open>focus_path\<close> are the focus ids along that path, which ends with the asked one.\<close>

theorem focus_is_on_path:
  assumes "dt_reach self" "focusable_node_id self parent = Some i" "focusable_node_id self child = Some j"
  shows "\<exists>path focuses. dispatch_path self j = ret path \<and> focus_contains self parent child = ret (parent = child \<or> i \<in> set path) \<and>
    focus_path self child = ret focuses \<and> focuses = List.map_filter (\<lambda>k. dn_focus_id (dt_nodes self ! k)) path \<and> last focuses = child"
proof -
  have inv: "dt_inv self" using dt_reach_inv assms(1) by blast
  then have j: "j < length (dt_nodes self)" "dn_focus_id (dt_nodes self ! j) = Some child" and below: "parents_below (dt_nodes self)"
    using assms(3) by (auto simp: dt_inv_def ids_ok_def focusable_node_id_def)
  obtain xs where xs: "root_path (dt_nodes self) j = xs @ [j]" using root_path_last by blast
  have "last (along_path dn_focus_id (dt_nodes self) (xs @ [j])) = child" using j(2) by simp
  then show ?thesis
    using path_lookups(1) [OF inv j(1)] focus_contains_loop_ok [OF below j(1)] focus_path_loop_ok [OF below j(1)] assms(2,3) xs
    by (simp add: focus_contains_def focus_path_def focusable_node_id_def along_path_def)
qed

theorem focus_is_on_path_witness:
  "\<exists>path focuses. dispatch_path sample_tree 1 = ret path \<and> focus_contains sample_tree 1 2 = ret ((1::nat) = 2 \<or> 0 \<in> set path) \<and>
    focus_path sample_tree 2 = ret focuses \<and> last focuses = 2"
  using focus_is_on_path [OF sample_reach(2) sample_simps(3,4)] by blast

lemma set_slice: "b \<le> length xs \<Longrightarrow> set (take (b - a) (drop a xs)) = {xs ! i | i. a \<le> i \<and> i < b}"
proof -
  assume "b \<le> length xs"
  then have "take (b - a) (drop a xs) = map (\<lambda>i. xs ! i) [a..<b]" by (intro nth_equalityI) simp_all
  then show ?thesis by auto
qed

text \<open>C17: a range of nodes that elements have drawn in one frame is moved to the next one as it was: every node keeps its
  context, focus and listeners and, under its refreshed id, its parent, except that the outermost ones come under the
  active node; the nodes and stacks that were there stay, and whether the range contains the focus is reported.\<close>

theorem reuse_keeps_subtree:
  assumes "dt_reach self" "dt_reach base" "list_all draw_event es" "dt_run es base = ret source"
    and "dt_len base \<le> a" "a \<le> b" "b \<le> dt_len source"
  shows "\<exists>self' source' reused. reuse_subtree (a, b) focus source self = ret (self', source', reused) \<and>
    dt_len self' = dt_len self + (b - a) \<and> take (dt_len self) (dt_nodes self') = dt_nodes self \<and>
    dt_node_stack self' = dt_node_stack self \<and> dt_context_stack self' = dt_context_stack self \<and> dt_view_stack self' = dt_view_stack self \<and>
    (\<forall>i. a \<le> i \<and> i < b \<longrightarrow> (\<exists>j. refresh_node_id reused i = ret j \<and> j < dt_len self' \<and>
       (let old = dt_nodes source ! i; new = dt_nodes self' ! j in
        dn_context new = dn_context old \<and> dn_focus_id new = dn_focus_id old \<and> dn_key_listeners new = dn_key_listeners old \<and>
        dn_action_listeners new = dn_action_listeners old \<and> dn_modifiers_changed_listeners new = dn_modifiers_changed_listeners old \<and>
        dn_view_id new \<in> {None, dn_view_id old} \<and>
        dn_parent new = (case dn_parent old of
            Some p \<Rightarrow> if a \<le> p then refresh_node_id reused p else active_node_id self | None \<Rightarrow> active_node_id self)))) \<and>
    ru_contains_focus reused = (focus \<noteq> None \<and> (\<exists>i. a \<le> i \<and> i < b \<and> dn_focus_id (dt_nodes source ! i) = focus))"
proof -
  have inv: "dt_inv self" using dt_reach_inv assms(1) by blast
  have below: "parents_below (dt_nodes source)" using dt_reach_inv dt_run_reach assms(2,4) by (metis dt_inv_def)
  have order: "in_push_order (dt_nodes source) (a, b)"
    using drawn_in_push_order [OF assms(2-4)] assms(5,7) unfolding in_push_order_iff by (meson le_trans less_le_trans order_le_less_trans)
  have b: "b \<le> length (dt_nodes source)" using assms(7) by (simp add: dt_len_def)
  let ?base = "length (dt_nodes self)" and ?moved = "take (b - a) (drop a (dt_nodes source))"
  obtain self' added source' reused where self': "reuse_subtree (a, b) focus source self = ret (self', source', reused)"
      "dt_inv self'" "dt_nodes self' = dt_nodes self @ added" "length added = b - a" "dt_node_stack self' = dt_node_stack self"
      "\<And>i. a \<le> i \<Longrightarrow> i < b \<Longrightarrow> moved_range (dt_nodes source) (a, b) ?base (active_node_id self) (dt_nodes self') i"
    and reused: "ru_old_range reused = (a, b)" "fst (ru_new_range reused) = ?base"
      "ru_contains_focus reused = (\<exists>node \<in> set ?moved. dn_focus_id node \<noteq> None \<and> dn_focus_id node = focus)"
    by (rule reuse_subtree_ok [OF below order assms(6) b inv, of focus]) (auto simp: active_node_id_def)
  have stacks: "dt_context_stack self' = dt_context_stack self" "dt_view_stack self' = dt_view_stack self"
    using self'(2,3,5) inv stack_range [OF inv] by (simp_all add: dt_inv_def along_path_append)
  have refresh: "refresh_node_id reused p = ret (?base + (p - a))" if "a \<le> p" "p < b" for p
    using that reused by (simp add: refresh_node_id_def assert_or_panic_def checked_minus_def add.commute)
  have parent: "moved_parent a ?base (active_node_id self) (dn_parent (dt_nodes source ! i)) = (case dn_parent (dt_nodes source ! i) of
      Some p \<Rightarrow> if a \<le> p then refresh_node_id reused p else active_node_id self | None \<Rightarrow> active_node_id self)" if "a \<le> i" "i < b" for i
  proof -
    have "p < b" if "dn_parent (dt_nodes source ! i) = Some p" for p
      using below that \<open>i < b\<close> b unfolding parents_below_def by (meson less_le_trans less_trans)
    then show ?thesis using refresh by (cases "dn_parent (dt_nodes source ! i)") (auto simp: moved_parent_def)
  qed
  have node: "\<exists>j views. refresh_node_id reused i = ret j \<and> j < dt_len self' \<and>
     dt_nodes self' ! j = moved_node (case dn_parent (dt_nodes source ! i) of
      Some p \<Rightarrow> if a \<le> p then refresh_node_id reused p else active_node_id self | None \<Rightarrow> active_node_id self) views (dt_nodes source ! i)"
    if "a \<le> i" "i < b" for i
    using refresh [OF that] self'(3,4) self'(6) [OF that] that unfolding parent [OF that, symmetric]
    by (auto simp: moved_range_def dt_len_def)
  have "set ?moved = {dt_nodes source ! i | i. a \<le> i \<and> i < b}"
    by (rule set_slice [OF b])
  then have focus: "ru_contains_focus reused = (focus \<noteq> None \<and> (\<exists>i. a \<le> i \<and> i < b \<and> dn_focus_id (dt_nodes source ! i) = focus))"
    using reused(3) by auto
  show ?thesis
  proof (rule exI [of _ self'], rule exI [of _ source'], rule exI [of _ reused], intro conjI allI impI, goal_cases)
    case (7 i)
    then show ?case using node [of i] by (auto simp: moved_node_def)
  qed (use self'(1,3-5) stacks focus in \<open>simp_all add: dt_len_def\<close>)
qed

theorem reuse_keeps_subtree_witness:
  "\<exists>self' source' reused. reuse_subtree (1, 2) (Some 2) sample_tree sample_tree = ret (self', source', reused) \<and>
    dt_len self' = 3 \<and> dt_node_stack self' = [0] \<and> ru_contains_focus reused"
proof -
  have "list_all draw_event sample_frame_events" by (simp add: sample_frame_events_def)
  moreover have "dt_len (dt_new keymap_default Map.empty :: (nat, nat, nat, nat) dispatch_tree) \<le> 1" by (simp add: dt_len_def dt_new_def)
  moreover have "dn_focus_id (dt_nodes sample_tree ! 1) = Some 2" by (simp add: sample_tree_def)
  ultimately show ?thesis
    using reuse_keeps_subtree [OF sample_reach(2,1) _ sample_run, of 1 2 "Some 2"] unfolding sample_simps by fastforce
qed

end
