(* ===== verification/Scene.thy ===== *)
theory Scene
  imports Bounds_Tree "HOL-Library.Product_Lexorder"
begin

text \<open>
  \<open>gpui/src/scene.rs\<close>: the primitives painted in a frame, their draw orders, and the batches in which a renderer draws
  them. A scene is a client of the tree of painted bounds. What only the shaders read of a primitive (colours, radii,
  widths, transformations, vertices) is one field of a type variable; lengths are those of \<open>Geometry\<close>.
\<close>

section \<open>Primitives\<close>

datatype primitive_kind =
  Kind_Shadow | Kind_Quad | Kind_Path | Kind_Underline | Kind_Monochrome_Sprite | Kind_Subpixel_Sprite | Kind_Polychrome_Sprite | Kind_Surface

text \<open>The derived order of the kinds is that of their declaration.\<close>

fun kind_rank :: "primitive_kind \<Rightarrow> nat" where
  "kind_rank Kind_Shadow = 0"
| "kind_rank Kind_Quad = 1"
| "kind_rank Kind_Path = 2"
| "kind_rank Kind_Underline = 3"
| "kind_rank Kind_Monochrome_Sprite = 4"
| "kind_rank Kind_Subpixel_Sprite = 5"
| "kind_rank Kind_Polychrome_Sprite = 6"
| "kind_rank Kind_Surface = 7"

lemma kind_rank_inj: "kind_rank a = kind_rank b \<longleftrightarrow> a = b"
  by (cases a; cases b) simp_all

instantiation primitive_kind :: linorder
begin

definition less_eq_primitive_kind :: "primitive_kind \<Rightarrow> primitive_kind \<Rightarrow> bool" where
  "less_eq_primitive_kind a b \<longleftrightarrow> kind_rank a \<le> kind_rank b"

definition less_primitive_kind :: "primitive_kind \<Rightarrow> primitive_kind \<Rightarrow> bool" where
  "less_primitive_kind a b \<longleftrightarrow> kind_rank a < kind_rank b"

instance
  by standard (auto simp: less_eq_primitive_kind_def less_primitive_kind_def kind_rank_inj)

end

datatype atlas_texture_kind = Texture_Monochrome | Texture_Polychrome | Texture_Subpixel

record atlas_texture_id =
  tx_index :: nat
  tx_kind :: atlas_texture_kind

record atlas_tile =
  tl_texture_id :: atlas_texture_id
  tl_tile_id :: nat
  tl_padding :: nat
  tl_bounds :: "int bounds"

text \<open>Shadows, quads, underlines and surfaces; sprites have a tile, paths an id.\<close>

record ('u, 'c) painted =
  pf_order :: nat
  pf_bounds :: "'u bounds"
  pf_content_mask :: "'u bounds"
  pf_shading :: 'c

record ('u, 'c) sprite = "('u, 'c) painted" +
  sp_tile :: atlas_tile

record ('u, 'c) path = "('u, 'c) painted" +
  pa_id :: nat

datatype ('u, 'c) primitive =
  P_Shadow "('u, 'c) painted"
  | P_Quad "('u, 'c) painted"
  | P_Path "('u, 'c) path"
  | P_Underline "('u, 'c) painted"
  | P_Monochrome_Sprite "('u, 'c) sprite"
  | P_Subpixel_Sprite "('u, 'c) sprite"
  | P_Polychrome_Sprite "('u, 'c) sprite"
  | P_Surface "('u, 'c) painted"

fun primitive_bounds :: "('u, 'c) primitive \<Rightarrow> 'u bounds" where
  "primitive_bounds (P_Shadow shadow) = pf_bounds shadow"
| "primitive_bounds (P_Quad quad) = pf_bounds quad"
| "primitive_bounds (P_Path path) = pf_bounds path"
| "primitive_bounds (P_Underline underline) = pf_bounds underline"
| "primitive_bounds (P_Monochrome_Sprite sprite) = pf_bounds sprite"
| "primitive_bounds (P_Subpixel_Sprite sprite) = pf_bounds sprite"
| "primitive_bounds (P_Polychrome_Sprite sprite) = pf_bounds sprite"
| "primitive_bounds (P_Surface surface) = pf_bounds surface"

fun primitive_content_mask :: "('u, 'c) primitive \<Rightarrow> 'u bounds" where
  "primitive_content_mask (P_Shadow shadow) = pf_content_mask shadow"
| "primitive_content_mask (P_Quad quad) = pf_content_mask quad"
| "primitive_content_mask (P_Path path) = pf_content_mask path"
| "primitive_content_mask (P_Underline underline) = pf_content_mask underline"
| "primitive_content_mask (P_Monochrome_Sprite sprite) = pf_content_mask sprite"
| "primitive_content_mask (P_Subpixel_Sprite sprite) = pf_content_mask sprite"
| "primitive_content_mask (P_Polychrome_Sprite sprite) = pf_content_mask sprite"
| "primitive_content_mask (P_Surface surface) = pf_content_mask surface"

section \<open>The scene\<close>

datatype ('u, 'c) paint_operation =
  Paint_Primitive "('u, 'c) primitive"
  | Start_Layer "'u bounds"
  | End_Layer

record ('u, 'c) scene =
  sc_paint_operations :: "('u, 'c) paint_operation list"
  sc_primitive_bounds :: "'u bounds_tree"
  sc_layer_stack :: "nat list"
  sc_shadows :: "('u, 'c) painted list"
  sc_quads :: "('u, 'c) painted list"
  sc_paths :: "('u, 'c) path list"
  sc_underlines :: "('u, 'c) painted list"
  sc_monochrome_sprites :: "('u, 'c) sprite list"
  sc_subpixel_sprites :: "('u, 'c) sprite list"
  sc_polychrome_sprites :: "('u, 'c) sprite list"
  sc_surfaces :: "('u, 'c) painted list"

definition scene_default :: "('u, 'c) scene" where
  "scene_default = \<lparr>sc_paint_operations = [], sc_primitive_bounds = bt_default, sc_layer_stack = [], sc_shadows = [], sc_quads = [],
     sc_paths = [], sc_underlines = [], sc_monochrome_sprites = [], sc_subpixel_sprites = [], sc_polychrome_sprites = [], sc_surfaces = []\<rparr>"

definition scene_clear :: "('u, 'c) scene \<Rightarrow> ('u, 'c) scene" where
  "scene_clear self = self\<lparr>sc_paint_operations := [], sc_primitive_bounds := bt_clear (sc_primitive_bounds self), sc_layer_stack := [],
     sc_paths := [], sc_shadows := [], sc_quads := [], sc_underlines := [], sc_monochrome_sprites := [], sc_subpixel_sprites := [],
     sc_polychrome_sprites := [], sc_surfaces := []\<rparr>"

definition scene_len :: "('u, 'c) scene \<Rightarrow> nat" where
  "scene_len self = length (sc_paint_operations self)"

definition push_layer :: "'u::linordered_ab_group_add bounds \<Rightarrow> ('u, 'c) scene \<Rightarrow> ('u, 'c) scene rust" where
  "push_layer b self = do {
     (tree, order) \<leftarrow> bt_insert (sc_primitive_bounds self) b;
     ret (self\<lparr>sc_primitive_bounds := tree, sc_layer_stack := sc_layer_stack self @ [order],
               sc_paint_operations := sc_paint_operations self @ [Start_Layer b]\<rparr>) }"

definition pop_layer :: "('u, 'c) scene \<Rightarrow> ('u, 'c) scene" where
  "pop_layer self = self\<lparr>sc_layer_stack := butlast (sc_layer_stack self), sc_paint_operations := sc_paint_operations self @ [End_Layer]\<rparr>"

text \<open>The match in \<open>insert_primitive\<close>: the order is set and the primitive goes to the vector of its kind.\<close>

fun push_primitive :: "nat \<Rightarrow> ('u, 'c) primitive \<Rightarrow> ('u, 'c) scene \<Rightarrow> ('u, 'c) scene \<times> ('u, 'c) primitive" where
  "push_primitive order (P_Shadow shadow) self = (
     let shadow = shadow\<lparr>pf_order := order\<rparr> in (self\<lparr>sc_shadows := sc_shadows self @ [shadow]\<rparr>, P_Shadow shadow))"
| "push_primitive order (P_Quad quad) self = (
     let quad = quad\<lparr>pf_order := order\<rparr> in (self\<lparr>sc_quads := sc_quads self @ [quad]\<rparr>, P_Quad quad))"
| "push_primitive order (P_Path path) self = (
     let path = path\<lparr>pf_order := order, pa_id := length (sc_paths self)\<rparr> in (self\<lparr>sc_paths := sc_paths self @ [path]\<rparr>, P_Path path))"
| "push_primitive order (P_Underline underline) self = (
     let underline = underline\<lparr>pf_order := order\<rparr> in (self\<lparr>sc_underlines := sc_underlines self @ [underline]\<rparr>, P_Underline underline))"
| "push_primitive order (P_Monochrome_Sprite sprite) self = (
     let sprite = sprite\<lparr>pf_order := order\<rparr> in
     (self\<lparr>sc_monochrome_sprites := sc_monochrome_sprites self @ [sprite]\<rparr>, P_Monochrome_Sprite sprite))"
| "push_primitive order (P_Subpixel_Sprite sprite) self = (
     let sprite = sprite\<lparr>pf_order := order\<rparr> in
     (self\<lparr>sc_subpixel_sprites := sc_subpixel_sprites self @ [sprite]\<rparr>, P_Subpixel_Sprite sprite))"
| "push_primitive order (P_Polychrome_Sprite sprite) self = (
     let sprite = sprite\<lparr>pf_order := order\<rparr> in
     (self\<lparr>sc_polychrome_sprites := sc_polychrome_sprites self @ [sprite]\<rparr>, P_Polychrome_Sprite sprite))"
| "push_primitive order (P_Surface surface) self = (
     let surface = surface\<lparr>pf_order := order\<rparr> in (self\<lparr>sc_surfaces := sc_surfaces self @ [surface]\<rparr>, P_Surface surface))"

definition insert_primitive :: "('u::linordered_ab_group_add, 'c) primitive \<Rightarrow> ('u, 'c) scene \<Rightarrow> ('u, 'c) scene rust" where
  "insert_primitive primitive self = (
     let clipped_bounds = bounds_intersect (primitive_bounds primitive) (primitive_content_mask primitive) in
     if bounds_is_empty clipped_bounds then ret self
     else do {
       (self, order) \<leftarrow> (case list_last (sc_layer_stack self) of
           Some order \<Rightarrow> ret (self, order)
         | None \<Rightarrow> do {
             (tree, order) \<leftarrow> bt_insert (sc_primitive_bounds self) clipped_bounds;
             ret (self\<lparr>sc_primitive_bounds := tree\<rparr>, order) });
       let (self, primitive) = push_primitive order primitive self;
       ret (self\<lparr>sc_paint_operations := sc_paint_operations self @ [Paint_Primitive primitive]\<rparr>) })"

fun replay_operation :: "('u::linordered_ab_group_add, 'c) paint_operation \<Rightarrow> ('u, 'c) scene \<Rightarrow> ('u, 'c) scene rust" where
  "replay_operation (Paint_Primitive primitive) self = insert_primitive primitive self"
| "replay_operation (Start_Layer b) self = push_layer b self"
| "replay_operation End_Layer self = ret (pop_layer self)"

fun replay_operations :: "('u::linordered_ab_group_add, 'c) paint_operation list \<Rightarrow> ('u, 'c) scene \<Rightarrow> ('u, 'c) scene rust" where
  "replay_operations [] self = ret self"
| "replay_operations (operation # operations) self = do { self \<leftarrow> replay_operation operation self; replay_operations operations self }"

definition scene_replay :: "nat \<times> nat \<Rightarrow> ('u::linordered_ab_group_add, 'c) scene \<Rightarrow> ('u, 'c) scene \<Rightarrow> ('u, 'c) scene rust" where
  "scene_replay replayed prev_scene self = do {
     _ \<leftarrow> assert_or_panic (fst replayed \<le> snd replayed \<and> snd replayed \<le> length (sc_paint_operations prev_scene));
     replay_operations (take (snd replayed - fst replayed) (drop (fst replayed) (sc_paint_operations prev_scene))) self }"

definition sprite_key :: "('u, 'c) sprite \<Rightarrow> nat \<times> nat" where
  "sprite_key sprite = (pf_order sprite, tl_tile_id (sp_tile sprite))"

definition scene_finish :: "('u, 'c) scene \<Rightarrow> ('u, 'c) scene" where
  "scene_finish self = self\<lparr>
     sc_shadows := sort_key pf_order (sc_shadows self),
     sc_quads := sort_key pf_order (sc_quads self),
     sc_paths := sort_key pf_order (sc_paths self),
     sc_underlines := sort_key pf_order (sc_underlines self),
     sc_monochrome_sprites := sort_key sprite_key (sc_monochrome_sprites self),
     sc_subpixel_sprites := sort_key sprite_key (sc_subpixel_sprites self),
     sc_polychrome_sprites := sort_key sprite_key (sc_polychrome_sprites self),
     sc_surfaces := sort_key pf_order (sc_surfaces self)\<rparr>"

section \<open>Batches\<close>

datatype primitive_batch =
  Batch_Shadows "nat \<times> nat"
  | Batch_Quads "nat \<times> nat"
  | Batch_Paths "nat \<times> nat"
  | Batch_Underlines "nat \<times> nat"
  | Batch_Monochrome_Sprites atlas_texture_id "nat \<times> nat"
  | Batch_Subpixel_Sprites atlas_texture_id "nat \<times> nat"
  | Batch_Polychrome_Sprites atlas_texture_id "nat \<times> nat"
  | Batch_Surfaces "nat \<times> nat"

text \<open>A peekable iterator over a slice is what it has not yet yielded.\<close>

record ('u, 'c) batch_iterator =
  bi_shadows_start :: nat
  bi_shadows_iter :: "('u, 'c) painted list"
  bi_quads_start :: nat
  bi_quads_iter :: "('u, 'c) painted list"
  bi_paths_start :: nat
  bi_paths_iter :: "('u, 'c) path list"
  bi_underlines_start :: nat
  bi_underlines_iter :: "('u, 'c) painted list"
  bi_monochrome_sprites_start :: nat
  bi_monochrome_sprites_iter :: "('u, 'c) sprite list"
  bi_subpixel_sprites_start :: nat
  bi_subpixel_sprites_iter :: "('u, 'c) sprite list"
  bi_polychrome_sprites_start :: nat
  bi_polychrome_sprites_iter :: "('u, 'c) sprite list"
  bi_surfaces_start :: nat
  bi_surfaces_iter :: "('u, 'c) painted list"

definition batches :: "('u, 'c) scene \<Rightarrow> ('u, 'c) batch_iterator" where
  "batches self =
     \<lparr>bi_shadows_start = 0, bi_shadows_iter = sc_shadows self, bi_quads_start = 0, bi_quads_iter = sc_quads self,
      bi_paths_start = 0, bi_paths_iter = sc_paths self, bi_underlines_start = 0, bi_underlines_iter = sc_underlines self,
      bi_monochrome_sprites_start = 0, bi_monochrome_sprites_iter = sc_monochrome_sprites self,
      bi_subpixel_sprites_start = 0, bi_subpixel_sprites_iter = sc_subpixel_sprites self,
      bi_polychrome_sprites_start = 0, bi_polychrome_sprites_iter = sc_polychrome_sprites self,
      bi_surfaces_start = 0, bi_surfaces_iter = sc_surfaces self\<rparr>"

definition peek_order :: "('u, 'c, 'm) painted_scheme list \<Rightarrow> nat option" where
  "peek_order iter = map_option pf_order (list_first iter)"

definition orders_and_kinds :: "('u, 'c) batch_iterator \<Rightarrow> (nat option \<times> primitive_kind) list" where
  "orders_and_kinds self =
     [(peek_order (bi_shadows_iter self), Kind_Shadow),
      (peek_order (bi_quads_iter self), Kind_Quad),
      (peek_order (bi_paths_iter self), Kind_Path),
      (peek_order (bi_underlines_iter self), Kind_Underline),
      (peek_order (bi_monochrome_sprites_iter self), Kind_Monochrome_Sprite),
      (peek_order (bi_subpixel_sprites_iter self), Kind_Subpixel_Sprite),
      (peek_order (bi_polychrome_sprites_iter self), Kind_Polychrome_Sprite),
      (peek_order (bi_surfaces_iter self), Kind_Surface)]"

definition order_or_max :: "nat option \<times> primitive_kind \<Rightarrow> nat \<times> primitive_kind" where
  "order_or_max entry = (case fst entry of Some order \<Rightarrow> order | None \<Rightarrow> U32_MAX, snd entry)"

text \<open>One arm of the match: the first primitive, and those that \<open>next_if\<close> accepts after it.\<close>

definition take_batch :: "('x \<Rightarrow> bool) \<Rightarrow> nat \<Rightarrow> 'x list \<Rightarrow> nat \<times> 'x list" where
  "take_batch accepts start iter = (start + 1 + length (takeWhile accepts (tl iter)), dropWhile accepts (tl iter))"

definition drawn_before :: "nat \<times> primitive_kind \<Rightarrow> primitive_kind \<Rightarrow> ('u, 'c, 'm) painted_scheme \<Rightarrow> bool" where
  "drawn_before max_order_and_kind batch_kind primitive \<longleftrightarrow> (pf_order primitive, batch_kind) < max_order_and_kind"

definition sprite_texture :: "('u, 'c) sprite \<Rightarrow> atlas_texture_id" where
  "sprite_texture sprite = tl_texture_id (sp_tile sprite)"

definition texture_of :: "('u, 'c) sprite list \<Rightarrow> atlas_texture_id rust" where
  "texture_of iter = map_option sprite_texture (list_first iter)"

fun next_batch ::
  "primitive_kind \<Rightarrow> nat \<times> primitive_kind \<Rightarrow> ('u, 'c) batch_iterator \<Rightarrow> (primitive_batch \<times> ('u, 'c) batch_iterator) rust" where
  "next_batch Kind_Shadow bound self = (
     let (shadows_end, iter) = take_batch (drawn_before bound Kind_Shadow) (bi_shadows_start self) (bi_shadows_iter self) in
     ret (Batch_Shadows (bi_shadows_start self, shadows_end), self\<lparr>bi_shadows_start := shadows_end, bi_shadows_iter := iter\<rparr>))"
| "next_batch Kind_Quad bound self = (
     let (quads_end, iter) = take_batch (drawn_before bound Kind_Quad) (bi_quads_start self) (bi_quads_iter self) in
     ret (Batch_Quads (bi_quads_start self, quads_end), self\<lparr>bi_quads_start := quads_end, bi_quads_iter := iter\<rparr>))"
| "next_batch Kind_Path bound self = (
     let (paths_end, iter) = take_batch (drawn_before bound Kind_Path) (bi_paths_start self) (bi_paths_iter self) in
     ret (Batch_Paths (bi_paths_start self, paths_end), self\<lparr>bi_paths_start := paths_end, bi_paths_iter := iter\<rparr>))"
| "next_batch Kind_Underline bound self = (
     let (underlines_end, iter) = take_batch (drawn_before bound Kind_Underline) (bi_underlines_start self) (bi_underlines_iter self) in
     ret (Batch_Underlines (bi_underlines_start self, underlines_end), self\<lparr>bi_underlines_start := underlines_end, bi_underlines_iter := iter\<rparr>))"
| "next_batch Kind_Monochrome_Sprite bound self = do {
     texture_id \<leftarrow> texture_of (bi_monochrome_sprites_iter self);
     let (sprites_end, iter) = take_batch (\<lambda>sprite. drawn_before bound Kind_Monochrome_Sprite sprite \<and> sprite_texture sprite = texture_id)
       (bi_monochrome_sprites_start self) (bi_monochrome_sprites_iter self);
     ret (Batch_Monochrome_Sprites texture_id (bi_monochrome_sprites_start self, sprites_end),
       self\<lparr>bi_monochrome_sprites_start := sprites_end, bi_monochrome_sprites_iter := iter\<rparr>) }"
| "next_batch Kind_Subpixel_Sprite bound self = do {
     texture_id \<leftarrow> texture_of (bi_subpixel_sprites_iter self);
     let (sprites_end, iter) = take_batch (\<lambda>sprite. drawn_before bound Kind_Subpixel_Sprite sprite \<and> sprite_texture sprite = texture_id)
       (bi_subpixel_sprites_start self) (bi_subpixel_sprites_iter self);
     ret (Batch_Subpixel_Sprites texture_id (bi_subpixel_sprites_start self, sprites_end),
       self\<lparr>bi_subpixel_sprites_start := sprites_end, bi_subpixel_sprites_iter := iter\<rparr>) }"
| "next_batch Kind_Polychrome_Sprite bound self = do {
     texture_id \<leftarrow> texture_of (bi_polychrome_sprites_iter self);
     let (sprites_end, iter) = take_batch (\<lambda>sprite. drawn_before bound Kind_Polychrome_Sprite sprite \<and> sprite_texture sprite = texture_id)
       (bi_polychrome_sprites_start self) (bi_polychrome_sprites_iter self);
     ret (Batch_Polychrome_Sprites texture_id (bi_polychrome_sprites_start self, sprites_end),
       self\<lparr>bi_polychrome_sprites_start := sprites_end, bi_polychrome_sprites_iter := iter\<rparr>) }"
| "next_batch Kind_Surface bound self = (
     let (surfaces_end, iter) = take_batch (drawn_before bound Kind_Surface) (bi_surfaces_start self) (bi_surfaces_iter self) in
     ret (Batch_Surfaces (bi_surfaces_start self, surfaces_end), self\<lparr>bi_surfaces_start := surfaces_end, bi_surfaces_iter := iter\<rparr>))"

definition batch_next :: "('u, 'c) batch_iterator \<Rightarrow> (primitive_batch option \<times> ('u, 'c) batch_iterator) rust" where
  "batch_next self = do {
     let sorted = sort_key order_or_max (orders_and_kinds self);
     first \<leftarrow> index_or_panic sorted 0;
     second \<leftarrow> index_or_panic sorted 1;
     if fst first \<noteq> None then do {
       (batch, self) \<leftarrow> next_batch (snd first) (order_or_max second) self;
       ret (Some batch, self) }
     else ret (None, self) }"

end
