(* ===== verification/Scene_Batches.thy ===== *)
theory Scene_Batches
  imports Scene
begin

text \<open>
  The batches of a scene, for all kinds of primitives at once: what is left of each iterator is read as the list of the
  orders and textures of its primitives.
\<close>

section \<open>Iterators by kind\<close>

fun iter_keys :: "('u, 'c) batch_iterator \<Rightarrow> primitive_kind \<Rightarrow> (nat \<times> atlas_texture_id option) list" where
  "iter_keys it Kind_Shadow = map (\<lambda>p. (pf_order p, None)) (bi_shadows_iter it)"
| "iter_keys it Kind_Quad = map (\<lambda>p. (pf_order p, None)) (bi_quads_iter it)"
| "iter_keys it Kind_Path = map (\<lambda>p. (pf_order p, None)) (bi_paths_iter it)"
| "iter_keys it Kind_Underline = map (\<lambda>p. (pf_order p, None)) (bi_underlines_iter it)"
| "iter_keys it Kind_Monochrome_Sprite = map (\<lambda>p. (pf_order p, Some (sprite_texture p))) (bi_monochrome_sprites_iter it)"
| "iter_keys it Kind_Subpixel_Sprite = map (\<lambda>p. (pf_order p, Some (sprite_texture p))) (bi_subpixel_sprites_iter it)"
| "iter_keys it Kind_Polychrome_Sprite = map (\<lambda>p. (pf_order p, Some (sprite_texture p))) (bi_polychrome_sprites_iter it)"
| "iter_keys it Kind_Surface = map (\<lambda>p. (pf_order p, None)) (bi_surfaces_iter it)"

fun iter_start :: "('u, 'c) batch_iterator \<Rightarrow> primitive_kind \<Rightarrow> nat" where
  "iter_start it Kind_Shadow = bi_shadows_start it"
| "iter_start it Kind_Quad = bi_quads_start it"
| "iter_start it Kind_Path = bi_paths_start it"
| "iter_start it Kind_Underline = bi_underlines_start it"
| "iter_start it Kind_Monochrome_Sprite = bi_monochrome_sprites_start it"
| "iter_start it Kind_Subpixel_Sprite = bi_subpixel_sprites_start it"
| "iter_start it Kind_Polychrome_Sprite = bi_polychrome_sprites_start it"
| "iter_start it Kind_Surface = bi_surfaces_start it"

definition all_kinds :: "primitive_kind list" where
  "all_kinds = [Kind_Shadow, Kind_Quad, Kind_Path, Kind_Underline, Kind_Monochrome_Sprite, Kind_Subpixel_Sprite, Kind_Polychrome_Sprite, Kind_Surface]"

lemma all_kinds: "set all_kinds = UNIV" "distinct all_kinds" "length all_kinds = 8"
  using primitive_kind.exhaust by (auto simp: all_kinds_def)

fun batch_kind :: "primitive_batch \<Rightarrow> primitive_kind" where
  "batch_kind (Batch_Shadows _) = Kind_Shadow"
| "batch_kind (Batch_Quads _) = Kind_Quad"
| "batch_kind (Batch_Paths _) = Kind_Path"
| "batch_kind (Batch_Underlines _) = Kind_Underline"
| "batch_kind (Batch_Monochrome_Sprites _ _) = Kind_Monochrome_Sprite"
| "batch_kind (Batch_Subpixel_Sprites _ _) = Kind_Subpixel_Sprite"
| "batch_kind (Batch_Polychrome_Sprites _ _) = Kind_Polychrome_Sprite"
| "batch_kind (Batch_Surfaces _) = Kind_Surface"

fun batch_range :: "primitive_batch \<Rightarrow> nat \<times> nat" where
  "batch_range (Batch_Shadows r) = r"
| "batch_range (Batch_Quads r) = r"
| "batch_range (Batch_Paths r) = r"
| "batch_range (Batch_Underlines r) = r"
| "batch_range (Batch_Monochrome_Sprites _ r) = r"
| "batch_range (Batch_Subpixel_Sprites _ r) = r"
| "batch_range (Batch_Polychrome_Sprites _ r) = r"
| "batch_range (Batch_Surfaces r) = r"

fun batch_texture :: "primitive_batch \<Rightarrow> atlas_texture_id option" where
  "batch_texture (Batch_Monochrome_Sprites texture_id _) = Some texture_id"
| "batch_texture (Batch_Subpixel_Sprites texture_id _) = Some texture_id"
| "batch_texture (Batch_Polychrome_Sprites texture_id _) = Some texture_id"
| "batch_texture _ = None"

lemma orders_and_kinds_eq: "orders_and_kinds it = map (\<lambda>k. (map_option fst (list_first (iter_keys it k)), k)) all_kinds"
  by (simp add: orders_and_kinds_def all_kinds_def peek_order_def list_first_def split: list.split)

section \<open>One batch\<close>

text \<open>How many primitives after the first one go into a batch.\<close>

definition joining :: "nat \<times> primitive_kind \<Rightarrow> primitive_kind \<Rightarrow> (nat \<times> atlas_texture_id option) list \<Rightarrow> nat" where
  "joining bound k keys = length (takeWhile (\<lambda>key. (fst key, k) < bound \<and> snd key = snd (hd keys)) (tl keys))"

definition advanced ::
  "('u, 'c) batch_iterator \<Rightarrow> primitive_kind \<Rightarrow> nat \<Rightarrow> ('u, 'c) batch_iterator \<Rightarrow> bool" where
  "advanced it k n it' \<longleftrightarrow> iter_keys it' = (iter_keys it)(k := drop n (iter_keys it k)) \<and> iter_start it' = (iter_start it)(k := iter_start it k + n)"

lemma all_kinds_iff:
  "(\<forall>k. P k) \<longleftrightarrow> P Kind_Shadow \<and> P Kind_Quad \<and> P Kind_Path \<and> P Kind_Underline \<and> P Kind_Monochrome_Sprite \<and>
     P Kind_Subpixel_Sprite \<and> P Kind_Polychrome_Sprite \<and> P Kind_Surface"
  by (metis primitive_kind.exhaust)

lemma drawn_before_fun: "drawn_before bound k = (\<lambda>p. (pf_order p, k) < bound)"
  by (simp add: fun_eq_iff drawn_before_def)

lemma next_batch_ok:
  assumes "iter_keys it k \<noteq> []"
  shows "\<exists>batch it'. next_batch k bound it = ret (batch, it') \<and> batch_kind batch = k \<and> batch_texture batch = snd (hd (iter_keys it k)) \<and>
    batch_range batch = (iter_start it k, iter_start it k + Suc (joining bound k (iter_keys it k))) \<and>
    advanced it k (Suc (joining bound k (iter_keys it k))) it'"
  using assms
  by (cases k) (auto simp: neq_Nil_conv take_batch_def texture_of_def list_first_def advanced_def fun_eq_iff all_kinds_iff joining_def
    takeWhile_map drawn_before_fun comp_def dropWhile_eq_drop drop_map)

section \<open>The choice of the batch\<close>

text \<open>The order of the first primitive that is left of a kind, with the kind.\<close>

definition head_key :: "('u, 'c) batch_iterator \<Rightarrow> primitive_kind \<Rightarrow> nat \<times> primitive_kind" where
  "head_key it k = (case iter_keys it k of [] \<Rightarrow> U32_MAX | key # _ \<Rightarrow> fst key, k)"

lemma order_or_max_head: "order_or_max (map_option fst (list_first (iter_keys it k)), k) = head_key it k"
  by (simp add: order_or_max_def head_key_def list_first_def split: list.split)

lemma sort_key_map: "sort_key f (map g xs) = map g (sort_key (\<lambda>x. f (g x)) xs)"
proof (induction xs)
  case (Cons x xs)
  have "insort_key f (g x) (map g ys) = map g (insort_key (\<lambda>x. f (g x)) x ys)" for ys by (induction ys) simp_all
  then show ?case using Cons by simp
qed simp

lemma sorted_kinds:
  obtains first second rest where
    "sort_key order_or_max (orders_and_kinds it) = map (\<lambda>k. (map_option fst (list_first (iter_keys it k)), k)) (first # second # rest)"
    "\<forall>k. head_key it first \<le> head_key it k" "\<forall>k. k \<noteq> first \<longrightarrow> head_key it second \<le> head_key it k" "second \<noteq> first"
proof -
  let ?f = "\<lambda>k. (map_option fst (list_first (iter_keys it k)), k)"
  define ks where "ks = sort_key (head_key it) all_kinds"
  have sorted: "sort_key order_or_max (orders_and_kinds it) = map ?f ks"
    by (simp add: orders_and_kinds_eq sort_key_map order_or_max_head ks_def)
  have ks: "length ks = 8" "set ks = UNIV" "distinct ks" "sorted (map (head_key it) ks)"
    by (simp_all add: ks_def all_kinds)
  obtain first second rest where ks_eq: "ks = first # second # rest"
    using ks(1) by (cases ks; cases "tl ks") auto
  have "head_key it first \<le> head_key it k" for k
  proof -
    have "k \<in> set ks" using ks(2) by simp
    then show ?thesis using ks(4) unfolding ks_eq by auto
  qed
  moreover have "head_key it second \<le> head_key it k" if "k \<noteq> first" for k
  proof -
    have "k \<in> set ks" using ks(2) by simp
    then show ?thesis using ks(4) that unfolding ks_eq by auto
  qed
  moreover have "second \<noteq> first" using ks(3) unfolding ks_eq by auto
  ultimately show ?thesis using that [OF sorted [unfolded ks_eq]] by blast
qed

text \<open>Either nothing is left, or a batch begins with the primitive that is next in order.\<close>

definition orders_low :: "('u, 'c) batch_iterator \<Rightarrow> bool" where
  "orders_low it \<longleftrightarrow> (\<forall>k. \<forall>key \<in> set (iter_keys it k). fst key < U32_MAX)"

lemma head_key_simps: "iter_keys it k = key # keys \<Longrightarrow> head_key it k = (fst key, k)" "iter_keys it k = [] \<Longrightarrow> head_key it k = (U32_MAX, k)"
  by (simp_all add: head_key_def)

lemma batch_next_cases:
  assumes low: "orders_low it"
  obtains (ended) "\<And>k. iter_keys it k = []" "batch_next it = ret (None, it)"
  | (batch) k bound batch it' where "iter_keys it k \<noteq> []" "batch_next it = ret (Some batch, it')" "batch_kind batch = k"
    "batch_texture batch = snd (hd (iter_keys it k))"
    "batch_range batch = (iter_start it k, iter_start it k + Suc (joining bound k (iter_keys it k)))"
    "advanced it k (Suc (joining bound k (iter_keys it k))) it'"
    "\<And>k'. head_key it k \<le> head_key it k'" "\<And>k'. k' \<noteq> k \<Longrightarrow> bound \<le> head_key it k'"
proof -
  obtain first second rest where
    sorted: "sort_key order_or_max (orders_and_kinds it) = map (\<lambda>k. (map_option fst (list_first (iter_keys it k)), k)) (first # second # rest)"
    and min: "\<forall>k. head_key it first \<le> head_key it k" "\<forall>k. k \<noteq> first \<longrightarrow> head_key it second \<le> head_key it k" "second \<noteq> first"
    by (rule sorted_kinds [of it])
  have step: "batch_next it = (if iter_keys it first = [] then ret (None, it)
      else do { (batch, it) \<leftarrow> next_batch first (head_key it second) it; ret (Some batch, it) })"
    by (simp add: batch_next_def sorted index_or_panic_def order_or_max_head) (simp add: list_first_def split: list.split)
  show ?thesis
  proof (cases "iter_keys it first = []")
    case True
    have "iter_keys it k = []" for k
    proof (cases "iter_keys it k")
      case (Cons key keys)
      then have "fst key < U32_MAX" using low unfolding orders_low_def by (metis list.set_intros(1))
      then show ?thesis using min(1) [rule_format, of k] head_key_simps(1) [OF Cons] head_key_simps(2) [OF True] by (simp add: less_eq_prod_def)
    qed
    then show ?thesis using ended step True by simp
  next
    case False
    then obtain batch it' where n: "next_batch first (head_key it second) it = ret (batch, it')" "batch_kind batch = first"
        "batch_texture batch = snd (hd (iter_keys it first))"
        "batch_range batch = (iter_start it first, iter_start it first + Suc (joining (head_key it second) first (iter_keys it first)))"
        "advanced it first (Suc (joining (head_key it second) first (iter_keys it first))) it'"
      using next_batch_ok by blast
    then have "batch_next it = ret (Some batch, it')" using step False by simp
    then show ?thesis using batch [OF False _ n(2-5)] min by blast
  qed
qed

section \<open>All batches\<close>

definition left :: "('u, 'c) batch_iterator \<Rightarrow> nat" where
  "left it = sum_list (map (\<lambda>k. length (iter_keys it k)) all_kinds)"

lemma sum_list_less:
  assumes "k \<in> set ks" "f k < g k" "\<And>x. x \<in> set ks \<Longrightarrow> f x \<le> (g x :: nat)"
  shows "sum_list (map f ks) < sum_list (map g ks)"
  using assms
proof (induction ks)
  case (Cons x ks)
  then show ?case by (cases "x = k") (auto intro: add_less_le_mono add_le_less_mono sum_list_mono)
qed simp

lemma advanced_left: "advanced it k (Suc n) it' \<Longrightarrow> iter_keys it k \<noteq> [] \<Longrightarrow> left it' < left it"
  unfolding left_def advanced_def by (rule sum_list_less [of k]) (auto simp: all_kinds)

lemma batch_next_left: "batch_next it = ret (Some batch, it') \<Longrightarrow> left it' < left it"
proof -
  assume some: "batch_next it = ret (Some batch, it')"
  obtain first second rest where
    sorted: "sort_key order_or_max (orders_and_kinds it) = map (\<lambda>k. (map_option fst (list_first (iter_keys it k)), k)) (first # second # rest)"
    by (rule sorted_kinds [of it])
  have step: "batch_next it = (if iter_keys it first = [] then ret (None, it)
      else do { (batch, it) \<leftarrow> next_batch first (head_key it second) it; ret (Some batch, it) })"
    by (simp add: batch_next_def sorted index_or_panic_def order_or_max_head) (simp add: list_first_def split: list.split)
  then have ne: "iter_keys it first \<noteq> []" using some by (auto split: if_splits)
  then show ?thesis using next_batch_ok [OF ne, of "head_key it second"] step some advanced_left ne by auto
qed

text \<open>What a loop over the iterator collects.\<close>

function collect_batches :: "('u, 'c) batch_iterator \<Rightarrow> primitive_batch list rust" where
  "collect_batches it =
     (case batch_next it of
        None \<Rightarrow> panic
      | Some (None, it') \<Rightarrow> ret []
      | Some (Some batch, it') \<Rightarrow> do { rest \<leftarrow> collect_batches it'; ret (batch # rest) })"
  by pat_completeness auto
termination by (relation "measure left") (auto dest: batch_next_left)

declare collect_batches.simps [simp del]

text \<open>The primitives a batch draws, by kind and index.\<close>

definition batch_entries :: "primitive_batch \<Rightarrow> (primitive_kind \<times> nat) list" where
  "batch_entries batch = map (Pair (batch_kind batch)) [fst (batch_range batch)..<snd (batch_range batch)]"

text \<open>The iterator is at its starts in the lists \<open>keys\<close>, which are sorted by order.\<close>

definition iterates :: "(primitive_kind \<Rightarrow> (nat \<times> atlas_texture_id option) list) \<Rightarrow> ('u, 'c) batch_iterator \<Rightarrow> bool" where
  "iterates keys it \<longleftrightarrow> (\<forall>k. iter_start it k \<le> length (keys k) \<and> iter_keys it k = drop (iter_start it k) (keys k) \<and>
     sorted (map fst (keys k)) \<and> (\<forall>key \<in> set (keys k). fst key < U32_MAX))"

definition entry_key :: "(primitive_kind \<Rightarrow> (nat \<times> atlas_texture_id option) list) \<Rightarrow> primitive_kind \<times> nat \<Rightarrow> nat \<times> primitive_kind" where
  "entry_key keys entry = (fst (keys (fst entry) ! snd entry), fst entry)"

lemma iterates_low: "iterates keys it \<Longrightarrow> orders_low it"
  unfolding iterates_def orders_low_def by (metis in_set_dropD)

lemma joining_bounds:
  assumes "iter_keys it k \<noteq> []"
  shows "joining bound k (iter_keys it k) < length (iter_keys it k)"
  using assms by (cases "iter_keys it k") (simp_all add: joining_def le_imp_less_Suc length_takeWhile_le)

lemma joining_nth:
  assumes "0 < j" "j \<le> joining bound k keys"
  shows "(fst (keys ! j), k) < bound \<and> snd (keys ! j) = snd (hd keys)"
proof -
  let ?P = "\<lambda>key. (fst key, k) < bound \<and> snd key = snd (hd keys)"
  obtain i where i: "j = Suc i" using assms(1) gr0_implies_Suc by blast
  then have less: "i < length (takeWhile ?P (tl keys))" using assms(2) by (simp add: joining_def)
  then have "tl keys ! i \<in> set (takeWhile ?P (tl keys))" using nth_mem [OF less] by (simp only: takeWhile_nth [OF less])
  from set_takeWhileD [OF this] have "?P (tl keys ! i)" by blast
  moreover have "tl keys \<noteq> []" using less by auto
  ultimately show ?thesis using i by (cases keys) auto
qed

lemma advanced_iterates:
  assumes "iterates keys it" "advanced it k n it'" "n \<le> length (iter_keys it k)"
  shows "iterates keys it'"
proof -
  have "n \<le> length (keys k) - iter_start it k" "iter_start it k \<le> length (keys k)" using assms(1,3) by (simp_all add: iterates_def)
  then have "n + iter_start it k \<le> length (keys k)" by simp
  then show ?thesis using assms(1,2) unfolding iterates_def advanced_def by (auto simp: add.commute)
qed

text \<open>The entries of a batch come before all that is left after it.\<close>

lemma iterates_nth: "iterates keys it \<Longrightarrow> iter_start it k \<le> i \<Longrightarrow> iter_keys it k ! (i - iter_start it k) = keys k ! i"
  by (simp add: iterates_def)

lemma head_key_least:
  assumes "iterates keys it" "iter_start it k \<le> i" "i < length (keys k)"
  shows "head_key it k \<le> entry_key keys (k, i)"
proof -
  have keys: "iter_keys it k = drop (iter_start it k) (keys k)" and sorted: "sorted (map fst (keys k))" using assms(1) by (simp_all add: iterates_def)
  have "iter_keys it k \<noteq> []" using keys assms(2,3) by simp
  then obtain key rest where cons: "iter_keys it k = key # rest" by (meson neq_Nil_conv)
  have "key = keys k ! iter_start it k" using keys cons assms(2,3) by (metis nth_via_drop)
  then have "fst key \<le> fst (keys k ! i)" using sorted assms(2,3) sorted_nth_mono [of "map fst (keys k)" "iter_start it k" i] by simp
  then show ?thesis by (simp add: head_key_simps(1) [OF cons] entry_key_def less_eq_prod_def le_less)
qed

lemma batch_before_rest:
  assumes it: "iterates keys it" and k: "iter_keys it k \<noteq> []" and n: "n = Suc (joining bound k (iter_keys it k))"
    and least: "\<And>k'. head_key it k \<le> head_key it k'" and bound: "\<And>k'. k' \<noteq> k \<Longrightarrow> bound \<le> head_key it k'"
    and i: "iter_start it k \<le> i" "i < iter_start it k + n"
    and later: "iter_start it k' \<le> i'" "k' = k \<Longrightarrow> i \<le> i'" "i' < length (keys k')"
  shows "entry_key keys (k, i) \<le> entry_key keys (k', i')"
proof (cases "k' = k")
  case True
  have "sorted (map fst (keys k))" using it by (simp add: iterates_def)
  then have "fst (keys k ! i) \<le> fst (keys k ! i')" using sorted_nth_mono [of "map fst (keys k)" i i'] later(2,3) True by simp
  then show ?thesis using True by (simp add: entry_key_def less_eq_prod_def le_less)
next
  case False
  let ?j = "i - iter_start it k"
  have entry: "entry_key keys (k, i) = (fst (iter_keys it k ! ?j), k)" using iterates_nth [OF it i(1)] by (simp add: entry_key_def)
  have "entry_key keys (k, i) \<le> head_key it k'"
  proof (cases "?j = 0")
    case True
    obtain key rest where "iter_keys it k = key # rest" using k by (cases "iter_keys it k") auto
    then have "entry_key keys (k, i) = head_key it k" using entry True by (simp add: head_key_simps(1))
    then show ?thesis using least by simp
  next
    case False
    then have "(fst (iter_keys it k ! ?j), k) < bound" using joining_nth [of ?j bound k "iter_keys it k"] i n by simp
    then show ?thesis using entry bound [OF \<open>k' \<noteq> k\<close>] by simp
  qed
  also have "\<dots> \<le> entry_key keys (k', i')" by (rule head_key_least [OF it later(1,3)])
  finally show ?thesis .
qed

text \<open>
  All batches together draw every primitive once, in the order of the vector within a kind, and by order and kind
  across the kinds; the sprites of a batch share its texture.
\<close>

definition batches_ok :: "(primitive_kind \<Rightarrow> (nat \<times> atlas_texture_id option) list) \<Rightarrow> (primitive_kind \<Rightarrow> nat) \<Rightarrow> primitive_batch list \<Rightarrow> bool" where
  "batches_ok keys start bs \<longleftrightarrow>
     (\<forall>k. map snd (filter (\<lambda>entry. fst entry = k) (concat (map batch_entries bs))) = [start k..<length (keys k)]) \<and>
     sorted_wrt (\<lambda>x y. entry_key keys x \<le> entry_key keys y) (concat (map batch_entries bs)) \<and>
     (\<forall>batch \<in> set bs. batch_entries batch \<noteq> [] \<and> (\<forall>(k, i) \<in> set (batch_entries batch). snd (keys k ! i) = batch_texture batch))"

lemma entry_of_kind:
  assumes "\<forall>k. map snd (filter (\<lambda>entry. fst entry = k) xs) = [start k..<length (keys k)]" "(k, i) \<in> set xs"
  shows "start k \<le> i \<and> i < length (keys k)"
proof -
  have "i \<in> set (map snd (filter (\<lambda>entry. fst entry = k) xs))" using assms(2) by force
  then show ?thesis using assms(1) by simp
qed

lemma upt_split: "i \<le> j \<Longrightarrow> j \<le> k \<Longrightarrow> [i..<k] = [i..<j] @ [j..<k]"
  using upt_add_eq_append [of i j "k - j"] by simp

lemma collect_batches_ok: "iterates keys it \<Longrightarrow> \<exists>bs. collect_batches it = ret bs \<and> batches_ok keys (iter_start it) bs"
proof (induction "left it" arbitrary: it rule: less_induct)
  case less
  show ?case
  proof (cases rule: batch_next_cases [OF iterates_low [OF less.prems]])
    case 1
    then have "iter_start it k = length (keys k)" for k using \<open>iterates keys it\<close> 1(1) [of k] unfolding iterates_def by (metis drop_eq_Nil le_antisym)
    then show ?thesis using 1(2) by (simp add: collect_batches.simps [of it] batches_ok_def)
  next
    case (2 k bound batch it')
    let ?n = "Suc (joining bound k (iter_keys it k))" and ?s = "iter_start it k"
    have it: "iterates keys it" by fact
    have n: "?n \<le> length (iter_keys it k)" using joining_bounds [OF 2(1)] by (simp add: Suc_leI)
    have it': "iterates keys it'" by (rule advanced_iterates [OF it 2(6) n])
    then obtain bs where bs: "collect_batches it' = ret bs" "batches_ok keys (iter_start it') bs"
      using less.hyps [OF advanced_left [OF 2(6,1)]] by blast
    have starts: "iter_start it' = (iter_start it)(k := ?s + ?n)" using 2(6) by (simp add: advanced_def)
    have entries: "batch_entries batch = map (Pair k) [?s..<?s + ?n]" using 2(3,5) by (simp add: batch_entries_def)
    have range: "?s + ?n \<le> length (keys k)" using n it it' starts by (metis fun_upd_same iterates_def)
    let ?rest = "concat (map batch_entries bs)"
    have rest: "start k' \<le> i \<and> i < length (keys k')" if "(k', i) \<in> set ?rest" "start = iter_start it'" for k' i start
      using entry_of_kind [OF _ that(1), of start keys] bs(2) that(2) by (simp add: batches_ok_def)
    have kinds: "map snd (filter (\<lambda>entry. fst entry = k') (batch_entries batch @ ?rest)) = [iter_start it k'..<length (keys k')]" for k'
    proof -
      have "[?s..<length (keys k)] = [?s..<?s + ?n] @ [?s + ?n..<length (keys k)]"
        by (rule upt_split) (use range in simp_all)
      then show ?thesis using bs(2) by (cases "k' = k") (simp_all add: batches_ok_def entries starts filter_map comp_def del: upt_Suc)
    qed
    have before: "entry_key keys x \<le> entry_key keys y" if xy: "x \<in> set (batch_entries batch)" "y \<in> set ?rest" for x y
    proof -
      obtain i where x: "x = (k, i)" "?s \<le> i" "i < ?s + ?n" using xy(1) entries by (auto simp del: upt_Suc)
      obtain k' i' where y: "y = (k', i')" by (cases y)
      have "iter_start it' k' \<le> i'" "i' < length (keys k')" using rest xy(2) y by auto
      then show ?thesis unfolding x(1) y
        by (intro batch_before_rest [OF it 2(1) refl 2(7,8) x(2,3)]) (use starts x(3) in \<open>auto split: if_splits\<close>)
    qed
    have within: "sorted_wrt (\<lambda>x y. entry_key keys x \<le> entry_key keys y) (batch_entries batch)"
      unfolding entries sorted_wrt_map
      by (rule sorted_wrt_mono_rel [OF _ sorted_wrt_upt]) (use range in \<open>auto intro!: batch_before_rest [OF it 2(1) refl 2(7,8)]\<close>)
    have texture: "snd (keys k ! i) = batch_texture batch" if "?s \<le> i" "i < ?s + ?n" for i
      using joining_nth [of "i - ?s" bound k "iter_keys it k"] iterates_nth [OF it that(1)] that 2(1,4)
      by (cases "i = ?s") (auto simp: hd_conv_nth)
    have "collect_batches it = ret (batch # bs)" using 2(2) bs(1) by (simp add: collect_batches.simps [of it])
    moreover have "batches_ok keys (iter_start it) (batch # bs)"
      using bs(2) kinds before within texture unfolding batches_ok_def by (auto simp: sorted_wrt_append entries)
    ultimately show ?thesis by blast
  qed
qed

end
