(* ===== verification/Scene_Properties.thy ===== *)
theory Scene_Properties
  imports Scene_Batches Bounds_Tree_Properties
begin

text \<open>
  What a scene promises a renderer: every primitive that is visible is drawn once, those that overlap in the order in
  which they were painted, and painting the operations of the last frame again gives the same scene.
\<close>

section \<open>Primitives by kind\<close>

fun kind_of :: "('u, 'c) primitive \<Rightarrow> primitive_kind" where
  "kind_of (P_Shadow _) = Kind_Shadow"
| "kind_of (P_Quad _) = Kind_Quad"
| "kind_of (P_Path _) = Kind_Path"
| "kind_of (P_Underline _) = Kind_Underline"
| "kind_of (P_Monochrome_Sprite _) = Kind_Monochrome_Sprite"
| "kind_of (P_Subpixel_Sprite _) = Kind_Subpixel_Sprite"
| "kind_of (P_Polychrome_Sprite _) = Kind_Polychrome_Sprite"
| "kind_of (P_Surface _) = Kind_Surface"

fun prim_order :: "('u, 'c) primitive \<Rightarrow> nat" where
  "prim_order (P_Shadow p) = pf_order p"
| "prim_order (P_Quad p) = pf_order p"
| "prim_order (P_Path p) = pf_order p"
| "prim_order (P_Underline p) = pf_order p"
| "prim_order (P_Monochrome_Sprite p) = pf_order p"
| "prim_order (P_Subpixel_Sprite p) = pf_order p"
| "prim_order (P_Polychrome_Sprite p) = pf_order p"
| "prim_order (P_Surface p) = pf_order p"

fun prim_texture :: "('u, 'c) primitive \<Rightarrow> atlas_texture_id option" where
  "prim_texture (P_Monochrome_Sprite p) = Some (sprite_texture p)"
| "prim_texture (P_Subpixel_Sprite p) = Some (sprite_texture p)"
| "prim_texture (P_Polychrome_Sprite p) = Some (sprite_texture p)"
| "prim_texture _ = None"

fun scene_list :: "('u, 'c) scene \<Rightarrow> primitive_kind \<Rightarrow> ('u, 'c) primitive list" where
  "scene_list self Kind_Shadow = map P_Shadow (sc_shadows self)"
| "scene_list self Kind_Quad = map P_Quad (sc_quads self)"
| "scene_list self Kind_Path = map P_Path (sc_paths self)"
| "scene_list self Kind_Underline = map P_Underline (sc_underlines self)"
| "scene_list self Kind_Monochrome_Sprite = map P_Monochrome_Sprite (sc_monochrome_sprites self)"
| "scene_list self Kind_Subpixel_Sprite = map P_Subpixel_Sprite (sc_subpixel_sprites self)"
| "scene_list self Kind_Polychrome_Sprite = map P_Polychrome_Sprite (sc_polychrome_sprites self)"
| "scene_list self Kind_Surface = map P_Surface (sc_surfaces self)"

definition drawn :: "('u, 'c) scene \<Rightarrow> primitive_batch list \<Rightarrow> ('u, 'c) primitive list" where
  "drawn self bs = map (\<lambda>(k, i). scene_list self k ! i) (concat (map batch_entries bs))"

lemma kind_of_scene_list: "p \<in> set (scene_list self k) \<Longrightarrow> kind_of p = k"
  by (cases k) auto

lemma mset_scene_finish: "mset (scene_list (scene_finish self) k) = mset (scene_list self k)"
  by (cases k) (simp_all add: scene_finish_def)

lemma sorted_sprites: "sorted (map pf_order (sort_key sprite_key xs))"
proof -
  have "sorted (map sprite_key (sort_key sprite_key xs))" by simp
  then show ?thesis unfolding sorted_map by (rule sorted_wrt_mono_rel [rotated]) (auto simp: sprite_key_def less_eq_prod_def)
qed

definition scene_keys :: "('u, 'c) scene \<Rightarrow> primitive_kind \<Rightarrow> (nat \<times> atlas_texture_id option) list" where
  "scene_keys self k = map (\<lambda>p. (prim_order p, prim_texture p)) (scene_list self k)"

lemma scene_keys_sorted: "sorted (map fst (scene_keys (scene_finish self) k))"
  using sorted_sprites [of "sc_monochrome_sprites self"] sorted_sprites [of "sc_subpixel_sprites self"] sorted_sprites [of "sc_polychrome_sprites self"]
  by (cases k) (simp_all add: scene_keys_def scene_finish_def comp_def)

lemma batches_start: "iter_keys (batches self) k = scene_keys self k" "iter_start (batches self) k = 0"
  by (cases k; simp add: batches_def scene_keys_def comp_def)+

lemma batches_iterate:
  assumes "\<forall>k. \<forall>p \<in> set (scene_list self k). prim_order p < U32_MAX"
  shows "iterates (scene_keys (scene_finish self)) (batches (scene_finish self))"
proof -
  have "\<forall>key \<in> set (scene_keys (scene_finish self) k). fst key < U32_MAX" for k
    using assms mset_eq_setD [OF mset_scene_finish, of self k] by (auto simp: scene_keys_def)
  then show ?thesis by (simp add: iterates_def batches_start scene_keys_sorted)
qed

lemma drawn_of_kind:
  assumes "\<forall>k. map snd (filter (\<lambda>entry. fst entry = k) es) = [0..<length (scene_list self k)]"
  shows "filter (\<lambda>p. kind_of p = k) (map (\<lambda>(k, i). scene_list self k ! i) es) = scene_list self k"
proof -
  have kind: "kind_of (scene_list self k' ! i) = k'" if "(k', i) \<in> set es" for k' i
  proof -
    have "i \<in> set (map snd (filter (\<lambda>entry. fst entry = k') es))" using that by force
    then show ?thesis using assms kind_of_scene_list nth_mem by fastforce
  qed
  have "filter (\<lambda>p. kind_of p = k) (map (\<lambda>(k, i). scene_list self k ! i) es) = map (\<lambda>(k, i). scene_list self k ! i) (filter (\<lambda>entry. fst entry = k) es)"
    unfolding filter_map by (rule arg_cong [where f = "map _"], rule filter_cong) (use kind in auto)
  also have "\<dots> = map (\<lambda>i. scene_list self k ! i) (map snd (filter (\<lambda>entry. fst entry = k) es))"
    by (auto intro!: map_cong)
  also have "\<dots> = scene_list self k" unfolding assms [rule_format] by (rule map_nth)
  finally show ?thesis .
qed

text \<open>Quads and a scene to look at.\<close>

definition sample_quad :: "nat \<Rightarrow> int \<Rightarrow> (int, unit) painted" where
  "sample_quad order x = \<lparr>pf_order = order, pf_bounds = bounds_new (mk_point x x) (mk_size 10 10),
     pf_content_mask = bounds_new (mk_point 0 0) (mk_size 100 100), pf_shading = ()\<rparr>"

definition sample_scene :: "(int, unit) scene" where
  "sample_scene = scene_default\<lparr>sc_quads := [sample_quad 3 0, sample_quad 2 40], sc_shadows := [sample_quad 2 50]\<rparr>"

lemma finished_batches:
  assumes "\<forall>k. \<forall>p \<in> set (scene_list self k). prim_order p < U32_MAX"
  shows "\<exists>bs. collect_batches (batches (scene_finish self)) = ret bs \<and>
    (\<forall>k. filter (\<lambda>p. kind_of p = k) (drawn (scene_finish self) bs) = scene_list (scene_finish self) k \<and>
         mset (scene_list (scene_finish self) k) = mset (scene_list self k)) \<and>
    sorted_wrt (\<lambda>p q. (prim_order p, kind_of p) \<le> (prim_order q, kind_of q)) (drawn (scene_finish self) bs) \<and>
    (\<forall>batch \<in> set bs. drawn (scene_finish self) [batch] \<noteq> [] \<and>
       (\<forall>p \<in> set (drawn (scene_finish self) [batch]). kind_of p = batch_kind batch \<and> prim_texture p = batch_texture batch))"
proof -
  let ?self = "scene_finish self" and ?keys = "scene_keys (scene_finish self)"
  obtain bs where bs: "collect_batches (batches ?self) = ret bs" "batches_ok ?keys (\<lambda>k. 0) bs"
    using collect_batches_ok [OF batches_iterate [OF assms]] batches_start(2) by (metis ext)
  let ?es = "concat (map batch_entries bs)"
  have kinds: "\<forall>k. map snd (filter (\<lambda>entry. fst entry = k) ?es) = [0..<length (scene_list ?self k)]"
    using bs(2) by (simp add: batches_ok_def scene_keys_def)
  have range: "i < length (scene_list ?self k)" if "(k, i) \<in> set ?es" for k i
    using entry_of_kind [of ?es "\<lambda>_. 0" "scene_list ?self"] kinds that by blast
  have key: "entry_key ?keys (k, i) = (prim_order (scene_list ?self k ! i), kind_of (scene_list ?self k ! i))"
      "prim_texture (scene_list ?self k ! i) = snd (?keys k ! i)" "kind_of (scene_list ?self k ! i) = k"
    if "(k, i) \<in> set ?es" for k i
    using range [OF that] kind_of_scene_list [OF nth_mem [OF range [OF that]]] by (simp_all add: entry_key_def scene_keys_def)
  have "sorted_wrt (\<lambda>p q. (prim_order p, kind_of p) \<le> (prim_order q, kind_of q)) (drawn ?self bs)"
    unfolding drawn_def sorted_wrt_map
  proof (rule sorted_wrt_mono_rel)
    show "sorted_wrt (\<lambda>x y. entry_key ?keys x \<le> entry_key ?keys y) ?es" using bs(2) by (simp add: batches_ok_def)
  next
    fix x y
    assume "x \<in> set ?es" "y \<in> set ?es" "entry_key ?keys x \<le> entry_key ?keys y"
    then show "(prim_order (case x of (k, i) \<Rightarrow> scene_list ?self k ! i), kind_of (case x of (k, i) \<Rightarrow> scene_list ?self k ! i))
        \<le> (prim_order (case y of (k, i) \<Rightarrow> scene_list ?self k ! i), kind_of (case y of (k, i) \<Rightarrow> scene_list ?self k ! i))"
      using key(1) [of "fst x" "snd x"] key(1) [of "fst y" "snd y"] by (simp only: split_beta prod.collapse)
  qed
  moreover have "drawn ?self [batch] \<noteq> [] \<and> (\<forall>p \<in> set (drawn ?self [batch]). kind_of p = batch_kind batch \<and> prim_texture p = batch_texture batch)"
    if batch: "batch \<in> set bs" for batch
  proof -
    have ok: "batch_entries batch \<noteq> []" "\<forall>(k, i) \<in> set (batch_entries batch). snd (?keys k ! i) = batch_texture batch"
      using bs(2) batch by (auto simp: batches_ok_def)
    have "k = batch_kind batch" if "(k, i) \<in> set (batch_entries batch)" for k i using that by (auto simp: batch_entries_def)
    then show ?thesis using ok key batch by (fastforce simp: drawn_def)
  qed
  ultimately show ?thesis using bs(1) drawn_of_kind [OF kinds] mset_scene_finish [of self] by (auto simp: drawn_def)
qed

text \<open>C5: the batches of a finished scene draw each of its primitives exactly once: of each kind those the scene has, in their
  sorted order, and all together by draw order and then by kind; no batch is empty, and the sprites of a batch are on
  the texture it names. This holds as long as all draw orders are below the largest one.\<close>

theorem batches_draw_all:
  assumes "\<forall>k. \<forall>p \<in> set (scene_list self k). prim_order p < U32_MAX"
  shows "\<exists>bs. collect_batches (batches (scene_finish self)) = ret bs \<and>
    (\<forall>k. filter (\<lambda>p. kind_of p = k) (drawn (scene_finish self) bs) = scene_list (scene_finish self) k \<and>
         mset (scene_list (scene_finish self) k) = mset (scene_list self k)) \<and>
    sorted_wrt (\<lambda>p q. (prim_order p, kind_of p) \<le> (prim_order q, kind_of q)) (drawn (scene_finish self) bs) \<and>
    (\<forall>batch \<in> set bs. drawn (scene_finish self) [batch] \<noteq> [] \<and>
       (\<forall>p \<in> set (drawn (scene_finish self) [batch]). kind_of p = batch_kind batch \<and> prim_texture p = batch_texture batch))"
  by (rule finished_batches [OF assms])

theorem batches_draw_all_witness:
  "\<exists>bs. collect_batches (batches (scene_finish sample_scene)) = ret bs \<and>
    filter (\<lambda>p. kind_of p = Kind_Quad) (drawn (scene_finish sample_scene) bs) = scene_list (scene_finish sample_scene) Kind_Quad \<and>
    sorted_wrt (\<lambda>p q. (prim_order p, kind_of p) \<le> (prim_order q, kind_of q)) (drawn (scene_finish sample_scene) bs)"
proof -
  have "\<forall>k. \<forall>p \<in> set (scene_list sample_scene k). prim_order p < U32_MAX"
    unfolding all_kinds_iff by (simp add: sample_scene_def scene_default_def sample_quad_def U32_MAX_def)
  from batches_draw_all [OF this] show ?thesis by (elim exE conjE) (intro exI conjI; blast)
qed

section \<open>Painting\<close>

definition op_primitives :: "('u, 'c) paint_operation list \<Rightarrow> ('u, 'c) primitive list" where
  "op_primitives ops = List.map_filter (\<lambda>operation. case operation of Paint_Primitive p \<Rightarrow> Some p | _ \<Rightarrow> None) ops"

lemma op_primitives_simps [simp]:
  "op_primitives [] = []"
  "op_primitives (ops @ [Paint_Primitive p]) = op_primitives ops @ [p]"
  "op_primitives (ops @ [Start_Layer b]) = op_primitives ops"
  "op_primitives (ops @ [End_Layer]) = op_primitives ops"
  by (simp_all add: op_primitives_def map_filter_def)

text \<open>A primitive without what the scene sets.\<close>

fun without_order :: "('u, 'c) primitive \<Rightarrow> ('u, 'c) primitive" where
  "without_order (P_Shadow p) = P_Shadow (p\<lparr>pf_order := 0\<rparr>)"
| "without_order (P_Quad p) = P_Quad (p\<lparr>pf_order := 0\<rparr>)"
| "without_order (P_Path p) = P_Path (p\<lparr>pf_order := 0, pa_id := 0\<rparr>)"
| "without_order (P_Underline p) = P_Underline (p\<lparr>pf_order := 0\<rparr>)"
| "without_order (P_Monochrome_Sprite p) = P_Monochrome_Sprite (p\<lparr>pf_order := 0\<rparr>)"
| "without_order (P_Subpixel_Sprite p) = P_Subpixel_Sprite (p\<lparr>pf_order := 0\<rparr>)"
| "without_order (P_Polychrome_Sprite p) = P_Polychrome_Sprite (p\<lparr>pf_order := 0\<rparr>)"
| "without_order (P_Surface p) = P_Surface (p\<lparr>pf_order := 0\<rparr>)"

definition clipped :: "('u::linordered_ab_group_add, 'c) primitive \<Rightarrow> 'u bounds" where
  "clipped p = bounds_intersect (primitive_bounds p) (primitive_content_mask p)"

lemma push_primitive_ok:
  assumes "push_primitive order p self = (self', p')"
  shows "scene_list self' k = scene_list self k @ (if kind_of p = k then [p'] else [])" "kind_of p' = kind_of p" "prim_order p' = order"
    "without_order p' = without_order p" "clipped p' = clipped p" "push_primitive order' p' self'' = push_primitive order' p self''"
    "sc_paint_operations self' = sc_paint_operations self" "sc_primitive_bounds self' = sc_primitive_bounds self"
    "sc_layer_stack self' = sc_layer_stack self"
  using assms by (cases p; cases k; auto simp: clipped_def)+

text \<open>
  The specification of a painting: the areas that get an order, the layers that are open and the primitives painted so
  far. A primitive is painted in the area of the innermost open layer, or in the area it covers itself.
\<close>

fun paint_step ::
  "('u::linordered_ab_group_add, 'c) paint_operation \<Rightarrow> 'u bounds list \<times> nat list \<times> (('u, 'c) primitive \<times> nat) list \<Rightarrow>
   'u bounds list \<times> nat list \<times> (('u, 'c) primitive \<times> nat) list" where
  "paint_step (Start_Layer b) (areas, layers, painted) = (areas @ [b], layers @ [length areas], painted)"
| "paint_step End_Layer (areas, layers, painted) = (areas, butlast layers, painted)"
| "paint_step (Paint_Primitive p) (areas, layers, painted) =
     (if bounds_is_empty (clipped p) then (areas, layers, painted)
      else (case list_last layers of
              Some area \<Rightarrow> (areas, layers, painted @ [(p, area)])
            | None \<Rightarrow> (areas @ [clipped p], layers, painted @ [(p, length areas)])))"

definition later_above :: "('u::linordered_ab_group_add bounds \<times> nat) list \<Rightarrow> bool" where
  "later_above leaves \<longleftrightarrow> (\<forall>m m'. m < m' \<and> m' < length leaves \<and> intersects (fst (leaves ! m')) (fst (leaves ! m)) \<longrightarrow>
     snd (leaves ! m) < snd (leaves ! m'))"

definition scene_rel ::
  "('u::linordered_ab_group_add, 'c) scene \<Rightarrow> 'u bounds list \<times> nat list \<times> (('u, 'c) primitive \<times> nat) list \<Rightarrow> bool" where
  "scene_rel self spec \<longleftrightarrow> (case spec of (areas, layers, painted) \<Rightarrow>
     let leaves = bt_leaves (sc_primitive_bounds self); prims = op_primitives (sc_paint_operations self) in
     bt_inv (sc_primitive_bounds self) \<and> map fst leaves = areas \<and> (\<forall>(b, o') \<in> set leaves. o' \<le> length leaves) \<and> later_above leaves \<and>
     sc_layer_stack self = map (\<lambda>m. snd (leaves ! m)) layers \<and> (\<forall>m \<in> set layers. m < length areas) \<and>
     map without_order prims = map (\<lambda>pm. without_order (fst pm)) painted \<and> map prim_order prims = map (\<lambda>pm. snd (leaves ! snd pm)) painted \<and>
     (\<forall>pm \<in> set painted. snd pm < length areas) \<and> (\<forall>k. scene_list self k = filter (\<lambda>p. kind_of p = k) prims))"

lemma scene_default_simps [simp]:
  "scene_list scene_default k = []" "sc_paint_operations scene_default = []" "sc_primitive_bounds scene_default = bt_default"
  "sc_layer_stack scene_default = []"
  by (cases k) (simp_all add: scene_default_def)

lemma scene_rel_default: "scene_rel scene_default ([], [], [])"
  by (simp add: scene_rel_def later_above_def bt_inv_default)

lemma scene_relD:
  assumes "scene_rel self (areas, layers, painted)"
  shows "bt_inv (sc_primitive_bounds self)" "map fst (bt_leaves (sc_primitive_bounds self)) = areas"
    "\<forall>(b, o') \<in> set (bt_leaves (sc_primitive_bounds self)). o' \<le> length areas" "later_above (bt_leaves (sc_primitive_bounds self))"
    "sc_layer_stack self = map (\<lambda>m. snd (bt_leaves (sc_primitive_bounds self) ! m)) layers" "\<forall>m \<in> set layers. m < length areas"
    "map without_order (op_primitives (sc_paint_operations self)) = map (\<lambda>pm. without_order (fst pm)) painted"
    "map prim_order (op_primitives (sc_paint_operations self)) = map (\<lambda>pm. snd (bt_leaves (sc_primitive_bounds self) ! snd pm)) painted"
    "\<forall>pm \<in> set painted. snd pm < length areas" "\<forall>k. scene_list self k = filter (\<lambda>p. kind_of p = k) (op_primitives (sc_paint_operations self))"
    "length (bt_leaves (sc_primitive_bounds self)) = length areas"
proof -
  note r = assms [unfolded scene_rel_def Let_def prod.case]
  show len: "length (bt_leaves (sc_primitive_bounds self)) = length areas" using r by (metis length_map)
  show "\<forall>(b, o') \<in> set (bt_leaves (sc_primitive_bounds self)). o' \<le> length areas" using r len by metis
qed (use assms [unfolded scene_rel_def Let_def prod.case] in blast)+

lemma later_above_snoc:
  assumes "later_above leaves" "\<forall>(b', o') \<in> set leaves. intersects b b' \<longrightarrow> o' < order"
  shows "later_above (leaves @ [(b, order)])"
  unfolding later_above_def
proof (intro allI impI, elim conjE)
  fix m m'
  assume m: "m < m'" "m' < length (leaves @ [(b, order)])" "intersects (fst ((leaves @ [(b, order)]) ! m')) (fst ((leaves @ [(b, order)]) ! m))"
  show "snd ((leaves @ [(b, order)]) ! m) < snd ((leaves @ [(b, order)]) ! m')"
  proof (cases "m' < length leaves")
    case True
    then show ?thesis using assms(1) m unfolding later_above_def by (simp add: nth_append)
  next
    case False
    then have "m' = length leaves" "m < length leaves" using m(1,2) by simp_all
    then show ?thesis using assms(2) m(3) nth_mem [of m leaves] by (fastforce simp: nth_append)
  qed
qed

lemma insert_area:
  assumes rel: "scene_rel self (areas, layers, painted)" and few: "length areas < U32_MAX"
  obtains tree order where "bt_insert (sc_primitive_bounds self) b = ret (tree, order)" "bt_inv tree"
    "bt_leaves tree = bt_leaves (sc_primitive_bounds self) @ [(b, order)]" "order \<le> Suc (length areas)"
    "later_above (bt_leaves (sc_primitive_bounds self) @ [(b, order)])"
proof -
  let ?leaves = "bt_leaves (sc_primitive_bounds self)" and ?order = "highest_order (bt_leaves (sc_primitive_bounds self)) b + 1"
  note r = scene_relD [OF rel]
  have low: "highest_order ?leaves b \<le> length areas" using highest_order_le [OF r(3)] .
  have above: "\<forall>(b', o') \<in> set ?leaves. intersects b b' \<longrightarrow> o' < ?order" using highest_order_ge by fastforce
  obtain tree where "bt_insert (sc_primitive_bounds self) b = ret (tree, ?order)" "bt_inv tree" "bt_leaves tree = ?leaves @ [(b, ?order)]"
    using bt_insert_ok [OF r(1), of b] low few by auto
  then show ?thesis using that [of tree ?order] low later_above_snoc [OF r(4) above] by simp
qed

lemma scene_rel_area:
  assumes rel: "scene_rel self (areas, layers, painted)" and few: "length areas < U32_MAX"
  obtains tree order where "bt_insert (sc_primitive_bounds self) b = ret (tree, order)"
    "scene_rel (self\<lparr>sc_primitive_bounds := tree\<rparr>) (areas @ [b], layers, painted)"
    "bt_leaves tree ! length areas = (b, order)" "length (bt_leaves tree) = Suc (length areas)"
proof -
  let ?leaves = "bt_leaves (sc_primitive_bounds self)"
  obtain tree order where tree: "bt_insert (sc_primitive_bounds self) b = ret (tree, order)" "bt_inv tree"
      "bt_leaves tree = ?leaves @ [(b, order)]" "order \<le> Suc (length areas)" "later_above (?leaves @ [(b, order)])"
    by (rule insert_area [OF assms])
  note r = scene_relD [OF rel]
  have list: "scene_list (self\<lparr>sc_primitive_bounds := tree\<rparr>) k = scene_list self k" for k by (cases k) simp_all
  have "map (\<lambda>m. snd ((?leaves @ [(b, order)]) ! m)) layers = map (\<lambda>m. snd (?leaves ! m)) layers"
      "map (\<lambda>pm. snd ((?leaves @ [(b, order)]) ! snd pm)) painted = map (\<lambda>pm. snd (?leaves ! snd pm)) painted"
    using r(6,9,11) by (simp_all add: nth_append)
  then have "scene_rel (self\<lparr>sc_primitive_bounds := tree\<rparr>) (areas @ [b], layers, painted)"
    unfolding scene_rel_def Let_def prod.case
  proof (intro conjI, goal_cases)
    case 3
    then show ?case using tree(3,4) r(3,11) by fastforce
  next
    case 10
    then show ?case using r(10) by (simp add: list)
  qed (use tree(2,3,5) r in \<open>simp_all add: less_SucI\<close>)
  then show ?thesis using that tree r(11) by (simp add: nth_append)
qed

lemma scene_rel_push:
  assumes rel: "scene_rel self (areas, layers, painted)" and m: "m < length areas" "snd (bt_leaves (sc_primitive_bounds self) ! m) = order"
    and push: "push_primitive order p self = (self', p')"
  shows "scene_rel (self'\<lparr>sc_paint_operations := sc_paint_operations self' @ [Paint_Primitive p']\<rparr>) (areas, layers, painted @ [(p, m)])"
proof -
  note r = scene_relD [OF rel] and q = push_primitive_ok [OF push]
  have list: "scene_list (self'\<lparr>sc_paint_operations := ops\<rparr>) k = scene_list self' k" for ops k by (cases k) simp_all
  show ?thesis
    unfolding scene_rel_def Let_def prod.case
  proof (intro conjI, goal_cases)
    case 3
    then show ?case using r(3,11) q(8) by simp
  next
    case 10
    then show ?case using r(10) q(1,2,7) by (auto simp: list)
  qed (use r q m in simp_all)
qed

lemma scene_rel_step:
  assumes rel: "scene_rel self (areas, layers, painted)" and few: "length areas < U32_MAX"
  shows "\<exists>self'. replay_operation call self = ret self' \<and> scene_rel self' (paint_step call (areas, layers, painted))"
proof (cases call)
  case (Paint_Primitive p)
  let ?empty = "bounds_is_empty (clipped p)"
  note r = scene_relD [OF rel]
  show ?thesis
  proof (cases ?empty)
    case True
    then show ?thesis using Paint_Primitive rel by (simp add: insert_primitive_def clipped_def)
  next
    case visible: False
    show ?thesis
    proof (cases "layers = []")
      case True
      obtain tree order where tree: "bt_insert (sc_primitive_bounds self) (clipped p) = ret (tree, order)"
          "scene_rel (self\<lparr>sc_primitive_bounds := tree\<rparr>) (areas @ [clipped p], layers, painted)"
          "bt_leaves tree ! length areas = (clipped p, order)"
        by (rule scene_rel_area [OF rel few])
      obtain self' p' where push: "push_primitive order p (self\<lparr>sc_primitive_bounds := tree\<rparr>) = (self', p')" by fastforce
      have "replay_operation call self = ret (self'\<lparr>sc_paint_operations := sc_paint_operations self' @ [Paint_Primitive p']\<rparr>)"
        using Paint_Primitive visible True r(5) tree(1) push by (simp add: insert_primitive_def clipped_def list_last_def)
      moreover have "scene_rel (self'\<lparr>sc_paint_operations := sc_paint_operations self' @ [Paint_Primitive p']\<rparr>)
          (areas @ [clipped p], layers, painted @ [(p, length areas)])"
        by (rule scene_rel_push [OF tree(2) _ _ push]) (use tree(3) in simp_all)
      ultimately show ?thesis using Paint_Primitive visible True by (simp add: list_last_def)
    next
      case False
      let ?order = "snd (bt_leaves (sc_primitive_bounds self) ! last layers)"
      obtain self' p' where push: "push_primitive ?order p self = (self', p')" by fastforce
      have "replay_operation call self = ret (self'\<lparr>sc_paint_operations := sc_paint_operations self' @ [Paint_Primitive p']\<rparr>)"
        using Paint_Primitive visible False r(5) push by (simp add: insert_primitive_def clipped_def list_last_def last_map)
      moreover have "scene_rel (self'\<lparr>sc_paint_operations := sc_paint_operations self' @ [Paint_Primitive p']\<rparr>) (areas, layers, painted @ [(p, last layers)])"
        by (rule scene_rel_push [OF rel _ refl push]) (use r(6) False in simp)
      ultimately show ?thesis using Paint_Primitive visible False by (simp add: list_last_def)
    qed
  qed
next
  case (Start_Layer b)
  obtain tree order where tree: "bt_insert (sc_primitive_bounds self) b = ret (tree, order)"
      "scene_rel (self\<lparr>sc_primitive_bounds := tree\<rparr>) (areas @ [b], layers, painted)" "bt_leaves tree ! length areas = (b, order)"
    by (rule scene_rel_area [OF rel few])
  let ?self = "self\<lparr>sc_primitive_bounds := tree, sc_layer_stack := sc_layer_stack self @ [order], sc_paint_operations := sc_paint_operations self @ [Start_Layer b]\<rparr>"
  note t = scene_relD [OF tree(2)]
  have list: "scene_list ?self k = scene_list (self\<lparr>sc_primitive_bounds := tree\<rparr>) k" for k by (cases k) simp_all
  have "scene_rel ?self (areas @ [b], layers @ [length areas], painted)"
    unfolding scene_rel_def Let_def prod.case
  proof (intro conjI, goal_cases)
    case 3
    then show ?case using t(3,11) by simp
  next
    case 10
    then show ?case using t(10) by (auto simp: list)
  qed (use t tree(3) in simp_all)
  then show ?thesis using Start_Layer tree(1) by (simp add: push_layer_def)
next
  case End_Layer
  note r = scene_relD [OF rel]
  have list: "scene_list (pop_layer self) k = scene_list self k" for k by (cases k) (simp_all add: pop_layer_def)
  have "scene_rel (pop_layer self) (areas, butlast layers, painted)"
    unfolding scene_rel_def Let_def prod.case
  proof (intro conjI, goal_cases)
    case 3
    then show ?case using r(3,11) by (simp add: pop_layer_def)
  next
    case 6
    then show ?case using r(6) by (auto dest: in_set_butlastD)
  next
    case 10
    then show ?case using r(10) by (simp add: list) (simp add: pop_layer_def)
  qed (use r in \<open>simp_all add: pop_layer_def map_butlast\<close>)
  then show ?thesis using End_Layer by simp
qed

lemma paint_step_areas: "length (fst (paint_step call spec)) \<le> Suc (length (fst spec))"
  by (cases call; cases spec) (auto split: option.split)

lemma scene_rel_run:
  assumes "scene_rel self spec" "length (fst spec) + length calls \<le> U32_MAX"
  shows "\<exists>self'. replay_operations calls self = ret self' \<and> scene_rel self' (fold paint_step calls spec)"
  using assms
proof (induction calls arbitrary: self spec)
  case (Cons call calls)
  obtain areas layers painted where spec: "spec = (areas, layers, painted)" by (cases spec)
  obtain self' where self': "replay_operation call self = ret self'" "scene_rel self' (paint_step call spec)"
    using scene_rel_step [of self areas layers painted call] Cons.prems spec by auto
  moreover have "length (fst (paint_step call spec)) + length calls \<le> U32_MAX" using paint_step_areas [of call spec] Cons.prems(2) by simp
  ultimately show ?case using Cons.IH by simp
qed simp

lemma paint_areas: "length (fst (fold paint_step calls spec)) \<le> length (fst spec) + length calls"
proof (induction calls arbitrary: spec)
  case (Cons call calls)
  from Cons [of "paint_step call spec"] paint_step_areas [of call spec] show ?case by simp
qed simp

lemma mset_by_kind:
  assumes "\<And>k. mset (filter (\<lambda>x. f x = k) xs) = mset (filter (\<lambda>x. f x = k) ys)"
  shows "mset xs = mset ys"
proof (rule multiset_eqI)
  fix x
  have "count (mset zs) x = count (mset (filter (\<lambda>y. f y = f x) zs)) x" for zs by simp
  then show "count (mset xs) x = count (mset ys) x" using assms by metis
qed

text \<open>C9: painting never panics, up to as many calls as \<open>u32\<close> has orders, and what is visible of it is drawn once, as it was
  painted but for the draw order: when two primitives lie in areas that overlap (their own, or those of the innermost
  layers around them), the one whose area came later is drawn later, on top of the other one.\<close>

theorem later_drawn_on_top:
  assumes "length calls < U32_MAX" "fold paint_step calls ([], [], []) = (areas, layers, painted)"
  shows "\<exists>self bs prims. replay_operations calls scene_default = ret self \<and> collect_batches (batches (scene_finish self)) = ret bs \<and>
    mset (drawn (scene_finish self) bs) = mset prims \<and> map without_order prims = map (\<lambda>pm. without_order (fst pm)) painted \<and>
    (\<forall>i j. i < length painted \<and> j < length painted \<and> snd (painted ! i) < snd (painted ! j) \<and>
       intersects (areas ! snd (painted ! j)) (areas ! snd (painted ! i)) \<longrightarrow>
       (\<forall>a b. a < length prims \<and> b < length prims \<and> drawn (scene_finish self) bs ! a = prims ! i \<and> drawn (scene_finish self) bs ! b = prims ! j \<longrightarrow> a < b))"
proof -
  obtain self where self: "replay_operations calls scene_default = ret self" "scene_rel self (areas, layers, painted)"
    using scene_rel_run [OF scene_rel_default, of calls] assms by auto
  note r = scene_relD [OF self(2)]
  define prims where "prims = op_primitives (sc_paint_operations self)"
  define leaves where "leaves = bt_leaves (sc_primitive_bounds self)"
  have len: "length prims = length painted" using r(7) unfolding prims_def by (metis length_map)
  have few: "length areas < U32_MAX" using paint_areas [of calls "([], [], [])"] assms by simp
  have order: "prim_order (prims ! i) = snd (leaves ! snd (painted ! i))" "snd (painted ! i) < length areas" if "i < length painted" for i
    using r(8,9) len that unfolding prims_def leaves_def by (metis nth_map, simp)
  have low: "prim_order p < U32_MAX" if "p \<in> set prims" for p
  proof -
    obtain i where i: "i < length painted" "p = prims ! i" using \<open>p \<in> set prims\<close> len by (metis in_set_conv_nth)
    then have "leaves ! snd (painted ! i) \<in> set leaves" using order(2) r(11) by (simp add: leaves_def)
    then show ?thesis using i order(1) r(3) few by (fastforce simp: leaves_def)
  qed
  have lists: "scene_list self k = filter (\<lambda>p. kind_of p = k) prims" for k using r(10) by (simp add: prims_def)
  then have "\<forall>k. \<forall>p \<in> set (scene_list self k). prim_order p < U32_MAX" using low by simp
  from finished_batches [OF this] obtain bs where bs: "collect_batches (batches (scene_finish self)) = ret bs"
      "\<forall>k. filter (\<lambda>p. kind_of p = k) (drawn (scene_finish self) bs) = scene_list (scene_finish self) k \<and>
         mset (scene_list (scene_finish self) k) = mset (scene_list self k)"
      "sorted_wrt (\<lambda>p q. (prim_order p, kind_of p) \<le> (prim_order q, kind_of q)) (drawn (scene_finish self) bs)"
    by (elim exE conjE) (rule that; assumption)
  have all: "mset (drawn (scene_finish self) bs) = mset prims" by (rule mset_by_kind [of kind_of]) (simp add: bs(2) lists)
  have before: "a < b" if ij: "i < length painted" "j < length painted" "snd (painted ! i) < snd (painted ! j)"
      "intersects (areas ! snd (painted ! j)) (areas ! snd (painted ! i))"
      and ab: "a < length prims" "b < length prims" "drawn (scene_finish self) bs ! a = prims ! i" "drawn (scene_finish self) bs ! b = prims ! j" for i j a b
  proof (rule ccontr)
    assume "\<not> a < b"
    have area: "fst (leaves ! m) = areas ! m" if "m < length areas" for m using r(2,11) that unfolding leaves_def by (metis nth_map)
    let ?m = "snd (painted ! i)" and ?m' = "snd (painted ! j)"
    have "intersects (fst (leaves ! ?m')) (fst (leaves ! ?m))" using ij(4) area order(2) [OF ij(1)] order(2) [OF ij(2)] by simp
    then have "snd (leaves ! ?m) < snd (leaves ! ?m')"
      using r(4,11) ij(3) order(2) [OF ij(2)] unfolding later_above_def leaves_def by metis
    then have "prim_order (prims ! i) < prim_order (prims ! j)" using order(1) [OF ij(1)] order(1) [OF ij(2)] by simp
    moreover have "(prim_order (prims ! j), kind_of (prims ! j)) \<le> (prim_order (prims ! i), kind_of (prims ! i))"
      using bs(3) ab \<open>\<not> a < b\<close> mset_eq_length [OF all] sorted_wrt_nth_less [OF bs(3), of b a] by (cases "a = b") auto
    ultimately show False by (simp add: less_eq_prod_def)
  qed
  show ?thesis
  proof (rule exI [of _ self], rule exI [of _ bs], rule exI [of _ prims], intro conjI allI impI, goal_cases)
    case (5 i j a b)
    then show ?case using before [of i j a b] by blast
  qed (use self(1) bs(1) all r(7) in \<open>simp_all add: prims_def\<close>)
qed

lemma sample_painting:
  "fold paint_step [Paint_Primitive (P_Quad (sample_quad 0 0)), Paint_Primitive (P_Shadow (sample_quad 0 5))] ([], [], []) =
     ([bounds_new (mk_point 0 0) (mk_size 10 10), bounds_new (mk_point 5 5) (mk_size 10 10)], [],
      [(P_Quad (sample_quad 0 0), 0), (P_Shadow (sample_quad 0 5), 1)])"
  by (simp add: sample_quad_def clipped_def bounds_new_def mk_point_def mk_size_def bounds_intersect_def bounds_is_empty_def point_max_def point_min_def
    bottom_right_def from_corners_def point_sub_def point_add_def list_last_def)

theorem later_drawn_on_top_witness:
  "\<exists>self bs prims. replay_operations [Paint_Primitive (P_Quad (sample_quad 0 0)), Paint_Primitive (P_Shadow (sample_quad 0 5))] scene_default = ret self \<and>
    collect_batches (batches (scene_finish self)) = ret bs \<and> mset (drawn (scene_finish self) bs) = mset prims \<and>
    map without_order prims = [P_Quad (sample_quad 0 0), P_Shadow (sample_quad 0 5)]"
proof -
  have "length [Paint_Primitive (P_Quad (sample_quad 0 0)), Paint_Primitive (P_Shadow (sample_quad 0 5))] < U32_MAX" by (simp add: U32_MAX_def)
  from later_drawn_on_top [OF this sample_painting] show ?thesis
    by (elim exE conjE) (intro exI conjI; simp add: sample_quad_def)
qed

section \<open>Painting again\<close>

lemma insert_again:
  assumes "push_primitive order p self = (self', p')"
  shows "insert_primitive p' s = insert_primitive p s"
proof -
  note q = push_primitive_ok [OF assms]
  show ?thesis using q(5,6) unfolding insert_primitive_def clipped_def by simp
qed

text \<open>What a call records, if anything, does the same as the call, to every scene.\<close>

lemma operation_recorded:
  assumes "replay_operation call self = ret self'"
  obtains added where "sc_paint_operations self' = sc_paint_operations self @ added" "\<And>s. replay_operations added s = replay_operation call s"
proof (cases call)
  case (Paint_Primitive p)
  show ?thesis
  proof (cases "bounds_is_empty (clipped p)")
    case True
    then show ?thesis using that [of "[]"] assms Paint_Primitive by (simp add: insert_primitive_def clipped_def)
  next
    case False
    let ?done = "\<lambda>order self0. let (self, p) = push_primitive order p self0 in self\<lparr>sc_paint_operations := sc_paint_operations self @ [Paint_Primitive p]\<rparr>"
    obtain self0 order where self0: "sc_paint_operations self0 = sc_paint_operations self" "self' = ?done order self0"
    proof (cases "list_last (sc_layer_stack self)")
      case None
      then have "insert_primitive p self = do { (tree, order) \<leftarrow> bt_insert (sc_primitive_bounds self) (clipped p);
          ret (?done order (self\<lparr>sc_primitive_bounds := tree\<rparr>)) }"
        using False by (cases "bt_insert (sc_primitive_bounds self) (clipped p)") (auto simp: insert_primitive_def clipped_def split: prod.split)
      then obtain tree order where "self' = ?done order (self\<lparr>sc_primitive_bounds := tree\<rparr>)"
        using assms Paint_Primitive by (cases "bt_insert (sc_primitive_bounds self) (clipped p)") auto
      then show ?thesis using that [of "self\<lparr>sc_primitive_bounds := tree\<rparr>" order] by simp
    next
      case (Some order)
      then have "insert_primitive p self = ret (?done order self)" using False by (simp add: insert_primitive_def clipped_def split: prod.split)
      then show ?thesis using that [of self order] assms Paint_Primitive by simp
    qed
    obtain self1 p' where push: "push_primitive order p self0 = (self1, p')" by fastforce
    have "sc_paint_operations self' = sc_paint_operations self @ [Paint_Primitive p']"
      using self0 push push_primitive_ok(7) [OF push] by simp
    moreover have "replay_operations [Paint_Primitive p'] s = replay_operation call s" for s
      using insert_again [OF push, of s] Paint_Primitive by (cases "insert_primitive p s") simp_all
    ultimately show ?thesis using that by blast
  qed
next
  case (Start_Layer b)
  show ?thesis
  proof (rule that [of "[Start_Layer b]"])
    show "sc_paint_operations self' = sc_paint_operations self @ [Start_Layer b]"
      using assms Start_Layer by (auto simp: push_layer_def bind_eq_Some_conv)
    show "replay_operations [Start_Layer b] s = replay_operation call s" for s using Start_Layer by (cases "push_layer b s") simp_all
  qed
next
  case End_Layer
  then show ?thesis using that [of "[End_Layer]"] assms by (auto simp: pop_layer_def)
qed

lemma replay_append: "replay_operations (xs @ ys) s = Option.bind (replay_operations xs s) (replay_operations ys)"
  by (induction xs arbitrary: s) (auto split: Option.bind_splits)

lemma operations_recorded:
  assumes "replay_operations calls self = ret self'"
  shows "\<exists>added. sc_paint_operations self' = sc_paint_operations self @ added \<and> (\<forall>s. replay_operations added s = replay_operations calls s)"
  using assms
proof (induction calls arbitrary: self)
  case (Cons call calls)
  then obtain mid where mid: "replay_operation call self = ret mid" "replay_operations calls mid = ret self'" by (auto simp: bind_eq_Some_conv)
  obtain first where first: "sc_paint_operations mid = sc_paint_operations self @ first" "\<And>s. replay_operations first s = replay_operation call s"
    by (rule operation_recorded [OF mid(1)]) blast
  obtain rest where rest: "sc_paint_operations self' = sc_paint_operations mid @ rest" "\<forall>s. replay_operations rest s = replay_operations calls s"
    using Cons.IH [OF mid(2)] by blast
  have "replay_operations rest = replay_operations calls" using rest(2) by (simp add: fun_eq_iff)
  then have "replay_operations (first @ rest) s = replay_operations (call # calls) s" for s unfolding replay_append first(2) by simp
  then show ?case using first(1) rest(1) by (intro exI [of _ "first @ rest"]) simp
qed simp

lemma finish_operations [simp]: "sc_paint_operations (scene_finish self) = sc_paint_operations self"
  by (simp add: scene_finish_def)

text \<open>The calls that paint into a scene: a primitive, the begin and the end of a layer, and the replay of a part of an earlier
  scene, by which an element that paints anew has its unchanged children painted.\<close>

datatype ('u, 'c) paint_call =
  Call_Insert_Primitive "('u, 'c) primitive"
  | Call_Push_Layer "'u bounds"
  | Call_Pop_Layer
  | Call_Replay "nat \<times> nat" "('u, 'c) scene"

fun call_scene :: "('u::linordered_ab_group_add, 'c) paint_call \<Rightarrow> ('u, 'c) scene \<Rightarrow> ('u, 'c) scene rust" where
  "call_scene (Call_Insert_Primitive primitive) self = insert_primitive primitive self"
| "call_scene (Call_Push_Layer b) self = push_layer b self"
| "call_scene Call_Pop_Layer self = ret (pop_layer self)"
| "call_scene (Call_Replay replayed prev_scene) self = scene_replay replayed prev_scene self"

definition call_scene_all :: "('u::linordered_ab_group_add, 'c) paint_call list \<Rightarrow> ('u, 'c) scene \<Rightarrow> ('u, 'c) scene rust" where
  "call_scene_all calls self = fold_rust (\<lambda>self call. call_scene call self) self calls"

lemma call_scene_all_simps [simp]:
  "call_scene_all [] self = ret self"
  "call_scene_all (call # calls) self = Option.bind (call_scene call self) (call_scene_all calls)"
  by (simp_all add: call_scene_all_def [abs_def])

lemma call_recorded:
  assumes "call_scene call self = ret self'"
  obtains added where "sc_paint_operations self' = sc_paint_operations self @ added" "\<And>s. replay_operations added s = call_scene call s"
proof (cases call)
  case (Call_Insert_Primitive p)
  then show ?thesis using operation_recorded [of "Paint_Primitive p" self self'] assms that by auto
next
  case (Call_Push_Layer b)
  then show ?thesis using operation_recorded [of "Start_Layer b" self self'] assms that by auto
next
  case Call_Pop_Layer
  then show ?thesis using assms by (intro that [of "[End_Layer]"]) (auto simp: pop_layer_def)
next
  case (Call_Replay replayed prev)
  let ?part = "take (snd replayed - fst replayed) (drop (fst replayed) (sc_paint_operations prev))"
  have range: "fst replayed \<le> snd replayed \<and> snd replayed \<le> length (sc_paint_operations prev)" and part: "replay_operations ?part self = ret self'"
    using assms Call_Replay by (auto simp: scene_replay_def assert_or_panic_def split: if_splits)
  have "call_scene call s = replay_operations ?part s" for s using range Call_Replay by (simp add: scene_replay_def assert_or_panic_def)
  then show ?thesis using operations_recorded [OF part] that by metis
qed

lemma calls_recorded:
  assumes "call_scene_all calls self = ret self'"
  shows "\<exists>added. sc_paint_operations self' = sc_paint_operations self @ added \<and> (\<forall>s. replay_operations added s = call_scene_all calls s)"
  using assms
proof (induction calls arbitrary: self)
  case (Cons call calls)
  then obtain mid where mid: "call_scene call self = ret mid" "call_scene_all calls mid = ret self'" by (auto simp: bind_eq_Some_conv)
  obtain first where first: "sc_paint_operations mid = sc_paint_operations self @ first" "\<And>s. replay_operations first s = call_scene call s"
    by (rule call_recorded [OF mid(1)]) blast
  obtain rest where rest: "sc_paint_operations self' = sc_paint_operations mid @ rest" "\<forall>s. replay_operations rest s = call_scene_all calls s"
    using Cons.IH [OF mid(2)] by blast
  have "replay_operations rest = call_scene_all calls" using rest(2) by (simp add: fun_eq_iff)
  then have "replay_operations (first @ rest) s = call_scene_all (call # calls) s" for s unfolding replay_append first(2) by simp
  then show ?case using first(1) rest(1) by (intro exI [of _ "first @ rest"]) simp
qed simp

text \<open>C16: what an element has painted in the last frame can be replayed for it: replaying the range of operations that its calls of
  \<open>insert_primitive\<close>, \<open>push_layer\<close>, \<open>pop_layer\<close> and \<open>replay\<close> recorded there does to every scene the same as these calls themselves,
  also after more was painted and the frame was finished.\<close>

theorem replay_as_painted:
  assumes "call_scene_all calls before = ret after" "call_scene_all later after = ret whole"
  shows "scene_replay (scene_len before, scene_len after) (scene_finish whole) self = call_scene_all calls self"
proof -
  obtain added where added: "sc_paint_operations after = sc_paint_operations before @ added" "\<forall>s. replay_operations added s = call_scene_all calls s"
    using calls_recorded [OF assms(1)] by blast
  obtain rest where "sc_paint_operations whole = sc_paint_operations after @ rest" using calls_recorded [OF assms(2)] by blast
  then show ?thesis using added by (simp add: scene_replay_def scene_len_def assert_or_panic_def)
qed

theorem replay_as_painted_witness:
  "\<exists>after. call_scene_all [Call_Insert_Primitive (P_Quad (sample_quad 0 0)), Call_Insert_Primitive (P_Shadow (sample_quad 0 5)), Call_Pop_Layer] scene_default = ret after \<and>
    scene_replay (scene_len (scene_default :: (int, unit) scene), scene_len after) (scene_finish after) scene_default = ret after"
proof -
  let ?calls = "[Call_Insert_Primitive (P_Quad (sample_quad 0 0)), Call_Insert_Primitive (P_Shadow (sample_quad 0 5)), Call_Pop_Layer]"
  obtain after where after: "call_scene_all ?calls scene_default = ret after"
    using scene_rel_run [OF scene_rel_default, of "[Paint_Primitive (P_Quad (sample_quad 0 0)), Paint_Primitive (P_Shadow (sample_quad 0 5))]"]
    by (auto simp: U32_MAX_def bind_eq_Some_conv)
  have "call_scene_all [] after = ret after" by simp
  from replay_as_painted [OF after this, of scene_default] show ?thesis using after by (intro exI [of _ after]) simp
qed

end
