(* ===== verification/Priority_Queue.thy ===== *)
theory Priority_Queue
  imports Prelude
begin

text \<open>
  \<open>gpui/src/queue.rs\<close>: the queue that dispatchers put tasks in, three lists from which the next task is drawn at random,
  the higher priorities more likely. The generator of random numbers is a parameter: \<open>ratio g n d\<close> is what
  \<open>random_ratio\<close> decides and the generator afterwards. An operation that holds the lock is one step. A thread that
  blocks in \<open>recv\<close> is counted, first as waiting on the condition variable and, once notified, as woken.
\<close>

section \<open>Priorities\<close>

datatype priority = Realtime_Audio | High | Medium | Low

fun priority_weight :: "priority \<Rightarrow> nat" where
  "priority_weight High = 60"
| "priority_weight Medium = 30"
| "priority_weight Low = 10"
| "priority_weight Realtime_Audio = 0"

section \<open>The shared state\<close>

record 'a priority_queues =
  pq_high_priority :: "'a list"
  pq_medium_priority :: "'a list"
  pq_low_priority :: "'a list"

definition queues_is_empty :: "'a priority_queues \<Rightarrow> bool" where
  "queues_is_empty queues \<longleftrightarrow> pq_high_priority queues = [] \<and> pq_medium_priority queues = [] \<and> pq_low_priority queues = []"

record 'a priority_queue_state =
  ps_queues :: "'a priority_queues"
  ps_waiting :: nat
  ps_woken :: nat
  ps_receiver_count :: nat
  ps_sender_count :: nat

datatype 'a send_error = Send_Error 'a

datatype recv_error = Recv_Error

definition queues_push :: "priority \<Rightarrow> 'a \<Rightarrow> 'a priority_queues \<Rightarrow> 'a priority_queues rust" where
  "queues_push priority item queues =
     (case priority of
        Realtime_Audio \<Rightarrow> panic
      | High \<Rightarrow> ret (queues\<lparr>pq_high_priority := pq_high_priority queues @ [item]\<rparr>)
      | Medium \<Rightarrow> ret (queues\<lparr>pq_medium_priority := pq_medium_priority queues @ [item]\<rparr>)
      | Low \<Rightarrow> ret (queues\<lparr>pq_low_priority := pq_low_priority queues @ [item]\<rparr>))"

definition notify_one :: "'a priority_queue_state \<Rightarrow> 'a priority_queue_state" where
  "notify_one self = (if ps_waiting self = 0 then self else self\<lparr>ps_waiting := ps_waiting self - 1, ps_woken := ps_woken self + 1\<rparr>)"

definition state_send :: "priority \<Rightarrow> 'a \<Rightarrow> 'a priority_queue_state \<Rightarrow> ('a send_error + 'a priority_queue_state) rust" where
  "state_send priority item self =
     (if ps_receiver_count self = 0 then ret (Inl (Send_Error item))
      else do {
        queues \<leftarrow> queues_push priority item (ps_queues self);
        ret (Inr (notify_one (self\<lparr>ps_queues := queues\<rparr>))) })"

text \<open>\<open>spin_send\<close> takes the lock by trying until it has it.\<close>

definition state_spin_send :: "priority \<Rightarrow> 'a \<Rightarrow> 'a priority_queue_state \<Rightarrow> ('a send_error + 'a priority_queue_state) rust" where
  "state_spin_send priority item self =
     (if ps_receiver_count self = 0 then ret (Inl (Send_Error item))
      else do {
        queues \<leftarrow> queues_push priority item (ps_queues self);
        ret (Inr (notify_one (self\<lparr>ps_queues := queues\<rparr>))) })"

text \<open>\<open>recv\<close>: an error, a thread that blocks, or the lock on queues that are not empty; \<open>recv_woken\<close> is its loop for a thread that was notified.\<close>

datatype recv_result = Recv_Failed | Recv_Blocks | Recv_Ready

definition state_recv :: "'a priority_queue_state \<Rightarrow> recv_result \<times> 'a priority_queue_state" where
  "state_recv self =
     (if queues_is_empty (ps_queues self) \<and> ps_sender_count self = 0 then (Recv_Failed, self)
      else if queues_is_empty (ps_queues self) then (Recv_Blocks, self\<lparr>ps_waiting := ps_waiting self + 1\<rparr>)
      else (Recv_Ready, self))"

definition recv_woken :: "'a priority_queue_state \<Rightarrow> recv_result \<times> 'a priority_queue_state" where
  "recv_woken self = (
     let self = self\<lparr>ps_woken := ps_woken self - 1\<rparr> in
     if queues_is_empty (ps_queues self) then (Recv_Blocks, self\<lparr>ps_waiting := ps_waiting self + 1\<rparr>)
     else (Recv_Ready, self))"

text \<open>Whether \<open>try_recv\<close> gives the queues.\<close>

definition state_try_recv :: "'a priority_queue_state \<Rightarrow> recv_error + bool" where
  "state_try_recv self =
     (if queues_is_empty (ps_queues self) \<and> ps_sender_count self = 0 then Inl Recv_Error
      else if queues_is_empty (ps_queues self) then Inr False
      else Inr True)"

definition state_spin_try_recv :: "'a priority_queue_state \<Rightarrow> recv_error + bool" where
  "state_spin_try_recv self =
     (if queues_is_empty (ps_queues self) \<and> ps_sender_count self = 0 then Inl Recv_Error
      else if queues_is_empty (ps_queues self) then Inr False
      else Inr True)"

section \<open>Senders and receivers\<close>

record 'g receiver =
  rv_rand :: 'g
  rv_disconnected :: bool

definition receiver_new :: "'g \<Rightarrow> 'a priority_queue_state \<times> 'g receiver" where
  "receiver_new seed =
     (\<lparr>ps_queues = \<lparr>pq_high_priority = [], pq_medium_priority = [], pq_low_priority = []\<rparr>, ps_waiting = 0, ps_woken = 0,
       ps_receiver_count = 1, ps_sender_count = 1\<rparr>,
      \<lparr>rv_rand = seed, rv_disconnected = False\<rparr>)"

definition sender_drop :: "'a priority_queue_state \<Rightarrow> 'a priority_queue_state" where
  "sender_drop self = self\<lparr>ps_sender_count := ps_sender_count self - 1\<rparr>"

definition receiver_clone :: "'g \<Rightarrow> 'g receiver \<Rightarrow> 'a priority_queue_state \<Rightarrow> 'a priority_queue_state \<times> 'g receiver" where
  "receiver_clone seed self state =
     (state\<lparr>ps_receiver_count := ps_receiver_count state + 1\<rparr>, \<lparr>rv_rand = seed, rv_disconnected = rv_disconnected self\<rparr>)"

definition receiver_drop :: "'a priority_queue_state \<Rightarrow> 'a priority_queue_state" where
  "receiver_drop self = self\<lparr>ps_receiver_count := ps_receiver_count self - 1\<rparr>"

definition receiver_is_empty :: "'a priority_queue_state \<Rightarrow> bool" where
  "receiver_is_empty self = queues_is_empty (ps_queues self)"

text \<open>\<open>random_ratio\<close> panics when the denominator is zero or below the numerator.\<close>

definition random_ratio :: "('g \<Rightarrow> nat \<Rightarrow> nat \<Rightarrow> bool \<times> 'g) \<Rightarrow> nat \<Rightarrow> nat \<Rightarrow> 'g \<Rightarrow> (bool \<times> 'g) rust" where
  "random_ratio ratio numerator denominator g = do {
     _ \<leftarrow> assert_or_panic (0 < denominator \<and> numerator \<le> denominator);
     ret (ratio g numerator denominator) }"

text \<open>\<open>VecDeque::pop_front\<close>.\<close>

definition pop_front :: "'a list \<Rightarrow> 'a option \<times> 'a list" where
  "pop_front xs = (case xs of [] \<Rightarrow> (None, []) | x # rest \<Rightarrow> (Some x, rest))"

text \<open>The flip for one of the priorities; when it fails, its weight is taken from the mass.\<close>

definition flip_for ::
  "('g \<Rightarrow> nat \<Rightarrow> nat \<Rightarrow> bool \<times> 'g) \<Rightarrow> priority \<Rightarrow> 'a list \<Rightarrow> nat \<Rightarrow> 'g \<Rightarrow> (bool \<times> nat \<times> 'g) rust" where
  "flip_for ratio priority queue mass g =
     (if queue \<noteq> [] then do {
        (flip, g) \<leftarrow> random_ratio ratio (priority_weight priority) mass g;
        if flip then ret (True, mass, g) else do { mass \<leftarrow> checked_minus mass (priority_weight priority); ret (False, mass, g) } }
      else ret (False, mass, g))"

text \<open>The draw from the queues, which \<open>pop_inner\<close> and \<open>spin_try_pop\<close> share word for word.\<close>

definition draw ::
  "('g \<Rightarrow> nat \<Rightarrow> nat \<Rightarrow> bool \<times> 'g) \<Rightarrow> 'a priority_queues \<Rightarrow> 'g \<Rightarrow> ('a option \<times> 'a priority_queues \<times> 'g) rust" where
  "draw ratio queues g = do {
     let high = priority_weight High * (if pq_high_priority queues = [] then 0 else 1);
     let medium = priority_weight Medium * (if pq_medium_priority queues = [] then 0 else 1);
     let low = priority_weight Low * (if pq_low_priority queues = [] then 0 else 1);
     (flip, mass, g) \<leftarrow> flip_for ratio High (pq_high_priority queues) (high + medium + low) g;
     if flip then (case pop_front (pq_high_priority queues) of (item, rest) \<Rightarrow> ret (item, queues\<lparr>pq_high_priority := rest\<rparr>, g))
     else do {
       (flip, mass, g) \<leftarrow> flip_for ratio Medium (pq_medium_priority queues) mass g;
       if flip then (case pop_front (pq_medium_priority queues) of (item, rest) \<Rightarrow> ret (item, queues\<lparr>pq_medium_priority := rest\<rparr>, g))
       else do {
         (flip, g) \<leftarrow> (if pq_low_priority queues \<noteq> [] then random_ratio ratio (priority_weight Low) mass g else ret (False, g));
         if flip then (case pop_front (pq_low_priority queues) of (item, rest) \<Rightarrow> ret (item, queues\<lparr>pq_low_priority := rest\<rparr>, g))
         else ret (None, queues, g) } } }"

text \<open>\<open>pop_inner\<close> once it has the queues.\<close>

definition pop_ready ::
  "('g \<Rightarrow> nat \<Rightarrow> nat \<Rightarrow> bool \<times> 'g) \<Rightarrow> 'g receiver \<Rightarrow> 'a priority_queue_state \<Rightarrow> ('a option \<times> 'g receiver \<times> 'a priority_queue_state) rust" where
  "pop_ready ratio self state = do {
     (item, queues, g) \<leftarrow> draw ratio (ps_queues state) (rv_rand self);
     ret (item, self\<lparr>rv_rand := g\<rparr>, state\<lparr>ps_queues := queues\<rparr>) }"

definition try_pop ::
  "('g \<Rightarrow> nat \<Rightarrow> nat \<Rightarrow> bool \<times> 'g) \<Rightarrow> 'g receiver \<Rightarrow> 'a priority_queue_state \<Rightarrow>
   ((recv_error + 'a option) \<times> 'g receiver \<times> 'a priority_queue_state) rust" where
  "try_pop ratio self state =
     (case state_try_recv state of
        Inl e \<Rightarrow> ret (Inl e, self, state)
      | Inr False \<Rightarrow> ret (Inr None, self, state)
      | Inr True \<Rightarrow> do { (item, self, state) \<leftarrow> pop_ready ratio self state; ret (Inr item, self, state) })"

definition spin_try_pop ::
  "('g \<Rightarrow> nat \<Rightarrow> nat \<Rightarrow> bool \<times> 'g) \<Rightarrow> 'g receiver \<Rightarrow> 'a priority_queue_state \<Rightarrow>
   ((recv_error + 'a option) \<times> 'g receiver \<times> 'a priority_queue_state) rust" where
  "spin_try_pop ratio self state =
     (case state_spin_try_recv state of
        Inl e \<Rightarrow> ret (Inl e, self, state)
      | Inr False \<Rightarrow> ret (Inr None, self, state)
      | Inr True \<Rightarrow> do { (item, self, state) \<leftarrow> pop_ready ratio self state; ret (Inr item, self, state) })"

text \<open>\<open>pop\<close> up to where it returns or blocks, and from where a notified thread goes on; \<open>None\<close> stands for a blocked thread.\<close>

definition pop_from ::
  "('g \<Rightarrow> nat \<Rightarrow> nat \<Rightarrow> bool \<times> 'g) \<Rightarrow> 'g receiver \<Rightarrow> recv_result \<times> 'a priority_queue_state \<Rightarrow>
   ((recv_error + 'a) option \<times> 'g receiver \<times> 'a priority_queue_state) rust" where
  "pop_from ratio self received =
     (case received of
        (Recv_Failed, state) \<Rightarrow> ret (Some (Inl Recv_Error), self, state)
      | (Recv_Blocks, state) \<Rightarrow> ret (None, self, state)
      | (Recv_Ready, state) \<Rightarrow> do {
          (item, self, state) \<leftarrow> pop_ready ratio self state;
          item \<leftarrow> item;
          ret (Some (Inr item), self, state) })"

definition pop_start ::
  "('g \<Rightarrow> nat \<Rightarrow> nat \<Rightarrow> bool \<times> 'g) \<Rightarrow> 'g receiver \<Rightarrow> 'a priority_queue_state \<Rightarrow>
   ((recv_error + 'a) option \<times> 'g receiver \<times> 'a priority_queue_state) rust" where
  "pop_start ratio self state = pop_from ratio self (state_recv state)"

definition pop_resume ::
  "('g \<Rightarrow> nat \<Rightarrow> nat \<Rightarrow> bool \<times> 'g) \<Rightarrow> 'g receiver \<Rightarrow> 'a priority_queue_state \<Rightarrow>
   ((recv_error + 'a) option \<times> 'g receiver \<times> 'a priority_queue_state) rust" where
  "pop_resume ratio self state = pop_from ratio self (recv_woken state)"

text \<open>\<open>Iter\<close>, the blocking iterator; a blocked thread is \<open>None\<close>, the end of the iteration \<open>Some None\<close>.\<close>

definition queue_iter_next ::
  "('g \<Rightarrow> nat \<Rightarrow> nat \<Rightarrow> bool \<times> 'g) \<Rightarrow> 'g receiver \<Rightarrow> 'a priority_queue_state \<Rightarrow>
   ('a option option \<times> 'g receiver \<times> 'a priority_queue_state) rust" where
  "queue_iter_next ratio self state = do {
     (res, self, state) \<leftarrow> pop_start ratio self state;
     ret (map_option (case_sum (\<lambda>_. None) Some) res, self, state) }"

text \<open>\<open>TryIter\<close>: a receiver and whether it has ended.\<close>

definition try_iter_next ::
  "('g \<Rightarrow> nat \<Rightarrow> nat \<Rightarrow> bool \<times> 'g) \<Rightarrow> 'g receiver \<times> bool \<Rightarrow> 'a priority_queue_state \<Rightarrow>
   ((recv_error + 'a) option \<times> ('g receiver \<times> bool) \<times> 'a priority_queue_state) rust" where
  "try_iter_next ratio self state =
     (case self of (receiver, ended) \<Rightarrow>
        if ended then ret (None, self, state)
        else do {
          (res, receiver, state) \<leftarrow> try_pop ratio receiver state;
          ret (case res of Inl e \<Rightarrow> (Some (Inl e), (receiver, True), state)
                 | Inr None \<Rightarrow> (None, (receiver, False), state)
                 | Inr (Some item) \<Rightarrow> (Some (Inr item), (receiver, False), state)) })"

end
