(* ===== verification/Priority_Queue_Properties.thy ===== *)
theory Priority_Queue_Properties
  imports Priority_Queue "HOL-Library.Multiset"
begin

text \<open>
  What the priority queue promises: tasks of one priority are handed out in the order they were sent, a queue that holds
  tasks always hands one out, and no thread sleeps over a task as long as there is a sender.
\<close>

section \<open>Drawing a task\<close>

definition queue_of :: "'a priority_queues \<Rightarrow> priority \<Rightarrow> 'a list" where
  "queue_of queues p = (case p of Realtime_Audio \<Rightarrow> [] | High \<Rightarrow> pq_high_priority queues | Medium \<Rightarrow> pq_medium_priority queues | Low \<Rightarrow> pq_low_priority queues)"

definition queued :: "'a priority_queues \<Rightarrow> nat" where
  "queued queues = length (pq_high_priority queues) + length (pq_medium_priority queues) + length (pq_low_priority queues)"

lemma queued_empty: "queues_is_empty queues \<longleftrightarrow> queued queues = 0"
  by (auto simp: queues_is_empty_def queued_def)

text \<open>What \<open>random_ratio\<close> documents: a ratio of one is certain.\<close>

definition ratio_certain :: "('g \<Rightarrow> nat \<Rightarrow> nat \<Rightarrow> bool \<times> 'g) \<Rightarrow> bool" where
  "ratio_certain ratio \<longleftrightarrow> (\<forall>g n. 0 < n \<longrightarrow> fst (ratio g n n))"

lemma queue_of_update:
  "queue_of (queues\<lparr>pq_high_priority := xs\<rparr>) = (queue_of queues)(High := xs)"
  "queue_of (queues\<lparr>pq_medium_priority := xs\<rparr>) = (queue_of queues)(Medium := xs)"
  "queue_of (queues\<lparr>pq_low_priority := xs\<rparr>) = (queue_of queues)(Low := xs)"
  by (simp_all add: fun_eq_iff queue_of_def split: priority.split)

lemma flip_for_ok:
  assumes "ratio_certain ratio" "queue \<noteq> []" "priority_weight p \<le> mass" "0 < mass"
  obtains (hit) g' where "flip_for ratio p queue mass g = ret (True, mass, g')"
  | (miss) g' where "flip_for ratio p queue mass g = ret (False, mass - priority_weight p, g')" "priority_weight p < mass"
proof -
  obtain b g' where r: "ratio g (priority_weight p) mass = (b, g')" by fastforce
  have "b \<or> priority_weight p < mass" using assms(1,3,4) r unfolding ratio_certain_def by (metis fst_conv le_neq_implies_less)
  then show ?thesis using hit [of g'] miss [of g'] r assms(2-4)
    by (cases b) (auto simp: flip_for_def random_ratio_def assert_or_panic_def checked_minus_def)
qed

lemma flip_for_empty [simp]: "flip_for ratio p [] mass g = ret (False, mass, g)"
  by (simp add: flip_for_def)

definition gives :: "'a priority_queues \<Rightarrow> 'a option \<times> 'a priority_queues \<times> 'g \<Rightarrow> bool" where
  "gives queues r \<longleftrightarrow> (\<exists>p item rest. fst r = Some item \<and> queue_of queues p = item # rest \<and>
     queue_of (fst (snd r)) = (queue_of queues)(p := rest) \<and> Suc (queued (fst (snd r))) = queued queues)"

lemma gives_simps:
  "pq_high_priority queues = x # xs \<Longrightarrow> gives queues (Some x, queues\<lparr>pq_high_priority := xs\<rparr>, g)"
  "pq_medium_priority queues = x # xs \<Longrightarrow> gives queues (Some x, queues\<lparr>pq_medium_priority := xs\<rparr>, g)"
  "pq_low_priority queues = x # xs \<Longrightarrow> gives queues (Some x, queues\<lparr>pq_low_priority := xs\<rparr>, g)"
  unfolding gives_def
  by (rule exI [of _ High], simp add: queue_of_update queue_of_def queued_def)
    (rule exI [of _ Medium], simp add: queue_of_update queue_of_def queued_def,
     rule exI [of _ Low], simp add: queue_of_update queue_of_def queued_def)

lemma draw_gives:
  assumes sure: "ratio_certain ratio" and some: "\<not> queues_is_empty queues"
  shows "\<exists>r. draw ratio queues g = ret r \<and> gives queues r"
proof -
  let ?h = "pq_high_priority queues" and ?m = "pq_medium_priority queues" and ?l = "pq_low_priority queues"
  let ?mass = "priority_weight High * (if ?h = [] then 0 else 1) + priority_weight Medium * (if ?m = [] then 0 else 1) + priority_weight Low * (if ?l = [] then 0 else 1)"
  let ?rest = "priority_weight Medium * (if ?m = [] then 0 else 1) + priority_weight Low * (if ?l = [] then 0 else 1)"
  consider (given) "\<exists>r. draw ratio queues g = ret r \<and> gives queues r"
    | (on) g' where "flip_for ratio High ?h ?mass g = ret (False, ?rest, g')" "?m \<noteq> [] \<or> ?l \<noteq> []"
  proof (cases ?h)
    case Nil
    then show ?thesis using some on [of g] by (auto simp: queues_is_empty_def)
  next
    case (Cons x xs)
    have le: "priority_weight High \<le> ?mass" "0 < ?mass" "?h \<noteq> []" using Cons by simp_all
    show ?thesis
    proof (cases rule: flip_for_ok [OF sure le(3,1,2), of g])
      case (1 g')
      then show ?thesis using given Cons by (simp add: draw_def pop_front_def gives_simps(1) [OF Cons])
    next
      case (2 g')
      then show ?thesis using on [of g'] Cons by (auto split: if_splits)
    qed
  qed
  then show ?thesis
  proof cases
    case (on g1)
    consider (given) "\<exists>r. draw ratio queues g = ret r \<and> gives queues r"
      | (on') g' where "flip_for ratio Medium ?m ?rest g1 = ret (False, priority_weight Low, g')" "?l \<noteq> []"
    proof (cases ?m)
      case Nil
      then show ?thesis using on(2) on' [of g1] by auto
    next
      case (Cons x xs)
      have le: "priority_weight Medium \<le> ?rest" "0 < ?rest" "?m \<noteq> []" using Cons by simp_all
      show ?thesis
      proof (cases rule: flip_for_ok [OF sure le(3,1,2), of g1])
        case (1 g')
        then show ?thesis using given Cons on(1) by (simp add: draw_def pop_front_def gives_simps(2) [OF Cons])
      next
        case (2 g')
        then show ?thesis using on' [of g'] Cons by (auto split: if_splits)
      qed
    qed
    then show ?thesis
    proof cases
      case (on' g2)
      obtain x xs where l: "?l = x # xs" using on'(2) by (meson neq_Nil_conv)
      obtain g3 where "ratio g2 10 10 = (True, g3)" using sure unfolding ratio_certain_def by (metis fst_conv prod.collapse zero_less_numeral)
      then show ?thesis using on(1) on'(1) l by (simp add: draw_def random_ratio_def assert_or_panic_def pop_front_def gives_simps(3) [OF l])
    qed
  qed
qed

section \<open>A queue in use\<close>

text \<open>
  The calls of a program, by any number of threads: each call takes the lock once. \<open>Ev_Pop\<close> is a call of the blocking
  \<open>pop\<close>, \<open>Ev_Wake\<close> a thread that was notified and goes on; what a call hands out is recorded, with what was sent.
\<close>

datatype 'a pq_event = Ev_Send priority 'a | Ev_Sender_Drop | Ev_Receiver_Clone | Ev_Receiver_Drop | Ev_Try_Pop | Ev_Pop | Ev_Wake

record ('a, 'g) pq_world =
  pw_state :: "'a priority_queue_state"
  pw_receiver :: "'g receiver"
  pw_sent :: "(priority \<times> 'a) list"
  pw_handed :: "'a list"

definition handed_out :: "('a, 'g) pq_world \<Rightarrow> 'a option \<Rightarrow> 'g receiver \<Rightarrow> 'a priority_queue_state \<Rightarrow> ('a, 'g) pq_world" where
  "handed_out w item receiver state = w\<lparr>pw_state := state, pw_receiver := receiver,
     pw_handed := pw_handed w @ (case item of Some x \<Rightarrow> [x] | None \<Rightarrow> [])\<rparr>"

fun pq_exec :: "('g \<Rightarrow> nat \<Rightarrow> nat \<Rightarrow> bool \<times> 'g) \<Rightarrow> 'a pq_event \<Rightarrow> ('a, 'g) pq_world \<Rightarrow> ('a, 'g) pq_world rust" where
  "pq_exec ratio (Ev_Send p x) w = do {
     res \<leftarrow> state_send p x (pw_state w);
     ret (case res of Inl _ \<Rightarrow> w | Inr state \<Rightarrow> w\<lparr>pw_state := state, pw_sent := pw_sent w @ [(p, x)]\<rparr>) }"
| "pq_exec ratio Ev_Sender_Drop w = ret (w\<lparr>pw_state := sender_drop (pw_state w)\<rparr>)"
| "pq_exec ratio Ev_Receiver_Clone w = ret (w\<lparr>pw_state := fst (receiver_clone (rv_rand (pw_receiver w)) (pw_receiver w) (pw_state w))\<rparr>)"
| "pq_exec ratio Ev_Receiver_Drop w = ret (w\<lparr>pw_state := receiver_drop (pw_state w)\<rparr>)"
| "pq_exec ratio Ev_Try_Pop w = do {
     (res, receiver, state) \<leftarrow> try_pop ratio (pw_receiver w) (pw_state w);
     ret (handed_out w (case res of Inr item \<Rightarrow> item | Inl _ \<Rightarrow> None) receiver state) }"
| "pq_exec ratio Ev_Pop w = do {
     (res, receiver, state) \<leftarrow> pop_start ratio (pw_receiver w) (pw_state w);
     ret (handed_out w (case res of Some (Inr item) \<Rightarrow> Some item | _ \<Rightarrow> None) receiver state) }"
| "pq_exec ratio Ev_Wake w = do {
     (res, receiver, state) \<leftarrow> pop_resume ratio (pw_receiver w) (pw_state w);
     ret (handed_out w (case res of Some (Inr item) \<Rightarrow> Some item | _ \<Rightarrow> None) receiver state) }"

text \<open>A call needs the sender or a receiver; \<open>prio\<close> tells at which priority a task is sent.\<close>

fun pq_enabled :: "('a \<Rightarrow> priority) \<Rightarrow> 'a pq_event \<Rightarrow> ('a, 'g) pq_world \<Rightarrow> bool" where
  "pq_enabled prio (Ev_Send p x) w = (0 < ps_sender_count (pw_state w) \<and> p \<noteq> Realtime_Audio \<and> p = prio x)"
| "pq_enabled prio Ev_Sender_Drop w = (0 < ps_sender_count (pw_state w))"
| "pq_enabled prio Ev_Wake w = (0 < ps_woken (pw_state w))"
| "pq_enabled prio _ w = (0 < ps_receiver_count (pw_state w))"

definition pq_start :: "'g \<Rightarrow> ('a, 'g) pq_world" where
  "pq_start seed = (case receiver_new seed of (state, receiver) \<Rightarrow> \<lparr>pw_state = state, pw_receiver = receiver, pw_sent = [], pw_handed = []\<rparr>)"

inductive pq_reach :: "('g \<Rightarrow> nat \<Rightarrow> nat \<Rightarrow> bool \<times> 'g) \<Rightarrow> ('a \<Rightarrow> priority) \<Rightarrow> ('a, 'g) pq_world \<Rightarrow> bool" for ratio prio where
  start: "pq_reach ratio prio (pq_start g)"
| step: "pq_reach ratio prio w \<Longrightarrow> pq_enabled prio e w \<Longrightarrow> pq_exec ratio e w = ret w' \<Longrightarrow> pq_reach ratio prio w'"

text \<open>
  The invariant, for tasks that are sent at the priority \<open>prio\<close> gives them: what was handed out of a priority and what is queued is
  what was sent, in order; and when a thread waits, every task in the queue has a thread that was woken for it.
\<close>

definition in_order :: "('a \<Rightarrow> priority) \<Rightarrow> ('a, 'g) pq_world \<Rightarrow> bool" where
  "in_order prio w \<longleftrightarrow> (\<forall>p. filter (\<lambda>x. prio x = p) (pw_handed w) @ queue_of (ps_queues (pw_state w)) p = filter (\<lambda>x. prio x = p) (map snd (pw_sent w)))"

definition wakes :: "'a priority_queue_state \<Rightarrow> bool" where
  "wakes self \<longleftrightarrow> ps_waiting self = 0 \<or> queued (ps_queues self) \<le> ps_woken self"

text \<open>Handing out an item keeps both.\<close>

lemma draw_keeps:
  assumes sure: "ratio_certain ratio" and some: "\<not> queues_is_empty (ps_queues state)"
  obtains item receiver' queues where "pop_ready ratio receiver state = ret (Some item, receiver', state\<lparr>ps_queues := queues\<rparr>)"
    "\<exists>p rest. queue_of (ps_queues state) p = item # rest \<and> queue_of queues = (queue_of (ps_queues state))(p := rest)"
    "Suc (queued queues) = queued (ps_queues state)"
proof -
  obtain r where r: "draw ratio (ps_queues state) (rv_rand receiver) = ret r" "gives (ps_queues state) r"
    using draw_gives [OF assms] by blast
  obtain it queues g where "r = (it, queues, g)" by (cases r)
  then show ?thesis using that r by (auto simp: pop_ready_def gives_def)
qed

lemma handed_in_order:
  assumes order: "in_order prio w" and item: "queue_of (ps_queues (pw_state w)) p = item # rest"
    and queues: "queue_of (ps_queues state) = (queue_of (ps_queues (pw_state w)))(p := rest)"
  shows "in_order prio (handed_out w (Some item) receiver state)"
proof -
  have p: "filter (\<lambda>x. prio x = p) (pw_handed w) @ item # rest = filter (\<lambda>x. prio x = p) (map snd (pw_sent w))"
    using order item unfolding in_order_def by metis
  then have "item \<in> set (filter (\<lambda>x. prio x = p) (map snd (pw_sent w)))" by (metis in_set_conv_decomp)
  then have "prio item = p" by simp
  then show ?thesis using order item queues p by (auto simp: in_order_def handed_out_def)
qed

definition pq_inv :: "('a \<Rightarrow> priority) \<Rightarrow> ('a, 'g) pq_world \<Rightarrow> bool" where
  "pq_inv prio w \<longleftrightarrow> in_order prio w \<and> wakes (pw_state w)"

lemma ready_keeps:
  assumes sure: "ratio_certain ratio" and order: "in_order prio w" and some: "\<not> queues_is_empty (ps_queues state)"
    and state: "ps_queues state = ps_queues (pw_state w)" "ps_waiting state = 0 \<or> queued (ps_queues state) \<le> Suc (ps_woken state)"
  obtains item receiver' state' where "pop_ready ratio (pw_receiver w) state = ret (Some item, receiver', state')"
    "pq_inv prio (handed_out w (Some item) receiver' state')"
proof -
  obtain item receiver' queues where r: "pop_ready ratio (pw_receiver w) state = ret (Some item, receiver', state\<lparr>ps_queues := queues\<rparr>)"
      "\<exists>p rest. queue_of (ps_queues state) p = item # rest \<and> queue_of queues = (queue_of (ps_queues state))(p := rest)"
      "Suc (queued queues) = queued (ps_queues state)"
    by (rule draw_keeps [OF sure some])
  obtain p rest where p: "queue_of (ps_queues (pw_state w)) p = item # rest"
      "queue_of (ps_queues (state\<lparr>ps_queues := queues\<rparr>)) = (queue_of (ps_queues (pw_state w)))(p := rest)"
    using r(2) state(1) by auto
  have "in_order prio (handed_out w (Some item) receiver' (state\<lparr>ps_queues := queues\<rparr>))" by (rule handed_in_order [OF order p])
  moreover have "wakes (state\<lparr>ps_queues := queues\<rparr>)" using state(2) r(3) by (auto simp: wakes_def)
  ultimately show ?thesis using that r(1) by (simp add: pq_inv_def handed_out_def)
qed

lemma in_order_state: "ps_queues state = ps_queues (pw_state w) \<Longrightarrow> in_order prio w \<Longrightarrow> in_order prio (w\<lparr>pw_state := state\<rparr>)"
  by (simp add: in_order_def)

lemma send_keeps:
  assumes inv: "pq_inv prio w" and p: "p \<noteq> Realtime_Audio" "p = prio x"
  shows "\<exists>w'. pq_exec ratio (Ev_Send p x) w = ret w' \<and> pq_inv prio w'"
proof (cases "ps_receiver_count (pw_state w) = 0")
  case True
  then show ?thesis using inv by (simp add: state_send_def)
next
  case False
  let ?queues = "ps_queues (pw_state w)"
  obtain queues where q: "queues_push p x ?queues = ret queues" "queue_of queues = (queue_of ?queues)(p := queue_of ?queues p @ [x])"
      "queued queues = Suc (queued ?queues)"
    using p(1) by (cases p) (auto simp: queues_push_def queue_of_update queued_def queue_of_def)
  let ?w = "w\<lparr>pw_state := notify_one ((pw_state w)\<lparr>ps_queues := queues\<rparr>), pw_sent := pw_sent w @ [(p, x)]\<rparr>"
  have "in_order prio ?w" using inv p(2) q(2) by (auto simp: pq_inv_def in_order_def notify_one_def)
  moreover have "wakes (pw_state ?w)" using inv q(3) by (auto simp: pq_inv_def wakes_def notify_one_def)
  ultimately show ?thesis using False q(1) by (simp add: state_send_def pq_inv_def)
qed

lemma pq_exec_keeps:
  assumes sure: "ratio_certain ratio" and inv: "pq_inv prio w" and enabled: "pq_enabled prio e w"
  shows "\<exists>w'. pq_exec ratio e w = ret w' \<and> pq_inv prio w'"
proof -
  have order: "in_order prio w" and wake: "wakes (pw_state w)" using inv by (simp_all add: pq_inv_def)
  have idle: "pq_inv prio (handed_out w None (pw_receiver w) state)"
    if "ps_queues state = ps_queues (pw_state w)" "wakes state" for state
    using order that by (simp add: pq_inv_def in_order_def handed_out_def)
  have same: "pq_inv prio (w\<lparr>pw_state := state\<rparr>)" if "ps_queues state = ps_queues (pw_state w)" "wakes state" for state
    using in_order_state [OF that(1) order] that(2) by (simp add: pq_inv_def)
  show ?thesis
  proof (cases e)
    case (Ev_Send p x)
    show ?thesis unfolding Ev_Send by (rule send_keeps [OF inv]) (use enabled Ev_Send in auto)
  next
    case Ev_Try_Pop
    show ?thesis
    proof (cases "queues_is_empty (ps_queues (pw_state w))")
      case True
      then show ?thesis using Ev_Try_Pop idle [OF refl wake] by (simp add: try_pop_def state_try_recv_def)
    next
      case False
      show ?thesis by (rule ready_keeps [OF sure order False]) (use Ev_Try_Pop False wake in \<open>auto simp: try_pop_def state_try_recv_def wakes_def\<close>)
    qed
  next
    case Ev_Pop
    show ?thesis
    proof (cases "queues_is_empty (ps_queues (pw_state w))")
      case True
      have "wakes ((pw_state w)\<lparr>ps_waiting := ps_waiting (pw_state w) + 1\<rparr>)" using True by (simp add: wakes_def queued_empty)
      then show ?thesis using Ev_Pop True idle [OF refl wake] idle [of "(pw_state w)\<lparr>ps_waiting := ps_waiting (pw_state w) + 1\<rparr>"]
        by (simp add: pop_start_def state_recv_def pop_from_def)
    next
      case False
      show ?thesis by (rule ready_keeps [OF sure order False]) (use Ev_Pop False wake in \<open>auto simp: pop_start_def state_recv_def pop_from_def wakes_def\<close>)
    qed
  next
    case Ev_Wake
    let ?state = "(pw_state w)\<lparr>ps_woken := ps_woken (pw_state w) - 1\<rparr>"
    show ?thesis
    proof (cases "queues_is_empty (ps_queues (pw_state w))")
      case True
      have "wakes (?state\<lparr>ps_waiting := ps_waiting ?state + 1\<rparr>)" using True by (simp add: wakes_def queued_empty)
      then show ?thesis using Ev_Wake True idle [of "?state\<lparr>ps_waiting := ps_waiting ?state + 1\<rparr>"]
        by (simp add: pop_resume_def recv_woken_def pop_from_def)
    next
      case False
      then have some: "\<not> queues_is_empty (ps_queues ?state)" by simp
      show ?thesis by (rule ready_keeps [OF sure order some]) (use Ev_Wake False wake enabled in \<open>auto simp: pop_resume_def recv_woken_def pop_from_def wakes_def\<close>)
    qed
  qed (use same wake in \<open>simp_all add: sender_drop_def receiver_clone_def receiver_drop_def wakes_def\<close>)
qed

lemma pq_reach_inv:
  assumes "ratio_certain ratio" "pq_reach ratio prio w"
  shows "pq_inv prio w"
  using assms(2)
proof (induction rule: pq_reach.induct)
  case (start g)
  show ?case by (simp add: pq_inv_def in_order_def wakes_def pq_start_def receiver_new_def queue_of_def split: priority.split)
next
  case (step w e w')
  then show ?case using pq_exec_keeps [OF assms(1), of prio w e] by auto
qed

section \<open>Promises\<close>

text \<open>A generator that only grants what is certain, and two tasks sent to it.\<close>

definition stingy :: "nat \<Rightarrow> nat \<Rightarrow> nat \<Rightarrow> bool \<times> nat" where
  "stingy g n d = (n = d, g)"

lemma stingy_certain: "ratio_certain stingy"
  by (simp add: ratio_certain_def stingy_def)

definition sample_prio :: "nat \<Rightarrow> priority" where
  "sample_prio x = (if even x then High else Low)"

definition sample_queue :: "(nat, nat) pq_world" where
  "sample_queue = (let w = pq_start 0 in w\<lparr>pw_state := (pw_state w)\<lparr>ps_queues := \<lparr>pq_high_priority = [2], pq_medium_priority = [], pq_low_priority = [1]\<rparr>\<rparr>,
     pw_sent := [(Low, 1), (High, 2)]\<rparr>)"

lemma sample_queue_reach: "pq_reach stingy sample_prio sample_queue"
proof -
  obtain w where w: "pq_exec stingy (Ev_Send Low 1) (pq_start 0) = ret w" "pq_enabled sample_prio (Ev_Send Low 1) (pq_start 0 :: (nat, nat) pq_world)"
      "pq_exec stingy (Ev_Send High 2) w = ret sample_queue" "pq_enabled sample_prio (Ev_Send High 2) w"
    by (simp add: sample_queue_def pq_start_def receiver_new_def state_send_def queues_push_def notify_one_def sample_prio_def)
  show ?thesis using pq_reach.start [of stingy sample_prio 0] w pq_reach.step by metis
qed

text \<open>C28: tasks of one priority are handed out in the order they were sent, none is lost and none is handed out twice, whatever
  threads do in between; and a receiver that asks for a task gets the first one of some priority whenever there is
  one, is told that there is none, or, when the sender is gone too, that there will be none.\<close>

theorem tasks_in_order:
  assumes "ratio_certain ratio" "pq_reach ratio prio w"
  shows "(\<forall>p. filter (\<lambda>x. prio x = p) (pw_handed w) @ queue_of (ps_queues (pw_state w)) p = filter (\<lambda>x. prio x = p) (map snd (pw_sent w))) \<and>
    (\<exists>answer receiver state. try_pop ratio (pw_receiver w) (pw_state w) = ret (answer, receiver, state) \<and>
       (if \<not> queues_is_empty (ps_queues (pw_state w)) then \<exists>p item rest. answer = Inr (Some item) \<and> queue_of (ps_queues (pw_state w)) p = item # rest
        else answer = (if ps_sender_count (pw_state w) = 0 then Inl Recv_Error else Inr None)))"
proof -
  have "in_order prio w" using pq_reach_inv [OF assms] by (simp add: pq_inv_def)
  moreover have "\<exists>answer receiver state. try_pop ratio (pw_receiver w) (pw_state w) = ret (answer, receiver, state) \<and>
       (if \<not> queues_is_empty (ps_queues (pw_state w)) then \<exists>p item rest. answer = Inr (Some item) \<and> queue_of (ps_queues (pw_state w)) p = item # rest
        else answer = (if ps_sender_count (pw_state w) = 0 then Inl Recv_Error else Inr None))"
  proof (cases "queues_is_empty (ps_queues (pw_state w))")
    case True
    then show ?thesis by (simp add: try_pop_def state_try_recv_def)
  next
    case False
    show ?thesis
      by (rule draw_keeps [OF assms(1) False, of "pw_receiver w"]) (use False in \<open>auto simp: try_pop_def state_try_recv_def\<close>)
  qed
  ultimately show ?thesis by (simp add: in_order_def)
qed

theorem tasks_in_order_witness:
  "\<exists>answer receiver state. try_pop stingy (pw_receiver sample_queue) (pw_state sample_queue) = ret (answer, receiver, state) \<and>
     (\<exists>p item rest. answer = Inr (Some item) \<and> queue_of (ps_queues (pw_state sample_queue)) p = item # rest)"
proof -
  have "\<not> queues_is_empty (ps_queues (pw_state sample_queue))" by (simp add: sample_queue_def queues_is_empty_def)
  then show ?thesis using tasks_in_order [OF stingy_certain sample_queue_reach] by simp
qed

text \<open>Once the sender is gone and the queue is empty, a call hands out nothing, and whoever waits goes on waiting.\<close>

fun pq_run :: "('g \<Rightarrow> nat \<Rightarrow> nat \<Rightarrow> bool \<times> 'g) \<Rightarrow> ('a \<Rightarrow> priority) \<Rightarrow> 'a pq_event list \<Rightarrow> ('a, 'g) pq_world \<Rightarrow> ('a, 'g) pq_world rust" where
  "pq_run ratio prio [] w = ret w"
| "pq_run ratio prio (e # es) w = do { _ \<leftarrow> assert_or_panic (pq_enabled prio e w); w \<leftarrow> pq_exec ratio e w; pq_run ratio prio es w }"

definition blocked_threads :: "'a priority_queue_state \<Rightarrow> nat" where
  "blocked_threads self = ps_waiting self + ps_woken self"

lemma closed_step:
  assumes "queues_is_empty (ps_queues (pw_state w))" "ps_sender_count (pw_state w) = 0" "pq_enabled prio e w" "pq_exec ratio e w = ret w'"
  shows "queues_is_empty (ps_queues (pw_state w')) \<and> ps_sender_count (pw_state w') = 0 \<and> blocked_threads (pw_state w') = blocked_threads (pw_state w) \<and>
    pw_handed w' = pw_handed w"
  using assms
  by (cases e) (auto simp: blocked_threads_def receiver_clone_def receiver_drop_def try_pop_def state_try_recv_def handed_out_def pop_start_def state_recv_def
    pop_from_def pop_resume_def recv_woken_def)

lemma closed_run:
  "queues_is_empty (ps_queues (pw_state w)) \<Longrightarrow> ps_sender_count (pw_state w) = 0 \<Longrightarrow> pq_run ratio prio es w = ret w' \<Longrightarrow>
   blocked_threads (pw_state w') = blocked_threads (pw_state w) \<and> pw_handed w' = pw_handed w"
proof (induction es arbitrary: w)
  case (Cons e es)
  then obtain w2 where "pq_enabled prio e w" "pq_exec ratio e w = ret w2" "pq_run ratio prio es w2 = ret w'"
    by (auto simp: bind_eq_Some_conv assert_or_panic_def split: if_splits)
  then show ?case using closed_step [OF Cons.prems(1,2)] Cons.IH by metis
qed simp

text \<open>C10: as long as threads wait in \<open>pop\<close>, every task in the queue has one that was woken for it, so no task is slept over. But the
  drop of the sender wakes nobody: from then on, when the queue is empty, the threads that are blocked in \<open>pop\<close> stay blocked,
  whatever the other ones do.\<close>

theorem wakeups:
  assumes "ratio_certain ratio" "pq_reach ratio prio w"
  shows "(0 < ps_waiting (pw_state w) \<longrightarrow> queued (ps_queues (pw_state w)) \<le> ps_woken (pw_state w)) \<and>
    (queued (ps_queues (pw_state w)) = 0 \<and> ps_sender_count (pw_state w) = 1 \<longrightarrow>
     (\<forall>es w'. pq_run ratio prio (Ev_Sender_Drop # es) w = ret w' \<longrightarrow> blocked_threads (pw_state w') = blocked_threads (pw_state w) \<and> pw_handed w' = pw_handed w))"
proof (intro conjI impI allI)
  assume "0 < ps_waiting (pw_state w)"
  then show "queued (ps_queues (pw_state w)) \<le> ps_woken (pw_state w)" using pq_reach_inv [OF assms] by (auto simp: pq_inv_def wakes_def)
next
  fix es w'
  assume w: "queued (ps_queues (pw_state w)) = 0 \<and> ps_sender_count (pw_state w) = 1" and run: "pq_run ratio prio (Ev_Sender_Drop # es) w = ret w'"
  let ?w = "w\<lparr>pw_state := sender_drop (pw_state w)\<rparr>"
  have "pq_run ratio prio es ?w = ret w'" using run w by (simp add: assert_or_panic_def)
  then have "blocked_threads (pw_state w') = blocked_threads (pw_state ?w) \<and> pw_handed w' = pw_handed ?w"
    using closed_run [of ?w ratio prio es w'] w by (simp add: sender_drop_def queued_empty)
  then show "blocked_threads (pw_state w') = blocked_threads (pw_state w)" "pw_handed w' = pw_handed w" by (simp_all add: sender_drop_def blocked_threads_def)
qed

text \<open>A thread that waits at an empty queue.\<close>

definition sample_waiting :: "(nat, nat) pq_world" where
  "sample_waiting = (let w = pq_start 0 in w\<lparr>pw_state := (pw_state w)\<lparr>ps_waiting := 1\<rparr>\<rparr>)"

lemma sample_waiting_reach: "pq_reach stingy sample_prio sample_waiting"
proof (rule pq_reach.step [OF pq_reach.start [of stingy sample_prio 0], of Ev_Pop])
  show "pq_exec stingy Ev_Pop (pq_start 0) = ret sample_waiting"
    by (simp add: sample_waiting_def pq_start_def receiver_new_def pop_start_def state_recv_def pop_from_def queues_is_empty_def handed_out_def)
qed (simp add: pq_start_def receiver_new_def)

theorem wakeups_witness:
  "\<exists>w'. pq_run stingy sample_prio [Ev_Sender_Drop, Ev_Try_Pop, Ev_Pop] sample_waiting = ret w' \<and> blocked_threads (pw_state w') = 1"
proof -
  have q: "queued (ps_queues (pw_state sample_waiting)) = 0" "ps_sender_count (pw_state sample_waiting) = 1" "blocked_threads (pw_state sample_waiting) = 1"
    by (simp_all add: sample_waiting_def pq_start_def receiver_new_def queued_def blocked_threads_def)
  obtain w' where "pq_run stingy sample_prio [Ev_Sender_Drop, Ev_Try_Pop, Ev_Pop] sample_waiting = ret w'"
    by (simp add: sample_waiting_def pq_start_def receiver_new_def sender_drop_def assert_or_panic_def try_pop_def state_try_recv_def
      queues_is_empty_def handed_out_def pop_start_def state_recv_def pop_from_def)
  then show ?thesis using wakeups [OF stingy_certain sample_waiting_reach] q by metis
qed

end
