(* ===== verification/List_State.thy ===== *)
theory List_State
  imports Cursor_Iter Geometry
begin

text \<open>
  \<open>gpui/src/elements/list.rs\<close>: the state of a list element, which scrolls over items of different heights. The items are kept
  in a \<open>SumTree\<close> and found by number or by height, so this is a client of the cursors in three dimensions. Lengths are an
  ordered field. What the items are drawn with (\<open>render_item\<close>, the layout of an element, the focus and the autoscroll requests of the
  window) is a dictionary of functions on the state of the window and the application; a closure that keeps state of its own keeps it there.
\<close>

section \<open>Data\<close>

datatype follow_mode = Mode_Normal | Mode_Tail

datatype follow_state = Follow_Normal | Follow_Tail bool

datatype list_alignment = Align_Top | Align_Bottom

datatype measuring_behavior = Measure_All bool | Measure_Visible

datatype scroll_anchor = Anchor_Absolute | Anchor_Proportional

record 'u list_offset =
  lo_item_ix :: nat
  lo_offset_in_item :: 'u

text \<open>The item and the offset in it, in pixels or as a fraction of its height.\<close>

datatype 'u pending_scroll = Pending_Absolute nat 'u | Pending_Proportional nat 'u

text \<open>The fields of \<open>Unmeasured\<close> and \<open>Measured\<close> are the size hint or the size, and the focus handle.\<close>

datatype ('u, 'f) list_item = Unmeasured "'u bsize option" "'f option" | Measured "'u bsize" "'f option"

record 'u list_summary =
  lsm_count :: nat
  lsm_rendered_count :: nat
  lsm_unrendered_count :: nat
  lsm_height :: 'u
  lsm_has_focus_handles :: bool
  lsm_has_unknown_height :: bool

record list_scroll_event =
  ev_visible_range :: "nat \<times> nat"
  ev_count :: nat
  ev_is_scrolled :: bool
  ev_is_following_tail :: bool

record ('u, 'f, 'w) list_state =
  li_last_layout_bounds :: "'u bounds option"
  li_last_padding :: "'u edges option"
  li_items :: "(('u, 'f) list_item, 'u list_summary) sum_tree"
  li_logical_scroll_top :: "'u list_offset option"
  li_alignment :: list_alignment
  li_overdraw :: 'u
  li_reset :: bool
  li_scroll_handler :: "(list_scroll_event \<Rightarrow> 'w \<Rightarrow> 'w) option"
  li_scrollbar_drag_start_height :: "'u option"
  li_measuring_behavior :: measuring_behavior
  li_pending_scroll :: "'u pending_scroll option"
  li_follow_state :: follow_state

section \<open>Items and their summaries\<close>

definition item_size :: "('u, 'f) list_item \<Rightarrow> 'u bsize option" where
  "item_size self = (case self of Measured sz _ \<Rightarrow> Some sz | Unmeasured _ _ \<Rightarrow> None)"

definition item_size_hint :: "('u, 'f) list_item \<Rightarrow> 'u bsize option" where
  "item_size_hint self = (case self of Measured sz _ \<Rightarrow> Some sz | Unmeasured size_hint _ \<Rightarrow> size_hint)"

definition item_focus_handle :: "('u, 'f) list_item \<Rightarrow> 'f option" where
  "item_focus_handle self = (case self of Measured _ focus_handle \<Rightarrow> focus_handle | Unmeasured _ focus_handle \<Rightarrow> focus_handle)"

definition list_summary_zero :: "'u::linordered_field list_summary" where
  "list_summary_zero =
     \<lparr>lsm_count = 0, lsm_rendered_count = 0, lsm_unrendered_count = 0, lsm_height = 0,
      lsm_has_focus_handles = False, lsm_has_unknown_height = False\<rparr>"

definition list_add_summary :: "'u::linordered_field list_summary \<Rightarrow> 'u list_summary \<Rightarrow> 'u list_summary" where
  "list_add_summary self summary =
     \<lparr>lsm_count = lsm_count self + lsm_count summary,
      lsm_rendered_count = lsm_rendered_count self + lsm_rendered_count summary,
      lsm_unrendered_count = lsm_unrendered_count self + lsm_unrendered_count summary,
      lsm_height = lsm_height self + lsm_height summary,
      lsm_has_focus_handles = (lsm_has_focus_handles self \<or> lsm_has_focus_handles summary),
      lsm_has_unknown_height = (lsm_has_unknown_height self \<or> lsm_has_unknown_height summary)\<rparr>"

definition list_item_summary :: "('u::linordered_field, 'f) list_item \<Rightarrow> 'u list_summary" where
  "list_item_summary self =
     (case self of
        Unmeasured size_hint focus_handle \<Rightarrow>
          \<lparr>lsm_count = 1, lsm_rendered_count = 0, lsm_unrendered_count = 1,
           lsm_height = (case size_hint of Some sz \<Rightarrow> sz_height sz | None \<Rightarrow> 0),
           lsm_has_focus_handles = (focus_handle \<noteq> None), lsm_has_unknown_height = (size_hint = None)\<rparr>
      | Measured sz focus_handle \<Rightarrow>
          \<lparr>lsm_count = 1, lsm_rendered_count = 1, lsm_unrendered_count = 0, lsm_height = sz_height sz,
           lsm_has_focus_handles = (focus_handle \<noteq> None), lsm_has_unknown_height = False\<rparr>)"

definition list_ops :: "(('u::linordered_field, 'f) list_item, 'u list_summary) item_ops" where
  "list_ops = \<lparr>it_summary = list_item_summary, s_zero = list_summary_zero, s_add = list_add_summary\<rparr>"

definition count_dim :: "('u list_summary, nat) dim_ops" where
  "count_dim = \<lparr>d_zero = 0, d_add = (\<lambda>self summary. self + lsm_count summary)\<rparr>"

definition height_dim :: "('u::linordered_field list_summary, 'u) dim_ops" where
  "height_dim = \<lparr>d_zero = 0, d_add = (\<lambda>self summary. self + lsm_height summary)\<rparr>"

text \<open>The summary is a dimension of itself.\<close>

definition own_dim :: "('u::linordered_field list_summary, 'u list_summary) dim_ops" where
  "own_dim = \<lparr>d_zero = list_summary_zero, d_add = list_add_summary\<rparr>"

definition count_target :: "nat \<Rightarrow> 'u list_summary \<Rightarrow> ordering" where
  "count_target self other = ord_cmp self (lsm_count other)"

definition height_target :: "'u::linordered_field \<Rightarrow> 'u list_summary \<Rightarrow> ordering" where
  "height_target self other = ord_cmp self (lsm_height other)"

section \<open>Following the tail\<close>

definition is_following :: "follow_state \<Rightarrow> bool" where
  "is_following self \<longleftrightarrow> self = Follow_Tail True"

definition has_stopped_following :: "follow_state \<Rightarrow> bool" where
  "has_stopped_following self \<longleftrightarrow> self = Follow_Tail False"

definition start_following :: "follow_state \<Rightarrow> follow_state" where
  "start_following self = (if self = Follow_Tail False then Follow_Tail True else self)"

definition stop_following :: "follow_state \<Rightarrow> follow_state" where
  "stop_following self = (if self = Follow_Tail True then Follow_Tail False else self)"

definition measuring_reset :: "measuring_behavior \<Rightarrow> measuring_behavior" where
  "measuring_reset self = (case self of Measure_All _ \<Rightarrow> Measure_All False | Measure_Visible \<Rightarrow> Measure_Visible)"

section \<open>Reading the state\<close>

definition list_item_count :: "('u, 'f, 'w) list_state \<Rightarrow> nat" where
  "list_item_count self = lsm_count (node_summary (li_items self))"

definition default_bounds :: "'u::linordered_field bounds" where
  "default_bounds = bounds_new (mk_point 0 0) (mk_size 0 0)"

definition default_edges :: "'u::linordered_field edges" where
  "default_edges = \<lparr>ed_top = 0, ed_right = 0, ed_bottom = 0, ed_left = 0\<rparr>"

definition bounds_or_default :: "('u::linordered_field, 'f, 'w) list_state \<Rightarrow> 'u bounds" where
  "bounds_or_default self = (case li_last_layout_bounds self of Some b \<Rightarrow> b | None \<Rightarrow> default_bounds)"

definition padding_or_default :: "('u::linordered_field, 'f, 'w) list_state \<Rightarrow> 'u edges" where
  "padding_or_default self = (case li_last_padding self of Some e \<Rightarrow> e | None \<Rightarrow> default_edges)"

definition logical_scroll_top :: "('u::linordered_field, 'f, 'w) list_state \<Rightarrow> 'u list_offset" where
  "logical_scroll_top self =
     (case li_logical_scroll_top self of
        Some pos \<Rightarrow> pos
      | None \<Rightarrow> (case li_alignment self of
            Align_Top \<Rightarrow> \<lparr>lo_item_ix = 0, lo_offset_in_item = 0\<rparr>
          | Align_Bottom \<Rightarrow> \<lparr>lo_item_ix = list_item_count self, lo_offset_in_item = 0\<rparr>))"

definition scroll_top :: "('u::linordered_field, 'f, 'w) list_state \<Rightarrow> 'u list_offset \<Rightarrow> 'u" where
  "scroll_top self pos =
     (case tree_find own_dim (count_target (lo_item_ix pos)) Right (li_items self) of
        (start, _) \<Rightarrow> lsm_height start + lo_offset_in_item pos)"

definition max_scroll_offset :: "('u::linordered_field, 'f, 'w) list_state \<Rightarrow> 'u" where
  "max_scroll_offset self = (
     let height = (case li_scrollbar_drag_start_height self of Some h \<Rightarrow> h | None \<Rightarrow> lsm_height (node_summary (li_items self))) in
     max (height - sz_height (bn_size (bounds_or_default self))) 0)"

definition is_scrolled_to_end :: "('u::linordered_field, 'f, 'w) list_state \<Rightarrow> bool option" where
  "is_scrolled_to_end self =
     (case li_last_layout_bounds self of
        None \<Rightarrow> None
      | Some b \<Rightarrow> (
          let summary = node_summary (li_items self) in
          if lsm_has_unknown_height summary then None
          else (
            let padding = padding_or_default self;
                content_height = lsm_height summary + ed_top padding + ed_bottom padding;
                scroll_max = max (content_height - sz_height (bn_size b)) 0 in
            if scroll_max \<le> 0 then None else Some (scroll_top self (logical_scroll_top self) \<ge> scroll_max))))"

definition is_following_tail :: "('u, 'f, 'w) list_state \<Rightarrow> bool" where
  "is_following_tail self \<longleftrightarrow> li_follow_state self = Follow_Tail True"

definition is_scrollbar_dragging :: "('u, 'f, 'w) list_state \<Rightarrow> bool" where
  "is_scrollbar_dragging self \<longleftrightarrow> li_scrollbar_drag_start_height self \<noteq> None"

definition viewport_bounds :: "('u::linordered_field, 'f, 'w) list_state \<Rightarrow> 'u bounds" where
  "viewport_bounds self = bounds_or_default self"

definition max_offset_for_scrollbar :: "('u::linordered_field, 'f, 'w) list_state \<Rightarrow> 'u point" where
  "max_offset_for_scrollbar self = mk_point 0 (max_scroll_offset self)"

definition scroll_px_offset_for_scrollbar :: "('u::linordered_field, 'f, 'w) list_state \<Rightarrow> 'u point rust" where
  "scroll_px_offset_for_scrollbar self =
     (if li_logical_scroll_top self = None \<and> li_alignment self = Align_Bottom then ret (mk_point 0 (- max_scroll_offset self))
      else do {
        let pos = logical_scroll_top self;
        (summary, _) \<leftarrow> cursor_summary own_dim own_dim (count_target (lo_item_ix pos)) Right (cursor_new own_dim (li_items self));
        let offset = lsm_height summary + lo_offset_in_item pos;
        ret (mk_point 0 (- offset)) })"

definition bounds_for_item :: "('u::linordered_field, 'f, 'w) list_state \<Rightarrow> nat \<Rightarrow> 'u bounds option rust" where
  "bounds_for_item self ix = (
     let b = bounds_or_default self; pos = logical_scroll_top self; dim = dimensions count_dim height_dim unit_dim in
     if ix < lo_item_ix pos then ret None
     else do {
       (_, cursor) \<leftarrow> seek dim (dimensions_target (ord_target (lo_item_ix pos))) Right (cursor_new dim (li_items self));
       let top_px = fst (snd (cursor_start cursor)) + lo_offset_in_item pos;
       (_, cursor) \<leftarrow> seek_forward dim (dimensions_target (ord_target ix)) Right cursor;
       found \<leftarrow> cursor_item cursor;
       ret (case found of
          Some (Measured sz _) \<Rightarrow> (case cursor_start cursor of (count, item_top, _) \<Rightarrow>
            if count = ix then (
              let item_top = bounds_top b + item_top - top_px in
              Some (from_corners (mk_point (bounds_left b) item_top) (mk_point (bounds_right b) (item_top + sz_height sz))))
            else None)
        | _ \<Rightarrow> None) })"

definition item_is_above_viewport :: "('u::linordered_field, 'f, 'w) list_state \<Rightarrow> nat \<Rightarrow> bool option rust" where
  "item_is_above_viewport self ix =
     (case li_last_layout_bounds self of
        None \<Rightarrow> ret None
      | Some viewport \<Rightarrow>
          if ix < lo_item_ix (logical_scroll_top self) then ret (Some True)
          else do {
            found \<leftarrow> bounds_for_item self ix;
            ret (map_option (\<lambda>item_bounds. bounds_bottom item_bounds \<le> bounds_top viewport) found) })"

definition item_is_below_viewport :: "('u::linordered_field, 'f, 'w) list_state \<Rightarrow> nat \<Rightarrow> bool option rust" where
  "item_is_below_viewport self ix =
     (case li_last_layout_bounds self of
        None \<Rightarrow> ret None
      | Some viewport \<Rightarrow>
          if ix < lo_item_ix (logical_scroll_top self) then ret (Some False)
          else do {
            found \<leftarrow> bounds_for_item self ix;
            ret (map_option (\<lambda>item_bounds. bounds_top item_bounds \<ge> bounds_bottom viewport) found) })"

section \<open>Replacing and remeasuring items\<close>

text \<open>The walk of \<open>SumTree::iter\<close> over a whole tree.\<close>

abbreviation iter_items :: "('t, 's) sum_tree \<Rightarrow> 't list rust" where
  "iter_items t \<equiv> iter_collect (weight t) (iter_new t)"

definition splice_focusable ::
  "nat \<times> nat \<Rightarrow> 'f option list \<Rightarrow> ('u::linordered_field, 'f, 'w) list_state \<Rightarrow> ('u, 'f, 'w) list_state rust" where
  "splice_focusable old_range focus_handles self = do {
     (new_items, old_items) \<leftarrow> slice list_ops count_dim (ord_target (fst old_range)) Right (cursor_new count_dim (li_items self));
     (_, old_items) \<leftarrow> seek_forward count_dim (ord_target (snd old_range)) Right old_items;
     let spliced_count = length focus_handles;
     new_items \<leftarrow> tree_extend list_ops new_items (map (Unmeasured None) focus_handles);
     (rest, _) \<leftarrow> suffix list_ops count_dim old_items;
     new_items \<leftarrow> append_tree list_ops new_items rest;
     pos \<leftarrow> (case li_logical_scroll_top self of
         None \<Rightarrow> ret None
       | Some pos \<Rightarrow>
           if fst old_range \<le> lo_item_ix pos \<and> lo_item_ix pos < snd old_range
           then ret (Some \<lparr>lo_item_ix = fst old_range, lo_offset_in_item = 0\<rparr>)
           else if snd old_range \<le> lo_item_ix pos then do {
             removed \<leftarrow> checked_minus (snd old_range) (fst old_range);
             kept \<leftarrow> checked_minus (lo_item_ix pos) removed;
             ret (Some (pos\<lparr>lo_item_ix := kept + spliced_count\<rparr>)) }
           else ret (Some pos));
     ret (self\<lparr>li_items := new_items, li_logical_scroll_top := pos\<rparr>) }"

definition list_splice ::
  "nat \<times> nat \<Rightarrow> nat \<Rightarrow> ('u::linordered_field, 'f, 'w) list_state \<Rightarrow> ('u, 'f, 'w) list_state rust" where
  "list_splice old_range count self = splice_focusable old_range (replicate count None) self"

definition list_new :: "nat \<Rightarrow> list_alignment \<Rightarrow> 'u \<Rightarrow> ('u::linordered_field, 'f, 'w) list_state rust" where
  "list_new item_count alignment overdraw = list_splice (0, 0) item_count
     \<lparr>li_last_layout_bounds = None, li_last_padding = None, li_items = new_tree list_ops, li_logical_scroll_top = None,
      li_alignment = alignment, li_overdraw = overdraw, li_reset = False, li_scroll_handler = None,
      li_scrollbar_drag_start_height = None, li_measuring_behavior = Measure_Visible, li_pending_scroll = None,
      li_follow_state = Follow_Normal\<rparr>"

definition measure_all :: "('u, 'f, 'w) list_state \<Rightarrow> ('u, 'f, 'w) list_state" where
  "measure_all self = self\<lparr>li_measuring_behavior := Measure_All False\<rparr>"

definition apply_uniform_item_height :: "'u \<Rightarrow> ('u::linordered_field, 'f, 'w) list_state \<Rightarrow> ('u, 'f, 'w) list_state rust" where
  "apply_uniform_item_height height self = do {
     let size_hint = mk_size 0 height;
     items \<leftarrow> iter_items (li_items self);
     let new_items = map (\<lambda>item. Unmeasured (Some (case item_size_hint item of Some sz \<Rightarrow> sz | None \<Rightarrow> size_hint)) (item_focus_handle item)) items;
     tree \<leftarrow> tree_extend list_ops (new_tree list_ops) new_items;
     ret (self\<lparr>li_items := tree\<rparr>) }"

definition list_reset :: "nat \<Rightarrow> ('u::linordered_field, 'f, 'w) list_state \<Rightarrow> ('u, 'f, 'w) list_state rust" where
  "list_reset element_count self = (
     let self = self\<lparr>li_reset := True, li_measuring_behavior := measuring_reset (li_measuring_behavior self),
                     li_logical_scroll_top := None, li_pending_scroll := None, li_scrollbar_drag_start_height := None\<rparr> in
     list_splice (0, list_item_count self) element_count self)"

definition reset_with_uniform_height :: "nat \<Rightarrow> 'u \<Rightarrow> ('u::linordered_field, 'f, 'w) list_state \<Rightarrow> ('u, 'f, 'w) list_state rust" where
  "reset_with_uniform_height element_count height self = do {
     self \<leftarrow> list_reset element_count self;
     apply_uniform_item_height height self }"

definition with_uniform_item_height :: "'u \<Rightarrow> ('u::linordered_field, 'f, 'w) list_state \<Rightarrow> ('u, 'f, 'w) list_state rust" where
  "with_uniform_item_height height self = apply_uniform_item_height height self"

definition set_scroll_handler :: "(list_scroll_event \<Rightarrow> 'w \<Rightarrow> 'w) \<Rightarrow> ('u, 'f, 'w) list_state \<Rightarrow> ('u, 'f, 'w) list_state" where
  "set_scroll_handler handler self = self\<lparr>li_scroll_handler := Some handler\<rparr>"

text \<open>\<open>(offset / height).clamp(0, 1)\<close>.\<close>

definition clamped_fraction :: "'u::linordered_field \<Rightarrow> 'u \<Rightarrow> 'u" where
  "clamped_fraction offset height = min (max (offset / height) 0) 1"

definition pending_for_remeasure ::
  "scroll_anchor \<Rightarrow> 'u list_offset \<Rightarrow> ('u::linordered_field, 'f, 'w) list_state \<Rightarrow> 'u pending_scroll option rust" where
  "pending_for_remeasure scroll_anchor pos self =
     (case scroll_anchor of
        Anchor_Absolute \<Rightarrow> ret (Some (Pending_Absolute (lo_item_ix pos) (lo_offset_in_item pos)))
      | Anchor_Proportional \<Rightarrow> do {
          (_, cursor) \<leftarrow> seek count_dim (ord_target (lo_item_ix pos)) Right (cursor_new count_dim (li_items self));
          found \<leftarrow> cursor_item cursor;
          ret (case Option.bind found item_size of
             Some sz \<Rightarrow> Some (Pending_Proportional (lo_item_ix pos)
               (if sz_height sz > 0 then clamped_fraction (lo_offset_in_item pos) (sz_height sz) else 0))
           | None \<Rightarrow> li_pending_scroll self) })"

definition remeasure_items_with_scroll_anchor ::
  "nat \<times> nat \<Rightarrow> scroll_anchor \<Rightarrow> ('u::linordered_field, 'f, 'w) list_state \<Rightarrow> ('u, 'f, 'w) list_state rust" where
  "remeasure_items_with_scroll_anchor ix_range scroll_anchor self = do {
     pending \<leftarrow> (case li_logical_scroll_top self of
         Some pos \<Rightarrow>
           if fst ix_range \<le> lo_item_ix pos \<and> lo_item_ix pos < snd ix_range then pending_for_remeasure scroll_anchor pos self
           else ret (li_pending_scroll self)
       | None \<Rightarrow> ret (li_pending_scroll self));
     (new_items, cursor) \<leftarrow> slice list_ops count_dim (ord_target (fst ix_range)) Right (cursor_new count_dim (li_items self));
     (invalidated, cursor) \<leftarrow> slice list_ops count_dim (ord_target (snd ix_range)) Right cursor;
     items \<leftarrow> iter_items invalidated;
     new_items \<leftarrow> tree_extend list_ops new_items (map (\<lambda>item. Unmeasured (item_size_hint item) (item_focus_handle item)) items);
     (rest, _) \<leftarrow> suffix list_ops count_dim cursor;
     new_items \<leftarrow> append_tree list_ops new_items rest;
     ret (self\<lparr>li_pending_scroll := pending, li_items := new_items,
               li_measuring_behavior := measuring_reset (li_measuring_behavior self)\<rparr>) }"

definition remeasure :: "('u::linordered_field, 'f, 'w) list_state \<Rightarrow> ('u, 'f, 'w) list_state rust" where
  "remeasure self = remeasure_items_with_scroll_anchor (0, list_item_count self) Anchor_Proportional self"

definition remeasure_items :: "nat \<times> nat \<Rightarrow> ('u::linordered_field, 'f, 'w) list_state \<Rightarrow> ('u, 'f, 'w) list_state rust" where
  "remeasure_items ix_range self = remeasure_items_with_scroll_anchor ix_range Anchor_Absolute self"

section \<open>Scrolling\<close>

definition rebase_pending_scroll ::
  "'u list_offset \<Rightarrow> ('u::linordered_field, 'f, 'w) list_state \<Rightarrow> ('u, 'f, 'w) list_state rust" where
  "rebase_pending_scroll pos self =
     (case li_pending_scroll self of
        None \<Rightarrow> ret self
      | Some pending \<Rightarrow> (
          let self = self\<lparr>li_pending_scroll := None\<rparr> in
          if lo_item_ix pos \<ge> list_item_count self then ret self
          else (case pending of
              Pending_Absolute _ _ \<Rightarrow> ret (self\<lparr>li_pending_scroll := Some (Pending_Absolute (lo_item_ix pos) (lo_offset_in_item pos))\<rparr>)
            | Pending_Proportional _ _ \<Rightarrow> do {
                (_, cursor) \<leftarrow> seek count_dim (ord_target (lo_item_ix pos)) Right (cursor_new count_dim (li_items self));
                found \<leftarrow> cursor_item cursor;
                ret (self\<lparr>li_pending_scroll := (case Option.bind found item_size_hint of
                    Some sz \<Rightarrow>
                      if sz_height sz > 0 then Some (Pending_Proportional (lo_item_ix pos) (clamped_fraction (lo_offset_in_item pos) (sz_height sz)))
                      else None
                  | None \<Rightarrow> None)\<rparr>) })))"

definition set_scroll_top :: "'u list_offset \<Rightarrow> ('u::linordered_field, 'f, 'w) list_state \<Rightarrow> ('u, 'f, 'w) list_state rust" where
  "set_scroll_top pos self = do {
     self \<leftarrow> rebase_pending_scroll pos self;
     ret (self\<lparr>li_logical_scroll_top := Some pos\<rparr>) }"

definition scroll_by :: "'u \<Rightarrow> ('u::linordered_field, 'f, 'w) list_state \<Rightarrow> ('u, 'f, 'w) list_state rust" where
  "scroll_by distance self =
     (if distance = 0 then ret self
      else do {
        let current = logical_scroll_top self;
        let self = (if distance < 0 then self\<lparr>li_follow_state := stop_following (li_follow_state self)\<rparr> else self);
        (_, cursor) \<leftarrow> seek own_dim (count_target (lo_item_ix current)) Right (cursor_new own_dim (li_items self));
        let start_pixel_offset = lsm_height (cursor_start cursor) + lo_offset_in_item current;
        let new_pixel_offset = max (start_pixel_offset + distance) 0;
        (_, cursor) \<leftarrow> (if new_pixel_offset > start_pixel_offset
            then seek_forward own_dim (height_target new_pixel_offset) Right cursor
            else seek own_dim (height_target new_pixel_offset) Right cursor);
        set_scroll_top \<lparr>lo_item_ix = lsm_count (cursor_start cursor),
                        lo_offset_in_item = new_pixel_offset - lsm_height (cursor_start cursor)\<rparr> self })"

definition scroll_to_end :: "('u::linordered_field, 'f, 'w) list_state \<Rightarrow> ('u, 'f, 'w) list_state" where
  "scroll_to_end self =
     self\<lparr>li_pending_scroll := None, li_logical_scroll_top := Some \<lparr>lo_item_ix = list_item_count self, lo_offset_in_item = 0\<rparr>\<rparr>"

definition set_follow_mode :: "follow_mode \<Rightarrow> ('u::linordered_field, 'f, 'w) list_state \<Rightarrow> ('u, 'f, 'w) list_state" where
  "set_follow_mode mode self =
     (case mode of
        Mode_Normal \<Rightarrow> self\<lparr>li_follow_state := Follow_Normal\<rparr>
      | Mode_Tail \<Rightarrow> self\<lparr>li_follow_state := Follow_Tail True,
                          li_logical_scroll_top := Some \<lparr>lo_item_ix = list_item_count self, lo_offset_in_item = 0\<rparr>\<rparr>)"

definition scroll_to :: "'u list_offset \<Rightarrow> ('u::linordered_field, 'f, 'w) list_state \<Rightarrow> ('u, 'f, 'w) list_state rust" where
  "scroll_to pos self = (
     let item_count = list_item_count self;
         pos = (if lo_item_ix pos \<ge> item_count then \<lparr>lo_item_ix = item_count, lo_offset_in_item = 0\<rparr> else pos);
         self = (if lo_item_ix pos < item_count then self\<lparr>li_follow_state := stop_following (li_follow_state self)\<rparr> else self) in
     set_scroll_top pos self)"

definition scroll_to_reveal_item :: "nat \<Rightarrow> ('u::linordered_field, 'f, 'w) list_state \<Rightarrow> ('u, 'f, 'w) list_state rust" where
  "scroll_to_reveal_item ix self = do {
     let pos = logical_scroll_top self;
     let height = (case li_last_layout_bounds self of Some b \<Rightarrow> sz_height (bn_size b) | None \<Rightarrow> 0);
     let padding = padding_or_default self;
     pos \<leftarrow> (if ix \<le> lo_item_ix pos then ret \<lparr>lo_item_ix = ix, lo_offset_in_item = 0\<rparr>
       else do {
         (_, cursor) \<leftarrow> seek own_dim (count_target (ix + 1)) Right (cursor_new own_dim (li_items self));
         let bottom = lsm_height (cursor_start cursor) + ed_top padding;
         let goal_top = max 0 (bottom - height + ed_bottom padding);
         (_, cursor) \<leftarrow> seek own_dim (height_target goal_top) Left cursor;
         let start_ix = lsm_count (cursor_start cursor);
         let start_item_top = lsm_height (cursor_start cursor);
         ret (if start_ix \<ge> lo_item_ix pos then \<lparr>lo_item_ix = start_ix, lo_offset_in_item = goal_top - start_item_top\<rparr> else pos) });
     set_scroll_top pos self }"

definition scrollbar_drag_started :: "('u, 'f, 'w) list_state \<Rightarrow> ('u, 'f, 'w) list_state" where
  "scrollbar_drag_started self = self\<lparr>li_scrollbar_drag_start_height := Some (lsm_height (node_summary (li_items self)))\<rparr>"

definition scrollbar_drag_ended :: "('u, 'f, 'w) list_state \<Rightarrow> ('u, 'f, 'w) list_state" where
  "scrollbar_drag_ended self = self\<lparr>li_scrollbar_drag_start_height := None\<rparr>"

definition visible_range ::
  "(('u::linordered_field, 'f) list_item, 'u list_summary) sum_tree \<Rightarrow> 'u \<Rightarrow> 'u list_offset \<Rightarrow> (nat \<times> nat) rust" where
  "visible_range items height pos = do {
     (_, cursor) \<leftarrow> seek own_dim (count_target (lo_item_ix pos)) Right (cursor_new own_dim items);
     let start_y = lsm_height (cursor_start cursor) + lo_offset_in_item pos;
     (_, cursor) \<leftarrow> seek_forward own_dim (height_target (start_y + height)) Left cursor;
     ret (lo_item_ix pos, lsm_count (cursor_start cursor) + 1) }"

text \<open>Where the list scrolls to when the pixels above the viewport are known; common to \<open>scroll\<close> and \<open>set_offset_from_scrollbar\<close>.\<close>

definition scroll_to_px :: "'u \<Rightarrow> 'u \<Rightarrow> ('u::linordered_field, 'f, 'w) list_state \<Rightarrow> ('u, 'f, 'w) list_state rust" where
  "scroll_to_px new_scroll_top scroll_max self =
     (if li_alignment self = Align_Bottom \<and> new_scroll_top = scroll_max
      then ret (self\<lparr>li_pending_scroll := None, li_logical_scroll_top := None\<rparr>)
      else (case tree_find own_dim (height_target new_scroll_top) Right (li_items self) of
          (start, _) \<Rightarrow> set_scroll_top \<lparr>lo_item_ix = lsm_count start, lo_offset_in_item = new_scroll_top - lsm_height start\<rparr> self))"

text \<open>\<open>scroll\<close>; \<open>notify\<close> is \<open>cx.notify(current_view)\<close>.\<close>

definition list_scroll ::
  "('w \<Rightarrow> 'w) \<Rightarrow> 'u list_offset \<Rightarrow> 'u \<Rightarrow> 'u point \<Rightarrow> ('u::linordered_field, 'f, 'w) list_state \<Rightarrow> 'w \<Rightarrow> (('u, 'f, 'w) list_state \<times> 'w) rust" where
  "list_scroll notify pos height delta self window =
     (if li_reset self then ret (self, window)
      else do {
        let padding = padding_or_default self;
        let scroll_max = max (lsm_height (node_summary (li_items self)) + ed_top padding + ed_bottom padding - height) 0;
        let new_scroll_top = min (max (scroll_top self pos - pt_y delta) 0) scroll_max;
        self \<leftarrow> scroll_to_px new_scroll_top scroll_max self;
        let self = (if pt_y delta > 0 then self\<lparr>li_follow_state := stop_following (li_follow_state self)\<rparr> else self);
        (case li_scroll_handler self of
           None \<Rightarrow> ret (self, notify window)
         | Some handler \<Rightarrow> do {
             ix_range \<leftarrow> visible_range (li_items self) height pos;
             ret (self, notify (handler \<lparr>ev_visible_range = ix_range, ev_count = list_item_count self,
               ev_is_scrolled = (li_logical_scroll_top self \<noteq> None), ev_is_following_tail = (li_follow_state self = Follow_Tail True)\<rparr> window)) }) })"

definition set_offset_from_scrollbar :: "'u point \<Rightarrow> ('u::linordered_field, 'f, 'w) list_state \<Rightarrow> ('u, 'f, 'w) list_state rust" where
  "set_offset_from_scrollbar point self =
     (case li_last_layout_bounds self of
        None \<Rightarrow> ret self
      | Some b \<Rightarrow> (
          let height = sz_height (bn_size b);
              padding = padding_or_default self;
              content_height = (case li_scrollbar_drag_start_height self of Some h \<Rightarrow> h | None \<Rightarrow> lsm_height (node_summary (li_items self)));
              scroll_max = max (content_height + ed_top padding + ed_bottom padding - height) 0;
              new_scroll_top = min (max (- pt_y point) 0) scroll_max;
              dragged_to_end = (scroll_max > 0 \<and> new_scroll_top \<ge> max (scroll_max - 1) 0) in
          if dragged_to_end \<and> li_follow_state self \<noteq> Follow_Normal then
            ret (self\<lparr>li_follow_state := Follow_Tail True, li_pending_scroll := None,
                      li_logical_scroll_top := Some \<lparr>lo_item_ix = list_item_count self, lo_offset_in_item = 0\<rparr>\<rparr>)
          else scroll_to_px new_scroll_top scroll_max (self\<lparr>li_follow_state := stop_following (li_follow_state self)\<rparr>)))"

end
