(* ===== verification/List_Layout.thy ===== *)
theory List_Layout
  imports List_State
begin

text \<open>
  The layout of a list element, \<open>layout_all_items\<close>, \<open>layout_items\<close> and \<open>prepaint_items\<close> of \<open>gpui/src/elements/list.rs\<close>. The loops
  walk with a cursor and have the weight of the tree as fuel. One definition stands for each loop and each stretch between loops.
\<close>

section \<open>What the list calls\<close>

datatype 'u available_space = Definite 'u | Min_Content | Max_Content

text \<open>
  \<open>cl_prepaint_at\<close> includes the content mask it is called under; \<open>cl_rollback before now\<close> is what \<open>Window::transact\<close> leaves of
  the window when its closure fails.
\<close>

record ('u, 'f, 'e, 'w) list_client =
  cl_render_item :: "nat \<Rightarrow> 'w \<Rightarrow> 'e \<times> 'w"
  cl_layout_as_root :: "'u available_space bsize \<Rightarrow> 'e \<Rightarrow> 'w \<Rightarrow> 'u bsize \<times> 'e \<times> 'w"
  cl_contains_focused :: "'f \<Rightarrow> 'w \<Rightarrow> bool"
  cl_prepaint_at :: "'u bounds \<Rightarrow> 'u point \<Rightarrow> 'e \<Rightarrow> 'w \<Rightarrow> 'e \<times> 'w"
  cl_take_autoscroll :: "'w \<Rightarrow> 'u bounds option \<times> 'w"
  cl_rollback :: "'w \<Rightarrow> 'w \<Rightarrow> 'w"

record ('u, 'e) item_layout =
  il_index :: nat
  il_element :: 'e
  il_size :: "'u bsize"

record ('u, 'e) layout_response =
  lr_max_item_width :: 'u
  lr_scroll_top :: "'u list_offset"
  lr_item_layouts :: "('u, 'e) item_layout list"

text \<open>\<open>render_item\<close> and then \<open>layout_as_root\<close>.\<close>

definition measure_item ::
  "('u, 'f, 'e, 'w) list_client \<Rightarrow> 'u available_space bsize \<Rightarrow> nat \<Rightarrow> 'w \<Rightarrow> ('u, 'e) item_layout \<times> 'w" where
  "measure_item client space ix window =
     (case cl_render_item client ix window of (element, window) \<Rightarrow>
      case cl_layout_as_root client space element window of (sz, element, window) \<Rightarrow>
        (\<lparr>il_index = ix, il_element = element, il_size = sz\<rparr>, window))"

definition contains_focused :: "('u, 'f, 'e, 'w) list_client \<Rightarrow> 'w \<Rightarrow> ('u, 'f) list_item \<Rightarrow> bool" where
  "contains_focused client window item =
     (case item_focus_handle item of Some handle \<Rightarrow> cl_contains_focused client handle window | None \<Rightarrow> False)"

section \<open>Measuring all items\<close>

fun measure_all_loop ::
  "('u, 'f, 'e, 'w) list_client \<Rightarrow> 'u available_space bsize \<Rightarrow> nat \<Rightarrow> nat \<Rightarrow> (('u, 'f) list_item, 'u list_summary, nat) cursor \<Rightarrow> 'w \<Rightarrow>
   (('u, 'f) list_item list \<times> 'w) rust" where
  "measure_all_loop client space 0 ix cursor window = panic"
| "measure_all_loop client space (Suc n) ix cursor window = do {
     (found, cursor) \<leftarrow> cursor_iter_next count_dim cursor;
     (case found of
        None \<Rightarrow> ret ([], window)
      | Some item \<Rightarrow> do {
          let (sz, window) = (case item_size item of Some sz \<Rightarrow> (sz, window)
            | None \<Rightarrow> (case measure_item client space ix window of (layout, window) \<Rightarrow> (il_size layout, window)));
          (rest, window) \<leftarrow> measure_all_loop client space n (ix + 1) cursor window;
          ret (Measured sz (item_focus_handle item) # rest, window) }) }"

definition layout_all_items ::
  "('u::linordered_field, 'f, 'e, 'w) list_client \<Rightarrow> 'u \<Rightarrow> ('u, 'f, 'w) list_state \<Rightarrow> 'w \<Rightarrow> (('u, 'f, 'w) list_state \<times> 'w) rust" where
  "layout_all_items client available_width self window =
     (if li_measuring_behavior self \<noteq> Measure_All False then ret (self, window)
      else do {
        let self = self\<lparr>li_measuring_behavior := Measure_All True\<rparr>;
        let space = mk_size (Definite available_width) Min_Content;
        (measured_items, window) \<leftarrow>
          measure_all_loop client space (weight (li_items self)) 0 (cursor_new count_dim (li_items self)) window;
        items \<leftarrow> from_iter list_ops measured_items;
        ret (self\<lparr>li_items := items\<rparr>, window) })"

section \<open>Layout of the visible items\<close>

text \<open>The variables of \<open>layout_items\<close> that its loops change, and the state of the list.\<close>

record ('u, 'f, 'e, 'w) layout_progress =
  lp_state :: "('u, 'f, 'w) list_state"
  lp_window :: 'w
  lp_measured_items :: "('u, 'f) list_item list"
  lp_item_layouts :: "('u, 'e) item_layout list"
  lp_rendered_height :: 'u
  lp_max_item_width :: 'u
  lp_scroll_top :: "'u list_offset"
  lp_rendered_focused_item :: bool

text \<open>The pending scroll is taken when the first item is measured, and applied when it is for that item.\<close>

definition apply_pending_scroll ::
  "'u bsize \<Rightarrow> ('u::linordered_field, 'f, 'e, 'w) layout_progress \<Rightarrow> ('u, 'f, 'e, 'w) layout_progress" where
  "apply_pending_scroll element_size self = (
     let state = lp_state self; pos = lp_scroll_top self;
         scrolled = (\<lambda>offset. let pos = pos\<lparr>lo_offset_in_item := offset\<rparr> in
           self\<lparr>lp_scroll_top := pos, lp_state := state\<lparr>li_pending_scroll := None, li_logical_scroll_top := Some pos\<rparr>\<rparr>);
         unscrolled = self\<lparr>lp_state := state\<lparr>li_pending_scroll := None\<rparr>\<rparr> in
     case li_pending_scroll state of
       None \<Rightarrow> self
     | Some (Pending_Absolute item_ix offset) \<Rightarrow>
         if item_ix = lo_item_ix pos then scrolled (min offset (sz_height element_size)) else unscrolled
     | Some (Pending_Proportional item_ix fraction) \<Rightarrow>
         if item_ix = lo_item_ix pos then scrolled (fraction * sz_height element_size) else unscrolled)"

text \<open>One item below the scroll top, the \<open>ix\<close>th: whether it is visible and rendered, only measured, or its cached size is used.\<close>

definition render_item_after ::
  "('u::linordered_field, 'f, 'e, 'w) list_client \<Rightarrow> 'u available_space bsize \<Rightarrow> 'u \<Rightarrow> nat \<Rightarrow> ('u, 'f) list_item \<Rightarrow>
   ('u, 'f, 'e, 'w) layout_progress \<Rightarrow> ('u, 'f, 'e, 'w) layout_progress rust" where
  "render_item_after client space available_height ix item self = do {
     let visible_height = lp_rendered_height self - lo_offset_in_item (lp_scroll_top self);
     let (size_now, self) =
       (if visible_height < available_height \<or> item_size item = None then (
          let item_index = lo_item_ix (lp_scroll_top self) + ix in
          case measure_item client space item_index (lp_window self) of (layout, window) \<Rightarrow> (
            let self = self\<lparr>lp_window := window\<rparr>;
                self = (if ix = 0 then apply_pending_scroll (il_size layout) self else self);
                self = (if visible_height < available_height
                  then self\<lparr>lp_item_layouts := lp_item_layouts self @ [layout],
                            lp_rendered_focused_item := (lp_rendered_focused_item self \<or> contains_focused client window item)\<rparr>
                  else self) in
            (Some (il_size layout), self)))
        else (item_size item, self));
     sz \<leftarrow> size_now;
     ret (self\<lparr>lp_rendered_height := lp_rendered_height self + sz_height sz,
               lp_max_item_width := max (lp_max_item_width self) (sz_width sz),
               lp_measured_items := lp_measured_items self @ [Measured sz (item_focus_handle item)]\<rparr>) }"

fun render_after_loop ::
  "('u::linordered_field, 'f, 'e, 'w) list_client \<Rightarrow> 'u available_space bsize \<Rightarrow> 'u \<Rightarrow> nat \<Rightarrow> nat \<Rightarrow>
   (('u, 'f) list_item, 'u list_summary, nat) cursor \<Rightarrow> ('u, 'f, 'e, 'w) layout_progress \<Rightarrow> ('u, 'f, 'e, 'w) layout_progress rust" where
  "render_after_loop client space available_height 0 ix cursor self = panic"
| "render_after_loop client space available_height (Suc n) ix cursor self = do {
     (found, cursor) \<leftarrow> cursor_iter_next count_dim cursor;
     (case found of
        None \<Rightarrow> ret self
      | Some item \<Rightarrow>
          if lp_rendered_height self - lo_offset_in_item (lp_scroll_top self) \<ge> available_height + li_overdraw (lp_state self) then ret self
          else do {
            self \<leftarrow> render_item_after client space available_height ix item self;
            render_after_loop client space available_height n (ix + 1) cursor self }) }"

text \<open>Upwards from the scroll top, while the rendered items do not fill the available height.\<close>

fun fill_upward_loop ::
  "('u::linordered_field, 'f, 'e, 'w) list_client \<Rightarrow> 'u available_space bsize \<Rightarrow> 'u \<Rightarrow> nat \<Rightarrow>
   (('u, 'f) list_item, 'u list_summary, nat) cursor \<Rightarrow> ('u, 'f, 'e, 'w) layout_progress \<Rightarrow>
   ((('u, 'f) list_item, 'u list_summary, nat) cursor \<times> ('u, 'f, 'e, 'w) layout_progress) rust" where
  "fill_upward_loop client space available_height 0 cursor self = panic"
| "fill_upward_loop client space available_height (Suc n) cursor self =
     (if lp_rendered_height self < available_height then do {
        cursor \<leftarrow> cursor_prev count_dim cursor;
        found \<leftarrow> cursor_item cursor;
        (case found of
           None \<Rightarrow> ret (cursor, self)
         | Some item \<Rightarrow> (
             case measure_item client space (cursor_start cursor) (lp_window self) of (layout, window) \<Rightarrow>
               fill_upward_loop client space available_height n cursor
                 (self\<lparr>lp_window := window,
                       lp_rendered_height := lp_rendered_height self + sz_height (il_size layout),
                       lp_measured_items := Measured (il_size layout) (item_focus_handle item) # lp_measured_items self,
                       lp_item_layouts := layout # lp_item_layouts self,
                       lp_rendered_focused_item := (lp_rendered_focused_item self \<or> contains_focused client window item)\<rparr>))) }
      else ret (cursor, self))"

definition fill_upward ::
  "('u::linordered_field, 'f, 'e, 'w) list_client \<Rightarrow> 'u available_space bsize \<Rightarrow> 'u \<Rightarrow>
   (('u, 'f) list_item, 'u list_summary, nat) cursor \<Rightarrow> ('u, 'f, 'e, 'w) layout_progress \<Rightarrow>
   ((('u, 'f) list_item, 'u list_summary, nat) cursor \<times> ('u, 'f, 'e, 'w) layout_progress) rust" where
  "fill_upward client space available_height cursor self =
     (if lp_rendered_height self - lo_offset_in_item (lp_scroll_top self) < available_height then do {
        (cursor, self) \<leftarrow> fill_upward_loop client space available_height (weight (c_tree cursor)) cursor self;
        let state = lp_state self;
        let pos = \<lparr>lo_item_ix = cursor_start cursor, lo_offset_in_item = lp_rendered_height self - available_height\<rparr>;
        (case li_alignment state of
           Align_Top \<Rightarrow> (
             let pos = pos\<lparr>lo_offset_in_item := max (lo_offset_in_item pos) 0\<rparr> in
             ret (cursor, self\<lparr>lp_scroll_top := pos, lp_state := state\<lparr>li_logical_scroll_top := Some pos\<rparr>\<rparr>))
         | Align_Bottom \<Rightarrow> ret (cursor, self\<lparr>lp_scroll_top := pos, lp_state := state\<lparr>li_logical_scroll_top := None\<rparr>\<rparr>)) }
      else ret (cursor, self))"

text \<open>The items in the leading overdraw are measured but not laid out.\<close>

fun leading_overdraw_loop ::
  "('u::linordered_field, 'f, 'e, 'w) list_client \<Rightarrow> 'u available_space bsize \<Rightarrow> nat \<Rightarrow> 'u \<Rightarrow>
   (('u, 'f) list_item, 'u list_summary, nat) cursor \<Rightarrow> ('u, 'f, 'e, 'w) layout_progress \<Rightarrow>
   ((('u, 'f) list_item, 'u list_summary, nat) cursor \<times> ('u, 'f, 'e, 'w) layout_progress) rust" where
  "leading_overdraw_loop client space 0 leading_overdraw cursor self = panic"
| "leading_overdraw_loop client space (Suc n) leading_overdraw cursor self =
     (if leading_overdraw < li_overdraw (lp_state self) then do {
        cursor \<leftarrow> cursor_prev count_dim cursor;
        found \<leftarrow> cursor_item cursor;
        (case found of
           None \<Rightarrow> ret (cursor, self)
         | Some item \<Rightarrow> (
             case (case item_size item of
                Some sz \<Rightarrow> (sz, lp_window self)
              | None \<Rightarrow> (case measure_item client space (cursor_start cursor) (lp_window self) of (layout, window) \<Rightarrow> (il_size layout, window)))
             of (sz, window) \<Rightarrow>
               leading_overdraw_loop client space n (leading_overdraw + sz_height sz) cursor
                 (self\<lparr>lp_window := window, lp_measured_items := Measured sz (item_focus_handle item) # lp_measured_items self\<rparr>))) }
      else ret (cursor, self))"

text \<open>The measured items take the place of those from \<open>first_ix\<close> on.\<close>

definition replace_measured ::
  "nat \<Rightarrow> ('u, 'f) list_item list \<Rightarrow> (('u::linordered_field, 'f) list_item, 'u list_summary) sum_tree \<Rightarrow>
   (('u, 'f) list_item, 'u list_summary) sum_tree rust" where
  "replace_measured first_ix measured_items old_items = do {
     (new_items, cursor) \<leftarrow> slice list_ops count_dim (ord_target first_ix) Right (cursor_new count_dim old_items);
     new_items \<leftarrow> tree_extend list_ops new_items measured_items;
     (_, cursor) \<leftarrow> seek count_dim (ord_target (first_ix + length measured_items)) Right cursor;
     (rest, _) \<leftarrow> suffix list_ops count_dim cursor;
     append_tree list_ops new_items rest }"

text \<open>\<open>layout_items\<close> up to the new items.\<close>

definition layout_start :: "('u::linordered_field, 'f, 'w) list_state \<Rightarrow> 'u edges \<Rightarrow> 'w \<Rightarrow> ('u, 'f, 'e, 'w) layout_progress" where
  "layout_start self padding window = (
     let tail = \<lparr>lo_item_ix = list_item_count self, lo_offset_in_item = 0\<rparr>;
         following = is_following (li_follow_state self) in
     \<lparr>lp_state = (if following then self\<lparr>li_logical_scroll_top := Some tail\<rparr> else self), lp_window = window,
      lp_measured_items = [], lp_item_layouts = [], lp_rendered_height = ed_top padding, lp_max_item_width = 0,
      lp_scroll_top = (if following then tail else logical_scroll_top self), lp_rendered_focused_item = False\<rparr>)"

definition layout_visible ::
  "('u::linordered_field, 'f, 'e, 'w) list_client \<Rightarrow> 'u available_space bsize \<Rightarrow> 'u \<Rightarrow> 'u edges \<Rightarrow> ('u, 'f, 'w) list_state \<Rightarrow> 'w \<Rightarrow>
   ('u, 'f, 'e, 'w) layout_progress rust" where
  "layout_visible client space available_height padding self window = do {
     let old_items = li_items self;
     let progress = layout_start self padding window;
     (_, cursor) \<leftarrow> seek count_dim (ord_target (lo_item_ix (lp_scroll_top progress))) Right (cursor_new count_dim old_items);
     progress \<leftarrow> render_after_loop client space available_height (weight old_items) 0 cursor progress;
     let progress = progress\<lparr>lp_rendered_height := lp_rendered_height progress + ed_bottom padding\<rparr>;
     (_, cursor) \<leftarrow> seek count_dim (ord_target (lo_item_ix (lp_scroll_top progress))) Right cursor;
     (cursor, progress) \<leftarrow> fill_upward client space available_height cursor progress;
     (cursor, progress) \<leftarrow> leading_overdraw_loop client space (weight old_items) (lo_offset_in_item (lp_scroll_top progress)) cursor progress;
     new_items \<leftarrow> replace_measured (cursor_start cursor) (lp_measured_items progress) old_items;
     ret (progress\<lparr>lp_state := (lp_state progress)\<lparr>li_items := new_items\<rparr>\<rparr>) }"

text \<open>A list that is back at the bottom follows its tail again.\<close>

definition resume_following ::
  "'u \<Rightarrow> 'u list_offset \<Rightarrow> ('u::linordered_field, 'f, 'w) list_state \<Rightarrow> ('u, 'f, 'w) list_state" where
  "resume_following available_height pos self =
     (if has_stopped_following (li_follow_state self) then (
        let padding = padding_or_default self;
            total_height = lsm_height (node_summary (li_items self)) + ed_top padding + ed_bottom padding in
        if scroll_top self pos + available_height \<ge> total_height - 1
        then self\<lparr>li_follow_state := start_following (li_follow_state self)\<rparr> else self)
      else self)"

text \<open>The item with the focus is laid out also when it is not visible.\<close>

fun focused_item_loop ::
  "('u, 'f, 'e, 'w) list_client \<Rightarrow> 'u available_space bsize \<Rightarrow> nat \<Rightarrow>
   (('u, 'f) list_item, 'u list_summary, nat) cursor \<Rightarrow> 'w \<Rightarrow> (('u, 'e) item_layout list \<times> 'w) rust" where
  "focused_item_loop client space 0 cursor window = panic"
| "focused_item_loop client space (Suc n) cursor window = do {
     found \<leftarrow> cursor_item cursor;
     (case found of
        None \<Rightarrow> ret ([], window)
      | Some item \<Rightarrow>
          if contains_focused client window item
          then (case measure_item client space (cursor_start cursor) window of (layout, window) \<Rightarrow> ret ([layout], window))
          else do {
            cursor \<leftarrow> filter_cursor_next count_dim lsm_has_focus_handles cursor;
            focused_item_loop client space n cursor window }) }"

definition layout_focused ::
  "('u::linordered_field, 'f, 'e, 'w) list_client \<Rightarrow> 'u available_space bsize \<Rightarrow> bool \<Rightarrow> ('u, 'f, 'w) list_state \<Rightarrow> 'w \<Rightarrow>
   (('u, 'e) item_layout list \<times> 'w) rust" where
  "layout_focused client space rendered_focused_item self window =
     (if rendered_focused_item then ret ([], window)
      else do {
        cursor \<leftarrow> filter_cursor_next count_dim lsm_has_focus_handles (cursor_new count_dim (li_items self));
        focused_item_loop client space (weight (li_items self)) cursor window })"

definition layout_items ::
  "('u::linordered_field, 'f, 'e, 'w) list_client \<Rightarrow> 'u option \<Rightarrow> 'u \<Rightarrow> 'u edges \<Rightarrow> ('u, 'f, 'w) list_state \<Rightarrow> 'w \<Rightarrow>
   (('u, 'e) layout_response \<times> ('u, 'f, 'w) list_state \<times> 'w) rust" where
  "layout_items client available_width available_height padding self window = do {
     let space = mk_size (case available_width of Some width \<Rightarrow> Definite width | None \<Rightarrow> Max_Content) Min_Content;
     progress \<leftarrow> layout_visible client space available_height padding self window;
     let self = resume_following available_height (lp_scroll_top progress) (lp_state progress);
     (layouts, window) \<leftarrow> layout_focused client space (lp_rendered_focused_item progress) self (lp_window progress);
     ret (\<lparr>lr_max_item_width = lp_max_item_width progress, lr_scroll_top = lp_scroll_top progress,
           lr_item_layouts = lp_item_layouts progress @ layouts\<rparr>, self, window) }"

section \<open>Prepaint and autoscroll\<close>

text \<open>The size of an item above the one that asked to be scrolled to.\<close>

definition size_above ::
  "('u::linordered_field, 'f, 'e, 'w) list_client \<Rightarrow> 'u bounds \<Rightarrow> nat \<Rightarrow> ('u, 'f) list_item \<Rightarrow> 'w \<Rightarrow> 'u bsize \<times> 'w" where
  "size_above client bounds ix item window =
     (case item_size item of
        Some sz \<Rightarrow> (sz, window)
      | None \<Rightarrow> (case measure_item client (mk_size (Definite (sz_width (bn_size bounds))) Min_Content) ix window of
          (layout, window) \<Rightarrow> (il_size layout, window)))"

text \<open>Into earlier items until the offset is not negative.\<close>

fun autoscroll_above_loop ::
  "('u::linordered_field, 'f, 'e, 'w) list_client \<Rightarrow> 'u bounds \<Rightarrow> nat \<Rightarrow> (('u, 'f) list_item, 'u list_summary, nat) cursor \<Rightarrow>
   'u list_offset \<Rightarrow> 'w \<Rightarrow> ('u list_offset \<times> 'w) rust" where
  "autoscroll_above_loop client bounds 0 cursor pos window = panic"
| "autoscroll_above_loop client bounds (Suc n) cursor pos window =
     (if lo_offset_in_item pos < 0 then do {
        cursor \<leftarrow> cursor_prev count_dim cursor;
        found \<leftarrow> cursor_item cursor;
        (case found of
           None \<Rightarrow> ret (pos\<lparr>lo_offset_in_item := 0\<rparr>, window)
         | Some item \<Rightarrow> (
             case size_above client bounds (cursor_start cursor) item window of (sz, window) \<Rightarrow>
               autoscroll_above_loop client bounds n cursor
                 \<lparr>lo_item_ix = cursor_start cursor, lo_offset_in_item = lo_offset_in_item pos + sz_height sz\<rparr> window)) }
      else ret (pos, window))"

text \<open>Upwards until the available height is filled.\<close>

fun autoscroll_below_loop ::
  "('u::linordered_field, 'f, 'e, 'w) list_client \<Rightarrow> 'u bounds \<Rightarrow> nat \<Rightarrow> (('u, 'f) list_item, 'u list_summary, nat) cursor \<Rightarrow>
   'u \<Rightarrow> 'w \<Rightarrow> ('u list_offset \<times> 'w) rust" where
  "autoscroll_below_loop client bounds 0 cursor height window = panic"
| "autoscroll_below_loop client bounds (Suc n) cursor height window = (
     let done = (\<lambda>cursor. ret (\<lparr>lo_item_ix = cursor_start cursor, lo_offset_in_item = (if height < 0 then - height else 0)\<rparr>, window)) in
     if height > 0 then do {
       cursor \<leftarrow> cursor_prev count_dim cursor;
       found \<leftarrow> cursor_item cursor;
       (case found of
          None \<Rightarrow> done cursor
        | Some item \<Rightarrow> (
            case size_above client bounds (cursor_start cursor) item window of (sz, window) \<Rightarrow>
              autoscroll_below_loop client bounds n cursor (height - sz_height sz) window)) }
     else done cursor)"

text \<open>Where an item that asked for it is scrolled to, if it is not within the bounds.\<close>

definition autoscroll_offset ::
  "('u::linordered_field, 'f, 'e, 'w) list_client \<Rightarrow> 'u bounds \<Rightarrow> 'u edges \<Rightarrow> (('u, 'f) list_item, 'u list_summary) sum_tree \<Rightarrow>
   nat \<Rightarrow> 'u point \<Rightarrow> 'u bounds \<Rightarrow> 'w \<Rightarrow> ('u list_offset option \<times> 'w) rust" where
  "autoscroll_offset client bounds padding items index item_origin autoscroll_bounds window =
     (if bounds_top autoscroll_bounds < bounds_top bounds then (
        let pos = \<lparr>lo_item_ix = index, lo_offset_in_item = bounds_top autoscroll_bounds - pt_y item_origin\<rparr> in
        if lo_offset_in_item pos < 0 then do {
          (_, cursor) \<leftarrow> seek count_dim (ord_target index) Right (cursor_new count_dim items);
          (pos, window) \<leftarrow> autoscroll_above_loop client bounds (weight items) cursor pos window;
          ret (Some pos, window) }
        else ret (Some pos, window))
      else if bounds_bottom autoscroll_bounds > bounds_bottom bounds then do {
        (_, cursor) \<leftarrow> seek count_dim (ord_target index) Right (cursor_new count_dim items);
        let height = sz_height (bn_size bounds) - ed_top padding - ed_bottom padding;
        let height = height - (bounds_bottom autoscroll_bounds - pt_y item_origin);
        (pos, window) \<leftarrow> autoscroll_below_loop client bounds (weight items) cursor height window;
        ret (Some pos, window) }
      else ret (None, window))"

text \<open>The loop over the laid-out items: those that were prepainted, or the offset that was asked for.\<close>

fun prepaint_loop ::
  "('u::linordered_field, 'f, 'e, 'w) list_client \<Rightarrow> 'u bounds \<Rightarrow> 'u edges \<Rightarrow> bool \<Rightarrow> (('u, 'f) list_item, 'u list_summary) sum_tree \<Rightarrow>
   'u point \<Rightarrow> ('u, 'e) item_layout list \<Rightarrow> 'w \<Rightarrow> (('u list_offset + ('u, 'e) item_layout list) \<times> 'w) rust" where
  "prepaint_loop client bounds padding autoscroll items item_origin [] window = ret (Inr [], window)"
| "prepaint_loop client bounds padding autoscroll items item_origin (item # item_layouts) window =
     (case cl_prepaint_at client bounds item_origin (il_element item) window of (element, window) \<Rightarrow>
      case cl_take_autoscroll client window of (request, window) \<Rightarrow> do {
        (pos, window) \<leftarrow> (case request of
            Some autoscroll_bounds \<Rightarrow>
              if autoscroll then autoscroll_offset client bounds padding items (il_index item) item_origin autoscroll_bounds window
              else ret (None, window)
          | None \<Rightarrow> ret (None, window));
        (case pos of
           Some pos \<Rightarrow> ret (Inl pos, window)
         | None \<Rightarrow> do {
             (rest, window) \<leftarrow> prepaint_loop client bounds padding autoscroll items
               (item_origin\<lparr>pt_y := pt_y item_origin + sz_height (il_size item)\<rparr>) item_layouts window;
             ret (map_sum id (\<lambda>done. item\<lparr>il_element := element\<rparr> # done) rest, window) }) })"

definition prepaint_items ::
  "('u::linordered_field, 'f, 'e, 'w) list_client \<Rightarrow> 'u bounds \<Rightarrow> 'u edges \<Rightarrow> bool \<Rightarrow> ('u, 'f, 'w) list_state \<Rightarrow> 'w \<Rightarrow>
   (('u list_offset + ('u, 'e) layout_response) \<times> ('u, 'f, 'w) list_state \<times> 'w) rust" where
  "prepaint_items client bounds padding autoscroll self window_before = do {
     (self, window) \<leftarrow> (if li_measuring_behavior self = Measure_All False
         then layout_all_items client (sz_width (bn_size bounds)) self window_before else ret (self, window_before));
     (response, self, window) \<leftarrow>
       layout_items client (Some (sz_width (bn_size bounds))) (sz_height (bn_size bounds)) padding self window;
     let window = snd (cl_take_autoscroll client window);
     if sz_height (bn_size bounds) > ed_top padding + ed_bottom padding then do {
       let item_origin = point_add (bn_origin bounds) (mk_point 0 (ed_top padding));
       let item_origin = item_origin\<lparr>pt_y := pt_y item_origin - lo_offset_in_item (lr_scroll_top response)\<rparr>;
       (result, window) \<leftarrow> prepaint_loop client bounds padding autoscroll (li_items self) item_origin (lr_item_layouts response) window;
       (case result of
          Inl pos \<Rightarrow> ret (Inl pos, self, cl_rollback client window_before window)
        | Inr layouts \<Rightarrow> ret (Inr (response\<lparr>lr_item_layouts := layouts\<rparr>), self, window)) }
     else ret (Inr (response\<lparr>lr_item_layouts := []\<rparr>), self, window) }"

text \<open>A list of another width forgets the sizes of its items.\<close>

definition forget_sizes_on_resize :: "'u bounds \<Rightarrow> ('u::linordered_field, 'f, 'w) list_state \<Rightarrow> ('u, 'f, 'w) list_state rust" where
  "forget_sizes_on_resize bounds self =
     (if (case li_last_layout_bounds self of None \<Rightarrow> True | Some last_bounds \<Rightarrow> sz_width (bn_size last_bounds) \<noteq> sz_width (bn_size bounds))
      then do {
        items \<leftarrow> iter_items (li_items self);
        new_items \<leftarrow> from_iter list_ops (map (\<lambda>item. Unmeasured None (item_focus_handle item)) items);
        ret (self\<lparr>li_items := new_items, li_measuring_behavior := measuring_reset (li_measuring_behavior self)\<rparr>) }
      else ret self)"

text \<open>\<open>prepaint\<close> of the element, after the hitbox was inserted and the padding computed; an autoscroll request is followed once.\<close>

definition list_prepaint ::
  "('u::linordered_field, 'f, 'e, 'w) list_client \<Rightarrow> 'u bounds \<Rightarrow> 'u edges \<Rightarrow> ('u, 'f, 'w) list_state \<Rightarrow> 'w \<Rightarrow>
   (('u, 'e) layout_response \<times> ('u, 'f, 'w) list_state \<times> 'w) rust" where
  "list_prepaint client bounds padding self window = do {
     self \<leftarrow> forget_sizes_on_resize bounds (self\<lparr>li_reset := False\<rparr>);
     (result, self, window) \<leftarrow> prepaint_items client bounds padding True self window;
     (layout, self, window) \<leftarrow> (case result of
         Inr layout \<Rightarrow> ret (layout, self, window)
       | Inl autoscroll_request \<Rightarrow> do {
           (result, self, window) \<leftarrow>
             prepaint_items client bounds padding False (self\<lparr>li_logical_scroll_top := Some autoscroll_request\<rparr>) window;
           (case result of Inr layout \<Rightarrow> ret (layout, self, window) | Inl _ \<Rightarrow> panic) });
     ret (layout, self\<lparr>li_last_layout_bounds := Some bounds, li_last_padding := Some padding\<rparr>, window) }"

end
