(* ===== verification/List_Items.thy ===== *)
theory List_Items
  imports List_Layout Cursor_Seek Cursor_Backward
begin

text \<open>
  The items of a list as a client of the tree: the laws of its summary and of its dimensions, and where a cursor stops that
  seeks an item by its number or by its height.
\<close>

section \<open>The laws\<close>

interpretation li: summary_laws list_ops
  by unfold_locales (simp_all add: list_ops_def list_summary_zero_def list_add_summary_def add.assoc disj_assoc)

interpretation licount: dimension_laws list_ops count_dim
  by unfold_locales (simp add: count_dim_def list_ops_def list_add_summary_def)

interpretation liown: dimension_laws list_ops own_dim
  by unfold_locales (simp add: own_dim_def list_ops_def list_add_summary_def add.assoc disj_assoc)

interpretation lirows: dimension_laws list_ops "dimensions count_dim height_dim unit_dim"
  by unfold_locales (auto simp: dimensions_def count_dim_def height_dim_def unit_dim_def list_ops_def list_add_summary_def add.assoc)

interpretation litwo: two_dimensions list_ops own_dim own_dim
  by unfold_locales

section \<open>Heights\<close>

definition item_height :: "('u::linordered_field, 'f) list_item \<Rightarrow> 'u" where
  "item_height item = (case item_size_hint item of Some sz \<Rightarrow> sz_height sz | None \<Rightarrow> 0)"

definition px_of :: "('u::linordered_field, 'f) list_item list \<Rightarrow> 'u" where
  "px_of xs = sum_list (map item_height xs)"

definition heights_ok :: "('u::linordered_field, 'f) list_item list \<Rightarrow> bool" where
  "heights_ok xs \<longleftrightarrow> (\<forall>x \<in> set xs. 0 \<le> item_height x)"

lemma px_of_simps [simp]: "px_of [] = 0" "px_of (x # xs) = item_height x + px_of xs" "px_of (xs @ ys) = px_of xs + px_of ys"
  by (simp_all add: px_of_def)

lemma heights_ok_simps [simp]:
  "heights_ok []" "heights_ok (x # xs) \<longleftrightarrow> 0 \<le> item_height x \<and> heights_ok xs" "heights_ok (xs @ ys) \<longleftrightarrow> heights_ok xs \<and> heights_ok ys"
  by (auto simp: heights_ok_def)

lemma px_of_nonneg: "heights_ok xs \<Longrightarrow> 0 \<le> px_of xs"
  by (induction xs) simp_all

lemma heights_ok_take: "heights_ok xs \<Longrightarrow> heights_ok (take n xs)" "heights_ok xs \<Longrightarrow> heights_ok (drop n xs)"
  by (auto simp: heights_ok_def dest: in_set_takeD in_set_dropD)

lemma px_of_split: "px_of (take n xs) + px_of (drop n xs) = px_of xs"
  by (metis append_take_drop_id px_of_simps(3))

lemma px_of_take_le: "heights_ok xs \<Longrightarrow> px_of (take n xs) \<le> px_of xs"
  using px_of_split [of n xs] px_of_nonneg [OF heights_ok_take(2), of xs n] by (metis le_add_same_cancel1)

lemma summary_height [simp]:
  "lsm_height (list_item_summary x) = item_height x" "lsm_count (list_item_summary x) = 1"
  "lsm_has_focus_handles (list_item_summary x) \<longleftrightarrow> item_focus_handle x \<noteq> None"
  by (cases x; simp add: list_item_summary_def item_height_def item_size_hint_def item_focus_handle_def)+

lemma it_summary_list [simp]: "it_summary list_ops = list_item_summary" "s_zero list_ops = list_summary_zero" "s_add list_ops = list_add_summary"
  by (simp_all add: list_ops_def)

lemma dims_list [simp]:
  "d_add count_dim n s = n + lsm_count s" "d_zero count_dim = 0" "d_add height_dim h s = h + lsm_height s" "d_zero height_dim = 0"
  "d_add own_dim a s = list_add_summary a s" "d_zero own_dim = list_summary_zero"
  by (simp_all add: count_dim_def height_dim_def own_dim_def)

lemma add_summary_list [simp]:
  "lsm_count (list_add_summary a b) = lsm_count a + lsm_count b" "lsm_height (list_add_summary a b) = lsm_height a + lsm_height b"
  "lsm_has_focus_handles (list_add_summary a b) \<longleftrightarrow> lsm_has_focus_handles a \<or> lsm_has_focus_handles b"
  by (simp_all add: list_add_summary_def)

lemma zero_summary_list [simp]:
  "lsm_count list_summary_zero = 0" "lsm_height list_summary_zero = 0" "\<not> lsm_has_focus_handles list_summary_zero"
  by (simp_all add: list_summary_zero_def)

section \<open>Positions\<close>

text \<open>The number and the height of the items before a position of any of the dimensions.\<close>

locale list_dimension = dimension_laws ops dim
  for ops :: "(('u::linordered_field, 'f) list_item, 'u list_summary) item_ops" and dim :: "('u list_summary, 'd) dim_ops" +
  fixes number :: "'d \<Rightarrow> nat"
  assumes summary_ops [simp]: "it_summary ops = list_item_summary"
    and number_zero: "number (d_zero dim) = 0" and number_add: "number (d_add dim d s) = number d + lsm_count s"
begin

lemma number_after: "number (dim_after ops dim d xs) = number d + length xs"
  by (induction xs arbitrary: d) (simp_all add: number_add)

lemma number_of: "number (dim_of ops dim xs) = length xs"
  by (simp add: dim_of_def number_after number_zero)

lemma passed_count: "seek_passed ops dim (\<lambda>d. ord_cmp n (number d)) Right d xs = take (n - number d) xs"
proof (induction xs arbitrary: d)
  case (Cons x xs)
  have "past_end Right (ord_cmp n m) \<longleftrightarrow> m \<le> n" for m by (auto simp: past_end_def)
  then show ?case using Cons.IH [of "d_add dim d (list_item_summary x)"]
    by (auto simp: number_add take_Cons' Let_def)
qed simp

lemma stays_up:
  assumes "\<And>d x. x \<in> set xs \<Longrightarrow> stop d \<Longrightarrow> stop (d_add dim d (list_item_summary x))"
  shows "(stop d \<longrightarrow> list_all stop (positions ops dim d xs)) \<and> stays stop (positions ops dim d xs)"
  using assms by (induction xs arbitrary: d) (simp_all add: Let_def)

lemma monotone_count: "monotone_from ops dim (\<lambda>d. ord_cmp n (number d)) d xs"
  unfolding monotone_from_def by (intro conjI stays_up [THEN conjunct2]) (auto simp: in_child_def number_add)

lemma rest_count: "seek_rest ops dim (\<lambda>d. ord_cmp n (number d)) Right d xs = drop (n - number d) xs"
  by (cases "length xs \<le> n - number d") (simp_all add: seek_rest_def passed_count min_def)

lemma seek_count:
  assumes "wf_tree ops (c_tree c)" "node_height (c_tree c) < STACK_CAP"
  shows "\<exists>found c'. seek dim (\<lambda>d. ord_cmp n (number d)) Right c = ret (found, c') \<and> c_tree c' = c_tree c \<and>
    cursor_ok ops dim c' (take n (tree_items (c_tree c))) (drop n (tree_items (c_tree c)))"
  using seek_ok [OF assms, of "\<lambda>d. ord_cmp n (number d)" Right] monotone_count [of n "d_zero dim" "tree_items (c_tree c)"]
  by (auto simp: passed_count rest_count monotone_target_def number_zero)

lemma slice_count:
  assumes "wf_tree ops (c_tree c)" "node_height (c_tree c) < STACK_CAP" "cursor_ready ops dim c pre rest" "length pre \<le> n"
  shows "\<exists>t' c'. slice ops dim (\<lambda>d. ord_cmp n (number d)) Right c = ret (t', c') \<and> wf_tree ops t' \<and>
    tree_items t' = take (n - length pre) rest \<and> c_tree c' = c_tree c \<and>
    cursor_ok ops dim c' (pre @ take (n - length pre) rest) (drop (n - length pre) rest)"
  using slice_ok [OF assms(1-3) monotone_count [of n], of Right] assms(4)
  by (auto simp: passed_count rest_count number_of not_less)

lemma seek_forward_count:
  assumes "wf_tree ops (c_tree c)" "node_height (c_tree c) < STACK_CAP" "cursor_ready ops dim c pre rest" "length pre \<le> n"
  shows "\<exists>found c'. seek_forward dim (\<lambda>d. ord_cmp n (number d)) Right c = ret (found, c') \<and> c_tree c' = c_tree c \<and>
    cursor_ok ops dim c' (pre @ take (n - length pre) rest) (drop (n - length pre) rest)"
  using seek_forward_ok [OF assms(1-3) monotone_count [of n], of Right] assms(4)
  by (auto simp: passed_count rest_count number_of not_less)

lemma find_count:
  assumes "wf_tree ops t" "tree_items t \<noteq> []"
  shows "fst (tree_find dim (\<lambda>d. ord_cmp n (number d)) Right t) = dim_of ops dim (take n (tree_items t))"
proof -
  have "\<not> is_empty t" using assms is_empty_items by blast
  from find_scan [OF assms(1) _ this, of "\<lambda>d. ord_cmp n (number d)" Right] monotone_count [of n "d_zero dim" "tree_items t"] show ?thesis
    by (auto simp: scan_passed monotone_target_def passed_count number_zero dim_of_def split: option.splits)
qed

end

interpretation by_count: list_dimension list_ops count_dim "\<lambda>n. n"
  by unfold_locales simp_all

interpretation by_own: list_dimension list_ops own_dim lsm_count
  by unfold_locales simp_all

interpretation by_rows: list_dimension list_ops "dimensions count_dim height_dim unit_dim" fst
  by unfold_locales (auto simp: dimensions_def)

section \<open>Seeking by number and by height\<close>

text \<open>The targets of the code, as the locale writes them.\<close>

lemma targets_list:
  "ord_target n = (\<lambda>d. ord_cmp n d)" "count_target n = (\<lambda>d. ord_cmp n (lsm_count d))"
  "dimensions_target (ord_target n) = (\<lambda>d. ord_cmp n (fst d))"
  by (auto simp: ord_target_def count_target_def dimensions_target_def)

lemma own_after: "lsm_height (dim_after list_ops own_dim d xs) = lsm_height d + px_of xs"
  by (induction xs arbitrary: d) simp_all

lemma own_of [simp]: "lsm_height (dim_of list_ops own_dim xs) = px_of xs" "lsm_count (dim_of list_ops own_dim xs) = length xs"
  by (simp_all add: dim_of_def own_after by_own.number_after)

lemma count_of [simp]: "dim_of list_ops count_dim xs = length xs"
  using by_count.number_of [of xs] .

lemma list_sums:
  "lsm_count (items_summary list_ops xs) = length xs" "lsm_height (items_summary list_ops xs) = px_of xs"
  "lsm_has_focus_handles (items_summary list_ops xs) \<longleftrightarrow> (\<exists>x \<in> set xs. item_focus_handle x \<noteq> None)"
proof -
  have "lsm_count (foldl list_add_summary d (map list_item_summary xs)) = lsm_count d + length xs \<and>
      lsm_height (foldl list_add_summary d (map list_item_summary xs)) = lsm_height d + px_of xs \<and>
      (lsm_has_focus_handles (foldl list_add_summary d (map list_item_summary xs)) \<longleftrightarrow>
        lsm_has_focus_handles d \<or> (\<exists>x \<in> set xs. item_focus_handle x \<noteq> None))" for d
    by (induction xs arbitrary: d) auto
  then show "lsm_count (items_summary list_ops xs) = length xs" "lsm_height (items_summary list_ops xs) = px_of xs"
    "lsm_has_focus_handles (items_summary list_ops xs) \<longleftrightarrow> (\<exists>x \<in> set xs. item_focus_handle x \<noteq> None)"
    by (simp_all add: items_summary_def sum_s_def)
qed

lemma list_summary_items:
  assumes "wf_tree list_ops t"
  shows "lsm_count (node_summary t) = length (tree_items t)" "lsm_height (node_summary t) = px_of (tree_items t)"
    "lsm_has_focus_handles (node_summary t) \<longleftrightarrow> (\<exists>x \<in> set (tree_items t). item_focus_handle x \<noteq> None)"
  by (simp_all only: li.node_summary_items [OF assms] list_sums)

text \<open>The items before and after the one that a pixel lies in; with \<open>Left\<close> a pixel on an edge belongs to the item above.\<close>

definition row_at :: "bias \<Rightarrow> 'u::linordered_field \<Rightarrow> ('u, 'f) list_item list \<Rightarrow> ('u, 'f) list_item list \<Rightarrow> bool" where
  "row_at b h pre post \<longleftrightarrow> px_of pre \<le> h \<and>
     (post = [] \<or> (if b = Left then h \<le> px_of pre + item_height (hd post) else h < px_of pre + item_height (hd post)))"

lemma monotone_height: "heights_ok xs \<Longrightarrow> monotone_from list_ops own_dim (height_target h) d xs"
  unfolding monotone_from_def
  by (intro conjI by_own.stays_up [THEN conjunct2]) (auto simp: in_child_def height_target_def heights_ok_def)

lemma height_past_end: "past_end b (height_target h d) \<longleftrightarrow> (if b = Left then lsm_height d < h else lsm_height d \<le> h)"
  by (cases b) (auto simp: past_end_def height_target_def)

lemma passed_height:
  assumes "lsm_height d \<le> h"
  shows "lsm_height (dim_after list_ops own_dim d (seek_passed list_ops own_dim (height_target h) b d xs)) \<le> h \<and>
    (seek_rest list_ops own_dim (height_target h) b d xs = [] \<or> (
      let e = lsm_height (dim_after list_ops own_dim d (seek_passed list_ops own_dim (height_target h) b d xs)) +
                item_height (hd (seek_rest list_ops own_dim (height_target h) b d xs)) in
      if b = Left then h \<le> e else h < e))"
  using assms
proof (induction xs arbitrary: d)
  case (Cons x xs)
  have "lsm_height d + item_height x \<le> h" if "past_end b (height_target h (list_add_summary d (list_item_summary x)))"
    using that by (auto simp: height_past_end split: if_splits)
  with Cons.IH [of "list_add_summary d (list_item_summary x)"] Cons.prems show ?case
    by (auto simp: Let_def seek_rest_def height_past_end)
qed (simp add: seek_rest_def)

lemma row_at_passed:
  assumes "px_of pre \<le> h"
  shows "row_at b h (pre @ seek_passed list_ops own_dim (height_target h) b (dim_of list_ops own_dim pre) rest)
    (seek_rest list_ops own_dim (height_target h) b (dim_of list_ops own_dim pre) rest)"
  using passed_height [of "dim_of list_ops own_dim pre" h b rest] assms
  by (auto simp: row_at_def own_after Let_def)

lemma seek_forward_height:
  assumes "wf_tree list_ops (c_tree c)" "node_height (c_tree c) < STACK_CAP" "cursor_ready list_ops own_dim c pre rest"
    and "heights_ok (tree_items (c_tree c))" "px_of pre \<le> h"
  shows "\<exists>found c' pre' post'. seek_forward own_dim (height_target h) b c = ret (found, c') \<and> c_tree c' = c_tree c \<and>
    cursor_ok list_ops own_dim c' (pre @ pre') post' \<and> rest = pre' @ post' \<and> row_at b h (pre @ pre') post'"
proof -
  have "heights_ok rest" using assms(4) ready_items [OF assms(3)] by (metis heights_ok_simps(3))
  with liown.seek_forward_ok [OF assms(1-3) monotone_height, of h b] row_at_passed [OF assms(5), of b rest] assms(5) show ?thesis
    by (fastforce simp: height_target_def not_less seek_passed_rest intro: sym)
qed

lemma seek_height:
  assumes "wf_tree list_ops (c_tree c)" "node_height (c_tree c) < STACK_CAP" "heights_ok (tree_items (c_tree c))" "0 \<le> h"
  shows "\<exists>found c' pre post. seek own_dim (height_target h) b c = ret (found, c') \<and> c_tree c' = c_tree c \<and>
    cursor_ok list_ops own_dim c' pre post \<and> tree_items (c_tree c) = pre @ post \<and> row_at b h pre post"
  using seek_forward_height [of "reset own_dim c" "[]" "tree_items (c_tree c)" h b] assms
  by (fastforce simp: seek_def seek_forward_def)

lemma tree_find_empty:
  assumes "wf_tree list_ops t" "tree_items t = []"
  shows "lsm_count (fst (tree_find own_dim target b t)) = 0" "lsm_height (fst (tree_find own_dim target b t)) = 0"
proof -
  have "is_empty t" using is_empty_items [OF assms(1)] assms(2) by simp
  then obtain s iss where t: "t = Leaf s [] iss" by (cases t) auto
  then have "s = list_summary_zero" "iss = []" using assms(1) by auto
  then show "lsm_count (fst (tree_find own_dim target b t)) = 0" "lsm_height (fst (tree_find own_dim target b t)) = 0"
    by (simp_all add: t tree_find_def find_general_def with_added_summary_def)
qed

lemma find_by_count:
  assumes "wf_tree list_ops t"
  shows "lsm_count (fst (tree_find own_dim (count_target n) Right t)) = length (take n (tree_items t))"
    "lsm_height (fst (tree_find own_dim (count_target n) Right t)) = px_of (take n (tree_items t))"
  using by_own.find_count [OF assms, of n] tree_find_empty [OF assms, of "count_target n" Right]
  by (cases "tree_items t = []"; simp add: targets_list)+

lemma find_by_height:
  assumes "wf_tree list_ops t" "heights_ok (tree_items t)" "0 \<le> h"
  shows "\<exists>pre post. tree_items t = pre @ post \<and> row_at b h pre post \<and>
    lsm_count (fst (tree_find own_dim (height_target h) b t)) = length pre \<and>
    lsm_height (fst (tree_find own_dim (height_target h) b t)) = px_of pre"
proof (cases "tree_items t = []")
  case True
  with tree_find_empty [OF assms(1)] assms(3) show ?thesis by (fastforce simp: row_at_def)
next
  case False
  then have ne: "\<not> is_empty t" using is_empty_items [OF assms(1)] by simp
  let ?pre = "seek_passed list_ops own_dim (height_target h) b list_summary_zero (tree_items t)"
    and ?post = "seek_rest list_ops own_dim (height_target h) b list_summary_zero (tree_items t)"
  have "fst (tree_find own_dim (height_target h) b t) = dim_of list_ops own_dim ?pre"
    using liown.find_scan [OF assms(1) _ ne, of "height_target h" b] monotone_height [OF assms(2), of h list_summary_zero]
    by (auto simp: scan_passed monotone_target_def dim_of_def split: option.splits)
  then show ?thesis
    using row_at_passed [of "[]" h b "tree_items t"] assms(3) seek_passed_rest [of list_ops own_dim "height_target h" b list_summary_zero "tree_items t"]
    by (intro exI [of _ ?pre] exI [of _ ?post]) simp
qed

end
