(* ===== verification/List_Scroll.thy ===== *)
theory List_Scroll
  imports List_Items
begin

text \<open>
  The state of a list and what the operations that scroll it or replace its items do, in terms of the sequence of items and of
  the pixels above the viewport.
\<close>

section \<open>The invariant\<close>

abbreviation rows :: "('u, 'f, 'w) list_state \<Rightarrow> ('u, 'f) list_item list" where
  "rows self \<equiv> tree_items (li_items self)"

definition offset_ok :: "nat \<Rightarrow> 'u::linordered_field list_offset \<Rightarrow> bool" where
  "offset_ok n pos \<longleftrightarrow> lo_item_ix pos \<le> n \<and> 0 \<le> lo_offset_in_item pos"

fun pending_ok :: "'u::linordered_field pending_scroll \<Rightarrow> bool" where
  "pending_ok (Pending_Absolute item_ix offset) \<longleftrightarrow> 0 \<le> offset"
| "pending_ok (Pending_Proportional item_ix fraction) \<longleftrightarrow> 0 \<le> fraction \<and> fraction \<le> 1"

definition list_inv :: "('u::linordered_field, 'f, 'w) list_state \<Rightarrow> bool" where
  "list_inv self \<longleftrightarrow> wf_tree list_ops (li_items self) \<and> heights_ok (rows self) \<and>
     pred_option (offset_ok (length (rows self))) (li_logical_scroll_top self) \<and> pred_option pending_ok (li_pending_scroll self)"

text \<open>A cursor over the items has room on its stack.\<close>

definition shallow :: "('u, 'f, 'w) list_state \<Rightarrow> bool" where
  "shallow self \<longleftrightarrow> node_height (li_items self) < STACK_CAP"

text \<open>The pixels of the content above the viewport.\<close>

definition scroll_px :: "('u::linordered_field, 'f, 'w) list_state \<Rightarrow> 'u" where
  "scroll_px self = scroll_top self (logical_scroll_top self)"

lemma item_count_rows: "list_inv self \<Longrightarrow> list_item_count self = length (rows self)"
  by (simp add: list_item_count_def list_inv_def list_summary_items)

lemma scroll_top_px: "wf_tree list_ops (li_items self) \<Longrightarrow>
  scroll_top self pos = px_of (take (lo_item_ix pos) (rows self)) + lo_offset_in_item pos"
  using find_by_count(2) [of "li_items self" "lo_item_ix pos"]
  by (cases "tree_find own_dim (count_target (lo_item_ix pos)) Right (li_items self)") (simp add: scroll_top_def)

lemma logical_scroll_top_ok: "list_inv self \<Longrightarrow> offset_ok (length (rows self)) (logical_scroll_top self)"
  by (auto simp: logical_scroll_top_def offset_ok_def item_count_rows list_inv_def split: option.splits list_alignment.splits)

lemma scroll_px_follow [simp]: "scroll_px (self\<lparr>li_follow_state := f\<rparr>) = scroll_px self"
  by (cases "li_logical_scroll_top self"; cases "li_alignment self")
    (simp_all add: scroll_px_def logical_scroll_top_def scroll_top_def list_item_count_def)

lemma clamped_fraction_ok [simp]: "0 \<le> clamped_fraction offset height" "clamped_fraction offset height \<le> 1"
  by (simp_all add: clamped_fraction_def)

lemma list_inv_wf: "list_inv self \<Longrightarrow> wf_tree list_ops (li_items self)"
  by (simp add: list_inv_def)

section \<open>Cursors over the items\<close>

lemma seek_rows:
  assumes "list_inv self" "shallow self"
  shows "\<exists>found c. seek count_dim (ord_target n) Right (cursor_new count_dim (li_items self)) = ret (found, c) \<and>
    c_tree c = li_items self \<and> cursor_ok list_ops count_dim c (take n (rows self)) (drop n (rows self))"
  using by_count.seek_count [of "cursor_new count_dim (li_items self)" n] assms
  by (simp add: targets_list list_inv_def shallow_def)

lemma slice_rows:
  assumes "list_inv self" "shallow self"
  shows "\<exists>t c. slice list_ops count_dim (ord_target n) Right (cursor_new count_dim (li_items self)) = ret (t, c) \<and> wf_tree list_ops t \<and>
    tree_items t = take n (rows self) \<and> c_tree c = li_items self \<and> cursor_ok list_ops count_dim c (take n (rows self)) (drop n (rows self))"
  using by_count.slice_count [of "cursor_new count_dim (li_items self)" "[]" "rows self" n] assms
  by (simp add: targets_list list_inv_def shallow_def)

lemma seek_own:
  assumes "list_inv self" "shallow self"
  shows "\<exists>found c. seek own_dim (count_target n) Right (cursor_new own_dim (li_items self)) = ret (found, c) \<and>
    c_tree c = li_items self \<and> cursor_ok list_ops own_dim c (take n (rows self)) (drop n (rows self)) \<and>
    lsm_height (cursor_start c) = px_of (take n (rows self))"
  using by_own.seek_count [of "cursor_new own_dim (li_items self)" n] assms 
  by (fastforce simp: targets_list list_inv_def shallow_def ok_start [of list_ops own_dim])

text \<open>On from the \<open>a\<close>th item to the \<open>b\<close>th.\<close>

lemma take_drop_on:
  assumes "a \<le> b"
  shows "take a xs @ take (b - length (take a xs)) (drop a xs) = take b xs" "drop (b - length (take a xs)) (drop a xs) = drop b xs"
    "take (b - length (take a xs)) (drop a xs) = drop a (take b xs)"
proof (atomize (full), cases "a \<le> length xs")
  case True
  with assms have "take b xs = take a xs @ take (b - a) (drop a xs)" by (metis le_add_diff_inverse take_add)
  then show "take a xs @ take (b - length (take a xs)) (drop a xs) = take b xs \<and> drop (b - length (take a xs)) (drop a xs) = drop b xs \<and>
      take (b - length (take a xs)) (drop a xs) = drop a (take b xs)"
    using True assms by (simp add: min_def drop_take)
qed (use assms in simp)

lemma forward_rows:
  assumes "wf_tree list_ops (c_tree c)" "node_height (c_tree c) < STACK_CAP" "cursor_ok list_ops count_dim c (take a xs) (drop a xs)" "a \<le> b"
  shows "\<exists>found c'. seek_forward count_dim (ord_target b) Right c = ret (found, c') \<and> c_tree c' = c_tree c \<and>
    cursor_ok list_ops count_dim c' (take b xs) (drop b xs)"
proof -
  have "cursor_ready list_ops count_dim c (take a xs) (drop a xs)" "length (take a xs) \<le> b" using assms(3,4) by (simp_all add: cursor_ready_def)
  from by_count.seek_forward_count [OF assms(1,2) this, unfolded take_drop_on(1,2) [OF assms(4)]] show ?thesis by (simp add: targets_list)
qed

lemma slice_on_rows:
  assumes "wf_tree list_ops (c_tree c)" "node_height (c_tree c) < STACK_CAP" "cursor_ok list_ops count_dim c (take a xs) (drop a xs)" "a \<le> b"
  shows "\<exists>t c'. slice list_ops count_dim (ord_target b) Right c = ret (t, c') \<and> wf_tree list_ops t \<and> tree_items t = drop a (take b xs) \<and>
    c_tree c' = c_tree c \<and> cursor_ok list_ops count_dim c' (take b xs) (drop b xs)"
proof -
  have "cursor_ready list_ops count_dim c (take a xs) (drop a xs)" "length (take a xs) \<le> b" using assms(3,4) by (simp_all add: cursor_ready_def)
  from by_count.slice_count [OF assms(1,2) this] assms(4) show ?thesis
    by (simp only: take_drop_on(1,2) [OF assms(4)] targets_list) (simp only: take_drop_on(3) [OF assms(4)])
qed

lemma suffix_rows:
  assumes "wf_tree list_ops (c_tree c)" "node_height (c_tree c) < STACK_CAP" "cursor_ok list_ops count_dim c pre post"
  shows "\<exists>t c'. suffix list_ops count_dim c = ret (t, c') \<and> wf_tree list_ops t \<and> tree_items t = post"
  using licount.suffix_ok [OF assms(1,2), of pre post] assms(3) by (auto simp: cursor_ready_def)

text \<open>Appending two lists of items to a tree.\<close>

lemma extend_append_ok:
  assumes "wf_tree list_ops t1" "wf_tree list_ops t3"
  obtains t2 t where "tree_extend list_ops t1 xs = ret t2" "append_tree list_ops t2 t3 = ret t" "wf_tree list_ops t"
    "tree_items t = tree_items t1 @ xs @ tree_items t3"
proof -
  obtain t2 where e: "tree_extend list_ops t1 xs = ret t2" "wf_tree list_ops t2" "tree_items t2 = tree_items t1 @ xs"
    using li.extend_ok [OF assms(1)] by blast
  obtain t where "append_tree list_ops t2 t3 = ret t" "wf_tree list_ops t" "tree_items t = tree_items t2 @ tree_items t3"
    using li.append_tree_ok [OF e(2) assms(2)] by blast
  with e show thesis by (intro that) simp_all
qed

section \<open>Replacing items\<close>

text \<open>The scroll top after the items from \<open>a\<close> to \<open>b\<close> were replaced by \<open>k\<close> others.\<close>

definition spliced_offset :: "nat \<Rightarrow> nat \<Rightarrow> nat \<Rightarrow> 'u::linordered_field list_offset \<Rightarrow> 'u list_offset" where
  "spliced_offset a b k pos =
     (if a \<le> lo_item_ix pos \<and> lo_item_ix pos < b then \<lparr>lo_item_ix = a, lo_offset_in_item = 0\<rparr>
      else if b \<le> lo_item_ix pos then pos\<lparr>lo_item_ix := lo_item_ix pos - (b - a) + k\<rparr> else pos)"

lemma splice_ok:
  assumes "list_inv self" "shallow self" "a \<le> b"
  shows "\<exists>t. splice_focusable (a, b) fs self =
      ret (self\<lparr>li_items := t, li_logical_scroll_top := map_option (spliced_offset a b (length fs)) (li_logical_scroll_top self)\<rparr>) \<and>
    wf_tree list_ops t \<and> tree_items t = take a (rows self) @ map (Unmeasured None) fs @ drop b (rows self)"
proof -
  obtain t1 c1 where s: "slice list_ops count_dim (ord_target a) Right (cursor_new count_dim (li_items self)) = ret (t1, c1)"
    "wf_tree list_ops t1" "tree_items t1 = take a (rows self)" "c_tree c1 = li_items self"
    "cursor_ok list_ops count_dim c1 (take a (rows self)) (drop a (rows self))"
    using slice_rows [OF assms(1,2), of a] by blast
  have low: "wf_tree list_ops (c_tree c1)" "node_height (c_tree c1) < STACK_CAP" using assms s(4) by (simp_all add: list_inv_def shallow_def)
  obtain found c2 where f: "seek_forward count_dim (ord_target b) Right c1 = ret (found, c2)" "c_tree c2 = c_tree c1"
      "cursor_ok list_ops count_dim c2 (take b (rows self)) (drop b (rows self))"
    using forward_rows [OF low s(5) assms(3)] by blast
  obtain t3 c3 where x: "suffix list_ops count_dim c2 = ret (t3, c3)" "wf_tree list_ops t3" "tree_items t3 = drop b (rows self)"
    using suffix_rows [OF _ _ f(3)] f(2) low by auto
  obtain t2 t where t: "tree_extend list_ops t1 (map (Unmeasured None) fs) = ret t2" "append_tree list_ops t2 t3 = ret t" "wf_tree list_ops t"
    "tree_items t = take a (rows self) @ map (Unmeasured None) fs @ drop b (rows self)"
    using extend_append_ok [OF s(2) x(2)] s(3) x(3) by metis
  have "a \<le> b \<Longrightarrow> b \<le> ix \<Longrightarrow> b - a \<le> ix" for ix :: nat by simp
  then show ?thesis using assms(3) s(1) f(1) x(1) t
    by (cases "li_logical_scroll_top self") (auto simp: splice_focusable_def spliced_offset_def checked_minus_def)
qed

lemma spliced_offset_ok:
  "offset_ok n pos \<Longrightarrow> a \<le> b \<Longrightarrow> b \<le> n \<Longrightarrow> offset_ok (a + k + (n - b)) (spliced_offset a b k pos)"
  by (auto simp: offset_ok_def spliced_offset_def)

lemma splice_inv:
  assumes "list_inv self" "shallow self" "a \<le> b" "b \<le> length (rows self)" "splice_focusable (a, b) fs self = ret self'"
  shows "list_inv self'"
proof -
  obtain t where t: "self' = self\<lparr>li_items := t, li_logical_scroll_top := map_option (spliced_offset a b (length fs)) (li_logical_scroll_top self)\<rparr>"
    "wf_tree list_ops t" "tree_items t = take a (rows self) @ map (Unmeasured None) fs @ drop b (rows self)"
    using splice_ok [OF assms(1-3), of fs] assms(5) by auto
  have "heights_ok (map (Unmeasured None) fs :: ('a, 'b) list_item list)" by (auto simp: heights_ok_def item_height_def item_size_hint_def)
  then have "heights_ok (tree_items t)" using assms(1) t(3) by (simp add: list_inv_def heights_ok_take)
  moreover have "length (tree_items t) = a + length fs + (length (rows self) - b)" using t(3) assms(3,4) by simp
  ultimately show ?thesis
    using assms t spliced_offset_ok [of "length (rows self)" _ a b "length fs"]
    by (auto simp: list_inv_def option.pred_map comp_def elim!: option.pred_mono_strong)
qed

section \<open>Remeasuring\<close>

definition forget_size :: "('u, 'f) list_item \<Rightarrow> ('u, 'f) list_item" where
  "forget_size item = Unmeasured (item_size_hint item) (item_focus_handle item)"

lemma forget_size_simps [simp]: "item_height (forget_size item) = item_height item" "item_focus_handle (forget_size item) = item_focus_handle item"
  by (simp_all add: forget_size_def item_height_def item_size_hint_def item_focus_handle_def)

lemma heights_ok_forget: "heights_ok (map forget_size xs) = heights_ok xs"
  by (auto simp: heights_ok_def)

lemma pending_for_remeasure_ok:
  assumes "list_inv self" "shallow self" "offset_ok n pos"
  shows "\<exists>p. pending_for_remeasure scroll_anchor pos self = ret p \<and> pred_option pending_ok p"
proof (cases scroll_anchor)
  case Anchor_Proportional
  obtain found c where "seek count_dim (ord_target (lo_item_ix pos)) Right (cursor_new count_dim (li_items self)) = ret (found, c)"
    "cursor_ok list_ops count_dim c (take (lo_item_ix pos) (rows self)) (drop (lo_item_ix pos) (rows self))"
    using seek_rows [OF assms(1,2), of "lo_item_ix pos"] by blast
  then show ?thesis using assms(1) Anchor_Proportional
    by (auto simp: pending_for_remeasure_def cursor_ok_item list_inv_def split: option.splits)
qed (use assms(3) in \<open>simp add: pending_for_remeasure_def offset_ok_def\<close>)

lemma iter_items_ok:
  assumes "wf_tree list_ops t" "node_height t < STACK_CAP"
  shows "iter_items t = ret (tree_items t)"
  using li.iter_collect_ok [OF li.iter_new_at [OF assms], of "weight t"] weight_items [OF assms(1)] by simp

text \<open>The items to be remeasured are collected from a tree of their own, which has to be low enough for the iterator over it.\<close>

definition low_slice :: "nat \<Rightarrow> nat \<Rightarrow> ('u::linordered_field, 'f, 'w) list_state \<Rightarrow> bool" where
  "low_slice a b self \<longleftrightarrow> pred_option (\<lambda>t. node_height t < STACK_CAP) (do {
     (_, cursor) \<leftarrow> slice list_ops count_dim (ord_target a) Right (cursor_new count_dim (li_items self));
     (t, _) \<leftarrow> slice list_ops count_dim (ord_target b) Right cursor;
     ret t })"

lemma remeasure_ok:
  assumes "list_inv self" "shallow self" "a \<le> b" "low_slice a b self"
  shows "\<exists>t p. remeasure_items_with_scroll_anchor (a, b) scroll_anchor self =
      ret (self\<lparr>li_pending_scroll := p, li_items := t, li_measuring_behavior := measuring_reset (li_measuring_behavior self)\<rparr>) \<and>
    wf_tree list_ops t \<and> pred_option pending_ok p \<and>
    tree_items t = take a (rows self) @ map forget_size (drop a (take b (rows self))) @ drop b (rows self)"
proof -
  obtain t1 c1 where s: "slice list_ops count_dim (ord_target a) Right (cursor_new count_dim (li_items self)) = ret (t1, c1)"
    "wf_tree list_ops t1" "tree_items t1 = take a (rows self)" "c_tree c1 = li_items self"
    "cursor_ok list_ops count_dim c1 (take a (rows self)) (drop a (rows self))"
    using slice_rows [OF assms(1,2), of a] by blast
  have low: "wf_tree list_ops (c_tree c1)" "node_height (c_tree c1) < STACK_CAP" using assms s(4) by (simp_all add: list_inv_def shallow_def)
  obtain t2 c2 where f: "slice list_ops count_dim (ord_target b) Right c1 = ret (t2, c2)" "wf_tree list_ops t2"
      "tree_items t2 = drop a (take b (rows self))" "c_tree c2 = c_tree c1"
      "cursor_ok list_ops count_dim c2 (take b (rows self)) (drop b (rows self))"
    using slice_on_rows [OF low s(5) assms(3)] by blast
  have it: "iter_items t2 = ret (drop a (take b (rows self)))"
    using assms(4) s(1) f iter_items_ok [of t2] by (simp add: low_slice_def)
  obtain t3 c3 where x: "suffix list_ops count_dim c2 = ret (t3, c3)" "wf_tree list_ops t3" "tree_items t3 = drop b (rows self)"
    using suffix_rows [OF _ _ f(5)] f(4) low by auto
  obtain t4 t where t: "tree_extend list_ops t1 (map forget_size (drop a (take b (rows self)))) = ret t4" "append_tree list_ops t4 t3 = ret t"
    "wf_tree list_ops t" "tree_items t = take a (rows self) @ map forget_size (drop a (take b (rows self))) @ drop b (rows self)"
    using extend_append_ok [OF s(2) x(2)] s(3) x(3) by metis
  obtain p where p: "(case li_logical_scroll_top self of
         Some pos \<Rightarrow> if fst (a, b) \<le> lo_item_ix pos \<and> lo_item_ix pos < snd (a, b) then pending_for_remeasure scroll_anchor pos self else ret (li_pending_scroll self)
       | None \<Rightarrow> ret (li_pending_scroll self)) = ret p" "pred_option pending_ok p"
  proof (cases "li_logical_scroll_top self")
    case (Some pos)
    then obtain p where "pending_for_remeasure scroll_anchor pos self = ret p" "pred_option pending_ok p"
      using pending_for_remeasure_ok [OF assms(1,2), of "length (rows self)" pos scroll_anchor] assms(1) by (auto simp: list_inv_def)
    with Some assms(1) that show thesis by (cases "a \<le> lo_item_ix pos \<and> lo_item_ix pos < b") (auto simp: list_inv_def)
  qed (use assms(1) that in \<open>simp add: list_inv_def\<close>)
  have "(\<lambda>item. Unmeasured (item_size_hint item) (item_focus_handle item)) = (forget_size :: ('a, 'b) list_item \<Rightarrow> _)"
    by (simp add: forget_size_def fun_eq_iff)
  with s(1) f(1) it x(1) t p show ?thesis
    by (intro exI [of _ t] exI [of _ p]) (simp add: remeasure_items_with_scroll_anchor_def)
qed

lemma remeasure_inv:
  assumes "list_inv self" "shallow self" "a \<le> b" "low_slice a b self" "remeasure_items_with_scroll_anchor (a, b) scroll_anchor self = ret self'"
  shows "list_inv self'" "map item_height (rows self') = map item_height (rows self)"
proof -
  obtain t p where t: "self' = self\<lparr>li_pending_scroll := p, li_items := t, li_measuring_behavior := measuring_reset (li_measuring_behavior self)\<rparr>"
    "wf_tree list_ops t" "pred_option pending_ok p"
    "tree_items t = take a (rows self) @ map forget_size (drop a (take b (rows self))) @ drop b (rows self)"
    using remeasure_ok [OF assms(1-4), of scroll_anchor] assms(5) by auto
  have xs: "take a (rows self) @ drop a (take b (rows self)) @ drop b (rows self) = rows self"
    using assms(3) by (metis append.assoc append_take_drop_id min.absorb1 take_take)
  have "map item_height (tree_items t) = map item_height (take a (rows self) @ drop a (take b (rows self)) @ drop b (rows self))"
    by (simp only: t(4) map_append) (simp add: comp_def)
  then show h: "map item_height (rows self') = map item_height (rows self)" using xs t(1) by simp
  then have "length (rows self') = length (rows self)" by (metis length_map)
  moreover have "heights_ok (rows self')" using h assms(1) by (metis (no_types, lifting) heights_ok_def in_set_conv_nth length_map list_inv_def nth_map)
  ultimately show "list_inv self'" using assms(1) t by (simp add: list_inv_def)
qed

section \<open>Scrolling\<close>

lemma rebase_ok:
  assumes "list_inv self" "shallow self" "0 \<le> lo_offset_in_item pos"
  shows "\<exists>p. rebase_pending_scroll pos self = ret (self\<lparr>li_pending_scroll := p\<rparr>) \<and> pred_option pending_ok p"
proof (cases "li_pending_scroll self")
  case (Some pending)
  let ?self = "self\<lparr>li_pending_scroll := None\<rparr>"
  have "list_inv ?self" "shallow ?self" using assms by (simp_all add: list_inv_def shallow_def)
  then obtain found c where "seek count_dim (ord_target (lo_item_ix pos)) Right (cursor_new count_dim (li_items self)) = ret (found, c)"
    "cursor_ok list_ops count_dim c (take (lo_item_ix pos) (rows self)) (drop (lo_item_ix pos) (rows self))"
    using seek_rows [of ?self "lo_item_ix pos"] by auto
  then show ?thesis using assms(3) Some
    by (cases pending) (auto simp: rebase_pending_scroll_def cursor_ok_item split: option.splits intro!: exI [of _ None] exI conjI refl)
qed (simp add: rebase_pending_scroll_def exI [of _ None])

lemma set_scroll_top_ok:
  assumes "list_inv self" "shallow self" "offset_ok (length (rows self)) pos"
  obtains p where "set_scroll_top pos self = ret (self\<lparr>li_pending_scroll := p, li_logical_scroll_top := Some pos\<rparr>)"
    "list_inv (self\<lparr>li_pending_scroll := p, li_logical_scroll_top := Some pos\<rparr>)"
    "scroll_px (self\<lparr>li_pending_scroll := p, li_logical_scroll_top := Some pos\<rparr>) = px_of (take (lo_item_ix pos) (rows self)) + lo_offset_in_item pos"
proof -
  obtain p where p: "rebase_pending_scroll pos self = ret (self\<lparr>li_pending_scroll := p\<rparr>)" "pred_option pending_ok p"
    using rebase_ok [OF assms(1,2), of pos] assms(3) by (auto simp: offset_ok_def)
  show thesis
    by (rule that [of p]) (use p assms in \<open>simp_all add: set_scroll_top_def list_inv_def scroll_px_def logical_scroll_top_def scroll_top_px\<close>)
qed

text \<open>Scrolling to the pixel that lies in a row.\<close>

lemma set_scroll_row:
  assumes "list_inv self" "shallow self" "rows self = pre @ post" "row_at b h pre post"
  obtains self' where "set_scroll_top \<lparr>lo_item_ix = length pre, lo_offset_in_item = h - px_of pre\<rparr> self = ret self'" "list_inv self'"
    "scroll_px self' = h" "li_items self' = li_items self" "li_follow_state self' = li_follow_state self" "li_scroll_handler self' = li_scroll_handler self"
    "li_logical_scroll_top self' = Some \<lparr>lo_item_ix = length pre, lo_offset_in_item = h - px_of pre\<rparr>"
proof -
  have "offset_ok (length (rows self)) \<lparr>lo_item_ix = length pre, lo_offset_in_item = h - px_of pre\<rparr>"
    using assms(3,4) by (simp add: offset_ok_def row_at_def)
  from set_scroll_top_ok [OF assms(1,2) this] obtain p where
    "set_scroll_top \<lparr>lo_item_ix = length pre, lo_offset_in_item = h - px_of pre\<rparr> self =
       ret (self\<lparr>li_pending_scroll := p, li_logical_scroll_top := Some \<lparr>lo_item_ix = length pre, lo_offset_in_item = h - px_of pre\<rparr>\<rparr>)"
    "list_inv (self\<lparr>li_pending_scroll := p, li_logical_scroll_top := Some \<lparr>lo_item_ix = length pre, lo_offset_in_item = h - px_of pre\<rparr>\<rparr>)"
    "scroll_px (self\<lparr>li_pending_scroll := p, li_logical_scroll_top := Some \<lparr>lo_item_ix = length pre, lo_offset_in_item = h - px_of pre\<rparr>\<rparr>) = h"
    using assms(3) by auto
  then show thesis by (rule that) simp_all
qed

lemma scroll_to_px_ok:
  assumes "list_inv self" "shallow self" "0 \<le> h"
  obtains self' where "scroll_to_px h scroll_max self = ret self'" "list_inv self'" "rows self' = rows self"
    "li_follow_state self' = li_follow_state self" "shallow self'" "li_scroll_handler self' = li_scroll_handler self"
    "if li_alignment self = Align_Bottom \<and> h = scroll_max then li_logical_scroll_top self' = None \<and> li_pending_scroll self' = None
     else scroll_px self' = h"
proof (cases "li_alignment self = Align_Bottom \<and> h = scroll_max")
  case True
  let ?self = "self\<lparr>li_pending_scroll := None, li_logical_scroll_top := None\<rparr>"
  show thesis by (rule that [of ?self]) (use True assms in \<open>simp_all add: scroll_to_px_def list_inv_def shallow_def\<close>)
next
  case False
  obtain pre post where row: "rows self = pre @ post" "row_at Right h pre post"
    "lsm_count (fst (tree_find own_dim (height_target h) Right (li_items self))) = length pre"
    "lsm_height (fst (tree_find own_dim (height_target h) Right (li_items self))) = px_of pre"
    using find_by_height [of "li_items self" h Right] assms by (auto simp: list_inv_def)
  from set_scroll_row [OF assms(1,2) row(1,2)] obtain self' where s:
    "set_scroll_top \<lparr>lo_item_ix = length pre, lo_offset_in_item = h - px_of pre\<rparr> self = ret self'" "list_inv self'" "scroll_px self' = h"
    "rows self' = rows self" "li_follow_state self' = li_follow_state self" "li_items self' = li_items self" "li_scroll_handler self' = li_scroll_handler self"
    by metis
  show thesis
    by (rule that [of self']) (use False s row assms in \<open>auto simp: scroll_to_px_def shallow_def split: prod.splits\<close>)
qed

lemma scroll_by_ok:
  assumes "list_inv self" "shallow self"
  obtains self' where "scroll_by d self = ret self'" "list_inv self'" "li_items self' = li_items self"
    "scroll_px self' = max (scroll_px self + d) 0"
    "li_follow_state self' = (if d < 0 then stop_following (li_follow_state self) else li_follow_state self)"
proof (cases "d = 0")
  case True
  have "offset_ok (length (rows self)) (logical_scroll_top self)" using logical_scroll_top_ok [OF assms(1)] .
  then have "0 \<le> scroll_px self"
    using assms(1) px_of_nonneg [OF heights_ok_take(1)] by (auto simp: scroll_px_def scroll_top_px list_inv_def offset_ok_def intro!: add_nonneg_nonneg)
  with True assms show thesis by (intro that [of self]) (simp_all add: scroll_by_def)
next
  case False
  let ?pos = "logical_scroll_top self"
  define now where "now = (if d < 0 then self\<lparr>li_follow_state := stop_following (li_follow_state self)\<rparr> else self)"
  have now: "list_inv now" "shallow now" "li_items now = li_items self" using assms by (simp_all add: now_def list_inv_def shallow_def)
  obtain found c where c: "seek own_dim (count_target (lo_item_ix ?pos)) Right (cursor_new own_dim (li_items self)) = ret (found, c)"
    "c_tree c = li_items self" "cursor_ok list_ops own_dim c (take (lo_item_ix ?pos) (rows self)) (drop (lo_item_ix ?pos) (rows self))"
    "lsm_height (cursor_start c) = px_of (take (lo_item_ix ?pos) (rows self))"
    using seek_own [OF assms, of "lo_item_ix ?pos"] by blast
  have px: "scroll_px self = px_of (take (lo_item_ix ?pos) (rows self)) + lo_offset_in_item ?pos"
    using assms(1) by (simp add: scroll_px_def scroll_top_px list_inv_def)
  let ?h = "max (scroll_px self + d) 0"
  let ?move = "if ?h > scroll_px self then seek_forward own_dim (height_target ?h) Right c else seek own_dim (height_target ?h) Right c"
  have tree: "wf_tree list_ops (c_tree c)" "node_height (c_tree c) < STACK_CAP" "heights_ok (tree_items (c_tree c))"
    using assms c(2) by (simp_all add: list_inv_def shallow_def)
  have "\<exists>found c' pre post. ?move = ret (found, c') \<and> cursor_ok list_ops own_dim c' pre post \<and> rows self = pre @ post \<and> row_at Right ?h pre post"
  proof (cases "?h > scroll_px self")
    case True
    have "0 \<le> lo_offset_in_item ?pos" using logical_scroll_top_ok [OF assms(1)] by (simp add: offset_ok_def)
    then have "px_of (take (lo_item_ix ?pos) (rows self)) \<le> ?h" using True px by simp
    moreover have "cursor_ready list_ops own_dim c (take (lo_item_ix ?pos) (rows self)) (drop (lo_item_ix ?pos) (rows self))"
      using c(3) by (simp add: cursor_ready_def)
    ultimately obtain fd c' pre' post' where "seek_forward own_dim (height_target ?h) Right c = ret (fd, c')"
      "cursor_ok list_ops own_dim c' (take (lo_item_ix ?pos) (rows self) @ pre') post'" "drop (lo_item_ix ?pos) (rows self) = pre' @ post'"
      "row_at Right ?h (take (lo_item_ix ?pos) (rows self) @ pre') post'"
      using seek_forward_height [OF tree(1,2) _ tree(3), of _ _ ?h Right] by blast
    moreover have "rows self = take (lo_item_ix ?pos) (rows self) @ pre' @ post'" using calculation(3) by (metis append_take_drop_id)
    ultimately show ?thesis using True by (metis append.assoc)
  next
    case False
    from seek_height [OF tree, of ?h Right] c(2) False show ?thesis by auto
  qed
  then obtain fd c' pre post where m: "?move = ret (fd, c')" "cursor_ok list_ops own_dim c' pre post" "rows self = pre @ post" "row_at Right ?h pre post"
    by blast
  from set_scroll_row [OF now(1,2) _ m(4)] now(3) m(3) obtain self' where s:
    "set_scroll_top \<lparr>lo_item_ix = length pre, lo_offset_in_item = ?h - px_of pre\<rparr> now = ret self'" "list_inv self'" "scroll_px self' = ?h"
    "li_items self' = li_items now" "li_follow_state self' = li_follow_state now"
    by metis
  have st: "lsm_height (cursor_start c) + lo_offset_in_item ?pos = scroll_px self" using c(4) px by simp
  have "scroll_by d self = ret self'"
    using False c(1) m(1) s(1) by (cases "?h > scroll_px self") (simp_all add: scroll_by_def st now_def [symmetric] now(3) ok_start [OF m(2)])
  then show thesis by (rule that) (use s now in \<open>auto simp: now_def\<close>)
qed

text \<open>The event that a handler gets, and the events that scroll.\<close>

lemma visible_range_ok:
  assumes "list_inv self" "shallow self" "offset_ok (length (rows self)) pos" "0 \<le> height"
  obtains n where "visible_range (li_items self) height pos = ret (lo_item_ix pos, n + 1)" "n \<le> length (rows self)"
proof -
  let ?pre = "take (lo_item_ix pos) (rows self)"
  obtain found c where c: "seek own_dim (count_target (lo_item_ix pos)) Right (cursor_new own_dim (li_items self)) = ret (found, c)"
    "c_tree c = li_items self" "cursor_ok list_ops own_dim c ?pre (drop (lo_item_ix pos) (rows self))"
    "lsm_height (cursor_start c) = px_of ?pre"
    using seek_own [OF assms(1,2), of "lo_item_ix pos"] by blast
  have "px_of ?pre \<le> lsm_height (cursor_start c) + lo_offset_in_item pos + height" using c(4) assms(3,4) by (simp add: offset_ok_def add_nonneg_nonneg)
  moreover have "wf_tree list_ops (c_tree c)" "node_height (c_tree c) < STACK_CAP" "heights_ok (tree_items (c_tree c))"
    "cursor_ready list_ops own_dim c ?pre (drop (lo_item_ix pos) (rows self))"
    using assms(1,2) c(2,3) by (simp_all add: list_inv_def shallow_def cursor_ready_def)
  ultimately obtain fd c' pre' post' where f: "seek_forward own_dim (height_target (lsm_height (cursor_start c) + lo_offset_in_item pos + height)) Left c = ret (fd, c')"
    "cursor_ok list_ops own_dim c' (?pre @ pre') post'" "c_tree c' = c_tree c"
    using seek_forward_height [of c ?pre _ _ Left] by blast
  have "length (?pre @ pre') \<le> length (rows self)" using cursor_ok_items [OF f(2)] f(3) c(2) by (metis le_add1 length_append)
  with c(1) f(1) ok_start [OF f(2)] show thesis
    by (intro that [of "length (?pre @ pre')"]) (simp_all add: visible_range_def)
qed

lemma list_scroll_ok:
  assumes "list_inv self" "shallow self" "\<not> li_reset self" "offset_ok (length (rows self)) pos" "0 \<le> height"
  obtains self' window' where "list_scroll notify pos height delta self window = ret (self', window')" "list_inv self'" "rows self' = rows self"
    "let padding = padding_or_default self;
         scroll_max = max (px_of (rows self) + ed_top padding + ed_bottom padding - height) 0;
         h = min (max (scroll_top self pos - pt_y delta) 0) scroll_max in
     if li_alignment self = Align_Bottom \<and> h = scroll_max then li_logical_scroll_top self' = None else scroll_px self' = h"
    "li_follow_state self' = (if pt_y delta > 0 then stop_following (li_follow_state self) else li_follow_state self)"
proof -
  define scroll_max where "scroll_max = max (px_of (rows self) + ed_top (padding_or_default self) + ed_bottom (padding_or_default self) - height) 0"
  define h where "h = min (max (scroll_top self pos - pt_y delta) 0) scroll_max"
  have "0 \<le> h" by (simp add: h_def scroll_max_def)
  from scroll_to_px_ok [OF assms(1,2) this, of scroll_max] obtain s1 where s1: "scroll_to_px h scroll_max self = ret s1" "list_inv s1" "rows s1 = rows self"
    "li_follow_state s1 = li_follow_state self" "shallow s1"
    "if li_alignment self = Align_Bottom \<and> h = scroll_max then li_logical_scroll_top s1 = None else scroll_px s1 = h"
    by (metis (no_types, lifting))
  define s2 where "s2 = (if pt_y delta > 0 then s1\<lparr>li_follow_state := stop_following (li_follow_state s1)\<rparr> else s1)"
  have s2: "list_inv s2" "shallow s2" "rows s2 = rows self" "scroll_px s2 = scroll_px s1" "li_logical_scroll_top s2 = li_logical_scroll_top s1"
    using s1 by (simp_all add: s2_def list_inv_def shallow_def)
  obtain n where n: "visible_range (li_items s2) height pos = ret (lo_item_ix pos, n + 1)"
    using visible_range_ok [OF s2(1,2) _ assms(5)] assms(4) s2(3) by metis
  have sums: "lsm_height (node_summary (li_items self)) = px_of (rows self)" using assms(1) by (simp add: list_inv_def list_summary_items)
  have "\<exists>window'. list_scroll notify pos height delta self window = ret (s2, window')"
    using assms(3) s1(1) n by (cases "li_scroll_handler s2") (simp_all add: list_scroll_def sums scroll_max_def [symmetric] h_def [symmetric] s2_def [symmetric])
  then obtain window' where "list_scroll notify pos height delta self window = ret (s2, window')" by blast
  then show thesis
    by (rule that) (use s1 s2 in \<open>simp_all add: Let_def scroll_max_def [symmetric] h_def [symmetric]\<close>, simp add: s2_def s1(4))
qed

text \<open>The pixels that the scrollbar asks for, and where it takes the list to the end.\<close>

definition scrollbar_max :: "('u::linordered_field, 'f, 'w) list_state \<Rightarrow> 'u bounds \<Rightarrow> 'u" where
  "scrollbar_max self b = max ((case li_scrollbar_drag_start_height self of Some h \<Rightarrow> h | None \<Rightarrow> px_of (rows self)) +
     ed_top (padding_or_default self) + ed_bottom (padding_or_default self) - sz_height (bn_size b)) 0"

lemma scrollbar_unfold:
  assumes "list_inv self" "li_last_layout_bounds self = Some b"
  shows "set_offset_from_scrollbar point self = (
    let scroll_max = scrollbar_max self b; h = min (max (- pt_y point) 0) scroll_max in
    if (scroll_max > 0 \<and> h \<ge> max (scroll_max - 1) 0) \<and> li_follow_state self \<noteq> Follow_Normal then
      ret (self\<lparr>li_follow_state := Follow_Tail True, li_pending_scroll := None,
                li_logical_scroll_top := Some \<lparr>lo_item_ix = list_item_count self, lo_offset_in_item = 0\<rparr>\<rparr>)
    else scroll_to_px h scroll_max (self\<lparr>li_follow_state := stop_following (li_follow_state self)\<rparr>))"
proof -
  have "lsm_height (node_summary (li_items self)) = px_of (rows self)" using assms(1) by (simp add: list_inv_def list_summary_items)
  then have "scrollbar_max self b = max ((case li_scrollbar_drag_start_height self of Some h \<Rightarrow> h | None \<Rightarrow> lsm_height (node_summary (li_items self))) +
      ed_top (padding_or_default self) + ed_bottom (padding_or_default self) - sz_height (bn_size b)) 0"
    by (cases "li_scrollbar_drag_start_height self") (simp_all add: scrollbar_max_def)
  then show ?thesis using assms(2) unfolding set_offset_from_scrollbar_def Let_def by simp
qed

lemma scrollbar_ok:
  assumes "list_inv self" "shallow self" "li_last_layout_bounds self = Some b"
  obtains self' where "set_offset_from_scrollbar point self = ret self'" "list_inv self'" "rows self' = rows self"
    "let scroll_max = scrollbar_max self b; h = min (max (- pt_y point) 0) scroll_max in
     if scroll_max > 0 \<and> h \<ge> max (scroll_max - 1) 0 \<and> li_follow_state self \<noteq> Follow_Normal
     then li_follow_state self' = Follow_Tail True \<and> scroll_px self' = px_of (rows self)
     else if li_alignment self = Align_Bottom \<and> h = scroll_max then li_logical_scroll_top self' = None else scroll_px self' = h"
proof -
  define h where "h = min (max (- pt_y point) 0) (scrollbar_max self b)"
  have h: "0 \<le> h" by (simp add: h_def scrollbar_max_def)
  note u = scrollbar_unfold [OF assms(1,3), of point, unfolded Let_def, folded h_def]
  show thesis
  proof (cases "scrollbar_max self b > 0 \<and> h \<ge> max (scrollbar_max self b - 1) 0 \<and> li_follow_state self \<noteq> Follow_Normal")
    case True
    let ?self = "self\<lparr>li_follow_state := Follow_Tail True, li_pending_scroll := None,
        li_logical_scroll_top := Some \<lparr>lo_item_ix = list_item_count self, lo_offset_in_item = 0\<rparr>\<rparr>"
    have "list_inv ?self" using assms(1) item_count_rows [OF assms(1)] by (simp add: list_inv_def offset_ok_def)
    moreover have "scroll_px ?self = px_of (rows self)"
      using assms(1) item_count_rows [OF assms(1)] by (simp add: scroll_px_def logical_scroll_top_def scroll_top_px list_inv_def)
    ultimately show thesis
      by (intro that [of ?self]; (unfold Let_def h_def [symmetric])?) (use True u in simp_all)
  next
    case False
    let ?self = "self\<lparr>li_follow_state := stop_following (li_follow_state self)\<rparr>"
    have "list_inv ?self" "shallow ?self" using assms by (simp_all add: list_inv_def shallow_def)
    from scroll_to_px_ok [OF this h, of "scrollbar_max self b"] obtain s1 where s1: "scroll_to_px h (scrollbar_max self b) ?self = ret s1" "list_inv s1"
      "rows s1 = rows self" "if li_alignment self = Align_Bottom \<and> h = scrollbar_max self b then li_logical_scroll_top s1 = None else scroll_px s1 = h"
      by (metis (no_types, lifting) list_state.select_convs(3,5) list_state.surjective list_state.update_convs(12))
    show thesis
      by (intro that [of s1]; (unfold Let_def h_def [symmetric])?) (use False s1 u in \<open>auto split: if_splits\<close>)
  qed
qed

section \<open>Revealing an item\<close>

lemma px_take_mono:
  assumes "heights_ok xs" "i \<le> j"
  shows "px_of (take i xs) \<le> px_of (take j xs)"
  using px_of_take_le [OF heights_ok_take(1), OF assms(1), of i j] assms(2) by (simp add: min_def)

lemma row_at_end:
  assumes "row_at Left h pre post" "post \<noteq> []"
  shows "h \<le> px_of (take (Suc (length pre)) (pre @ post))"
  using assms by (cases post) (auto simp: row_at_def)

lemma px_take_Suc: "ix < length xs \<Longrightarrow> px_of (take (Suc ix) xs) = px_of (take ix xs) + item_height (xs ! ix)"
  by (simp add: take_Suc_conv_app_nth)

lemma reveal_ok:
  assumes inv: "list_inv self" "shallow self" and ix: "ix < length (rows self)"
    and view: "li_last_layout_bounds self = Some b" "padding_or_default self = padding" "0 \<le> ed_top padding" "0 \<le> ed_bottom padding"
    and fits: "ed_top padding + item_height (rows self ! ix) + ed_bottom padding \<le> sz_height (bn_size b)"
    and within: "scroll_px self \<le> px_of (take (Suc (lo_item_ix (logical_scroll_top self))) (rows self))"
  obtains self' where "scroll_to_reveal_item ix self = ret self'" "list_inv self'" "li_items self' = li_items self"
    "scroll_px self' \<le> px_of (take ix (rows self))"
    "ed_top padding + px_of (take (Suc ix) (rows self)) + ed_bottom padding \<le> scroll_px self' + sz_height (bn_size b)"
proof -
  let ?pos = "logical_scroll_top self" and ?px = "\<lambda>n. px_of (take n (rows self))" and ?H = "sz_height (bn_size b)"
  have heights: "heights_ok (rows self)" using inv(1) by (simp add: list_inv_def)
  have px: "scroll_px self = ?px (lo_item_ix ?pos) + lo_offset_in_item ?pos" using inv(1) by (simp add: scroll_px_def scroll_top_px list_inv_def)
  have pos_ok: "offset_ok (length (rows self)) ?pos" using logical_scroll_top_ok [OF inv(1)] .
  have step: "?px (Suc ix) = ?px ix + item_height (rows self ! ix)" using ix by (rule px_take_Suc)
  let ?good = "\<lambda>h. h \<le> ?px ix \<and> ed_top padding + ?px (Suc ix) + ed_bottom padding \<le> h + ?H"
  show thesis
  proof (cases "ix \<le> lo_item_ix ?pos")
    case True
    have "offset_ok (length (rows self)) \<lparr>lo_item_ix = ix, lo_offset_in_item = 0\<rparr>" using ix by (simp add: offset_ok_def)
    from set_scroll_top_ok [OF inv this] obtain p where p:
      "set_scroll_top \<lparr>lo_item_ix = ix, lo_offset_in_item = 0\<rparr> self = ret (self\<lparr>li_pending_scroll := p, li_logical_scroll_top := Some \<lparr>lo_item_ix = ix, lo_offset_in_item = 0\<rparr>\<rparr>)"
      "list_inv (self\<lparr>li_pending_scroll := p, li_logical_scroll_top := Some \<lparr>lo_item_ix = ix, lo_offset_in_item = 0\<rparr>\<rparr>)"
      "scroll_px (self\<lparr>li_pending_scroll := p, li_logical_scroll_top := Some \<lparr>lo_item_ix = ix, lo_offset_in_item = 0\<rparr>\<rparr>) = ?px ix"
      by auto
    show thesis
      by (rule that [of "self\<lparr>li_pending_scroll := p, li_logical_scroll_top := Some \<lparr>lo_item_ix = ix, lo_offset_in_item = 0\<rparr>\<rparr>"])
        (use True p fits step in \<open>simp_all add: scroll_to_reveal_item_def algebra_simps\<close>)
  next
    case False
    define goal where "goal = max 0 (?px (ix + 1) + ed_top padding - ?H + ed_bottom padding)"
    have goal: "0 \<le> goal" "?good goal" using fits step px_of_nonneg [OF heights_ok_take(1) [OF heights]]
      by (auto simp: goal_def max_def algebra_simps)
    obtain fd c where c: "seek own_dim (count_target (ix + 1)) Right (cursor_new own_dim (li_items self)) = ret (fd, c)"
      "c_tree c = li_items self" "lsm_height (cursor_start c) = ?px (ix + 1)"
      using seek_own [OF inv, of "ix + 1"] by blast
    obtain fd' c' pre post where c': "seek own_dim (height_target goal) Left c = ret (fd', c')" "cursor_ok list_ops own_dim c' pre post"
      "rows self = pre @ post" "row_at Left goal pre post"
      using seek_height [of c goal Left] inv c(2) heights goal(1) by (auto simp: list_inv_def shallow_def)
    have start: "lsm_count (cursor_start c') = length pre" "lsm_height (cursor_start c') = px_of pre" using ok_start [OF c'(2)] by simp_all
    have goal_eq: "max 0 (lsm_height (cursor_start c) + ed_top padding - ?H + ed_bottom padding) = goal" using c(3) by (simp add: goal_def)
    have unfolded: "scroll_to_reveal_item ix self = set_scroll_top (if length pre \<ge> lo_item_ix ?pos
        then \<lparr>lo_item_ix = length pre, lo_offset_in_item = goal - px_of pre\<rparr> else ?pos) self"
      using False view(1,2) c(1) c'(1) start by (simp add: scroll_to_reveal_item_def goal_eq)
    show thesis
    proof (cases "length pre \<ge> lo_item_ix ?pos")
      case True
      from set_scroll_row [OF inv c'(3,4)] obtain self' where
        "set_scroll_top \<lparr>lo_item_ix = length pre, lo_offset_in_item = goal - px_of pre\<rparr> self = ret self'" "list_inv self'" "scroll_px self' = goal"
        "li_items self' = li_items self" by metis
      then show thesis using True goal unfolded by (intro that [of self']) simp_all
    next
      case less: False
      then have "post \<noteq> []" using c'(3) pos_ok by (auto simp: offset_ok_def)
      with row_at_end [OF c'(4)] c'(3) have "goal \<le> ?px (Suc (length pre))" by simp
      also have "\<dots> \<le> ?px (lo_item_ix ?pos)" using less by (intro px_take_mono [OF heights]) simp
      also have "\<dots> \<le> scroll_px self" using px pos_ok by (simp add: offset_ok_def)
      finally have low: "goal \<le> scroll_px self" .
      have "scroll_px self \<le> ?px ix" using within px_take_mono [OF heights, of "Suc (lo_item_ix ?pos)" ix] False by simp
      with low goal(2) have good: "?good (scroll_px self)" by (auto intro: order_trans add_right_mono)
      from set_scroll_top_ok [OF inv pos_ok] obtain p where
        "set_scroll_top ?pos self = ret (self\<lparr>li_pending_scroll := p, li_logical_scroll_top := Some ?pos\<rparr>)"
        "list_inv (self\<lparr>li_pending_scroll := p, li_logical_scroll_top := Some ?pos\<rparr>)"
        "scroll_px (self\<lparr>li_pending_scroll := p, li_logical_scroll_top := Some ?pos\<rparr>) = scroll_px self"
        using px by auto
      then show thesis using less good unfolded
        by (intro that [of "self\<lparr>li_pending_scroll := p, li_logical_scroll_top := Some ?pos\<rparr>"]) simp_all
    qed
  qed
qed

end
