(* ===== verification/List_Viewport.thy ===== *)
theory List_Viewport
  imports List_Scroll
begin

text \<open>
  What the layout of a list does: the items it lays out are consecutive, have the sizes that the tree has for them afterwards, and
  fill the viewport as far as there are items.
\<close>

section \<open>Walking up and down\<close>

text \<open>A cursor in front of the \<open>k\<close>th item; above the first one it may also have left the items.\<close>

definition at_row :: "(('u::linordered_field, 'f) list_item, 'u list_summary, nat) cursor \<Rightarrow> nat \<Rightarrow> bool" where
  "at_row c k \<longleftrightarrow> wf_tree list_ops (c_tree c) \<and> node_height (c_tree c) < STACK_CAP \<and> k \<le> length (tree_items (c_tree c)) \<and>
     (cursor_ok list_ops count_dim c (take k (tree_items (c_tree c))) (drop k (tree_items (c_tree c))) \<or>
      k = 0 \<and> c_did_seek c \<and> cursor_fresh count_dim c)"

lemma at_row_start: "at_row c k \<Longrightarrow> cursor_start c = k"
  by (auto simp: at_row_def cursor_fresh_def cursor_start_def dest!: ok_start)

lemma fresh_cursor_item: "c_did_seek c \<Longrightarrow> cursor_fresh dim c \<Longrightarrow> cursor_item c = ret None"
  by (simp add: cursor_item_def assert_did_seek_def assert_or_panic_def cursor_fresh_def)

lemma prev_fresh:
  assumes "c_did_seek c" "cursor_fresh dim c"
  shows "cursor_prev dim c = ret c"
  using assms by (cases c) (auto simp: cursor_prev_def search_backward_def cursor_fresh_def)

lemma prev_first:
  assumes "at_row c 0"
  obtains c' where "cursor_prev count_dim c = ret c'" "c_tree c' = c_tree c" "cursor_item c' = ret None" "at_row c' 0"
proof (cases "c_did_seek c \<and> cursor_fresh count_dim c")
  case True
  with assms prev_fresh [of c count_dim] fresh_cursor_item [of c count_dim] show thesis by (intro that [of c]) simp_all
next
  case False
  with assms obtain c' where "cursor_prev count_dim c = ret c'" "c_tree c' = c_tree c" "c_did_seek c'" "cursor_fresh count_dim c'"
    using licount.cursor_prev_start [of c] by (auto simp: at_row_def)
  with assms fresh_cursor_item [of c' count_dim] show thesis by (intro that [of c']) (simp_all add: at_row_def)
qed

lemma prev_row:
  assumes "at_row c (Suc k)"
  obtains c' where "cursor_prev count_dim c = ret c'" "c_tree c' = c_tree c" "cursor_item c' = ret (Some (tree_items (c_tree c) ! k))" "at_row c' k"
proof -
  let ?xs = "tree_items (c_tree c)"
  have k: "k < length ?xs" using assms by (simp add: at_row_def)
  then have "take (Suc k) ?xs = take k ?xs @ [?xs ! k]" "drop k ?xs = ?xs ! k # drop (Suc k) ?xs"
    by (simp_all add: take_Suc_conv_app_nth Cons_nth_drop_Suc)
  with assms obtain c' where "cursor_prev count_dim c = ret c'" "c_tree c' = c_tree c" "cursor_ok list_ops count_dim c' (take k ?xs) (drop k ?xs)"
    using licount.cursor_prev_at [of c "take k ?xs" "?xs ! k" "drop (Suc k) ?xs"] by (auto simp: at_row_def)
  with assms k show thesis
    by (intro that [of c']) (simp_all add: at_row_def cursor_ok_item Cons_nth_drop_Suc [symmetric])
qed

lemma next_row:
  assumes "wf_tree list_ops (c_tree c)" "node_height (c_tree c) < STACK_CAP" "k < length (tree_items (c_tree c))"
    and "cursor_ok list_ops count_dim c (take k (tree_items (c_tree c))) (drop k (tree_items (c_tree c)))"
  obtains c' where "cursor_iter_next count_dim c = ret (Some (tree_items (c_tree c) ! k), c')" "c_tree c' = c_tree c"
    "cursor_ok list_ops count_dim c' (take (Suc k) (tree_items (c_tree c))) (drop (Suc k) (tree_items (c_tree c)))"
proof -
  let ?xs = "tree_items (c_tree c)"
  have xs: "take (Suc k) ?xs = take k ?xs @ [?xs ! k]" "drop k ?xs = ?xs ! k # drop (Suc k) ?xs"
    using assms(3) by (simp_all add: take_Suc_conv_app_nth Cons_nth_drop_Suc)
  then obtain c' where c': "cursor_next count_dim c = ret c'" "c_tree c' = c_tree c" "cursor_ok list_ops count_dim c' (take (Suc k) ?xs) (drop (Suc k) ?xs)"
    using licount.cursor_next_at [OF assms(1,2), of "take k ?xs" "?xs ! k" "drop (Suc k) ?xs"] assms(4) by auto
  have "cursor_item c = ret (Some (?xs ! k))" "c_did_seek c" using cursor_ok_item [OF assms(4)] assms(4) xs(2) by (simp_all add: cursor_ok_def)
  with c' show thesis by (intro that [of c']) (simp_all add: cursor_iter_next_def)
qed

lemma next_end:
  assumes "cursor_ok list_ops count_dim c pre []"
  shows "\<exists>c'. cursor_iter_next count_dim c = ret (None, c')"
  using cursor_ok_item [OF assms] assms by (simp add: cursor_iter_next_def cursor_ok_def)

section \<open>The items that are laid out\<close>

definition sizes_ok :: "('u::linordered_field, 'f, 'e, 'w) list_client \<Rightarrow> bool" where
  "sizes_ok client \<longleftrightarrow> (\<forall>space element window. 0 \<le> sz_height (fst (cl_layout_as_root client space element window)))"

lemma measure_item_ok:
  assumes "measure_item client space ix window = (layout, window')"
  shows "il_index layout = ix" "sizes_ok client \<Longrightarrow> 0 \<le> sz_height (il_size layout)"
proof -
  show "il_index layout = ix" using assms by (auto simp: measure_item_def split: prod.splits)
  assume "sizes_ok client"
  then have "0 \<le> sz_height (fst (cl_layout_as_root client space e w))" for e w by (simp add: sizes_ok_def)
  then show "0 \<le> sz_height (il_size layout)" using assms by (auto simp: measure_item_def split: prod.splits) (metis fst_conv)
qed

text \<open>Measured items that stand for those from the \<open>k\<close>th on.\<close>

definition stands_for :: "('u::linordered_field, 'f) list_item list \<Rightarrow> nat \<Rightarrow> ('u, 'f) list_item list \<Rightarrow> bool" where
  "stands_for xs k ms \<longleftrightarrow> k + length ms \<le> length xs \<and> heights_ok ms \<and> (\<forall>m \<in> set ms. item_size m \<noteq> None) \<and>
     (\<forall>i < length ms. item_focus_handle (ms ! i) = item_focus_handle (xs ! (k + i)))"

text \<open>Layouts of the items from the \<open>k\<close>th on, with the sizes that were measured.\<close>

definition shows_items :: "nat \<Rightarrow> ('u, 'f) list_item list \<Rightarrow> ('u, 'e) item_layout list \<Rightarrow> bool" where
  "shows_items k ms ls \<longleftrightarrow> length ls \<le> length ms \<and>
     (\<forall>i < length ls. il_index (ls ! i) = k + i \<and> item_size (ms ! i) = Some (il_size (ls ! i)))"

lemma stands_for_Nil [simp]: "stands_for xs k [] \<longleftrightarrow> k \<le> length xs"
  by (simp add: stands_for_def)

lemma shows_items_Nil [simp]: "shows_items k ms []"
  by (simp add: shows_items_def)

lemma measured_height [simp]: "item_height (Measured sz f) = sz_height sz"
  by (simp add: item_height_def item_size_hint_def)

lemma measured_size [simp]: "item_size (Measured sz f) = Some sz" "item_focus_handle (Measured sz f) = f"
  by (simp_all add: item_size_def item_focus_handle_def)

lemma stands_for_snoc:
  assumes "stands_for xs k ms" "k + length ms < length xs" "0 \<le> sz_height sz"
  shows "stands_for xs k (ms @ [Measured sz (item_focus_handle (xs ! (k + length ms)))])"
  using assms by (auto simp: stands_for_def nth_append less_Suc_eq)

lemma stands_for_Cons:
  assumes "stands_for xs (Suc k) ms" "0 \<le> sz_height sz"
  shows "stands_for xs k (Measured sz (item_focus_handle (xs ! k)) # ms)"
  using assms by (auto simp: stands_for_def nth_Cons split: nat.splits)

lemma shows_items_snoc:
  assumes "shows_items k ms ls" "length ls = length ms" "il_index l = k + length ms"
  shows "shows_items k (ms @ [Measured (il_size l) f]) (ls @ [l])"
  using assms by (auto simp: shows_items_def nth_append less_Suc_eq)

lemma shows_items_more: "shows_items k ms ls \<Longrightarrow> shows_items k (ms @ ms') ls"
  by (auto simp: shows_items_def nth_append)

lemma shows_items_Cons:
  assumes "shows_items (Suc k) ms ls" "il_index l = k"
  shows "shows_items k (Measured (il_size l) f # ms) (l # ls)"
  using assms by (auto simp: shows_items_def nth_Cons split: nat.splits)

section \<open>Below the scroll top\<close>

text \<open>The state is changed in its scroll position only, which is the one the layout uses.\<close>

definition scroll_only :: "('u::linordered_field, 'f, 'w) list_state \<Rightarrow> ('u, 'f, 'e, 'w) layout_progress \<Rightarrow> bool" where
  "scroll_only self p \<longleftrightarrow> (\<exists>pend t. lp_state p = self\<lparr>li_pending_scroll := pend, li_logical_scroll_top := t\<rparr> \<and> pred_option pending_ok pend) \<and>
     logical_scroll_top (lp_state p) = lp_scroll_top p"

text \<open>
  The items from the \<open>k\<close>th on are measured; if the padding above them leaves room, those that are not laid out lie below the
  viewport of height \<open>h\<close>.
\<close>

definition below_ok ::
  "('u::linordered_field, 'f) list_item list \<Rightarrow> nat \<Rightarrow> 'u \<Rightarrow> 'u \<Rightarrow> ('u, 'f, 'e, 'w) layout_progress \<Rightarrow> bool" where
  "below_ok xs k pt h p \<longleftrightarrow>
     stands_for xs k (lp_measured_items p) \<and>
     lp_rendered_height p = pt + px_of (lp_measured_items p) \<and> lo_item_ix (lp_scroll_top p) = k \<and> 0 \<le> lo_offset_in_item (lp_scroll_top p) \<and>
     (pt < h \<longrightarrow> shows_items k (lp_measured_items p) (lp_item_layouts p) \<and>
       (length (lp_item_layouts p) = length (lp_measured_items p) \<or>
        h \<le> pt + px_of (take (length (lp_item_layouts p)) (lp_measured_items p)) - lo_offset_in_item (lp_scroll_top p)))"

lemma apply_pending_keeps:
  "lp_measured_items (apply_pending_scroll sz p) = lp_measured_items p" "lp_item_layouts (apply_pending_scroll sz p) = lp_item_layouts p"
  "lp_rendered_height (apply_pending_scroll sz p) = lp_rendered_height p" "lo_item_ix (lp_scroll_top (apply_pending_scroll sz p)) = lo_item_ix (lp_scroll_top p)"
  by (auto simp: apply_pending_scroll_def Let_def split: option.splits pending_scroll.splits)

lemma apply_pending_ok:
  assumes "scroll_only self p" "0 \<le> sz_height sz" "0 \<le> lo_offset_in_item (lp_scroll_top p)"
  shows "0 \<le> lo_offset_in_item (lp_scroll_top (apply_pending_scroll sz p))" "scroll_only self (apply_pending_scroll sz p)"
proof -
  obtain pend t where s: "lp_state p = self\<lparr>li_pending_scroll := pend, li_logical_scroll_top := t\<rparr>" "pred_option pending_ok pend"
    "logical_scroll_top (lp_state p) = lp_scroll_top p" using assms(1) by (auto simp: scroll_only_def)
  show "0 \<le> lo_offset_in_item (lp_scroll_top (apply_pending_scroll sz p))"
    using s(1,2) assms(2,3) by (cases pend) (auto simp: apply_pending_scroll_def Let_def split: pending_scroll.splits)
  have none: "scroll_only self (p\<lparr>lp_state := lp_state p\<lparr>li_pending_scroll := None\<rparr>\<rparr>)"
  proof -
    have "logical_scroll_top (lp_state p\<lparr>li_pending_scroll := None\<rparr>) = logical_scroll_top (lp_state p)"
      by (cases "li_logical_scroll_top (lp_state p)"; cases "li_alignment (lp_state p)") (simp_all add: logical_scroll_top_def list_item_count_def)
    then show ?thesis using s by (auto simp: scroll_only_def intro!: exI [of _ None] exI [of _ t])
  qed
  have some: "scroll_only self (p\<lparr>lp_scroll_top := pos, lp_state := lp_state p\<lparr>li_pending_scroll := None, li_logical_scroll_top := Some pos\<rparr>\<rparr>)" for pos
    using s(1) by (auto simp: scroll_only_def logical_scroll_top_def intro!: exI [of _ None] exI [of _ "Some pos"])
  show "scroll_only self (apply_pending_scroll sz p)"
    unfolding apply_pending_scroll_def Let_def by (auto simp: none some assms(1) split: option.splits pending_scroll.splits)
qed

lemma scroll_only_same:
  assumes "scroll_only self p" "lp_state p' = lp_state p" "lp_scroll_top p' = lp_scroll_top p"
  shows "scroll_only self p'"
  using assms by (simp add: scroll_only_def)

text \<open>An item below the viewport is only measured.\<close>

lemma below_ok_measured:
  assumes "below_ok xs k pt h p" "h \<le> lp_rendered_height p - lo_offset_in_item (lp_scroll_top p)" "0 \<le> sz_height sz"
    and "k + length (lp_measured_items p) < length xs"
    and "lp_measured_items p' = lp_measured_items p @ [Measured sz (item_focus_handle (xs ! (k + length (lp_measured_items p))))]"
    and "lp_item_layouts p' = lp_item_layouts p" "lp_rendered_height p' = lp_rendered_height p + sz_height sz" "lp_scroll_top p' = lp_scroll_top p"
  shows "below_ok xs k pt h p'"
  using assms by (auto simp: below_ok_def stands_for_snoc shows_items_more) (auto simp: shows_items_def)

lemma known_size_height:
  assumes "heights_ok xs" "i < length xs" "item_size (xs ! i) = Some sz"
  shows "0 \<le> sz_height sz"
proof -
  have "0 \<le> item_height (xs ! i)" using assms(1,2) by (simp add: heights_ok_def)
  then show ?thesis using assms(3) by (cases "xs ! i") (simp_all add: item_size_def)
qed

text \<open>One item more. The first one is laid out if the padding leaves room.\<close>

lemma render_item_after_ok:
  assumes sizes: "sizes_ok client" and heights: "heights_ok xs"
    and p: "below_ok xs k pt h p" "scroll_only self p" and more: "k + length (lp_measured_items p) < length xs"
  obtains p' where "render_item_after client space h (length (lp_measured_items p)) (xs ! (k + length (lp_measured_items p))) p = ret p'"
    "below_ok xs k pt h p'" "scroll_only self p'" "length (lp_measured_items p') = Suc (length (lp_measured_items p))"
proof -
  let ?ms = "lp_measured_items p" and ?ls = "lp_item_layouts p" and ?item = "xs ! (k + length (lp_measured_items p))"
  let ?visible = "lp_rendered_height p - lo_offset_in_item (lp_scroll_top p)"
  obtain layout window where m: "measure_item client space (k + length ?ms) (lp_window p) = (layout, window)" by (cases "measure_item client space (k + length ?ms) (lp_window p)")
  note layout = measure_item_ok [OF m]
  have b: "stands_for xs k ?ms" "pt < h \<Longrightarrow> shows_items k ?ms ?ls" "lp_rendered_height p = pt + px_of ?ms" "lo_item_ix (lp_scroll_top p) = k"
    "0 \<le> lo_offset_in_item (lp_scroll_top p)"
    "pt < h \<Longrightarrow> length ?ls = length ?ms \<or> h \<le> pt + px_of (take (length ?ls) ?ms) - lo_offset_in_item (lp_scroll_top p)"
    using p(1) by (auto simp: below_ok_def)
  have ms: "heights_ok ?ms" using b(1) by (simp add: stands_for_def)
  have all: "length ?ls = length ?ms" if "?visible < h" "pt < h"
    using that b(3,6) px_of_take_le [OF ms, of "length ?ls"] by auto
  have first: "?visible < h" if "?ms = []" "pt < h" using that b(3,5) by simp
  show thesis
  proof (cases "?visible < h \<or> item_size ?item = None")
    case True
    define q where "q = (let p' = p\<lparr>lp_window := window\<rparr> in if length ?ms = 0 then apply_pending_scroll (il_size layout) p' else p')"
    have q: "lp_measured_items q = ?ms" "lp_item_layouts q = ?ls" "lp_rendered_height q = lp_rendered_height p" "lo_item_ix (lp_scroll_top q) = k"
      "scroll_only self q" "0 \<le> lo_offset_in_item (lp_scroll_top q)" "?ms \<noteq> [] \<longrightarrow> lp_scroll_top q = lp_scroll_top p"
      using b apply_pending_ok [of self "p\<lparr>lp_window := window\<rparr>" "il_size layout"] scroll_only_same [OF p(2), of "p\<lparr>lp_window := window\<rparr>"] layout(2) sizes
      by (simp_all add: q_def apply_pending_keeps)
    define r where "r = (if ?visible < h then q\<lparr>lp_item_layouts := lp_item_layouts q @ [layout],
      lp_rendered_focused_item := (lp_rendered_focused_item q \<or> contains_focused client window ?item)\<rparr> else q)"
    let ?p' = "r\<lparr>lp_rendered_height := lp_rendered_height r + sz_height (il_size layout),
      lp_max_item_width := max (lp_max_item_width r) (sz_width (il_size layout)),
      lp_measured_items := lp_measured_items r @ [Measured (il_size layout) (item_focus_handle ?item)]\<rparr>"
    have "render_item_after client space h (length ?ms) ?item p = ret ?p'"
      using True b(4) m by (simp add: render_item_after_def q_def r_def Let_def)
    moreover have "below_ok xs k pt h ?p'"
    proof (cases "?visible < h \<or> \<not> pt < h")
      case vis: True
      with all b q layout sizes more show ?thesis
        by (cases "pt < h") (simp_all add: below_ok_def r_def stands_for_snoc shows_items_snoc)
    next
      case vis: False
      then have "lp_scroll_top q = lp_scroll_top p" using first q(7) by blast
      with vis q layout sizes more show ?thesis
        by (intro below_ok_measured [OF p(1)]) (simp_all add: r_def)
    qed
    moreover have "scroll_only self ?p'" using q(5) by (rule scroll_only_same) (simp_all add: r_def)
    moreover have "length (lp_measured_items ?p') = Suc (length ?ms)" using q by (simp add: r_def)
    ultimately show thesis by (rule that)
  next
    case False
    then obtain sz where sz: "item_size ?item = Some sz" by auto
    let ?p' = "p\<lparr>lp_rendered_height := lp_rendered_height p + sz_height sz, lp_max_item_width := max (lp_max_item_width p) (sz_width sz),
      lp_measured_items := ?ms @ [Measured sz (item_focus_handle ?item)]\<rparr>"
    have "render_item_after client space h (length ?ms) ?item p = ret ?p'" using False sz by (simp add: render_item_after_def)
    moreover have "below_ok xs k pt h ?p'"
      using False known_size_height [OF heights more sz] more by (intro below_ok_measured [OF p(1)]) simp_all
    moreover have "scroll_only self ?p'" using p(2) by (rule scroll_only_same) simp_all
    ultimately show thesis by (rule that) simp
  qed
qed

lemma render_after_loop_ok:
  assumes "sizes_ok client" "wf_tree list_ops t" "node_height t < STACK_CAP" "heights_ok (tree_items t)"
    and "below_ok (tree_items t) k pt h p" "scroll_only self p" "c_tree c = t"
    and "cursor_ok list_ops count_dim c (take (k + length (lp_measured_items p)) (tree_items t)) (drop (k + length (lp_measured_items p)) (tree_items t))"
    and "length (tree_items t) - (k + length (lp_measured_items p)) < n"
  shows "\<exists>p'. render_after_loop client space h n (length (lp_measured_items p)) c p = ret p' \<and> below_ok (tree_items t) k pt h p' \<and>
    scroll_only self p' \<and> (k + length (lp_measured_items p') = length (tree_items t) \<or>
      h + li_overdraw self \<le> lp_rendered_height p' - lo_offset_in_item (lp_scroll_top p'))"
  using assms(5-)
proof (induction n arbitrary: c p)
  case (Suc n)
  let ?xs = "tree_items t" and ?i = "k + length (lp_measured_items p)"
  have le: "?i \<le> length ?xs" using Suc.prems(1) by (simp add: below_ok_def stands_for_def)
  have over: "li_overdraw (lp_state p) = li_overdraw self" using Suc.prems(2) by (auto simp: scroll_only_def)
  show ?case
  proof (cases "?i < length ?xs")
    case False
    then have "drop ?i ?xs = []" "?i = length ?xs" using le by simp_all
    moreover obtain c' where "cursor_iter_next count_dim c = ret (None, c')"
      using next_end [of c "take ?i ?xs"] Suc.prems(4) calculation(1) by auto
    ultimately show ?thesis using Suc.prems by simp
  next
    case True
    obtain c' where c': "cursor_iter_next count_dim c = ret (Some (?xs ! ?i), c')" "c_tree c' = t"
      "cursor_ok list_ops count_dim c' (take (Suc ?i) ?xs) (drop (Suc ?i) ?xs)"
      using next_row [of c ?i] assms(2,3) Suc.prems(3,4) True by metis
    show ?thesis
    proof (cases "lp_rendered_height p - lo_offset_in_item (lp_scroll_top p) \<ge> h + li_overdraw self")
      case True
      with c'(1) Suc.prems over show ?thesis by simp
    next
      case no_break: False
      obtain p' where p': "render_item_after client space h (length (lp_measured_items p)) (?xs ! ?i) p = ret p'"
        "below_ok ?xs k pt h p'" "scroll_only self p'" "length (lp_measured_items p') = Suc (length (lp_measured_items p))"
        using render_item_after_ok [OF assms(1,4) Suc.prems(1,2) True] by blast
      have "length ?xs - (k + length (lp_measured_items p')) < n" using Suc.prems(5) True p'(4) by simp
      from Suc.IH [OF p'(2,3) c'(2) _ this] c' p' no_break over show ?thesis by simp
    qed
  qed
qed simp

section \<open>Above the scroll top\<close>

text \<open>All items from the \<open>k\<close>th on are measured and, with room, laid out.\<close>

definition shown_to_end :: "bool \<Rightarrow> ('u::linordered_field, 'f) list_item list \<Rightarrow> nat \<Rightarrow> 'u \<Rightarrow> ('u, 'f, 'e, 'w) layout_progress \<Rightarrow> bool" where
  "shown_to_end room xs k pads p \<longleftrightarrow> stands_for xs k (lp_measured_items p) \<and>
     lp_rendered_height p = pads + px_of (lp_measured_items p) \<and> k + length (lp_measured_items p) = length xs \<and>
     (room \<longrightarrow> shows_items k (lp_measured_items p) (lp_item_layouts p) \<and> length (lp_item_layouts p) = length (lp_measured_items p))"

lemma fill_upward_loop_ok:
  assumes "sizes_ok client" "at_row c k" "shown_to_end room (tree_items (c_tree c)) k pads p" "k < n"
  shows "\<exists>c' p' k'. fill_upward_loop client space h n c p = ret (c', p') \<and> c_tree c' = c_tree c \<and> at_row c' k' \<and>
    shown_to_end room (tree_items (c_tree c)) k' pads p' \<and> (h \<le> lp_rendered_height p' \<or> k' = 0) \<and> lp_state p' = lp_state p"
  using assms(2-)
proof (induction n arbitrary: c p k)
  case (Suc n)
  show ?case
  proof (cases "lp_rendered_height p < h")
    case False
    with Suc.prems(1,2) show ?thesis by (auto intro!: exI [of _ c] exI [of _ k])
  next
    case True
    show ?thesis
    proof (cases k)
      case 0
      with Suc.prems(1) obtain c' where "cursor_prev count_dim c = ret c'" "c_tree c' = c_tree c" "cursor_item c' = ret None" "at_row c' 0"
        using prev_first by blast
      with True 0 Suc.prems(2) show ?thesis by auto
    next
      case (Suc m)
      let ?xs = "tree_items (c_tree c)"
      obtain c' where c': "cursor_prev count_dim c = ret c'" "c_tree c' = c_tree c" "cursor_item c' = ret (Some (?xs ! m))" "at_row c' m"
        using prev_row Suc.prems(1) Suc by blast
      obtain layout window where l: "measure_item client space m (lp_window p) = (layout, window)"
        by (cases "measure_item client space m (lp_window p)")
      define p' where "p' = p\<lparr>lp_window := window, lp_rendered_height := lp_rendered_height p + sz_height (il_size layout),
        lp_measured_items := Measured (il_size layout) (item_focus_handle (?xs ! m)) # lp_measured_items p,
        lp_item_layouts := layout # lp_item_layouts p,
        lp_rendered_focused_item := (lp_rendered_focused_item p \<or> contains_focused client window (?xs ! m))\<rparr>"
      have "shown_to_end room ?xs m pads p'"
        using Suc.prems(2) Suc measure_item_ok [OF l] assms(1) by (simp add: shown_to_end_def p'_def stands_for_Cons shows_items_Cons)
      from Suc.IH [OF c'(4), of p'] this c'(2) Suc.prems(3) Suc
      obtain c2 p2 k2 where "fill_upward_loop client space h n c' p' = ret (c2, p2)" "c_tree c2 = c_tree c" "at_row c2 k2"
        "shown_to_end room ?xs k2 pads p2" "h \<le> lp_rendered_height p2 \<or> k2 = 0" "lp_state p2 = lp_state p'"
        by auto
      moreover have "fill_upward_loop client space h (Suc n) c p = fill_upward_loop client space h n c' p'"
        using True c' l at_row_start [OF c'(4)] by (simp add: p'_def)
      ultimately show ?thesis by (auto simp: p'_def)
    qed
  qed
qed simp

text \<open>Measuring in the overdraw above.\<close>

lemma leading_overdraw_loop_ok:
  assumes "sizes_ok client" "heights_ok (tree_items t)" "c_tree c = t" "at_row c k" "stands_for (tree_items t) k (lp_measured_items p)" "k < n"
  shows "\<exists>c' window ms k'. leading_overdraw_loop client space n d c p =
      ret (c', p\<lparr>lp_window := window, lp_measured_items := ms @ lp_measured_items p\<rparr>) \<and>
    at_row c' k' \<and> k = k' + length ms \<and> stands_for (tree_items t) k' (ms @ lp_measured_items p)"
  using assms(3-)
proof (induction n arbitrary: c p k d)
  case (Suc n)
  show ?case
  proof (cases "d < li_overdraw (lp_state p)")
    case False
    with Suc.prems show ?thesis by (intro exI [of _ c] exI [of _ "lp_window p"] exI [of _ "[]"] exI [of _ k]) simp
  next
    case True
    show ?thesis
    proof (cases k)
      case 0
      with Suc.prems(2) obtain c' where "cursor_prev count_dim c = ret c'" "c_tree c' = c_tree c" "cursor_item c' = ret None" "at_row c' 0"
        using prev_first by blast
      with True 0 Suc.prems show ?thesis by (intro exI [of _ c'] exI [of _ "lp_window p"] exI [of _ "[]"] exI [of _ 0]) simp
    next
      case (Suc m)
      let ?xs = "tree_items t"
      obtain c' where c': "cursor_prev count_dim c = ret c'" "c_tree c' = t" "cursor_item c' = ret (Some (?xs ! m))" "at_row c' m"
        using prev_row Suc.prems(1,2) Suc by metis
      obtain sz window where sz: "(case item_size (?xs ! m) of Some sz \<Rightarrow> (sz, lp_window p)
          | None \<Rightarrow> (case measure_item client space m (lp_window p) of (layout, window) \<Rightarrow> (il_size layout, window))) = (sz, window)"
        by (meson surj_pair)
      have "m < length ?xs" using Suc.prems(1,2) Suc by (simp add: at_row_def)
      then have "0 \<le> sz_height sz"
        using sz known_size_height [OF assms(2)] measure_item_ok(2) assms(1) by (fastforce split: option.splits prod.splits)
      then have st: "stands_for ?xs m (Measured sz (item_focus_handle (?xs ! m)) # lp_measured_items p)"
        using Suc.prems(3) Suc by (simp add: stands_for_Cons)
      let ?p = "p\<lparr>lp_window := window, lp_measured_items := Measured sz (item_focus_handle (?xs ! m)) # lp_measured_items p\<rparr>"
      obtain c2 w2 ms k2 where r: "leading_overdraw_loop client space n (d + sz_height sz) c' ?p = ret (c2, ?p\<lparr>lp_window := w2, lp_measured_items := ms @ lp_measured_items ?p\<rparr>)"
        "at_row c2 k2" "m = k2 + length ms" "stands_for ?xs k2 (ms @ lp_measured_items ?p)"
        using Suc.IH [OF c'(2,4), of ?p "d + sz_height sz"] st Suc.prems(4) Suc by auto
      have "leading_overdraw_loop client space (Suc n) d c p = leading_overdraw_loop client space n (d + sz_height sz) c' ?p"
        using True c' sz at_row_start [OF c'(4)] by (cases "item_size (?xs ! m)") (auto split: prod.splits)
      with r Suc show ?thesis
        by (intro exI [of _ c2] exI [of _ w2] exI [of _ "ms @ [Measured sz (item_focus_handle (?xs ! m))]"] exI [of _ k2]) simp
    qed
  qed
qed simp

section \<open>The new items\<close>

lemma replace_measured_ok:
  assumes "wf_tree list_ops t" "node_height t < STACK_CAP" "stands_for (tree_items t) k ms"
  obtains t' where "replace_measured k ms t = ret t'" "wf_tree list_ops t'"
    "tree_items t' = take k (tree_items t) @ ms @ drop (k + length ms) (tree_items t)"
proof -
  obtain t1 c1 where s: "slice list_ops count_dim (ord_target k) Right (cursor_new count_dim t) = ret (t1, c1)"
    "wf_tree list_ops t1" "tree_items t1 = take k (tree_items t)" "c_tree c1 = t"
    using by_count.slice_count [of "cursor_new count_dim t" "[]" "tree_items t" k] assms(1,2) by (auto simp: targets_list)
  obtain fd c2 where f: "seek count_dim (ord_target (k + length ms)) Right c1 = ret (fd, c2)" "c_tree c2 = t"
    "cursor_ok list_ops count_dim c2 (take (k + length ms) (tree_items t)) (drop (k + length ms) (tree_items t))"
    using by_count.seek_count [of c1 "k + length ms"] assms(1,2) s(4) by (auto simp: targets_list)
  obtain t3 c3 where x: "suffix list_ops count_dim c2 = ret (t3, c3)" "wf_tree list_ops t3" "tree_items t3 = drop (k + length ms) (tree_items t)"
    using suffix_rows [OF _ _ f(3)] f(2) assms(1,2) by auto
  obtain t2 t' where "tree_extend list_ops t1 ms = ret t2" "append_tree list_ops t2 t3 = ret t'" "wf_tree list_ops t'"
    "tree_items t' = take k (tree_items t) @ ms @ drop (k + length ms) (tree_items t)"
    using extend_append_ok [OF s(2) x(2), of ms] s(3) x(3) by metis
  with s(1) f(1) x(1) show thesis by (intro that [of t']) (simp_all add: replace_measured_def)
qed

section \<open>The viewport\<close>

text \<open>
  The layouts of a list with the items \<open>ys\<close> after a layout with the scroll top \<open>pos\<close>, in a viewport of height \<open>h\<close>: consecutive items
  from the one at the scroll top on, with their sizes. They reach the lower edge or else the end of the list, and then either the lower
  padding reaches the edge or the whole list is shown; it starts above the viewport only if a list aligned to the bottom is shown as a whole.
\<close>

definition viewport_filled ::
  "'u edges \<Rightarrow> 'u \<Rightarrow> list_alignment \<Rightarrow> ('u::linordered_field, 'f) list_item list \<Rightarrow> 'u list_offset \<Rightarrow> ('u, 'e) item_layout list \<Rightarrow> bool" where
  "viewport_filled padding h alignment ys pos layouts \<longleftrightarrow> (
     let first = lo_item_ix pos; off = lo_offset_in_item pos; count = length layouts;
         bottom = ed_top padding + px_of (take count (drop first ys)) - off in
     first + count \<le> length ys \<and>
     (\<forall>i < count. il_index (layouts ! i) = first + i \<and> item_size (ys ! (first + i)) = Some (il_size (layouts ! i))) \<and>
     (h \<le> bottom \<or> first + count = length ys \<and> (h \<le> bottom + ed_bottom padding \<or> first = 0)) \<and>
     (0 \<le> off \<or> alignment = Align_Bottom \<and> first = 0 \<and> count = length ys \<and> bottom + ed_bottom padding = h))"

definition same_items :: "('u, 'f) list_item list \<Rightarrow> ('u, 'f) list_item list \<Rightarrow> bool" where
  "same_items xs ys \<longleftrightarrow> map item_focus_handle xs = map item_focus_handle ys"

lemma same_items_replaced:
  assumes "stands_for xs k ms"
  shows "same_items xs (take k xs @ ms @ drop (k + length ms) xs)" "length (take k xs @ ms @ drop (k + length ms) xs) = length xs"
proof -
  have "map item_focus_handle ms = map item_focus_handle (take (length ms) (drop k xs))"
    using assms by (intro nth_equalityI) (auto simp: stands_for_def)
  moreover have "xs = take k xs @ take (length ms) (drop k xs) @ drop (k + length ms) xs"
    by (metis append_take_drop_id drop_drop add.commute)
  ultimately show "same_items xs (take k xs @ ms @ drop (k + length ms) xs)" unfolding same_items_def by (metis map_append)
  show "length (take k xs @ ms @ drop (k + length ms) xs) = length xs" using assms by (simp add: stands_for_def)
qed

text \<open>The items measured by a layout: those above the first one laid out, and those from it on.\<close>

lemma take_replaced:
  assumes "stands_for xs k (ms @ ns)" "n \<le> length ns"
  shows "take n (drop (k + length ms) (take k xs @ (ms @ ns) @ drop (k + length (ms @ ns)) xs)) = take n ns"
proof -
  have "k + length ms = length (take k xs @ ms)" using assms(1) by (simp add: stands_for_def)
  then have "drop (k + length ms) ((take k xs @ ms) @ ns @ drop (k + length (ms @ ns)) xs) = ns @ drop (k + length (ms @ ns)) xs"
    by (metis append_eq_conv_conj)
  with assms(2) show ?thesis by simp
qed

lemma nth_replaced:
  assumes "stands_for xs k (ms @ ns)" "i < length ns"
  shows "(take k xs @ (ms @ ns) @ drop (k + length (ms @ ns)) xs) ! (k + length ms + i) = ns ! i"
  using assms by (simp add: stands_for_def nth_append min_def)

text \<open>What is known when the items above have been laid out as well.\<close>

definition filled_ok ::
  "('u::linordered_field, 'f) list_item list \<Rightarrow> 'u edges \<Rightarrow> 'u \<Rightarrow> list_alignment \<Rightarrow> ('u, 'f, 'e, 'w) layout_progress \<Rightarrow> bool" where
  "filled_ok xs padding h alignment p \<longleftrightarrow> (
     let first = lo_item_ix (lp_scroll_top p); off = lo_offset_in_item (lp_scroll_top p); count = length (lp_item_layouts p);
         bottom = ed_top padding + px_of (take count (lp_measured_items p)) - off in
     stands_for xs first (lp_measured_items p) \<and> (ed_top padding < h \<longrightarrow>
     shows_items first (lp_measured_items p) (lp_item_layouts p) \<and>
     (h \<le> bottom \<or> first + count = length xs \<and> (h \<le> bottom + ed_bottom padding \<or> first = 0)) \<and>
     (0 \<le> off \<or> alignment = Align_Bottom \<and> first = 0 \<and> count = length xs \<and> bottom + ed_bottom padding = h)))"

text \<open>The list is laid out to its end, and ends within the viewport if the padding leaves room at all.\<close>

definition tail_shown ::
  "'u edges \<Rightarrow> 'u \<Rightarrow> nat \<Rightarrow> ('u::linordered_field, 'f) list_item list \<Rightarrow> 'u list_offset \<Rightarrow> ('u, 'e) item_layout list \<Rightarrow> bool" where
  "tail_shown padding h n items pos layouts \<longleftrightarrow> lo_item_ix pos + length layouts = n \<and>
     (ed_top padding + ed_bottom padding < h \<longrightarrow>
       ed_top padding + px_of (take (length layouts) items) - lo_offset_in_item pos + ed_bottom padding \<le> h)"

lemma filled_viewport:
  assumes "ed_top padding < h" "filled_ok xs padding h alignment p" "stands_for xs k (ms @ lp_measured_items p)" "lo_item_ix (lp_scroll_top p) = k + length ms"
  shows "viewport_filled padding h alignment (take k xs @ (ms @ lp_measured_items p) @ drop (k + length (ms @ lp_measured_items p)) xs)
    (lp_scroll_top p) (lp_item_layouts p)"
    "tail_shown padding h n (lp_measured_items p) (lp_scroll_top p) (lp_item_layouts p) \<Longrightarrow>
     tail_shown padding h n (drop (lo_item_ix (lp_scroll_top p)) (take k xs @ (ms @ lp_measured_items p) @ drop (k + length (ms @ lp_measured_items p)) xs))
       (lp_scroll_top p) (lp_item_layouts p)"
proof -
  define ys where "ys = take k xs @ (ms @ lp_measured_items p) @ drop (k + length (ms @ lp_measured_items p)) xs"
  let ?n = "length (lp_item_layouts p)" and ?first = "k + length ms"
  have l: "?n \<le> length (lp_measured_items p)" using assms(1,2) by (simp add: filled_ok_def Let_def shows_items_def)
  have len: "length ys = length xs" unfolding ys_def by (rule same_items_replaced(2) [OF assms(3)])
  have st: "?first + ?n \<le> length xs" using assms(3) l by (simp add: stands_for_def)
  have px: "take ?n (drop ?first ys) = take ?n (lp_measured_items p)" unfolding ys_def by (rule take_replaced [OF assms(3) l])
  have nth: "ys ! (?first + i) = lp_measured_items p ! i" if "i < ?n" for i
    unfolding ys_def by (rule nth_replaced [OF assms(3)]) (use that l in simp)
  have "viewport_filled padding h alignment ys (lp_scroll_top p) (lp_item_layouts p)"
    using assms(1,2) st unfolding viewport_filled_def filled_ok_def Let_def assms(4) len px by (auto simp: nth shows_items_def)
  then show "viewport_filled padding h alignment (take k xs @ (ms @ lp_measured_items p) @ drop (k + length (ms @ lp_measured_items p)) xs)
    (lp_scroll_top p) (lp_item_layouts p)" by (simp add: ys_def)
  show "tail_shown padding h n (lp_measured_items p) (lp_scroll_top p) (lp_item_layouts p) \<Longrightarrow>
     tail_shown padding h n (drop (lo_item_ix (lp_scroll_top p)) (take k xs @ (ms @ lp_measured_items p) @ drop (k + length (ms @ lp_measured_items p)) xs))
       (lp_scroll_top p) (lp_item_layouts p)"
    unfolding tail_shown_def assms(4) using px by (simp add: ys_def)
qed

text \<open>The items below, with the lower padding, show the list to its end unless they fill the viewport.\<close>

definition rendered_below ::
  "('u::linordered_field, 'f) list_item list \<Rightarrow> nat \<Rightarrow> 'u edges \<Rightarrow> 'u \<Rightarrow> ('u, 'f, 'e, 'w) layout_progress \<Rightarrow> bool" where
  "rendered_below xs k padding h p \<longleftrightarrow>
     (\<exists>q. p = q\<lparr>lp_rendered_height := lp_rendered_height q + ed_bottom padding\<rparr> \<and> below_ok xs k (ed_top padding) h q \<and>
       (k + length (lp_measured_items q) = length xs \<or> h \<le> lp_rendered_height q - lo_offset_in_item (lp_scroll_top q)))"

lemma rendered_below_filled:
  assumes "rendered_below xs k padding h p" "h \<le> lp_rendered_height p - lo_offset_in_item (lp_scroll_top p)"
  shows "filled_ok xs padding h alignment p" "lo_item_ix (lp_scroll_top p) = k" "0 \<le> lo_offset_in_item (lp_scroll_top p)"
    "k \<le> length xs"
    "k = length xs \<longrightarrow> ed_top padding < h \<longrightarrow> tail_shown padding h (length xs) (lp_measured_items p) (lp_scroll_top p) (lp_item_layouts p)"
  using assms by (auto simp: rendered_below_def filled_ok_def below_ok_def Let_def stands_for_def shows_items_def tail_shown_def)

lemma rendered_below_end:
  assumes "rendered_below xs k padding h p" "lp_rendered_height p - lo_offset_in_item (lp_scroll_top p) < h" "0 \<le> ed_bottom padding"
  shows "shown_to_end (ed_top padding < h) xs k (ed_top padding + ed_bottom padding) p"
proof -
  obtain q where q: "p = q\<lparr>lp_rendered_height := lp_rendered_height q + ed_bottom padding\<rparr>" "below_ok xs k (ed_top padding) h q"
    "k + length (lp_measured_items q) = length xs \<or> h \<le> lp_rendered_height q - lo_offset_in_item (lp_scroll_top q)"
    using assms(1) by (auto simp: rendered_below_def)
  then have "lp_rendered_height q - lo_offset_in_item (lp_scroll_top q) < h" using assms(2,3) by simp
  moreover have "px_of (take (length (lp_item_layouts q)) (lp_measured_items q)) \<le> px_of (lp_measured_items q)"
    using q(2) by (intro px_of_take_le) (simp add: below_ok_def stands_for_def)
  ultimately show ?thesis using q by (auto simp: shown_to_end_def below_ok_def)
qed

lemma fill_upward_ok:
  assumes "sizes_ok client" "at_row c k" "rendered_below (tree_items (c_tree c)) k padding h p" "0 \<le> ed_bottom padding"
    and "scroll_only self p"
  shows "\<exists>c' p' k'. fill_upward client space h c p = ret (c', p') \<and> c_tree c' = c_tree c \<and> at_row c' k' \<and>
    lo_item_ix (lp_scroll_top p') = k' \<and> filled_ok (tree_items (c_tree c)) padding h (li_alignment self) p' \<and>
    (k = length (tree_items (c_tree c)) \<longrightarrow> ed_top padding < h \<longrightarrow>
      tail_shown padding h k (lp_measured_items p') (lp_scroll_top p') (lp_item_layouts p')) \<and>
    (scroll_only self p' \<and> 0 \<le> lo_offset_in_item (lp_scroll_top p') \<or>
     li_alignment self = Align_Bottom \<and> (\<exists>pend. lp_state p' = self\<lparr>li_pending_scroll := pend, li_logical_scroll_top := None\<rparr> \<and> pred_option pending_ok pend))"
proof (cases "lp_rendered_height p - lo_offset_in_item (lp_scroll_top p) < h")
  case False
  with assms rendered_below_filled [OF assms(3)] show ?thesis
    by (intro exI [of _ c] exI [of _ p] exI [of _ k]) (simp add: fill_upward_def not_less)
next
  case True
  let ?xs = "tree_items (c_tree c)" and ?pads = "ed_top padding + ed_bottom padding"
  obtain pend t where st: "lp_state p = self\<lparr>li_pending_scroll := pend, li_logical_scroll_top := t\<rparr>" "pred_option pending_ok pend"
    using assms(5) by (auto simp: scroll_only_def)
  have "k < weight (c_tree c)" using assms(2) weight_items [of list_ops "c_tree c"] by (simp add: at_row_def)
  then obtain c' p' k' where r: "fill_upward_loop client space h (weight (c_tree c)) c p = ret (c', p')" "c_tree c' = c_tree c" "at_row c' k'"
    "shown_to_end (ed_top padding < h) ?xs k' ?pads p'" "h \<le> lp_rendered_height p' \<or> k' = 0" "lp_state p' = lp_state p"
    using fill_upward_loop_ok [OF assms(1,2) rendered_below_end [OF assms(3) True assms(4)]] by blast
  have len: "k' + length (lp_item_layouts p') = length ?xs" "take (length (lp_item_layouts p')) (lp_measured_items p') = lp_measured_items p'"
    if "ed_top padding < h"
    using r(4) that by (simp_all add: shown_to_end_def)
  let ?pos = "\<lparr>lo_item_ix = k', lo_offset_in_item = lp_rendered_height p' - h\<rparr>"
  let ?top = "?pos\<lparr>lo_offset_in_item := max (lp_rendered_height p' - h) 0\<rparr>"
  let ?r = "p'\<lparr>lp_scroll_top := ?pos, lp_state := (lp_state p')\<lparr>li_logical_scroll_top := None\<rparr>\<rparr>"
  let ?s = "p'\<lparr>lp_scroll_top := ?top, lp_state := (lp_state p')\<lparr>li_logical_scroll_top := Some ?top\<rparr>\<rparr>"
  show ?thesis
  proof (cases "li_alignment self")
    case Align_Top
    then have "fill_upward client space h c p = ret (c', ?s)" using True r st at_row_start [OF r(3)] by (simp add: fill_upward_def)
    moreover have "filled_ok ?xs padding h Align_Top ?s" using r(4,5) len by (auto simp: filled_ok_def Let_def shown_to_end_def max_def)
    moreover have "scroll_only self ?s" using st r(6) by (auto simp: scroll_only_def logical_scroll_top_def)
    moreover have "ed_top padding < h \<Longrightarrow> tail_shown padding h (length ?xs) (lp_measured_items ?s) (lp_scroll_top ?s) (lp_item_layouts ?s)"
      using r(4) len by (simp add: tail_shown_def shown_to_end_def max_def)
    ultimately show ?thesis using r(2,3) Align_Top by (intro exI [of _ c'] exI [of _ ?s] exI [of _ k']) simp
  next
    case Align_Bottom
    then have "fill_upward client space h c p = ret (c', ?r)" using True r st at_row_start [OF r(3)] by (simp add: fill_upward_def)
    moreover have "filled_ok ?xs padding h Align_Bottom ?r" using r(4,5) len by (auto simp: filled_ok_def Let_def shown_to_end_def)
    moreover have "lp_state ?r = self\<lparr>li_pending_scroll := pend, li_logical_scroll_top := None\<rparr>" using st r(6) by simp
    moreover have "ed_top padding < h \<Longrightarrow> tail_shown padding h (length ?xs) (lp_measured_items ?r) (lp_scroll_top ?r) (lp_item_layouts ?r)"
      using r(4) len by (simp add: tail_shown_def shown_to_end_def)
    ultimately show ?thesis using r(2,3) Align_Bottom st(2) by (intro exI [of _ c'] exI [of _ ?r] exI [of _ k']) auto
  qed
qed

section \<open>A layout\<close>

lemma layout_start_ok:
  fixes self :: "('u::linordered_field, 'f, 'w) list_state" and padding :: "'u edges" and window :: 'w
  defines "p \<equiv> layout_start self padding window :: ('u, 'f, 'e, 'w) layout_progress"
  assumes "list_inv self"
  shows "below_ok (rows self) (lo_item_ix (lp_scroll_top p)) (ed_top padding) h p" "scroll_only self p"
    "lo_item_ix (lp_scroll_top p) \<le> length (rows self)" "lp_measured_items p = []"
    "is_following (li_follow_state self) \<Longrightarrow> lo_item_ix (lp_scroll_top p) = length (rows self)"
proof -
  note pos = logical_scroll_top_ok [OF assms(2)] and pending = assms(2) [unfolded list_inv_def]
  show "lo_item_ix (lp_scroll_top p) \<le> length (rows self)" "lp_measured_items p = []"
    "is_following (li_follow_state self) \<Longrightarrow> lo_item_ix (lp_scroll_top p) = length (rows self)"
    using pos item_count_rows [OF assms(2)] by (simp_all add: p_def layout_start_def offset_ok_def Let_def)
  then show "below_ok (rows self) (lo_item_ix (lp_scroll_top p)) (ed_top padding) h p"
    using pos by (simp add: below_ok_def p_def layout_start_def offset_ok_def Let_def)
  have "lp_state p = self\<lparr>li_pending_scroll := li_pending_scroll self, li_logical_scroll_top := li_logical_scroll_top (lp_state p)\<rparr>"
    by (simp add: p_def layout_start_def Let_def)
  moreover have "logical_scroll_top (lp_state p) = lp_scroll_top p" by (simp add: p_def layout_start_def Let_def logical_scroll_top_def)
  ultimately show "scroll_only self p" using pending unfolding scroll_only_def by blast
qed

text \<open>
  The state after a layout: the scroll position is the one that was laid out, except in a list aligned to the bottom that is at its end,
  and besides it only the sizes of the items, the pending scroll and whether the list follows its tail have changed.
\<close>

definition layout_frame :: "('u::linordered_field, 'f, 'w) list_state \<Rightarrow> ('u, 'f, 'w) list_state \<Rightarrow> bool" where
  "layout_frame self self' \<longleftrightarrow> same_items (rows self) (rows self') \<and>
     self' = self\<lparr>li_items := li_items self', li_logical_scroll_top := li_logical_scroll_top self',
       li_pending_scroll := li_pending_scroll self', li_follow_state := li_follow_state self'\<rparr>"

definition laid_out :: "('u::linordered_field, 'f, 'w) list_state \<Rightarrow> 'u list_offset \<Rightarrow> ('u, 'f, 'w) list_state \<Rightarrow> bool" where
  "laid_out self pos self' \<longleftrightarrow> list_inv self' \<and> layout_frame self self' \<and> (logical_scroll_top self' = pos \<or>
     li_alignment self = Align_Bottom \<and> li_logical_scroll_top self' = None)"

lemma laid_outI:
  assumes "list_inv self" "wf_tree list_ops t" "heights_ok (tree_items t)" "same_items (rows self) (tree_items t)"
    and "scroll_only self p \<and> offset_ok (length (rows self)) (lp_scroll_top p) \<or>
     li_alignment self = Align_Bottom \<and> (\<exists>pend. lp_state p = self\<lparr>li_pending_scroll := pend, li_logical_scroll_top := None\<rparr> \<and> pred_option pending_ok pend)"
  shows "laid_out self (lp_scroll_top p) ((lp_state p)\<lparr>li_items := t\<rparr>)"
proof -
  have len: "length (tree_items t) = length (rows self)" using assms(4) unfolding same_items_def by (metis length_map)
  from assms(5) show ?thesis
  proof
    assume a: "scroll_only self p \<and> offset_ok (length (rows self)) (lp_scroll_top p)"
    then obtain pend r where st: "lp_state p = self\<lparr>li_pending_scroll := pend, li_logical_scroll_top := r\<rparr>" "pred_option pending_ok pend"
      "logical_scroll_top (lp_state p) = lp_scroll_top p" by (auto simp: scroll_only_def)
    have "list_item_count ((lp_state p)\<lparr>li_items := t\<rparr>) = list_item_count (lp_state p)"
      using st(1) assms(1,2) len by (simp add: list_item_count_def list_summary_items list_inv_def)
    then have "logical_scroll_top ((lp_state p)\<lparr>li_items := t\<rparr>) = lp_scroll_top p"
      using st(3) by (auto simp: logical_scroll_top_def split: option.splits list_alignment.splits)
    moreover have "pred_option (offset_ok (length (tree_items t))) r" using st(1,3) a len by (cases r) (auto simp: logical_scroll_top_def)
    moreover have "layout_frame self ((lp_state p)\<lparr>li_items := t\<rparr>)" using st(1) assms(4) by (cases self) (simp add: layout_frame_def)
    ultimately show ?thesis using st(1,2) assms(2-4) by (simp add: laid_out_def list_inv_def)
  next
    assume a: "li_alignment self = Align_Bottom \<and> (\<exists>pend. lp_state p = self\<lparr>li_pending_scroll := pend, li_logical_scroll_top := None\<rparr> \<and> pred_option pending_ok pend)"
    then have "layout_frame self ((lp_state p)\<lparr>li_items := t\<rparr>)" using assms(4) by (cases self) (auto simp: layout_frame_def)
    with a show ?thesis using assms(2-4) by (auto simp: laid_out_def list_inv_def)
  qed
qed

lemma heights_ok_replaced: "heights_ok xs \<Longrightarrow> stands_for xs k ms \<Longrightarrow> heights_ok (take k xs @ ms @ drop (k + length ms) xs)"
  by (auto simp: stands_for_def heights_ok_def dest: in_set_takeD in_set_dropD)

lemma layout_visible_ok:
  assumes inv: "list_inv self" "shallow self" and sizes: "sizes_ok client"
    and room: "0 \<le> ed_bottom padding" "0 \<le> li_overdraw self"
  shows "\<exists>p. layout_visible client space h padding self window = ret p \<and> laid_out self (lp_scroll_top p) (lp_state p) \<and>
    (ed_top padding < h \<longrightarrow>
      viewport_filled padding h (li_alignment self) (rows (lp_state p)) (lp_scroll_top p) (lp_item_layouts p) \<and>
      (is_following (li_follow_state self) \<longrightarrow> tail_shown padding h (length (rows self))
        (drop (lo_item_ix (lp_scroll_top p)) (rows (lp_state p))) (lp_scroll_top p) (lp_item_layouts p)))"
proof -
  let ?t = "li_items self" and ?start = "layout_start self padding window :: ('a, 'b, 'd, 'c) layout_progress"
  define k where "k = lo_item_ix (lp_scroll_top ?start)"
  have start: "below_ok (rows self) k (ed_top padding) h ?start" "scroll_only self ?start" "k \<le> length (rows self)" "lp_measured_items ?start = []"
    "is_following (li_follow_state self) \<Longrightarrow> k = length (rows self)"
    unfolding k_def using layout_start_ok [OF inv(1)] by auto
  have t: "wf_tree list_ops ?t" "node_height ?t < STACK_CAP" "heights_ok (rows self)" "length (rows self) < weight ?t"
    using inv weight_items [of list_ops ?t] by (simp_all add: list_inv_def shallow_def)
  obtain f1 c1 where s1: "seek count_dim (ord_target k) Right (cursor_new count_dim ?t) = ret (f1, c1)" "c_tree c1 = ?t"
    "cursor_ok list_ops count_dim c1 (take k (rows self)) (drop k (rows self))" using seek_rows [OF inv] by blast
  obtain q where q: "render_after_loop client space h (weight ?t) 0 c1 ?start = ret q" "below_ok (rows self) k (ed_top padding) h q" "scroll_only self q"
    "k + length (lp_measured_items q) = length (rows self) \<or> h + li_overdraw self \<le> lp_rendered_height q - lo_offset_in_item (lp_scroll_top q)"
    using render_after_loop_ok [OF sizes t(1-3) start(1,2), of c1 "weight ?t" space] s1(2,3) start(4) less_imp_diff_less [OF t(4), of k] by auto
  define q' where "q' = q\<lparr>lp_rendered_height := lp_rendered_height q + ed_bottom padding\<rparr>"
  have below: "rendered_below (rows self) k padding h q'" "scroll_only self q'" "lo_item_ix (lp_scroll_top q') = k"
    using q(2,4) room(2) scroll_only_same [OF q(3), of q']
    by (auto simp: rendered_below_def q'_def intro!: exI [of _ q]) (simp_all add: below_ok_def)
  obtain f2 c2 where s2: "seek count_dim (ord_target k) Right c1 = ret (f2, c2)" "c_tree c2 = ?t" "at_row c2 k"
    using by_count.seek_count [of c1 k] t start(3) s1(2) by (auto simp: targets_list at_row_def)
  obtain c3 p k3 where f: "fill_upward client space h c2 q' = ret (c3, p)" "c_tree c3 = ?t" "at_row c3 k3" "lo_item_ix (lp_scroll_top p) = k3"
    "filled_ok (rows self) padding h (li_alignment self) p"
    "k = length (rows self) \<longrightarrow> ed_top padding < h \<longrightarrow> tail_shown padding h k (lp_measured_items p) (lp_scroll_top p) (lp_item_layouts p)"
    "scroll_only self p \<and> 0 \<le> lo_offset_in_item (lp_scroll_top p) \<or>
     li_alignment self = Align_Bottom \<and> (\<exists>pend. lp_state p = self\<lparr>li_pending_scroll := pend, li_logical_scroll_top := None\<rparr> \<and> pred_option pending_ok pend)"
    using fill_upward_ok [OF sizes s2(3) _ room(1) below(2), of h space] below(1) s2(2) by auto
  have st: "stands_for (rows self) k3 (lp_measured_items p)" "k3 \<le> length (rows self)"
    using f(2-5) by (simp_all add: filled_ok_def Let_def at_row_def)
  obtain c4 window' ms k4 where l: "leading_overdraw_loop client space (weight ?t) (lo_offset_in_item (lp_scroll_top p)) c3 p =
      ret (c4, p\<lparr>lp_window := window', lp_measured_items := ms @ lp_measured_items p\<rparr>)" "at_row c4 k4" "k3 = k4 + length ms"
      "stands_for (rows self) k4 (ms @ lp_measured_items p)"
    using leading_overdraw_loop_ok [OF sizes t(3) f(2,3) st(1), of "weight ?t"] t(4) st(2) by (meson le_less_trans)
  obtain t' where r: "replace_measured k4 (ms @ lp_measured_items p) ?t = ret t'" "wf_tree list_ops t'"
    "tree_items t' = take k4 (rows self) @ (ms @ lp_measured_items p) @ drop (k4 + length (ms @ lp_measured_items p)) (rows self)"
    using replace_measured_ok [OF t(1,2) l(4)] by blast
  have "heights_ok (tree_items t')" "same_items (rows self) (tree_items t')"
    unfolding r(3) by (rule heights_ok_replaced [OF t(3) l(4)], rule same_items_replaced(1) [OF l(4)])
  then have "laid_out self (lp_scroll_top p) ((lp_state p)\<lparr>li_items := t'\<rparr>)"
    using f(4,7) st(2) by (intro laid_outI [OF inv(1) r(2)]) (auto simp: offset_ok_def)
  moreover have "viewport_filled padding h (li_alignment self) (tree_items t') (lp_scroll_top p) (lp_item_layouts p)" if "ed_top padding < h"
    unfolding r(3) using f(4) l(3) by (intro filled_viewport(1) [OF that f(5) l(4)]) simp
  moreover have "tail_shown padding h (length (rows self)) (drop (lo_item_ix (lp_scroll_top p)) (tree_items t')) (lp_scroll_top p) (lp_item_layouts p)"
    if "ed_top padding < h" "is_following (li_follow_state self)"
    unfolding r(3) using f(4,6) l(3) start(5) that by (intro filled_viewport(2) [OF that(1) f(5) l(4)]) simp_all
  moreover have "layout_visible client space h padding self window =
      ret (p\<lparr>lp_window := window', lp_measured_items := ms @ lp_measured_items p, lp_state := (lp_state p)\<lparr>li_items := t'\<rparr>\<rparr>)"
    using s1(1) q(1) s2(1) below(3) f(1) l(1) r(1) at_row_start [OF l(2)] by (simp add: layout_visible_def k_def q'_def)
  ultimately show ?thesis by simp
qed

section \<open>The item with the focus\<close>

text \<open>The search walks over the items with a focus handle and skips subtrees without one.\<close>

lemma sound_focus_filter:
  assumes "wf_tree list_ops t"
  shows "sound_tree list_ops lsm_has_focus_handles t"
  by (intro licount.sound_filter_tree [OF assms]) (auto simp: sound_filter_def list_sums)

lemma unfocused_handle: "item_focus_handle x = None \<Longrightarrow> \<not> contains_focused client window x"
  by (simp add: contains_focused_def)

text \<open>The layout of the first item that contains the focus.\<close>

definition first_focused ::
  "('u::linordered_field, 'f, 'e, 'w) list_client \<Rightarrow> 'u available_space bsize \<Rightarrow> nat \<Rightarrow> ('u, 'f) list_item list \<Rightarrow> 'w \<Rightarrow> ('u, 'e) item_layout list \<times> 'w" where
  "first_focused client space k xs window =
     (let unfocused = takeWhile (\<lambda>x. \<not> contains_focused client window x) xs in
      if length unfocused = length xs then ([], window)
      else (case measure_item client space (k + length unfocused) window of (layout, window) \<Rightarrow> ([layout], window)))"

lemma first_focused_skip:
  "(\<And>x. x \<in> set xs \<Longrightarrow> item_focus_handle x = None) \<Longrightarrow>
   first_focused client space k (xs @ ys) window = first_focused client space (k + length xs) ys window"
  using unfocused_handle [of _ client window] by (simp add: first_focused_def Let_def add.assoc)

lemma first_focused_Cons:
  "first_focused client space k (x # xs) window =
     (if contains_focused client window x then (case measure_item client space k window of (layout, window) \<Rightarrow> ([layout], window))
      else first_focused client space (Suc k) xs window)"
  by (simp add: first_focused_def Let_def)

lemma focused_item_loop_ok:
  assumes t: "wf_tree list_ops t" "node_height t < STACK_CAP"
    and "c_tree c = t" "cursor_ok list_ops count_dim c pre rest" "length rest < n"
  shows "focused_item_loop client space n c window = ret (first_focused client space (length pre) rest window)"
  using assms(3-)
proof (induction n arbitrary: c pre rest)
  case (Suc n)
  let ?skipped = "\<lambda>xs. takeWhile (rejects list_ops lsm_has_focus_handles) xs"
  show ?case
  proof (cases rest)
    case Nil
    with cursor_ok_item [OF Suc.prems(2)] show ?thesis by (simp add: first_focused_def)
  next
    case (Cons x post)
    have item: "cursor_item c = ret (Some x)" "cursor_start c = length pre"
      using cursor_ok_item [OF Suc.prems(2)] ok_start [OF Suc.prems(2)] Cons by (simp_all add: by_count.number_of)
    show ?thesis
    proof (cases "contains_focused client window x")
      case True
      with item Cons show ?thesis by (simp add: first_focused_Cons split: prod.splits)
    next
      case False
      obtain c' where c': "search_forward count_dim lsm_has_focus_handles c = ret c'" "c_tree c' = t"
        "cursor_ok list_ops count_dim c' (pre @ [x] @ ?skipped post) (dropWhile (rejects list_ops lsm_has_focus_handles) post)"
        using licount.search_forward_at [of lsm_has_focus_handles c pre x post] sound_focus_filter [OF t(1)] t Suc.prems(1,2) Cons by auto
      have "length (dropWhile (rejects list_ops lsm_has_focus_handles) post) < n"
        using Suc.prems(3) Cons length_dropWhile_le [of "rejects list_ops lsm_has_focus_handles" post] by simp
      from Suc.IH [OF c'(2,3) this] False item Cons c'(1)
      have "focused_item_loop client space (Suc n) c window =
          ret (first_focused client space (Suc (length pre) + length (?skipped post)) (dropWhile (rejects list_ops lsm_has_focus_handles) post) window)"
        by (simp add: filter_cursor_next_def)
      also have "\<dots> = ret (first_focused client space (Suc (length pre)) (?skipped post @ dropWhile (rejects list_ops lsm_has_focus_handles) post) window)"
        by (subst first_focused_skip) (auto dest: set_takeWhileD)
      finally show ?thesis using False Cons by (simp only: takeWhile_dropWhile_id first_focused_Cons if_False)
    qed
  qed
qed simp

lemma layout_focused_ok:
  assumes "wf_tree list_ops (li_items self)" "shallow self"
  shows "layout_focused client space rendered self window = ret (if rendered then ([], window) else first_focused client space 0 (rows self) window)"
proof -
  let ?pre = "takeWhile (rejects list_ops lsm_has_focus_handles) (rows self)" and ?rest = "dropWhile (rejects list_ops lsm_has_focus_handles) (rows self)"
  obtain c where c: "search_forward count_dim lsm_has_focus_handles (cursor_new count_dim (li_items self)) = ret c" "c_tree c = li_items self"
    "cursor_ok list_ops count_dim c ?pre ?rest"
    using licount.search_forward_fresh [of lsm_has_focus_handles "cursor_new count_dim (li_items self)"] sound_focus_filter [OF assms(1)] assms
    by (auto simp: shallow_def)
  have "length ?rest < weight (li_items self)"
    using length_dropWhile_le [of "rejects list_ops lsm_has_focus_handles" "rows self"] weight_items [OF assms(1)] by (rule le_less_trans)
  from focused_item_loop_ok [OF assms(1) _ c(2,3) this, of client space window] assms(2) c(1)
  have "\<not> rendered \<Longrightarrow> layout_focused client space rendered self window = ret (first_focused client space (0 + length ?pre) ?rest window)"
    by (simp add: layout_focused_def filter_cursor_next_def shallow_def)
  moreover have "first_focused client space (0 + length ?pre) ?rest window = first_focused client space 0 (?pre @ ?rest) window"
    by (subst first_focused_skip) (auto dest: set_takeWhileD)
  ultimately show ?thesis by (simp add: layout_focused_def)
qed

lemma first_focused_ok:
  assumes "first_focused client space 0 xs window = (layouts, window')"
  shows "layouts = [] \<or> (\<exists>layout. layouts = [layout] \<and> il_index layout < length xs \<and> contains_focused client window (xs ! il_index layout))"
proof -
  let ?n = "length (takeWhile (\<lambda>x. \<not> contains_focused client window x) xs)"
  show ?thesis
  proof (cases "?n = length xs")
    case False
    then have n: "?n < length xs" using length_takeWhile_le [of "\<lambda>x. \<not> contains_focused client window x" xs] by simp
    obtain layout window'' where m: "measure_item client space ?n window = (layout, window'')" by (cases "measure_item client space ?n window")
    with assms False have "layouts = [layout]" by (simp add: first_focused_def)
    with n nth_length_takeWhile [OF n] measure_item_ok(1) [OF m] show ?thesis by simp
  qed (use assms in \<open>simp add: first_focused_def\<close>)
qed

section \<open>The whole layout\<close>

lemma laid_out_follow: "laid_out self pos self' \<Longrightarrow> laid_out self pos (self'\<lparr>li_follow_state := f\<rparr>)"
proof -
  have "logical_scroll_top (self'\<lparr>li_follow_state := f\<rparr>) = logical_scroll_top self'"
    by (cases "li_logical_scroll_top self'"; cases "li_alignment self'") (simp_all add: logical_scroll_top_def list_item_count_def)
  moreover have "layout_frame self self' \<Longrightarrow> layout_frame self (self'\<lparr>li_follow_state := f\<rparr>)" by (cases self; cases self') (simp add: layout_frame_def)
  ultimately show "laid_out self pos self' \<Longrightarrow> ?thesis" by (simp add: laid_out_def list_inv_def)
qed

lemma laid_out_resume: "laid_out self pos self' \<Longrightarrow> laid_out self pos (resume_following h pos self')"
  by (simp add: resume_following_def Let_def laid_out_follow)

lemma resume_items [simp]: "li_items (resume_following h pos self) = li_items self"
  by (simp add: resume_following_def Let_def)

text \<open>The rebuilt tree is low enough for the cursor that looks for the focus.\<close>

definition low_layout ::
  "('u::linordered_field, 'f, 'e, 'w) list_client \<Rightarrow> 'u option \<Rightarrow> 'u \<Rightarrow> 'u edges \<Rightarrow> ('u, 'f, 'w) list_state \<Rightarrow> 'w \<Rightarrow> bool" where
  "low_layout client width h padding self window \<longleftrightarrow> pred_option (\<lambda>p. shallow (lp_state p)) (layout_visible client
     (mk_size (case width of Some width \<Rightarrow> Definite width | None \<Rightarrow> Max_Content) Min_Content) h padding self window)"

lemma layout_items_ok:
  assumes inv: "list_inv self" "shallow self" and sizes: "sizes_ok client"
    and room: "0 \<le> ed_bottom padding" "0 \<le> li_overdraw self"
    and low: "low_layout client width h padding self window"
  shows "\<exists>response self' window' visible focused. layout_items client width h padding self window = ret (response, self', window') \<and>
    laid_out self (lr_scroll_top response) self' \<and> lr_item_layouts response = visible @ focused \<and>
    (ed_top padding < h \<longrightarrow> viewport_filled padding h (li_alignment self) (rows self') (lr_scroll_top response) visible \<and>
      (is_following (li_follow_state self) \<longrightarrow> tail_shown padding h (length (rows self)) (drop (lo_item_ix (lr_scroll_top response)) (rows self'))
        (lr_scroll_top response) visible)) \<and>
    (focused = [] \<or> (\<exists>layout. focused = [layout] \<and> il_index layout < length (rows self') \<and> item_focus_handle (rows self' ! il_index layout) \<noteq> None))"
proof -
  let ?space = "mk_size (case width of Some width \<Rightarrow> Definite width | None \<Rightarrow> Max_Content) Min_Content"
  obtain p where p: "layout_visible client ?space h padding self window = ret p" "laid_out self (lp_scroll_top p) (lp_state p)"
    "ed_top padding < h \<longrightarrow> viewport_filled padding h (li_alignment self) (rows (lp_state p)) (lp_scroll_top p) (lp_item_layouts p) \<and>
      (is_following (li_follow_state self) \<longrightarrow> tail_shown padding h (length (rows self))
        (drop (lo_item_ix (lp_scroll_top p)) (rows (lp_state p))) (lp_scroll_top p) (lp_item_layouts p))"
    using layout_visible_ok [OF inv sizes room] by blast
  define self' where "self' = resume_following h (lp_scroll_top p) (lp_state p)"
  have l: "laid_out self (lp_scroll_top p) self'" "rows self' = rows (lp_state p)" "shallow self'" "wf_tree list_ops (li_items self')"
    using laid_out_resume [OF p(2)] low p(1,2) by (simp_all add: self'_def low_layout_def shallow_def laid_out_def list_inv_def)
  obtain focused window' where r: "(if lp_rendered_focused_item p then ([], lp_window p) else first_focused client ?space 0 (rows self') (lp_window p)) = (focused, window')"
    by (meson surj_pair)
  have f: "layout_focused client ?space (lp_rendered_focused_item p) self' (lp_window p) = ret (focused, window')"
    unfolding layout_focused_ok [OF l(4,3)] r ..
  have "focused = [] \<or> (\<exists>layout. focused = [layout] \<and> il_index layout < length (rows self') \<and>
      contains_focused client (lp_window p) (rows self' ! il_index layout))"
    using r first_focused_ok [of client ?space "rows self'" "lp_window p" focused window'] by (auto split: if_splits)
  then have "focused = [] \<or> (\<exists>layout. focused = [layout] \<and> il_index layout < length (rows self') \<and> item_focus_handle (rows self' ! il_index layout) \<noteq> None)"
    using unfocused_handle [of _ client "lp_window p"] by blast
  moreover have "layout_items client width h padding self window = ret (\<lparr>lr_max_item_width = lp_max_item_width p,
      lr_scroll_top = lp_scroll_top p, lr_item_layouts = lp_item_layouts p @ focused\<rparr>, self', window')"
    using p(1) f by (simp add: layout_items_def flip: self'_def)
  ultimately show ?thesis using p(3) l(1,2) by (intro exI conjI) (assumption | simp)+
qed

lemma laid_out_length: "laid_out self pos self' \<Longrightarrow> length (rows self') = length (rows self)"
  unfolding laid_out_def layout_frame_def same_items_def by (metis length_map)

text \<open>A list that follows its tail shows its last item.\<close>

lemma tail_in_view:
  assumes "viewport_filled padding h alignment ys pos visible"
    and "tail_shown padding h n (drop (lo_item_ix pos) ys) pos visible" "length ys = n" "0 \<le> ed_bottom padding"
  shows "lo_item_ix pos + length visible = n"
    and "ed_top padding + ed_bottom padding < h \<Longrightarrow> n \<noteq> 0 \<Longrightarrow> visible \<noteq> []"
    and "ed_top padding + ed_bottom padding < h \<Longrightarrow>
      ed_top padding + px_of (drop (lo_item_ix pos) ys) - lo_offset_in_item pos + ed_bottom padding \<le> h"
proof -
  show "lo_item_ix pos + length visible = n" using assms(2) by (simp add: tail_shown_def)
  then have "take (length visible) (drop (lo_item_ix pos) ys) = drop (lo_item_ix pos) ys" using assms(3) by simp
  then show "ed_top padding + ed_bottom padding < h \<Longrightarrow>
      ed_top padding + px_of (drop (lo_item_ix pos) ys) - lo_offset_in_item pos + ed_bottom padding \<le> h"
    using assms(2) by (simp add: tail_shown_def)
  show "visible \<noteq> []" if "ed_top padding + ed_bottom padding < h" "n \<noteq> 0"
    using assms that by (auto simp: viewport_filled_def tail_shown_def Let_def)
qed

end
