(* ===== verification/List_Prepaint.thy ===== *)
theory List_Prepaint
  imports List_Viewport
begin

text \<open>
  The prepaint of a list: it forgets sizes measured for another width, measures all items if it has to, lays the list out and follows
  an autoscroll request. It returns, and the position that it scrolls to lies within the list.
\<close>

section \<open>Forgetting and measuring\<close>

text \<open>What a prepaint leaves of the state: the items up to their sizes, and whether it was reset.\<close>

definition prepaint_frame :: "('u::linordered_field, 'f, 'w) list_state \<Rightarrow> ('u, 'f, 'w) list_state \<Rightarrow> bool" where
  "prepaint_frame self self' \<longleftrightarrow> same_items (rows self) (rows self') \<and> li_reset self' = li_reset self \<and>
     li_overdraw self' = li_overdraw self \<and> li_alignment self' = li_alignment self"

lemma prepaint_frame_trans: "prepaint_frame a b \<Longrightarrow> prepaint_frame b c \<Longrightarrow> prepaint_frame a c"
  by (simp add: prepaint_frame_def same_items_def)

lemma prepaint_frame_refl [simp]: "prepaint_frame a a"
  by (simp add: prepaint_frame_def same_items_def)

lemma layout_prepaint_frame: "layout_frame self self' \<Longrightarrow> prepaint_frame self self'"
  by (cases self; cases self') (simp add: layout_frame_def prepaint_frame_def)

lemma list_inv_items:
  assumes "list_inv self" "wf_tree list_ops t" "heights_ok (tree_items t)" "same_items (rows self) (tree_items t)"
    and "self' = self\<lparr>li_items := t, li_measuring_behavior := b\<rparr>"
  shows "list_inv self'" "prepaint_frame self self'"
proof -
  have "length (tree_items t) = length (rows self)" using assms(4) unfolding same_items_def by (metis length_map)
  with assms show "list_inv self'" "prepaint_frame self self'" by (simp_all add: list_inv_def prepaint_frame_def)
qed

lemma forget_sizes_ok:
  fixes self :: "('u::linordered_field, 'f, 'w) list_state"
  assumes "list_inv self" "shallow self"
  obtains self' where "forget_sizes_on_resize bounds self = ret self'" "list_inv self'" "prepaint_frame self self'"
proof (cases "case li_last_layout_bounds self of None \<Rightarrow> True | Some last_bounds \<Rightarrow> sz_width (bn_size last_bounds) \<noteq> sz_width (bn_size bounds)")
  case True
  let ?forgotten = "map (\<lambda>item. Unmeasured None (item_focus_handle item)) (rows self) :: ('u, 'f) list_item list"
  have items: "iter_items (li_items self) = ret (rows self)" using assms by (intro iter_items_ok) (simp_all add: list_inv_def shallow_def)
  obtain t where t: "from_iter list_ops ?forgotten = ret t" "wf_tree list_ops t" "tree_items t = ?forgotten"
    using li.from_iter_ok by blast
  have "heights_ok (tree_items t)" "same_items (rows self) (tree_items t)"
    by (auto simp: t(3) heights_ok_def same_items_def item_height_def item_size_hint_def item_focus_handle_def)
  from list_inv_items [OF assms(1) t(2) this refl] True items t(1) show thesis
    by (intro that [of "self\<lparr>li_items := t, li_measuring_behavior := measuring_reset (li_measuring_behavior self)\<rparr>"])
      (simp_all add: forget_sizes_on_resize_def)
next
  case False
  with assms(1) show thesis by (intro that [of self]) (simp_all add: forget_sizes_on_resize_def)
qed

lemma next_ready:
  assumes "wf_tree list_ops (c_tree c)" "node_height (c_tree c) < STACK_CAP" "cursor_ready list_ops count_dim c pre rest"
  obtains c' where "cursor_iter_next count_dim c = ret (list_first rest, c')" "c_tree c' = c_tree c"
    "cursor_ready list_ops count_dim c' (pre @ take 1 rest) (drop 1 rest)"
proof (cases "c_did_seek c")
  case True
  with assms(3) have "cursor_ok list_ops count_dim c pre rest" by (auto simp: cursor_ready_def)
  from licount.cursor_iter_next_at [OF assms(1,2) this] show thesis
    by (elim exE conjE) (rule that, assumption+, simp add: cursor_ready_def)
next
  case False
  with assms(3) have fresh: "cursor_fresh count_dim c" "pre = []" "rest = tree_items (c_tree c)" by (auto simp: cursor_ready_def cursor_ok_def)
  obtain c1 where c1: "cursor_next count_dim c = ret c1" "c_tree c1 = c_tree c" "cursor_ok list_ops count_dim c1 [] (tree_items (c_tree c))"
    using licount.cursor_next_fresh [OF assms(1,2) fresh(1)] by blast
  then have same: "cursor_iter_next count_dim c = cursor_iter_next count_dim c1" using False by (simp add: cursor_iter_next_def cursor_ok_def)
  obtain c' where "cursor_iter_next count_dim c1 = ret (list_first rest, c')" "c_tree c' = c_tree c" "cursor_ok list_ops count_dim c' ([] @ take 1 rest) (drop 1 rest)"
    using licount.cursor_iter_next_at [of c1 "[]" rest] c1(2,3) assms(1,2) fresh(3) by auto
  with same fresh(2) show thesis by (intro that [of c']) (simp_all add: cursor_ready_def)
qed

lemma measure_all_loop_ok:
  assumes "sizes_ok client" "wf_tree list_ops t" "node_height t < STACK_CAP"
    and "c_tree c = t" "cursor_ready list_ops count_dim c pre rest" "heights_ok rest" "length rest < n"
  shows "\<exists>ms window'. measure_all_loop client space n ix c window = ret (ms, window') \<and> heights_ok ms \<and> same_items rest ms"
  using assms(4-)
proof (induction n arbitrary: c pre rest ix window)
  case (Suc n)
  obtain c' where c': "cursor_iter_next count_dim c = ret (list_first rest, c')" "c_tree c' = t"
    "cursor_ready list_ops count_dim c' (pre @ take 1 rest) (drop 1 rest)"
    using next_ready [of c pre rest] assms(2,3) Suc.prems(1,2) by metis
  show ?case
  proof (cases rest)
    case Nil
    with c'(1) show ?thesis by (simp add: same_items_def)
  next
    case (Cons item items)
    obtain sz w where sz: "(case item_size item of Some sz \<Rightarrow> (sz, window)
      | None \<Rightarrow> (case measure_item client space ix window of (layout, window) \<Rightarrow> (il_size layout, window))) = (sz, w)" by (meson surj_pair)
    have "0 \<le> sz_height sz"
      using sz known_size_height [of rest 0 sz] Suc.prems(3) Cons measure_item_ok(2) assms(1) by (fastforce split: option.splits prod.splits)
    moreover obtain ms w' where "measure_all_loop client space n (ix + 1) c' w = ret (ms, w')" "heights_ok ms" "same_items items ms"
      using Suc.IH [OF c'(2,3), of "ix + 1" w] Suc.prems(3,4) Cons by auto
    ultimately show ?thesis using c'(1) Cons sz by (auto simp: same_items_def)
  qed
qed simp

lemma layout_all_items_ok:
  assumes "list_inv self" "shallow self" "sizes_ok client"
  obtains self' window' where "layout_all_items client width self window = ret (self', window')" "list_inv self'" "prepaint_frame self self'"
proof (cases "li_measuring_behavior self = Measure_All False")
  case True
  let ?t = "li_items self" and ?space = "mk_size (Definite width) Min_Content"
  have t: "wf_tree list_ops ?t" "node_height ?t < STACK_CAP" "heights_ok (rows self)" "length (rows self) < weight ?t"
    using assms(1,2) weight_items [of list_ops ?t] by (simp_all add: list_inv_def shallow_def)
  obtain ms w where ms: "measure_all_loop client ?space (weight ?t) 0 (cursor_new count_dim ?t) window = ret (ms, w)" "heights_ok ms" "same_items (rows self) ms"
    using measure_all_loop_ok [OF assms(3) t(1,2) _ ready_new t(3,4)] by fastforce
  obtain t' where t': "from_iter list_ops ms = ret t'" "wf_tree list_ops t'" "tree_items t' = ms" using li.from_iter_ok by blast
  from list_inv_items [OF assms(1) t'(2) _ _ refl] ms(2,3) t'(3) ms(1) t'(1) True show thesis
    by (intro that [of "self\<lparr>li_items := t', li_measuring_behavior := Measure_All True\<rparr>" w]) (simp_all add: layout_all_items_def Let_def)
next
  case False
  with assms(1) show thesis by (intro that [of self window]) (simp_all add: layout_all_items_def)
qed

section \<open>Autoscroll\<close>

lemma autoscroll_above_ok:
  assumes "at_row c k" "lo_item_ix pos = k" "k < n"
  shows "\<exists>pos' window'. autoscroll_above_loop client bounds n c pos window = ret (pos', window') \<and> lo_item_ix pos' \<le> k \<and> 0 \<le> lo_offset_in_item pos'"
  using assms
proof (induction n arbitrary: c pos window k)
  case (Suc n)
  show ?case
  proof (cases "lo_offset_in_item pos < 0")
    case False
    with Suc.prems(2) show ?thesis by simp
  next
    case above: True
    show ?thesis
    proof (cases k)
      case 0
      with Suc.prems(1) obtain c' where "cursor_prev count_dim c = ret c'" "cursor_item c' = ret None" using prev_first by blast
      with above Suc.prems(2) 0 show ?thesis by simp
    next
      case (Suc m)
      with Suc.prems(1) obtain c' where c': "cursor_prev count_dim c = ret c'" "cursor_item c' = ret (Some (tree_items (c_tree c) ! m))" "at_row c' m"
        using prev_row by blast
      obtain sz w where sz: "size_above client bounds m (tree_items (c_tree c) ! m) window = (sz, w)" by (meson surj_pair)
      from Suc.IH [OF c'(3), of "\<lparr>lo_item_ix = m, lo_offset_in_item = lo_offset_in_item pos + sz_height sz\<rparr>" w] Suc.prems(3) Suc
      obtain pos' w' where "autoscroll_above_loop client bounds n c' \<lparr>lo_item_ix = m, lo_offset_in_item = lo_offset_in_item pos + sz_height sz\<rparr> w = ret (pos', w')"
        "lo_item_ix pos' \<le> m" "0 \<le> lo_offset_in_item pos'" by auto
      with above c' sz at_row_start [OF c'(3)] Suc show ?thesis by simp
    qed
  qed
qed simp

lemma autoscroll_below_ok:
  assumes "at_row c k" "k < n"
  shows "\<exists>pos' window'. autoscroll_below_loop client bounds n c height window = ret (pos', window') \<and> lo_item_ix pos' \<le> k \<and> 0 \<le> lo_offset_in_item pos'"
  using assms
proof (induction n arbitrary: c height window k)
  case (Suc n)
  show ?case
  proof (cases "height > 0")
    case False
    with at_row_start [OF Suc.prems(1)] show ?thesis by simp
  next
    case above: True
    show ?thesis
    proof (cases k)
      case 0
      with Suc.prems(1) obtain c' where "cursor_prev count_dim c = ret c'" "cursor_item c' = ret None" "at_row c' 0" using prev_first by blast
      with above 0 at_row_start [of c' 0] show ?thesis by simp
    next
      case (Suc m)
      with Suc.prems(1) obtain c' where c': "cursor_prev count_dim c = ret c'" "cursor_item c' = ret (Some (tree_items (c_tree c) ! m))" "at_row c' m"
        using prev_row by blast
      obtain sz w where sz: "size_above client bounds m (tree_items (c_tree c) ! m) window = (sz, w)" by (meson surj_pair)
      from Suc.IH [OF c'(3), of "height - sz_height sz" w] Suc.prems(2) Suc
      obtain pos' w' where "autoscroll_below_loop client bounds n c' (height - sz_height sz) w = ret (pos', w')"
        "lo_item_ix pos' \<le> m" "0 \<le> lo_offset_in_item pos'" by auto
      with above c' sz at_row_start [OF c'(3)] Suc show ?thesis by simp
    qed
  qed
qed simp

lemma autoscroll_offset_ok:
  assumes "wf_tree list_ops t" "node_height t < STACK_CAP" "index \<le> length (tree_items t)"
  shows "\<exists>pos window'. autoscroll_offset client bounds padding t index origin request window = ret (pos, window') \<and>
    pred_option (offset_ok (length (tree_items t))) pos"
proof -
  obtain fd c where c: "seek count_dim (ord_target index) Right (cursor_new count_dim t) = ret (fd, c)" "at_row c index"
    using by_count.seek_count [of "cursor_new count_dim t" index] assms by (auto simp: targets_list at_row_def)
  have fuel: "index < weight t" using weight_items [OF assms(1)] assms(3) by simp
  let ?pos = "\<lparr>lo_item_ix = index, lo_offset_in_item = bounds_top request - pt_y origin\<rparr>"
  consider "bounds_top request < bounds_top bounds" "lo_offset_in_item ?pos < 0" | "bounds_top request < bounds_top bounds" "\<not> lo_offset_in_item ?pos < 0"
    | "\<not> bounds_top request < bounds_top bounds" "bounds_bottom request > bounds_bottom bounds"
    | "\<not> bounds_top request < bounds_top bounds" "\<not> bounds_bottom request > bounds_bottom bounds" by blast
  then show ?thesis
  proof cases
    case 1
    from autoscroll_above_ok [OF c(2) _ fuel, of ?pos client bounds window] 1 c(1) assms(3) show ?thesis
      by (auto simp: autoscroll_offset_def offset_ok_def)
  next
    case 3
    from autoscroll_below_ok [OF c(2) fuel, of client bounds
        "sz_height (bn_size bounds) - ed_top padding - ed_bottom padding - (bounds_bottom request - pt_y origin)" window] 3 c(1) assms(3)
    show ?thesis by (auto simp: autoscroll_offset_def offset_ok_def)
  qed (use assms(3) in \<open>simp_all add: autoscroll_offset_def offset_ok_def\<close>)
qed

lemma prepaint_loop_ok:
  assumes "wf_tree list_ops t" "node_height t < STACK_CAP" "\<And>layout. layout \<in> set layouts \<Longrightarrow> il_index layout \<le> length (tree_items t)"
  shows "\<exists>result window'. prepaint_loop client bounds padding autoscroll t origin layouts window = ret (result, window') \<and>
    (\<forall>pos. result = Inl pos \<longrightarrow> autoscroll \<and> offset_ok (length (tree_items t)) pos)"
  using assms(3)
proof (induction layouts arbitrary: origin window)
  case (Cons layout layouts)
  obtain element w1 where p: "cl_prepaint_at client bounds origin (il_element layout) window = (element, w1)" by (meson surj_pair)
  obtain request w2 where a: "cl_take_autoscroll client w1 = (request, w2)" by (meson surj_pair)
  obtain pos w3 where r: "(case request of
      Some autoscroll_bounds \<Rightarrow> if autoscroll then autoscroll_offset client bounds padding t (il_index layout) origin autoscroll_bounds w2 else ret (None, w2)
    | None \<Rightarrow> ret (None, w2)) = ret (pos, w3)" "pred_option (\<lambda>pos. autoscroll \<and> offset_ok (length (tree_items t)) pos) pos"
  proof (cases "autoscroll \<and> request \<noteq> None")
    case True
    with Cons.prems autoscroll_offset_ok [OF assms(1,2), of "il_index layout" client bounds padding origin "the request" w2]
    obtain pos w3 where "autoscroll_offset client bounds padding t (il_index layout) origin (the request) w2 = ret (pos, w3)"
      "pred_option (offset_ok (length (tree_items t))) pos" by auto
    with True that [of pos w3] show thesis by auto
  next
    case False
    with that [of None w2] show thesis by (auto split: option.splits)
  qed
  obtain rest w4 where l: "prepaint_loop client bounds padding autoscroll t (origin\<lparr>pt_y := pt_y origin + sz_height (il_size layout)\<rparr>) layouts w3 = ret (rest, w4)"
    "\<forall>pos. rest = Inl pos \<longrightarrow> autoscroll \<and> offset_ok (length (tree_items t)) pos"
    using Cons.IH [of "origin\<lparr>pt_y := pt_y origin + sz_height (il_size layout)\<rparr>" w3] Cons.prems by auto
  have "prepaint_loop client bounds padding autoscroll t origin (layout # layouts) window =
      (case pos of Some pos \<Rightarrow> ret (Inl pos, w3) | None \<Rightarrow> ret (map_sum id (\<lambda>done. layout\<lparr>il_element := element\<rparr> # done) rest, w4))"
    using p a r(1) l(1) by (simp split: option.split)
  with r(2) l(2) show ?case by (cases pos; cases rest) simp_all
qed simp

section \<open>Prepaint\<close>

text \<open>The trees that are rebuilt on the way are low enough for the cursors over them.\<close>

definition low_prepaint_items ::
  "('u::linordered_field, 'f, 'e, 'w) list_client \<Rightarrow> 'u bounds \<Rightarrow> 'u edges \<Rightarrow> ('u, 'f, 'w) list_state \<Rightarrow> 'w \<Rightarrow> bool" where
  "low_prepaint_items client bounds padding self window \<longleftrightarrow> shallow self \<and> pred_option (\<lambda>(self, window). shallow self \<and>
      low_layout client (Some (sz_width (bn_size bounds))) (sz_height (bn_size bounds)) padding self window)
     (if li_measuring_behavior self = Measure_All False then layout_all_items client (sz_width (bn_size bounds)) self window else ret (self, window))"

definition low_prepaint ::
  "('u::linordered_field, 'f, 'e, 'w) list_client \<Rightarrow> 'u bounds \<Rightarrow> 'u edges \<Rightarrow> ('u, 'f, 'w) list_state \<Rightarrow> 'w \<Rightarrow> bool" where
  "low_prepaint client bounds padding self window \<longleftrightarrow> pred_option (\<lambda>self. low_prepaint_items client bounds padding self window \<and>
      pred_option (\<lambda>(result, self, window). case result of
          Inl pos \<Rightarrow> low_prepaint_items client bounds padding (self\<lparr>li_logical_scroll_top := Some pos\<rparr>) window
        | Inr _ \<Rightarrow> True)
       (prepaint_items client bounds padding True self window))
     (forget_sizes_on_resize bounds (self\<lparr>li_reset := False\<rparr>))"

lemma low_layout_shallow:
  assumes "low_layout client width h padding self window" "layout_items client width h padding self window = ret (response, self', window')"
  shows "shallow self'"
  using assms by (auto simp: low_layout_def layout_items_def shallow_def Let_def split: Option.bind_splits prod.splits)

lemma laid_index:
  assumes "viewport_filled padding h alignment ys pos visible" "layout \<in> set visible"
  shows "il_index layout < length ys"
  using assms by (fastforce simp: viewport_filled_def Let_def in_set_conv_nth)

lemma prepaint_items_ok:
  assumes inv: "list_inv self" and sizes: "sizes_ok client" and room: "0 \<le> ed_bottom padding" "0 \<le> li_overdraw self"
    and low: "low_prepaint_items client bounds padding self window"
  obtains result self' window' where "prepaint_items client bounds padding autoscroll self window = ret (result, self', window')"
    "list_inv self'" "prepaint_frame self self'" "\<And>pos. result = Inl pos \<Longrightarrow> autoscroll \<and> offset_ok (length (rows self')) pos"
proof -
  let ?width = "sz_width (bn_size bounds)" and ?h = "sz_height (bn_size bounds)"
  obtain s1 w1 where s1: "(if li_measuring_behavior self = Measure_All False then layout_all_items client ?width self window else ret (self, window)) = ret (s1, w1)"
    "list_inv s1" "prepaint_frame self s1"
    using layout_all_items_ok [OF inv _ sizes, where width = ?width and window = window] low inv prepaint_frame_refl [of self]
    unfolding low_prepaint_items_def by (metis (full_types))
  have l1: "shallow s1" "low_layout client (Some ?width) ?h padding s1 w1" "0 \<le> li_overdraw s1"
    using low s1(1,3) room(2) by (simp_all add: low_prepaint_items_def prepaint_frame_def)
  obtain response s2 w2 visible focused where s2: "layout_items client (Some ?width) ?h padding s1 w1 = ret (response, s2, w2)"
    "laid_out s1 (lr_scroll_top response) s2" "lr_item_layouts response = visible @ focused"
    "ed_top padding < ?h \<Longrightarrow> viewport_filled padding ?h (li_alignment s1) (rows s2) (lr_scroll_top response) visible"
    "focused = [] \<or> (\<exists>layout. focused = [layout] \<and> il_index layout < length (rows s2) \<and> item_focus_handle (rows s2 ! il_index layout) \<noteq> None)"
    using layout_items_ok [OF s1(2) l1(1) sizes room(1) l1(3,2)] by blast
  have inv2: "list_inv s2" "prepaint_frame self s2" "shallow s2" "wf_tree list_ops (li_items s2)" "node_height (li_items s2) < STACK_CAP"
    using s2(2) s1(3) layout_prepaint_frame [of s1 s2] prepaint_frame_trans [of self s1 s2] low_layout_shallow [OF l1(2) s2(1)]
    by (auto simp: laid_out_def shallow_def list_inv_def)
  show thesis
  proof (cases "?h > ed_top padding + ed_bottom padding")
    case False
    with s1(1) s2(1) inv2 show thesis by (intro that) (auto simp: prepaint_items_def Let_def)
  next
    case True
    with room(1) have "ed_top padding < ?h" by simp
    then have ix: "il_index layout \<le> length (rows s2)" if "layout \<in> set (lr_item_layouts response)" for layout
      using that s2(3-5) laid_index [of padding ?h _ "rows s2" _ visible layout] by (auto intro: less_imp_le)
    define origin where "origin = (let top = point_add (bn_origin bounds) (mk_point 0 (ed_top padding)) in
      top\<lparr>pt_y := pt_y top - lo_offset_in_item (lr_scroll_top response)\<rparr>)"
    obtain result w3 where l: "prepaint_loop client bounds padding autoscroll (li_items s2) origin (lr_item_layouts response)
        (snd (cl_take_autoscroll client w2)) = ret (result, w3)"
      "\<forall>pos. result = Inl pos \<longrightarrow> autoscroll \<and> offset_ok (length (rows s2)) pos"
      using prepaint_loop_ok [OF inv2(4,5), of "lr_item_layouts response" client bounds padding autoscroll origin "snd (cl_take_autoscroll client w2)"] ix by auto
    have "prepaint_items client bounds padding autoscroll self window = ret (map_sum id (\<lambda>layouts. response\<lparr>lr_item_layouts := layouts\<rparr>) result, s2,
        case result of Inl _ \<Rightarrow> cl_rollback client window w3 | Inr _ \<Rightarrow> w3)"
      using True s1(1) s2(1) l(1) by (cases result) (simp_all add: prepaint_items_def Let_def origin_def)
    then show thesis by (rule that [OF _ inv2(1,2)]) (use l(2) in \<open>cases result; simp\<close>)
  qed
qed

lemma list_prepaint_ok:
  assumes inv: "list_inv self" "shallow self" and sizes: "sizes_ok client" and room: "0 \<le> ed_bottom padding" "0 \<le> li_overdraw self"
    and low: "low_prepaint client bounds padding self window"
  shows "\<exists>response self' window'. list_prepaint client bounds padding self window = ret (response, self', window') \<and> list_inv self' \<and>
    same_items (rows self) (rows self') \<and> li_last_layout_bounds self' = Some bounds \<and> li_last_padding self' = Some padding \<and> \<not> li_reset self'"
proof -
  let ?self = "self\<lparr>li_reset := False\<rparr>" and ?done = "\<lambda>s. s\<lparr>li_last_layout_bounds := Some bounds, li_last_padding := Some padding\<rparr>"
  have "list_inv ?self" "shallow ?self" using inv by (simp_all add: list_inv_def shallow_def)
  then obtain s1 where s1: "forget_sizes_on_resize bounds ?self = ret s1" "list_inv s1" "prepaint_frame ?self s1" using forget_sizes_ok [of ?self bounds] by blast
  have over: "0 \<le> li_overdraw s1" and low1: "low_prepaint_items client bounds padding s1 window"
    using s1(1,3) room(2) low by (simp_all add: prepaint_frame_def low_prepaint_def)
  obtain result s2 w2 where s2: "prepaint_items client bounds padding True s1 window = ret (result, s2, w2)" "list_inv s2" "prepaint_frame s1 s2"
    "\<And>pos. result = Inl pos \<Longrightarrow> True \<and> offset_ok (length (rows s2)) pos"
    using prepaint_items_ok [OF s1(2) sizes room(1) over low1] by blast
  have final: "list_inv (?done s)" "same_items (rows self) (rows (?done s))" "\<not> li_reset (?done s)" if "list_inv s" "prepaint_frame s1 s" for s
    using that s1(3) by (simp_all add: list_inv_def prepaint_frame_def same_items_def)
  show ?thesis
  proof (cases result)
    case (Inr layout)
    with s1(1) s2(1) final [OF s2(2,3)] show ?thesis by (simp add: list_prepaint_def)
  next
    case (Inl pos)
    let ?s2 = "s2\<lparr>li_logical_scroll_top := Some pos\<rparr>"
    have at: "list_inv ?s2" "prepaint_frame s1 ?s2" "0 \<le> li_overdraw ?s2" "low_prepaint_items client bounds padding ?s2 w2"
      using s2 Inl over low s1(1) by (simp_all add: list_inv_def prepaint_frame_def low_prepaint_def)
    obtain result' s3 w3 where s3: "prepaint_items client bounds padding False ?s2 w2 = ret (result', s3, w3)" "list_inv s3" "prepaint_frame ?s2 s3"
      "\<And>pos. result' = Inl pos \<Longrightarrow> False \<and> offset_ok (length (rows s3)) pos"
      using prepaint_items_ok [OF at(1) sizes room(1) at(3,4)] by blast
    then obtain layout where "result' = Inr layout" by (cases result') auto
    with s1(1) s2(1) Inl s3(1) final [OF s3(2) prepaint_frame_trans [OF at(2) s3(3)]] show ?thesis by (simp add: list_prepaint_def)
  qed
qed

end
