(* ===== verification/List_Steps.thy ===== *)
theory List_Steps
  imports List_Prepaint
begin

text \<open>
  The states that a list element reaches: a step relation over the operations of \<open>ListState\<close>, over layouts and over prepaints of
  the element, and the invariant that each of them keeps.
\<close>

section \<open>What the operations keep\<close>

lemma uniform_inv:
  assumes "list_inv self" "shallow self" "0 \<le> height" "apply_uniform_item_height height self = ret self'"
  shows "list_inv self'" "length (rows self') = length (rows self)"
proof -
  let ?hint = "\<lambda>item. Unmeasured (Some (case item_size_hint item of Some sz \<Rightarrow> sz | None \<Rightarrow> mk_size 0 height)) (item_focus_handle item)"
  have items: "iter_items (li_items self) = ret (rows self)" using assms(1,2) by (intro iter_items_ok) (simp_all add: list_inv_def shallow_def)
  obtain t where t: "tree_extend list_ops (new_tree list_ops) (map ?hint (rows self)) = ret t" "wf_tree list_ops t" "tree_items t = map ?hint (rows self)"
    using li.extend_ok [of "new_tree list_ops" "map ?hint (rows self)"] by auto
  have self': "self' = self\<lparr>li_items := t\<rparr>" using assms(4) items t(1) by (simp add: apply_uniform_item_height_def)
  have hint: "0 \<le> item_height (?hint item)" if "0 \<le> item_height item" for item
    using that assms(3) by (cases "item_size_hint item") (simp_all add: item_height_def item_size_hint_def mk_size_def)
  have "heights_ok (tree_items t)" using assms(1) t(3) by (auto simp: heights_ok_def list_inv_def intro: hint)
  then show "list_inv self'" "length (rows self') = length (rows self)" using assms(1) t self' by (simp_all add: list_inv_def)
qed

lemma reset_inv:
  assumes "list_inv self" "shallow self" "list_reset n self = ret self'"
  shows "list_inv self'" "li_logical_scroll_top self' = None" "length (rows self') = n"
proof -
  let ?self = "self\<lparr>li_reset := True, li_measuring_behavior := measuring_reset (li_measuring_behavior self),
    li_logical_scroll_top := None, li_pending_scroll := None, li_scrollbar_drag_start_height := None\<rparr>"
  have inv: "list_inv ?self" "shallow ?self" using assms(1,2) by (simp_all add: list_inv_def shallow_def)
  have r: "splice_focusable (0, length (rows self)) (replicate n None) ?self = ret self'"
    using assms(3) item_count_rows [OF inv(1)] by (simp add: list_reset_def list_splice_def)
  show "list_inv self'" using splice_inv [OF inv, of 0 "length (rows self)"] r by simp
  show "li_logical_scroll_top self' = None" "length (rows self') = n"
    using splice_ok [OF inv, of 0 "length (rows self)" "replicate n None"] r by auto
qed

lemma update_inv:
  assumes "list_inv self"
  shows "list_inv (measure_all self)" "list_inv (set_scroll_handler handler self)" "list_inv (scroll_to_end self)"
    "list_inv (set_follow_mode mode self)" "list_inv (scrollbar_drag_started self)" "list_inv (scrollbar_drag_ended self)"
  using assms item_count_rows [OF assms]
  by (simp_all add: measure_all_def set_scroll_handler_def scroll_to_end_def set_follow_mode_def scrollbar_drag_started_def scrollbar_drag_ended_def
    list_inv_def offset_ok_def split: follow_mode.split)

lemma scroll_to_inv:
  assumes "list_inv self" "shallow self" "0 \<le> lo_offset_in_item pos" "scroll_to pos self = ret self'"
  shows "list_inv self'"
proof -
  let ?pos = "if lo_item_ix pos \<ge> list_item_count self then \<lparr>lo_item_ix = list_item_count self, lo_offset_in_item = 0\<rparr> else pos"
  let ?self = "if lo_item_ix ?pos < list_item_count self then self\<lparr>li_follow_state := stop_following (li_follow_state self)\<rparr> else self"
  have inv: "list_inv ?self" "shallow ?self" using assms(1,2) by (simp_all add: list_inv_def shallow_def)
  have ok: "offset_ok (length (rows ?self)) ?pos" using assms(3) item_count_rows [OF assms(1)] by (simp add: offset_ok_def)
  have "set_scroll_top ?pos ?self = ret self'" using assms(4) by (simp add: scroll_to_def Let_def)
  with set_scroll_top_ok [OF inv ok] show ?thesis by (metis option.inject)
qed

lemma reveal_inv:
  assumes inv: "list_inv self" "shallow self" and r: "scroll_to_reveal_item ix self = ret self'"
  shows "list_inv self'"
proof -
  have heights: "heights_ok (rows self)" using inv(1) by (simp add: list_inv_def)
  have pos_ok: "offset_ok (length (rows self)) (logical_scroll_top self)" using logical_scroll_top_ok [OF inv(1)] .
  have "\<exists>pos. set_scroll_top pos self = ret self' \<and> offset_ok (length (rows self)) pos"
  proof (cases "ix \<le> lo_item_ix (logical_scroll_top self)")
    case True
    with r pos_ok show ?thesis by (intro exI [of _ "\<lparr>lo_item_ix = ix, lo_offset_in_item = 0\<rparr>"]) (simp add: scroll_to_reveal_item_def offset_ok_def)
  next
    case False
    obtain fd c where c: "seek own_dim (count_target (ix + 1)) Right (cursor_new own_dim (li_items self)) = ret (fd, c)" "c_tree c = li_items self"
      using seek_own [OF inv, of "ix + 1"] by blast
    define goal where "goal = max 0 (lsm_height (cursor_start c) + ed_top (padding_or_default self) -
      (case li_last_layout_bounds self of Some b \<Rightarrow> sz_height (bn_size b) | None \<Rightarrow> 0) + ed_bottom (padding_or_default self))"
    obtain fd' c' pre post where c': "seek own_dim (height_target goal) Left c = ret (fd', c')" "cursor_ok list_ops own_dim c' pre post"
      "rows self = pre @ post" "row_at Left goal pre post"
      using seek_height [of c goal Left] inv c(2) heights by (auto simp: list_inv_def shallow_def goal_def)
    have start: "lsm_count (cursor_start c') = length pre" "lsm_height (cursor_start c') = px_of pre" using ok_start [OF c'(2)] by simp_all
    let ?pos = "if length pre \<ge> lo_item_ix (logical_scroll_top self)
      then \<lparr>lo_item_ix = length pre, lo_offset_in_item = goal - px_of pre\<rparr> else logical_scroll_top self"
    have "set_scroll_top ?pos self = ret self'"
      using r False c(1) c'(1) start by (simp add: scroll_to_reveal_item_def cong: if_cong flip: goal_def)
    moreover have "offset_ok (length (rows self)) ?pos" using c'(3,4) pos_ok by (simp add: offset_ok_def row_at_def)
    ultimately show ?thesis by blast
  qed
  with set_scroll_top_ok [OF inv] show ?thesis by (metis option.inject)
qed

lemma new_inv:
  fixes self :: "('u::linordered_field, 'f, 'w) list_state"
  assumes "list_new n alignment overdraw = ret self"
  shows "list_inv self" "length (rows self) = n"
proof -
  let ?self = "\<lparr>li_last_layout_bounds = None, li_last_padding = None, li_items = new_tree list_ops, li_logical_scroll_top = None,
      li_alignment = alignment, li_overdraw = overdraw, li_reset = False, li_scroll_handler = None,
      li_scrollbar_drag_start_height = None, li_measuring_behavior = Measure_Visible, li_pending_scroll = None,
      li_follow_state = Follow_Normal\<rparr> :: ('u, 'f, 'w) list_state"
  have inv: "list_inv ?self" "shallow ?self" by (simp_all add: list_inv_def shallow_def new_tree_def sum_s_def STACK_CAP_def)
  have r: "splice_focusable (0, 0) (replicate n None) ?self = ret self" using assms by (simp add: list_new_def list_splice_def)
  show "list_inv self" using splice_inv [OF inv _ _ r] by simp
  from splice_ok [OF inv, of 0 0 "replicate n None"] r show "length (rows self) = n" by auto
qed

section \<open>Reachable states\<close>

text \<open>
  The operations that change the state, with what their callers observe: ranges lie within the items, and lengths are not negative.
  A layout is what the element does when its size is requested; a prepaint is what it does in each frame.
\<close>

inductive list_step :: "('u::linordered_field, 'f, 'e, 'w) list_client \<Rightarrow> ('u, 'f, 'w) list_state \<Rightarrow> ('u, 'f, 'w) list_state \<Rightarrow> bool"
  for client where
  spliced: "a \<le> b \<Longrightarrow> b \<le> list_item_count self \<Longrightarrow> splice_focusable (a, b) fs self = ret self' \<Longrightarrow> list_step client self self'"
| was_reset: "list_reset n self = ret self' \<Longrightarrow> list_step client self self'"
| uniform: "0 \<le> height \<Longrightarrow> apply_uniform_item_height height self = ret self' \<Longrightarrow> list_step client self self'"
| remeasured: "a \<le> b \<Longrightarrow> low_slice a b self \<Longrightarrow> remeasure_items_with_scroll_anchor (a, b) scroll_anchor self = ret self' \<Longrightarrow> list_step client self self'"
| measuring: "list_step client self (measure_all self)"
| handler: "list_step client self (set_scroll_handler handler self)"
| scrolled_by: "scroll_by distance self = ret self' \<Longrightarrow> list_step client self self'"
| scrolled_to_end: "list_step client self (scroll_to_end self)"
| follow: "list_step client self (set_follow_mode mode self)"
| scrolled_to: "0 \<le> lo_offset_in_item pos \<Longrightarrow> scroll_to pos self = ret self' \<Longrightarrow> list_step client self self'"
| revealed: "scroll_to_reveal_item ix self = ret self' \<Longrightarrow> list_step client self self'"
| drag_started: "list_step client self (scrollbar_drag_started self)"
| drag_ended: "list_step client self (scrollbar_drag_ended self)"
| dragged: "set_offset_from_scrollbar point self = ret self' \<Longrightarrow> list_step client self self'"
| wheel: "offset_ok (list_item_count self) pos \<Longrightarrow> 0 \<le> height \<Longrightarrow> list_scroll notify pos height delta self window = ret (self', window') \<Longrightarrow>
    list_step client self self'"
| layout: "sizes_ok client \<Longrightarrow> 0 \<le> ed_bottom padding \<Longrightarrow> 0 \<le> li_overdraw self \<Longrightarrow>
    low_layout client width height padding self window \<Longrightarrow>
    layout_items client width height padding self window = ret (response, self', window') \<Longrightarrow> list_step client self self'"
| prepaint: "sizes_ok client \<Longrightarrow> 0 \<le> ed_bottom padding \<Longrightarrow> 0 \<le> li_overdraw self \<Longrightarrow> low_prepaint client bounds padding self window \<Longrightarrow>
    list_prepaint client bounds padding self window = ret (layout_response, self', window') \<Longrightarrow> list_step client self self'"

inductive list_reaches :: "('u::linordered_field, 'f, 'e, 'w) list_client \<Rightarrow> ('u, 'f, 'w) list_state \<Rightarrow> bool"
  for client where
  created: "list_new n alignment overdraw = ret self \<Longrightarrow> list_reaches client self"
| stepped: "list_reaches client self \<Longrightarrow> shallow self \<Longrightarrow> list_step client self self' \<Longrightarrow> list_reaches client self'"

lemma step_inv:
  assumes "list_step client self self'" "list_inv self" "shallow self"
  shows "list_inv self'"
  using assms
proof (cases rule: list_step.cases)
  case (spliced a b fs)
  then show ?thesis using splice_inv [OF assms(2,3)] item_count_rows [OF assms(2)] by simp
next
  case (dragged point)
  then show ?thesis
    using assms(2,3) scrollbar_ok [OF assms(2,3), of _ point] by (cases "li_last_layout_bounds self") (simp_all add: set_offset_from_scrollbar_def, metis option.inject)
next
  case (wheel pos height notify delta window window')
  then show ?thesis
    using assms(2,3) list_scroll_ok [OF assms(2,3), of pos height notify delta window] item_count_rows [OF assms(2)]
    by (cases "li_reset self") (simp add: list_scroll_def, metis option.inject prod.inject)
next
  case (layout padding height width window response window')
  from layout_items_ok [OF assms(2,3) layout(1-4)] layout(5) show ?thesis by (auto simp: laid_out_def)
next
  case (prepaint padding bounds window response window')
  from list_prepaint_ok [OF assms(2,3) prepaint(1-4)] prepaint(5) show ?thesis by auto
next
  case (scrolled_by distance)
  then show ?thesis using scroll_by_ok [OF assms(2,3), of distance] by (metis option.inject)
qed (use assms(2,3) in \<open>auto simp: update_inv elim: uniform_inv(1) reset_inv(1) remeasure_inv(1) scroll_to_inv reveal_inv\<close>)

lemma reaches_inv: "list_reaches client self \<Longrightarrow> list_inv self"
  by (induction rule: list_reaches.induct) (auto dest: new_inv(1) step_inv)

end
