(* ===== verification/List_Properties.thy ===== *)
theory List_Properties
  imports List_Steps Complex_Main
begin

text \<open>
  What a list element promises: its state stays consistent, items are replaced without moving what is on the screen, scrolling is
  clamped to the content, an item that is revealed is visible, and a layout fills the viewport.
\<close>

section \<open>A list of four items\<close>

definition sample_rows :: "(rat, nat) list_item list" where
  "sample_rows = [Measured (mk_size 10 40) None, Measured (mk_size 10 60) (Some 1), Unmeasured None None, Measured (mk_size 10 50) None]"

definition sample_list :: "(rat, nat, nat) list_state" where
  "sample_list = \<lparr>li_last_layout_bounds = Some (bounds_new (mk_point 0 0) (mk_size 100 90)), li_last_padding = None,
     li_items = Leaf (sum_s (list_ops :: ((rat, nat) list_item, rat list_summary) item_ops) (map list_item_summary sample_rows))
       sample_rows (map list_item_summary sample_rows),
     li_logical_scroll_top = Some \<lparr>lo_item_ix = 1, lo_offset_in_item = 10\<rparr>, li_alignment = Align_Top, li_overdraw = 20,
     li_reset = False, li_scroll_handler = None, li_scrollbar_drag_start_height = None, li_measuring_behavior = Measure_Visible,
     li_pending_scroll = None, li_follow_state = Follow_Normal\<rparr>"

definition sample_client :: "(rat, nat, nat, nat) list_client" where
  "sample_client = \<lparr>cl_render_item = (\<lambda>ix window. (ix, window + 1)), cl_layout_as_root = (\<lambda>space element window. (mk_size 10 30, element, window)),
     cl_contains_focused = (\<lambda>handle window. handle = 1), cl_prepaint_at = (\<lambda>bounds origin element window. (element, window)),
     cl_take_autoscroll = (\<lambda>window. (None, window)), cl_rollback = (\<lambda>before now. before)\<rparr>"

lemma sample_items_list: "rows sample_list = sample_rows" "list_item_count sample_list = 4" "length sample_rows = 4"
  "px_of sample_rows = 150" "li_reset sample_list = False" "li_alignment sample_list = Align_Top" "padding_or_default sample_list = default_edges"
  by (simp_all add: sample_list_def sample_rows_def list_item_count_def sum_s_def padding_or_default_def item_height_def item_size_hint_def mk_size_def
    list_item_summary_def)

lemma sample_take: "px_of (take 1 sample_rows) = 40" "px_of (take (Suc 0) sample_rows) = 40" "px_of (take (Suc (Suc 0)) sample_rows) = 100"
  "px_of (take 3 sample_rows) = 100" "px_of (take (Suc 3) sample_rows) = 150" "item_height (sample_rows ! 3) = 50"
  by (simp_all add: sample_rows_def item_height_def item_size_hint_def mk_size_def numeral_3_eq_3)

lemma sample_inv: "list_inv sample_list" "shallow sample_list"
  by (simp_all add: sample_list_def list_inv_def shallow_def sample_rows_def offset_ok_def TREE_BASE_def STACK_CAP_def item_height_def item_size_hint_def
    mk_size_def)

lemma sample_px: "scroll_px sample_list = 50"
  by (simp add: scroll_px_def scroll_top_px list_inv_wf [OF sample_inv(1)] sample_items_list)
    (simp add: sample_list_def logical_scroll_top_def sample_rows_def item_height_def item_size_hint_def mk_size_def)

lemma sample_sizes: "sizes_ok sample_client"
  by (simp add: sizes_ok_def sample_client_def mk_size_def)

lemma pred_option_case: "pred_option P x \<longleftrightarrow> (case x of None \<Rightarrow> True | Some y \<Rightarrow> P y)"
  by (cases x) simp_all

lemma sample_low: "low_layout sample_client (Some 100) 90 default_edges sample_list 0"
  unfolding low_layout_def shallow_def pred_option_case by code_simp

section \<open>Reachable states\<close>

text \<open>C31: Every state that a list reaches from \<open>ListState::new\<close> through its operations, through the layouts in which its size is
  requested and through prepaints, an autoscroll included, is well typed: the tree of its items is well formed and its summary counts
  the items and adds up their heights, none of which is negative; the scroll position is at an item of the list or at its end and not
  before the start of that item; a pending scroll has a fraction between 0 and 1. From such a state a prepaint returns and records
  the bounds and the padding. Elements do not lay out to negative heights, the lower padding and the overdraw are not negative,
  ranges and sizes that callers pass are valid, and the trees are lower than the stacks of the cursors.\<close>

theorem list_state_well_typed:
  assumes "list_reaches client self"
  shows "wf_tree list_ops (li_items self) \<and> list_item_count self = length (rows self) \<and>
    lsm_height (node_summary (li_items self)) = px_of (rows self) \<and> heights_ok (rows self) \<and>
    offset_ok (length (rows self)) (logical_scroll_top self) \<and> pred_option pending_ok (li_pending_scroll self) \<and>
    (\<forall>bounds padding window. shallow self \<and> sizes_ok client \<and> 0 \<le> ed_bottom padding \<and> 0 \<le> li_overdraw self \<and>
      low_prepaint client bounds padding self window \<longrightarrow>
      (\<exists>response self' window'. list_prepaint client bounds padding self window = ret (response, self', window') \<and>
        li_last_layout_bounds self' = Some bounds \<and> li_last_padding self' = Some padding))"
proof -
  note inv = reaches_inv [OF assms]
  have "\<exists>response self' window'. list_prepaint client bounds padding self window = ret (response, self', window') \<and>
      li_last_layout_bounds self' = Some bounds \<and> li_last_padding self' = Some padding"
    if "shallow self" "sizes_ok client" "0 \<le> ed_bottom padding" "0 \<le> li_overdraw self" "low_prepaint client bounds padding self window"
    for bounds padding window using list_prepaint_ok [OF inv that] by blast
  with inv logical_scroll_top_ok [OF inv] item_count_rows [OF inv] show ?thesis by (simp add: list_inv_def list_summary_items)
qed

text \<open>A list of three items that is prepainted for the first time and then dragged by its scrollbar.\<close>

definition sample_bounds :: "rat bounds" where
  "sample_bounds = bounds_new (mk_point 0 0) (mk_size 100 40)"

definition created_list :: "(rat, nat, nat) list_state" where
  "created_list = the (list_new 3 Align_Top 20)"

definition prepainted_list :: "(rat, nat, nat) list_state" where
  "prepainted_list = fst (snd (the (list_prepaint sample_client sample_bounds default_edges created_list 0)))"

definition dragged_list :: "(rat, nat, nat) list_state" where
  "dragged_list = the (set_offset_from_scrollbar (mk_point 0 (- 10)) prepainted_list)"

lemma created_low: "shallow created_list \<and> low_prepaint sample_client sample_bounds default_edges created_list 0"
  unfolding low_prepaint_def low_prepaint_items_def low_layout_def shallow_def pred_option_case by code_simp

lemma created_values: "list_new 3 Align_Top 20 \<noteq> (None :: (rat, nat, nat) list_state option)" "0 \<le> li_overdraw created_list"
  by code_simp+

lemma prepainted_values: "list_prepaint sample_client sample_bounds default_edges created_list 0 \<noteq> None" "shallow prepainted_list"
  unfolding shallow_def by code_simp+

lemma dragged_values: "set_offset_from_scrollbar (mk_point 0 (- 10)) prepainted_list \<noteq> None"
    "li_logical_scroll_top dragged_list = Some \<lparr>lo_item_ix = 0, lo_offset_in_item = 10\<rparr>"
  by code_simp+

theorem list_state_well_typed_witness:
  "list_reaches sample_client dragged_list \<and> li_last_layout_bounds prepainted_list = Some sample_bounds \<and>
   offset_ok (length (rows dragged_list)) \<lparr>lo_item_ix = 0, lo_offset_in_item = 10 :: rat\<rparr>"
proof -
  have new: "list_new 3 Align_Top 20 = ret created_list" using created_values(1) by (auto simp: created_list_def)
  then have r1: "list_reaches sample_client created_list" by (rule list_reaches.created)
  have bottom: "0 \<le> ed_bottom (default_edges :: rat edges)" by (simp add: default_edges_def)
  from list_state_well_typed [OF r1] sample_sizes bottom created_values(2) created_low
  obtain response w where p: "list_prepaint sample_client sample_bounds default_edges created_list 0 = ret (response, prepainted_list, w)"
    "li_last_layout_bounds prepainted_list = Some sample_bounds" by (fastforce simp: prepainted_list_def)
  have r2: "list_reaches sample_client prepainted_list"
    by (rule list_reaches.stepped [OF r1 _ list_step.prepaint [OF sample_sizes bottom created_values(2) _ p(1)]]) (use created_low in simp_all)
  have r3: "list_reaches sample_client dragged_list"
    by (rule list_reaches.stepped [OF r2 prepainted_values(2) list_step.dragged]) (use dragged_values(1) in \<open>auto simp: dragged_list_def\<close>)
  from list_state_well_typed [OF r3] p(2) r3 dragged_values(2) show ?thesis by (simp add: logical_scroll_top_def)
qed

section \<open>Replacing items\<close>

text \<open>The scroll position after the items from \<open>a\<close> to \<open>b\<close> were replaced: at the same item, unless that was replaced.\<close>

definition anchored ::
  "nat \<Rightarrow> nat \<Rightarrow> ('u, 'f) list_item list \<Rightarrow> ('u, 'f) list_item list \<Rightarrow> 'u::linordered_field list_offset \<Rightarrow> 'u list_offset \<Rightarrow> bool" where
  "anchored a b xs ys old new \<longleftrightarrow>
     (if a \<le> lo_item_ix old \<and> lo_item_ix old < b then new = \<lparr>lo_item_ix = a, lo_offset_in_item = 0\<rparr>
      else lo_offset_in_item new = lo_offset_in_item old \<and>
        (if lo_item_ix old < length xs then lo_item_ix new < length ys \<and> ys ! lo_item_ix new = xs ! lo_item_ix old
         else lo_item_ix new = length ys))"

lemma anchored_spliced:
  assumes "a \<le> b" "b \<le> length xs" "lo_item_ix pos \<le> length xs" "ys = take a xs @ ms @ drop b xs"
  shows "anchored a b xs ys pos (spliced_offset a b (length ms) pos)"
  using assms by (auto simp: anchored_def spliced_offset_def nth_append)

text \<open>C26: \<open>splice_focusable\<close> refines the replacement of a range in a sequence: the items of the range are replaced by unmeasured ones
  with the given focus handles, nothing else of the state changes but the scroll position, and if the item at the scroll position
  was not replaced then the same item is there afterwards, at the same offset.\<close>

theorem splice_refines:
  assumes "list_inv self" "shallow self" "a \<le> b" "b \<le> length (rows self)"
  shows "\<exists>t pos. splice_focusable (a, b) fs self = ret (self\<lparr>li_items := t, li_logical_scroll_top := pos\<rparr>) \<and>
    list_inv (self\<lparr>li_items := t, li_logical_scroll_top := pos\<rparr>) \<and>
    tree_items t = take a (rows self) @ map (Unmeasured None) fs @ drop b (rows self) \<and>
    rel_option (anchored a b (rows self) (tree_items t)) (li_logical_scroll_top self) pos"
proof -
  obtain t where t: "splice_focusable (a, b) fs self =
      ret (self\<lparr>li_items := t, li_logical_scroll_top := map_option (spliced_offset a b (length fs)) (li_logical_scroll_top self)\<rparr>)"
    "tree_items t = take a (rows self) @ map (Unmeasured None) fs @ drop b (rows self)"
    using splice_ok [OF assms(1-3)] by blast
  have "rel_option (anchored a b (rows self) (tree_items t)) (li_logical_scroll_top self)
      (map_option (spliced_offset a b (length fs)) (li_logical_scroll_top self))"
    using assms(1) anchored_spliced [OF assms(3,4) _ t(2)]
    by (cases "li_logical_scroll_top self") (simp_all add: list_inv_def offset_ok_def)
  with splice_inv [OF assms t(1)] t show ?thesis by blast
qed

theorem splice_refines_witness:
  "\<exists>t new. splice_focusable (0, 1) [Some 7, None] sample_list = ret (sample_list\<lparr>li_items := t, li_logical_scroll_top := Some new\<rparr>) \<and>
   tree_items t = Unmeasured None (Some 7) # Unmeasured None None # tl sample_rows \<and>
   tree_items t ! lo_item_ix new = sample_rows ! 1 \<and> lo_offset_in_item new = 10"
proof -
  have "li_logical_scroll_top sample_list = Some \<lparr>lo_item_ix = 1, lo_offset_in_item = 10\<rparr>" by (simp add: sample_list_def)
  with splice_refines [OF sample_inv, of 0 1 "[Some 7, None]"] show ?thesis by (auto simp: sample_items_list drop_Suc option_rel_Some1 anchored_def)
qed

section \<open>Scrolling\<close>

text \<open>C20: The wheel scrolls a list by its delta, clamped between the start of the content and the point where the end of the content
  reaches the end of the viewport; there a list aligned to the bottom drops its position and so stays at the end. The items are unchanged, and
  scrolling up stops following the tail. A list that was reset and not prepainted since ignores the wheel.\<close>

theorem wheel_scroll_clamped:
  assumes "list_inv self" "shallow self" "offset_ok (length (rows self)) pos" "0 \<le> height"
  shows "if li_reset self then list_scroll notify pos height delta self window = ret (self, window)
    else \<exists>self' window'. list_scroll notify pos height delta self window = ret (self', window') \<and> list_inv self' \<and> rows self' = rows self \<and>
    (let padding = padding_or_default self;
         scroll_max = max (px_of (rows self) + ed_top padding + ed_bottom padding - height) 0;
         h = min (max (px_of (take (lo_item_ix pos) (rows self)) + lo_offset_in_item pos - pt_y delta) 0) scroll_max in
     if li_alignment self = Align_Bottom \<and> h = scroll_max then li_logical_scroll_top self' = None else scroll_px self' = h) \<and>
    li_follow_state self' = (if pt_y delta > 0 then stop_following (li_follow_state self) else li_follow_state self)"
proof (cases "li_reset self")
  case False
  from list_scroll_ok [OF assms(1,2) False assms(3,4), of notify delta window] show ?thesis
    by (simp only: False if_False) (metis scroll_top_px list_inv_wf [OF assms(1)])
qed (simp add: list_scroll_def)

theorem wheel_scroll_clamped_witness:
  "\<exists>self' window'. list_scroll id \<lparr>lo_item_ix = 1, lo_offset_in_item = 10\<rparr> 90 (mk_point 0 (- 100)) sample_list 0 = ret (self', window') \<and> scroll_px self' = 60"
  using wheel_scroll_clamped [OF sample_inv, of "\<lparr>lo_item_ix = 1, lo_offset_in_item = 10\<rparr>" 90 id "mk_point 0 (- 100)" 0]
  by (auto simp: sample_items_list offset_ok_def default_edges_def mk_point_def sample_take)

text \<open>C29: After \<open>scroll_to_reveal_item\<close> the item lies within the viewport of the last layout, if it fits there and the
  scroll position lay within the item it names.\<close>

theorem reveal_shows_item:
  assumes "list_inv self" "shallow self" "ix < length (rows self)"
    and "li_last_layout_bounds self = Some b" "padding_or_default self = padding" "0 \<le> ed_top padding" "0 \<le> ed_bottom padding"
    and "ed_top padding + item_height (rows self ! ix) + ed_bottom padding \<le> sz_height (bn_size b)"
    and "scroll_px self \<le> px_of (take (Suc (lo_item_ix (logical_scroll_top self))) (rows self))"
  shows "\<exists>self'. scroll_to_reveal_item ix self = ret self' \<and> list_inv self' \<and> li_items self' = li_items self \<and>
    scroll_px self' \<le> px_of (take ix (rows self)) \<and>
    ed_top padding + px_of (take (Suc ix) (rows self)) + ed_bottom padding \<le> scroll_px self' + sz_height (bn_size b)"
  using reveal_ok [OF assms] by metis

theorem reveal_shows_item_witness:
  "\<exists>self'. scroll_to_reveal_item 3 sample_list = ret self' \<and> scroll_px self' \<le> 100 \<and> 150 \<le> scroll_px self' + 90"
proof -
  have "li_last_layout_bounds sample_list = Some (bounds_new (mk_point 0 0) (mk_size 100 90))" "lo_item_ix (logical_scroll_top sample_list) = 1"
    by (simp_all add: sample_list_def logical_scroll_top_def)
  with reveal_shows_item [OF sample_inv, of 3 "bounds_new (mk_point 0 0) (mk_size 100 90)" default_edges] show ?thesis
    by (auto simp: sample_items_list sample_px sample_take default_edges_def bounds_new_def mk_size_def)
qed

section \<open>Layout\<close>

text \<open>C34: A layout returns, and in a viewport that is higher than the upper padding it fills the viewport: the visible items are
  consecutive, have the sizes that the tree has for them afterwards, and reach the lower edge of the viewport or else the end of the list,
  which then starts above the viewport or is shown as a whole. At most one item is laid out that is not among the visible ones, one that
  can have the focus. The number and the focus handles of the items are kept, and nothing of the state changes but the sizes, the scroll position, the
  pending scroll and whether the list follows its tail. A list that follows its tail is laid out to its end; if the viewport is higher than
  both paddings together then its last item is among the visible ones and ends, with the lower padding, not below the lower edge of the viewport. Elements
  do not lay out to negative heights, the lower padding and the overdraw are not negative, and the trees are lower than the stacks of the
  cursors.\<close>

theorem layout_fills_viewport:
  assumes "list_inv self" "shallow self" "sizes_ok client"
    and "ed_top padding < height" "0 \<le> ed_bottom padding" "0 \<le> li_overdraw self" "low_layout client width height padding self window"
  shows "\<exists>response self' window' visible focused. layout_items client width height padding self window = ret (response, self', window') \<and>
    laid_out self (lr_scroll_top response) self' \<and> lr_item_layouts response = visible @ focused \<and>
    viewport_filled padding height (li_alignment self) (rows self') (lr_scroll_top response) visible \<and>
    (is_following (li_follow_state self) \<longrightarrow> lo_item_ix (lr_scroll_top response) + length visible = length (rows self) \<and>
      (ed_top padding + ed_bottom padding < height \<longrightarrow> (rows self \<noteq> [] \<longrightarrow> visible \<noteq> []) \<and>
        ed_top padding + px_of (drop (lo_item_ix (lr_scroll_top response)) (rows self')) - lo_offset_in_item (lr_scroll_top response) +
          ed_bottom padding \<le> height)) \<and>
    (focused = [] \<or> (\<exists>layout. focused = [layout] \<and> il_index layout < length (rows self') \<and> item_focus_handle (rows self' ! il_index layout) \<noteq> None))"
proof -
  obtain response self' window' visible focused where r: "layout_items client width height padding self window = ret (response, self', window')"
    "laid_out self (lr_scroll_top response) self'" "lr_item_layouts response = visible @ focused"
    "viewport_filled padding height (li_alignment self) (rows self') (lr_scroll_top response) visible"
    "is_following (li_follow_state self) \<Longrightarrow>
      tail_shown padding height (length (rows self)) (drop (lo_item_ix (lr_scroll_top response)) (rows self')) (lr_scroll_top response) visible"
    "focused = [] \<or> (\<exists>layout. focused = [layout] \<and> il_index layout < length (rows self') \<and> item_focus_handle (rows self' ! il_index layout) \<noteq> None)"
    using layout_items_ok [OF assms(1-3,5-7)] assms(4) by blast
  note tail = tail_in_view [OF r(4,5) laid_out_length [OF r(2)] assms(5)]
  have following: "is_following (li_follow_state self) \<longrightarrow> lo_item_ix (lr_scroll_top response) + length visible = length (rows self) \<and>
      (ed_top padding + ed_bottom padding < height \<longrightarrow> (rows self \<noteq> [] \<longrightarrow> visible \<noteq> []) \<and>
        ed_top padding + px_of (drop (lo_item_ix (lr_scroll_top response)) (rows self')) - lo_offset_in_item (lr_scroll_top response) +
          ed_bottom padding \<le> height)"
    using tail by simp
  show ?thesis by (intro exI conjI) (rule r(1-4,6) following)+
qed

theorem layout_fills_viewport_witness:
  "\<exists>response self' window' visible focused. layout_items sample_client (Some 100) 90 default_edges sample_list 0 = ret (response, self', window') \<and>
    lr_item_layouts response = visible @ focused \<and>
    viewport_filled default_edges 90 Align_Top (rows self') (lr_scroll_top response) visible \<and> same_items sample_rows (rows self')"
proof -
  have "ed_top default_edges < (90 :: rat)" "0 \<le> ed_bottom (default_edges :: rat edges)" "0 \<le> li_overdraw sample_list"
    by (simp_all add: default_edges_def sample_list_def)
  from layout_fills_viewport [OF sample_inv sample_sizes this sample_low] show ?thesis
    unfolding laid_out_def layout_frame_def sample_items_list by (elim exE conjE) (intro exI conjI, assumption+)
qed

end
