(* ===== verification/Line_Layout.thy ===== *)
theory Line_Layout
  imports Rust_Text Geometry Complex_Main
begin

text \<open>
  \<open>gpui/src/text_system/line_layout.rs\<close>: lines of text that the platform has shaped into glyphs, the positions of characters in
  them, and the boundaries at which a line is wrapped. Lengths are an archimedean field with its floor, which is what the
  conversion of \<open>f32\<close> to an integer is on lengths that are not negative. Indices into a text count its UTF-8 bytes.
\<close>

section \<open>Text\<close>

definition char_len_utf8 :: "char \<Rightarrow> nat" where
  "char_len_utf8 c = (if code_point c < 128 then 1 else 2)"

definition str_len :: "string \<Rightarrow> nat" where
  "str_len s = sum_list (map char_len_utf8 s)"

text \<open>\<open>text[index..].chars().next().unwrap()\<close>, which panics inside a character and at the end.\<close>

fun char_at :: "string \<Rightarrow> nat \<Rightarrow> char rust" where
  "char_at [] index = panic"
| "char_at (c # s) index =
     (if index = 0 then ret c else if index < char_len_utf8 c then panic else char_at s (index - char_len_utf8 c))"

text \<open>The character \<open>LineWrapper::is_word_char\<close> of \<open>line_wrapper.rs\<close>, on the characters below 256.\<close>

definition is_word_char :: "char \<Rightarrow> bool" where
  "is_word_char c \<longleftrightarrow> (let n = code_point c in
     (48 \<le> n \<and> n \<le> 57 \<or> 65 \<le> n \<and> n \<le> 90 \<or> 97 \<le> n \<and> n \<le> 122) \<or>
     192 \<le> n \<or>
     c \<in> set [CHR ''-'', CHR ''_'', CHR ''.'', CHR 0x27, CHR ''$'', CHR ''%'', CHR ''@'', CHR ''#'', CHR 0x5E, CHR ''~'', CHR '','',
       CHR ''='', CHR '':'', CHR '';''] \<or>
     c \<in> set [CHR ''!'', CHR '')'', CHR '']'', CHR ''}'', CHR 0x22] \<or> n = 187 \<or>
     n = 160)"

section \<open>Shaped lines\<close>

record ('u, 'g) shaped_glyph =
  sg_id :: 'g
  sg_position :: "'u point"
  sg_index :: nat
  sg_is_emoji :: bool

record ('u, 'g, 'f) shaped_run =
  sr_font_id :: 'f
  sr_glyphs :: "('u, 'g) shaped_glyph list"

record ('u, 'g, 'f) line_layout =
  ll_font_size :: 'u
  ll_width :: 'u
  ll_ascent :: 'u
  ll_descent :: 'u
  ll_runs :: "('u, 'g, 'f) shaped_run list"
  ll_len :: nat

abbreviation sg_x :: "('u, 'g) shaped_glyph \<Rightarrow> 'u" where
  "sg_x glyph \<equiv> pt_x (sg_position glyph)"

text \<open>The nested loops over the runs and their glyphs.\<close>

definition glyphs_of :: "('u, 'g, 'f) line_layout \<Rightarrow> ('u, 'g) shaped_glyph list" where
  "glyphs_of self = concat (map sr_glyphs (ll_runs self))"

definition index_for_x :: "'u \<Rightarrow> ('u::floor_ceiling, 'g, 'f) line_layout \<Rightarrow> nat option" where
  "index_for_x x self =
     (if x \<ge> ll_width self then None
      else (case find (\<lambda>glyph. sg_x glyph \<le> x) (concat (map (\<lambda>run. rev (sr_glyphs run)) (rev (ll_runs self)))) of
          Some glyph \<Rightarrow> Some (sg_index glyph)
        | None \<Rightarrow> Some 0))"

fun closest_loop :: "'u \<Rightarrow> ('u::floor_ceiling, 'g) shaped_glyph list \<Rightarrow> nat \<Rightarrow> 'u \<Rightarrow> nat option" where
  "closest_loop x [] prev_index prev_x = None"
| "closest_loop x (glyph # glyphs) prev_index prev_x =
     (if sg_x glyph \<ge> x then Some (if sg_x glyph - x < x - prev_x then sg_index glyph else prev_index)
      else closest_loop x glyphs (sg_index glyph) (sg_x glyph))"

definition closest_index_for_x :: "'u \<Rightarrow> ('u::floor_ceiling, 'g, 'f) line_layout \<Rightarrow> nat" where
  "closest_index_for_x x self =
     (case closest_loop x (glyphs_of self) 0 0 of
        Some index \<Rightarrow> index
      | None \<Rightarrow> if ll_len self = 1 then (if x > ll_width self / 2 then 1 else 0) else ll_len self)"

definition x_for_index :: "nat \<Rightarrow> ('u, 'g, 'f) line_layout \<Rightarrow> 'u" where
  "x_for_index index self =
     (case find (\<lambda>glyph. sg_index glyph \<ge> index) (glyphs_of self) of Some glyph \<Rightarrow> sg_x glyph | None \<Rightarrow> ll_width self)"

definition font_id_for_index :: "nat \<Rightarrow> ('u, 'g, 'f) line_layout \<Rightarrow> 'f option" where
  "font_id_for_index index self =
     map_option sr_font_id (find (\<lambda>run. \<exists>glyph \<in> set (sr_glyphs run). sg_index glyph \<ge> index) (ll_runs self))"

section \<open>Wrapping\<close>

record wrap_boundary =
  wb_run_ix :: nat
  wb_glyph_ix :: nat

text \<open>The derived order.\<close>

definition boundary_less :: "wrap_boundary \<Rightarrow> wrap_boundary \<Rightarrow> bool" where
  "boundary_less a b \<longleftrightarrow> wb_run_ix a < wb_run_ix b \<or> wb_run_ix a = wb_run_ix b \<and> wb_glyph_ix a < wb_glyph_ix b"

record 'u wrap_state =
  ws_boundaries :: "wrap_boundary list"
  ws_first_non_whitespace_ix :: "wrap_boundary option"
  ws_last_candidate_ix :: "wrap_boundary option"
  ws_last_candidate_x :: 'u
  ws_last_boundary :: wrap_boundary
  ws_last_boundary_x :: 'u
  ws_prev_ch :: char

definition wrap_state_new :: "'u::floor_ceiling wrap_state" where
  "wrap_state_new =
     \<lparr>ws_boundaries = [], ws_first_non_whitespace_ix = None, ws_last_candidate_ix = None, ws_last_candidate_x = 0,
      ws_last_boundary = \<lparr>wb_run_ix = 0, wb_glyph_ix = 0\<rparr>, ws_last_boundary_x = 0, ws_prev_ch = CHR 0x00\<rparr>"

text \<open>The glyphs with their boundaries.\<close>

definition boundary_glyphs :: "('u, 'g, 'f) line_layout \<Rightarrow> (wrap_boundary \<times> ('u, 'g) shaped_glyph) list" where
  "boundary_glyphs self = concat (map (\<lambda>(run_ix, run).
     map (\<lambda>(glyph_ix, glyph). (\<lparr>wb_run_ix = run_ix, wb_glyph_ix = glyph_ix\<rparr>, glyph)) (List.enumerate 0 (sr_glyphs run)))
     (List.enumerate 0 (ll_runs self)))"

text \<open>What a character says about where a line may end.\<close>

definition note_candidate :: "wrap_boundary \<Rightarrow> char \<Rightarrow> 'u \<Rightarrow> 'u wrap_state \<Rightarrow> 'u wrap_state" where
  "note_candidate boundary ch x st = (
     let candidate = st\<lparr>ws_last_candidate_ix := Some boundary, ws_last_candidate_x := x\<rparr>;
         st = (if is_word_char ch
           then (if ws_prev_ch st = CHR '' '' \<and> ch \<noteq> CHR '' '' \<and> ws_first_non_whitespace_ix st \<noteq> None then candidate else st)
           else (if ch \<noteq> CHR '' '' \<and> ws_first_non_whitespace_ix st \<noteq> None then candidate else st)) in
     if ch \<noteq> CHR '' '' \<and> ws_first_non_whitespace_ix st = None then st\<lparr>ws_first_non_whitespace_ix := Some boundary\<rparr> else st)"

text \<open>The line is broken at the last candidate, or else here.\<close>

definition break_line :: "wrap_boundary \<Rightarrow> 'u \<Rightarrow> 'u wrap_state \<Rightarrow> 'u wrap_state" where
  "break_line boundary x st = (
     let st = (case ws_last_candidate_ix st of
           Some candidate \<Rightarrow> st\<lparr>ws_last_candidate_ix := None, ws_last_boundary := candidate, ws_last_boundary_x := ws_last_candidate_x st\<rparr>
         | None \<Rightarrow> st\<lparr>ws_last_boundary := boundary, ws_last_boundary_x := x\<rparr>) in
     st\<lparr>ws_boundaries := ws_boundaries st @ [ws_last_boundary st]\<rparr>)"

text \<open>The loop; peeking at the next glyph already reads its character.\<close>

fun wrap_loop ::
  "string \<Rightarrow> 'u \<Rightarrow> 'u \<Rightarrow> nat option \<Rightarrow> (wrap_boundary \<times> ('u::floor_ceiling, 'g) shaped_glyph) list \<Rightarrow> 'u wrap_state \<Rightarrow>
   wrap_boundary list rust" where
  "wrap_loop text line_width wrap_width max_lines [] st = ret (ws_boundaries st)"
| "wrap_loop text line_width wrap_width max_lines ((boundary, glyph) # glyphs) st = do {
     ch \<leftarrow> char_at text (sg_index glyph);
     (if ch = CHR 0x0A then wrap_loop text line_width wrap_width max_lines glyphs st
      else do {
        let st = note_candidate boundary ch (sg_x glyph) st;
        next_x \<leftarrow> (case glyphs of [] \<Rightarrow> ret line_width | (_, g) # _ \<Rightarrow> do { _ \<leftarrow> char_at text (sg_index g); ret (sg_x g) });
        (if next_x - ws_last_boundary_x st > wrap_width \<and> boundary_less (ws_last_boundary st) boundary then
           (if (case max_lines of Some n \<Rightarrow> length (ws_boundaries st) \<ge> n - 1 | None \<Rightarrow> False) then ret (ws_boundaries st)
            else wrap_loop text line_width wrap_width max_lines glyphs ((break_line boundary (sg_x glyph) st)\<lparr>ws_prev_ch := ch\<rparr>))
         else wrap_loop text line_width wrap_width max_lines glyphs (st\<lparr>ws_prev_ch := ch\<rparr>)) }) }"

definition compute_wrap_boundaries ::
  "string \<Rightarrow> 'u \<Rightarrow> nat option \<Rightarrow> ('u::floor_ceiling, 'g, 'f) line_layout \<Rightarrow> wrap_boundary list rust" where
  "compute_wrap_boundaries text wrap_width max_lines self =
     wrap_loop text (ll_width self) wrap_width max_lines (boundary_glyphs self) wrap_state_new"

section \<open>Wrapped lines\<close>

record ('u, 'g, 'f) wrapped_line_layout =
  wl_unwrapped_layout :: "('u, 'g, 'f) line_layout"
  wl_wrap_boundaries :: "wrap_boundary list"
  wl_wrap_width :: "'u option"

definition wl_len :: "('u, 'g, 'f) wrapped_line_layout \<Rightarrow> nat" where
  "wl_len self = ll_len (wl_unwrapped_layout self)"

text \<open>No line is wider than \<open>Pixels::MAX\<close>.\<close>

definition wl_width :: "('u::floor_ceiling, 'g, 'f) wrapped_line_layout \<Rightarrow> 'u" where
  "wl_width self = (case wl_wrap_width self of
     Some wrap_width \<Rightarrow> min wrap_width (ll_width (wl_unwrapped_layout self)) | None \<Rightarrow> ll_width (wl_unwrapped_layout self))"

definition wl_size :: "'u \<Rightarrow> ('u::floor_ceiling, 'g, 'f) wrapped_line_layout \<Rightarrow> 'u bsize" where
  "wl_size line_height self = mk_size (wl_width self) (line_height * of_nat (length (wl_wrap_boundaries self) + 1))"

definition wl_ascent :: "('u, 'g, 'f) wrapped_line_layout \<Rightarrow> 'u" where
  "wl_ascent self = ll_ascent (wl_unwrapped_layout self)"

definition wl_descent :: "('u, 'g, 'f) wrapped_line_layout \<Rightarrow> 'u" where
  "wl_descent self = ll_descent (wl_unwrapped_layout self)"

definition wl_font_size :: "('u, 'g, 'f) wrapped_line_layout \<Rightarrow> 'u" where
  "wl_font_size self = ll_font_size (wl_unwrapped_layout self)"

definition wl_runs :: "('u, 'g, 'f) wrapped_line_layout \<Rightarrow> ('u, 'g, 'f) shaped_run list" where
  "wl_runs self = ll_runs (wl_unwrapped_layout self)"

definition boundary_glyph :: "('u, 'g, 'f) wrapped_line_layout \<Rightarrow> wrap_boundary \<Rightarrow> ('u, 'g) shaped_glyph rust" where
  "boundary_glyph self boundary = do {
     run \<leftarrow> index_or_panic (ll_runs (wl_unwrapped_layout self)) (wb_run_ix boundary);
     index_or_panic (sr_glyphs run) (wb_glyph_ix boundary) }"

text \<open>\<open>_index_for_position\<close>: an index in the line at the position is \<open>Inr\<close>, a position beside it gives the nearest end as \<open>Inl\<close>.\<close>

definition index_for_position_inner ::
  "'u point \<Rightarrow> 'u \<Rightarrow> bool \<Rightarrow> ('u::floor_ceiling, 'g, 'f) wrapped_line_layout \<Rightarrow> (nat + nat) rust" where
  "index_for_position_inner position line_height closest self = (
     let wrapped_line_ix = nat \<lfloor>pt_y position / line_height\<rfloor>;
         layout = wl_unwrapped_layout self in
     if wrapped_line_ix > 0 \<and> list_get (wl_wrap_boundaries self) (wrapped_line_ix - 1) = None then ret (Inl 0)
     else do {
       (start_index, start_x) \<leftarrow> (if wrapped_line_ix > 0 then do {
            boundary \<leftarrow> index_or_panic (wl_wrap_boundaries self) (wrapped_line_ix - 1);
            glyph \<leftarrow> boundary_glyph self boundary;
            ret (sg_index glyph, sg_x glyph) }
          else ret (0, 0));
       (end_index, end_x) \<leftarrow> (if wrapped_line_ix < length (wl_wrap_boundaries self) then do {
            boundary \<leftarrow> index_or_panic (wl_wrap_boundaries self) wrapped_line_ix;
            glyph \<leftarrow> boundary_glyph self boundary;
            ret (sg_index glyph, sg_x glyph) }
          else ret (ll_len layout, ll_width layout));
       let x = pt_x position + start_x;
       ret (if x < start_x then Inl start_index
         else if x \<ge> end_x then Inl end_index
         else if closest then Inr (closest_index_for_x x layout)
         else (case index_for_x x layout of Some index \<Rightarrow> Inr index | None \<Rightarrow> Inl end_index)) })"

definition index_for_position :: "'u point \<Rightarrow> 'u \<Rightarrow> ('u::floor_ceiling, 'g, 'f) wrapped_line_layout \<Rightarrow> (nat + nat) rust" where
  "index_for_position position line_height self = index_for_position_inner position line_height False self"

definition closest_index_for_position :: "'u point \<Rightarrow> 'u \<Rightarrow> ('u::floor_ceiling, 'g, 'f) wrapped_line_layout \<Rightarrow> (nat + nat) rust" where
  "closest_index_for_position position line_height self = index_for_position_inner position line_height True self"

text \<open>The ends of the wrapped lines are looked up as the loop comes to them.\<close>

fun position_loop ::
  "nat \<Rightarrow> 'u \<Rightarrow> ('u::floor_ceiling, 'g, 'f) line_layout \<Rightarrow> nat rust list \<Rightarrow> nat \<Rightarrow> nat \<Rightarrow> 'u point option rust" where
  "position_loop index line_height layout [] ix line_start_ix = ret None"
| "position_loop index line_height layout (line_end # line_ends) ix line_start_ix = do {
     line_end_ix \<leftarrow> line_end;
     (if index < line_start_ix then ret None
      else if index > line_end_ix then position_loop index line_height layout line_ends (ix + 1) line_end_ix
      else ret (Some (mk_point (x_for_index index layout - x_for_index line_start_ix layout) (of_nat ix * line_height)))) }"

definition position_for_index :: "nat \<Rightarrow> 'u \<Rightarrow> ('u::floor_ceiling, 'g, 'f) wrapped_line_layout \<Rightarrow> 'u point option rust" where
  "position_for_index index line_height self =
     position_loop index line_height (wl_unwrapped_layout self)
       (map (\<lambda>boundary. map_option sg_index (boundary_glyph self boundary)) (wl_wrap_boundaries self) @ [ret (wl_len self)]) 0 0"

section \<open>Cells of one width\<close>

text \<open>
  One glyph of \<open>apply_force_width_to_layout\<close>: where it goes, the number of cells, and the last base as shaped and as placed. No base has
  been seen yet where the code has \<open>NEG_INFINITY\<close>.
\<close>

definition force_glyph :: "'u \<Rightarrow> 'u \<Rightarrow> nat \<times> 'u option \<times> 'u \<Rightarrow> 'u::floor_ceiling \<times> nat \<times> 'u option \<times> 'u" where
  "force_glyph force_width shaped_x cells = (case cells of (glyph_pos, last_base_shaped_x, last_base_actual_x) \<Rightarrow>
     let forced_x = of_nat glyph_pos * force_width;
         base_x = (if \<bar>shaped_x - forced_x\<bar> > 1 then forced_x else shaped_x);
         base = (base_x, glyph_pos + 1, Some shaped_x, base_x) in
     case last_base_shaped_x of
       None \<Rightarrow> base
     | Some last_x \<Rightarrow>
         if shaped_x > last_x + force_width * (1 / 2) then base else (last_base_actual_x + (shaped_x - last_x), cells))"

fun force_width_loop ::
  "'u \<Rightarrow> ('u::floor_ceiling, 'g) shaped_glyph list \<Rightarrow> nat \<times> 'u option \<times> 'u \<Rightarrow> ('u, 'g) shaped_glyph list \<times> nat \<times> 'u option \<times> 'u" where
  "force_width_loop force_width [] cells = ([], cells)"
| "force_width_loop force_width (glyph # glyphs) cells =
     (case force_glyph force_width (sg_x glyph) cells of (x, cells) \<Rightarrow>
      case force_width_loop force_width glyphs cells of (glyphs, cells) \<Rightarrow>
        (glyph\<lparr>sg_position := (sg_position glyph)\<lparr>pt_x := x\<rparr>\<rparr> # glyphs, cells))"

fun force_width_runs ::
  "'u \<Rightarrow> ('u::floor_ceiling, 'g, 'f) shaped_run list \<Rightarrow> nat \<times> 'u option \<times> 'u \<Rightarrow> ('u, 'g, 'f) shaped_run list" where
  "force_width_runs force_width [] cells = []"
| "force_width_runs force_width (run # runs) cells =
     (case force_width_loop force_width (sr_glyphs run) cells of (glyphs, cells) \<Rightarrow>
        run\<lparr>sr_glyphs := glyphs\<rparr> # force_width_runs force_width runs cells)"

definition apply_force_width_to_layout :: "'u \<Rightarrow> ('u::floor_ceiling, 'g, 'f) line_layout \<Rightarrow> ('u, 'g, 'f) line_layout" where
  "apply_force_width_to_layout force_width layout =
     layout\<lparr>ll_runs := force_width_runs force_width (ll_runs layout) (0, None, 0)\<rparr>"

end
