(* ===== verification/Line_Positions.thy ===== *)
theory Line_Positions
  imports Line_Layout
begin

text \<open>
  Where the characters of a line are: the glyphs of a line as one sequence, the boundaries at which it is wrapped as positions
  in that sequence, and the loops that look an index or a position up.
\<close>

section \<open>The sequence of glyphs\<close>

text \<open>A line as it is shaped from left to right: the indices grow, and the positions do not go back, so that glyphs without a width of
  their own (combining marks) are at the place of the one before; the first glyph is at the start, and none is past the width.\<close>

definition line_ok :: "('u::floor_ceiling, 'g, 'f) line_layout \<Rightarrow> bool" where
  "line_ok self \<longleftrightarrow> glyphs_of self \<noteq> [] \<and> sg_x (glyphs_of self ! 0) = 0 \<and>
     sorted_wrt (\<lambda>a b. sg_index a < sg_index b \<and> sg_x a \<le> sg_x b) (glyphs_of self) \<and>
     (\<forall>glyph \<in> set (glyphs_of self). sg_index glyph < ll_len self \<and> sg_x glyph \<le> ll_width self)"

text \<open>The left edge of the \<open>p\<close>th glyph; past the last one it is the width of the line.\<close>

definition glyph_x :: "('u::floor_ceiling, 'g, 'f) line_layout \<Rightarrow> nat \<Rightarrow> 'u" where
  "glyph_x self p = (if p < length (glyphs_of self) then sg_x (glyphs_of self ! p) else ll_width self)"

definition glyph_index :: "('u::floor_ceiling, 'g, 'f) line_layout \<Rightarrow> nat \<Rightarrow> nat" where
  "glyph_index self p = (if p < length (glyphs_of self) then sg_index (glyphs_of self ! p) else ll_len self)"

lemma line_ok_pos: "line_ok self \<Longrightarrow> 0 < length (glyphs_of self)" "line_ok self \<Longrightarrow> glyph_x self 0 = 0"
  by (simp_all add: line_ok_def glyph_x_def)

lemma glyph_mono:
  assumes "line_ok self" "p < q" "q \<le> length (glyphs_of self)"
  shows "glyph_x self p \<le> glyph_x self q" "glyph_index self p < glyph_index self q"
  using assms by (auto simp: line_ok_def glyph_x_def glyph_index_def sorted_wrt_iff_nth_less)

lemma glyph_mono_le:
  assumes "line_ok self" "p \<le> q" "q \<le> length (glyphs_of self)"
  shows "glyph_x self p \<le> glyph_x self q" "glyph_index self p \<le> glyph_index self q"
  using glyph_mono [OF assms(1), of p q] assms(2,3) by (cases "p = q"; simp)+

lemma find_nth:
  assumes "p < length xs" "P (xs ! p)" "\<And>q. q < p \<Longrightarrow> \<not> P (xs ! q)"
  shows "find P xs = Some (xs ! p)"
  using assms by (auto simp: find_Some_iff intro!: exI [of _ p])

lemma find_rev_nth:
  assumes "p < length xs" "P (xs ! p)" "\<And>q. p < q \<Longrightarrow> q < length xs \<Longrightarrow> \<not> P (xs ! q)"
  shows "find P (rev xs) = Some (xs ! p)"
proof -
  have "find P (rev xs) = Some (rev xs ! (length xs - Suc p))"
  proof (rule find_nth)
    fix q assume "q < length xs - Suc p"
    then show "\<not> P (rev xs ! q)" using assms(3) [of "length xs - Suc q"] by (simp add: rev_nth)
  qed (use assms in \<open>simp_all add: rev_nth\<close>)
  then show ?thesis using assms(1) by (simp add: rev_nth)
qed

lemma glyphs_rev: "concat (map (\<lambda>run. rev (sr_glyphs run)) (rev (ll_runs self))) = rev (glyphs_of self)"
  by (simp add: glyphs_of_def rev_concat rev_map comp_def)

text \<open>The last of the glyphs at the same place.\<close>

definition last_at :: "('u::floor_ceiling, 'g, 'f) line_layout \<Rightarrow> nat \<Rightarrow> nat" where
  "last_at self p = last (filter (\<lambda>q. glyph_x self q = glyph_x self p) [0..<length (glyphs_of self)])"

lemma last_at:
  assumes "p < length (glyphs_of self)"
  shows "last_at self p < length (glyphs_of self)" "glyph_x self (last_at self p) = glyph_x self p"
    "q < length (glyphs_of self) \<Longrightarrow> glyph_x self q = glyph_x self p \<Longrightarrow> q \<le> last_at self p"
proof -
  define same where "same = filter (\<lambda>q. glyph_x self q = glyph_x self p) [0..<length (glyphs_of self)]"
  have in_same: "q \<in> set same \<longleftrightarrow> q < length (glyphs_of self) \<and> glyph_x self q = glyph_x self p" for q by (auto simp: same_def)
  then have "p \<in> set same" using assms by simp
  then have ne: "same \<noteq> []" by auto
  have last: "last_at self p = last same" by (simp add: last_at_def same_def)
  have "last same \<in> set same" using ne by simp
  then show "last_at self p < length (glyphs_of self)" "glyph_x self (last_at self p) = glyph_x self p" by (simp_all add: in_same last)
  have "sorted same" by (simp add: same_def sorted_wrt_filter)
  moreover assume "q < length (glyphs_of self)" "glyph_x self q = glyph_x self p"
  then have "q \<in> set same" by (simp add: in_same)
  then obtain i where "i < length same" "q = same ! i" by (auto simp: in_set_conv_nth)
  ultimately show "q \<le> last_at self p" unfolding last last_conv_nth [OF ne] by (auto intro: sorted_nth_mono)
qed

text \<open>Looking up a position and an index.\<close>

lemma index_for_x_glyph:
  assumes "line_ok self" "p < length (glyphs_of self)" "glyph_x self p \<le> x" "x < glyph_x self (Suc p)"
  shows "index_for_x x self = Some (glyph_index self p)"
proof -
  have "x < ll_width self" using assms(4) glyph_mono_le(1) [OF assms(1), of "Suc p" "length (glyphs_of self)"] assms(2) by (simp add: glyph_x_def)
  moreover have "find (\<lambda>glyph. sg_x glyph \<le> x) (rev (glyphs_of self)) = Some (glyphs_of self ! p)"
  proof (rule find_rev_nth)
    fix q assume "p < q" "q < length (glyphs_of self)"
    then have "glyph_x self (Suc p) \<le> glyph_x self q" by (intro glyph_mono_le(1) [OF assms(1)]) simp_all
    then show "\<not> sg_x (glyphs_of self ! q) \<le> x" using assms(4) \<open>q < _\<close> by (simp add: glyph_x_def)
  qed (use assms in \<open>simp_all add: glyph_x_def\<close>)
  ultimately show ?thesis using assms(2) by (simp add: index_for_x_def glyphs_rev glyph_index_def)
qed

lemma x_for_index_glyph:
  assumes "line_ok self" "p \<le> length (glyphs_of self)"
  shows "x_for_index (glyph_index self p) self = glyph_x self p"
proof (cases "p < length (glyphs_of self)")
  case True
  have "find (\<lambda>glyph. sg_index glyph \<ge> glyph_index self p) (glyphs_of self) = Some (glyphs_of self ! p)"
  proof (rule find_nth [OF True])
    fix q assume "q < p"
    then show "\<not> sg_index (glyphs_of self ! q) \<ge> glyph_index self p"
      using glyph_mono(2) [OF assms(1), of q p] True by (simp add: glyph_index_def)
  qed (use True in \<open>simp add: glyph_index_def\<close>)
  then show ?thesis using True by (simp add: x_for_index_def glyph_x_def)
next
  case False
  then have "find (\<lambda>glyph. sg_index glyph \<ge> glyph_index self p) (glyphs_of self) = None"
    using assms(1) by (force simp: line_ok_def glyph_index_def find_None_iff)
  with False show ?thesis by (simp add: x_for_index_def glyph_x_def)
qed

lemma x_for_index_0:
  assumes "line_ok self"
  shows "x_for_index 0 self = 0"
proof -
  have "find (\<lambda>glyph. sg_index glyph \<ge> 0) (glyphs_of self) = Some (glyphs_of self ! 0)"
    using line_ok_pos(1) [OF assms] by (intro find_nth) simp_all
  then show ?thesis using assms by (simp add: x_for_index_def line_ok_def)
qed

section \<open>Boundaries as positions\<close>

definition boundary_at :: "('u, 'g, 'f) line_layout \<Rightarrow> nat \<Rightarrow> wrap_boundary" where
  "boundary_at self p = fst (boundary_glyphs self ! p)"

lemma boundary_glyphs_snd: "map snd (boundary_glyphs self) = glyphs_of self"
proof -
  have "map snd (concat (map (\<lambda>(run_ix, run). map (\<lambda>(glyph_ix, glyph). (\<lparr>wb_run_ix = run_ix, wb_glyph_ix = glyph_ix\<rparr>, glyph))
      (List.enumerate 0 (sr_glyphs run))) (List.enumerate n runs))) = concat (map sr_glyphs runs)" for n and runs :: "('u, 'g, 'f) shaped_run list"
    by (induction runs arbitrary: n) (simp_all add: comp_def case_prod_unfold)
  then show ?thesis by (simp add: boundary_glyphs_def glyphs_of_def)
qed

lemma boundary_glyphs_length [simp]: "length (boundary_glyphs self) = length (glyphs_of self)"
  by (metis boundary_glyphs_snd length_map)

lemma boundary_glyphs_nth:
  "p < length (glyphs_of self) \<Longrightarrow> boundary_glyphs self ! p = (boundary_at self p, glyphs_of self ! p)"
  by (metis boundary_at_def boundary_glyphs_length boundary_glyphs_snd nth_map prod.collapse)

lemma boundary_glyphs_sorted: "sorted_wrt boundary_less (map fst (boundary_glyphs self))"
proof -
  let ?of = "\<lambda>(run_ix, run). map (\<lambda>(glyph_ix, glyph). (\<lparr>wb_run_ix = run_ix, wb_glyph_ix = glyph_ix\<rparr>, glyph)) (List.enumerate 0 (sr_glyphs run))"
  have part: "sorted_wrt boundary_less (map fst (?of (n, run)))" for n and run :: "('u, 'g, 'f) shaped_run"
    by (auto simp: sorted_wrt_iff_nth_less nth_enumerate_eq boundary_less_def)
  have later: "b \<in> set (map fst (concat (map ?of (List.enumerate n runs)))) \<Longrightarrow> n \<le> wb_run_ix b"
    for b n and runs :: "('u, 'g, 'f) shaped_run list"
    by (induction runs arbitrary: n) fastforce+
  have "sorted_wrt boundary_less (map fst (concat (map ?of (List.enumerate n runs))))" for n and runs :: "('u, 'g, 'f) shaped_run list"
  proof (induction runs arbitrary: n)
    case (Cons run runs)
    have "boundary_less a b" if "a \<in> set (map fst (?of (n, run)))" "b \<in> set (map fst (concat (map ?of (List.enumerate (Suc n) runs))))" for a b
      using that(1) later [OF that(2)] by (auto simp: boundary_less_def)
    then show ?case using Cons.IH [of "Suc n"] part [of n run] by (simp add: sorted_wrt_append del: set_map)
  qed simp
  then show ?thesis unfolding boundary_glyphs_def .
qed

lemma boundary_at_less:
  assumes "p < length (glyphs_of self)" "q < length (glyphs_of self)"
  shows "boundary_less (boundary_at self p) (boundary_at self q) \<longleftrightarrow> p < q"
proof -
  have less: "boundary_less (boundary_at self p) (boundary_at self q)" if "p < q" "q < length (glyphs_of self)" for p q
    using boundary_glyphs_sorted [of self] that by (simp add: sorted_wrt_iff_nth_less boundary_at_def)
  have "\<not> boundary_less a a" "boundary_less a b \<Longrightarrow> \<not> boundary_less b a" for a b by (auto simp: boundary_less_def)
  then show ?thesis using less [of p q] less [of q p] assms by (metis linorder_neqE_nat)
qed

lemma boundary_lookup:
  assumes "p < length (glyphs_of (wl_unwrapped_layout self))"
  shows "boundary_glyph self (boundary_at (wl_unwrapped_layout self) p) = ret (glyphs_of (wl_unwrapped_layout self) ! p)"
proof -
  let ?layout = "wl_unwrapped_layout self"
  have "(boundary_at ?layout p, glyphs_of ?layout ! p) \<in> set (boundary_glyphs ?layout)"
    using assms boundary_glyphs_nth [OF assms] nth_mem [of p "boundary_glyphs ?layout"] by simp
  then show ?thesis
    by (auto simp: boundary_glyphs_def boundary_glyph_def in_set_enumerate_eq index_or_panic_ok split: prod.splits)
qed

text \<open>The boundaries of a wrapped line: positions in its interior, in ascending order.\<close>

definition wraps_at :: "('u::floor_ceiling, 'g, 'f) line_layout \<Rightarrow> nat list \<Rightarrow> wrap_boundary list \<Rightarrow> bool" where
  "wraps_at layout ps boundaries \<longleftrightarrow> boundaries = map (boundary_at layout) ps \<and> sorted_wrt (<) ps \<and>
     (\<forall>p \<in> set ps. 0 < p \<and> p < length (glyphs_of layout))"

text \<open>The positions where the wrapped lines start and end.\<close>

definition line_start :: "nat list \<Rightarrow> nat \<Rightarrow> nat" where
  "line_start ps k = (0 # ps) ! k"

definition line_end :: "('u::floor_ceiling, 'g, 'f) line_layout \<Rightarrow> nat list \<Rightarrow> nat \<Rightarrow> nat" where
  "line_end layout ps k = (ps @ [length (glyphs_of layout)]) ! k"

section \<open>There and back\<close>

lemma position_loop_ok:
  assumes "line_ok layout" "p \<le> length (glyphs_of layout)"
    and "qs \<noteq> []" "p \<le> last qs" "\<forall>q \<in> set qs. q \<le> length (glyphs_of layout)"
    and "start_ix \<le> glyph_index layout p" "x_for_index start_ix layout = glyph_x layout q0"
  shows "\<exists>j < length qs. p \<le> qs ! j \<and> (\<forall>i < j. qs ! i < p) \<and>
    position_loop (glyph_index layout p) line_height layout (map (\<lambda>q. ret (glyph_index layout q)) qs) k start_ix =
      ret (Some (mk_point (glyph_x layout p - glyph_x layout ((q0 # qs) ! j)) (of_nat (k + j) * line_height)))"
  using assms(3-)
proof (induction qs arbitrary: k start_ix q0)
  case (Cons q qs)
  have q: "q \<le> length (glyphs_of layout)" using Cons.prems(3) by simp
  show ?case
  proof (cases "p \<le> q")
    case True
    then have "glyph_index layout p \<le> glyph_index layout q" by (rule glyph_mono_le(2) [OF assms(1) _ q])
    with Cons.prems(4,5) x_for_index_glyph [OF assms(1,2)] True show ?thesis by (intro exI [of _ 0]) simp
  next
    case False
    then have less: "glyph_index layout q < glyph_index layout p" using glyph_mono(2) [OF assms(1) _ assms(2), of q] by simp
    have "qs \<noteq> []" "p \<le> last qs" using False Cons.prems(2) by (auto split: if_splits)
    from Cons.IH [OF this _ less_imp_le [OF less] x_for_index_glyph [OF assms(1) q], of "k + 1"] Cons.prems(3)
    obtain j where j: "j < length qs" "p \<le> qs ! j" "\<forall>i < j. qs ! i < p"
      "position_loop (glyph_index layout p) line_height layout (map (\<lambda>q. ret (glyph_index layout q)) qs) (k + 1) (glyph_index layout q) =
        ret (Some (mk_point (glyph_x layout p - glyph_x layout ((q # qs) ! j)) (of_nat (k + 1 + j) * line_height)))"
      by auto
    show ?thesis
      by (rule exI [of _ "Suc j"]) (use j False less Cons.prems(4) in \<open>auto simp: less_Suc_eq_0_disj\<close>)
  qed
qed simp

text \<open>The line that a position in the sequence is shown in, and where.\<close>

lemma position_for_index_ok:
  assumes "line_ok (wl_unwrapped_layout self)" "wraps_at (wl_unwrapped_layout self) ps (wl_wrap_boundaries self)"
    and "p \<le> length (glyphs_of (wl_unwrapped_layout self))"
  obtains k where "k \<le> length ps" "line_start ps k \<le> p" "k = 0 \<or> line_start ps k < p" "p \<le> line_end (wl_unwrapped_layout self) ps k"
    "position_for_index (glyph_index (wl_unwrapped_layout self) p) line_height self =
      ret (Some (mk_point (glyph_x (wl_unwrapped_layout self) p - glyph_x (wl_unwrapped_layout self) (line_start ps k)) (of_nat k * line_height)))"
proof -
  let ?layout = "wl_unwrapped_layout self" and ?N = "length (glyphs_of (wl_unwrapped_layout self))"
  have ends: "map (\<lambda>boundary. map_option sg_index (boundary_glyph self boundary)) (wl_wrap_boundaries self) @ [ret (wl_len self)] =
      map (\<lambda>q. ret (glyph_index ?layout q)) (ps @ [?N])"
    using assms(2) by (auto simp: wraps_at_def boundary_lookup glyph_index_def wl_len_def)
  have "x_for_index 0 ?layout = glyph_x ?layout 0" using x_for_index_0 line_ok_pos(2) assms(1) by metis
  moreover have "\<forall>q \<in> set (ps @ [?N]). q \<le> ?N" using assms(2) by (auto simp: wraps_at_def)
  ultimately obtain j where j: "j < length (ps @ [?N])" "p \<le> (ps @ [?N]) ! j" "\<forall>i < j. (ps @ [?N]) ! i < p"
    "position_loop (glyph_index ?layout p) line_height ?layout (map (\<lambda>q. ret (glyph_index ?layout q)) (ps @ [?N])) 0 0 =
      ret (Some (mk_point (glyph_x ?layout p - glyph_x ?layout ((0 # ps @ [?N]) ! j)) (of_nat (0 + j) * line_height)))"
    using position_loop_ok [OF assms(1,3), of "ps @ [?N]" 0 0 line_height 0] assms(3) by auto
  have start: "(0 # ps @ [?N]) ! j = line_start ps j" using j(1) by (cases j) (auto simp: line_start_def nth_append)
  have "j = 0 \<or> line_start ps j < p" using j(1,3) by (cases j) (auto simp: line_start_def nth_append dest!: spec [of _ "j - 1"])
  then have "line_start ps j \<le> p" "j = 0 \<or> line_start ps j < p" by (auto simp: line_start_def)
  with j start show thesis
    by (intro that [of j]) (simp_all add: position_for_index_def ends line_end_def)
qed

text \<open>The ends of the lines are the boundaries and the end of the text.\<close>

lemma line_end_iff:
  assumes "wraps_at layout ps boundaries" "k \<le> length ps" "k = 0 \<or> line_start ps k < p" "p \<le> line_end layout ps k"
  shows "p = line_end layout ps k \<longleftrightarrow> p \<in> set ps \<or> p = length (glyphs_of layout)"
proof
  assume p: "p \<in> set ps \<or> p = length (glyphs_of layout)"
  have inside: "ps ! i < length (glyphs_of layout)" if "i < length ps" for i using assms(1) that by (simp add: wraps_at_def)
  have sorted: "ps ! i < ps ! j \<longleftrightarrow> i < j" if "i < length ps" "j < length ps" for i j
    using assms(1) that by (metis wraps_at_def sorted_wrt_nth_less less_asym linorder_neqE_nat)
  have stop: "line_end layout ps k = (if k < length ps then ps ! k else length (glyphs_of layout))"
    using assms(2) by (simp add: line_end_def nth_append)
  show "p = line_end layout ps k"
  proof (cases "p \<in> set ps")
    case True
    then obtain i where i: "i < length ps" "p = ps ! i" by (auto simp: in_set_conv_nth)
    have "k \<le> i"
    proof (cases k)
      case (Suc j)
      with assms(2,3) i sorted [of j i] show ?thesis by (simp add: line_start_def)
    qed simp
    moreover from this i have "k < length ps" by simp
    ultimately show ?thesis using assms(4) stop i sorted [of k i] by (auto simp: le_less)
  next
    case False
    with p assms(4) stop inside [of k] show ?thesis by (auto split: if_splits)
  qed
qed (use assms(2) in \<open>auto simp: line_end_def nth_append\<close>)

text \<open>What a position in the \<open>k\<close>th line gives.\<close>

lemma line_of_position:
  assumes "0 < line_height" "of_nat k * line_height \<le> y" "y < of_nat (Suc k) * line_height"
  shows "nat \<lfloor>y / line_height\<rfloor> = k"
proof -
  have "of_int (int k) \<le> y / line_height" "y / line_height < of_int (int k) + 1"
    using assms by (simp_all add: pos_le_divide_eq pos_divide_less_eq add.commute)
  then have "\<lfloor>y / line_height\<rfloor> = int k" by (rule floor_unique)
  then show ?thesis by simp
qed

lemma index_for_position_line:
  assumes "line_ok (wl_unwrapped_layout self)" "wraps_at (wl_unwrapped_layout self) ps (wl_wrap_boundaries self)"
    and "k \<le> length ps" "0 < line_height" "of_nat k * line_height \<le> y" "y < of_nat (Suc k) * line_height"
  shows "index_for_position (mk_point x y) line_height self = ret (
    let layout = wl_unwrapped_layout self; start_x = glyph_x layout (line_start ps k); x = x + start_x in
    if x < start_x then Inl (if k = 0 then 0 else glyph_index layout (line_start ps k))
    else if x \<ge> glyph_x layout (line_end layout ps k) then Inl (glyph_index layout (line_end layout ps k))
    else (case index_for_x x layout of Some index \<Rightarrow> Inr index | None \<Rightarrow> Inl (glyph_index layout (line_end layout ps k))))"
proof -
  let ?layout = "wl_unwrapped_layout self"
  note line = line_of_position [OF assms(4-6)]
  have len: "length (wl_wrap_boundaries self) = length ps" using assms(2) by (simp add: wraps_at_def)
  have nth: "wl_wrap_boundaries self ! i = boundary_at ?layout (ps ! i)" "ps ! i < length (glyphs_of ?layout)" if "i < length ps" for i
    using that assms(2) by (simp_all add: wraps_at_def)
  have ix: "glyph_index ?layout (ps ! i) = sg_index (glyphs_of ?layout ! (ps ! i))" "glyph_x ?layout (ps ! i) = sg_x (glyphs_of ?layout ! (ps ! i))"
    if "i < length ps" for i using nth(2) [OF that] by (simp_all add: glyph_index_def glyph_x_def)
  have start: "k \<noteq> 0 \<Longrightarrow> k - 1 < length ps" "k \<noteq> 0 \<Longrightarrow> line_start ps k = ps ! (k - 1)" "k = 0 \<Longrightarrow> glyph_x ?layout (line_start ps k) = 0"
    using assms(3) line_ok_pos(2) [OF assms(1)] by (cases k; simp add: line_start_def)+
  have stop: "k < length ps \<Longrightarrow> line_end ?layout ps k = ps ! k" "\<not> k < length ps \<Longrightarrow> glyph_x ?layout (line_end ?layout ps k) = ll_width ?layout"
    "\<not> k < length ps \<Longrightarrow> glyph_index ?layout (line_end ?layout ps k) = ll_len ?layout"
    using assms(3) by (simp_all add: line_end_def nth_append glyph_x_def glyph_index_def)
  show ?thesis
    unfolding index_for_position_def index_for_position_inner_def
    using line start stop nth ix
    by (cases "k = 0"; cases "k < length ps")
      (simp_all add: mk_point_def len list_get_def index_or_panic_def boundary_lookup split: option.split)
qed

text \<open>The line a glyph is shown in is the one after the boundaries before it.\<close>

lemma line_of_glyph:
  assumes "wraps_at layout ps boundaries" "k \<le> length ps" "k = 0 \<or> line_start ps k < p" "p \<le> line_end layout ps k"
  shows "length (filter (\<lambda>q. q < p) ps) = k"
proof -
  have sorted: "ps ! i \<le> ps ! j" if "i \<le> j" "j < length ps" for i j
    using assms(1) that sorted_wrt_nth_less [of "(<)" ps i j] by (cases "i = j") (auto simp: wraps_at_def)
  have "ps ! i < p" if "i < k" for i
    using that assms(2,3) sorted [of i "k - 1"] by (cases k) (auto simp: line_start_def less_Suc_eq_le)
  then have "\<forall>q \<in> set (take k ps). q < p" using assms(2) by (auto simp: in_set_conv_nth)
  moreover have "\<not> ps ! i < p" if "k \<le> i" "i < length ps" for i
    using that assms(4) sorted [of k i] by (simp add: line_end_def nth_append)
  then have "\<forall>q \<in> set (drop k ps). \<not> q < p" by (auto simp: in_set_conv_nth)
  ultimately have "filter (\<lambda>q. q < p) (take k ps @ drop k ps) = take k ps" by (simp add: filter_append filter_True filter_False del: append_take_drop_id)
  then show ?thesis using assms(2) by simp
qed

text \<open>A position at a glyph, and one at the end of the line.\<close>

lemma index_for_position_ok:
  assumes ok: "line_ok (wl_unwrapped_layout self)" "wraps_at (wl_unwrapped_layout self) ps (wl_wrap_boundaries self)"
    and k: "k \<le> length ps" "0 < line_height" "of_nat k * line_height \<le> y" "y < of_nat (Suc k) * line_height"
    and p: "line_start ps k \<le> p" "p \<le> line_end (wl_unwrapped_layout self) ps k"
  shows "index_for_position (mk_point (glyph_x (wl_unwrapped_layout self) p - glyph_x (wl_unwrapped_layout self) (line_start ps k)) y) line_height self =
    ret (if glyph_x (wl_unwrapped_layout self) p = glyph_x (wl_unwrapped_layout self) (line_end (wl_unwrapped_layout self) ps k)
      then Inl (glyph_index (wl_unwrapped_layout self) (line_end (wl_unwrapped_layout self) ps k))
      else Inr (glyph_index (wl_unwrapped_layout self) (last_at (wl_unwrapped_layout self) p)))"
proof -
  let ?layout = "wl_unwrapped_layout self"
  let ?stop = "line_end ?layout ps k" and ?N = "length (glyphs_of ?layout)" and ?q = "last_at ?layout p"
  have stop: "?stop \<le> ?N"
    using ok(2) k(1) by (cases "k < length ps") (auto simp: line_end_def nth_append wraps_at_def less_imp_le)
  have low: "glyph_x ?layout (line_start ps k) \<le> glyph_x ?layout p" using glyph_mono_le(1) [OF ok(1) p(1)] p(2) stop by simp
  have high: "glyph_x ?layout p \<le> glyph_x ?layout ?stop" by (rule glyph_mono_le(1) [OF ok(1) p(2) stop])
  show ?thesis
  proof (cases "glyph_x ?layout p = glyph_x ?layout ?stop")
    case True
    with low show ?thesis by (simp add: index_for_position_line [OF ok k])
  next
    case False
    then have less: "glyph_x ?layout p < glyph_x ?layout ?stop" "p \<noteq> ?stop" using high by auto
    then have "p < ?N" using p(2) stop by simp
    note q = last_at [OF this]
    have "glyph_x ?layout ?stop \<le> glyph_x ?layout ?N" by (rule glyph_mono_le(1) [OF ok(1) stop]) simp
    then have "glyph_x ?layout (Suc ?q) \<noteq> glyph_x ?layout p" using q(1) q(3) [of "Suc ?q"] less(1) by (cases "Suc ?q = ?N") auto
    moreover have "glyph_x ?layout ?q \<le> glyph_x ?layout (Suc ?q)" using q(1) by (intro glyph_mono_le(1) [OF ok(1)]) simp_all
    ultimately have "index_for_x (glyph_x ?layout p) ?layout = Some (glyph_index ?layout ?q)"
      using q(2) by (intro index_for_x_glyph [OF ok(1) q(1)]) simp_all
    then show ?thesis using low less(1) by (simp add: index_for_position_line [OF ok k])
  qed
qed

end
