(* ===== verification/Line_Wrapping.thy ===== *)
theory Line_Wrapping
  imports Line_Positions
begin

text \<open>
  Where \<open>compute_wrap_boundaries\<close> breaks a line: the boundaries are positions in its interior in ascending order, no line is broken that fits,
  and every wrapped line without its last glyph fits.
\<close>

section \<open>The lines that have been broken off\<close>

text \<open>The glyphs from \<open>a\<close> on, up to the one before \<open>b\<close>, start within the width.\<close>

definition starts_within :: "('u::floor_ceiling, 'g, 'f) line_layout \<Rightarrow> 'u \<Rightarrow> nat \<Rightarrow> nat \<Rightarrow> bool" where
  "starts_within layout wrap_width a b \<longleftrightarrow> glyph_x layout (b - 1) - glyph_x layout a \<le> wrap_width"

text \<open>The boundaries: each line that was broken off had to be, as the rest did not fit, and starts all its glyphs within the width.\<close>

definition broken_ok :: "('u::floor_ceiling, 'g, 'f) line_layout \<Rightarrow> 'u \<Rightarrow> nat list \<Rightarrow> bool" where
  "broken_ok layout wrap_width ps \<longleftrightarrow> sorted_wrt (<) ps \<and> (\<forall>p \<in> set ps. 0 < p \<and> p < length (glyphs_of layout)) \<and>
     (\<forall>k < length ps. starts_within layout wrap_width (line_start ps k) (ps ! k) \<and>
        wrap_width < ll_width layout - glyph_x layout (line_start ps k))"

abbreviation last_start :: "nat list \<Rightarrow> nat" where
  "last_start ps \<equiv> last (0 # ps)"

lemma last_start_nth: "line_start ps (length ps) = last_start ps"
  by (simp add: line_start_def last_conv_nth)

lemma line_start_snoc: "k \<le> length ps \<Longrightarrow> line_start (ps @ [p]) k = line_start ps k"
  by (cases k) (simp_all add: line_start_def nth_append)

lemma broken_ok_snoc:
  assumes "broken_ok layout wrap_width ps" "last_start ps < p" "p < length (glyphs_of layout)"
    and "starts_within layout wrap_width (last_start ps) p" "wrap_width < ll_width layout - glyph_x layout (last_start ps)"
  shows "broken_ok layout wrap_width (ps @ [p])"
proof -
  have "q < p" if "q \<in> set ps" for q
  proof -
    have ps: "ps \<noteq> []" using that by auto
    then have "sorted_wrt (<) (butlast ps @ [last ps])" "q \<in> set (butlast ps @ [last ps])" using assms(1) that by (simp_all add: broken_ok_def)
    then have "q \<le> last ps" by (auto simp: sorted_wrt_append)
    then show ?thesis using assms(2) ps by simp
  qed
  then show ?thesis using assms
    by (auto simp: broken_ok_def sorted_wrt_append nth_append line_start_snoc less_Suc_eq last_start_nth)
qed

section \<open>The loop\<close>

text \<open>The state before the glyph at \<open>p\<close>, with the candidate \<open>c\<close> if there is one.\<close>

definition wrap_inv :: "('u::floor_ceiling, 'g, 'f) line_layout \<Rightarrow> 'u \<Rightarrow> nat list \<Rightarrow> nat option \<Rightarrow> nat \<Rightarrow> 'u wrap_state \<Rightarrow> bool" where
  "wrap_inv layout wrap_width ps c p st \<longleftrightarrow>
     ws_boundaries st = map (boundary_at layout) ps \<and> broken_ok layout wrap_width ps \<and>
     ws_last_boundary st = boundary_at layout (last_start ps) \<and> ws_last_boundary_x st = glyph_x layout (last_start ps) \<and>
     ws_last_candidate_ix st = map_option (boundary_at layout) c \<and>
     (case c of None \<Rightarrow> True | Some c \<Rightarrow> last_start ps < c \<and> c < p \<and> ws_last_candidate_x st = glyph_x layout c \<and>
        glyph_x layout p - glyph_x layout (last_start ps) \<le> wrap_width) \<and>
     (if p = 0 then ps = [] \<and> ws_first_non_whitespace_ix st = None else last_start ps < p \<and> starts_within layout wrap_width (last_start ps) p)"

lemma note_candidate_keeps:
  "ws_boundaries (note_candidate boundary ch x st) = ws_boundaries st" "ws_last_boundary (note_candidate boundary ch x st) = ws_last_boundary st"
  "ws_last_boundary_x (note_candidate boundary ch x st) = ws_last_boundary_x st"
  by (auto simp: note_candidate_def)

lemma note_candidate_cases:
  "ws_last_candidate_ix (note_candidate boundary ch x st) = Some boundary \<and> ws_last_candidate_x (note_candidate boundary ch x st) = x \<and>
     ws_first_non_whitespace_ix st \<noteq> None \<or>
   ws_last_candidate_ix (note_candidate boundary ch x st) = ws_last_candidate_ix st \<and>
     ws_last_candidate_x (note_candidate boundary ch x st) = ws_last_candidate_x st"
  by (auto simp: note_candidate_def)

text \<open>After the character at \<open>p\<close> has been looked at, which may have become the candidate.\<close>

definition wrap_noted :: "('u::floor_ceiling, 'g, 'f) line_layout \<Rightarrow> 'u \<Rightarrow> nat list \<Rightarrow> nat option \<Rightarrow> nat \<Rightarrow> 'u wrap_state \<Rightarrow> bool" where
  "wrap_noted layout wrap_width ps c p st \<longleftrightarrow>
     ws_boundaries st = map (boundary_at layout) ps \<and> broken_ok layout wrap_width ps \<and>
     ws_last_boundary st = boundary_at layout (last_start ps) \<and> ws_last_boundary_x st = glyph_x layout (last_start ps) \<and>
     ws_last_candidate_ix st = map_option (boundary_at layout) c \<and>
     (case c of None \<Rightarrow> True | Some c \<Rightarrow> last_start ps < c \<and> c \<le> p \<and> ws_last_candidate_x st = glyph_x layout c \<and>
        (c = p \<or> glyph_x layout p - glyph_x layout (last_start ps) \<le> wrap_width)) \<and>
     (if p = 0 then ps = [] \<and> c = None else last_start ps < p \<and> starts_within layout wrap_width (last_start ps) p)"

lemma wrap_inv_noted:
  assumes "wrap_inv layout wrap_width ps c p st"
  obtains c' where "wrap_noted layout wrap_width ps c' p (note_candidate (boundary_at layout p) ch (glyph_x layout p) st)"
proof -
  note inv = assms [unfolded wrap_inv_def]
  from note_candidate_cases [of "boundary_at layout p" ch "glyph_x layout p" st] show thesis
  proof (elim disjE conjE)
    assume "ws_last_candidate_ix (note_candidate (boundary_at layout p) ch (glyph_x layout p) st) = Some (boundary_at layout p)"
      "ws_last_candidate_x (note_candidate (boundary_at layout p) ch (glyph_x layout p) st) = glyph_x layout p" "ws_first_non_whitespace_ix st \<noteq> None"
    with inv show thesis by (intro that [of "Some p"]) (auto simp: wrap_noted_def note_candidate_keeps split: if_splits)
  next
    assume "ws_last_candidate_ix (note_candidate (boundary_at layout p) ch (glyph_x layout p) st) = ws_last_candidate_ix st"
      "ws_last_candidate_x (note_candidate (boundary_at layout p) ch (glyph_x layout p) st) = ws_last_candidate_x st"
    with inv show thesis by (intro that [of c]) (auto simp: wrap_noted_def note_candidate_keeps split: if_splits option.splits)
  qed
qed

text \<open>A glyph that still fits, and one at which the line is broken.\<close>

lemma noted_last:
  assumes "wrap_noted layout wrap_width ps c p st" "p < length (glyphs_of layout)"
  shows "boundary_less (ws_last_boundary st) (boundary_at layout p) \<longleftrightarrow> p \<noteq> 0"
proof -
  have "last_start ps \<le> p" "p \<noteq> 0 \<longrightarrow> last_start ps < p" using assms(1) by (auto simp: wrap_noted_def split: if_splits)
  moreover have "boundary_less (boundary_at layout (last_start ps)) (boundary_at layout p) \<longleftrightarrow> last_start ps < p"
    using calculation(1) assms(2) by (intro boundary_at_less) simp_all
  moreover have "ws_last_boundary st = boundary_at layout (last_start ps)" using assms(1) by (simp add: wrap_noted_def)
  ultimately show ?thesis by auto
qed

lemma noted_fits:
  assumes "line_ok layout" "0 \<le> wrap_width" "wrap_noted layout wrap_width ps c p st" "p < length (glyphs_of layout)"
    and "p = 0 \<or> glyph_x layout (Suc p) - glyph_x layout (last_start ps) \<le> wrap_width"
  shows "wrap_inv layout wrap_width ps c (Suc p) (st\<lparr>ws_prev_ch := ch\<rparr>)"
proof -
  have "glyph_x layout p \<le> glyph_x layout (Suc p)" using glyph_mono(1) [OF assms(1), of p "Suc p"] assms(4) by simp
  then show ?thesis
    using assms by (auto simp: wrap_inv_def wrap_noted_def starts_within_def split: if_splits option.splits)
qed

lemma noted_break:
  assumes ok: "line_ok layout" "0 \<le> wrap_width" and noted: "wrap_noted layout wrap_width ps c p st" and p: "p < length (glyphs_of layout)" "p \<noteq> 0"
    and over: "wrap_width < glyph_x layout (Suc p) - glyph_x layout (last_start ps)"
  obtains q where "wrap_inv layout wrap_width (ps @ [q]) None (Suc p) ((break_line (boundary_at layout p) (glyph_x layout p) st)\<lparr>ws_prev_ch := ch\<rparr>)"
proof -
  let ?l = "last_start ps" and ?q = "case c of None \<Rightarrow> p | Some c \<Rightarrow> c"
  have q: "?l < ?q" "?q \<le> p" "glyph_x layout p - glyph_x layout ?q \<le> wrap_width" and l: "starts_within layout wrap_width ?l p"
  proof -
    show "?l < ?q" "?q \<le> p" "starts_within layout wrap_width ?l p" using noted p(2) by (auto simp: wrap_noted_def split: option.splits)
    have "glyph_x layout ?l \<le> glyph_x layout ?q" using \<open>?l < ?q\<close> \<open>?q \<le> p\<close> p(1) by (intro glyph_mono_le(1) [OF ok(1)]) simp_all
    then show "glyph_x layout p - glyph_x layout ?q \<le> wrap_width" using noted ok(2) by (auto simp: wrap_noted_def split: option.splits)
  qed
  have "glyph_x layout (?q - 1) \<le> glyph_x layout (p - 1)" using q(2) p(1) by (intro glyph_mono_le(1) [OF ok(1)]) simp_all
  then have "starts_within layout wrap_width ?l ?q" using l by (simp add: starts_within_def)
  moreover have "wrap_width < ll_width layout - glyph_x layout ?l"
    using over glyph_mono_le(1) [OF ok(1), of "Suc p" "length (glyphs_of layout)"] p(1) by (simp add: glyph_x_def split: if_splits)
  ultimately have "broken_ok layout wrap_width (ps @ [?q])"
    using noted q(1,2) p(1) by (intro broken_ok_snoc) (simp_all add: wrap_noted_def)
  then show thesis
    using noted q by (intro that [of ?q]) (auto simp: wrap_inv_def wrap_noted_def break_line_def starts_within_def split: option.splits)
qed

text \<open>The loop from the glyph at \<open>p\<close> on; a line stops being broken when it may have no more lines.\<close>

lemma wrap_loop_ok:
  assumes ok: "line_ok layout" "0 \<le> wrap_width"
    and chars: "\<forall>glyph \<in> set (glyphs_of layout). \<exists>ch. char_at text (sg_index glyph) = ret ch \<and> ch \<noteq> CHR 0x0A"
    and "wrap_inv layout wrap_width ps c p st" "p \<le> length (glyphs_of layout)"
    and "\<forall>n. max_lines = Some n \<longrightarrow> length ps \<le> n - 1"
  shows "\<exists>qs. wrap_loop text (ll_width layout) wrap_width max_lines (drop p (boundary_glyphs layout)) st = ret (map (boundary_at layout) qs) \<and>
    broken_ok layout wrap_width qs \<and> (\<forall>n. max_lines = Some n \<longrightarrow> length qs \<le> n - 1) \<and>
    (max_lines = None \<longrightarrow> starts_within layout wrap_width (last_start qs) (length (glyphs_of layout)))"
  using assms(4-)
proof (induction "length (glyphs_of layout) - p" arbitrary: ps c p st)
  case 0
  then have "p = length (glyphs_of layout)" by simp
  with "0.prems" line_ok_pos(1) [OF ok(1)] show ?case by (intro exI [of _ ps]) (simp add: wrap_inv_def split: if_splits)
next
  case (Suc n)
  let ?N = "length (glyphs_of layout)"
  have p: "p < ?N" using Suc.hyps(2) by simp
  then obtain ch where ch: "char_at text (sg_index (glyphs_of layout ! p)) = ret ch" "ch \<noteq> CHR 0x0A" using chars by (meson nth_mem)
  have glyphs: "drop p (boundary_glyphs layout) = (boundary_at layout p, glyphs_of layout ! p) # drop (Suc p) (boundary_glyphs layout)"
    using p boundary_glyphs_nth [OF p] by (metis Cons_nth_drop_Suc boundary_glyphs_length)
  have next_x: "(case drop (Suc p) (boundary_glyphs layout) of [] \<Rightarrow> ret (ll_width layout)
      | (_, g) # _ \<Rightarrow> do { _ \<leftarrow> char_at text (sg_index g); ret (sg_x g) }) = ret (glyph_x layout (Suc p))"
  proof (cases "Suc p < ?N")
    case True
    then have "drop (Suc p) (boundary_glyphs layout) = (boundary_at layout (Suc p), glyphs_of layout ! Suc p) # drop (Suc (Suc p)) (boundary_glyphs layout)"
      using boundary_glyphs_nth [OF True] by (metis Cons_nth_drop_Suc boundary_glyphs_length)
    moreover obtain ch' where "char_at text (sg_index (glyphs_of layout ! Suc p)) = ret ch'" using chars True by (meson nth_mem)
    ultimately show ?thesis using True by (simp add: glyph_x_def)
  qed (use p in \<open>simp add: glyph_x_def\<close>)
  have x: "sg_x (glyphs_of layout ! p) = glyph_x layout p" using p by (simp add: glyph_x_def)
  let ?st = "note_candidate (boundary_at layout p) ch (glyph_x layout p) st"
  obtain c' where noted: "wrap_noted layout wrap_width ps c' p ?st" using wrap_inv_noted [OF Suc.prems(1)] by blast
  have last: "ws_last_boundary_x ?st = glyph_x layout (last_start ps)" "length (ws_boundaries ?st) = length ps" "broken_ok layout wrap_width ps"
    "ws_boundaries ?st = map (boundary_at layout) ps"
    using noted by (simp_all add: wrap_noted_def)
  have unfolded: "wrap_loop text (ll_width layout) wrap_width max_lines (drop p (boundary_glyphs layout)) st =
      (if p \<noteq> 0 \<and> wrap_width < glyph_x layout (Suc p) - glyph_x layout (last_start ps) then
         (if (case max_lines of Some n \<Rightarrow> length ps \<ge> n - 1 | None \<Rightarrow> False) then ret (map (boundary_at layout) ps)
          else wrap_loop text (ll_width layout) wrap_width max_lines (drop (Suc p) (boundary_glyphs layout))
            ((break_line (boundary_at layout p) (glyph_x layout p) ?st)\<lparr>ws_prev_ch := ch\<rparr>))
       else wrap_loop text (ll_width layout) wrap_width max_lines (drop (Suc p) (boundary_glyphs layout)) (?st\<lparr>ws_prev_ch := ch\<rparr>))"
    unfolding glyphs wrap_loop.simps next_x x using ch by (cases max_lines) (simp_all add: last noted_last [OF noted p])
  have n: "n = ?N - Suc p" "Suc p \<le> ?N" using Suc.hyps(2) p by simp_all
  show ?case
  proof (cases "p \<noteq> 0 \<and> wrap_width < glyph_x layout (Suc p) - glyph_x layout (last_start ps)")
    case over: True
    show ?thesis
    proof (cases "case max_lines of Some n \<Rightarrow> length ps \<ge> n - 1 | None \<Rightarrow> False")
      case True
      with over unfolded last Suc.prems(3) show ?thesis by (intro exI [of _ ps]) (auto split: option.splits)
    next
      case False
      obtain q where q: "wrap_inv layout wrap_width (ps @ [q]) None (Suc p) ((break_line (boundary_at layout p) (glyph_x layout p) ?st)\<lparr>ws_prev_ch := ch\<rparr>)"
        using noted_break [OF ok noted p conjunct1 [OF over] conjunct2 [OF over]] .
      have "\<forall>n. max_lines = Some n \<longrightarrow> length (ps @ [q]) \<le> n - 1" using False by auto
      from Suc.hyps(1) [OF n(1) q n(2) this] show ?thesis unfolding unfolded if_P [OF over] if_not_P [OF False] .
    qed
  next
    case False
    then have "p = 0 \<or> glyph_x layout (Suc p) - glyph_x layout (last_start ps) \<le> wrap_width" by (simp add: not_less)
    from Suc.hyps(1) [OF n(1) noted_fits [OF ok noted p this] n(2) Suc.prems(3)] show ?thesis unfolding unfolded if_not_P [OF False] .
  qed
qed

lemma compute_wrap_boundaries_ok:
  assumes "line_ok layout" "boundary_at layout 0 = \<lparr>wb_run_ix = 0, wb_glyph_ix = 0\<rparr>" "0 \<le> wrap_width"
    and "\<forall>glyph \<in> set (glyphs_of layout). \<exists>ch. char_at text (sg_index glyph) = ret ch \<and> ch \<noteq> CHR 0x0A"
  obtains ps where "compute_wrap_boundaries text wrap_width max_lines layout = ret (map (boundary_at layout) ps)"
    "broken_ok layout wrap_width ps" "\<forall>n. max_lines = Some n \<longrightarrow> length ps \<le> n - 1"
    "max_lines = None \<longrightarrow> starts_within layout wrap_width (last_start ps) (length (glyphs_of layout))"
proof -
  have "wrap_inv layout wrap_width [] None 0 wrap_state_new"
    using assms(2) line_ok_pos(2) [OF assms(1)] by (simp add: wrap_inv_def wrap_state_new_def broken_ok_def)
  from wrap_loop_ok [OF assms(1,3,4) this, of max_lines] show thesis by (auto simp: compute_wrap_boundaries_def intro: that)
qed

end
