(* ===== verification/Line_Cache.thy ===== *)
theory Line_Cache
  imports Line_Layout
begin

text \<open>
  \<open>LineLayoutCache\<close> of \<open>gpui/src/text_system/line_layout.rs\<close>: the layouts of the frame being drawn and of the last one. What the platform
  shapes a line to is a parameter, \<open>shape\<close>. A text is looked up by itself or by a hash that the caller gives with its length. The locks are
  taken and released within a call, so a call is one step; the maps are keyed by the contents of a key, which is how the code compares them.
\<close>

section \<open>Keys and frames\<close>

record 'f font_run =
  fr_len :: nat
  fr_font_id :: 'f

record ('u, 'f) line_cache_key =
  lk_text :: string
  lk_font_size :: 'u
  lk_runs :: "'f font_run list"
  lk_wrap_width :: "'u option"
  lk_force_width :: "'u option"

record ('u, 'f) hashed_cache_key =
  hk_text_hash :: nat
  hk_text_len :: nat
  hk_font_size :: 'u
  hk_runs :: "'f font_run list"
  hk_wrap_width :: "'u option"
  hk_force_width :: "'u option"

text \<open>One of the four maps of a frame with the keys used in it, in the order of their use.\<close>

record ('k, 'v) used_map =
  um_entries :: "'k \<rightharpoonup> 'v"
  um_used :: "'k list"

record ('u, 'g, 'f) frame_cache =
  fc_lines :: "(('u, 'f) line_cache_key, ('u, 'g, 'f) line_layout) used_map"
  fc_wrapped_lines :: "(('u, 'f) line_cache_key, ('u, 'g, 'f) wrapped_line_layout) used_map"
  fc_lines_by_hash :: "(('u, 'f) hashed_cache_key, ('u, 'g, 'f) line_layout) used_map"
  fc_wrapped_lines_by_hash :: "(('u, 'f) hashed_cache_key, ('u, 'g, 'f) wrapped_line_layout) used_map"

record ('u, 'g, 'f) line_layout_cache =
  lc_previous_frame :: "('u, 'g, 'f) frame_cache"
  lc_current_frame :: "('u, 'g, 'f) frame_cache"

record line_layout_index =
  lx_lines :: nat
  lx_wrapped_lines :: nat
  lx_lines_by_hash :: nat
  lx_wrapped_lines_by_hash :: nat

definition used_map_new :: "('k, 'v) used_map" where
  "used_map_new = \<lparr>um_entries = Map.empty, um_used = []\<rparr>"

definition um_insert :: "'k \<Rightarrow> 'v \<Rightarrow> ('k, 'v) used_map \<Rightarrow> ('k, 'v) used_map" where
  "um_insert key layout self = \<lparr>um_entries = (um_entries self)(key \<mapsto> layout), um_used = um_used self @ [key]\<rparr>"

definition um_remove :: "'k \<Rightarrow> ('k, 'v) used_map \<Rightarrow> ('k, 'v) used_map" where
  "um_remove key self = self\<lparr>um_entries := (um_entries self)(key := None)\<rparr>"

definition frame_cache_new :: "('u, 'g, 'f) frame_cache" where
  "frame_cache_new = \<lparr>fc_lines = used_map_new, fc_wrapped_lines = used_map_new, fc_lines_by_hash = used_map_new,
     fc_wrapped_lines_by_hash = used_map_new\<rparr>"

definition line_cache_new :: "('u, 'g, 'f) line_layout_cache" where
  "line_cache_new = \<lparr>lc_previous_frame = frame_cache_new, lc_current_frame = frame_cache_new\<rparr>"

section \<open>Frames\<close>

definition layout_index :: "('u, 'g, 'f) line_layout_cache \<Rightarrow> line_layout_index" where
  "layout_index self = (let frame = lc_current_frame self in
     \<lparr>lx_lines = length (um_used (fc_lines frame)), lx_wrapped_lines = length (um_used (fc_wrapped_lines frame)),
      lx_lines_by_hash = length (um_used (fc_lines_by_hash frame)), lx_wrapped_lines_by_hash = length (um_used (fc_wrapped_lines_by_hash frame))\<rparr>)"

text \<open>Each of the four loops of \<open>reuse_layouts\<close>.\<close>

fun reuse_keys :: "'k list \<Rightarrow> ('k, 'v) used_map \<Rightarrow> ('k, 'v) used_map \<Rightarrow> ('k, 'v) used_map \<times> ('k, 'v) used_map" where
  "reuse_keys [] previous current = (previous, current)"
| "reuse_keys (key # keys) previous current =
     (case um_entries previous key of
        Some line \<Rightarrow> reuse_keys keys (um_remove key previous) (um_insert key line current)
      | None \<Rightarrow> reuse_keys keys previous (current\<lparr>um_used := um_used current @ [key]\<rparr>))"

definition reuse_range :: "nat \<Rightarrow> nat \<Rightarrow> ('k, 'v) used_map \<Rightarrow> ('k, 'v) used_map \<Rightarrow> (('k, 'v) used_map \<times> ('k, 'v) used_map) rust" where
  "reuse_range a b previous current =
     (if a \<le> b \<and> b \<le> length (um_used previous) then ret (reuse_keys (take (b - a) (drop a (um_used previous))) previous current) else panic)"

definition reuse_layouts :: "line_layout_index \<Rightarrow> line_layout_index \<Rightarrow> ('u, 'g, 'f) line_layout_cache \<Rightarrow> ('u, 'g, 'f) line_layout_cache rust" where
  "reuse_layouts range_start range_end self = do {
     let previous = lc_previous_frame self;
     let current = lc_current_frame self;
     (lines, lines') \<leftarrow> reuse_range (lx_lines range_start) (lx_lines range_end) (fc_lines previous) (fc_lines current);
     (wrapped, wrapped') \<leftarrow> reuse_range (lx_wrapped_lines range_start) (lx_wrapped_lines range_end) (fc_wrapped_lines previous) (fc_wrapped_lines current);
     (hashed, hashed') \<leftarrow> reuse_range (lx_lines_by_hash range_start) (lx_lines_by_hash range_end) (fc_lines_by_hash previous) (fc_lines_by_hash current);
     (wrapped_hashed, wrapped_hashed') \<leftarrow> reuse_range (lx_wrapped_lines_by_hash range_start) (lx_wrapped_lines_by_hash range_end)
       (fc_wrapped_lines_by_hash previous) (fc_wrapped_lines_by_hash current);
     ret \<lparr>lc_previous_frame = \<lparr>fc_lines = lines, fc_wrapped_lines = wrapped, fc_lines_by_hash = hashed, fc_wrapped_lines_by_hash = wrapped_hashed\<rparr>,
          lc_current_frame = \<lparr>fc_lines = lines', fc_wrapped_lines = wrapped', fc_lines_by_hash = hashed', fc_wrapped_lines_by_hash = wrapped_hashed'\<rparr>\<rparr> }"

definition um_truncate :: "nat \<Rightarrow> ('k, 'v) used_map \<Rightarrow> ('k, 'v) used_map" where
  "um_truncate n self = self\<lparr>um_used := take n (um_used self)\<rparr>"

definition truncate_layouts :: "line_layout_index \<Rightarrow> ('u, 'g, 'f) line_layout_cache \<Rightarrow> ('u, 'g, 'f) line_layout_cache" where
  "truncate_layouts index self = (let frame = lc_current_frame self in
     self\<lparr>lc_current_frame := \<lparr>fc_lines = um_truncate (lx_lines index) (fc_lines frame),
       fc_wrapped_lines = um_truncate (lx_wrapped_lines index) (fc_wrapped_lines frame),
       fc_lines_by_hash = um_truncate (lx_lines_by_hash index) (fc_lines_by_hash frame),
       fc_wrapped_lines_by_hash = um_truncate (lx_wrapped_lines_by_hash index) (fc_wrapped_lines_by_hash frame)\<rparr>\<rparr>)"

text \<open>The frames are swapped and the new current one is cleared.\<close>

definition finish_frame :: "('u, 'g, 'f) line_layout_cache \<Rightarrow> ('u, 'g, 'f) line_layout_cache" where
  "finish_frame self = \<lparr>lc_previous_frame = lc_current_frame self, lc_current_frame = frame_cache_new\<rparr>"

section \<open>Layouts\<close>

text \<open>What is done on a miss of both frames.\<close>

definition shape_line ::
  "(string \<Rightarrow> 'u \<Rightarrow> 'f font_run list \<Rightarrow> ('u, 'g, 'f) line_layout) \<Rightarrow> string \<Rightarrow> 'u \<Rightarrow> 'f font_run list \<Rightarrow> 'u option \<Rightarrow>
   ('u::floor_ceiling, 'g, 'f) line_layout" where
  "shape_line shape text font_size runs force_width = (
     let layout = shape text font_size runs in
     case force_width of Some force_width \<Rightarrow> apply_force_width_to_layout force_width layout | None \<Rightarrow> layout)"

definition layout_line ::
  "(string \<Rightarrow> 'u \<Rightarrow> 'f font_run list \<Rightarrow> ('u, 'g, 'f) line_layout) \<Rightarrow> string \<Rightarrow> 'u \<Rightarrow> 'f font_run list \<Rightarrow> 'u option \<Rightarrow>
   ('u::floor_ceiling, 'g, 'f) line_layout_cache \<Rightarrow> ('u, 'g, 'f) line_layout \<times> ('u, 'g, 'f) line_layout_cache" where
  "layout_line shape text font_size runs force_width self = (
     let key = \<lparr>lk_text = text, lk_font_size = font_size, lk_runs = runs, lk_wrap_width = None, lk_force_width = force_width\<rparr>;
         current = lc_current_frame self; previous = lc_previous_frame self in
     case um_entries (fc_lines current) key of
       Some layout \<Rightarrow> (layout, self)
     | None \<Rightarrow>
         (case um_entries (fc_lines previous) key of
            Some layout \<Rightarrow> (layout, self\<lparr>lc_previous_frame := previous\<lparr>fc_lines := um_remove key (fc_lines previous)\<rparr>,
              lc_current_frame := current\<lparr>fc_lines := um_insert key layout (fc_lines current)\<rparr>\<rparr>)
          | None \<Rightarrow> (
              let layout = shape_line shape text font_size runs force_width in
              (layout, self\<lparr>lc_current_frame := current\<lparr>fc_lines := um_insert key layout (fc_lines current)\<rparr>\<rparr>))))"

definition layout_wrapped_line ::
  "(string \<Rightarrow> 'u \<Rightarrow> 'f font_run list \<Rightarrow> ('u, 'g, 'f) line_layout) \<Rightarrow> string \<Rightarrow> 'u \<Rightarrow> 'f font_run list \<Rightarrow> 'u option \<Rightarrow> nat option \<Rightarrow>
   ('u::floor_ceiling, 'g, 'f) line_layout_cache \<Rightarrow> (('u, 'g, 'f) wrapped_line_layout \<times> ('u, 'g, 'f) line_layout_cache) rust" where
  "layout_wrapped_line shape text font_size runs wrap_width max_lines self = (
     let key = \<lparr>lk_text = text, lk_font_size = font_size, lk_runs = runs, lk_wrap_width = wrap_width, lk_force_width = None\<rparr>;
         current = lc_current_frame self; previous = lc_previous_frame self in
     case um_entries (fc_wrapped_lines current) key of
       Some layout \<Rightarrow> ret (layout, self)
     | None \<Rightarrow>
         (case um_entries (fc_wrapped_lines previous) key of
            Some layout \<Rightarrow> ret (layout, self\<lparr>lc_previous_frame := previous\<lparr>fc_wrapped_lines := um_remove key (fc_wrapped_lines previous)\<rparr>,
              lc_current_frame := current\<lparr>fc_wrapped_lines := um_insert key layout (fc_wrapped_lines current)\<rparr>\<rparr>)
          | None \<Rightarrow> do {
              let (unwrapped_layout, self) = layout_line shape text font_size runs None self;
              wrap_boundaries \<leftarrow> (case wrap_width of
                  Some wrap_width \<Rightarrow> compute_wrap_boundaries text wrap_width max_lines unwrapped_layout
                | None \<Rightarrow> ret []);
              let layout = \<lparr>wl_unwrapped_layout = unwrapped_layout, wl_wrap_boundaries = wrap_boundaries, wl_wrap_width = wrap_width\<rparr>;
              let current = lc_current_frame self;
              ret (layout, self\<lparr>lc_current_frame := current\<lparr>fc_wrapped_lines := um_insert key layout (fc_wrapped_lines current)\<rparr>\<rparr>) }))"

definition hashed_line_key :: "nat \<Rightarrow> nat \<Rightarrow> 'u \<Rightarrow> 'f font_run list \<Rightarrow> 'u option \<Rightarrow> ('u, 'f) hashed_cache_key" where
  "hashed_line_key text_hash text_len font_size runs force_width =
     \<lparr>hk_text_hash = text_hash, hk_text_len = text_len, hk_font_size = font_size, hk_runs = runs, hk_wrap_width = None, hk_force_width = force_width\<rparr>"

definition try_layout_line_by_hash ::
  "nat \<Rightarrow> nat \<Rightarrow> 'u \<Rightarrow> 'f font_run list \<Rightarrow> 'u option \<Rightarrow> ('u::floor_ceiling, 'g, 'f) line_layout_cache \<Rightarrow> ('u, 'g, 'f) line_layout option" where
  "try_layout_line_by_hash text_hash text_len font_size runs force_width self = (
     let key_ref = hashed_line_key text_hash text_len font_size runs force_width in
     case um_entries (fc_lines_by_hash (lc_current_frame self)) key_ref of
       Some layout \<Rightarrow> Some layout
     | None \<Rightarrow> um_entries (fc_lines_by_hash (lc_previous_frame self)) key_ref)"

text \<open>A layout of the last frame is only taken over if it was used there; \<open>text\<close> is what the caller's closure materializes.\<close>

definition layout_line_by_hash ::
  "(string \<Rightarrow> 'u \<Rightarrow> 'f font_run list \<Rightarrow> ('u, 'g, 'f) line_layout) \<Rightarrow> nat \<Rightarrow> nat \<Rightarrow> 'u \<Rightarrow> 'f font_run list \<Rightarrow> 'u option \<Rightarrow> string \<Rightarrow>
   ('u::floor_ceiling, 'g, 'f) line_layout_cache \<Rightarrow> ('u, 'g, 'f) line_layout \<times> ('u, 'g, 'f) line_layout_cache" where
  "layout_line_by_hash shape text_hash text_len font_size runs force_width text self = (
     let key_ref = hashed_line_key text_hash text_len font_size runs force_width;
         current = lc_current_frame self; previous = lc_previous_frame self in
     case um_entries (fc_lines_by_hash current) key_ref of
       Some layout \<Rightarrow> (layout, self)
     | None \<Rightarrow>
         (case (if key_ref \<in> set (um_used (fc_lines_by_hash previous)) then um_entries (fc_lines_by_hash previous) key_ref else None) of
            Some layout \<Rightarrow> (layout, self\<lparr>lc_previous_frame := previous\<lparr>fc_lines_by_hash := um_remove key_ref (fc_lines_by_hash previous)\<rparr>,
              lc_current_frame := current\<lparr>fc_lines_by_hash := um_insert key_ref layout (fc_lines_by_hash current)\<rparr>\<rparr>)
          | None \<Rightarrow> (
              let layout = shape_line shape text font_size runs force_width in
              (layout, self\<lparr>lc_current_frame := current\<lparr>fc_lines_by_hash := um_insert key_ref layout (fc_lines_by_hash current)\<rparr>\<rparr>))))"

end
