(* ===== verification/Line_Cache_Machine.thy ===== *)
theory Line_Cache_Machine
  imports Line_Cache
begin

text \<open>
  The cache of line layouts as a state machine: what any sequence of calls leaves in it. The limit on the lines is not part of the key of a
  wrapped line, and a hash and a length need not stand for one text, so the machine has as parameters the limits with which callers ask
  for the line of a key and the texts they give for a hash and a length. Where these are single, as the documentation asks of
  the texts, what is looked up is determined.
\<close>

section \<open>Without the cache\<close>

definition wrapped_line_for ::
  "(string \<Rightarrow> 'u \<Rightarrow> 'f font_run list \<Rightarrow> ('u, 'g, 'f) line_layout) \<Rightarrow> ('u, 'f) line_cache_key \<Rightarrow> nat option \<Rightarrow>
   ('u::floor_ceiling, 'g, 'f) wrapped_line_layout rust" where
  "wrapped_line_for shape key max_lines = do {
     let layout = shape_line shape (lk_text key) (lk_font_size key) (lk_runs key) None;
     boundaries \<leftarrow> (case lk_wrap_width key of
         Some wrap_width \<Rightarrow> compute_wrap_boundaries (lk_text key) wrap_width max_lines layout | None \<Rightarrow> ret []);
     ret \<lparr>wl_unwrapped_layout = layout, wl_wrap_boundaries = boundaries, wl_wrap_width = lk_wrap_width key\<rparr> }"

definition hashed_lines_for ::
  "(string \<Rightarrow> 'u \<Rightarrow> 'f font_run list \<Rightarrow> ('u, 'g, 'f) line_layout) \<Rightarrow> (nat \<Rightarrow> nat \<Rightarrow> string set) \<Rightarrow> ('u::floor_ceiling, 'f) hashed_cache_key \<Rightarrow>
   ('u, 'g, 'f) line_layout set" where
  "hashed_lines_for shape texts key =
     (\<lambda>chars. shape_line shape chars (hk_font_size key) (hk_runs key) (hk_force_width key)) ` texts (hk_text_hash key) (hk_text_len key)"

section \<open>The invariant\<close>

definition entries_ok :: "('k \<Rightarrow> 'v \<Rightarrow> bool) \<Rightarrow> ('k, 'v) used_map \<Rightarrow> bool" where
  "entries_ok P m \<longleftrightarrow> (\<forall>key layout. um_entries m key = Some layout \<longrightarrow> P key layout)"

definition frame_ok ::
  "(string \<Rightarrow> 'u \<Rightarrow> 'f font_run list \<Rightarrow> ('u, 'g, 'f) line_layout) \<Rightarrow> (('u, 'f) line_cache_key \<Rightarrow> nat option set) \<Rightarrow> (nat \<Rightarrow> nat \<Rightarrow> string set) \<Rightarrow>
   ('u::floor_ceiling, 'g, 'f) frame_cache \<Rightarrow> bool" where
  "frame_ok shape limits texts frame \<longleftrightarrow>
     entries_ok (\<lambda>key layout. layout = shape_line shape (lk_text key) (lk_font_size key) (lk_runs key) (lk_force_width key)) (fc_lines frame) \<and>
     entries_ok (\<lambda>key layout. ret layout \<in> wrapped_line_for shape key ` limits key) (fc_wrapped_lines frame) \<and>
     entries_ok (\<lambda>key layout. layout \<in> hashed_lines_for shape texts key) (fc_lines_by_hash frame)"

definition cache_ok ::
  "(string \<Rightarrow> 'u \<Rightarrow> 'f font_run list \<Rightarrow> ('u, 'g, 'f) line_layout) \<Rightarrow> (('u, 'f) line_cache_key \<Rightarrow> nat option set) \<Rightarrow> (nat \<Rightarrow> nat \<Rightarrow> string set) \<Rightarrow>
   ('u::floor_ceiling, 'g, 'f) line_layout_cache \<Rightarrow> bool" where
  "cache_ok shape limits texts self \<longleftrightarrow>
     frame_ok shape limits texts (lc_previous_frame self) \<and> frame_ok shape limits texts (lc_current_frame self)"

lemma entries_ok_simps [simp]:
  "entries_ok P used_map_new" "entries_ok P (m\<lparr>um_used := u\<rparr>) = entries_ok P m"
  "entries_ok P (um_truncate n m) = entries_ok P m"
  by (simp_all add: entries_ok_def used_map_new_def um_truncate_def)

lemma entries_ok_insert: "entries_ok P m \<Longrightarrow> P key layout \<Longrightarrow> entries_ok P (um_insert key layout m)"
  by (simp add: entries_ok_def um_insert_def)

lemma entries_ok_remove: "entries_ok P m \<Longrightarrow> entries_ok P (um_remove key m)"
  by (simp add: entries_ok_def um_remove_def)

lemma entries_okD: "entries_ok P m \<Longrightarrow> um_entries m key = Some layout \<Longrightarrow> P key layout"
  by (simp add: entries_ok_def)

lemma reuse_keys_ok:
  assumes "entries_ok P previous" "entries_ok P current"
  shows "entries_ok P (fst (reuse_keys keys previous current)) \<and> entries_ok P (snd (reuse_keys keys previous current))"
  using assms
proof (induction keys arbitrary: previous current)
  case (Cons key keys)
  show ?case
  proof (cases "um_entries previous key")
    case (Some layout)
    have "entries_ok P (um_insert key layout current)" using Cons.prems entries_okD [OF Cons.prems(1) Some] by (simp add: entries_ok_insert)
    with Cons.IH [OF entries_ok_remove [OF Cons.prems(1), of key]] Some show ?thesis by simp
  next
    case None
    with Cons show ?thesis by simp
  qed
qed simp

lemma reuse_range_ok:
  assumes "entries_ok P previous" "entries_ok P current" "reuse_range a b previous current = ret (previous', current')"
  shows "entries_ok P previous'" "entries_ok P current'"
  using assms reuse_keys_ok [OF assms(1,2), of "take (b - a) (drop a (um_used previous))"]
  by (auto simp: reuse_range_def split: if_splits)

section \<open>The calls\<close>

lemma frames_ok_new: "frame_ok shape limits texts frame_cache_new"
  by (simp add: frame_ok_def frame_cache_new_def)

lemma reuse_layouts_ok:
  assumes "cache_ok shape limits texts self" "reuse_layouts i j self = ret self'"
  shows "cache_ok shape limits texts self'"
  using assms by (auto simp: cache_ok_def frame_ok_def reuse_layouts_def bind_eq_Some_conv) (blast intro: reuse_range_ok)+

lemma truncate_layouts_ok: "cache_ok shape limits texts self \<Longrightarrow> cache_ok shape limits texts (truncate_layouts index self)"
  by (simp add: cache_ok_def frame_ok_def truncate_layouts_def)

lemma finish_frame_ok: "cache_ok shape limits texts self \<Longrightarrow> cache_ok shape limits texts (finish_frame self)"
  by (simp add: cache_ok_def finish_frame_def frames_ok_new)

lemma layout_line_ok:
  assumes "cache_ok shape limits texts self" "layout_line shape text font_size runs force_width self = (layout, self')"
  shows "layout = shape_line shape text font_size runs force_width" "cache_ok shape limits texts self'"
proof -
  let ?P = "\<lambda>key layout. layout = shape_line shape (lk_text key) (lk_font_size key) (lk_runs key) (lk_force_width key)"
  have ok: "entries_ok ?P (fc_lines (lc_current_frame self))" "entries_ok ?P (fc_lines (lc_previous_frame self))"
    using assms(1) by (simp_all add: cache_ok_def frame_ok_def)
  let ?key = "\<lparr>lk_text = text, lk_font_size = font_size, lk_runs = runs, lk_wrap_width = None, lk_force_width = force_width\<rparr>"
  show layout: "layout = shape_line shape text font_size runs force_width"
    using assms(2) entries_okD [OF ok(1), of ?key] entries_okD [OF ok(2), of ?key]
    by (auto simp: layout_line_def split: option.splits)
  have keep: "entries_ok ?P (um_insert ?key layout m)" if "entries_ok ?P m" for m using that layout by (simp add: entries_ok_insert)
  show "cache_ok shape limits texts self'"
    using assms keep [OF ok(1)] entries_ok_remove [OF ok(2), of ?key]
    by (auto simp: layout_line_def cache_ok_def frame_ok_def split: option.splits)
qed

lemma layout_wrapped_line_ok:
  fixes chars font_size runs wrap_width
  defines "key \<equiv> \<lparr>lk_text = chars, lk_font_size = font_size, lk_runs = runs, lk_wrap_width = wrap_width, lk_force_width = None\<rparr>"
  assumes "cache_ok shape limits texts self" "max_lines \<in> limits key"
  shows "map_option fst (layout_wrapped_line shape chars font_size runs wrap_width max_lines self) \<in> wrapped_line_for shape key ` limits key"
    "layout_wrapped_line shape chars font_size runs wrap_width max_lines self = ret (layout, self') \<Longrightarrow> cache_ok shape limits texts self'"
proof -
  let ?P = "\<lambda>key layout. ret layout \<in> wrapped_line_for shape key ` limits key"
  have ok: "entries_ok ?P (fc_wrapped_lines (lc_current_frame self))" "entries_ok ?P (fc_wrapped_lines (lc_previous_frame self))"
    using assms(2) by (simp_all add: cache_ok_def frame_ok_def)
  obtain line self1 where l: "layout_line shape chars font_size runs None self = (line, self1)" by (cases "layout_line shape chars font_size runs None self")
  note line = layout_line_ok [OF assms(2) l]
  have miss: "wrapped_line_for shape key max_lines = do {
      boundaries \<leftarrow> (case wrap_width of Some wrap_width \<Rightarrow> compute_wrap_boundaries chars wrap_width max_lines line | None \<Rightarrow> ret []);
      ret \<lparr>wl_unwrapped_layout = line, wl_wrap_boundaries = boundaries, wl_wrap_width = wrap_width\<rparr> }"
    by (cases wrap_width) (simp_all add: wrapped_line_for_def key_def line(1))
  show found: "map_option fst (layout_wrapped_line shape chars font_size runs wrap_width max_lines self) \<in> wrapped_line_for shape key ` limits key"
  proof (cases "um_entries (fc_wrapped_lines (lc_current_frame self)) key")
    case None
    show ?thesis
    proof (cases "um_entries (fc_wrapped_lines (lc_previous_frame self)) key")
      case miss_too: None
      with None l have "map_option fst (layout_wrapped_line shape chars font_size runs wrap_width max_lines self) = wrapped_line_for shape key max_lines"
        unfolding miss by (simp add: layout_wrapped_line_def key_def map_option_bind comp_def)
      then show ?thesis using assms(3) by blast
    next
      case (Some w)
      with None entries_okD [OF ok(2) Some] show ?thesis by (simp add: layout_wrapped_line_def key_def)
    qed
  next
    case (Some w)
    with entries_okD [OF ok(1) Some] show ?thesis by (simp add: layout_wrapped_line_def key_def)
  qed
  assume r: "layout_wrapped_line shape chars font_size runs wrap_width max_lines self = ret (layout, self')"
  then have layout: "ret layout \<in> wrapped_line_for shape key ` limits key" using found by simp
  have keep: "entries_ok ?P (um_insert key layout m)" if "entries_ok ?P m" for m using that layout by (rule entries_ok_insert)
  show "cache_ok shape limits texts self'"
  proof (cases "um_entries (fc_wrapped_lines (lc_current_frame self)) key")
    case None
    show ?thesis
    proof (cases "um_entries (fc_wrapped_lines (lc_previous_frame self)) key")
      case miss_too: None
      with None l r have "self' = self1\<lparr>lc_current_frame := (lc_current_frame self1)\<lparr>fc_wrapped_lines := um_insert key layout (fc_wrapped_lines (lc_current_frame self1))\<rparr>\<rparr>"
        by (auto simp: layout_wrapped_line_def key_def bind_eq_Some_conv)
      moreover have "entries_ok ?P (fc_wrapped_lines (lc_current_frame self1))" using line(2) by (simp add: cache_ok_def frame_ok_def)
      ultimately show ?thesis using line(2) keep by (simp add: cache_ok_def frame_ok_def)
    next
      case (Some w)
      with None r have "self' = self\<lparr>lc_previous_frame := (lc_previous_frame self)\<lparr>fc_wrapped_lines := um_remove key (fc_wrapped_lines (lc_previous_frame self))\<rparr>,
          lc_current_frame := (lc_current_frame self)\<lparr>fc_wrapped_lines := um_insert key layout (fc_wrapped_lines (lc_current_frame self))\<rparr>\<rparr>"
        by (auto simp: layout_wrapped_line_def key_def Let_def)
      with assms(2) keep [OF ok(1)] entries_ok_remove [OF ok(2), of key] show ?thesis by (simp add: cache_ok_def frame_ok_def)
    qed
  next
    case (Some w)
    with r assms(2) show ?thesis by (simp add: layout_wrapped_line_def key_def)
  qed
qed

lemma layout_line_by_hash_ok:
  fixes text_hash text_len font_size runs force_width
  defines "key \<equiv> hashed_line_key text_hash text_len font_size runs force_width"
  assumes "cache_ok shape limits texts self" "chars \<in> texts text_hash text_len"
    "layout_line_by_hash shape text_hash text_len font_size runs force_width chars self = (layout, self')"
  shows "layout \<in> hashed_lines_for shape texts key" "cache_ok shape limits texts self'"
    "pred_option (\<lambda>layout. layout \<in> hashed_lines_for shape texts key) (try_layout_line_by_hash text_hash text_len font_size runs force_width self)"
proof -
  let ?P = "\<lambda>key layout. layout \<in> hashed_lines_for shape texts key"
  have ok: "entries_ok ?P (fc_lines_by_hash (lc_current_frame self))" "entries_ok ?P (fc_lines_by_hash (lc_previous_frame self))"
    using assms(2) by (simp_all add: cache_ok_def frame_ok_def)
  have fresh: "shape_line shape chars font_size runs force_width \<in> hashed_lines_for shape texts key"
    using assms(3) by (simp add: hashed_lines_for_def key_def hashed_line_key_def)
  show layout: "layout \<in> hashed_lines_for shape texts key"
    using assms(4) fresh entries_okD [OF ok(1), of key] entries_okD [OF ok(2), of key]
    by (auto simp: layout_line_by_hash_def key_def [symmetric] Let_def split: option.splits if_splits)
  have keep: "entries_ok ?P (um_insert key layout m)" if "entries_ok ?P m" for m by (rule entries_ok_insert [OF that layout])
  show "cache_ok shape limits texts self'"
    using assms(2,4) keep [OF ok(1)] entries_ok_remove [OF ok(2), of key]
    by (auto simp: layout_line_by_hash_def key_def [symmetric] Let_def cache_ok_def frame_ok_def split: option.splits if_splits)
  show "pred_option (\<lambda>layout. layout \<in> hashed_lines_for shape texts key) (try_layout_line_by_hash text_hash text_len font_size runs force_width self)"
    using entries_okD [OF ok(1), of key] entries_okD [OF ok(2), of key]
    by (cases "um_entries (fc_lines_by_hash (lc_current_frame self)) key"; cases "um_entries (fc_lines_by_hash (lc_previous_frame self)) key")
      (simp_all add: try_layout_line_by_hash_def key_def [symmetric])
qed

section \<open>Sequences of calls\<close>

inductive cache_reaches ::
  "(string \<Rightarrow> 'u \<Rightarrow> 'f font_run list \<Rightarrow> ('u, 'g, 'f) line_layout) \<Rightarrow> (('u, 'f) line_cache_key \<Rightarrow> nat option set) \<Rightarrow> (nat \<Rightarrow> nat \<Rightarrow> string set) \<Rightarrow>
   ('u::floor_ceiling, 'g, 'f) line_layout_cache \<Rightarrow> bool"
  for shape limits texts where
  cache_start: "cache_reaches shape limits texts line_cache_new"
| cache_line: "cache_reaches shape limits texts self \<Longrightarrow> layout_line shape text font_size runs force_width self = (layout, self') \<Longrightarrow>
    cache_reaches shape limits texts self'"
| cache_wrapped: "cache_reaches shape limits texts self \<Longrightarrow>
    max_lines \<in> limits \<lparr>lk_text = text, lk_font_size = font_size, lk_runs = runs, lk_wrap_width = wrap_width, lk_force_width = None\<rparr> \<Longrightarrow>
    layout_wrapped_line shape text font_size runs wrap_width max_lines self = ret (wrapped, self') \<Longrightarrow> cache_reaches shape limits texts self'"
| cache_hashed: "cache_reaches shape limits texts self \<Longrightarrow>
    text \<in> texts text_hash text_len \<Longrightarrow>
    layout_line_by_hash shape text_hash text_len font_size runs force_width text self = (layout, self') \<Longrightarrow>
    cache_reaches shape limits texts self'"
| cache_reuse: "cache_reaches shape limits texts self \<Longrightarrow> reuse_layouts i j self = ret self' \<Longrightarrow> cache_reaches shape limits texts self'"
| cache_truncate: "cache_reaches shape limits texts self \<Longrightarrow> cache_reaches shape limits texts (truncate_layouts i self)"
| cache_finish: "cache_reaches shape limits texts self \<Longrightarrow> cache_reaches shape limits texts (finish_frame self)"

lemma cache_reaches_ok: "cache_reaches shape limits texts self \<Longrightarrow> cache_ok shape limits texts self"
proof (induction rule: cache_reaches.induct)
  case cache_start
  show ?case by (simp add: cache_ok_def line_cache_new_def frames_ok_new)
next
  case (cache_wrapped self max_lines chars font_size runs wrap_width wrapped self')
  from layout_wrapped_line_ok(2) [OF cache_wrapped.IH cache_wrapped.hyps(2,3)] show ?case .
qed (blast intro: layout_line_ok(2) layout_line_by_hash_ok(2) reuse_layouts_ok truncate_layouts_ok finish_frame_ok)+

text \<open>A line of the last frame is taken from there: the platform is not asked again.\<close>

lemma layout_line_cached:
  assumes "layout_line shape text font_size runs force_width self = (layout, self')"
  shows "fst (layout_line shape' text font_size runs force_width self') = layout"
    "fst (layout_line shape' text font_size runs force_width (finish_frame self')) = layout"
  using assms
  by (auto simp: layout_line_def finish_frame_def frame_cache_new_def used_map_new_def um_insert_def split: option.splits)

end
