(* ===== verification/Line_Reuse.thy ===== *)
theory Line_Reuse
  imports Line_Cache_Machine
begin

text \<open>
  That the lines of a part of the last frame can be reused: whatever was used there is still in one of the two frames, so a range that
  \<open>layout_index\<close> has recorded is moved into the current frame as a whole.
\<close>

section \<open>Keys that were used\<close>

text \<open>What was used in a frame has an entry; what was used in the last frame may have moved on to the current one.\<close>

definition used_ok :: "('k, 'v) used_map \<Rightarrow> ('k, 'v) used_map \<Rightarrow> bool" where
  "used_ok previous current \<longleftrightarrow> set (um_used current) \<subseteq> dom (um_entries current) \<and>
     set (um_used previous) \<subseteq> dom (um_entries previous) \<union> dom (um_entries current)"

definition uses_ok :: "('u, 'g, 'f) line_layout_cache \<Rightarrow> bool" where
  "uses_ok self \<longleftrightarrow> (let p = lc_previous_frame self; c = lc_current_frame self in
     used_ok (fc_lines p) (fc_lines c) \<and> used_ok (fc_wrapped_lines p) (fc_wrapped_lines c) \<and>
     used_ok (fc_lines_by_hash p) (fc_lines_by_hash c) \<and> used_ok (fc_wrapped_lines_by_hash p) (fc_wrapped_lines_by_hash c))"

definition used_between :: "nat \<Rightarrow> nat \<Rightarrow> ('k, 'v) used_map \<Rightarrow> 'k list" where
  "used_between a b m = take (b - a) (drop a (um_used m))"

lemma used_between_subset: "set (used_between a b m) \<subseteq> set (um_used m)"
  by (auto simp: used_between_def dest: in_set_takeD in_set_dropD)

lemma used_ok_insert: "used_ok previous current \<Longrightarrow> used_ok previous (um_insert key layout current)"
  by (auto simp: used_ok_def um_insert_def)

lemma used_ok_move: "used_ok previous current \<Longrightarrow> used_ok (um_remove key previous) (um_insert key layout current)"
  by (auto simp: used_ok_def um_insert_def um_remove_def)

lemma used_ok_finish: "used_ok previous current \<Longrightarrow> used_ok current used_map_new" "used_ok used_map_new used_map_new"
  by (auto simp: used_ok_def used_map_new_def)

lemma used_ok_truncate: "used_ok previous current \<Longrightarrow> used_ok previous (um_truncate n current)"
  by (auto simp: used_ok_def um_truncate_def dest: in_set_takeD)

section \<open>Reuse\<close>

text \<open>What a loop of \<open>reuse_layouts\<close> does to the two maps.\<close>

lemma reuse_keys_eq:
  "reuse_keys keys previous current =
     (\<lparr>um_entries = um_entries previous |` (- set keys), um_used = um_used previous\<rparr>,
      \<lparr>um_entries = um_entries current ++ (um_entries previous |` set keys), um_used = um_used current @ keys\<rparr>)"
proof (induction keys arbitrary: previous current)
  case (Cons key keys)
  show ?case
  proof (cases "um_entries previous key")
    case None
    then show ?thesis by (auto simp: Cons.IH restrict_map_def map_add_def fun_eq_iff)
  next
    case (Some layout)
    then show ?thesis by (auto simp: Cons.IH um_insert_def um_remove_def restrict_map_def map_add_def fun_eq_iff split: option.split)
  qed
qed (simp add: restrict_map_def)

lemma reuse_range_eq:
  assumes "reuse_range a b previous current = ret (previous', current')"
  shows "previous' = \<lparr>um_entries = um_entries previous |` (- set (used_between a b previous)), um_used = um_used previous\<rparr>"
    "current' = \<lparr>um_entries = um_entries current ++ (um_entries previous |` set (used_between a b previous)),
       um_used = um_used current @ used_between a b previous\<rparr>"
  using assms by (auto simp: reuse_range_def reuse_keys_eq used_between_def split: if_splits)

lemma reuse_range_used:
  assumes "used_ok previous current" "reuse_range a b previous current = ret (previous', current')"
  shows "used_ok previous' current'"
  using assms(1) used_between_subset [of a b previous]
  by (auto simp: used_ok_def reuse_range_eq [OF assms(2)])

lemma reuse_range_has:
  assumes "used_ok previous current" "reuse_range a b previous current = ret (previous', current')"
  shows "set (used_between a b previous) \<subseteq> dom (um_entries current')"
  using assms(1) used_between_subset [of a b previous]
  by (auto simp: used_ok_def reuse_range_eq [OF assms(2)])

lemma reuse_range_returns:
  assumes "a \<le> b" "b \<le> length (um_used previous)"
  obtains previous' current' where "reuse_range a b previous current = ret (previous', current')"
  using assms by (simp add: reuse_range_def reuse_keys_eq)

lemma uses_ok_reuse:
  assumes "uses_ok self" "reuse_layouts i j self = ret self'"
  shows "uses_ok self'"
  using assms by (auto simp: uses_ok_def reuse_layouts_def bind_eq_Some_conv Let_def dest: reuse_range_used)

section \<open>Sequences of calls\<close>

lemma uses_ok_line: "uses_ok self \<Longrightarrow> layout_line shape chars font_size runs force_width self = (layout, self') \<Longrightarrow> uses_ok self'"
  by (auto simp: uses_ok_def layout_line_def Let_def used_ok_insert used_ok_move split: option.splits)

lemma uses_ok_hashed:
  "uses_ok self \<Longrightarrow> layout_line_by_hash shape text_hash text_len font_size runs force_width chars self = (layout, self') \<Longrightarrow> uses_ok self'"
  by (auto simp: uses_ok_def layout_line_by_hash_def Let_def used_ok_insert used_ok_move split: option.splits)

lemma uses_ok_wrapped:
  assumes "uses_ok self" "layout_wrapped_line shape chars font_size runs wrap_width max_lines self = ret (wrapped, self')"
  shows "uses_ok self'"
proof -
  obtain line self1 where l: "layout_line shape chars font_size runs None self = (line, self1)" by (cases "layout_line shape chars font_size runs None self")
  with assms uses_ok_line [OF assms(1) l] show ?thesis
    by (auto simp: uses_ok_def layout_wrapped_line_def Let_def bind_eq_Some_conv used_ok_insert used_ok_move split: option.splits)
qed

lemma cache_reaches_uses: "cache_reaches shape limits texts self \<Longrightarrow> uses_ok self"
proof (induction rule: cache_reaches.induct)
  case cache_start
  show ?case by (simp add: uses_ok_def line_cache_new_def frame_cache_new_def used_ok_finish)
next
  case (cache_truncate self i)
  then show ?case by (simp add: uses_ok_def truncate_layouts_def Let_def used_ok_truncate)
next
  case (cache_finish self)
  then show ?case by (auto simp: uses_ok_def finish_frame_def Let_def frame_cache_new_def used_ok_finish(1))
qed (blast intro: uses_ok_line uses_ok_hashed uses_ok_wrapped uses_ok_reuse)+

text \<open>A range that lies in what was used in the last frame is reused, and its keys have entries afterwards.\<close>

definition index_le :: "line_layout_index \<Rightarrow> line_layout_index \<Rightarrow> bool" where
  "index_le i j \<longleftrightarrow> lx_lines i \<le> lx_lines j \<and> lx_wrapped_lines i \<le> lx_wrapped_lines j \<and> lx_lines_by_hash i \<le> lx_lines_by_hash j \<and>
     lx_wrapped_lines_by_hash i \<le> lx_wrapped_lines_by_hash j"

lemma reuse_layouts_has:
  assumes "uses_ok self" "index_le i j"
    and "index_le j (layout_index \<lparr>lc_previous_frame = previous, lc_current_frame = lc_previous_frame self\<rparr>)"
  obtains self' where "reuse_layouts i j self = ret self'"
    "set (used_between (lx_lines i) (lx_lines j) (fc_lines (lc_previous_frame self))) \<subseteq> dom (um_entries (fc_lines (lc_current_frame self')))"
    "set (used_between (lx_wrapped_lines i) (lx_wrapped_lines j) (fc_wrapped_lines (lc_previous_frame self))) \<subseteq>
       dom (um_entries (fc_wrapped_lines (lc_current_frame self')))"
    "set (used_between (lx_lines_by_hash i) (lx_lines_by_hash j) (fc_lines_by_hash (lc_previous_frame self))) \<subseteq>
       dom (um_entries (fc_lines_by_hash (lc_current_frame self')))"
proof -
  let ?p = "lc_previous_frame self" and ?c = "lc_current_frame self"
  have le: "lx_lines i \<le> lx_lines j" "lx_lines j \<le> length (um_used (fc_lines ?p))"
    "lx_wrapped_lines i \<le> lx_wrapped_lines j" "lx_wrapped_lines j \<le> length (um_used (fc_wrapped_lines ?p))"
    "lx_lines_by_hash i \<le> lx_lines_by_hash j" "lx_lines_by_hash j \<le> length (um_used (fc_lines_by_hash ?p))"
    "lx_wrapped_lines_by_hash i \<le> lx_wrapped_lines_by_hash j" "lx_wrapped_lines_by_hash j \<le> length (um_used (fc_wrapped_lines_by_hash ?p))"
    using assms(2,3) by (simp_all add: index_le_def layout_index_def Let_def)
  have used: "used_ok (fc_lines ?p) (fc_lines ?c)" "used_ok (fc_wrapped_lines ?p) (fc_wrapped_lines ?c)"
    "used_ok (fc_lines_by_hash ?p) (fc_lines_by_hash ?c)"
    using assms(1) by (simp_all add: uses_ok_def Let_def)
  obtain a a' where a: "reuse_range (lx_lines i) (lx_lines j) (fc_lines ?p) (fc_lines ?c) = ret (a, a')" using reuse_range_returns [OF le(1,2)] .
  obtain b b' where b: "reuse_range (lx_wrapped_lines i) (lx_wrapped_lines j) (fc_wrapped_lines ?p) (fc_wrapped_lines ?c) = ret (b, b')"
    using reuse_range_returns [OF le(3,4)] .
  obtain c c' where c: "reuse_range (lx_lines_by_hash i) (lx_lines_by_hash j) (fc_lines_by_hash ?p) (fc_lines_by_hash ?c) = ret (c, c')"
    using reuse_range_returns [OF le(5,6)] .
  obtain d d' where d: "reuse_range (lx_wrapped_lines_by_hash i) (lx_wrapped_lines_by_hash j) (fc_wrapped_lines_by_hash ?p)
      (fc_wrapped_lines_by_hash ?c) = ret (d, d')"
    using reuse_range_returns [OF le(7,8)] .
  have r: "reuse_layouts i j self = ret
      \<lparr>lc_previous_frame = \<lparr>fc_lines = a, fc_wrapped_lines = b, fc_lines_by_hash = c, fc_wrapped_lines_by_hash = d\<rparr>,
       lc_current_frame = \<lparr>fc_lines = a', fc_wrapped_lines = b', fc_lines_by_hash = c', fc_wrapped_lines_by_hash = d'\<rparr>\<rparr>"
    using a b c d by (simp add: reuse_layouts_def)
  show thesis
    by (rule that [OF r]) (use reuse_range_has [OF used(1) a] reuse_range_has [OF used(2) b] reuse_range_has [OF used(3) c] in simp_all)
qed

end
