(* ===== verification/Text_Properties.thy ===== *)
theory Text_Properties
  imports Line_Wrapping Line_Reuse
begin

text \<open>
  What shaped lines promise: an index into a wrapped line and its position on the screen are found from each other, lines are wrapped where
  they have to be, and the cache of layouts changes nothing but how often the platform shapes a line.
\<close>

section \<open>A line of five characters\<close>

definition sample_glyphs :: "nat list \<Rightarrow> (rat, nat) shaped_glyph list" where
  "sample_glyphs is = map (\<lambda>i. \<lparr>sg_id = 65 + i, sg_position = mk_point (10 * of_nat i) 0, sg_index = i, sg_is_emoji = False\<rparr>) is"

definition sample_line :: "(rat, nat, nat) line_layout" where
  "sample_line = \<lparr>ll_font_size = 12, ll_width = 50, ll_ascent = 9, ll_descent = 3,
     ll_runs = [\<lparr>sr_font_id = 1, sr_glyphs = sample_glyphs [0, 1]\<rparr>, \<lparr>sr_font_id = 2, sr_glyphs = sample_glyphs [2, 3, 4]\<rparr>], ll_len = 5\<rparr>"

definition sample_wrapped :: "(rat, nat, nat) wrapped_line_layout" where
  "sample_wrapped = \<lparr>wl_unwrapped_layout = sample_line, wl_wrap_boundaries = the (compute_wrap_boundaries ''ab cd'' 35 None sample_line),
     wl_wrap_width = Some 35\<rparr>"

lemma sample_glyph_list: "glyphs_of sample_line = sample_glyphs [0, 1, 2, 3, 4]"
  by (simp add: glyphs_of_def sample_line_def sample_glyphs_def)

lemma sample_line_ok: "line_ok sample_line"
  by (simp add: line_ok_def sample_glyph_list) (simp add: sample_glyphs_def sample_line_def mk_point_def)

lemma sample_boundaries: "compute_wrap_boundaries ''ab cd'' 35 None sample_line = ret [\<lparr>wb_run_ix = 1, wb_glyph_ix = 1\<rparr>]"
  by code_simp

lemma sample_wraps: "wraps_at sample_line [3] (wl_wrap_boundaries sample_wrapped)"
  by (simp add: wraps_at_def sample_wrapped_def sample_boundaries sample_glyph_list sample_glyphs_def boundary_at_def) code_simp

section \<open>Positions\<close>

text \<open>C19: An index into a wrapped line and its position on the screen are found from each other, for a line that is shaped from left to
  right: the indices of the glyphs grow, their positions do not go back, the first glyph is at 0 and none starts past the width. For the index of
  every glyph, and for the end of the line, position_for_index gives its distance from the start of its wrapped line, which is the one after the
  boundaries before it (a glyph at a boundary is shown at the end of the line before), and the height of that line; index_for_position at
  this position, or anywhere below it in the same wrapped line, gives the index back as a hit, or that of the last glyph where several are
  at the same place. At the place of the end of the wrapped line it gives that end as the nearest index.\<close>

theorem position_round_trip:
  fixes self :: "('u::floor_ceiling, 'g, 'f) wrapped_line_layout"
  defines "layout \<equiv> wl_unwrapped_layout self"
  assumes "line_ok layout" "wraps_at layout ps (wl_wrap_boundaries self)" "p \<le> length (glyphs_of layout)" "0 \<le> below" "below < line_height"
  defines "k \<equiv> length (filter (\<lambda>q. q < p) ps)"
  shows "\<exists>position. position_for_index (glyph_index layout p) line_height self = ret (Some position) \<and>
    position = mk_point (glyph_x layout p - glyph_x layout (line_start ps k)) (of_nat k * line_height) \<and>
    index_for_position (mk_point (pt_x position) (pt_y position + below)) line_height self =
      ret (if glyph_x layout p = glyph_x layout (line_end layout ps k) then Inl (glyph_index layout (line_end layout ps k))
        else Inr (glyph_index layout (last_at layout p)))"
proof -
  obtain j where j: "j \<le> length ps" "line_start ps j \<le> p" "j = 0 \<or> line_start ps j < p" "p \<le> line_end layout ps j"
    and position: "position_for_index (glyph_index layout p) line_height self =
      ret (Some (mk_point (glyph_x layout p - glyph_x layout (line_start ps j)) (of_nat j * line_height)))"
    using position_for_index_ok assms(2-4) unfolding layout_def by metis
  have "j = k" unfolding k_def using line_of_glyph [OF assms(3) j(1,3,4)] by simp
  moreover have "0 < line_height" using assms(5,6) by simp
  note index_for_position_ok [OF assms(2,3) [unfolded layout_def] j(1) this _ _ j(2) j(4) [unfolded layout_def],
      of "of_nat j * line_height + below", folded layout_def]
  ultimately show ?thesis using position assms(5,6) by (simp add: mk_point_def algebra_simps)
qed

theorem position_round_trip_witness:
  "\<exists>position. position_for_index (glyph_index sample_line 4) 16 sample_wrapped = ret (Some position) \<and>
     index_for_position (mk_point (pt_x position) (pt_y position + 5)) 16 sample_wrapped = ret (Inr (glyph_index sample_line 4))"
proof -
  have unwrapped: "wl_unwrapped_layout sample_wrapped = sample_line" by (simp add: sample_wrapped_def)
  have N: "length (glyphs_of sample_line) = 5" by (simp add: sample_glyph_list sample_glyphs_def)
  have x: "glyph_x sample_line q = 10 * of_nat q" if "q < 5" for q
    using that by (auto simp: glyph_x_def sample_glyph_list sample_glyphs_def mk_point_def less_Suc_eq numeral_eq_Suc)
  have "last_at sample_line 4 = 4" using last_at [of 4 sample_line] x [of 4] x [of "last_at sample_line 4"] by (simp add: N)
  moreover have "glyph_x sample_line 5 = 50" by (simp add: glyph_x_def N) (simp add: sample_line_def)
  ultimately show ?thesis
    using position_round_trip [of sample_wrapped "[3]" 4 5 16] x [of 4] sample_line_ok sample_wraps
    unfolding unwrapped by (simp add: N line_end_def)
qed

section \<open>Wrapping\<close>

text \<open>C22: compute_wrap_boundaries, with a width that is not negative, does not panic on a line that is shaped from left to right (as in C19:
  growing indices, positions that do not go back, the first glyph at 0, none past the width of the line), whose first run is not empty and
  whose glyphs are at characters of the text other than line breaks, and wraps it where it has to: the boundaries are glyphs in the
  interior of the line, in ascending order; a line is only broken off when what is left does not fit into the width, and all glyphs of a line
  that is broken off start within the width; with a limit of max_lines there are at most max_lines - 1 boundaries, and none for the
  limits 0 and 1; without a limit the glyphs of the last line start within the width too.\<close>

theorem wraps_where_it_has_to:
  fixes layout :: "('u::floor_ceiling, 'g, 'f) line_layout"
  assumes "line_ok layout" "boundary_at layout 0 = \<lparr>wb_run_ix = 0, wb_glyph_ix = 0\<rparr>" "0 \<le> wrap_width"
    and "\<forall>glyph \<in> set (glyphs_of layout). \<exists>ch. char_at text (sg_index glyph) = ret ch \<and> ch \<noteq> CHR 0x0A"
  shows "\<exists>ps. compute_wrap_boundaries text wrap_width max_lines layout = ret (map (boundary_at layout) ps) \<and>
    sorted_wrt (<) ps \<and> (\<forall>p \<in> set ps. 0 < p \<and> p < length (glyphs_of layout)) \<and>
    (\<forall>k < length ps. glyph_x layout (ps ! k - 1) - glyph_x layout (line_start ps k) \<le> wrap_width \<and>
       wrap_width < ll_width layout - glyph_x layout (line_start ps k)) \<and>
    (case max_lines of Some n \<Rightarrow> length ps \<le> n - 1
     | None \<Rightarrow> glyph_x layout (length (glyphs_of layout) - 1) - glyph_x layout (line_start ps (length ps)) \<le> wrap_width)"
proof -
  from compute_wrap_boundaries_ok [OF assms, of max_lines]
  obtain ps where "compute_wrap_boundaries text wrap_width max_lines layout = ret (map (boundary_at layout) ps)"
    "broken_ok layout wrap_width ps" "\<forall>n. max_lines = Some n \<longrightarrow> length ps \<le> n - 1"
    "max_lines = None \<longrightarrow> starts_within layout wrap_width (last_start ps) (length (glyphs_of layout))" .
  then show ?thesis by (intro exI [of _ ps]) (auto simp: broken_ok_def starts_within_def last_start_nth split: option.split)
qed

theorem wraps_where_it_has_to_witness:
  "\<exists>ps. compute_wrap_boundaries ''ab cd'' 35 None sample_line = ret (map (boundary_at sample_line) ps) \<and> sorted_wrt (<) ps \<and>
     glyph_x sample_line 4 - glyph_x sample_line (line_start ps (length ps)) \<le> 35"
proof -
  have chars: "\<forall>glyph \<in> set (glyphs_of sample_line). \<exists>ch. char_at ''ab cd'' (sg_index glyph) = ret ch \<and> ch \<noteq> CHR 0x0A"
    by (simp add: sample_glyph_list) (simp add: sample_glyphs_def char_len_utf8_def code_point_def)
  have first: "boundary_at sample_line 0 = \<lparr>wb_run_ix = 0, wb_glyph_ix = 0\<rparr>" by (simp add: boundary_at_def) code_simp
  have "length (glyphs_of sample_line) - 1 = 4" by (simp add: sample_glyph_list sample_glyphs_def)
  with wraps_where_it_has_to [OF sample_line_ok first _ chars, of 35 None] show ?thesis by auto
qed

section \<open>The cache\<close>

text \<open>C40: In every state the cache reaches, layout_line gives what shaping the line afresh would give, and a line that was asked for
  in the last frame is given again without shaping it, whatever the platform would answer now. The limit on the lines is not
  part of the key of a wrapped line, so layout_wrapped_line gives what wrapping the line afresh under one of the limits would give that
  callers use for that key, which is the one of this call if they use only one. layout_line_by_hash gives what shaping one of the texts
  would give that callers give with that hash and length, which is the one text if they keep to the documented contract that a hash
  stands for one text, and try_layout_line_by_hash gives that or nothing.\<close>

theorem cache_transparent:
  fixes self :: "('u::floor_ceiling, 'g, 'f) line_layout_cache"
  assumes "cache_reaches shape limits texts self" "chars' \<in> texts text_hash text_len"
    and "max_lines \<in> limits \<lparr>lk_text = chars, lk_font_size = font_size, lk_runs = runs, lk_wrap_width = wrap_width, lk_force_width = None\<rparr>"
  shows "fst (layout_line shape chars font_size runs force_width self) = shape_line shape chars font_size runs force_width \<and>
    fst (layout_line other_shape chars font_size runs force_width (finish_frame (snd (layout_line shape chars font_size runs force_width self)))) =
      shape_line shape chars font_size runs force_width \<and>
    map_option fst (layout_wrapped_line shape chars font_size runs wrap_width max_lines self) \<in>
      wrapped_line_for shape \<lparr>lk_text = chars, lk_font_size = font_size, lk_runs = runs, lk_wrap_width = wrap_width, lk_force_width = None\<rparr> `
        limits \<lparr>lk_text = chars, lk_font_size = font_size, lk_runs = runs, lk_wrap_width = wrap_width, lk_force_width = None\<rparr> \<and>
    fst (layout_line_by_hash shape text_hash text_len font_size runs force_width chars' self) \<in>
      (\<lambda>chars. shape_line shape chars font_size runs force_width) ` texts text_hash text_len \<and>
    try_layout_line_by_hash text_hash text_len font_size runs force_width self \<in>
      insert None ((\<lambda>chars. Some (shape_line shape chars font_size runs force_width)) ` texts text_hash text_len)"
proof -
  note ok = cache_reaches_ok [OF assms(1)]
  obtain line self1 where line: "layout_line shape chars font_size runs force_width self = (line, self1)"
    by (cases "layout_line shape chars font_size runs force_width self")
  obtain hashed self2 where hashed: "layout_line_by_hash shape text_hash text_len font_size runs force_width chars' self = (hashed, self2)"
    by (cases "layout_line_by_hash shape text_hash text_len font_size runs force_width chars' self")
  note by_hash = layout_line_by_hash_ok [OF ok assms(2) hashed, unfolded hashed_lines_for_def hashed_line_key_def hashed_cache_key.select_convs]
  have "try_layout_line_by_hash text_hash text_len font_size runs force_width self \<in>
      insert None ((\<lambda>chars. Some (shape_line shape chars font_size runs force_width)) ` texts text_hash text_len)"
    using by_hash(3) by (cases "try_layout_line_by_hash text_hash text_len font_size runs force_width self") auto
  moreover note layout_wrapped_line_ok(1) [OF ok assms(3)]
  ultimately show ?thesis
    using layout_line_ok(1) [OF ok line] by_hash(1) layout_line_cached(2) [OF line, of other_shape] by (simp add: line hashed)
qed

definition sample_shape :: "string \<Rightarrow> rat \<Rightarrow> nat font_run list \<Rightarrow> (rat, nat, nat) line_layout" where
  "sample_shape chars font_size runs = (if chars = ''ab cd'' then sample_line else sample_line\<lparr>ll_len := length chars\<rparr>)"

text \<open>A frame in which a line was wrapped.\<close>

definition sample_cache :: "(rat, nat, nat) line_layout_cache" where
  "sample_cache = snd (the (layout_wrapped_line sample_shape ''ab cd'' 12 [] (Some 35) None line_cache_new))"

lemma sample_cache_reached: "cache_reaches sample_shape (\<lambda>_. {None}) (\<lambda>_ _. {''ab cd''}) sample_cache"
proof -
  have "layout_wrapped_line sample_shape ''ab cd'' 12 [] (Some 35) None line_cache_new \<noteq> None"
    by (simp add: layout_wrapped_line_def layout_line_def line_cache_new_def frame_cache_new_def used_map_new_def shape_line_def sample_shape_def
      sample_boundaries)
  then obtain wrapped where "layout_wrapped_line sample_shape ''ab cd'' 12 [] (Some 35) None line_cache_new = ret (wrapped, sample_cache)"
    by (cases "layout_wrapped_line sample_shape ''ab cd'' 12 [] (Some 35) None line_cache_new") (auto simp: sample_cache_def)
  from cache_wrapped [OF cache_start _ this] show ?thesis by simp
qed

theorem cache_transparent_witness:
  "fst (layout_line sample_shape ''ab cd'' 12 [] None sample_cache) = shape_line sample_shape ''ab cd'' 12 [] None \<and>
   fst (layout_line (\<lambda>_ _ _. sample_line\<lparr>ll_len := 0\<rparr>) ''ab cd'' 12 [] None
     (finish_frame (snd (layout_line sample_shape ''ab cd'' 12 [] None sample_cache)))) = shape_line sample_shape ''ab cd'' 12 [] None"
  using cache_transparent [OF sample_cache_reached, where chars' = "''ab cd''" and max_lines = None] by blast

text \<open>C39: The lines of a part of the last frame can be reused: in every state the cache reaches, reuse_layouts does not panic on a range
  between two indices of the last frame, and afterwards each line that this range records, plain, wrapped or looked up by its
  hash, is in the current frame, with the layout that shaping it afresh would give and, as in C40, wrapping it under one of the limits that
  callers use for its key, or shaping one of the texts given with its hash. (A range records a line where it is first asked for in a frame;
  asking for it again later in the frame records nothing.)\<close>

theorem reused_lines_stay:
  fixes self :: "('u::floor_ceiling, 'g, 'f) line_layout_cache"
  assumes "cache_reaches shape limits texts self" "index_le i j"
    and "index_le j (layout_index \<lparr>lc_previous_frame = previous, lc_current_frame = lc_previous_frame self\<rparr>)"
  shows "\<exists>self'. reuse_layouts i j self = ret self' \<and>
    (\<forall>key \<in> set (used_between (lx_lines i) (lx_lines j) (fc_lines (lc_previous_frame self))).
       um_entries (fc_lines (lc_current_frame self')) key =
         Some (shape_line shape (lk_text key) (lk_font_size key) (lk_runs key) (lk_force_width key))) \<and>
    (\<forall>key \<in> set (used_between (lx_wrapped_lines i) (lx_wrapped_lines j) (fc_wrapped_lines (lc_previous_frame self))).
       \<exists>layout. um_entries (fc_wrapped_lines (lc_current_frame self')) key = Some layout \<and>
         ret layout \<in> wrapped_line_for shape key ` limits key) \<and>
    (\<forall>key \<in> set (used_between (lx_lines_by_hash i) (lx_lines_by_hash j) (fc_lines_by_hash (lc_previous_frame self))).
       \<exists>layout \<in> hashed_lines_for shape texts key. um_entries (fc_lines_by_hash (lc_current_frame self')) key = Some layout)"
proof -
  obtain self' where self': "reuse_layouts i j self = ret self'"
    "set (used_between (lx_lines i) (lx_lines j) (fc_lines (lc_previous_frame self))) \<subseteq> dom (um_entries (fc_lines (lc_current_frame self')))"
    "set (used_between (lx_wrapped_lines i) (lx_wrapped_lines j) (fc_wrapped_lines (lc_previous_frame self))) \<subseteq>
       dom (um_entries (fc_wrapped_lines (lc_current_frame self')))"
    "set (used_between (lx_lines_by_hash i) (lx_lines_by_hash j) (fc_lines_by_hash (lc_previous_frame self))) \<subseteq>
       dom (um_entries (fc_lines_by_hash (lc_current_frame self')))"
    using reuse_layouts_has [OF cache_reaches_uses [OF assms(1)] assms(2,3)] .
  have "frame_ok shape limits texts (lc_current_frame self')"
    using reuse_layouts_ok [OF cache_reaches_ok [OF assms(1)] self'(1)] by (simp add: cache_ok_def)
  then show ?thesis using self'
    by (intro exI [of _ self'] conjI ballI) (fastforce simp: frame_ok_def entries_ok_def dest!: subsetD)+
qed

theorem reused_lines_stay_witness:
  "\<exists>self'. reuse_layouts \<lparr>lx_lines = 0, lx_wrapped_lines = 0, lx_lines_by_hash = 0, lx_wrapped_lines_by_hash = 0\<rparr>
       \<lparr>lx_lines = 1, lx_wrapped_lines = 1, lx_lines_by_hash = 0, lx_wrapped_lines_by_hash = 0\<rparr> (finish_frame sample_cache) = ret self' \<and>
     um_entries (fc_lines (lc_current_frame self')) \<lparr>lk_text = ''ab cd'', lk_font_size = 12, lk_runs = [], lk_wrap_width = None, lk_force_width = None\<rparr> =
       Some (shape_line sample_shape ''ab cd'' 12 [] None)"
proof -
  let ?i = "\<lparr>lx_lines = 0, lx_wrapped_lines = 0, lx_lines_by_hash = 0, lx_wrapped_lines_by_hash = 0\<rparr>"
  let ?j = "\<lparr>lx_lines = 1, lx_wrapped_lines = 1, lx_lines_by_hash = 0, lx_wrapped_lines_by_hash = 0\<rparr>"
  have reached: "cache_reaches sample_shape (\<lambda>_. {None}) (\<lambda>_ _. {''ab cd''}) (finish_frame sample_cache)"
    by (rule cache_finish [OF sample_cache_reached])
  have used: "um_used (fc_lines (lc_current_frame sample_cache)) =
      [\<lparr>lk_text = ''ab cd'', lk_font_size = 12, lk_runs = [], lk_wrap_width = None, lk_force_width = None\<rparr>]"
    "length (um_used (fc_wrapped_lines (lc_current_frame sample_cache))) = 1"
    by (simp_all add: sample_cache_def layout_wrapped_line_def layout_line_def line_cache_new_def frame_cache_new_def used_map_new_def um_insert_def
      shape_line_def sample_shape_def sample_boundaries)
  have "index_le ?i ?j" "index_le ?j (layout_index \<lparr>lc_previous_frame = frame_cache_new, lc_current_frame = lc_previous_frame (finish_frame sample_cache)\<rparr>)"
    using used by (simp_all add: index_le_def layout_index_def finish_frame_def)
  from reused_lines_stay [OF reached this] used show ?thesis by (auto simp: finish_frame_def used_between_def)
qed

end
