(* ===== verification/Line_Wrapper.thy ===== *)
theory Line_Wrapper
  imports Line_Layout "HOL-Library.State_Monad"
begin

text \<open>
  \<open>gpui/src/text_system/line_wrapper.rs\<close>: where a line is wrapped that is not shaped yet, and how it is truncated to a width. The state that is
  threaded through is the \<open>LineWrapper\<close> with its cache of the widths of characters; the width that the text system gives for a character in
  a font is a parameter, \<open>layout_width\<close>. What may panic is an option inside the state monad.
\<close>

section \<open>Strings\<close>

text \<open>\<open>(&line[..index], &line[index..])\<close>.\<close>

fun split_at_byte :: "nat \<Rightarrow> string \<Rightarrow> (string \<times> string) rust" where
  "split_at_byte index [] = (if index = 0 then ret ([], []) else panic)"
| "split_at_byte index (c # s) =
     (if index = 0 then ret ([], c # s) else if index < char_len_utf8 c then panic
      else do { (front, back) \<leftarrow> split_at_byte (index - char_len_utf8 c) s; ret (c # front, back) })"

fun char_indices_from :: "nat \<Rightarrow> string \<Rightarrow> (nat \<times> char) list" where
  "char_indices_from ix [] = []"
| "char_indices_from ix (c # s) = (ix, c) # char_indices_from (ix + char_len_utf8 c) s"

abbreviation char_indices :: "string \<Rightarrow> (nat \<times> char) list" where
  "char_indices s \<equiv> char_indices_from 0 s"

fun ceil_char_boundary :: "string \<Rightarrow> nat \<Rightarrow> nat" where
  "ceil_char_boundary [] index = 0"
| "ceil_char_boundary (c # s) index = (if index = 0 then 0 else char_len_utf8 c + ceil_char_boundary s (index - char_len_utf8 c))"

definition is_ascii_punctuation :: "char \<Rightarrow> bool" where
  "is_ascii_punctuation c \<longleftrightarrow> (let n = code_point c in
     33 \<le> n \<and> n \<le> 47 \<or> 58 \<le> n \<and> n \<le> 64 \<or> 91 \<le> n \<and> n \<le> 96 \<or> 123 \<le> n \<and> n \<le> 126)"

definition trim_end :: "string \<Rightarrow> string" where
  "trim_end s = rev (dropWhile (\<lambda>c. is_whitespace c \<or> is_ascii_punctuation c) (rev s))"

section \<open>Widths of characters\<close>

datatype truncate_from = Truncate_Start | Truncate_End | Truncate_Middle

record 'u char_width_cache =
  cw_ascii :: "'u option list"
  cw_other :: "char \<rightharpoonup> 'u"

record ('u, 'f) line_wrapper =
  lr_font_id :: 'f
  lr_font_size :: 'u
  lr_char_widths :: "'u char_width_cache"

definition char_width_cache_default :: "'u char_width_cache" where
  "char_width_cache_default = \<lparr>cw_ascii = replicate 128 None, cw_other = Map.empty\<rparr>"

definition line_wrapper_new :: "'f \<Rightarrow> 'u \<Rightarrow> 'u char_width_cache \<Rightarrow> ('u, 'f) line_wrapper" where
  "line_wrapper_new font_id font_size char_widths = \<lparr>lr_font_id = font_id, lr_font_size = font_size, lr_char_widths = char_widths\<rparr>"

definition into_char_widths :: "('u, 'f) line_wrapper \<Rightarrow> 'u char_width_cache" where
  "into_char_widths self = lr_char_widths self"

definition MAX_INDENT :: nat where
  "MAX_INDENT = 256"

type_synonym ('f, 'u) width_fun = "'f \<Rightarrow> 'u \<Rightarrow> char \<Rightarrow> 'u"

text \<open>An ASCII character is below the length of the array.\<close>

definition width_for_char :: "('f, 'u) width_fun \<Rightarrow> char \<Rightarrow> (('u, 'f) line_wrapper, 'u) state" where
  "width_for_char layout_width c = State (\<lambda>self. let cache = lr_char_widths self; n = code_point c in
     if n < 128 then
       (case cw_ascii cache ! n of
          Some cached_width \<Rightarrow> (cached_width, self)
        | None \<Rightarrow> (let width = layout_width (lr_font_id self) (lr_font_size self) c in
            (width, self\<lparr>lr_char_widths := cache\<lparr>cw_ascii := (cw_ascii cache)[n := Some width]\<rparr>\<rparr>)))
     else
       (case cw_other cache c of
          Some cached_width \<Rightarrow> (cached_width, self)
        | None \<Rightarrow> (let width = layout_width (lr_font_id self) (lr_font_size self) c in
            (width, self\<lparr>lr_char_widths := cache\<lparr>cw_other := (cw_other cache)(c \<mapsto> width)\<rparr>\<rparr>))))"

text \<open>\<open>chars().map(|c| self.width_for_char(c)).fold(width, |a, x| a + x)\<close>.\<close>

fun fold_widths :: "('f, 'u::floor_ceiling) width_fun \<Rightarrow> 'u \<Rightarrow> string \<Rightarrow> (('u, 'f) line_wrapper, 'u) state" where
  "fold_widths layout_width width [] = State_Monad.return width"
| "fold_widths layout_width width (c # s) = do {
     x \<leftarrow> width_for_char layout_width c;
     fold_widths layout_width (width + x) s }"

section \<open>Runs\<close>

record 'r text_run =
  tr_len :: nat
  tr_style :: 'r

text \<open>The runs that are kept, from the end of the text that stays; the one in which it is cut takes up the affix.\<close>

fun keep_runs :: "nat \<Rightarrow> nat \<Rightarrow> 'r text_run list \<Rightarrow> 'r text_run list" where
  "keep_runs ellipsis_len truncate_at [] = []"
| "keep_runs ellipsis_len truncate_at (run # runs) =
     (if tr_len run \<le> truncate_at then run # keep_runs ellipsis_len (truncate_at - tr_len run) runs
      else [run\<lparr>tr_len := truncate_at + ellipsis_len\<rparr>])"

definition update_runs_after_truncation :: "string \<Rightarrow> string \<Rightarrow> 'r text_run list \<Rightarrow> truncate_from \<Rightarrow> 'r text_run list rust" where
  "update_runs_after_truncation result ellipsis runs truncate_from = do {
     truncate_at \<leftarrow> checked_minus (str_len result) (str_len ellipsis);
     (case truncate_from of
        Truncate_Start \<Rightarrow> ret (rev (keep_runs (str_len ellipsis) truncate_at (rev runs)))
      | Truncate_End \<Rightarrow> ret (keep_runs (str_len ellipsis) truncate_at runs)
      | Truncate_Middle \<Rightarrow> panic) }"

fun front_runs :: "nat \<Rightarrow> nat \<Rightarrow> 'r text_run list \<Rightarrow> 'r text_run list \<times> bool" where
  "front_runs ellipsis_len front_remaining [] = ([], False)"
| "front_runs ellipsis_len front_remaining (run # runs) =
     (if tr_len run \<le> front_remaining then
        (case front_runs ellipsis_len (front_remaining - tr_len run) runs of (result, front_done) \<Rightarrow> (run # result, front_done))
      else ([run\<lparr>tr_len := front_remaining + ellipsis_len\<rparr>], True))"

fun back_runs :: "nat \<Rightarrow> nat \<Rightarrow> 'r text_run list \<Rightarrow> 'r text_run list" where
  "back_runs back_start_ix byte_pos [] = []"
| "back_runs back_start_ix byte_pos (run # runs) = (
     let run_end = byte_pos + tr_len run;
         rest = back_runs back_start_ix run_end runs in
     if run_end > back_start_ix then
       (if byte_pos < back_start_ix then run\<lparr>tr_len := run_end - back_start_ix\<rparr> # rest else run # rest)
     else rest)"

definition update_runs_after_middle_truncation :: "string \<Rightarrow> nat \<Rightarrow> nat \<Rightarrow> 'r text_run list \<Rightarrow> 'r text_run list" where
  "update_runs_after_middle_truncation ellipsis front_end_ix back_start_ix original_runs = (
     let (result_runs, front_done) = front_runs (str_len ellipsis) front_end_ix original_runs;
         result_runs = (if front_done then result_runs
           else (case list_last result_runs of
               Some run \<Rightarrow> butlast result_runs @ [run\<lparr>tr_len := tr_len run + str_len ellipsis\<rparr>]
             | None \<Rightarrow> (case list_first original_runs of
                 Some run \<Rightarrow> [run\<lparr>tr_len := str_len ellipsis\<rparr>]
               | None \<Rightarrow> []))) in
     result_runs @ back_runs back_start_ix 0 original_runs)"

section \<open>Truncation\<close>

text \<open>The loop over the characters, from either end.\<close>

fun truncate_loop ::
  "('f, 'u) width_fun \<Rightarrow> 'u \<Rightarrow> 'u \<Rightarrow> (nat \<times> char) list \<Rightarrow> 'u \<Rightarrow> nat \<Rightarrow> (('u::floor_ceiling, 'f) line_wrapper, nat option) state" where
  "truncate_loop layout_width truncate_width suffix_width [] width truncate_ix = State_Monad.return None"
| "truncate_loop layout_width truncate_width suffix_width ((ix, c) # chars) width truncate_ix = (
     let truncate_ix = (if width + suffix_width < truncate_width then ix else truncate_ix) in do {
       char_width \<leftarrow> width_for_char layout_width c;
       (let width = width + char_width in
        if of_int \<lfloor>width\<rfloor> > truncate_width then State_Monad.return (Some truncate_ix)
        else truncate_loop layout_width truncate_width suffix_width chars width truncate_ix) })"

definition should_truncate_line ::
  "('f, 'u) width_fun \<Rightarrow> string \<Rightarrow> 'u \<Rightarrow> string \<Rightarrow> truncate_from \<Rightarrow> (('u::floor_ceiling, 'f) line_wrapper, nat option) state" where
  "should_truncate_line layout_width line truncate_width truncation_affix truncate_from = do {
     suffix_width \<leftarrow> fold_widths layout_width 0 truncation_affix;
     (case truncate_from of
        Truncate_Start \<Rightarrow> truncate_loop layout_width truncate_width suffix_width (rev (char_indices line)) 0 0
      | Truncate_End \<Rightarrow> truncate_loop layout_width truncate_width suffix_width (char_indices line) 0 0
      | Truncate_Middle \<Rightarrow> State_Monad.return None) }"

fun front_loop :: "('f, 'u) width_fun \<Rightarrow> 'u \<Rightarrow> (nat \<times> char) list \<Rightarrow> 'u \<Rightarrow> nat \<Rightarrow> (('u::floor_ceiling, 'f) line_wrapper, nat) state" where
  "front_loop layout_width front_budget [] front_width front_end_ix = State_Monad.return front_end_ix"
| "front_loop layout_width front_budget ((ix, c) # chars) front_width front_end_ix = do {
     char_width \<leftarrow> width_for_char layout_width c;
     (if front_width + char_width > front_budget then State_Monad.return front_end_ix
      else front_loop layout_width front_budget chars (front_width + char_width) (ix + char_len_utf8 c)) }"

fun back_loop :: "('f, 'u) width_fun \<Rightarrow> 'u \<Rightarrow> (nat \<times> char) list \<Rightarrow> 'u \<Rightarrow> nat \<Rightarrow> (('u::floor_ceiling, 'f) line_wrapper, nat) state" where
  "back_loop layout_width back_budget [] back_width back_start_ix = State_Monad.return back_start_ix"
| "back_loop layout_width back_budget ((ix, c) # chars) back_width back_start_ix = do {
     char_width \<leftarrow> width_for_char layout_width c;
     (if back_width + char_width > back_budget then State_Monad.return back_start_ix
      else back_loop layout_width back_budget chars (back_width + char_width) ix) }"

definition should_truncate_line_middle ::
  "('f, 'u) width_fun \<Rightarrow> string \<Rightarrow> 'u \<Rightarrow> string \<Rightarrow> (('u::floor_ceiling, 'f) line_wrapper, (nat \<times> nat) option) state" where
  "should_truncate_line_middle layout_width line truncate_width truncation_affix = do {
     suffix_width \<leftarrow> fold_widths layout_width 0 truncation_affix;
     total_width \<leftarrow> fold_widths layout_width 0 line;
     (if total_width \<le> truncate_width then State_Monad.return None
      else let content_budget = truncate_width - suffix_width in
        if content_budget \<le> 0 then State_Monad.return (Some (0, str_len line))
        else let front_budget = content_budget * (2 / 3); back_budget = content_budget - front_budget in do {
          front_end_ix \<leftarrow> front_loop layout_width front_budget (char_indices line) 0 0;
          back_start_ix \<leftarrow> back_loop layout_width back_budget (rev (char_indices line)) 0 (str_len line);
          (if front_end_ix \<ge> back_start_ix then State_Monad.return (Some (0, str_len line))
           else State_Monad.return (Some (front_end_ix, back_start_ix))) }) }"

text \<open>The front of the text up to an index, trimmed, with the affix.\<close>

definition truncate_at_end :: "string \<Rightarrow> nat \<Rightarrow> string \<Rightarrow> 'r text_run list \<Rightarrow> (string \<times> 'r text_run list) rust" where
  "truncate_at_end line truncate_ix truncation_affix runs = do {
     (front, back) \<leftarrow> split_at_byte truncate_ix line;
     let result = trim_end front @ truncation_affix;
     runs \<leftarrow> update_runs_after_truncation result truncation_affix runs Truncate_End;
     ret (result, runs) }"

definition truncate_at_start :: "string \<Rightarrow> nat \<Rightarrow> string \<Rightarrow> 'r text_run list \<Rightarrow> (string \<times> 'r text_run list) rust" where
  "truncate_at_start line truncate_ix truncation_affix runs = do {
     (front, back) \<leftarrow> split_at_byte (ceil_char_boundary line (truncate_ix + 1)) line;
     let result = truncation_affix @ back;
     runs \<leftarrow> update_runs_after_truncation result truncation_affix runs Truncate_Start;
     ret (result, runs) }"

definition truncate_in_middle :: "string \<Rightarrow> nat \<Rightarrow> nat \<Rightarrow> string \<Rightarrow> 'r text_run list \<Rightarrow> (string \<times> 'r text_run list) rust" where
  "truncate_in_middle line front_end_ix back_start_ix truncation_affix runs = do {
     (front, rest) \<leftarrow> split_at_byte front_end_ix line;
     (start, back) \<leftarrow> split_at_byte back_start_ix line;
     ret (front @ truncation_affix @ back, update_runs_after_middle_truncation truncation_affix front_end_ix back_start_ix runs) }"

definition truncate_line ::
  "('f, 'u) width_fun \<Rightarrow> string \<Rightarrow> 'u \<Rightarrow> string \<Rightarrow> 'r text_run list \<Rightarrow> truncate_from \<Rightarrow>
   (('u::floor_ceiling, 'f) line_wrapper, (string \<times> 'r text_run list) rust) state" where
  "truncate_line layout_width line truncate_width truncation_affix runs truncate_from =
     (if truncate_from = Truncate_Middle then do {
        r \<leftarrow> should_truncate_line_middle layout_width line truncate_width truncation_affix;
        State_Monad.return (case r of
            Some (front_end_ix, back_start_ix) \<Rightarrow> truncate_in_middle line front_end_ix back_start_ix truncation_affix runs
          | None \<Rightarrow> ret (line, runs)) }
      else do {
        r \<leftarrow> should_truncate_line layout_width line truncate_width truncation_affix truncate_from;
        State_Monad.return (case r of
            Some truncate_ix \<Rightarrow>
              (case truncate_from of
                 Truncate_Start \<Rightarrow> truncate_at_start line truncate_ix truncation_affix runs
               | Truncate_End \<Rightarrow> truncate_at_end line truncate_ix truncation_affix runs
               | Truncate_Middle \<Rightarrow> panic)
          | None \<Rightarrow> ret (line, runs)) })"

section \<open>Truncation of wrapped lines\<close>

record 'u truncate_state =
  ts_width :: 'u
  ts_line :: nat
  ts_first_non_whitespace_ix :: "nat option"
  ts_last_candidate_ix :: nat
  ts_last_candidate_width :: 'u
  ts_last_wrap_ix :: nat
  ts_prev_c :: char
  ts_indent :: "nat option"
  ts_truncate_ix :: nat

definition truncate_state_new :: "'u::floor_ceiling truncate_state" where
  "truncate_state_new =
     \<lparr>ts_width = 0, ts_line = 0, ts_first_non_whitespace_ix = None, ts_last_candidate_ix = 0, ts_last_candidate_width = 0,
      ts_last_wrap_ix = 0, ts_prev_c = CHR 0x00, ts_indent = None, ts_truncate_ix = 0\<rparr>"

text \<open>\<open>MAX_INDENT.min((first - last) as u32)\<close>, if the indent is not known yet and there is a first character.\<close>

definition indent_from :: "nat option \<Rightarrow> nat option \<Rightarrow> nat \<Rightarrow> nat option rust" where
  "indent_from indent first_non_whitespace_ix last_wrap_ix =
     (case (indent, first_non_whitespace_ix) of
        (None, Some first) \<Rightarrow> do { d \<leftarrow> checked_minus first last_wrap_ix; ret (Some (min MAX_INDENT (d mod 2 ^ 32))) }
      | _ \<Rightarrow> ret indent)"

text \<open>The width of the indent, if there is one.\<close>

definition add_indent :: "('f, 'u) width_fun \<Rightarrow> nat option \<Rightarrow> 'u \<Rightarrow> (('u::floor_ceiling, 'f) line_wrapper, 'u) state" where
  "add_indent layout_width indent width =
     (case indent of
        Some n \<Rightarrow> do { x \<leftarrow> width_for_char layout_width (CHR '' ''); State_Monad.return (width + x * of_nat n) }
      | None \<Rightarrow> State_Monad.return width)"

text \<open>A new line before the last one.\<close>

definition truncate_newline :: "nat \<Rightarrow> 'u::floor_ceiling truncate_state \<Rightarrow> 'u truncate_state" where
  "truncate_newline ix st =
     \<lparr>ts_width = 0, ts_line = ts_line st + 1, ts_first_non_whitespace_ix = None, ts_last_candidate_ix = 0, ts_last_candidate_width = 0,
      ts_last_wrap_ix = ix + 1, ts_prev_c = CHR 0x00, ts_indent = None, ts_truncate_ix = ix + 1\<rparr>"

definition truncate_candidate :: "nat \<Rightarrow> char \<Rightarrow> 'u truncate_state \<Rightarrow> 'u truncate_state" where
  "truncate_candidate ix c st = (
     let candidate = st\<lparr>ts_last_candidate_ix := ix, ts_last_candidate_width := ts_width st\<rparr>;
         st = (if is_word_char c then (if ts_prev_c st = CHR '' '' \<and> ts_first_non_whitespace_ix st \<noteq> None then candidate else st)
           else if c \<noteq> CHR '' '' \<and> ts_first_non_whitespace_ix st \<noteq> None then candidate else st) in
     if c \<noteq> CHR '' '' \<and> ts_first_non_whitespace_ix st = None then st\<lparr>ts_first_non_whitespace_ix := Some ix\<rparr> else st)"

text \<open>A line before the last one is wrapped.\<close>

definition truncate_wrap ::
  "('f, 'u) width_fun \<Rightarrow> nat \<Rightarrow> 'u \<Rightarrow> 'u truncate_state \<Rightarrow> (('u::floor_ceiling, 'f) line_wrapper, 'u truncate_state rust) state" where
  "truncate_wrap layout_width ix char_width st =
     (case indent_from (ts_indent st) (ts_first_non_whitespace_ix st) (ts_last_wrap_ix st) of
        None \<Rightarrow> State_Monad.return panic
      | Some indent \<Rightarrow> (
          let st = (if ts_last_candidate_ix st > ts_last_wrap_ix st
            then st\<lparr>ts_last_wrap_ix := ts_last_candidate_ix st, ts_width := ts_width st - ts_last_candidate_width st, ts_last_candidate_ix := 0\<rparr>
            else st\<lparr>ts_last_wrap_ix := ix, ts_width := char_width\<rparr>) in do {
          width \<leftarrow> add_indent layout_width indent (ts_width st);
          State_Monad.return (ret (st\<lparr>ts_indent := indent, ts_width := width, ts_line := ts_line st + 1, ts_truncate_ix := ts_last_wrap_ix st\<rparr>)) }))"

fun truncate_wrapped_loop ::
  "('f, 'u) width_fun \<Rightarrow> string \<Rightarrow> 'u \<Rightarrow> nat \<Rightarrow> string \<Rightarrow> 'u \<Rightarrow> 'r text_run list \<Rightarrow> (nat \<times> char) list \<Rightarrow> 'u truncate_state \<Rightarrow>
   (('u::floor_ceiling, 'f) line_wrapper, (string \<times> 'r text_run list) rust) state" where
  "truncate_wrapped_loop layout_width text wrap_width max_lines affix affix_width runs [] st = State_Monad.return (ret (text, runs))"
| "truncate_wrapped_loop layout_width text wrap_width max_lines affix affix_width runs ((ix, c) # chars) st =
     (if c = CHR 0x0A then
        (case split_at_byte (ix + 1) text of
           None \<Rightarrow> State_Monad.return panic
         | Some (before, after) \<Rightarrow>
             if ts_line st \<ge> max_lines - 1 \<and> \<not> list_all is_whitespace after
             then State_Monad.return (truncate_at_end text (ts_truncate_ix st) affix runs)
             else truncate_wrapped_loop layout_width text wrap_width max_lines affix affix_width runs chars (truncate_newline ix st))
      else do {
        char_width \<leftarrow> width_for_char layout_width c;
        (let st = truncate_candidate ix c st; st = st\<lparr>ts_width := ts_width st + char_width\<rparr> in
         if ts_line st < max_lines - 1 then
           (if ts_width st > wrap_width \<and> ix > ts_last_wrap_ix st then do {
              r \<leftarrow> truncate_wrap layout_width ix char_width st;
              (case r of
                 None \<Rightarrow> State_Monad.return panic
               | Some st \<Rightarrow> truncate_wrapped_loop layout_width text wrap_width max_lines affix affix_width runs chars (st\<lparr>ts_prev_c := c\<rparr>)) }
            else truncate_wrapped_loop layout_width text wrap_width max_lines affix affix_width runs chars (st\<lparr>ts_prev_c := c\<rparr>))
         else
           (let st = (if ts_width st + affix_width \<le> wrap_width then st\<lparr>ts_truncate_ix := ix + char_len_utf8 c\<rparr> else st) in
            if ts_width st > wrap_width then State_Monad.return (truncate_at_end text (ts_truncate_ix st) affix runs)
            else truncate_wrapped_loop layout_width text wrap_width max_lines affix affix_width runs chars (st\<lparr>ts_prev_c := c\<rparr>))) })"

definition truncate_wrapped_line ::
  "('f, 'u) width_fun \<Rightarrow> string \<Rightarrow> 'u \<Rightarrow> nat \<Rightarrow> string \<Rightarrow> 'r text_run list \<Rightarrow> truncate_from \<Rightarrow>
   (('u::floor_ceiling, 'f) line_wrapper, (string \<times> 'r text_run list) rust) state" where
  "truncate_wrapped_line layout_width text wrap_width max_lines truncation_affix runs truncate_from =
     (if max_lines \<le> 1 \<or> truncate_from = Truncate_Start
      then truncate_line layout_width text (wrap_width * of_nat max_lines) truncation_affix runs truncate_from
      else if truncate_from = Truncate_Middle then truncate_line layout_width text wrap_width truncation_affix runs truncate_from
      else do {
        affix_width \<leftarrow> fold_widths layout_width 0 truncation_affix;
        truncate_wrapped_loop layout_width text wrap_width max_lines truncation_affix affix_width runs (char_indices text) truncate_state_new })"

section \<open>Wrapping\<close>

datatype 'u line_fragment = Fragment_Text string | Fragment_Element 'u nat

datatype 'u wrap_candidate = Candidate_Char char | Candidate_Element 'u nat

definition wrap_boundary_candidates :: "'u line_fragment \<Rightarrow> 'u wrap_candidate list" where
  "wrap_boundary_candidates self =
     (case self of Fragment_Text text \<Rightarrow> map Candidate_Char text | Fragment_Element width len_utf8 \<Rightarrow> [Candidate_Element width len_utf8])"

definition candidate_len :: "'u wrap_candidate \<Rightarrow> nat" where
  "candidate_len self = (case self of Candidate_Char character \<Rightarrow> char_len_utf8 character | Candidate_Element width len \<Rightarrow> len)"

record line_boundary =
  lb_ix :: nat
  lb_next_indent :: nat

definition boundary_new :: "nat \<Rightarrow> nat \<Rightarrow> line_boundary" where
  "boundary_new ix next_indent = \<lparr>lb_ix = ix, lb_next_indent = next_indent\<rparr>"

record 'u wrap_line_state =
  ls_width :: 'u
  ls_first_non_whitespace_ix :: "nat option"
  ls_indent :: "nat option"
  ls_last_candidate_ix :: nat
  ls_last_candidate_width :: 'u
  ls_last_wrap_ix :: nat
  ls_prev_c :: char
  ls_index :: nat

definition wrap_line_state_new :: "'u::floor_ceiling wrap_line_state" where
  "wrap_line_state_new =
     \<lparr>ls_width = 0, ls_first_non_whitespace_ix = None, ls_indent = None, ls_last_candidate_ix = 0, ls_last_candidate_width = 0,
      ls_last_wrap_ix = 0, ls_prev_c = CHR 0x00, ls_index = 0\<rparr>"

text \<open>What a character or an element says about where a line may end.\<close>

definition wrap_candidate_at :: "nat \<Rightarrow> 'u wrap_candidate \<Rightarrow> 'u wrap_line_state \<Rightarrow> 'u wrap_line_state" where
  "wrap_candidate_at ix candidate st = (
     let noted = st\<lparr>ls_last_candidate_ix := ix, ls_last_candidate_width := ls_width st\<rparr> in
     case candidate of
       Candidate_Char c \<Rightarrow> (
         let st = (if is_word_char c
               then (if ls_prev_c st = CHR '' '' \<and> c \<noteq> CHR '' '' \<and> ls_first_non_whitespace_ix st \<noteq> None then noted else st)
               else (if c \<noteq> CHR '' '' \<and> ls_first_non_whitespace_ix st \<noteq> None then noted else st)) in
         if c \<noteq> CHR '' '' \<and> ls_first_non_whitespace_ix st = None then st\<lparr>ls_first_non_whitespace_ix := Some ix\<rparr> else st)
     | Candidate_Element width len \<Rightarrow> (
         let st = (if ls_prev_c st = CHR '' '' \<and> ls_first_non_whitespace_ix st \<noteq> None then noted else st) in
         if ls_first_non_whitespace_ix st = None then st\<lparr>ls_first_non_whitespace_ix := Some ix\<rparr> else st))"

definition candidate_width :: "('f, 'u) width_fun \<Rightarrow> 'u wrap_candidate \<Rightarrow> (('u, 'f) line_wrapper, 'u) state" where
  "candidate_width layout_width candidate =
     (case candidate of Candidate_Char c \<Rightarrow> width_for_char layout_width c | Candidate_Element width len \<Rightarrow> State_Monad.return width)"

text \<open>A boundary is made; the character at which the line overflowed is not noted as the previous one.\<close>

definition wrap_line_break ::
  "('f, 'u) width_fun \<Rightarrow> nat \<Rightarrow> 'u \<Rightarrow> 'u wrap_line_state \<Rightarrow> (('u::floor_ceiling, 'f) line_wrapper, (line_boundary \<times> 'u wrap_line_state) rust) state" where
  "wrap_line_break layout_width ix item_width st =
     (case indent_from (ls_indent st) (ls_first_non_whitespace_ix st) (ls_last_wrap_ix st) of
        None \<Rightarrow> State_Monad.return panic
      | Some indent \<Rightarrow> (
          let st = (if ls_last_candidate_ix st > 0
            then st\<lparr>ls_last_wrap_ix := ls_last_candidate_ix st, ls_width := ls_width st - ls_last_candidate_width st, ls_last_candidate_ix := 0\<rparr>
            else st\<lparr>ls_last_wrap_ix := ix, ls_width := item_width\<rparr>) in do {
          width \<leftarrow> add_indent layout_width indent (ls_width st);
          State_Monad.return (ret (boundary_new (ls_last_wrap_ix st) (case indent of Some n \<Rightarrow> n | None \<Rightarrow> 0),
            st\<lparr>ls_indent := indent, ls_width := width\<rparr>)) }))"

text \<open>The iterator, run to its end.\<close>

fun wrap_line_loop ::
  "('f, 'u) width_fun \<Rightarrow> 'u \<Rightarrow> 'u wrap_candidate list \<Rightarrow> 'u wrap_line_state \<Rightarrow>
   (('u::floor_ceiling, 'f) line_wrapper, line_boundary list rust) state" where
  "wrap_line_loop layout_width wrap_width [] st = State_Monad.return (ret [])"
| "wrap_line_loop layout_width wrap_width (candidate # candidates) st = (
     let ix = ls_index st; st = st\<lparr>ls_index := ix + candidate_len candidate\<rparr> in
     if (case candidate of Candidate_Char c \<Rightarrow> c = CHR 0x0A | Candidate_Element width len \<Rightarrow> False)
     then wrap_line_loop layout_width wrap_width candidates st
     else let new_prev_c = (case candidate of Candidate_Char c \<Rightarrow> c | Candidate_Element width len \<Rightarrow> ls_prev_c st);
              st = wrap_candidate_at ix candidate st in do {
       item_width \<leftarrow> candidate_width layout_width candidate;
       (let st = st\<lparr>ls_width := ls_width st + item_width\<rparr> in
        if ls_width st > wrap_width \<and> ix > ls_last_wrap_ix st then do {
          r \<leftarrow> wrap_line_break layout_width ix item_width st;
          (case r of
             None \<Rightarrow> State_Monad.return panic
           | Some (boundary, st) \<Rightarrow> do {
               rest \<leftarrow> wrap_line_loop layout_width wrap_width candidates st;
               State_Monad.return (map_option ((#) boundary) rest) }) }
        else wrap_line_loop layout_width wrap_width candidates (st\<lparr>ls_prev_c := new_prev_c\<rparr>)) })"

definition wrap_line ::
  "('f, 'u) width_fun \<Rightarrow> 'u line_fragment list \<Rightarrow> 'u \<Rightarrow> (('u::floor_ceiling, 'f) line_wrapper, line_boundary list rust) state" where
  "wrap_line layout_width fragments wrap_width =
     wrap_line_loop layout_width wrap_width (concat (map wrap_boundary_candidates fragments)) wrap_line_state_new"

end
