(* ===== verification/Line_Truncation.thy ===== *)
theory Line_Truncation
  imports Line_Wrapper
begin

text \<open>
  What the line wrapper computes. \<open>computes\<close> says that a computation has one value whatever widths are cached already, and that it leaves a cache
  of true widths; with its rules the loops are followed as if every width came from the text system. Then truncated text fits, and the
  lengths of its runs add up to the length of the text.
\<close>

section \<open>The cache of widths\<close>

definition widths_ok :: "('f, 'u) width_fun \<Rightarrow> ('u, 'f) line_wrapper \<Rightarrow> bool" where
  "widths_ok layout_width self \<longleftrightarrow> length (cw_ascii (lr_char_widths self)) = 128 \<and>
     (\<forall>c x. code_point c < 128 \<longrightarrow> cw_ascii (lr_char_widths self) ! code_point c = Some x \<longrightarrow> x = layout_width (lr_font_id self) (lr_font_size self) c) \<and>
     (\<forall>c x. cw_other (lr_char_widths self) c = Some x \<longrightarrow> x = layout_width (lr_font_id self) (lr_font_size self) c)"

definition computes :: "('f, 'u) width_fun \<Rightarrow> 'f \<Rightarrow> 'u \<Rightarrow> (('u, 'f) line_wrapper, 'a) state \<Rightarrow> 'a \<Rightarrow> bool" where
  "computes layout_width font_id font_size m v \<longleftrightarrow> (\<forall>self. widths_ok layout_width self \<longrightarrow> lr_font_id self = font_id \<longrightarrow> lr_font_size self = font_size \<longrightarrow>
     (\<exists>self'. run_state m self = (v, self') \<and> widths_ok layout_width self' \<and> lr_font_id self' = font_id \<and> lr_font_size self' = font_size))"

lemma widths_ok_new: "widths_ok layout_width (line_wrapper_new font_id font_size char_width_cache_default)"
  by (simp add: widths_ok_def line_wrapper_new_def char_width_cache_default_def)

lemma gives_return [intro!]: "computes lw f s (State_Monad.return v) v"
  by (simp add: computes_def)

lemma gives_bind: "computes lw f s m a \<Longrightarrow> computes lw f s (k a) b \<Longrightarrow> computes lw f s (State_Monad.bind m k) b"
  by (fastforce simp: computes_def State_Monad.bind_def)

lemma code_point_inj: "code_point c = code_point d \<longleftrightarrow> c = d"
  by (simp add: code_point_def)

lemma gives_width: "computes lw f s (width_for_char lw c) (lw f s c)"
proof (clarsimp simp: computes_def)
  fix self assume ok: "widths_ok lw self" "f = lr_font_id self" "s = lr_font_size self"
  show "\<exists>self'. run_state (width_for_char lw c) self = (lw (lr_font_id self) (lr_font_size self) c, self') \<and> widths_ok lw self' \<and>
      lr_font_id self' = lr_font_id self \<and> lr_font_size self' = lr_font_size self"
    using ok(1) by (auto simp: width_for_char_def widths_ok_def nth_list_update code_point_inj split: option.splits)
qed

lemmas gives_width_bind = gives_bind [OF gives_width]

lemma gives_fold: "computes lw f s (fold_widths lw width chars) (width + sum_list (map (lw f s) chars))"
proof (induction chars arbitrary: width)
  case (Cons c chars)
  show ?case using Cons.IH [of "width + lw f s c"] by (simp add: add.assoc gives_width_bind)
qed (simp add: gives_return)

lemma gives_fold_bind:
  "computes lw f s (k (sum_list (map (lw f s) chars))) v \<Longrightarrow> computes lw f s (State_Monad.bind (fold_widths lw 0 chars) k) v"
  using gives_bind [OF gives_fold [of lw f s 0 chars]] by simp

section \<open>Indices into a string\<close>

lemma char_len_pos [simp]: "0 < char_len_utf8 c"
  by (simp add: char_len_utf8_def)

lemma str_len_simps [simp]: "str_len [] = 0" "str_len (c # s) = char_len_utf8 c + str_len s" "str_len (s @ t) = str_len s + str_len t" "str_len (rev s) = str_len s"
  by (simp_all add: str_len_def rev_map [symmetric])

lemma str_len_0 [simp]: "str_len s = 0 \<longleftrightarrow> s = []"
  by (cases s) (simp_all add: add_eq_0_iff_both_eq_0 less_not_refl2)

lemma split_at_byte_ok: "split_at_byte (str_len a) (a @ b) = ret (a, b)"
  by (induction a) (cases b; simp)+

lemma char_indices_split:
  assumes "char_indices_from n line = us @ (ix, c) # vs"
  shows "\<exists>a b. line = a @ c # b \<and> us = char_indices_from n a \<and> ix = n + str_len a \<and> vs = char_indices_from (ix + char_len_utf8 c) b"
  using assms
proof (induction line arbitrary: n us)
  case (Cons d line)
  show ?case
  proof (cases us)
    case Nil
    with Cons.prems show ?thesis by (auto intro!: exI [of _ "[]"])
  next
    case (Cons u us')
    with Cons.prems have "u = (n, d)" "char_indices_from (n + char_len_utf8 d) line = us' @ (ix, c) # vs" by simp_all
    from Cons.IH [OF this(2)] obtain a b where "line = a @ c # b" "us' = char_indices_from (n + char_len_utf8 d) a"
      "ix = n + char_len_utf8 d + str_len a" "vs = char_indices_from (ix + char_len_utf8 c) b" by blast
    with Cons \<open>u = _\<close> show ?thesis by - (rule exI [of _ "d # a"], rule exI [of _ b], simp)
  qed
qed simp

lemma char_indices_snd [simp]: "map snd (char_indices_from n line) = line"
  by (induction line arbitrary: n) simp_all

lemma ceil_char_boundary_ok: "ceil_char_boundary (a @ c # b) (str_len a + 1) = str_len a + char_len_utf8 c"
proof (induction a)
  case Nil
  have "ceil_char_boundary b (1 - char_len_utf8 c) = 0" by (cases b) (simp_all add: char_len_utf8_def)
  then show ?case by simp
next
  case (Cons d a)
  have "char_len_utf8 d + str_len a + 1 - char_len_utf8 d = str_len a + 1" by simp
  with Cons show ?case by simp
qed

lemma trim_end_append: "\<exists>rest. s = trim_end s @ rest"
proof -
  let ?P = "\<lambda>c. is_whitespace c \<or> is_ascii_punctuation c"
  have "s = rev (takeWhile ?P (rev s) @ dropWhile ?P (rev s))" by simp
  then show ?thesis by (metis rev_append trim_end_def)
qed

section \<open>Runs\<close>

abbreviation runs_len :: "'r text_run list \<Rightarrow> nat" where
  "runs_len runs \<equiv> sum_list (map tr_len runs)"

lemma keep_runs_len: "n < runs_len runs \<Longrightarrow> runs_len (keep_runs e n runs) = n + e"
  by (induction runs arbitrary: n) auto

lemma update_runs_len:
  assumes "str_len kept < runs_len runs" "truncate_from \<noteq> Truncate_Middle" "str_len result = str_len kept + str_len affix"
  obtains runs' where "update_runs_after_truncation result affix runs truncate_from = ret runs'" "runs_len runs' = str_len result"
  using assms keep_runs_len [of "str_len kept" runs "str_len affix"] keep_runs_len [of "str_len kept" "rev runs" "str_len affix"]
  by (cases truncate_from) (auto simp: update_runs_after_truncation_def checked_minus_ok rev_map [symmetric])

lemma front_runs_len:
  "n \<le> runs_len runs \<Longrightarrow> (case front_runs e n runs of (result, front_done) \<Rightarrow>
     runs_len result = n + (if front_done then e else 0) \<and> (\<not> front_done \<longrightarrow> result = runs \<and> n = runs_len runs))"
proof (induction runs arbitrary: n)
  case (Cons run runs)
  show ?case
  proof (cases "tr_len run \<le> n")
    case True
    with Cons.prems Cons.IH [of "n - tr_len run"] show ?thesis by (cases "front_runs e (n - tr_len run) runs") auto
  qed simp
qed simp

lemma back_runs_len: "runs_len (back_runs back_start byte_pos runs) = byte_pos + runs_len runs - max back_start byte_pos"
  by (induction runs arbitrary: byte_pos) (auto simp: max_def)

lemma update_runs_middle_len:
  assumes "front \<le> back" "back \<le> runs_len runs" "0 < runs_len runs"
  shows "runs_len (update_runs_after_middle_truncation affix front back runs) = front + str_len affix + (runs_len runs - back)"
proof -
  obtain result front_done where r: "front_runs (str_len affix) front runs = (result, front_done)" by fastforce
  have len: "runs_len result = front + (if front_done then str_len affix else 0)" "\<not> front_done \<Longrightarrow> result = runs"
    using front_runs_len [of front runs "str_len affix"] assms(1,2) r by auto
  have "runs \<noteq> []" using assms(3) by auto
  then show ?thesis
    using len r by (cases front_done; cases result rule: rev_cases) (auto simp: update_runs_after_middle_truncation_def back_runs_len)
qed

section \<open>Truncation\<close>

text \<open>The width of a text.\<close>

definition text_width :: "(char \<Rightarrow> 'u::floor_ceiling) \<Rightarrow> string \<Rightarrow> 'u" where
  "text_width w s = sum_list (map w s)"

lemma text_width_simps [simp]: "text_width w [] = 0" "text_width w (c # s) = w c + text_width w s" "text_width w (s @ t) = text_width w s + text_width w t"
  "text_width w (rev s) = text_width w s"
  by (simp_all add: text_width_def rev_map [symmetric])

lemma text_width_nonneg: "\<forall>c. 0 \<le> w c \<Longrightarrow> 0 \<le> text_width w s"
  by (induction s) (simp_all add: add_nonneg_nonneg)

lemma trim_end_width:
  assumes "\<forall>c. 0 \<le> w c"
  shows "text_width w (trim_end s) \<le> text_width w s" "str_len (trim_end s) \<le> str_len s"
proof -
  obtain rest where s: "s = trim_end s @ rest" using trim_end_append by blast
  show "text_width w (trim_end s) \<le> text_width w s"
    by (subst (2) s) (simp add: text_width_nonneg [OF assms])
  show "str_len (trim_end s) \<le> str_len s" by (subst (2) s) simp
qed

text \<open>Before the index there is room for the affix.\<close>

definition fits_before :: "(char \<Rightarrow> 'u::floor_ceiling) \<Rightarrow> 'u \<Rightarrow> 'u \<Rightarrow> (nat \<times> char) list \<Rightarrow> nat \<Rightarrow> bool" where
  "fits_before w truncate_width suffix_width chars ix \<longleftrightarrow>
     (\<exists>us c vs. chars = us @ (ix, c) # vs \<and> text_width w (map snd us) + suffix_width < truncate_width)"

lemma truncate_loop_gives:
  assumes "suffix_width < truncate_width"
  shows "width = text_width (lw f s) (map snd us) \<Longrightarrow> us = [] \<or> fits_before (lw f s) truncate_width suffix_width (us @ chars) truncate_ix \<Longrightarrow>
    us = [] \<or> of_int \<lfloor>width\<rfloor> \<le> truncate_width \<Longrightarrow>
    \<exists>v. computes lw f s (truncate_loop lw truncate_width suffix_width chars width truncate_ix) v \<and>
      (case v of Some ix \<Rightarrow> fits_before (lw f s) truncate_width suffix_width (us @ chars) ix
       | None \<Rightarrow> us @ chars = [] \<or> of_int \<lfloor>text_width (lw f s) (map snd (us @ chars))\<rfloor> \<le> truncate_width)"
proof (induction chars arbitrary: width us truncate_ix)
  case Nil
  then show ?case by (intro exI [of _ None]) (auto simp: gives_return)
next
  case (Cons p chars)
  obtain ix c where p: "p = (ix, c)" by fastforce
  define truncate_ix' where "truncate_ix' = (if width + suffix_width < truncate_width then ix else truncate_ix)"
  have fits: "fits_before (lw f s) truncate_width suffix_width (us @ p # chars) truncate_ix'"
  proof (cases "width + suffix_width < truncate_width")
    case True
    with Cons.prems(1) p show ?thesis by (auto simp: fits_before_def truncate_ix'_def)
  next
    case False
    with assms Cons.prems(1) have "us \<noteq> []" by auto
    with False Cons.prems(2) show ?thesis by (simp add: truncate_ix'_def)
  qed
  let ?width = "width + lw f s c"
  show ?case
  proof (cases "of_int \<lfloor>?width\<rfloor> > truncate_width")
    case True
    then show ?thesis using fits
      by (intro exI [of _ "Some truncate_ix'"]) (auto simp: p truncate_ix'_def intro!: gives_width_bind)
  next
    case False
    have "?width = text_width (lw f s) (map snd (us @ [p]))" using Cons.prems(1) p by simp
    moreover have "(us @ [p]) @ chars = us @ p # chars" by simp
    note Cons.IH [OF calculation, of truncate_ix', unfolded this]
    with False fits have
      "\<exists>v. computes lw f s (truncate_loop lw truncate_width suffix_width chars ?width truncate_ix') v \<and>
        (case v of Some ix \<Rightarrow> fits_before (lw f s) truncate_width suffix_width (us @ p # chars) ix
         | None \<Rightarrow> us @ p # chars = [] \<or> of_int \<lfloor>text_width (lw f s) (map snd (us @ p # chars))\<rfloor> \<le> truncate_width)"
      by (simp del: text_width_simps map_append)
    then obtain v where v: "computes lw f s (truncate_loop lw truncate_width suffix_width chars ?width truncate_ix') v"
      "case v of Some ix \<Rightarrow> fits_before (lw f s) truncate_width suffix_width (us @ p # chars) ix
       | None \<Rightarrow> us @ p # chars = [] \<or> of_int \<lfloor>text_width (lw f s) (map snd (us @ p # chars))\<rfloor> \<le> truncate_width"
      by blast
    have "computes lw f s (truncate_loop lw truncate_width suffix_width (p # chars) width truncate_ix) v"
      using False v(1) by (auto simp: p truncate_ix'_def intro!: gives_width_bind)
    with v(2) show ?thesis by blast
  qed
qed

text \<open>Cutting the text.\<close>

lemma truncate_at_end_ok:
  assumes "\<forall>c. 0 \<le> w c" "line = a @ b" "b \<noteq> []" "str_len line = runs_len runs"
  obtains kept dropped runs' where "truncate_at_end line (str_len a) affix runs = ret (kept @ affix, runs')" "line = kept @ dropped" "dropped \<noteq> []"
    "runs_len runs' = str_len (kept @ affix)" "text_width w kept \<le> text_width w a"
proof -
  obtain rest where rest: "a = trim_end a @ rest" using trim_end_append by blast
  have "0 < str_len b" using assms(3) by (simp add: neq0_conv [symmetric] del: neq0_conv)
  then have "str_len (trim_end a) < runs_len runs" using trim_end_width(2) [OF assms(1), of a] assms(2,4) by simp
  then obtain runs' where "update_runs_after_truncation (trim_end a @ affix) affix runs Truncate_End = ret runs'"
    "runs_len runs' = str_len (trim_end a @ affix)"
    using update_runs_len [of "trim_end a" runs Truncate_End "trim_end a @ affix" affix] by auto
  moreover have "line = trim_end a @ rest @ b" using assms(2) rest by simp
  ultimately show thesis
    using assms(2,3) trim_end_width(1) [OF assms(1), of a] by (intro that [of "trim_end a" runs' "rest @ b"]) (simp_all add: truncate_at_end_def split_at_byte_ok)
qed

lemma truncate_at_start_ok:
  assumes "line = a @ c # b" "str_len line = runs_len runs"
  obtains runs' where "truncate_at_start line (str_len a) affix runs = ret (affix @ b, runs')" "runs_len runs' = str_len (affix @ b)"
proof -
  have "str_len b < runs_len runs" using assms by (simp flip: assms(2))
  then obtain runs' where runs': "update_runs_after_truncation (affix @ b) affix runs Truncate_Start = ret runs'" "runs_len runs' = str_len (affix @ b)"
    using update_runs_len [of b runs Truncate_Start "affix @ b" affix] by auto
  have "split_at_byte (ceil_char_boundary line (str_len a + 1)) line = ret (a @ [c], b)"
    using split_at_byte_ok [of "a @ [c]" b] by (simp add: assms(1) ceil_char_boundary_ok del: One_nat_def add_Suc_right)
  with runs' show thesis by (intro that [of runs']) (simp_all add: truncate_at_start_def)
qed

lemma truncate_in_middle_ok:
  assumes "line = a @ m @ b" "str_len line = runs_len runs" "line \<noteq> []"
  obtains runs' where "truncate_in_middle line (str_len a) (str_len (a @ m)) affix runs = ret (a @ affix @ b, runs')"
    "runs_len runs' = str_len (a @ affix @ b)"
proof -
  let ?runs = "update_runs_after_middle_truncation affix (str_len a) (str_len (a @ m)) runs"
  have "0 < runs_len runs" using assms(2,3) by (simp flip: assms(2) add: neq0_conv [symmetric] del: neq0_conv)
  then have "runs_len ?runs = str_len (a @ affix @ b)"
    using update_runs_middle_len [of "str_len a" "str_len (a @ m)" runs affix] by (simp add: assms(1) flip: assms(2))
  moreover have "split_at_byte (str_len (a @ m)) line = ret (a @ m, b)" "split_at_byte (str_len a) line = ret (a, m @ b)"
    using split_at_byte_ok [of "a @ m" b] split_at_byte_ok [of a "m @ b"] by (simp_all add: assms(1) del: str_len_simps)
  ultimately show thesis by (intro that [of ?runs]) (simp_all add: truncate_in_middle_def del: str_len_simps)
qed

text \<open>The two loops for a truncation in the middle.\<close>

lemma front_loop_gives:
  "text_width (lw f s) pre \<le> budget \<Longrightarrow> \<exists>a b. pre @ chars = a @ b \<and> text_width (lw f s) a \<le> budget \<and>
     computes lw f s (front_loop lw budget (char_indices_from (str_len pre) chars) (text_width (lw f s) pre) (str_len pre)) (str_len a)"
proof (induction chars arbitrary: pre)
  case Nil
  then show ?case by (intro exI [of _ pre] exI [of _ "[]"]) (auto simp: gives_return)
next
  case (Cons c chars)
  show ?case
  proof (cases "text_width (lw f s) pre + lw f s c > budget")
    case True
    with Cons.prems show ?thesis by - (rule exI [of _ pre], rule exI [of _ "c # chars"], auto intro!: gives_width_bind)
  next
    case False
    with Cons.IH [of "pre @ [c]"] obtain a b where "pre @ c # chars = a @ b" "text_width (lw f s) a \<le> budget"
      "computes lw f s (front_loop lw budget (char_indices_from (str_len pre + char_len_utf8 c) chars) (text_width (lw f s) pre + lw f s c)
        (str_len pre + char_len_utf8 c)) (str_len a)" by auto
    with False show ?thesis by (intro exI [of _ a] exI [of _ b]) (auto intro!: gives_width_bind)
  qed
qed

lemma char_indices_snoc: "char_indices_from n (s @ [c]) = char_indices_from n s @ [(n + str_len s, c)]"
  by (induction s arbitrary: n) (simp_all add: add.assoc)

lemma back_loop_gives:
  "text_width (lw f s) post \<le> budget \<Longrightarrow> \<exists>a b. chars @ post = a @ b \<and> text_width (lw f s) b \<le> budget \<and>
     computes lw f s (back_loop lw budget (rev (char_indices chars)) (text_width (lw f s) post) (str_len chars)) (str_len a)"
proof (induction chars arbitrary: post rule: rev_induct)
  case Nil
  then show ?case by (intro exI [of _ "[]"] exI [of _ post]) (auto simp: gives_return)
next
  case (snoc c chars)
  show ?case
  proof (cases "text_width (lw f s) post + lw f s c > budget")
    case True
    with snoc.prems show ?thesis
      by (intro exI [of _ "chars @ [c]"] exI [of _ post]) (auto simp: char_indices_snoc intro!: gives_width_bind)
  next
    case False
    with snoc.IH [of "c # post"] obtain a b where "chars @ c # post = a @ b" "text_width (lw f s) b \<le> budget"
      "computes lw f s (back_loop lw budget (rev (char_indices chars)) (text_width (lw f s) post + lw f s c) (str_len chars)) (str_len a)"
      by (auto simp: add.commute)
    with False show ?thesis by (intro exI [of _ a] exI [of _ b]) (auto simp: char_indices_snoc intro!: gives_width_bind)
  qed
qed

text \<open>A part of the text is replaced by the affix.\<close>

definition replaced :: "string \<Rightarrow> string \<Rightarrow> truncate_from \<Rightarrow> string \<Rightarrow> bool" where
  "replaced line affix truncate_from result \<longleftrightarrow>
     (case truncate_from of
        Truncate_Start \<Rightarrow> \<exists>a b. line = a @ b \<and> a \<noteq> [] \<and> result = affix @ b
      | Truncate_End \<Rightarrow> \<exists>a b. line = a @ b \<and> b \<noteq> [] \<and> result = a @ affix
      | Truncate_Middle \<Rightarrow> \<exists>a m b. line = a @ m @ b \<and> m \<noteq> [] \<and> result = a @ affix @ b)"

definition middle_fits :: "(char \<Rightarrow> 'u::floor_ceiling) \<Rightarrow> 'u \<Rightarrow> string \<Rightarrow> string \<Rightarrow> (nat \<times> nat) option \<Rightarrow> bool" where
  "middle_fits w truncate_width affix line r \<longleftrightarrow>
     (case r of
        None \<Rightarrow> text_width w line \<le> truncate_width
      | Some (front, back) \<Rightarrow> \<exists>a m b. line = a @ m @ b \<and> m \<noteq> [] \<and> front = str_len a \<and> back = str_len (a @ m) \<and>
          text_width w (a @ affix @ b) \<le> truncate_width)"

lemma middle_gives:
  assumes "\<forall>c. 0 \<le> lw f s c" "text_width (lw f s) affix < truncate_width"
  shows "\<exists>r. computes lw f s (should_truncate_line_middle lw line truncate_width affix) r \<and> middle_fits (lw f s) truncate_width affix line r"
proof (cases "text_width (lw f s) line \<le> truncate_width")
  case True
  then show ?thesis
    by (intro exI [of _ None]) (auto simp: middle_fits_def should_truncate_line_middle_def text_width_def intro!: gives_fold_bind)
next
  case False
  let ?w = "text_width (lw f s)"
  define budget where "budget = truncate_width - ?w affix"
  define front_budget where "front_budget = budget * (2 / 3)"
  have budget: "0 < budget" "0 \<le> front_budget" "0 \<le> budget - front_budget" using assms(2) by (simp_all add: budget_def front_budget_def)
  obtain a1 b1 where ahead: "line = a1 @ b1" "?w a1 \<le> front_budget"
    "computes lw f s (front_loop lw front_budget (char_indices line) 0 0) (str_len a1)"
    using front_loop_gives [of lw f s "[]" front_budget line] budget(2) by auto
  obtain a2 b2 where behind: "line = a2 @ b2" "?w b2 \<le> budget - front_budget"
    "computes lw f s (back_loop lw (budget - front_budget) (rev (char_indices line)) 0 (str_len line)) (str_len a2)"
    using back_loop_gives [of lw f s "[]" "budget - front_budget" line] budget(3) by auto
  define r where "r = (if str_len a2 \<le> str_len a1 then Some (0, str_len line) else Some (str_len a1, str_len a2))"
  have "computes lw f s (should_truncate_line_middle lw line truncate_width affix) r"
    unfolding should_truncate_line_middle_def
  proof (rule gives_fold_bind, rule gives_fold_bind, fold text_width_def)
    have "(?w line \<le> truncate_width) = False" "(budget \<le> 0) = False" using False budget(1) by simp_all
    then show "computes lw f s (if ?w line \<le> truncate_width then State_Monad.return None
      else let content_budget = truncate_width - ?w affix in
        if content_budget \<le> 0 then State_Monad.return (Some (0, str_len line))
        else let front_budget = content_budget * (2 / 3); back_budget = content_budget - front_budget in do {
          front_end_ix \<leftarrow> front_loop lw front_budget (char_indices line) 0 0;
          back_start_ix \<leftarrow> back_loop lw back_budget (rev (char_indices line)) 0 (str_len line);
          (if front_end_ix \<ge> back_start_ix then State_Monad.return (Some (0, str_len line))
           else State_Monad.return (Some (front_end_ix, back_start_ix))) }) r"
      unfolding Let_def budget_def [symmetric] front_budget_def [symmetric]
      by (simp only: if_False) (rule gives_bind [OF ahead(3)], rule gives_bind [OF behind(3)], simp add: r_def gives_return)
  qed
  moreover have "middle_fits (lw f s) truncate_width affix line r"
  proof (cases "str_len a2 \<le> str_len a1")
    case True
    moreover have "line \<noteq> []" using False assms text_width_nonneg [of "lw f s" affix] by auto
    ultimately have "\<exists>a m b. line = a @ m @ b \<and> m \<noteq> [] \<and> 0 = str_len a \<and> str_len line = str_len (a @ m) \<and> ?w (a @ affix @ b) \<le> truncate_width"
      using assms(2) by - (rule exI [of _ "[]"], rule exI [of _ line], rule exI [of _ "[]"], simp)
    then show ?thesis using True by (simp only: middle_fits_def r_def if_True option.case prod.case)
  next
    case False
    with ahead(1) behind(1) obtain m where m: "a2 = a1 @ m" by (auto simp: append_eq_append_conv2)
    then have "m \<noteq> []" "?w (a1 @ affix @ b2) \<le> truncate_width"
      using False ahead(2) behind(2) by (auto simp: budget_def)
    with False m behind(1) show ?thesis
      by (simp add: middle_fits_def r_def) (rule exI [of _ a1], rule exI [of _ m], simp)
  qed
  ultimately show ?thesis by blast
qed

lemma should_truncate_gives:
  assumes "text_width (lw f s) affix < truncate_width" "truncate_from \<noteq> Truncate_Middle"
    and "chars = (if truncate_from = Truncate_Start then rev (char_indices line) else char_indices line)"
    and "0 \<le> text_width (lw f s) affix"
  obtains v where "computes lw f s (should_truncate_line lw line truncate_width affix truncate_from) v"
    "case v of Some ix \<Rightarrow> fits_before (lw f s) truncate_width (text_width (lw f s) affix) chars ix
     | None \<Rightarrow> of_int \<lfloor>text_width (lw f s) line\<rfloor> \<le> truncate_width"
proof -
  from truncate_loop_gives [OF assms(1), of 0 lw f s "[]" chars 0, unfolded append_Nil]
  obtain v where v: "computes lw f s (truncate_loop lw truncate_width (text_width (lw f s) affix) chars 0 0) v"
    "case v of Some ix \<Rightarrow> fits_before (lw f s) truncate_width (text_width (lw f s) affix) chars ix
     | None \<Rightarrow> chars = [] \<or> of_int \<lfloor>text_width (lw f s) (map snd chars)\<rfloor> \<le> truncate_width"
    by auto
  have "computes lw f s (should_truncate_line lw line truncate_width affix truncate_from) v"
    using v(1) assms(2,3) by (cases truncate_from) (simp_all add: should_truncate_line_def gives_fold_bind text_width_def)
  moreover have width: "text_width (lw f s) (map snd chars) = text_width (lw f s) line"
    using assms(3) by (simp add: rev_map [symmetric])
  have "chars = [] \<Longrightarrow> text_width (lw f s) line = 0" using width by simp
  with v(2) width have "case v of Some ix \<Rightarrow> fits_before (lw f s) truncate_width (text_width (lw f s) affix) chars ix
     | None \<Rightarrow> of_int \<lfloor>text_width (lw f s) line\<rfloor> \<le> truncate_width"
    using assms(1,4) by (cases v) auto
  ultimately show thesis by (rule that)
qed

text \<open>What a truncation promises: the text fits as it is, or a part of it was replaced and it fits now; the runs cover it.\<close>

definition truncated_ok ::
  "(char \<Rightarrow> 'u::floor_ceiling) \<Rightarrow> 'u \<Rightarrow> string \<Rightarrow> string \<Rightarrow> truncate_from \<Rightarrow> 'r text_run list \<Rightarrow> string \<Rightarrow> 'r text_run list \<Rightarrow> bool" where
  "truncated_ok w truncate_width line affix truncate_from runs result runs' \<longleftrightarrow> runs_len runs' = str_len result \<and>
     (result = line \<and> runs' = runs \<and> of_int \<lfloor>text_width w line\<rfloor> \<le> truncate_width \<or>
      replaced line affix truncate_from result \<and> text_width w result \<le> truncate_width)"

lemma truncated_unchanged:
  "str_len line = runs_len runs \<Longrightarrow> of_int \<lfloor>text_width w line\<rfloor> \<le> truncate_width \<Longrightarrow>
    truncated_ok w truncate_width line affix truncate_from runs line runs"
  by (simp add: truncated_ok_def)

lemma truncate_middle_gives:
  assumes "\<forall>c. 0 \<le> lw f s c" "text_width (lw f s) affix < truncate_width" "str_len line = runs_len runs"
  shows "\<exists>result runs'. computes lw f s (truncate_line lw line truncate_width affix runs Truncate_Middle) (ret (result, runs')) \<and>
    truncated_ok (lw f s) truncate_width line affix Truncate_Middle runs result runs'"
proof -
  obtain r where r: "computes lw f s (should_truncate_line_middle lw line truncate_width affix) r" "middle_fits (lw f s) truncate_width affix line r"
    using middle_gives [where lw = lw and f = f and s = s, OF assms(1,2), of line] by blast
  have run: "computes lw f s (truncate_line lw line truncate_width affix runs Truncate_Middle) (case r of
      Some (front_end_ix, back_start_ix) \<Rightarrow> truncate_in_middle line front_end_ix back_start_ix affix runs | None \<Rightarrow> ret (line, runs))"
    unfolding truncate_line_def by (simp only: if_True simp_thms) (rule gives_bind [OF r(1) gives_return])
  show ?thesis
  proof (cases r)
    case None
    with r(2) have "text_width (lw f s) line \<le> truncate_width" by (simp add: middle_fits_def)
    then have "of_int \<lfloor>text_width (lw f s) line\<rfloor> \<le> truncate_width" using of_int_floor_le order_trans by blast
    then have "truncated_ok (lw f s) truncate_width line affix Truncate_Middle runs line runs" by (rule truncated_unchanged [OF assms(3)])
    with None run show ?thesis by (intro exI [of _ line] exI [of _ runs]) simp
  next
    case (Some p)
    with r(2) obtain a m b where split: "line = a @ m @ b" "m \<noteq> []" "p = (str_len a, str_len (a @ m))"
      "text_width (lw f s) (a @ affix @ b) \<le> truncate_width"
      by (cases p) (auto simp: middle_fits_def simp del: str_len_simps text_width_simps)
    obtain runs' where "truncate_in_middle line (str_len a) (str_len (a @ m)) affix runs = ret (a @ affix @ b, runs')"
      "runs_len runs' = str_len (a @ affix @ b)"
      using truncate_in_middle_ok [OF split(1) assms(3)] split(1,2) by auto
    moreover have "replaced line affix Truncate_Middle (a @ affix @ b)" using split(1,2) by (auto simp: replaced_def)
    ultimately show ?thesis using run Some split(3,4)
      by (intro exI [of _ "a @ affix @ b"] exI [of _ runs']) (simp add: truncated_ok_def del: str_len_simps text_width_simps)
  qed
qed

lemma truncate_line_gives:
  assumes "\<forall>c. 0 \<le> lw f s c" "text_width (lw f s) affix < truncate_width" "str_len line = runs_len runs"
  shows "\<exists>result runs'. computes lw f s (truncate_line lw line truncate_width affix runs truncate_from) (ret (result, runs')) \<and>
    truncated_ok (lw f s) truncate_width line affix truncate_from runs result runs'"
proof (cases "truncate_from = Truncate_Middle")
  case True
  with truncate_middle_gives [where lw = lw and f = f and s = s, OF assms] show ?thesis by simp
next
  case False
  let ?w = "text_width (lw f s)"
  define chars where "chars = (if truncate_from = Truncate_Start then rev (char_indices line) else char_indices line)"
  obtain v where v: "computes lw f s (should_truncate_line lw line truncate_width affix truncate_from) v"
    "case v of Some ix \<Rightarrow> fits_before (lw f s) truncate_width (?w affix) chars ix | None \<Rightarrow> of_int \<lfloor>?w line\<rfloor> \<le> truncate_width"
    using should_truncate_gives [where lw = lw and f = f and s = s, OF assms(2) False chars_def text_width_nonneg [OF assms(1)]] .
  have run: "computes lw f s (truncate_line lw line truncate_width affix runs truncate_from) (case v of
      Some truncate_ix \<Rightarrow> (case truncate_from of
          Truncate_Start \<Rightarrow> truncate_at_start line truncate_ix affix runs | Truncate_End \<Rightarrow> truncate_at_end line truncate_ix affix runs
        | Truncate_Middle \<Rightarrow> panic)
    | None \<Rightarrow> ret (line, runs))"
    unfolding truncate_line_def using False by (simp only: if_False) (rule gives_bind [OF v(1) gives_return])
  show ?thesis
  proof (cases v)
    case None
    with v(2) have "of_int \<lfloor>?w line\<rfloor> \<le> truncate_width" by simp
    then have "truncated_ok (lw f s) truncate_width line affix truncate_from runs line runs" by (rule truncated_unchanged [OF assms(3)])
    with None run show ?thesis by (intro exI [of _ line] exI [of _ runs]) simp
  next
    case (Some ix)
    with v(2) obtain us c vs where at: "chars = us @ (ix, c) # vs" "?w (map snd us) + ?w affix < truncate_width"
      by (auto simp: fits_before_def)
    show ?thesis
    proof (cases "truncate_from = Truncate_Start")
      case True
      with at(1) have "char_indices line = rev vs @ (ix, c) # rev us" by (simp add: chars_def rev_swap)
      from char_indices_split [OF this] obtain a b where line: "line = a @ c # b" "ix = str_len a" "rev us = char_indices_from (ix + char_len_utf8 c) b"
        by auto
      have "?w b = ?w (map snd us)" by (metis line(3) char_indices_snd rev_map text_width_simps(4))
      obtain runs' where "truncate_at_start line (str_len a) affix runs = ret (affix @ b, runs')" "runs_len runs' = str_len (affix @ b)"
        using truncate_at_start_ok [OF line(1) assms(3)] .
      moreover have "replaced line affix Truncate_Start (affix @ b)" using line(1) by (auto simp: replaced_def intro!: exI [of _ "a @ [c]"])
      ultimately show ?thesis using run Some True line(2) at(2) \<open>?w b = _\<close>
        by (intro exI [of _ "affix @ b"] exI [of _ runs']) (simp add: truncated_ok_def)
    next
      case other: False
      with False have "truncate_from = Truncate_End" by (cases truncate_from) simp_all
      note from_end = this
      with at(1) have "char_indices line = us @ (ix, c) # vs" by (simp add: chars_def)
      from char_indices_split [OF this] obtain a b where line: "line = a @ c # b" "ix = str_len a" "us = char_indices a" by auto
      then have "?w a = ?w (map snd us)" by simp
      obtain kept dropped runs' where cut: "truncate_at_end line (str_len a) affix runs = ret (kept @ affix, runs')" "line = kept @ dropped"
        "dropped \<noteq> []" "runs_len runs' = str_len (kept @ affix)" "?w kept \<le> ?w a"
        using truncate_at_end_ok [OF assms(1) line(1) list.discI [OF refl] assms(3), of affix thesis] by blast
      have "replaced line affix Truncate_End (kept @ affix)" using cut(2,3) by (auto simp: replaced_def)
      then show ?thesis using run Some from_end line(2) at(2) cut(1,4,5) \<open>?w a = _\<close>
        by (intro exI [of _ "kept @ affix"] exI [of _ runs']) (simp add: truncated_ok_def)
    qed
  qed
qed

end
