(* ===== verification/Line_Breaks.thy ===== *)
theory Line_Breaks
  imports Line_Truncation
begin

text \<open>
  The loop of the line wrapper that truncates a text to a number of lines, and where the iterator over the boundaries of a line that is made
  of text and elements keeps its candidates.
\<close>

section \<open>Truncation of wrapped lines\<close>

definition at_prefix :: "string \<Rightarrow> nat \<Rightarrow> bool" where
  "at_prefix pre ix \<longleftrightarrow> (\<exists>a b. pre = a @ b \<and> ix = str_len a)"

lemma at_prefixI [intro!]: "at_prefix pre 0" "at_prefix pre (str_len pre)"
  unfolding at_prefix_def by (rule exI [of _ "[]"], simp) (rule exI [of _ pre], simp)

lemma at_prefix_le: "at_prefix pre ix \<Longrightarrow> ix \<le> str_len pre"
  by (auto simp: at_prefix_def)

lemma at_prefix_append: "at_prefix pre ix \<Longrightarrow> at_prefix (pre @ rest) ix"
  by (force simp: at_prefix_def)

definition cut_inv :: "string \<Rightarrow> 'u truncate_state \<Rightarrow> bool" where
  "cut_inv pre st \<longleftrightarrow> at_prefix pre (ts_truncate_ix st) \<and> at_prefix pre (ts_last_wrap_ix st) \<and> at_prefix pre (ts_last_candidate_ix st) \<and>
     (ts_indent st = None \<longrightarrow> (\<forall>f. ts_first_non_whitespace_ix st = Some f \<longrightarrow> ts_last_wrap_ix st \<le> f))"

lemma cut_inv_simps [simp]: "cut_inv pre (st\<lparr>ts_width := x\<rparr>) = cut_inv pre st" "cut_inv pre (st\<lparr>ts_prev_c := c\<rparr>) = cut_inv pre st"
  by (simp_all add: cut_inv_def)

lemma cut_inv_append: "cut_inv pre st \<Longrightarrow> cut_inv (pre @ rest) st"
  by (simp add: cut_inv_def at_prefix_append)

lemma cut_inv_new: "cut_inv pre truncate_state_new"
  by (auto simp: cut_inv_def truncate_state_new_def)

lemma cut_inv_newline: "cut_inv (pre @ [CHR 0x0A]) (truncate_newline (str_len pre) st)"
proof -
  have "at_prefix (pre @ [CHR 0x0A]) (Suc (str_len pre))"
    using at_prefixI(2) [of "pre @ [CHR 0x0A]"] by (simp add: char_len_utf8_def code_point_def)
  then show ?thesis by (auto simp: cut_inv_def truncate_newline_def)
qed

lemma cut_inv_candidate: "cut_inv pre st \<Longrightarrow> cut_inv pre (truncate_candidate (str_len pre) c st)"
  by (auto simp: cut_inv_def truncate_candidate_def dest: at_prefix_le)

lemma cut_inv_truncate: "cut_inv pre st \<Longrightarrow> at_prefix pre ix \<Longrightarrow> cut_inv pre (st\<lparr>ts_truncate_ix := ix\<rparr>)"
  by (simp add: cut_inv_def)

definition indent_width :: "'u::floor_ceiling \<Rightarrow> nat option \<Rightarrow> 'u" where
  "indent_width space indent = (case indent of Some n \<Rightarrow> space * of_nat n | None \<Rightarrow> 0)"

lemma gives_indent: "computes lw f s (add_indent lw indent width) (width + indent_width (lw f s (CHR '' '')) indent)"
  by (cases indent) (auto simp: add_indent_def indent_width_def intro!: gives_width_bind)

lemma indent_from_ok:
  assumes "indent = None \<Longrightarrow> \<forall>first. first_ix = Some first \<longrightarrow> last_ix \<le> first" "pred_option (\<lambda>n. n \<le> MAX_INDENT) indent"
  obtains indent' where "indent_from indent first_ix last_ix = ret indent'" "indent' = None \<Longrightarrow> first_ix = None"
    "pred_option (\<lambda>n. n \<le> MAX_INDENT) indent'"
  using assms by (cases indent; cases first_ix) (auto simp: indent_from_def checked_minus_ok)

lemma indent_from_returns:
  assumes "indent = None \<Longrightarrow> \<forall>first. first_ix = Some first \<longrightarrow> last_ix \<le> first"
  obtains indent' where "indent_from indent first_ix last_ix = ret indent'" "indent' = None \<Longrightarrow> first_ix = None"
  using assms by (cases indent; cases first_ix) (auto simp: indent_from_def checked_minus_ok)

lemma truncate_wrap_gives:
  assumes "cut_inv pre st"
  obtains st' where "computes lw f s (truncate_wrap lw (str_len pre) char_width st) (ret st')" "cut_inv pre st'"
proof -
  obtain indent where indent: "indent_from (ts_indent st) (ts_first_non_whitespace_ix st) (ts_last_wrap_ix st) = ret indent"
    "indent = None \<Longrightarrow> ts_first_non_whitespace_ix st = None"
    using indent_from_returns [of "ts_indent st" "ts_first_non_whitespace_ix st" "ts_last_wrap_ix st"] assms by (auto simp: cut_inv_def)
  define st1 where "st1 = (if ts_last_candidate_ix st > ts_last_wrap_ix st
    then st\<lparr>ts_last_wrap_ix := ts_last_candidate_ix st, ts_width := ts_width st - ts_last_candidate_width st, ts_last_candidate_ix := 0\<rparr>
    else st\<lparr>ts_last_wrap_ix := str_len pre, ts_width := char_width\<rparr>)"
  obtain x where x: "computes lw f s (add_indent lw indent (ts_width st1)) x" using gives_indent [of lw f s indent "ts_width st1"] by blast
  let ?st = "st1\<lparr>ts_indent := indent, ts_width := x, ts_line := ts_line st1 + 1, ts_truncate_ix := ts_last_wrap_ix st1\<rparr>"
  have "computes lw f s (truncate_wrap lw (str_len pre) char_width st) (ret ?st)"
    unfolding truncate_wrap_def indent(1) option.case Let_def st1_def [symmetric] by (rule gives_bind [OF x gives_return])
  moreover have "cut_inv pre ?st" using assms indent(2) by (auto simp: cut_inv_def st1_def)
  ultimately show thesis by (rule that)
qed

text \<open>A truncation in front of a character that has been read.\<close>

lemma truncate_at_prefix:
  fixes w :: "char \<Rightarrow> 'u::floor_ceiling"
  assumes "\<forall>c. 0 \<le> w c" "str_len (pre @ c # rest) = runs_len runs" "at_prefix pre ix"
  obtains result runs' where "truncate_at_end (pre @ c # rest) ix affix runs = ret (result, runs')" "runs_len runs' = str_len result"
    "replaced (pre @ c # rest) affix Truncate_End result"
proof -
  obtain a b where "pre = a @ b" "ix = str_len a" using assms(3) by (auto simp: at_prefix_def)
  then have split: "pre @ c # rest = a @ b @ c # rest" by simp
  obtain kept dropped runs' where "truncate_at_end (pre @ c # rest) (str_len a) affix runs = ret (kept @ affix, runs')"
    "pre @ c # rest = kept @ dropped" "dropped \<noteq> []" "runs_len runs' = str_len (kept @ affix)"
    using truncate_at_end_ok [OF assms(1) split _ assms(2)] by blast
  then show thesis using \<open>ix = _\<close> by (intro that [of "kept @ affix" runs']) (auto simp: replaced_def)
qed

definition wrapped_ok :: "string \<Rightarrow> string \<Rightarrow> 'r text_run list \<Rightarrow> string \<Rightarrow> 'r text_run list \<Rightarrow> bool" where
  "wrapped_ok line affix runs result runs' \<longleftrightarrow> runs_len runs' = str_len result \<and>
     (result = line \<and> runs' = runs \<or> replaced line affix Truncate_End result)"

lemma truncate_wrapped_loop_gives:
  assumes "\<forall>c. 0 \<le> lw f s c" "str_len line = runs_len runs" "0 \<le> affix_width"
  shows "line = pre @ chars \<Longrightarrow> cut_inv pre st \<Longrightarrow> \<exists>result runs'.
    computes lw f s (truncate_wrapped_loop lw line wrap_width max_lines affix affix_width runs (char_indices_from (str_len pre) chars) st) (ret (result, runs')) \<and>
    wrapped_ok line affix runs result runs'"
proof (induction chars arbitrary: pre st)
  case Nil
  then show ?case using assms(2) by (intro exI [of _ line] exI [of _ runs]) (auto simp: wrapped_ok_def)
next
  case (Cons c chars)
  let ?loop = "truncate_wrapped_loop lw line wrap_width max_lines affix affix_width runs"
  have IH: "\<exists>result runs'. computes lw f s (?loop (char_indices_from (str_len pre + char_len_utf8 c) chars) st') (ret (result, runs')) \<and>
      wrapped_ok line affix runs result runs'" if "cut_inv (pre @ [c]) st'" for st'
    using Cons.IH [of "pre @ [c]" st'] Cons.prems(1) that by simp
  have cut: "\<exists>result runs'. truncate_at_end line ix affix runs = ret (result, runs') \<and> wrapped_ok line affix runs result runs'" if "at_prefix pre ix" for ix
    using truncate_at_prefix [OF assms(1) _ that, of c chars runs affix] assms(2) Cons.prems(1) by (metis wrapped_ok_def)
  show ?case
  proof (cases "c = CHR 0x0A")
    case True
    have split: "split_at_byte (str_len pre + 1) line = ret (pre @ [c], chars)"
      using split_at_byte_ok [of "pre @ [c]" chars] Cons.prems(1) True by (simp add: char_len_utf8_def code_point_def)
    show ?thesis
    proof (cases "ts_line st \<ge> max_lines - 1 \<and> \<not> list_all is_whitespace chars")
      case stop: True
      have "at_prefix pre (ts_truncate_ix st)" using Cons.prems(2) by (simp add: cut_inv_def)
      from cut [OF this] obtain result runs' where "truncate_at_end line (ts_truncate_ix st) affix runs = ret (result, runs')"
        "wrapped_ok line affix runs result runs'" by blast
      with True stop split show ?thesis by (intro exI [of _ result] exI [of _ runs']) (simp add: gives_return)
    next
      case go: False
      obtain result runs' where "computes lw f s (?loop (char_indices_from (str_len pre + char_len_utf8 c) chars) (truncate_newline (str_len pre) st)) (ret (result, runs'))"
        "wrapped_ok line affix runs result runs'" using IH [of "truncate_newline (str_len pre) st"] cut_inv_newline [of pre st] True by auto
      with True go split show ?thesis by (intro exI [of _ result] exI [of _ runs']) auto
    qed
  next
    case False
    define st1 where "st1 = (truncate_candidate (str_len pre) c st)\<lparr>ts_width := ts_width (truncate_candidate (str_len pre) c st) + lw f s c\<rparr>"
    have inv1: "cut_inv pre st1" using cut_inv_candidate [OF Cons.prems(2)] by (simp add: st1_def)
    note inv1' = cut_inv_append [OF inv1, of "[c]"]
    obtain st2 where wrap: "computes lw f s (truncate_wrap lw (str_len pre) (lw f s c) st1) (ret st2)" "cut_inv pre st2"
      using truncate_wrap_gives [OF inv1] .
    define st3 where "st3 = (if ts_width st1 + affix_width \<le> wrap_width then st1\<lparr>ts_truncate_ix := str_len pre + char_len_utf8 c\<rparr> else st1)"
    have inv3: "cut_inv (pre @ [c]) st3"
      using inv1' at_prefixI(2) [of "pre @ [c]"] by (simp add: st3_def cut_inv_truncate)
    have step: "computes lw f s (?loop ((str_len pre, c) # char_indices_from (str_len pre + char_len_utf8 c) chars) st) r"
      if "computes lw f s (if ts_line st1 < max_lines - 1 then
          (if ts_width st1 > wrap_width \<and> str_len pre > ts_last_wrap_ix st1 then do {
             r \<leftarrow> truncate_wrap lw (str_len pre) (lw f s c) st1;
             (case r of
                None \<Rightarrow> State_Monad.return panic
              | Some st \<Rightarrow> ?loop (char_indices_from (str_len pre + char_len_utf8 c) chars) (st\<lparr>ts_prev_c := c\<rparr>)) }
           else ?loop (char_indices_from (str_len pre + char_len_utf8 c) chars) (st1\<lparr>ts_prev_c := c\<rparr>))
        else if ts_width st1 > wrap_width then State_Monad.return (truncate_at_end line (ts_truncate_ix st3) affix runs)
        else ?loop (char_indices_from (str_len pre + char_len_utf8 c) chars) (st3\<lparr>ts_prev_c := c\<rparr>)) r" for r
    proof -
      have width: "ts_width st3 = ts_width st1" by (simp add: st3_def)
      show ?thesis
        unfolding truncate_wrapped_loop.simps Let_def using False
        by (simp only: if_False) (rule gives_width_bind, fold st1_def, fold st3_def, unfold width, rule that)
    qed
    consider "ts_line st1 < max_lines - 1" "ts_width st1 > wrap_width \<and> str_len pre > ts_last_wrap_ix st1"
      | "ts_line st1 < max_lines - 1" "\<not> (ts_width st1 > wrap_width \<and> str_len pre > ts_last_wrap_ix st1)"
      | "\<not> ts_line st1 < max_lines - 1" "ts_width st1 > wrap_width" | "\<not> ts_line st1 < max_lines - 1" "\<not> ts_width st1 > wrap_width"
      by blast
    then show ?thesis
    proof cases
      case 1
      obtain result runs' where "computes lw f s (?loop (char_indices_from (str_len pre + char_len_utf8 c) chars) (st2\<lparr>ts_prev_c := c\<rparr>)) (ret (result, runs'))"
        "wrapped_ok line affix runs result runs'" using IH [of "st2\<lparr>ts_prev_c := c\<rparr>"] cut_inv_append [OF wrap(2), of "[c]"] by auto
      with 1 show ?thesis
        by (intro exI [of _ result] exI [of _ runs']) (auto intro!: step gives_bind [OF wrap(1)] simp del: truncate_wrapped_loop.simps)
    next
      case 2
      obtain result runs' where "computes lw f s (?loop (char_indices_from (str_len pre + char_len_utf8 c) chars) (st1\<lparr>ts_prev_c := c\<rparr>)) (ret (result, runs'))"
        "wrapped_ok line affix runs result runs'" using IH [of "st1\<lparr>ts_prev_c := c\<rparr>"] inv1' by auto
      with 2 show ?thesis by (intro exI [of _ result] exI [of _ runs']) (auto intro!: step simp del: truncate_wrapped_loop.simps)
    next
      case 3
      then have "\<not> ts_width st1 + affix_width \<le> wrap_width" using assms(3) by (simp add: add_increasing2 not_le less_le_trans)
      then have "at_prefix pre (ts_truncate_ix st3)" using inv1 by (simp add: st3_def cut_inv_def)
      from cut [OF this] obtain result runs' where "truncate_at_end line (ts_truncate_ix st3) affix runs = ret (result, runs')"
        "wrapped_ok line affix runs result runs'" by blast
      with 3 show ?thesis by (intro exI [of _ result] exI [of _ runs']) (auto intro!: step simp del: truncate_wrapped_loop.simps)
    next
      case 4
      obtain result runs' where "computes lw f s (?loop (char_indices_from (str_len pre + char_len_utf8 c) chars) (st3\<lparr>ts_prev_c := c\<rparr>)) (ret (result, runs'))"
        "wrapped_ok line affix runs result runs'" using IH [of "st3\<lparr>ts_prev_c := c\<rparr>"] inv3 by auto
      with 4 show ?thesis by (intro exI [of _ result] exI [of _ runs']) (auto intro!: step simp del: truncate_wrapped_loop.simps)
    qed
  qed
qed

lemma truncated_is_wrapped:
  "truncated_ok w truncate_width line affix Truncate_End runs result runs' \<Longrightarrow> wrapped_ok line affix runs result runs'"
  by (auto simp: truncated_ok_def wrapped_ok_def)

lemma truncate_wrapped_gives:
  assumes "\<forall>c. 0 \<le> lw f s c" "str_len line = runs_len runs" "1 < max_lines"
  shows "\<exists>result runs'. computes lw f s (truncate_wrapped_line lw line wrap_width max_lines affix runs Truncate_End) (ret (result, runs')) \<and>
    wrapped_ok line affix runs result runs'"
proof -
  let ?aw = "sum_list (map (lw f s) affix)"
  have "0 \<le> ?aw" using text_width_nonneg [OF assms(1), of affix] by (simp add: text_width_def)
  from truncate_wrapped_loop_gives [where lw = lw and f = f and s = s, OF assms(1,2) this, of "[]" line truncate_state_new wrap_width max_lines affix]
  obtain result runs' where "computes lw f s (truncate_wrapped_loop lw line wrap_width max_lines affix ?aw runs (char_indices line) truncate_state_new) (ret (result, runs'))"
    "wrapped_ok line affix runs result runs'" using cut_inv_new by auto
  with assms(3) show ?thesis
    by (intro exI [of _ result] exI [of _ runs']) (simp add: truncate_wrapped_line_def gives_fold_bind)
qed

section \<open>Boundaries\<close>

abbreviation candidates_len :: "'u wrap_candidate list \<Rightarrow> nat" where
  "candidates_len candidates \<equiv> sum_list (map candidate_len candidates)"

text \<open>The indices at which a character or an element starts.\<close>

definition starts_at :: "'u wrap_candidate list \<Rightarrow> nat \<Rightarrow> bool" where
  "starts_at candidates ix \<longleftrightarrow> (\<exists>a b. candidates = a @ b \<and> b \<noteq> [] \<and> ix = candidates_len a)"

text \<open>The state before the item at the index: what was read is \<open>before\<close>.\<close>

definition ls_inv :: "'u wrap_candidate list \<Rightarrow> 'u wrap_candidate list \<Rightarrow> nat \<Rightarrow> 'u wrap_line_state \<Rightarrow> bool" where
  "ls_inv candidates before ix st \<longleftrightarrow> ix = candidates_len before \<and> ls_last_wrap_ix st \<le> ix \<and>
     (ls_first_non_whitespace_ix st \<noteq> None \<longrightarrow> ls_last_wrap_ix st < ix) \<and>
     (ls_last_candidate_ix st = 0 \<or> ls_last_wrap_ix st < ls_last_candidate_ix st \<and> starts_at candidates (ls_last_candidate_ix st)) \<and>
     ls_last_candidate_ix st \<le> ix \<and> (ls_indent st = None \<longrightarrow> (\<forall>f. ls_first_non_whitespace_ix st = Some f \<longrightarrow> ls_last_wrap_ix st \<le> f)) \<and>
     (\<forall>n. ls_indent st = Some n \<longrightarrow> n \<le> MAX_INDENT)"

lemma wrap_candidate_at_keeps [simp]:
  "ls_last_wrap_ix (wrap_candidate_at ix candidate st) = ls_last_wrap_ix st" "ls_index (wrap_candidate_at ix candidate st) = ls_index st"
  "ls_indent (wrap_candidate_at ix candidate st) = ls_indent st"
  by (simp_all add: wrap_candidate_at_def split: wrap_candidate.split)

lemma candidate_at_fields:
  "ls_last_candidate_ix (wrap_candidate_at ix candidate st) \<in> {ls_last_candidate_ix st} \<union> (if ls_first_non_whitespace_ix st = None then {} else {ix})"
  "ls_first_non_whitespace_ix (wrap_candidate_at ix candidate st) \<in> {ls_first_non_whitespace_ix st} \<union>
     (if ls_first_non_whitespace_ix st = None then {Some ix} else {})"
  by (auto simp: wrap_candidate_at_def split: wrap_candidate.split)

lemma ls_inv_candidate:
  assumes "ls_inv candidates before ix st" "starts_at candidates ix"
  shows "ls_last_wrap_ix (wrap_candidate_at ix candidate st) \<le> ix" "ls_last_candidate_ix (wrap_candidate_at ix candidate st) \<le> ix"
    "ls_last_candidate_ix (wrap_candidate_at ix candidate st) = 0 \<or>
      ls_last_wrap_ix st < ls_last_candidate_ix (wrap_candidate_at ix candidate st) \<and> starts_at candidates (ls_last_candidate_ix (wrap_candidate_at ix candidate st))"
    "ls_indent st = None \<longrightarrow> (\<forall>f. ls_first_non_whitespace_ix (wrap_candidate_at ix candidate st) = Some f \<longrightarrow> ls_last_wrap_ix st \<le> f)"
  using assms candidate_at_fields [of ix candidate st] by (auto simp: ls_inv_def split: if_splits)

end
