(* ===== verification/Line_Break_Widths.thy ===== *)
theory Line_Break_Widths
  imports Line_Breaks
begin

text \<open>
  Where \<open>wrap_line\<close> breaks a line: every character or element of a line starts within the wrap width, and a line is broken only before or at
  an item that is over it. Newlines have no width here, as the loop passes over them.
\<close>

section \<open>Widths of parts\<close>

definition newline_item :: "'u wrap_candidate \<Rightarrow> bool" where
  "newline_item item = (case item of Candidate_Char c \<Rightarrow> c = CHR 0x0A | Candidate_Element width len \<Rightarrow> False)"

definition item_width_of :: "(char \<Rightarrow> 'u) \<Rightarrow> 'u::floor_ceiling wrap_candidate \<Rightarrow> 'u" where
  "item_width_of w item = (case item of Candidate_Char c \<Rightarrow> if c = CHR 0x0A then 0 else w c | Candidate_Element width len \<Rightarrow> width)"

text \<open>The width of the items that start from the index \<open>a\<close> on and before the index \<open>b\<close>; the first one of the list starts at \<open>pos\<close>.\<close>

fun span_width :: "('u wrap_candidate \<Rightarrow> 'u) \<Rightarrow> nat \<Rightarrow> nat \<Rightarrow> nat \<Rightarrow> 'u::floor_ceiling wrap_candidate list \<Rightarrow> 'u" where
  "span_width w pos a b [] = 0"
| "span_width w pos a b (item # items) = (if a \<le> pos \<and> pos < b then w item else 0) + span_width w (pos + candidate_len item) a b items"

definition item_at :: "'u wrap_candidate list \<Rightarrow> nat \<Rightarrow> 'u wrap_candidate \<Rightarrow> bool" where
  "item_at items q item \<longleftrightarrow> (\<exists>before rest. items = before @ item # rest \<and> q = candidates_len before)"

text \<open>The lines from the index \<open>a\<close> on, the first of which is shown with that indent. In each of them every item but newlines starts within
  the wrap width; and one that is broken off is followed by an item, at its end or later, up to which the line and its indent would be
  over the wrap width.\<close>

fun lines_wrapped ::
  "('u wrap_candidate \<Rightarrow> 'u) \<Rightarrow> 'u \<Rightarrow> 'u \<Rightarrow> 'u::floor_ceiling wrap_candidate list \<Rightarrow> nat \<Rightarrow> nat \<Rightarrow> line_boundary list \<Rightarrow> bool" where
  "lines_wrapped w space wrap_width items a indent [] \<longleftrightarrow>
     (\<forall>q item. item_at items q item \<and> a \<le> q \<and> \<not> newline_item item \<longrightarrow> span_width w 0 a q items \<le> wrap_width)"
| "lines_wrapped w space wrap_width items a indent (boundary # boundaries) \<longleftrightarrow>
     (\<forall>q item. item_at items q item \<and> a \<le> q \<and> q < lb_ix boundary \<and> \<not> newline_item item \<longrightarrow> span_width w 0 a q items \<le> wrap_width) \<and>
     (\<exists>q item. item_at items q item \<and> lb_ix boundary \<le> q \<and> wrap_width < space * of_nat indent + span_width w 0 a q items + w item) \<and>
     lines_wrapped w space wrap_width items (lb_ix boundary) (lb_next_indent boundary) boundaries"

lemma span_width_split: "a \<le> b \<Longrightarrow> b \<le> c \<Longrightarrow> span_width w pos a c items = span_width w pos a b items + span_width w pos b c items"
  by (induction items arbitrary: pos) auto

lemma span_width_nonneg: "\<forall>item \<in> set items. 0 \<le> w item \<Longrightarrow> 0 \<le> span_width w pos a b items"
  by (induction items arbitrary: pos) (auto intro: add_nonneg_nonneg)

lemma span_width_self [simp]: "span_width w pos a a items = 0"
  by (induction items arbitrary: pos) auto

lemma span_width_mono:
  assumes "\<forall>item \<in> set items. 0 \<le> w item" "a' \<le> a" "a \<le> b" "b \<le> b'"
  shows "span_width w pos a b items \<le> span_width w pos a' b' items"
proof -
  have "span_width w pos a' b' items = span_width w pos a' a items + (span_width w pos a b items + span_width w pos b b' items)"
    using span_width_split [of a' a b' w pos items] span_width_split [of a b b' w pos items] assms by simp
  then show ?thesis using span_width_nonneg [OF assms(1)] by (simp add: add_increasing add_increasing2)
qed

lemma span_width_append: "span_width w pos a b (xs @ ys) = span_width w pos a b xs + span_width w (pos + candidates_len xs) a b ys"
  by (induction xs arbitrary: pos) (simp_all add: add.assoc)

lemma span_width_outside:
  "\<forall>item \<in> set xs. 0 < candidate_len item \<Longrightarrow> pos + candidates_len xs \<le> a \<Longrightarrow> span_width w pos a b xs = 0"
  "b \<le> pos \<Longrightarrow> span_width w pos a b xs = 0"
  by (induction xs arbitrary: pos) auto

lemma span_width_item:
  assumes "\<forall>item \<in> set items. 0 < candidate_len item" "items = before @ item # rest" "ix = candidates_len before"
  shows "span_width w 0 ix (ix + candidate_len item) items = w item"
  using assms by (simp add: span_width_append span_width_outside)

lemma item_at_between:
  assumes "\<forall>item \<in> set items. 0 < candidate_len item" "items = before @ item # rest" "item_at items q item'"
    and "candidates_len before \<le> q" "q < candidates_len before + candidate_len item"
  shows "q = candidates_len before \<and> item' = item"
proof -
  obtain pre post where split: "items = pre @ item' # post" "q = candidates_len pre" using assms(3) by (auto simp: item_at_def)
  then have "(\<exists>us. pre = before @ us \<and> us @ item' # post = item # rest) \<or> (\<exists>us. before = pre @ us \<and> item' # post = us @ item # rest)"
    using assms(2) by (auto simp: append_eq_append_conv2)
  then show ?thesis
  proof (elim disjE exE conjE)
    fix us assume "pre = before @ us" "us @ item' # post = item # rest"
    with split(2) assms(5) show ?thesis by (cases us) auto
  next
    fix us assume us: "before = pre @ us" "item' # post = us @ item # rest"
    moreover have "0 < candidate_len item'" using assms(1) split(1) by auto
    ultimately show ?thesis using split(2) assms(4) by (cases us) auto
  qed
qed

lemma item_at_less:
  assumes "\<forall>item \<in> set items. 0 < candidate_len item" "item_at items q item"
  shows "q < candidates_len items"
  using assms by (auto simp: item_at_def)

section \<open>The state of the loop\<close>

definition starts_fit :: "('u wrap_candidate \<Rightarrow> 'u) \<Rightarrow> 'u \<Rightarrow> 'u::floor_ceiling wrap_candidate list \<Rightarrow> nat \<Rightarrow> nat \<Rightarrow> bool" where
  "starts_fit w wrap_width items a b \<longleftrightarrow>
     (\<forall>q item. item_at items q item \<and> a \<le> q \<and> q < b \<and> \<not> newline_item item \<longrightarrow> span_width w 0 a q items \<le> wrap_width)"

definition width_inv :: "('u wrap_candidate \<Rightarrow> 'u) \<Rightarrow> 'u \<Rightarrow> 'u \<Rightarrow> 'u::floor_ceiling wrap_candidate list \<Rightarrow> nat \<Rightarrow> 'u wrap_line_state \<Rightarrow> bool" where
  "width_inv w space wrap_width items ix st \<longleftrightarrow> (let a = ls_last_wrap_ix st in
     ls_width st = indent_width space (ls_indent st) + span_width w 0 a ix items \<and> starts_fit w wrap_width items a ix \<and>
     (ls_last_candidate_ix st = 0 \<or> span_width w 0 a ix items \<le> wrap_width \<and>
        ls_last_candidate_width st = indent_width space (ls_indent st) + span_width w 0 a (ls_last_candidate_ix st) items))"

lemma starts_fit_less: "starts_fit w wrap_width items a b \<Longrightarrow> b' \<le> b \<Longrightarrow> starts_fit w wrap_width items a b'"
  unfolding starts_fit_def by (meson less_le_trans)

lemma starts_fit_item:
  assumes "\<forall>item \<in> set items. 0 < candidate_len item" "items = before @ item # rest" "ix = candidates_len before"
    and "starts_fit w wrap_width items a ix" "newline_item item \<or> span_width w 0 a ix items \<le> wrap_width"
  shows "starts_fit w wrap_width items a (ix + candidate_len item)"
  unfolding starts_fit_def
proof (intro allI impI)
  fix q item' assume q: "item_at items q item' \<and> a \<le> q \<and> q < ix + candidate_len item \<and> \<not> newline_item item'"
  show "span_width w 0 a q items \<le> wrap_width"
  proof (cases "q < ix")
    case True
    with q assms(4) show ?thesis by (auto simp: starts_fit_def)
  next
    case False
    with q item_at_between [OF assms(1,2), of q item'] assms(3) have "q = ix" "item' = item" by auto
    with q assms(5) show ?thesis by simp
  qed
qed

text \<open>After a break the line goes from the boundary to the item that was over the width.\<close>

lemma starts_fit_break:
  assumes "\<forall>item \<in> set items. 0 < candidate_len item \<and> 0 \<le> w item" "items = before @ item # rest" "ix = candidates_len before"
    and "a \<le> b" "b \<le> ix" "b = ix \<or> span_width w 0 a ix items \<le> wrap_width" "0 \<le> wrap_width"
  shows "starts_fit w wrap_width items b (ix + candidate_len item)"
  unfolding starts_fit_def
proof (intro allI impI)
  fix q item' assume q: "item_at items q item' \<and> b \<le> q \<and> q < ix + candidate_len item \<and> \<not> newline_item item'"
  have "q \<le> ix" using item_at_between [OF _ assms(2), of q item'] assms(1,3) q by (cases "q < ix") auto
  then have "span_width w 0 b q items \<le> span_width w 0 b ix items" using assms(1,5) q by (intro span_width_mono) auto
  moreover have "span_width w 0 b ix items \<le> wrap_width"
  proof (cases "b = ix")
    case False
    then have "span_width w 0 a ix items \<le> wrap_width" using assms(6) by simp
    moreover have "span_width w 0 b ix items \<le> span_width w 0 a ix items" using assms(1,4,5) by (intro span_width_mono) auto
    ultimately show ?thesis by simp
  qed (use assms(7) in simp)
  ultimately show "span_width w 0 b q items \<le> wrap_width" by simp
qed

lemma wrap_candidate_at_width:
  "ls_width (wrap_candidate_at ix candidate st) = ls_width st"
  "ls_last_candidate_ix (wrap_candidate_at ix candidate st) = ix \<and> ls_last_candidate_width (wrap_candidate_at ix candidate st) = ls_width st \<or>
   ls_last_candidate_ix (wrap_candidate_at ix candidate st) = ls_last_candidate_ix st \<and>
     ls_last_candidate_width (wrap_candidate_at ix candidate st) = ls_last_candidate_width st"
  by (auto simp: wrap_candidate_at_def split: wrap_candidate.split)

section \<open>The loop\<close>

lemma gives_candidate:
  "\<not> newline_item candidate \<Longrightarrow> computes lw f s (candidate_width lw candidate) (item_width_of (lw f s) candidate)"
  by (cases candidate) (auto simp: candidate_width_def item_width_of_def newline_item_def intro: gives_width)

lemma wrap_line_break_gives:
  assumes "ls_inv candidates before ix st0" "starts_at candidates ix" "0 < candidate_len candidate" "ls_last_wrap_ix st0 < ix"
    and "st = (wrap_candidate_at ix candidate st0)\<lparr>ls_index := i, ls_width := width\<rparr>"
  obtains boundary st' where "computes lw f s (wrap_line_break lw ix item_width st) (ret (boundary, st'))" "lb_ix boundary = ls_last_wrap_ix st'"
    "lb_next_indent boundary \<le> MAX_INDENT" "ls_last_wrap_ix st0 < lb_ix boundary" "starts_at candidates (lb_ix boundary)" "ls_index st' = i" "ls_last_candidate_ix st' = 0"
    "lb_next_indent boundary = (case ls_indent st' of Some n \<Rightarrow> n | None \<Rightarrow> 0)"
    "lb_ix boundary = (if ls_last_candidate_ix st > 0 then ls_last_candidate_ix st else ix)"
    "ls_width st' = (if ls_last_candidate_ix st > 0 then width - ls_last_candidate_width st else item_width) + indent_width (lw f s (CHR '' '')) (ls_indent st')"
    "ls_inv candidates (before @ [candidate]) (ix + candidate_len candidate) st'"
proof -
  have inv: "ls_last_wrap_ix st = ls_last_wrap_ix st0" "ls_indent st = ls_indent st0"
    "ls_last_candidate_ix st = 0 \<or> ls_last_wrap_ix st < ls_last_candidate_ix st \<and> starts_at candidates (ls_last_candidate_ix st)"
    "ls_indent st = None \<longrightarrow> (\<forall>f. ls_first_non_whitespace_ix st = Some f \<longrightarrow> ls_last_wrap_ix st \<le> f)"
    "ls_last_candidate_ix st \<le> ix"
    using ls_inv_candidate [OF assms(1,2), of candidate] by (auto simp: assms(5))
  have "pred_option (\<lambda>n. n \<le> MAX_INDENT) (ls_indent st)" using assms(1) unfolding ls_inv_def inv(2) by (cases "ls_indent st0") simp_all
  then obtain indent where indent: "indent_from (ls_indent st) (ls_first_non_whitespace_ix st) (ls_last_wrap_ix st) = ret indent"
    "indent = None \<Longrightarrow> ls_first_non_whitespace_ix st = None" "pred_option (\<lambda>n. n \<le> MAX_INDENT) indent"
    using indent_from_ok [of "ls_indent st" "ls_first_non_whitespace_ix st" "ls_last_wrap_ix st"] inv(4) by auto
  define st1 where "st1 = (if ls_last_candidate_ix st > 0
    then st\<lparr>ls_last_wrap_ix := ls_last_candidate_ix st, ls_width := ls_width st - ls_last_candidate_width st, ls_last_candidate_ix := 0\<rparr>
    else st\<lparr>ls_last_wrap_ix := ix, ls_width := item_width\<rparr>)"
  note x = gives_indent [of lw f s indent "ls_width st1"]
  let ?boundary = "boundary_new (ls_last_wrap_ix st1) (case indent of Some n \<Rightarrow> n | None \<Rightarrow> 0)"
  let ?st = "st1\<lparr>ls_indent := indent, ls_width := ls_width st1 + indent_width (lw f s (CHR '' '')) indent\<rparr>"
  show thesis
  proof (rule that [of ?boundary ?st])
    show "computes lw f s (wrap_line_break lw ix item_width st) (ret (?boundary, ?st))"
      unfolding wrap_line_break_def indent(1) option.case Let_def st1_def [symmetric] by (rule gives_bind [OF x gives_return])
  qed (use assms inv indent in \<open>auto simp: boundary_new_def st1_def ls_inv_def split: option.split\<close>)
qed

text \<open>What each way through the loop does to the widths.\<close>

lemma indent_width_eq: "indent_width space indent = space * of_nat (case indent of Some n \<Rightarrow> n | None \<Rightarrow> 0)"
  by (simp add: indent_width_def split: option.split)

lemma span_width_next:
  assumes "\<forall>item \<in> set items. 0 < candidate_len item" "items = before @ item # rest" "ix = candidates_len before" "a \<le> ix"
  shows "span_width w 0 a (ix + candidate_len item) items = span_width w 0 a ix items + w item"
  using span_width_split [of a ix "ix + candidate_len item" w 0 items] span_width_item [OF assms(1-3), of w] assms(4) by simp

lemma width_newline:
  assumes "\<forall>item \<in> set items. 0 < candidate_len item" "items = before @ item # rest" "ix = candidates_len before"
    and "width_inv w space wrap_width items ix st" "ls_last_wrap_ix st \<le> ix" "newline_item item" "w item = 0"
  shows "width_inv w space wrap_width items (ix + candidate_len item) (st\<lparr>ls_index := i\<rparr>)"
  using assms(4) starts_fit_item [OF assms(1-3), of w wrap_width "ls_last_wrap_ix st"] span_width_next [OF assms(1-3,5), of w] assms(6,7)
  by (simp add: width_inv_def Let_def)

lemma width_fits:
  fixes space :: "'u::floor_ceiling"
  assumes items: "\<forall>item \<in> set items. 0 < candidate_len item \<and> 0 \<le> w item" "items = before @ item # rest" "ix = candidates_len before"
    and inv: "width_inv w space wrap_width items ix st" "ls_last_wrap_ix st \<le> ix" "0 \<le> space" "0 \<le> wrap_width"
    and st2: "st2 = (wrap_candidate_at ix item st)\<lparr>ls_width := ls_width st + w item\<rparr>"
    and cand: "ls_last_candidate_ix st2 = 0 \<or> ls_last_wrap_ix st < ls_last_candidate_ix st2" "ls_last_candidate_ix st2 \<le> ix"
    and fits: "ls_width st2 \<le> wrap_width \<or> ix \<le> ls_last_wrap_ix st"
  shows "width_inv w space wrap_width items (ix + candidate_len item) (st2\<lparr>ls_prev_c := c\<rparr>)"
proof -
  let ?a = "ls_last_wrap_ix st" and ?D = "indent_width space (ls_indent st)"
  have pos: "\<forall>item \<in> set items. 0 < candidate_len item" and item: "0 \<le> w item" "0 \<le> ?D"
    using items(1,2) inv(3) by (auto simp: indent_width_def split: option.split)
  note nxt = span_width_next [OF pos items(2,3) inv(2), of w]
  have width: "ls_width st2 = ?D + span_width w 0 ?a (ix + candidate_len item) items"
    using inv(1) by (simp add: st2 nxt width_inv_def Let_def add.assoc)
  have fits': "span_width w 0 ?a (ix + candidate_len item) items \<le> wrap_width" if "ls_width st2 \<le> wrap_width"
    using that width item(2) by simp
  have before: "span_width w 0 ?a ix items \<le> wrap_width"
    using fits
  proof
    assume "ls_width st2 \<le> wrap_width"
    then show ?thesis using fits' nxt item(1) by simp
  next
    assume "ix \<le> ?a"
    then have "ix = ?a" using inv(2) by simp
    then show ?thesis using inv(4) by simp
  qed
  have "starts_fit w wrap_width items ?a (ix + candidate_len item)"
    using inv(1) before by (intro starts_fit_item [OF pos items(2,3)]) (simp_all add: width_inv_def Let_def)
  moreover have "ls_last_candidate_ix st2 = 0 \<or> span_width w 0 ?a (ix + candidate_len item) items \<le> wrap_width \<and>
      ls_last_candidate_width st2 = ?D + span_width w 0 ?a (ls_last_candidate_ix st2) items"
  proof (cases "ls_last_candidate_ix st2 = 0")
    case False
    then have "ls_width st2 \<le> wrap_width" using cand fits by auto
    moreover have "ls_last_candidate_width st2 = ?D + span_width w 0 ?a (ls_last_candidate_ix st2) items"
      using wrap_candidate_at_width(2) [of ix item st] inv(1) False by (auto simp: st2 width_inv_def Let_def)
    ultimately show ?thesis using fits' by blast
  qed simp
  moreover have "ls_last_wrap_ix st2 = ?a" "ls_indent st2 = ls_indent st" by (simp_all add: st2)
  ultimately show ?thesis using width by (simp add: width_inv_def Let_def)
qed

lemma width_break:
  fixes space :: "'u::floor_ceiling"
  assumes items: "\<forall>item \<in> set items. 0 < candidate_len item \<and> 0 \<le> w item" "items = before @ item # rest" "ix = candidates_len before"
    and inv: "width_inv w space wrap_width items ix st" "ls_last_wrap_ix st \<le> ix" "0 \<le> wrap_width"
    and st2: "st2 = (wrap_candidate_at ix item st)\<lparr>ls_index := i, ls_width := ls_width st + w item\<rparr>"
    and cand: "ls_last_candidate_ix st2 = 0 \<or> ls_last_wrap_ix st < ls_last_candidate_ix st2" "ls_last_candidate_ix st2 \<le> ix"
    and st': "ls_last_wrap_ix st' = (if ls_last_candidate_ix st2 > 0 then ls_last_candidate_ix st2 else ix)" "ls_last_candidate_ix st' = 0"
      "ls_width st' = (if ls_last_candidate_ix st2 > 0 then ls_width st + w item - ls_last_candidate_width st2 else w item) + indent_width space (ls_indent st')"
  shows "width_inv w space wrap_width items (ix + candidate_len item) st'" "ls_last_wrap_ix st' \<le> ix"
    "ls_width st2 = indent_width space (ls_indent st) + span_width w 0 (ls_last_wrap_ix st) ix items + w item"
proof -
  let ?a = "ls_last_wrap_ix st" and ?b = "ls_last_wrap_ix st'" and ?D = "indent_width space (ls_indent st)"
  have pos: "\<forall>item \<in> set items. 0 < candidate_len item" using items(1) by blast
  show b: "?b \<le> ix" using cand(2) st'(1) by simp
  show "ls_width st2 = ?D + span_width w 0 ?a ix items + w item" using inv(1) by (simp add: st2 width_inv_def Let_def)
  have noted: "ls_last_candidate_width st2 = ?D + span_width w 0 ?a (ls_last_candidate_ix st2) items \<and>
      (ls_last_candidate_ix st2 = ix \<or> span_width w 0 ?a ix items \<le> wrap_width)" if "0 < ls_last_candidate_ix st2"
    using wrap_candidate_at_width(2) [of ix item st] inv(1) that by (auto simp: st2 width_inv_def Let_def)
  have "?a \<le> ?b" "?b = ix \<or> span_width w 0 ?a ix items \<le> wrap_width" using cand(1) inv(2) st'(1) noted by auto
  note starts_fit_break [OF items this(1) b this(2) inv(3)]
  moreover have "ls_width st' = indent_width space (ls_indent st') + span_width w 0 ?b (ix + candidate_len item) items"
  proof (cases "0 < ls_last_candidate_ix st2")
    case True
    have "span_width w 0 ?a ix items = span_width w 0 ?a ?b items + span_width w 0 ?b ix items"
      using \<open>?a \<le> ?b\<close> b by (rule span_width_split)
    with True noted st' inv(1) span_width_next [OF pos items(2,3) b, of w] show ?thesis by (simp add: width_inv_def Let_def)
  next
    case False
    with st' span_width_next [OF pos items(2,3) b, of w] show ?thesis by simp
  qed
  ultimately show "width_inv w space wrap_width items (ix + candidate_len item) st'" using st'(2) by (simp add: width_inv_def Let_def)
qed

lemma wrap_line_loop_gives:
  assumes items: "\<forall>item \<in> set candidates. 0 < candidate_len item \<and> 0 \<le> item_width_of (lw f s) item" and "0 \<le> wrap_width" "0 \<le> lw f s (CHR '' '')"
  shows "candidates = before @ rest \<Longrightarrow> ls_inv candidates before (ls_index st) st \<Longrightarrow>
    width_inv (item_width_of (lw f s)) (lw f s (CHR '' '')) wrap_width candidates (ls_index st) st \<Longrightarrow>
    \<exists>boundaries. computes lw f s (wrap_line_loop lw wrap_width rest st) (ret boundaries) \<and>
      sorted_wrt (<) (ls_last_wrap_ix st # map lb_ix boundaries) \<and>
      (\<forall>boundary \<in> set boundaries. starts_at candidates (lb_ix boundary) \<and> lb_next_indent boundary \<le> MAX_INDENT) \<and>
      lines_wrapped (item_width_of (lw f s)) (lw f s (CHR '' '')) wrap_width candidates (ls_last_wrap_ix st)
        (case ls_indent st of Some n \<Rightarrow> n | None \<Rightarrow> 0) boundaries"
proof (induction rest arbitrary: before st)
  case Nil
  then have "starts_fit (item_width_of (lw f s)) wrap_width candidates (ls_last_wrap_ix st) (candidates_len candidates)"
    by (simp add: width_inv_def ls_inv_def Let_def)
  then have "lines_wrapped (item_width_of (lw f s)) (lw f s (CHR '' '')) wrap_width candidates (ls_last_wrap_ix st)
        (case ls_indent st of Some n \<Rightarrow> n | None \<Rightarrow> 0) []"
    using item_at_less [of candidates] items by (simp add: starts_fit_def) blast
  then show ?case by (intro exI [of _ "[]"]) (auto simp: gives_return)
next
  case (Cons candidate rest)
  let ?w = "item_width_of (lw f s)" and ?space = "lw f s (CHR '' '')"
  let ?ix = "ls_index st" and ?i = "ls_index st + candidate_len candidate" and ?a = "ls_last_wrap_ix st"
  let ?good = "\<lambda>st boundaries. sorted_wrt (<) (ls_last_wrap_ix st # map lb_ix boundaries) \<and>
      (\<forall>boundary \<in> set boundaries. starts_at candidates (lb_ix boundary) \<and> lb_next_indent boundary \<le> MAX_INDENT) \<and>
      lines_wrapped ?w ?space wrap_width candidates (ls_last_wrap_ix st) (case ls_indent st of Some n \<Rightarrow> n | None \<Rightarrow> 0) boundaries"
  have lens: "\<forall>item \<in> set candidates. 0 < candidate_len item" using items by blast
  have pos: "0 < candidate_len candidate" using lens Cons.prems(1) by simp
  have ix: "?ix = candidates_len before" "?a \<le> ?ix" using Cons.prems(2) by (simp_all add: ls_inv_def)
  have start: "starts_at candidates ?ix" using Cons.prems by (auto simp: starts_at_def ls_inv_def)
  have IH: "\<exists>boundaries. computes lw f s (wrap_line_loop lw wrap_width rest st') (ret boundaries) \<and> ?good st' boundaries"
    if "ls_inv candidates (before @ [candidate]) ?i st'" "width_inv ?w ?space wrap_width candidates ?i st'" "ls_index st' = ?i" for st'
    using Cons.IH [of "before @ [candidate]" st'] Cons.prems(1) that by simp
  have inv0: "ls_inv candidates before ?ix (st\<lparr>ls_index := ?i\<rparr>)" using Cons.prems(2) by (auto simp: ls_inv_def)
  have width0: "width_inv ?w ?space wrap_width candidates ?ix (st\<lparr>ls_index := ?i\<rparr>)" using Cons.prems(3) by (simp add: width_inv_def Let_def)
  show ?case
  proof (cases "newline_item candidate")
    case True
    then have loop: "wrap_line_loop lw wrap_width (candidate # rest) st = wrap_line_loop lw wrap_width rest (st\<lparr>ls_index := ?i\<rparr>)"
      by (simp add: newline_item_def)
    have "?w candidate = 0" using True by (auto simp: newline_item_def item_width_of_def split: wrap_candidate.splits if_splits)
    note width_newline [where i = ?i, OF lens Cons.prems(1) ix(1) Cons.prems(3) ix(2) True this]
    moreover have "ls_inv candidates (before @ [candidate]) ?i (st\<lparr>ls_index := ?i\<rparr>)" using Cons.prems(2) by (auto simp: ls_inv_def)
    ultimately show ?thesis unfolding loop using IH [of "st\<lparr>ls_index := ?i\<rparr>"] by simp
  next
    case False
    note x = gives_candidate [OF False, of lw f s]
    define st1 where "st1 = wrap_candidate_at ?ix candidate (st\<lparr>ls_index := ?i\<rparr>)"
    define st2 where "st2 = st1\<lparr>ls_width := ls_width st1 + ?w candidate\<rparr>"
    define prev where "prev = (case candidate of Candidate_Char c \<Rightarrow> c | Candidate_Element width len \<Rightarrow> ls_prev_c st)"
    have st2: "st2 = (wrap_candidate_at ?ix candidate (st\<lparr>ls_index := ?i\<rparr>))\<lparr>ls_width := ls_width (st\<lparr>ls_index := ?i\<rparr>) + ?w candidate\<rparr>"
      by (simp add: st2_def st1_def wrap_candidate_at_width)
    then have st2': "st2 = (wrap_candidate_at ?ix candidate (st\<lparr>ls_index := ?i\<rparr>))\<lparr>ls_index := ?i, ls_width := ls_width (st\<lparr>ls_index := ?i\<rparr>) + ?w candidate\<rparr>"
      by simp
    have keeps: "ls_last_wrap_ix st2 = ?a" "ls_indent st2 = ls_indent st" by (simp_all add: st2)
    have cand: "ls_last_candidate_ix st2 = 0 \<or> ls_last_wrap_ix (st\<lparr>ls_index := ?i\<rparr>) < ls_last_candidate_ix st2" "ls_last_candidate_ix st2 \<le> ?ix"
      using ls_inv_candidate [OF inv0 start, of candidate] by (auto simp: st2)
    have a0: "ls_last_wrap_ix (st\<lparr>ls_index := ?i\<rparr>) \<le> ?ix" using ix(2) by simp
    have step: "computes lw f s (wrap_line_loop lw wrap_width (candidate # rest) st) r"
      if "computes lw f s (if ls_width st2 > wrap_width \<and> ?ix > ls_last_wrap_ix st2 then do {
          r \<leftarrow> wrap_line_break lw ?ix (?w candidate) st2;
          (case r of
             None \<Rightarrow> State_Monad.return panic
           | Some (boundary, st) \<Rightarrow> do {
               rest \<leftarrow> wrap_line_loop lw wrap_width rest st;
               State_Monad.return (map_option ((#) boundary) rest) }) }
        else wrap_line_loop lw wrap_width rest (st2\<lparr>ls_prev_c := prev\<rparr>)) r" for r
    proof -
      have prev: "(case candidate of Candidate_Char c \<Rightarrow> c | Candidate_Element width len \<Rightarrow> ls_prev_c (st\<lparr>ls_index := ?i\<rparr>)) = prev"
        by (cases candidate) (simp_all add: prev_def)
      show ?thesis
        unfolding wrap_line_loop.simps Let_def prev using False
        by (simp only: newline_item_def if_False) (rule gives_bind [OF x], fold st1_def, fold st2_def, rule that)
    qed
    show ?thesis
    proof (cases "ls_width st2 > wrap_width \<and> ?ix > ls_last_wrap_ix st2")
      case True
      have "ls_last_wrap_ix (st\<lparr>ls_index := ?i\<rparr>) < ?ix" using True keeps by simp
      from wrap_line_break_gives [where lw = lw and f = f and s = s and item_width = "?w candidate", OF inv0 start pos this st2']
      obtain boundary st' where break: "computes lw f s (wrap_line_break lw ?ix (?w candidate) st2) (ret (boundary, st'))" "lb_ix boundary = ls_last_wrap_ix st'"
        "lb_next_indent boundary \<le> MAX_INDENT" "ls_last_wrap_ix (st\<lparr>ls_index := ?i\<rparr>) < lb_ix boundary" "starts_at candidates (lb_ix boundary)" "ls_index st' = ?i"
        and st': "ls_last_candidate_ix st' = 0" "lb_next_indent boundary = (case ls_indent st' of Some n \<Rightarrow> n | None \<Rightarrow> 0)"
        "lb_ix boundary = (if ls_last_candidate_ix st2 > 0 then ls_last_candidate_ix st2 else ?ix)"
        "ls_width st' = (if ls_last_candidate_ix st2 > 0 then ls_width (st\<lparr>ls_index := ?i\<rparr>) + ?w candidate - ls_last_candidate_width st2
          else ?w candidate) + indent_width ?space (ls_indent st')"
        "ls_inv candidates (before @ [candidate]) ?i st'" .
      note width' = width_break [OF items Cons.prems(1) ix(1) width0 a0 assms(2) st2' cand st'(3) [unfolded break(2)] st'(1,4)]
      from IH [OF st'(5) width'(1) break(6)] obtain boundaries where rest: "computes lw f s (wrap_line_loop lw wrap_width rest st') (ret boundaries)"
        "?good st' boundaries" by blast
      have "computes lw f s (wrap_line_loop lw wrap_width (candidate # rest) st) (ret (boundary # boundaries))"
        using True by (intro step) (auto intro!: gives_bind [OF break(1)] gives_bind [OF rest(1)])
      moreover have "sorted_wrt (<) (?a # map lb_ix (boundary # boundaries))"
        using rest(2) break(2,4) by (auto intro: less_trans)
      moreover have "starts_fit ?w wrap_width candidates ?a (lb_ix boundary)"
        using Cons.prems(3) width'(2) break(2) starts_fit_less [of ?w wrap_width candidates ?a ?ix "lb_ix boundary"] by (simp add: width_inv_def Let_def)
      moreover have "item_at candidates ?ix candidate" using Cons.prems(1) ix(1) by (auto simp: item_at_def)
      moreover have "wrap_width < ?space * of_nat (case ls_indent st of Some n \<Rightarrow> n | None \<Rightarrow> 0) + span_width ?w 0 ?a ?ix candidates + ?w candidate"
        using True width'(3) by (simp add: indent_width_eq)
      ultimately show ?thesis using rest(2) break(2,3,5) st'(2) width'(2)
        by (intro exI [of _ "boundary # boundaries"]) (auto simp: starts_fit_def)
    next
      case False
      have "ls_inv candidates (before @ [candidate]) ?i (st2\<lparr>ls_prev_c := prev\<rparr>)"
        using ls_inv_candidate [OF inv0 start, of candidate] inv0 pos by (auto simp: st2 ls_inv_def)
      moreover have "ls_index (st2\<lparr>ls_prev_c := prev\<rparr>) = ?i" by (simp add: st2)
      moreover have "ls_width st2 \<le> wrap_width \<or> ?ix \<le> ls_last_wrap_ix (st\<lparr>ls_index := ?i\<rparr>)" using False keeps by auto
      note width_fits [where c = prev, OF items Cons.prems(1) ix(1) width0 a0 assms(3,2) st2 cand this]
      ultimately obtain boundaries where rest: "computes lw f s (wrap_line_loop lw wrap_width rest (st2\<lparr>ls_prev_c := prev\<rparr>)) (ret boundaries)"
        "?good (st2\<lparr>ls_prev_c := prev\<rparr>) boundaries"
        using IH [of "st2\<lparr>ls_prev_c := prev\<rparr>"] by blast
      have "computes lw f s (wrap_line_loop lw wrap_width (candidate # rest) st) (ret boundaries)"
        using False rest(1) by (intro step) (simp only: if_False)
      with rest(2) show ?thesis by (intro exI [of _ boundaries]) (simp add: keeps)
    qed
  qed
qed

definition fragment_ok :: "'u::floor_ceiling line_fragment \<Rightarrow> bool" where
  "fragment_ok fragment = (case fragment of Fragment_Text chars \<Rightarrow> True | Fragment_Element width len \<Rightarrow> 0 < len \<and> 0 \<le> width)"

lemma fragment_candidates_ok:
  assumes "\<forall>fragment \<in> set fragments. fragment_ok fragment" "\<forall>c. 0 \<le> w c"
  shows "\<forall>item \<in> set (concat (map wrap_boundary_candidates fragments)). 0 < candidate_len item \<and> 0 \<le> item_width_of w item"
proof
  fix item assume "item \<in> set (concat (map wrap_boundary_candidates fragments))"
  then obtain fragment where "fragment \<in> set fragments" "item \<in> set (wrap_boundary_candidates fragment)" by auto
  with assms show "0 < candidate_len item \<and> 0 \<le> item_width_of w item"
    by (cases fragment) (auto simp: wrap_boundary_candidates_def candidate_len_def item_width_of_def fragment_ok_def dest!: bspec [of _ _ fragment])
qed

lemma wrap_line_gives:
  fixes lw :: "('f, 'u::floor_ceiling) width_fun"
  assumes "\<forall>fragment \<in> set fragments. fragment_ok fragment" "\<forall>c. 0 \<le> lw f s c" "0 \<le> wrap_width"
  defines "items \<equiv> concat (map wrap_boundary_candidates fragments)"
  shows "\<exists>boundaries. computes lw f s (wrap_line lw fragments wrap_width) (ret boundaries) \<and> sorted_wrt (<) (0 # map lb_ix boundaries) \<and>
    (\<forall>boundary \<in> set boundaries. starts_at items (lb_ix boundary) \<and> lb_next_indent boundary \<le> MAX_INDENT) \<and>
    lines_wrapped (item_width_of (lw f s)) (lw f s (CHR '' '')) wrap_width items 0 0 boundaries"
proof -
  let ?new = "wrap_line_state_new :: 'u wrap_line_state"
  have "ls_inv items [] (ls_index ?new) ?new" by (simp add: ls_inv_def wrap_line_state_new_def)
  moreover have "width_inv (item_width_of (lw f s)) (lw f s (CHR '' '')) wrap_width items (ls_index ?new) ?new"
    by (simp add: width_inv_def wrap_line_state_new_def starts_fit_def indent_width_def)
  moreover have "ls_last_wrap_ix ?new = 0" "ls_indent ?new = None" by (simp_all add: wrap_line_state_new_def)
  moreover note wrap_line_loop_gives [of items lw f s, OF fragment_candidates_ok [OF assms(1,2), folded items_def] assms(3) _ append_Nil [symmetric]]
  ultimately show ?thesis using assms(2) unfolding wrap_line_def items_def by fastforce
qed

end
