(* ===== verification/Line_Wrapper_Properties.thy ===== *)
theory Line_Wrapper_Properties
  imports Line_Break_Widths Complex_Main
begin

text \<open>
  What the line wrapper promises: truncated text fits into its width and its runs cover it, lines are broken in order and where the
  width asks for it, and nothing panics.
\<close>

text \<open>A wrapper for a font in which every character is ten wide.\<close>

definition sample_widths :: "(nat, rat) width_fun" where
  "sample_widths font_id font_size c = 10"

definition sample_wrapper :: "(rat, nat) line_wrapper" where
  "sample_wrapper = line_wrapper_new 1 12 char_width_cache_default"

lemma sample_wrapper_ok: "widths_ok sample_widths sample_wrapper"
  by (simp add: sample_wrapper_def widths_ok_new)

section \<open>Truncation\<close>

text \<open>C27: A truncated text fits: if the affix alone is narrower than the width and the runs cover the line, truncate_line does not panic,
  whatever widths are cached, and returns either the line as it is, whose width rounded down is within the limit, or the line with a part
  replaced by the affix (its start, its end or a part in the middle, as asked for), which is not wider than the limit; the lengths of the
  runs add up to the length of what is returned, and the cache still holds true widths.\<close>

theorem truncated_text_fits:
  fixes self :: "('u::floor_ceiling, 'f) line_wrapper" and layout_width :: "('f, 'u) width_fun" and runs :: "'r text_run list"
  assumes "widths_ok layout_width self" "\<forall>c. 0 \<le> layout_width (lr_font_id self) (lr_font_size self) c"
    and "text_width (layout_width (lr_font_id self) (lr_font_size self)) affix < truncate_width" "sum_list (map tr_len runs) = str_len line"
  shows "\<exists>result runs' self'. run_state (truncate_line layout_width line truncate_width affix runs truncate_from) self = (ret (result, runs'), self') \<and>
    widths_ok layout_width self' \<and> sum_list (map tr_len runs') = str_len result \<and>
    (result = line \<and> runs' = runs \<and> of_int \<lfloor>text_width (layout_width (lr_font_id self) (lr_font_size self)) line\<rfloor> \<le> truncate_width \<or>
     replaced line affix truncate_from result \<and> text_width (layout_width (lr_font_id self) (lr_font_size self)) result \<le> truncate_width)"
  using truncate_line_gives [where lw = layout_width, OF assms(2,3) assms(4) [symmetric], of truncate_from] assms(1)
  unfolding computes_def truncated_ok_def by metis

theorem truncated_text_fits_witness:
  "\<exists>result runs' self'. run_state (truncate_line sample_widths ''hello world'' 60 ''..'' [\<lparr>tr_len = 11, tr_style = True\<rparr>] Truncate_End) sample_wrapper =
      (ret (result, runs'), self') \<and> sum_list (map tr_len runs') = str_len result \<and> replaced ''hello world'' ''..'' Truncate_End result \<and>
     text_width (sample_widths 1 12) result \<le> 60"
proof -
  have font: "lr_font_id sample_wrapper = 1" "lr_font_size sample_wrapper = 12" by (simp_all add: sample_wrapper_def line_wrapper_new_def)
  have "text_width (sample_widths 1 12) ''hello world'' = 110" "text_width (sample_widths 1 12) ''..'' = 20" "str_len ''hello world'' = 11"
    by (simp_all add: sample_widths_def char_len_utf8_def code_point_def)
  with truncated_text_fits [OF sample_wrapper_ok, of "''..''" 60 "[\<lparr>tr_len = 11, tr_style = True\<rparr>]" "''hello world''" Truncate_End]
  show ?thesis unfolding font by (auto simp: sample_widths_def)
qed

section \<open>Several lines\<close>

text \<open>Truncating to several lines: the text as it is, or a beginning of it with the affix in place of the rest, with runs that cover it.\<close>

lemma truncate_wrapped_line_returns:
  fixes self :: "('u::floor_ceiling, 'f) line_wrapper" and layout_width :: "('f, 'u) width_fun" and runs :: "'r text_run list"
  assumes "widths_ok layout_width self" "\<forall>c. 0 \<le> layout_width (lr_font_id self) (lr_font_size self) c"
    and "sum_list (map tr_len runs) = str_len line" "1 < max_lines"
  shows "\<exists>result runs' self'. run_state (truncate_wrapped_line layout_width line wrap_width max_lines affix runs Truncate_End) self = (ret (result, runs'), self') \<and>
      widths_ok layout_width self' \<and> sum_list (map tr_len runs') = str_len result \<and>
      (result = line \<and> runs' = runs \<or> replaced line affix Truncate_End result)"
  using truncate_wrapped_gives [where lw = layout_width, OF assms(2) assms(3) [symmetric] assms(4), of wrap_width affix] assms(1)
  unfolding computes_def wrapped_ok_def by metis

text \<open>C24: wrap_line breaks a line of text and elements where it has to, whatever widths are cached, if no character or element has a negative
  width, no element has the length zero, and the wrap width is not negative. It does not panic; the boundaries are in ascending order, after the
  start, each at the start of a character or an element, with an indent of at most MAX_INDENT. In every line, the last one included, each
  character but newlines and each element starts within the wrap width of the start of its line (the indent not counted), and a line is only broken
  off if the line and its indent, up to and with some item at its end or later, are over the wrap width. The cache still holds true widths.\<close>

theorem several_lines_in_order:
  fixes self :: "('u::floor_ceiling, 'f) line_wrapper" and layout_width :: "('f, 'u) width_fun"
  defines "width_of \<equiv> layout_width (lr_font_id self) (lr_font_size self)"
  assumes "widths_ok layout_width self" "\<forall>c. 0 \<le> width_of c" "\<forall>fragment \<in> set fragments. fragment_ok fragment" "0 \<le> wrap_width"
  defines "items \<equiv> concat (map wrap_boundary_candidates fragments)"
  shows "\<exists>boundaries self'. run_state (wrap_line layout_width fragments wrap_width) self = (ret boundaries, self') \<and> widths_ok layout_width self' \<and>
      sorted_wrt (<) (0 # map lb_ix boundaries) \<and>
      (\<forall>boundary \<in> set boundaries. starts_at items (lb_ix boundary) \<and> lb_next_indent boundary \<le> MAX_INDENT) \<and>
      lines_wrapped (item_width_of width_of) (width_of (CHR '' '')) wrap_width items 0 0 boundaries"
  using wrap_line_gives [of fragments layout_width "lr_font_id self" "lr_font_size self" wrap_width] assms(2-5) unfolding computes_def width_of_def items_def by blast

theorem several_lines_in_order_witness:
  "\<exists>boundaries self'. run_state (wrap_line sample_widths [Fragment_Text ''hello world'', Fragment_Element 20 1] 60) sample_wrapper = (ret boundaries, self') \<and>
     sorted_wrt (<) (0 # map lb_ix boundaries) \<and>
     lines_wrapped (item_width_of (sample_widths 1 12)) 10 60 (concat (map wrap_boundary_candidates [Fragment_Text ''hello world'', Fragment_Element 20 1])) 0 0 boundaries"
proof -
  let ?fragments = "[Fragment_Text ''hello world'', Fragment_Element (20 :: rat) 1]"
  have font: "lr_font_id sample_wrapper = 1" "lr_font_size sample_wrapper = 12" by (simp_all add: sample_wrapper_def line_wrapper_new_def)
  have space: "sample_widths 1 12 (CHR '' '') = 10" "\<forall>c. 0 \<le> sample_widths (lr_font_id sample_wrapper) (lr_font_size sample_wrapper) c"
    by (simp_all add: sample_widths_def)
  have "\<forall>fragment \<in> set ?fragments. fragment_ok fragment" "(0 :: rat) \<le> 60" by (simp_all add: fragment_ok_def)
  from several_lines_in_order [OF sample_wrapper_ok space(2) this] show ?thesis unfolding font space(1) by blast
qed

end
