(* ===== verification/Spec2Isabelle.thy ===== *)
theory Spec2Isabelle
  imports TreeMap_Properties Keymap_Properties Geometry_Properties Bounds_Tree_Properties Subscription_Properties
    Tab_Stop_Properties Entity_Map_Properties Key_Dispatch_Properties Dispatch_Tree_Properties
    Scene_Properties Priority_Queue_Properties List_Properties Text_Properties
    Line_Wrapper_Properties
begin

text \<open>
  A verification development for \<open>guic-gpui\<close>, a UI framework in Rust. Paths are below \<open>src/crates/\<close>.

  The program. \<open>sum_tree\<close> is its central data structure: a balanced tree of items in which every node
  caches a summary of what is below it, read through cursors that seek by any dimension of the summary;
  \<open>TreeMap\<close> and \<open>TreeSet\<close> are the ordered containers on top of it. \<open>gpui\<close> is the framework: of it the
  keymap (contexts, the predicate language, keystrokes, bindings and their precedence), the dispatch tree of a
  frame, along whose paths keystrokes find their bindings in the keymap, the map of entities and the counted
  handles to them, the geometry of rectangles, the tree that orders overlapping rectangles for painting, the scene
  that gets its draw orders there and is drawn in batches, the sets of subscribers behind observers and events, the tab order,
  which is again kept in a \<open>SumTree\<close>, the queue through which threads get their tasks, the list element, which keeps
  items of different heights in a \<open>SumTree\<close> and scrolls over them, the layout of lines of text with its cache over two frames, and the wrapper that
  breaks and truncates lines.

  How the code is read. A function that can panic (an index out of range, an \<open>unwrap\<close> of nothing, an
  arithmetic underflow, a failed assertion, a full fixed-capacity vector) returns an option type, \<open>rust\<close>, whose
  \<open>None\<close> is the panic. Traits are dictionaries: records of functions that the generic code takes as an
  argument (\<open>item_ops\<close>, \<open>dim_ops\<close>, \<open>keyed_ops\<close>, \<open>action_ops\<close>); what the code relies on of an implementation
  is a locale (\<open>summary_laws\<close>, \<open>dimension_laws\<close>, \<open>seek_aggregate\<close>, \<open>two_dimensions\<close>, \<open>keyed_items\<close>, \<open>comparison\<close>),
  interpreted on the implementations the program has: the entries of \<open>TreeMap\<close>, the nodes of the tab order,
  the ranks of bindings. \<open>&mut self\<close> is a state that is returned. \<open>Arc\<close> and \<open>Rc\<close> are left out where the
  sharing cannot be observed; a shared cell is part of the state.

  The theories.

  \<^item> \<open>Prelude\<close>: panics, orderings, checked arithmetic, fixed capacities, and lemmas on lists.
  \<^item> \<open>SumTree\<close>, \<open>SumTree_Append\<close>, \<open>SumTree_Build\<close>, \<open>SumTree_Find\<close>, \<open>SumTree_Keyed\<close>: \<open>sum_tree/src/sum_tree.rs\<close>.
    A tree is a \<open>datatype\<close> with the constructors of \<open>Node\<close>; \<open>wf_tree\<close> is the invariant (capacity, equal height,
    cached summaries) and \<open>tree_items\<close> the sequence the tree stands for. Every operation is shown not to
    panic on well-formed trees, to keep the invariant and to be the matching operation on sequences.
  \<^item> \<open>Cursor\<close>, \<open>Cursor_Path\<close>, \<open>Cursor_Forward\<close>, \<open>Cursor_Backward\<close>, \<open>Cursor_Seek\<close>, \<open>Cursor_Iter\<close>: \<open>sum_tree/src/cursor.rs\<close> with
    its explicit stack, one definition per method, one per loop. \<open>cursor_ok\<close> relates the stack and the
    position of a cursor to the items before and after it; each movement is shown to go from one such
    state to the next.
  \<^item> \<open>TreeMap\<close>: \<open>sum_tree/src/tree_map.rs\<close>, as a refinement of a partial function.
  \<^item> \<open>SumTree_Properties\<close>, \<open>TreeMap_Properties\<close>: what these promise, with concrete trees as examples.
  \<^item> \<open>Rust_Text\<close>, \<open>Rust_Sort\<close>: the methods of \<open>char\<close>, \<open>str\<close> and slices the keymap uses.
  \<^item> \<open>Key_Context\<close>, \<open>Predicate_Parser\<close>: \<open>gpui/src/keymap/context.rs\<close>; \<open>Keystroke\<close>: \<open>gpui/src/platform/keystroke.rs\<close>; \<open>Keymap\<close>:
    \<open>gpui/src/keymap.rs\<close> and \<open>gpui/src/keymap/binding.rs\<close>; \<open>Keymap_Properties\<close>: round trips of the parsers and printers,
    termination, the meaning of predicates, and the rules by which a binding is chosen.
  \<^item> \<open>Geometry\<close>, \<open>Geometry_Properties\<close>: points, sizes, bounds, edges and anchors of \<open>gpui/src/geometry.rs\<close>; bounds are
    compared with the sets of points they contain.
  \<^item> \<open>Bounds_Tree\<close>: \<open>gpui/src/bounds_tree.rs\<close> with its vector of nodes that refer to each other by index.
    \<open>Bounds_Tree_Search\<close> holds the invariant \<open>bt_inv\<close> (every node has one parent, bounds and orders of an inner node
    are those of its children, the child with the highest order is last) and the correctness of the
    pruned search, \<open>Bounds_Tree_Insert\<close> that an insertion keeps the invariant, \<open>Bounds_Tree_Properties\<close> the
    refinement of a list of rectangles with their orders.
  \<^item> \<open>Subscriptions\<close>, \<open>Subscription_Properties\<close>: \<open>gpui/src/subscription.rs\<close>. The callback of \<open>retain\<close> may use the set again:
    it is a function on the state, and \<open>well_behaved\<close> says that it changes it by the operations of the set only, a \<open>retain\<close> of any emitter
    inside it included.
  \<^item> \<open>Tab_Stops\<close>, \<open>Tab_Stop_Properties\<close>: \<open>gpui/src/tab_stop.rs\<close> as a client of \<open>SumTree\<close>; \<open>ts_inv\<close> relates the tree, the
    history and the map of focus ids.
  \<^item> \<open>Entity_Map\<close>: \<open>gpui/src/app/entity_map.rs\<close>. \<open>Entity_Map_Machine\<close> is the map with all handles, slots, leases and weak references
    that a program has, as a state machine; its invariant says that every count is the number of handles and slots.
    \<open>Entity_Map_Properties\<close>: which calls on what a program owns panic (to lease or read an entity that was not inserted yet or is out on
    a lease, and to drop a lease that was not ended) and that the others return, entities are released once, weak references are sound.
  \<^item> \<open>Key_Dispatch\<close>: \<open>gpui/src/key_dispatch.rs\<close>. \<open>Key_Dispatch_Properties\<close>: what happens to keystrokes that were held back.
    \<open>Dispatch_Tree\<close> holds the invariant of the tree (a parent comes before its children, the three stacks are those of the path
    to the active node), \<open>Dispatch_Reuse\<close> the move of a subtree into the next frame, \<open>Dispatch_Machine\<close> the calls that draw a frame as a
    state machine, \<open>Dispatch_Tree_Properties\<close> what the tree promises.
  \<^item> \<open>Scene\<close>: \<open>gpui/src/scene.rs\<close>, a client of \<open>Bounds_Tree\<close>. \<open>Scene_Batches\<close> follows the iterator of batches to its end,
    \<open>Scene_Properties\<close> shows that everything painted is drawn once, that what is painted later lies on top, and that the painting
    calls of the last frame can be replayed.
  \<^item> \<open>Priority_Queue\<close>: \<open>gpui/src/queue.rs\<close> and the priorities of \<open>scheduler/src/scheduler.rs\<close>. \<open>Priority_Queue_Properties\<close> runs sequences of
    calls by several threads: tasks of one priority keep their order and none is lost, and which threads are woken.
  \<^item> \<open>List_State\<close>, \<open>List_Layout\<close>: \<open>gpui/src/elements/list.rs\<close>, the state of a list with the operations on it, and the measuring, layout, prepaint
    and autoscroll of its items, one definition per loop. \<open>List_Items\<close> interprets the laws of the sum tree on the items and finds them by number
    and by height, \<open>List_Scroll\<close> holds the invariant \<open>list_inv\<close> and says what the operations do to the sequence of items (\<open>rows\<close>) and to the pixels
    above the viewport (\<open>scroll_px\<close>), \<open>List_Viewport\<close> follows the loops of a layout, \<open>List_Prepaint\<close> those of a prepaint with its autoscroll, \<open>List_Steps\<close> has the
    states that a list can reach by its operations, layouts and prepaints, \<open>List_Properties\<close> what it promises.
  \<^item> \<open>Line_Layout\<close>: \<open>LineLayout\<close>, \<open>WrappedLineLayout\<close> and \<open>apply_force_width_to_layout\<close> of \<open>gpui/src/text_system/line_layout.rs\<close>. \<open>Line_Positions\<close> takes
    the glyphs of a line as one sequence (\<open>line_ok\<close>, \<open>wraps_at\<close>) and follows the searches for an index and for a position, \<open>Line_Wrapping\<close> the loop that
    wraps a line. \<open>Line_Cache\<close> is the \<open>LineLayoutCache\<close> of the same file, \<open>Line_Cache_Machine\<close> the states it reaches with the invariant \<open>cache_ok\<close>
    (every entry is what shaping afresh gives), \<open>Line_Reuse\<close> the invariant \<open>uses_ok\<close> (what was used in a frame is still there),
    \<open>Text_Properties\<close> what lines and cache promise.
  \<^item> \<open>Line_Wrapper\<close>: \<open>gpui/src/text_system/line_wrapper.rs\<close>, in the state monad over the \<open>LineWrapper\<close> with its cache of the widths of characters.
    \<open>Line_Truncation\<close> has the rules by which a computation is followed as if no width were cached (\<open>computes\<close>), and what truncation does to a
    text and its runs; \<open>Line_Breaks\<close> follows the loop that truncates a text to a number of lines, \<open>Line_Break_Widths\<close> the one that
    breaks a line, with the widths of what it leaves in each line; \<open>Line_Wrapper_Properties\<close> is what the wrapper promises.
\<close>

text \<open>
  Bounds, loops and fuel. \<open>TREE_BASE\<close> is 6, its value outside tests. The stack of a cursor has room
  for 16 entries (\<open>STACK_CAP\<close>); the theorems on cursors assume a tree lower than that, and the code panics on
  a higher one. Loops over a cursor (\<open>items\<close>, an iterator that is drained, the walks of the tab order) take the weight of the
  tree as fuel, which is above the number of its items; the inner loops of a cursor end by a measure. The
  predicate parser has fuel for twice the length of the source and two, and a theorem shows that this
  is always enough. The recursion of \<open>KeyContext::parse\<close> and the loops of the spatial tree are partial functions: a theorem says
  on which sources the first returns, and that the second return on every tree that meets the invariant. So are the walks up the
  parents of a dispatch tree, shown to return on every tree that the calls of a frame can build.
  Orders are \<open>u32\<close>: an insertion that would pass the largest one is a panic. Counters of type \<open>usize\<close>
  (ids of subscribers, lengths, weights) are natural numbers, as their values stay below what memory holds.

  What is read more simply than it is written. Characters are those of Isabelle, which cover Latin-1:
  on these \<open>is_alphanumeric\<close> and \<open>is_whitespace\<close> are those of the Unicode tables. Sorting by
  \<open>sort_unstable_by_key\<close> is a stable sort, which agrees with it on distinct keys. Coordinates are an ordered
  abelian group: exact for integers and fixed-point lengths, without the rounding and the NaN of \<open>f32\<close>; halving is
  an argument. The parallel builders of trees split their input as the code does and are otherwise sequential. A
  hash map is a function or an association list; nothing depends on its order. The
  actions bound to keys, the keyboard mapper and the emitters of events are type variables or dictionaries; the registry of
  actions is the function that builds the action of a type. The crate \<open>slotmap\<close> is the function \<open>slot_key\<close> that gives the key of the
  \<open>n\<close>th insertion; the theorems assume that it gives no key twice, as the crate documents. Counts are changed by one thread
  at a time, so that a compare-and-exchange succeeds at once. Assertions that are compiled for debugging are panics.
  What only the shaders read of a painted primitive is one field of any type. The random generator of the crate \<open>rand\<close> is the
  function \<open>ratio\<close>, of which the theorems assume that a ratio of one comes out true, as the crate documents. A call on the task queue is one
  step, since it holds the lock; threads that wait on the condition variable or were notified are counted, and wake up only when notified.
  The elements of a list are drawn by client code: \<open>list_client\<close> is the dictionary of what the list calls, on the state of the window, and the
  theorems on a layout assume that no element has a negative height (\<open>sizes_ok\<close>). Lengths of a list are an ordered field, since a pending
  scroll can be a fraction of a height. Where a tree is rebuilt and then walked, that it is lower than the stack of a cursor is a
  hypothesis again (\<open>low_slice\<close>, \<open>low_layout\<close>, \<open>low_prepaint\<close>).

  What the platform shapes a line to is the function \<open>shape\<close>; lengths of lines are an archimedean field, and the theorems on positions assume that
  glyphs go from left to right and no further than the width (\<open>line_ok\<close>). The contracts that the cache states for its callers are arguments of
  \<open>cache_reaches\<close>: the texts a hash and a length stand for, and the limits on the lines with which callers ask for a wrapped line,
  which the cache leaves out of its key; where there is one text and one limit, the cache cannot be observed.

  In the line wrapper, the width that the text system gives for a character in a font is the function \<open>layout_width\<close>, of which the theorems assume
  that it is never negative; an indent is cut to 32 bits as in the code.

  Not modelled: the loop of effects of the application (\<open>app.rs\<close>, \<open>app/\<close> without \<open>entity_map.rs\<close>) and the detector of leaked handles,
  which is compiled for tests only; windows (\<open>window.rs\<close>), elements but for the list, styles and layout (\<open>elements/\<close>, \<open>style.rs\<close>, \<open>taffy.rs\<close>), text shaping and the painting of text,
  colours, paths and transformations of a scene, the executors and the scheduler, and the platform back ends; the procedural macros, \<open>refineable\<close>, \<open>http_client\<close>,
  \<open>media\<close>, examples and tests. Most of it calls into the operating system, the GPU or third-party crates; the test
  scheduler is the next candidate, since it has state and contracts of its own.
\<close>

end
